(* ===== verification/Prelude.thy ===== *)
theory Prelude
  imports Main "HOL-Library.Word" "HOL-Library.Monad_Syntax"
begin

unbundle bit_operations_syntax

text \<open>
  Shared vocabulary of the development: the machine integers of the C code, the
  option monad in which partial operations are written, and generic facts on
  words, lists and maps.

  A C function that may fail an \<open>assert\<close>, read outside an array, follow a NULL
  pointer or loop forever is a function into \<open>'a option\<close>: \<open>None\<close> is that failure,
  \<open>Some r\<close> is a normal return.  A value the code itself returns as an error
  (\<open>NULL\<close>, \<open>-1\<close>, \<open>luaL_error\<close>) is part of \<open>r\<close> and never \<open>None\<close>.
\<close>

section \<open>Machine integers\<close>

type_synonym u8 = "8 word"
type_synonym u16 = "16 word"
type_synonym u32 = "32 word"
type_synonym u64 = "64 word"

text \<open>A \<open>uint32_t\<close> service address.\<close>

type_synonym handle = "32 word"

text \<open>An address of a heap object (a context, a queue, a message buffer); 0 is NULL where a
  field may hold NULL.\<close>

type_synonym addr = nat

section \<open>Assertions\<close>

definition assert_that :: "bool \<Rightarrow> unit option" where
  "assert_that b = (if b then Some () else None)"

lemma assert_that_simps [simp]:
  "assert_that True = Some ()"
  "assert_that False = None"
  "assert_that b = Some u \<longleftrightarrow> b"
  by (auto simp: assert_that_def)

lemma bind_assert [simp]: "(assert_that b \<bind> f) = (if b then f () else None)"
  by (simp add: assert_that_def)

text \<open>The result of an operation on a C \<open>int\<close>: leaving its range is a failure.\<close>

definition int_range :: "int \<Rightarrow> int option" where
  "int_range i = (if - (2 ^ 31) \<le> i \<and> i < 2 ^ 31 then Some i else None)"

section \<open>Bounds-checked array access\<close>

definition arr_get :: "'a list \<Rightarrow> nat \<Rightarrow> 'a option" where
  "arr_get xs i = (if i < length xs then Some (xs ! i) else None)"

definition arr_set :: "'a list \<Rightarrow> nat \<Rightarrow> 'a \<Rightarrow> 'a list option" where
  "arr_set xs i v = (if i < length xs then Some (xs[i := v]) else None)"

lemma arr_get_Some [simp]: "arr_get xs i = Some v \<longleftrightarrow> i < length xs \<and> xs ! i = v"
  by (auto simp: arr_get_def)

lemma arr_get_in [simp]: "i < length xs \<Longrightarrow> arr_get xs i = Some (xs ! i)"
  by (simp add: arr_get_def)

lemma arr_set_in [simp]: "i < length xs \<Longrightarrow> arr_set xs i v = Some (xs[i := v])"
  by (simp add: arr_set_def)

lemma arr_set_Some [simp]: "arr_set xs i v = Some ys \<longleftrightarrow> i < length xs \<and> ys = xs[i := v]"
  by (auto simp: arr_set_def)

section \<open>Masks and shifts as arithmetic\<close>

lemma unat_and_mask: "unat (x AND mask k :: 'a::len word) = unat x mod 2 ^ k"
  by (simp only: take_bit_eq_mask [symmetric] unsigned_take_bit_eq take_bit_eq_mod [of _ "unat x"])

lemma unat_shiftr: "unat (drop_bit k x :: 'a::len word) = unat x div 2 ^ k"
  by (metis drop_bit_eq_div unat_drop_bit_eq)

end
