(* ===== verification/Fifo.thy ===== *)
theory Fifo
  imports Prelude
begin

text \<open>
  The interface of a first-in first-out queue whose operations may fail, and what a
  client may conclude from it: any sequence of insertions and removals behaves as on a
  plain list.  Interpreted by the message queue of \<^verbatim>\<open>skynet_mq.c\<close> and by the package
  queue of \<^verbatim>\<open>lua-netpack.c\<close>.
\<close>

datatype 'a fifo_op = Enq 'a | Deq

fun run_fifo ::
  "('a \<Rightarrow> 'q \<Rightarrow> 'q option) \<Rightarrow> ('q \<Rightarrow> ('a option \<times> 'q) option) \<Rightarrow>
   'a fifo_op list \<Rightarrow> 'q \<Rightarrow> ('a option list \<times> 'q) option" where
  "run_fifo enq deq [] q = Some ([], q)"
| "run_fifo enq deq (Enq x # ops) q = do { q' \<leftarrow> enq x q; run_fifo enq deq ops q' }"
| "run_fifo enq deq (Deq # ops) q = do {
     (r, q') \<leftarrow> deq q;
     (rs, q'') \<leftarrow> run_fifo enq deq ops q';
     Some (r # rs, q'') }"

text \<open>The specification: the same operations on a list.\<close>

fun spec_fifo :: "'a fifo_op list \<Rightarrow> 'a list \<Rightarrow> 'a option list \<times> 'a list" where
  "spec_fifo [] xs = ([], xs)"
| "spec_fifo (Enq x # ops) xs = spec_fifo ops (xs @ [x])"
| "spec_fifo (Deq # ops) xs =
     (let (rs, ys) = spec_fifo ops (tl xs)
      in ((case xs of [] \<Rightarrow> None | x # _ \<Rightarrow> Some x) # rs, ys))"

locale fifo =
  fixes enq :: "'a \<Rightarrow> 'q \<Rightarrow> 'q option"
    and deq :: "'q \<Rightarrow> ('a option \<times> 'q) option"
    and contents :: "'q \<Rightarrow> 'a list"
    and wf :: "'q \<Rightarrow> bool"
  assumes enq_spec: "wf q \<Longrightarrow> \<exists>q'. enq x q = Some q' \<and> wf q' \<and> contents q' = contents q @ [x]"
    and deq_empty: "wf q \<Longrightarrow> contents q = [] \<Longrightarrow>
          \<exists>q'. deq q = Some (None, q') \<and> wf q' \<and> contents q' = []"
    and deq_cons: "wf q \<Longrightarrow> contents q = x # xs \<Longrightarrow>
          \<exists>q'. deq q = Some (Some x, q') \<and> wf q' \<and> contents q' = xs"
begin

lemma run_spec:
  "wf q \<Longrightarrow> \<exists>q'. run_fifo enq deq ops q = Some (fst (spec_fifo ops (contents q)), q')
     \<and> wf q' \<and> contents q' = snd (spec_fifo ops (contents q))"
proof (induction ops arbitrary: q)
  case Nil
  then show ?case by simp
next
  case (Cons op ops)
  show ?case
  proof (cases op)
    case (Enq x)
    with Cons enq_spec [of q x] show ?thesis by fastforce
  next
    case Deq
    show ?thesis
    proof (cases "contents q")
      case Nil
      with Cons.prems obtain q' where q': "deq q = Some (None, q')" "wf q'" "contents q' = []"
        using deq_empty by blast
      then show ?thesis
        using Cons.IH [OF q'(2)] Deq Nil by (auto simp: split_beta)
    next
      case (Cons x xs)
      with Cons.prems obtain q' where q': "deq q = Some (Some x, q')" "wf q'" "contents q' = xs"
        using deq_cons by blast
      then show ?thesis
        using Cons.IH [OF q'(2)] Deq Cons by (auto simp: split_beta)
    qed
  qed
qed

end

lemma spec_fifo_enqs:
  "spec_fifo (map Enq ys @ ops) xs = spec_fifo ops (xs @ ys)"
  by (induction ys arbitrary: xs) auto

lemma spec_fifo_deqs:
  "n \<le> length xs \<Longrightarrow> spec_fifo (replicate n Deq) xs = (map Some (take n xs), drop n xs)"
proof (induction n arbitrary: xs)
  case 0
  then show ?case by simp
next
  case (Suc n)
  then show ?case by (cases xs) auto
qed

section \<open>Indices of a ring\<close>

lemma mod_ring: "h < n \<Longrightarrow> i < n \<Longrightarrow> (h + i) mod n = (if h + i < n then h + i else h + i - n)"
  for n :: nat
  by (simp add: le_mod_geq)

lemma mod_ring_inj: "i < n \<Longrightarrow> j < n \<Longrightarrow> h < n \<Longrightarrow> (h + i) mod n = (h + j) mod n \<longleftrightarrow> i = j"
  for n :: nat
  by (auto simp: mod_ring split: if_splits)

lemma upt_conv_ConsD: "n > 0 \<Longrightarrow> map f [0..<n] = f 0 # map (\<lambda>i. f (Suc i)) [0..<n - 1]"
  by (cases n) (simp_all add: upt_conv_Cons map_Suc_upt [symmetric] del: upt_Suc)

end
