(* ===== verification/MessageQueue.thy ===== *)
theory MessageQueue
  imports Fifo
begin

text \<open>
  \<^verbatim>\<open>skynet-src/skynet_mq.c\<close>: the message queue of a service (a ring buffer that doubles
  when it is full) and the global queue of services that have work (a list linked through
  the \<open>next\<close> field of the message queues themselves).

  The queues live in a heap \<open>mqs\<close> from addresses to records, so that the linking and its
  assertions (\<open>queue->next == NULL\<close>) are those of the code.  The state record is
  extensible: the node of \<open>Server\<close> adds its own fields to it.  The indices are C
  \<open>int\<close>s bounded by \<open>cap\<close> and are \<open>nat\<close> here; so is \<open>cap\<close>, which the code would double beyond an
  \<open>int\<close> only when \<open>2 ^ 30 - 1\<close> messages wait in one queue.  A slot of the ring that was never
  written is \<open>None\<close>, so reading one is a failure of the model.
\<close>

section \<open>Data\<close>

record skynet_message =
  m_source :: handle
  m_session :: u32
  m_data :: addr
  m_sz :: u64

record message_queue =
  q_handle :: handle
  q_cap :: nat
  q_head :: nat
  q_tail :: nat
  q_release :: bool
  q_in_global :: bool
  q_overload :: nat
  q_threshold :: nat
  q_queue :: "skynet_message option list"
  q_next :: "addr option"

record mq_state =
  mqs :: "addr \<rightharpoonup> message_queue"
  gq_head :: "addr option"
  gq_tail :: "addr option"

definition DEFAULT_QUEUE_SIZE :: nat where "DEFAULT_QUEUE_SIZE = 64"
definition MQ_OVERLOAD :: nat where "MQ_OVERLOAD = 1024"

section \<open>The ring buffer of one queue\<close>

definition mq_new :: "handle \<Rightarrow> message_queue" where
  "mq_new h = \<lparr>q_handle = h, q_cap = DEFAULT_QUEUE_SIZE, q_head = 0, q_tail = 0,
     q_release = False, q_in_global = True, q_overload = 0, q_threshold = MQ_OVERLOAD,
     q_queue = replicate DEFAULT_QUEUE_SIZE None, q_next = None\<rparr>"

definition mq_length :: "message_queue \<Rightarrow> nat" where
  "mq_length q =
     (if q_head q \<le> q_tail q then q_tail q - q_head q else q_tail q + q_cap q - q_head q)"

text \<open>\<open>while (length > overload_threshold) { overload = length; overload_threshold *= 2; }\<close>\<close>

partial_function (option) overload_loop :: "nat \<Rightarrow> nat \<Rightarrow> nat \<Rightarrow> (nat \<times> nat) option" where
  "overload_loop len ov th =
     (if len > th then overload_loop len len (th * 2) else Some (ov, th))"

definition mq_ring_pop :: "message_queue \<Rightarrow> (skynet_message option \<times> message_queue) option" where
  "mq_ring_pop q =
     (if q_head q \<noteq> q_tail q then do {
        slot \<leftarrow> arr_get (q_queue q) (q_head q);
        m \<leftarrow> slot;
        let head = (if q_head q + 1 \<ge> q_cap q then 0 else q_head q + 1);
        let len0 = int (q_tail q) - int head;
        let len = (if len0 < 0 then len0 + int (q_cap q) else len0);
        (ov, th) \<leftarrow> overload_loop (nat len) (q_overload q) (q_threshold q);
        Some (Some m, q\<lparr>q_head := head, q_overload := ov, q_threshold := th\<rparr>) }
      else Some (None, q\<lparr>q_threshold := MQ_OVERLOAD, q_in_global := False\<rparr>))"

definition expand_queue :: "message_queue \<Rightarrow> message_queue" where
  "expand_queue q = q\<lparr>
     q_queue := map (\<lambda>i. q_queue q ! ((q_head q + i) mod q_cap q)) [0..<q_cap q]
                @ replicate (q_cap q) None,
     q_head := 0, q_tail := q_cap q, q_cap := q_cap q * 2\<rparr>"

definition mq_ring_push :: "skynet_message \<Rightarrow> message_queue \<Rightarrow> message_queue option" where
  "mq_ring_push m q = do {
     buf \<leftarrow> arr_set (q_queue q) (q_tail q) (Some m);
     let tail = (if q_tail q + 1 \<ge> q_cap q then 0 else q_tail q + 1);
     let q1 = q\<lparr>q_queue := buf, q_tail := tail\<rparr>;
     Some (if q_head q1 = q_tail q1 then expand_queue q1 else q1) }"

section \<open>The global queue and the queue operations on the heap\<close>

definition skynet_globalmq_push :: "addr \<Rightarrow> 'z mq_state_scheme \<Rightarrow> 'z mq_state_scheme option" where
  "skynet_globalmq_push a s = do {
     q \<leftarrow> mqs s a;
     assert_that (q_next q = None);
     (case gq_tail s of
        Some t \<Rightarrow> do {
          tq \<leftarrow> mqs s t;
          Some (s\<lparr>mqs := (mqs s)(t \<mapsto> tq\<lparr>q_next := Some a\<rparr>), gq_tail := Some a\<rparr>) }
      | None \<Rightarrow> Some (s\<lparr>gq_head := Some a, gq_tail := Some a\<rparr>)) }"

definition skynet_globalmq_pop ::
  "'z mq_state_scheme \<Rightarrow> (addr option \<times> 'z mq_state_scheme) option" where
  "skynet_globalmq_pop s =
     (case gq_head s of
        None \<Rightarrow> Some (None, s)
      | Some a \<Rightarrow> do {
          q \<leftarrow> mqs s a;
          let s1 = s\<lparr>gq_head := q_next q\<rparr>;
          s2 \<leftarrow> (if q_next q = None
                then do { assert_that (gq_tail s = Some a); Some (s1\<lparr>gq_tail := None\<rparr>) }
                else Some s1);
          Some (Some a, s2\<lparr>mqs := (mqs s2)(a \<mapsto> q\<lparr>q_next := None\<rparr>)\<rparr>) })"

text \<open>The address of the new queue is the one \<open>skynet_malloc\<close> returned.\<close>

definition skynet_mq_create :: "addr \<Rightarrow> handle \<Rightarrow> 'z mq_state_scheme \<Rightarrow> 'z mq_state_scheme" where
  "skynet_mq_create a h s = s\<lparr>mqs := (mqs s)(a \<mapsto> mq_new h)\<rparr>"

definition mq_release_mem :: "addr \<Rightarrow> 'z mq_state_scheme \<Rightarrow> 'z mq_state_scheme option" where
  "mq_release_mem a s = do {
     q \<leftarrow> mqs s a;
     assert_that (q_next q = None);
     Some (s\<lparr>mqs := (mqs s)(a := None)\<rparr>) }"

definition skynet_mq_handle :: "addr \<Rightarrow> 'z mq_state_scheme \<Rightarrow> handle option" where
  "skynet_mq_handle a s = do { q \<leftarrow> mqs s a; Some (q_handle q) }"

definition skynet_mq_length :: "addr \<Rightarrow> 'z mq_state_scheme \<Rightarrow> nat option" where
  "skynet_mq_length a s = do { q \<leftarrow> mqs s a; Some (mq_length q) }"

definition skynet_mq_overload ::
  "addr \<Rightarrow> 'z mq_state_scheme \<Rightarrow> (nat \<times> 'z mq_state_scheme) option" where
  "skynet_mq_overload a s = do {
     q \<leftarrow> mqs s a;
     Some (if q_overload q \<noteq> 0
           then (q_overload q, s\<lparr>mqs := (mqs s)(a \<mapsto> q\<lparr>q_overload := 0\<rparr>)\<rparr>)
           else (0, s)) }"

definition skynet_mq_pop ::
  "addr \<Rightarrow> 'z mq_state_scheme \<Rightarrow> (skynet_message option \<times> 'z mq_state_scheme) option" where
  "skynet_mq_pop a s = do {
     q \<leftarrow> mqs s a;
     (r, q') \<leftarrow> mq_ring_pop q;
     Some (r, s\<lparr>mqs := (mqs s)(a \<mapsto> q')\<rparr>) }"

definition skynet_mq_push ::
  "addr \<Rightarrow> skynet_message \<Rightarrow> 'z mq_state_scheme \<Rightarrow> 'z mq_state_scheme option" where
  "skynet_mq_push a m s = do {
     q \<leftarrow> mqs s a;
     q' \<leftarrow> mq_ring_push m q;
     if \<not> q_in_global q'
     then skynet_globalmq_push a (s\<lparr>mqs := (mqs s)(a \<mapsto> q'\<lparr>q_in_global := True\<rparr>)\<rparr>)
     else Some (s\<lparr>mqs := (mqs s)(a \<mapsto> q')\<rparr>) }"

definition skynet_mq_init :: "'z mq_state_scheme \<Rightarrow> 'z mq_state_scheme" where
  "skynet_mq_init s = s\<lparr>gq_head := None, gq_tail := None\<rparr>"

definition skynet_mq_mark_release ::
  "addr \<Rightarrow> 'z mq_state_scheme \<Rightarrow> 'z mq_state_scheme option" where
  "skynet_mq_mark_release a s = do {
     q \<leftarrow> mqs s a;
     assert_that (\<not> q_release q);
     let s1 = s\<lparr>mqs := (mqs s)(a \<mapsto> q\<lparr>q_release := True\<rparr>)\<rparr>;
     if \<not> q_in_global q then skynet_globalmq_push a s1 else Some s1 }"

text \<open>\<open>_drop_queue\<close> hands every message left to \<open>drop_func\<close>, which may itself change the
  state, then frees the queue.\<close>

partial_function (option) drop_queue ::
  "addr \<Rightarrow> (skynet_message \<Rightarrow> 'z mq_state_scheme \<Rightarrow> 'z mq_state_scheme option) \<Rightarrow>
   'z mq_state_scheme \<Rightarrow> 'z mq_state_scheme option" where
  "drop_queue a drop_func s =
     Option.bind (skynet_mq_pop a s) (\<lambda>(r, s1).
       case r of
         None \<Rightarrow> mq_release_mem a s1
       | Some m \<Rightarrow> Option.bind (drop_func m s1) (\<lambda>s2. drop_queue a drop_func s2))"

definition skynet_mq_release ::
  "addr \<Rightarrow> (skynet_message \<Rightarrow> 'z mq_state_scheme \<Rightarrow> 'z mq_state_scheme option) \<Rightarrow>
   'z mq_state_scheme \<Rightarrow> 'z mq_state_scheme option" where
  "skynet_mq_release a drop_func s = do {
     q \<leftarrow> mqs s a;
     if q_release q then drop_queue a drop_func s else skynet_globalmq_push a s }"

section \<open>The ring buffer is a list\<close>

definition ring_wf :: "message_queue \<Rightarrow> bool" where
  "ring_wf q \<longleftrightarrow> q_head q < q_cap q \<and> q_tail q < q_cap q \<and> length (q_queue q) = q_cap q
     \<and> 0 < q_threshold q
     \<and> (\<forall>i < mq_length q. q_queue q ! ((q_head q + i) mod q_cap q) \<noteq> None)"

definition mq_contents :: "message_queue \<Rightarrow> skynet_message list" where
  "mq_contents q =
     map (\<lambda>i. the (q_queue q ! ((q_head q + i) mod q_cap q))) [0..<mq_length q]"

lemma length_mq_contents [simp]: "length (mq_contents q) = mq_length q"
  by (simp add: mq_contents_def)

lemma mq_length_0: "q_head q < q_cap q \<Longrightarrow> q_tail q < q_cap q \<Longrightarrow> mq_length q = 0 \<longleftrightarrow> q_head q = q_tail q"
  by (auto simp: mq_length_def)

lemma mq_length_less: "ring_wf q \<Longrightarrow> mq_length q < q_cap q"
  by (auto simp: mq_length_def ring_wf_def)

lemma ring_tail: "ring_wf q \<Longrightarrow> (q_head q + mq_length q) mod q_cap q = q_tail q"
  by (auto simp: mq_length_def ring_wf_def)

lemma ring_wf_new: "ring_wf (mq_new h)"
  by (simp add: ring_wf_def mq_new_def mq_length_def DEFAULT_QUEUE_SIZE_def MQ_OVERLOAD_def)

lemma mq_contents_new: "mq_contents (mq_new h) = []"
  by (simp add: mq_contents_def mq_new_def mq_length_def)

subsection \<open>Popping\<close>

lemma overload_loop_total: "0 < th \<Longrightarrow> \<exists>ov' th'. overload_loop len ov th = Some (ov', th') \<and> 0 < th'"
proof (induction "len - th" arbitrary: ov th rule: less_induct)
  case less
  show ?case
  proof (cases "len > th")
    case True
    with less.prems have "len - th * 2 < len - th" by simp
    from less.hyps [OF this] less.prems True show ?thesis
      by (subst overload_loop.simps) auto
  next
    case False
    with less.prems show ?thesis by (subst overload_loop.simps) auto
  qed
qed

definition ring_next :: "message_queue \<Rightarrow> nat" where
  "ring_next q = (if q_head q + 1 \<ge> q_cap q then 0 else q_head q + 1)"

lemma mq_ring_pop_empty:
  assumes "ring_wf q" and "mq_contents q = []"
  shows "mq_ring_pop q = Some (None, q\<lparr>q_threshold := MQ_OVERLOAD, q_in_global := False\<rparr>)"
    and "ring_wf (q\<lparr>q_threshold := MQ_OVERLOAD, q_in_global := False\<rparr>)"
    and "mq_contents (q\<lparr>q_threshold := MQ_OVERLOAD, q_in_global := False\<rparr>) = []"
proof -
  have "mq_length q = 0" using assms(2) by (metis length_mq_contents list.size(3))
  then have "q_head q = q_tail q" using assms(1) by (simp add: ring_wf_def mq_length_0)
  with assms show "mq_ring_pop q = Some (None, q\<lparr>q_threshold := MQ_OVERLOAD, q_in_global := False\<rparr>)"
    and "ring_wf (q\<lparr>q_threshold := MQ_OVERLOAD, q_in_global := False\<rparr>)"
    and "mq_contents (q\<lparr>q_threshold := MQ_OVERLOAD, q_in_global := False\<rparr>) = []"
    by (simp_all add: mq_ring_pop_def ring_wf_def mq_contents_def mq_length_def MQ_OVERLOAD_def)
qed

lemma ring_advance:
  fixes ov th :: nat
  assumes wf: "ring_wf q" and pos: "0 < mq_length q"
  defines "q' \<equiv> q\<lparr>q_head := ring_next q, q_overload := ov, q_threshold := th\<rparr>"
  assumes "0 < th"
  shows "ring_wf q'" and "mq_contents q = the (q_queue q ! q_head q) # mq_contents q'"
proof -
  have len: "mq_length q' = mq_length q - 1"
    using wf pos by (auto simp: q'_def mq_length_def ring_next_def ring_wf_def)
  have idx: "(q_head q' + i) mod q_cap q = (q_head q + Suc i) mod q_cap q" for i
  proof (cases "q_head q + 1 = q_cap q")
    case True
    then have shift: "q_head q + Suc i = q_cap q + i" by simp
    show ?thesis unfolding shift using True by (simp add: q'_def ring_next_def)
  next
    case False
    with wf show ?thesis by (simp add: q'_def ring_next_def ring_wf_def)
  qed
  have same: "q_cap q' = q_cap q" "q_queue q' = q_queue q" "q_tail q' = q_tail q"
    "q_threshold q' = th" "q_head q' < q_cap q"
    using wf by (auto simp: q'_def ring_next_def ring_wf_def)
  have "q_queue q ! ((q_head q' + i) mod q_cap q) \<noteq> None" if "i < mq_length q'" for i
    using wf that pos unfolding idx len ring_wf_def by (metis Suc_eq_plus1 less_diff_conv)
  then show "ring_wf q'"
    using wf \<open>0 < th\<close> same by (simp add: ring_wf_def)
  from same show "mq_contents q = the (q_queue q ! q_head q) # mq_contents q'"
    using pos wf unfolding mq_contents_def len
    by (subst upt_conv_ConsD) (simp_all add: idx ring_wf_def)
qed

lemma mq_ring_pop_cons:
  assumes wf: "ring_wf q" and c: "mq_contents q = m # ms"
  shows "\<exists>ov th. mq_ring_pop q = Some (Some m, q\<lparr>q_head := ring_next q, q_overload := ov, q_threshold := th\<rparr>)
     \<and> ring_wf (q\<lparr>q_head := ring_next q, q_overload := ov, q_threshold := th\<rparr>)
     \<and> mq_contents (q\<lparr>q_head := ring_next q, q_overload := ov, q_threshold := th\<rparr>) = ms"
proof -
  have pos: "0 < mq_length q" using c by (metis length_greater_0_conv length_mq_contents list.distinct(1))
  then have ne: "q_head q \<noteq> q_tail q" using wf by (auto simp: ring_wf_def mq_length_def)
  have "q_queue q ! ((q_head q + 0) mod q_cap q) \<noteq> None" using wf pos unfolding ring_wf_def by blast
  then obtain x where x: "q_queue q ! q_head q = Some x"
    using wf by (auto simp: ring_wf_def)
  have xm: "x = m" using ring_advance(2) [OF wf pos, of 1] c x by simp
  from wf have "0 < q_threshold q" by (simp add: ring_wf_def)
  from overload_loop_total [OF this] obtain ov th where
    ol: "overload_loop (nat (let len0 = int (q_tail q) - int (ring_next q)
           in if len0 < 0 then len0 + int (q_cap q) else len0)) (q_overload q) (q_threshold q)
         = Some (ov, th)" and "0 < th" by blast
  have "mq_ring_pop q = Some (Some m, q\<lparr>q_head := ring_next q, q_overload := ov, q_threshold := th\<rparr>)"
    using ne x xm ol wf
    by (simp add: mq_ring_pop_def Let_def ring_next_def ring_wf_def cong: if_cong split: if_splits)
  with ring_advance [OF wf pos \<open>0 < th\<close>, of ov] c show ?thesis by auto
qed

subsection \<open>Pushing\<close>

lemma expand_queue_contents:
  assumes "0 < q_cap q" and "length (q_queue q) = q_cap q" and "0 < q_threshold q"
    and some: "\<forall>i < q_cap q. q_queue q ! ((q_head q + i) mod q_cap q) \<noteq> None"
  shows "ring_wf (expand_queue q)"
    and "mq_contents (expand_queue q)
         = map (\<lambda>i. the (q_queue q ! ((q_head q + i) mod q_cap q))) [0..<q_cap q]"
  using assms
  by (auto simp: ring_wf_def expand_queue_def mq_length_def mq_contents_def nth_append)

lemma mq_ring_push_spec:
  assumes wf: "ring_wf q"
  shows "\<exists>q'. mq_ring_push m q = Some q' \<and> ring_wf q' \<and> mq_contents q' = mq_contents q @ [m]"
proof -
  let ?n = "q_cap q" and ?h = "q_head q" and ?l = "mq_length q"
  define q1 where "q1 = q\<lparr>q_queue := (q_queue q)[q_tail q := Some m],
      q_tail := (if q_tail q + 1 \<ge> q_cap q then 0 else q_tail q + 1)\<rparr>"
  have push: "mq_ring_push m q = Some (if q_head q1 = q_tail q1 then expand_queue q1 else q1)"
    using wf by (simp add: mq_ring_push_def q1_def ring_wf_def)
  have slot: "q_queue q1 ! ((?h + i) mod ?n) = (if i = ?l then Some m else q_queue q ! ((?h + i) mod ?n))"
    if "i \<le> ?l" for i
    using that wf ring_tail [OF wf] mq_length_less [OF wf] mod_ring_inj [of i ?n ?l ?h]
    by (auto simp: q1_def nth_list_update ring_wf_def)
  have some: "\<forall>i < Suc ?l. q_queue q1 ! ((?h + i) mod ?n) \<noteq> None"
    using wf slot by (auto simp: ring_wf_def less_Suc_eq_le)
  have map: "map (\<lambda>i. the (q_queue q1 ! ((?h + i) mod ?n))) [0..<Suc ?l] = mq_contents q @ [m]"
    using slot by (auto simp: mq_contents_def)
  have same: "q_cap q1 = ?n" "q_head q1 = ?h" "length (q_queue q1) = ?n" "0 < q_threshold q1" "0 < ?n"
    using wf by (auto simp: q1_def ring_wf_def)
  show ?thesis
  proof (cases "q_head q1 = q_tail q1")
    case True
    then have "?n = Suc ?l" using wf by (auto simp: q1_def mq_length_def ring_wf_def split: if_splits)
    with True push some map same expand_queue_contents [of q1] show ?thesis by auto
  next
    case False
    then have len: "mq_length q1 = Suc ?l"
      using wf by (auto simp: q1_def mq_length_def ring_wf_def split: if_splits)
    have "q_tail q1 < ?n" using wf by (auto simp: q1_def ring_wf_def)
    then have "ring_wf q1" using wf same len some by (simp add: ring_wf_def)
    moreover have "mq_contents q1 = mq_contents q @ [m]"
      using map same len by (simp add: mq_contents_def)
    ultimately show ?thesis using False push by auto
  qed
qed

interpretation mq_fifo: fifo mq_ring_push mq_ring_pop mq_contents ring_wf
proof
  fix q :: message_queue and x
  assume wf: "ring_wf q"
  then show "\<exists>q'. mq_ring_push x q = Some q' \<and> ring_wf q' \<and> mq_contents q' = mq_contents q @ [x]"
    by (rule mq_ring_push_spec)
  show "\<exists>q'. mq_ring_pop q = Some (None, q') \<and> ring_wf q' \<and> mq_contents q' = []"
    if "mq_contents q = []"
    using mq_ring_pop_empty [OF wf that] by blast
  show "\<exists>q'. mq_ring_pop q = Some (Some x, q') \<and> ring_wf q' \<and> mq_contents q' = xs"
    if "mq_contents q = x # xs" for xs
    using mq_ring_pop_cons [OF wf that] by blast
qed

text \<open>
  C1. Any sequence of insertions and removals on the ring buffer of a new message queue
  returns what the same sequence returns on a list: messages come out in the order they
  were pushed, across wrap-around and every doubling of the buffer, none lost or repeated,
  and no operation fails.
\<close>

theorem mq_behaves_as_list:
  "\<exists>q. run_fifo mq_ring_push mq_ring_pop ops (mq_new h) = Some (fst (spec_fifo ops []), q)
       \<and> mq_contents q = snd (spec_fifo ops [])"
  using mq_fifo.run_spec [OF ring_wf_new, of ops h] by (auto simp: mq_contents_new)

section \<open>The global queue is a list\<close>

text \<open>The successor of an element in a list, the value its \<open>next\<close> field must have.\<close>

fun link_of :: "'a list \<Rightarrow> 'a \<Rightarrow> 'a option" where
  "link_of (x # y # xs) a = (if a = x then Some y else link_of (y # xs) a)"
| "link_of _ a = None"

lemma link_of_notin: "a \<notin> set xs \<Longrightarrow> link_of xs a = None"
  by (induction xs a rule: link_of.induct) auto

lemma link_of_snoc:
  "distinct (xs @ [b]) \<Longrightarrow>
   link_of (xs @ [b]) a = (if xs \<noteq> [] \<and> a = last xs then Some b else link_of xs a)"
  by (induction xs a rule: link_of.induct) auto

lemma link_of_Cons: "link_of (a # xs) b = (if b = a then (if xs = [] then None else Some (hd xs)) else link_of xs b)"
  by (cases xs) auto

text \<open>\<open>gq_rep s xs\<close>: the list linked through \<open>next\<close> from \<open>head\<close> to \<open>tail\<close> is \<open>xs\<close>, and no
  other queue has a link.\<close>

definition gq_rep :: "'z mq_state_scheme \<Rightarrow> addr list \<Rightarrow> bool" where
  "gq_rep s xs \<longleftrightarrow> distinct xs \<and> set xs \<subseteq> dom (mqs s)
     \<and> gq_head s = (if xs = [] then None else Some (hd xs))
     \<and> gq_tail s = (if xs = [] then None else Some (last xs))
     \<and> (\<forall>a q. mqs s a = Some q \<longrightarrow> q_next q = link_of xs a)"

text \<open>Linking and unlinking change nothing but \<open>next\<close> fields.\<close>

definition relink :: "addr list \<Rightarrow> (addr \<rightharpoonup> message_queue) \<Rightarrow> (addr \<rightharpoonup> message_queue)" where
  "relink xs m = (\<lambda>b. map_option (\<lambda>q. q\<lparr>q_next := link_of xs b\<rparr>) (m b))"

lemma dom_relink [simp]: "dom (relink xs m) = dom m"
  by (auto simp: relink_def dom_def)

lemma relink_Some: "relink xs m b = Some q' \<longleftrightarrow> (\<exists>q. m b = Some q \<and> q' = q\<lparr>q_next := link_of xs b\<rparr>)"
  by (auto simp: relink_def)

text \<open>The state with \<open>xs\<close> as its global queue.\<close>

definition with_global :: "addr list \<Rightarrow> 'z mq_state_scheme \<Rightarrow> 'z mq_state_scheme" where
  "with_global xs s = s\<lparr>mqs := relink xs (mqs s),
     gq_head := (if xs = [] then None else Some (hd xs)),
     gq_tail := (if xs = [] then None else Some (last xs))\<rparr>"

lemma mqs_with_global [simp]: "mqs (with_global xs s) = relink xs (mqs s)"
  by (simp add: with_global_def)

lemma gq_rep_with_global: "distinct xs \<Longrightarrow> set xs \<subseteq> dom (mqs s) \<Longrightarrow> gq_rep (with_global xs s) xs"
  by (auto simp: gq_rep_def with_global_def relink_Some)

lemma relink_upd:
  assumes "\<And>b q. m b = Some q \<Longrightarrow> q_next (if b = t then q\<lparr>q_next := n\<rparr> else q) = link_of xs b"
    and "m t = Some q"
  shows "m(t \<mapsto> q\<lparr>q_next := n\<rparr>) = relink xs m"
proof
  fix b
  show "(m(t \<mapsto> q\<lparr>q_next := n\<rparr>)) b = relink xs m b"
    using assms(1) [of b] assms(2) by (cases "m b"; cases "b = t") (force simp: relink_def)+
qed

lemma relink_id: "\<forall>a q. m a = Some q \<longrightarrow> q_next q = link_of xs a \<Longrightarrow> relink xs m = m"
  by (auto simp: relink_def fun_eq_iff map_option_case split: option.splits)

lemma globalmq_push_rep:
  assumes rep: "gq_rep s xs" and new: "a \<notin> set xs" and a: "mqs s a = Some q"
  shows "skynet_globalmq_push a s = Some (with_global (xs @ [a]) s)"
proof -
  have nx: "q_next q = None" using rep new a by (simp add: gq_rep_def link_of_notin)
  have dist: "distinct (xs @ [a])" using rep new by (simp add: gq_rep_def)
  show ?thesis
  proof (cases "xs = []")
    case True
    then have "relink (xs @ [a]) (mqs s) = mqs s"
      using rep by (intro relink_id) (auto simp: gq_rep_def)
    with True nx a rep show ?thesis
      by (simp add: skynet_globalmq_push_def with_global_def gq_rep_def)
  next
    case False
    then have "last xs \<in> dom (mqs s)" using rep last_in_set by (metis gq_rep_def subsetD)
    then obtain tq where tq: "mqs s (last xs) = Some tq" by blast
    have "(mqs s)(last xs \<mapsto> tq\<lparr>q_next := Some a\<rparr>) = relink (xs @ [a]) (mqs s)"
      using rep tq False link_of_snoc [OF dist] by (intro relink_upd) (auto simp: gq_rep_def)
    with False nx a rep tq show ?thesis
      by (simp add: skynet_globalmq_push_def with_global_def gq_rep_def)
  qed
qed

lemma globalmq_pop_rep_Nil: "gq_rep s [] \<Longrightarrow> skynet_globalmq_pop s = Some (None, s)"
  by (simp add: skynet_globalmq_pop_def gq_rep_def)

lemma globalmq_pop_rep_Cons:
  assumes rep: "gq_rep s (a # xs)"
  shows "skynet_globalmq_pop s = Some (Some a, with_global xs s)"
proof -
  obtain q where q: "mqs s a = Some q" "q_next q = (if xs = [] then None else Some (hd xs))"
    using rep by (auto simp: gq_rep_def link_of_Cons)
  have "(mqs s)(a \<mapsto> q\<lparr>q_next := None\<rparr>) = relink xs (mqs s)"
    using rep q by (intro relink_upd) (auto simp: gq_rep_def link_of_Cons link_of_notin)
  with rep q show ?thesis
    by (auto simp: skynet_globalmq_pop_def with_global_def gq_rep_def)
qed

text \<open>Writing the other fields of a queue does not disturb the global queue.\<close>

lemma gq_rep_upd:
  "gq_rep s xs \<Longrightarrow> mqs s a = Some q \<Longrightarrow> q_next q' = q_next q
   \<Longrightarrow> gq_rep (s\<lparr>mqs := (mqs s)(a \<mapsto> q')\<rparr>) xs"
  by (auto simp: gq_rep_def)

lemma ring_push_next: "mq_ring_push m q = Some q' \<Longrightarrow> q_next q' = q_next q"
  by (auto simp: mq_ring_push_def expand_queue_def Let_def bind_eq_Some_conv)

lemma ring_pop_next: "mq_ring_pop q = Some (r, q') \<Longrightarrow> q_next q' = q_next q"
  by (auto simp: mq_ring_pop_def Let_def bind_eq_Some_conv split: if_splits)

lemma link_of_inj:
  "distinct xs \<Longrightarrow> distinct ys \<Longrightarrow> (xs = [] \<longleftrightarrow> ys = []) \<Longrightarrow> (xs \<noteq> [] \<longrightarrow> hd xs = hd ys)
   \<Longrightarrow> (\<And>b. link_of xs b = link_of ys b) \<Longrightarrow> xs = ys"
proof (induction xs arbitrary: ys)
  case Nil
  then show ?case by simp
next
  case (Cons x xs)
  then obtain ys' where ys: "ys = x # ys'" by (cases ys) auto
  have "(xs = [] \<longleftrightarrow> ys' = []) \<and> (xs \<noteq> [] \<longrightarrow> hd xs = hd ys')"
    using Cons.prems(5) [of x] ys by (auto simp: link_of_Cons split: if_splits)
  moreover have "link_of xs b = link_of ys' b" for b
    using Cons.prems(1,2) Cons.prems(5) [of b] ys
    by (cases "b = x") (auto simp: link_of_Cons link_of_notin)
  ultimately show ?case using Cons.IH [of ys'] Cons.prems ys by auto
qed

lemma gq_rep_unique:
  assumes "gq_rep s xs" and "gq_rep s ys"
  shows "xs = ys"
proof (rule link_of_inj)
  fix b
  show "link_of xs b = link_of ys b"
  proof (cases "mqs s b")
    case None
    then have "b \<notin> set xs" "b \<notin> set ys" using assms by (auto simp: gq_rep_def)
    then show ?thesis by (simp add: link_of_notin)
  next
    case (Some q)
    then show ?thesis using assms by (simp add: gq_rep_def)
  qed
qed (use assms in \<open>auto simp: gq_rep_def split: if_splits\<close>)

section \<open>Releasing a queue\<close>

text \<open>Dropping a queue calls \<open>drop_func\<close> once for each message left, in order, and then frees
  the queue.  \<open>obs\<close> is any observation of the state that the queue itself is not part of.\<close>

lemma drop_queue_spec:
  fixes s :: "'z mq_state_scheme" and obs :: "'z mq_state_scheme \<Rightarrow> 'o"
  assumes "ring_wf q" and "mqs s a = Some q" and "q_next q = None"
    and drop: "\<And>m s. \<exists>s'. f m s = Some s' \<and> mqs s' a = mqs s a \<and> obs s' = g m (obs s)"
    and frame: "\<And>s x. obs (s\<lparr>mqs := (mqs s)(a := x)\<rparr>) = obs s"
  shows "\<exists>s'. drop_queue a f s = Some s' \<and> mqs s' a = None
     \<and> obs s' = fold g (mq_contents q) (obs s)"
  using assms(1-3)
proof (induction "mq_contents q" arbitrary: q s)
  case Nil
  then have "mq_ring_pop q = Some (None, q\<lparr>q_threshold := MQ_OVERLOAD, q_in_global := False\<rparr>)"
    using mq_ring_pop_empty(1) by simp
  with Nil show ?case
    using frame [of s] by (subst drop_queue.simps) (simp add: skynet_mq_pop_def mq_release_mem_def)
next
  case (Cons m ms)
  then obtain q' where q': "mq_ring_pop q = Some (Some m, q')" "ring_wf q'" "mq_contents q' = ms"
    "q_next q' = q_next q"
    using mq_ring_pop_cons [of q m ms] by auto
  let ?s1 = "s\<lparr>mqs := (mqs s)(a \<mapsto> q')\<rparr>"
  obtain s2 where s2: "f m ?s1 = Some s2" "mqs s2 a = Some q'" "obs s2 = g m (obs s)"
    using drop [of m ?s1] frame [of s] by auto
  with Cons.hyps(1) [of q' s2] Cons.prems q' obtain s' where
    "drop_queue a f s2 = Some s'" "mqs s' a = None" "obs s' = fold g ms (obs s2)" by auto
  with Cons s2 q' show ?case
    by (subst drop_queue.simps) (simp add: skynet_mq_pop_def flip: Cons.hyps(2))
qed

end
