(* ===== verification/Scheduler.thy ===== *)
theory Scheduler
  imports MessageQueue
begin

text \<open>
  How the threads of a node use the message queues: an interleaving of the operations of
  \<^verbatim>\<open>skynet_mq.c\<close> as \<^verbatim>\<open>skynet_server.c\<close> calls them.  Every operation runs under the spin
  lock of its queue (and of the global queue), so one operation is one step.

  \<open>held\<close> records which thread holds which queue exclusively: a worker between
  \<open>skynet_globalmq_pop\<close> and the return of the queue to the global queue, or the thread
  that creates a service between \<open>skynet_mq_create\<close> and \<open>skynet_globalmq_push\<close>.
  A queue receives messages and is marked for release only while it is not marked yet:
  both need a counted reference to the owning context (see \<open>Server\<close>), and the mark is set
  when the last one goes.
\<close>

record mq_sys = mq_state +
  held :: "(nat \<times> addr) list"

definition init_sys :: mq_sys where
  "init_sys = skynet_mq_init \<lparr>mqs = Map.empty, gq_head = None, gq_tail = None, held = []\<rparr>"

inductive sched_step :: "mq_sys \<Rightarrow> mq_sys \<Rightarrow> bool" where
  create: "mqs s a = None \<Longrightarrow>
     sched_step s ((skynet_mq_create a h s)\<lparr>held := (t, a) # held s\<rparr>)"
    \<comment> \<open>\<open>skynet_context_new\<close>, before the service is initialised\<close>
| give_back: "(t, a) \<in> set (held s) \<Longrightarrow> skynet_globalmq_push a s = Some s' \<Longrightarrow>
     sched_step s (s'\<lparr>held := remove1 (t, a) (held s)\<rparr>)"
    \<comment> \<open>the launch of a service, the end of a dispatch round, or \<open>skynet_mq_release\<close> on a
       queue that is not marked\<close>
| take: "skynet_globalmq_pop s = Some (Some a, s') \<Longrightarrow>
     sched_step s (s'\<lparr>held := (t, a) # held s\<rparr>)"
    \<comment> \<open>a worker takes the next queue\<close>
| send: "mqs s a = Some q \<Longrightarrow> \<not> q_release q \<Longrightarrow> skynet_mq_push a m s = Some s' \<Longrightarrow>
     sched_step s s'"
| receive: "(t, a) \<in> set (held s) \<Longrightarrow> skynet_mq_pop a s = Some (Some m, s') \<Longrightarrow>
     sched_step s s'"
    \<comment> \<open>a message is dispatched, or dropped by \<open>_drop_queue\<close>\<close>
| idle: "(t, a) \<in> set (held s) \<Longrightarrow> mqs s a = Some q \<Longrightarrow> \<not> q_release q \<Longrightarrow>
     skynet_mq_pop a s = Some (None, s') \<Longrightarrow>
     sched_step s (s'\<lparr>held := remove1 (t, a) (held s)\<rparr>)"
    \<comment> \<open>the queue is empty: the worker forgets it\<close>
| mark: "mqs s a = Some q \<Longrightarrow> \<not> q_release q \<Longrightarrow> skynet_mq_mark_release a s = Some s' \<Longrightarrow>
     sched_step s s'"
    \<comment> \<open>\<open>delete_context\<close>\<close>
| free: "(t, a) \<in> set (held s) \<Longrightarrow> mqs s a = Some q \<Longrightarrow> q_release q \<Longrightarrow>
     skynet_mq_pop a s = Some (None, s1) \<Longrightarrow> mq_release_mem a s1 = Some s' \<Longrightarrow>
     sched_step s (s'\<lparr>held := remove1 (t, a) (held s)\<rparr>)"
    \<comment> \<open>the end of \<open>_drop_queue\<close>\<close>

inductive sched_reachable :: "mq_sys \<Rightarrow> bool" where
  init: "sched_reachable init_sys"
| step: "sched_reachable s \<Longrightarrow> sched_step s s' \<Longrightarrow> sched_reachable s'"

section \<open>The invariant\<close>

text \<open>The queues some thread or the global queue is responsible for.\<close>

definition tokens :: "addr list \<Rightarrow> mq_sys \<Rightarrow> addr list" where
  "tokens xs s = xs @ map snd (held s)"

text \<open>A queue has a token exactly when its flags say so, and one without is empty.\<close>

definition queue_ok :: "bool \<Rightarrow> message_queue \<Rightarrow> bool" where
  "queue_ok tok q \<longleftrightarrow> ring_wf q \<and> (q_in_global q \<or> q_release q \<longleftrightarrow> tok)
     \<and> (\<not> tok \<longrightarrow> mq_contents q = [])"

definition sched_inv :: "addr list \<Rightarrow> mq_sys \<Rightarrow> bool" where
  "sched_inv xs s \<longleftrightarrow> gq_rep s xs \<and> distinct (tokens xs s) \<and> set (tokens xs s) \<subseteq> dom (mqs s)
     \<and> (\<forall>a q. mqs s a = Some q \<longrightarrow> queue_ok (a \<in> set (tokens xs s)) q)"

lemma queue_ok_next [simp]: "queue_ok tok (q\<lparr>q_next := n\<rparr>) = queue_ok tok q"
  by (simp add: queue_ok_def ring_wf_def mq_contents_def mq_length_def)

lemma queue_ok_relink: "\<forall>q. m a = Some q \<longrightarrow> queue_ok tok q \<Longrightarrow> relink xs m a = Some q' \<Longrightarrow> queue_ok tok q'"
  by (auto simp: relink_Some)

lemma sched_inv_queue: "sched_inv xs s \<Longrightarrow> mqs s a = Some q \<Longrightarrow> queue_ok (a \<in> set (tokens xs s)) q"
  by (simp add: sched_inv_def)

lemma gq_rep_held [simp]: "gq_rep (s\<lparr>held := hs\<rparr>) xs = gq_rep s xs"
  by (simp add: gq_rep_def)

text \<open>Changing the global queue to \<open>xs'\<close> and the held queues to \<open>hs\<close>, as long as the tokens are
  the same up to order.\<close>

lemma sched_inv_retoken:
  assumes inv: "sched_inv xs s"
    and dist: "distinct (xs' @ map snd hs)" and same: "set (xs' @ map snd hs) = set (tokens xs s)"
  shows "sched_inv xs' ((with_global xs' s)\<lparr>held := hs\<rparr>)"
proof -
  have "distinct xs'" "set xs' \<subseteq> dom (mqs s)"
    using assms by (auto simp: sched_inv_def)
  then have "gq_rep ((with_global xs' s)\<lparr>held := hs\<rparr>) xs'"
    using gq_rep_with_global [of xs' s] by (simp add: gq_rep_def with_global_def)
  then show ?thesis
    using assms unfolding sched_inv_def
    by (simp add: tokens_def) (metis queue_ok_relink)
qed

text \<open>Writing one queue, and giving it or taking from it a token.\<close>

lemma sched_inv_write:
  assumes inv: "sched_inv xs s" and q: "mqs s a = Some q" and nx: "q_next q' = q_next q"
    and ok: "queue_ok (a \<in> set (xs @ map snd hs)) q'"
    and dist: "distinct (xs @ map snd hs)"
    and same: "\<And>b. b \<noteq> a \<Longrightarrow> b \<in> set (xs @ map snd hs) \<longleftrightarrow> b \<in> set (tokens xs s)"
  shows "sched_inv xs (s\<lparr>mqs := (mqs s)(a \<mapsto> q'), held := hs\<rparr>)"
proof -
  have rep: "gq_rep (s\<lparr>mqs := (mqs s)(a \<mapsto> q'), held := hs\<rparr>) xs"
    using gq_rep_upd [OF _ q nx] inv by (simp add: sched_inv_def)
  have sub: "set (xs @ map snd hs) \<subseteq> dom ((mqs s)(a \<mapsto> q'))"
  proof
    fix b
    assume "b \<in> set (xs @ map snd hs)"
    then have "b = a \<or> b \<in> set (tokens xs s)" using same by blast
    then show "b \<in> dom ((mqs s)(a \<mapsto> q'))" using inv by (auto simp: sched_inv_def)
  qed
  have "queue_ok (b \<in> set (xs @ map snd hs)) p" if "((mqs s)(a \<mapsto> q')) b = Some p" for b p
  proof (cases "b = a")
    case True
    with that ok show ?thesis by simp
  next
    case False
    with that have "queue_ok (b \<in> set (tokens xs s)) p" using inv sched_inv_queue by simp
    then show ?thesis using same [OF False] by simp
  qed
  with rep sub dist show ?thesis by (auto simp: sched_inv_def tokens_def)
qed

lemma held_remove1:
  assumes "distinct (map snd hs)" and "(t, a) \<in> set hs"
  shows "distinct (map snd (remove1 (t, a) hs))"
    and "set (map snd (remove1 (t, a) hs)) = set (map snd hs) - {a}"
  using assms by (induction hs) (auto simp: image_iff)

lemma tokens_with_global [simp]: "tokens xs (with_global ys s) = tokens xs s"
  by (simp add: tokens_def with_global_def)

lemma sched_inv_write_push:
  assumes inv: "sched_inv xs s" and q: "mqs s a = Some q" and nx: "q_next q' = q_next q"
    and out: "a \<notin> set (tokens xs s)" and ok: "queue_ok True q'"
  shows "\<exists>s'. skynet_globalmq_push a (s\<lparr>mqs := (mqs s)(a \<mapsto> q')\<rparr>) = Some s'
     \<and> sched_inv (xs @ [a]) s' \<and> held s' = held s"
proof -
  let ?s1 = "s\<lparr>mqs := (mqs s)(a \<mapsto> q')\<rparr>"
  have rep: "gq_rep ?s1 xs" using gq_rep_upd [OF _ q nx] inv by (simp add: sched_inv_def)
  have push: "skynet_globalmq_push a ?s1 = Some (with_global (xs @ [a]) ?s1)"
    using out by (intro globalmq_push_rep [OF rep]) (auto simp: tokens_def)
  have toks: "set (tokens (xs @ [a]) ?s1) = insert a (set (tokens xs s))"
    by (auto simp: tokens_def)
  have dist: "distinct (tokens (xs @ [a]) ?s1)"
    using inv out by (auto simp: tokens_def sched_inv_def)
  have sub: "set (tokens (xs @ [a]) ?s1) \<subseteq> dom (mqs ?s1)"
    using inv unfolding toks by (auto simp: sched_inv_def)
  have "gq_rep (with_global (xs @ [a]) ?s1) (xs @ [a])"
    using dist sub by (intro gq_rep_with_global) (auto simp: tokens_def)
  moreover have "queue_ok (b \<in> insert a (set (tokens xs s))) p"
    if "relink (xs @ [a]) ((mqs s)(a \<mapsto> q')) b = Some p" for b p
  proof (rule queue_ok_relink [OF _ that], intro allI impI)
    fix r
    assume "((mqs s)(a \<mapsto> q')) b = Some r"
    then show "queue_ok (b \<in> insert a (set (tokens xs s))) r"
      using ok sched_inv_queue [OF inv, of b] by (cases "b = a") auto
  qed
  ultimately have "sched_inv (xs @ [a]) (with_global (xs @ [a]) ?s1)"
    using dist sub toks unfolding sched_inv_def by simp
  with push show ?thesis by (simp add: with_global_def)
qed

subsection \<open>Each operation succeeds and keeps the invariant\<close>

lemma sched_inv_create:
  assumes inv: "sched_inv xs s" and fresh: "mqs s a = None"
  shows "sched_inv xs ((skynet_mq_create a h s)\<lparr>held := (t, a) # held s\<rparr>)"
proof -
  have out: "a \<notin> set (tokens xs s)" using inv fresh by (auto simp: sched_inv_def)
  then have "gq_rep (skynet_mq_create a h s) xs"
    using inv by (auto simp: sched_inv_def gq_rep_def skynet_mq_create_def mq_new_def
        tokens_def link_of_notin)
  moreover have "queue_ok True (mq_new h)"
    using ring_wf_new [of h] by (simp add: queue_ok_def mq_new_def)
  ultimately show ?thesis
    using inv out by (auto simp: sched_inv_def skynet_mq_create_def tokens_def)
qed

lemma sched_inv_give_back:
  assumes inv: "sched_inv xs s" and mem: "(t, a) \<in> set (held s)"
  shows "\<exists>s'. skynet_globalmq_push a s = Some s'
     \<and> sched_inv (xs @ [a]) (s'\<lparr>held := remove1 (t, a) (held s)\<rparr>)"
proof -
  have a: "a \<in> set (map snd (held s))" using mem by force
  have dist: "distinct (xs @ map snd (held s))" using inv by (simp add: sched_inv_def tokens_def)
  then have "a \<notin> set xs" using a by auto
  moreover obtain q where "mqs s a = Some q" using inv a by (auto simp: sched_inv_def tokens_def)
  moreover have "gq_rep s xs" using inv by (simp add: sched_inv_def)
  ultimately have "skynet_globalmq_push a s = Some (with_global (xs @ [a]) s)"
    using globalmq_push_rep by blast
  moreover have "sched_inv (xs @ [a]) ((with_global (xs @ [a]) s)\<lparr>held := remove1 (t, a) (held s)\<rparr>)"
    using held_remove1 [of "held s" t a] dist mem a
    by (intro sched_inv_retoken [OF inv]) (auto simp: tokens_def)
  ultimately show ?thesis by blast
qed

lemma sched_inv_take:
  assumes inv: "sched_inv xs s"
  shows "\<exists>r s'. skynet_globalmq_pop s = Some (r, s') \<and> r = (if xs = [] then None else Some (hd xs))
     \<and> (\<forall>a t. r = Some a \<longrightarrow> sched_inv (tl xs) (s'\<lparr>held := (t, a) # held s\<rparr>))"
proof (cases xs)
  case Nil
  then show ?thesis using inv globalmq_pop_rep_Nil [of s] by (auto simp: sched_inv_def)
next
  case (Cons a ys)
  then have "skynet_globalmq_pop s = Some (Some a, with_global ys s)"
    using inv globalmq_pop_rep_Cons by (auto simp: sched_inv_def)
  moreover have "sched_inv ys ((with_global ys s)\<lparr>held := (t, a) # held s\<rparr>)" for t
    using inv Cons by (intro sched_inv_retoken [OF inv]) (auto simp: sched_inv_def tokens_def)
  ultimately show ?thesis using Cons by auto
qed

lemma ring_push_flags:
  "mq_ring_push m q = Some q' \<Longrightarrow> q_in_global q' = q_in_global q \<and> q_release q' = q_release q"
  by (auto simp: mq_ring_push_def expand_queue_def Let_def bind_eq_Some_conv split: if_splits)

lemma ring_wf_in_global [simp]: "ring_wf (q\<lparr>q_in_global := b\<rparr>) = ring_wf q"
  and ring_wf_release [simp]: "ring_wf (q\<lparr>q_release := b\<rparr>) = ring_wf q"
  by (simp_all add: ring_wf_def mq_length_def)

lemma sched_inv_send:
  assumes inv: "sched_inv xs s" and q: "mqs s a = Some q" and live: "\<not> q_release q"
  shows "\<exists>s' xs'. skynet_mq_push a m s = Some s' \<and> sched_inv xs' s' \<and> held s' = held s"
proof -
  have ok: "queue_ok (a \<in> set (tokens xs s)) q" using inv q by (rule sched_inv_queue)
  then obtain q' where q': "mq_ring_push m q = Some q'" "ring_wf q'"
    using mq_ring_push_spec [of q m] by (auto simp: queue_ok_def)
  note fl = ring_push_flags [OF q'(1)] ring_push_next [OF q'(1)]
  show ?thesis
  proof (cases "q_in_global q")
    case True
    then have tok: "a \<in> set (tokens xs s)" using ok by (simp add: queue_ok_def)
    have "queue_ok True q'" using q' fl True by (simp add: queue_ok_def)
    then have "sched_inv xs (s\<lparr>mqs := (mqs s)(a \<mapsto> q'), held := held s\<rparr>)"
      using inv tok fl by (intro sched_inv_write [OF inv q]) (auto simp: tokens_def sched_inv_def)
    then show ?thesis using q q' fl True by (auto simp: skynet_mq_push_def)
  next
    case False
    then have out: "a \<notin> set (tokens xs s)" using ok live by (simp add: queue_ok_def)
    have "queue_ok True (q'\<lparr>q_in_global := True\<rparr>)" using q' by (simp add: queue_ok_def)
    from sched_inv_write_push [OF inv q _ out this] show ?thesis
      using q q' fl False by (auto simp: skynet_mq_push_def)
  qed
qed

lemma sched_inv_mark:
  assumes inv: "sched_inv xs s" and q: "mqs s a = Some q" and live: "\<not> q_release q"
  shows "\<exists>s' xs'. skynet_mq_mark_release a s = Some s' \<and> sched_inv xs' s' \<and> held s' = held s"
proof -
  have ok: "queue_ok (a \<in> set (tokens xs s)) q" using inv q by (rule sched_inv_queue)
  then have okT: "queue_ok True (q\<lparr>q_release := True\<rparr>)" by (simp add: queue_ok_def)
  show ?thesis
  proof (cases "q_in_global q")
    case True
    then have "a \<in> set (tokens xs s)" using ok by (simp add: queue_ok_def)
    then have "sched_inv xs (s\<lparr>mqs := (mqs s)(a \<mapsto> q\<lparr>q_release := True\<rparr>), held := held s\<rparr>)"
      using inv okT by (intro sched_inv_write [OF inv q]) (auto simp: tokens_def sched_inv_def)
    then show ?thesis using q live True by (auto simp: skynet_mq_mark_release_def)
  next
    case False
    then have out: "a \<notin> set (tokens xs s)" using ok live by (simp add: queue_ok_def)
    from sched_inv_write_push [OF inv q _ out okT] show ?thesis
      using q live False by (auto simp: skynet_mq_mark_release_def)
  qed
qed

text \<open>A held queue has a token, so its flags say it is the holder's.\<close>

lemma held_token: "(t, a) \<in> set (held s) \<Longrightarrow> a \<in> set (tokens xs s)"
  by (force simp: tokens_def)

lemma held_queue: "sched_inv xs s \<Longrightarrow> (t, a) \<in> set (held s) \<Longrightarrow> \<exists>q. mqs s a = Some q"
  using held_token by (fastforce simp: sched_inv_def)

lemma sched_inv_receive:
  assumes inv: "sched_inv xs s" and mem: "(t, a) \<in> set (held s)" and q: "mqs s a = Some q"
  shows "\<exists>r s'. skynet_mq_pop a s = Some (r, s') \<and> r = (case mq_contents q of [] \<Rightarrow> None | m # _ \<Rightarrow> Some m)
    \<and> held s' = held s
    \<and> (case r of
         Some m \<Rightarrow> sched_inv xs s'
       | None \<Rightarrow> s' = s\<lparr>mqs := (mqs s)(a \<mapsto> q\<lparr>q_threshold := MQ_OVERLOAD, q_in_global := False\<rparr>)\<rparr>)"
proof -
  have tok: "a \<in> set (tokens xs s)" using mem by (rule held_token)
  have ok: "queue_ok True q" using sched_inv_queue [OF inv q] tok by simp
  then have wf: "ring_wf q" by (simp add: queue_ok_def)
  show ?thesis
  proof (cases "mq_contents q")
    case Nil
    then show ?thesis using mq_ring_pop_empty [OF wf] q by (simp add: skynet_mq_pop_def)
  next
    case (Cons m ms)
    obtain q' where q': "mq_ring_pop q = Some (Some m, q')" "ring_wf q'"
      and flags: "q_in_global q' = q_in_global q" "q_release q' = q_release q" "q_next q' = q_next q"
      using mq_ring_pop_cons [OF wf Cons] by auto
    have "queue_ok True q'" using ok q' flags by (simp add: queue_ok_def)
    then have "sched_inv xs (s\<lparr>mqs := (mqs s)(a \<mapsto> q'), held := held s\<rparr>)"
      using inv tok flags by (intro sched_inv_write [OF inv q]) (auto simp: tokens_def sched_inv_def)
    then show ?thesis using q' q Cons by (simp add: skynet_mq_pop_def)
  qed
qed

lemma sched_inv_idle:
  assumes inv: "sched_inv xs s" and mem: "(t, a) \<in> set (held s)" and q: "mqs s a = Some q"
    and live: "\<not> q_release q" and empty: "mq_contents q = []"
  shows "sched_inv xs (s\<lparr>mqs := (mqs s)(a \<mapsto> q\<lparr>q_threshold := MQ_OVERLOAD, q_in_global := False\<rparr>),
     held := remove1 (t, a) (held s)\<rparr>)"
proof -
  have dist: "distinct (xs @ map snd (held s))" using inv by (simp add: sched_inv_def tokens_def)
  have a: "a \<in> set (map snd (held s))" using mem by force
  note rem = held_remove1 [of "held s" t a]
  have "ring_wf q" using sched_inv_queue [OF inv q] by (simp add: queue_ok_def)
  then have "queue_ok False (q\<lparr>q_threshold := MQ_OVERLOAD, q_in_global := False\<rparr>)"
    using mq_ring_pop_empty [of q] live empty by (simp add: queue_ok_def)
  moreover have "a \<notin> set (xs @ map snd (remove1 (t, a) (held s)))"
    using rem dist mem a by auto
  ultimately show ?thesis
    using rem dist mem by (intro sched_inv_write [OF inv q]) (auto simp: tokens_def)
qed

lemma sched_inv_free:
  assumes inv: "sched_inv xs s" and mem: "(t, a) \<in> set (held s)" and q: "mqs s a = Some q"
    and empty: "mq_contents q = []"
  shows "\<exists>s1 s'. skynet_mq_pop a s = Some (None, s1) \<and> mq_release_mem a s1 = Some s'
     \<and> sched_inv xs (s'\<lparr>held := remove1 (t, a) (held s)\<rparr>)"
proof -
  let ?q' = "q\<lparr>q_threshold := MQ_OVERLOAD, q_in_global := False\<rparr>"
  have rep: "gq_rep s xs" and dist: "distinct (xs @ map snd (held s))"
    using inv by (simp_all add: sched_inv_def tokens_def)
  have out: "a \<notin> set xs" using dist mem by force
  note rem = held_remove1 [of "held s" t a]
  have nx: "q_next q = None" using rep q out by (simp add: gq_rep_def link_of_notin)
  have pop: "skynet_mq_pop a s = Some (None, s\<lparr>mqs := (mqs s)(a \<mapsto> ?q')\<rparr>)"
    using sched_inv_receive [OF inv mem q] empty by auto
  have rel: "mq_release_mem a (s\<lparr>mqs := (mqs s)(a \<mapsto> ?q')\<rparr>) = Some (s\<lparr>mqs := (mqs s)(a := None)\<rparr>)"
    using nx by (simp add: mq_release_mem_def)
  have rep': "gq_rep (s\<lparr>mqs := (mqs s)(a := None)\<rparr>) xs"
    using rep out by (auto simp: gq_rep_def)
  have rest: "set (map snd (remove1 (t, a) (held s))) = set (map snd (held s)) - {a}"
    "distinct (map snd (remove1 (t, a) (held s)))"
    using rem dist mem by auto
  have toks: "set (xs @ map snd (remove1 (t, a) (held s))) = set (tokens xs s) - {a}"
    using rest out by (auto simp: tokens_def)
  let ?s' = "s\<lparr>mqs := (mqs s)(a := None), held := remove1 (t, a) (held s)\<rparr>"
  have sel: "mqs ?s' = (mqs s)(a := None)" "held ?s' = remove1 (t, a) (held s)" by simp_all
  have "queue_ok (b \<in> set (tokens xs s) - {a}) p" if "((mqs s)(a := None)) b = Some p" for b p
    using that sched_inv_queue [OF inv, of b p] by (auto split: if_splits)
  moreover have "distinct (xs @ map snd (remove1 (t, a) (held s)))" using rest dist by auto
  moreover have "set (tokens xs s) - {a} \<subseteq> dom ((mqs s)(a := None))"
    using inv by (auto simp: sched_inv_def)
  ultimately have "sched_inv xs ?s'"
    using rep' unfolding sched_inv_def tokens_def [of _ ?s'] sel toks gq_rep_held by blast
  with pop rel show ?thesis by auto
qed

subsection \<open>Reachable states\<close>

lemma sched_inv_init: "sched_inv [] init_sys"
  by (simp add: sched_inv_def init_sys_def skynet_mq_init_def gq_rep_def tokens_def)

lemma sched_step_inv: "sched_step s s' \<Longrightarrow> sched_inv xs s \<Longrightarrow> \<exists>xs'. sched_inv xs' s'"
proof (induction rule: sched_step.induct)
  case (create s a h t)
  then show ?case using sched_inv_create by blast
next
  case (give_back t a s s')
  then show ?case using sched_inv_give_back [of xs s t a] by auto
next
  case (take s a s' t)
  then show ?case using sched_inv_take [of xs s] by auto
next
  case (send s a q m s')
  then show ?case using sched_inv_send [of xs s a q m] by auto
next
  case (receive t a s m s')
  then obtain q where "mqs s a = Some q" using held_queue by blast
  with receive show ?case using sched_inv_receive [of xs s t a q] by auto
next
  case (idle t a s q s')
  then show ?case
    using sched_inv_receive [of xs s t a q] sched_inv_idle [of xs s t a q]
    by (auto split: list.splits)
next
  case (mark s a q s')
  then show ?case using sched_inv_mark [of xs s a q] by auto
next
  case (free t a s q s1 s')
  then show ?case
    using sched_inv_receive [of xs s t a q] sched_inv_free [of xs s t a q]
    by (auto split: list.splits)
qed

lemma reachable_inv: "sched_reachable s \<Longrightarrow> \<exists>xs. sched_inv xs s"
  by (induction rule: sched_reachable.induct) (use sched_inv_init sched_step_inv in blast)+

text \<open>A reachable state for the witnesses: thread 0 has created the queue at address 1.\<close>

definition demo_sys :: mq_sys where
  "demo_sys = (skynet_mq_create 1 7 init_sys)\<lparr>held := [(0, 1)]\<rparr>"

lemma demo_reachable: "sched_reachable demo_sys"
proof -
  have "sched_step init_sys demo_sys"
    using sched_step.create [where s = init_sys and a = 1 and h = 7 and t = 0]
    by (simp add: demo_sys_def init_sys_def skynet_mq_init_def)
  with sched_reachable.init show ?thesis by (rule sched_reachable.step)
qed

lemma demo_held: "held demo_sys = [(0, 1)]" "mqs demo_sys 1 = Some (mq_new 7)"
  by (simp_all add: demo_sys_def skynet_mq_create_def)

section \<open>What the scheduler promises\<close>

text \<open>
  C2. A message queue is never dispatched by two threads at once: in every reachable state
  a queue has at most one holder, and a held queue is not in the global queue, where a
  second worker could take it.
\<close>

theorem dispatch_exclusive:
  assumes "sched_reachable s" and "(t1, a) \<in> set (held s)" and "(t2, a) \<in> set (held s)"
  shows "t1 = t2 \<and> (\<forall>xs. gq_rep s xs \<longrightarrow> a \<notin> set xs)"
proof -
  obtain xs where inv: "sched_inv xs s" using assms(1) reachable_inv by blast
  then have dist: "distinct (map snd (held s))" and "set xs \<inter> set (map snd (held s)) = {}"
    by (auto simp: sched_inv_def tokens_def)
  with assms have "t1 = t2" by (fastforce simp: distinct_map inj_on_def)
  moreover have "a \<notin> set ys" if "gq_rep s ys" for ys
  proof -
    have "xs = ys" using inv that gq_rep_unique by (auto simp: sched_inv_def)
    then show ?thesis
      using \<open>set xs \<inter> set (map snd (held s)) = {}\<close> assms(2) by force
  qed
  ultimately show ?thesis by blast
qed

theorem dispatch_exclusive_witness:
  "sched_reachable demo_sys \<and> held demo_sys = [(0, 1)]
   \<and> (\<exists>xs. gq_rep demo_sys xs \<and> 1 \<notin> set xs)"
proof -
  have h: "(0, 1) \<in> set (held demo_sys)" by (simp add: demo_held)
  obtain xs where "gq_rep demo_sys xs"
    using reachable_inv [OF demo_reachable] by (auto simp: sched_inv_def)
  then show ?thesis
    using demo_reachable demo_held(1) dispatch_exclusive [OF demo_reachable h h] by blast
qed

text \<open>
  C3. No wake-up is lost: in every reachable state a queue that holds a message is in the
  global queue or held by a thread, so some worker will come to it.  The converse
  bookkeeping holds too: a queue whose \<open>in_global\<close> and \<open>release\<close> flags are both clear is in
  neither place and is empty.
\<close>

theorem no_lost_wakeup:
  assumes "sched_reachable s" and "mqs s a = Some q"
  shows "\<exists>xs. gq_rep s xs \<and>
     (if q_in_global q \<or> q_release q then a \<in> set xs \<or> (\<exists>t. (t, a) \<in> set (held s))
      else a \<notin> set xs \<and> (\<forall>t. (t, a) \<notin> set (held s)) \<and> mq_contents q = [])"
proof -
  obtain xs where inv: "sched_inv xs s" using assms(1) reachable_inv by blast
  then have "queue_ok (a \<in> set (tokens xs s)) q" using assms(2) by (rule sched_inv_queue)
  moreover have "a \<in> set (tokens xs s) \<longleftrightarrow> a \<in> set xs \<or> (\<exists>t. (t, a) \<in> set (held s))"
    by (force simp: tokens_def)
  ultimately show ?thesis
    using inv unfolding queue_ok_def sched_inv_def by (intro exI [of _ xs]) auto
qed

theorem no_lost_wakeup_witness:
  "mqs demo_sys 1 = Some (mq_new 7)
   \<and> (\<exists>xs. gq_rep demo_sys xs \<and> (1 \<in> set xs \<or> (\<exists>t. (t, 1) \<in> set (held demo_sys))))"
proof -
  have "q_in_global (mq_new 7)" by (simp add: mq_new_def)
  then show ?thesis using no_lost_wakeup [OF demo_reachable demo_held(2)] demo_held(2) by auto
qed

section \<open>The capacity of a queue\<close>

lemma mq_ring_push_cap:
  assumes "ring_wf q" and "mq_ring_push m q = Some q'"
  shows "q_cap q' = (if Suc (mq_length q) = q_cap q then 2 * q_cap q else q_cap q)"
  using assms by (auto simp: mq_ring_push_def expand_queue_def mq_length_def ring_wf_def Let_def bind_eq_Some_conv split: if_splits)

lemma globalmq_push_cap:
  "skynet_globalmq_push a s = Some s' \<Longrightarrow> mqs s b = Some q \<Longrightarrow> \<exists>q'. mqs s' b = Some q' \<and> q_cap q' = q_cap q"
  by (auto simp: skynet_globalmq_push_def split: option.splits bind_splits if_splits)

lemma mq_push_cap:
  assumes "mqs s a = Some q" and "ring_wf q" and "skynet_mq_push a m s = Some s'"
  shows "\<exists>q'. mqs s' a = Some q' \<and> q_cap q' = (if Suc (mq_length q) = q_cap q then 2 * q_cap q else q_cap q)"
proof -
  obtain q1 where q1: "mq_ring_push m q = Some q1" using mq_ring_push_spec [OF assms(2)] by blast
  have cap: "q_cap q1 = (if Suc (mq_length q) = q_cap q then 2 * q_cap q else q_cap q)" by (rule mq_ring_push_cap [OF assms(2) q1])
  show ?thesis
  proof (cases "q_in_global q1")
    case True
    then show ?thesis using assms(1,3) q1 cap by (auto simp: skynet_mq_push_def)
  next
    case False
    then have "skynet_globalmq_push a (s\<lparr>mqs := (mqs s)(a \<mapsto> q1\<lparr>q_in_global := True\<rparr>)\<rparr>) = Some s'"
      using assms(1,3) q1 by (simp add: skynet_mq_push_def)
    from globalmq_push_cap [OF this, of a] show ?thesis using cap by simp
  qed
qed

section \<open>The end of a queue\<close>

text \<open>
  What \<open>skynet_mq_release\<close> needs of its \<open>drop_func\<close>: it works in every reachable state, leaves a reachable one, with the same holders and
  this queue as it was.  The code's \<open>drop_message\<close> sends an error to the source of the message, a \<open>skynet_mq_push\<close> on another queue.
\<close>

definition drops_elsewhere :: "addr \<Rightarrow> (skynet_message \<Rightarrow> mq_sys \<Rightarrow> mq_sys option) \<Rightarrow> bool" where
  "drops_elsewhere a f \<longleftrightarrow> (\<forall>m s. sched_reachable s \<longrightarrow>
     (\<exists>s'. f m s = Some s' \<and> sched_reachable s' \<and> held s' = held s \<and> mqs s' a = mqs s a))"

lemma drop_queue_frees:
  assumes f: "drops_elsewhere a f"
  shows "sched_reachable s \<Longrightarrow> (t, a) \<in> set (held s) \<Longrightarrow> mqs s a = Some q \<Longrightarrow> mq_contents q = ms \<Longrightarrow>
    \<exists>s'. drop_queue a f s = Some s' \<and> mqs s' a = None"
proof (induction ms arbitrary: s q)
  case Nil
  from Nil.prems(1) reachable_inv obtain xs where inv: "sched_inv xs s" by blast
  from sched_inv_free [OF inv Nil.prems(2-4)] obtain s1 s' where r: "skynet_mq_pop a s = Some (None, s1)" "mq_release_mem a s1 = Some s'" by blast
  then have "mqs s' a = None" by (auto simp: mq_release_mem_def split: bind_splits if_splits)
  with r show ?case by (subst drop_queue.simps) simp
next
  case (Cons m ms)
  from Cons.prems(1) reachable_inv obtain xs where inv: "sched_inv xs s" by blast
  have "ring_wf q" using sched_inv_queue [OF inv Cons.prems(3)] by (simp add: queue_ok_def)
  from mq_ring_pop_cons [OF this Cons.prems(4)] obtain q1 where q1: "mq_ring_pop q = Some (Some m, q1)" "mq_contents q1 = ms" by blast
  let ?s1 = "s\<lparr>mqs := (mqs s)(a \<mapsto> q1)\<rparr>"
  have p: "skynet_mq_pop a s = Some (Some m, ?s1)" using q1 Cons.prems(3) by (simp add: skynet_mq_pop_def)
  have r1: "sched_reachable ?s1" by (rule sched_reachable.step [OF Cons.prems(1) sched_step.receive [OF Cons.prems(2) p]])
  from f [unfolded drops_elsewhere_def, rule_format, OF r1, of m] obtain s2 where
    s2: "f m ?s1 = Some s2" "sched_reachable s2" "held s2 = held ?s1" "mqs s2 a = mqs ?s1 a" by blast
  have "\<exists>s'. drop_queue a f s2 = Some s' \<and> mqs s' a = None"
    by (rule Cons.IH [OF s2(2) _ _ q1(2)]) (use s2(3,4) Cons.prems(2) in simp_all)
  with p s2(1) show ?case by (subst drop_queue.simps) simp
qed

text \<open>
  C4. What the assertions and the bounds of \<^verbatim>\<open>skynet_mq.c\<close> need, in a reachable state.  For the queues that a thread holds,
  \<open>skynet_globalmq_push\<close>, \<open>skynet_mq_pop\<close> and \<open>skynet_mq_release\<close> (with its loop over the messages and the assertion
  \<open>q->next == NULL\<close> of \<open>_release\<close>) do not fail, and a marked queue is freed; \<open>skynet_globalmq_pop\<close> never fails.
  \<open>skynet_mq_push\<close> does not fail on a queue that is not marked, and doubles \<open>cap\<close> exactly when all but one of its slots are in use: the
  C \<open>int\<close> overflows only when \<open>2 ^ 30 - 1\<close> messages wait, which the model does not follow.  \<open>skynet_mq_mark_release\<close> fails exactly on
  a queue that is marked already, where its assertion \<open>q->release == 0\<close> does.
\<close>

theorem mq_operations_never_fail:
  assumes "sched_reachable s"
  shows "skynet_globalmq_pop s \<noteq> None
    \<and> (\<forall>t a. (t, a) \<in> set (held s) \<longrightarrow>
         skynet_globalmq_push a s \<noteq> None \<and> skynet_mq_pop a s \<noteq> None)
    \<and> (\<forall>t a f. (t, a) \<in> set (held s) \<and> drops_elsewhere a f \<longrightarrow>
         (\<exists>q s'. mqs s a = Some q \<and> skynet_mq_release a f s = Some s' \<and> (q_release q \<longrightarrow> mqs s' a = None)))
    \<and> (\<forall>a q m. mqs s a = Some q \<and> \<not> q_release q \<longrightarrow>
         (\<exists>s' q'. skynet_mq_push a m s = Some s' \<and> mqs s' a = Some q' \<and>
            q_cap q' = (if Suc (mq_length q) = q_cap q then 2 * q_cap q else q_cap q)))
    \<and> (\<forall>a q. mqs s a = Some q \<longrightarrow> (skynet_mq_mark_release a s = None \<longleftrightarrow> q_release q))"
proof -
  obtain xs where inv: "sched_inv xs s" using assms reachable_inv by blast
  have held: "skynet_mq_pop a s \<noteq> None" "skynet_globalmq_push a s \<noteq> None"
    if "(t, a) \<in> set (held s)" for t a
    using held_queue [OF inv that] sched_inv_receive [OF inv that]
      sched_inv_give_back [OF inv that] by auto
  moreover have "\<exists>q s'. mqs s a = Some q \<and> skynet_mq_release a f s = Some s' \<and> (q_release q \<longrightarrow> mqs s' a = None)"
    if h: "(t, a) \<in> set (held s)" and f: "drops_elsewhere a f" for t a f
  proof -
    obtain q where q: "mqs s a = Some q" using held_queue [OF inv h] by blast
    then show ?thesis using drop_queue_frees [OF f assms h q refl] held(2) [OF h] by (cases "q_release q") (auto simp: skynet_mq_release_def)
  qed
  moreover have "\<exists>s' q'. skynet_mq_push a m s = Some s' \<and> mqs s' a = Some q' \<and>
      q_cap q' = (if Suc (mq_length q) = q_cap q then 2 * q_cap q else q_cap q)"
    if q: "mqs s a = Some q" and live: "\<not> q_release q" for a q m
  proof -
    have "ring_wf q" using sched_inv_queue [OF inv q] by (simp add: queue_ok_def)
    then show ?thesis using sched_inv_send [OF inv q live, of m] mq_push_cap [OF q] by blast
  qed
  moreover have "skynet_mq_mark_release a s = None \<longleftrightarrow> q_release q" if q: "mqs s a = Some q" for a q
    using sched_inv_mark [OF inv q] q by (cases "q_release q") (auto simp: skynet_mq_mark_release_def)
  moreover have "skynet_globalmq_pop s \<noteq> None" using sched_inv_take [OF inv] by auto
  ultimately show ?thesis by blast
qed

text \<open>A reachable state with a marked queue, which its holder releases.\<close>

definition marked_sys :: mq_sys where
  "marked_sys = demo_sys\<lparr>mqs := (mqs demo_sys)(1 \<mapsto> (mq_new 7)\<lparr>q_release := True\<rparr>)\<rparr>"

lemma marked_mark: "skynet_mq_mark_release 1 demo_sys = Some marked_sys"
  using demo_held(2) by (simp add: skynet_mq_mark_release_def marked_sys_def mq_new_def)

lemma marked_reachable: "sched_reachable marked_sys"
  by (rule sched_reachable.step [OF demo_reachable sched_step.mark [OF demo_held(2) _ marked_mark]]) (simp add: mq_new_def)

theorem mq_operations_never_fail_witness:
  "skynet_globalmq_push 1 demo_sys \<noteq> None
   \<and> skynet_mq_push 1 \<lparr>m_source = 2, m_session = 0, m_data = 0, m_sz = 0\<rparr> demo_sys \<noteq> None
   \<and> skynet_mq_mark_release 1 demo_sys \<noteq> None \<and> skynet_mq_mark_release 1 marked_sys = None
   \<and> (\<exists>s'. skynet_mq_release 1 (\<lambda>m s. Some s) marked_sys = Some s' \<and> mqs s' 1 = None)"
proof -
  have d: "(0, 1) \<in> set (held demo_sys)" "\<not> q_release (mq_new 7)" by (simp_all add: demo_held mq_new_def)
  have m: "(0, 1) \<in> set (held marked_sys)" "mqs marked_sys 1 = Some ((mq_new 7)\<lparr>q_release := True\<rparr>)"
    by (simp_all add: marked_sys_def demo_held)
  have f: "drops_elsewhere 1 (\<lambda>m s. Some s)" by (simp add: drops_elsewhere_def)
  have "skynet_globalmq_push 1 demo_sys \<noteq> None" using mq_operations_never_fail [OF demo_reachable] d(1) by blast
  moreover have "\<exists>s' q'. skynet_mq_push 1 \<lparr>m_source = 2, m_session = 0, m_data = 0, m_sz = 0\<rparr> demo_sys = Some s' \<and> mqs s' 1 = Some q' \<and>
      q_cap q' = (if Suc (mq_length (mq_new 7)) = q_cap (mq_new 7) then 2 * q_cap (mq_new 7) else q_cap (mq_new 7))"
    using mq_operations_never_fail [OF demo_reachable] demo_held(2) d(2) by blast
  moreover have "skynet_mq_mark_release 1 demo_sys = None \<longleftrightarrow> q_release (mq_new 7)"
    using mq_operations_never_fail [OF demo_reachable] demo_held(2) by blast
  moreover have "skynet_mq_mark_release 1 marked_sys = None \<longleftrightarrow> q_release ((mq_new 7)\<lparr>q_release := True\<rparr>)"
    using mq_operations_never_fail [OF marked_reachable] m(2) by blast
  moreover have "\<exists>q s'. mqs marked_sys 1 = Some q \<and> skynet_mq_release 1 (\<lambda>m s. Some s) marked_sys = Some s' \<and> (q_release q \<longrightarrow> mqs s' 1 = None)"
    using mq_operations_never_fail [OF marked_reachable] m(1) f by blast
  ultimately show ?thesis using m(2) d(2) by auto
qed

end
