(* ===== verification/Timer.thy ===== *)
theory Timer
  imports MessageQueue
begin

text \<open>
  \<^verbatim>\<open>skynet-src/skynet_timer.c\<close>: the hierarchical timing wheel.  256 near slots hold the
  events of the current block of 256 ticks, four levels of 64 slots hold later ones, and a
  level's slot is redistributed when the clock enters the block it stands for.

  A \<open>link_list\<close> is a HOL list (\<open>link\<close> appends, \<open>link_clear\<close> empties) and the arrays are
  functions from indices, which the code masks into range; the level index is checked.
  \<open>dispatch_list\<close> returns the messages the code hands to \<open>skynet_context_push\<close>.  The
  clocks are inputs: a \<open>timespec\<close> is a pair of seconds and nanoseconds.
\<close>

section \<open>Data\<close>

record timer_node =
  tn_expire :: u32
  tn_handle :: handle
  tn_session :: u32

record timer =
  near :: "nat \<Rightarrow> timer_node list"
  tvec :: "nat \<Rightarrow> nat \<Rightarrow> timer_node list"
  ttime :: u32
  starttime :: u32
  current :: u64
  current_point :: u64

definition TIME_NEAR_MASK :: u32 where "TIME_NEAR_MASK = 0xFF"
definition TIME_LEVEL_MASK :: u32 where "TIME_LEVEL_MASK = 0x3F"

definition PTYPE_RESPONSE :: u64 where "PTYPE_RESPONSE = 1"

definition MESSAGE_TYPE_SHIFT :: nat where "MESSAGE_TYPE_SHIFT = 56"

section \<open>The wheel\<close>

definition near_link :: "nat \<Rightarrow> timer_node \<Rightarrow> timer \<Rightarrow> timer" where
  "near_link i n T = T\<lparr>near := (near T)(i := near T i @ [n])\<rparr>"

definition level_link :: "nat \<Rightarrow> nat \<Rightarrow> timer_node \<Rightarrow> timer \<Rightarrow> timer" where
  "level_link l i n T = T\<lparr>tvec := (tvec T)(l := (tvec T l)(i := tvec T l i @ [n]))\<rparr>"

text \<open>\<open>for (i=0;i<3;i++) { if ((time|(mask-1))==(current_time|(mask-1))) break; mask <<= 6; }\<close>\<close>

function level_loop :: "nat \<Rightarrow> u32 \<Rightarrow> u32 \<Rightarrow> u32 \<Rightarrow> nat" where
  "level_loop i msk time cur =
     (if i < 3
      then if time OR (msk - 1) = cur OR (msk - 1) then i
           else level_loop (i + 1) (push_bit 6 msk) time cur
      else i)"
  by pat_completeness auto
termination by (relation "measure (\<lambda>(i, _). 3 - i)") auto

declare level_loop.simps [simp del]

definition add_node :: "timer_node \<Rightarrow> timer \<Rightarrow> timer" where
  "add_node n T =
     (let time = tn_expire n; cur = ttime T in
      if time OR TIME_NEAR_MASK = cur OR TIME_NEAR_MASK
      then near_link (unat (time AND TIME_NEAR_MASK)) n T
      else let i = level_loop 0 0x4000 time cur
           in level_link i (unat (drop_bit (8 + i * 6) time AND TIME_LEVEL_MASK)) n T)"

text \<open>\<open>time\<close> is a C \<open>int\<close>, converted to \<open>uint32_t\<close> in the addition.\<close>

definition timer_add :: "handle \<Rightarrow> u32 \<Rightarrow> u32 \<Rightarrow> timer \<Rightarrow> timer" where
  "timer_add h session time T =
     add_node \<lparr>tn_expire = time + ttime T, tn_handle = h, tn_session = session\<rparr> T"

definition move_list :: "nat \<Rightarrow> nat \<Rightarrow> timer \<Rightarrow> timer option" where
  "move_list level idx T = do {
     assert_that (level < 4);
     Some (fold add_node (tvec T level idx)
            (T\<lparr>tvec := (tvec T)(level := (tvec T level)(idx := []))\<rparr>)) }"

partial_function (option) shift_loop :: "timer \<Rightarrow> u32 \<Rightarrow> u32 \<Rightarrow> u32 \<Rightarrow> nat \<Rightarrow> timer option" where
  "shift_loop T ct msk time i =
     (if ct AND (msk - 1) = 0
      then let idx = unat (time AND TIME_LEVEL_MASK) in
           if idx \<noteq> 0 then move_list i idx T
           else shift_loop T ct (push_bit 6 msk) (drop_bit 6 time) (i + 1)
      else Some T)"

definition timer_shift :: "timer \<Rightarrow> timer option" where
  "timer_shift T =
     (let ct = ttime T + 1; T1 = T\<lparr>ttime := ct\<rparr> in
      if ct = 0 then move_list 3 0 T1
      else shift_loop T1 ct 0x100 (drop_bit 8 ct) 0)"

definition dispatch_list :: "timer_node list \<Rightarrow> (handle \<times> skynet_message) list" where
  "dispatch_list ns = map (\<lambda>n. (tn_handle n,
     \<lparr>m_source = 0, m_session = tn_session n, m_data = 0,
      m_sz = push_bit MESSAGE_TYPE_SHIFT PTYPE_RESPONSE\<rparr>)) ns"

text \<open>The loop of \<open>timer_execute\<close> ends after one round: the slot is empty then, and while the
  lock is released for the dispatch no event can be added to the slot of the current tick
  (\<open>add_not_current\<close> below).\<close>

definition timer_execute :: "timer \<Rightarrow> (handle \<times> skynet_message) list \<times> timer" where
  "timer_execute T =
     (let idx = unat (ttime T AND TIME_NEAR_MASK) in
      if near T idx \<noteq> []
      then (dispatch_list (near T idx), T\<lparr>near := (near T)(idx := [])\<rparr>)
      else ([], T))"

definition timer_update :: "timer \<Rightarrow> ((handle \<times> skynet_message) list \<times> timer) option" where
  "timer_update T = (let (out1, T1) = timer_execute T in do {
     T2 \<leftarrow> timer_shift T1;
     let (out2, T3) = timer_execute T2;
     Some (out1 @ out2, T3) })"

definition timer_create_timer :: timer where
  "timer_create_timer = \<lparr>near = (\<lambda>_. []), tvec = (\<lambda>_ _. []), ttime = 0, starttime = 0,
     current = 0, current_point = 0\<rparr>"

section \<open>The clocks\<close>

definition systime :: "u64 \<times> u64 \<Rightarrow> u32 \<times> u32" where
  "systime ti = (ucast (fst ti), ucast (snd ti div 10000000))"

definition gettime :: "u64 \<times> u64 \<Rightarrow> u64" where
  "gettime ti = fst ti * 100 + snd ti div 10000000"

fun update_loop :: "nat \<Rightarrow> timer \<Rightarrow> ((handle \<times> skynet_message) list \<times> timer) option" where
  "update_loop 0 T = Some ([], T)"
| "update_loop (Suc n) T = do {
     (out1, T1) \<leftarrow> timer_update T;
     (out2, T2) \<leftarrow> update_loop n T1;
     Some (out1 @ out2, T2) }"

text \<open>\<open>for (i=0;i<(int)diff;i++)\<close> runs \<open>diff\<close> times, or not at all when \<open>diff\<close> is negative as
  an \<open>int\<close>.\<close>

definition skynet_updatetime ::
  "u64 \<times> u64 \<Rightarrow> timer \<Rightarrow> ((handle \<times> skynet_message) list \<times> timer) option" where
  "skynet_updatetime ti T =
     (let cp = gettime ti in
      if cp < current_point T then Some ([], T\<lparr>current_point := cp\<rparr>)
      else if cp \<noteq> current_point T then
        let diff = (ucast (cp - current_point T) :: u32);
            T1 = T\<lparr>current_point := cp, current := current T + ucast diff\<rparr>
        in update_loop (nat (sint diff)) T1
      else Some ([], T))"

definition skynet_starttime :: "timer \<Rightarrow> u32" where
  "skynet_starttime T = starttime T"

definition skynet_now :: "timer \<Rightarrow> u64" where
  "skynet_now T = current T"

definition skynet_timer_init :: "u64 \<times> u64 \<Rightarrow> u64 \<times> u64 \<Rightarrow> timer" where
  "skynet_timer_init rt clk =
     (let (sec, cs) = systime rt
      in timer_create_timer\<lparr>starttime := sec, current := ucast cs, current_point := gettime clk\<rparr>)"

definition skynet_thread_time :: "u64 \<times> u64 \<Rightarrow> u64" where
  "skynet_thread_time ti = fst ti * 1000000 + snd ti div (1000000000 div 1000000)"

section \<open>Where an event waits\<close>

datatype place = Near nat | Level nat nat

fun bucket :: "timer \<Rightarrow> place \<Rightarrow> timer_node list" where
  "bucket T (Near i) = near T i"
| "bucket T (Level l i) = tvec T l i"

text \<open>The place of an event that expires at \<open>e\<close> when the clock shows \<open>c\<close>, on numbers.\<close>

definition nplace :: "nat \<Rightarrow> nat \<Rightarrow> place" where
  "nplace e c =
     (if e div 2 ^ 8 = c div 2 ^ 8 then Near (e mod 2 ^ 8)
      else if e div 2 ^ 14 = c div 2 ^ 14 then Level 0 (e div 2 ^ 8 mod 64)
      else if e div 2 ^ 20 = c div 2 ^ 20 then Level 1 (e div 2 ^ 14 mod 64)
      else if e div 2 ^ 26 = c div 2 ^ 26 then Level 2 (e div 2 ^ 20 mod 64)
      else Level 3 (e div 2 ^ 26 mod 64))"

definition place_of :: "u32 \<Rightarrow> u32 \<Rightarrow> place" where
  "place_of e c = nplace (unat e) (unat c)"

lemma or_mask_eq_iff:
  fixes x y :: "'a::len word"
  shows "x OR mask k = y OR mask k \<longleftrightarrow> unat x div 2 ^ k = unat y div 2 ^ k"
proof -
  have "x OR mask k = y OR mask k \<longleftrightarrow> drop_bit k x = drop_bit k y"
  proof
    assume eq: "x OR mask k = y OR mask k"
    show "drop_bit k x = drop_bit k y"
    proof (rule bit_word_eqI)
      fix n
      assume n: "n < LENGTH('a)"
      have "bit (x OR mask k) (k + n) = bit (y OR mask k) (k + n)" using eq by simp
      then show "bit (drop_bit k x) n = bit (drop_bit k y) n"
        by (auto simp: bit_simps)
    qed
  next
    assume eq: "drop_bit k x = drop_bit k y"
    show "x OR mask k = y OR mask k"
    proof (rule bit_word_eqI)
      fix n
      assume n: "n < LENGTH('a)"
      show "bit (x OR mask k) n = bit (y OR mask k) n"
      proof (cases "n < k")
        case True
        then show ?thesis using n by (simp add: bit_simps)
      next
        case False
        then have "bit (drop_bit k x) (n - k) = bit (drop_bit k y) (n - k)" using eq by simp
        then show ?thesis using False by (simp add: bit_simps)
      qed
    qed
  qed
  also have "\<dots> \<longleftrightarrow> unat (drop_bit k x) = unat (drop_bit k y)" by (rule word_unat_eq_iff)
  finally show ?thesis by (simp add: unat_shiftr)
qed

lemma level_loop_unfold:
  "level_loop 0 m e c =
     (if e OR (m - 1) = c OR (m - 1) then 0
      else if e OR (push_bit 6 m - 1) = c OR (push_bit 6 m - 1) then 1
      else if e OR (push_bit 12 m - 1) = c OR (push_bit 12 m - 1) then 2 else 3)"
  by (simp add: level_loop.simps [of 0] level_loop.simps [of "Suc 0"]
      level_loop.simps [of "Suc (Suc 0)"] level_loop.simps [of "Suc (Suc (Suc 0))"])

lemma level_masks:
  "(0x4000 :: u32) - 1 = mask 14" "push_bit 6 (0x4000 :: u32) - 1 = mask 20"
  "push_bit 12 (0x4000 :: u32) - 1 = mask 26"
  by (simp_all add: mask_eq_exp_minus_1 push_bit_eq_mult)

lemma level_loop_eq:
  "level_loop 0 0x4000 e c =
     (if unat e div 2 ^ 14 = unat c div 2 ^ 14 then 0
      else if unat e div 2 ^ 20 = unat c div 2 ^ 20 then 1
      else if unat e div 2 ^ 26 = unat c div 2 ^ 26 then 2 else 3)"
  by (simp only: level_loop_unfold level_masks or_mask_eq_iff)

lemma near_level_masks: "TIME_NEAR_MASK = mask 8" "TIME_LEVEL_MASK = mask 6"
  by (simp_all add: TIME_NEAR_MASK_def TIME_LEVEL_MASK_def mask_eq_exp_minus_1)

lemma one_mult_six: "8 + 1 * 6 = (14::nat)"
  and two_mult_six: "8 + 2 * 6 = (20::nat)"
  and three_mult_six: "8 + 3 * 6 = (26::nat)"
  and two_six: "2 ^ 6 = (64::nat)"
  by simp_all

lemma add_node_place:
  "add_node n T = (case place_of (tn_expire n) (ttime T) of
     Near i \<Rightarrow> near_link i n T | Level l i \<Rightarrow> level_link l i n T)"
proof -
  let ?e = "unat (tn_expire n)" and ?c = "unat (ttime T)"
  consider (near) "?e div 2 ^ 8 = ?c div 2 ^ 8"
    | (l0) "?e div 2 ^ 8 \<noteq> ?c div 2 ^ 8" "?e div 2 ^ 14 = ?c div 2 ^ 14"
    | (l1) "?e div 2 ^ 8 \<noteq> ?c div 2 ^ 8" "?e div 2 ^ 14 \<noteq> ?c div 2 ^ 14" "?e div 2 ^ 20 = ?c div 2 ^ 20"
    | (l2) "?e div 2 ^ 8 \<noteq> ?c div 2 ^ 8" "?e div 2 ^ 14 \<noteq> ?c div 2 ^ 14" "?e div 2 ^ 20 \<noteq> ?c div 2 ^ 20"
        "?e div 2 ^ 26 = ?c div 2 ^ 26"
    | (l3) "?e div 2 ^ 8 \<noteq> ?c div 2 ^ 8" "?e div 2 ^ 14 \<noteq> ?c div 2 ^ 14" "?e div 2 ^ 20 \<noteq> ?c div 2 ^ 20"
        "?e div 2 ^ 26 \<noteq> ?c div 2 ^ 26"
    by blast
  then show ?thesis
    by cases (simp_all only: add_node_def Let_def near_level_masks or_mask_eq_iff level_loop_eq
        place_of_def nplace_def unat_shiftr unat_and_mask two_six if_True if_False place.case
        refl not_False_eq_True mult_0 add_0_right one_mult_six two_mult_six three_mult_six)
qed


text \<open>The slot whose events the code redistributes when the clock reaches \<open>c\<close>.\<close>

definition moved_place :: "nat \<Rightarrow> place option" where
  "moved_place c =
     (if c = 0 then Some (Level 3 0)
      else if c mod 2 ^ 8 \<noteq> 0 then None
      else if c div 2 ^ 8 mod 64 \<noteq> 0 then Some (Level 0 (c div 2 ^ 8 mod 64))
      else if c div 2 ^ 14 mod 64 \<noteq> 0 then Some (Level 1 (c div 2 ^ 14 mod 64))
      else if c div 2 ^ 20 mod 64 \<noteq> 0 then Some (Level 2 (c div 2 ^ 20 mod 64))
      else Some (Level 3 (c div 2 ^ 26 mod 64)))"

lemma div_Suc_same: "\<not> k dvd Suc c \<Longrightarrow> Suc c div k = c div k" for c k :: nat
  by (simp add: div_Suc dvd_eq_mod_eq_0)

lemma div_eq_coarser: "x div 2 ^ j = y div 2 ^ j \<Longrightarrow> j \<le> k \<Longrightarrow> x div 2 ^ k = y div 2 ^ k" for x y :: nat
  by (metis div_mult2_eq le_add_diff_inverse power_add)

text \<open>If the block of size \<open>2 ^ k\<close> ends with \<open>c\<close>, nothing later lies in it.\<close>

lemma block_end:
  fixes e c :: nat
  assumes "2 ^ k dvd Suc c" and "e div 2 ^ k = c div 2 ^ k"
  shows "e \<le> c \<and> c < e + 2 ^ k"
proof -
  have "c mod 2 ^ k = 2 ^ k - 1"
    using assms(1) by (metis diff_Suc_1 dvd_imp_mod_0 mod_Suc nat.distinct(1) )
  then have "c = c div 2 ^ k * 2 ^ k + (2 ^ k - 1)" by (metis div_mult_mod_eq)
  moreover have "e = c div 2 ^ k * 2 ^ k + e mod 2 ^ k" using assms(2) by (metis div_mult_mod_eq)
  moreover have "e mod 2 ^ k < 2 ^ k" by simp
  ultimately show ?thesis by linarith
qed

lemma dvd_coarser: "2 ^ j dvd c \<Longrightarrow> c div 2 ^ j mod 64 = 0 \<longleftrightarrow> 2 ^ (j + 6) dvd c" for c :: nat
proof -
  assume "2 ^ j dvd c"
  then obtain d where c: "c = 2 ^ j * d" by (elim dvdE)
  have "c div 2 ^ j = d" using c by simp
  moreover have "2 ^ (j + 6) dvd c \<longleftrightarrow> 64 dvd d" using c by (simp add: power_add)
  ultimately show ?thesis by (simp add: dvd_eq_mod_eq_0)
qed

lemma not_dvd_coarser: "\<not> 2 ^ j dvd c \<Longrightarrow> j \<le> k \<Longrightarrow> \<not> 2 ^ k dvd c" for c :: nat
  by (meson dvd_trans le_imp_power_dvd)

lemma moved_place_dvd:
  "c \<noteq> 0 \<Longrightarrow> moved_place c =
     (if \<not> 2 ^ 8 dvd c then None
      else if \<not> 2 ^ 14 dvd c then Some (Level 0 (c div 2 ^ 8 mod 64))
      else if \<not> 2 ^ 20 dvd c then Some (Level 1 (c div 2 ^ 14 mod 64))
      else if \<not> 2 ^ 26 dvd c then Some (Level 2 (c div 2 ^ 20 mod 64))
      else Some (Level 3 (c div 2 ^ 26 mod 64)))"
  using dvd_coarser [of 8 c] dvd_coarser [of 14 c] dvd_coarser [of 20 c]
  by (simp only: moved_place_def dvd_eq_mod_eq_0 [of "2 ^ 8"] if_False) simp

definition later :: "nat \<Rightarrow> nat \<Rightarrow> bool" where
  "later e c \<longleftrightarrow> c < e \<or> e + 2 ^ 26 \<le> c"

lemma later_block:
  assumes "later e c" and "2 ^ k dvd Suc c" and "k \<le> 26"
  shows "e div 2 ^ k \<noteq> c div 2 ^ k"
proof
  assume "e div 2 ^ k = c div 2 ^ k"
  with assms(2) have "e \<le> c" "c < e + 2 ^ k" using block_end by blast+
  moreover have "(2::nat) ^ k \<le> 2 ^ 26" using assms(3) by (intro power_increasing) auto
  ultimately show False using assms(1) unfolding later_def by linarith
qed

text \<open>The propositional skeleton of the next lemma: \<open>a\<^sub>k\<close>, \<open>b\<^sub>k\<close>: the event lies in the
  \<open>2 ^ k\<close> block of the old, of the new time; \<open>d\<^sub>k\<close>: the new time starts such a block.\<close>

lemma place_step_cases:
  fixes N L0 L1 L2 L3 M0 M1 M2 M3 :: place
  assumes "\<not> d8 \<Longrightarrow> a8 = b8" "\<not> d14 \<Longrightarrow> a14 = b14" "\<not> d20 \<Longrightarrow> a20 = b20" "\<not> d26 \<Longrightarrow> a26 = b26"
    and "d8 \<Longrightarrow> \<not> a8" "d14 \<Longrightarrow> \<not> a14" "d20 \<Longrightarrow> \<not> a20" "d26 \<Longrightarrow> \<not> a26"
    and "d14 \<Longrightarrow> d8" "d20 \<Longrightarrow> d14" "d26 \<Longrightarrow> d20"
    and "b8 \<Longrightarrow> b14" "b14 \<Longrightarrow> b20" "b20 \<Longrightarrow> b26"
    and "b8 \<Longrightarrow> M0 = L0" "b14 \<Longrightarrow> M1 = L1" "b20 \<Longrightarrow> M2 = L2" "b26 \<Longrightarrow> M3 = L3"
  shows "(if b8 then N else if b14 then L0 else if b20 then L1 else if b26 then L2 else L3)
       = (if a8 then N else if a14 then L0 else if a20 then L1 else if a26 then L2 else L3)
     \<or> (if \<not> d8 then None else if \<not> d14 then Some M0 else if \<not> d20 then Some M1
        else if \<not> d26 then Some M2 else Some M3)
       = Some (if a8 then N else if a14 then L0 else if a20 then L1 else if a26 then L2 else L3)"
  using assms by (cases d8; cases d14; cases d20; cases d26; cases b8; cases b14; cases b20; cases b26) simp_all

text \<open>Advancing the clock by one tick leaves every later event in its place, unless its slot is
  the one the code redistributes.\<close>

lemma nplace_step:
  assumes later: "later e c"
  shows "nplace e (Suc c) = nplace e c \<or> moved_place (Suc c) = Some (nplace e c)"
proof -
  have same: "\<not> 2 ^ k dvd Suc c \<Longrightarrow> (e div 2 ^ k = c div 2 ^ k) = (e div 2 ^ k = Suc c div 2 ^ k)" for k
    by (simp add: div_Suc_same)
  note ne = later_block [OF later]
  have dv1: "(2::nat) ^ 14 dvd Suc c \<Longrightarrow> 2 ^ 8 dvd Suc c" by (erule power_le_dvd) simp
  have dv2: "(2::nat) ^ 20 dvd Suc c \<Longrightarrow> 2 ^ 14 dvd Suc c" by (erule power_le_dvd) simp
  have dv3: "(2::nat) ^ 26 dvd Suc c \<Longrightarrow> 2 ^ 20 dvd Suc c" by (erule power_le_dvd) simp
  have co1: "e div 2 ^ 8 = Suc c div 2 ^ 8 \<Longrightarrow> e div 2 ^ 14 = Suc c div 2 ^ 14"
    by (erule div_eq_coarser) simp
  have co2: "e div 2 ^ 14 = Suc c div 2 ^ 14 \<Longrightarrow> e div 2 ^ 20 = Suc c div 2 ^ 20"
    by (erule div_eq_coarser) simp
  have co3: "e div 2 ^ 20 = Suc c div 2 ^ 20 \<Longrightarrow> e div 2 ^ 26 = Suc c div 2 ^ 26"
    by (erule div_eq_coarser) simp
  have le: "8 \<le> (26::nat)" "14 \<le> (26::nat)" "20 \<le> (26::nat)" "26 \<le> (26::nat)" by simp_all
  show ?thesis
    unfolding nplace_def moved_place_dvd [of "Suc c", OF nat.distinct(2)]
    by (rule place_step_cases [OF same same same same ne [OF _ le(1)] ne [OF _ le(2)]
          ne [OF _ le(3)] ne [OF _ le(4)] dv1 dv2 dv3 co1 co2 co3]; assumption?) simp_all
qed

text \<open>The clock wraps to 0.\<close>

lemma nplace_wrap:
  assumes "later e (2 ^ 32 - 1)"
  shows "nplace e 0 = nplace e (2 ^ 32 - 1) \<or> moved_place 0 = Some (nplace e (2 ^ 32 - 1))"
proof -
  have ne: "e div 2 ^ k \<noteq> (2 ^ 32 - 1) div 2 ^ k" if "k \<le> 26" for k
  proof (rule later_block [OF assms _ that])
    have "(2::nat) ^ k dvd 2 ^ 32" using that by (intro le_imp_power_dvd) simp
    then show "2 ^ k dvd Suc (2 ^ 32 - 1)" by simp
  qed
  have le: "8 \<le> (26::nat)" "14 \<le> (26::nat)" "20 \<le> (26::nat)" "26 \<le> (26::nat)" by simp_all
  have old: "nplace e (2 ^ 32 - 1) = Level 3 (e div 2 ^ 26 mod 64)"
    unfolding nplace_def by (simp only: ne le if_False)
  show ?thesis
  proof (cases "e div 2 ^ 26 = 0")
    case True
    then show ?thesis using old by (simp add: moved_place_def)
  next
    case False
    then have "e div 2 ^ 26 \<noteq> 0 div 2 ^ 26" by simp
    moreover from this have "e div 2 ^ 20 \<noteq> 0 div 2 ^ 20" using div_eq_coarser [of e 20 0 26] by auto
    moreover from this have "e div 2 ^ 14 \<noteq> 0 div 2 ^ 14" using div_eq_coarser [of e 14 0 20] by auto
    moreover from this have "e div 2 ^ 8 \<noteq> 0 div 2 ^ 8" using div_eq_coarser [of e 8 0 14] by auto
    ultimately have "nplace e 0 = Level 3 (e div 2 ^ 26 mod 64)"
      unfolding nplace_def by (simp only: if_False)
    then show ?thesis using old by simp
  qed
qed

text \<open>\<open>timer_shift\<close> terminates, and moves exactly the slot \<open>moved_place\<close> names.\<close>

definition move_place :: "place option \<Rightarrow> timer \<Rightarrow> timer option" where
  "move_place p T = (case p of Some (Level l i) \<Rightarrow> move_list l i T | _ \<Rightarrow> Some T)"

lemma move_place_simps [simp]:
  "move_place None T = Some T"
  "move_place (Some (Level l i)) T = move_list l i T"
  by (simp_all add: move_place_def)

lemma unat_less_exp_32: "unat (x :: u32) < 2 ^ 32"
  using unsigned_less [of x] by simp

lemma and_mask_zero_iff: "x AND (mask k) = 0 \<longleftrightarrow> 2 ^ k dvd unat x" for x :: "'a::len word"
  by (metis dvd_eq_mod_eq_0 unat_and_mask unsigned_0 unat_eq_zero)

lemma shift_masks:
  "(0x100 :: u32) - 1 = mask 8" "push_bit 6 (0x100 :: u32) - 1 = mask 14"
  "push_bit 6 (push_bit 6 (0x100 :: u32)) - 1 = mask 20"
  "push_bit 6 (push_bit 6 (push_bit 6 (0x100 :: u32))) - 1 = mask 26"
  by (simp_all add: mask_eq_exp_minus_1 push_bit_eq_mult)

lemma level_index: "unat (drop_bit k (x :: u32) AND TIME_LEVEL_MASK) = unat x div 2 ^ k mod 64"
  by (simp only: near_level_masks unat_and_mask unat_shiftr two_six)

lemma shift_loop_step:
  assumes "msk - 1 = mask k"
  shows "shift_loop T ct msk (drop_bit k ct) i =
     (if 2 ^ k dvd unat ct then
        if unat ct div 2 ^ k mod 64 \<noteq> 0 then move_list i (unat ct div 2 ^ k mod 64) T
        else shift_loop T ct (push_bit 6 msk) (drop_bit (k + 6) ct) (i + 1)
      else Some T)"
proof -
  have "drop_bit 6 (drop_bit k ct) = drop_bit (k + 6) ct" by (simp add: add.commute)
  then show ?thesis
    by (subst shift_loop.simps)
      (simp only: assms and_mask_zero_iff level_index Let_def)
qed

lemma timer_shift_eq:
  "timer_shift T = move_place (moved_place (unat (ttime T + 1))) (T\<lparr>ttime := ttime T + 1\<rparr>)"
proof (cases "ttime T + 1 = 0")
  case True
  then show ?thesis by (simp add: timer_shift_def moved_place_def)
next
  case False
  define ct where "ct = ttime T + 1"
  define T1 where "T1 = T\<lparr>ttime := ct\<rparr>"
  have nz: "unat ct \<noteq> 0" using False by (simp add: ct_def unat_eq_zero)
  note c = dvd_coarser [of 8 "unat ct"] dvd_coarser [of 14 "unat ct"] dvd_coarser [of 20 "unat ct"]
  have last: "unat ct div 2 ^ 26 mod 64 \<noteq> 0" if "2 ^ 26 dvd unat ct"
  proof
    assume "unat ct div 2 ^ 26 mod 64 = 0"
    then have "2 ^ (26 + 6) dvd unat ct" by (rule iffD1 [OF dvd_coarser [OF that]])
    then have "2 ^ 32 \<le> unat ct" using nz by (auto dest: dvd_imp_le)
    then show False using unat_less_exp_32 [of ct] by simp
  qed
  have sums: "8 + 6 = (14::nat)" "14 + 6 = (20::nat)" "20 + 6 = (26::nat)"
    "0 + 1 = (1::nat)" "1 + 1 = (2::nat)" "2 + 1 = (3::nat)" by simp_all
  note sh8 = shift_loop_step [OF shift_masks(1), of T1 ct 0]
  have mv: "moved_place (unat ct) =
     (if 2 ^ 8 dvd unat ct then
        if unat ct div 2 ^ 8 mod 64 \<noteq> 0 then Some (Level 0 (unat ct div 2 ^ 8 mod 64))
        else if unat ct div 2 ^ 14 mod 64 \<noteq> 0 then Some (Level 1 (unat ct div 2 ^ 14 mod 64))
        else if unat ct div 2 ^ 20 mod 64 \<noteq> 0 then Some (Level 2 (unat ct div 2 ^ 20 mod 64))
        else Some (Level 3 (unat ct div 2 ^ 26 mod 64))
      else None)"
    using nz by (simp only: moved_place_def dvd_eq_mod_eq_0 [of "2 ^ 8"]) simp
  have "timer_shift T = shift_loop T1 ct 0x100 (drop_bit 8 ct) 0"
    using False by (simp add: timer_shift_def Let_def ct_def T1_def)
  also have "\<dots> = move_place (moved_place (unat ct)) T1"
    using c last unfolding sh8 mv sums shift_loop_step [OF shift_masks(2)]
      shift_loop_step [OF shift_masks(3)] shift_loop_step [OF shift_masks(4)]
    by (cases "2 ^ 8 dvd unat ct"; cases "2 ^ 14 dvd unat ct"; cases "2 ^ 20 dvd unat ct";
        cases "2 ^ 26 dvd unat ct") (simp_all only: if_True if_False move_place_simps not_False_eq_True
          not_True_eq_False simp_thms sums)
  finally show ?thesis by (simp add: ct_def T1_def)
qed

section \<open>One redistribution\<close>

lemma place_step:
  assumes "later (unat e) (unat c)"
  shows "place_of e (c + 1) = place_of e c
     \<or> moved_place (unat (c + 1)) = Some (place_of e c)"
proof (cases "c + 1 = 0")
  case True
  then have "c = - 1" by (simp add: eq_neg_iff_add_eq_0)
  then have "unat c = 2 ^ 32 - 1" by (simp add: unsigned_minus_1_eq_mask mask_eq_exp_minus_1)
  then show ?thesis using nplace_wrap [of "unat e"] assms True by (simp only: place_of_def unsigned_0)
next
  case False
  then have "unat (c + 1) = Suc (unat c)" using unatSuc [of c] by (simp add: add.commute)
  then show ?thesis using nplace_step [OF assms] by (simp only: place_of_def)
qed

definition link_at :: "place \<Rightarrow> timer_node \<Rightarrow> timer \<Rightarrow> timer" where
  "link_at p n T = (case p of Near i \<Rightarrow> near_link i n T | Level l i \<Rightarrow> level_link l i n T)"

lemma bucket_link_at: "bucket (link_at p n T) q = (if q = p then bucket T q @ [n] else bucket T q)"
  by (cases p; cases q) (auto simp: link_at_def near_link_def level_link_def)

lemma add_node_bucket:
  "bucket (add_node n T) q
     = (if q = place_of (tn_expire n) (ttime T) then bucket T q @ [n] else bucket T q)"
  by (simp add: add_node_place link_at_def [symmetric] bucket_link_at)

lemma add_node_time [simp]: "ttime (add_node n T) = ttime T"
  by (simp add: add_node_place near_link_def level_link_def split: place.split)

lemma fold_add_node_time [simp]: "ttime (fold add_node ns T) = ttime T"
  by (induction ns arbitrary: T) simp_all

lemma fold_add_node_bucket:
  "bucket (fold add_node ns T) q
     = bucket T q @ filter (\<lambda>n. place_of (tn_expire n) (ttime T) = q) ns"
  by (induction ns arbitrary: T) (auto simp: add_node_bucket)

text \<open>The levels the code redistributes exist.\<close>

lemma moved_place_level: "moved_place c = Some p \<Longrightarrow> \<exists>l i. p = Level l i \<and> l < 4"
  by (auto simp: moved_place_def split: if_splits)

lemma timer_shift_buckets:
  "\<exists>T'. timer_shift T = Some T' \<and> ttime T' = ttime T + 1 \<and>
     (\<forall>q. bucket T' q =
       (if moved_place (unat (ttime T + 1)) = Some q then [] else bucket T q) @
       (case moved_place (unat (ttime T + 1)) of None \<Rightarrow> []
        | Some p \<Rightarrow> filter (\<lambda>n. place_of (tn_expire n) (ttime T + 1) = q) (bucket T p)))"
proof (cases "moved_place (unat (ttime T + 1))")
  case None
  have "bucket (T\<lparr>ttime := ttime T + 1\<rparr>) q = bucket T q" for q by (cases q) simp_all
  then show ?thesis using None by (simp add: timer_shift_eq)
next
  case (Some p)
  then obtain l i where p: "p = Level l i" "l < 4" using moved_place_level by blast
  let ?T1 = "T\<lparr>ttime := ttime T + 1\<rparr>"
  let ?T2 = "?T1\<lparr>tvec := (tvec T)(l := (tvec T l)(i := []))\<rparr>"
  have sh: "timer_shift T = Some (fold add_node (tvec T l i) ?T2)"
    using Some p by (simp add: timer_shift_eq move_list_def)
  have "bucket ?T2 q = (if q = p then [] else bucket T q)" for q
    by (cases q) (auto simp: p(1))
  then show ?thesis using Some p(1) by (auto simp add: sh fold_add_node_bucket)
qed

section \<open>Time windows\<close>

lemma of_nat_window:
  fixes d d' :: nat
  assumes "(of_nat d :: u32) = of_nat d'" and "d \<le> d'" and "d' < d + 2 ^ 32"
  shows "d = d'"
proof -
  have "d' mod 2 ^ 32 = d mod 2 ^ 32"
    using assms(1) by (simp add: word_of_nat_eq_iff take_bit_eq_mod)
  then have "2 ^ 32 dvd d' - d" using assms(2) mod_eq_dvd_iff_nat by blast
  then show ?thesis using assms(2,3) by (metis add_diff_cancel_left' dvd_imp_le le_add_diff_inverse less_diff_conv2 linorder_not_less nat_neq_iff not_less0 zero_less_diff le_add1)
qed

lemma later_window:
  assumes "now < d" and "d < now + 2 ^ 31"
  shows "later (unat (of_nat d :: u32)) (unat (of_nat now :: u32))"
proof -
  define r where "r = now mod 2 ^ 32"
  define k where "k = d - now"
  have k: "0 < k" "k < 2 ^ 31" "d = now + k" using assms by (simp_all add: k_def)
  have r: "r < 2 ^ 32" by (simp add: r_def)
  have "d mod 2 ^ 32 = (r + k) mod 2 ^ 32" unfolding k(3) r_def by (rule mod_add_left_eq [symmetric])
  also have "\<dots> = (if r + k < 2 ^ 32 then r + k else r + k - 2 ^ 32)"
    using k(2) r by (simp add: mod_if)
  finally have "later (d mod 2 ^ 32) r" using k(1,2) r unfolding later_def by (simp split: if_splits) arith?
  then show ?thesis by (simp add: r_def unat_of_nat)
qed

section \<open>The agenda\<close>

text \<open>The specification works in unbounded time: an event added at tick \<open>now\<close> with a delay of
  \<open>t\<close> is due at tick \<open>now + t\<close>, and the agenda lists the events in the order they were added.\<close>

datatype timer_op = Add handle u32 u32 | Tick

definition response :: "handle \<Rightarrow> u32 \<Rightarrow> handle \<times> skynet_message" where
  "response h session = (h, \<lparr>m_source = 0, m_session = session, m_data = 0,
     m_sz = push_bit MESSAGE_TYPE_SHIFT PTYPE_RESPONSE\<rparr>)"

fun agenda :: "nat \<Rightarrow> timer_op list \<Rightarrow> (nat \<times> handle \<times> skynet_message) list" where
  "agenda now [] = []"
| "agenda now (Add h s t # ops) = (now + unat t, response h s) # agenda now ops"
| "agenda now (Tick # ops) = agenda (now + 1) ops"

definition due :: "nat \<Rightarrow> (nat \<times> handle \<times> skynet_message) list \<Rightarrow> (handle \<times> skynet_message) list" where
  "due k L = map snd (filter (\<lambda>x. fst x = k) L)"

fun ticks :: "timer_op list \<Rightarrow> nat" where
  "ticks [] = 0"
| "ticks (Add h s t # ops) = ticks ops"
| "ticks (Tick # ops) = Suc (ticks ops)"

text \<open>\<open>skynet_timeout\<close> only adds events with a positive \<open>int\<close> delay.\<close>

definition op_ok :: "timer_op \<Rightarrow> bool" where
  "op_ok o' = (case o' of Add h s t \<Rightarrow> 0 < t \<and> t < 0x80000000 | Tick \<Rightarrow> True)"

fun run_timer :: "timer_op list \<Rightarrow> timer \<Rightarrow> ((handle \<times> skynet_message) list list \<times> timer) option" where
  "run_timer [] T = Some ([], T)"
| "run_timer (Add h s t # ops) T = run_timer ops (timer_add h s t T)"
| "run_timer (Tick # ops) T = do {
     (out, T1) \<leftarrow> timer_update T;
     (outs, T2) \<leftarrow> run_timer ops T1;
     Some (out # outs, T2) }"

text \<open>How the wheel represents the agenda \<open>L\<close> at tick \<open>now\<close>.\<close>

definition waiting :: "nat \<Rightarrow> nat \<Rightarrow> bool" where
  "waiting now d \<longleftrightarrow> now < d \<and> d < now + 2 ^ 31"

definition wheel_rep :: "timer \<Rightarrow> nat \<Rightarrow> (nat \<times> handle \<times> skynet_message) list \<Rightarrow> bool" where
  "wheel_rep T now L \<longleftrightarrow>
     ttime T = of_nat now \<and>
     (\<forall>p. \<forall>n \<in> set (bucket T p). place_of (tn_expire n) (ttime T) = p \<and>
        (\<exists>d. waiting now d \<and> tn_expire n = of_nat d)) \<and>
     (\<forall>d. waiting now d \<longrightarrow>
        dispatch_list (filter (\<lambda>n. tn_expire n = of_nat d) (bucket T (place_of (of_nat d) (ttime T))))
          = due d L) \<and>
     (\<forall>x \<in> set L. fst x < now + 2 ^ 31)"

lemma wheel_repD:
  assumes "wheel_rep T now L"
  shows "ttime T = of_nat now"
    and "n \<in> set (bucket T p) \<Longrightarrow> place_of (tn_expire n) (ttime T) = p"
    and "n \<in> set (bucket T p) \<Longrightarrow> \<exists>d. waiting now d \<and> tn_expire n = of_nat d"
    and "waiting now d \<Longrightarrow> dispatch_list (filter (\<lambda>n. tn_expire n = of_nat d)
          (bucket T (place_of (of_nat d) (ttime T)))) = due d L"
    and "x \<in> set L \<Longrightarrow> fst x < now + 2 ^ 31"
  using assms unfolding wheel_rep_def by blast+

lemma due_append: "due k (L @ M) = due k L @ due k M"
  by (simp add: due_def)

lemma due_empty: "(\<And>x. x \<in> set L \<Longrightarrow> fst x \<noteq> k) \<Longrightarrow> due k L = []"
  by (auto simp: due_def filter_empty_conv)

lemma waiting_inj:
  assumes "waiting now d" "waiting now d'" and eq: "(of_nat d :: u32) = of_nat d'"
  shows "d = d'"
proof (cases "d \<le> d'")
  case True
  then show ?thesis using of_nat_window [OF eq] assms unfolding waiting_def by simp
next
  case False
  then show ?thesis using of_nat_window [OF eq [symmetric]] assms unfolding waiting_def by simp
qed

lemma waiting_not_now: "waiting now d \<Longrightarrow> (of_nat d :: u32) \<noteq> of_nat now"
  using of_nat_window [of now d] unfolding waiting_def by auto

lemma waiting_later: "waiting now d \<Longrightarrow> later (unat (of_nat d :: u32)) (unat (of_nat now :: u32))"
  unfolding waiting_def by (rule later_window) auto

lemma wheel_rep_create: "wheel_rep timer_create_timer 0 []"
proof -
  have "bucket timer_create_timer p = []" for p by (cases p) (simp_all add: timer_create_timer_def)
  then show ?thesis
    unfolding wheel_rep_def by (simp add: dispatch_list_def due_def) (simp add: timer_create_timer_def)
qed

text \<open>Adding an event.\<close>

lemma add_due:
  "0 < t \<Longrightarrow> t < 0x80000000 \<Longrightarrow> waiting now (now + unat t)" for t :: u32
  by (simp add: waiting_def word_less_nat_alt unat_gt_0)

lemma wheel_rep_link:
  assumes rep: "wheel_rep T now L" and w: "waiting now k" and e: "tn_expire n0 = of_nat k"
  shows "wheel_rep (add_node n0 T) now (L @ [(k, tn_handle n0, snd (response (tn_handle n0) (tn_session n0)))])"
    (is "wheel_rep ?T _ (_ @ [?x])")
proof -
  note R = wheel_repD [OF rep]
  have eqd: "(of_nat k :: u32) = of_nat d \<longleftrightarrow> k = d" if "waiting now d" for d
    using waiting_inj [OF w that] by blast
  note b = add_node_bucket [of n0 T, unfolded e]
  show ?thesis
    unfolding wheel_rep_def add_node_time
  proof (intro conjI allI impI ballI)
    fix p n
    assume n: "n \<in> set (bucket ?T p)"
    show "place_of (tn_expire n) (ttime T) = p"
      using R(2) n e unfolding b by (auto split: if_splits)
    show "\<exists>d. waiting now d \<and> tn_expire n = of_nat d"
      using R(3) n e w unfolding b by (auto split: if_splits)
  next
    fix d
    assume d: "waiting now d"
    show "dispatch_list (filter (\<lambda>n. tn_expire n = of_nat d) (bucket ?T (place_of (of_nat d) (ttime T))))
      = due d (L @ [?x])"
      using R(4) [OF d] eqd [OF d] e unfolding b
      by (auto simp: due_append due_def dispatch_list_def response_def)
  next
    fix x
    assume "x \<in> set (L @ [?x])"
    then show "fst x < now + 2 ^ 31" using R(5) [of x] w unfolding waiting_def by auto
  qed (rule R(1))
qed

lemma wheel_rep_add:
  assumes rep: "wheel_rep T now L" and t: "0 < t" "t < 0x80000000"
  shows "wheel_rep (timer_add h s t T) now (L @ [(now + unat t, response h s)])"
  using wheel_rep_link [OF rep add_due [OF t], of "\<lparr>tn_expire = t + ttime T, tn_handle = h, tn_session = s\<rparr>"]
  by (simp add: timer_add_def wheel_repD(1) [OF rep] response_def add.commute)

text \<open>A new event is never in the slot of the current tick.\<close>

lemma place_near_eq:
  assumes "place_of e c = Near (unat (c AND TIME_NEAR_MASK))"
  shows "e = c"
proof -
  have n: "unat e div 2 ^ 8 = unat c div 2 ^ 8" "unat e mod 2 ^ 8 = unat c mod 2 ^ 8"
    using assms unfolding place_of_def nplace_def
    by (simp_all only: near_level_masks unat_and_mask split: if_splits) simp_all
  then have "unat e = unat c" by (metis div_mult_mod_eq)
  then show ?thesis by (rule unsigned_word_eqI)
qed

lemma add_not_current:
  assumes "0 < t" "t < 0x80000000"
  shows "near (timer_add h s t T) (unat (ttime T AND TIME_NEAR_MASK))
    = near T (unat (ttime T AND TIME_NEAR_MASK))"
proof -
  have "t + ttime T \<noteq> ttime T" using assms by simp
  then have "place_of (t + ttime T) (ttime T) \<noteq> Near (unat (ttime T AND TIME_NEAR_MASK))"
    using place_near_eq by blast
  then show ?thesis
    using add_node_bucket [of _ T "Near (unat (ttime T AND TIME_NEAR_MASK))"]
    by (simp add: timer_add_def)
qed

text \<open>Advancing the clock.\<close>

lemma timer_execute_eq:
  "timer_execute T = (dispatch_list (near T (unat (ttime T AND TIME_NEAR_MASK))),
     T\<lparr>near := (near T)(unat (ttime T AND TIME_NEAR_MASK) := [])\<rparr>)"
  by (simp add: timer_execute_def Let_def dispatch_list_def fun_upd_idem)

lemma near_current:
  assumes "\<And>n. n \<in> set (bucket T (Near (unat (ttime T AND TIME_NEAR_MASK)))) \<Longrightarrow>
      place_of (tn_expire n) (ttime T) = Near (unat (ttime T AND TIME_NEAR_MASK))"
    and "n \<in> set (near T (unat (ttime T AND TIME_NEAR_MASK)))"
  shows "tn_expire n = ttime T"
  using assms place_near_eq by simp

lemma execute_before:
  assumes "wheel_rep T now L"
  shows "timer_execute T = ([], T)"
proof -
  note R = wheel_repD [OF assms]
  have "near T (unat (ttime T AND TIME_NEAR_MASK)) = []"
  proof (rule ccontr)
    assume "near T (unat (ttime T AND TIME_NEAR_MASK)) \<noteq> []"
    then obtain n where n: "n \<in> set (near T (unat (ttime T AND TIME_NEAR_MASK)))"
      by (meson hd_in_set)
    then have "tn_expire n = ttime T" using R(2) by (intro near_current) auto
    moreover obtain d where "waiting now d" "tn_expire n = of_nat d" using R(3) [of n "Near _"] n by auto
    ultimately show False using waiting_not_now R(1) by simp
  qed
  then show ?thesis by (simp add: timer_execute_def)
qed

lemma shift_rep:
  assumes rep: "wheel_rep T now L"
  obtains T1 where "timer_shift T = Some T1" and "ttime T1 = of_nat (now + 1)"
    and "\<And>n q. n \<in> set (bucket T1 q) \<Longrightarrow> place_of (tn_expire n) (ttime T1) = q"
    and "\<And>n q. n \<in> set (bucket T1 q) \<Longrightarrow> \<exists>d. waiting now d \<and> tn_expire n = of_nat d"
    and "\<And>d. waiting now d \<Longrightarrow> dispatch_list (filter (\<lambda>n. tn_expire n = of_nat d)
          (bucket T1 (place_of (of_nat d) (ttime T1)))) = due d L"
proof -
  note R = wheel_repD [OF rep]
  define c where "c = ttime T"
  define mp where "mp = moved_place (unat (c + 1))"
  obtain T1 where sh: "timer_shift T = Some T1" and t1: "ttime T1 = c + 1"
    and b: "\<And>q. bucket T1 q = (if mp = Some q then [] else bucket T q) @
       (case mp of None \<Rightarrow> [] | Some p \<Rightarrow> filter (\<lambda>n. place_of (tn_expire n) (c + 1) = q) (bucket T p))"
    using timer_shift_buckets [of T] unfolding c_def [symmetric] mp_def [symmetric] by blast
  have step: "place_of (of_nat d) (c + 1) = place_of (of_nat d) c \<or> mp = Some (place_of (of_nat d) c)"
    if "waiting now d" for d
    using place_step [OF waiting_later [OF that]] R(1) by (simp add: c_def mp_def)
  have old: "place_of (tn_expire n) c = q" "\<exists>d. waiting now d \<and> tn_expire n = of_nat d"
    if "n \<in> set (bucket T q)" for n q
    using R(2,3) that by (auto simp: c_def)
  show thesis
  proof
    show "timer_shift T = Some T1" by (rule sh)
    show "ttime T1 = of_nat (now + 1)" using t1 R(1) by (simp add: c_def)
    show "\<exists>d. waiting now d \<and> tn_expire n = of_nat d" if "n \<in> set (bucket T1 q)" for n q
      using that old unfolding b by (auto split: if_splits option.splits)
    show "place_of (tn_expire n) (ttime T1) = q" if n: "n \<in> set (bucket T1 q)" for n q
    proof (cases "mp \<noteq> Some q \<and> n \<in> set (bucket T q)")
      case True
      then obtain d where "waiting now d" "tn_expire n = of_nat d" using old by blast
      then show ?thesis using step [of d] True old(1) [of n q] t1 by auto
    next
      case False
      then show ?thesis using n t1 unfolding b by (auto split: if_splits option.splits)
    qed
    show "dispatch_list (filter (\<lambda>n. tn_expire n = of_nat d)
        (bucket T1 (place_of (of_nat d) (ttime T1)))) = due d L" if d: "waiting now d" for d
    proof -
      let ?f = "filter (\<lambda>n. tn_expire n = of_nat d)"
      have none: "?f (bucket T q) = []" if "q \<noteq> place_of (of_nat d) c" for q
        using that old(1) by (fastforce simp: filter_empty_conv)
      have "?f (bucket T1 (place_of (of_nat d) (c + 1))) = ?f (bucket T (place_of (of_nat d) c))"
      proof (cases "mp = Some (place_of (of_nat d) c)")
        case True
        have "?f (filter (\<lambda>n. place_of (tn_expire n) (c + 1) = place_of (of_nat d) (c + 1)) xs) = ?f xs"
          for xs by (induction xs) auto
        then show ?thesis using True none by (auto simp: b simp del: filter_filter)
      next
        case False
        then have same: "place_of (of_nat d) (c + 1) = place_of (of_nat d) c" using step d by blast
        have "?f (filter P (bucket T p)) = []" if "mp = Some p" for p P
          using none [of p] that False by (auto simp: filter_empty_conv)
        then show ?thesis using same False by (auto simp: b simp del: filter_filter split: option.split)
      qed
      then show ?thesis using R(4) [OF d] t1 by (simp add: c_def)
    qed
  qed
qed

lemma place_of_self: "place_of c c = Near (unat (c AND TIME_NEAR_MASK))"
  by (simp only: place_of_def nplace_def near_level_masks unat_and_mask if_True refl)

lemma wheel_rep_tick:
  assumes rep: "wheel_rep T now L"
  shows "\<exists>T'. timer_update T = Some (due (now + 1) L, T') \<and> wheel_rep T' (now + 1) L"
proof -
  note R = wheel_repD [OF rep]
  obtain T1 where sh: "timer_shift T = Some T1"
    and t1: "ttime T1 = of_nat (now + 1)"
    and pl: "\<And>n q. n \<in> set (bucket T1 q) \<Longrightarrow> place_of (tn_expire n) (ttime T1) = q"
    and wt: "\<And>n q. n \<in> set (bucket T1 q) \<Longrightarrow> \<exists>d. waiting now d \<and> tn_expire n = of_nat d"
    and ds: "\<And>d. waiting now d \<Longrightarrow> dispatch_list (filter (\<lambda>n. tn_expire n = of_nat d)
          (bucket T1 (place_of (of_nat d) (ttime T1)))) = due d L"
    apply (rule shift_rep [OF rep])
    subgoal premises p for T1 by (rule p(1) [OF p(2-)])
    done
  define idx where "idx = unat (ttime T1 AND TIME_NEAR_MASK)"
  have self: "place_of (ttime T1) (ttime T1) = Near idx" by (simp add: idx_def place_of_self)
  have cur: "tn_expire n = ttime T1" if "n \<in> set (bucket T1 (Near idx))" for n
    using pl [OF that] place_near_eq unfolding idx_def by blast
  have w1: "waiting now (now + 1)" by (simp add: waiting_def)
  have "filter (\<lambda>n. tn_expire n = of_nat (now + 1)) (bucket T1 (Near idx)) = bucket T1 (Near idx)"
    using cur t1 by (simp add: filter_id_conv)
  then have out: "dispatch_list (near T1 idx) = due (now + 1) L"
    using ds [OF w1] self t1 by simp
  define T2 where "T2 = T1\<lparr>near := (near T1)(idx := [])\<rparr>"
  have b2: "bucket T2 q = (if q = Near idx then [] else bucket T1 q)" for q
    by (cases q) (auto simp: T2_def)
  have t2: "ttime T2 = of_nat (now + 1)" using t1 by (simp add: T2_def)
  have up: "timer_update T = Some (due (now + 1) L, T2)"
    using execute_before [OF rep] sh out timer_execute_eq [of T1]
    by (simp add: timer_update_def T2_def idx_def [symmetric])
  have other: "place_of (of_nat d) (ttime T1) \<noteq> Near idx" if "waiting (now + 1) d" for d
    using place_near_eq [of "of_nat d" "ttime T1"] waiting_not_now [OF that] t1
    unfolding idx_def by metis
  have "wheel_rep T2 (now + 1) L"
    unfolding wheel_rep_def
  proof (intro conjI allI impI ballI)
    fix p n
    assume n: "n \<in> set (bucket T2 p)"
    then have n1: "n \<in> set (bucket T1 p)" "p \<noteq> Near idx" by (auto simp: b2 split: if_splits)
    show "place_of (tn_expire n) (ttime T2) = p" using pl n1 t1 t2 by simp
    obtain d where d: "waiting now d" "tn_expire n = of_nat d" using wt n1 by blast
    have "d \<noteq> now + 1" using d(2) n1 pl self t1 by metis
    then have "waiting (now + 1) d" using d(1) by (simp add: waiting_def)
    then show "\<exists>d. waiting (now + 1) d \<and> tn_expire n = of_nat d" using d(2) by blast
  next
    fix d
    assume d: "waiting (now + 1) d"
    show "dispatch_list (filter (\<lambda>n. tn_expire n = of_nat d) (bucket T2 (place_of (of_nat d) (ttime T2))))
        = due d L"
    proof (cases "waiting now d")
      case True
      then show ?thesis using ds [OF True] other [OF d] t1 t2 by (simp add: b2)
    next
      case False
      then have far: "d = now + 2 ^ 31" using d by (simp add: waiting_def)
      have "tn_expire n \<noteq> of_nat d" if mem: "n \<in> set (bucket T1 q)" for n q
      proof
        assume "tn_expire n = of_nat d"
        moreover obtain d' where "waiting now d'" "tn_expire n = of_nat d'" using wt [OF mem] by blast
        ultimately have "d' = d" using of_nat_window [of d' d] far by (simp add: waiting_def)
        then show False using \<open>waiting now d'\<close> False by simp
      qed
      then have "filter (\<lambda>n. tn_expire n = of_nat d) (bucket T2 q) = []" for q
        by (auto simp: b2 filter_empty_conv)
      moreover have "due d L = []" using R(5) far by (intro due_empty) fastforce
      ultimately show ?thesis by (simp add: dispatch_list_def)
    qed
  next
    fix x
    assume "x \<in> set L"
    then show "fst x < now + 1 + 2 ^ 31" using R(5) [of x] by simp
  qed (rule t2)
  with up show ?thesis by blast
qed


lemma agenda_after: "x \<in> set (agenda now ops) \<Longrightarrow> list_all op_ok ops \<Longrightarrow> now < fst x"
proof (induction now ops arbitrary: x rule: agenda.induct)
  case (2 now h s t ops)
  have "0 < unat t" if "0 < t" using that unat_gt_0 by auto
  then show ?case using 2(1) [of x] 2(2,3) by (auto simp: op_ok_def)
qed (fastforce simp: op_ok_def)+

lemma run_timer_agenda:
  "wheel_rep T now L \<Longrightarrow> list_all op_ok ops \<Longrightarrow>
   \<exists>T'. run_timer ops T =
     Some (map (\<lambda>k. due k (L @ agenda now ops)) [now + 1..<now + 1 + ticks ops], T')"
proof (induction ops arbitrary: T now L)
  case Nil
  then show ?case by simp
next
  case (Cons op ops)
  show ?case
  proof (cases op)
    case (Add h s t)
    then show ?thesis
      using Cons.IH [OF wheel_rep_add [OF Cons.prems(1)], of t h s] Cons.prems(2)
      by (simp add: op_ok_def)
  next
    case Tick
    obtain T1 where T1: "timer_update T = Some (due (now + 1) L, T1)" "wheel_rep T1 (now + 1) L"
      using wheel_rep_tick [OF Cons.prems(1)] by blast
    have ops: "list_all op_ok ops" using Cons.prems(2) by simp
    have "due (now + 1) (agenda (now + 1) ops) = []"
      using agenda_after [OF _ ops] by (intro due_empty) fastforce
    moreover have "[now + 1..<now + 1 + ticks (Tick # ops)] =
        (now + 1) # [now + 1 + 1..<now + 1 + 1 + ticks ops]"
      by (subst upt_conv_Cons) simp_all
    ultimately show ?thesis
      using Cons.IH [OF T1(2) ops] T1(1) Tick by (auto simp: due_append simp del: upt_Suc)
  qed
qed

text \<open>
  C7. A wheel on which events with delays from 1 to 2^31 - 1 are added between clock ticks, in
  any order and for any number of ticks (the 32-bit clock wraps), gives out at the k-th tick
  exactly the events that were added k minus their delay ticks after the start, in the order
  they were added: every event fires once, on time, and none is lost in the cascades.  No
  operation fails, and the cascade loop ends.
\<close>

theorem timer_keeps_agenda:
  assumes "list_all op_ok ops"
  shows "\<exists>T. run_timer ops timer_create_timer =
    Some (map (\<lambda>k. due k (agenda 0 ops)) [1..<1 + ticks ops], T)"
  using run_timer_agenda [OF wheel_rep_create assms] by simp

lemma timer_keeps_agenda_witness:
  "\<exists>T. run_timer [Add 7 1 2, Add 8 2 1, Tick, Add 9 3 1, Tick, Tick] timer_create_timer =
    Some ([[response 8 2], [response 7 1, response 9 3], []], T)"
  using timer_keeps_agenda [of "[Add 7 1 2, Add 8 2 1, Tick, Add 9 3 1, Tick, Tick]"]
  by (simp add: op_ok_def due_def upt_conv_Cons)

text \<open>
  While \<open>timer_execute\<close> has released the lock to dispatch the current slot, a service that
  adds an event cannot add to that slot, so the loop of \<open>timer_execute\<close> ends after one round.
\<close>

theorem timer_add_not_current:
  assumes "\<forall>(h, s, t) \<in> set xs. 0 < t \<and> t < 0x80000000"
  shows "fst (timer_execute (fold (\<lambda>(h, s, t). timer_add h s t) xs (snd (timer_execute T)))) = []"
proof -
  have same: "ttime (fold (\<lambda>(h, s, t). timer_add h s t) xs T) = ttime T \<and>
      near (fold (\<lambda>(h, s, t). timer_add h s t) xs T) (unat (ttime T AND TIME_NEAR_MASK))
      = near T (unat (ttime T AND TIME_NEAR_MASK))" for T
    using assms
  proof (induction xs arbitrary: T)
    case (Cons x xs)
    obtain h s t where x: "x = (h, s, t)" by (cases x)
    have "ttime (timer_add h s t T) = ttime T" by (simp add: timer_add_def)
    then show ?case
      using Cons.IH [of "timer_add h s t T"] Cons.prems x add_not_current [of t h s T] by simp
  qed simp
  show ?thesis
    using same [of "snd (timer_execute T)"] by (simp add: timer_execute_eq dispatch_list_def)
qed

lemma timer_add_not_current_witness:
  "fst (timer_execute (fold (\<lambda>(h, s, t). timer_add h s t) [(7, 1, 1), (7, 2, 0x100)]
     (snd (timer_execute timer_create_timer)))) = []"
  by (rule timer_add_not_current) simp

lemma wheel_rep_clock [simp]:
  "wheel_rep (T\<lparr>current_point := a, current := b\<rparr>) now L = wheel_rep T now L"
  "wheel_rep (T\<lparr>current_point := a\<rparr>) now L = wheel_rep T now L"
proof -
  have "bucket (T\<lparr>current_point := a, current := b\<rparr>) p = bucket T p"
    and "bucket (T\<lparr>current_point := a\<rparr>) p = bucket T p" for p
    by (cases p; simp)+
  then show "wheel_rep (T\<lparr>current_point := a, current := b\<rparr>) now L = wheel_rep T now L"
    and "wheel_rep (T\<lparr>current_point := a\<rparr>) now L = wheel_rep T now L"
    by (simp_all add: wheel_rep_def)
qed

lemma timer_shift_clock:
  "timer_shift T = Some T' \<Longrightarrow> current T' = current T \<and> current_point T' = current_point T
     \<and> starttime T' = starttime T"
proof -
  have add: "current (add_node n T) = current T \<and> current_point (add_node n T) = current_point T
      \<and> starttime (add_node n T) = starttime T" for n T
    by (simp add: add_node_place near_link_def level_link_def split: place.split)
  have fld: "current (fold add_node ns T) = current T \<and> current_point (fold add_node ns T) = current_point T
      \<and> starttime (fold add_node ns T) = starttime T" for ns T
    by (induction ns arbitrary: T) (simp_all add: add)
  assume "timer_shift T = Some T'"
  then show ?thesis
    by (auto simp: timer_shift_eq move_place_def move_list_def fld split: option.splits place.splits if_splits)
qed

lemma timer_update_clock:
  "timer_update T = Some (out, T') \<Longrightarrow> current T' = current T \<and> current_point T' = current_point T
     \<and> starttime T' = starttime T"
  by (auto simp: timer_update_def timer_execute_eq Let_def bind_eq_Some_conv dest!: timer_shift_clock)

lemma update_loop_agenda:
  "wheel_rep T now L \<Longrightarrow> \<exists>T'. update_loop n T =
     Some (concat (map (\<lambda>k. due k L) [now + 1..<now + 1 + n]), T') \<and> wheel_rep T' (now + n) L
     \<and> current T' = current T \<and> current_point T' = current_point T \<and> starttime T' = starttime T"
proof (induction n arbitrary: T now)
  case 0
  then show ?case by simp
next
  case (Suc n)
  obtain T1 where T1: "timer_update T = Some (due (now + 1) L, T1)" "wheel_rep T1 (now + 1) L"
    using wheel_rep_tick [OF Suc.prems] by blast
  have "[now + 1..<now + 1 + Suc n] = (now + 1) # [now + 1 + 1..<now + 1 + 1 + n]"
    by (subst upt_conv_Cons) simp_all
  with Suc.IH [OF T1(2)] T1(1) timer_update_clock [OF T1(1)] show ?case
    by (auto simp del: upt_Suc)
qed

text \<open>
  C8. When the monotonic clock has advanced by \<open>d\<close> hundredths (\<open>d < 2^31\<close>) since the last
  call, \<open>skynet_updatetime\<close> runs exactly \<open>d\<close> ticks: it gives out the events due in them, tick by
  tick, adds \<open>d\<close> to \<open>skynet_now\<close>, and leaves the start time alone.
\<close>

theorem updatetime_runs_elapsed_ticks:
  assumes "wheel_rep T now L" and "gettime ti \<ge> current_point T"
    and "gettime ti - current_point T < 2 ^ 31"
  shows "\<exists>T'. skynet_updatetime ti T =
      Some (concat (map (\<lambda>k. due k L)
        [now + 1..<now + 1 + unat (gettime ti - current_point T)]), T')
    \<and> wheel_rep T' (now + unat (gettime ti - current_point T)) L
    \<and> skynet_now T' = skynet_now T + (gettime ti - current_point T)
    \<and> current_point T' = gettime ti \<and> skynet_starttime T' = skynet_starttime T"
proof -
  define d where "d = gettime ti - current_point T"
  have d: "unat d < 2 ^ 31" using assms(3) by (simp add: d_def word_less_nat_alt)
  have u: "unat (ucast d :: u32) = unat d"
    using d by (simp add: unsigned_ucast_eq unsigned_take_bit_eq take_bit_nat_eq_self)
  have i: "uint (ucast d :: u32) = int (unat d)" by (simp only: of_nat_unat u [symmetric])
  have "0 \<le> uint (ucast d :: u32)" "uint (ucast d :: u32) < 2 ^ 31"
    unfolding i using d [folded of_nat_less_iff [where 'a = int]] by (simp_all only: of_nat_0_le_iff of_nat_power of_nat_numeral)
  then have "sint (ucast d :: u32) = uint (ucast d :: u32)"
    unfolding sint_uint by (intro signed_take_bit_int_eq_self order_trans [OF _ uint_ge_0]) simp_all
  then have s: "nat (sint (ucast d :: u32)) = unat d" by (simp only: i nat_int)
  have w: "(ucast (ucast d :: u32) :: u64) = d"
    by (rule word_unat_eq_iff [THEN iffD2])
      (use d u in \<open>simp add: unsigned_ucast_eq unsigned_take_bit_eq take_bit_nat_eq_self\<close>)
  show ?thesis
  proof (cases "gettime ti = current_point T")
    case True
    then show ?thesis using assms by (simp add: skynet_updatetime_def Let_def)
  next
    case False
    let ?T1 = "T\<lparr>current_point := gettime ti, current := current T + d\<rparr>"
    have "skynet_updatetime ti T = update_loop (unat d) ?T1"
      using False assms(2) s w leD [OF assms(2)] by (simp add: skynet_updatetime_def Let_def d_def [symmetric])
    moreover have "wheel_rep ?T1 now L" using assms(1) by simp
    ultimately show ?thesis
      using update_loop_agenda [of ?T1 now L "unat d"]
      by (auto simp: skynet_now_def skynet_starttime_def d_def [symmetric])
  qed
qed

lemma updatetime_runs_elapsed_ticks_witness:
  "\<exists>T'. skynet_updatetime (0, 30000000) (timer_add 7 9 2 timer_create_timer)
     = Some ([response 7 9], T')"
  using updatetime_runs_elapsed_ticks
    [OF wheel_rep_add [OF wheel_rep_create, of 2 7 9], of "(0, 30000000)"]
  by (auto simp: gettime_def timer_add_def add_node_place place_of_def nplace_def near_link_def
      timer_create_timer_def due_def upt_conv_Cons)

end
