(* ===== verification/HandleStorage.thy ===== *)
theory HandleStorage
  imports Prelude "HOL-Library.Char_ord" "HOL-Library.List_Lexorder"
begin

text \<open>
  \<^verbatim>\<open>skynet-src/skynet_handle.c\<close>: the table from handles to contexts, a hash table without
  collisions that doubles when it is full, and the sorted array of names.

  A context is its address; \<open>ctxh\<close> stands for \<open>skynet_context_handle\<close>, the handle stored in
  the context.  A slot is \<open>None\<close> where the code has NULL.  An entry of the name array is
  \<open>None\<close> until the code writes it, so that reading an uninitialised entry fails.  Taking and
  dropping references of a context belongs to \<open>Server\<close>: here \<open>grab\<close> and \<open>retire\<close> give the
  context they found.
\<close>

section \<open>Data\<close>

record handle_name =
  hn_name :: string
  hn_handle :: handle

record handle_storage =
  hs_harbor :: u32
  handle_index :: u32
  slot_size :: nat
  slot :: "addr option list"
  name_cap :: nat
  name_count :: nat
  hname :: "handle_name option list"

definition DEFAULT_SLOT_SIZE :: nat where "DEFAULT_SLOT_SIZE = 4"
definition MAX_SLOT_SIZE :: nat where "MAX_SLOT_SIZE = 0x40000000"
definition HANDLE_MASK :: u32 where "HANDLE_MASK = 0xffffff"
definition HANDLE_REMOTE_SHIFT :: nat where "HANDLE_REMOTE_SHIFT = 24"

section \<open>The handle table\<close>

text \<open>\<open>handle & (slot_size - 1)\<close>, the index of a slot.\<close>

definition hash_of :: "nat \<Rightarrow> handle \<Rightarrow> nat" where
  "hash_of sz h = unat (h AND (of_nat sz - 1))"

text \<open>The scan for a free slot: \<open>Some None\<close> when every slot it visits is taken.\<close>

fun register_scan :: "addr \<Rightarrow> nat \<Rightarrow> u32 \<Rightarrow> handle_storage \<Rightarrow> (u32 \<times> handle_storage) option option" where
  "register_scan ctx 0 h s = Some None"
| "register_scan ctx (Suc n) h s =
     (let h1 = (if h > HANDLE_MASK then 1 else h);
          hash = hash_of (slot_size s) h1
      in do {
        c \<leftarrow> arr_get (slot s) hash;
        if c = None then do {
          sl \<leftarrow> arr_set (slot s) hash (Some ctx);
          Some (Some (h1 OR hs_harbor s, s\<lparr>slot := sl, handle_index := h1 + 1\<rparr>)) }
        else register_scan ctx n (h1 + 1) s })"

text \<open>\<open>skynet_context_handle(s->slot[i])\<close> follows the pointer: a NULL slot fails.\<close>

fun rehash :: "(addr \<Rightarrow> handle) \<Rightarrow> nat \<Rightarrow> addr option list \<Rightarrow> addr option list \<Rightarrow> addr option list option" where
  "rehash ctxh size2 [] new = Some new"
| "rehash ctxh size2 (c # cs) new = do {
     a \<leftarrow> c;
     let hash = hash_of size2 (ctxh a);
     old \<leftarrow> arr_get new hash;
     assert_that (old = None);
     new' \<leftarrow> arr_set new hash (Some a);
     rehash ctxh size2 cs new' }"

definition expand_slots :: "(addr \<Rightarrow> handle) \<Rightarrow> handle_storage \<Rightarrow> handle_storage option" where
  "expand_slots ctxh s = do {
     assert_that (slot_size s * 2 - 1 \<le> unat HANDLE_MASK);
     new \<leftarrow> rehash ctxh (slot_size s * 2) (slot s) (replicate (slot_size s * 2) None);
     Some (s\<lparr>slot := new, slot_size := slot_size s * 2\<rparr>) }"

partial_function (option) skynet_handle_register ::
  "(addr \<Rightarrow> handle) \<Rightarrow> addr \<Rightarrow> handle_storage \<Rightarrow> (handle \<times> handle_storage) option" where
  "skynet_handle_register ctxh ctx s = do {
     r \<leftarrow> register_scan ctx (slot_size s) (handle_index s) s;
     (case r of
        Some res \<Rightarrow> Some res
      | None \<Rightarrow> do { s' \<leftarrow> expand_slots ctxh s; skynet_handle_register ctxh ctx s' }) }"

section \<open>Names\<close>

text \<open>Only the sign of the result of \<open>strcmp\<close> is specified and used; bytes compare unsigned.\<close>

definition strcmp :: "string \<Rightarrow> string \<Rightarrow> int" where
  "strcmp a b = (if a = b then 0 else if a < b then - 1 else 1)"

text \<open>The binary search shared by \<open>skynet_handle_findname\<close> and \<open>_insert_name\<close>: \<open>Inl\<close> the index of
  the name, or \<open>Inr begin\<close> when the loop ends.\<close>

partial_function (option) name_search ::
  "handle_name option list \<Rightarrow> string \<Rightarrow> int \<Rightarrow> int \<Rightarrow> (nat + nat) option" where
  "name_search ns nm begin end' =
     (if begin \<le> end' then do {
        let mid = (begin + end') div 2;
        e \<leftarrow> arr_get ns (nat mid);
        n \<leftarrow> e;
        let c = strcmp (hn_name n) nm;
        (if c = 0 then Some (Inl (nat mid))
         else if c < 0 then name_search ns nm (mid + 1) end'
         else name_search ns nm begin (mid - 1)) }
      else Some (Inr (nat begin)))"

definition skynet_handle_findname :: "string \<Rightarrow> handle_storage \<Rightarrow> handle option" where
  "skynet_handle_findname nm s = do {
     r \<leftarrow> name_search (hname s) nm 0 (int (name_count s) - 1);
     (case r of
        Inl i \<Rightarrow> do { e \<leftarrow> arr_get (hname s) i; n \<leftarrow> e; Some (hn_handle n) }
      | Inr _ \<Rightarrow> Some 0) }"

text \<open>\<open>for (i = name_count; i > before; i--) name[i] = name[i-1];\<close>\<close>

fun shift_up :: "nat \<Rightarrow> nat \<Rightarrow> handle_name option list \<Rightarrow> handle_name option list option" where
  "shift_up before 0 ns = Some ns"
| "shift_up before (Suc i) ns =
     (if Suc i > before then do {
        v \<leftarrow> arr_get ns i;
        ns' \<leftarrow> arr_set ns (Suc i) v;
        shift_up before i ns' }
      else Some ns)"

text \<open>\<open>for (i = from; i < upto; i++) n[i + k] = s->name[i];\<close>\<close>

fun copy_names :: "nat \<Rightarrow> nat \<Rightarrow> nat \<Rightarrow> handle_name option list \<Rightarrow> handle_name option list
    \<Rightarrow> handle_name option list option" where
  "copy_names i 0 k src dst = Some dst"
| "copy_names i (Suc n) k src dst = do {
     v \<leftarrow> arr_get src i;
     dst' \<leftarrow> arr_set dst (i + k) v;
     copy_names (Suc i) n k src dst' }"

definition insert_name_before :: "string \<Rightarrow> handle \<Rightarrow> nat \<Rightarrow> handle_storage \<Rightarrow> handle_storage option" where
  "insert_name_before nm h before s = do {
     s1 \<leftarrow> (if name_count s \<ge> name_cap s then do {
              let cap = name_cap s * 2;
              assert_that (cap \<le> MAX_SLOT_SIZE);
              n1 \<leftarrow> copy_names 0 before 0 (hname s) (replicate cap None);
              n2 \<leftarrow> copy_names before (name_count s - before) 1 (hname s) n1;
              Some (s\<lparr>name_cap := cap, hname := n2\<rparr>) }
            else do {
              n1 \<leftarrow> shift_up before (name_count s) (hname s);
              Some (s\<lparr>hname := n1\<rparr>) });
     ns \<leftarrow> arr_set (hname s1) before (Some \<lparr>hn_name = nm, hn_handle = h\<rparr>);
     Some (s1\<lparr>hname := ns, name_count := name_count s1 + 1\<rparr>) }"

text \<open>The name, or \<open>None\<close> for NULL.\<close>

definition insert_name :: "string \<Rightarrow> handle \<Rightarrow> handle_storage \<Rightarrow> (string option \<times> handle_storage) option" where
  "insert_name nm h s = do {
     r \<leftarrow> name_search (hname s) nm 0 (int (name_count s) - 1);
     (case r of
        Inl _ \<Rightarrow> Some (None, s)
      | Inr b \<Rightarrow> do { s' \<leftarrow> insert_name_before nm h b s; Some (Some nm, s') }) }"

definition skynet_handle_namehandle ::
  "handle \<Rightarrow> string \<Rightarrow> handle_storage \<Rightarrow> (string option \<times> handle_storage) option" where
  "skynet_handle_namehandle h nm s = insert_name nm h s"

section \<open>Retiring and grabbing\<close>

text \<open>The loop of \<open>skynet_handle_retire\<close> over the names: \<open>j\<close> is the write index.\<close>

fun drop_names :: "handle \<Rightarrow> nat \<Rightarrow> nat \<Rightarrow> nat \<Rightarrow> handle_name option list
    \<Rightarrow> (nat \<times> handle_name option list) option" where
  "drop_names h i 0 j ns = Some (j, ns)"
| "drop_names h i (Suc n) j ns = do {
     e \<leftarrow> arr_get ns i;
     v \<leftarrow> e;
     if hn_handle v = h then drop_names h (Suc i) n j ns
     else do {
       ns' \<leftarrow> (if i \<noteq> j then arr_set ns j e else Some ns);
       drop_names h (Suc i) n (Suc j) ns' } }"

text \<open>The result and the context the caller releases after unlocking.\<close>

definition handle_retire ::
  "(addr \<Rightarrow> handle) \<Rightarrow> handle \<Rightarrow> handle_storage \<Rightarrow> (int \<times> addr option \<times> handle_storage) option" where
  "handle_retire ctxh h s = do {
     let hash = hash_of (slot_size s) h;
     c \<leftarrow> arr_get (slot s) hash;
     if c \<noteq> None \<and> ctxh (the c) = h then do {
       sl \<leftarrow> arr_set (slot s) hash None;
       (j, ns) \<leftarrow> drop_names h 0 (name_count s) 0 (hname s);
       Some (1, c, s\<lparr>slot := sl, hname := ns, name_count := j\<rparr>) }
     else Some (0, None, s) }"

definition handle_grab :: "(addr \<Rightarrow> handle) \<Rightarrow> handle \<Rightarrow> handle_storage \<Rightarrow> addr option option" where
  "handle_grab ctxh h s = do {
     c \<leftarrow> arr_get (slot s) (hash_of (slot_size s) h);
     Some (if c \<noteq> None \<and> ctxh (the c) = h then c else None) }"

definition skynet_handle_init :: "int \<Rightarrow> handle_storage" where
  "skynet_handle_init harbor =
     \<lparr>hs_harbor = push_bit HANDLE_REMOTE_SHIFT (of_int harbor AND 0xff), handle_index = 1,
      slot_size = DEFAULT_SLOT_SIZE, slot = replicate DEFAULT_SLOT_SIZE None,
      name_cap = 2, name_count = 0, hname = replicate 2 None\<rparr>"

section \<open>What the table means\<close>

definition lookup_handle :: "(addr \<Rightarrow> handle) \<Rightarrow> handle_storage \<Rightarrow> handle \<Rightarrow> addr option" where
  "lookup_handle ctxh s h =
     (case slot s ! hash_of (slot_size s) h of
        Some a \<Rightarrow> if ctxh a = h then Some a else None
      | None \<Rightarrow> None)"

definition table_ok :: "(addr \<Rightarrow> handle) \<Rightarrow> handle_storage \<Rightarrow> bool" where
  "table_ok ctxh s \<longleftrightarrow>
     (\<exists>k. slot_size s = 2 ^ k \<and> 2 \<le> k \<and> k \<le> 24) \<and> length (slot s) = slot_size s \<and>
     1 \<le> unat (handle_index s) \<and> unat (handle_index s) \<le> 2 ^ 24 \<and>
     hs_harbor s AND HANDLE_MASK = 0 \<and>
     (\<forall>i < slot_size s. \<forall>a. slot s ! i = Some a \<longrightarrow>
        hash_of (slot_size s) (ctxh a) = i \<and>
        ctxh a AND HANDLE_MASK \<noteq> 0 \<and> ctxh a AND NOT HANDLE_MASK = hs_harbor s)"

lemma hash_of_power: "k \<le> 31 \<Longrightarrow> hash_of (2 ^ k) h = unat h mod 2 ^ k"
proof -
  assume "k \<le> 31"
  then have "of_nat (2 ^ k) - 1 = (mask k :: u32)" by (simp add: mask_eq_exp_minus_1)
  then show ?thesis by (simp only: hash_of_def unat_and_mask)
qed

lemma hash_of_less: "k \<le> 31 \<Longrightarrow> hash_of (2 ^ k) h < 2 ^ k"
  by (simp add: hash_of_power)

lemma table_okE:
  assumes "table_ok ctxh s"
  obtains k where "slot_size s = 2 ^ k" "2 \<le> k" "k \<le> 24" "length (slot s) = 2 ^ k"
    "1 \<le> unat (handle_index s)" "unat (handle_index s) \<le> 2 ^ 24" "hs_harbor s AND HANDLE_MASK = 0"
  using assms unfolding table_ok_def by auto

lemma table_pow: "table_ok ctxh s \<Longrightarrow> \<exists>k. slot_size s = 2 ^ k \<and> 2 \<le> k \<and> k \<le> 24"
  unfolding table_ok_def by blast

lemma table_ok_slot:
  assumes "table_ok ctxh s" and "i < slot_size s" and "slot s ! i = Some a"
  shows "hash_of (slot_size s) (ctxh a) = i"
    and "ctxh a AND HANDLE_MASK \<noteq> 0" and "ctxh a AND NOT HANDLE_MASK = hs_harbor s"
  using assms unfolding table_ok_def by auto

lemma table_hash_less: "table_ok ctxh s \<Longrightarrow> hash_of (slot_size s) h < length (slot s)"
  by (erule table_okE) (simp add: hash_of_less)

lemma lookup_handle_iff:
  assumes "table_ok ctxh s"
  shows "lookup_handle ctxh s h = Some a \<longleftrightarrow> Some a \<in> set (slot s) \<and> ctxh a = h"
proof -
  have len: "length (slot s) = slot_size s" using assms by (simp add: table_ok_def)
  have "slot s ! hash_of (slot_size s) h = Some a \<and> ctxh a = h
      \<longleftrightarrow> Some a \<in> set (slot s) \<and> ctxh a = h" (is "?l \<longleftrightarrow> ?r")
  proof
    assume ?l
    then show ?r using table_hash_less [OF assms, of h] by (auto simp: in_set_conv_nth)
  next
    assume ?r
    then obtain i where "i < slot_size s" "slot s ! i = Some a" using len by (auto simp: in_set_conv_nth)
    then show ?l using table_ok_slot(1) [OF assms] \<open>?r\<close> by auto
  qed
  then show ?thesis by (auto simp: lookup_handle_def split: option.splits)
qed

lemma handle_grab_lookup:
  "table_ok ctxh s \<Longrightarrow> handle_grab ctxh h s = Some (lookup_handle ctxh s h)"
  by (auto simp: handle_grab_def lookup_handle_def table_hash_less split: option.splits)

section \<open>The scan for a free slot\<close>

text \<open>The i-th handle the scan tries, on numbers: 0 is skipped when the 24 bits wrap.\<close>

fun tried :: "nat \<Rightarrow> nat \<Rightarrow> nat" where
  "tried h 0 = (if h > 0xffffff then 1 else h)"
| "tried h (Suc i) = tried ((if h > 0xffffff then 1 else h) + 1) i"

lemma tried_closed:
  "1 \<le> h \<Longrightarrow> h \<le> 0x1000000 \<Longrightarrow> h + i \<le> 2 * 0xffffff \<Longrightarrow>
   tried h i = (if h + i \<le> 0xffffff then h + i else h + i - 0xffffff)"
proof (induction i arbitrary: h)
  case 0
  then show ?case by (cases "h > 0xffffff") auto
next
  case (Suc i)
  show ?case
  proof (cases "h > 0xffffff")
    case True
    then have h: "h = 0x1000000" using Suc.prems by simp
    have "tried 2 i = (if 2 + i \<le> 0xffffff then 2 + i else 2 + i - 0xffffff)"
      using Suc.prems h by (intro Suc.IH) simp_all
    moreover have "2 + i \<le> 0xffffff" using Suc.prems h by simp
    ultimately show ?thesis using h by (simp add: numeral_2_eq_2)
  next
    case False
    then show ?thesis using Suc.IH [of "h + 1"] Suc.prems by simp
  qed
qed

definition scan_found :: "addr \<Rightarrow> handle_storage \<Rightarrow> u32 \<times> handle_storage \<Rightarrow> bool" where
  "scan_found ctx s r \<longleftrightarrow>
     (\<exists>h. 1 \<le> unat h \<and> unat h \<le> 0xffffff \<and> slot s ! hash_of (slot_size s) h = None \<and>
        r = (h OR hs_harbor s,
             s\<lparr>slot := (slot s)[hash_of (slot_size s) h := Some ctx], handle_index := h + 1\<rparr>))"

lemma register_scan_cases:
  assumes "table_ok ctxh s" and "1 \<le> unat h" and "unat h \<le> 0x1000000"
  shows "(\<exists>r. register_scan ctx n h s = Some (Some r) \<and> scan_found ctx s r) \<or>
    register_scan ctx n h s = Some None \<and>
      (\<forall>i<n. slot s ! (tried (unat h) i mod slot_size s) \<noteq> None)"
  using assms(2,3)
proof (induction n arbitrary: h)
  case 0
  then show ?case by simp
next
  case (Suc n)
  define h1 where "h1 = (if h > HANDLE_MASK then 1 else h)"
  have u1: "unat h1 = (if unat h > 0xffffff then 1 else unat h)"
    by (simp add: h1_def HANDLE_MASK_def word_less_nat_alt)
  have b1: "1 \<le> unat h1" "unat h1 \<le> 0xffffff" using Suc.prems by (auto simp: u1)
  have u2: "unat (h1 + 1) = unat h1 + 1" using b1 by (simp add: unat_word_ariths)
  obtain k where k: "slot_size s = 2 ^ k" "k \<le> 24" using table_pow [OF assms(1)] by blast
  have hash: "hash_of (slot_size s) h1 = tried (unat h) 0 mod slot_size s"
    using hash_of_power [of k h1] k(2) by (simp add: k(1) u1)
  show ?case
  proof (cases "slot s ! hash_of (slot_size s) h1")
    case None
    then have "scan_found ctx s (h1 OR hs_harbor s,
        s\<lparr>slot := (slot s)[hash_of (slot_size s) h1 := Some ctx], handle_index := h1 + 1\<rparr>)"
      unfolding scan_found_def using b1 by blast
    then show ?thesis
      using None table_hash_less [OF assms(1), of h1]
      by (simp add: h1_def [symmetric] Let_def)
  next
    case (Some a)
    have eq: "register_scan ctx (Suc n) h s = register_scan ctx n (h1 + 1) s"
      using Some table_hash_less [OF assms(1), of h1]
      by (simp add: h1_def [symmetric] Let_def)
    have tr: "tried (unat (h1 + 1)) i = tried (unat h) (Suc i)" for i
      by (simp only: tried.simps u1 u2)
    have "(\<forall>i<Suc n. slot s ! (tried (unat h) i mod slot_size s) \<noteq> None)
        \<longleftrightarrow> (\<forall>i<n. slot s ! (tried (unat (h1 + 1)) i mod slot_size s) \<noteq> None)"
      using Some hash by (simp add: All_less_Suc2 tr)
    then show ?thesis using Suc.IH [of "h1 + 1"] b1 u2 unfolding eq by simp
  qed
qed


text \<open>A scan over as many handles as there are slots visits every slot, except slot 0 when it
  skips handle 0.\<close>

lemma tried_covers:
  assumes k: "k \<le> 24" and h: "1 \<le> h" "h \<le> 0x1000000"
    and j: "j < 2 ^ k" "j \<noteq> 0 \<or> h + 2 ^ k \<le> 0x1000000"
  shows "\<exists>i < 2 ^ k. tried h i mod 2 ^ k = j"
proof -
  define S where "S = (2::nat) ^ k"
  have S: "0 < S" "S \<le> 0x1000000" using k power_increasing [of k 24 "2::nat"] by (simp_all add: S_def)
  have "(2::nat) ^ k dvd 2 ^ 24" using k by (rule le_imp_power_dvd)
  then have dvd: "S dvd 0x1000000" by (simp add: S_def)
  then obtain q where q: "0x1000000 = S * q" by (elim dvdE)
  define i where "i = (j + (S - h mod S)) mod S"
  have i: "i < S" using S by (simp add: i_def)
  have "(h + i) mod S = (h mod S + (j + (S - h mod S))) mod S"
    unfolding i_def by (simp only: mod_add_left_eq mod_add_right_eq)
  also have "h mod S + (j + (S - h mod S)) = j + S" using S mod_less_divisor [OF S(1), of h] by linarith
  finally have hi: "(h + i) mod S = j" using j(1) by (simp add: S_def)
  show ?thesis
  proof (cases "h + i \<le> 0xffffff")
    case True
    then have "tried h i = h + i" using h by (subst tried_closed) simp_all
    then show ?thesis using hi i unfolding S_def by auto
  next
    case False
    then have "j \<noteq> 0" using j(2) i by (auto simp: S_def)
    then have ne: "h + i \<noteq> 0x1000000" using hi dvd by (metis dvd_imp_mod_0)
    then have gt: "h + i > 0x1000000" using False by simp
    then obtain i' where i': "i = Suc i'" using h by (cases i) simp_all
    have "tried h i' = h + i' - 0xffffff"
      using h gt i S i' by (subst tried_closed) simp_all
    then have "tried h i' + 0x1000000 = h + i" using gt i' by simp
    then have "tried h i' mod S = (h + i) mod S" by (metis q mod_mult_self2)
    then show ?thesis using hi i i' unfolding S_def by (intro exI [of _ i']) simp
  qed
qed

section \<open>Growing the table\<close>

lemma rehash_spec:
  assumes dist: "\<And>i j a b. i < length cs \<Longrightarrow> j < length cs \<Longrightarrow> cs ! i = Some a \<Longrightarrow> cs ! j = Some b \<Longrightarrow>
      hash_of S2 (ctxh a) = hash_of S2 (ctxh b) \<Longrightarrow> i = j"
    and full: "None \<notin> set cs"
    and free: "\<And>a. Some a \<in> set cs \<Longrightarrow> hash_of S2 (ctxh a) < length new \<and> new ! hash_of S2 (ctxh a) = None"
  shows "\<exists>new'. rehash ctxh S2 cs new = Some new' \<and> length new' = length new \<and>
    (\<forall>j a. j < length new \<longrightarrow> (new' ! j = Some a \<longleftrightarrow>
       new ! j = Some a \<or> Some a \<in> set cs \<and> hash_of S2 (ctxh a) = j))"
  using assms
proof (induction cs arbitrary: new)
  case Nil
  then show ?case by simp
next
  case (Cons c cs)
  from Cons.prems(2) obtain a where c: "c = Some a" by (cases c) auto
  let ?h = "hash_of S2 (ctxh a)"
  have h: "?h < length new" "new ! ?h = None" using Cons.prems(3) [of a] c by simp_all
  have other: "hash_of S2 (ctxh b) \<noteq> ?h" if "Some b \<in> set cs" for b
  proof
    assume eq: "hash_of S2 (ctxh b) = ?h"
    from that obtain i where "i < length cs" "cs ! i = Some b" by (auto simp: in_set_conv_nth)
    then show False using Cons.prems(1) [of "Suc i" 0 b a] c eq by simp
  qed
  have "\<exists>new'. rehash ctxh S2 cs (new[?h := Some a]) = Some new' \<and> length new' = length (new[?h := Some a]) \<and>
    (\<forall>j b. j < length (new[?h := Some a]) \<longrightarrow> (new' ! j = Some b \<longleftrightarrow>
       new[?h := Some a] ! j = Some b \<or> Some b \<in> set cs \<and> hash_of S2 (ctxh b) = j))"
  proof (rule Cons.IH)
    show "i = j" if "i < length cs" "j < length cs" "cs ! i = Some a" "cs ! j = Some b"
      "hash_of S2 (ctxh a) = hash_of S2 (ctxh b)" for i j a b
      using Cons.prems(1) [of "Suc i" "Suc j" a b] that by simp
    show "hash_of S2 (ctxh b) < length (new[?h := Some a]) \<and> new[?h := Some a] ! hash_of S2 (ctxh b) = None"
      if "Some b \<in> set cs" for b
      using Cons.prems(3) [of b] that other [OF that] by simp
  qed (use Cons.prems(2) in simp)
  then show ?case
    using h c by (auto simp: nth_list_update)
qed


lemma expand_ok:
  assumes ok: "table_ok ctxh s" and full: "\<And>i. i < slot_size s \<Longrightarrow> slot s ! i \<noteq> None"
    and room: "slot_size s < 2 ^ 24"
  shows "\<exists>new. expand_slots ctxh s = Some (s\<lparr>slot := new, slot_size := slot_size s * 2\<rparr>) \<and>
    table_ok ctxh (s\<lparr>slot := new, slot_size := slot_size s * 2\<rparr>) \<and>
    (\<forall>a. Some a \<in> set new \<longleftrightarrow> Some a \<in> set (slot s)) \<and>
    (\<exists>j. 0 < j \<and> j < slot_size s * 2 \<and> new ! j = None)"
proof -
  obtain k where k: "slot_size s = 2 ^ k" "2 \<le> k" "k \<le> 24" using table_pow [OF ok] by blast
  have k24: "k < 24" using room unfolding k(1) by (rule power_less_imp_less_exp [rotated]) simp
  have len: "length (slot s) = slot_size s" using ok by (simp add: table_ok_def)
  let ?S2 = "slot_size s * 2"
  have S2: "?S2 = 2 ^ Suc k" using k by simp
  have fine: "hash_of ?S2 h mod slot_size s = hash_of (slot_size s) h" for h
  proof -
    have "unat h mod 2 ^ Suc k mod 2 ^ k = unat h mod 2 ^ k" by (rule mod_mod_cancel) simp
    then show ?thesis using hash_of_power [of "Suc k" h] hash_of_power [of k h] k k24
      unfolding S2 unfolding k(1) by simp
  qed
  have less: "hash_of ?S2 h < ?S2" for h using hash_of_less [of "Suc k" h] k24 by (simp only: S2)
  have in_slot: "i = hash_of (slot_size s) (ctxh a)" if "i < slot_size s" "slot s ! i = Some a" for i a
    using table_ok_slot(1) [OF ok] that by simp
  have same: "i = j" if "i < length (slot s)" "j < length (slot s)" "slot s ! i = Some a" "slot s ! j = Some b"
    "hash_of ?S2 (ctxh a) = hash_of ?S2 (ctxh b)" for i j a b
    using that in_slot fine [of "ctxh a"] fine [of "ctxh b"] len by metis
  have "None \<notin> set (slot s)" using full len by (auto simp: in_set_conv_nth)
  then obtain new where new: "rehash ctxh ?S2 (slot s) (replicate ?S2 None) = Some new" "length new = ?S2"
    "\<And>j a. j < ?S2 \<Longrightarrow> new ! j = Some a \<longleftrightarrow> Some a \<in> set (slot s) \<and> hash_of ?S2 (ctxh a) = j"
    using rehash_spec [of "slot s" ?S2 ctxh "replicate ?S2 None"] same less by auto
  have ex: "expand_slots ctxh s = Some (s\<lparr>slot := new, slot_size := ?S2\<rparr>)"
    using new(1) power_increasing [of k 23 "2::nat"] k24 k(1) by (simp add: expand_slots_def HANDLE_MASK_def)
  have regs: "Some a \<in> set new \<longleftrightarrow> Some a \<in> set (slot s)" for a
    using new(2,3) less [of "ctxh a"] by (metis in_set_conv_nth)
  have ok': "table_ok ctxh (s\<lparr>slot := new, slot_size := ?S2\<rparr>)"
    unfolding table_ok_def
  proof (intro conjI allI impI)
    show "\<exists>k. slot_size (s\<lparr>slot := new, slot_size := ?S2\<rparr>) = 2 ^ k \<and> 2 \<le> k \<and> k \<le> 24"
      using S2 k k24 by (intro exI [of _ "Suc k"]) simp
    fix i a
    assume i: "i < slot_size (s\<lparr>slot := new, slot_size := ?S2\<rparr>)"
      "slot (s\<lparr>slot := new, slot_size := ?S2\<rparr>) ! i = Some a"
    then have *: "Some a \<in> set (slot s)" "hash_of ?S2 (ctxh a) = i" using new(3) [of i a] by simp_all
    then show "hash_of (slot_size (s\<lparr>slot := new, slot_size := ?S2\<rparr>)) (ctxh a) = i" by simp
    from *(1) obtain j where "j < slot_size s" "slot s ! j = Some a" using len by (auto simp: in_set_conv_nth)
    then show "ctxh a AND HANDLE_MASK \<noteq> 0"
      and "ctxh a AND NOT HANDLE_MASK = hs_harbor (s\<lparr>slot := new, slot_size := ?S2\<rparr>)"
      using table_ok_slot [OF ok, of j a] by simp_all
  qed (use ok new(2) in \<open>auto simp: table_ok_def\<close>)
  have "\<exists>j. 0 < j \<and> j < ?S2 \<and> new ! j = None"
  proof (rule ccontr)
    assume no: "\<nexists>j. 0 < j \<and> j < ?S2 \<and> new ! j = None"
    have two: "2 \<le> slot_size s" using power_increasing [OF k(2), of "2::nat"] k(1) by simp
    have nn: "\<exists>a. new ! j = Some a" if "0 < j" "j < ?S2" for j
    proof (rule ccontr)
      assume "\<nexists>a. new ! j = Some a"
      then have "new ! j = None" by simp
      then show False using no that by blast
    qed
    obtain a where a: "new ! 1 = Some a" using nn [of 1] two by auto
    obtain b where b: "new ! (1 + slot_size s) = Some b" using nn [of "1 + slot_size s"] two by auto
    have ha: "Some a \<in> set (slot s)" "hash_of ?S2 (ctxh a) = 1" using new(3) [of 1 a] a two by auto
    have hb: "Some b \<in> set (slot s)" "hash_of ?S2 (ctxh b) = 1 + slot_size s"
      using new(3) [of "1 + slot_size s" b] b two by auto
    have "slot s ! 1 = Some a" using ha fine [of "ctxh a"] in_slot len two
      by (metis One_nat_def Suc_le_lessD in_set_conv_nth mod_less numeral_2_eq_2)
    moreover have "slot s ! 1 = Some b" using hb fine [of "ctxh b"] in_slot len two
      by (metis One_nat_def Suc_le_lessD in_set_conv_nth mod_add_self2 mod_less numeral_2_eq_2)
    ultimately show False using ha hb two by simp
  qed
  with ex ok' regs show ?thesis by blast
qed

text \<open>The handle a successful scan gives is new, well-formed and finds the context.\<close>

lemma hash_of_low: "k \<le> 24 \<Longrightarrow> hash_of (2 ^ k) (h AND HANDLE_MASK) = hash_of (2 ^ k) h"
proof -
  assume k: "k \<le> 24"
  have m: "HANDLE_MASK = mask 24" by (simp add: HANDLE_MASK_def mask_eq_exp_minus_1)
  have "unat h mod 2 ^ 24 mod 2 ^ k = unat h mod 2 ^ k" using k by (intro mod_mod_cancel le_imp_power_dvd)
  then show ?thesis using k hash_of_power by (simp add: m unat_and_mask)
qed

lemma handle_parts:
  assumes "unat h \<le> 0xffffff" and "b AND HANDLE_MASK = 0"
  shows "(h OR b) AND HANDLE_MASK = h" and "(h OR b) AND NOT HANDLE_MASK = b"
proof -
  have m: "HANDLE_MASK = mask 24" by (simp add: HANDLE_MASK_def mask_eq_exp_minus_1)
  have h: "h AND mask 24 = h"
    by (rule word_unat_eq_iff [THEN iffD2]) (use assms(1) in \<open>simp add: unat_and_mask\<close>)
  have hb: "bit h n \<longrightarrow> bit HANDLE_MASK n" for n
    using arg_cong [OF h, of "\<lambda>x. bit x n"] by (auto simp: m bit_and_iff)
  have bb: "\<not> (bit b n \<and> bit HANDLE_MASK n)" for n
    using arg_cong [OF assms(2), of "\<lambda>x. bit x n"] by (simp add: bit_and_iff)
  show "(h OR b) AND HANDLE_MASK = h"
    by (rule bit_word_eqI) (use hb bb in \<open>auto simp: bit_and_iff bit_or_iff\<close>)
  show "(h OR b) AND NOT HANDLE_MASK = b"
    by (rule bit_word_eqI) (use hb bb in \<open>auto simp: bit_and_iff bit_or_iff bit_not_iff\<close>)
qed


lemma set_update_free:
  assumes "i < length xs" and "xs ! i = None"
  shows "Some a \<in> set (xs[i := Some c]) \<longleftrightarrow> a = c \<or> Some a \<in> set xs"
proof -
  have "Some a \<in> set (xs[i := Some c])" if a: "Some a \<in> set xs"
  proof -
    obtain j where "j < length xs" "xs ! j = Some a" using a by (auto simp: in_set_conv_nth)
    moreover from this have "j \<noteq> i" using assms(2) by auto
    ultimately show ?thesis by (metis length_list_update nth_list_update_neq nth_mem)
  qed
  moreover have "Some c \<in> set (xs[i := Some c])" using assms(1) by (rule set_update_memI)
  moreover have "Some a \<in> set (xs[i := Some c]) \<Longrightarrow> a = c \<or> Some a \<in> set xs"
    using set_update_subset_insert [of xs i "Some c"] by auto
  ultimately show ?thesis by blast
qed

lemma found_spec:
  assumes ok: "table_ok ctxh s" and found: "scan_found ctx s (h, s')" and new: "Some ctx \<notin> set (slot s)"
  shows "table_ok (ctxh(ctx := h)) s'" and "lookup_handle ctxh s h = None"
    and "lookup_handle (ctxh(ctx := h)) s' = (lookup_handle ctxh s)(h \<mapsto> ctx)"
    and "h AND HANDLE_MASK \<noteq> 0" and "h AND NOT HANDLE_MASK = hs_harbor s"
proof -
  obtain k where k: "slot_size s = 2 ^ k" "2 \<le> k" "k \<le> 24" using table_pow [OF ok] by blast
  have len: "length (slot s) = slot_size s" using ok by (simp add: table_ok_def)
  obtain l where l: "1 \<le> unat l" "unat l \<le> 0xffffff" "slot s ! hash_of (slot_size s) l = None"
    and h: "h = l OR hs_harbor s"
    and s': "s' = s\<lparr>slot := (slot s)[hash_of (slot_size s) l := Some ctx], handle_index := l + 1\<rparr>"
    using found unfolding scan_found_def by auto
  have hb: "hs_harbor s AND HANDLE_MASK = 0" using ok by (simp add: table_ok_def)
  note parts = handle_parts [OF l(2) hb, folded h]
  show nz: "h AND HANDLE_MASK \<noteq> 0" using parts(1) l(1) by (auto simp: unat_eq_zero)
  show hi: "h AND NOT HANDLE_MASK = hs_harbor s" by (rule parts(2))
  have hash: "hash_of (slot_size s) h = hash_of (slot_size s) l"
    using hash_of_low [OF k(3), of h] parts(1) by (simp add: k(1))
  have less: "hash_of (slot_size s) h < length (slot s)" by (rule table_hash_less [OF ok])
  show "lookup_handle ctxh s h = None"
    using l(3) hash by (simp add: lookup_handle_def)
  have keep: "a \<noteq> ctx" if "slot s ! i = Some a" "i < slot_size s" for a i
    using that new len by (metis nth_mem)
  show ok': "table_ok (ctxh(ctx := h)) s'"
    unfolding table_ok_def
  proof (intro conjI allI impI)
    have "unat (l + 1) = unat l + 1" using l by (simp add: unat_word_ariths)
    then show "1 \<le> unat (handle_index s')" "unat (handle_index s') \<le> 2 ^ 24" using l by (simp_all add: s')
    fix i a
    assume i: "i < slot_size s'" "slot s' ! i = Some a"
    show "hash_of (slot_size s') ((ctxh(ctx := h)) a) = i"
      and "(ctxh(ctx := h)) a AND HANDLE_MASK \<noteq> 0"
      and "(ctxh(ctx := h)) a AND NOT HANDLE_MASK = hs_harbor s'"
      using i keep [of i a] table_ok_slot [OF ok, of i a] hash nz hi less len
      by (auto simp: s' nth_list_update split: if_splits)
  qed (use ok k in \<open>auto simp: s' table_ok_def\<close>)
  have set': "Some a \<in> set (slot s') \<longleftrightarrow> a = ctx \<or> Some a \<in> set (slot s)" for a
    using set_update_free [of "hash_of (slot_size s) l" "slot s"] less hash l(3) by (simp add: s')
  have none: "\<not> (Some a \<in> set (slot s) \<and> ctxh a = h)" for a
    using lookup_handle_iff [OF ok, of h a] \<open>lookup_handle ctxh s h = None\<close> by simp
  show "lookup_handle (ctxh(ctx := h)) s' = (lookup_handle ctxh s)(h \<mapsto> ctx)"
  proof
    fix x
    have "lookup_handle (ctxh(ctx := h)) s' x = Some a \<longleftrightarrow> ((lookup_handle ctxh s)(h \<mapsto> ctx)) x = Some a" for a
      using lookup_handle_iff [OF ok'] lookup_handle_iff [OF ok] set' new none
      by (auto simp: fun_upd_def)
    then show "lookup_handle (ctxh(ctx := h)) s' x = ((lookup_handle ctxh s)(h \<mapsto> ctx)) x"
      by (metis not_Some_eq)
  qed
qed

text \<open>When the scan fails, slot 0 may still be free after a wrap; then expanding fails.\<close>

definition has_room :: "handle_storage \<Rightarrow> bool" where
  "has_room s \<longleftrightarrow>
     (\<exists>j. 0 < j \<and> j < slot_size s \<and> slot s ! j = None) \<or>
     (if slot s ! 0 = None then unat (handle_index s) + slot_size s \<le> 2 ^ 24
      else slot_size s < 2 ^ 24)"

lemma register_scan_room:
  assumes ok: "table_ok ctxh s"
    and free: "slot s ! j = None" "j < slot_size s"
      "j \<noteq> 0 \<or> unat (handle_index s) + slot_size s \<le> 2 ^ 24"
  shows "\<exists>r. register_scan ctx (slot_size s) (handle_index s) s = Some (Some r) \<and> scan_found ctx s r"
proof -
  obtain k where k: "slot_size s = 2 ^ k" "k \<le> 24" using table_pow [OF ok] by blast
  have h: "1 \<le> unat (handle_index s)" "unat (handle_index s) \<le> 0x1000000"
    using ok by (simp_all add: table_ok_def)
  obtain i where i: "i < slot_size s" "tried (unat (handle_index s)) i mod slot_size s = j"
    using tried_covers [OF k(2) h, of j] free unfolding k(1) by auto
  then show ?thesis using register_scan_cases [OF ok h, of ctx "slot_size s"] free(1) by auto
qed

lemma register_ok:
  assumes ok: "table_ok ctxh s" and new: "Some ctx \<notin> set (slot s)" and room: "has_room s"
  shows "\<exists>h s' s1. skynet_handle_register ctxh ctx s = Some (h, s') \<and> table_ok ctxh s1 \<and>
    Some ctx \<notin> set (slot s1) \<and> scan_found ctx s1 (h, s') \<and>
    lookup_handle ctxh s1 = lookup_handle ctxh s \<and> hs_harbor s1 = hs_harbor s \<and>
    hname s1 = hname s \<and> name_count s1 = name_count s \<and> name_cap s1 = name_cap s"
proof (cases "register_scan ctx (slot_size s) (handle_index s) s")
  case None
  then show ?thesis
    using register_scan_cases [OF ok, of "handle_index s" ctx "slot_size s"] ok
    by (simp add: table_ok_def)
next
  case (Some res)
  show ?thesis
  proof (cases res)
    case (Some r)
    then have "scan_found ctx s r"
      using \<open>register_scan _ _ _ _ = Some res\<close> ok
        register_scan_cases [OF ok, of "handle_index s" ctx "slot_size s"]
      by (auto simp: table_ok_def)
    then show ?thesis
      using Some \<open>register_scan _ _ _ _ = Some res\<close> ok new
      by (subst skynet_handle_register.simps) (cases r; auto)
  next
    case None
    have full: "slot s ! i \<noteq> None" if "i < slot_size s"
      "i \<noteq> 0 \<or> unat (handle_index s) + slot_size s \<le> 2 ^ 24" for i
    proof
      assume "slot s ! i = None"
      then show False using register_scan_room [OF ok _ that, of ctx] None Some by auto
    qed
    have big: "4 \<le> slot_size s" using table_pow [OF ok] power_increasing [of 2 _ "2::nat"] by fastforce
    have all: "slot s ! i \<noteq> None" if i: "i < slot_size s" for i
    proof
      assume none: "slot s ! i = None"
      have i0: "i = 0" "\<not> unat (handle_index s) + slot_size s \<le> 2 ^ 24" using full [OF i] none by blast+
      then obtain j where "0 < j" "j < slot_size s" "slot s ! j = None"
        using room none unfolding has_room_def by auto
      then show False using full [of j] by simp
    qed
    have small: "slot_size s < 2 ^ 24" using room all big unfolding has_room_def by (metis gr0I not_numeral_le_zero)
    obtain new_slot where ex: "expand_slots ctxh s = Some (s\<lparr>slot := new_slot, slot_size := slot_size s * 2\<rparr>)"
      and ok1: "table_ok ctxh (s\<lparr>slot := new_slot, slot_size := slot_size s * 2\<rparr>)" (is "table_ok _ ?s1")
      and regs: "\<And>a. Some a \<in> set new_slot \<longleftrightarrow> Some a \<in> set (slot s)"
      and fr: "\<exists>j. 0 < j \<and> j < slot_size s * 2 \<and> new_slot ! j = None"
      using expand_ok [OF ok all small] by blast
    obtain h s' where r: "register_scan ctx (slot_size ?s1) (handle_index ?s1) ?s1 = Some (Some (h, s'))"
      "scan_found ctx ?s1 (h, s')"
      using register_scan_room [OF ok1] fr by force
    have "lookup_handle ctxh ?s1 = lookup_handle ctxh s"
    proof
      fix x
      have "lookup_handle ctxh ?s1 x = Some a \<longleftrightarrow> lookup_handle ctxh s x = Some a" for a
        using lookup_handle_iff [OF ok1] lookup_handle_iff [OF ok] regs by simp
      then show "lookup_handle ctxh ?s1 x = lookup_handle ctxh s x" by (metis not_Some_eq)
    qed
    moreover have "skynet_handle_register ctxh ctx s = Some (h, s')"
      using Some None ex r(1)
      by (subst skynet_handle_register.simps, simp, subst skynet_handle_register.simps) simp
    ultimately show ?thesis using ok1 regs new r(2) by (intro exI [of _ h] exI [of _ s'] exI [of _ ?s1]) simp
  qed
qed

section \<open>What the names mean\<close>

definition names :: "handle_storage \<Rightarrow> handle_name list" where
  "names s = map the (take (name_count s) (hname s))"

definition name_map :: "handle_storage \<Rightarrow> string \<Rightarrow> handle option" where
  "name_map s = map_of (map (\<lambda>n. (hn_name n, hn_handle n)) (names s))"

definition names_ok :: "handle_storage \<Rightarrow> bool" where
  "names_ok s \<longleftrightarrow>
     length (hname s) = name_cap s \<and> 0 < name_cap s \<and> name_count s \<le> name_cap s \<and>
     take (name_count s) (hname s) = map Some (names s) \<and>
     sorted_wrt (<) (map hn_name (names s))"

lemma strcmp_cases:
  "strcmp a b = 0 \<longleftrightarrow> a = b" "strcmp a b < 0 \<longleftrightarrow> a < b" "0 < strcmp a b \<longleftrightarrow> b < a"
  by (auto simp: strcmp_def)

lemma search_ok:
  fixes xs :: "handle_name list"
  assumes "take (length xs) ns = map Some xs" and "sorted_wrt (<) (map hn_name xs)"
    and "0 \<le> b" and "e < int (length xs)" and "b \<le> e + 1"
    and "\<And>i. int i < b \<Longrightarrow> hn_name (xs ! i) < nm"
    and "\<And>i. e < int i \<Longrightarrow> i < length xs \<Longrightarrow> nm < hn_name (xs ! i)"
  shows "(\<exists>i. name_search ns nm b e = Some (Inl i) \<and> i < length xs \<and> hn_name (xs ! i) = nm) \<or>
    (\<exists>p. name_search ns nm b e = Some (Inr p) \<and> p \<le> length xs \<and>
       (\<forall>i < p. hn_name (xs ! i) < nm) \<and> (\<forall>i. p \<le> i \<longrightarrow> i < length xs \<longrightarrow> nm < hn_name (xs ! i)))"
  using assms(3-)
proof (induction "nat (e + 1 - b)" arbitrary: b e rule: less_induct)
  case less
  show ?case
  proof (cases "b \<le> e")
    case False
    then have be: "b = e + 1" using less.prems(3) by simp
    have ns: "name_search ns nm b e = Some (Inr (nat b))" using False by (subst name_search.simps) simp
    have "hn_name (xs ! i) < nm" if "i < nat b" for i using less.prems(4) [of i] that by linarith
    moreover have "nm < hn_name (xs ! i)" if "nat b \<le> i" "i < length xs" for i
      using less.prems(5) [of i] that be by linarith
    moreover have "nat b \<le> length xs" using be less.prems(2) by linarith
    ultimately show ?thesis using ns by blast
  next
    case True
    define mid where "mid = (b + e) div 2"
    have m: "b \<le> mid" "mid \<le> e" using True by (simp_all add: mid_def)
    then have mi: "nat mid < length xs" "0 \<le> mid" using less.prems(1,2) by linarith+
    have len: "length xs \<le> length ns" using arg_cong [OF assms(1), of length] by simp
    have at: "ns ! nat mid = Some (xs ! nat mid)"
      using assms(1) mi(1) by (metis nth_map nth_take)
    let ?n = "hn_name (xs ! nat mid)"
    have step: "name_search ns nm b e =
        (if ?n = nm then Some (Inl (nat mid))
         else if ?n < nm then name_search ns nm (mid + 1) e else name_search ns nm b (mid - 1))"
      using True at mi len
      by (subst name_search.simps) (simp add: mid_def [symmetric] Let_def strcmp_cases)
    consider (eq) "?n = nm" | (lt) "?n < nm" | (gt) "nm < ?n" by (meson less_linear)
    then show ?thesis
    proof cases
      case eq
      then show ?thesis using step mi(1) by auto
    next
      case lt
      have "hn_name (xs ! i) < nm" if "int i < mid + 1" for i
      proof (cases "int i = mid")
        case True
        then have "i = nat mid" by linarith
        then show ?thesis using lt by simp
      next
        case False
        then have "i < nat mid" using that mi(2) by linarith
        then have "hn_name (xs ! i) < ?n"
          using sorted_wrt_nth_less [OF assms(2), of i "nat mid"] mi(1) by simp
        then show ?thesis using lt by simp
      qed
      moreover have eq: "name_search ns nm b e = name_search ns nm (mid + 1) e" using step lt by auto
      ultimately show ?thesis
        unfolding eq by (intro less.hyps) (use less.prems m mi in \<open>auto\<close>)
    next
      case gt
      have "nm < hn_name (xs ! i)" if "mid - 1 < int i" "i < length xs" for i
      proof (cases "int i = mid")
        case True
        then have "i = nat mid" by linarith
        then show ?thesis using gt by simp
      next
        case False
        then have "nat mid < i" using that mi(2) by linarith
        then have "?n < hn_name (xs ! i)"
          using sorted_wrt_nth_less [OF assms(2), of "nat mid" i] that(2) by simp
        then show ?thesis using gt by simp
      qed
      moreover have eq: "name_search ns nm b e = name_search ns nm b (mid - 1)"
        using step gt by (auto simp: less_not_sym)
      ultimately show ?thesis
        unfolding eq by (intro less.hyps) (use less.prems m mi in \<open>auto\<close>)
    qed
  qed
qed

lemma names_length: "names_ok s \<Longrightarrow> length (names s) = name_count s"
  by (auto simp: names_ok_def names_def)

lemma map_of_sorted:
  assumes "sorted_wrt (<) (map hn_name xs)" and "i < length xs"
  shows "map_of (map (\<lambda>n. (hn_name n, hn_handle n)) xs) (hn_name (xs ! i)) = Some (hn_handle (xs ! i))"
proof -
  have "distinct (map fst (map (\<lambda>n. (hn_name n, hn_handle n)) xs))"
    using assms(1) by (simp add: comp_def strict_sorted_iff)
  moreover have "(hn_name (xs ! i), hn_handle (xs ! i)) \<in> set (map (\<lambda>n. (hn_name n, hn_handle n)) xs)"
    using assms(2) by simp
  ultimately show ?thesis by (rule map_of_is_SomeI)
qed

lemma map_of_absent:
  "(\<And>n. n \<in> set xs \<Longrightarrow> hn_name n \<noteq> nm) \<Longrightarrow> map_of (map (\<lambda>n. (hn_name n, hn_handle n)) xs) nm = None"
  by (simp add: map_of_eq_None_iff image_iff) blast

text \<open>The search on a well-formed array decides membership in the map.\<close>

lemma name_search_ok:
  assumes ok: "names_ok s"
  shows "(\<exists>i. name_search (hname s) nm 0 (int (name_count s) - 1) = Some (Inl i) \<and>
       i < name_count s \<and> hname s ! i = Some (names s ! i) \<and> name_map s nm = Some (hn_handle (names s ! i))) \<or>
    (\<exists>p. name_search (hname s) nm 0 (int (name_count s) - 1) = Some (Inr p) \<and> p \<le> name_count s \<and>
       name_map s nm = None \<and> (\<forall>i < p. hn_name (names s ! i) < nm) \<and>
       (\<forall>i. p \<le> i \<longrightarrow> i < name_count s \<longrightarrow> nm < hn_name (names s ! i)))"
proof -
  have len: "length (names s) = name_count s" by (rule names_length [OF ok])
  have so: "sorted_wrt (<) (map hn_name (names s))" and tk: "take (length (names s)) (hname s) = map Some (names s)"
    using ok len by (simp_all add: names_ok_def)
  have at: "hname s ! i = Some (names s ! i)" if "i < name_count s" for i
    using tk that len by (metis nth_map nth_take)
  from search_ok [OF tk so, of 0 "int (name_count s) - 1" nm]
  consider (found) i where "name_search (hname s) nm 0 (int (name_count s) - 1) = Some (Inl i)"
      "i < name_count s" "hn_name (names s ! i) = nm"
    | (not) p where "name_search (hname s) nm 0 (int (name_count s) - 1) = Some (Inr p)" "p \<le> name_count s"
      "\<forall>i < p. hn_name (names s ! i) < nm" "\<forall>i. p \<le> i \<longrightarrow> i < name_count s \<longrightarrow> nm < hn_name (names s ! i)"
    using len by auto
  then show ?thesis
  proof cases
    case found
    then show ?thesis using at map_of_sorted [OF so, of i] len by (auto simp: name_map_def)
  next
    case not
    have "name_map s nm = None"
      unfolding name_map_def
    proof (rule map_of_absent)
      fix n
      assume "n \<in> set (names s)"
      then obtain i where "i < name_count s" "names s ! i = n" using len by (auto simp: in_set_conv_nth)
      then show "hn_name n \<noteq> nm" using not(3) [rule_format, of i] not(4) [rule_format, of i] by (cases "i < p") auto
    qed
    then show ?thesis using not by blast
  qed
qed

lemma findname_ok:
  assumes "names_ok s"
  shows "skynet_handle_findname nm s = Some (case name_map s nm of Some h \<Rightarrow> h | None \<Rightarrow> 0)"
proof -
  have "name_count s \<le> length (hname s)" using assms by (simp add: names_ok_def)
  then show ?thesis
    using name_search_ok [OF assms, of nm] by (auto simp: skynet_handle_findname_def)
qed


section \<open>Inserting a name\<close>

lemma shift_up_spec:
  "before \<le> i \<Longrightarrow> i < length ns \<Longrightarrow>
   \<exists>ns'. shift_up before i ns = Some ns' \<and> length ns' = length ns \<and>
     (\<forall>j < length ns. ns' ! j = (if before < j \<and> j \<le> i then ns ! (j - 1) else ns ! j))"
proof (induction i arbitrary: ns)
  case 0
  then show ?case by simp
next
  case (Suc i)
  show ?case
  proof (cases "Suc i > before")
    case True
    then have "before \<le> i" by simp
    obtain ns' where ns': "shift_up before i (ns[Suc i := ns ! i]) = Some ns'" "length ns' = length ns"
      "\<forall>j < length ns. ns' ! j =
        (if before < j \<and> j \<le> i then ns[Suc i := ns ! i] ! (j - 1) else ns[Suc i := ns ! i] ! j)"
      using Suc.IH [of "ns[Suc i := ns ! i]"] \<open>before \<le> i\<close> Suc.prems by auto
    then have "ns' ! j = (if before < j \<and> j \<le> Suc i then ns ! (j - 1) else ns ! j)"
      if "j < length ns" for j
      using that Suc.prems True by (cases "j = Suc i") (auto simp: nth_list_update)
    then show ?thesis using ns' True Suc.prems by simp
  next
    case False
    then show ?thesis using Suc.prems by auto
  qed
qed

lemma copy_names_spec:
  "i + n \<le> length src \<Longrightarrow> i + n + k \<le> length dst \<Longrightarrow>
   \<exists>dst'. copy_names i n k src dst = Some dst' \<and> length dst' = length dst \<and>
     (\<forall>j < length dst. dst' ! j = (if i + k \<le> j \<and> j < i + n + k then src ! (j - k) else dst ! j))"
proof (induction n arbitrary: i dst)
  case 0
  then show ?case by auto
next
  case (Suc n)
  obtain dst' where d: "copy_names (Suc i) n k src (dst[i + k := src ! i]) = Some dst'" "length dst' = length dst"
    "\<forall>j < length dst. dst' ! j = (if Suc i + k \<le> j \<and> j < Suc i + n + k then src ! (j - k)
       else dst[i + k := src ! i] ! j)"
    using Suc.IH [of "Suc i" "dst[i + k := src ! i]"] Suc.prems by auto
  have "dst' ! j = (if i + k \<le> j \<and> j < i + Suc n + k then src ! (j - k) else dst ! j)"
    if "j < length dst" for j
    using d(3) that by (cases "j = i + k") (auto simp: nth_list_update)
  then show ?case using d Suc.prems by simp
qed

lemma sorted_insert:
  fixes x :: "'a :: linorder"
  assumes "sorted_wrt (<) xs" "p \<le> length xs"
    and "\<And>i. i < p \<Longrightarrow> xs ! i < x" and "\<And>i. p \<le> i \<Longrightarrow> i < length xs \<Longrightarrow> x < xs ! i"
  shows "sorted_wrt (<) (take p xs @ x # drop p xs)"
proof -
  have "y < x" if "y \<in> set (take p xs)" for y
    using that assms(2,3) by (auto simp: in_set_conv_nth)
  moreover have "x < z" if "z \<in> set (drop p xs)" for z
  proof -
    from that obtain i where "i < length xs - p" "z = xs ! (p + i)" by (auto simp: in_set_conv_nth)
    then show ?thesis using assms(4) [of "p + i"] by simp
  qed
  moreover have "sorted_wrt (<) (take p xs @ drop p xs)" using assms(1) by simp
  ultimately show ?thesis unfolding sorted_wrt_append by fastforce
qed

lemma list_insert_nth:
  assumes "p \<le> length xs" and "length ys = Suc (length xs)"
    and "\<And>j. j < p \<Longrightarrow> ys ! j = xs ! j" and "ys ! p = x"
    and "\<And>j. p < j \<Longrightarrow> j \<le> length xs \<Longrightarrow> ys ! j = xs ! (j - 1)"
  shows "ys = take p xs @ x # drop p xs"
proof (rule nth_equalityI)
  show "length ys = length (take p xs @ x # drop p xs)" using assms(1,2) by simp
  show "ys ! j = (take p xs @ x # drop p xs) ! j" if "j < length ys" for j
  proof (cases "j < p")
    case True
    then show ?thesis using assms(1,3) by (simp add: nth_append)
  next
    case False
    then show ?thesis
      using assms(1,2,4) assms(5) [of j] that by (cases "j = p") (auto simp: nth_append nth_Cons' min_absorb2)
  qed
qed

lemma insert_before_spec:
  assumes ok: "names_ok s" and p: "p \<le> name_count s"
    and room: "name_count s < name_cap s \<or> name_cap s * 2 \<le> MAX_SLOT_SIZE"
  shows "\<exists>s'. insert_name_before nm h p s = Some s' \<and> length (hname s') = name_cap s' \<and> 0 < name_cap s' \<and>
    name_count s' = name_count s + 1 \<and> name_count s' \<le> name_cap s' \<and>
    take (name_count s') (hname s') =
      map Some (take p (names s) @ \<lparr>hn_name = nm, hn_handle = h\<rparr> # drop p (names s)) \<and>
    slot s' = slot s \<and> slot_size s' = slot_size s \<and> handle_index s' = handle_index s \<and> hs_harbor s' = hs_harbor s"
proof -
  let ?e = "\<lparr>hn_name = nm, hn_handle = h\<rparr>" and ?n = "name_count s"
  have len: "length (names s) = ?n" by (rule names_length [OF ok])
  have F: "length (hname s) = name_cap s" "0 < name_cap s" "?n \<le> name_cap s"
    "take ?n (hname s) = map Some (names s)"
    using ok by (simp_all add: names_ok_def)
  have at: "hname s ! j = Some (names s ! j)" if "j < ?n" for j
    using F(4) that len by (metis nth_map nth_take)
  have fin: "take (?n + 1) (ns'[p := Some ?e]) = map Some (take p (names s) @ ?e # drop p (names s))"
    if ns': "?n < length ns'" "\<And>j. j < p \<Longrightarrow> ns' ! j = hname s ! j"
      "\<And>j. p < j \<Longrightarrow> j \<le> ?n \<Longrightarrow> ns' ! j = hname s ! (j - 1)" for ns'
  proof -
    have "take (?n + 1) (ns'[p := Some ?e])
        = take p (map Some (names s)) @ Some ?e # drop p (map Some (names s))"
    proof (rule list_insert_nth)
      show "p \<le> length (map Some (names s))" using p len by simp
      show "length (take (?n + 1) (ns'[p := Some ?e])) = Suc (length (map Some (names s)))"
        using ns'(1) len by simp
      show "take (?n + 1) (ns'[p := Some ?e]) ! p = Some ?e" using p ns'(1) by simp
      show "take (?n + 1) (ns'[p := Some ?e]) ! j = map Some (names s) ! j" if "j < p" for j
        using that p ns'(2) [of j] at [of j] len by simp
      show "take (?n + 1) (ns'[p := Some ?e]) ! j = map Some (names s) ! (j - 1)"
        if "p < j" "j \<le> length (map Some (names s))" for j
        using that p ns'(3) [of j] at [of "j - 1"] len by simp
    qed
    then show ?thesis by (simp add: take_map drop_map)
  qed
  show ?thesis
  proof (cases "name_count s \<ge> name_cap s")
    case True
    then have n: "name_cap s = ?n" using F by simp
    obtain n1 where n1: "copy_names 0 p 0 (hname s) (replicate (?n * 2) None) = Some n1" "length n1 = ?n * 2"
      "\<And>j. j < p \<Longrightarrow> n1 ! j = hname s ! j"
      using copy_names_spec [of 0 p "hname s" 0 "replicate (?n * 2) None"] p F n by fastforce
    obtain n2 where n2: "copy_names p (?n - p) 1 (hname s) n1 = Some n2" "length n2 = ?n * 2"
      "\<forall>j < ?n * 2. n2 ! j = (if p + 1 \<le> j \<and> j < p + (?n - p) + 1 then hname s ! (j - 1) else n1 ! j)"
      using copy_names_spec [of p "?n - p" "hname s" 1 n1] p F n n1(2) by auto
    have "?n < length n2" using n2(2) F(2) n by simp
    then have "take (?n + 1) (n2[p := Some ?e]) = map Some (take p (names s) @ ?e # drop p (names s))"
      using n1(3) n2(3) p by (intro fin) (auto simp: n2(2))
    then show ?thesis
      using True n1(1) n2(1,2) n room F(2) p by (simp add: insert_name_before_def Let_def)
  next
    case False
    then have n: "?n < length (hname s)" using F by simp
    obtain ns' where ns': "shift_up p ?n (hname s) = Some ns'" "length ns' = length (hname s)"
      "\<forall>j < length (hname s). ns' ! j = (if p < j \<and> j \<le> ?n then hname s ! (j - 1) else hname s ! j)"
      using shift_up_spec [OF p n] by blast
    have "take (?n + 1) (ns'[p := Some ?e]) = map Some (take p (names s) @ ?e # drop p (names s))"
      using ns' n p by (intro fin) auto
    then show ?thesis
      using False ns' F n p by (simp add: insert_name_before_def Let_def)
  qed
qed

lemma names_of_take:
  "take (name_count s) (hname s) = map Some xs \<Longrightarrow> names s = xs"
  by (simp add: names_def comp_def)

lemma namehandle_absent:
  assumes ok: "names_ok s" and new: "name_map s nm = None"
    and room: "name_count s < name_cap s \<or> name_cap s * 2 \<le> MAX_SLOT_SIZE"
  shows "\<exists>s'. skynet_handle_namehandle h nm s = Some (Some nm, s') \<and> names_ok s' \<and>
    name_map s' = (name_map s)(nm \<mapsto> h) \<and> name_count s' = name_count s + 1 \<and>
    slot s' = slot s \<and> slot_size s' = slot_size s \<and> handle_index s' = handle_index s \<and> hs_harbor s' = hs_harbor s"
proof -
  from name_search_ok [OF ok, of nm] new obtain p
    where p: "name_search (hname s) nm 0 (int (name_count s) - 1) = Some (Inr p)" "p \<le> name_count s"
      "\<And>i. i < p \<Longrightarrow> hn_name (names s ! i) < nm"
      "\<And>i. p \<le> i \<Longrightarrow> i < name_count s \<Longrightarrow> nm < hn_name (names s ! i)"
    by auto
  have len: "length (names s) = name_count s" by (rule names_length [OF ok])
  let ?e = "\<lparr>hn_name = nm, hn_handle = h\<rparr>"
  obtain s' where ins: "insert_name_before nm h p s = Some s'" and s': "length (hname s') = name_cap s'"
    "0 < name_cap s'" "name_count s' = name_count s + 1" "name_count s' \<le> name_cap s'"
    "take (name_count s') (hname s') = map Some (take p (names s) @ ?e # drop p (names s))"
    "slot s' = slot s" "slot_size s' = slot_size s" "handle_index s' = handle_index s" "hs_harbor s' = hs_harbor s"
    using insert_before_spec [OF ok p(2) room] by blast
  have nm': "names s' = take p (names s) @ ?e # drop p (names s)" by (rule names_of_take [OF s'(5)])
  have "sorted_wrt (<) (take p (map hn_name (names s)) @ nm # drop p (map hn_name (names s)))"
    using p len ok by (intro sorted_insert) (auto simp: names_ok_def)
  then have so: "sorted_wrt (<) (map hn_name (names s'))" by (simp add: nm' take_map drop_map)
  have fresh: "nm \<notin> hn_name ` set (names s)" using new unfolding name_map_def
    by (auto simp: map_of_eq_None_iff image_image)
  have "name_map s' = (name_map s)(nm \<mapsto> h)"
  proof
    fix x
    let ?m = "map (\<lambda>n. (hn_name n, hn_handle n))"
    have split: "name_map s x = (map_of (?m (drop p (names s))) ++ map_of (?m (take p (names s)))) x"
      by (simp only: name_map_def append_take_drop_id map_append [symmetric] map_of_append [symmetric])
    have "nm \<notin> hn_name ` set (take p (names s))" using fresh by (auto dest: in_set_takeD)
    then have "map_of (?m (take p (names s))) nm = None" by (auto simp: map_of_eq_None_iff image_image)
    then show "name_map s' x = ((name_map s)(nm \<mapsto> h)) x"
      using split by (auto simp: name_map_def nm' map_add_def split: option.splits)
  qed
  moreover have "names_ok s'" using s' nm' so by (simp add: names_ok_def)
  moreover have "skynet_handle_namehandle h nm s = Some (Some nm, s')"
    using p(1) ins by (simp add: skynet_handle_namehandle_def insert_name_def)
  ultimately show ?thesis using s' by blast
qed

lemma namehandle_present:
  assumes ok: "names_ok s" and old: "name_map s nm = Some h'"
  shows "skynet_handle_namehandle h nm s = Some (None, s)"
  using name_search_ok [OF ok, of nm] old
  by (auto simp: skynet_handle_namehandle_def insert_name_def)

section \<open>Retiring\<close>

lemma drop_names_spec:
  "j \<le> i \<Longrightarrow> i + n \<le> length ns \<Longrightarrow> take n (drop i ns) = map Some xs \<Longrightarrow>
   \<exists>ns'. drop_names h i n j ns = Some (j + length (filter (\<lambda>v. hn_handle v \<noteq> h) xs), ns') \<and>
     length ns' = length ns \<and>
     take (j + length (filter (\<lambda>v. hn_handle v \<noteq> h) xs)) ns' =
       take j ns @ map Some (filter (\<lambda>v. hn_handle v \<noteq> h) xs)"
proof (induction n arbitrary: i j ns xs)
  case 0
  then show ?case by simp
next
  case (Suc n)
  obtain x xs' where xs: "xs = x # xs'" using Suc.prems by (cases xs) auto
  have i: "i < length ns" using Suc.prems by simp
  have "drop i ns = ns ! i # drop (Suc i) ns" using Cons_nth_drop_Suc [OF i] by simp
  then have x: "ns ! i = Some x" and rest: "take n (drop (Suc i) ns) = map Some xs'"
    using Suc.prems(3) by (simp_all add: xs)
  show ?case
  proof (cases "hn_handle x = h")
    case True
    then show ?thesis using Suc.IH [of j "Suc i" ns xs'] Suc.prems i x rest by (simp add: xs)
  next
    case False
    define ns1 where "ns1 = (if i \<noteq> j then ns[j := Some x] else ns)"
    have j: "j < length ns" using Suc.prems(1) i by simp
    have tk: "take (Suc j) ns1 = take j ns @ [Some x]"
      using Suc.prems i x by (auto simp: ns1_def take_Suc_conv_app_nth)
    have "take n (drop (Suc i) ns1) = map Some xs'" using rest Suc.prems(1) by (auto simp: ns1_def drop_update_cancel)
    moreover have "length ns1 = length ns" by (simp add: ns1_def)
    ultimately obtain ns' where ns': "drop_names h (Suc i) n (Suc j) ns1 =
        Some (Suc j + length (filter (\<lambda>v. hn_handle v \<noteq> h) xs'), ns')" "length ns' = length ns"
      "take (Suc j + length (filter (\<lambda>v. hn_handle v \<noteq> h) xs')) ns' =
        take (Suc j) ns1 @ map Some (filter (\<lambda>v. hn_handle v \<noteq> h) xs')"
      using Suc.IH [of "Suc j" "Suc i" ns1 xs'] Suc.prems by auto
    then show ?thesis using False i x j tk by (cases "i = j") (simp_all add: xs ns1_def)
  qed
qed

lemma map_of_filter_handle:
  "sorted_wrt (<) (map hn_name xs) \<Longrightarrow>
   map_of (map (\<lambda>n. (hn_name n, hn_handle n)) (filter (\<lambda>v. hn_handle v \<noteq> h) xs)) nm =
   (case map_of (map (\<lambda>n. (hn_name n, hn_handle n)) xs) nm of
      Some h' \<Rightarrow> if h' = h then None else Some h' | None \<Rightarrow> None)"
proof (induction xs)
  case (Cons x xs)
  show ?case
  proof (cases "nm = hn_name x")
    case True
    have "map_of (map (\<lambda>n. (hn_name n, hn_handle n)) xs) nm = None"
      using Cons.prems True by (intro map_of_absent) auto
    then show ?thesis using Cons True by auto
  qed (use Cons in auto)
qed simp

lemma cleared_nth: "xs[k := None] ! i = Some a \<Longrightarrow> xs ! i = Some a"
  by (cases "k = i"; cases "i < length xs") (simp_all add: list_update_beyond)

lemma retire_found:
  assumes ok: "names_ok s" and tab: "table_ok ctxh s" and found: "lookup_handle ctxh s h = Some ctx"
  shows "\<exists>s'. handle_retire ctxh h s = Some (1, Some ctx, s') \<and> names_ok s' \<and> table_ok ctxh s' \<and>
    lookup_handle ctxh s' = (lookup_handle ctxh s)(h := None) \<and>
    name_map s' = (\<lambda>nm. if name_map s nm = Some h then None else name_map s nm)"
proof -
  have len: "length (names s) = name_count s" by (rule names_length [OF ok])
  have hash: "hash_of (slot_size s) h < length (slot s)" by (rule table_hash_less [OF tab])
  have c: "slot s ! hash_of (slot_size s) h = Some ctx" "ctxh ctx = h"
    using found by (auto simp: lookup_handle_def split: option.splits if_splits)
  let ?f = "filter (\<lambda>v. hn_handle v \<noteq> h) (names s)"
  obtain ns where ns: "drop_names h 0 (name_count s) 0 (hname s) = Some (length ?f, ns)"
    "length ns = length (hname s)" "take (length ?f) ns = map Some ?f"
    using drop_names_spec [of 0 0 "name_count s" "hname s" "names s" h] ok by (auto simp: names_ok_def)
  define s' where "s' = s\<lparr>slot := (slot s)[hash_of (slot_size s) h := None], hname := ns, name_count := length ?f\<rparr>"
  have run: "handle_retire ctxh h s = Some (1, Some ctx, s')"
    using c hash ns(1) by (simp add: handle_retire_def Let_def s'_def)
  have nm: "names s' = ?f" using ns(3) by (intro names_of_take) (simp add: s'_def)
  have "length ?f \<le> name_count s" using len length_filter_le [of _ "names s"] by metis
  moreover have "sorted_wrt (<) (map hn_name ?f)" using ok by (simp add: names_ok_def sorted_wrt_map sorted_wrt_filter)
  ultimately have "names_ok s'" using ok ns(2,3) nm by (simp add: names_ok_def s'_def)
  moreover have tab': "table_ok ctxh s'"
    using tab unfolding table_ok_def by (auto simp: s'_def dest: cleared_nth)
  moreover have "lookup_handle ctxh s' x = ((lookup_handle ctxh s)(h := None)) x" for x
  proof (cases "hash_of (slot_size s) x = hash_of (slot_size s) h")
    case True
    then have "x = h \<or> lookup_handle ctxh s x = None" using c by (auto simp: lookup_handle_def)
    then show ?thesis using True hash by (auto simp: lookup_handle_def s'_def)
  next
    case False
    then show ?thesis by (auto simp: lookup_handle_def s'_def)
  qed
  moreover have "name_map s' nm = (if name_map s nm = Some h then None else name_map s nm)" for nm
    using map_of_filter_handle [of "names s" h nm] ok \<open>names s' = ?f\<close>
    by (simp add: name_map_def names_ok_def split: option.split)
  ultimately show ?thesis using run by blast
qed

lemma retire_missing:
  assumes "table_ok ctxh s" and "lookup_handle ctxh s h = None"
  shows "handle_retire ctxh h s = Some (0, None, s)"
  using assms table_hash_less [OF assms(1), of h]
  by (auto simp: handle_retire_def lookup_handle_def Let_def split: option.splits if_splits)


section \<open>Properties\<close>

lemma init_ok: "table_ok ctxh (skynet_handle_init harbor)" "names_ok (skynet_handle_init harbor)"
proof -
  have m: "(0xffffff :: u32) = mask 24" by (simp add: mask_eq_exp_minus_1)
  have "push_bit 24 (x AND 0xff) AND 0xffffff = (0 :: u32)" for x
    unfolding m by (rule bit_word_eqI) (auto simp: bit_and_iff bit_push_bit_iff bit_mask_iff)
  moreover have "\<exists>k. 4 = (2::nat) ^ k \<and> 2 \<le> k \<and> k \<le> 24" by (intro exI [of _ 2]) simp
  ultimately show "table_ok ctxh (skynet_handle_init harbor)"
    by (simp add: table_ok_def skynet_handle_init_def DEFAULT_SLOT_SIZE_def HANDLE_REMOTE_SHIFT_def
        HANDLE_MASK_def)
  show "names_ok (skynet_handle_init harbor)"
    by (simp add: names_ok_def names_def skynet_handle_init_def)
qed

text \<open>
  C9. Registering a context in a table with room always returns, growing the table by doubling
  when it is full, and gives a new handle: not in use, with a non-zero low part and the harbor
  in the high byte.  Afterwards (the caller stores the handle in the context) the table finds
  the context under it, every other handle finds what it found before, and the table invariant
  holds again.
\<close>

theorem register_gives_new_handle:
  assumes "table_ok ctxh s" and "Some ctx \<notin> set (slot s)" and "has_room s"
  shows "\<exists>h s'. skynet_handle_register ctxh ctx s = Some (h, s') \<and>
    lookup_handle ctxh s h = None \<and> h AND HANDLE_MASK \<noteq> 0 \<and> h AND NOT HANDLE_MASK = hs_harbor s \<and>
    table_ok (ctxh(ctx := h)) s' \<and>
    lookup_handle (ctxh(ctx := h)) s' = (lookup_handle ctxh s)(h \<mapsto> ctx)"
proof -
  obtain h s' s1 where "skynet_handle_register ctxh ctx s = Some (h, s')" and ok1: "table_ok ctxh s1"
    and s1: "Some ctx \<notin> set (slot s1)" "scan_found ctx s1 (h, s')"
    and same: "lookup_handle ctxh s1 = lookup_handle ctxh s" "hs_harbor s1 = hs_harbor s"
    using register_ok [OF assms] by blast
  then show ?thesis using found_spec [OF ok1 s1(2,1)] same by auto
qed

lemma register_gives_new_handle_witness:
  "\<exists>h s'. skynet_handle_register (\<lambda>_. 0) 5 (skynet_handle_init 1) = Some (h, s') \<and>
    h AND NOT HANDLE_MASK = 0x1000000"
  using register_gives_new_handle [OF init_ok(1) [of "\<lambda>_. 0" 1], of 5]
  by (auto simp: has_room_def skynet_handle_init_def DEFAULT_SLOT_SIZE_def HANDLE_REMOTE_SHIFT_def)

text \<open>
  C10. Looking up, retiring and the name operations act as on two finite maps, from handles to
  contexts and from names to handles: \<open>grab\<close> and \<open>findname\<close> (binary search) read them (0 for an
  unknown name), \<open>namehandle\<close> adds a name only when it is new and refuses (NULL) without any
  change otherwise, and \<open>retire\<close> removes exactly the handle and every name bound to it, and
  reports 0 for an unknown handle.  All of them return and keep both invariants.
\<close>

theorem handle_storage_refines_maps:
  assumes tab: "table_ok ctxh s" and ok: "names_ok s"
    and room: "name_count s < name_cap s \<or> name_cap s * 2 \<le> MAX_SLOT_SIZE"
  shows "handle_grab ctxh h s = Some (lookup_handle ctxh s h) \<and>
    skynet_handle_findname nm s = Some (case name_map s nm of Some h' \<Rightarrow> h' | None \<Rightarrow> 0) \<and>
    (\<exists>s'. skynet_handle_namehandle h nm s = Some (if name_map s nm = None then Some nm else None, s') \<and>
       names_ok s' \<and> table_ok ctxh s' \<and> lookup_handle ctxh s' = lookup_handle ctxh s \<and>
       name_map s' = (if name_map s nm = None then (name_map s)(nm \<mapsto> h) else name_map s)) \<and>
    (\<exists>s'. handle_retire ctxh h s =
         Some (if lookup_handle ctxh s h = None then 0 else 1, lookup_handle ctxh s h, s') \<and>
       names_ok s' \<and> table_ok ctxh s' \<and> lookup_handle ctxh s' = (lookup_handle ctxh s)(h := None) \<and>
       name_map s' = (\<lambda>x. if lookup_handle ctxh s h \<noteq> None \<and> name_map s x = Some h then None
          else name_map s x))"
proof (intro conjI)
  show "handle_grab ctxh h s = Some (lookup_handle ctxh s h)" by (rule handle_grab_lookup [OF tab])
  show "skynet_handle_findname nm s = Some (case name_map s nm of Some h' \<Rightarrow> h' | None \<Rightarrow> 0)"
    by (rule findname_ok [OF ok])
  show "\<exists>s'. skynet_handle_namehandle h nm s = Some (if name_map s nm = None then Some nm else None, s') \<and>
       names_ok s' \<and> table_ok ctxh s' \<and> lookup_handle ctxh s' = lookup_handle ctxh s \<and>
       name_map s' = (if name_map s nm = None then (name_map s)(nm \<mapsto> h) else name_map s)"
  proof (cases "name_map s nm")
    case None
    then obtain s' where s': "skynet_handle_namehandle h nm s = Some (Some nm, s')" "names_ok s'"
      "name_map s' = (name_map s)(nm \<mapsto> h)" "slot s' = slot s" "slot_size s' = slot_size s"
      "handle_index s' = handle_index s" "hs_harbor s' = hs_harbor s"
      using namehandle_absent [OF ok None room] by blast
    then have "table_ok ctxh s'" "lookup_handle ctxh s' = lookup_handle ctxh s"
      using tab by (simp_all add: table_ok_def lookup_handle_def [abs_def])
    then show ?thesis using s' None by auto
  next
    case (Some h')
    then show ?thesis using namehandle_present [OF ok Some] tab ok by auto
  qed
  show "\<exists>s'. handle_retire ctxh h s =
         Some (if lookup_handle ctxh s h = None then 0 else 1, lookup_handle ctxh s h, s') \<and>
       names_ok s' \<and> table_ok ctxh s' \<and> lookup_handle ctxh s' = (lookup_handle ctxh s)(h := None) \<and>
       name_map s' = (\<lambda>x. if lookup_handle ctxh s h \<noteq> None \<and> name_map s x = Some h then None
          else name_map s x)"
  proof (cases "lookup_handle ctxh s h")
    case None
    then show ?thesis using retire_missing [OF tab None] tab ok by (auto simp: fun_upd_idem)
  next
    case (Some ctx)
    then show ?thesis using retire_found [OF ok tab Some] by auto
  qed
qed

lemma handle_storage_refines_maps_witness:
  "skynet_handle_findname ''x'' (skynet_handle_init 1) = Some 0 \<and>
   (\<exists>s'. skynet_handle_namehandle 9 ''x'' (skynet_handle_init 1) = Some (Some ''x'', s') \<and>
     name_map s' ''x'' = Some 9)"
proof -
  have "name_map (skynet_handle_init 1) ''x'' = None"
    by (simp add: name_map_def names_def skynet_handle_init_def)
  then show ?thesis
    using handle_storage_refines_maps [OF init_ok(1) [of "\<lambda>_. 0" 1] init_ok(2), of 9 "''x''"]
    by (auto simp: skynet_handle_init_def)
qed

definition churn :: "(addr \<Rightarrow> handle) \<Rightarrow> addr \<Rightarrow> handle_storage \<Rightarrow> handle_storage option" where
  "churn ctxh ctx s = do {
     (h, s1) \<leftarrow> skynet_handle_register ctxh ctx s;
     (r, c, s2) \<leftarrow> handle_retire (ctxh(ctx := h)) h s1;
     Some s2 }"

fun churns :: "nat \<Rightarrow> (addr \<Rightarrow> handle) \<Rightarrow> addr \<Rightarrow> handle_storage \<Rightarrow> handle_storage option" where
  "churns 0 ctxh ctx s = Some s"
| "churns (Suc n) ctxh ctx s = do { s' \<leftarrow> churns n ctxh ctx s; churn ctxh ctx s' }"

definition three_slots :: "u32 \<Rightarrow> handle_storage" where
  "three_slots i = (skynet_handle_init 0)\<lparr>slot := [None, Some 1, Some 2, Some 3], handle_index := i\<rparr>"

lemma register_scan_numeral [simp]:
  "register_scan ctx (numeral v) h s =
     (let h1 = (if h > HANDLE_MASK then 1 else h);
          hash = hash_of (slot_size s) h1
      in do {
        c \<leftarrow> arr_get (slot s) hash;
        if c = None then do {
          sl \<leftarrow> arr_set (slot s) hash (Some ctx);
          Some (Some (h1 OR hs_harbor s, s\<lparr>slot := sl, handle_index := h1 + 1\<rparr>)) }
        else register_scan ctx (pred_numeral v) (h1 + 1) s })"
  by (simp add: numeral_eq_Suc)

lemma three_registered:
  "do { (h1, s1) \<leftarrow> skynet_handle_register of_nat 1 (skynet_handle_init 0);
        (h2, s2) \<leftarrow> skynet_handle_register of_nat 2 s1;
        (h3, s3) \<leftarrow> skynet_handle_register of_nat 3 s2;
        Some (h1, h2, h3, s3) } = Some (1, 2, 3, three_slots 4)"
  by (simp add: skynet_handle_register.simps skynet_handle_init_def
      DEFAULT_SLOT_SIZE_def HANDLE_MASK_def hash_of_def three_slots_def arr_get_def arr_set_def)
    (simp add: numeral_eq_Suc)

lemma hash_of_4: "hash_of 4 h = unat h mod 4"
  using hash_of_power [of 2 h] by simp

lemma three_slots_sel [simp]:
  "slot_size (three_slots i) = 4" "slot (three_slots i) = [None, Some 1, Some 2, Some 3]"
  "handle_index (three_slots i) = i" "hs_harbor (three_slots i) = 0"
  "name_count (three_slots i) = 0"
  by (simp_all add: three_slots_def skynet_handle_init_def DEFAULT_SLOT_SIZE_def)

lemma churn_step:
  assumes "unat i = 4 * n + 1" and "4 * n + 4 \<le> 0xffffff"
  shows "churn ctxh ctx (three_slots i) = Some (three_slots (i + 4))"
proof -
  have u: "unat (i + 1) = 4 * n + 2" "unat (i + 2) = 4 * n + 3" "unat (i + 3) = 4 * n + 4"
    using assms by (simp_all add: unat_word_ariths)
  have le: "\<not> HANDLE_MASK < i" "\<not> HANDLE_MASK < i + 1" "\<not> HANDLE_MASK < i + 2" "\<not> HANDLE_MASK < i + 3"
    using assms u by (simp_all add: HANDLE_MASK_def word_less_nat_alt)
  have m: "4 * n mod 4 = 0" by simp
  have hash: "hash_of 4 i = 1" "hash_of 4 (i + 1) = 2" "hash_of 4 (i + 2) = 3" "hash_of 4 (i + 3) = 0"
    unfolding hash_of_4 u assms(1) using m by presburger+
  note sums = le hash le(3) [unfolded add.commute [of i]] le(4) [unfolded add.commute [of i]]
    hash(3) [unfolded add.commute [of i]] hash(4) [unfolded add.commute [of i]]
  have "skynet_handle_register ctxh ctx (three_slots i)
      = Some (i + 3, (three_slots i)\<lparr>slot := [Some ctx, Some 1, Some 2, Some 3], handle_index := i + 4\<rparr>)"
    using sums
    by (subst skynet_handle_register.simps) (simp add: Let_def arr_get_def arr_set_def add.commute)
  then show ?thesis
    using hash by (simp add: churn_def handle_retire_def arr_get_def arr_set_def)
      (simp add: three_slots_def skynet_handle_init_def DEFAULT_SLOT_SIZE_def)
qed

lemma churns_state:
  "n \<le> 0x3ffffe \<Longrightarrow> churns (Suc n) ctxh ctx (three_slots 4) = Some (three_slots (of_nat (4 * n + 5)))"
proof (induction n)
  case 0
  have "skynet_handle_register ctxh ctx (three_slots 4)
      = Some (4, (three_slots 4)\<lparr>slot := [Some ctx, Some 1, Some 2, Some 3], handle_index := 5\<rparr>)"
    by (subst skynet_handle_register.simps)
      (simp add: Let_def arr_get_def arr_set_def HANDLE_MASK_def hash_of_def)
  then show ?case
    by (simp add: churn_def handle_retire_def arr_get_def arr_set_def hash_of_def)
      (simp add: three_slots_def skynet_handle_init_def DEFAULT_SLOT_SIZE_def)
next
  case (Suc n)
  have "unat (of_nat (4 * n + 5) :: u32) = 4 * Suc n + 1"
    using Suc.prems by (subst unat_of_nat) simp
  then have "churn ctxh ctx (three_slots (of_nat (4 * n + 5))) = Some (three_slots (of_nat (4 * n + 5) + 4))"
    using Suc.prems by (intro churn_step [of _ "Suc n"]) simp_all
  moreover have "of_nat (4 * n + 5) + 4 = (of_nat (4 * Suc n + 5) :: u32)" by simp
  ultimately show ?case using Suc by simp
qed


text \<open>
  The room condition is needed.  In a table of four slots where 1, 2 and 3 stay in use,
  let a fourth context be registered and retired again and again: after 4194303 rounds the next
  registration skips handle 0 at the end of the 24-bit range, so it visits slot 1 twice and
  never the free slot 0, decides that the table is full, and reads the handle of the NULL in
  slot 0 while it copies the slots: the process crashes.
\<close>

theorem register_wrap_crash:
  "do { (h1, s1) \<leftarrow> skynet_handle_register of_nat 1 (skynet_handle_init 0);
        (h2, s2) \<leftarrow> skynet_handle_register of_nat 2 s1;
        (h3, s3) \<leftarrow> skynet_handle_register of_nat 3 s2;
        s4 \<leftarrow> churns 4194303 of_nat 4 s3;
        Some (slot s4 ! 0, skynet_handle_register of_nat 4 s4) } = Some (None, None)"
proof -
  define s where "s = three_slots 0xfffffd"
  have c: "churns 4194303 of_nat 4 (three_slots 4) = Some s"
    using churns_state [of 4194302 of_nat 4] by (simp add: s_def)
  have "skynet_handle_register of_nat 4 s = None"
    by (subst skynet_handle_register.simps)
      (simp add: s_def Let_def arr_get_def arr_set_def HANDLE_MASK_def hash_of_def expand_slots_def)
  then show ?thesis using three_registered c by (fastforce simp: bind_eq_Some_conv s_def)
qed

end
