(* ===== verification/CString.thy ===== *)
theory CString
  imports Prelude "HOL-Library.Char_ord" "HOL-Library.List_Lexorder"
begin

text \<open>
  The functions of the C library on strings that the program uses: \<open>sprintf\<close> with \<open>%x\<close>, \<open>%d\<close>
  and \<open>%u\<close>, \<open>strtoul\<close>, \<open>strtol\<close> (\<open>long\<close> has 32 bits, as on Windows), \<open>sscanf\<close> with \<open>%s %s\<close>
  and \<open>strsep\<close>.  A C string is the list of its characters, without the final NUL.
\<close>

section \<open>Printing numbers\<close>

definition hex_digit :: "nat \<Rightarrow> char" where
  "hex_digit d = char_of (if d < 10 then 48 + d else 87 + d)"

definition hex_digit_upper :: "nat \<Rightarrow> char" where
  "hex_digit_upper d = char_of (if d < 10 then 48 + d else 55 + d)"

fun hex_str :: "nat \<Rightarrow> string" where
  "hex_str n = (if n < 16 then [hex_digit n] else hex_str (n div 16) @ [hex_digit (n mod 16)])"

fun dec_str :: "nat \<Rightarrow> string" where
  "dec_str n = (if n < 10 then [hex_digit n] else dec_str (n div 10) @ [hex_digit (n mod 10)])"

declare hex_str.simps [simp del] dec_str.simps [simp del]

definition int_str :: "int \<Rightarrow> string" where
  "int_str i = (if i < 0 then CHR ''-'' # dec_str (nat (- i)) else dec_str (nat i))"

section \<open>Reading numbers\<close>

definition is_space :: "char \<Rightarrow> bool" where
  "is_space c \<longleftrightarrow> of_char c = (32::nat) \<or> 9 \<le> (of_char c :: nat) \<and> (of_char c :: nat) \<le> 13"

definition digit_val :: "nat \<Rightarrow> char \<Rightarrow> nat option" where
  "digit_val base c =
     (let n = (of_char c :: nat);
          v = (if 48 \<le> n \<and> n \<le> 57 then n - 48
               else if 65 \<le> n \<and> n \<le> 90 then n - 55
               else if 97 \<le> n \<and> n \<le> 122 then n - 87 else base)
      in if v < base then Some v else None)"

text \<open>The value of the longest prefix of digits, and what follows it.\<close>

fun read_digits :: "nat \<Rightarrow> string \<Rightarrow> nat \<Rightarrow> nat \<times> string" where
  "read_digits base [] acc = (acc, [])"
| "read_digits base (c # cs) acc =
     (case digit_val base c of
        Some d \<Rightarrow> read_digits base cs (acc * base + d)
      | None \<Rightarrow> (acc, c # cs))"

definition read_sign :: "string \<Rightarrow> bool \<times> string" where
  "read_sign s =
     (case s of
        c # cs \<Rightarrow> if c = CHR ''-'' then (True, cs) else if c = CHR ''+'' then (False, cs) else (False, s)
      | [] \<Rightarrow> (False, s))"

text \<open>\<open>0x\<close> is a prefix only in front of a digit.\<close>

definition skip_0x :: "string \<Rightarrow> string option" where
  "skip_0x s =
     (case s of
        a # b # c # cs \<Rightarrow>
          if a = CHR ''0'' \<and> (b = CHR ''x'' \<or> b = CHR ''X'') \<and> digit_val 16 c \<noteq> None
          then Some (c # cs) else None
      | _ \<Rightarrow> None)"

definition strtoul16 :: "string \<Rightarrow> u32" where
  "strtoul16 s =
     (let (neg, s1) = read_sign (dropWhile is_space s);
          s2 = (case skip_0x s1 of Some t \<Rightarrow> t | None \<Rightarrow> s1);
          v = fst (read_digits 16 s2 0)
      in if v > 0xFFFFFFFF then 0xFFFFFFFF else if neg then - of_nat v else of_nat v)"

definition clamp_long :: "bool \<Rightarrow> nat \<Rightarrow> int" where
  "clamp_long neg v =
     (if neg then max (- (2 ^ 31)) (- int v) else min (2 ^ 31 - 1) (int v))"

definition strtol10 :: "string \<Rightarrow> int" where
  "strtol10 s =
     (let (neg, s1) = read_sign (dropWhile is_space s)
      in clamp_long neg (fst (read_digits 10 s1 0)))"

text \<open>Base 0: the prefix selects 16, 8 or 10.\<close>

definition strtol0 :: "string \<Rightarrow> int" where
  "strtol0 s =
     (let (neg, s1) = read_sign (dropWhile is_space s)
      in clamp_long neg
           (case skip_0x s1 of
              Some t \<Rightarrow> fst (read_digits 16 t 0)
            | None \<Rightarrow> if s1 \<noteq> [] \<and> hd s1 = CHR ''0'' then fst (read_digits 8 s1 0)
                      else fst (read_digits 10 s1 0)))"

section \<open>Splitting\<close>

text \<open>\<open>sscanf(s, "%s %s", a, b)\<close> into zeroed buffers: a missing field stays empty.\<close>

definition scan_word :: "string \<Rightarrow> string \<times> string" where
  "scan_word s = (let t = dropWhile is_space s
     in (takeWhile (\<lambda>c. \<not> is_space c) t, dropWhile (\<lambda>c. \<not> is_space c) t))"

definition scan_two :: "string \<Rightarrow> string \<times> string" where
  "scan_two s = (let (a, r) = scan_word s; (b, _) = scan_word r in (a, b))"

text \<open>\<open>strsep(&p, delim)\<close>: the token, and where \<open>p\<close> points then (\<open>None\<close> for NULL).\<close>

definition strsep :: "string option \<Rightarrow> string \<Rightarrow> string option \<times> string option" where
  "strsep p delim =
     (case p of
        None \<Rightarrow> (None, None)
      | Some s \<Rightarrow>
          (let tok = takeWhile (\<lambda>c. c \<notin> set delim) s; rest = dropWhile (\<lambda>c. c \<notin> set delim) s
           in (Some tok, if rest = [] then None else Some (tl rest))))"

section \<open>Round trips\<close>

lemma of_char_char_of_small: "n < 256 \<Longrightarrow> of_char (char_of n :: char) = n" for n :: nat
  by (simp add: of_char_of)

lemma digit_val_hex: "d < 16 \<Longrightarrow> digit_val 16 (hex_digit d) = Some d"
  by (simp add: digit_val_def hex_digit_def of_char_char_of_small)

lemma digit_val_hex_upper: "d < 16 \<Longrightarrow> digit_val 16 (hex_digit_upper d) = Some d"
  by (simp add: digit_val_def hex_digit_upper_def of_char_char_of_small)

lemma digit_val_dec: "d < 10 \<Longrightarrow> digit_val 10 (hex_digit d) = Some d"
  by (simp add: digit_val_def hex_digit_def of_char_char_of_small)

lemma read_digits_hex:
  "read_digits 16 (hex_str n @ t) acc = read_digits 16 t (acc * 16 ^ length (hex_str n) + n)"
proof (induction n arbitrary: t acc rule: hex_str.induct)
  case (1 n)
  show ?case
  proof (cases "n < 16")
    case True
    then show ?thesis by (simp add: hex_str.simps [of n] digit_val_hex)
  next
    case False
    then show ?thesis using 1 [of "[hex_digit (n mod 16)] @ t" acc]
      by (simp add: hex_str.simps [of n] digit_val_hex ac_simps)
  qed
qed

lemma read_digits_dec:
  "read_digits 10 (dec_str n @ t) acc = read_digits 10 t (acc * 10 ^ length (dec_str n) + n)"
proof (induction n arbitrary: t acc rule: dec_str.induct)
  case (1 n)
  show ?case
  proof (cases "n < 10")
    case True
    then show ?thesis by (simp add: dec_str.simps [of n] digit_val_dec)
  next
    case False
    then show ?thesis using 1 [of "[hex_digit (n mod 10)] @ t" acc]
      by (simp add: dec_str.simps [of n] digit_val_dec ac_simps)
  qed
qed

lemma hex_str_chars: "c \<in> set (hex_str n) \<Longrightarrow> digit_val 16 c \<noteq> None"
  by (induction n rule: hex_str.induct)
    (subst (asm) (2) hex_str.simps, auto split: if_splits simp: digit_val_hex)

lemma digit_char:
  assumes "digit_val 16 c \<noteq> None"
  shows "\<not> is_space c" "c \<noteq> CHR ''-''" "c \<noteq> CHR ''+''" "c \<noteq> CHR ''x''" "c \<noteq> CHR ''X''"
  using assms by (auto simp: digit_val_def is_space_def Let_def split: if_splits)

text \<open>Text made of hexadecimal digits is read as it stands.\<close>

lemma strtoul16_digits:
  assumes "s \<noteq> []" and "\<And>c. c \<in> set s \<Longrightarrow> digit_val 16 c \<noteq> None"
  shows "strtoul16 s = (if fst (read_digits 16 s 0) > 0xFFFFFFFF then 0xFFFFFFFF
     else of_nat (fst (read_digits 16 s 0)))"
proof -
  obtain c cs where s: "s = c # cs" using assms(1) by (cases s) auto
  have c: "\<not> is_space c" "c \<noteq> CHR ''-''" "c \<noteq> CHR ''+''" using digit_char assms(2) s by auto
  have "skip_0x s = None"
  proof -
    have "b \<noteq> CHR ''x''" "b \<noteq> CHR ''X''" if "b \<in> set s" for b using digit_char assms(2) that by blast+
    then show ?thesis unfolding skip_0x_def s by (cases cs; cases "tl cs") (auto split: list.splits)
  qed
  moreover have "read_sign (dropWhile is_space s) = (False, s)" using c by (simp add: s read_sign_def)
  ultimately show ?thesis by (simp add: strtoul16_def)
qed

lemma strtoul16_hex: "strtoul16 (hex_str (unat h)) = h"
proof -
  have ne: "hex_str n \<noteq> []" for n by (subst hex_str.simps) simp
  have "unat h < 2 ^ 32" using unsigned_less [of h] by simp
  then show ?thesis
    using strtoul16_digits [OF ne, of "unat h"] hex_str_chars read_digits_hex [of "unat h" "[]" 0]
    by simp
qed

lemma length_hex_str: "n < 16 ^ Suc k \<Longrightarrow> length (hex_str n) \<le> Suc k"
proof (induction k arbitrary: n)
  case 0
  then show ?case by (simp add: hex_str.simps)
next
  case (Suc k)
  then have "n div 16 < 16 ^ Suc k" by (simp add: div_less_iff_less_mult)
  then show ?case using Suc.IH [of "n div 16"] by (simp add: hex_str.simps [of n])
qed

end
