(* ===== verification/Module.thy ===== *)
theory Module
  imports Prelude
begin

text \<open>
  \<^verbatim>\<open>skynet-src/skynet_module.c\<close>: the registry of service modules.  Opening a shared library and
  looking up a symbol belong to the operating system and are the parameters \<open>dlopen\<close> and
  \<open>dlsym\<close>; a function pointer is the number \<open>dlsym\<close> gives for it.
\<close>

record skynet_module =
  mod_name :: string
  mod_lib :: nat
  mod_create :: "nat option"
  mod_init :: "nat option"
  mod_release :: "nat option"
  mod_signal :: "nat option"

record modules =
  mod_path :: string
  mod_list :: "skynet_module list"

definition MAX_MODULE_TYPE :: nat where "MAX_MODULE_TYPE = 32"

lemma rest_shorter:
  "p = dropWhile (\<lambda>c. c = CHR '';'') path \<Longrightarrow> p \<noteq> [] \<Longrightarrow>
   length (dropWhile (\<lambda>c. c \<noteq> CHR '';'') p) < length path"
proof -
  assume p: "p = dropWhile (\<lambda>c. c = CHR '';'') path" "p \<noteq> []"
  then have "hd p \<noteq> CHR '';''" using hd_dropWhile [of "\<lambda>c. c = CHR '';''" path] by simp
  with p(2) obtain c cs where c: "p = c # cs" "c \<noteq> CHR '';''" by (cases p) auto
  have "length (dropWhile (\<lambda>c. c \<noteq> CHR '';'') p) \<le> length cs"
    using c by (simp add: length_dropWhile_le)
  also have "\<dots> < length p" using c by simp
  also have "\<dots> \<le> length path" unfolding p(1) by (rule length_dropWhile_le)
  finally show ?thesis .
qed

text \<open>The search of \<open>_try_open\<close>.  A segment of the path without \<open>?\<close> makes the code exit the
  process: \<open>None\<close>.\<close>

function try_open :: "(string \<Rightarrow> nat option) \<Rightarrow> string \<Rightarrow> string \<Rightarrow> nat option option" where
  "try_open dlopen path name =
     (let p = dropWhile (\<lambda>c. c = CHR '';'') path in
      if p = [] then Some None
      else let seg = takeWhile (\<lambda>c. c \<noteq> CHR '';'') p;
               rest = dropWhile (\<lambda>c. c \<noteq> CHR '';'') p;
               pre = takeWhile (\<lambda>c. c \<noteq> CHR ''?'') seg;
               post = dropWhile (\<lambda>c. c \<noteq> CHR ''?'') seg
           in if post = [] then None
              else case dlopen (pre @ name @ tl post) of
                     Some dl \<Rightarrow> Some (Some dl)
                   | None \<Rightarrow> try_open dlopen rest name)"
  by pat_completeness auto

termination
  by (relation "measure (\<lambda>(_, path, _). length path)") (auto intro: rest_shorter)

declare try_open.simps [simp del]

fun find_module :: "nat \<Rightarrow> string \<Rightarrow> skynet_module list \<Rightarrow> nat option" where
  "find_module i name [] = None"
| "find_module i name (m # ms) = (if mod_name m = name then Some i else find_module (Suc i) name ms)"

definition query_module :: "string \<Rightarrow> modules \<Rightarrow> nat option" where
  "query_module name M = find_module 0 name (mod_list M)"

text \<open>The symbol name: what follows the last dot of the module name and the suffix.\<close>

definition api_name :: "string \<Rightarrow> string \<Rightarrow> string" where
  "api_name name suffix =
     (let tmp = name @ suffix
      in if CHR ''.'' \<in> set tmp then rev (takeWhile (\<lambda>c. c \<noteq> CHR ''.'') (rev tmp)) else tmp)"

definition open_sym :: "(nat \<Rightarrow> string \<Rightarrow> nat option) \<Rightarrow> skynet_module \<Rightarrow> bool \<times> skynet_module" where
  "open_sym dlsym m =
     (let get_api = (\<lambda>s. dlsym (mod_lib m) (api_name (mod_name m) s));
          m' = m\<lparr>mod_create := get_api ''_create'', mod_init := get_api ''_init'',
                 mod_release := get_api ''_release'', mod_signal := get_api ''_signal''\<rparr>
      in (mod_init m' = None, m'))"

definition skynet_module_query ::
  "(string \<Rightarrow> nat option) \<Rightarrow> (nat \<Rightarrow> string \<Rightarrow> nat option) \<Rightarrow> string \<Rightarrow> modules
   \<Rightarrow> (nat option \<times> modules) option" where
  "skynet_module_query dlopen dlsym name M =
     (case query_module name M of
        Some i \<Rightarrow> Some (Some i, M)
      | None \<Rightarrow>
          if length (mod_list M) < MAX_MODULE_TYPE then do {
            dl \<leftarrow> try_open dlopen (mod_path M) name;
            (case dl of
               None \<Rightarrow> Some (None, M)
             | Some lib \<Rightarrow>
                 let (failed, m) = open_sym dlsym
                       \<lparr>mod_name = name, mod_lib = lib, mod_create = None, mod_init = None,
                        mod_release = None, mod_signal = None\<rparr>
                 in if \<not> failed
                    then Some (Some (length (mod_list M)), M\<lparr>mod_list := mod_list M @ [m]\<rparr>)
                    else Some (None, M)) }
          else Some (None, M))"

definition skynet_module_insert :: "skynet_module \<Rightarrow> modules \<Rightarrow> modules option" where
  "skynet_module_insert m M = do {
     assert_that (query_module (mod_name m) M = None \<and> length (mod_list M) < MAX_MODULE_TYPE);
     Some (M\<lparr>mod_list := mod_list M @ [m]\<rparr>) }"

definition skynet_module_init :: "string \<Rightarrow> modules" where
  "skynet_module_init path = \<lparr>mod_path = path, mod_list = []\<rparr>"

section \<open>The registry\<close>

definition modules_ok :: "modules \<Rightarrow> bool" where
  "modules_ok M \<longleftrightarrow> length (mod_list M) \<le> MAX_MODULE_TYPE \<and> distinct (map mod_name (mod_list M))
     \<and> list_all (\<lambda>m. mod_init m \<noteq> None) (mod_list M)"

lemma find_module_Some:
  "find_module i name ms = Some j \<longleftrightarrow>
     i \<le> j \<and> j < i + length ms \<and> mod_name (ms ! (j - i)) = name \<and>
     (\<forall>l < j - i. mod_name (ms ! l) \<noteq> name)"
proof (induction ms arbitrary: i)
  case Nil
  then show ?case by auto
next
  case (Cons m ms)
  show ?case
  proof (cases "mod_name m = name")
    case True
    then show ?thesis by (auto simp: nth_Cons split: nat.splits)
  next
    case False
    have "Suc i \<le> j \<Longrightarrow> j - i = Suc (j - Suc i)" by simp
    then show ?thesis using False Cons [of "Suc i"]
      by (cases "Suc i \<le> j") (auto simp: All_less_Suc2 nth_Cons split: nat.splits)
  qed
qed

lemma find_module_None: "find_module i name ms = None \<longleftrightarrow> name \<notin> mod_name ` set ms"
  by (induction ms arbitrary: i) auto

lemma find_module_append:
  "find_module i name (ms @ ns) =
     (case find_module i name ms of Some j \<Rightarrow> Some j | None \<Rightarrow> find_module (i + length ms) name ns)"
  by (induction ms arbitrary: i) (auto split: option.split)

text \<open>
  A module is loaded at most once: when a query returns a module, the registry keeps its
  invariant (at most 32 modules, distinct names, each with an init function), the module has the
  requested name, no earlier module moves, and every later query of the same name returns the
  same module without opening a library (whatever \<open>dlopen\<close> would give) and changes nothing.
\<close>

theorem module_loaded_once:
  assumes "modules_ok M" and "skynet_module_query dlopen dlsym name M = Some (Some i, M')"
  shows "modules_ok M' \<and> i < length (mod_list M') \<and> mod_name (mod_list M' ! i) = name \<and>
    take (length (mod_list M)) (mod_list M') = mod_list M \<and>
    skynet_module_query dlopen' dlsym' name M' = Some (Some i, M')"
proof (cases "query_module name M")
  case (Some j)
  have "j = i" "M' = M" using Some assms(2) by (simp_all add: skynet_module_query_def)
  moreover have "i < length (mod_list M) \<and> mod_name (mod_list M ! i) = name"
    using Some \<open>j = i\<close> by (simp add: query_module_def find_module_Some)
  ultimately show ?thesis using Some assms(1) by (simp add: skynet_module_query_def)
next
  case None
  with assms(2) obtain lib where len: "length (mod_list M) < MAX_MODULE_TYPE"
    and r: "(let (failed, m) = open_sym dlsym
           \<lparr>mod_name = name, mod_lib = lib, mod_create = None, mod_init = None,
            mod_release = None, mod_signal = None\<rparr>
      in if \<not> failed then Some (Some (length (mod_list M)), M\<lparr>mod_list := mod_list M @ [m]\<rparr>)
         else Some (None, M)) = Some (Some i, M')"
    by (auto simp: skynet_module_query_def bind_eq_Some_conv split: if_splits option.splits)
  define m where "m = snd (open_sym dlsym
           \<lparr>mod_name = name, mod_lib = lib, mod_create = None, mod_init = None,
            mod_release = None, mod_signal = None\<rparr>)"
  have m: "mod_name m = name" "mod_init m \<noteq> None" "M' = M\<lparr>mod_list := mod_list M @ [m]\<rparr>"
    and i: "i = length (mod_list M)"
    using r by (auto simp: m_def open_sym_def Let_def split: if_splits)
  have new: "find_module 0 name (mod_list M) = None" using None by (simp add: query_module_def)
  then have "modules_ok M'"
    using assms(1) m len by (auto simp: modules_ok_def find_module_None)
  moreover have "query_module name M' = Some i"
    using m i new by (simp add: query_module_def find_module_append)
  ultimately show ?thesis using m i by (simp add: skynet_module_query_def nth_append)
qed

lemma module_loaded_once_witness:
  "let M' = \<lparr>mod_path = ''./?.dll'', mod_list = [\<lparr>mod_name = ''gate'', mod_lib = 7, mod_create = Some 1,
       mod_init = Some 1, mod_release = Some 1, mod_signal = Some 1\<rparr>]\<rparr>
   in skynet_module_query (\<lambda>f. None) (\<lambda>_ _. None) ''gate'' M' = Some (Some 0, M')"
proof -
  have ok: "modules_ok (skynet_module_init ''./?.dll'')"
    by (simp add: modules_ok_def skynet_module_init_def)
  have q: "skynet_module_query (\<lambda>f. if f = ''./gate.dll'' then Some 7 else None) (\<lambda>_ _. Some 1) ''gate''
      (skynet_module_init ''./?.dll'') = Some (Some 0, \<lparr>mod_path = ''./?.dll'',
        mod_list = [\<lparr>mod_name = ''gate'', mod_lib = 7, mod_create = Some 1,
       mod_init = Some 1, mod_release = Some 1, mod_signal = Some 1\<rparr>]\<rparr>)"
    by (simp add: skynet_module_query_def query_module_def skynet_module_init_def MAX_MODULE_TYPE_def
        try_open.simps [of _ "''./?.dll''"] open_sym_def)
  show ?thesis unfolding Let_def using module_loaded_once [OF ok q] by blast
qed

end
