(* ===== verification/Server.thy ===== *)
theory Server
  imports Module Timer HandleStorage CString
begin

text \<open>
  \<^verbatim>\<open>skynet-src/skynet_server.c\<close> with \<^verbatim>\<open>skynet_harbor.c\<close>, \<^verbatim>\<open>skynet_monitor.c\<close>, \<^verbatim>\<open>skynet_error.c\<close>
  and \<^verbatim>\<open>skynet_env.c\<close>: the node, its services (contexts), and the sending and dispatching of
  messages.  The commands are in \<open>Command\<close>.

  The node extends the state of the message queues.  Contexts, message blocks and remote
  messages are three maps from addresses; \<open>malloc\<close> gives the address \<open>next_addr\<close>, which no
  object had before.  Following a dangling pointer, freeing twice and a failed \<open>assert\<close> are
  \<open>None\<close>.  What a loaded service does (its callback and its module functions), the dynamic
  linker, the file system and the clock are the fields of a \<open>host\<close>, functions on the node that
  every operation takes as a parameter.  Locks are not modelled.
\<close>

section \<open>Data\<close>

record skynet_context =
  c_instance :: addr
  c_mod :: nat
  c_cb_ud :: addr
  c_cb :: "nat option"
  c_queue :: addr
  c_logfile :: addr
  c_cpu_cost :: u64
  c_cpu_start :: u64
  c_result :: string
  c_handle :: handle
  c_session_id :: u32
  c_ref :: u32
  c_message_count :: u32
  c_init :: bool
  c_endless :: bool
  c_profile :: bool

record remote_message =
  rm_name :: string
  rm_handle :: handle
  rm_message :: addr
  rm_sz :: u64
  rm_type :: u64

record skynet_monitor =
  mon_version :: u32
  mon_check_version :: u32
  mon_source :: handle
  mon_destination :: handle

record node = mq_state +
  ctxs :: "addr \<rightharpoonup> skynet_context"
  mem :: "addr \<rightharpoonup> u8 list"
  rmsgs :: "addr \<rightharpoonup> remote_message"
  files :: "addr set"
  next_addr :: addr
  storage :: handle_storage
  wheel :: timer
  mods :: modules
  env :: "string \<rightharpoonup> string"
  mons :: "nat \<Rightarrow> skynet_monitor"
  total :: u32
  monitor_exit :: handle
  node_profile :: bool
  thread_handle :: handle
  remote :: "addr option"
  node_harbor :: u32
  logger :: handle

record 'n host =
  h_cb :: "nat \<Rightarrow> addr \<Rightarrow> addr \<Rightarrow> u64 \<Rightarrow> u32 \<Rightarrow> handle \<Rightarrow> addr \<Rightarrow> u64 \<Rightarrow> 'n \<Rightarrow> (int \<times> 'n) option"
  h_create :: "nat \<Rightarrow> 'n \<Rightarrow> (addr \<times> 'n) option"
  h_init :: "nat \<Rightarrow> addr \<Rightarrow> addr \<Rightarrow> string option \<Rightarrow> 'n \<Rightarrow> (int \<times> 'n) option"
  h_release :: "nat \<Rightarrow> addr \<Rightarrow> 'n \<Rightarrow> 'n option"
  h_signal :: "nat \<Rightarrow> addr \<Rightarrow> int \<Rightarrow> 'n \<Rightarrow> 'n option"
  h_dlopen :: "string \<Rightarrow> nat option"
  h_dlsym :: "nat \<Rightarrow> string \<Rightarrow> nat option"
  h_fopen :: "string \<Rightarrow> 'n \<Rightarrow> bool"
  h_clock :: "'n \<Rightarrow> u64 \<times> u64"
  h_lf :: "u64 \<Rightarrow> string"

definition PTYPE_TEXT :: u64 where "PTYPE_TEXT = 0"
definition PTYPE_CLIENT :: u32 where "PTYPE_CLIENT = 3"
definition PTYPE_SYSTEM :: u64 where "PTYPE_SYSTEM = 4"
definition PTYPE_HARBOR :: u64 where "PTYPE_HARBOR = 5"
definition PTYPE_ERROR :: u32 where "PTYPE_ERROR = 7"
definition PTYPE_TAG_DONTCOPY :: u32 where "PTYPE_TAG_DONTCOPY = 0x10000"
definition PTYPE_TAG_ALLOCSESSION :: u32 where "PTYPE_TAG_ALLOCSESSION = 0x20000"

definition MESSAGE_TYPE_MASK :: u64 where "MESSAGE_TYPE_MASK = drop_bit 8 (- 1)"
definition GLOBALNAME_LENGTH :: nat where "GLOBALNAME_LENGTH = 16"
definition SIZEOF_REMOTE_MESSAGE :: u64 where "SIZEOF_REMOTE_MESSAGE = 48"

section \<open>Memory\<close>

definition bytes_of :: "string \<Rightarrow> u8 list" where
  "bytes_of s = map (\<lambda>c. of_nat (of_char c)) s"

definition mem_new :: "u8 list \<Rightarrow> node \<Rightarrow> addr \<times> node" where
  "mem_new b N = (next_addr N, N\<lparr>mem := (mem N)(next_addr N \<mapsto> b), next_addr := next_addr N + 1\<rparr>)"

text \<open>\<open>skynet_free\<close> of a message: a message block or a remote message; nothing for NULL.\<close>

definition mem_free :: "addr \<Rightarrow> node \<Rightarrow> node option" where
  "mem_free a N =
     (if a = 0 then Some N
      else if a \<in> dom (mem N) then Some (N\<lparr>mem := (mem N)(a := None)\<rparr>)
      else if a \<in> dom (rmsgs N) then Some (N\<lparr>rmsgs := (rmsgs N)(a := None)\<rparr>)
      else None)"

definition put_ctx :: "addr \<Rightarrow> skynet_context \<Rightarrow> node \<Rightarrow> node" where
  "put_ctx a c N = N\<lparr>ctxs := (ctxs N)(a \<mapsto> c)\<rparr>"

text \<open>\<open>skynet_context_handle\<close>, for the handle table.\<close>

definition handle_of :: "node \<Rightarrow> addr \<Rightarrow> handle" where
  "handle_of N a = (case ctxs N a of Some c \<Rightarrow> c_handle c | None \<Rightarrow> 0)"

section \<open>References\<close>

definition context_inc :: "node \<Rightarrow> node" where "context_inc N = N\<lparr>total := total N + 1\<rparr>"
definition context_dec :: "node \<Rightarrow> node" where "context_dec N = N\<lparr>total := total N - 1\<rparr>"

definition skynet_context_grab :: "addr \<Rightarrow> node \<Rightarrow> node option" where
  "skynet_context_grab a N = do {
     c \<leftarrow> ctxs N a;
     Some (put_ctx a (c\<lparr>c_ref := c_ref c + 1\<rparr>) N) }"

definition skynet_context_reserve :: "addr \<Rightarrow> node \<Rightarrow> node option" where
  "skynet_context_reserve a N = do {
     N1 \<leftarrow> skynet_context_grab a N;
     Some (context_dec N1) }"

definition skynet_module_instance_release :: "node host \<Rightarrow> nat \<Rightarrow> addr \<Rightarrow> node \<Rightarrow> node option" where
  "skynet_module_instance_release H m inst N = do {
     md \<leftarrow> arr_get (mod_list (mods N)) m;
     (case mod_release md of Some f \<Rightarrow> h_release H f inst N | None \<Rightarrow> Some N) }"

definition delete_context :: "node host \<Rightarrow> addr \<Rightarrow> node \<Rightarrow> node option" where
  "delete_context H a N = do {
     c \<leftarrow> ctxs N a;
     N1 \<leftarrow> (if c_logfile c \<noteq> 0
           then do { assert_that (c_logfile c \<in> files N); Some (N\<lparr>files := files N - {c_logfile c}\<rparr>) }
           else Some N);
     N2 \<leftarrow> skynet_module_instance_release H (c_mod c) (c_instance c) N1;
     N3 \<leftarrow> skynet_mq_mark_release (c_queue c) N2;
     Some (context_dec (N3\<lparr>ctxs := (ctxs N3)(a := None)\<rparr>)) }"

definition skynet_context_release :: "node host \<Rightarrow> addr \<Rightarrow> node \<Rightarrow> (addr option \<times> node) option" where
  "skynet_context_release H a N = do {
     c \<leftarrow> ctxs N a;
     let N1 = put_ctx a (c\<lparr>c_ref := c_ref c - 1\<rparr>) N;
     if c_ref c - 1 = 0 then do { N2 \<leftarrow> delete_context H a N1; Some (None, N2) }
     else Some (Some a, N1) }"

definition skynet_handle_grab :: "handle \<Rightarrow> node \<Rightarrow> (addr option \<times> node) option" where
  "skynet_handle_grab h N = do {
     r \<leftarrow> handle_grab (handle_of N) h (storage N);
     (case r of
        None \<Rightarrow> Some (None, N)
      | Some a \<Rightarrow> do { N1 \<leftarrow> skynet_context_grab a N; Some (Some a, N1) }) }"

definition skynet_handle_retire :: "node host \<Rightarrow> handle \<Rightarrow> node \<Rightarrow> (int \<times> node) option" where
  "skynet_handle_retire H h N = do {
     (ret, c, st) \<leftarrow> handle_retire (handle_of N) h (storage N);
     let N1 = N\<lparr>storage := st\<rparr>;
     (case c of
        None \<Rightarrow> Some (ret, N1)
      | Some a \<Rightarrow> do { (_, N2) \<leftarrow> skynet_context_release H a N1; Some (ret, N2) }) }"

text \<open>One pass over the slots: the number of contexts it retired.  The size is read again in
  every round, as the release of a context may change the table.\<close>

partial_function (option) retire_pass :: "node host \<Rightarrow> nat \<Rightarrow> nat \<Rightarrow> node \<Rightarrow> (nat \<times> node) option" where
  "retire_pass H i n N =
     (if i < slot_size (storage N) then do {
        c \<leftarrow> arr_get (slot (storage N)) i;
        let h = (case c of Some a \<Rightarrow> handle_of N a | None \<Rightarrow> 0);
        if h \<noteq> 0 then do {
          (r, N1) \<leftarrow> skynet_handle_retire H h N;
          retire_pass H (i + 1) (if r \<noteq> 0 then n + 1 else n) N1 }
        else retire_pass H (i + 1) n N }
      else Some (n, N))"

partial_function (option) skynet_handle_retireall :: "node host \<Rightarrow> node \<Rightarrow> node option" where
  "skynet_handle_retireall H N = do {
     (n, N1) \<leftarrow> retire_pass H 0 0 N;
     if n = 0 then Some N1 else skynet_handle_retireall H N1 }"

section \<open>Pushing messages\<close>

definition skynet_context_push ::
  "node host \<Rightarrow> handle \<Rightarrow> skynet_message \<Rightarrow> node \<Rightarrow> (int \<times> node) option" where
  "skynet_context_push H h m N = do {
     (r, N1) \<leftarrow> skynet_handle_grab h N;
     (case r of
        None \<Rightarrow> Some (- 1, N1)
      | Some a \<Rightarrow> do {
          c \<leftarrow> ctxs N1 a;
          N2 \<leftarrow> skynet_mq_push (c_queue c) m N1;
          (_, N3) \<leftarrow> skynet_context_release H a N2;
          Some (0, N3) }) }"

definition skynet_context_send ::
  "addr \<Rightarrow> addr \<Rightarrow> u64 \<Rightarrow> handle \<Rightarrow> u64 \<Rightarrow> u32 \<Rightarrow> node \<Rightarrow> node option" where
  "skynet_context_send a msg sz source type session N = do {
     c \<leftarrow> ctxs N a;
     skynet_mq_push (c_queue c) \<lparr>m_source = source, m_session = session, m_data = msg,
       m_sz = sz OR push_bit MESSAGE_TYPE_SHIFT type\<rparr> N }"

text \<open>\<open>skynet_error\<close>: the text is already formatted; the block holds it with its NUL.\<close>

definition skynet_error :: "node host \<Rightarrow> addr option \<Rightarrow> string \<Rightarrow> node \<Rightarrow> node option" where
  "skynet_error H ctx text N = do {
     N1 \<leftarrow> (if logger N = 0
           then do { h \<leftarrow> skynet_handle_findname ''logger'' (storage N); Some (N\<lparr>logger := h\<rparr>) }
           else Some N);
     if logger N1 = 0 then Some N1
     else do {
       let (data, N2) = mem_new (bytes_of text @ [0]) N1;
       source \<leftarrow> (case ctx of None \<Rightarrow> Some 0 | Some a \<Rightarrow> do { c \<leftarrow> ctxs N2 a; Some (c_handle c) });
       (_, N3) \<leftarrow> skynet_context_push H (logger N1)
          \<lparr>m_source = source, m_session = 0, m_data = data,
           m_sz = of_nat (length text) OR push_bit MESSAGE_TYPE_SHIFT PTYPE_TEXT\<rparr> N2;
       Some N3 } }"

definition skynet_timeout :: "node host \<Rightarrow> handle \<Rightarrow> int \<Rightarrow> u32 \<Rightarrow> node \<Rightarrow> (int \<times> node) option" where
  "skynet_timeout H h time session N =
     (if time \<le> 0 then do {
        (r, N1) \<leftarrow> skynet_context_push H h
          \<lparr>m_source = 0, m_session = session, m_data = 0,
           m_sz = push_bit MESSAGE_TYPE_SHIFT PTYPE_RESPONSE\<rparr> N;
        Some (if r \<noteq> 0 then - 1 else sint session, N1) }
      else Some (sint session, N\<lparr>wheel := timer_add h session (of_int time) (wheel N)\<rparr>))"

section \<open>The harbor\<close>

definition invalid_type :: "u64 \<Rightarrow> bool" where
  "invalid_type type \<longleftrightarrow> type \<noteq> PTYPE_SYSTEM \<and> type \<noteq> PTYPE_HARBOR"

definition skynet_harbor_send :: "addr \<Rightarrow> handle \<Rightarrow> u32 \<Rightarrow> node \<Rightarrow> node option" where
  "skynet_harbor_send rmsg source session N = do {
     r \<leftarrow> rmsgs N rmsg;
     assert_that (invalid_type (rm_type r));
     a \<leftarrow> remote N;
     skynet_context_send a rmsg SIZEOF_REMOTE_MESSAGE source PTYPE_SYSTEM session N }"

definition skynet_harbor_message_isremote :: "handle \<Rightarrow> node \<Rightarrow> bool option" where
  "skynet_harbor_message_isremote h N = do {
     assert_that (node_harbor N \<noteq> - 1);
     let hb = h AND NOT HANDLE_MASK;
     Some (hb \<noteq> node_harbor N \<and> hb \<noteq> 0) }"

definition skynet_harbor_init :: "int \<Rightarrow> node \<Rightarrow> node" where
  "skynet_harbor_init harbor N = N\<lparr>node_harbor := push_bit HANDLE_REMOTE_SHIFT (of_int harbor)\<rparr>"

definition skynet_harbor_start :: "addr \<Rightarrow> node \<Rightarrow> node option" where
  "skynet_harbor_start a N = do {
     N1 \<leftarrow> skynet_context_reserve a N;
     Some (N1\<lparr>remote := Some a\<rparr>) }"

definition skynet_harbor_exit :: "node host \<Rightarrow> node \<Rightarrow> node option" where
  "skynet_harbor_exit H N =
     (case remote N of
        None \<Rightarrow> Some N
      | Some a \<Rightarrow> do { (_, N1) \<leftarrow> skynet_context_release H a (N\<lparr>remote := None\<rparr>); Some N1 })"

definition skynet_isremote :: "handle \<Rightarrow> node \<Rightarrow> (bool \<times> u32) option" where
  "skynet_isremote h N = do {
     r \<leftarrow> skynet_harbor_message_isremote h N;
     Some (r, drop_bit HANDLE_REMOTE_SHIFT h) }"

section \<open>Sending\<close>

text \<open>A positive number always; \<open>++\<close> on the \<open>int\<close> wraps to a negative one.\<close>

definition skynet_context_newsession :: "addr \<Rightarrow> node \<Rightarrow> (u32 \<times> node) option" where
  "skynet_context_newsession a N = do {
     c \<leftarrow> ctxs N a;
     let session = c_session_id c + 1;
     (if session \<le>s 0 then Some (1, put_ctx a (c\<lparr>c_session_id := 1\<rparr>) N)
      else Some (session, put_ctx a (c\<lparr>c_session_id := session\<rparr>) N)) }"

definition dont_copy :: "u32 \<Rightarrow> bool" where
  "dont_copy type \<longleftrightarrow> type AND PTYPE_TAG_DONTCOPY \<noteq> 0"

text \<open>The new session, data and size.  A copy reads \<open>sz\<close> bytes and appends a NUL.\<close>

definition filter_args ::
  "addr option \<Rightarrow> u32 \<Rightarrow> u32 \<Rightarrow> addr \<Rightarrow> u64 \<Rightarrow> node \<Rightarrow> (u32 \<times> addr \<times> u64 \<times> node) option" where
  "filter_args ctx type session data sz N = do {
     (session1, N1) \<leftarrow> (if type AND PTYPE_TAG_ALLOCSESSION \<noteq> 0 then do {
          assert_that (session = 0);
          a \<leftarrow> ctx;
          skynet_context_newsession a N }
        else Some (session, N));
     (data1, N2) \<leftarrow> (if \<not> dont_copy type \<and> data \<noteq> 0 then do {
          b \<leftarrow> mem N1 data;
          assert_that (unat sz \<le> length b);
          Some (mem_new (take (unat sz) b @ [0]) N1) }
        else Some (data, N1));
     Some (session1, data1, sz OR push_bit MESSAGE_TYPE_SHIFT (ucast (type AND 0xff)), N2) }"

definition new_rmsg :: "remote_message \<Rightarrow> node \<Rightarrow> addr \<times> node" where
  "new_rmsg r N = (next_addr N, N\<lparr>rmsgs := (rmsgs N)(next_addr N \<mapsto> r), next_addr := next_addr N + 1\<rparr>)"

definition skynet_send ::
  "node host \<Rightarrow> addr option \<Rightarrow> handle \<Rightarrow> handle \<Rightarrow> u32 \<Rightarrow> u32 \<Rightarrow> addr \<Rightarrow> u64 \<Rightarrow> node \<Rightarrow> (int \<times> node) option" where
  "skynet_send H ctx source0 destination type session0 data0 sz0 N =
     (if sz0 AND MESSAGE_TYPE_MASK \<noteq> sz0 then do {
        N1 \<leftarrow> skynet_error H ctx (''The message to '' @ hex_str (unat destination) @ '' is too large'') N;
        N2 \<leftarrow> (if dont_copy type then mem_free data0 N1 else Some N1);
        Some (- 2, N2) }
      else do {
        (session, data, sz, N1) \<leftarrow> filter_args ctx type session0 data0 sz0 N;
        source \<leftarrow> (if source0 = 0 then do { a \<leftarrow> ctx; c \<leftarrow> ctxs N1 a; Some (c_handle c) }
                  else Some source0);
        if destination = 0 then
          if data \<noteq> 0 then do {
            N2 \<leftarrow> skynet_error H ctx ''Destination address can't be 0'' N1;
            N3 \<leftarrow> mem_free data N2;
            Some (- 1, N3) }
          else Some (sint session, N1)
        else do {
          rem \<leftarrow> skynet_harbor_message_isremote destination N1;
          if rem then do {
            let (r, N2) = new_rmsg \<lparr>rm_name = [], rm_handle = destination, rm_message = data,
                  rm_sz = sz AND MESSAGE_TYPE_MASK, rm_type = drop_bit MESSAGE_TYPE_SHIFT sz\<rparr> N1;
            N3 \<leftarrow> skynet_harbor_send r source session N2;
            Some (sint session, N3) }
          else do {
            (ret, N2) \<leftarrow> skynet_context_push H destination
               \<lparr>m_source = source, m_session = session, m_data = data, m_sz = sz\<rparr> N1;
            if ret \<noteq> 0 then do { N3 \<leftarrow> mem_free data N2; Some (- 1, N3) }
            else Some (sint session, N2) } } })"

text \<open>The name of a remote destination: at most 16 characters, padded with NUL.\<close>

definition copy_name :: "string \<Rightarrow> string" where
  "copy_name a = (let n = take GLOBALNAME_LENGTH a
     in n @ replicate (GLOBALNAME_LENGTH - length n) (CHR 0x00))"

text \<open>\<open>addr[0]\<close> and \<open>addr + 1\<close>: the empty string starts with its NUL.\<close>

definition first_char :: "string \<Rightarrow> char" where
  "first_char s = (case s of c # _ \<Rightarrow> c | [] \<Rightarrow> CHR 0x00)"

definition skynet_sendname ::
  "node host \<Rightarrow> addr option \<Rightarrow> handle \<Rightarrow> string \<Rightarrow> u32 \<Rightarrow> u32 \<Rightarrow> addr \<Rightarrow> u64 \<Rightarrow> node \<Rightarrow> (int \<times> node) option" where
  "skynet_sendname H ctx source0 name type session0 data0 sz0 N = do {
     source \<leftarrow> (if source0 = 0 then do { a \<leftarrow> ctx; c \<leftarrow> ctxs N a; Some (c_handle c) }
               else Some source0);
     if first_char name = CHR '':'' then
       skynet_send H ctx source (strtoul16 (tl name)) type session0 data0 sz0 N
     else if first_char name = CHR ''.'' then do {
       des \<leftarrow> skynet_handle_findname (tl name) (storage N);
       if des = 0 then do {
         N1 \<leftarrow> (if dont_copy type then mem_free data0 N else Some N);
         Some (- 1, N1) }
       else skynet_send H ctx source des type session0 data0 sz0 N }
     else if sz0 AND MESSAGE_TYPE_MASK \<noteq> sz0 then do {
       N1 \<leftarrow> skynet_error H ctx (''The message to '' @ name @ '' is too large'') N;
       N2 \<leftarrow> (if dont_copy type then mem_free data0 N1 else Some N1);
       Some (- 2, N2) }
     else do {
       (session, data, sz, N1) \<leftarrow> filter_args ctx type session0 data0 sz0 N;
       let (r, N2) = new_rmsg \<lparr>rm_name = copy_name name, rm_handle = 0, rm_message = data,
             rm_sz = sz AND MESSAGE_TYPE_MASK, rm_type = drop_bit MESSAGE_TYPE_SHIFT sz\<rparr> N1;
       N3 \<leftarrow> skynet_harbor_send r source session N2;
       Some (sint session, N3) } }"

section \<open>Monitoring\<close>

definition skynet_monitor_new :: skynet_monitor where
  "skynet_monitor_new = \<lparr>mon_version = 0, mon_check_version = 0, mon_source = 0, mon_destination = 0\<rparr>"

definition skynet_monitor_trigger :: "nat \<Rightarrow> handle \<Rightarrow> handle \<Rightarrow> node \<Rightarrow> node" where
  "skynet_monitor_trigger sm source destination N =
     (let m = mons N sm
      in N\<lparr>mons := (mons N)(sm := m\<lparr>mon_source := source, mon_destination := destination,
             mon_version := mon_version m + 1\<rparr>)\<rparr>)"

definition skynet_context_endless :: "node host \<Rightarrow> handle \<Rightarrow> node \<Rightarrow> node option" where
  "skynet_context_endless H h N = do {
     (r, N1) \<leftarrow> skynet_handle_grab h N;
     (case r of
        None \<Rightarrow> Some N1
      | Some a \<Rightarrow> do {
          c \<leftarrow> ctxs N1 a;
          (_, N2) \<leftarrow> skynet_context_release H a (put_ctx a (c\<lparr>c_endless := True\<rparr>) N1);
          Some N2 }) }"

definition hex8 :: "u32 \<Rightarrow> string" where
  "hex8 h = (let s = hex_str (unat h) in replicate (8 - length s) (CHR ''0'') @ s)"

definition skynet_monitor_check :: "node host \<Rightarrow> nat \<Rightarrow> node \<Rightarrow> node option" where
  "skynet_monitor_check H sm N =
     (let m = mons N sm in
      if mon_version m = mon_check_version m then
        if mon_destination m \<noteq> 0 then do {
          N1 \<leftarrow> skynet_context_endless H (mon_destination m) N;
          skynet_error H None (''A message from [ :'' @ hex8 (mon_source m) @ '' ] to [ :''
            @ hex8 (mon_destination m) @ '' ] maybe in an endless loop (version = ''
            @ int_str (sint (mon_version m)) @ '')'') N1 }
        else Some N
      else Some (N\<lparr>mons := (mons N)(sm := m\<lparr>mon_check_version := mon_version m\<rparr>)\<rparr>))"

section \<open>Dispatching\<close>

definition drop_message :: "node host \<Rightarrow> handle \<Rightarrow> skynet_message \<Rightarrow> node \<Rightarrow> node option" where
  "drop_message H h m N = do {
     N1 \<leftarrow> mem_free (m_data m) N;
     assert_that (h \<noteq> 0);
     (_, N2) \<leftarrow> skynet_send H None h (m_source m) PTYPE_ERROR 0 0 0 N1;
     Some N2 }"

text \<open>The log of a service is output only and is left out.\<close>

definition dispatch_message :: "node host \<Rightarrow> addr \<Rightarrow> skynet_message \<Rightarrow> node \<Rightarrow> node option" where
  "dispatch_message H a m N = do {
     c \<leftarrow> ctxs N a;
     assert_that (c_init c);
     let type = drop_bit MESSAGE_TYPE_SHIFT (m_sz m);
     let sz = m_sz m AND MESSAGE_TYPE_MASK;
     let N1 = put_ctx a (c\<lparr>c_message_count := c_message_count c + 1\<rparr>) (N\<lparr>thread_handle := c_handle c\<rparr>);
     cb \<leftarrow> c_cb c;
     (reserve, N3) \<leftarrow> (if c_profile c then do {
          let start = skynet_thread_time (h_clock H N1);
          let N2 = put_ctx a (c\<lparr>c_message_count := c_message_count c + 1, c_cpu_start := start\<rparr>) N1;
          (r, N3) \<leftarrow> h_cb H cb a (c_cb_ud c) type (m_session m) (m_source m) (m_data m) sz N2;
          c3 \<leftarrow> ctxs N3 a;
          let cost = skynet_thread_time (h_clock H N3) - c_cpu_start c3;
          Some (r, put_ctx a (c3\<lparr>c_cpu_cost := c_cpu_cost c3 + cost\<rparr>) N3) }
        else h_cb H cb a (c_cb_ud c) type (m_session m) (m_source m) (m_data m) sz N1);
     if reserve = 0 then mem_free (m_data m) N3 else Some N3 }"

partial_function (option) dispatchall_loop :: "node host \<Rightarrow> addr \<Rightarrow> addr \<Rightarrow> node \<Rightarrow> node option" where
  "dispatchall_loop H a q N = do {
     (r, N1) \<leftarrow> skynet_mq_pop q N;
     (case r of
        None \<Rightarrow> Some N1
      | Some m \<Rightarrow> do { N2 \<leftarrow> dispatch_message H a m N1; dispatchall_loop H a q N2 }) }"

definition skynet_context_dispatchall :: "node host \<Rightarrow> addr \<Rightarrow> node \<Rightarrow> node option" where
  "skynet_context_dispatchall H a N = do {
     c \<leftarrow> ctxs N a;
     dispatchall_loop H a (c_queue c) N }"

text \<open>The loop of \<open>skynet_context_message_dispatch\<close>: \<open>True\<close> when it ran \<open>n\<close> rounds, \<open>False\<close> when
  the queue was empty.\<close>

partial_function (option) dispatch_loop ::
  "node host \<Rightarrow> nat \<Rightarrow> addr \<Rightarrow> addr \<Rightarrow> handle \<Rightarrow> int \<Rightarrow> nat \<Rightarrow> nat \<Rightarrow> node \<Rightarrow> (bool \<times> node) option" where
  "dispatch_loop H sm q a h weight i n N =
     (if i < n then do {
        (r, N1) \<leftarrow> skynet_mq_pop q N;
        (case r of
           None \<Rightarrow> Some (False, N1)
         | Some m \<Rightarrow> do {
             len \<leftarrow> skynet_mq_length q N1;
             let n1 = (if i = 0 \<and> weight \<ge> 0 then len div 2 ^ nat weight else n);
             (overload, N2) \<leftarrow> skynet_mq_overload q N1;
             N3 \<leftarrow> (if overload \<noteq> 0
                   then skynet_error H (Some a)
                     (''May overload, message queue length = '' @ dec_str overload) N2
                   else Some N2);
             let N4 = skynet_monitor_trigger sm (m_source m) h N3;
             c \<leftarrow> ctxs N4 a;
             N5 \<leftarrow> (if c_cb c = None then mem_free (m_data m) N4 else dispatch_message H a m N4);
             dispatch_loop H sm q a h weight (i + 1) n1 (skynet_monitor_trigger sm 0 0 N5) }) }
      else Some (True, N))"

definition dispatch_queue ::
  "node host \<Rightarrow> nat \<Rightarrow> addr \<Rightarrow> int \<Rightarrow> node \<Rightarrow> (addr option \<times> node) option" where
  "dispatch_queue H sm q weight N = do {
     h \<leftarrow> skynet_mq_handle q N;
     (r, N1) \<leftarrow> skynet_handle_grab h N;
     (case r of
        None \<Rightarrow> do {
          N2 \<leftarrow> skynet_mq_release q (drop_message H h) N1;
          skynet_globalmq_pop N2 }
      | Some a \<Rightarrow> do {
          (full, N2) \<leftarrow> dispatch_loop H sm q a h weight 0 1 N1;
          if \<not> full then do {
            (_, N3) \<leftarrow> skynet_context_release H a N2;
            skynet_globalmq_pop N3 }
          else do {
            c \<leftarrow> ctxs N2 a;
            assert_that (q = c_queue c);
            (nq, N3) \<leftarrow> skynet_globalmq_pop N2;
            (case nq of
               Some q' \<Rightarrow> do {
                 N4 \<leftarrow> skynet_globalmq_push q N3;
                 (_, N5) \<leftarrow> skynet_context_release H a N4;
                 Some (Some q', N5) }
             | None \<Rightarrow> do {
                 (_, N5) \<leftarrow> skynet_context_release H a N3;
                 Some (Some q, N5) }) } }) }"

definition skynet_context_message_dispatch ::
  "node host \<Rightarrow> nat \<Rightarrow> addr option \<Rightarrow> int \<Rightarrow> node \<Rightarrow> (addr option \<times> node) option" where
  "skynet_context_message_dispatch H sm q weight N =
     (case q of
        Some a \<Rightarrow> dispatch_queue H sm a weight N
      | None \<Rightarrow> do {
          (r, N1) \<leftarrow> skynet_globalmq_pop N;
          (case r of None \<Rightarrow> Some (None, N1) | Some a \<Rightarrow> dispatch_queue H sm a weight N1) })"

section \<open>Creating a service\<close>

definition skynet_module_instance_create :: "node host \<Rightarrow> nat \<Rightarrow> node \<Rightarrow> (addr \<times> node) option" where
  "skynet_module_instance_create H m N = do {
     md \<leftarrow> arr_get (mod_list (mods N)) m;
     (case mod_create md of Some f \<Rightarrow> h_create H f N | None \<Rightarrow> Some (2 ^ 64 - 1, N)) }"

definition skynet_module_instance_init ::
  "node host \<Rightarrow> nat \<Rightarrow> addr \<Rightarrow> addr \<Rightarrow> string option \<Rightarrow> node \<Rightarrow> (int \<times> node) option" where
  "skynet_module_instance_init H m inst a parm N = do {
     md \<leftarrow> arr_get (mod_list (mods N)) m;
     f \<leftarrow> mod_init md;
     h_init H f inst a parm N }"

definition new_context :: "nat \<Rightarrow> addr \<Rightarrow> bool \<Rightarrow> skynet_context" where
  "new_context m inst prof = \<lparr>c_instance = inst, c_mod = m, c_cb_ud = 0, c_cb = None, c_queue = 0,
     c_logfile = 0, c_cpu_cost = 0, c_cpu_start = 0, c_result = [], c_handle = 0, c_session_id = 0,
     c_ref = 2, c_message_count = 0, c_init = False, c_endless = False, c_profile = prof\<rparr>"

definition skynet_context_new ::
  "node host \<Rightarrow> string \<Rightarrow> string option \<Rightarrow> node \<Rightarrow> (addr option \<times> node) option" where
  "skynet_context_new H name param N = do {
     (mo, ms) \<leftarrow> skynet_module_query (h_dlopen H) (h_dlsym H) name (mods N);
     let N0 = N\<lparr>mods := ms\<rparr>;
     (case mo of
        None \<Rightarrow> Some (None, N0)
      | Some m \<Rightarrow> do {
          (inst, N1) \<leftarrow> skynet_module_instance_create H m N0;
          if inst = 0 then Some (None, N1)
          else do {
            let a = next_addr N1;
            let N2 = put_ctx a (new_context m inst (node_profile N1)) (N1\<lparr>next_addr := a + 1\<rparr>);
            (h, st) \<leftarrow> skynet_handle_register (handle_of N2) a (storage N2);
            let q = next_addr N2;
            let N3 = skynet_mq_create q h (N2\<lparr>storage := st, next_addr := q + 1\<rparr>);
            let N4 = context_inc (put_ctx a ((new_context m inst (node_profile N1))
                       \<lparr>c_handle := h, c_queue := q\<rparr>) N3);
            (r, N5) \<leftarrow> skynet_module_instance_init H m inst a param N4;
            if r = 0 then do {
              (ret, N6) \<leftarrow> skynet_context_release H a N5;
              N7 \<leftarrow> (case ret of
                 Some _ \<Rightarrow> do { c \<leftarrow> ctxs N6 a; Some (put_ctx a (c\<lparr>c_init := True\<rparr>) N6) }
               | None \<Rightarrow> Some N6);
              N8 \<leftarrow> skynet_globalmq_push q N7;
              N9 \<leftarrow> (if ret \<noteq> None
                    then skynet_error H ret (''LAUNCH '' @ name @ '' '' @ (case param of Some p \<Rightarrow> p | None \<Rightarrow> [])) N8
                    else Some N8);
              Some (ret, N9) }
            else do {
              N6 \<leftarrow> skynet_error H (Some a) (''FAILED launch '' @ name) N5;
              c \<leftarrow> ctxs N6 a;
              (_, N7) \<leftarrow> skynet_context_release H a N6;
              (_, N8) \<leftarrow> skynet_handle_retire H (c_handle c) N7;
              N9 \<leftarrow> skynet_mq_release q (drop_message H (c_handle c)) N8;
              Some (None, N9) } } }) }"

section \<open>The rest\<close>

definition skynet_callback :: "addr \<Rightarrow> addr \<Rightarrow> nat option \<Rightarrow> node \<Rightarrow> node option" where
  "skynet_callback a ud cb N = do {
     c \<leftarrow> ctxs N a;
     Some (put_ctx a (c\<lparr>c_cb := cb, c_cb_ud := ud\<rparr>) N) }"

definition skynet_getenv :: "string \<Rightarrow> node \<Rightarrow> string option" where
  "skynet_getenv key N = env N key"

definition skynet_setenv :: "string \<Rightarrow> string \<Rightarrow> node \<Rightarrow> node option" where
  "skynet_setenv key value N = do {
     assert_that (env N key = None);
     Some (N\<lparr>env := (env N)(key \<mapsto> value)\<rparr>) }"

definition skynet_globalinit :: "node \<Rightarrow> node" where
  "skynet_globalinit N = N\<lparr>total := 0, monitor_exit := 0, thread_handle := - 1\<rparr>"

definition skynet_initthread :: "u32 \<Rightarrow> node \<Rightarrow> node" where
  "skynet_initthread m N = N\<lparr>thread_handle := - m\<rparr>"

definition skynet_profile_enable :: "bool \<Rightarrow> node \<Rightarrow> node" where
  "skynet_profile_enable enable N = N\<lparr>node_profile := enable\<rparr>"

end
