(* ===== verification/Command.thy ===== *)
theory Command
  imports Server
begin

text \<open>
  The text commands of \<^verbatim>\<open>skynet-src/skynet_server.c\<close> (\<open>skynet_command\<close>) and the opening and
  closing of a service's log in \<^verbatim>\<open>skynet_log.c\<close>.  A parameter is \<open>None\<close> where the caller
  passes NULL; a command that reads it then fails.
\<close>

type_synonym command = "node host \<Rightarrow> addr \<Rightarrow> string option \<Rightarrow> node \<Rightarrow> (string option \<times> node) option"

definition id_to_hex :: "u32 \<Rightarrow> string" where
  "id_to_hex h = CHR '':'' #
     map (\<lambda>i. hex_digit_upper (unat (drop_bit ((7 - i) * 4) h AND 0xf))) [0..<8]"

definition set_result :: "addr \<Rightarrow> string \<Rightarrow> node \<Rightarrow> (string option \<times> node) option" where
  "set_result a text N = do {
     c \<leftarrow> ctxs N a;
     Some (Some text, put_ctx a (c\<lparr>c_result := text\<rparr>) N) }"

definition skynet_queryname :: "node host \<Rightarrow> addr option \<Rightarrow> string \<Rightarrow> node \<Rightarrow> (handle \<times> node) option" where
  "skynet_queryname H ctx name N =
     (if first_char name = CHR '':'' then Some (strtoul16 (tl name), N)
      else if first_char name = CHR ''.'' then do {
        h \<leftarrow> skynet_handle_findname (tl name) (storage N);
        Some (h, N) }
      else do {
        N1 \<leftarrow> skynet_error H ctx (''Don't support query global name '' @ name) N;
        Some (0, N1) })"

definition handle_exit :: "node host \<Rightarrow> addr \<Rightarrow> handle \<Rightarrow> node \<Rightarrow> node option" where
  "handle_exit H a h0 N = do {
     (h, N1) \<leftarrow> (if h0 = 0 then do {
          c \<leftarrow> ctxs N a;
          N1 \<leftarrow> skynet_error H (Some a) ''KILL self'' N;
          Some (c_handle c, N1) }
        else do {
          N1 \<leftarrow> skynet_error H (Some a) (''KILL :'' @ hex_str (unat h0)) N;
          Some (h0, N1) });
     N2 \<leftarrow> (if monitor_exit N1 \<noteq> 0
           then do { (_, N2) \<leftarrow> skynet_send H (Some a) h (monitor_exit N1) PTYPE_CLIENT 0 0 0 N1; Some N2 }
           else Some N1);
     (_, N3) \<leftarrow> skynet_handle_retire H h N2;
     Some N3 }"

definition tohandle :: "node host \<Rightarrow> addr \<Rightarrow> string \<Rightarrow> node \<Rightarrow> (handle \<times> node) option" where
  "tohandle H a param N =
     (if first_char param = CHR '':'' then Some (strtoul16 (tl param), N)
      else if first_char param = CHR ''.'' then do {
        h \<leftarrow> skynet_handle_findname (tl param) (storage N);
        Some (h, N) }
      else do {
        N1 \<leftarrow> skynet_error H (Some a) (''Can't convert '' @ param @ '' to handle'') N;
        Some (0, N1) })"

definition cmd_timeout :: command where
  "cmd_timeout H a param N = do {
     p \<leftarrow> param;
     let ti = strtol10 p;
     (session, N1) \<leftarrow> skynet_context_newsession a N;
     c \<leftarrow> ctxs N1 a;
     (_, N2) \<leftarrow> skynet_timeout H (c_handle c) ti session N1;
     set_result a (int_str (sint session)) N2 }"

definition cmd_reg :: command where
  "cmd_reg H a param N = do {
     c \<leftarrow> ctxs N a;
     (case param of
        None \<Rightarrow> set_result a (CHR '':'' # hex_str (unat (c_handle c))) N
      | Some p \<Rightarrow>
          if p = [] then set_result a (CHR '':'' # hex_str (unat (c_handle c))) N
          else if first_char p = CHR ''.'' then do {
            (r, st) \<leftarrow> skynet_handle_namehandle (c_handle c) (tl p) (storage N);
            Some (r, N\<lparr>storage := st\<rparr>) }
          else do {
            N1 \<leftarrow> skynet_error H (Some a) (''Can't register global name '' @ p @ '' in C'') N;
            Some (None, N1) }) }"

definition cmd_query :: command where
  "cmd_query H a param N = do {
     p \<leftarrow> param;
     if first_char p = CHR ''.'' then do {
       h \<leftarrow> skynet_handle_findname (tl p) (storage N);
       if h \<noteq> 0 then set_result a (CHR '':'' # hex_str (unat h)) N else Some (None, N) }
     else Some (None, N) }"

definition cmd_name :: command where
  "cmd_name H a param N = do {
     p \<leftarrow> param;
     let (name, hs) = scan_two p;
     if first_char hs \<noteq> CHR '':'' then Some (None, N)
     else let h = strtoul16 (tl hs) in
       if h = 0 then Some (None, N)
       else if first_char name = CHR ''.'' then do {
         (r, st) \<leftarrow> skynet_handle_namehandle h (tl name) (storage N);
         Some (r, N\<lparr>storage := st\<rparr>) }
       else do {
         N1 \<leftarrow> skynet_error H (Some a) (''Can't set global name '' @ name @ '' in C'') N;
         Some (None, N1) } }"

definition cmd_exit :: command where
  "cmd_exit H a param N = do { N1 \<leftarrow> handle_exit H a 0 N; Some (None, N1) }"

definition cmd_kill :: command where
  "cmd_kill H a param N = do {
     p \<leftarrow> param;
     (h, N1) \<leftarrow> tohandle H a p N;
     if h \<noteq> 0 then do { N2 \<leftarrow> handle_exit H a h N1; Some (None, N2) } else Some (None, N1) }"

definition cmd_launch :: command where
  "cmd_launch H a param N = do {
     p \<leftarrow> param;
     let (md, args) = strsep (Some p) [CHR '' '', CHR 0x09, CHR 0x0D, CHR 0x0A];
     let (args1, _) = strsep args [CHR 0x0D, CHR 0x0A];
     name \<leftarrow> md;
     (inst, N1) \<leftarrow> skynet_context_new H name args1 N;
     (case inst of
        None \<Rightarrow> Some (None, N1)
      | Some i \<Rightarrow> do { c \<leftarrow> ctxs N1 i; set_result a (id_to_hex (c_handle c)) N1 }) }"

definition cmd_getenv :: command where
  "cmd_getenv H a param N = do { p \<leftarrow> param; Some (skynet_getenv p N, N) }"

definition cmd_setenv :: command where
  "cmd_setenv H a param N = do {
     p \<leftarrow> param;
     let key = takeWhile (\<lambda>c. c \<noteq> CHR '' '') p;
     let rest = dropWhile (\<lambda>c. c \<noteq> CHR '' '') p;
     if rest = [] then Some (None, N)
     else do { N1 \<leftarrow> skynet_setenv key (tl rest) N; Some (None, N1) } }"

definition cmd_starttime :: command where
  "cmd_starttime H a param N = set_result a (dec_str (unat (skynet_starttime (wheel N)))) N"

definition cmd_abort :: command where
  "cmd_abort H a param N = do { N1 \<leftarrow> skynet_handle_retireall H N; Some (None, N1) }"

definition cmd_monitor :: command where
  "cmd_monitor H a param N =
     (case param of
        Some (c # cs) \<Rightarrow> do {
          (h, N1) \<leftarrow> tohandle H a (c # cs) N;
          Some (None, N1\<lparr>monitor_exit := h\<rparr>) }
      | _ \<Rightarrow> if monitor_exit N \<noteq> 0 then set_result a (CHR '':'' # hex_str (unat (monitor_exit N))) N
             else Some (None, N))"

definition cmd_stat :: command where
  "cmd_stat H a param N = do {
     p \<leftarrow> param;
     c \<leftarrow> ctxs N a;
     if p = ''mqlen'' then do {
       len \<leftarrow> skynet_mq_length (c_queue c) N;
       set_result a (dec_str len) N }
     else if p = ''endless'' then
       if c_endless c then set_result a ''1'' (put_ctx a (c\<lparr>c_endless := False\<rparr>) N)
       else set_result a ''0'' N
     else if p = ''cpu'' then set_result a (h_lf H (c_cpu_cost c)) N
     else if p = ''time'' then
       if c_profile c then set_result a (h_lf H (skynet_thread_time (h_clock H N) - c_cpu_start c)) N
       else set_result a ''0'' N
     else if p = ''message'' then set_result a (int_str (sint (c_message_count c))) N
     else set_result a [] N }"

section \<open>Log files\<close>

text \<open>\<open>ATOM_CAS_POINTER\<close> of \<open>atomic.h\<close> on Windows, which passes \<open>oval\<close> to
  \<open>_InterlockedCompareExchangePointer\<close> as the new value and \<open>nval\<close> as the comparand: the
  result, and the new content.\<close>

definition atom_cas_pointer :: "addr \<Rightarrow> addr \<Rightarrow> addr \<Rightarrow> bool \<times> addr" where
  "atom_cas_pointer cur oval nval = (cur = oval, if cur = nval then oval else cur)"

definition file_close :: "addr \<Rightarrow> node \<Rightarrow> node option" where
  "file_close f N = do { assert_that (f \<in> files N); Some (N\<lparr>files := files N - {f}\<rparr>) }"

definition skynet_log_open :: "node host \<Rightarrow> addr \<Rightarrow> handle \<Rightarrow> node \<Rightarrow> (addr \<times> node) option" where
  "skynet_log_open H a h N =
     (case skynet_getenv ''logpath'' N of
        None \<Rightarrow> Some (0, N)
      | Some path \<Rightarrow>
          let tmp = path @ ''/'' @ hex8 h @ ''.log'' in
          if h_fopen H tmp N then do {
            let f = next_addr N;
            N1 \<leftarrow> skynet_error H (Some a) (''Open log file '' @ tmp)
                   (N\<lparr>files := insert f (files N), next_addr := f + 1\<rparr>);
            Some (f, N1) }
          else do {
            N1 \<leftarrow> skynet_error H (Some a) (''Open log file '' @ tmp @ '' fail'') N;
            Some (0, N1) })"

definition skynet_log_close :: "node host \<Rightarrow> addr \<Rightarrow> addr \<Rightarrow> handle \<Rightarrow> node \<Rightarrow> node option" where
  "skynet_log_close H a f h N = do {
     N1 \<leftarrow> skynet_error H (Some a) (''Close log file :'' @ hex8 h) N;
     file_close f N1 }"

definition cmd_logon :: command where
  "cmd_logon H a param N = do {
     p \<leftarrow> param;
     (h, N1) \<leftarrow> tohandle H a p N;
     if h = 0 then Some (None, N1)
     else do {
       (r, N2) \<leftarrow> skynet_handle_grab h N1;
       (case r of
          None \<Rightarrow> Some (None, N2)
        | Some b \<Rightarrow> do {
            c \<leftarrow> ctxs N2 b;
            N3 \<leftarrow> (if c_logfile c = 0 then do {
                 (f, N3) \<leftarrow> skynet_log_open H a h N2;
                 if f \<noteq> 0 then do {
                   c3 \<leftarrow> ctxs N3 b;
                   let (ok, v) = atom_cas_pointer (c_logfile c3) 0 f;
                   let N4 = put_ctx b (c3\<lparr>c_logfile := v\<rparr>) N3;
                   if \<not> ok then file_close f N4 else Some N4 }
                 else Some N3 }
               else Some N2);
            (_, N5) \<leftarrow> skynet_context_release H b N3;
            Some (None, N5) }) } }"

definition cmd_logoff :: command where
  "cmd_logoff H a param N = do {
     p \<leftarrow> param;
     (h, N1) \<leftarrow> tohandle H a p N;
     if h = 0 then Some (None, N1)
     else do {
       (r, N2) \<leftarrow> skynet_handle_grab h N1;
       (case r of
          None \<Rightarrow> Some (None, N2)
        | Some b \<Rightarrow> do {
            c \<leftarrow> ctxs N2 b;
            N3 \<leftarrow> (if c_logfile c \<noteq> 0 then do {
                 let f = c_logfile c;
                 let (ok, v) = atom_cas_pointer (c_logfile c) f 0;
                 let N3 = put_ctx b (c\<lparr>c_logfile := v\<rparr>) N2;
                 if ok then skynet_log_close H a f h N3 else Some N3 }
               else Some N2);
            (_, N5) \<leftarrow> skynet_context_release H b N3;
            Some (None, N5) }) } }"

definition skynet_module_instance_signal :: "node host \<Rightarrow> nat \<Rightarrow> addr \<Rightarrow> int \<Rightarrow> node \<Rightarrow> node option" where
  "skynet_module_instance_signal H m inst sig N = do {
     md \<leftarrow> arr_get (mod_list (mods N)) m;
     (case mod_signal md of Some f \<Rightarrow> h_signal H f inst sig N | None \<Rightarrow> Some N) }"

definition cmd_signal :: command where
  "cmd_signal H a param N = do {
     p \<leftarrow> param;
     (h, N1) \<leftarrow> tohandle H a p N;
     if h = 0 then Some (None, N1)
     else do {
       (r, N2) \<leftarrow> skynet_handle_grab h N1;
       (case r of
          None \<Rightarrow> Some (None, N2)
        | Some b \<Rightarrow> do {
            let rest = dropWhile (\<lambda>c. c \<noteq> CHR '' '') p;
            let sig = (if rest = [] then 0 else strtol0 rest);
            c \<leftarrow> ctxs N2 b;
            N3 \<leftarrow> skynet_module_instance_signal H (c_mod c) (c_instance c) sig N2;
            (_, N4) \<leftarrow> skynet_context_release H b N3;
            Some (None, N4) }) } }"

section \<open>The command table\<close>

definition cmd_funcs :: "(string \<times> command) list" where
  "cmd_funcs = [(''TIMEOUT'', cmd_timeout), (''REG'', cmd_reg), (''QUERY'', cmd_query),
     (''NAME'', cmd_name), (''EXIT'', cmd_exit), (''KILL'', cmd_kill), (''LAUNCH'', cmd_launch),
     (''GETENV'', cmd_getenv), (''SETENV'', cmd_setenv), (''STARTTIME'', cmd_starttime),
     (''ABORT'', cmd_abort), (''MONITOR'', cmd_monitor), (''STAT'', cmd_stat),
     (''LOGON'', cmd_logon), (''LOGOFF'', cmd_logoff), (''SIGNAL'', cmd_signal)]"

definition skynet_command ::
  "node host \<Rightarrow> addr \<Rightarrow> string \<Rightarrow> string option \<Rightarrow> node \<Rightarrow> (string option \<times> node) option" where
  "skynet_command H a cmd param N =
     (case map_of cmd_funcs cmd of
        Some f \<Rightarrow> f H a param N
      | None \<Rightarrow> Some (None, N))"

end
