(* ===== verification/Delivery.thy ===== *)
theory Delivery
  imports Command Scheduler
begin

text \<open>
  What sending does to the mailboxes and to the message blocks: the invariant of a node between
  operations, and the specifications of pushing, of reporting an error and of
  \<open>skynet_send\<close>, on every branch.
\<close>

section \<open>Mailboxes\<close>

text \<open>What waits in each queue.\<close>

definition msgs :: "'z mq_state_scheme \<Rightarrow> addr \<Rightarrow> skynet_message list" where
  "msgs s q = (case mqs s q of Some r \<Rightarrow> mq_contents r | None \<Rightarrow> [])"

definition queue_ready :: "addr list \<Rightarrow> 'z mq_state_scheme \<Rightarrow> addr \<Rightarrow> bool" where
  "queue_ready xs s q \<longleftrightarrow> (\<exists>r. mqs s q = Some r \<and> ring_wf r \<and> (q \<in> set xs \<longrightarrow> q_in_global r))"

lemma ring_wf_next [simp]: "ring_wf (r\<lparr>q_next := n\<rparr>) = ring_wf r"
  by (simp add: ring_wf_def mq_length_def)

lemma mq_contents_next [simp]: "mq_contents (r\<lparr>q_next := n\<rparr>) = mq_contents r"
  by (simp add: mq_contents_def mq_length_def)

lemma mq_contents_in_global [simp]: "mq_contents (r\<lparr>q_in_global := n\<rparr>) = mq_contents r"
  by (simp add: mq_contents_def mq_length_def)

lemma msgs_with_global [simp]: "msgs (with_global xs s) = msgs s"
  by (auto simp: msgs_def relink_def fun_eq_iff split: option.split)

lemma queue_ready_with_global:
  "queue_ready xs (with_global ys s) q \<longleftrightarrow> queue_ready xs s q"
  by (auto simp: queue_ready_def relink_def split: option.split)

text \<open>A push to a queue that is ready always succeeds and appends to that mailbox only.\<close>

lemma mq_push_spec:
  assumes rep: "gq_rep s xs" and q: "queue_ready xs s q"
  shows "\<exists>m h t xs'. skynet_mq_push q msg s = Some (s\<lparr>mqs := m, gq_head := h, gq_tail := t\<rparr>) \<and>
    gq_rep (s\<lparr>mqs := m, gq_head := h, gq_tail := t\<rparr>) xs' \<and>
    msgs (s\<lparr>mqs := m, gq_head := h, gq_tail := t\<rparr>) = (msgs s)(q := msgs s q @ [msg]) \<and>
    (\<forall>p. queue_ready xs s p \<longrightarrow> queue_ready xs' (s\<lparr>mqs := m, gq_head := h, gq_tail := t\<rparr>) p) \<and>
    dom m = dom (mqs s)"
proof -
  obtain r where r: "mqs s q = Some r" "ring_wf r" "q \<in> set xs \<longrightarrow> q_in_global r"
    using q by (auto simp: queue_ready_def)
  obtain r' where r': "mq_ring_push msg r = Some r'" "ring_wf r'" "mq_contents r' = mq_contents r @ [msg]"
    using mq_ring_push_spec [OF r(2)] by blast
  have nx: "q_next r' = q_next r" by (rule ring_push_next [OF r'(1)])
  have gl: "q_in_global r' = q_in_global r" using ring_push_flags [OF r'(1)] by simp
  show ?thesis
  proof (cases "q_in_global r'")
    case True
    define s1 where "s1 = s\<lparr>mqs := (mqs s)(q \<mapsto> r')\<rparr>"
    have eq: "s1 = s\<lparr>mqs := (mqs s)(q \<mapsto> r'), gq_head := gq_head s, gq_tail := gq_tail s\<rparr>"
      by (simp add: s1_def)
    have "skynet_mq_push q msg s = Some s1" using r(1) r'(1) True by (simp add: skynet_mq_push_def s1_def)
    moreover have "gq_rep s1 xs" unfolding s1_def by (rule gq_rep_upd [OF rep r(1) nx])
    moreover have "msgs s1 = (msgs s)(q := msgs s q @ [msg])"
      using r(1) r'(3) by (auto simp: msgs_def fun_eq_iff s1_def)
    moreover have "queue_ready xs s1 p" if "queue_ready xs s p" for p
      using that r r' True by (auto simp: queue_ready_def s1_def)
    moreover have "dom ((mqs s)(q \<mapsto> r')) = dom (mqs s)" using r(1) by auto
    ultimately show ?thesis unfolding eq by blast
  next
    case False
    let ?r = "r'\<lparr>q_in_global := True\<rparr>"
    let ?s = "s\<lparr>mqs := (mqs s)(q \<mapsto> ?r)\<rparr>"
    have new: "q \<notin> set xs" using False gl r(3) by simp
    have rep1: "gq_rep ?s xs" using nx by (intro gq_rep_upd [OF rep r(1)]) simp
    have push: "skynet_mq_push q msg s = Some (with_global (xs @ [q]) ?s)"
      using r(1) r'(1) False globalmq_push_rep [OF rep1 new, of ?r] by (simp add: skynet_mq_push_def)
    have "gq_rep (with_global (xs @ [q]) ?s) (xs @ [q])"
      using rep new r(1) by (intro gq_rep_with_global) (auto simp: gq_rep_def)
    moreover have "msgs (with_global (xs @ [q]) ?s) = (msgs s)(q := msgs s q @ [msg])"
      using r(1) r'(3) by (auto simp: msgs_with_global) (auto simp: msgs_def fun_eq_iff)
    moreover have "queue_ready (xs @ [q]) (with_global (xs @ [q]) ?s) p" if "queue_ready xs s p" for p
      using that r r' unfolding queue_ready_with_global by (auto simp: queue_ready_def)
    moreover have "dom (relink (xs @ [q]) ((mqs s)(q \<mapsto> ?r))) = dom (mqs s)" using r(1) by auto
    moreover define s1 where "s1 = with_global (xs @ [q]) ?s"
    moreover have eq: "s1 = s\<lparr>mqs := relink (xs @ [q]) ((mqs s)(q \<mapsto> ?r)),
        gq_head := (if xs @ [q] = [] then None else Some (hd (xs @ [q]))),
        gq_tail := (if xs @ [q] = [] then None else Some (last (xs @ [q])))\<rparr>"
      by (simp add: with_global_def s1_def)
    ultimately show ?thesis using push unfolding s1_def [symmetric] eq by blast
  qed
qed


section \<open>The node invariant\<close>

definition ctx_ok :: "addr list \<Rightarrow> node \<Rightarrow> addr \<Rightarrow> bool" where
  "ctx_ok xs N a \<longleftrightarrow> (\<exists>c. ctxs N a = Some c \<and> c_ref c \<noteq> 0 \<and> queue_ready xs N (c_queue c))"

text \<open>\<open>xs\<close> is the global queue.  Every service in the handle table exists, is referenced, and
  has a queue that is ready; addresses at or above \<open>next_addr\<close> are unused.\<close>

definition node_ok :: "addr list \<Rightarrow> node \<Rightarrow> bool" where
  "node_ok xs N \<longleftrightarrow>
     table_ok (handle_of N) (storage N) \<and> names_ok (storage N) \<and> gq_rep N xs \<and>
     (\<forall>a. Some a \<in> set (slot (storage N)) \<longrightarrow> ctx_ok xs N a) \<and>
     (\<forall>a \<in> dom (mem N) \<union> dom (rmsgs N). a < next_addr N) \<and> 0 < next_addr N"

definition service :: "node \<Rightarrow> handle \<Rightarrow> addr option" where
  "service N h = lookup_handle (handle_of N) (storage N) h"

text \<open>Only the queues changed.\<close>

definition only_queues :: "node \<Rightarrow> node \<Rightarrow> bool" where
  "only_queues N N' \<longleftrightarrow> (\<exists>m h t. N' = N\<lparr>mqs := m, gq_head := h, gq_tail := t\<rparr>)"

lemma only_queues_sel:
  assumes "only_queues N N'"
  shows "ctxs N' = ctxs N" "mem N' = mem N" "rmsgs N' = rmsgs N" "files N' = files N"
    "next_addr N' = next_addr N" "storage N' = storage N" "wheel N' = wheel N" "mods N' = mods N"
    "env N' = env N" "mons N' = mons N" "total N' = total N" "monitor_exit N' = monitor_exit N"
    "remote N' = remote N" "node_harbor N' = node_harbor N" "logger N' = logger N"
    "handle_of N' = handle_of N" "service N' = service N"
  using assms by (auto simp: only_queues_def handle_of_def [abs_def] service_def [abs_def] split: option.splits)

lemma service_in_table:
  "node_ok xs N \<Longrightarrow> service N h = Some a \<Longrightarrow> Some a \<in> set (slot (storage N)) \<and> handle_of N a = h"
  using lookup_handle_iff [of "handle_of N" "storage N" h a] by (simp add: node_ok_def service_def)

lemma service_ctx_ok: "node_ok xs N \<Longrightarrow> service N h = Some a \<Longrightarrow> ctx_ok xs N a"
  using service_in_table [of xs N h a] by (simp add: node_ok_def)

lemma put_ctx_sel [simp]:
  "mqs (put_ctx a c N) = mqs N" "gq_head (put_ctx a c N) = gq_head N" "gq_tail (put_ctx a c N) = gq_tail N"
  "mem (put_ctx a c N) = mem N" "storage (put_ctx a c N) = storage N" "ctxs (put_ctx a c N) = (ctxs N)(a \<mapsto> c)"
  by (simp_all add: put_ctx_def)

lemma gq_rep_put_ctx [simp]: "gq_rep (put_ctx a c N) xs = gq_rep N xs"
  by (simp add: gq_rep_def)

lemma queue_ready_put_ctx [simp]: "queue_ready xs (put_ctx a c N) q = queue_ready xs N q"
  by (simp add: queue_ready_def)

text \<open>Keeping the invariant when only the queues change.\<close>

lemma node_ok_queues:
  assumes "node_ok xs N" and "only_queues N N'" and "gq_rep N' xs'"
    and "\<And>p. queue_ready xs N p \<Longrightarrow> queue_ready xs' N' p"
  shows "node_ok xs' N'"
  using assms(1,3,4) unfolding node_ok_def ctx_ok_def only_queues_sel [OF assms(2)] by blast

text \<open>Pushing to a handle: grabbing and releasing the context leave its count as it was.\<close>

lemma context_push_spec:
  assumes ok: "node_ok xs N" and s: "service N h = Some a" and c: "ctxs N a = Some c"
  shows "\<exists>N' xs'. skynet_context_push H h msg N = Some (0, N') \<and> only_queues N N' \<and> node_ok xs' N' \<and>
    msgs N' = (msgs N)(c_queue c := msgs N (c_queue c) @ [msg]) \<and>
    (\<forall>p. queue_ready xs N p \<longrightarrow> queue_ready xs' N' p)"
proof -
  have cok: "c_ref c \<noteq> 0" "queue_ready xs N (c_queue c)"
    using service_ctx_ok [OF ok s] c by (auto simp: ctx_ok_def)
  let ?N1 = "put_ctx a (c\<lparr>c_ref := c_ref c + 1\<rparr>) N"
  have grab: "skynet_handle_grab h N = Some (Some a, ?N1)"
    using ok s c handle_grab_lookup [of "handle_of N" "storage N" h]
    by (simp add: skynet_handle_grab_def skynet_context_grab_def node_ok_def service_def)
  have rep1: "gq_rep ?N1 xs" using ok by (simp add: node_ok_def)
  have rdy1: "queue_ready xs ?N1 (c_queue c)" using cok by simp
  obtain m gh gt xs' where push: "skynet_mq_push (c_queue c) msg ?N1
      = Some (?N1\<lparr>mqs := m, gq_head := gh, gq_tail := gt\<rparr>)"
    and rep2: "gq_rep (?N1\<lparr>mqs := m, gq_head := gh, gq_tail := gt\<rparr>) xs'"
    and ms: "msgs (?N1\<lparr>mqs := m, gq_head := gh, gq_tail := gt\<rparr>)
      = (msgs ?N1)(c_queue c := msgs ?N1 (c_queue c) @ [msg])"
    and rdy: "\<And>p. queue_ready xs ?N1 p \<Longrightarrow> queue_ready xs' (?N1\<lparr>mqs := m, gq_head := gh, gq_tail := gt\<rparr>) p"
    using mq_push_spec [OF rep1 rdy1, of msg] by blast
  define N' where "N' = N\<lparr>mqs := m, gq_head := gh, gq_tail := gt\<rparr>"
  have restored: "put_ctx a c (?N1\<lparr>mqs := m, gq_head := gh, gq_tail := gt\<rparr>) = N'"
    using c by (simp add: put_ctx_def N'_def fun_upd_idem)
  have rel: "skynet_context_release H a (?N1\<lparr>mqs := m, gq_head := gh, gq_tail := gt\<rparr>) = Some (Some a, N')"
    using cok(1) restored by (simp add: skynet_context_release_def Let_def)
  have "skynet_context_push H h msg N = Some (0, N')"
    using grab push rel by (simp add: skynet_context_push_def)
  moreover have oq: "only_queues N N'" by (auto simp: only_queues_def N'_def)
  moreover have same: "mqs N' = m" "gq_head N' = gh" "gq_tail N' = gt" by (simp_all add: N'_def)
  moreover have ms': "msgs N' = (msgs N)(c_queue c := msgs N (c_queue c) @ [msg])"
    using ms by (simp add: msgs_def [abs_def] same)
  moreover have rdy': "queue_ready xs' N' p" if "queue_ready xs N p" for p
    using rdy [of p] that by (simp add: queue_ready_def same)
  moreover have "gq_rep N' xs'" using rep2 by (simp add: gq_rep_def same)
  ultimately show ?thesis using node_ok_queues [OF ok oq _ rdy'] by blast
qed

lemma context_push_none:
  "node_ok xs N \<Longrightarrow> service N h = None \<Longrightarrow> skynet_context_push H h msg N = Some (- 1, N)"
  using handle_grab_lookup [of "handle_of N" "storage N" h]
  by (simp add: skynet_context_push_def skynet_handle_grab_def node_ok_def service_def)

section \<open>Errors\<close>

text \<open>What an operation that only delivers messages may change: it adds new blocks.\<close>

definition delivers :: "node \<Rightarrow> node \<Rightarrow> bool" where
  "delivers N N' \<longleftrightarrow> ctxs N' = ctxs N \<and> storage N' = storage N \<and> files N' = files N \<and>
     wheel N' = wheel N \<and> env N' = env N \<and> total N' = total N \<and> monitor_exit N' = monitor_exit N \<and>
     remote N' = remote N \<and> node_harbor N' = node_harbor N \<and> next_addr N \<le> next_addr N' \<and>
     (\<forall>a < next_addr N. mem N' a = mem N a \<and> rmsgs N' a = rmsgs N a)"

lemma delivers_refl: "delivers N N"
  by (simp add: delivers_def)

lemma delivers_trans: "delivers N N1 \<Longrightarrow> delivers N1 N2 \<Longrightarrow> delivers N N2"
  by (auto simp: delivers_def)

lemma only_queues_delivers: "only_queues N N' \<Longrightarrow> delivers N N'"
  by (auto simp: delivers_def only_queues_sel)

lemma delivers_service: "delivers N N' \<Longrightarrow> service N' = service N"
  by (simp add: delivers_def service_def [abs_def] handle_of_def [abs_def])

lemma mem_new_ok:
  assumes "node_ok xs N"
  shows "node_ok xs (snd (mem_new b N))" "delivers N (snd (mem_new b N))"
    "queue_ready xs (snd (mem_new b N)) p = queue_ready xs N p" "msgs (snd (mem_new b N)) = msgs N"
  using assms
  by (auto simp: node_ok_def mem_new_def delivers_def ctx_ok_def queue_ready_def gq_rep_def handle_of_def [abs_def]
      msgs_def fun_eq_iff less_Suc_eq) 

lemma error_ok:
  assumes ok: "node_ok xs N" and ctx: "\<And>a. ctx = Some a \<Longrightarrow> ctxs N a \<noteq> None"
  shows "\<exists>N' xs'. skynet_error H ctx text N = Some N' \<and> delivers N N' \<and> node_ok xs' N' \<and>
    (\<forall>p. queue_ready xs N p \<longrightarrow> queue_ready xs' N' p)"
proof -
  define l where "l = (if logger N = 0 then case name_map (storage N) ''logger'' of Some h' \<Rightarrow> h' | None \<Rightarrow> 0
     else logger N)"
  define N1 where "N1 = N\<lparr>logger := l\<rparr>"
  have n1: "(if logger N = 0
           then do { h \<leftarrow> skynet_handle_findname ''logger'' (storage N); Some (N\<lparr>logger := h\<rparr>) }
           else Some N) = Some N1"
    using ok findname_ok [of "storage N" "''logger''"] by (simp add: N1_def l_def node_ok_def)
  have ok1: "node_ok xs N1" "delivers N N1" "queue_ready xs N1 p = queue_ready xs N p" for p
    using ok by (auto simp: N1_def node_ok_def delivers_def ctx_ok_def queue_ready_def gq_rep_def handle_of_def [abs_def])
  show ?thesis
  proof (cases "logger N1 = 0")
    case True
    then have "skynet_error H ctx text N = Some N1" using n1 by (simp add: skynet_error_def)
    then show ?thesis using ok1 by blast
  next
    case False
    define a where "a = fst (mem_new (bytes_of text @ [0]) N1)"
    define N2 where "N2 = snd (mem_new (bytes_of text @ [0]) N1)"
    note ok2 = mem_new_ok [OF ok1(1), of "bytes_of text @ [0]", folded N2_def]
    have "ctxs N2 = ctxs N" using ok1(2) ok2(2) by (simp add: delivers_def)
    then obtain src where src: "(case ctx of None \<Rightarrow> Some 0 | Some b \<Rightarrow> do { c \<leftarrow> ctxs N2 b; Some (c_handle c) }) = Some src"
      using ctx by (cases ctx) auto
    define m where "m = \<lparr>m_source = src, m_session = 0, m_data = a,
           m_sz = of_nat (length text) OR push_bit MESSAGE_TYPE_SHIFT PTYPE_TEXT\<rparr>"
    have run: "skynet_error H ctx text N = do { (_, N3) \<leftarrow> skynet_context_push H (logger N1) m N2; Some N3 }"
      using n1 False src [unfolded N2_def] by (simp add: skynet_error_def a_def N2_def m_def Let_def case_prod_unfold)
    show ?thesis
    proof (cases "service N2 (logger N1)")
      case None
      then show ?thesis using run context_push_none [OF ok2(1) None] ok1 ok2 delivers_trans by auto
    next
      case (Some b)
      then obtain c where "ctxs N2 b = Some c" using service_ctx_ok [OF ok2(1)] by (auto simp: ctx_ok_def)
      then obtain N' xs' where p: "skynet_context_push H (logger N1) m N2 = Some (0, N')"
        "only_queues N2 N'" "node_ok xs' N'" "\<And>p. queue_ready xs N2 p \<Longrightarrow> queue_ready xs' N' p"
        using context_push_spec [OF ok2(1) Some, of c H m] by blast
      have "delivers N N'"
        using ok1(2) ok2(2) only_queues_delivers [OF p(2)] by (blast intro: delivers_trans)
      moreover have "queue_ready xs N p \<Longrightarrow> queue_ready xs' N' p" for p using p(4) ok1(3) ok2(3) by simp
      moreover have "skynet_error H ctx text N = Some N'" using run p(1) by simp
      ultimately show ?thesis using p(3) by blast
    qed
  qed
qed

section \<open>Preparing a message\<close>

lemma node_ok_put_ctx:
  assumes "ctxs N a = Some c" and "c_ref c' = c_ref c" "c_handle c' = c_handle c" "c_queue c' = c_queue c"
  shows "node_ok xs (put_ctx a c' N) = node_ok xs N" "handle_of (put_ctx a c' N) = handle_of N"
    "service (put_ctx a c' N) = service N" "msgs (put_ctx a c' N) = msgs N"
    "next_addr (put_ctx a c' N) = next_addr N" "rmsgs (put_ctx a c' N) = rmsgs N"
    "remote (put_ctx a c' N) = remote N" "node_harbor (put_ctx a c' N) = node_harbor N"
proof -
  show h: "handle_of (put_ctx a c' N) = handle_of N"
    using assms by (auto simp: handle_of_def fun_eq_iff)
  have "ctx_ok xs (put_ctx a c' N) b = ctx_ok xs N b" for b
    using assms by (auto simp: ctx_ok_def)
  then show "node_ok xs (put_ctx a c' N) = node_ok xs N"
    by (simp add: node_ok_def h) (simp add: put_ctx_def)
  show "service (put_ctx a c' N) = service N" by (simp add: service_def [abs_def] h)
  show "msgs (put_ctx a c' N) = msgs N" by (simp add: msgs_def [abs_def])
qed (simp_all add: put_ctx_def)

lemma newsession_ok:
  assumes "ctxs N a = Some c"
  shows "\<exists>s. skynet_context_newsession a N = Some (s, put_ctx a (c\<lparr>c_session_id := s\<rparr>) N) \<and> 0 <s s"
  using assms by (auto simp: skynet_context_newsession_def Let_def word_sle_eq word_sless_alt)

definition same_contexts :: "node \<Rightarrow> node \<Rightarrow> bool" where
  "same_contexts N N' \<longleftrightarrow> (\<forall>b. map_option (\<lambda>c. (c_handle c, c_queue c, c_ref c)) (ctxs N' b)
     = map_option (\<lambda>c. (c_handle c, c_queue c, c_ref c)) (ctxs N b))"

lemma same_contextsD:
  "same_contexts N N' \<Longrightarrow> ctxs N b = Some c \<Longrightarrow>
   \<exists>c'. ctxs N' b = Some c' \<and> c_handle c' = c_handle c \<and> c_queue c' = c_queue c \<and> c_ref c' = c_ref c"
  by (auto simp: same_contexts_def dest!: spec [of _ b])

lemma same_contexts_before:
  assumes "same_contexts N N'" and "ctxs N' b = Some c"
  shows "\<exists>c'. ctxs N b = Some c' \<and> c_queue c' = c_queue c"
  using assms(1) [unfolded same_contexts_def, rule_format, of b] assms(2) by (cases "ctxs N b") auto

definition copied :: "u32 \<Rightarrow> addr \<Rightarrow> bool" where
  "copied type data \<longleftrightarrow> \<not> dont_copy type \<and> data \<noteq> 0"

lemma filter_args_ok:
  assumes ok: "node_ok xs N" and c: "ctxs N a = Some c"
    and sess: "type AND PTYPE_TAG_ALLOCSESSION \<noteq> 0 \<Longrightarrow> session = 0"
    and data: "data \<noteq> 0 \<Longrightarrow> \<exists>b. mem N data = Some b \<and> unat sz \<le> length b"
  shows "\<exists>s d N1. filter_args (Some a) type session data sz N =
      Some (s, d, sz OR push_bit MESSAGE_TYPE_SHIFT (ucast (type AND 0xff)), N1) \<and>
    node_ok xs N1 \<and> msgs N1 = msgs N \<and> (\<forall>p. queue_ready xs N1 p = queue_ready xs N p) \<and>
    same_contexts N N1 \<and> service N1 = service N \<and> rmsgs N1 = rmsgs N \<and> remote N1 = remote N \<and>
    node_harbor N1 = node_harbor N \<and> next_addr N \<le> next_addr N1 \<and>
    (if type AND PTYPE_TAG_ALLOCSESSION \<noteq> 0 then 0 <s s else s = session) \<and>
    (if copied type data
     then d = next_addr N \<and> mem N1 = (mem N)(d \<mapsto> take (unat sz) (the (mem N data)) @ [0])
     else d = data \<and> mem N1 = mem N)"
proof -
  obtain s N0 where s: "(if type AND PTYPE_TAG_ALLOCSESSION \<noteq> 0 then do {
          assert_that (session = 0);
          a \<leftarrow> Some a;
          skynet_context_newsession a N }
        else Some (session, N)) = Some (s, N0)"
    and s1: "if type AND PTYPE_TAG_ALLOCSESSION \<noteq> 0 then 0 <s s else s = session"
    and N0: "node_ok xs N0" "msgs N0 = msgs N" "\<And>p. queue_ready xs N0 p = queue_ready xs N p"
      "same_contexts N N0" "service N0 = service N" "rmsgs N0 = rmsgs N" "remote N0 = remote N"
      "node_harbor N0 = node_harbor N" "next_addr N0 = next_addr N" "mem N0 = mem N"
  proof (cases "type AND PTYPE_TAG_ALLOCSESSION \<noteq> 0")
    case True
    obtain s where s: "skynet_context_newsession a N = Some (s, put_ctx a (c\<lparr>c_session_id := s\<rparr>) N)" "0 <s s"
      using newsession_ok [OF c] by blast
    note P = node_ok_put_ctx [OF c, of "c\<lparr>c_session_id := s\<rparr>", simplified]
    have "same_contexts N (put_ctx a (c\<lparr>c_session_id := s\<rparr>) N)"
      using c by (simp add: same_contexts_def)
    then show ?thesis
      using that [of s "put_ctx a (c\<lparr>c_session_id := s\<rparr>) N"] s True sess ok P by simp
  next
    case False
    then show ?thesis using that [of session N] ok by (simp add: same_contexts_def)
  qed
  show ?thesis
  proof (cases "copied type data")
    case True
    then obtain b where b: "mem N data = Some b" "unat sz \<le> length b" using data by (auto simp: copied_def)
    note M = mem_new_ok [OF N0(1), of "take (unat sz) b @ [0]"]
    let ?N1 = "snd (mem_new (take (unat sz) b @ [0]) N0)"
    have D: "ctxs ?N1 = ctxs N0" "remote ?N1 = remote N0" "node_harbor ?N1 = node_harbor N0"
      "rmsgs ?N1 = rmsgs N0" "next_addr N0 \<le> next_addr ?N1"
      "mem ?N1 = (mem N0)(next_addr N0 \<mapsto> take (unat sz) b @ [0])"
      by (simp_all add: mem_new_def)
    have "filter_args (Some a) type session data sz N =
        Some (s, next_addr N0, sz OR push_bit MESSAGE_TYPE_SHIFT (ucast (type AND 0xff)), ?N1)"
      using s True b N0(10) by (simp add: filter_args_def copied_def mem_new_def)
    moreover have "same_contexts N ?N1" using N0(4) D(1) by (simp add: same_contexts_def)
    ultimately show ?thesis
      using M D N0 s1 True b delivers_service [OF M(2)] by auto
  next
    case False
    then have "filter_args (Some a) type session data sz N =
        Some (s, data, sz OR push_bit MESSAGE_TYPE_SHIFT (ucast (type AND 0xff)), N0)"
      using s by (auto simp: filter_args_def copied_def)
    then show ?thesis using N0 s1 False by auto
  qed
qed

lemma type_size_parts:
  assumes "sz AND MESSAGE_TYPE_MASK = sz"
  shows "(sz OR push_bit MESSAGE_TYPE_SHIFT (ucast (type AND 0xff))) AND MESSAGE_TYPE_MASK = sz"
    and "drop_bit MESSAGE_TYPE_SHIFT (sz OR push_bit MESSAGE_TYPE_SHIFT (ucast (type AND 0xff :: u32)))
      = (ucast (type AND 0xff) :: u64)"
proof -
  have M: "MESSAGE_TYPE_MASK = mask 56"
    by (simp add: MESSAGE_TYPE_MASK_def mask_eq_exp_minus_1)
  have sz: "bit sz n \<Longrightarrow> n < 56" for n
    using assms unfolding M by (metis bit_and_iff bit_mask_iff)
  have F: "(0xff :: u32) = mask 8" by (simp add: mask_eq_exp_minus_1)
  show "(sz OR push_bit MESSAGE_TYPE_SHIFT (ucast (type AND 0xff))) AND MESSAGE_TYPE_MASK = sz"
    unfolding M F MESSAGE_TYPE_SHIFT_def
    by (rule bit_word_eqI) (auto simp: bit_and_iff bit_or_iff bit_push_bit_iff bit_mask_iff dest: sz)
  show "drop_bit MESSAGE_TYPE_SHIFT (sz OR push_bit MESSAGE_TYPE_SHIFT (ucast (type AND 0xff)))
      = (ucast (type AND 0xff) :: u64)"
    unfolding F MESSAGE_TYPE_SHIFT_def
    by (rule bit_word_eqI) (auto simp: bit_and_iff bit_or_iff bit_push_bit_iff bit_mask_iff
        bit_drop_bit_eq bit_ucast_iff dest: sz)
qed

text \<open>The remote context has a queue to receive packages for other nodes.\<close>

definition remote_ready :: "addr list \<Rightarrow> node \<Rightarrow> bool" where
  "remote_ready xs N \<longleftrightarrow> (\<exists>r c. remote N = Some r \<and> ctxs N r = Some c \<and> queue_ready xs N (c_queue c))"

lemma new_rmsg_ok:
  assumes "node_ok xs N"
  shows "node_ok xs (snd (new_rmsg r N))" "delivers N (snd (new_rmsg r N))"
    "queue_ready xs (snd (new_rmsg r N)) p = queue_ready xs N p" "msgs (snd (new_rmsg r N)) = msgs N"
    "mem (snd (new_rmsg r N)) = mem N" "ctxs (snd (new_rmsg r N)) = ctxs N"
    "remote (snd (new_rmsg r N)) = remote N" "rmsgs (snd (new_rmsg r N)) (fst (new_rmsg r N)) = Some r"
  using assms
  by (auto simp: node_ok_def new_rmsg_def delivers_def ctx_ok_def queue_ready_def gq_rep_def handle_of_def [abs_def]
      msgs_def fun_eq_iff less_Suc_eq)

lemma harbor_send_ok:
  assumes ok: "node_ok xs N" and rem: "remote_ready xs N"
    and r: "rmsgs N p = Some r" "invalid_type (rm_type r)"
  shows "\<exists>N' xs' a c m. skynet_harbor_send p source session N = Some N' \<and> only_queues N N' \<and> node_ok xs' N' \<and>
    remote N = Some a \<and> ctxs N a = Some c \<and> msgs N' = (msgs N)(c_queue c := msgs N (c_queue c) @ [m]) \<and> m_data m = p"
proof -
  obtain a c where a: "remote N = Some a" "ctxs N a = Some c" "queue_ready xs N (c_queue c)"
    using rem by (auto simp: remote_ready_def)
  let ?m = "\<lparr>m_source = source, m_session = session, m_data = p,
       m_sz = SIZEOF_REMOTE_MESSAGE OR push_bit MESSAGE_TYPE_SHIFT PTYPE_SYSTEM\<rparr>"
  obtain m gh gt xs' where push: "skynet_mq_push (c_queue c) ?m N = Some (N\<lparr>mqs := m, gq_head := gh, gq_tail := gt\<rparr>)"
    "gq_rep (N\<lparr>mqs := m, gq_head := gh, gq_tail := gt\<rparr>) xs'"
    "\<And>p. queue_ready xs N p \<Longrightarrow> queue_ready xs' (N\<lparr>mqs := m, gq_head := gh, gq_tail := gt\<rparr>) p"
    "msgs (N\<lparr>mqs := m, gq_head := gh, gq_tail := gt\<rparr>) = (msgs N)(c_queue c := msgs N (c_queue c) @ [?m])"
    using mq_push_spec [of N xs "c_queue c" ?m] ok a(3) unfolding node_ok_def by blast
  have oq: "only_queues N (N\<lparr>mqs := m, gq_head := gh, gq_tail := gt\<rparr>)" by (auto simp: only_queues_def)
  have "skynet_harbor_send p source session N = Some (N\<lparr>mqs := m, gq_head := gh, gq_tail := gt\<rparr>)"
    using r a push(1) by (simp add: skynet_harbor_send_def skynet_context_send_def)
  moreover have "m_data ?m = p" by simp
  ultimately show ?thesis using node_ok_queues [OF ok oq push(2,3)] oq a(1,2) push(4) by blast
qed

section \<open>Properties\<close>

definition caller_ok :: "node \<Rightarrow> addr \<Rightarrow> u32 \<Rightarrow> u32 \<Rightarrow> addr \<Rightarrow> u64 \<Rightarrow> bool" where
  "caller_ok N a type session data sz \<longleftrightarrow> ctxs N a \<noteq> None \<and> 0 \<le>s session \<and>
     (type AND PTYPE_TAG_ALLOCSESSION \<noteq> 0 \<longrightarrow> session = 0) \<and>
     (data \<noteq> 0 \<longrightarrow> (\<exists>b. mem N data = Some b \<and> unat (sz AND MESSAGE_TYPE_MASK) \<le> length b))"

definition is_remote :: "node \<Rightarrow> handle \<Rightarrow> bool" where
  "is_remote N h \<longleftrightarrow> h AND NOT HANDLE_MASK \<noteq> node_harbor N \<and> h AND NOT HANDLE_MASK \<noteq> 0"

text \<open>The block that is sent: the copy, which is the next one, or the caller's; and the blocks when there is a copy.\<close>

definition sent_block :: "node \<Rightarrow> u32 \<Rightarrow> addr \<Rightarrow> addr" where
  "sent_block N type data = (if copied type data then next_addr N else data)"

definition with_copy :: "node \<Rightarrow> u32 \<Rightarrow> addr \<Rightarrow> u64 \<Rightarrow> addr \<rightharpoonup> u8 list" where
  "with_copy N type data sz = (if copied type data then (mem N)(next_addr N \<mapsto> take (unat sz) (the (mem N data)) @ [0]) else mem N)"

text \<open>The block \<open>d\<close> waits in the mailbox of its destination, or in that of the harbor in a package for the other node; handle 0 gets nothing.\<close>

definition handed_over :: "node \<Rightarrow> node \<Rightarrow> handle \<Rightarrow> addr \<Rightarrow> u64 \<Rightarrow> bool" where
  "handed_over N N' dest d sz \<longleftrightarrow>
     (if dest = 0 then msgs N' = msgs N
      else if is_remote N dest then
        \<exists>h c m r. remote N = Some h \<and> ctxs N h = Some c \<and> msgs N' = (msgs N)(c_queue c := msgs N (c_queue c) @ [m]) \<and>
          rmsgs N' (m_data m) = Some r \<and> rm_handle r = dest \<and> rm_message r = d \<and> rm_sz r = sz
      else
        \<exists>b c m. service N dest = Some b \<and> ctxs N b = Some c \<and> msgs N' = (msgs N)(c_queue c := msgs N (c_queue c) @ [m]) \<and>
          m_data m = d \<and> m_sz m AND MESSAGE_TYPE_MASK = sz)"

lemma isremote_eq: "node_harbor N \<noteq> - 1 \<Longrightarrow> skynet_harbor_message_isremote h N = Some (is_remote N h)"
  by (simp add: skynet_harbor_message_isremote_def is_remote_def Let_def)

lemma mem_free_data:
  "mem N d = Some b \<Longrightarrow> d \<noteq> 0 \<Longrightarrow> mem_free d N = Some (N\<lparr>mem := (mem N)(d := None)\<rparr>)"
  by (auto simp: mem_free_def)

lemma node_ok_free:
  "node_ok xs N \<Longrightarrow> node_ok xs (N\<lparr>mem := (mem N)(d := None)\<rparr>)"
  by (auto simp: node_ok_def ctx_ok_def queue_ready_def gq_rep_def handle_of_def [abs_def])

lemma remote_ready_mono:
  assumes "remote_ready xs N" and "remote N' = remote N" and "same_contexts N N'"
    and "\<And>p. queue_ready xs N p \<Longrightarrow> queue_ready xs' N' p"
  shows "remote_ready xs' N'"
  using assms by (auto simp: remote_ready_def dest!: same_contextsD)


text \<open>Reporting an error, then freeing.\<close>

lemma error_then_free:
  assumes ok: "node_ok xs N" and ctx: "ctxs N a \<noteq> None" and d: "d \<noteq> 0" "mem N d = Some b"
  shows "\<exists>N1 N2 xs'. skynet_error H (Some a) tx N = Some N1 \<and> mem_free d N1 = Some N2 \<and> node_ok xs' N2 \<and>
    node_ok xs' N1 \<and> (\<forall>e < next_addr N. mem N1 e = mem N e) \<and> N2 = N1\<lparr>mem := (mem N1)(d := None)\<rparr>"
proof -
  obtain N1 xs' where e: "skynet_error H (Some a) tx N = Some N1" "delivers N N1" "node_ok xs' N1"
    using error_ok [OF ok, of "Some a" H tx] ctx by blast
  have "d < next_addr N" using ok d(2) by (auto simp: node_ok_def)
  then have "mem N1 d = Some b" using e(2) d(2) by (simp add: delivers_def)
  then have "mem_free d N1 = Some (N1\<lparr>mem := (mem N1)(d := None)\<rparr>)" using d(1) by (rule mem_free_data)
  then show ?thesis using e node_ok_free [OF e(3), of d] by (auto simp: delivers_def)
qed

lemma send_too_large:
  assumes ok: "node_ok xs N" and call: "caller_ok N a type session data sz"
    and big: "sz AND MESSAGE_TYPE_MASK \<noteq> sz"
  shows "\<exists>N' xs'. skynet_send H (Some a) source dest type session data sz N = Some (- 2, N') \<and> node_ok xs' N' \<and>
    (data \<noteq> 0 \<longrightarrow> mem N' data = (if dont_copy type then None else mem N data))"
proof -
  have ctx: "ctxs N a \<noteq> None" using call by (simp add: caller_ok_def)
  obtain N1 xs1 where e: "skynet_error H (Some a) (''The message to '' @ hex_str (unat dest) @ '' is too large'') N = Some N1"
    "delivers N N1" "node_ok xs1 N1"
    using error_ok [OF ok, of "Some a"] ctx by blast
  show ?thesis
  proof (cases "data = 0")
    case True
    then show ?thesis using big e by (auto simp: skynet_send_def mem_free_def)
  next
    case False
    then obtain b where b: "mem N data = Some b" using call by (auto simp: caller_ok_def)
    then have "data < next_addr N" using ok by (auto simp: node_ok_def)
    then have "mem N1 data = Some b" using e(2) b by (simp add: delivers_def)
    then show ?thesis
      using big e False b mem_free_data [of N1 data b] node_ok_free [OF e(3), of data]
      by (auto simp: skynet_send_def)
  qed
qed

text \<open>The message \<open>skynet_send\<close> builds for a session \<open>s\<close> and a block \<open>d\<close>.\<close>

lemma send_after_filter:
  fixes source :: handle
  assumes fit: "sz AND MESSAGE_TYPE_MASK = sz"
    and f: "filter_args (Some a) type session data sz N
      = Some (s, d, sz OR push_bit MESSAGE_TYPE_SHIFT (ucast (type AND 0xff)), N1)"
    and c: "ctxs N1 a = Some c" and hb: "node_harbor N1 \<noteq> - 1"
  defines "src \<equiv> (if source = 0 then c_handle c else source)"
  shows "skynet_send H (Some a) source dest type session data sz N =
     (if dest = 0 then
        if d \<noteq> 0 then do {
          N2 \<leftarrow> skynet_error H (Some a) ''Destination address can't be 0'' N1;
          N3 \<leftarrow> mem_free d N2;
          Some (- 1, N3) }
        else Some (sint s, N1)
      else if is_remote N1 dest then do {
        let (r, N2) = new_rmsg \<lparr>rm_name = [], rm_handle = dest, rm_message = d,
              rm_sz = sz, rm_type = ucast (type AND 0xff)\<rparr> N1;
        N3 \<leftarrow> skynet_harbor_send r src s N2;
        Some (sint s, N3) }
      else do {
        (ret, N2) \<leftarrow> skynet_context_push H dest
           \<lparr>m_source = src, m_session = s, m_data = d,
            m_sz = sz OR push_bit MESSAGE_TYPE_SHIFT (ucast (type AND 0xff))\<rparr> N1;
        if ret \<noteq> 0 then do { N3 \<leftarrow> mem_free d N2; Some (- 1, N3) }
        else Some (sint s, N2) })"
  using fit f c isremote_eq [OF hb, of dest]
  by (auto simp: skynet_send_def src_def type_size_parts [OF fit] Let_def split: if_splits simp del: drop_bit_or)

lemma send_fits:
  assumes ok: "node_ok xs N" and call: "caller_ok N a type session data sz"
    and hb: "node_harbor N \<noteq> - 1"
    and rem: "is_remote N dest \<Longrightarrow> remote_ready xs N \<and> invalid_type (ucast (type AND 0xff))"
    and fit: "sz AND MESSAGE_TYPE_MASK = sz"
  shows "\<exists>r N' xs'. skynet_send H (Some a) source dest type session data sz N = Some (r, N') \<and> node_ok xs' N' \<and>
    - 1 \<le> r \<and>
    (r = - 1 \<longleftrightarrow> (if dest = 0 then data \<noteq> 0 else \<not> is_remote N dest \<and> service N dest = None)) \<and>
    (data \<noteq> 0 \<longrightarrow> mem N' data = (if dont_copy type \<and> r < 0 then None else mem N data)) \<and>
    (0 \<le> r \<longrightarrow> handed_over N N' dest (sent_block N type data) sz \<and> mem N' = with_copy N type data sz) \<and>
    (r = - 1 \<and> data \<noteq> 0 \<longrightarrow> mem N' (sent_block N type data) = None) \<and>
    (r = - 1 \<and> dest \<noteq> 0 \<longrightarrow> mem N' = (if dont_copy type \<and> data \<noteq> 0 then (mem N)(data := None) else mem N))"
proof -
  obtain c where c: "ctxs N a = Some c" using call by (auto simp: caller_ok_def)
  have sess: "type AND PTYPE_TAG_ALLOCSESSION \<noteq> 0 \<Longrightarrow> session = 0" "0 \<le>s session"
    using call by (simp_all add: caller_ok_def)
  have data: "data \<noteq> 0 \<Longrightarrow> \<exists>b. mem N data = Some b \<and> unat sz \<le> length b"
    using call fit by (simp add: caller_ok_def)
  obtain s d N1 where f: "filter_args (Some a) type session data sz N =
      Some (s, d, sz OR push_bit MESSAGE_TYPE_SHIFT (ucast (type AND 0xff)), N1)"
    and ok1: "node_ok xs N1" and ms: "msgs N1 = msgs N" and rdy1: "\<And>p. queue_ready xs N1 p = queue_ready xs N p"
    and same: "same_contexts N N1" and P: "service N1 = service N" "rmsgs N1 = rmsgs N" "remote N1 = remote N"
      "node_harbor N1 = node_harbor N" "next_addr N \<le> next_addr N1"
    and s: "if type AND PTYPE_TAG_ALLOCSESSION \<noteq> 0 then 0 <s s else s = session"
    and d: "if copied type data
     then d = next_addr N \<and> mem N1 = (mem N)(d \<mapsto> take (unat sz) (the (mem N data)) @ [0])
     else d = data \<and> mem N1 = mem N"
    using filter_args_ok [OF ok c sess(1) data] by blast
  have s0: "0 \<le> sint s" using s sess(2) by (auto simp: word_sle_eq word_sless_alt split: if_splits)
  obtain c1 where c1: "ctxs N1 a = Some c1" using same_contextsD [OF same c] by blast
  have old: "data < next_addr N" if "data \<noteq> 0" using data [OF that] ok by (auto simp: node_ok_def)
  have d0: "d \<noteq> 0 \<longleftrightarrow> data \<noteq> 0" using d ok by (auto simp: copied_def node_ok_def split: if_splits)
  have dm: "\<exists>b. mem N1 d = Some b" if "data \<noteq> 0" using d data [OF that] by (auto split: if_splits)
  have keep: "data \<noteq> 0 \<Longrightarrow> mem N1 data = mem N data" using d old by (auto split: if_splits)
  have dd: "data \<noteq> 0 \<Longrightarrow> d = data \<longleftrightarrow> dont_copy type"
    using d old by (auto simp: copied_def split: if_splits)
  have isr: "is_remote N1 dest = is_remote N dest" by (simp add: is_remote_def P)
  have db: "d = sent_block N type data" and dmem: "mem N1 = with_copy N type data sz"
    using d by (auto simp: sent_block_def with_copy_def split: if_splits)
  have fresh: "mem N (next_addr N) = None" using ok by (force simp: node_ok_def)
  have undone: "(mem N1)(d := None) = (if dont_copy type \<and> data \<noteq> 0 then (mem N)(data := None) else mem N)" if "data \<noteq> 0"
    using d fresh that by (auto simp: copied_def fun_upd_idem split: if_splits)
  have fs: "\<not> dont_copy type \<Longrightarrow> data \<noteq> 0 \<Longrightarrow> mem N (sent_block N type data) = None" using fresh by (simp add: sent_block_def copied_def)
  note run = send_after_filter [OF fit f c1, unfolded P(4), OF hb]
  consider (zero) "dest = 0" "data = 0" | (zerod) "dest = 0" "data \<noteq> 0"
    | (remote) "dest \<noteq> 0" "is_remote N dest" | (unknown) "dest \<noteq> 0" "\<not> is_remote N dest" "service N dest = None"
    | (local) b where "dest \<noteq> 0" "\<not> is_remote N dest" "service N dest = Some b"
    by (cases "service N dest") blast+
  then show ?thesis
  proof cases
    case zero
    then show ?thesis using run d0 ok1 s0 ms dmem by (auto simp: handed_over_def)
  next
    case zerod
    obtain b where b: "mem N1 d = Some b" using dm zerod by blast
    obtain N2 N3 xs' where e: "skynet_error H (Some a) ''Destination address can't be 0'' N1 = Some N2"
      "mem_free d N2 = Some N3" "node_ok xs' N3" "\<forall>e < next_addr N1. mem N2 e = mem N1 e"
      "N3 = N2\<lparr>mem := (mem N2)(d := None)\<rparr>"
      using error_then_free [OF ok1 _ _ b, of a H "''Destination address can't be 0''"] c1 d0 zerod by blast
    have "mem N3 data = (if dont_copy type then None else mem N data)"
      using e(4,5) dd keep old zerod P(5) by auto
    moreover have "mem N3 (sent_block N type data) = None" using e(5) db by simp
    ultimately show ?thesis using run zerod d0 e by auto
  next
    case remote
    let ?r = "\<lparr>rm_name = [], rm_handle = dest, rm_message = d, rm_sz = sz, rm_type = ucast (type AND 0xff)\<rparr>"
    note R = new_rmsg_ok [OF ok1, of ?r]
    have "remote_ready xs N1" using rem remote same P(3) rdy1 by (auto intro: remote_ready_mono)
    then have rr: "remote_ready xs (snd (new_rmsg ?r N1))" using R by (simp add: remote_ready_def)
    have inv: "invalid_type (rm_type ?r)" using rem remote by simp
    obtain N3 xs' hb1 ch m where h: "skynet_harbor_send (fst (new_rmsg ?r N1))
        (if source = 0 then c_handle c1 else source) s (snd (new_rmsg ?r N1)) = Some N3"
      "only_queues (snd (new_rmsg ?r N1)) N3" "node_ok xs' N3" "remote (snd (new_rmsg ?r N1)) = Some hb1" "ctxs (snd (new_rmsg ?r N1)) hb1 = Some ch"
      "msgs N3 = (msgs (snd (new_rmsg ?r N1)))(c_queue ch := msgs (snd (new_rmsg ?r N1)) (c_queue ch) @ [m])" "m_data m = fst (new_rmsg ?r N1)"
      using harbor_send_ok [OF R(1) rr R(8) inv] by blast
    have m3: "mem N3 = mem N1" using only_queues_sel(2) [OF h(2)] R(5) by simp
    have "ctxs N1 hb1 = Some ch" using h(5) R(6) by simp
    then obtain ch0 where ch0: "ctxs N hb1 = Some ch0" "c_queue ch0 = c_queue ch" using same_contexts_before [OF same] by blast
    have "rmsgs N3 (m_data m) = Some ?r" using only_queues_sel(3) [OF h(2)] R(8) h(7) by simp
    then have "handed_over N N3 dest (sent_block N type data) sz"
      unfolding handed_over_def using remote h(4,6) R(4,7) P(3) ms ch0 db by (auto intro!: exI [of _ hb1] exI [of _ ch0] exI [of _ m])
    then show ?thesis
      using run remote isr h(1,3) s0 keep m3 dmem by (auto simp: case_prod_unfold)
  next
    case unknown
    then have "service N1 dest = None" using P(1) by simp
    note push = context_push_none [OF ok1 this]
    show ?thesis
    proof (cases "data = 0")
      case True
      then have "mem N1 = mem N" using d by (auto simp: copied_def split: if_splits)
      then show ?thesis
        using True run unknown isr push d0 ok1 by (auto simp: mem_free_def intro: exI [of _ xs])
    next
      case False
      then obtain b where "mem N1 d = Some b" using dm by blast
      then show ?thesis
        using run unknown isr push d0 False mem_free_data [of N1 d b] node_ok_free [OF ok1, of d] dd keep undone [OF False] fs db by auto
    qed
  next
    case (local b)
    then have sv: "service N1 dest = Some b" using P(1) by simp
    obtain cb where cb: "ctxs N1 b = Some cb" using service_ctx_ok [OF ok1 sv] by (auto simp: ctx_ok_def)
    let ?m = "\<lparr>m_source = (if source = 0 then c_handle c1 else source), m_session = s, m_data = d,
       m_sz = sz OR push_bit MESSAGE_TYPE_SHIFT (ucast (type AND 0xff))\<rparr>"
    obtain N' xs' where push: "skynet_context_push H dest ?m N1 = Some (0, N')" "only_queues N1 N'" "node_ok xs' N'"
      "msgs N' = (msgs N1)(c_queue cb := msgs N1 (c_queue cb) @ [?m])"
      using context_push_spec [OF ok1 sv cb, of H ?m] by blast
    obtain cb0 where cb0: "ctxs N b = Some cb0" "c_queue cb0 = c_queue cb" using same_contexts_before [OF same cb] by blast
    have "m_sz ?m AND MESSAGE_TYPE_MASK = sz" unfolding skynet_message.simps using type_size_parts [OF fit, of type] by simp
    then have ho: "handed_over N N' dest (sent_block N type data) sz"
      unfolding handed_over_def using local push(4) ms cb0 db by (auto intro!: exI [of _ b] exI [of _ cb0] exI [of _ ?m] simp del: drop_bit_or)
    have "skynet_send H (Some a) source dest type session data sz N = Some (sint s, N')"
      using run local isr push(1) by simp
    moreover have "mem N' = mem N1" by (rule only_queues_sel(2) [OF push(2)])
    ultimately show ?thesis using local s0 keep push(3) dmem ho by auto
  qed
qed

text \<open>
  C11. Every outcome of \<open>skynet_send\<close> is one of the code's own results, and the data block has
  exactly one owner afterwards.  When the result is a session, the block (the caller's own with
  \<open>PTYPE_TAG_DONTCOPY\<close>, else a copy with a closing NUL) waits in the mailbox of its destination, or in
  that of the harbor in a package for the other node (\<open>handed_over\<close>), and no other block changes; for
  handle 0 without data nothing is sent.  When the result is an error (no destination, unknown handle),
  the block that would have been sent is freed, the copy as well, and for an unknown handle the blocks
  are as before but for the caller's with the copy suppressed; a message that is too large frees the caller's
  block with the copy suppressed.  Without that tag the caller's block is untouched, whatever happens.  The
  result is -2 exactly for an oversized message and otherwise an error exactly when there is data for handle
  0 or the handle is unknown on this node.  The caller gives a session that is not negative (\<open>caller_ok\<close>): the
  session is the result, and a negative one cannot be told from an error.
\<close>

theorem send_ownership:
  assumes "node_ok xs N" and "caller_ok N a type session data sz" and "node_harbor N \<noteq> - 1"
    and "is_remote N dest \<Longrightarrow> remote_ready xs N \<and> invalid_type (ucast (type AND 0xff))"
  shows "\<exists>r N' xs'. skynet_send H (Some a) source dest type session data sz N = Some (r, N') \<and>
    node_ok xs' N' \<and> - 2 \<le> r \<and>
    (r = - 2 \<longleftrightarrow> sz AND MESSAGE_TYPE_MASK \<noteq> sz) \<and>
    (r = - 1 \<longleftrightarrow> sz AND MESSAGE_TYPE_MASK = sz \<and>
       (if dest = 0 then data \<noteq> 0 else \<not> is_remote N dest \<and> service N dest = None)) \<and>
    (data \<noteq> 0 \<longrightarrow> mem N' data = (if dont_copy type \<and> r < 0 then None else mem N data)) \<and>
    (0 \<le> r \<longrightarrow> handed_over N N' dest (sent_block N type data) sz \<and> mem N' = with_copy N type data sz) \<and>
    (r = - 1 \<and> data \<noteq> 0 \<longrightarrow> mem N' (sent_block N type data) = None) \<and>
    (r = - 1 \<and> dest \<noteq> 0 \<longrightarrow> mem N' = (if dont_copy type \<and> data \<noteq> 0 then (mem N)(data := None) else mem N))"
proof (cases "sz AND MESSAGE_TYPE_MASK = sz")
  case True
  from send_fits [OF assms True, where H = H and source = source] obtain r N' xs' where
    r: "skynet_send H (Some a) source dest type session data sz N = Some (r, N')" "node_ok xs' N'" "- 1 \<le> r"
      "r = - 1 \<longleftrightarrow> (if dest = 0 then data \<noteq> 0 else \<not> is_remote N dest \<and> service N dest = None)"
    and m: "data \<noteq> 0 \<longrightarrow> mem N' data = (if dont_copy type \<and> r < 0 then None else mem N data)"
      "0 \<le> r \<longrightarrow> handed_over N N' dest (sent_block N type data) sz \<and> mem N' = with_copy N type data sz"
      "r = - 1 \<and> data \<noteq> 0 \<longrightarrow> mem N' (sent_block N type data) = None"
      "r = - 1 \<and> dest \<noteq> 0 \<longrightarrow> mem N' = (if dont_copy type \<and> data \<noteq> 0 then (mem N)(data := None) else mem N)" by blast
  moreover have "- 2 \<le> r" "r \<noteq> - 2" using r(3) by auto
  ultimately show ?thesis using True by blast
next
  case False
  obtain N' xs' where r: "skynet_send H (Some a) source dest type session data sz N = Some (- 2, N')" "node_ok xs' N'"
    "data \<noteq> 0 \<longrightarrow> mem N' data = (if dont_copy type then None else mem N data)"
    using send_too_large [OF assms(1,2) False, where H = H and source = source and dest = dest] by blast
  moreover have "(- 2 :: int) < 0" "- 2 \<noteq> (- 1 :: int)" by simp_all
  ultimately show ?thesis using False by (intro exI [of _ "- 2"] exI [of _ N'] exI [of _ xs']) simp
qed


text \<open>A node with one service, 1:000001, its queue at 2, and a message block at 3.\<close>

definition demo_node :: node where
  "demo_node = \<lparr>mqs = [2 \<mapsto> (mq_new 0x1000001)\<lparr>q_in_global := False\<rparr>], gq_head = None, gq_tail = None,
     ctxs = [1 \<mapsto> (new_context 0 9 False)\<lparr>c_handle := 0x1000001, c_queue := 2, c_ref := 1\<rparr>],
     mem = [3 \<mapsto> [104, 105]], rmsgs = Map.empty, files = {}, next_addr = 4,
     storage = (skynet_handle_init 1)\<lparr>slot := [None, Some 1, None, None], handle_index := 2\<rparr>,
     wheel = timer_create_timer, mods = skynet_module_init [], env = Map.empty,
     mons = (\<lambda>_. skynet_monitor_new), total = 1, monitor_exit = 0, node_profile = False,
     thread_handle = 0, remote = None, node_harbor = 0x1000000, logger = 0\<rparr>"

lemma demo_ok: "node_ok [] demo_node"
proof -
  have sl: "[None, Some 1, None, None] ! i = Some a \<Longrightarrow> i < 4 \<Longrightarrow> i = 1 \<and> a = 1" for i and a :: addr
    by (auto simp: nth_Cons' split: if_splits)
  have st: "slot_size (storage demo_node) = 4" "slot (storage demo_node) = [None, Some 1, None, None]"
    "handle_index (storage demo_node) = 2" "hs_harbor (storage demo_node) = 0x1000000"
    "handle_of demo_node 1 = 0x1000001"
    by (simp_all add: demo_node_def skynet_handle_init_def DEFAULT_SLOT_SIZE_def HANDLE_REMOTE_SHIFT_def
        handle_of_def new_context_def)
  have "\<exists>k. (4::nat) = 2 ^ k \<and> 2 \<le> k \<and> k \<le> 24" by (intro exI [of _ 2]) simp
  then have "table_ok (handle_of demo_node) (storage demo_node)"
    unfolding table_ok_def st
    by (auto simp: HANDLE_MASK_def hash_of_def st(5) [simplified] dest!: sl [simplified])
  moreover have "names_ok (storage demo_node)"
    using init_ok(2) [of 1] by (simp add: demo_node_def names_ok_def names_def)
  moreover have "gq_rep demo_node []"
    by (auto simp: gq_rep_def demo_node_def mq_new_def)
  moreover have "ctx_ok [] demo_node 1"
    using ring_wf_new [of "0x1000001"]
    by (simp add: ctx_ok_def demo_node_def new_context_def queue_ready_def)
  moreover have "\<forall>a \<in> dom (mem demo_node) \<union> dom (rmsgs demo_node). a < next_addr demo_node"
    "0 < next_addr demo_node"
    by (auto simp: demo_node_def split: if_splits)
  ultimately show ?thesis by (simp add: node_ok_def st(2))
qed

lemma demo_service: "service demo_node 0x1000001 = Some 1" "service demo_node 0x1000002 = None"
  by (simp_all add: service_def lookup_handle_def demo_node_def skynet_handle_init_def DEFAULT_SLOT_SIZE_def
      hash_of_def handle_of_def new_context_def)

definition demo_host :: "node host" where
  "demo_host = \<lparr>h_cb = (\<lambda>_ _ _ _ _ _ _ _ N. Some (0, N)), h_create = (\<lambda>_ N. Some (1, N)),
     h_init = (\<lambda>_ _ _ _ N. Some (0, N)), h_release = (\<lambda>_ _ N. Some N), h_signal = (\<lambda>_ _ _ N. Some N),
     h_dlopen = (\<lambda>_. None), h_dlsym = (\<lambda>_ _. None), h_fopen = (\<lambda>_ _. True), h_clock = (\<lambda>_. (0, 0)),
     h_lf = (\<lambda>_. [])\<rparr>"

text \<open>A copy of two bytes for the service itself is handed over; the block for an unknown handle is freed.\<close>

lemma send_ownership_witness:
  "(\<exists>r N'. skynet_send demo_host (Some 1) 0 0x1000001 0 5 3 2 demo_node = Some (r, N') \<and> 0 \<le> r \<and>
      handed_over demo_node N' 0x1000001 4 2 \<and> mem N' = (mem demo_node)(4 \<mapsto> [104, 105, 0])) \<and>
   (\<exists>N' xs'. skynet_send demo_host (Some 1) 0 0x1000002 PTYPE_TAG_DONTCOPY 5 3 2 demo_node = Some (- 1, N') \<and>
     node_ok xs' N' \<and> mem N' 3 = None)"
proof -
  have call: "caller_ok demo_node 1 PTYPE_TAG_DONTCOPY 5 3 2" "caller_ok demo_node 1 0 5 3 2"
    by (simp_all add: caller_ok_def demo_node_def PTYPE_TAG_DONTCOPY_def PTYPE_TAG_ALLOCSESSION_def
        MESSAGE_TYPE_MASK_def mask_eq_exp_minus_1 word_sle_eq)
  have loc: "\<not> is_remote demo_node 0x1000002" "\<not> is_remote demo_node 0x1000001"
    by (simp_all add: is_remote_def demo_node_def HANDLE_MASK_def)
  have hb: "node_harbor demo_node \<noteq> - 1" by (simp add: demo_node_def)
  have fit: "(2 :: u64) AND MESSAGE_TYPE_MASK = 2" by (simp add: MESSAGE_TYPE_MASK_def mask_eq_exp_minus_1)
  have dc: "dont_copy PTYPE_TAG_DONTCOPY" by (simp add: dont_copy_def PTYPE_TAG_DONTCOPY_def)
  have "copied 0 3" by (simp add: copied_def dont_copy_def)
  then have cp: "sent_block demo_node 0 3 = 4" "with_copy demo_node 0 3 2 = (mem demo_node)(4 \<mapsto> [104, 105, 0])"
    by (simp_all add: sent_block_def with_copy_def demo_node_def)
  from send_ownership [OF demo_ok call(2) hb, of "0x1000001" demo_host 0] loc(2) obtain r N' where
    r: "skynet_send demo_host (Some 1) 0 0x1000001 0 5 3 2 demo_node = Some (r, N')" "- 2 \<le> r" "r \<noteq> - 2" "r \<noteq> - 1"
      "0 \<le> r \<longrightarrow> handed_over demo_node N' 0x1000001 4 2 \<and> mem N' = (mem demo_node)(4 \<mapsto> [104, 105, 0])"
    using fit demo_service(1) unfolding cp by auto
  have "0 \<le> r" using r(2-4) by linarith
  moreover have "\<exists>N' xs'. skynet_send demo_host (Some 1) 0 0x1000002 PTYPE_TAG_DONTCOPY 5 3 2 demo_node = Some (- 1, N') \<and>
     node_ok xs' N' \<and> mem N' 3 = None"
    using send_ownership [OF demo_ok call(1) hb, of "0x1000002" demo_host 0] loc(1) fit dc demo_service(2) by auto
  ultimately show ?thesis using r(1,5) by blast
qed


text \<open>
  C13. Sending to a service of this node appends exactly one message to its mailbox and changes
  no other mailbox.  The message carries the sender, the session (the given one, or a new
  positive one), and the type and the size, which the receiver's masks get back; its data is the
  caller's block, or, unless the copy is suppressed, a new block with the same bytes and a
  closing NUL.  The reference count of the receiver is the same afterwards.
\<close>

theorem send_delivers:
  assumes ok: "node_ok xs N" and call: "caller_ok N a type session data sz" and hb: "node_harbor N \<noteq> - 1"
    and fit: "sz AND MESSAGE_TYPE_MASK = sz" and local: "dest \<noteq> 0" "\<not> is_remote N dest"
    and sv: "service N dest = Some b" and c: "ctxs N a = Some c" "ctxs N b = Some cb"
  shows "\<exists>N' s d m. skynet_send H (Some a) source dest type session data sz N = Some (sint s, N') \<and>
    msgs N' = (msgs N)(c_queue cb := msgs N (c_queue cb) @ [m]) \<and>
    m_source m = (if source = 0 then c_handle c else source) \<and> m_session m = s \<and> m_data m = d \<and>
    drop_bit MESSAGE_TYPE_SHIFT (m_sz m) = ucast (type AND 0xff) \<and> m_sz m AND MESSAGE_TYPE_MASK = sz \<and>
    (if type AND PTYPE_TAG_ALLOCSESSION \<noteq> 0 then 0 <s s else s = session) \<and>
    (if copied type data
     then mem N d = None \<and> mem N' = (mem N)(d \<mapsto> take (unat sz) (the (mem N data)) @ [0])
     else d = data \<and> mem N' = mem N) \<and>
    same_contexts N N'"
proof -
  have sess: "type AND PTYPE_TAG_ALLOCSESSION \<noteq> 0 \<Longrightarrow> session = 0"
    using call by (simp add: caller_ok_def)
  have data: "data \<noteq> 0 \<Longrightarrow> \<exists>b. mem N data = Some b \<and> unat sz \<le> length b"
    using call fit by (simp add: caller_ok_def)
  obtain s d N1 where f: "filter_args (Some a) type session data sz N =
      Some (s, d, sz OR push_bit MESSAGE_TYPE_SHIFT (ucast (type AND 0xff)), N1)"
    and ok1: "node_ok xs N1" and ms: "msgs N1 = msgs N"
    and same: "same_contexts N N1" and P: "service N1 = service N" "node_harbor N1 = node_harbor N"
    and s: "if type AND PTYPE_TAG_ALLOCSESSION \<noteq> 0 then 0 <s s else s = session"
    and d: "if copied type data
     then d = next_addr N \<and> mem N1 = (mem N)(d \<mapsto> take (unat sz) (the (mem N data)) @ [0])
     else d = data \<and> mem N1 = mem N"
    using filter_args_ok [OF ok c(1) sess data] by blast
  obtain c1 where c1: "ctxs N1 a = Some c1" "c_handle c1 = c_handle c" using same_contextsD [OF same c(1)] by blast
  obtain cb1 where cb1: "ctxs N1 b = Some cb1" "c_queue cb1 = c_queue cb" using same_contextsD [OF same c(2)] by blast
  have sv1: "service N1 dest = Some b" using sv P(1) by simp
  have isr: "\<not> is_remote N1 dest" using local(2) by (simp add: is_remote_def P)
  let ?m = "\<lparr>m_source = (if source = 0 then c_handle c1 else source), m_session = s, m_data = d,
     m_sz = sz OR push_bit MESSAGE_TYPE_SHIFT (ucast (type AND 0xff))\<rparr>"
  obtain N' xs' where push: "skynet_context_push H dest ?m N1 = Some (0, N')" "only_queues N1 N'"
    "msgs N' = (msgs N1)(c_queue cb1 := msgs N1 (c_queue cb1) @ [?m])"
    using context_push_spec [OF ok1 sv1 cb1(1), of H ?m] by blast
  have "skynet_send H (Some a) source dest type session data sz N = Some (sint s, N')"
    using send_after_filter [OF fit f c1(1), unfolded P(2), OF hb, of H source dest] local(1) isr push(1) by simp
  moreover have "msgs N' = (msgs N)(c_queue cb := msgs N (c_queue cb) @ [?m])" using push(3) ms cb1(2) by simp
  moreover have "if copied type data
     then mem N d = None \<and> mem N' = (mem N)(d \<mapsto> take (unat sz) (the (mem N data)) @ [0])
     else d = data \<and> mem N' = mem N"
    using d only_queues_sel(2) [OF push(2)] ok by (force simp: node_ok_def split: if_splits)
  moreover have "same_contexts N N'" using same only_queues_sel(1) [OF push(2)] by (simp add: same_contexts_def)
  moreover have "drop_bit MESSAGE_TYPE_SHIFT (m_sz ?m) = ucast (type AND 0xff)" "m_sz ?m AND MESSAGE_TYPE_MASK = sz"
    unfolding skynet_message.simps using type_size_parts [OF fit, of type] by simp_all
  moreover have "m_source ?m = (if source = 0 then c_handle c else source)" using c1(2) by simp
  ultimately show ?thesis using s
    by (intro exI [of _ N'] exI [of _ s] exI [of _ d] exI [of _ ?m]) (simp del: drop_bit_or)
qed

lemma send_delivers_witness:
  "\<exists>N' m d. skynet_send demo_host (Some 1) 0 0x1000001 0 5 3 2 demo_node = Some (5, N') \<and> msgs N' 2 = [m] \<and>
     m_source m = 0x1000001 \<and> m_session m = 5 \<and> m_sz m AND MESSAGE_TYPE_MASK = 2 \<and> mem N' d = Some [104, 105, 0]"
proof -
  have call: "caller_ok demo_node 1 0 5 3 2"
    by (simp add: caller_ok_def demo_node_def MESSAGE_TYPE_MASK_def mask_eq_exp_minus_1 word_sle_eq)
  have loc: "\<not> is_remote demo_node 0x1000001"
    by (simp add: is_remote_def demo_node_def HANDLE_MASK_def)
  have hb: "node_harbor demo_node \<noteq> - 1" by (simp add: demo_node_def)
  have fit: "(2 :: u64) AND MESSAGE_TYPE_MASK = 2" by (simp add: MESSAGE_TYPE_MASK_def mask_eq_exp_minus_1)
  have cp: "copied 0 3" by (simp add: copied_def dont_copy_def)
  have c: "ctxs demo_node 1 = Some ((new_context 0 9 False)\<lparr>c_handle := 0x1000001, c_queue := 2, c_ref := 1\<rparr>)"
    by (simp add: demo_node_def)
  have ms: "msgs demo_node 2 = []" by (simp add: msgs_def demo_node_def mq_contents_new)
  have m3: "mem demo_node 3 = Some [104, 105]" by (simp add: demo_node_def)
  show ?thesis
    using send_delivers [OF demo_ok call hb fit _ loc demo_service(1) c c, of demo_host 0] cp ms m3 by fastforce
qed

section \<open>Sessions\<close>

lemma sint_u32: "sint (x :: u32) = (if uint x < 2 ^ 31 then uint x else uint x - 2 ^ 32)"
proof -
  define k where "k = uint x"
  have k: "0 \<le> k" "k < 2 ^ 32" using uint_lt2p [of x] by (simp_all add: k_def)
  have "bit k 31 \<longleftrightarrow> 2 ^ 31 \<le> k"
  proof (cases "2 ^ 31 \<le> k")
    case True
    then have "k div 2 ^ 31 = 1" using k by (intro int_div_pos_eq [of _ _ _ "k - 2 ^ 31"]) auto
    then show ?thesis using True by (simp add: bit_iff_odd)
  next
    case False
    then have "k div 2 ^ 31 = 0" using k by (intro div_pos_pos_trivial) auto
    then show ?thesis using False by (simp add: bit_iff_odd)
  qed
  moreover have "take_bit 32 k = k" using k by (simp add: take_bit_int_eq_self)
  ultimately have "signed_take_bit 31 k = (if 2 ^ 31 \<le> k then k - 2 ^ 32 else k)"
    by (simp add: signed_take_bit_eq_take_bit_minus)
  then show ?thesis by (simp add: sint_uint k_def)
qed

lemma u32_positive: "0 <s (x :: u32) \<longleftrightarrow> 0 < unat x \<and> unat x < 2 ^ 31"
proof -
  have "uint x < 2 ^ 31 \<longleftrightarrow> unat x < 2 ^ 31"
    by (simp only: unat_eq_nat_uint nat_less_iff [OF uint_ge_0]) simp
  moreover have "0 < uint x \<longleftrightarrow> 0 < unat x"
    by (simp only: unat_eq_nat_uint zero_less_nat_eq)
  moreover have "uint x < 2 ^ 32" using uint_lt2p [of x] by simp
  moreover have "0 <s x \<longleftrightarrow> 0 < uint x \<and> uint x < 2 ^ 31"
    using calculation(3) by (simp add: word_sless_alt sint_u32)
  ultimately show ?thesis by blast
qed

fun new_sessions :: "nat \<Rightarrow> addr \<Rightarrow> node \<Rightarrow> (u32 list \<times> node) option" where
  "new_sessions 0 a N = Some ([], N)"
| "new_sessions (Suc n) a N = do {
     (s, N1) \<leftarrow> skynet_context_newsession a N;
     (ss, N2) \<leftarrow> new_sessions n a N1;
     Some (s # ss, N2) }"

text \<open>The session after \<open>k\<close>, on numbers.\<close>

definition session_after :: "nat \<Rightarrow> nat" where
  "session_after k = (if k < 0x7fffffff then k + 1 else 1)"

lemma newsession_after:
  assumes c: "ctxs N a = Some c" and k: "unat (c_session_id c) \<le> 0x7fffffff"
  shows "\<exists>s. skynet_context_newsession a N = Some (s, put_ctx a (c\<lparr>c_session_id := s\<rparr>) N) \<and>
    unat s = session_after (unat (c_session_id c)) \<and> 0 <s s"
proof -
  let ?v = "c_session_id c"
  have pos: "s \<le>s 0 \<longleftrightarrow> \<not> 0 <s s" for s :: u32
    by (simp add: word_sle_eq word_sless_alt not_less)
  show ?thesis
  proof (cases "unat ?v < 0x7fffffff")
    case True
    then have u: "unat (?v + 1) = unat ?v + 1" by (simp add: unat_word_ariths)
    then have "0 <s ?v + 1" using True unfolding u32_positive u by simp
    then show ?thesis using c True u by (simp add: skynet_context_newsession_def session_after_def pos Let_def)
  next
    case False
    then have v: "unat ?v = 0x7fffffff" using k by simp
    then have "unat (?v + 1) = 0x80000000" by (simp add: unat_word_ariths)
    then have "\<not> 0 <s ?v + 1" unfolding u32_positive by simp
    moreover have "0 <s (1 :: u32)" unfolding u32_positive by simp
    ultimately show ?thesis using c v by (simp add: skynet_context_newsession_def session_after_def pos Let_def)
  qed
qed

lemma iter_session:
  "k \<le> 0x7fffffff \<Longrightarrow> (session_after ^^ Suc i) k = (k + i) mod 0x7fffffff + 1"
proof (induction i)
  case 0
  then show ?case by (auto simp: session_after_def)
next
  case (Suc i)
  have "(k + i) mod 0x7fffffff < 0x7fffffff" by simp
  then have "session_after ((k + i) mod 0x7fffffff + 1) = (k + Suc i) mod 0x7fffffff + 1"
    by (auto simp: session_after_def mod_Suc)
  then show ?case using Suc by simp
qed

lemma new_sessions_ok:
  assumes "ctxs N a = Some c" and "unat (c_session_id c) \<le> 0x7fffffff"
  shows "\<exists>ss s'. new_sessions n a N = Some (ss, put_ctx a (c\<lparr>c_session_id := s'\<rparr>) N) \<and>
    map unat ss = map (\<lambda>i. (session_after ^^ Suc i) (unat (c_session_id c))) [0..<n] \<and>
    (\<forall>s \<in> set ss. 0 <s s)"
  using assms
proof (induction n arbitrary: N c)
  case 0
  then have "put_ctx a (c\<lparr>c_session_id := c_session_id c\<rparr>) N = N" by (simp add: put_ctx_def fun_upd_idem)
  then show ?case by (intro exI [of _ "[]"] exI [of _ "c_session_id c"]) simp
next
  case (Suc n)
  let ?v = "unat (c_session_id c)"
  obtain s where s: "skynet_context_newsession a N = Some (s, put_ctx a (c\<lparr>c_session_id := s\<rparr>) N)"
    "unat s = session_after ?v" "0 <s s"
    using newsession_after [OF Suc.prems] by blast
  have "unat s \<le> 0x7fffffff" using s(3) unfolding u32_positive by simp
  then obtain ss s' where ss: "new_sessions n a (put_ctx a (c\<lparr>c_session_id := s\<rparr>) N)
      = Some (ss, put_ctx a (c\<lparr>c_session_id := s'\<rparr>) N)"
    "map unat ss = map (\<lambda>i. (session_after ^^ Suc i) (unat s)) [0..<n]" "\<forall>s \<in> set ss. 0 <s s"
    using Suc.IH [of "put_ctx a (c\<lparr>c_session_id := s\<rparr>) N" "c\<lparr>c_session_id := s\<rparr>"]
    by (auto simp: put_ctx_def)
  have "map unat (s # ss) = map (\<lambda>i. (session_after ^^ Suc i) ?v) [0..<Suc n]"
    unfolding upt_conv_Cons [OF zero_less_Suc] list.map ss(2) map_Suc_upt [symmetric] map_map
    using s(2) by (simp add: funpow_swap1 del: upt_Suc)
  then show ?case using s ss(1,3) by (intro exI [of _ "s # ss"] exI [of _ s']) simp
qed

text \<open>
  C14. New sessions are positive C integers and do not repeat: the n-th session a context gives
  out after \<open>v\<close> is \<open>(v + n - 1) mod (2^31 - 1) + 1\<close>, so any 2^31 - 1 consecutive ones are
  different, across the wrap of the counter.
\<close>

theorem sessions_positive_distinct:
  assumes "ctxs N a = Some c" and "unat (c_session_id c) \<le> 0x7fffffff"
  shows "\<exists>ss N'. new_sessions n a N = Some (ss, N') \<and> length ss = n \<and> list_all (\<lambda>s. 0 <s s) ss \<and>
    map unat ss = map (\<lambda>i. (unat (c_session_id c) + i) mod 0x7fffffff + 1) [0..<n] \<and>
    (n > 0x7fffffff \<or> distinct ss)"
proof -
  obtain ss s' where ss: "new_sessions n a N = Some (ss, put_ctx a (c\<lparr>c_session_id := s'\<rparr>) N)"
    "map unat ss = map (\<lambda>i. (session_after ^^ Suc i) (unat (c_session_id c))) [0..<n]" "\<forall>s \<in> set ss. 0 <s s"
    using new_sessions_ok [OF assms] by blast
  have m: "map unat ss = map (\<lambda>i. (unat (c_session_id c) + i) mod 0x7fffffff + 1) [0..<n]"
    unfolding ss(2) using iter_session [OF assms(2)] by simp
  moreover have "length ss = n" using arg_cong [OF m, of length] by simp
  moreover have "n > 0x7fffffff \<or> distinct ss"
  proof (cases "n > 0x7fffffff")
    case False
    then have that: "n \<le> 0x7fffffff" by simp
    have "inj_on (\<lambda>i. (unat (c_session_id c) + i) mod 0x7fffffff + 1) {0..<n}"
    proof (rule linorder_inj_onI)
      fix i j
      assume ij: "i < j" "i \<in> {0..<n}" "j \<in> {0..<n}"
      show "(unat (c_session_id c) + i) mod 0x7fffffff + 1 \<noteq> (unat (c_session_id c) + j) mod 0x7fffffff + 1"
      proof
        assume "(unat (c_session_id c) + i) mod 0x7fffffff + 1 = (unat (c_session_id c) + j) mod 0x7fffffff + 1"
        then have "0x7fffffff dvd unat (c_session_id c) + j - (unat (c_session_id c) + i)"
          using ij(1) mod_eq_dvd_iff_nat [of "unat (c_session_id c) + i" "unat (c_session_id c) + j" "0x7fffffff"]
          by simp
        then have "0x7fffffff dvd j - i" by simp
        then have "0x7fffffff \<le> j - i" using ij(1) by (intro dvd_imp_le) auto
        then show False using ij that by simp
      qed
    qed auto
    then have "distinct (map unat ss)" unfolding m by (simp add: distinct_map)
    then show ?thesis by (simp add: distinct_map)
  qed simp
  ultimately show ?thesis using ss(1,3) by (auto simp: list_all_iff)
qed

lemma sessions_positive_distinct_witness:
  "\<exists>N'. new_sessions 3 1 (put_ctx 1 ((new_context 0 9 False)\<lparr>c_session_id := 0x7ffffffe\<rparr>) demo_node)
     = Some ([0x7fffffff, 1, 2], N')"
proof -
  have c: "ctxs (put_ctx 1 ((new_context 0 9 False)\<lparr>c_session_id := 0x7ffffffe\<rparr>) demo_node) 1
      = Some ((new_context 0 9 False)\<lparr>c_session_id := 0x7ffffffe\<rparr>)" by simp
  obtain ss N' where s: "new_sessions 3 1 (put_ctx 1 ((new_context 0 9 False)\<lparr>c_session_id := 0x7ffffffe\<rparr>) demo_node)
      = Some (ss, N')" "map unat ss = [0x7fffffff, 1, 2]"
    using sessions_positive_distinct [OF c, of 3] by (auto simp: numeral_3_eq_3 new_context_def)
  have "map unat ss = map unat [0x7fffffff :: u32, 1, 2]" using s(2) by simp
  then have "ss = [0x7fffffff, 1, 2]" by (rule injD [OF inj_mapI, rotated]) (simp add: inj_def word_unat_eq_iff)
  then show ?thesis using s(1) by blast
qed

end
