(* ===== verification/CommandProps.thy ===== *)
theory CommandProps
  imports Delivery
begin

text \<open>
  Properties of the text commands: the text form of a handle, and the log commands, which the
  swapped arguments of \<open>ATOM_CAS_POINTER\<close> break on Windows.
\<close>

section \<open>Handles as text\<close>

lemma id_to_hex_digits:
  "map (\<lambda>i. hex_digit_upper (unat (drop_bit ((7 - i) * 4) h AND 0xf))) [0..<8]
     = map (\<lambda>k. hex_digit_upper (unat h div 2 ^ k mod 16)) [28, 24, 20, 16, 12, 8, 4, 0]"
  for h :: u32
proof -
  have F: "(0xf :: u32) = mask 4" by (simp add: mask_eq_exp_minus_1)
  have "unat (drop_bit k h AND 0xf) = unat h div 2 ^ k mod 16" for k
    unfolding F unat_and_mask unat_shiftr by simp
  then show ?thesis by (simp add: upt_conv_Cons)
qed

lemma id_to_hex_value: "fst (read_digits 16 (tl (id_to_hex h)) 0) = unat h"
proof -
  define n where "n = unat h"
  have n: "n < 2 ^ 32" using unsigned_less [of h] by (simp add: n_def)
  have top: "0 * 16 + n div 2 ^ 28 mod 16 = n div 2 ^ 28" using n by (simp add: div_less_iff_less_mult)
  have step: "n div (m * 16) * 16 + n div m mod 16 = n div m" for m
    by (simp add: div_mult2_eq)
  note steps = step [of "2 ^ 24"] step [of "2 ^ 20"] step [of "2 ^ 16"] step [of "2 ^ 12"] step [of "2 ^ 8"]
    step [of "2 ^ 4"] step [of "2 ^ 0"]
  have pw: "(2::nat) ^ 24 * 16 = 2 ^ 28" "(2::nat) ^ 20 * 16 = 2 ^ 24" "(2::nat) ^ 16 * 16 = 2 ^ 20"
    "(2::nat) ^ 12 * 16 = 2 ^ 16" "(2::nat) ^ 8 * 16 = 2 ^ 12" "(2::nat) ^ 4 * 16 = 2 ^ 8" "(2::nat) ^ 0 * 16 = 2 ^ 4"
    by simp_all
  have d: "digit_val 16 (hex_digit_upper (m mod 16)) = Some (m mod 16)" for m
    by (rule digit_val_hex_upper) simp
  have "fst (read_digits 16 (map (\<lambda>k. hex_digit_upper (n div 2 ^ k mod 16)) [28, 24, 20, 16, 12, 8, 4, 0]) 0) = n div 2 ^ 0"
    by (simp only: list.map read_digits.simps d option.case top steps [unfolded pw] fst_conv)
  then show ?thesis
    unfolding id_to_hex_def list.sel id_to_hex_digits n_def [symmetric] by simp
qed

text \<open>
  The text of a handle names it: \<open>:%x\<close> (written by \<open>REG\<close>, \<open>QUERY\<close> and \<open>MONITOR\<close>) and the
  eight digits of \<open>id_to_hex\<close> (written by \<open>LAUNCH\<close>) are read back as the same handle, by
  \<open>tohandle\<close> (\<open>KILL\<close>, \<open>LOGON\<close>, \<open>SIGNAL\<close>) and by \<open>skynet_queryname\<close>, for every handle, and fit
  the 32 bytes of the result buffer with their NUL.
\<close>

theorem handle_text_roundtrip:
  "tohandle H a (id_to_hex h) N = Some (h, N) \<and>
   tohandle H a (CHR '':'' # hex_str (unat h)) N = Some (h, N) \<and>
   skynet_queryname H ctx (id_to_hex h) N = Some (h, N) \<and>
   skynet_queryname H ctx (CHR '':'' # hex_str (unat h)) N = Some (h, N) \<and>
   length (id_to_hex h) + 1 \<le> 32 \<and> length (CHR '':'' # hex_str (unat h)) + 1 \<le> 32"
proof -
  have lt: "unat h < 2 ^ 32" using unsigned_less [of h] by simp
  let ?t = "tl (id_to_hex h)"
  have t: "id_to_hex h = CHR '':'' # ?t" by (simp add: id_to_hex_def)
  have ne: "?t \<noteq> []" by (simp add: id_to_hex_def)
  have "c \<in> set ?t \<Longrightarrow> digit_val 16 c \<noteq> None" for c
    unfolding id_to_hex_def list.sel id_to_hex_digits by (auto simp: digit_val_hex_upper)
  then have v: "strtoul16 ?t = h"
    using strtoul16_digits [OF ne] lt by (simp add: id_to_hex_value)
  have "length (hex_str (unat h)) \<le> 8"
    using length_hex_str [of "unat h" 7] lt by simp
  moreover have "length (id_to_hex h) = 9" by (simp add: id_to_hex_def)
  moreover have "tohandle H a (CHR '':'' # u) N = Some (strtoul16 u, N)" for u
    by (simp add: tohandle_def first_char_def)
  moreover have "skynet_queryname H ctx (CHR '':'' # u) N = Some (strtoul16 u, N)" for u
    by (simp add: skynet_queryname_def first_char_def)
  ultimately show ?thesis
    using v strtoul16_hex [of h] by (subst (1 2) t) simp
qed


section \<open>The log commands\<close>

lemma node_ok_ref:
  assumes "node_ok xs N" and "ctxs N b = Some c" and "r \<noteq> 0"
  shows "node_ok xs (put_ctx b (c\<lparr>c_ref := r\<rparr>) N)"
proof -
  have h: "handle_of (put_ctx b (c\<lparr>c_ref := r\<rparr>) N) = handle_of N"
    using assms(2) by (auto simp: handle_of_def fun_eq_iff)
  have "ctx_ok xs N d \<Longrightarrow> ctx_ok xs (put_ctx b (c\<lparr>c_ref := r\<rparr>) N) d" for d
    using assms(2,3) by (auto simp: ctx_ok_def)
  then show ?thesis using assms(1) by (simp add: node_ok_def h) (simp add: put_ctx_def)
qed

lemma node_ok_alloc: "node_ok xs N \<Longrightarrow> node_ok xs (N\<lparr>files := F, next_addr := next_addr N + 1\<rparr>)"
  unfolding node_ok_def ctx_ok_def queue_ready_def gq_rep_def handle_of_def
  by (auto intro: less_SucI simp: less_Suc_eq)

lemma node_ok_log:
  assumes "node_ok xs N" and "ctxs N b = Some c"
  shows "node_ok xs (put_ctx b (c\<lparr>c_logfile := f\<rparr>) N)"
    "service (put_ctx b (c\<lparr>c_logfile := f\<rparr>) N) h = service N h"
proof -
  have h: "handle_of (put_ctx b (c\<lparr>c_logfile := f\<rparr>) N) = handle_of N"
    using assms(2) by (auto simp: handle_of_def fun_eq_iff)
  have "ctx_ok xs N d \<Longrightarrow> ctx_ok xs (put_ctx b (c\<lparr>c_logfile := f\<rparr>) N) d" for d
    using assms(2) by (auto simp: ctx_ok_def)
  then show "node_ok xs (put_ctx b (c\<lparr>c_logfile := f\<rparr>) N)"
    using assms(1) by (simp add: node_ok_def h) (simp add: put_ctx_def)
  show "service (put_ctx b (c\<lparr>c_logfile := f\<rparr>) N) h = service N h"
    by (simp add: service_def h)
qed

lemma put_same_log: "c_logfile c = f \<Longrightarrow> put_ctx b (c\<lparr>c_ref := r, c_logfile := f\<rparr>) N = put_ctx b (c\<lparr>c_ref := r\<rparr>) N"
  by (cases c) simp

lemma service_nonzero: "node_ok xs N \<Longrightarrow> service N h = Some a \<Longrightarrow> h \<noteq> 0"
  using service_in_table [of xs N h a] table_ok_slot(2) [of "handle_of N" "storage N" _ a]
  by (auto simp: node_ok_def in_set_conv_nth table_ok_def)

lemma grab_service:
  assumes "node_ok xs N" and "service N h = Some b" and "ctxs N b = Some c"
  shows "skynet_handle_grab h N = Some (Some b, put_ctx b (c\<lparr>c_ref := c_ref c + 1\<rparr>) N)"
  using assms handle_grab_lookup [of "handle_of N" "storage N" h]
  by (simp add: skynet_handle_grab_def skynet_context_grab_def node_ok_def service_def)

lemma release_grabbed:
  assumes "ctxs N b = Some (c\<lparr>c_ref := c_ref c + 1\<rparr>)" and "c_ref c \<noteq> 0"
  shows "skynet_context_release H b N = Some (Some b, put_ctx b c N)"
  using assms by (simp add: skynet_context_release_def Let_def)

lemma tohandle_hex: "tohandle H a (CHR '':'' # hex_str (unat h)) N = Some (h, N)"
  by (simp add: tohandle_def first_char_def strtoul16_hex)

lemma put_ctx_twice: "put_ctx b c (put_ctx b d N) = put_ctx b c N"
  by (simp add: put_ctx_def)

text \<open>
  \<open>LOGON\<close> on Windows opens the log file and reports success but never attaches it: for every
  service without a log whose file can be opened, afterwards the file is open, no context has
  changed (so the service still has no log file), and no error was reported.  Each further call
  opens and loses another file.
\<close>

theorem logon_never_logs:
  assumes ok: "node_ok xs N" and sv: "service N h = Some b" and c: "ctxs N b = Some c"
    and "c_logfile c = 0" and ref: "c_ref c \<noteq> - 1" and a: "ctxs N a \<noteq> None"
    and path: "env N ''logpath'' = Some path" and op: "\<And>M. h_fopen H (path @ ''/'' @ hex8 h @ ''.log'') M"
  shows "\<exists>N'. cmd_logon H a (Some (CHR '':'' # hex_str (unat h))) N = Some (None, N') \<and>
    files N' = insert (next_addr N) (files N) \<and> ctxs N' = ctxs N"
proof -
  let ?c1 = "c\<lparr>c_ref := c_ref c + 1\<rparr>"
  let ?N1 = "put_ctx b ?c1 N"
  let ?N2 = "?N1\<lparr>files := insert (next_addr N) (files N), next_addr := next_addr N + 1\<rparr>"
  have r0: "c_ref c \<noteq> 0" using service_ctx_ok [OF ok sv] c by (auto simp: ctx_ok_def)
  have r1: "c_ref c + 1 \<noteq> 0" using ref by (simp add: eq_neg_iff_add_eq_0)
  have h0: "h \<noteq> 0" by (rule service_nonzero [OF ok sv])
  have f0: "next_addr N \<noteq> 0" using ok by (simp add: node_ok_def)
  have "node_ok xs ?N1" by (rule node_ok_ref [OF ok c r1])
  then have ok2: "node_ok xs ?N2" using node_ok_alloc [of xs ?N1] by (simp add: put_ctx_def)
  have "ctxs ?N2 a \<noteq> None" using a by (simp add: put_ctx_def)
  then obtain N3 where e: "skynet_error H (Some a) (''Open log file '' @ path @ ''/'' @ hex8 h @ ''.log'') ?N2 = Some N3"
    "delivers ?N2 N3"
    using error_ok [OF ok2, of "Some a"] by blast
  have N3: "ctxs N3 = (ctxs N)(b \<mapsto> ?c1)" "files N3 = insert (next_addr N) (files N)"
    using e(2) by (simp_all add: delivers_def put_ctx_def)
  have open': "skynet_log_open H a h ?N1 = Some (next_addr N, N3)"
    using path op e(1) by (simp add: skynet_log_open_def skynet_getenv_def put_ctx_def)
  have "put_ctx b ?c1 N3 = N3" using N3(1) by (simp add: put_ctx_def fun_upd_idem)
  then have "cmd_logon H a (Some (CHR '':'' # hex_str (unat h))) N
      = do { (_, N5) \<leftarrow> skynet_context_release H b N3; Some (None, N5) }"
    using grab_service [OF ok sv c] h0 open' f0 N3(1) assms(4)
    by (simp add: cmd_logon_def tohandle_hex atom_cas_pointer_def put_same_log)
  also have "\<dots> = Some (None, put_ctx b c N3)"
    using release_grabbed [of N3 b c H] N3(1) r0 by simp
  finally show ?thesis
    using N3 c by (intro exI [of _ "put_ctx b c N3"]) (simp add: put_ctx_def fun_upd_idem)
qed

lemma demo_env_ok: "node_ok [] (demo_node\<lparr>env := e, files := f\<rparr>)"
  "service (demo_node\<lparr>env := e, files := f\<rparr>) 0x1000001 = Some 1"
  using demo_ok demo_service(1)
  by (simp_all add: node_ok_def ctx_ok_def queue_ready_def gq_rep_def handle_of_def [abs_def] service_def)

lemma logon_never_logs_witness:
  "\<exists>N' c. cmd_logon demo_host 1 (Some '':1000001'') (demo_node\<lparr>env := [''logpath'' \<mapsto> ''.''], files := {}\<rparr>) = Some (None, N') \<and>
    files N' = {4} \<and> ctxs N' 1 = Some c \<and> c_logfile c = 0"
proof -
  let ?c = "(new_context 0 9 False)\<lparr>c_handle := 0x1000001, c_queue := 2, c_ref := 1\<rparr>"
  let ?N = "demo_node\<lparr>env := [''logpath'' \<mapsto> ''.''], files := {}\<rparr>"
  have t: "CHR '':'' # hex_str (unat (0x1000001 :: u32)) = '':1000001''"
    by (simp add: hex_str.simps hex_digit_def char_of_def bit_iff_odd)
  have n: "next_addr ?N = 4" "files ?N = {}" "ctxs ?N 1 = Some ?c" "env ?N ''logpath'' = Some ''.''"
    by (simp_all add: demo_node_def)
  have "\<exists>N'. cmd_logon demo_host 1 (Some (CHR '':'' # hex_str (unat (0x1000001 :: u32)))) ?N = Some (None, N') \<and>
    files N' = insert (next_addr ?N) (files ?N) \<and> ctxs N' = ctxs ?N"
    by (rule logon_never_logs [OF demo_env_ok n(3) _ _ _ n(4)])
      (use n(3) in \<open>simp_all add: new_context_def demo_host_def\<close>)
  then show ?thesis unfolding t n using n(3) by (auto simp: new_context_def)
qed

text \<open>
  \<open>LOGOFF\<close> on Windows closes the log file but leaves it attached: the context keeps pointing
  to the closed file, into which the next message of the service is logged.
\<close>

theorem logoff_keeps_closed_file:
  assumes ok: "node_ok xs N" and sv: "service N h = Some b" and c: "ctxs N b = Some c"
    and f: "c_logfile c = f" "f \<noteq> 0" "f \<in> files N" and ref: "c_ref c \<noteq> - 1" and a: "ctxs N a \<noteq> None"
  shows "\<exists>N'. cmd_logoff H a (Some (CHR '':'' # hex_str (unat h))) N = Some (None, N') \<and>
    files N' = files N - {f} \<and> ctxs N' = ctxs N"
proof -
  let ?c1 = "c\<lparr>c_ref := c_ref c + 1\<rparr>"
  let ?N1 = "put_ctx b ?c1 N"
  have r0: "c_ref c \<noteq> 0" using service_ctx_ok [OF ok sv] c by (auto simp: ctx_ok_def)
  have r1: "c_ref c + 1 \<noteq> 0" using ref by (simp add: eq_neg_iff_add_eq_0)
  have h0: "h \<noteq> 0" by (rule service_nonzero [OF ok sv])
  have ok1: "node_ok xs ?N1" by (rule node_ok_ref [OF ok c r1])
  have "ctxs ?N1 a \<noteq> None" using a by simp
  then obtain N3 where e: "skynet_error H (Some a) (''Close log file :'' @ hex8 h) ?N1 = Some N3" "delivers ?N1 N3"
    using error_ok [OF ok1, of "Some a"] by blast
  have N3: "ctxs N3 = (ctxs N)(b \<mapsto> ?c1)" "files N3 = files N"
    using e(2) by (simp_all add: delivers_def put_ctx_def)
  let ?N4 = "N3\<lparr>files := files N3 - {f}\<rparr>"
  have close: "skynet_log_close H a f h ?N1 = Some ?N4"
    using e(1) N3(2) f(3) by (simp add: skynet_log_close_def file_close_def)
  have "cmd_logoff H a (Some (CHR '':'' # hex_str (unat h))) N
      = do { (_, N5) \<leftarrow> skynet_context_release H b ?N4; Some (None, N5) }"
    using grab_service [OF ok sv c] h0 f close
    by (simp add: cmd_logoff_def tohandle_hex atom_cas_pointer_def put_ctx_twice put_same_log)
  also have "\<dots> = Some (None, put_ctx b c ?N4)"
    using release_grabbed [of ?N4 b c H] N3(1) r0 by simp
  finally show ?thesis
    using N3 c by (intro exI [of _ "put_ctx b c ?N4"]) (simp add: put_ctx_def fun_upd_idem)
qed

lemma logoff_keeps_closed_file_witness:
  "\<exists>N' c. cmd_logoff demo_host 1 (Some '':1000001'')
      (put_ctx 1 ((new_context 0 9 False)\<lparr>c_handle := 0x1000001, c_queue := 2, c_ref := 1, c_logfile := 3\<rparr>)
        (demo_node\<lparr>env := Map.empty, files := {3}\<rparr>)) = Some (None, N') \<and>
    files N' = {} \<and> ctxs N' 1 = Some c \<and> c_logfile c = 3"
proof -
  let ?c = "(new_context 0 9 False)\<lparr>c_handle := 0x1000001, c_queue := 2, c_ref := 1, c_logfile := 3\<rparr>"
  let ?N = "put_ctx 1 ?c (demo_node\<lparr>env := Map.empty, files := {3}\<rparr>)"
  have t: "CHR '':'' # hex_str (unat (0x1000001 :: u32)) = '':1000001''"
    by (simp add: hex_str.simps hex_digit_def char_of_def bit_iff_odd)
  have d: "ctxs (demo_node\<lparr>env := Map.empty, files := {3}\<rparr>) 1 = Some (?c\<lparr>c_logfile := 0\<rparr>)"
    by (simp add: demo_node_def new_context_def)
  have ok: "node_ok [] ?N" "service ?N 0x1000001 = Some 1"
    using node_ok_log [OF demo_env_ok(1) d, of 3] demo_env_ok(2) by simp_all
  have "\<exists>N'. cmd_logoff demo_host 1 (Some (CHR '':'' # hex_str (unat (0x1000001 :: u32)))) ?N = Some (None, N') \<and>
    files N' = files ?N - {3} \<and> ctxs N' = ctxs ?N"
    by (rule logoff_keeps_closed_file [OF ok, of ?c])
      (simp_all add: new_context_def put_ctx_def)
  then show ?thesis unfolding t by (auto simp: new_context_def put_ctx_def)
qed

end
