(* ===== verification/DataBuffer.thy ===== *)
theory DataBuffer
  imports Prelude
begin

text \<open>
  The byte queue of \<^verbatim>\<open>service-src/databuffer.h\<close>: received blocks are linked message nodes taken
  from a shared pool of chunks, and are read as one stream of bytes.  The nodes live in a store
  (\<open>cells\<close>), addressed by numbers; a chunk occupies \<open>MESSAGEPOOL\<close> consecutive addresses.
  C \<open>int\<close>s are \<open>int\<close>s, and a result outside their range (signed overflow) is \<open>None\<close>.
\<close>

definition MESSAGEPOOL :: nat where "MESSAGEPOOL = 1023"

section \<open>Data\<close>

record message =
  msg_buffer :: "u8 list option"
  msg_size :: int
  msg_next :: "addr option"

record databuffer =
  db_header :: int
  db_offset :: int
  db_size :: int
  db_head :: "addr option"
  db_tail :: "addr option"

record messagepool =
  cells :: "addr \<rightharpoonup> message"
  chunks :: "addr list"
  freelist :: "addr option"
  pool_next :: addr

definition databuffer_zero :: databuffer where
  "databuffer_zero = \<lparr>db_header = 0, db_offset = 0, db_size = 0, db_head = None, db_tail = None\<rparr>"

definition messagepool_zero :: messagepool where
  "messagepool_zero = \<lparr>cells = Map.empty, chunks = [], freelist = None, pool_next = 0\<rparr>"

section \<open>Operations\<close>

definition messagepool_free :: "messagepool \<Rightarrow> messagepool" where
  "messagepool_free mp = mp\<lparr>
     cells := (\<lambda>a. if \<exists>b \<in> set (chunks mp). b \<le> a \<and> a < b + MESSAGEPOOL then None else cells mp a),
     chunks := [], freelist := None\<rparr>"

definition return_message :: "databuffer \<Rightarrow> messagepool \<Rightarrow> (databuffer \<times> messagepool) option" where
  "return_message db mp = do {
     a \<leftarrow> db_head db;
     m \<leftarrow> cells mp a;
     db1 \<leftarrow> (case msg_next m of
        None \<Rightarrow> do {
          assert_that (db_tail db = Some a);
          Some (db\<lparr>db_head := None, db_tail := None\<rparr>) }
      | Some n \<Rightarrow> Some (db\<lparr>db_head := Some n\<rparr>));
     Some (db1, mp\<lparr>cells := (cells mp)(a \<mapsto> \<lparr>msg_buffer = None, msg_size = 0, msg_next = freelist mp\<rparr>),
                  freelist := Some a\<rparr>) }"

text \<open>\<open>memcpy\<close> of \<open>n\<close> bytes from a block at an offset.\<close>

definition copy_bytes :: "u8 list option \<Rightarrow> int \<Rightarrow> int \<Rightarrow> u8 list option" where
  "copy_bytes b off n = do {
     bs \<leftarrow> b;
     assert_that (0 \<le> off \<and> 0 \<le> n \<and> off + n \<le> int (length bs));
     Some (take (nat n) (drop (nat off) bs)) }"

partial_function (option) read_loop ::
  "databuffer \<Rightarrow> messagepool \<Rightarrow> int \<Rightarrow> (u8 list \<times> databuffer \<times> messagepool) option" where
  "read_loop db mp sz = do {
     a \<leftarrow> db_head db;
     m \<leftarrow> cells mp a;
     bsz \<leftarrow> int_range (msg_size m - db_offset db);
     if bsz > sz then do {
       d \<leftarrow> copy_bytes (msg_buffer m) (db_offset db) sz;
       off \<leftarrow> int_range (db_offset db + sz);
       Some (d, db\<lparr>db_offset := off\<rparr>, mp) }
     else if bsz = sz then do {
       d \<leftarrow> copy_bytes (msg_buffer m) (db_offset db) sz;
       (db1, mp1) \<leftarrow> return_message (db\<lparr>db_offset := 0\<rparr>) mp;
       Some (d, db1, mp1) }
     else do {
       d \<leftarrow> copy_bytes (msg_buffer m) (db_offset db) bsz;
       (db1, mp1) \<leftarrow> return_message db mp;
       (ds, r) \<leftarrow> read_loop (db1\<lparr>db_offset := 0\<rparr>) mp1 (sz - bsz);
       Some (d @ ds, r) } }"

definition databuffer_read ::
  "databuffer \<Rightarrow> messagepool \<Rightarrow> int \<Rightarrow> (u8 list \<times> databuffer \<times> messagepool) option" where
  "databuffer_read db mp sz = do {
     assert_that (db_size db \<ge> sz);
     s \<leftarrow> int_range (db_size db - sz);
     read_loop (db\<lparr>db_size := s\<rparr>) mp sz }"

definition new_chunk :: "messagepool \<Rightarrow> messagepool" where
  "new_chunk mp = (let b = pool_next mp in mp\<lparr>
     cells := (\<lambda>a. if b < a \<and> a < b + MESSAGEPOOL
        then Some \<lparr>msg_buffer = None, msg_size = 0,
               msg_next = (if a = b + MESSAGEPOOL - 1 then None else Some (a + 1))\<rparr>
        else cells mp a),
     chunks := b # chunks mp, freelist := Some (b + 1), pool_next := b + MESSAGEPOOL\<rparr>)"

text \<open>The node for a new block: the first free one, or the first of a new chunk.\<close>

definition take_message :: "messagepool \<Rightarrow> (addr \<times> messagepool) option" where
  "take_message mp =
     (case freelist mp of
        Some a \<Rightarrow> do { m \<leftarrow> cells mp a; Some (a, mp\<lparr>freelist := msg_next m\<rparr>) }
      | None \<Rightarrow> Some (pool_next mp, new_chunk mp))"

definition databuffer_push ::
  "databuffer \<Rightarrow> messagepool \<Rightarrow> u8 list \<Rightarrow> int \<Rightarrow> (databuffer \<times> messagepool) option" where
  "databuffer_push db mp data sz = do {
     (a, mp1) \<leftarrow> take_message mp;
     let mp2 = mp1\<lparr>cells := (cells mp1)(a \<mapsto> \<lparr>msg_buffer = Some data, msg_size = sz, msg_next = None\<rparr>)\<rparr>;
     s \<leftarrow> int_range (db_size db + sz);
     let db1 = db\<lparr>db_size := s\<rparr>;
     (case db_head db1 of
        None \<Rightarrow> do {
          assert_that (db_tail db1 = None);
          Some (db1\<lparr>db_head := Some a, db_tail := Some a\<rparr>, mp2) }
      | Some _ \<Rightarrow> do {
          t \<leftarrow> db_tail db1;
          m \<leftarrow> cells mp2 t;
          Some (db1\<lparr>db_tail := Some a\<rparr>, mp2\<lparr>cells := (cells mp2)(t \<mapsto> m\<lparr>msg_next := Some a\<rparr>)\<rparr>) }) }"

text \<open>Big-endian bytes as a C \<open>int\<close>: the top bit of four bytes is the sign.\<close>

definition header_value :: "u8 list \<Rightarrow> int" where
  "header_value bs = (if length bs = 2
     then int (unat (bs ! 0) * 256 + unat (bs ! 1))
     else sint (push_bit 24 (ucast (bs ! 0)) OR push_bit 16 (ucast (bs ! 1))
            OR push_bit 8 (ucast (bs ! 2)) OR ucast (bs ! 3) :: u32))"

definition databuffer_readheader ::
  "databuffer \<Rightarrow> messagepool \<Rightarrow> nat \<Rightarrow> (int \<times> databuffer \<times> messagepool) option" where
  "databuffer_readheader db mp header_size =
     (if db_header db = 0 then
        if db_size db < int header_size then Some (- 1, db, mp)
        else do {
          (plen, db1, mp1) \<leftarrow> databuffer_read db mp (int header_size);
          let db2 = db1\<lparr>db_header := header_value plen\<rparr>;
          Some (if db_size db2 < db_header db2 then - 1 else db_header db2, db2, mp1) }
      else Some (if db_size db < db_header db then - 1 else db_header db, db, mp))"

definition databuffer_reset :: "databuffer \<Rightarrow> databuffer" where
  "databuffer_reset db = db\<lparr>db_header := 0\<rparr>"

partial_function (option) clear_loop :: "databuffer \<Rightarrow> messagepool \<Rightarrow> messagepool option" where
  "clear_loop db mp =
     (if db_head db = None then Some mp
      else do { (db1, mp1) \<leftarrow> return_message db mp; clear_loop db1 mp1 })"

definition databuffer_clear :: "databuffer \<Rightarrow> messagepool \<Rightarrow> (databuffer \<times> messagepool) option" where
  "databuffer_clear db mp = do { mp1 \<leftarrow> clear_loop db mp; Some (databuffer_zero, mp1) }"


section \<open>Representation\<close>

fun mchain :: "(addr \<rightharpoonup> message) \<Rightarrow> addr option \<Rightarrow> addr list \<Rightarrow> bool" where
  "mchain c p [] \<longleftrightarrow> p = None"
| "mchain c p (x # xs) \<longleftrightarrow> p = Some x \<and> (\<exists>m. c x = Some m \<and> mchain c (msg_next m) xs)"

definition first :: "addr list \<Rightarrow> addr option" where
  "first xs = (if xs = [] then None else Some (hd xs))"

definition final :: "addr list \<Rightarrow> addr option" where
  "final xs = (if xs = [] then None else Some (last xs))"

lemma first_final_simps [simp]:
  "first [] = None" "first (x # xs) = Some x" "final [] = None" "final (xs @ [x]) = Some x"
  "final (x # y # ys) = final (y # ys)" "final [x] = Some x"
  by (simp_all add: first_def final_def)

lemma mchain_first: "mchain c p xs \<Longrightarrow> p = first xs"
  by (cases xs) auto

lemma mchain_dom: "mchain c p xs \<Longrightarrow> x \<in> set xs \<Longrightarrow> \<exists>m. c x = Some m"
  by (induction xs arbitrary: p) auto

lemma mchain_cong: "(\<And>x. x \<in> set xs \<Longrightarrow> c' x = c x) \<Longrightarrow> mchain c' p xs = mchain c p xs"
  by (induction xs arbitrary: p) auto

lemma mchain_upd [simp]: "x \<notin> set xs \<Longrightarrow> mchain (c(x \<mapsto> m)) p xs = mchain c p xs"
  by (rule mchain_cong) auto

lemma mchain_snoc:
  assumes "mchain c p (xs @ [t])" and "distinct (xs @ [t])" and "c t = Some m" and "a \<notin> set (xs @ [t])"
    and "c a = Some n" "msg_next n = None"
  shows "mchain (c(t \<mapsto> m\<lparr>msg_next := Some a\<rparr>)) p (xs @ [t, a])"
  using assms
proof (induction xs arbitrary: p)
  case Nil
  then show ?case by auto
next
  case (Cons x xs)
  then obtain k where k: "p = Some x" "c x = Some k" "mchain c (msg_next k) (xs @ [t])" by auto
  moreover have "x \<noteq> t" using Cons.prems(2) by auto
  ultimately show ?case using Cons.IH [OF k(3)] Cons.prems by simp
qed

text \<open>The free list of the pool is the chain \<open>ys\<close>; addresses from \<open>pool_next\<close> on are unused.\<close>

definition pool_ok :: "messagepool \<Rightarrow> addr list \<Rightarrow> bool" where
  "pool_ok P ys \<longleftrightarrow> mchain (cells P) (freelist P) ys \<and> distinct ys \<and> (\<forall>a. cells P a \<noteq> None \<longrightarrow> a < pool_next P)"

definition block_ok :: "messagepool \<Rightarrow> addr \<Rightarrow> bool" where
  "block_ok P x \<longleftrightarrow> (\<exists>m b. cells P x = Some m \<and> msg_buffer m = Some b \<and> 0 \<le> msg_size m \<and> msg_size m \<le> int (length b) \<and> msg_size m < 2 ^ 31)"

definition node_bytes :: "messagepool \<Rightarrow> addr \<Rightarrow> u8 list" where
  "node_bytes P x = (case cells P x of None \<Rightarrow> [] | Some m \<Rightarrow> take (nat (msg_size m)) (the (msg_buffer m)))"

text \<open>The buffer is the chain \<open>xs\<close> of blocks, whose first \<open>db_offset\<close> bytes are read.\<close>

definition queue_rep :: "messagepool \<Rightarrow> databuffer \<Rightarrow> addr list \<Rightarrow> bool" where
  "queue_rep P db xs \<longleftrightarrow> mchain (cells P) (db_head db) xs \<and> distinct xs \<and> db_tail db = final xs \<and>
     (\<forall>x \<in> set xs. block_ok P x) \<and> 0 \<le> db_offset db \<and>
     (case xs of [] \<Rightarrow> db_offset db = 0 | x # _ \<Rightarrow> db_offset db \<le> int (length (node_bytes P x)))"

definition stream :: "messagepool \<Rightarrow> databuffer \<Rightarrow> addr list \<Rightarrow> u8 list" where
  "stream P db xs = drop (nat (db_offset db)) (concat (map (node_bytes P) xs))"

definition db_rep :: "messagepool \<Rightarrow> databuffer \<Rightarrow> addr list \<Rightarrow> bool" where
  "db_rep P db xs \<longleftrightarrow> queue_rep P db xs \<and> db_size db = int (length (stream P db xs)) \<and> db_size db < 2 ^ 31"

text \<open>What an operation on one buffer may do to the pool: only its own nodes, free nodes and
  new nodes change.\<close>

definition moves :: "messagepool \<Rightarrow> addr set \<Rightarrow> messagepool \<Rightarrow> addr set \<Rightarrow> bool" where
  "moves P A P' A' \<longleftrightarrow> (\<forall>a. a \<notin> A \<and> a < pool_next P \<longrightarrow> cells P' a = cells P a) \<and>
     (\<forall>a \<in> A'. a \<in> A \<or> pool_next P \<le> a) \<and> pool_next P \<le> pool_next P'"

lemma moves_trans: "moves P A P1 A1 \<Longrightarrow> moves P1 A1 P2 A2 \<Longrightarrow> moves P A P2 A2"
  unfolding moves_def by (metis (no_types, lifting) le_trans linorder_not_less order_less_le_trans)

lemma moves_refl: "moves P A P A" by (simp add: moves_def)

lemma block_ok_cong: "cells P' x = cells P x \<Longrightarrow> block_ok P' x = block_ok P x"
  by (simp add: block_ok_def)

lemma node_bytes_cong: "cells P' x = cells P x \<Longrightarrow> node_bytes P' x = node_bytes P x"
  by (simp add: node_bytes_def)

lemma queue_rep_cong:
  assumes "\<And>x. x \<in> set xs \<Longrightarrow> cells P' x = cells P x"
  shows "queue_rep P' db xs = queue_rep P db xs" "stream P' db xs = stream P db xs"
  using assms mchain_cong [of xs "cells P'" "cells P"] block_ok_cong [of P' _ P] node_bytes_cong [of P' _ P]
  by (auto simp: queue_rep_def stream_def split: list.splits intro!: arg_cong [where f = "drop _"] arg_cong [where f = concat])

lemma queue_rep_size [simp]:
  "queue_rep P (db\<lparr>db_size := n\<rparr>) xs = queue_rep P db xs" "stream P (db\<lparr>db_size := n\<rparr>) xs = stream P db xs"
  "queue_rep P (db\<lparr>db_header := h\<rparr>) xs = queue_rep P db xs" "stream P (db\<lparr>db_header := h\<rparr>) xs = stream P db xs"
  by (cases xs; simp add: queue_rep_def stream_def)+

lemma db_rep_header [simp]: "db_rep P (db\<lparr>db_header := h\<rparr>) xs = db_rep P db xs"
  by (simp add: db_rep_def)

section \<open>Reading\<close>

definition give_back :: "addr \<Rightarrow> messagepool \<Rightarrow> messagepool" where
  "give_back x P = P\<lparr>cells := (cells P)(x \<mapsto> \<lparr>msg_buffer = None, msg_size = 0, msg_next = freelist P\<rparr>), freelist := Some x\<rparr>"

lemma return_message_spec:
  assumes "mchain (cells P) (db_head db) (x # xs)" and "db_tail db = final (x # xs)" and "distinct (x # xs)"
  shows "return_message db P = Some (db\<lparr>db_head := first xs, db_tail := final xs\<rparr>, give_back x P)"
proof -
  obtain m where m: "db_head db = Some x" "cells P x = Some m" "mchain (cells P) (msg_next m) xs"
    using assms(1) by auto
  have "msg_next m = first xs" by (rule mchain_first [OF m(3)])
  then have "(case msg_next m of
        None \<Rightarrow> do { assert_that (db_tail db = Some x); Some (db\<lparr>db_head := None, db_tail := None\<rparr>) }
      | Some n \<Rightarrow> Some (db\<lparr>db_head := Some n\<rparr>)) = Some (db\<lparr>db_head := first xs, db_tail := final xs\<rparr>)"
    using assms(2) by (cases xs) auto
  then show ?thesis using m by (simp add: return_message_def give_back_def)
qed

lemma give_back_ok:
  assumes "pool_ok P ys" and "cells P x \<noteq> None" and "x \<notin> set ys"
  shows "pool_ok (give_back x P) (x # ys)" "\<And>a. a \<noteq> x \<Longrightarrow> cells (give_back x P) a = cells P a"
    "pool_next (give_back x P) = pool_next P"
  using assms by (auto simp: pool_ok_def give_back_def)

lemma copy_bytes_node:
  assumes "block_ok P x" and "cells P x = Some m" and "0 \<le> off" and "0 \<le> n" and "off + n \<le> int (length (node_bytes P x))"
  shows "copy_bytes (msg_buffer m) off n = Some (take (nat n) (drop (nat off) (node_bytes P x)))"
proof -
  obtain b where b: "msg_buffer m = Some b" "0 \<le> msg_size m" "msg_size m \<le> int (length b)"
    using assms(1,2) by (auto simp: block_ok_def)
  have "nat n \<le> nat (msg_size m) - nat off" using assms(2-5) b by (simp add: node_bytes_def)
  then have "take (nat n) (drop (nat off) (take (nat (msg_size m)) b)) = take (nat n) (drop (nat off) b)"
    by (simp add: drop_take min_def)
  moreover have "off + n \<le> int (length b)" using assms(2,5) b by (simp add: node_bytes_def)
  ultimately show ?thesis using assms(2-4) b by (simp add: copy_bytes_def node_bytes_def)
qed

lemma length_node_bytes: "block_ok P x \<Longrightarrow> cells P x = Some m \<Longrightarrow> int (length (node_bytes P x)) = msg_size m"
  by (auto simp: block_ok_def node_bytes_def)

lemma read_loop_spec:
  assumes "queue_rep P db xs" and "pool_ok P ys" and "set xs \<inter> set ys = {}"
    and "0 < sz" and "sz \<le> int (length (stream P db xs))" and "sz < 2 ^ 31"
  shows "\<exists>db' P' xs' ys'. read_loop db P sz = Some (take (nat sz) (stream P db xs), db', P') \<and>
    queue_rep P' db' xs' \<and> pool_ok P' ys' \<and> set xs' \<inter> set ys' = {} \<and>
    stream P' db' xs' = drop (nat sz) (stream P db xs) \<and>
    moves P (set xs \<union> set ys) P' (set xs' \<union> set ys') \<and> db_size db' = db_size db \<and> db_header db' = db_header db"
  using assms
proof (induction xs arbitrary: P db ys sz)
  case Nil
  then show ?case by (simp add: stream_def)
next
  case (Cons x xs)
  let ?off = "nat (db_offset db)" and ?b = "node_bytes P x"
  obtain m where m: "db_head db = Some x" "cells P x = Some m" "mchain (cells P) (msg_next m) xs"
    using Cons.prems(1) by (auto simp: queue_rep_def)
  have ok: "block_ok P x" "distinct (x # xs)" "db_tail db = final (x # xs)" "\<forall>y \<in> set xs. block_ok P y"
    "0 \<le> db_offset db" "db_offset db \<le> int (length ?b)" "mchain (cells P) (db_head db) (x # xs)"
    using Cons.prems(1) by (auto simp: queue_rep_def)
  have size: "msg_size m = int (length ?b)" using length_node_bytes [OF ok(1) m(2)] by simp
  have small: "int (length ?b) < 2 ^ 31" using ok(1) m(2) size by (auto simp: block_ok_def)
  have st: "stream P db (x # xs) = drop ?off ?b @ concat (map (node_bytes P) xs)"
    using ok(5,6) by (simp add: stream_def)
  define bsz where "bsz = int (length ?b) - db_offset db"
  have bsz: "nat bsz = length (drop ?off ?b)" "0 \<le> bsz" using ok(5,6) by (auto simp: bsz_def)
  have range: "int_range (msg_size m - db_offset db) = Some bsz"
    using ok(5,6) small by (simp add: int_range_def size bsz_def)
  define P1 where "P1 = give_back x P"
  have ret: "return_message d P = Some (d\<lparr>db_head := first xs, db_tail := final xs\<rparr>, P1)"
    if "db_head d = db_head db" "db_tail d = db_tail db" for d
    unfolding P1_def using ok(2,3,7) that by (intro return_message_spec) auto
  have P1: "pool_ok P1 (x # ys)" "\<And>a. a \<noteq> x \<Longrightarrow> cells P1 a = cells P a" "pool_next P1 = pool_next P"
    unfolding P1_def using give_back_ok [OF Cons.prems(2)] m(2) Cons.prems(3) by auto
  have same: "y \<in> set xs \<Longrightarrow> cells P1 y = cells P y" for y using P1(2) ok(2) by (metis distinct.simps(2))
  let ?db1 = "db\<lparr>db_head := first xs, db_tail := final xs, db_offset := 0\<rparr>"
  have "queue_rep P ?db1 xs"
    using m(3) mchain_first [OF m(3)] ok(2,4) by (auto simp: queue_rep_def split: list.splits)
  then have q1: "queue_rep P1 ?db1 xs" "stream P1 ?db1 xs = concat (map (node_bytes P) xs)"
    using queue_rep_cong [of xs P1 P ?db1, OF same] by (simp_all add: stream_def)
  have mv: "moves P (set (x # xs) \<union> set ys) P1 (set xs \<union> set (x # ys))"
    using P1(2,3) by (auto simp: moves_def)
  have dj: "set xs \<inter> set (x # ys) = {}" using Cons.prems(3) ok(2) by auto
  consider "bsz > sz" | "bsz = sz" | "bsz < sz" by linarith
  then show ?case
  proof cases
    case 1
    have "copy_bytes (msg_buffer m) (db_offset db) sz = Some (take (nat sz) (drop ?off ?b))"
      using 1 ok Cons.prems(4) m(2) by (intro copy_bytes_node) (auto simp: bsz_def)
    moreover have "int_range (db_offset db + sz) = Some (db_offset db + sz)"
      using 1 ok(5) small Cons.prems(4) by (simp add: int_range_def bsz_def)
    ultimately have "read_loop db P sz = Some (take (nat sz) (drop ?off ?b), db\<lparr>db_offset := db_offset db + sz\<rparr>, P)"
      using m range 1 by (subst read_loop.simps) simp
    moreover have "take (nat sz) (stream P db (x # xs)) = take (nat sz) (drop ?off ?b)"
      using 1 bsz unfolding st by simp
    moreover have "queue_rep P (db\<lparr>db_offset := db_offset db + sz\<rparr>) (x # xs)"
      using Cons.prems(1,4) 1 by (simp add: queue_rep_def bsz_def)
    moreover have "stream P (db\<lparr>db_offset := db_offset db + sz\<rparr>) (x # xs) = drop (nat sz) (stream P db (x # xs))"
    proof -
      have "nat (db_offset db + sz) = nat sz + ?off" using ok(5) Cons.prems(4) by simp
      then show ?thesis unfolding stream_def drop_drop by simp
    qed
    ultimately show ?thesis using Cons.prems(2,3) moves_refl
      by (intro exI [of _ "db\<lparr>db_offset := db_offset db + sz\<rparr>"] exI [of _ P] exI [of _ "x # xs"] exI [of _ ys]) simp
  next
    case 2
    have "copy_bytes (msg_buffer m) (db_offset db) sz = Some (take (nat sz) (drop ?off ?b))"
      using 2 ok Cons.prems(4) m(2) by (intro copy_bytes_node) (auto simp: bsz_def)
    moreover have "take (nat sz) (drop ?off ?b) = drop ?off ?b" using 2 bsz by simp
    ultimately have "read_loop db P sz = Some (drop ?off ?b, ?db1, P1)"
      using m range 2 ret [of "db\<lparr>db_offset := 0\<rparr>"] by (subst read_loop.simps) simp
    moreover have "take (nat sz) (stream P db (x # xs)) = drop ?off ?b"
      "drop (nat sz) (stream P db (x # xs)) = concat (map (node_bytes P) xs)"
      using 2 bsz unfolding st by simp_all
    ultimately show ?thesis using q1 P1(1) mv dj
      by (intro exI [of _ ?db1] exI [of _ P1] exI [of _ xs] exI [of _ "x # ys"]) simp
  next
    case 3
    have "copy_bytes (msg_buffer m) (db_offset db) bsz = Some (take (nat bsz) (drop ?off ?b))"
      using 3 ok bsz(2) m(2) by (intro copy_bytes_node) (auto simp: bsz_def)
    then have cp: "copy_bytes (msg_buffer m) (db_offset db) bsz = Some (drop ?off ?b)" using bsz(1) by simp
    have le: "sz - bsz \<le> int (length (stream P1 ?db1 xs))"
      using Cons.prems(5) bsz unfolding q1(2) st by simp
    obtain db' P' xs' ys' where r: "read_loop ?db1 P1 (sz - bsz) = Some (take (nat (sz - bsz)) (stream P1 ?db1 xs), db', P')"
      "queue_rep P' db' xs'" "pool_ok P' ys'" "set xs' \<inter> set ys' = {}"
      "stream P' db' xs' = drop (nat (sz - bsz)) (stream P1 ?db1 xs)"
      "moves P1 (set xs \<union> set (x # ys)) P' (set xs' \<union> set ys')" "db_size db' = db_size db" "db_header db' = db_header db"
      using Cons.IH [OF q1(1) P1(1) dj _ le] 3 Cons.prems(6) bsz(2) by auto
    have "db\<lparr>db_head := first xs, db_tail := final xs\<rparr>\<lparr>db_offset := 0\<rparr> = ?db1" by simp
    then have "read_loop db P sz = Some (drop ?off ?b @ take (nat (sz - bsz)) (stream P1 ?db1 xs), db', P')"
      using m range 3 cp ret [of db] r(1) by (subst read_loop.simps) simp
    moreover have "nat sz - length (drop ?off ?b) = nat (sz - bsz)" "length (drop ?off ?b) \<le> nat sz"
      "length ?b \<le> nat sz + ?off"
      using bsz 3 by (linarith, linarith, simp)
    then have "take (nat sz) (stream P db (x # xs)) = drop ?off ?b @ take (nat (sz - bsz)) (stream P1 ?db1 xs)"
      "drop (nat sz) (stream P db (x # xs)) = drop (nat (sz - bsz)) (stream P1 ?db1 xs)"
      unfolding q1(2) st take_append drop_append by (simp_all del: length_drop)
    ultimately show ?thesis using r moves_trans [OF mv r(6)]
      by (intro exI [of _ db'] exI [of _ P'] exI [of _ xs'] exI [of _ ys']) simp
  qed
qed


lemma databuffer_read_spec:
  assumes "db_rep P db xs" and "pool_ok P ys" and "set xs \<inter> set ys = {}"
    and "0 < sz" and "sz \<le> int (length (stream P db xs))"
  shows "\<exists>db' P' xs' ys'. databuffer_read db P sz = Some (take (nat sz) (stream P db xs), db', P') \<and>
    db_rep P' db' xs' \<and> pool_ok P' ys' \<and> set xs' \<inter> set ys' = {} \<and>
    stream P' db' xs' = drop (nat sz) (stream P db xs) \<and>
    moves P (set xs \<union> set ys) P' (set xs' \<union> set ys') \<and> db_header db' = db_header db"
proof -
  let ?db = "db\<lparr>db_size := db_size db - sz\<rparr>"
  have q: "queue_rep P ?db xs" "stream P ?db xs = stream P db xs"
    "db_size db = int (length (stream P db xs))" "db_size db < 2 ^ 31"
    using assms(1) by (simp_all add: db_rep_def)
  obtain db' P' xs' ys' where r: "read_loop ?db P sz = Some (take (nat sz) (stream P db xs), db', P')"
    "queue_rep P' db' xs'" "pool_ok P' ys'" "set xs' \<inter> set ys' = {}"
    "stream P' db' xs' = drop (nat sz) (stream P db xs)"
    "moves P (set xs \<union> set ys) P' (set xs' \<union> set ys')" "db_size db' = db_size db - sz" "db_header db' = db_header db"
    using read_loop_spec [OF q(1) assms(2,3,4)] assms(5) q(2-4) by auto
  have "db_rep P' db' xs'" using r(2,5,7) q(3,4) assms(4,5) by (auto simp: db_rep_def)
  moreover have "databuffer_read db P sz = read_loop ?db P sz"
    using q(3,4) assms(4,5) by (simp add: databuffer_read_def int_range_def)
  ultimately show ?thesis using r by metis
qed

section \<open>Writing\<close>

lemma new_chunk_chain:
  assumes "i < MESSAGEPOOL"
  shows "mchain (cells (new_chunk P)) (if i = 0 then None else Some (pool_next P + (MESSAGEPOOL - i)))
    [pool_next P + (MESSAGEPOOL - i)..<pool_next P + MESSAGEPOOL]"
  using assms
proof (induction i)
  case 0
  then show ?case by simp
next
  case (Suc i)
  let ?b = "pool_next P + (MESSAGEPOOL - Suc i)"
  have b: "?b < pool_next P + MESSAGEPOOL" "pool_next P < ?b" "Suc ?b = pool_next P + (MESSAGEPOOL - i)"
    using Suc.prems by simp_all
  have "?b = pool_next P + MESSAGEPOOL - 1 \<longleftrightarrow> i = 0" using Suc.prems by auto
  then have "cells (new_chunk P) ?b = Some \<lparr>msg_buffer = None, msg_size = 0,
      msg_next = (if i = 0 then None else Some (Suc ?b))\<rparr>"
    using b by (simp add: new_chunk_def Let_def)
  then show ?case using Suc.IH Suc.prems b by (subst upt_conv_Cons) auto
qed

lemma take_message_spec:
  assumes "pool_ok P ys"
  shows "\<exists>a P' ys'. take_message P = Some (a, P') \<and> pool_ok (P'\<lparr>cells := (cells P')(a \<mapsto> m)\<rparr>) ys' \<and>
    a \<notin> set ys' \<and> (a \<in> set ys \<or> pool_next P \<le> a) \<and> (\<forall>y \<in> set ys'. y \<in> set ys \<or> pool_next P \<le> y) \<and>
    (\<forall>x. x \<notin> set ys \<and> x < pool_next P \<longrightarrow> cells P' x = cells P x) \<and> pool_next P \<le> pool_next P'"
proof (cases ys)
  case Nil
  then have f: "freelist P = None" using assms by (simp add: pool_ok_def)
  let ?b = "pool_next P" and ?P = "new_chunk P"
  let ?ys = "[?b + 1..<?b + MESSAGEPOOL]"
  have one: "?b + (MESSAGEPOOL - (MESSAGEPOOL - 1)) = ?b + 1" by (simp add: MESSAGEPOOL_def)
  have "mchain (cells ?P) (Some (?b + 1)) ?ys"
    using new_chunk_chain [of "MESSAGEPOOL - 1" P] unfolding one by (simp add: MESSAGEPOOL_def)
  then have "mchain ((cells ?P)(?b \<mapsto> m)) (freelist ?P) ?ys" by (simp add: new_chunk_def Let_def)
  moreover have "freelist ?P = Some (?b + 1)" "pool_next ?P = ?b + MESSAGEPOOL" by (simp_all add: new_chunk_def Let_def)
  moreover have "\<forall>a. cells ?P a \<noteq> None \<longrightarrow> a < pool_next ?P"
    using assms by (auto simp: new_chunk_def Let_def pool_ok_def intro: trans_less_add1)
  moreover have "\<forall>x. x < ?b \<longrightarrow> cells ?P x = cells P x" by (simp add: new_chunk_def Let_def)
  ultimately show ?thesis using f Nil
    by (intro exI [of _ ?b] exI [of _ ?P] exI [of _ ?ys]) (auto simp: take_message_def pool_ok_def MESSAGEPOOL_def)
next
  case (Cons a ys')
  then obtain k where k: "freelist P = Some a" "cells P a = Some k" "mchain (cells P) (msg_next k) ys'" "a \<notin> set ys'"
    using assms by (auto simp: pool_ok_def)
  have "pool_ok (P\<lparr>freelist := msg_next k, cells := (cells P)(a \<mapsto> m)\<rparr>) ys'"
    using assms k Cons by (auto simp: pool_ok_def)
  then show ?thesis using k Cons
    by (intro exI [of _ a] exI [of _ "P\<lparr>freelist := msg_next k\<rparr>"] exI [of _ ys']) (auto simp: take_message_def)
qed

lemma rep_below: "queue_rep P db xs \<Longrightarrow> pool_ok P ys \<Longrightarrow> x \<in> set xs \<Longrightarrow> x < pool_next P"
  by (auto simp: queue_rep_def block_ok_def pool_ok_def)

lemma link_last_spec:
  assumes "queue_rep P db (us @ [t])" and "cells P a = Some \<lparr>msg_buffer = Some data, msg_size = sz, msg_next = None\<rparr>"
    and "a \<notin> set (us @ [t])" and "0 \<le> sz" "sz \<le> int (length data)" "sz < 2 ^ 31" and "cells P t = Some k"
  defines "P' \<equiv> P\<lparr>cells := (cells P)(t \<mapsto> k\<lparr>msg_next := Some a\<rparr>)\<rparr>"
  shows "queue_rep P' (db\<lparr>db_size := n, db_tail := Some a\<rparr>) ((us @ [t]) @ [a])"
    "stream P' (db\<lparr>db_size := n, db_tail := Some a\<rparr>) ((us @ [t]) @ [a]) = stream P db (us @ [t]) @ take (nat sz) data"
proof -
  have at: "a \<noteq> t" using assms(3) by auto
  have ok: "block_ok P' x = block_ok P x" for x using assms(7) by (auto simp: block_ok_def P'_def)
  have nb: "node_bytes P' = node_bytes P" using assms(7) by (auto simp: node_bytes_def P'_def)
  have a: "block_ok P a" "node_bytes P a = take (nat sz) data"
    using assms(2,4-6) by (auto simp: block_ok_def node_bytes_def)
  have c: "mchain (cells P') (db_head db) (us @ [t, a])"
    unfolding P'_def using assms(1,2,3,7) mchain_snoc [of "cells P" "db_head db" us t k a]
    by (auto simp: queue_rep_def)
  have off: "nat (db_offset db) \<le> length (concat (map (node_bytes P) (us @ [t])))"
    using assms(1) by (cases us) (auto simp: queue_rep_def)
  show "queue_rep P' (db\<lparr>db_size := n, db_tail := Some a\<rparr>) ((us @ [t]) @ [a])"
    using c assms(1,3) a(1) by (cases us) (auto simp: queue_rep_def final_def ok nb)
  show "stream P' (db\<lparr>db_size := n, db_tail := Some a\<rparr>) ((us @ [t]) @ [a]) = stream P db (us @ [t]) @ take (nat sz) data"
    using off a(2) by (simp add: stream_def nb)
qed

lemma databuffer_push_spec:
  assumes rep: "db_rep P db xs" and pool: "pool_ok P ys" and dj: "set xs \<inter> set ys = {}"
    and sz: "0 \<le> sz" "sz \<le> int (length data)" and small: "int (length (stream P db xs)) + sz < 2 ^ 31"
  shows "\<exists>db' P' xs' ys'. databuffer_push db P data sz = Some (db', P') \<and>
    db_rep P' db' xs' \<and> pool_ok P' ys' \<and> set xs' \<inter> set ys' = {} \<and>
    stream P' db' xs' = stream P db xs @ take (nat sz) data \<and>
    moves P (set xs \<union> set ys) P' (set xs' \<union> set ys') \<and> db_header db' = db_header db"
proof -
  let ?m = "\<lparr>msg_buffer = Some data, msg_size = sz, msg_next = None\<rparr>"
  let ?n = "db_size db + sz"
  obtain a P1 ys' where t: "take_message P = Some (a, P1)" "pool_ok (P1\<lparr>cells := (cells P1)(a \<mapsto> ?m)\<rparr>) ys'"
    "a \<notin> set ys'" "a \<in> set ys \<or> pool_next P \<le> a" "\<forall>y \<in> set ys'. y \<in> set ys \<or> pool_next P \<le> y"
    "\<forall>x. x \<notin> set ys \<and> x < pool_next P \<longrightarrow> cells P1 x = cells P x" "pool_next P \<le> pool_next P1"
    using take_message_spec [OF pool] by blast
  let ?P2 = "P1\<lparr>cells := (cells P1)(a \<mapsto> ?m)\<rparr>"
  have q: "queue_rep P db xs" and dsz: "db_size db = int (length (stream P db xs))"
    using rep by (simp_all add: db_rep_def)
  have below: "x \<in> set xs \<Longrightarrow> x < pool_next P" for x by (rule rep_below [OF q pool])
  have a: "a \<notin> set xs" using t(4) dj below by fastforce
  have dj2: "set xs \<inter> set ys' = {}" using t(5) dj below by fastforce
  have same: "cells ?P2 x = cells P x" if x: "x \<in> set xs" for x
  proof -
    have "x \<noteq> a" "x \<notin> set ys" using x a dj by auto
    then show ?thesis using t(6) below [OF x] by simp
  qed
  have q2: "queue_rep ?P2 db xs" "stream ?P2 db xs = stream P db xs"
    using q queue_rep_cong [of xs ?P2 P, OF same] by auto
  have range: "int_range ?n = Some ?n" using small sz dsz by (simp add: int_range_def)
  have mv: "moves P (set xs \<union> set ys) Q (set (xs @ [a]) \<union> set ys')"
    if "\<And>x. x \<notin> set xs \<Longrightarrow> cells Q x = cells ?P2 x" "pool_next Q = pool_next P1" for Q
    using that t(4-7) by (auto simp: moves_def)
  show ?thesis
  proof (cases "xs = []")
    case True
    let ?db = "db\<lparr>db_size := ?n, db_head := Some a, db_tail := Some a\<rparr>"
    have d: "db_head db = None" "db_tail db = None" "db_offset db = 0" using q True by (auto simp: queue_rep_def)
    have e: "stream P db xs = []" using True by (simp add: stream_def)
    have "queue_rep ?P2 ?db [a]" "stream ?P2 ?db [a] = take (nat sz) data"
      using sz small e d by (auto simp: queue_rep_def stream_def node_bytes_def block_ok_def final_def)
    then have "db_rep ?P2 ?db [a]" using e dsz sz small by (simp add: db_rep_def)
    moreover have "databuffer_push db P data sz = Some (?db, ?P2)"
      using t(1) range d by (simp add: databuffer_push_def Let_def)
    ultimately show ?thesis using t(2,3) \<open>stream ?P2 ?db [a] = _\<close> e mv [of ?P2] True
      by (intro exI [of _ ?db] exI [of _ ?P2] exI [of _ "[a]"] exI [of _ ys']) simp
  next
    case False
    then obtain us l where xs: "xs = us @ [l]" by (metis rev_exhaust)
    obtain k where k: "cells ?P2 l = Some k"
      using q2(1) xs by (auto simp: queue_rep_def block_ok_def)
    let ?db = "db\<lparr>db_size := ?n, db_tail := Some a\<rparr>"
    let ?P3 = "?P2\<lparr>cells := (cells ?P2)(l \<mapsto> k\<lparr>msg_next := Some a\<rparr>)\<rparr>"
    have m: "cells ?P2 a = Some ?m" by simp
    have small': "sz < 2 ^ 31" using small by linarith
    have r: "queue_rep ?P3 ?db (xs @ [a])" "stream ?P3 ?db (xs @ [a]) = stream P db xs @ take (nat sz) data"
      using link_last_spec [OF q2(1) [unfolded xs] m _ sz small' k] a q2(2) xs by simp_all
    have "db_rep ?P3 ?db (xs @ [a])" using r dsz sz small by (simp add: db_rep_def)
    moreover obtain f where "db_head db = Some f" "db_tail db = Some l" using q xs by (cases us; auto simp: queue_rep_def final_def)
    then have "databuffer_push db P data sz = Some (?db, ?P3)"
      using t(1) range k unfolding databuffer_push_def Let_def by simp
    moreover have "pool_ok ?P3 ys'"
    proof -
      have "l \<notin> set ys'" using dj2 xs by auto
      then show ?thesis using t(2) k by (auto simp: pool_ok_def)
    qed
    moreover have "moves P (set xs \<union> set ys) ?P3 (set (xs @ [a]) \<union> set ys')"
      using xs by (intro mv) auto
    ultimately show ?thesis using r(2) t(3) dj2
      by (intro exI [of _ ?db] exI [of _ ?P3] exI [of _ "xs @ [a]"] exI [of _ ys']) simp
  qed
qed

lemma clear_loop_spec:
  assumes "mchain (cells P) (db_head db) xs" and "distinct xs" and "db_tail db = final xs"
    and "pool_ok P ys" and "set xs \<inter> set ys = {}"
  shows "\<exists>P' ys'. clear_loop db P = Some P' \<and> pool_ok P' ys' \<and> moves P (set xs \<union> set ys) P' (set ys')"
  using assms
proof (induction xs arbitrary: P db ys)
  case Nil
  then show ?case using moves_refl by (subst clear_loop.simps) auto
next
  case (Cons x xs)
  let ?P = "give_back x P" and ?db = "db\<lparr>db_head := first xs, db_tail := final xs\<rparr>"
  obtain m where m: "db_head db = Some x" "cells P x = Some m" "mchain (cells P) (msg_next m) xs"
    using Cons.prems(1) by auto
  have ret: "return_message db P = Some (?db, ?P)" by (rule return_message_spec [OF Cons.prems(1,3,2)])
  have x: "cells P x \<noteq> None" "x \<notin> set ys" using m Cons.prems(5) by auto
  note P = give_back_ok [OF Cons.prems(4) x]
  have "mchain (cells ?P) (db_head ?db) xs"
    using m(3) mchain_first [OF m(3)] Cons.prems(2) by (simp add: give_back_def)
  then obtain P' ys' where r: "clear_loop ?db ?P = Some P'" "pool_ok P' ys'"
    "moves ?P (set xs \<union> set (x # ys)) P' (set ys')"
    using Cons.IH [of ?P ?db "x # ys"] P(1) Cons.prems(2,5) by auto
  have "moves P (set (x # xs) \<union> set ys) ?P (set xs \<union> set (x # ys))"
    using P(2,3) by (auto simp: moves_def)
  from moves_trans [OF this r(3)] show ?case
    using m(1) ret r(1,2) by (subst clear_loop.simps) auto
qed

lemma databuffer_clear_spec:
  assumes "db_rep P db xs" and "pool_ok P ys" and "set xs \<inter> set ys = {}"
  shows "\<exists>P' ys'. databuffer_clear db P = Some (databuffer_zero, P') \<and> pool_ok P' ys' \<and>
    moves P (set xs \<union> set ys) P' (set ys')"
  using clear_loop_spec [of P db xs ys] assms by (auto simp: databuffer_clear_def db_rep_def queue_rep_def)

lemma db_rep_zero: "db_rep P databuffer_zero []" "stream P databuffer_zero [] = []"
  by (simp_all add: db_rep_def queue_rep_def stream_def databuffer_zero_def)

lemma pool_ok_zero: "pool_ok messagepool_zero []"
  by (simp add: pool_ok_def messagepool_zero_def)


section \<open>The buffer as a byte stream\<close>

text \<open>The free nodes and the nodes of the buffer, and the bytes it holds.\<close>

definition holds :: "messagepool \<Rightarrow> databuffer \<Rightarrow> addr set \<Rightarrow> u8 list \<Rightarrow> bool" where
  "holds P db A bs \<longleftrightarrow> (\<exists>xs ys. db_rep P db xs \<and> pool_ok P ys \<and> set xs \<inter> set ys = {} \<and>
     A = set xs \<union> set ys \<and> stream P db xs = bs)"

lemma holdsI: "db_rep P db xs \<Longrightarrow> pool_ok P ys \<Longrightarrow> set xs \<inter> set ys = {} \<Longrightarrow> stream P db xs = bs \<Longrightarrow>
    holds P db (set xs \<union> set ys) bs"
  unfolding holds_def by blast

lemma holds_header [simp]: "holds P (db\<lparr>db_header := h\<rparr>) A bs = holds P db A bs"
  by (simp add: holds_def)

lemma holds_size: "holds P db A bs \<Longrightarrow> db_size db = int (length bs) \<and> length bs < 2 ^ 31"
  by (auto simp: holds_def db_rep_def)

lemma holds_push:
  assumes "holds P db A bs" and "length bs + length data < 2 ^ 31"
  shows "\<exists>db' P' A'. databuffer_push db P data (int (length data)) = Some (db', P') \<and>
    holds P' db' A' (bs @ data) \<and> moves P A P' A' \<and> db_header db' = db_header db"
proof -
  obtain xs ys where r: "db_rep P db xs" "pool_ok P ys" "set xs \<inter> set ys = {}" "A = set xs \<union> set ys"
    "stream P db xs = bs" using assms(1) by (auto simp: holds_def)
  obtain db' P' xs' ys' where p: "databuffer_push db P data (int (length data)) = Some (db', P')"
    "db_rep P' db' xs'" "pool_ok P' ys'" "set xs' \<inter> set ys' = {}" "stream P' db' xs' = bs @ data"
    "moves P A P' (set xs' \<union> set ys')" "db_header db' = db_header db"
    using databuffer_push_spec [OF r(1,2,3), of "int (length data)" data] assms(2) r(4,5) by auto
  show ?thesis using p(1,6,7) holdsI [OF p(2-5)] by blast
qed

lemma holds_read:
  assumes "holds P db A bs" and "0 < n" "n \<le> length bs"
  shows "\<exists>db' P' A'. databuffer_read db P (int n) = Some (take n bs, db', P') \<and>
    holds P' db' A' (drop n bs) \<and> moves P A P' A' \<and> db_header db' = db_header db"
proof -
  obtain xs ys where r: "db_rep P db xs" "pool_ok P ys" "set xs \<inter> set ys = {}" "A = set xs \<union> set ys"
    "stream P db xs = bs" using assms(1) by (auto simp: holds_def)
  obtain db' P' xs' ys' where p: "databuffer_read db P (int n) = Some (take n bs, db', P')"
    "db_rep P' db' xs'" "pool_ok P' ys'" "set xs' \<inter> set ys' = {}" "stream P' db' xs' = drop n bs"
    "moves P A P' (set xs' \<union> set ys')" "db_header db' = db_header db"
    using databuffer_read_spec [OF r(1,2,3), of "int n"] assms(2,3) r(4,5) by auto
  show ?thesis using p(1,6,7) holdsI [OF p(2-5)] by blast
qed

lemma holds_clear:
  assumes "holds P db A bs"
  shows "\<exists>P' A'. databuffer_clear db P = Some (databuffer_zero, P') \<and> holds P' databuffer_zero A' [] \<and> moves P A P' A'"
proof -
  obtain xs ys where r: "db_rep P db xs" "pool_ok P ys" "set xs \<inter> set ys = {}" "A = set xs \<union> set ys"
    using assms(1) by (auto simp: holds_def)
  obtain P' ys' where c: "databuffer_clear db P = Some (databuffer_zero, P')" "pool_ok P' ys'"
    "moves P (set xs \<union> set ys) P' (set ys')" using databuffer_clear_spec [OF r(1,2,3)] by blast
  moreover have "holds P' databuffer_zero (set ys') []"
    using c(2) db_rep_zero [of P'] by (force simp: holds_def)
  ultimately show ?thesis using r(4) by blast
qed

lemma holds_zero: "holds messagepool_zero databuffer_zero {} []"
  using pool_ok_zero db_rep_zero by (force simp: holds_def)

text \<open>The result of \<open>databuffer_readheader\<close>, the header it leaves and the bytes it leaves, on
  bytes.\<close>

definition spec_readheader :: "nat \<Rightarrow> int \<Rightarrow> u8 list \<Rightarrow> int \<times> int \<times> u8 list" where
  "spec_readheader k h bs =
     (if h = 0 then
        if length bs < k then (- 1, 0, bs)
        else (let v = header_value (take k bs); r = drop k bs
              in (if int (length r) < v then - 1 else v, v, r))
      else (if int (length bs) < h then - 1 else h, h, bs))"

lemma holds_readheader:
  assumes "holds P db A bs" and "0 < k"
  shows "\<exists>db' P' A' r h bs'. databuffer_readheader db P k = Some (r, db', P') \<and>
    spec_readheader k (db_header db) bs = (r, h, bs') \<and> db_header db' = h \<and> holds P' db' A' bs' \<and> moves P A P' A'"
proof -
  note size = holds_size [OF assms(1)]
  show ?thesis
  proof (cases "db_header db = 0 \<and> k \<le> length bs")
    case False
    then show ?thesis
      using size assms(1) moves_refl [of P A]
      by (auto simp: databuffer_readheader_def spec_readheader_def)
  next
    case True
    then obtain db1 P1 A1 where r: "databuffer_read db P (int k) = Some (take k bs, db1, P1)"
      "holds P1 db1 A1 (drop k bs)" "moves P A P1 A1" "db_header db1 = db_header db"
      using holds_read [OF assms(1), of k] assms(2) by auto
    then show ?thesis
      using True size holds_size [OF r(2)]
      by (intro exI [of _ "db1\<lparr>db_header := header_value (take k bs)\<rparr>"] exI [of _ P1] exI [of _ A1])
        (auto simp: databuffer_readheader_def spec_readheader_def Let_def)
  qed
qed

lemma header_value_two: "length bs = 2 \<Longrightarrow> 0 \<le> header_value bs \<and> header_value bs < 2 ^ 16"
  using uint_lt2p [of "bs ! 0"] uint_lt2p [of "bs ! 1"] by (simp add: header_value_def)

end
