(* ===== verification/HashId.thy ===== *)
theory HashId
  imports DataBuffer
begin

text \<open>
  The table of connection ids of \<^verbatim>\<open>service-src/hashid.h\<close>: a fixed array of nodes, chained from the
  buckets of a hash array.  A pointer to a node is its index in the array; the functions return
  that index, or -1.
\<close>

section \<open>Data and operations\<close>

record hashid_node =
  hid :: int
  hnext :: "nat option"

record hashid =
  hashmod :: int
  hcap :: int
  hcount :: int
  ids :: "hashid_node list"
  hash :: "nat option list"

partial_function (option) hashcap_loop :: "int \<Rightarrow> int \<Rightarrow> int option" where
  "hashcap_loop hashcap mx =
     (if hashcap < mx then do { c \<leftarrow> int_range (hashcap * 2); hashcap_loop c mx } else Some hashcap)"

definition hashid_init :: "int \<Rightarrow> hashid option" where
  "hashid_init mx = do {
     hashcap \<leftarrow> hashcap_loop 16 mx;
     assert_that (0 \<le> mx);
     Some \<lparr>hashmod = hashcap - 1, hcap = mx, hcount = 0,
           ids = replicate (nat mx) \<lparr>hid = - 1, hnext = None\<rparr>, hash = replicate (nat hashcap) None\<rparr> }"

definition hashid_clear :: "hashid \<Rightarrow> hashid" where
  "hashid_clear hi = \<lparr>hashmod = 1, hcap = 0, hcount = 0, ids = [], hash = []\<rparr>"

definition id_bucket :: "hashid \<Rightarrow> int \<Rightarrow> nat" where
  "id_bucket hi cid = nat (cid AND hashmod hi)"

partial_function (option) lookup_loop :: "hashid_node list \<Rightarrow> nat option \<Rightarrow> int \<Rightarrow> int option" where
  "lookup_loop ns c cid =
     (case c of
        None \<Rightarrow> Some (- 1)
      | Some j \<Rightarrow> do {
          n \<leftarrow> arr_get ns j;
          if hid n = cid then Some (int j) else lookup_loop ns (hnext n) cid })"

definition hashid_lookup :: "hashid \<Rightarrow> int \<Rightarrow> int option" where
  "hashid_lookup hi cid = do {
     c \<leftarrow> arr_get (hash hi) (id_bucket hi cid);
     lookup_loop (ids hi) c cid }"

text \<open>\<open>while (c->next)\<close>: the node found and its predecessor.\<close>

partial_function (option) remove_scan :: "hashid_node list \<Rightarrow> nat \<Rightarrow> int \<Rightarrow> (nat \<times> nat) option option" where
  "remove_scan ns c cid = do {
     n \<leftarrow> arr_get ns c;
     (case hnext n of
        None \<Rightarrow> Some None
      | Some t \<Rightarrow> do {
          m \<leftarrow> arr_get ns t;
          if hid m = cid then Some (Some (c, t)) else remove_scan ns t cid }) }"

definition clear_node :: "nat \<Rightarrow> hashid \<Rightarrow> (int \<times> hashid) option" where
  "clear_node c hi = do {
     ns \<leftarrow> arr_set (ids hi) c \<lparr>hid = - 1, hnext = None\<rparr>;
     Some (int c, hi\<lparr>ids := ns, hcount := hcount hi - 1\<rparr>) }"

definition hashid_remove :: "hashid \<Rightarrow> int \<Rightarrow> (int \<times> hashid) option" where
  "hashid_remove hi cid = do {
     let h = id_bucket hi cid;
     head \<leftarrow> arr_get (hash hi) h;
     (case head of
        None \<Rightarrow> Some (- 1, hi)
      | Some c \<Rightarrow> do {
          n \<leftarrow> arr_get (ids hi) c;
          if hid n = cid then clear_node c (hi\<lparr>hash := (hash hi)[h := hnext n]\<rparr>)
          else do {
            r \<leftarrow> remove_scan (ids hi) c cid;
            (case r of
               None \<Rightarrow> Some (- 1, hi)
             | Some (p, t) \<Rightarrow> do {
                 np \<leftarrow> arr_get (ids hi) p;
                 nt \<leftarrow> arr_get (ids hi) t;
                 clear_node t (hi\<lparr>ids := (ids hi)[p := np\<lparr>hnext := hnext nt\<rparr>]\<rparr>) }) } }) }"

text \<open>C's \<open>%\<close> has the sign of the dividend.\<close>

definition c_rem :: "int \<Rightarrow> int \<Rightarrow> int" where
  "c_rem a b = (if a < 0 then - ((- a) mod b) else a mod b)"

fun insert_scan :: "hashid \<Rightarrow> int \<Rightarrow> nat list \<Rightarrow> nat option option" where
  "insert_scan hi cid [] = Some None"
| "insert_scan hi cid (i # is) = do {
     s \<leftarrow> int_range (int i + cid);
     let index = c_rem s (hcap hi);
     assert_that (0 \<le> index);
     n \<leftarrow> arr_get (ids hi) (nat index);
     if hid n = - 1 then Some (Some (nat index)) else insert_scan hi cid is }"

definition hashid_insert :: "hashid \<Rightarrow> int \<Rightarrow> (int \<times> hashid) option" where
  "hashid_insert hi cid = do {
     r \<leftarrow> insert_scan hi cid [0..<nat (hcap hi)];
     c \<leftarrow> r;
     n \<leftarrow> arr_get (ids hi) c;
     assert_that (hnext n = None);
     let h = id_bucket hi cid;
     head \<leftarrow> arr_get (hash hi) h;
     Some (int c, hi\<lparr>hcount := hcount hi + 1, ids := (ids hi)[c := \<lparr>hid = cid, hnext = head\<rparr>],
                     hash := (hash hi)[h := Some c]\<rparr>) }"

definition hashid_full :: "hashid \<Rightarrow> bool" where
  "hashid_full hi \<longleftrightarrow> hcount hi = hcap hi"

section \<open>Invariant\<close>

fun hchain :: "hashid_node list \<Rightarrow> nat option \<Rightarrow> nat list \<Rightarrow> bool" where
  "hchain ns c [] \<longleftrightarrow> c = None"
| "hchain ns c (j # js) \<longleftrightarrow> c = Some j \<and> j < length ns \<and> hchain ns (hnext (ns ! j)) js"

text \<open>\<open>L h\<close> is the chain of id_bucket \<open>h\<close>.\<close>

definition chains_ok :: "hashid \<Rightarrow> (nat \<Rightarrow> nat list) \<Rightarrow> bool" where
  "chains_ok hi L \<longleftrightarrow> (\<forall>h < length (hash hi). hchain (ids hi) (hash hi ! h) (L h) \<and> distinct (L h) \<and>
     (\<forall>j. j \<in> set (L h) \<longleftrightarrow> j < length (ids hi) \<and> hid (ids hi ! j) \<noteq> - 1 \<and> id_bucket hi (hid (ids hi ! j)) = h))"

definition hashid_ok :: "hashid \<Rightarrow> bool" where
  "hashid_ok hi \<longleftrightarrow> (\<exists>k. hashmod hi = 2 ^ k - 1 \<and> length (hash hi) = 2 ^ k) \<and>
     int (length (ids hi)) = hcap hi \<and> (\<exists>L. chains_ok hi L) \<and>
     (\<forall>j < length (ids hi). hid (ids hi ! j) = - 1 \<longrightarrow> hnext (ids hi ! j) = None) \<and>
     (\<forall>i < length (ids hi). \<forall>j < length (ids hi). hid (ids hi ! i) = hid (ids hi ! j) \<and> hid (ids hi ! i) \<noteq> - 1 \<longrightarrow> i = j) \<and>
     hcount hi = int (card {j. j < length (ids hi) \<and> hid (ids hi ! j) \<noteq> - 1})"

text \<open>The table as a map from ids to slots.\<close>

definition slots :: "hashid \<Rightarrow> int \<Rightarrow> nat option" where
  "slots hi cid = (if cid = - 1 then None else List.find (\<lambda>j. hid (ids hi ! j) = cid) [0..<length (ids hi)])"


lemma slots_iff:
  assumes "hashid_ok hi"
  shows "slots hi cid = Some j \<longleftrightarrow> cid \<noteq> - 1 \<and> j < length (ids hi) \<and> hid (ids hi ! j) = cid"
proof
  assume "slots hi cid = Some j"
  then show "cid \<noteq> - 1 \<and> j < length (ids hi) \<and> hid (ids hi ! j) = cid"
    by (auto simp: slots_def find_Some_iff split: if_splits)
next
  assume j: "cid \<noteq> - 1 \<and> j < length (ids hi) \<and> hid (ids hi ! j) = cid"
  then obtain i where i: "slots hi cid = Some i"
    by (cases "slots hi cid") (auto simp: slots_def find_None_iff)
  then have "i < length (ids hi) \<and> hid (ids hi ! i) = cid"
    by (auto simp: slots_def find_Some_iff split: if_splits)
  then have "i = j" using assms j by (auto simp: hashid_ok_def)
  with i show "slots hi cid = Some j" by simp
qed

lemma slots_None_iff: "slots hi cid = None \<longleftrightarrow> cid = - 1 \<or> (\<forall>j < length (ids hi). hid (ids hi ! j) \<noteq> cid)"
  by (auto simp: slots_def find_None_iff)

lemma bucket_less: "hashid_ok hi \<Longrightarrow> id_bucket hi cid < length (hash hi)"
  by (auto simp: hashid_ok_def id_bucket_def mask_eq_exp_minus_1 [symmetric] take_bit_eq_mask [symmetric]
      take_bit_eq_mod nat_less_iff)

lemma hchain_cong:
  "length ns' = length ns \<Longrightarrow> (\<And>j. j \<in> set js \<Longrightarrow> ns' ! j = ns ! j) \<Longrightarrow> hchain ns' c js = hchain ns c js"
  by (induction js arbitrary: c) auto

lemma hchain_upd: "t \<notin> set js \<Longrightarrow> hchain (ns[t := b]) c js = hchain ns c js"
  by (rule hchain_cong) (simp, metis nth_list_update_neq)

lemma lookup_loop_spec:
  "hchain ns c js \<Longrightarrow> lookup_loop ns c cid = Some (case List.find (\<lambda>j. hid (ns ! j) = cid) js of None \<Rightarrow> - 1 | Some j \<Rightarrow> int j)"
proof (induction js arbitrary: c)
  case Nil
  then show ?case by (subst lookup_loop.simps) simp
next
  case (Cons j js)
  then show ?case by (subst lookup_loop.simps) simp
qed

lemma remove_scan_none:
  "hchain ns (Some c) (c # js) \<Longrightarrow> \<forall>j \<in> set js. hid (ns ! j) \<noteq> cid \<Longrightarrow> remove_scan ns c cid = Some None"
proof (induction js arbitrary: c)
  case Nil
  then show ?case by (subst remove_scan.simps) simp
next
  case (Cons j js)
  then show ?case by (subst remove_scan.simps) simp
qed

lemma remove_scan_found:
  "hchain ns (Some c) ((c # pre) @ t # post) \<Longrightarrow> \<forall>j \<in> set pre. hid (ns ! j) \<noteq> cid \<Longrightarrow> hid (ns ! t) = cid \<Longrightarrow>
   remove_scan ns c cid = Some (Some (last (c # pre), t))"
proof (induction pre arbitrary: c)
  case Nil
  then show ?case by (subst remove_scan.simps) simp
next
  case (Cons j js)
  then show ?case by (subst remove_scan.simps) simp
qed

lemma hchain_unlink:
  assumes "hchain ns c (pre @ p # t # post)" and "distinct (pre @ p # t # post)"
  shows "hchain (ns[p := (ns ! p)\<lparr>hnext := hnext (ns ! t)\<rparr>, t := b]) c (pre @ p # post)"
  using assms
proof (induction pre arbitrary: c)
  case Nil
  let ?ns = "ns[p := (ns ! p)\<lparr>hnext := hnext (ns ! t)\<rparr>, t := b]"
  have "hchain ?ns (hnext (ns ! t)) post = hchain ns (hnext (ns ! t)) post"
    using Nil by (intro hchain_cong) (auto simp: nth_list_update)
  then show ?case using Nil by auto
next
  case (Cons x pre)
  then show ?case by auto
qed

lemma hashid_removed:
  assumes ok: "hashid_ok hi" and L: "chains_ok hi L" and t: "t < length (ids hi)" "hid (ids hi ! t) = cid" "cid \<noteq> - 1"
    and ns: "length ns = length (ids hi)" "ns ! t = \<lparr>hid = - 1, hnext = None\<rparr>" "\<And>j. j < length (ids hi) \<Longrightarrow> j \<noteq> t \<Longrightarrow> hid (ns ! j) = hid (ids hi ! j)"
    and same: "\<And>j. j < length (ids hi) \<Longrightarrow> id_bucket hi (hid (ids hi ! j)) \<noteq> id_bucket hi cid \<or> hid (ids hi ! j) = - 1 \<Longrightarrow> ns ! j = ids hi ! j"
    and ha: "hashes = (hash hi)[id_bucket hi cid := q]"
    and ch: "hchain ns q (remove1 t (L (id_bucket hi cid)))"
  defines "hi' \<equiv> hi\<lparr>hash := hashes, ids := ns, hcount := hcount hi - 1\<rparr>"
  shows "hashid_ok hi' \<and> slots hi' = (slots hi)(cid := None)"
proof -
  let ?h = "id_bucket hi cid" and ?L = "L(id_bucket hi cid := remove1 t (L (id_bucket hi cid)))"
  have b: "id_bucket hi' = id_bucket hi" by (simp add: id_bucket_def hi'_def fun_eq_iff)
  have n: "ids hi' = ns" "hash hi' = hashes" "hcap hi' = hcap hi" "hashmod hi' = hashmod hi"
    "hcount hi' = hcount hi - 1" by (simp_all add: hi'_def)
  have "chains_ok hi' ?L"
  proof -
    have "hchain ns (hashes ! h) (?L h) \<and> distinct (?L h) \<and>
      (\<forall>j. j \<in> set (?L h) \<longleftrightarrow> j < length ns \<and> hid (ns ! j) \<noteq> - 1 \<and> id_bucket hi (hid (ns ! j)) = h)"
      if h: "h < length (hash hi)" for h
    proof (cases "h = ?h")
      case True
      have d: "distinct (L ?h)" using L h True by (auto simp: chains_ok_def)
      have "j \<in> set (remove1 t (L ?h)) \<longleftrightarrow> j < length ns \<and> hid (ns ! j) \<noteq> - 1 \<and> id_bucket hi (hid (ns ! j)) = ?h" for j
      proof (cases "j = t")
        case True
        then show ?thesis using d ns(2) by simp
      next
        case False
        then show ?thesis using L h \<open>h = ?h\<close> d ns(1,3) by (auto simp: chains_ok_def)
      qed
      then show ?thesis using ch True h ha d by simp
    next
      case False
      have c: "hchain (ids hi) (hash hi ! h) (L h)" "distinct (L h)"
        "\<And>j. j \<in> set (L h) \<longleftrightarrow> j < length (ids hi) \<and> hid (ids hi ! j) \<noteq> - 1 \<and> id_bucket hi (hid (ids hi ! j)) = h"
        using L h by (auto simp: chains_ok_def)
      have e: "ns ! j = ids hi ! j" if "j \<in> set (L h)" for j using c(3) that same False by auto
      have "hchain ns (hash hi ! h) (L h)" using c(1) hchain_cong [OF ns(1) e] by simp
      moreover have "j < length ns \<and> hid (ns ! j) \<noteq> - 1 \<and> id_bucket hi (hid (ns ! j)) = h \<longleftrightarrow>
          j < length (ids hi) \<and> hid (ids hi ! j) \<noteq> - 1 \<and> id_bucket hi (hid (ids hi ! j)) = h" for j
        using ns t(2) False by (cases "j = t") auto
      ultimately show ?thesis using c False ha by simp
    qed
    then show ?thesis by (simp add: chains_ok_def n b ha)
  qed
  moreover have "j \<in> {j. j < length (ids hi) \<and> hid (ids hi ! j) \<noteq> - 1} \<longleftrightarrow>
      j \<in> insert t {j. j < length ns \<and> hid (ns ! j) \<noteq> - 1}" for j
    using t ns by (cases "j = t") auto
  then have "{j. j < length (ids hi) \<and> hid (ids hi ! j) \<noteq> - 1} = insert t {j. j < length ns \<and> hid (ns ! j) \<noteq> - 1}"
    by blast
  then have "card {j. j < length (ids hi) \<and> hid (ids hi ! j) \<noteq> - 1} = Suc (card {j. j < length ns \<and> hid (ns ! j) \<noteq> - 1})"
    using ns(2) by simp
  moreover have "hnext (ns ! j) = None" if "j < length ns" "hid (ns ! j) = - 1" for j
    using that ns same ok by (cases "j = t") (auto simp: hashid_ok_def)
  moreover have "i = j" if "i < length ns" "j < length ns" "hid (ns ! i) = hid (ns ! j)" "hid (ns ! i) \<noteq> - 1" for i j
    using that ns ok by (cases "i = t"; cases "j = t") (auto simp: hashid_ok_def)
  ultimately have ok': "hashid_ok hi'"
    using ok ns(1) ha unfolding hashid_ok_def n by auto
  have "slots hi' i = Some j \<longleftrightarrow> ((slots hi)(cid := None)) i = Some j" for i j
    unfolding slots_iff [OF ok'] n using slots_iff [OF ok] ns t ok
    by (cases "j = t") (auto simp: hashid_ok_def)
  then have "slots hi' i = ((slots hi)(cid := None)) i" for i
    by (metis option.exhaust)
  with ok' show ?thesis by blast
qed


section \<open>The operations on the map\<close>

lemma lookup_spec:
  assumes "hashid_ok hi"
  shows "hashid_lookup hi cid = Some (case slots hi cid of None \<Rightarrow> - 1 | Some j \<Rightarrow> int j)"
proof -
  obtain L where L: "chains_ok hi L" using assms by (auto simp: hashid_ok_def)
  let ?h = "id_bucket hi cid"
  have h: "?h < length (hash hi)" by (rule bucket_less [OF assms])
  have c: "hchain (ids hi) (hash hi ! ?h) (L ?h)"
    "\<And>j. j \<in> set (L ?h) \<longleftrightarrow> j < length (ids hi) \<and> hid (ids hi ! j) \<noteq> - 1 \<and> id_bucket hi (hid (ids hi ! j)) = ?h"
    using L h by (auto simp: chains_ok_def)
  have "List.find (\<lambda>j. hid (ids hi ! j) = cid) (L ?h) = slots hi cid"
  proof (cases "slots hi cid")
    case None
    then have "\<forall>j \<in> set (L ?h). hid (ids hi ! j) \<noteq> cid" using c(2) unfolding slots_None_iff by metis
    then show ?thesis using None by (simp add: find_None_iff)
  next
    case (Some j)
    then have j: "cid \<noteq> - 1" "j < length (ids hi)" "hid (ids hi ! j) = cid" using slots_iff [OF assms] by auto
    then have "j \<in> set (L ?h)" using c(2) by simp
    then obtain i where i: "List.find (\<lambda>j. hid (ids hi ! j) = cid) (L ?h) = Some i"
      using j(3) by (cases "List.find (\<lambda>j. hid (ids hi ! j) = cid) (L ?h)") (auto simp: find_None_iff)
    then have "i \<in> set (L ?h)" "hid (ids hi ! i) = cid" by (auto simp: find_Some_iff)
    then have "i = j" using j c(2) assms by (auto simp: hashid_ok_def)
    then show ?thesis using i Some by simp
  qed
  then show ?thesis using h lookup_loop_spec [OF c(1), of cid] by (simp add: hashid_lookup_def)
qed

lemma remove_missing:
  assumes ok: "hashid_ok hi" and no: "slots hi cid = None"
  shows "hashid_remove hi cid = Some (- 1, hi)"
proof -
  obtain L where L: "chains_ok hi L" using ok by (auto simp: hashid_ok_def)
  let ?h = "id_bucket hi cid"
  have h: "?h < length (hash hi)" by (rule bucket_less [OF ok])
  have c: "hchain (ids hi) (hash hi ! ?h) (L ?h)" "\<forall>j \<in> set (L ?h). hid (ids hi ! j) \<noteq> cid"
    using L h no by (auto simp: chains_ok_def slots_None_iff)
  show ?thesis
  proof (cases "L ?h")
    case Nil
    then show ?thesis using c h by (simp add: hashid_remove_def)
  next
    case (Cons j js)
    then show ?thesis using c h remove_scan_none [of "ids hi" j js cid]
      by (simp add: hashid_remove_def)
  qed
qed

lemma remove_found:
  assumes ok: "hashid_ok hi" and t: "slots hi cid = Some t"
  shows "\<exists>hi'. hashid_remove hi cid = Some (int t, hi') \<and> hashid_ok hi' \<and> slots hi' = (slots hi)(cid := None) \<and>
    hcap hi' = hcap hi \<and> length (ids hi') = length (ids hi)"
proof -
  obtain L where L: "chains_ok hi L" using ok by (auto simp: hashid_ok_def)
  let ?h = "id_bucket hi cid"
  have h: "?h < length (hash hi)" by (rule bucket_less [OF ok])
  have c: "hchain (ids hi) (hash hi ! ?h) (L ?h)" "distinct (L ?h)"
    "\<And>j. j \<in> set (L ?h) \<longleftrightarrow> j < length (ids hi) \<and> hid (ids hi ! j) \<noteq> - 1 \<and> id_bucket hi (hid (ids hi ! j)) = ?h"
    using L h by (auto simp: chains_ok_def)
  have j: "cid \<noteq> - 1" "t < length (ids hi)" "hid (ids hi ! t) = cid" using t slots_iff [OF ok] by auto
  have uniq: "j < length (ids hi) \<Longrightarrow> hid (ids hi ! j) = cid \<Longrightarrow> j = t" for j
    using ok j by (auto simp: hashid_ok_def)
  have "t \<in> set (L ?h)" using c(3) j by simp
  then obtain pre post where split: "L ?h = pre @ t # post" by (meson split_list)
  have no: "\<forall>j \<in> set pre. hid (ids hi ! j) \<noteq> cid" using split c(2,3) uniq by fastforce
  have notin: "t \<notin> set pre" using split c(2) by auto
  let ?b = "\<lparr>hid = - 1, hnext = None\<rparr>"
  note removed = hashid_removed [OF ok L j(2,3,1)]
  show ?thesis
  proof (cases pre)
    case Nil
    let ?ns = "(ids hi)[t := ?b]"
    let ?hi = "hi\<lparr>hash := (hash hi)[?h := hnext (ids hi ! t)], ids := ?ns, hcount := hcount hi - 1\<rparr>"
    have head: "hash hi ! ?h = Some t" "hchain (ids hi) (hnext (ids hi ! t)) post" using c(1) split Nil by auto
    have "hchain ?ns (hnext (ids hi ! t)) post = hchain (ids hi) (hnext (ids hi ! t)) post"
      using c(2) split Nil by (simp add: hchain_upd)
    with head(2) have "hchain ?ns (hnext (ids hi ! t)) post" by simp
    then have "hashid_ok ?hi \<and> slots ?hi = (slots hi)(cid := None)"
      using j split Nil by (intro removed) (auto simp: nth_list_update)
    moreover have "hashid_remove hi cid = Some (int t, ?hi)"
      using h head j by (simp add: hashid_remove_def clear_node_def)
    ultimately show ?thesis by auto
  next
    case (Cons f pre')
    define p where "p = last pre"
    have pre: "pre = butlast pre @ [p]" using Cons by (simp add: p_def)
    let ?ns = "(ids hi)[p := (ids hi ! p)\<lparr>hnext := hnext (ids hi ! t)\<rparr>, t := ?b]"
    let ?hi = "hi\<lparr>hash := (hash hi)[?h := hash hi ! ?h], ids := ?ns, hcount := hcount hi - 1\<rparr>"
    have pL: "p \<in> set (L ?h)" using split Cons by (simp add: p_def)
    then have pl: "p < length (ids hi)" "p \<noteq> t" "id_bucket hi (hid (ids hi ! p)) = ?h" "hid (ids hi ! p) \<noteq> - 1"
      using c(3) [of p] notin last_in_set [of pre] Cons unfolding p_def [symmetric] by auto
    have spl: "L ?h = butlast pre @ p # t # post" using split pre by (metis append.assoc append_Cons append_Nil)
    have "hchain ?ns (hash hi ! ?h) (butlast pre @ p # post)"
      using c(1,2) unfolding spl by (rule hchain_unlink)
    moreover have "butlast pre @ p # post = remove1 t (L ?h)"
    proof -
      have "remove1 t (L ?h) = pre @ post" using split notin by (simp add: remove1_append)
      also have "\<dots> = butlast pre @ p # post" by (subst pre) simp
      finally show ?thesis by simp
    qed
    ultimately have ch: "hchain ?ns (hash hi ! ?h) (remove1 t (L ?h))" by simp
    have "hashid_ok ?hi \<and> slots ?hi = (slots hi)(cid := None)"
      using j pl ch by (intro removed) (auto simp: nth_list_update)
    moreover have "hash hi ! ?h = Some f" "f < length (ids hi)" "hid (ids hi ! f) \<noteq> cid"
      using c(1) split Cons no by auto
    moreover have "remove_scan (ids hi) f cid = Some (Some (p, t))"
      using remove_scan_found [of "ids hi" f pre' t post cid] c(1) split Cons no j(3) by (simp add: p_def)
    moreover have "(hash hi)[?h := Some f] = hash hi" using calculation(2) by (metis list_update_id)
    ultimately have "hashid_remove hi cid = Some (int t, ?hi)"
      using h pl j by (simp add: hashid_remove_def clear_node_def)
    then show ?thesis using \<open>hashid_ok ?hi \<and> _\<close> by auto
  qed
qed


lemma insert_scan_spec:
  assumes "hashid_ok hi" and "0 < hcap hi" and "\<forall>i \<in> set is. 0 \<le> int i + cid \<and> int i + cid < 2 ^ 31"
  shows "insert_scan hi cid is = Some (map_option (\<lambda>i. nat ((int i + cid) mod hcap hi))
    (List.find (\<lambda>i. hid (ids hi ! nat ((int i + cid) mod hcap hi)) = - 1) is))"
  using assms(3)
proof (induction "is")
  case Nil
  then show ?case by simp
next
  case (Cons i js)
  have "nat ((int i + cid) mod hcap hi) < length (ids hi)"
    using assms(1,2) by (auto simp: hashid_ok_def nat_less_iff)
  then show ?case using Cons assms(2) by (simp add: int_range_def c_rem_def Let_def)
qed

lemma free_slot:
  assumes "hashid_ok hi" and "\<not> hashid_full hi"
  shows "\<exists>j < length (ids hi). hid (ids hi ! j) = - 1"
proof (rule ccontr)
  assume "\<not> ?thesis"
  then have "{j. j < length (ids hi) \<and> hid (ids hi ! j) \<noteq> - 1} = {..< length (ids hi)}" by auto
  then show False using assms by (simp add: hashid_ok_def hashid_full_def)
qed

lemma insert_spec:
  assumes ok: "hashid_ok hi" and room: "\<not> hashid_full hi" and new: "slots hi cid = None"
    and cid: "0 \<le> cid" "cid + hcap hi \<le> 2 ^ 31"
  shows "\<exists>t hi'. hashid_insert hi cid = Some (int t, hi') \<and> hashid_ok hi' \<and> t < length (ids hi) \<and> t \<notin> ran (slots hi) \<and>
    slots hi' = (slots hi)(cid \<mapsto> t) \<and> hcap hi' = hcap hi \<and> length (ids hi') = length (ids hi)"
proof -
  obtain L where L: "chains_ok hi L" using ok by (auto simp: hashid_ok_def)
  let ?h = "id_bucket hi cid" and ?n = "length (ids hi)"
  have h: "?h < length (hash hi)" by (rule bucket_less [OF ok])
  obtain f where f: "f < ?n" "hid (ids hi ! f) = - 1" using free_slot [OF ok room] by blast
  have cap: "hcap hi = int ?n" "0 < hcap hi" using ok f(1) by (auto simp: hashid_ok_def)
  define i where "i = nat ((int f - cid) mod hcap hi)"
  have i: "i < ?n" "nat ((int i + cid) mod hcap hi) = f"
  proof -
    show "i < ?n" using cap by (simp add: i_def nat_less_iff)
    have "(int i + cid) mod hcap hi = int f mod hcap hi"
      using cap by (simp add: i_def mod_add_left_eq)
    then show "nat ((int i + cid) mod hcap hi) = f" using f(1) cap by simp
  qed
  let ?P = "\<lambda>i. hid (ids hi ! nat ((int i + cid) mod hcap hi)) = - 1"
  obtain m where m: "List.find ?P [0..<nat (hcap hi)] = Some m"
    using i f cap by (cases "List.find ?P [0..<nat (hcap hi)]") (auto simp: find_None_iff)
  define t where "t = nat ((int m + cid) mod hcap hi)"
  have free: "hid (ids hi ! t) = - 1" using m by (auto simp: find_Some_iff t_def)
  have t: "t < ?n" using cap by (simp add: t_def nat_less_iff)
  have nx: "hnext (ids hi ! t) = None" using ok free t by (simp add: hashid_ok_def)
  have scan: "insert_scan hi cid [0..<nat (hcap hi)] = Some (Some t)"
    using insert_scan_spec [OF ok cap(2), of "[0..<nat (hcap hi)]" cid] m cid cap by (simp add: t_def)
  let ?ns = "(ids hi)[t := \<lparr>hid = cid, hnext = hash hi ! ?h\<rparr>]"
  let ?hi = "hi\<lparr>hcount := hcount hi + 1, ids := ?ns, hash := (hash hi)[?h := Some t]\<rparr>"
  have ins: "hashid_insert hi cid = Some (int t, ?hi)"
    using scan t nx h by (simp add: hashid_insert_def Let_def)
  have b: "id_bucket ?hi = id_bucket hi" by (simp add: id_bucket_def fun_eq_iff)
  have unused: "\<forall>j < ?n. hid (ids hi ! j) \<noteq> cid" using new cid(1) by (auto simp: slots_None_iff)
  let ?L = "L(?h := t # L ?h)"
  have "chains_ok ?hi ?L"
  proof -
    have "hchain ?ns ((hash hi)[?h := Some t] ! g) (?L g) \<and> distinct (?L g) \<and>
      (\<forall>j. j \<in> set (?L g) \<longleftrightarrow> j < ?n \<and> hid (?ns ! j) \<noteq> - 1 \<and> id_bucket hi (hid (?ns ! j)) = g)"
      if g: "g < length (hash hi)" for g
    proof -
      have c: "hchain (ids hi) (hash hi ! g) (L g)" "distinct (L g)"
        "\<And>j. j \<in> set (L g) \<longleftrightarrow> j < ?n \<and> hid (ids hi ! j) \<noteq> - 1 \<and> id_bucket hi (hid (ids hi ! j)) = g"
        using L g by (auto simp: chains_ok_def)
      have tn: "t \<notin> set (L g)" using c(3) free by simp
      have e: "hchain ?ns (hash hi ! g) (L g) = hchain (ids hi) (hash hi ! g) (L g)"
        using tn by (rule hchain_upd)
      have "j \<in> set (?L g) \<longleftrightarrow> j < ?n \<and> hid (?ns ! j) \<noteq> - 1 \<and> id_bucket hi (hid (?ns ! j)) = g" for j
        using c(3) tn t cid(1) by (cases "j = t"; cases "g = ?h") auto
      then show ?thesis using c(1,2) e tn t h by (cases "g = ?h") auto
    qed
    then show ?thesis unfolding chains_ok_def b by simp
  qed
  moreover have "j \<in> {j. j < ?n \<and> hid (?ns ! j) \<noteq> - 1} \<longleftrightarrow> j \<in> insert t {j. j < ?n \<and> hid (ids hi ! j) \<noteq> - 1}" for j
    using t cid(1) by (cases "j = t") auto
  then have "{j. j < ?n \<and> hid (?ns ! j) \<noteq> - 1} = insert t {j. j < ?n \<and> hid (ids hi ! j) \<noteq> - 1}" by blast
  then have "card {j. j < ?n \<and> hid (?ns ! j) \<noteq> - 1} = Suc (card {j. j < ?n \<and> hid (ids hi ! j) \<noteq> - 1})"
    using free by simp
  moreover have "hnext (?ns ! j) = None" if "j < ?n" "hid (?ns ! j) = - 1" for j
    using that cid(1) ok by (cases "j = t") (auto simp: hashid_ok_def)
  moreover have "i = j" if "i < ?n" "j < ?n" "hid (?ns ! i) = hid (?ns ! j)" "hid (?ns ! i) \<noteq> - 1" for i j
    using that ok unused by (cases "i = t"; cases "j = t") (auto simp: hashid_ok_def)
  ultimately have ok': "hashid_ok ?hi"
    using ok unfolding hashid_ok_def by auto
  have "slots ?hi i = Some j \<longleftrightarrow> ((slots hi)(cid \<mapsto> t)) i = Some j" for i j
    using slots_iff [OF ok, of i j] slots_iff [OF ok', of i j] t free cid(1) unused by (cases "j = t") auto
  then have "slots ?hi i = ((slots hi)(cid \<mapsto> t)) i" for i by (metis option.exhaust)
  moreover have "t \<notin> ran (slots hi)" using slots_iff [OF ok] free by (auto simp: ran_def)
  ultimately show ?thesis using ins ok' t by auto
qed

lemma hashcap_loop_total:
  assumes "0 < c" and "mx \<le> 2 ^ 30"
  shows "c = 2 ^ k \<Longrightarrow> \<exists>n. hashcap_loop c mx = Some (2 ^ n) \<and> mx \<le> 2 ^ n"
  using assms(1)
proof (induction "nat (mx - c)" arbitrary: c k rule: less_induct)
  case less
  show ?case
  proof (cases "c < mx")
    case True
    then obtain n where "hashcap_loop (c * 2) mx = Some (2 ^ n) \<and> mx \<le> 2 ^ n"
      using less(1) [of "c * 2" "Suc k"] less(2,3) by auto
    then show ?thesis using True less(3) assms(2)
      by (subst hashcap_loop.simps) (auto simp: int_range_def)
  next
    case False
    then show ?thesis using less(2) by (subst hashcap_loop.simps) auto
  qed
qed

lemma hashid_init_ok:
  assumes "0 \<le> mx" and "mx \<le> 2 ^ 30"
  shows "\<exists>hi. hashid_init mx = Some hi \<and> hashid_ok hi \<and> slots hi = Map.empty \<and> hcap hi = mx"
proof -
  obtain n where n: "hashcap_loop 16 mx = Some (2 ^ n)"
  proof -
    have "\<exists>n. hashcap_loop 16 mx = Some (2 ^ n) \<and> mx \<le> 2 ^ n"
      by (rule hashcap_loop_total [of 16 mx 4]) (use assms in simp_all)
    then show ?thesis using that by blast
  qed
  let ?hi = "\<lparr>hashmod = 2 ^ n - 1, hcap = mx, hcount = 0,
      ids = replicate (nat mx) \<lparr>hid = - 1, hnext = None\<rparr>, hash = replicate (2 ^ n) None\<rparr>"
  have "chains_ok ?hi (\<lambda>_. [])" by (simp add: chains_ok_def)
  then have "hashid_ok ?hi" unfolding hashid_ok_def using assms(1)
    by (intro conjI exI [of _ n] exI [of _ "\<lambda>_. []"]) simp_all
  moreover have "slots ?hi = Map.empty"
    by (rule ext) (auto simp: slots_def find_None_iff)
  moreover have "hashid_init mx = Some ?hi" using n assms(1) by (simp add: hashid_init_def nat_power_eq)
  ultimately show ?thesis by auto
qed


text \<open>
  C17. The id table is a finite map with a bounded number of entries: looking up, removing and
  inserting always return and act as the operations of the map from ids to slots; a new id gets a
  slot no other id has.
\<close>

theorem hashid_refines_map:
  assumes "hashid_ok hi"
  shows "hashid_lookup hi cid = Some (case slots hi cid of None \<Rightarrow> - 1 | Some j \<Rightarrow> int j) \<and>
    (\<exists>hi'. hashid_remove hi cid = Some (case slots hi cid of None \<Rightarrow> - 1 | Some j \<Rightarrow> int j, hi') \<and>
       hashid_ok hi' \<and> slots hi' = (slots hi)(cid := None)) \<and>
    (slots hi cid = None \<longrightarrow> \<not> hashid_full hi \<longrightarrow> 0 \<le> cid \<longrightarrow> cid + hcap hi \<le> 2 ^ 31 \<longrightarrow>
       (\<exists>t hi'. hashid_insert hi cid = Some (int t, hi') \<and> hashid_ok hi' \<and> t \<notin> ran (slots hi) \<and> slots hi' = (slots hi)(cid \<mapsto> t)))"
proof (intro conjI impI)
  show "\<exists>hi'. hashid_remove hi cid = Some (case slots hi cid of None \<Rightarrow> - 1 | Some j \<Rightarrow> int j, hi') \<and>
       hashid_ok hi' \<and> slots hi' = (slots hi)(cid := None)"
  proof (cases "slots hi cid")
    case None
    then have "(slots hi)(cid := None) = slots hi" by (simp add: fun_upd_idem)
    then show ?thesis using remove_missing [OF assms None] None assms by auto
  next
    case (Some t)
    then show ?thesis using remove_found [OF assms Some] by auto
  qed
qed (use lookup_spec [OF assms] insert_spec [OF assms] in blast)+

lemma hashid_refines_map_witness:
  "\<exists>hi t hi'. hashid_init 2 = Some hi \<and> hashid_lookup hi 7 = Some (- 1) \<and> hashid_insert hi 7 = Some (int t, hi') \<and> slots hi' 7 = Some t"
proof -
  obtain hi where hi: "hashid_init 2 = Some hi" "hashid_ok hi" "slots hi = Map.empty" "hcap hi = 2"
    using hashid_init_ok [of 2] by auto
  have "\<forall>j < length (ids hi). hid (ids hi ! j) = - 1" using hi(3) by (metis slots_None_iff)
  then have "{j. j < length (ids hi) \<and> hid (ids hi ! j) \<noteq> - 1} = {}" by auto
  then have "hcount hi = 0" using hi(2) by (simp add: hashid_ok_def)
  then have "\<not> hashid_full hi" using hi(4) by (simp add: hashid_full_def)
  then show ?thesis using hashid_refines_map [OF hi(2), of 7] hi by auto
qed

end
