(* ===== verification/Gate.thy ===== *)
theory Gate
  imports HashId CString
begin

text \<open>
  The gate service of \<^verbatim>\<open>service-src/service_gate.c\<close>: a table of client connections whose byte
  streams are cut into frames and forwarded.  What the service asks of the rest of the node
  (sending, closing a socket, logging) is recorded in \<open>outs\<close>, in order; \<open>skynet_queryname\<close> and
  \<open>skynet_socket_listen\<close> are parameters (\<open>gate_host\<close>).
\<close>

section \<open>Data\<close>

datatype gate_out =
    Send u32 u32 u32 int "u8 list"
  | Sock_close int
  | Sock_start int
  | Sock_send int "u8 list"
  | Log string
  | Free "u8 list"

record connection =
  c_id :: int
  c_agent :: u32
  c_client :: u32
  c_remote :: "u8 list"
  c_buffer :: databuffer

record gate =
  listen_id :: int
  watchdog :: u32
  broker :: u32
  client_tag :: u32
  header_size :: nat
  max_connection :: int
  ghash :: hashid
  conn :: "connection list"
  mp :: messagepool
  outs :: "gate_out list"

record gate_host =
  gh_queryname :: "string \<Rightarrow> u32"
  gh_listen :: "string \<Rightarrow> int \<Rightarrow> int"

datatype socket_type = S_DATA | S_CONNECT | S_CLOSE | S_ACCEPT | S_ERROR | S_UDP | S_WARNING

record socket_message =
  sm_type :: socket_type
  sm_id :: int
  sm_ud :: int
  sm_buffer :: "u8 list"

definition PT_TEXT :: u32 where "PT_TEXT = 0"
definition PT_CLIENT :: u32 where "PT_CLIENT = 3"
definition PT_DONTCOPY :: u32 where "PT_DONTCOPY = 0x10000"

definition out :: "gate_out \<Rightarrow> gate \<Rightarrow> gate" where
  "out e g = g\<lparr>outs := outs g @ [e]\<rparr>"

definition chars :: "string \<Rightarrow> u8 list" where
  "chars s = map (\<lambda>c. of_nat (of_char c)) s"

definition text_of :: "u8 list \<Rightarrow> string" where
  "text_of bs = map (\<lambda>b. char_of (unat b)) (takeWhile (\<lambda>b. b \<noteq> 0) bs)"

definition connection_zero :: connection where
  "connection_zero = \<lparr>c_id = 0, c_agent = 0, c_client = 0, c_remote = replicate 32 0, c_buffer = databuffer_zero\<rparr>"

definition gate_create :: gate where
  "gate_create = \<lparr>listen_id = - 1, watchdog = 0, broker = 0, client_tag = 0, header_size = 0, max_connection = 0,
     ghash = \<lparr>hashmod = 0, hcap = 0, hcount = 0, ids = [], hash = []\<rparr>, conn = [], mp = messagepool_zero, outs = []\<rparr>"

text \<open>Everything is freed; what remains visible are the closed sockets.\<close>

definition gate_release :: "gate \<Rightarrow> gate" where
  "gate_release g =
     (let g1 = fold (\<lambda>c g. if c_id c \<ge> 0 then out (Sock_close (c_id c)) g else g) (take (nat (max_connection g)) (conn g)) g;
          g2 = (if listen_id g \<ge> 0 then out (Sock_close (listen_id g)) g1 else g1)
      in g2\<lparr>mp := messagepool_free (mp g), ghash := hashid_clear (ghash g), conn := []\<rparr>)"

section \<open>Control commands\<close>

text \<open>The command is edited in place in a copy of \<open>sz + 1\<close> characters, the last one NUL; a
  pointer into it is an offset.\<close>

abbreviation NUL :: char where "NUL \<equiv> CHR 0x00"

definition str_at :: "string \<Rightarrow> nat \<Rightarrow> string option" where
  "str_at buf p = do {
     assert_that (p \<le> length buf \<and> NUL \<in> set (drop p buf));
     Some (takeWhile (\<lambda>c. c \<noteq> NUL) (drop p buf)) }"

text \<open>\<open>_parm\<close>: the argument after the spaces moves to the front.\<close>

definition parm :: "string \<Rightarrow> nat \<Rightarrow> nat \<Rightarrow> string" where
  "parm msg sz command_sz =
     (let skip = command_sz + length (takeWhile (\<lambda>c. c = CHR '' '') (drop command_sz (take sz msg)));
          arg = drop skip (take sz msg)
      in arg @ [NUL] @ drop (Suc (length arg)) msg)"

text \<open>\<open>strsep\<close> in place: the text, and the next offset or NULL.\<close>

definition strsep_at :: "string \<Rightarrow> nat \<Rightarrow> (string \<times> nat option) option" where
  "strsep_at buf p = do {
     s \<leftarrow> str_at buf p;
     let n = length (takeWhile (\<lambda>c. c \<noteq> CHR '' '') s);
     Some (if n < length s then (buf[p + n := NUL], Some (p + n + 1)) else (buf, None)) }"

text \<open>\<open>memcmp(command, lit, i) == 0\<close>; reading past the end of the literal is \<open>None\<close>.\<close>

definition memcmp_eq :: "string \<Rightarrow> string \<Rightarrow> nat \<Rightarrow> bool option" where
  "memcmp_eq command lit i =
     (let l = lit @ [NUL]; n = min i (length l)
      in if take n command \<noteq> take n l then Some False
         else if i \<le> length l then Some True else None)"

definition forward_agent :: "gate \<Rightarrow> int \<Rightarrow> u32 \<Rightarrow> u32 \<Rightarrow> gate option" where
  "forward_agent g fd agentaddr clientaddr = do {
     i \<leftarrow> hashid_lookup (ghash g) fd;
     if i \<ge> 0 then do {
       c \<leftarrow> arr_get (conn g) (nat i);
       Some (g\<lparr>conn := (conn g)[nat i := c\<lparr>c_agent := agentaddr, c_client := clientaddr\<rparr>]\<rparr>) }
     else Some g }"

definition ctrl_kick :: "gate \<Rightarrow> string \<Rightarrow> gate option" where
  "ctrl_kick g tmp = do {
     s \<leftarrow> str_at tmp 0;
     let uid = strtol10 s;
     i \<leftarrow> hashid_lookup (ghash g) uid;
     Some (if i \<ge> 0 then out (Sock_close uid) g else g) }"

definition ctrl_start :: "gate \<Rightarrow> string \<Rightarrow> gate option" where
  "ctrl_start g tmp = do {
     s \<leftarrow> str_at tmp 0;
     let uid = strtol10 s;
     i \<leftarrow> hashid_lookup (ghash g) uid;
     Some (if i \<ge> 0 then out (Sock_start uid) g else g) }"

definition ctrl_forward :: "gate \<Rightarrow> string \<Rightarrow> (gate \<times> string) option" where
  "ctrl_forward g tmp = do {
     (t1, p) \<leftarrow> strsep_at tmp 0;
     (case p of
        None \<Rightarrow> Some (g, t1)
      | Some agent \<Rightarrow> do {
          idstr \<leftarrow> str_at t1 0;
          (t2, q) \<leftarrow> strsep_at t1 agent;
          (case q of
             None \<Rightarrow> Some (g, t2)
           | Some client \<Rightarrow> do {
               a \<leftarrow> str_at t2 (agent + 1);
               c \<leftarrow> str_at t2 (client + 1);
               g1 \<leftarrow> forward_agent g (strtol10 idstr) (strtoul16 a) (strtoul16 c);
               Some (g1, t2) }) }) }"

text \<open>Every path ends in \<open>my_exit\<close>, which logs the buffer as an unknown command.\<close>

definition ctrl :: "gate_host \<Rightarrow> gate \<Rightarrow> string \<Rightarrow> gate option" where
  "ctrl H g msg = do {
     let sz = length msg;
     let tmp = msg @ [NUL];
     (g1, tmp1) \<leftarrow> (if sz = 0 then Some (g, tmp) else do {
        let i = length (takeWhile (\<lambda>c. c \<noteq> CHR '' '') msg);
        kick \<leftarrow> memcmp_eq tmp ''kick'' i;
        if kick then do { let t = parm tmp sz i; g1 \<leftarrow> ctrl_kick g t; Some (g1, t) }
        else do {
          fwd \<leftarrow> memcmp_eq tmp ''forward'' i;
          if fwd then ctrl_forward g (parm tmp sz i)
          else do {
            brk \<leftarrow> memcmp_eq tmp ''broker'' i;
            if brk then do {
              let t = parm tmp sz i;
              s \<leftarrow> str_at t 0;
              Some (g\<lparr>broker := gh_queryname H s\<rparr>, t) }
            else do {
              start \<leftarrow> memcmp_eq tmp ''start'' i;
              if start then do { let t = parm tmp sz i; g1 \<leftarrow> ctrl_start g t; Some (g1, t) }
              else do {
                close \<leftarrow> memcmp_eq tmp ''close'' i;
                Some (if close \<and> listen_id g \<ge> 0
                      then (out (Sock_close (listen_id g)) (g\<lparr>listen_id := - 1\<rparr>), tmp) else (g, tmp)) } } } } });
     s \<leftarrow> str_at tmp1 0;
     Some (out (Log (''[gate] Unkown command : '' @ s)) g1) }"

section \<open>Client data\<close>

definition report :: "gate \<Rightarrow> string \<Rightarrow> gate" where
  "report g s = (if watchdog g = 0 then g else out (Send 0 (watchdog g) PT_TEXT 0 (chars s)) g)"

text \<open>Takes \<open>n\<close> bytes from the buffer of connection \<open>i\<close>.\<close>

definition take_bytes :: "gate \<Rightarrow> nat \<Rightarrow> int \<Rightarrow> (u8 list \<times> gate) option" where
  "take_bytes g i n = do {
     c \<leftarrow> arr_get (conn g) i;
     (d, db, m) \<leftarrow> databuffer_read (c_buffer c) (mp g) n;
     Some (d, g\<lparr>conn := (conn g)[i := c\<lparr>c_buffer := db\<rparr>], mp := m\<rparr>) }"

definition forward :: "gate \<Rightarrow> nat \<Rightarrow> int \<Rightarrow> gate option" where
  "forward g i n = do {
     c \<leftarrow> arr_get (conn g) i;
     let fd = c_id c;
     if fd \<le> 0 then Some g
     else if broker g \<noteq> 0 then do {
       (d, g1) \<leftarrow> take_bytes g i n;
       Some (out (Send 0 (broker g) (client_tag g OR PT_DONTCOPY) fd d) g1) }
     else if c_agent c \<noteq> 0 then do {
       (d, g1) \<leftarrow> take_bytes g i n;
       Some (out (Send (c_client c) (c_agent c) (client_tag g OR PT_DONTCOPY) fd d) g1) }
     else if watchdog g \<noteq> 0 then do {
       (d, g1) \<leftarrow> take_bytes g i n;
       Some (out (Send 0 (watchdog g) (PT_TEXT OR PT_DONTCOPY) fd (chars (int_str fd @ '' data '') @ d)) g1) }
     else Some g }"

text \<open>An operation on the buffer of one connection.\<close>

definition on_buffer ::
  "gate \<Rightarrow> nat \<Rightarrow> (databuffer \<Rightarrow> messagepool \<Rightarrow> (databuffer \<times> messagepool) option) \<Rightarrow> gate option" where
  "on_buffer g i f = do {
     c \<leftarrow> arr_get (conn g) i;
     (db, m) \<leftarrow> f (c_buffer c) (mp g);
     Some (g\<lparr>conn := (conn g)[i := c\<lparr>c_buffer := db\<rparr>], mp := m\<rparr>) }"

partial_function (option) frame_loop :: "gate \<Rightarrow> nat \<Rightarrow> int \<Rightarrow> gate option" where
  "frame_loop g i fd = do {
     c \<leftarrow> arr_get (conn g) i;
     (n, db, m) \<leftarrow> databuffer_readheader (c_buffer c) (mp g) (header_size g);
     let g1 = g\<lparr>conn := (conn g)[i := c\<lparr>c_buffer := db\<rparr>], mp := m\<rparr>;
     if n < 0 then Some g1
     else if n > 0 then
       if n \<ge> 0x1000000 then do {
         g2 \<leftarrow> on_buffer g1 i databuffer_clear;
         Some (out (Log ''Recv socket message > 16M'') (out (Sock_close fd) g2)) }
       else do {
         g2 \<leftarrow> forward g1 i n;
         g3 \<leftarrow> on_buffer g2 i (\<lambda>db m. Some (databuffer_reset db, m));
         frame_loop g3 i fd }
     else frame_loop g1 i fd }"

definition dispatch_data :: "gate \<Rightarrow> nat \<Rightarrow> int \<Rightarrow> u8 list \<Rightarrow> int \<Rightarrow> gate option" where
  "dispatch_data g i fd data sz = do {
     g1 \<leftarrow> on_buffer g i (\<lambda>db m. databuffer_push db m data sz);
     frame_loop g1 i fd }"

definition dispatch_socket_message :: "gate \<Rightarrow> socket_message \<Rightarrow> u8 list \<Rightarrow> int \<Rightarrow> gate option" where
  "dispatch_socket_message g m extra sz0 =
     (case sm_type m of
        S_DATA \<Rightarrow> do {
          i \<leftarrow> hashid_lookup (ghash g) (sm_id m);
          if i \<ge> 0 then dispatch_data g (nat i) (sm_id m) (sm_buffer m) (sm_ud m)
          else Some (out (Free (sm_buffer m)) (out (Sock_close (sm_id m))
                 (out (Log (''Drop unknown connection '' @ int_str (sm_id m) @ '' message'')) g))) }
      | S_CONNECT \<Rightarrow>
          if sm_id m = listen_id g then Some g
          else do {
            i \<leftarrow> hashid_lookup (ghash g) (sm_id m);
            Some (if i < 0 then out (Sock_close (sm_id m)) (out (Log (''Close unknown connection '' @ int_str (sm_id m))) g)
                  else g) }
      | S_ACCEPT \<Rightarrow> do {
          assert_that (listen_id g = sm_id m);
          if hashid_full (ghash g) then Some (out (Sock_close (sm_ud m)) g)
          else do {
            (i, hi) \<leftarrow> hashid_insert (ghash g) (sm_ud m);
            c \<leftarrow> arr_get (conn g) (nat i);
            let sz = (if sz0 < 0 \<or> sz0 \<ge> 32 then 31 else nat sz0);
            assert_that (sz \<le> length extra);
            let name = take sz extra @ [0] @ drop (Suc sz) (c_remote c);
            let c1 = c\<lparr>c_id := sm_ud m, c_remote := name\<rparr>;
            let g1 = g\<lparr>ghash := hi, conn := (conn g)[nat i := c1]\<rparr>;
            let g2 = report g1 (int_str (c_id c1) @ '' open '' @ int_str (c_id c1) @ '' '' @ text_of name @ '':0'');
            Some (out (Log (''socket open: '' @ hex_str (nat (c_id c1 mod 2 ^ 32)))) g2) } }
      | S_WARNING \<Rightarrow>
          Some (out (Log (''fd ('' @ int_str (sm_id m) @ '') send buffer ('' @ int_str (sm_ud m) @ '')K'')) g)
      | S_UDP \<Rightarrow> Some g
      | _ \<Rightarrow> do {
          (i, hi) \<leftarrow> hashid_remove (ghash g) (sm_id m);
          let g1 = g\<lparr>ghash := hi\<rparr>;
          if i \<ge> 0 then do {
            g2 \<leftarrow> on_buffer g1 (nat i) databuffer_clear;
            Some (report (g2\<lparr>conn := (conn g2)[nat i := connection_zero\<lparr>c_id := - 1\<rparr>]\<rparr>)
                   (int_str (sm_id m) @ '' close'')) }
          else Some g1 })"

section \<open>The callback\<close>

datatype gate_msg =
    M_text string
  | M_client "u8 list"
  | M_socket socket_message "u8 list" int
  | M_other

definition client_uid :: "u8 list \<Rightarrow> u32" where
  "client_uid b = ucast (b ! 0) OR push_bit 8 (ucast (b ! 1)) OR push_bit 16 (ucast (b ! 2)) OR push_bit 24 (ucast (b ! 3))"

text \<open>The result: 1 when the service keeps the message block.\<close>

definition gate_cb :: "gate_host \<Rightarrow> gate \<Rightarrow> u32 \<Rightarrow> gate_msg \<Rightarrow> (int \<times> gate) option" where
  "gate_cb H g source msg =
     (case msg of
        M_text s \<Rightarrow> do { g1 \<leftarrow> ctrl H g s; Some (0, g1) }
      | M_client bs \<Rightarrow>
          if length bs \<le> 4 then Some (0, out (Log (''Invalid client message from '' @ hex_str (unat source))) g)
          else do {
            let uid = client_uid (drop (length bs - 4) bs);
            i \<leftarrow> hashid_lookup (ghash g) (sint uid);
            Some (if i \<ge> 0 then (1, out (Sock_send (sint uid) (take (length bs - 4) bs)) g)
                  else (0, out (Log (''Invalid client id '' @ int_str (sint uid) @ '' from '' @ hex_str (unat source))) g)) }
      | M_socket m extra sz \<Rightarrow> do { g1 \<leftarrow> dispatch_socket_message g m extra sz; Some (0, g1) }
      | M_other \<Rightarrow> Some (0, g))"

section \<open>Start\<close>

definition start_listen :: "gate_host \<Rightarrow> gate \<Rightarrow> string \<Rightarrow> (int \<times> gate) option" where
  "start_listen H g listen_addr =
     (let after = rev (takeWhile (\<lambda>c. c \<noteq> CHR '':'') (rev listen_addr));
          colon = CHR '':'' \<in> set listen_addr;
          host = (if colon then take (length listen_addr - length after - 1) listen_addr else []);
          port = strtol10 (if colon then after else listen_addr)
      in if port \<le> 0 then Some (1, out (Log (''Invalid gate address '' @ listen_addr)) g)
         else let l = gh_listen H host port; g1 = g\<lparr>listen_id := l\<rparr>
              in Some (if l < 0 then (1, g1) else (0, out (Sock_start l) g1)))"

text \<open>\<open>%d\<close> of \<open>sscanf\<close>: the number and the rest, \<open>None\<close> when no digit follows.\<close>

definition scan_int :: "string \<Rightarrow> (int \<times> string) option" where
  "scan_int s =
     (let t = dropWhile is_space s; (neg, u) = read_sign t; (v, r) = read_digits 10 u 0
      in if r = u then None else Some (clamp_long neg v, r))"

text \<open>\<open>sscanf(parm, "%c %s %s %d %d", ...)\<close>: the number of fields read, and the fields.\<close>

definition scan_parm :: "string \<Rightarrow> nat \<times> char \<times> string \<times> string \<times> int \<times> int" where
  "scan_parm s =
     (case s of
        [] \<Rightarrow> (0, NUL, [], [], 0, 0)
      | h # r \<Rightarrow>
          (let (w, r1) = scan_word r; (b, r2) = scan_word r1 in
           if w = [] then (1, h, [], [], 0, 0)
           else if b = [] then (2, h, w, [], 0, 0)
           else case scan_int r2 of
             None \<Rightarrow> (3, h, w, b, 0, 0)
           | Some (t, r3) \<Rightarrow>
               (case scan_int r3 of None \<Rightarrow> (4, h, w, b, t, 0) | Some (m, _) \<Rightarrow> (5, h, w, b, t, m))))"

definition gate_init :: "gate_host \<Rightarrow> gate \<Rightarrow> string option \<Rightarrow> (int \<times> gate) option" where
  "gate_init H g param =
     (case param of
        None \<Rightarrow> Some (1, g)
      | Some p \<Rightarrow>
          (let (n, header, wd, binding, tag0, mx) = scan_parm p in
           if n < 4 then Some (1, out (Log (''Invalid gate parm '' @ p)) g)
           else if mx \<le> 0 then Some (1, out (Log ''Need max connection'') g)
           else if header \<noteq> CHR ''S'' \<and> header \<noteq> CHR ''L'' then Some (1, out (Log ''Invalid data header style'') g)
           else
             (let tag = (if tag0 = 0 then 3 else tag0);
                  off = (wd \<noteq> [] \<and> hd wd = CHR ''!'');
                  g1 = g\<lparr>watchdog := (if off then 0 else gh_queryname H wd)\<rparr>
              in if \<not> off \<and> watchdog g1 = 0 then Some (1, out (Log (''Invalid watchdog '' @ wd)) g1)
                 else do {
                   hi \<leftarrow> hashid_init mx;
                   start_listen H
                     (g1\<lparr>ghash := hi, conn := replicate (nat mx) (connection_zero\<lparr>c_id := - 1\<rparr>), max_connection := mx,
                        client_tag := of_int tag, header_size := (if header = CHR ''S'' then 2 else 4)\<rparr>) binding })))"

end
