(* ===== verification/GateStreams.thy ===== *)
theory GateStreams
  imports Gate
begin

text \<open>
  The gate as a component: the frames of a byte stream, the buffers of all connections over one
  pool, and the theorems that the gate cuts every stream into its frames and keeps its invariant,
  with lengths of two bytes (\<open>S\<close>) or four (\<open>L\<close>).
\<close>

section \<open>Length fields\<close>

text \<open>The bytes of a length field: big-endian, an unsigned number of two bytes or a C \<open>int\<close>.\<close>

definition header_field :: "nat \<Rightarrow> int \<Rightarrow> u8 list" where
  "header_field k h =
     (if k = 2 then [of_int (h div 256), of_int (h mod 256)]
      else (let w = of_int h :: u32
            in [ucast (drop_bit 24 w), ucast (drop_bit 16 w), ucast (drop_bit 8 w), ucast w]))"

definition header_ok :: "nat \<Rightarrow> int \<Rightarrow> bool" where
  "header_ok k h \<longleftrightarrow> (if k = 2 then 0 \<le> h \<and> h < 2 ^ 16 else - (2 ^ 31) \<le> h \<and> h < 2 ^ 31)"

abbreviation size_ok :: "nat \<Rightarrow> bool" where "size_ok k \<equiv> k = 2 \<or> k = 4"

lemma header_value_pair: "header_value [a, b] = int (unat a * 256 + unat b)"
  by (simp add: header_value_def)

lemma header_field_length [simp]: "size_ok k \<Longrightarrow> length (header_field k h) = k"
  by (auto simp: header_field_def Let_def)

text \<open>Four bytes make a word, and the word gives the bytes back.\<close>

definition word_of :: "u8 \<Rightarrow> u8 \<Rightarrow> u8 \<Rightarrow> u8 \<Rightarrow> u32" where
  "word_of a b c d = push_bit 24 (ucast a) OR push_bit 16 (ucast b) OR push_bit 8 (ucast c) OR ucast d"

lemma header_value_four: "header_value [a, b, c, d] = sint (word_of a b c d)"
  by (simp add: header_value_def word_of_def)

lemma word_of_bytes:
  "ucast (drop_bit 24 (word_of a b c d)) = a" "ucast (drop_bit 16 (word_of a b c d)) = b"
  "ucast (drop_bit 8 (word_of a b c d)) = c" "ucast (word_of a b c d) = d"
  unfolding word_of_def by (rule bit_word_eqI; auto simp: bit_simps not_less dest: bit_imp_le_length)+

lemma bytes_word_of:
  "word_of (ucast (drop_bit 24 w)) (ucast (drop_bit 16 w)) (ucast (drop_bit 8 w)) (ucast w) = w"
proof (rule bit_word_eqI)
  fix n assume "n < LENGTH(32)"
  then consider "n < 8" | "8 \<le> n" "n < 16" | "16 \<le> n" "n < 24" | "24 \<le> n" "n < 32" by fastforce
  then show "bit (word_of (ucast (drop_bit 24 w)) (ucast (drop_bit 16 w)) (ucast (drop_bit 8 w)) (ucast w)) n = bit w n"
    by cases (auto simp: word_of_def bit_simps)
qed

lemma list_of_four: "length xs = 4 \<Longrightarrow> \<exists>a b c d. xs = [a, b, c, d]"
  by (auto simp: length_Suc_conv eval_nat_numeral)

lemma list_of_two: "length xs = 2 \<Longrightarrow> \<exists>a b. xs = [a, b]"
  by (auto simp: length_Suc_conv eval_nat_numeral)

lemma header_value_field:
  assumes "size_ok k" and "header_ok k h"
  shows "header_value (header_field k h) = h"
proof (cases "k = 2")
  case True
  then have "0 \<le> h div 256" "h div 256 < 256" "0 \<le> h mod 256" "h mod 256 < 256"
    using assms by (auto simp: header_ok_def)
  then have "uint (of_int (h div 256) :: u8) = h div 256" "uint (of_int (h mod 256) :: u8) = h mod 256"
    by (simp_all add: uint_word_of_int)
  then show ?thesis using True by (simp add: header_field_def header_value_pair)
next
  case False
  then have "sint (of_int h :: u32) = h"
    using assms by (simp add: signed_of_int signed_take_bit_int_eq_self_iff header_ok_def)
  then show ?thesis using False assms by (simp add: header_field_def header_value_four bytes_word_of Let_def)
qed

lemma header_field_value:
  assumes "size_ok k" and "length xs = k"
  shows "header_field k (header_value xs) = xs"
proof (cases "k = 2")
  case True
  then obtain a b where xs: "xs = [a, b]" using list_of_two assms(2) by blast
  have "(int (unat a) * 256 + int (unat b)) div 256 = int (unat a)"
    "(int (unat a) * 256 + int (unat b)) mod 256 = int (unat b)"
    using uint_lt2p [of b] by (simp_all add: div_pos_pos_trivial)
  then show ?thesis using True xs by (simp add: header_field_def header_value_pair)
next
  case False
  then obtain a b c d where xs: "xs = [a, b, c, d]" using list_of_four assms by blast
  have "of_int (sint (word_of a b c d)) = word_of a b c d" by simp
  then show ?thesis using False xs word_of_bytes [of a b c d]
    by (simp add: header_field_def header_value_four Let_def)
qed

lemma header_ok_value:
  assumes "size_ok k" and "length xs = k"
  shows "header_ok k (header_value xs)"
proof (cases "k = 2")
  case True
  then show ?thesis using header_value_two [of xs] assms(2) by (simp add: header_ok_def)
next
  case False
  then obtain a b c d where xs: "xs = [a, b, c, d]" using list_of_four assms by blast
  show ?thesis using False sint_ge [of "word_of a b c d"] sint_lt [of "word_of a b c d"]
    by (simp add: xs header_ok_def header_value_four)
qed

lemma header_ok_zero [simp]: "header_ok k 0"
  by (simp add: header_ok_def)

section \<open>Frames of a byte stream\<close>

text \<open>What the gate finds in a stream: a frame, or a complete frame of 16M or more.\<close>

datatype cut = Frame "u8 list" | Too_long

text \<open>A length of \<open>k\<close> bytes before each frame; empty frames are dropped, a stream with a negative
  length waits for ever, and a frame that is too long makes the gate throw away what it holds.  The
  payload of a frame that nobody wants (\<open>q\<close> false) stays and is read as the next frame.  The second
  result is what is left over.\<close>

function cut_frames :: "nat \<Rightarrow> bool \<Rightarrow> u8 list \<Rightarrow> cut list \<times> u8 list" where
  "cut_frames k q s =
     (if k = 0 \<or> length s < k then ([], s)
      else let v = header_value (take k s); r = drop k s in
        if v < 0 \<or> int (length r) < v then ([], s)
        else if v \<ge> 0x1000000 then ([Too_long], [])
        else let (es, t) = cut_frames k q (if q then drop (nat v) r else r)
             in (if v = 0 \<or> \<not> q then es else Frame (take (nat v) r) # es, t))"
  by auto

termination
  by (relation "measure (\<lambda>(k, q, s). length s)") auto

declare cut_frames.simps [simp del]

text \<open>The stream does not start with a complete frame.\<close>

definition unfinished :: "nat \<Rightarrow> u8 list \<Rightarrow> bool" where
  "unfinished k s \<longleftrightarrow> length s < k \<or> header_value (take k s) < 0 \<or> int (length (drop k s)) < header_value (take k s)"

lemma cut_unfinished: "unfinished k s \<Longrightarrow> cut_frames k q s = ([], s)"
  by (subst cut_frames.simps) (auto simp: unfinished_def Let_def)

lemma cut_long:
  assumes "\<not> unfinished k s" and "0 < k" and "header_value (take k s) \<ge> 0x1000000"
  shows "cut_frames k q s = ([Too_long], [])"
  using assms by (subst cut_frames.simps) (auto simp: unfinished_def Let_def)

lemma cut_frame:
  assumes "\<not> unfinished k s" and "0 < k" and "header_value (take k s) = v" and "v < 0x1000000"
  shows "cut_frames k q s = (let (es, t) = cut_frames k q (if q then drop (nat v) (drop k s) else drop k s)
     in (if v = 0 \<or> \<not> q then es else Frame (take (nat v) (drop k s)) # es, t))"
  using assms by (subst cut_frames.simps) (auto simp: unfinished_def Let_def)

lemma cut_induct:
  assumes "0 < k"
    and "\<And>s. unfinished k s \<Longrightarrow> P s"
    and "\<And>s. \<not> unfinished k s \<Longrightarrow> header_value (take k s) \<ge> 0x1000000 \<Longrightarrow> P s"
    and "\<And>s v. \<not> unfinished k s \<Longrightarrow> header_value (take k s) = v \<Longrightarrow> 0 \<le> v \<Longrightarrow> v < 0x1000000 \<Longrightarrow>
      P (if q then drop (nat v) (drop k s) else drop k s) \<Longrightarrow> P s"
  shows "P s"
proof (induction "length s" arbitrary: s rule: less_induct)
  case less
  show ?case
  proof (cases "unfinished k s \<or> header_value (take k s) \<ge> 0x1000000")
    case True
    then show ?thesis using assms(2,3) by blast
  next
    case False
    then have "k \<le> length s" "0 \<le> header_value (take k s)" by (auto simp: unfinished_def)
    moreover from this have "length (if q then drop (nat v) (drop k s) else drop k s) < length s" for v
      using assms(1) by auto
    ultimately show ?thesis using assms(4) [of s] less False by auto
  qed
qed

lemma unfinished_append: "unfinished k (s @ t) \<Longrightarrow> unfinished k s"
  by (auto simp: unfinished_def)

lemma finished_append:
  assumes "\<not> unfinished k s"
  shows "\<not> unfinished k (s @ t)" "take k (s @ t) = take k s" "drop k (s @ t) = drop k s @ t"
  using assms by (auto simp: unfinished_def)

lemma cut_frames_append:
  assumes "0 < k" and "Too_long \<notin> set (fst (cut_frames k q (s @ t)))"
  shows "cut_frames k q (s @ t) = (let (es, r) = cut_frames k q s; (fs, r') = cut_frames k q (r @ t) in (es @ fs, r'))"
  using assms(2)
proof (induction s rule: cut_induct [where q = q, OF assms(1), case_names wait long frame])
  case (wait s)
  then show ?case by (simp add: cut_unfinished split: prod.splits)
next
  case (long s)
  note f = finished_append [OF long(1), of t]
  have v: "header_value (take k (s @ t)) \<ge> 0x1000000" unfolding f(2) by (rule long(2))
  show ?case using cut_long [OF f(1) assms(1) v, of q] long(3) by simp
next
  case (frame s v)
  note f = finished_append [OF frame(1), of t]
  let ?r = "if q then drop (nat v) (drop k s) else drop k s"
  have n: "nat v \<le> length (drop k s)" using frame(1,2) by (auto simp: unfinished_def)
  have d: "(if q then drop (nat v) (drop k (s @ t)) else drop k (s @ t)) = ?r @ t"
    "take (nat v) (drop k (s @ t)) = take (nat v) (drop k s)" using f(3) n by simp_all
  have v: "header_value (take k (s @ t)) = v" unfolding f(2) by (rule frame(2))
  have st: "cut_frames k q (s @ t) = (let (es, t) = cut_frames k q (?r @ t)
     in (if v = 0 \<or> \<not> q then es else Frame (take (nat v) (drop k s)) # es, t))"
    by (simp only: cut_frame [OF f(1) assms(1) v frame(4)] d)
  then have "Too_long \<notin> set (fst (cut_frames k q (?r @ t)))" using frame(6) by (auto simp: Let_def split: prod.splits if_splits)
  then show ?case unfolding st cut_frame [OF frame(1) assms(1) frame(2,4)] using frame(5)
    by (auto simp: Let_def split: prod.splits)
qed

lemma cut_rest:
  assumes "0 < k"
  shows "unfinished k (snd (cut_frames k q s))"
proof (induction s rule: cut_induct [where q = q, OF assms, case_names wait long frame])
  case (long s)
  then show ?case using assms cut_long [OF long(1) assms long(2), of q] by (simp add: unfinished_def)
next
  case (frame s v)
  then show ?case using assms by (cases q) (auto simp: cut_frame Let_def split: prod.splits)
qed (auto simp: cut_unfinished)

text \<open>Frames that are written with their lengths are found again, in order.\<close>

lemma cut_encoded:
  assumes "size_ok k" and "\<forall>d \<in> set ds. d \<noteq> [] \<and> int (length d) < (if k = 2 then 2 ^ 16 else 0x1000000)"
  shows "cut_frames k True (concat (map (\<lambda>d. header_field k (int (length d)) @ d) ds)) = (map Frame ds, [])"
  using assms(2)
proof (induction ds)
  case Nil
  then show ?case using assms(1) by (auto intro!: cut_unfinished simp: unfinished_def)
next
  case (Cons d ds)
  let ?s = "concat (map (\<lambda>d. header_field k (int (length d)) @ d) (d # ds))"
  have "header_ok k (int (length d))" using Cons.prems by (auto simp: header_ok_def split: if_splits)
  then have hv: "header_value (take k ?s) = int (length d)" "drop k ?s = d @ concat (map (\<lambda>d. header_field k (int (length d)) @ d) ds)"
    using assms(1) by (simp_all add: header_value_field)
  have "k \<le> length ?s" using assms(1) by auto
  then have "\<not> unfinished k ?s" unfolding unfinished_def hv by simp
  moreover have "int (length d) < 0x1000000" using Cons.prems by (auto split: if_splits)
  ultimately show ?case using cut_frame [of k ?s "int (length d)" True] hv Cons assms(1) by auto
qed

text \<open>The bytes a buffer still has to deliver, its length field included when it is read.\<close>

definition pending :: "nat \<Rightarrow> int \<Rightarrow> u8 list \<Rightarrow> u8 list" where
  "pending k h bs = (if h = 0 then bs else header_field k h @ bs)"
text \<open>What \<open>forward\<close> sends for a frame of a connection.\<close>

definition wrap :: "gate \<Rightarrow> connection \<Rightarrow> u8 list \<Rightarrow> gate_out" where
  "wrap g c d =
     (if broker g \<noteq> 0 then Send 0 (broker g) (client_tag g OR PT_DONTCOPY) (c_id c) d
      else if c_agent c \<noteq> 0 then Send (c_client c) (c_agent c) (client_tag g OR PT_DONTCOPY) (c_id c) d
      else Send 0 (watchdog g) (PT_TEXT OR PT_DONTCOPY) (c_id c) (chars (int_str (c_id c) @ '' data '') @ d))"

definition routed :: "gate \<Rightarrow> connection \<Rightarrow> bool" where
  "routed g c \<longleftrightarrow> 0 < c_id c \<and> (broker g \<noteq> 0 \<or> c_agent c \<noteq> 0 \<or> watchdog g \<noteq> 0)"

lemma wrap_buffer [simp]:
  "wrap g (c\<lparr>c_buffer := db\<rparr>) = wrap g c" "routed g (c\<lparr>c_buffer := db\<rparr>) = routed g c"
  "wrap (g\<lparr>conn := cs\<rparr>) = wrap g" "wrap (g\<lparr>mp := P\<rparr>) = wrap g" "wrap (g\<lparr>outs := os\<rparr>) = wrap g"
  "routed (g\<lparr>conn := cs\<rparr>) = routed g" "routed (g\<lparr>mp := P\<rparr>) = routed g" "routed (g\<lparr>outs := os\<rparr>) = routed g"
  by (simp_all add: wrap_def routed_def fun_eq_iff)

lemma forward_spec:
  assumes "i < length (conn g)" and "conn g ! i = c" and "routed g c"
    and "holds (mp g) (c_buffer c) A bs" and "0 < n" "n \<le> length bs"
  shows "\<exists>db P A'. forward g i (int n) =
      Some (g\<lparr>conn := (conn g)[i := c\<lparr>c_buffer := db\<rparr>], mp := P, outs := outs g @ [wrap g c (take n bs)]\<rparr>) \<and>
    holds P db A' (drop n bs) \<and> moves (mp g) A P A' \<and> db_header db = db_header (c_buffer c)"
proof -
  obtain db P A' where r: "databuffer_read (c_buffer c) (mp g) (int n) = Some (take n bs, db, P)"
    "holds P db A' (drop n bs)" "moves (mp g) A P A'" "db_header db = db_header (c_buffer c)"
    using holds_read [OF assms(4-6)] by blast
  then have "take_bytes g i (int n) = Some (take n bs, g\<lparr>conn := (conn g)[i := c\<lparr>c_buffer := db\<rparr>], mp := P\<rparr>)"
    using assms(1,2) by (simp add: take_bytes_def)
  then have "forward g i (int n) =
      Some (g\<lparr>conn := (conn g)[i := c\<lparr>c_buffer := db\<rparr>], mp := P, outs := outs g @ [wrap g c (take n bs)]\<rparr>)"
    using assms(1-3) by (auto simp: forward_def routed_def wrap_def out_def Let_def)
  then show ?thesis using r by blast
qed

text \<open>What the gate does for a piece of the stream of connection \<open>fd\<close>.\<close>

definition cut_outs :: "gate \<Rightarrow> connection \<Rightarrow> int \<Rightarrow> cut \<Rightarrow> gate_out list" where
  "cut_outs g c fd e =
     (case e of Frame d \<Rightarrow> [wrap g c d] | Too_long \<Rightarrow> [Sock_close fd, Log ''Recv socket message > 16M''])"

lemma cut_outs_buffer [simp]:
  "cut_outs g (c\<lparr>c_buffer := db\<rparr>) = cut_outs g c"
  "cut_outs (g\<lparr>conn := cs\<rparr>) = cut_outs g" "cut_outs (g\<lparr>mp := P\<rparr>) = cut_outs g" "cut_outs (g\<lparr>outs := os\<rparr>) = cut_outs g"
  by (auto simp: cut_outs_def fun_eq_iff split: cut.splits)

lemma spec_readheader_pending:
  assumes "size_ok k" and "header_ok k h" and "spec_readheader k h bs = (n, h1, bs1)"
  shows "(length (pending k h bs) < k \<and> n < 0 \<and> h1 = h \<and> bs1 = bs) \<or>
    (k \<le> length (pending k h bs) \<and> h1 = header_value (take k (pending k h bs)) \<and> bs1 = drop k (pending k h bs) \<and>
     n = (if int (length bs1) < h1 then - 1 else h1) \<and> header_ok k h1 \<and> pending k h1 bs1 = (if h1 = 0 then bs1 else pending k h bs))"
proof (cases "h = 0")
  case True
  show ?thesis
  proof (cases "length bs < k")
    case True
    then show ?thesis using \<open>h = 0\<close> assms(3) by (simp add: spec_readheader_def pending_def)
  next
    case False
    let ?v = "header_value (take k bs)"
    have "length (take k bs) = k" using False by simp
    then have v: "header_ok k ?v" "header_field k ?v @ drop k bs = bs"
      using header_ok_value [OF assms(1)] header_field_value [OF assms(1)] by simp_all
    have "h1 = ?v" "bs1 = drop k bs" "n = (if int (length (drop k bs)) < ?v then - 1 else ?v)"
      using False True assms(3) by (auto simp: spec_readheader_def Let_def)
    then show ?thesis using False True v by (simp add: pending_def)
  qed
next
  case False
  then show ?thesis using assms header_value_field [OF assms(1,2)] header_field_length [OF assms(1), of h]
    by (auto simp: spec_readheader_def pending_def split: if_splits)
qed

text \<open>One round of the loop: wait for more bytes, skip an empty frame, give up, or take a frame.\<close>

lemma round_cases:
  assumes "size_ok k" and "header_ok k h" and "spec_readheader k h bs = (n, h1, bs1)"
  obtains (wait) "n < 0" "header_ok k h1" "pending k h1 bs1 = pending k h bs" "cut_frames k q (pending k h bs) = ([], pending k h bs)"
  | (empty) "n = 0" "h1 = 0" "cut_frames k q (pending k h bs) = cut_frames k q bs1" "length bs1 < length (pending k h bs)"
  | (long) "n \<ge> 0x1000000" "cut_frames k q (pending k h bs) = ([Too_long], [])"
  | (frame) m where "n = int m" "0 < m" "m < 0x1000000" "m \<le> length bs1"
      "cut_frames k q (pending k h bs) = (let (es, r) = cut_frames k q (if q then drop m bs1 else bs1)
         in (if q then Frame (take m bs1) # es else es, r))"
      "length bs1 < length (pending k h bs)"
proof -
  let ?s = "pending k h bs"
  have k: "0 < k" using assms(1) by auto
  note r = spec_readheader_pending [OF assms]
  show ?thesis
  proof (cases "length ?s < k")
    case True
    then have "unfinished k ?s" by (simp add: unfinished_def)
    then show ?thesis using r True assms(2) cut_unfinished by (intro wait) auto
  next
    case False
    then have r: "h1 = header_value (take k ?s)" "bs1 = drop k ?s" "n = (if int (length bs1) < h1 then - 1 else h1)"
      "header_ok k h1" "pending k h1 bs1 = (if h1 = 0 then bs1 else ?s)" using r by auto
    have less: "length bs1 < length ?s" using False k r(2) by auto
    show ?thesis
    proof (cases "unfinished k ?s")
      case True
      then have "h1 < 0 \<or> int (length bs1) < h1" using False r(1,2) by (auto simp: unfinished_def)
      then show ?thesis using r True cut_unfinished by (intro wait) auto
    next
      case f: False
      then have n: "n = h1" "0 \<le> h1" "h1 \<le> int (length bs1)" using r(1-3) by (auto simp: unfinished_def)
      consider "h1 = 0" | "h1 \<ge> 0x1000000" | "0 < h1" "h1 < 0x1000000" using n(2) by linarith
      then show ?thesis
      proof cases
        case 1
        then show ?thesis using cut_frame [OF f k, of 0 q] r(1,2) n less by (intro empty) simp_all
      next
        case 2
        then show ?thesis using cut_long [OF f k, of q] r(1) n by (intro long) simp_all
      next
        case 3
        then show ?thesis using cut_frame [OF f k, of h1 q] r(1,2) n less by (intro frame [of "nat h1"]) auto
      qed
    qed
  qed
qed

lemma forward_unrouted:
  assumes "i < length (conn g)" and "\<not> routed g (conn g ! i)"
  shows "forward g i n = Some g"
  using assms by (auto simp: forward_def routed_def Let_def)

text \<open>A frame is taken from the buffer when somebody gets it, and stays there otherwise.\<close>

lemma forward_either:
  assumes "i < length (conn g)" and "conn g ! i = c"
    and "holds (mp g) (c_buffer c) A bs" and "0 < n" "n \<le> length bs"
  shows "\<exists>db P A'. forward g i (int n) =
      Some (g\<lparr>conn := (conn g)[i := c\<lparr>c_buffer := db\<rparr>], mp := P,
              outs := outs g @ (if routed g c then [wrap g c (take n bs)] else [])\<rparr>) \<and>
    holds P db A' (if routed g c then drop n bs else bs) \<and> moves (mp g) A P A'"
proof (cases "routed g c")
  case True
  then show ?thesis using forward_spec [OF assms(1,2) True assms(3-5)] by auto
next
  case False
  have "g = g\<lparr>conn := (conn g)[i := c\<lparr>c_buffer := c_buffer c\<rparr>], mp := mp g, outs := outs g @ []\<rparr>"
    unfolding assms(2) [symmetric] by simp
  then show ?thesis using False forward_unrouted [of i g] assms(1-3) moves_refl
    by (intro exI [of _ "c_buffer c"] exI [of _ "mp g"] exI [of _ A]) auto
qed

lemma frame_loop_round:
  assumes "i < length (conn g)" and "conn g ! i = c" and "header_size g = k"
    and "databuffer_readheader (c_buffer c) (mp g) k = Some (n, db, P)"
  defines "g1 \<equiv> g\<lparr>conn := (conn g)[i := c\<lparr>c_buffer := db\<rparr>], mp := P\<rparr>"
  shows "frame_loop g i fd =
     (if n < 0 then Some g1
      else if n > 0 then
        if n \<ge> 0x1000000 then do {
          g2 \<leftarrow> on_buffer g1 i databuffer_clear;
          Some (out (Log ''Recv socket message > 16M'') (out (Sock_close fd) g2)) }
        else do {
          g2 \<leftarrow> forward g1 i n;
          g3 \<leftarrow> on_buffer g2 i (\<lambda>db m. Some (databuffer_reset db, m));
          frame_loop g3 i fd }
      else frame_loop g1 i fd)"
  using assms(1-4) unfolding g1_def by (subst frame_loop.simps) (simp add: Let_def)

lemma frame_loop_spec:
  assumes "i < length (conn g)" and "conn g ! i = c" and "header_size g = k" and "size_ok k"
    and "holds (mp g) (c_buffer c) A bs" and "header_ok k (db_header (c_buffer c))"
    and "cut_frames k (routed g c) (pending k (db_header (c_buffer c)) bs) = (es, r)"
  shows "\<exists>db P A' bs'. frame_loop g i fd =
      Some (g\<lparr>conn := (conn g)[i := c\<lparr>c_buffer := db\<rparr>], mp := P, outs := outs g @ concat (map (cut_outs g c fd) es)\<rparr>) \<and>
    holds P db A' bs' \<and> moves (mp g) A P A' \<and> header_ok k (db_header db) \<and> pending k (db_header db) bs' = r"
  using assms
proof (induction "length (pending k (db_header (c_buffer c)) bs)" arbitrary: g c A bs es rule: less_induct)
  case less
  note i = less.prems(1,2) and hs = less.prems(3) and k = less.prems(4) and hold = less.prems(5)
    and hok = less.prems(6) and sp = less.prems(7)
  let ?h = "db_header (c_buffer c)" and ?q = "routed g c"
  obtain db1 P1 A1 n h1 bs1 where rh: "databuffer_readheader (c_buffer c) (mp g) k = Some (n, db1, P1)"
    "spec_readheader k ?h bs = (n, h1, bs1)" "db_header db1 = h1" "holds P1 db1 A1 bs1" "moves (mp g) A P1 A1"
    using holds_readheader [OF hold, of k] k by auto
  let ?c1 = "c\<lparr>c_buffer := db1\<rparr>"
  let ?g1 = "g\<lparr>conn := (conn g)[i := ?c1], mp := P1\<rparr>"
  note step = frame_loop_round [OF i hs rh(1)]
  from k hok rh(2) show ?case
  proof (cases rule: round_cases [where q = ?q])
    case wait
    then show ?thesis using step rh sp
      by (intro exI [of _ db1] exI [of _ P1] exI [of _ A1] exI [of _ bs1]) auto
  next
    case long
    obtain P A' where c: "databuffer_clear db1 P1 = Some (databuffer_zero, P)" "holds P databuffer_zero A' []" "moves P1 A1 P A'"
      using holds_clear [OF rh(4)] by blast
    have "frame_loop g i fd = Some (g\<lparr>conn := (conn g)[i := c\<lparr>c_buffer := databuffer_zero\<rparr>], mp := P,
        outs := outs g @ concat (map (cut_outs g c fd) es)\<rparr>)"
      using step long i c(1) sp by (simp add: on_buffer_def out_def cut_outs_def)
    moreover have "pending k (db_header databuffer_zero) [] = r" "header_ok k (db_header databuffer_zero)"
      using long(2) sp by (simp_all add: pending_def databuffer_zero_def)
    ultimately show ?thesis using c(2) moves_trans [OF rh(5) c(3)] by blast
  next
    case empty
    have "length (pending k (db_header (c_buffer ?c1)) bs1) < length (pending k ?h bs)"
      using empty rh(3) by (simp add: pending_def)
    then obtain db P A' bs' where IH: "frame_loop ?g1 i fd = Some (?g1\<lparr>conn := (conn ?g1)[i := ?c1\<lparr>c_buffer := db\<rparr>], mp := P,
        outs := outs ?g1 @ concat (map (cut_outs ?g1 ?c1 fd) es)\<rparr>)"
      "holds P db A' bs'" "moves (mp ?g1) A1 P A'" "header_ok k (db_header db)" "pending k (db_header db) bs' = r"
      using less.hyps [of ?c1 bs1 ?g1 A1 es] i k hs rh(3,4) sp empty by (auto simp: pending_def)
    have "moves (mp g) A P A'" using moves_trans [OF rh(5)] IH(3) by simp
    then show ?thesis using IH step empty
      by (intro exI [of _ db] exI [of _ P] exI [of _ A'] exI [of _ bs']) (simp add: i(1))
  next
    case (frame m)
    let ?bs2 = "if ?q then drop m bs1 else bs1" and ?new = "if ?q then [wrap g c (take m bs1)] else []"
    have w: "wrap ?g1 ?c1 = wrap g c" "routed ?g1 ?c1 = ?q" by simp_all
    obtain db2 P2 A2 where f: "forward ?g1 i (int m) = Some (?g1\<lparr>conn := (conn ?g1)[i := ?c1\<lparr>c_buffer := db2\<rparr>], mp := P2,
        outs := outs ?g1 @ ?new\<rparr>)"
      "holds P2 db2 A2 ?bs2" "moves P1 A1 P2 A2"
      using forward_either [of i ?g1 ?c1 A1 bs1 m] i rh(4) frame(2,4) unfolding w by auto
    let ?c3 = "c\<lparr>c_buffer := db2\<lparr>db_header := 0\<rparr>\<rparr>"
    let ?g3 = "g\<lparr>conn := (conn g)[i := ?c3], mp := P2, outs := outs g @ ?new\<rparr>"
    have s3: "frame_loop g i fd = frame_loop ?g3 i fd"
    proof -
      have "frame_loop g i fd = frame_loop (g\<lparr>mp := P2, outs := outs g @ ?new, conn := (conn g)[i := ?c3]\<rparr>) i fd"
        using step frame(1-3) f(1) i by (simp add: on_buffer_def databuffer_reset_def)
      moreover have "g\<lparr>mp := P2, outs := outs g @ ?new, conn := (conn g)[i := ?c3]\<rparr> = ?g3" by simp
      ultimately show ?thesis by (simp only:)
    qed
    obtain gs where gs: "cut_frames k ?q ?bs2 = (gs, r)" "es = (if ?q then Frame (take m bs1) # gs else gs)"
      using frame(5) sp by (auto simp: Let_def split: prod.splits)
    have "length (pending k (db_header (c_buffer ?c3)) ?bs2) < length (pending k ?h bs)"
    proof -
      have p: "pending k (db_header (c_buffer ?c3)) ?bs2 = ?bs2" by (simp add: pending_def)
      have "length ?bs2 \<le> length bs1" by auto
      then show ?thesis using frame(6) unfolding p by linarith
    qed
    then obtain db P A' bs' where IH: "frame_loop ?g3 i fd = Some (?g3\<lparr>conn := (conn ?g3)[i := ?c3\<lparr>c_buffer := db\<rparr>], mp := P,
        outs := outs ?g3 @ concat (map (cut_outs ?g3 ?c3 fd) gs)\<rparr>)"
      "holds P db A' bs'" "moves (mp ?g3) A2 P A'" "header_ok k (db_header db)" "pending k (db_header db) bs' = r"
      using less.hyps [of ?c3 ?bs2 ?g3 A2 gs] i hs k f(2) gs(1) by (auto simp: pending_def)
    have "moves (mp g) A P A'"
      using moves_trans [OF moves_trans [OF rh(5) f(3)]] IH(3) by simp
    moreover have "concat (map (cut_outs g c fd) es) = ?new @ concat (map (cut_outs g c fd) gs)"
      using gs(2) by (simp add: cut_outs_def)
    ultimately show ?thesis using IH s3
      by (intro exI [of _ db] exI [of _ P] exI [of _ A'] exI [of _ bs']) (simp add: i(1))
  qed
qed
section \<open>All connections\<close>

text \<open>Slot \<open>j\<close> of a sound gate still has to deliver the bytes \<open>B j\<close>; the nodes of all buffers
  and the free nodes are disjoint.\<close>

definition buffers_hold :: "nat \<Rightarrow> messagepool \<Rightarrow> connection list \<Rightarrow> (nat \<Rightarrow> u8 list) \<Rightarrow> bool" where
  "buffers_hold k P cs B \<longleftrightarrow> (\<exists>xs ys. pool_ok P ys \<and>
     (\<forall>j < length cs. db_rep P (c_buffer (cs ! j)) (xs j) \<and> header_ok k (db_header (c_buffer (cs ! j))) \<and>
        pending k (db_header (c_buffer (cs ! j))) (stream P (c_buffer (cs ! j)) (xs j)) = B j \<and> set (xs j) \<inter> set ys = {}) \<and>
     (\<forall>i < length cs. \<forall>j < length cs. i \<noteq> j \<longrightarrow> set (xs i) \<inter> set (xs j) = {}))"

lemma buffers_hold_cong:
  assumes "length cs' = length cs" and "\<And>j. c_buffer (cs' ! j) = c_buffer (cs ! j)"
  shows "buffers_hold k P cs' B = buffers_hold k P cs B"
  using assms by (simp add: buffers_hold_def)

lemma buffers_hold_one:
  assumes "buffers_hold k P cs B" and "i < length cs"
  obtains A bs where "holds P (c_buffer (cs ! i)) A bs" "header_ok k (db_header (c_buffer (cs ! i)))"
    "pending k (db_header (c_buffer (cs ! i))) bs = B i"
    "\<forall>P' A' db bs'. moves P A P' A' \<longrightarrow> holds P' db A' bs' \<longrightarrow> header_ok k (db_header db) \<longrightarrow>
       buffers_hold k P' (cs[i := c\<lparr>c_buffer := db\<rparr>]) (B(i := pending k (db_header db) bs'))"
proof -
  obtain xs ys where r: "pool_ok P ys"
     "\<And>j. j < length cs \<Longrightarrow> db_rep P (c_buffer (cs ! j)) (xs j)"
     "\<And>j. j < length cs \<Longrightarrow> header_ok k (db_header (c_buffer (cs ! j)))"
     "\<And>j. j < length cs \<Longrightarrow> pending k (db_header (c_buffer (cs ! j))) (stream P (c_buffer (cs ! j)) (xs j)) = B j"
     "\<And>j. j < length cs \<Longrightarrow> set (xs j) \<inter> set ys = {}"
     "\<And>i j. i < length cs \<Longrightarrow> j < length cs \<Longrightarrow> i \<noteq> j \<Longrightarrow> set (xs i) \<inter> set (xs j) = {}"
    using assms(1) unfolding buffers_hold_def by blast
  let ?A = "set (xs i) \<union> set ys"
  have "buffers_hold k P' (cs[i := c\<lparr>c_buffer := db\<rparr>]) (B(i := pending k (db_header db) bs'))"
    if mv: "moves P ?A P' A'" and h: "holds P' db A' bs'" and hok: "header_ok k (db_header db)" for P' A' db bs'
  proof -
    obtain us vs where u: "db_rep P' db us" "pool_ok P' vs" "set us \<inter> set vs = {}" "A' = set us \<union> set vs"
      "stream P' db us = bs'" using h unfolding holds_def by blast
    have below: "j < length cs \<Longrightarrow> x \<in> set (xs j) \<Longrightarrow> x < pool_next P" for j x
      using rep_below [OF _ r(1)] r(2) by (auto simp: db_rep_def)
    have same: "cells P' x = cells P x" if "j < length cs" "j \<noteq> i" "x \<in> set (xs j)" for j x
    proof -
      have "x \<notin> ?A" using r(5,6) that assms(2) by (metis Un_iff disjoint_iff)
      then show ?thesis using mv below that(1,3) by (auto simp: moves_def)
    qed
    have other: "db_rep P' (c_buffer (cs ! j)) (xs j)"
      "stream P' (c_buffer (cs ! j)) (xs j) = stream P (c_buffer (cs ! j)) (xs j)" if "j < length cs" "j \<noteq> i" for j
      using r(2) [OF that(1)] queue_rep_cong [of "xs j" P' P, OF same [OF that]] by (simp_all add: db_rep_def)
    have apart: "set (xs j) \<inter> A' = {}" if "j < length cs" "j \<noteq> i" for j
    proof (rule ccontr)
      assume "set (xs j) \<inter> A' \<noteq> {}"
      then obtain x where x: "x \<in> set (xs j)" "x \<in> A'" by blast
      have "x < pool_next P" using below that(1) x(1) by blast
      then have "x \<in> ?A" using mv x(2) unfolding moves_def by auto
      then show False using r(5,6) that assms(2) x(1) by (metis Un_iff disjoint_iff)
    qed
    let ?xs = "xs(i := us)"
    let ?cs = "cs[i := c\<lparr>c_buffer := db\<rparr>]" and ?B = "B(i := pending k (db_header db) bs')"
    have "db_rep P' (c_buffer (?cs ! j)) (?xs j) \<and> header_ok k (db_header (c_buffer (?cs ! j))) \<and>
        pending k (db_header (c_buffer (?cs ! j))) (stream P' (c_buffer (?cs ! j)) (?xs j)) = ?B j \<and> set (?xs j) \<inter> set vs = {}"
      if "j < length cs" for j
      using that u hok other r(3,4) apart [of j] by (cases "j = i") auto
    moreover have "set (?xs a) \<inter> set (?xs b) = {}" if "a < length cs" "b < length cs" "a \<noteq> b" for a b
      using that u(4) apart [of a] apart [of b] r(6) by (cases "a = i"; cases "b = i") auto
    ultimately show ?thesis unfolding buffers_hold_def using u(2) by (intro exI [of _ ?xs] exI [of _ vs]) simp
  qed
  moreover have "holds P (c_buffer (cs ! i)) ?A (stream P (c_buffer (cs ! i)) (xs i))"
    using r assms(2) by (intro holdsI) auto
  ultimately show ?thesis using r(3,4) assms(2) by (intro that [of ?A]) blast+
qed


text \<open>With two bytes of length an unfinished stream is short.\<close>

lemma unfinished_short: "unfinished 2 s \<Longrightarrow> length s < 2 ^ 17"
  using header_value_two [of "take 2 s"] by (cases "length s < 2") (auto simp: unfinished_def)

definition gate_ready :: "gate \<Rightarrow> (nat \<Rightarrow> u8 list) \<Rightarrow> bool" where
  "gate_ready g B \<longleftrightarrow> hashid_ok (ghash g) \<and> length (conn g) = length (ids (ghash g)) \<and> size_ok (header_size g) \<and>
     buffers_hold (header_size g) (mp g) (conn g) B \<and> (\<forall>j < length (conn g). unfinished (header_size g) (B j)) \<and>
     (\<forall>j < length (conn g). j \<notin> ran (slots (ghash g)) \<longrightarrow> B j = []) \<and>
     (\<forall>fd j. slots (ghash g) fd = Some j \<longrightarrow> c_id (conn g ! j) = fd)"

lemma gate_readyD:
  assumes "gate_ready g B"
  shows "hashid_ok (ghash g)" "length (conn g) = length (ids (ghash g))" "size_ok (header_size g)"
    "buffers_hold (header_size g) (mp g) (conn g) B" "j < length (conn g) \<Longrightarrow> unfinished (header_size g) (B j)"
    "j < length (conn g) \<Longrightarrow> j \<notin> ran (slots (ghash g)) \<Longrightarrow> B j = []"
    "slots (ghash g) fd = Some j \<Longrightarrow> c_id (conn g ! j) = fd"
  using assms by (auto simp: gate_ready_def)

text \<open>How the stream of slot \<open>j\<close> is cut: the frames of a connection without a receiver are lost.\<close>

abbreviation cut_slot :: "gate \<Rightarrow> nat \<Rightarrow> u8 list \<Rightarrow> cut list \<times> u8 list" where
  "cut_slot g j \<equiv> cut_frames (header_size g) (routed g (conn g ! j))"

text \<open>Everything but the buffers and the messages sent.\<close>

definition same_routes :: "gate \<Rightarrow> gate \<Rightarrow> bool" where
  "same_routes g g' \<longleftrightarrow> ghash g' = ghash g \<and> header_size g' = header_size g \<and>
     (\<forall>j. wrap g' (conn g' ! j) = wrap g (conn g ! j) \<and> routed g' (conn g' ! j) = routed g (conn g ! j))"

lemma slot_less: "hashid_ok hi \<Longrightarrow> slots hi fd = Some j \<Longrightarrow> j < length (ids hi)"
  by (simp add: slots_iff)

lemma data_step:
  assumes ready: "gate_ready g B" and j: "slots (ghash g) fd = Some j" and len: "length (B j) + length d < 2 ^ 31"
  shows "\<exists>g'. dispatch_socket_message g \<lparr>sm_type = S_DATA, sm_id = fd, sm_ud = int (length d), sm_buffer = d\<rparr> ex n = Some g' \<and>
    gate_ready g' (B(j := snd (cut_slot g j (B j @ d)))) \<and> same_routes g g' \<and> watchdog g' = watchdog g \<and>
    outs g' = outs g @ concat (map (cut_outs g (conn g ! j) fd) (fst (cut_slot g j (B j @ d))))"
proof -
  let ?c = "conn g ! j" and ?k = "header_size g"
  note ok = gate_readyD [OF ready]
  have jl: "j < length (conn g)" using slot_less [OF ok(1) j] ok(2) by simp
  obtain A bs where h: "holds (mp g) (c_buffer ?c) A bs" "header_ok ?k (db_header (c_buffer ?c))"
    "pending ?k (db_header (c_buffer ?c)) bs = B j"
    "\<forall>P' A' db bs'. moves (mp g) A P' A' \<longrightarrow> holds P' db A' bs' \<longrightarrow> header_ok ?k (db_header db) \<longrightarrow>
       buffers_hold ?k P' ((conn g)[j := ?c\<lparr>c_buffer := db\<rparr>]) (B(j := pending ?k (db_header db) bs'))"
    using buffers_hold_one [OF ok(4) jl, of ?c] by blast
  have "length bs \<le> length (B j)" unfolding h(3) [symmetric] by (simp add: pending_def)
  then have "length bs + length d < 2 ^ 31" using len by simp
  then obtain db1 P1 A1 where p: "databuffer_push (c_buffer ?c) (mp g) d (int (length d)) = Some (db1, P1)"
    "holds P1 db1 A1 (bs @ d)" "moves (mp g) A P1 A1" "db_header db1 = db_header (c_buffer ?c)"
    using holds_push [OF h(1)] by blast
  let ?c1 = "?c\<lparr>c_buffer := db1\<rparr>"
  let ?g1 = "g\<lparr>conn := (conn g)[j := ?c1], mp := P1\<rparr>"
  obtain es r where sp: "cut_slot g j (B j @ d) = (es, r)" by fastforce
  have "pending ?k (db_header (c_buffer ?c1)) (bs @ d) = B j @ d"
    unfolding h(3) [symmetric] using p(4) by (simp add: pending_def)
  then obtain db P A' bs' where l: "frame_loop ?g1 j fd = Some (?g1\<lparr>conn := (conn ?g1)[j := ?c1\<lparr>c_buffer := db\<rparr>], mp := P,
        outs := outs ?g1 @ concat (map (cut_outs ?g1 ?c1 fd) es)\<rparr>)"
      "holds P db A' bs'" "moves (mp ?g1) A1 P A'" "header_ok ?k (db_header db)" "pending ?k (db_header db) bs' = r"
    using frame_loop_spec [of j ?g1 ?c1 ?k A1 "bs @ d" es r fd] jl ok(3) p h(2) sp by auto
  let ?g' = "g\<lparr>conn := (conn g)[j := ?c\<lparr>c_buffer := db\<rparr>], mp := P, outs := outs g @ concat (map (cut_outs g ?c fd) es)\<rparr>"
  have "dispatch_socket_message g \<lparr>sm_type = S_DATA, sm_id = fd, sm_ud = int (length d), sm_buffer = d\<rparr> ex n
      = frame_loop ?g1 j fd"
    using lookup_spec [OF ok(1), of fd] j jl p(1)
    by (simp add: dispatch_socket_message_def dispatch_data_def on_buffer_def)
  also have "\<dots> = Some ?g'" using l(1) by simp
  finally have d: "dispatch_socket_message g \<lparr>sm_type = S_DATA, sm_id = fd, sm_ud = int (length d), sm_buffer = d\<rparr> ex n = Some ?g'" .
  have "buffers_hold ?k P ((conn g)[j := ?c\<lparr>c_buffer := db\<rparr>]) (B(j := r))"
    using h(4) moves_trans [OF p(3)] l(2-5) by auto
  moreover have "unfinished ?k r" using cut_rest [of ?k "routed g ?c" "B j @ d"] sp ok(3) by auto
  moreover have w: "wrap ?g' (conn ?g' ! i) = wrap g (conn g ! i)" "c_id (conn ?g' ! i) = c_id (conn g ! i)"
    "routed ?g' (conn ?g' ! i) = routed g (conn g ! i)" for i
    using jl by (cases "i = j"; simp)+
  ultimately have "gate_ready ?g' (B(j := r))"
    using ready ranI [of "slots (ghash g)" fd j] j unfolding gate_ready_def by simp
  then show ?thesis using d w(1,3) sp by (intro exI [of _ ?g']) (simp add: same_routes_def)
qed

text \<open>Blocks read from the sockets, in any interleaving of the connections, known or not.\<close>

fun feed :: "gate \<Rightarrow> (int \<times> u8 list) list \<Rightarrow> gate option" where
  "feed g [] = Some g"
| "feed g ((fd, d) # ds) = do {
     g1 \<leftarrow> dispatch_socket_message g \<lparr>sm_type = S_DATA, sm_id = fd, sm_ud = int (length d), sm_buffer = d\<rparr> [] 0;
     feed g1 ds }"

definition sent_for :: "int \<Rightarrow> gate_out \<Rightarrow> bool" where
  "sent_for fd e = (case e of Send _ _ _ s _ \<Rightarrow> s = fd | _ \<Rightarrow> False)"

definition stream_of :: "int \<Rightarrow> (int \<times> u8 list) list \<Rightarrow> u8 list" where
  "stream_of fd ds = concat (map snd (filter (\<lambda>(f, _). f = fd) ds))"

definition frames :: "cut list \<Rightarrow> u8 list list" where
  "frames es = concat (map (\<lambda>e. case e of Frame d \<Rightarrow> [d] | Too_long \<Rightarrow> []) es)"

lemma frames_append: "frames (es @ fs) = frames es @ frames fs"
  by (simp add: frames_def)

lemma stream_of_Cons: "stream_of f ((fd, d) # ds) = (if f = fd then d @ stream_of f ds else stream_of f ds)"
  by (auto simp: stream_of_def)

lemma sent_for_cuts:
  "filter (sent_for fd) (concat (map (cut_outs g c f) es)) = (if c_id c = fd then map (wrap g c) (frames es) else [])"
  by (induction es) (auto simp: wrap_def sent_for_def cut_outs_def frames_def split: cut.splits)

text \<open>A frame of two bytes of length is never too long.\<close>

lemma two_never_long: "Too_long \<notin> set (fst (cut_frames 2 q s))"
proof (induction s rule: cut_induct [where k = 2 and q = q, case_names pos wait long frame])
  case (long s)
  then have "length (take 2 s) = 2" by (auto simp: unfinished_def)
  then show ?case using header_value_two [of "take 2 s"] long(2) by simp
next
  case (frame s v)
  then show ?case by (cases q) (auto simp: cut_frame Let_def split: prod.splits if_splits)
qed (simp_all add: cut_unfinished)

lemma cut_rest_length:
  assumes "0 < k"
  shows "length (snd (cut_frames k q s)) \<le> length s"
proof (induction s rule: cut_induct [where q = q, OF assms, case_names wait long frame])
  case (long s)
  then show ?case using cut_long [OF long(1) assms long(2), of q] by simp
next
  case (frame s v)
  then show ?case using assms by (cases q) (auto simp: cut_frame Let_def split: prod.splits)
qed (simp add: cut_unfinished)

lemma unknown_step:
  assumes "gate_ready g B" and "slots (ghash g) fd = None"
  shows "\<exists>g'. dispatch_socket_message g \<lparr>sm_type = S_DATA, sm_id = fd, sm_ud = int (length d), sm_buffer = d\<rparr> ex n = Some g' \<and>
    gate_ready g' B \<and> same_routes g g' \<and>
    outs g' = outs g @ [Log (''Drop unknown connection '' @ int_str fd @ '' message''), Sock_close fd, Free d]"
proof -
  let ?g' = "g\<lparr>outs := outs g @ [Log (''Drop unknown connection '' @ int_str fd @ '' message''), Sock_close fd, Free d]\<rparr>"
  have "hashid_lookup (ghash g) fd = Some (- 1)"
    using lookup_spec [of "ghash g" fd] gate_readyD(1) [OF assms(1)] assms(2) by simp
  then have "dispatch_socket_message g \<lparr>sm_type = S_DATA, sm_id = fd, sm_ud = int (length d), sm_buffer = d\<rparr> ex n = Some ?g'"
    by (simp add: dispatch_socket_message_def out_def)
  moreover have "gate_ready ?g' B" using assms(1) by (simp add: gate_ready_def)
  moreover have "same_routes g ?g'" by (simp add: same_routes_def)
  ultimately show ?thesis by (intro exI [of _ ?g']) simp
qed

text \<open>The stream of slot \<open>j\<close> has no frame of 16M or more, and with four bytes of length what may
  have to be buffered fits into an \<open>int\<close>.\<close>

definition stream_fits :: "gate \<Rightarrow> nat \<Rightarrow> u8 list \<Rightarrow> bool" where
  "stream_fits g j s \<longleftrightarrow> header_size g = 4 \<longrightarrow> length s < 2 ^ 31 \<and> Too_long \<notin> set (fst (cut_slot g j s))"

lemma stream_fits_cut:
  assumes "size_ok (header_size g)" and "stream_fits g j (s @ t)"
  shows "stream_fits g j (snd (cut_slot g j s) @ t)"
    "fst (cut_slot g j (s @ t)) = fst (cut_slot g j s) @ fst (cut_slot g j (snd (cut_slot g j s) @ t))"
proof -
  have "Too_long \<notin> set (fst (cut_slot g j (s @ t)))"
    using assms two_never_long by (auto simp: stream_fits_def)
  then have c: "cut_slot g j (s @ t) = (let (es, r) = cut_slot g j s; (fs, r') = cut_slot g j (r @ t) in (es @ fs, r'))"
    using cut_frames_append [of "header_size g"] assms(1) by auto
  then show a: "fst (cut_slot g j (s @ t)) = fst (cut_slot g j s) @ fst (cut_slot g j (snd (cut_slot g j s) @ t))"
    by (simp split: prod.splits)
  have "length (snd (cut_slot g j s)) \<le> length s" using cut_rest_length assms(1) by auto
  then show "stream_fits g j (snd (cut_slot g j s) @ t)" using assms(2) unfolding stream_fits_def a by auto
qed

lemma room_step:
  assumes "gate_ready g B" and "j < length (conn g)" and "stream_fits g j (B j @ d @ t)" and "length d < 2 ^ 30"
  shows "length (B j) + length d < 2 ^ 31"
proof (cases "header_size g = 4")
  case True
  then show ?thesis using assms(3) by (simp add: stream_fits_def)
next
  case False
  then have "header_size g = 2" using gate_readyD(3) [OF assms(1)] by simp
  then have "length (B j) < 2 ^ 17" using unfinished_short gate_readyD(5) [OF assms(1,2)] by simp
  then show ?thesis using assms(4) by simp
qed

lemma stream_fits_same: "same_routes g g' \<Longrightarrow> stream_fits g' = stream_fits g"
  by (simp add: same_routes_def stream_fits_def fun_eq_iff)

lemma block_step:
  assumes ready: "gate_ready g B" and d: "length d < 2 ^ 30"
    and fit: "\<forall>f j. slots (ghash g) f = Some j \<longrightarrow> stream_fits g j (B j @ stream_of f ((fd, d) # ds))"
  shows "\<exists>g1 B1 new. dispatch_socket_message g \<lparr>sm_type = S_DATA, sm_id = fd, sm_ud = int (length d), sm_buffer = d\<rparr> ex n = Some g1 \<and>
    gate_ready g1 B1 \<and> same_routes g g1 \<and> outs g1 = outs g @ new \<and>
    (\<forall>f j. slots (ghash g) f = Some j \<longrightarrow> stream_fits g j (B1 j @ stream_of f ds) \<and>
      map (wrap g (conn g ! j)) (frames (fst (cut_slot g j (B j @ stream_of f ((fd, d) # ds))))) =
      filter (sent_for f) new @ map (wrap g (conn g ! j)) (frames (fst (cut_slot g j (B1 j @ stream_of f ds)))))"
proof (cases "slots (ghash g) fd")
  case None
  then have "f \<noteq> fd" if "slots (ghash g) f = Some j" for f j using that by auto
  then have "stream_fits g j (B j @ stream_of f ds) \<and> stream_of f ((fd, d) # ds) = stream_of f ds"
    if "slots (ghash g) f = Some j" for f j using that fit by (metis stream_of_Cons)
  then show ?thesis using unknown_step [OF ready None, of d ex n]
    by (fastforce simp: sent_for_def)
next
  case (Some i)
  let ?new = "concat (map (cut_outs g (conn g ! i) fd) (fst (cut_slot g i (B i @ d))))"
  let ?B = "B(i := snd (cut_slot g i (B i @ d)))"
  note r = gate_readyD [OF ready]
  have il: "i < length (conn g)" using slot_less [OF r(1) Some] r(2) by simp
  have fi: "stream_fits g i ((B i @ d) @ stream_of fd ds)" using fit [rule_format, OF Some] by (simp add: stream_of_Cons)
  have "length (B i) + length d < 2 ^ 31" using room_step [OF ready il _ d] fi by simp
  then obtain g1 where g1: "dispatch_socket_message g \<lparr>sm_type = S_DATA, sm_id = fd, sm_ud = int (length d), sm_buffer = d\<rparr> ex n = Some g1"
    "gate_ready g1 ?B" "same_routes g g1" "outs g1 = outs g @ ?new"
    using data_step [OF ready Some] by blast
  have "stream_fits g j (?B j @ stream_of f ds) \<and>
      map (wrap g (conn g ! j)) (frames (fst (cut_slot g j (B j @ stream_of f ((fd, d) # ds))))) =
      filter (sent_for f) ?new @ map (wrap g (conn g ! j)) (frames (fst (cut_slot g j (?B j @ stream_of f ds))))"
    if j: "slots (ghash g) f = Some j" for f j
  proof (cases "f = fd")
    case True
    then have "j = i" using j Some by simp
    then show ?thesis using True r(7) [OF Some] stream_fits_cut [OF r(3) fi]
      by (simp add: stream_of_Cons sent_for_cuts frames_append)
  next
    case False
    then have "j \<noteq> i" using r(7) j Some by metis
    then show ?thesis using False fit [rule_format, OF j] r(7) [OF Some] by (auto simp: stream_of_Cons sent_for_cuts)
  qed
  then show ?thesis using g1 by blast
qed

text \<open>
  C15. The gate reassembles streams: however the socket layer cuts the bytes of the connections
  into blocks and interleaves them, what is forwarded for a connection is exactly the frames of
  its own byte stream, in order, and nothing fails; blocks of unknown connections change nothing
  of this.  Lengths have two bytes or four, and a connection may have nobody to forward to.  Two
  limits: a block is shorter than 1 GiB, and with four bytes of length no complete frame has 16M
  or more and a connection gets less than 2 GiB (the buffer counts in an \<open>int\<close>).
\<close>

theorem gate_reassembles_streams:
  assumes "gate_ready g B" and "\<forall>(fd, d) \<in> set ds. length d < 2 ^ 30"
    and "\<forall>fd j. slots (ghash g) fd = Some j \<longrightarrow> stream_fits g j (B j @ stream_of fd ds)"
  shows "\<exists>g' new. feed g ds = Some g' \<and> outs g' = outs g @ new \<and> same_routes g g' \<and>
    (\<forall>fd j. slots (ghash g) fd = Some j \<longrightarrow>
      filter (sent_for fd) new = map (wrap g (conn g ! j))
        (frames (fst (cut_frames (header_size g) (routed g (conn g ! j)) (B j @ stream_of fd ds)))))"
  using assms
proof (induction ds arbitrary: g B)
  case Nil
  then show ?case
    using slot_less by (auto simp: same_routes_def stream_of_def gate_ready_def cut_unfinished frames_def)
next
  case (Cons x ds)
  obtain fd d where x: "x = (fd, d)" by fastforce
  obtain g1 B1 new1 where g1: "dispatch_socket_message g \<lparr>sm_type = S_DATA, sm_id = fd, sm_ud = int (length d), sm_buffer = d\<rparr> [] 0 = Some g1"
    "gate_ready g1 B1" "same_routes g g1" "outs g1 = outs g @ new1"
    "\<forall>f j. slots (ghash g) f = Some j \<longrightarrow> stream_fits g j (B1 j @ stream_of f ds) \<and>
      map (wrap g (conn g ! j)) (frames (fst (cut_slot g j (B j @ stream_of f ((fd, d) # ds))))) =
      filter (sent_for f) new1 @ map (wrap g (conn g ! j)) (frames (fst (cut_slot g j (B1 j @ stream_of f ds))))"
    using block_step [OF Cons.prems(1), of d fd ds "[]" 0] Cons.prems(2,3) x by auto
  have same: "ghash g1 = ghash g" "header_size g1 = header_size g" "wrap g1 (conn g1 ! j) = wrap g (conn g ! j)"
    "routed g1 (conn g1 ! j) = routed g (conn g ! j)" for j
    using g1(3) by (auto simp: same_routes_def)
  obtain g' new where IH: "feed g1 ds = Some g'" "outs g' = outs g1 @ new" "same_routes g1 g'"
    "\<forall>f j. slots (ghash g) f = Some j \<longrightarrow>
      filter (sent_for f) new = map (wrap g (conn g ! j)) (frames (fst (cut_slot g j (B1 j @ stream_of f ds))))"
    using Cons.IH [OF g1(2)] Cons.prems(2) g1(5) unfolding same stream_fits_same [OF g1(3)] by auto
  then show ?case using x g1 same
    by (intro exI [of _ g'] exI [of _ "new1 @ new"]) (simp add: same_routes_def)
qed

section \<open>The invariant of the service\<close>

text \<open>What the socket layer promises of a message.\<close>

definition socket_ok :: "gate \<Rightarrow> (nat \<Rightarrow> u8 list) \<Rightarrow> socket_message \<Rightarrow> u8 list \<Rightarrow> int \<Rightarrow> bool" where
  "socket_ok g B m extra sz =
     (case sm_type m of
        S_DATA \<Rightarrow> sm_ud m = int (length (sm_buffer m)) \<and>
          (case slots (ghash g) (sm_id m) of None \<Rightarrow> True | Some j \<Rightarrow> length (B j) + length (sm_buffer m) < 2 ^ 31)
      | S_ACCEPT \<Rightarrow> sm_id m = listen_id g \<and> 0 < sm_ud m \<and> sm_ud m + hcap (ghash g) \<le> 2 ^ 31 \<and>
          slots (ghash g) (sm_ud m) = None \<and> 0 \<le> sz \<and> sz \<le> int (length extra)
      | _ \<Rightarrow> True)"

lemma gate_ready_out: "gate_ready (out e g) B = gate_ready g B" "gate_ready (report g s) B = gate_ready g B"
  by (simp_all add: gate_ready_def out_def report_def)

lemma gate_ready_listen: "gate_ready (g\<lparr>listen_id := l\<rparr>) B = gate_ready g B"
  by (simp add: gate_ready_def)

lemma watchdog_out [simp]: "watchdog (out e g) = watchdog g" "watchdog (report g s) = watchdog g"
  "ghash (out e g) = ghash g" "ghash (report g s) = ghash g"
  by (simp_all add: out_def report_def)

lemma accept_step:
  assumes ready: "gate_ready g B" and m: "sm_type m = S_ACCEPT" "socket_ok g B m ex sz"
  shows "\<exists>g'. dispatch_socket_message g m ex sz = Some g' \<and> gate_ready g' B \<and> watchdog g' = watchdog g"
proof (cases "hashid_full (ghash g)")
  case True
  then show ?thesis using assms
    by (intro exI [of _ "out (Sock_close (sm_ud m)) g"]) (simp add: dispatch_socket_message_def socket_ok_def gate_ready_out)
next
  case False
  note ok = gate_readyD [OF ready]
  have mo: "sm_id m = listen_id g" "0 < sm_ud m" "sm_ud m + hcap (ghash g) \<le> 2 ^ 31"
    "slots (ghash g) (sm_ud m) = None" "0 \<le> sz" "sz \<le> int (length ex)"
    using m by (auto simp: socket_ok_def)
  obtain t hi where t: "hashid_insert (ghash g) (sm_ud m) = Some (int t, hi)" "hashid_ok hi" "t < length (conn g)"
    "t \<notin> ran (slots (ghash g))" "slots hi = (slots (ghash g))(sm_ud m \<mapsto> t)" "length (ids hi) = length (conn g)"
    using insert_spec [OF ok(1) False mo(4) _ mo(3)] mo(2) ok(2) by auto
  define n where "n = (if sz < 0 \<or> sz \<ge> 32 then 31 else nat sz)"
  define nm where "nm = take n ex @ [0] @ drop (Suc n) (c_remote (conn g ! t))"
  let ?c = "(conn g ! t)\<lparr>c_id := sm_ud m, c_remote := nm\<rparr>"
  let ?g1 = "g\<lparr>ghash := hi, conn := (conn g)[t := ?c]\<rparr>"
  have sz: "n \<le> length ex" using mo(5,6) by (auto simp: n_def)
  have buf: "c_buffer ((conn g)[t := ?c] ! k) = c_buffer (conn g ! k)" for k
    using t(3) by (cases "k = t") auto
  have "buffers_hold (header_size g) (mp g) ((conn g)[t := ?c]) B"
    using ok(4) buffers_hold_cong [of "(conn g)[t := ?c]" "conn g", OF _ buf] by simp
  moreover have "ran (slots hi) = insert t (ran (slots (ghash g)))"
    unfolding t(5) using mo(4) by (rule ran_map_upd)
  moreover have "c_id ((conn g)[t := ?c] ! j) = fd" if "slots hi fd = Some j" for fd j
  proof (cases "fd = sm_ud m")
    case True
    then show ?thesis using that t(3,5) by auto
  next
    case False
    then have s: "slots (ghash g) fd = Some j" using that t(5) by simp
    then have "j \<noteq> t" using t(4) by (auto simp: ran_def)
    then show ?thesis using ok(7) [OF s] by simp
  qed
  ultimately have r1: "gate_ready ?g1 B" using ok t(2,6) unfolding gate_ready_def by simp
  show ?thesis
    using t(1,3) False m(1) mo(1) sz r1 unfolding nm_def
    by (simp add: dispatch_socket_message_def Let_def gate_ready_out n_def [symmetric])
qed

lemma close_step:
  assumes ready: "gate_ready g B" and m: "sm_type m = S_CLOSE \<or> sm_type m = S_ERROR"
  shows "\<exists>g' B'. dispatch_socket_message g m ex sz = Some g' \<and> gate_ready g' B' \<and> watchdog g' = watchdog g"
proof (cases "slots (ghash g) (sm_id m)")
  case None
  have "hashid_remove (ghash g) (sm_id m) = Some (- 1, ghash g)"
    using remove_missing [OF _ None] ready by (simp add: gate_ready_def)
  then have "dispatch_socket_message g m ex sz = Some g" using m by (auto simp: dispatch_socket_message_def)
  then show ?thesis using ready by blast
next
  case (Some t)
  note ok = gate_readyD [OF ready]
  obtain hi where hi: "hashid_remove (ghash g) (sm_id m) = Some (int t, hi)" "hashid_ok hi"
    "slots hi = (slots (ghash g))(sm_id m := None)" "length (ids hi) = length (conn g)"
    using remove_found [OF ok(1) Some] ok(2) by auto
  have tl: "t < length (conn g)" using slot_less [OF ok(1) Some] ok(2) by simp
  let ?z = "connection_zero\<lparr>c_id := - 1\<rparr>" and ?k = "header_size g"
  obtain A bs where h: "holds (mp g) (c_buffer (conn g ! t)) A bs"
    "header_ok ?k (db_header (c_buffer (conn g ! t)))" "pending ?k (db_header (c_buffer (conn g ! t))) bs = B t"
    "\<forall>P' A' db bs'. moves (mp g) A P' A' \<longrightarrow> holds P' db A' bs' \<longrightarrow> header_ok ?k (db_header db) \<longrightarrow>
       buffers_hold ?k P' ((conn g)[t := ?z\<lparr>c_buffer := db\<rparr>]) (B(t := pending ?k (db_header db) bs'))"
    using buffers_hold_one [OF ok(4) tl, of ?z] by blast
  obtain P A' where c: "databuffer_clear (c_buffer (conn g ! t)) (mp g) = Some (databuffer_zero, P)"
    "holds P databuffer_zero A' []" "moves (mp g) A P A'" using holds_clear [OF h(1)] by blast
  have "buffers_hold ?k P ((conn g)[t := ?z]) (B(t := []))"
  proof -
    have z: "?z\<lparr>c_buffer := databuffer_zero\<rparr> = ?z" by (simp add: connection_zero_def)
    have e: "pending ?k (db_header databuffer_zero) [] = []" "header_ok ?k (db_header databuffer_zero)"
      by (simp_all add: databuffer_zero_def pending_def)
    have "buffers_hold ?k P ((conn g)[t := ?z\<lparr>c_buffer := databuffer_zero\<rparr>]) (B(t := pending ?k (db_header databuffer_zero) []))"
      using h(4) c(2,3) e(2) by blast
    then show ?thesis unfolding z e(1) .
  qed
  moreover have uniq: "fd = sm_id m" if "slots (ghash g) fd = Some t" for fd
    using that Some ok(1) by (simp add: slots_iff)
  moreover have "j \<notin> ran (slots (ghash g))" if "j \<notin> ran (slots hi)" "j \<noteq> t" for j
  proof
    assume "j \<in> ran (slots (ghash g))"
    then obtain fd where "slots (ghash g) fd = Some j" by (auto simp: ran_def)
    moreover from this have "fd \<noteq> sm_id m" using Some that(2) by auto
    ultimately have "slots hi fd = Some j" using hi(3) by simp
    then show False using that(1) by (auto simp: ran_def)
  qed
  moreover have "c_id ((conn g)[t := ?z] ! j) = fd" if "slots hi fd = Some j" for fd j
  proof -
    have s: "slots (ghash g) fd = Some j" "fd \<noteq> sm_id m" using that hi(3) by (auto split: if_splits)
    then have "j \<noteq> t" using uniq by auto
    then show ?thesis using ok(7) [OF s(1)] by simp
  qed
  moreover have "unfinished ?k []" using ok(3) by (auto simp: unfinished_def)
  ultimately have "gate_ready (g\<lparr>ghash := hi, mp := P, conn := (conn g)[t := ?z]\<rparr>) (B(t := []))"
    using ok hi(2,4) unfolding gate_ready_def by simp
  moreover have "dispatch_socket_message g m ex sz =
      Some (report (g\<lparr>ghash := hi, mp := P, conn := (conn g)[t := ?z]\<rparr>) (int_str (sm_id m) @ '' close''))"
    using m hi(1) c(1) tl by (auto simp: dispatch_socket_message_def on_buffer_def)
  ultimately show ?thesis using gate_ready_out(2) by auto
qed


lemma init_ready:
  assumes "hashid_init mx = Some hi" and "0 < mx" "mx \<le> 2 ^ 30" and "size_ok k"
  shows "gate_ready (g\<lparr>ghash := hi, conn := replicate (nat mx) (connection_zero\<lparr>c_id := - 1\<rparr>), mp := messagepool_zero,
     header_size := k\<rparr>) (\<lambda>_. [])"
proof -
  have hi: "hashid_ok hi" "slots hi = Map.empty" "hcap hi = mx"
    using hashid_init_ok [of mx] assms by auto
  let ?cs = "replicate (nat mx) (connection_zero\<lparr>c_id := - 1\<rparr>)"
  have "db_rep messagepool_zero (c_buffer (?cs ! j)) [] \<and> header_ok k (db_header (c_buffer (?cs ! j))) \<and>
      pending k (db_header (c_buffer (?cs ! j))) (stream messagepool_zero (c_buffer (?cs ! j)) []) = []" if "j < nat mx" for j
    using that db_rep_zero by (simp add: connection_zero_def databuffer_zero_def pending_def)
  then have "buffers_hold k messagepool_zero ?cs (\<lambda>_. [])"
    unfolding buffers_hold_def using pool_ok_zero by (intro exI [of _ "\<lambda>_. []"] exI [of _ "[]"]) simp
  moreover have "int (length (ids hi)) = mx" using hi(1,3) by (simp add: hashid_ok_def)
  then have "length ?cs = length (ids hi)" by simp
  moreover have "unfinished k []" using assms(4) by (auto simp: unfinished_def)
  ultimately show ?thesis using hi assms(4) by (simp add: gate_ready_def)
qed

text \<open>A table for more than 2^30 connections makes the search for its size overflow.\<close>

lemma hashcap_bound: "2 ^ 30 < mx \<Longrightarrow> k \<le> 30 \<Longrightarrow> hashcap_loop (2 ^ k) mx = None"
proof (induction "30 - k" arbitrary: k)
  case 0
  then show ?case by (subst hashcap_loop.simps) (simp add: int_range_def)
next
  case (Suc n)
  then have "hashcap_loop (2 ^ Suc k) mx = None" by (intro Suc.hyps) auto
  moreover have "(2 :: int) ^ k \<le> 2 ^ 30" using Suc.prems(2) by (intro power_increasing) auto
  ultimately show ?case using Suc.prems(1) by (subst hashcap_loop.simps) (auto simp: int_range_def mult.commute)
qed

lemma gate_ready_cong:
  assumes "ghash g' = ghash g" "conn g' = conn g" "mp g' = mp g" "header_size g' = header_size g"
  shows "gate_ready g' B = gate_ready g B"
  using assms by (simp add: gate_ready_def)

lemma start_listen_ready: "start_listen H g binding = Some (r, g') \<Longrightarrow> gate_ready g' B = gate_ready g B"
  by (auto simp: start_listen_def Let_def gate_ready_out gate_ready_listen split: if_splits)

lemma gate_init_ready:
  assumes init: "gate_init H g param = Some (0, g')" and "mp g = messagepool_zero"
  shows "gate_ready g' (\<lambda>_. [])"
proof -
  obtain p where p: "param = Some p" using init by (cases param) (auto simp: gate_init_def)
  obtain n header wd binding tag mx where s: "scan_parm p = (n, header, wd, binding, tag, mx)"
    by (metis prod_cases6)
  define g1 where "g1 = g\<lparr>watchdog := (if wd \<noteq> [] \<and> hd wd = CHR ''!'' then 0 else gh_queryname H wd)\<rparr>"
  define k where "k = (if header = CHR ''S'' then 2 else 4 :: nat)"
  have mx: "0 < mx" using init s by (auto simp: p gate_init_def split: if_splits)
  obtain hi where hi: "hashid_init mx = Some hi"
    and start: "start_listen H (g1\<lparr>ghash := hi, conn := replicate (nat mx) (connection_zero\<lparr>c_id := - 1\<rparr>), max_connection := mx,
     client_tag := of_int (if tag = 0 then 3 else tag), header_size := k\<rparr>) binding = Some (0, g')"
    using init s unfolding g1_def k_def p by (auto simp: gate_init_def Let_def Option.bind_eq_Some_conv split: if_splits)
  have "mx \<le> 2 ^ 30"
  proof (rule ccontr)
    assume "\<not> mx \<le> 2 ^ 30"
    then show False using hi hashcap_bound [of mx 4] by (simp add: hashid_init_def)
  qed
  moreover have "size_ok k" by (simp add: k_def)
  ultimately have "gate_ready (g\<lparr>ghash := hi, conn := replicate (nat mx) (connection_zero\<lparr>c_id := - 1\<rparr>), mp := messagepool_zero,
     header_size := k\<rparr>) (\<lambda>_. [])" by (rule init_ready [OF hi mx])
  then show ?thesis unfolding start_listen_ready [OF start]
    by (subst gate_ready_cong) (simp_all add: g1_def assms(2))
qed

text \<open>
  C16. The invariant of the gate: a successful start, with any parameter, establishes it, and
  every message of the socket layer (data, a new connection when the table is full or not, a
  closed or unknown one) is handled without failure and keeps it: the id table is sound, the
  buffers of all connections share the pool without overlapping, and an unused slot holds no
  bytes.  Assumed of the messages (\<open>socket_ok\<close>): a block of data has the length it says, and what
  the connection then has buffered is less than 2 GiB; an accepted connection comes from the
  socket the gate listens on, with a positive id that is not in the table and leaves room for
  \<open>id + cap\<close> in an \<open>int\<close>, and the message is as long as its size says.
\<close>

theorem gate_socket_invariant:
  assumes "gate_ready g B" and "socket_ok g B m extra sz" and "gate_init H gate_create param = Some (0, g0)"
  shows "gate_ready g0 (\<lambda>_. []) \<and> (\<exists>g' B'. dispatch_socket_message g m extra sz = Some g' \<and> gate_ready g' B')"
proof
  show "gate_ready g0 (\<lambda>_. [])" by (rule gate_init_ready [OF assms(3)]) (simp add: gate_create_def)
  show "\<exists>g' B'. dispatch_socket_message g m extra sz = Some g' \<and> gate_ready g' B'"
  proof (cases "sm_type m")
    case S_DATA
    then have m: "m = \<lparr>sm_type = S_DATA, sm_id = sm_id m, sm_ud = int (length (sm_buffer m)), sm_buffer = sm_buffer m\<rparr>"
      using assms(2) by (auto simp: socket_ok_def)
    show ?thesis
    proof (cases "slots (ghash g) (sm_id m)")
      case None
      show ?thesis using unknown_step [OF assms(1) None, of "sm_buffer m" extra sz] m by metis
    next
      case (Some j)
      have "length (B j) + length (sm_buffer m) < 2 ^ 31" using assms(2) S_DATA Some by (simp add: socket_ok_def)
      then show ?thesis using data_step [OF assms(1) Some, of "sm_buffer m" extra sz] m by metis
    qed
  next
    case S_CONNECT
    then show ?thesis using assms(1) lookup_spec [of "ghash g" "sm_id m"] gate_readyD(1) [OF assms(1)]
      by (auto simp: dispatch_socket_message_def gate_ready_out split: option.splits)
  next
    case S_ACCEPT
    then show ?thesis using accept_step [OF assms(1) _ assms(2)] by blast
  next
    case S_CLOSE
    then show ?thesis using close_step [OF assms(1)] by blast
  next
    case S_ERROR
    then show ?thesis using close_step [OF assms(1)] by blast
  next
    case S_UDP
    then show ?thesis using assms(1) by (auto simp: dispatch_socket_message_def)
  next
    case S_WARNING
    then show ?thesis using assms(1) by (auto simp: dispatch_socket_message_def gate_ready_out)
  qed
qed

text \<open>A gate with one connection, whose messages go to an agent (\<open>a\<close> not 0) or to nobody.\<close>

definition demo_gate :: "nat \<Rightarrow> u32 \<Rightarrow> gate" where
  "demo_gate k a = \<lparr>listen_id = 3, watchdog = 0, broker = 0, client_tag = 3, header_size = k, max_connection = 1,
     ghash = \<lparr>hashmod = 15, hcap = 1, hcount = 1, ids = [\<lparr>hid = 5, hnext = None\<rparr>],
              hash = (replicate 16 None)[5 := Some 0]\<rparr>,
     conn = [connection_zero\<lparr>c_id := 5, c_agent := a, c_client := 8\<rparr>], mp = messagepool_zero, outs = []\<rparr>"

lemma demo_bucket: "id_bucket (ghash (demo_gate k a)) x = nat (x mod 16)"
  using take_bit_eq_mask [of 4 x] by (simp add: id_bucket_def demo_gate_def mask_eq_exp_minus_1 take_bit_eq_mod)

lemma demo_hash_ok: "hashid_ok (ghash (demo_gate k a))"
proof -
  have "chains_ok (ghash (demo_gate k a)) (\<lambda>h. if h = 5 then [0] else [])"
    unfolding chains_ok_def demo_bucket by (auto simp: demo_gate_def nth_list_update)
  moreover have "\<exists>n. hashmod (ghash (demo_gate k a)) = 2 ^ n - 1 \<and> length (hash (ghash (demo_gate k a))) = 2 ^ n"
    by (rule exI [of _ 4]) (simp add: demo_gate_def)
  moreover have "{j. j < length (ids (ghash (demo_gate k a))) \<and> hid (ids (ghash (demo_gate k a)) ! j) \<noteq> - 1} = {0}"
    by (auto simp: demo_gate_def)
  then have "hcount (ghash (demo_gate k a)) =
      int (card {j. j < length (ids (ghash (demo_gate k a))) \<and> hid (ids (ghash (demo_gate k a)) ! j) \<noteq> - 1})"
    by (simp add: demo_gate_def)
  ultimately show ?thesis unfolding hashid_ok_def by (auto simp: demo_gate_def)
qed

lemma demo_slots: "slots (ghash (demo_gate k a)) fd = Some j \<longleftrightarrow> fd = 5 \<and> j = 0"
  unfolding slots_iff [OF demo_hash_ok] by (auto simp: demo_gate_def)

lemma demo_gate_ready:
  assumes "size_ok k"
  shows "gate_ready (demo_gate k a) (\<lambda>_. [])"
proof -
  have "buffers_hold k (mp (demo_gate k a)) (conn (demo_gate k a)) (\<lambda>_. [])"
    unfolding buffers_hold_def using pool_ok_zero db_rep_zero
    by (intro exI [of _ "\<lambda>_. []"] exI [of _ "[]"])
      (simp add: demo_gate_def connection_zero_def databuffer_zero_def pending_def)
  moreover have "c_id (conn (demo_gate k a) ! j) = fd" if "slots (ghash (demo_gate k a)) fd = Some j" for fd j
    using that unfolding demo_slots by (simp add: demo_gate_def)
  moreover have "unfinished k []" using assms by (auto simp: unfinished_def)
  ultimately show ?thesis using demo_hash_ok assms
    by (simp add: gate_ready_def) (simp add: demo_gate_def)
qed

lemma demo_route:
  "header_size (demo_gate k a) = k" "routed (demo_gate k a) (conn (demo_gate k a) ! 0) \<longleftrightarrow> a \<noteq> 0"
  by (simp_all add: demo_gate_def routed_def)

lemma demo_cuts:
  "cut_frames 2 True [0, 2, 104, 105, 0, 1, 106, 0] = ([Frame [104, 105], Frame [106]], [0])"
  "cut_frames 4 True [0, 0, 0, 2, 104, 105, 0, 0, 0] = ([Frame [104, 105]], [0, 0, 0])"
  "cut_frames 2 False [0, 2, 0, 1, 106] = ([], [106])"
  by (simp_all add: cut_frames.simps header_value_def)

lemma gate_reassembles_streams_witness:
  "(\<exists>g'. feed (demo_gate 2 9) [(5, [0]), (5, [2, 104, 105, 0]), (6, [7]), (5, [1]), (5, [106, 0])] = Some g' \<and>
    filter (sent_for 5) (outs g') = [Send 8 9 (3 OR PT_DONTCOPY) 5 [104, 105], Send 8 9 (3 OR PT_DONTCOPY) 5 [106]]) \<and>
   (\<exists>g'. feed (demo_gate 4 9) [(5, [0, 0]), (5, [0, 2, 104]), (5, [105, 0, 0, 0])] = Some g' \<and>
    filter (sent_for 5) (outs g') = [Send 8 9 (3 OR PT_DONTCOPY) 5 [104, 105]]) \<and>
   (\<exists>g'. feed (demo_gate 2 0) [(5, [0, 2, 0]), (5, [1, 106])] = Some g' \<and> filter (sent_for 5) (outs g') = [])"
proof (intro conjI)
  let ?r = "\<lambda>k a ds. \<exists>g' new. feed (demo_gate k a) ds = Some g' \<and> outs g' = outs (demo_gate k a) @ new \<and>
      filter (sent_for 5) new = map (wrap (demo_gate k a) (conn (demo_gate k a) ! 0))
        (frames (fst (cut_frames k (a \<noteq> 0) (stream_of 5 ds))))"
  have run: "?r k a ds" if k: "size_ok k" and small: "length (stream_of 5 ds) < 100" "\<forall>(fd, d) \<in> set ds. length d < 2 ^ 30"
    and never: "Too_long \<notin> set (fst (cut_frames k (a \<noteq> 0) (stream_of 5 ds)))" for k a ds
  proof -
    have "\<forall>fd j. slots (ghash (demo_gate k a)) fd = Some j \<longrightarrow> stream_fits (demo_gate k a) j ([] @ stream_of fd ds)"
      using small(1) never unfolding demo_slots stream_fits_def by (auto simp: demo_route)
    from gate_reassembles_streams [OF demo_gate_ready [OF k] small(2) this]
    show ?thesis by (auto simp: demo_slots demo_route)
  qed
  have w: "wrap (demo_gate k 9) (conn (demo_gate k 9) ! 0) d = Send 8 9 (3 OR PT_DONTCOPY) 5 d" for k d
    by (simp add: wrap_def demo_gate_def connection_zero_def)
  have o: "outs (demo_gate k a) = []" for k a by (simp add: demo_gate_def)
  show "\<exists>g'. feed (demo_gate 2 9) [(5, [0]), (5, [2, 104, 105, 0]), (6, [7]), (5, [1]), (5, [106, 0])] = Some g' \<and>
    filter (sent_for 5) (outs g') = [Send 8 9 (3 OR PT_DONTCOPY) 5 [104, 105], Send 8 9 (3 OR PT_DONTCOPY) 5 [106]]"
    using run [of 2 "[(5, [0]), (5, [2, 104, 105, 0]), (6, [7]), (5, [1]), (5, [106, 0])]" 9] demo_cuts(1)
    by (auto simp: stream_of_def w o frames_def)
  show "\<exists>g'. feed (demo_gate 4 9) [(5, [0, 0]), (5, [0, 2, 104]), (5, [105, 0, 0, 0])] = Some g' \<and>
    filter (sent_for 5) (outs g') = [Send 8 9 (3 OR PT_DONTCOPY) 5 [104, 105]]"
    using run [of 4 "[(5, [0, 0]), (5, [0, 2, 104]), (5, [105, 0, 0, 0])]" 9] demo_cuts(2)
    by (auto simp: stream_of_def w o frames_def)
  show "\<exists>g'. feed (demo_gate 2 0) [(5, [0, 2, 0]), (5, [1, 106])] = Some g' \<and> filter (sent_for 5) (outs g') = []"
    using run [of 2 "[(5, [0, 2, 0]), (5, [1, 106])]" 0] demo_cuts(3)
    by (auto simp: stream_of_def o frames_def)
qed

definition demo_gate_host :: gate_host where
  "demo_gate_host = \<lparr>gh_queryname = (\<lambda>_. 7), gh_listen = (\<lambda>_ _. 3)\<rparr>"

lemma gate_socket_invariant_witness:
  "\<exists>g' B' g0. dispatch_socket_message (demo_gate 4 0) \<lparr>sm_type = S_DATA, sm_id = 5, sm_ud = 1, sm_buffer = [0]\<rparr> [] 0 = Some g' \<and>
    gate_ready g' B' \<and> gate_init demo_gate_host gate_create (Some ''L .w :8 0 2'') = Some (0, g0) \<and> gate_ready g0 (\<lambda>_. [])"
proof -
  have p: "scan_parm ''L .w :8 0 2'' = (5, CHR ''L'', ''.w'', '':8'', 0, 2)"
    by code_simp
  obtain hi where hi: "hashid_init 2 = Some hi" using hashid_init_ok [of 2] by auto
  have "strtol10 ''8'' = 8" by code_simp
  then obtain g0 where g0: "gate_init demo_gate_host gate_create (Some ''L .w :8 0 2'') = Some (0, g0)"
    using hi by (auto simp: gate_init_def p start_listen_def demo_gate_host_def Let_def)
  show ?thesis
    using gate_socket_invariant [OF demo_gate_ready _ g0, of 4 0 "\<lparr>sm_type = S_DATA, sm_id = 5, sm_ud = 1, sm_buffer = [0]\<rparr>" "[]" 0] g0
    by (auto simp: socket_ok_def split: option.splits)
qed

text \<open>A complete frame of a connection with nobody to send it to stays in the buffer while its
  length field is dropped: the loop goes on with the payload as the next length field.  And a
  length of four bytes that is negative as an \<open>int\<close> makes the connection wait for ever.\<close>

lemma unrouted_payload_reparsed:
  assumes "\<not> unfinished k s" and "0 < k" and "header_value (take k s) < 0x1000000"
  shows "cut_frames k False s = cut_frames k False (drop k s)"
  using cut_frame [OF assms(1,2) refl assms(3), of False] by simp

lemma negative_length_waits:
  assumes "4 \<le> length s" and "header_value (take 4 s) < 0"
  shows "cut_frames 4 q (s @ t) = ([], s @ t)"
  using assms by (intro cut_unfinished) (simp add: unfinished_def)

end
