(* ===== verification/NetPack.thy ===== *)
theory NetPack
  imports Fifo DataBuffer
begin

text \<open>
  The packet filter of \<^verbatim>\<open>lualib-src/lua-netpack.c\<close>: it cuts what arrives on many sockets into
  packets (a big-endian 16-bit length and the data), keeps incomplete packets in a hash table and
  queues complete ones in a ring.  The queue is the user data at index 1 of the Lua stack, NULL
  (\<open>None\<close>) before the first use.  A hash chain is the list of its nodes; a block under
  construction is the list of the bytes written so far.
\<close>

definition QUEUESIZE :: nat where "QUEUESIZE = 1024"
definition HASHSIZE :: nat where "HASHSIZE = 4096"

section \<open>Data\<close>

record netpack =
  np_id :: int
  np_size :: nat
  np_buffer :: "u8 list"

record uncomplete =
  uc_pack :: netpack
  uc_read :: int
  uc_header :: u8

record queue =
  q_cap :: nat
  q_first :: nat
  q_last :: nat
  q_hash :: "uncomplete list list"
  q_queue :: "netpack list"

definition no_pack :: netpack where
  "no_pack = \<lparr>np_id = 0, np_size = 0, np_buffer = []\<rparr>"

text \<open>What \<open>filter\<close> returns to Lua, after the queue.\<close>

datatype filter_result =
    R_none
  | R_data int "u8 list"
  | R_more
  | R_error int "u8 list"
  | R_open int "u8 list"
  | R_close int
  | R_warning int int

section \<open>The ring of complete packets\<close>

definition new_queue :: queue where
  "new_queue = \<lparr>q_cap = QUEUESIZE, q_first = 0, q_last = 0, q_hash = replicate HASHSIZE [],
     q_queue = replicate QUEUESIZE no_pack\<rparr>"

definition get_queue :: "queue option \<Rightarrow> queue" where
  "get_queue q = (case q of None \<Rightarrow> new_queue | Some q \<Rightarrow> q)"

definition expand_queue :: "queue \<Rightarrow> queue option" where
  "expand_queue q = do {
     assert_that (\<forall>i < q_cap q. (q_first q + i) mod q_cap q < length (q_queue q));
     Some \<lparr>q_cap = q_cap q + QUEUESIZE, q_first = 0, q_last = q_cap q, q_hash = q_hash q,
       q_queue = map (\<lambda>i. q_queue q ! ((q_first q + i) mod q_cap q)) [0..<q_cap q] @ replicate QUEUESIZE no_pack\<rparr> }"

text \<open>The block \<open>data\<close> is the package itself; a clone is the same bytes.\<close>

definition push_data :: "int \<Rightarrow> u8 list \<Rightarrow> nat \<Rightarrow> queue option \<Rightarrow> queue option" where
  "push_data fd data n q0 = do {
     let q = get_queue q0;
     assert_that (n \<le> length data);
     ring \<leftarrow> arr_set (q_queue q) (q_last q) \<lparr>np_id = fd, np_size = n, np_buffer = take n data\<rparr>;
     let t = q_last q + 1;
     let t1 = (if t \<ge> q_cap q then t - q_cap q else t);
     let q1 = q\<lparr>q_queue := ring, q_last := t1\<rparr>;
     if q_first q1 = q_last q1 then expand_queue q1 else Some q1 }"

definition lpop :: "queue option \<Rightarrow> ((int \<times> u8 list \<times> nat) option \<times> queue option) option" where
  "lpop q0 =
     (case q0 of
        None \<Rightarrow> Some (None, None)
      | Some q \<Rightarrow>
          if q_first q = q_last q then Some (None, Some q)
          else do {
            np \<leftarrow> arr_get (q_queue q) (q_first q);
            let h = q_first q + 1;
            Some (Some (np_id np, np_buffer np, np_size np), Some (q\<lparr>q_first := (if h \<ge> q_cap q then 0 else h)\<rparr>)) })"

text \<open>The blocks freed, and the empty queue.\<close>

definition lclear :: "queue option \<Rightarrow> (u8 list list \<times> queue option) option" where
  "lclear q0 =
     (case q0 of
        None \<Rightarrow> Some ([], None)
      | Some q \<Rightarrow> do {
          let tl1 = (if q_first q > q_last q then q_last q + q_cap q else q_last q);
          assert_that (\<forall>i \<in> {q_first q..<tl1}. i mod q_cap q < length (q_queue q));
          Some (concat (map (map (\<lambda>u. np_buffer (uc_pack u))) (q_hash q)) @
                map (\<lambda>i. np_buffer (q_queue q ! (i mod q_cap q))) [q_first q..<tl1],
                Some (q\<lparr>q_hash := replicate HASHSIZE [], q_first := 0, q_last := 0\<rparr>)) })"

section \<open>Incomplete packets\<close>

definition hash_fd :: "int \<Rightarrow> nat" where
  "hash_fd fd = nat ((fd div 2 ^ 24 + fd div 2 ^ 12 + fd) mod int HASHSIZE)"

text \<open>The entry of \<open>fd\<close>, taken out of its chain.\<close>

fun take_id :: "int \<Rightarrow> uncomplete list \<Rightarrow> (uncomplete \<times> uncomplete list) option" where
  "take_id fd [] = None"
| "take_id fd (u # us) =
     (if np_id (uc_pack u) = fd then Some (u, us)
      else map_option (\<lambda>(v, vs). (v, u # vs)) (take_id fd us))"

definition find_uncomplete :: "int \<Rightarrow> queue option \<Rightarrow> (uncomplete option \<times> queue option) option" where
  "find_uncomplete fd q0 =
     (case q0 of
        None \<Rightarrow> Some (None, None)
      | Some q \<Rightarrow> do {
          chain \<leftarrow> arr_get (q_hash q) (hash_fd fd);
          (case take_id fd chain of
             None \<Rightarrow> Some (None, Some q)
           | Some (u, us) \<Rightarrow> Some (Some u, Some (q\<lparr>q_hash := (q_hash q)[hash_fd fd := us]\<rparr>))) })"

definition insert_uncomplete :: "int \<Rightarrow> uncomplete \<Rightarrow> queue \<Rightarrow> queue option" where
  "insert_uncomplete fd u q = do {
     chain \<leftarrow> arr_get (q_hash q) (hash_fd fd);
     Some (q\<lparr>q_hash := (q_hash q)[hash_fd fd := u # chain]\<rparr>) }"

text \<open>\<open>save_uncomplete\<close> and the fields its callers fill in: one byte of the length, or the length
  and the first bytes of the data.\<close>

definition save_header :: "int \<Rightarrow> u8 \<Rightarrow> queue option \<Rightarrow> queue option" where
  "save_header fd b q = insert_uncomplete fd
     \<lparr>uc_pack = \<lparr>np_id = fd, np_size = 0, np_buffer = []\<rparr>, uc_read = - 1, uc_header = b\<rparr> (get_queue q)"

definition save_data :: "int \<Rightarrow> nat \<Rightarrow> u8 list \<Rightarrow> queue option \<Rightarrow> queue option" where
  "save_data fd pack_size data q = insert_uncomplete fd
     \<lparr>uc_pack = \<lparr>np_id = fd, np_size = pack_size, np_buffer = data\<rparr>, uc_read = int (length data), uc_header = 0\<rparr> (get_queue q)"

definition read_size :: "u8 list \<Rightarrow> nat option" where
  "read_size b = do { x \<leftarrow> arr_get b 0; y \<leftarrow> arr_get b 1; Some (unat x * 256 + unat y) }"

section \<open>The filter\<close>

partial_function (option) push_more :: "int \<Rightarrow> u8 list \<Rightarrow> queue option \<Rightarrow> queue option" where
  "push_more fd b q =
     (if length b = 1 then save_header fd (hd b) q
      else do {
        pack_size \<leftarrow> read_size b;
        let d = drop 2 b;
        if length d < pack_size then save_data fd pack_size d q
        else do {
          q1 \<leftarrow> push_data fd d pack_size q;
          let r = drop pack_size d;
          if length r > 0 then push_more fd r (Some q1) else Some q1 } })"

definition close_uncomplete :: "int \<Rightarrow> queue option \<Rightarrow> queue option option" where
  "close_uncomplete fd q = do { (_, q1) \<leftarrow> find_uncomplete fd q; Some q1 }"

text \<open>The second byte of a length completes an entry that has only the first one.\<close>

definition fill_header :: "uncomplete \<Rightarrow> u8 list \<Rightarrow> (uncomplete \<times> u8 list) option" where
  "fill_header u b =
     (if uc_read u < 0 then do {
        assert_that (uc_read u = - 1);
        y \<leftarrow> arr_get b 0;
        Some (u\<lparr>uc_pack := (uc_pack u)\<lparr>np_size := unat (uc_header u) * 256 + unat y, np_buffer := []\<rparr>, uc_read := 0\<rparr>, drop 1 b) }
      else Some (u, b))"

definition filter_data :: "int \<Rightarrow> u8 list \<Rightarrow> queue option \<Rightarrow> (filter_result \<times> queue option) option" where
  "filter_data fd b q = do {
     (found, q1) \<leftarrow> find_uncomplete fd q;
     (case found of
        Some u0 \<Rightarrow> do {
          (u, d) \<leftarrow> fill_header u0 b;
          let p = uc_pack u;
          assert_that (uc_read u = int (length (np_buffer p)) \<and> length (np_buffer p) \<le> np_size p);
          let need = np_size p - length (np_buffer p);
          if length d < need then do {
            q2 \<leftarrow> q1;
            q3 \<leftarrow> insert_uncomplete fd (u\<lparr>uc_pack := p\<lparr>np_buffer := np_buffer p @ d\<rparr>, uc_read := uc_read u + int (length d)\<rparr>) q2;
            Some (R_none, Some q3) }
          else do {
            let full = np_buffer p @ take need d;
            let r = drop need d;
            if r = [] then Some (R_data fd full, q1)
            else do {
              q2 \<leftarrow> push_data fd full (np_size p) q1;
              q3 \<leftarrow> push_more fd r (Some q2);
              Some (R_more, Some q3) } } }
      | None \<Rightarrow>
          if length b = 1 then do { q2 \<leftarrow> save_header fd (hd b) q1; Some (R_none, Some q2) }
          else do {
            pack_size \<leftarrow> read_size b;
            let d = drop 2 b;
            if length d < pack_size then do { q2 \<leftarrow> save_data fd pack_size d q1; Some (R_none, Some q2) }
            else if length d = pack_size then Some (R_data fd d, q1)
            else do {
              q2 \<leftarrow> push_data fd d pack_size q1;
              q3 \<leftarrow> push_more fd (drop pack_size d) (Some q2);
              Some (R_more, Some q3) } }) }"

datatype net_message =
    Net_data int "u8 list"
  | Net_connect
  | Net_close int
  | Net_accept int "u8 list"
  | Net_error int "u8 list"
  | Net_warning int int
  | Net_other

definition lfilter :: "net_message \<Rightarrow> queue option \<Rightarrow> (filter_result \<times> queue option) option" where
  "lfilter m q =
     (case m of
        Net_data fd b \<Rightarrow> filter_data fd b q
      | Net_connect \<Rightarrow> Some (R_none, q)
      | Net_close fd \<Rightarrow> do { q1 \<leftarrow> close_uncomplete fd q; Some (R_close fd, q1) }
      | Net_accept ud s \<Rightarrow> Some (R_open ud s, q)
      | Net_error fd s \<Rightarrow> do { q1 \<leftarrow> close_uncomplete fd q; Some (R_error fd s, q1) }
      | Net_warning fd k \<Rightarrow> Some (R_warning fd k, q)
      | Net_other \<Rightarrow> Some (R_none, q))"

section \<open>Packing\<close>

definition write_size :: "nat \<Rightarrow> u8 list" where
  "write_size len = [of_nat (len div 256), of_nat (len mod 256)]"

definition ltostring :: "u8 list option \<Rightarrow> nat \<Rightarrow> u8 list option" where
  "ltostring p n = (case p of None \<Rightarrow> Some [] | Some d \<Rightarrow> if n \<le> length d then Some (take n d) else None)"

text \<open>\<open>Inl\<close> is \<open>luaL_error\<close>.\<close>

definition lpack :: "u8 list \<Rightarrow> unit + u8 list" where
  "lpack d = (if length d \<ge> 0x10000 then Inl () else Inr (write_size (length d) @ d))"


section \<open>The ring is a queue\<close>

definition np_length :: "queue \<Rightarrow> nat" where
  "np_length q = (if q_first q \<le> q_last q then q_last q - q_first q else q_last q + q_cap q - q_first q)"

definition packs :: "queue \<Rightarrow> netpack list" where
  "packs q = map (\<lambda>i. q_queue q ! ((q_first q + i) mod q_cap q)) [0..<np_length q]"

definition ring_ok :: "queue \<Rightarrow> bool" where
  "ring_ok q \<longleftrightarrow> 0 < q_cap q \<and> length (q_queue q) = q_cap q \<and> q_first q < q_cap q \<and> q_last q < q_cap q"

lemma ring_ok_new: "ring_ok new_queue" "packs new_queue = []"
  by (simp_all add: ring_ok_def new_queue_def QUEUESIZE_def packs_def np_length_def)

lemma packs_hash [simp]: "packs (q\<lparr>q_hash := h\<rparr>) = packs q" "ring_ok (q\<lparr>q_hash := h\<rparr>) = ring_ok q"
  by (simp_all add: packs_def np_length_def ring_ok_def)

lemma np_length_less: "ring_ok q \<Longrightarrow> np_length q < q_cap q"
  by (auto simp: ring_ok_def np_length_def)

lemma push_spec:
  assumes ok: "ring_ok (get_queue q)" and n: "n \<le> length d"
  shows "\<exists>q'. push_data fd d n q = Some q' \<and> ring_ok q' \<and> q_hash q' = q_hash (get_queue q) \<and>
    packs q' = packs (get_queue q) @ [\<lparr>np_id = fd, np_size = n, np_buffer = take n d\<rparr>]"
proof -
  define s where "s = get_queue q"
  let ?p = "\<lparr>np_id = fd, np_size = n, np_buffer = take n d\<rparr>" and ?n = "q_cap s" and ?h = "q_first s" and ?l = "np_length s"
  define s1 where "s1 = s\<lparr>q_queue := (q_queue s)[q_last s := ?p],
      q_last := (if q_last s + 1 \<ge> q_cap s then q_last s + 1 - q_cap s else q_last s + 1)\<rparr>"
  have ok: "ring_ok s" using ok by (simp add: s_def)
  have push: "push_data fd d n q = (if q_first s1 = q_last s1 then expand_queue s1 else Some s1)"
    using ok n by (simp add: push_data_def s1_def s_def [symmetric] ring_ok_def Let_def)
  have tl: "(?h + ?l) mod ?n = q_last s" using ok by (auto simp: np_length_def ring_ok_def)
  have slot: "q_queue s1 ! ((?h + i) mod ?n) = (if i = ?l then ?p else q_queue s ! ((?h + i) mod ?n))"
    if "i \<le> ?l" for i
    using that ok tl np_length_less [OF ok] mod_ring_inj [of i ?n ?l ?h]
    by (auto simp: s1_def nth_list_update ring_ok_def)
  have map: "map (\<lambda>i. q_queue s1 ! ((?h + i) mod ?n)) [0..<Suc ?l] = packs s @ [?p]"
    using slot by (auto simp: packs_def)
  have same: "q_cap s1 = ?n" "q_first s1 = ?h" "length (q_queue s1) = ?n" "0 < ?n" "q_hash s1 = q_hash s"
    using ok by (auto simp: s1_def ring_ok_def)
  show ?thesis
  proof (cases "q_first s1 = q_last s1")
    case True
    then have len: "?n = Suc ?l" using ok by (auto simp: s1_def np_length_def ring_ok_def split: if_splits)
    let ?q = "\<lparr>q_cap = ?n + QUEUESIZE, q_first = 0, q_last = ?n, q_hash = q_hash s,
       q_queue = map (\<lambda>i. q_queue s1 ! ((?h + i) mod ?n)) [0..<?n] @ replicate QUEUESIZE no_pack\<rparr>"
    have e: "expand_queue s1 = Some ?q" using same by (simp add: expand_queue_def)
    have "packs ?q = map (\<lambda>i. q_queue s1 ! ((?h + i) mod ?n)) [0..<?n]"
      by (auto simp: packs_def np_length_def nth_append)
    moreover have "ring_ok ?q" using same(4) by (simp add: ring_ok_def QUEUESIZE_def)
    ultimately show ?thesis using push True e map len by (intro exI [of _ ?q]) (simp add: s_def [symmetric] del: upt_Suc)
  next
    case False
    then have len: "np_length s1 = Suc ?l" using ok by (auto simp: s1_def np_length_def ring_ok_def split: if_splits)
    have "ring_ok s1" using ok by (auto simp: s1_def ring_ok_def)
    then show ?thesis using push False map len same
      by (intro exI [of _ s1]) (simp add: packs_def [of s1] s_def [symmetric] del: upt_Suc)
  qed
qed

lemma pop_empty: "ring_ok q \<Longrightarrow> packs q = [] \<Longrightarrow> lpop (Some q) = Some (None, Some q)"
  by (auto simp: lpop_def packs_def np_length_def ring_ok_def split: if_splits)

lemma pop_cons:
  assumes ok: "ring_ok q" and c: "packs q = p # ps"
  shows "\<exists>q'. lpop (Some q) = Some (Some (np_id p, np_buffer p, np_size p), Some q') \<and> ring_ok q' \<and> packs q' = ps \<and> q_hash q' = q_hash q"
proof -
  let ?f = "if q_first q + 1 \<ge> q_cap q then 0 else q_first q + 1"
  let ?q = "q\<lparr>q_first := ?f\<rparr>"
  have pos: "0 < np_length q" using c by (cases "np_length q") (auto simp: packs_def)
  then have ne: "q_first q \<noteq> q_last q" by (auto simp: np_length_def)
  have len: "np_length ?q = np_length q - 1" using ok ne by (auto simp: np_length_def ring_ok_def)
  have idx: "(?f + i) mod q_cap q = (q_first q + Suc i) mod q_cap q" for i
  proof (cases "q_first q + 1 = q_cap q")
    case True
    then have shift: "q_first q + Suc i = q_cap q + i" by simp
    show ?thesis unfolding shift using True by simp
  next
    case False
    then show ?thesis using ok by (simp add: ring_ok_def)
  qed
  have "packs q = q_queue q ! (q_first q mod q_cap q) # packs ?q"
    unfolding packs_def upt_conv_ConsD [OF pos] using len idx by simp
  then have "q_queue q ! q_first q = p" "packs ?q = ps" using c ok by (simp_all add: ring_ok_def)
  then show ?thesis using ok ne by (intro exI [of _ ?q]) (auto simp: lpop_def ring_ok_def Let_def)
qed

text \<open>The ring as an instance of the queue interface.\<close>

definition np_enq :: "int \<times> u8 list \<Rightarrow> queue \<Rightarrow> queue option" where
  "np_enq x q = push_data (fst x) (snd x) (length (snd x)) (Some q)"

definition np_deq :: "queue \<Rightarrow> ((int \<times> u8 list) option \<times> queue) option" where
  "np_deq q = do { (r, q1) \<leftarrow> lpop (Some q); q2 \<leftarrow> q1; Some (map_option (\<lambda>(fd, d, n). (fd, take n d)) r, q2) }"

definition pack_list :: "queue \<Rightarrow> (int \<times> u8 list) list" where
  "pack_list q = map (\<lambda>p. (np_id p, take (np_size p) (np_buffer p))) (packs q)"

interpretation np: fifo np_enq np_deq pack_list ring_ok
proof unfold_locales
  show "\<exists>q'. np_enq x q = Some q' \<and> ring_ok q' \<and> pack_list q' = pack_list q @ [x]" if "ring_ok q" for q x
    using push_spec [of "Some q" "length (snd x)" "snd x" "fst x"] that by (auto simp: np_enq_def get_queue_def pack_list_def)
  show "\<exists>q'. np_deq q = Some (None, q') \<and> ring_ok q' \<and> pack_list q' = []" if "ring_ok q" "pack_list q = []" for q
    using pop_empty [OF that(1)] that by (auto simp: np_deq_def pack_list_def)
  show "\<exists>q'. np_deq q = Some (Some x, q') \<and> ring_ok q' \<and> pack_list q' = xs" if "ring_ok q" "pack_list q = x # xs" for q x xs
    using pop_cons [OF that(1)] that(2) by (fastforce simp: np_deq_def pack_list_def)
qed


section \<open>The incomplete packets as a map\<close>

abbreviation uc_id :: "uncomplete \<Rightarrow> int" where "uc_id u \<equiv> np_id (uc_pack u)"

definition uc_ok :: "uncomplete \<Rightarrow> bool" where
  "uc_ok u \<longleftrightarrow> uc_read u = - 1 \<or>
     uc_read u = int (length (np_buffer (uc_pack u))) \<and> length (np_buffer (uc_pack u)) < np_size (uc_pack u) \<and> np_size (uc_pack u) < 0x10000"

definition table_ok :: "queue \<Rightarrow> bool" where
  "table_ok q \<longleftrightarrow> length (q_hash q) = HASHSIZE \<and> (\<forall>h < HASHSIZE. distinct (map uc_id (q_hash q ! h)) \<and>
     (\<forall>u \<in> set (q_hash q ! h). hash_fd (uc_id u) = h \<and> uc_ok u))"

definition incomplete :: "queue \<Rightarrow> int \<Rightarrow> uncomplete option" where
  "incomplete q fd = map_of (map (\<lambda>u. (uc_id u, u)) (q_hash q ! hash_fd fd)) fd"

lemma hash_fd_less: "hash_fd fd < HASHSIZE"
  by (simp add: hash_fd_def HASHSIZE_def nat_less_iff)

lemma table_ok_new: "table_ok new_queue" "incomplete new_queue fd = None"
  using hash_fd_less [of fd] by (simp_all add: table_ok_def new_queue_def incomplete_def)

lemma take_id_spec:
  "distinct (map uc_id us) \<Longrightarrow>
   (case take_id fd us of
      None \<Rightarrow> map_of (map (\<lambda>u. (uc_id u, u)) us) fd = None
    | Some (u, vs) \<Rightarrow> map_of (map (\<lambda>u. (uc_id u, u)) us) fd = Some u \<and> uc_id u = fd \<and> u \<in> set us \<and>
        set vs \<subseteq> set us \<and> distinct (map uc_id vs) \<and>
        map_of (map (\<lambda>u. (uc_id u, u)) vs) = (map_of (map (\<lambda>u. (uc_id u, u)) us))(fd := None))"
proof (induction us)
  case Nil
  then show ?case by simp
next
  case (Cons x us)
  show ?case
  proof (cases "uc_id x = fd")
    case True
    then have "map_of (map (\<lambda>u. (uc_id u, u)) us) fd = None" using Cons.prems by (auto simp: map_of_eq_None_iff)
    then show ?thesis using True Cons.prems by (auto simp: fun_upd_idem)
  next
    case False
    have "x \<in> set us \<Longrightarrow> uc_id x \<in> uc_id ` set us" by simp
    then show ?thesis using Cons False
      by (cases "take_id fd us") (auto simp: fun_upd_twist split: prod.splits)
  qed
qed

lemma find_spec:
  assumes "table_ok q"
  shows "\<exists>hs. find_uncomplete fd (Some q) = Some (incomplete q fd, Some (q\<lparr>q_hash := hs\<rparr>)) \<and>
    table_ok (q\<lparr>q_hash := hs\<rparr>) \<and> incomplete (q\<lparr>q_hash := hs\<rparr>) = (incomplete q)(fd := None) \<and>
    (\<forall>u. incomplete q fd = Some u \<longrightarrow> uc_ok u \<and> uc_id u = fd)"
proof -
  let ?h = "hash_fd fd"
  let ?c = "q_hash q ! ?h"
  have h: "?h < length (q_hash q)" "distinct (map uc_id ?c)" "\<forall>u \<in> set ?c. hash_fd (uc_id u) = ?h \<and> uc_ok u"
    using assms hash_fd_less [of fd] by (auto simp: table_ok_def)
  note t = take_id_spec [OF h(2), of fd]
  show ?thesis
  proof (cases "take_id fd ?c")
    case None
    then have "incomplete q fd = None" using t by (simp add: incomplete_def)
    then show ?thesis using None h assms
      by (intro exI [of _ "q_hash q"]) (simp add: find_uncomplete_def fun_upd_idem)
  next
    case (Some x)
    obtain u vs where x: "x = (u, vs)" by fastforce
    let ?q = "q\<lparr>q_hash := (q_hash q)[?h := vs]\<rparr>"
    have i: "incomplete q fd = Some u" "uc_id u = fd" "u \<in> set ?c" "set vs \<subseteq> set ?c" "distinct (map uc_id vs)"
      "map_of (map (\<lambda>u. (uc_id u, u)) vs) = (map_of (map (\<lambda>u. (uc_id u, u)) ?c))(fd := None)"
      using t Some x by (auto simp: incomplete_def)
    have "incomplete ?q f = ((incomplete q)(fd := None)) f" for f
      using h(1) i(6) by (cases "hash_fd f = ?h") (auto simp: incomplete_def)
    then have inc: "incomplete ?q = (incomplete q)(fd := None)" by blast
    have tab: "table_ok ?q"
      using assms h i(4,5) by (auto simp: table_ok_def nth_list_update)
    have f: "find_uncomplete fd (Some q) = Some (incomplete q fd, Some ?q)"
      using Some x h(1) i(1) by (simp add: find_uncomplete_def)
    have "\<forall>v. incomplete q fd = Some v \<longrightarrow> uc_ok v \<and> uc_id v = fd" using i(1-3) h(3) by auto
    then show ?thesis using inc tab f by blast
  qed
qed

lemma insert_uncomplete_spec:
  assumes "table_ok q" and "incomplete q fd = None" and "uc_ok u" and "uc_id u = fd"
  shows "\<exists>hs. insert_uncomplete fd u q = Some (q\<lparr>q_hash := hs\<rparr>) \<and> table_ok (q\<lparr>q_hash := hs\<rparr>) \<and>
    incomplete (q\<lparr>q_hash := hs\<rparr>) = (incomplete q)(fd \<mapsto> u)"
proof -
  let ?h = "hash_fd fd"
  let ?c = "q_hash q ! ?h"
  let ?q = "q\<lparr>q_hash := (q_hash q)[?h := u # ?c]\<rparr>"
  have h: "?h < length (q_hash q)" using assms(1) hash_fd_less [of fd] by (simp add: table_ok_def)
  have "fd \<notin> uc_id ` set ?c" using assms(2) by (force simp: incomplete_def map_of_eq_None_iff)
  then have tab: "table_ok ?q" using assms(1,3,4) h by (auto simp: table_ok_def nth_list_update)
  have "incomplete ?q f = ((incomplete q)(fd \<mapsto> u)) f" for f
    using h assms(4) by (cases "hash_fd f = ?h") (auto simp: incomplete_def)
  then have inc: "incomplete ?q = (incomplete q)(fd \<mapsto> u)" by blast
  have "insert_uncomplete fd u q = Some ?q" using h by (simp add: insert_uncomplete_def)
  then show ?thesis using inc tab by blast
qed


section \<open>Packets of a byte stream\<close>

fun split_packs :: "u8 list \<Rightarrow> u8 list list \<times> u8 list" where
  "split_packs (a # b # s) =
     (let n = unat a * 256 + unat b in
      if length s < n then ([], a # b # s)
      else let (fs, r) = split_packs (drop n s) in (take n s # fs, r))"
| "split_packs s = ([], s)"

definition uc_bytes :: "uncomplete \<Rightarrow> u8 list" where
  "uc_bytes u = (if uc_read u < 0 then [uc_header u] else write_size (np_size (uc_pack u)) @ np_buffer (uc_pack u))"

text \<open>The bytes of \<open>fd\<close> that are held back.\<close>

definition pend :: "queue option \<Rightarrow> int \<Rightarrow> u8 list" where
  "pend q fd = (case incomplete (get_queue q) fd of None \<Rightarrow> [] | Some u \<Rightarrow> uc_bytes u)"

definition queue_ok :: "queue option \<Rightarrow> bool" where
  "queue_ok q \<longleftrightarrow> ring_ok (get_queue q) \<and> table_ok (get_queue q)"

definition queued :: "queue option \<Rightarrow> (int \<times> u8 list) list" where
  "queued q = pack_list (get_queue q)"

lemma get_queue_Some [simp]: "get_queue (Some q) = q" by (simp add: get_queue_def)

lemma get_queue_twice [simp]: "get_queue (Some (get_queue q)) = get_queue q" by simp

lemma write_size_pair: "unat a * 256 + unat b = n \<Longrightarrow> write_size n = [a, b]"
proof -
  assume n: "unat a * 256 + unat b = n"
  have "unat b < 256" using unsigned_less [where ?'a = nat, of b] by simp
  then have "n div 256 = unat a" "n mod 256 = unat b" unfolding n [symmetric] by auto
  then show ?thesis by (simp add: write_size_def)
qed

lemma split_write_size:
  assumes "n < 0x10000"
  shows "split_packs (write_size n @ s) = (if length s < n then ([], write_size n @ s)
     else let (fs, r) = split_packs (drop n s) in (take n s # fs, r))"
proof -
  have "n div 256 < 256" "n mod 256 < 256" using assms by auto
  then have "unat (of_nat (n div 256) :: u8) * 256 + unat (of_nat (n mod 256) :: u8) = n"
    by (simp add: unat_of_nat)
  then show ?thesis by (simp add: write_size_def Let_def)
qed

lemma save_header_spec:
  assumes "queue_ok q" and "pend q fd = []" and "incomplete (get_queue q) fd = None"
  shows "\<exists>q'. save_header fd b q = Some q' \<and> queue_ok (Some q') \<and> queued (Some q') = queued q \<and> pend (Some q') = (pend q)(fd := [b])"
proof -
  let ?u = "\<lparr>uc_pack = \<lparr>np_id = fd, np_size = 0, np_buffer = []\<rparr>, uc_read = - 1, uc_header = b\<rparr>"
  have "uc_ok ?u" by (simp add: uc_ok_def)
  then obtain hs where "insert_uncomplete fd ?u (get_queue q) = Some (get_queue q\<lparr>q_hash := hs\<rparr>)"
    "table_ok (get_queue q\<lparr>q_hash := hs\<rparr>)" "incomplete (get_queue q\<lparr>q_hash := hs\<rparr>) = (incomplete (get_queue q))(fd \<mapsto> ?u)"
    using insert_uncomplete_spec [of "get_queue q" fd ?u] assms by (auto simp: queue_ok_def)
  then show ?thesis using assms(1)
    by (intro exI [of _ "get_queue q\<lparr>q_hash := hs\<rparr>"])
      (auto simp: save_header_def queue_ok_def queued_def pack_list_def pend_def uc_bytes_def fun_eq_iff)
qed

lemma save_data_spec:
  assumes "queue_ok q" and "incomplete (get_queue q) fd = None" and "length d < n" "n < 0x10000"
  shows "\<exists>q'. save_data fd n d q = Some q' \<and> queue_ok (Some q') \<and> queued (Some q') = queued q \<and>
    pend (Some q') = (pend q)(fd := write_size n @ d)"
proof -
  let ?u = "\<lparr>uc_pack = \<lparr>np_id = fd, np_size = n, np_buffer = d\<rparr>, uc_read = int (length d), uc_header = 0\<rparr>"
  have "uc_ok ?u" using assms(3,4) by (simp add: uc_ok_def)
  then obtain hs where "insert_uncomplete fd ?u (get_queue q) = Some (get_queue q\<lparr>q_hash := hs\<rparr>)"
    "table_ok (get_queue q\<lparr>q_hash := hs\<rparr>)" "incomplete (get_queue q\<lparr>q_hash := hs\<rparr>) = (incomplete (get_queue q))(fd \<mapsto> ?u)"
    using insert_uncomplete_spec [of "get_queue q" fd ?u] assms by (auto simp: queue_ok_def)
  then show ?thesis using assms(1)
    by (intro exI [of _ "get_queue q\<lparr>q_hash := hs\<rparr>"])
      (auto simp: save_data_def queue_ok_def queued_def pack_list_def pend_def uc_bytes_def fun_eq_iff)
qed

lemma push_data_spec:
  assumes "queue_ok q"
  shows "\<exists>q'. push_data fd d (length d) q = Some q' \<and> queue_ok (Some q') \<and> queued (Some q') = queued q @ [(fd, d)] \<and>
    incomplete q' = incomplete (get_queue q)"
proof -
  obtain q' where q': "push_data fd d (length d) q = Some q'" "ring_ok q'" "q_hash q' = q_hash (get_queue q)"
    "packs q' = packs (get_queue q) @ [\<lparr>np_id = fd, np_size = length d, np_buffer = take (length d) d\<rparr>]"
    using push_spec [of q "length d" d fd] assms by (auto simp: queue_ok_def)
  then show ?thesis using assms
    by (intro exI [of _ q']) (auto simp: queue_ok_def queued_def pack_list_def table_ok_def incomplete_def)
qed

lemma push_data_take: "n \<le> length d \<Longrightarrow> push_data fd d n q = push_data fd (take n d) (length (take n d)) q"
  by (simp add: push_data_def)

lemma push_more_spec:
  assumes "queue_ok q" and "incomplete (get_queue q) fd = None" and "b \<noteq> []"
  shows "\<exists>q'. push_more fd b q = Some q' \<and> queue_ok (Some q') \<and>
    queued (Some q') = queued q @ map (Pair fd) (fst (split_packs b)) \<and> pend (Some q') = (pend q)(fd := snd (split_packs b))"
  using assms
proof (induction b arbitrary: q rule: split_packs.induct)
  case (1 x y s)
  let ?n = "unat x * 256 + unat y"
  have small: "?n < 0x10000"
    using unsigned_less [where ?'a = nat, of x] unsigned_less [where ?'a = nat, of y] by simp
  have rs: "read_size (x # y # s) = Some ?n" by (simp add: read_size_def)
  show ?case
  proof (cases "length s < ?n")
    case True
    then show ?thesis using save_data_spec [OF 1(2,3) True small] rs write_size_pair [of x y ?n]
      by (subst push_more.simps) simp
  next
    case False
    obtain q1 where q1: "push_data fd s ?n q = Some q1" "queue_ok (Some q1)"
      "queued (Some q1) = queued q @ [(fd, take ?n s)]" "incomplete q1 = incomplete (get_queue q)"
      using push_data_spec [OF 1(2), of fd "take ?n s"] push_data_take [of ?n s fd q] False by auto
    have p1: "pend (Some q1) = pend q" using q1(4) by (simp add: pend_def fun_eq_iff)
    show ?thesis
    proof (cases "drop ?n s = []")
      case True
      have "pend q fd = []" using 1(3) by (simp add: pend_def)
      then have "pend (Some q1) = (pend q)(fd := [])" using p1 by (simp add: fun_upd_idem)
      then show ?thesis using q1 rs False True
        by (subst push_more.simps) (simp add: Let_def)
    next
      case nonempty: False
      obtain q2 where q2: "push_more fd (drop ?n s) (Some q1) = Some q2" "queue_ok (Some q2)"
        "queued (Some q2) = queued (Some q1) @ map (Pair fd) (fst (split_packs (drop ?n s)))"
        "pend (Some q2) = (pend (Some q1))(fd := snd (split_packs (drop ?n s)))"
      proof -
        have "incomplete (get_queue (Some q1)) fd = None" by (simp add: q1(4) 1(3))
        from 1(1) [OF refl False q1(2) this nonempty] that show ?thesis by blast
      qed
      then show ?thesis using q1 p1 rs False nonempty
        by (subst push_more.simps) (auto simp: Let_def split: prod.splits)
    qed
  qed
next
  case "2_1"
  then show ?case by simp
next
  case "2_2"
  then show ?case using save_header_spec [of q fd]
    by (subst push_more.simps) (simp add: pend_def)
qed


text \<open>What a call of the filter has delivered: the packet it returns, or those it has queued.\<close>

definition outcome :: "int \<Rightarrow> u8 list list \<Rightarrow> queue option \<Rightarrow> filter_result \<Rightarrow> queue option \<Rightarrow> bool" where
  "outcome fd fs q res q' \<longleftrightarrow>
     (case res of
        R_none \<Rightarrow> fs = [] \<and> queued q' = queued q
      | R_data fd' d \<Rightarrow> fd' = fd \<and> fs = [d] \<and> queued q' = queued q
      | R_more \<Rightarrow> fs \<noteq> [] \<and> queued q' = queued q @ map (Pair fd) fs
      | _ \<Rightarrow> False)"

lemma find_option_spec:
  assumes "queue_ok q"
  shows "\<exists>q1. find_uncomplete fd q = Some (incomplete (get_queue q) fd, q1) \<and> queue_ok q1 \<and> queued q1 = queued q \<and>
    incomplete (get_queue q1) = (incomplete (get_queue q))(fd := None) \<and> (q1 = None \<longleftrightarrow> q = None) \<and>
    (\<forall>u. incomplete (get_queue q) fd = Some u \<longrightarrow> uc_ok u \<and> uc_id u = fd)"
proof (cases q)
  case None
  have "incomplete (get_queue None) = (incomplete (get_queue None))(fd := None)"
    using table_ok_new(2) by (auto simp: get_queue_def fun_eq_iff)
  then show ?thesis using None assms table_ok_new(2) by (auto simp: find_uncomplete_def get_queue_def)
next
  case (Some r)
  then obtain hs where "find_uncomplete fd q = Some (incomplete r fd, Some (r\<lparr>q_hash := hs\<rparr>))"
    "table_ok (r\<lparr>q_hash := hs\<rparr>)" "incomplete (r\<lparr>q_hash := hs\<rparr>) = (incomplete r)(fd := None)"
    "\<forall>u. incomplete r fd = Some u \<longrightarrow> uc_ok u \<and> uc_id u = fd"
    using find_spec [of r fd] assms by (auto simp: queue_ok_def)
  then show ?thesis using assms Some
    by (intro exI [of _ "Some (r\<lparr>q_hash := hs\<rparr>)"]) (auto simp: queue_ok_def queued_def pack_list_def)
qed

lemma split_packs_two: "length (s :: u8 list) \<noteq> 1 \<Longrightarrow> s \<noteq> [] \<Longrightarrow> \<exists>a b t. s = a # b # t"
  by (cases s rule: split_packs.cases) auto

lemma pend_upd: "incomplete (get_queue q1) = (incomplete (get_queue q))(fd := None) \<Longrightarrow> pend q1 = (pend q)(fd := [])"
  by (simp add: pend_def fun_eq_iff)

lemma filter_fresh:
  assumes "queue_ok q" and "incomplete (get_queue q) fd = None" and "b \<noteq> []"
    and found: "find_uncomplete fd q = Some (None, q1)" "queue_ok q1" "queued q1 = queued q"
      "incomplete (get_queue q1) = (incomplete (get_queue q))(fd := None)"
  shows "\<exists>res q'. filter_data fd b q = Some (res, q') \<and> queue_ok q' \<and> pend q' = (pend q)(fd := snd (split_packs b)) \<and>
    outcome fd (fst (split_packs b)) q res q'"
proof -
  have p1: "pend q1 = (pend q)(fd := [])" by (rule pend_upd [OF found(4)])
  have n1: "incomplete (get_queue q1) fd = None" using found(4) by simp
  show ?thesis
  proof (cases "length b = 1")
    case True
    then obtain x where x: "b = [x]" by (cases b) auto
    obtain q2 where "save_header fd x q1 = Some q2" "queue_ok (Some q2)" "queued (Some q2) = queued q1"
      "pend (Some q2) = (pend q1)(fd := [x])"
      using save_header_spec [OF found(2) _ n1, of x] p1 by auto
    then show ?thesis using x found p1
      by (intro exI [of _ R_none] exI [of _ "Some q2"]) (simp add: filter_data_def outcome_def)
  next
    case False
    then obtain x y s where b: "b = x # y # s" using split_packs_two assms(3) by blast
    let ?n = "unat x * 256 + unat y"
    have small: "?n < 0x10000"
      using unsigned_less [where ?'a = nat, of x] unsigned_less [where ?'a = nat, of y] by simp
    have rs: "read_size b = Some ?n" by (simp add: read_size_def b)
    consider "length s < ?n" | "length s = ?n" | "length s > ?n" by linarith
    then show ?thesis
    proof cases
      case 1
      obtain q2 where "save_data fd ?n s q1 = Some q2" "queue_ok (Some q2)" "queued (Some q2) = queued q1"
        "pend (Some q2) = (pend q1)(fd := write_size ?n @ s)"
        using save_data_spec [OF found(2) n1 1 small] by auto
      then show ?thesis using b rs found p1 1 write_size_pair [of x y ?n]
        by (intro exI [of _ R_none] exI [of _ "Some q2"]) (simp add: filter_data_def outcome_def)
    next
      case 2
      then show ?thesis using b rs found p1
        by (intro exI [of _ "R_data fd s"] exI [of _ q1]) (simp add: filter_data_def outcome_def Let_def)
    next
      case 3
      then have le: "?n \<le> length s" and ne: "drop ?n s \<noteq> []" by auto
      obtain q2 where q2: "push_data fd s ?n q1 = Some q2" "queue_ok (Some q2)"
        "queued (Some q2) = queued q1 @ [(fd, take ?n s)]" "incomplete q2 = incomplete (get_queue q1)"
        using push_data_spec [OF found(2), of fd "take ?n s"] push_data_take [OF le] by auto
      have n2: "incomplete (get_queue (Some q2)) fd = None" using q2(4) n1 by simp
      obtain q3 where q3: "push_more fd (drop ?n s) (Some q2) = Some q3" "queue_ok (Some q3)"
        "queued (Some q3) = queued (Some q2) @ map (Pair fd) (fst (split_packs (drop ?n s)))"
        "pend (Some q3) = (pend (Some q2))(fd := snd (split_packs (drop ?n s)))"
        using push_more_spec [OF q2(2) n2 ne] by blast
      have p2: "pend (Some q2) = pend q1" using q2(4) by (simp add: pend_def fun_eq_iff)
      show ?thesis using b rs found p1 p2 q2 q3 3
        by (intro exI [of _ R_more] exI [of _ "Some q3"])
          (auto simp: filter_data_def outcome_def Let_def split: prod.splits)
    qed
  qed
qed


lemma fill_header_spec:
  assumes "uc_ok u" and "b \<noteq> []"
  shows "\<exists>v d. fill_header u b = Some (v, d) \<and> uc_id v = uc_id u \<and> uc_read v = int (length (np_buffer (uc_pack v))) \<and>
    length (np_buffer (uc_pack v)) \<le> np_size (uc_pack v) \<and> np_size (uc_pack v) < 0x10000 \<and>
    uc_bytes u @ b = write_size (np_size (uc_pack v)) @ np_buffer (uc_pack v) @ d"
proof (cases "uc_read u < 0")
  case True
  then have r: "uc_read u = - 1" using assms(1) by (auto simp: uc_ok_def)
  obtain y ys where b: "b = y # ys" using assms(2) by (cases b) auto
  let ?n = "unat (uc_header u) * 256 + unat y"
  have "?n < 0x10000" using unsigned_less [where ?'a = nat, of "uc_header u"] unsigned_less [where ?'a = nat, of y] by simp
  moreover have "write_size ?n = [uc_header u, y]" by (rule write_size_pair) (rule refl)
  ultimately show ?thesis using r b by (simp add: fill_header_def uc_bytes_def)
next
  case False
  then show ?thesis using assms(1) by (auto simp: fill_header_def uc_bytes_def uc_ok_def)
qed

lemma filter_found:
  assumes "queue_ok q" and u: "incomplete (get_queue q) fd = Some u" "uc_ok u" "uc_id u = fd" and "b \<noteq> []"
    and found: "find_uncomplete fd q = Some (Some u, q1)" "queue_ok q1" "queued q1 = queued q"
      "incomplete (get_queue q1) = (incomplete (get_queue q))(fd := None)" "q1 \<noteq> None"
  shows "\<exists>res q'. filter_data fd b q = Some (res, q') \<and> queue_ok q' \<and> pend q' = (pend q)(fd := snd (split_packs (uc_bytes u @ b))) \<and>
    outcome fd (fst (split_packs (uc_bytes u @ b))) q res q'"
proof -
  have p1: "pend q1 = (pend q)(fd := [])" by (rule pend_upd [OF found(4)])
  have n1: "incomplete (get_queue q1) fd = None" using found(4) by simp
  obtain r1 where r1: "q1 = Some r1" using found(5) by blast
  obtain v d where v: "fill_header u b = Some (v, d)" "uc_id v = fd" "uc_read v = int (length (np_buffer (uc_pack v)))"
    "length (np_buffer (uc_pack v)) \<le> np_size (uc_pack v)" "np_size (uc_pack v) < 0x10000"
    "uc_bytes u @ b = write_size (np_size (uc_pack v)) @ np_buffer (uc_pack v) @ d"
    using fill_header_spec [OF u(2) assms(5)] u(3) by blast
  let ?n = "np_size (uc_pack v)" and ?buf = "np_buffer (uc_pack v)"
  let ?need = "?n - length ?buf"
  note split = split_write_size [OF v(5), of "?buf @ d"]
  show ?thesis
  proof (cases "length d < ?need")
    case True
    have short: "length (?buf @ d) < ?n" using True by simp
    let ?w = "v\<lparr>uc_pack := (uc_pack v)\<lparr>np_buffer := ?buf @ d\<rparr>, uc_read := uc_read v + int (length d)\<rparr>"
    have "uc_ok ?w" using True v(3,5) by (simp add: uc_ok_def)
    moreover have "uc_id ?w = fd" using v(2) by simp
    ultimately obtain hs where ins: "insert_uncomplete fd ?w r1 = Some (r1\<lparr>q_hash := hs\<rparr>)"
      "table_ok (r1\<lparr>q_hash := hs\<rparr>)" "incomplete (r1\<lparr>q_hash := hs\<rparr>) = (incomplete r1)(fd \<mapsto> ?w)"
      using insert_uncomplete_spec [of r1 fd ?w] found(2) n1 r1 by (auto simp: queue_ok_def)
    let ?q' = "Some (r1\<lparr>q_hash := hs\<rparr>)"
    have "uc_bytes ?w = write_size ?n @ ?buf @ d" using v(3) by (simp add: uc_bytes_def)
    then have "pend ?q' = (pend q1)(fd := write_size ?n @ ?buf @ d)"
      using ins(3) r1 by (simp add: pend_def fun_eq_iff)
    moreover have "queue_ok ?q'" "queued ?q' = queued q1"
      using ins(2) found(2) r1 by (simp_all add: queue_ok_def queued_def pack_list_def)
    moreover have "filter_data fd b q = Some (R_none, ?q')"
      using found(1) v(1,3,4) True ins(1) r1 by (simp add: filter_data_def Let_def)
    moreover have "split_packs (uc_bytes u @ b) = ([], write_size ?n @ ?buf @ d)"
      unfolding v(6) split if_P [OF short] by (rule refl)
    ultimately show ?thesis using found(3) p1 by (intro exI [of _ R_none] exI [of _ ?q']) (simp add: outcome_def)
  next
    case False
    let ?full = "?buf @ take ?need d" and ?r = "drop ?need d"
    have long: "\<not> length (?buf @ d) < ?n" using False v(4) by simp
    have full: "take ?n (?buf @ d) = ?full" "drop ?n (?buf @ d) = ?r" "length ?full = ?n" using v(4) False by simp_all
    have sp: "split_packs (uc_bytes u @ b) = (let (fs, r) = split_packs ?r in (?full # fs, r))"
      unfolding v(6) split if_not_P [OF long] full by (rule refl)
    show ?thesis
    proof (cases "?r = []")
      case True
      then have "filter_data fd b q = Some (R_data fd ?full, q1)"
        using found(1) v(1,3,4) False by (simp add: filter_data_def Let_def)
      then show ?thesis using sp True found(2,3) p1
        by (intro exI [of _ "R_data fd ?full"] exI [of _ q1]) (simp add: outcome_def)
    next
      case ne: False
      obtain q2 where q2: "push_data fd ?full ?n q1 = Some q2" "queue_ok (Some q2)"
        "queued (Some q2) = queued q1 @ [(fd, ?full)]" "incomplete q2 = incomplete (get_queue q1)"
        using push_data_spec [OF found(2), of fd ?full] unfolding full(3) by blast
      have n2: "incomplete (get_queue (Some q2)) fd = None" using q2(4) n1 by simp
      obtain q3 where q3: "push_more fd ?r (Some q2) = Some q3" "queue_ok (Some q3)"
        "queued (Some q3) = queued (Some q2) @ map (Pair fd) (fst (split_packs ?r))"
        "pend (Some q3) = (pend (Some q2))(fd := snd (split_packs ?r))"
        using push_more_spec [OF q2(2) n2 ne] by blast
      have p2: "pend (Some q2) = pend q1" using q2(4) by (simp add: pend_def fun_eq_iff)
      have "filter_data fd b q = Some (R_more, Some q3)"
        using found(1) v(1,3,4) False ne q2(1) q3(1) by (simp add: filter_data_def Let_def)
      then show ?thesis using sp found(3) p1 p2 q2(3) q3
        by (intro exI [of _ R_more] exI [of _ "Some q3"]) (auto simp: outcome_def split: prod.splits)
    qed
  qed
qed

lemma filter_cuts:
  assumes "queue_ok q" and "b \<noteq> []"
  shows "\<exists>res q'. filter_data fd b q = Some (res, q') \<and> queue_ok q' \<and>
    pend q' = (pend q)(fd := snd (split_packs (pend q fd @ b))) \<and>
    outcome fd (fst (split_packs (pend q fd @ b))) q res q'"
proof -
  obtain q1 where found: "find_uncomplete fd q = Some (incomplete (get_queue q) fd, q1)" "queue_ok q1"
    "queued q1 = queued q" "incomplete (get_queue q1) = (incomplete (get_queue q))(fd := None)" "q1 = None \<longleftrightarrow> q = None"
    "\<forall>u. incomplete (get_queue q) fd = Some u \<longrightarrow> uc_ok u \<and> uc_id u = fd"
    using find_option_spec [OF assms(1)] by blast
  show ?thesis
  proof (cases "incomplete (get_queue q) fd")
    case None
    have "pend q fd = []" using None by (simp add: pend_def)
    then show ?thesis using filter_fresh [OF assms(1) None assms(2) _ found(2-4)] found(1) None by simp
  next
    case (Some u)
    then have "q \<noteq> None" using table_ok_new(2) by (cases q) (auto simp: get_queue_def)
    then have q1: "q1 \<noteq> None" using found(5) by blast
    have u: "uc_ok u" "uc_id u = fd" using found(6) Some by auto
    have "pend q fd = uc_bytes u" using Some by (simp add: pend_def)
    then show ?thesis using filter_found [OF assms(1) Some u assms(2) _ found(2-4) q1] found(1) Some by simp
  qed
qed

text \<open>
  C18. One call of the filter does to the bytes of its socket what cutting the byte stream does:
  the packets completed are returned or queued, in order; what is left over is held back; the
  other sockets and the packets queued before are untouched; and no call fails.
\<close>

theorem filter_cuts_packets:
  assumes "queue_ok q" and "b \<noteq> []"
  shows "\<exists>res q'. filter_data fd b q = Some (res, q') \<and> queue_ok q' \<and>
    pend q' = (pend q)(fd := snd (split_packs (pend q fd @ b))) \<and>
    outcome fd (fst (split_packs (pend q fd @ b))) q res q'"
  by (rule filter_cuts [OF assms])

lemma filter_cuts_packets_witness:
  "\<exists>res q'. filter_data 7 [0, 1, 65, 0] None = Some (res, q') \<and> queue_ok q' \<and>
    pend q' = (pend None)(7 := snd (split_packs (pend None 7 @ [0, 1, 65, 0]))) \<and>
    outcome 7 (fst (split_packs (pend None 7 @ [0, 1, 65, 0]))) None res q'"
  by (rule filter_cuts_packets) (simp_all add: queue_ok_def get_queue_def ring_ok_new table_ok_new)

section \<open>Packing and filtering\<close>

text \<open>A receiver: it takes the packet a call returns, and empties the queue when there are more.\<close>

partial_function (option) drain :: "queue \<Rightarrow> ((int \<times> u8 list) list \<times> queue) option" where
  "drain q = do {
     (r, q1) \<leftarrow> np_deq q;
     (case r of
        None \<Rightarrow> Some ([], q1)
      | Some x \<Rightarrow> do { (xs, q2) \<leftarrow> drain q1; Some (x # xs, q2) }) }"

fun receive :: "int \<Rightarrow> u8 list list \<Rightarrow> queue option \<Rightarrow> ((int \<times> u8 list) list \<times> queue option) option" where
  "receive fd [] q = Some ([], q)"
| "receive fd (b # bs) q = do {
     (res, q1) \<leftarrow> lfilter (Net_data fd b) q;
     (xs, q2) \<leftarrow> (case res of
         R_data f d \<Rightarrow> Some ([(f, d)], q1)
       | R_more \<Rightarrow> do { r \<leftarrow> q1; (xs, r') \<leftarrow> drain r; Some (xs, Some r') }
       | _ \<Rightarrow> Some ([], q1));
     (ys, q3) \<leftarrow> receive fd bs q2;
     Some (xs @ ys, q3) }"

lemma drain_spec:
  "queue_ok (Some q) \<Longrightarrow> \<exists>q'. drain q = Some (pack_list q, q') \<and> queue_ok (Some q') \<and> queued (Some q') = [] \<and> pend (Some q') = pend (Some q)"
proof (induction "packs q" arbitrary: q)
  case Nil
  then have "np_deq q = Some (None, q)" using pop_empty [of q] by (simp add: np_deq_def queue_ok_def)
  then show ?case using Nil by (subst drain.simps) (simp add: pack_list_def queued_def)
next
  case (Cons p ps)
  obtain q1 where q1: "lpop (Some q) = Some (Some (np_id p, np_buffer p, np_size p), Some q1)" "ring_ok q1" "packs q1 = ps" "q_hash q1 = q_hash q"
    using pop_cons [of q p ps] Cons by (auto simp: queue_ok_def)
  have ok: "queue_ok (Some q1)" using Cons.prems q1 by (simp add: queue_ok_def table_ok_def)
  obtain q2 where q2: "drain q1 = Some (pack_list q1, q2)" "queue_ok (Some q2)" "queued (Some q2) = []" "pend (Some q2) = pend (Some q1)"
    using Cons(1) [OF q1(3) [symmetric] ok] by blast
  have "pend (Some q1) = pend (Some q)" using q1(4) by (simp add: pend_def incomplete_def fun_eq_iff)
  moreover have "drain q = Some (pack_list q, q2)" using q1 q2(1) Cons(2) [symmetric]
    by (subst drain.simps) (simp add: np_deq_def pack_list_def)
  ultimately show ?case using q2 by auto
qed

lemma split_packs_append:
  "split_packs (s @ t) = (fst (split_packs s) @ fst (split_packs (snd (split_packs s) @ t)), snd (split_packs (snd (split_packs s) @ t)))"
proof (induction s rule: split_packs.induct)
  case (1 a b s)
  then show ?case by (auto simp: Let_def split_beta)
qed simp_all

lemma pend_idem: "queue_ok q \<Longrightarrow> split_packs (pend q fd) = ([], pend q fd)"
proof -
  assume "queue_ok q"
  then have "uc_ok u" if "incomplete (get_queue q) fd = Some u" for u
    using find_spec [of "get_queue q" fd] that by (auto simp: queue_ok_def)
  then show ?thesis
    by (auto simp: pend_def uc_bytes_def uc_ok_def split_write_size split: option.splits)
qed

lemma receive_spec:
  "queue_ok q \<Longrightarrow> queued q = [] \<Longrightarrow> [] \<notin> set bs \<Longrightarrow>
   \<exists>q'. receive fd bs q = Some (map (Pair fd) (fst (split_packs (pend q fd @ concat bs))), q') \<and> queue_ok q' \<and>
     pend q' fd = snd (split_packs (pend q fd @ concat bs))"
proof (induction bs arbitrary: q)
  case Nil
  then show ?case by (simp add: pend_idem)
next
  case (Cons b bs)
  let ?p = "split_packs (pend q fd @ b)"
  obtain res q1 where f: "filter_data fd b q = Some (res, q1)" "queue_ok q1" "pend q1 = (pend q)(fd := snd ?p)" "outcome fd (fst ?p) q res q1"
    using filter_cuts [OF Cons.prems(1), of b fd] Cons.prems(3) by auto
  obtain xs q2 where g: "(case res of
         R_data f d \<Rightarrow> Some ([(f, d)], q1)
       | R_more \<Rightarrow> do { r \<leftarrow> q1; (xs, r') \<leftarrow> drain r; Some (xs, Some r') }
       | _ \<Rightarrow> Some ([], q1)) = Some (xs, q2)"
    "xs = map (Pair fd) (fst ?p)" "queue_ok q2" "queued q2 = []" "pend q2 fd = snd ?p"
  proof (cases "res = R_more")
    case True
    then have "queued q1 \<noteq> []" and qs: "queued q1 = map (Pair fd) (fst ?p)" using f(4) Cons.prems(2) by (auto simp: outcome_def)
    moreover have "queued None = []" by (simp add: queued_def get_queue_def pack_list_def ring_ok_new)
    ultimately obtain r where r: "q1 = Some r" by (cases q1) auto
    show thesis using drain_spec [of r] that True f(2,3) r qs by (auto simp: queued_def)
  next
    case False
    then show thesis using that f Cons.prems(2) by (cases res) (auto simp: outcome_def)
  qed
  have s: "split_packs (pend q fd @ concat (b # bs)) =
      (fst ?p @ fst (split_packs (snd ?p @ concat bs)), snd (split_packs (snd ?p @ concat bs)))"
    using split_packs_append [of "pend q fd @ b" "concat bs"] by simp
  obtain q3 where h: "receive fd bs q2 = Some (map (Pair fd) (fst (split_packs (snd ?p @ concat bs))), q3)" "queue_ok q3"
    "pend q3 fd = snd (split_packs (snd ?p @ concat bs))"
    using Cons.IH [OF g(3,4)] Cons.prems(3) g(5) by auto
  have "receive fd (b # bs) q = Some (xs @ map (Pair fd) (fst (split_packs (snd ?p @ concat bs))), q3)"
    unfolding receive.simps lfilter_def using f(1) g(1) h(1) by simp
  then show ?case using g(2) h(2,3) s by auto
qed

lemma split_packed:
  "\<forall>d \<in> set ds. length d < 0x10000 \<Longrightarrow> split_packs (concat (map (\<lambda>d. write_size (length d) @ d) ds)) = (ds, [])"
  by (induction ds) (simp_all add: split_write_size)

lemma lpack_Inr: "lpack d = Inr p \<longleftrightarrow> length d < 0x10000 \<and> p = write_size (length d) @ d"
  by (auto simp: lpack_def)

lemma lpack_all: "map lpack ds = map Inr ps \<Longrightarrow> (\<forall>d \<in> set ds. length d < 0x10000) \<and> ps = map (\<lambda>d. write_size (length d) @ d) ds"
  by (induction ds arbitrary: ps) (auto simp: lpack_Inr Cons_eq_map_conv)

text \<open>
  C19. Packets survive the wire: if the packed messages arrive cut in pieces at any places, a
  receiver that starts with no queue gets exactly the messages, in order, and no byte is left.
\<close>

theorem pack_filter_roundtrip:
  assumes "map lpack ds = map Inr ps" and "concat bs = concat ps" and "[] \<notin> set bs"
  shows "\<exists>q. receive fd bs None = Some (map (Pair fd) ds, q) \<and> pend q fd = []"
proof -
  have sp: "split_packs (concat bs) = (ds, [])" using lpack_all [OF assms(1)] split_packed assms(2) by simp
  have "queue_ok None" "queued None = []" "pend None fd = []"
    by (simp_all add: queue_ok_def queued_def pend_def get_queue_def ring_ok_new table_ok_new pack_list_def)
  then show ?thesis using receive_spec [of None bs fd] assms(3) sp by auto
qed

lemma pack_filter_roundtrip_witness:
  "\<exists>q. receive 9 [[0], [2, 104], [105, 0, 0, 0, 1], [33]] None = Some (map (Pair 9) [[104, 105], [], [33]], q) \<and> pend q 9 = []"
  by (rule pack_filter_roundtrip [where ps = "[[0, 2, 104, 105], [0, 0], [0, 1, 33]]"])
    (simp_all add: lpack_def write_size_def)

end
