(* ===== verification/Des.thy ===== *)
theory Des
  imports Prelude
begin

text \<open>
  The DES cipher of \<^verbatim>\<open>lualib-src/lua-crypt.c\<close>: the tables, the key schedule, the block
  function, the two padding modes and the Lua functions \<open>desencode\<close> and \<open>desdecode\<close>.  A Lua string
  is the list of its bytes, \<open>uint32_t SK[32]\<close> a list of 32 words; a block read outside its string
  is a failure (\<open>None\<close>).
\<close>

section \<open>Tables\<close>

definition SB1 :: "u32 list" where
  "SB1 = [
    0x01010400, 0x00000000, 0x00010000, 0x01010404, 0x01010004, 0x00010404,
    0x00000004, 0x00010000, 0x00000400, 0x01010400, 0x01010404, 0x00000400,
    0x01000404, 0x01010004, 0x01000000, 0x00000004, 0x00000404, 0x01000400,
    0x01000400, 0x00010400, 0x00010400, 0x01010000, 0x01010000, 0x01000404,
    0x00010004, 0x01000004, 0x01000004, 0x00010004, 0x00000000, 0x00000404,
    0x00010404, 0x01000000, 0x00010000, 0x01010404, 0x00000004, 0x01010000,
    0x01010400, 0x01000000, 0x01000000, 0x00000400, 0x01010004, 0x00010000,
    0x00010400, 0x01000004, 0x00000400, 0x00000004, 0x01000404, 0x00010404,
    0x01010404, 0x00010004, 0x01010000, 0x01000404, 0x01000004, 0x00000404,
    0x00010404, 0x01010400, 0x00000404, 0x01000400, 0x01000400, 0x00000000,
    0x00010004, 0x00010400, 0x00000000, 0x01010004]"

definition SB2 :: "u32 list" where
  "SB2 = [
    0x80108020, 0x80008000, 0x00008000, 0x00108020, 0x00100000, 0x00000020,
    0x80100020, 0x80008020, 0x80000020, 0x80108020, 0x80108000, 0x80000000,
    0x80008000, 0x00100000, 0x00000020, 0x80100020, 0x00108000, 0x00100020,
    0x80008020, 0x00000000, 0x80000000, 0x00008000, 0x00108020, 0x80100000,
    0x00100020, 0x80000020, 0x00000000, 0x00108000, 0x00008020, 0x80108000,
    0x80100000, 0x00008020, 0x00000000, 0x00108020, 0x80100020, 0x00100000,
    0x80008020, 0x80100000, 0x80108000, 0x00008000, 0x80100000, 0x80008000,
    0x00000020, 0x80108020, 0x00108020, 0x00000020, 0x00008000, 0x80000000,
    0x00008020, 0x80108000, 0x00100000, 0x80000020, 0x00100020, 0x80008020,
    0x80000020, 0x00100020, 0x00108000, 0x00000000, 0x80008000, 0x00008020,
    0x80000000, 0x80100020, 0x80108020, 0x00108000]"

definition SB3 :: "u32 list" where
  "SB3 = [
    0x00000208, 0x08020200, 0x00000000, 0x08020008, 0x08000200, 0x00000000,
    0x00020208, 0x08000200, 0x00020008, 0x08000008, 0x08000008, 0x00020000,
    0x08020208, 0x00020008, 0x08020000, 0x00000208, 0x08000000, 0x00000008,
    0x08020200, 0x00000200, 0x00020200, 0x08020000, 0x08020008, 0x00020208,
    0x08000208, 0x00020200, 0x00020000, 0x08000208, 0x00000008, 0x08020208,
    0x00000200, 0x08000000, 0x08020200, 0x08000000, 0x00020008, 0x00000208,
    0x00020000, 0x08020200, 0x08000200, 0x00000000, 0x00000200, 0x00020008,
    0x08020208, 0x08000200, 0x08000008, 0x00000200, 0x00000000, 0x08020008,
    0x08000208, 0x00020000, 0x08000000, 0x08020208, 0x00000008, 0x00020208,
    0x00020200, 0x08000008, 0x08020000, 0x08000208, 0x00000208, 0x08020000,
    0x00020208, 0x00000008, 0x08020008, 0x00020200]"

definition SB4 :: "u32 list" where
  "SB4 = [
    0x00802001, 0x00002081, 0x00002081, 0x00000080, 0x00802080, 0x00800081,
    0x00800001, 0x00002001, 0x00000000, 0x00802000, 0x00802000, 0x00802081,
    0x00000081, 0x00000000, 0x00800080, 0x00800001, 0x00000001, 0x00002000,
    0x00800000, 0x00802001, 0x00000080, 0x00800000, 0x00002001, 0x00002080,
    0x00800081, 0x00000001, 0x00002080, 0x00800080, 0x00002000, 0x00802080,
    0x00802081, 0x00000081, 0x00800080, 0x00800001, 0x00802000, 0x00802081,
    0x00000081, 0x00000000, 0x00000000, 0x00802000, 0x00002080, 0x00800080,
    0x00800081, 0x00000001, 0x00802001, 0x00002081, 0x00002081, 0x00000080,
    0x00802081, 0x00000081, 0x00000001, 0x00002000, 0x00800001, 0x00002001,
    0x00802080, 0x00800081, 0x00002001, 0x00002080, 0x00800000, 0x00802001,
    0x00000080, 0x00800000, 0x00002000, 0x00802080]"

definition SB5 :: "u32 list" where
  "SB5 = [
    0x00000100, 0x02080100, 0x02080000, 0x42000100, 0x00080000, 0x00000100,
    0x40000000, 0x02080000, 0x40080100, 0x00080000, 0x02000100, 0x40080100,
    0x42000100, 0x42080000, 0x00080100, 0x40000000, 0x02000000, 0x40080000,
    0x40080000, 0x00000000, 0x40000100, 0x42080100, 0x42080100, 0x02000100,
    0x42080000, 0x40000100, 0x00000000, 0x42000000, 0x02080100, 0x02000000,
    0x42000000, 0x00080100, 0x00080000, 0x42000100, 0x00000100, 0x02000000,
    0x40000000, 0x02080000, 0x42000100, 0x40080100, 0x02000100, 0x40000000,
    0x42080000, 0x02080100, 0x40080100, 0x00000100, 0x02000000, 0x42080000,
    0x42080100, 0x00080100, 0x42000000, 0x42080100, 0x02080000, 0x00000000,
    0x40080000, 0x42000000, 0x00080100, 0x02000100, 0x40000100, 0x00080000,
    0x00000000, 0x40080000, 0x02080100, 0x40000100]"

definition SB6 :: "u32 list" where
  "SB6 = [
    0x20000010, 0x20400000, 0x00004000, 0x20404010, 0x20400000, 0x00000010,
    0x20404010, 0x00400000, 0x20004000, 0x00404010, 0x00400000, 0x20000010,
    0x00400010, 0x20004000, 0x20000000, 0x00004010, 0x00000000, 0x00400010,
    0x20004010, 0x00004000, 0x00404000, 0x20004010, 0x00000010, 0x20400010,
    0x20400010, 0x00000000, 0x00404010, 0x20404000, 0x00004010, 0x00404000,
    0x20404000, 0x20000000, 0x20004000, 0x00000010, 0x20400010, 0x00404000,
    0x20404010, 0x00400000, 0x00004010, 0x20000010, 0x00400000, 0x20004000,
    0x20000000, 0x00004010, 0x20000010, 0x20404010, 0x00404000, 0x20400000,
    0x00404010, 0x20404000, 0x00000000, 0x20400010, 0x00000010, 0x00004000,
    0x20400000, 0x00404010, 0x00004000, 0x00400010, 0x20004010, 0x00000000,
    0x20404000, 0x20000000, 0x00400010, 0x20004010]"

definition SB7 :: "u32 list" where
  "SB7 = [
    0x00200000, 0x04200002, 0x04000802, 0x00000000, 0x00000800, 0x04000802,
    0x00200802, 0x04200800, 0x04200802, 0x00200000, 0x00000000, 0x04000002,
    0x00000002, 0x04000000, 0x04200002, 0x00000802, 0x04000800, 0x00200802,
    0x00200002, 0x04000800, 0x04000002, 0x04200000, 0x04200800, 0x00200002,
    0x04200000, 0x00000800, 0x00000802, 0x04200802, 0x00200800, 0x00000002,
    0x04000000, 0x00200800, 0x04000000, 0x00200800, 0x00200000, 0x04000802,
    0x04000802, 0x04200002, 0x04200002, 0x00000002, 0x00200002, 0x04000000,
    0x04000800, 0x00200000, 0x04200800, 0x00000802, 0x00200802, 0x04200800,
    0x00000802, 0x04000002, 0x04200802, 0x04200000, 0x00200800, 0x00000000,
    0x00000002, 0x04200802, 0x00000000, 0x00200802, 0x04200000, 0x00000800,
    0x04000002, 0x04000800, 0x00000800, 0x00200002]"

definition SB8 :: "u32 list" where
  "SB8 = [
    0x10001040, 0x00001000, 0x00040000, 0x10041040, 0x10000000, 0x10001040,
    0x00000040, 0x10000000, 0x00040040, 0x10040000, 0x10041040, 0x00041000,
    0x10041000, 0x00041040, 0x00001000, 0x00000040, 0x10040000, 0x10000040,
    0x10001000, 0x00001040, 0x00041000, 0x00040040, 0x10040040, 0x10041000,
    0x00001040, 0x00000000, 0x00000000, 0x10040040, 0x10000040, 0x10001000,
    0x00041040, 0x00040000, 0x00041040, 0x00040000, 0x10041000, 0x00001000,
    0x00000040, 0x10040040, 0x00001000, 0x00041040, 0x10001000, 0x00000040,
    0x10000040, 0x10040000, 0x10040040, 0x10000000, 0x00040000, 0x10001040,
    0x00000000, 0x10041040, 0x00040040, 0x10000040, 0x10040000, 0x10001000,
    0x10001040, 0x00000000, 0x10041040, 0x00041000, 0x00041000, 0x00001040,
    0x00001040, 0x00040040, 0x10000000, 0x10041000]"

text \<open>The bit swaps of the first permuted choice.\<close>

definition LHs :: "u32 list" where
  "LHs = [
    0x00000000, 0x00000001, 0x00000100, 0x00000101, 0x00010000, 0x00010001,
    0x00010100, 0x00010101, 0x01000000, 0x01000001, 0x01000100, 0x01000101,
    0x01010000, 0x01010001, 0x01010100, 0x01010101]"

definition RHs :: "u32 list" where
  "RHs = [
    0x00000000, 0x01000000, 0x00010000, 0x01010000, 0x00000100, 0x01000100,
    0x00010100, 0x01010100, 0x00000001, 0x01000001, 0x00010001, 0x01010001,
    0x00000101, 0x01000101, 0x00010101, 0x01010101]"

section \<open>Bytes and words\<close>

definition get_uint32 :: "u8 list \<Rightarrow> nat \<Rightarrow> u32" where
  "get_uint32 b i = push_bit 24 (ucast (b ! i)) OR push_bit 16 (ucast (b ! (i + 1))) OR
     push_bit 8 (ucast (b ! (i + 2))) OR ucast (b ! (i + 3))"

definition put_uint32 :: "u32 \<Rightarrow> u8 list" where
  "put_uint32 n = [ucast (drop_bit 24 n), ucast (drop_bit 16 n), ucast (drop_bit 8 n), ucast n]"

section \<open>The block function\<close>

text \<open>One line of the permutations: \<open>T = ((A >> n) ^ B) & m; B ^= T; A ^= (T << n)\<close>.\<close>

definition delta_swap :: "nat \<Rightarrow> u32 \<Rightarrow> u32 \<times> u32 \<Rightarrow> u32 \<times> u32" where
  "delta_swap n m = (\<lambda>(a, b). let t = (drop_bit n a XOR b) AND m in (a XOR push_bit n t, b XOR t))"

text \<open>\<open>(A << n) | (A >> (32 - n))\<close>.\<close>

definition rot_left :: "nat \<Rightarrow> u32 \<Rightarrow> u32" where
  "rot_left n a = push_bit n a OR drop_bit (32 - n) a"

definition DES_IP :: "u32 \<times> u32 \<Rightarrow> u32 \<times> u32" where
  "DES_IP = (\<lambda>(x0, y0).
     let (x1, y1) = delta_swap 4 0x0F0F0F0F (x0, y0);
         (x2, y2) = delta_swap 16 0x0000FFFF (x1, y1);
         (y3, x3) = delta_swap 2 0x33333333 (y2, x2);
         (y4, x4) = delta_swap 8 0x00FF00FF (y3, x3);
         y5 = rot_left 1 y4;
         (x6, y6) = delta_swap 0 0xAAAAAAAA (x4, y5)
     in (rot_left 1 x6, y6))"

definition DES_FP :: "u32 \<times> u32 \<Rightarrow> u32 \<times> u32" where
  "DES_FP = (\<lambda>(x0, y0).
     let x1 = rot_left 31 x0;
         (x2, y2) = delta_swap 0 0xAAAAAAAA (x1, y0);
         y3 = rot_left 31 y2;
         (y4, x4) = delta_swap 8 0x00FF00FF (y3, x2);
         (y5, x5) = delta_swap 2 0x33333333 (y4, x4);
         (x6, y6) = delta_swap 16 0x0000FFFF (x5, y5)
     in delta_swap 4 0x0F0F0F0F (x6, y6))"

definition sbox :: "u32 list \<Rightarrow> nat \<Rightarrow> u32 \<Rightarrow> u32" where
  "sbox sb n t = sb ! unat (drop_bit n t AND 0x3F)"

text \<open>The new value of \<open>Y\<close>, with the two keys it takes from \<open>SK\<close>.\<close>

definition DES_ROUND :: "u32 \<Rightarrow> u32 \<Rightarrow> u32 \<Rightarrow> u32 \<Rightarrow> u32" where
  "DES_ROUND sk1 sk2 x y =
     (let t = sk1 XOR x;
          y1 = y XOR (sbox SB8 0 t XOR sbox SB6 8 t XOR sbox SB4 16 t XOR sbox SB2 24 t);
          t2 = sk2 XOR (push_bit 28 x OR drop_bit 4 x)
      in y1 XOR (sbox SB7 0 t2 XOR sbox SB5 8 t2 XOR sbox SB3 16 t2 XOR sbox SB1 24 t2))"

fun des_rounds :: "u32 list \<Rightarrow> u32 \<times> u32 \<Rightarrow> u32 \<times> u32" where
  "des_rounds (k1 # k2 # k3 # k4 # sk) (x, y) =
     (let x1 = DES_ROUND k1 k2 y x;
          y1 = DES_ROUND k3 k4 x1 y
      in des_rounds sk (x1, y1))"
| "des_rounds _ p = p"

definition des_crypt :: "u32 list \<Rightarrow> u8 list \<Rightarrow> u8 list" where
  "des_crypt sk input =
     (let (x, y) = des_rounds sk (DES_IP (get_uint32 input 0, get_uint32 input 4));
          (y', x') = DES_FP (y, x)
      in put_uint32 y' @ put_uint32 x')"

section \<open>The key schedule\<close>

definition rot_key :: "nat \<Rightarrow> u32 \<Rightarrow> u32" where
  "rot_key n x = (push_bit n x OR drop_bit (28 - n) x) AND 0x0FFFFFFF"

definition subkey1 :: "u32 \<Rightarrow> u32 \<Rightarrow> u32" where
  "subkey1 x y =
     (push_bit 4 x AND 0x24000000) OR (push_bit 28 x AND 0x10000000) OR
     (push_bit 14 x AND 0x08000000) OR (push_bit 18 x AND 0x02080000) OR
     (push_bit 6 x AND 0x01000000) OR (push_bit 9 x AND 0x00200000) OR
     (drop_bit 1 x AND 0x00100000) OR (push_bit 10 x AND 0x00040000) OR
     (push_bit 2 x AND 0x00020000) OR (drop_bit 10 x AND 0x00010000) OR
     (drop_bit 13 y AND 0x00002000) OR (drop_bit 4 y AND 0x00001000) OR
     (push_bit 6 y AND 0x00000800) OR (drop_bit 1 y AND 0x00000400) OR
     (drop_bit 14 y AND 0x00000200) OR (y AND 0x00000100) OR
     (drop_bit 5 y AND 0x00000020) OR (drop_bit 10 y AND 0x00000010) OR
     (drop_bit 3 y AND 0x00000008) OR (drop_bit 18 y AND 0x00000004) OR
     (drop_bit 26 y AND 0x00000002) OR (drop_bit 24 y AND 0x00000001)"

definition subkey2 :: "u32 \<Rightarrow> u32 \<Rightarrow> u32" where
  "subkey2 x y =
     (push_bit 15 x AND 0x20000000) OR (push_bit 17 x AND 0x10000000) OR
     (push_bit 10 x AND 0x08000000) OR (push_bit 22 x AND 0x04000000) OR
     (drop_bit 2 x AND 0x02000000) OR (push_bit 1 x AND 0x01000000) OR
     (push_bit 16 x AND 0x00200000) OR (push_bit 11 x AND 0x00100000) OR
     (push_bit 3 x AND 0x00080000) OR (drop_bit 6 x AND 0x00040000) OR
     (push_bit 15 x AND 0x00020000) OR (drop_bit 4 x AND 0x00010000) OR
     (drop_bit 2 y AND 0x00002000) OR (push_bit 8 y AND 0x00001000) OR
     (drop_bit 14 y AND 0x00000808) OR (drop_bit 9 y AND 0x00000400) OR
     (y AND 0x00000200) OR (push_bit 7 y AND 0x00000100) OR
     (drop_bit 7 y AND 0x00000020) OR (drop_bit 3 y AND 0x00000011) OR
     (push_bit 2 y AND 0x00000004) OR (drop_bit 21 y AND 0x00000002)"

text \<open>\<open>n\<close> more rounds, starting with round \<open>i\<close>.\<close>

fun ks_loop :: "nat \<Rightarrow> nat \<Rightarrow> u32 \<Rightarrow> u32 \<Rightarrow> u32 list" where
  "ks_loop 0 i x y = []"
| "ks_loop (Suc n) i x y =
     (let s = (if i < 2 \<or> i = 8 \<or> i = 15 then 1 else 2);
          x1 = rot_key s x;
          y1 = rot_key s y
      in subkey1 x1 y1 # subkey2 x1 y1 # ks_loop n (i + 1) x1 y1)"

definition pc1_left :: "u32 \<Rightarrow> u32" where
  "pc1_left x =
     push_bit 3 (LHs ! unat (x AND 0xF)) OR push_bit 2 (LHs ! unat (drop_bit 8 x AND 0xF)) OR
     push_bit 1 (LHs ! unat (drop_bit 16 x AND 0xF)) OR (LHs ! unat (drop_bit 24 x AND 0xF)) OR
     push_bit 7 (LHs ! unat (drop_bit 5 x AND 0xF)) OR push_bit 6 (LHs ! unat (drop_bit 13 x AND 0xF)) OR
     push_bit 5 (LHs ! unat (drop_bit 21 x AND 0xF)) OR push_bit 4 (LHs ! unat (drop_bit 29 x AND 0xF))"

definition pc1_right :: "u32 \<Rightarrow> u32" where
  "pc1_right y =
     push_bit 3 (RHs ! unat (drop_bit 1 y AND 0xF)) OR push_bit 2 (RHs ! unat (drop_bit 9 y AND 0xF)) OR
     push_bit 1 (RHs ! unat (drop_bit 17 y AND 0xF)) OR (RHs ! unat (drop_bit 25 y AND 0xF)) OR
     push_bit 7 (RHs ! unat (drop_bit 4 y AND 0xF)) OR push_bit 6 (RHs ! unat (drop_bit 12 y AND 0xF)) OR
     push_bit 5 (RHs ! unat (drop_bit 20 y AND 0xF)) OR push_bit 4 (RHs ! unat (drop_bit 28 y AND 0xF))"

definition des_main_ks :: "u8 list \<Rightarrow> u32 list" where
  "des_main_ks key =
     (let (y1, x1) = delta_swap 4 0x0F0F0F0F (get_uint32 key 4, get_uint32 key 0);
          (y2, x2) = delta_swap 0 0x10101010 (y1, x1)
      in ks_loop 16 0 (pc1_left x2 AND 0x0FFFFFFF) (pc1_right y2 AND 0x0FFFFFFF))"

section \<open>Padding\<close>

text \<open>What the Lua functions raise.\<close>

datatype des_error = Invalid_key_size | Invalid_padding_mode | Invalid_padding | Invalid_text_length | Invalid_text

definition PADDING_MODE_COUNT :: int where "PADDING_MODE_COUNT = 2"

definition padding_add_iso7816_4 :: "u8 list \<Rightarrow> nat \<Rightarrow> u8 list" where
  "padding_add_iso7816_4 buf offset = take offset buf @ [0x80] @ replicate (7 - offset) 0"

text \<open>The bytes are read backwards from the last one, at most eight of them.\<close>

fun iso7816_4_scan :: "nat \<Rightarrow> u8 list \<Rightarrow> int \<Rightarrow> int option" where
  "iso7816_4_scan 0 bytes padding = Some 0"
| "iso7816_4_scan (Suc i) [] padding = None"
| "iso7816_4_scan (Suc i) (b # bytes) padding =
     (if b = 0 then iso7816_4_scan i bytes (padding + 1)
      else if b = 0x80 then Some padding
      else Some 0)"

definition padding_remove_iso7816_4 :: "u8 list \<Rightarrow> int option" where
  "padding_remove_iso7816_4 bytes = iso7816_4_scan 8 bytes 1"

definition padding_add_pkcs7 :: "u8 list \<Rightarrow> nat \<Rightarrow> u8 list" where
  "padding_add_pkcs7 buf offset = take offset buf @ replicate (8 - offset) (of_nat (8 - offset))"

fun pkcs7_scan :: "nat \<Rightarrow> u8 list \<Rightarrow> u8 \<Rightarrow> bool option" where
  "pkcs7_scan 0 bytes padding = Some True"
| "pkcs7_scan (Suc i) [] padding = None"
| "pkcs7_scan (Suc i) (b # bytes) padding = (if b \<noteq> padding then Some False else pkcs7_scan i bytes padding)"

definition padding_remove_pkcs7 :: "u8 list \<Rightarrow> int option" where
  "padding_remove_pkcs7 bytes =
     (case bytes of
        [] \<Rightarrow> None
      | padding # rest \<Rightarrow> do {
          ok \<leftarrow> pkcs7_scan (unat padding - 1) rest padding;
          Some (if ok then int (unat padding) else 0) })"

definition padding_add_func :: "(u8 list \<Rightarrow> nat \<Rightarrow> u8 list) list" where
  "padding_add_func = [padding_add_iso7816_4, padding_add_pkcs7]"

definition padding_remove_func :: "(u8 list \<Rightarrow> int option) list" where
  "padding_remove_func = [padding_remove_iso7816_4, padding_remove_pkcs7]"

definition check_padding_mode :: "int \<Rightarrow> bool" where
  "check_padding_mode mode \<longleftrightarrow> \<not> (mode < 0 \<or> mode \<ge> PADDING_MODE_COUNT)"

definition add_padding :: "u8 list \<Rightarrow> int \<Rightarrow> int \<Rightarrow> (des_error + u8 list) option" where
  "add_padding src offset mode =
     (if \<not> check_padding_mode mode then Some (Inl Invalid_padding_mode)
      else if offset \<ge> 8 then Some (Inl Invalid_padding)
      else do {
        assert_that (0 \<le> offset \<and> nat offset \<le> length src);
        f \<leftarrow> arr_get padding_add_func (nat mode);
        Some (Inr (f src (nat offset))) })"

definition remove_padding :: "u8 list \<Rightarrow> int \<Rightarrow> (des_error + int) option" where
  "remove_padding bytes mode =
     (if \<not> check_padding_mode mode then Some (Inl Invalid_padding_mode)
      else do {
        f \<leftarrow> arr_get padding_remove_func (nat mode);
        padding \<leftarrow> f bytes;
        Some (Inr padding) })"

section \<open>Encryption of strings\<close>

definition des_key :: "u8 list \<Rightarrow> des_error + u32 list" where
  "des_key key = (if length key \<noteq> 8 then Inl Invalid_key_size else Inr (des_main_ks key))"

definition get_block :: "u8 list \<Rightarrow> int \<Rightarrow> u8 list option" where
  "get_block text i = (if 0 \<le> i \<and> nat i + 8 \<le> length text then Some (take 8 (drop (nat i) text)) else None)"

text \<open>The value of the \<open>int\<close> expression \<open>(int)(textsz - d)\<close>.\<close>

definition int_size :: "nat \<Rightarrow> nat \<Rightarrow> int" where
  "int_size textsz d = sint (ucast (of_nat textsz - of_nat d :: u64) :: u32)"

partial_function (option) crypt_loop :: "u32 list \<Rightarrow> u8 list \<Rightarrow> int \<Rightarrow> int \<Rightarrow> u8 list \<Rightarrow> (int \<times> u8 list) option" where
  "crypt_loop sk text bound i buffer =
     (if i < bound then do {
        b \<leftarrow> get_block text i;
        i1 \<leftarrow> int_range (i + 8);
        crypt_loop sk text bound i1 (buffer @ des_crypt sk b) }
      else Some (i, buffer))"

definition ldesencode :: "u8 list \<Rightarrow> u8 list \<Rightarrow> int \<Rightarrow> (des_error + u8 list) option" where
  "ldesencode key text padding_mode =
     (case des_key key of
        Inl e \<Rightarrow> Some (Inl e)
      | Inr sk \<Rightarrow> do {
          let chunksz = (length text + 8) div 8 * 8;
          (i, buffer) \<leftarrow> crypt_loop sk text (int_size (length text) 7) 0 [];
          padded \<leftarrow> add_padding (drop (nat i) text) (int_size (length text) (nat i)) padding_mode;
          (case padded of
             Inl e \<Rightarrow> Some (Inl e)
           | Inr tail \<Rightarrow> do {
               let out = buffer @ des_crypt sk tail;
               assert_that (length out = chunksz);
               Some (Inr out) }) })"

definition reverse_keys :: "u32 list \<Rightarrow> u32 list" where
  "reverse_keys esk = concat (map (\<lambda>i. [esk ! (30 - 2 * i), esk ! (31 - 2 * i)]) [0..<16])"

definition ldesdecode :: "u8 list \<Rightarrow> u8 list \<Rightarrow> int \<Rightarrow> (des_error + u8 list) option" where
  "ldesdecode key text padding_mode =
     (case des_key key of
        Inl e \<Rightarrow> Some (Inl e)
      | Inr esk \<Rightarrow>
          if length text mod 8 \<noteq> 0 \<or> length text = 0 then Some (Inl Invalid_text_length)
          else do {
            (i, buffer) \<leftarrow> crypt_loop (reverse_keys esk) text (int_size (length text) 0) 0 [];
            assert_that (length buffer = length text);
            removed \<leftarrow> remove_padding (rev buffer) padding_mode;
            Some (case removed of
                Inl e \<Rightarrow> Inl e
              | Inr padding \<Rightarrow>
                  if padding \<le> 0 \<or> padding > 8 then Inl Invalid_text
                  else Inr (take (length text - nat padding) buffer)) })"

section \<open>The permutations are inverse to each other\<close>

lemma delta_swap_twice:
  assumes "m AND mask (32 - n) = m"
  shows "delta_swap n m (delta_swap n m p) = p"
proof -
  obtain a b where p: "p = (a, b)" by fastforce
  define t where "t = (drop_bit n a XOR b) AND m"
  have k: "bit m k \<Longrightarrow> n + k < 32" for k using arg_cong [OF assms, of "\<lambda>w. bit w k"] by (auto simp: bit_simps)
  then have shift: "drop_bit n (push_bit n t) = t" by (intro bit_word_eqI) (auto simp: t_def bit_simps dest: k)
  have "drop_bit n (a XOR push_bit n t) XOR (b XOR t) = drop_bit n a XOR b"
    by (simp add: drop_bit_xor shift xor.assoc xor.left_commute [of t b t])
  then have t2: "(drop_bit n (a XOR push_bit n t) XOR (b XOR t)) AND m = t" by (simp add: t_def)
  have "delta_swap n m p = (a XOR push_bit n t, b XOR t)" by (simp only: p delta_swap_def prod.case Let_def t_def)
  moreover have "delta_swap n m (a XOR push_bit n t, b XOR t) = ((a XOR push_bit n t) XOR push_bit n t, (b XOR t) XOR t)"
    by (simp only: delta_swap_def prod.case Let_def t2)
  ultimately show ?thesis by (simp add: p xor.assoc)
qed

lemmas delta_swaps = delta_swap_twice [of "0x0F0F0F0F" 4] delta_swap_twice [of "0x0000FFFF" 16]
  delta_swap_twice [of "0x33333333" 2] delta_swap_twice [of "0x00FF00FF" 8] delta_swap_twice [of "0xAAAAAAAA" 0]

lemma rot_left_back:
  assumes "n + m = 32"
  shows "rot_left n (rot_left m x) = x"
proof (rule bit_word_eqI)
  fix j
  assume j: "j < LENGTH(32)"
  show "bit (rot_left n (rot_left m x)) j \<longleftrightarrow> bit x j"
  proof (cases "n \<le> j")
    case True
    then have "32 - m + (j - n) = j" "32 + (j - n) - m = j" "\<not> j - n \<ge> m" "j - n < 32" using assms j by simp_all
    then show ?thesis using True j assms by (auto simp: rot_left_def bit_simps)
  next
    case False
    then have "32 - n + j - m = j" "32 - n + j \<ge> m" "32 - n + j < 32" using assms j by simp_all
    then show ?thesis using False j assms by (auto simp: rot_left_def bit_simps)
  qed
qed

lemma delta_swap_pair: "m AND mask (32 - n) = m \<Longrightarrow> delta_swap n m p = q \<Longrightarrow> delta_swap n m q = p"
  using delta_swap_twice by blast

lemmas delta_swap_back = delta_swap_pair [of "0x0F0F0F0F" 4, simplified mask_eq_exp_minus_1, simplified]
  delta_swap_pair [of "0x0000FFFF" 16, simplified mask_eq_exp_minus_1, simplified]
  delta_swap_pair [of "0x33333333" 2, simplified mask_eq_exp_minus_1, simplified]
  delta_swap_pair [of "0x00FF00FF" 8, simplified mask_eq_exp_minus_1, simplified]
  delta_swap_pair [of "0xAAAAAAAA" 0, simplified mask_eq_exp_minus_1, simplified]

lemma IP_FP: "DES_IP (DES_FP (x0, y0)) = (x0, y0)"
proof -
  obtain x2 y2 where 2: "delta_swap 0 0xAAAAAAAA (rot_left 31 x0, y0) = (x2, y2)" by fastforce
  obtain y4 x4 where 4: "delta_swap 8 0x00FF00FF (rot_left 31 y2, x2) = (y4, x4)" by fastforce
  obtain y5 x5 where 5: "delta_swap 2 0x33333333 (y4, x4) = (y5, x5)" by fastforce
  obtain x6 y6 where 6: "delta_swap 16 0x0000FFFF (x5, y5) = (x6, y6)" by fastforce
  obtain x7 y7 where 7: "delta_swap 4 0x0F0F0F0F (x6, y6) = (x7, y7)" by fastforce
  show ?thesis
    using delta_swap_back(5) [OF 2] delta_swap_back(4) [OF 4] delta_swap_back(3) [OF 5]
      delta_swap_back(2) [OF 6] delta_swap_back(1) [OF 7]
    by (simp add: DES_FP_def DES_IP_def Let_def 2 4 5 6 7 rot_left_back del: One_nat_def)
qed

lemma FP_IP: "DES_FP (DES_IP (x0, y0)) = (x0, y0)"
proof -
  obtain x1 y1 where 1: "delta_swap 4 0x0F0F0F0F (x0, y0) = (x1, y1)" by fastforce
  obtain x2 y2 where 2: "delta_swap 16 0x0000FFFF (x1, y1) = (x2, y2)" by fastforce
  obtain y3 x3 where 3: "delta_swap 2 0x33333333 (y2, x2) = (y3, x3)" by fastforce
  obtain y4 x4 where 4: "delta_swap 8 0x00FF00FF (y3, x3) = (y4, x4)" by fastforce
  obtain x6 y6 where 6: "delta_swap 0 0xAAAAAAAA (x4, rot_left 1 y4) = (x6, y6)" by fastforce
  show ?thesis
    using delta_swap_back(5) [OF 6] delta_swap_back(4) [OF 4] delta_swap_back(3) [OF 3]
      delta_swap_back(2) [OF 2] delta_swap_back(1) [OF 1]
    by (simp add: DES_FP_def DES_IP_def Let_def 1 2 3 4 6 rot_left_back del: One_nat_def)
qed

section \<open>The rounds undo themselves\<close>

lemma round_xor: "DES_ROUND k1 k2 x y = y XOR DES_ROUND k1 k2 x 0"
  by (simp add: DES_ROUND_def Let_def xor.assoc)

lemma round_twice: "DES_ROUND k1 k2 x (DES_ROUND k1 k2 x y) = y"
  by (subst (1 2) round_xor) (simp add: xor.assoc)

lemma dvd_length_four: "4 dvd length (a # b # c # d # xs) \<longleftrightarrow> 4 dvd length xs"
proof -
  have "length (a # b # c # d # xs) = length xs + 4" by simp
  then show ?thesis by (simp only: dvd_add_triv_right_iff)
qed

lemma des_rounds_append: "4 dvd length a \<Longrightarrow> des_rounds (a @ b) p = des_rounds b (des_rounds a p)"
proof (induction a p rule: des_rounds.induct)
  case (1 k1 k2 k3 k4 sk x y)
  have "4 dvd length sk" using 1(2) unfolding dvd_length_four .
  then show ?case using 1(1) by (simp add: Let_def)
qed (auto dest: dvd_imp_le)

text \<open>The key pairs in reverse order.\<close>

fun rev_pairs :: "u32 list \<Rightarrow> u32 list" where
  "rev_pairs (k1 # k2 # ks) = rev_pairs ks @ [k1, k2]"
| "rev_pairs _ = []"

lemma length_rev_pairs: "even (length sk) \<Longrightarrow> length (rev_pairs sk) = length sk"
  by (induction sk rule: rev_pairs.induct) auto

lemma des_rounds_back:
  "4 dvd length sk \<Longrightarrow> des_rounds sk (x, y) = (x', y') \<Longrightarrow> des_rounds (rev_pairs sk) (y', x') = (y, x)"
proof (induction sk "(x, y)" arbitrary: x y rule: des_rounds.induct)
  case (1 k1 k2 k3 k4 sk x y)
  let ?x1 = "DES_ROUND k1 k2 y x" and ?y1 = "DES_ROUND k3 k4 (DES_ROUND k1 k2 y x) y"
  have dvd: "4 dvd length sk" using 1(2) unfolding dvd_length_four .
  then have "even (length sk)" by (metis dvd_trans even_numeral)
  then have len: "4 dvd length (rev_pairs sk)" using dvd by (simp add: length_rev_pairs)
  have "des_rounds (rev_pairs sk) (y', x') = (?y1, ?x1)"
    using 1(1) [OF refl refl dvd] 1(3) by (simp add: Let_def)
  then show ?case by (simp add: des_rounds_append [OF len] Let_def round_twice)
qed (auto dest: dvd_imp_le)

lemma reverse_keys_eq:
  assumes "length esk = 32"
  shows "reverse_keys esk = rev_pairs esk"
proof -
  have "map (\<lambda>i. esk ! i) [0..<32] = esk" using assms by (simp add: map_nth [of esk, unfolded assms])
  then have e: "esk = map (\<lambda>i. esk ! i) [0..<32]" by simp
  show ?thesis unfolding reverse_keys_def by (subst (3) e) (simp add: upt_rec, simp add: numeral_eq_Suc)
qed

lemma length_ks_loop: "length (ks_loop n i x y) = 2 * n"
  by (induction n arbitrary: i x y) (simp_all add: Let_def)

lemma length_des_main_ks: "length (des_main_ks key) = 32"
  by (simp add: des_main_ks_def split_beta length_ks_loop)

section \<open>Blocks\<close>

lemma bit_u8_high: "\<not> bit (b :: u8) (8 + n)" "\<not> bit (b :: u8) (16 + n)" "\<not> bit (b :: u8) (24 + n)"
  by (auto dest: bit_imp_le_length)

lemma put_quad:
  "put_uint32 (push_bit 24 (ucast a) OR push_bit 16 (ucast b) OR push_bit 8 (ucast c) OR ucast d) = [a, b, c, d]"
  unfolding put_uint32_def
  by (auto intro!: bit_word_eqI simp: bit_simps bit_u8_high)

lemma quad_word:
  "push_bit 24 (ucast (ucast (drop_bit 24 x) :: u8)) OR push_bit 16 (ucast (ucast (drop_bit 16 x) :: u8)) OR
   push_bit 8 (ucast (ucast (drop_bit 8 x) :: u8)) OR ucast (ucast x :: u8) = (x :: u32)"
  (is "?w = x")
proof (rule bit_word_eqI)
  fix n
  assume "n < LENGTH(32)"
  then consider "n < 8" | "8 \<le> n" "n < 16" | "16 \<le> n" "n < 24" | "24 \<le> n" "n < 32" by fastforce
  then show "bit ?w n \<longleftrightarrow> bit x n"
    by cases (auto simp: bit_simps)
qed

lemma get_put: "get_uint32 (put_uint32 x @ r) 0 = x" "get_uint32 (put_uint32 x @ put_uint32 y) 4 = y"
  using quad_word [of x] quad_word [of y] by (simp_all add: get_uint32_def put_uint32_def)

lemma put_get:
  assumes "length b = 8"
  shows "put_uint32 (get_uint32 b 0) @ put_uint32 (get_uint32 b 4) = b"
proof -
  obtain a0 a1 a2 a3 a4 a5 a6 a7 where "b = [a0, a1, a2, a3, a4, a5, a6, a7]"
    using assms by (auto simp: length_Suc_conv numeral_eq_Suc)
  then show ?thesis by (simp add: get_uint32_def put_quad)
qed

lemma length_des_crypt [simp]: "length (des_crypt sk b) = 8"
  by (simp add: des_crypt_def split_beta put_uint32_def)

lemma des_crypt_parts:
  assumes "des_rounds sk (DES_IP (get_uint32 b 0, get_uint32 b 4)) = (x, y)"
  shows "(get_uint32 (des_crypt sk b) 0, get_uint32 (des_crypt sk b) 4) = DES_FP (y, x)"
  using assms by (simp add: des_crypt_def split_beta get_put)

lemma des_inverse:
  assumes "length sk = 32" and "length b = 8"
  shows "des_crypt (reverse_keys sk) (des_crypt sk b) = b"
proof -
  obtain x0 y0 where ip: "DES_IP (get_uint32 b 0, get_uint32 b 4) = (x0, y0)" by fastforce
  obtain x y where r: "des_rounds sk (x0, y0) = (x, y)" by fastforce
  have rounds: "des_rounds (reverse_keys sk) (y, x) = (y0, x0)"
    using des_rounds_back [OF _ r] assms(1) by (simp add: reverse_keys_eq)
  have "DES_IP (get_uint32 (des_crypt sk b) 0, get_uint32 (des_crypt sk b) 4) = (y, x)"
    using des_crypt_parts [of sk b x y] ip r IP_FP [of y x] by simp
  moreover have "DES_FP (x0, y0) = (get_uint32 b 0, get_uint32 b 4)" using FP_IP ip by metis
  ultimately show ?thesis using rounds put_get [OF assms(2)] by (simp add: des_crypt_def [of "reverse_keys sk"])
qed

section \<open>Block ciphers and paddings\<close>

definition blocks :: "nat \<Rightarrow> u8 list \<Rightarrow> u8 list list" where
  "blocks n s = map (\<lambda>k. take 8 (drop (8 * k) s)) [0..<n]"

lemma blocks_Suc: "blocks (Suc n) s = take 8 s # blocks n (drop 8 s)"
  by (simp add: blocks_def upt_conv_Cons map_Suc_upt [symmetric] add.commute del: upt_Suc)

lemma concat_blocks: "8 * n \<le> length s \<Longrightarrow> concat (blocks n s) = take (8 * n) s"
  by (induction n arbitrary: s) (simp_all add: blocks_Suc take_add [symmetric], simp add: blocks_def)

lemma blocks_length: "8 * n \<le> length s \<Longrightarrow> b \<in> set (blocks n s) \<Longrightarrow> length b = 8"
  by (auto simp: blocks_def)

lemma blocks_concat: "\<forall>b \<in> set bs. length b = 8 \<Longrightarrow> blocks (length bs) (concat bs @ r) = bs"
  by (induction bs) (simp_all add: blocks_Suc, simp add: blocks_def)

lemma length_concat8: "\<forall>b \<in> set bs. length b = 8 \<Longrightarrow> length (concat bs) = 8 * length bs"
  by (induction bs) simp_all

locale block_cipher =
  fixes enc dec :: "u8 list \<Rightarrow> u8 list"
  assumes dec_enc: "length b = 8 \<Longrightarrow> dec (enc b) = b"
    and enc_length: "length (enc b) = 8"
begin

lemma dec_blocks:
  assumes "\<forall>b \<in> set bs. length b = 8"
  shows "concat (map dec (blocks (length bs) (concat (map enc bs)))) = concat bs"
proof -
  have "blocks (length (map enc bs)) (concat (map enc bs) @ []) = map enc bs"
    by (rule blocks_concat) (simp add: enc_length)
  moreover have "map dec (map enc bs) = bs" using assms dec_enc by (induction bs) auto
  ultimately show ?thesis by (metis append_Nil2 length_map)
qed

end

locale padding =
  fixes pad :: "u8 list \<Rightarrow> nat \<Rightarrow> u8 list" and unpad :: "u8 list \<Rightarrow> int option"
  assumes pad_length: "k < 8 \<Longrightarrow> k \<le> length s \<Longrightarrow> length (pad s k) = 8"
    and pad_keeps: "k < 8 \<Longrightarrow> k \<le> length s \<Longrightarrow> take k (pad s k) = take k s"
    and unpad_pad: "k < 8 \<Longrightarrow> k \<le> length s \<Longrightarrow> unpad (rev (pre @ pad s k)) = Some (8 - int k)"
begin

lemma unpad_text:
  assumes "length s < 8"
  shows "unpad (rev (pre @ pad s (length s))) = Some (8 - int (length s))"
    and "take (length (pre @ pad s (length s)) - nat (8 - int (length s))) (pre @ pad s (length s)) = pre @ s"
proof -
  show "unpad (rev (pre @ pad s (length s))) = Some (8 - int (length s))" using unpad_pad assms by simp
  have "length (pre @ pad s (length s)) - nat (8 - int (length s)) = length pre + length s"
    using pad_length [OF assms] assms by simp
  then show "take (length (pre @ pad s (length s)) - nat (8 - int (length s))) (pre @ pad s (length s)) = pre @ s"
    using pad_keeps [OF assms] by simp
qed

end

lemma iso_scan_zeros:
  "n < m \<Longrightarrow> iso7816_4_scan m (replicate n 0 @ 0x80 # r) p = Some (p + int n)"
proof (induction n arbitrary: m p)
  case 0
  then show ?case by (cases m) simp_all
next
  case (Suc n)
  then show ?case by (cases m) (simp_all add: add.commute add.left_commute)
qed

lemma pkcs7_scan_same: "n \<le> k \<Longrightarrow> pkcs7_scan n (replicate k p @ r) p = Some True"
proof (induction n arbitrary: k)
  case (Suc n)
  then show ?case by (cases k) simp_all
qed simp

interpretation iso: padding padding_add_iso7816_4 padding_remove_iso7816_4
  by unfold_locales (simp_all add: padding_add_iso7816_4_def padding_remove_iso7816_4_def iso_scan_zeros)

interpretation pkcs7: padding padding_add_pkcs7 padding_remove_pkcs7
proof unfold_locales
  fix k :: nat and s pre :: "u8 list"
  assume k: "k < 8" "k \<le> length s"
  show "length (padding_add_pkcs7 s k) = 8" "take k (padding_add_pkcs7 s k) = take k s"
    using k by (simp_all add: padding_add_pkcs7_def)
  define n where "n = 7 - k"
  have n: "8 - k = Suc n" using k by (simp add: n_def)
  have "unat (of_nat (Suc n) :: u8) = Suc n" unfolding unat_of_nat by (simp add: n_def take_bit_eq_mod)
  then show "padding_remove_pkcs7 (rev (pre @ padding_add_pkcs7 s k)) = Some (8 - int k)"
    using k n by (simp add: padding_add_pkcs7_def padding_remove_pkcs7_def pkcs7_scan_same replicate_app_Cons_same del: of_nat_Suc)
qed

interpretation des: block_cipher "des_crypt (des_main_ks key)" "des_crypt (reverse_keys (des_main_ks key))" for key
  by unfold_locales (simp_all add: des_inverse length_des_main_ks)

section \<open>Encryption undone by decryption\<close>

lemma ucast_of_int: "(ucast (word_of_int i :: u64) :: u32) = word_of_int i"
  by (rule bit_word_eqI) (simp add: bit_simps)

lemma int_size_small:
  assumes "textsz < 2 ^ 31" and "d < 2 ^ 31"
  shows "int_size textsz d = int textsz - int d"
proof -
  have "(of_nat textsz - of_nat d :: u64) = word_of_int (int textsz - int d)" by simp
  then have "int_size textsz d = sint (ucast (word_of_int (int textsz - int d) :: u64) :: u32)"
    by (simp only: int_size_def)
  also have "(ucast (word_of_int (int textsz - int d) :: u64) :: u32) = word_of_int (int textsz - int d)"
    by (rule ucast_of_int)
  also have "sint (word_of_int (int textsz - int d) :: u32) = int textsz - int d"
    unfolding signed_of_int using assms by (simp add: signed_take_bit_int_eq_self)
  finally show ?thesis .
qed

lemma crypt_loop_spec:
  assumes "8 * n \<le> length txt" and "8 * n + 8 < 2 ^ 31" and "\<forall>k<n. int (8 * k) < bound" and "bound \<le> int (8 * n)"
  shows "k \<le> n \<Longrightarrow> crypt_loop sk txt bound (int (8 * k)) out =
    Some (int (8 * n), out @ concat (map (\<lambda>j. des_crypt sk (take 8 (drop (8 * j) txt))) [k..<n]))"
proof (induction "n - k" arbitrary: k out)
  case 0
  then show ?case using assms(4) by (subst crypt_loop.simps) simp
next
  case (Suc m)
  then have k: "k < n" by simp
  have b: "get_block txt (int (8 * k)) = Some (take 8 (drop (8 * k) txt))"
    using k assms(1) unfolding get_block_def nat_int by simp
  have i: "int_range (int (8 * k) + 8) = Some (int (8 * Suc k))" using k assms(2) by (simp add: int_range_def)
  have "crypt_loop sk txt bound (int (8 * k)) out =
      crypt_loop sk txt bound (int (8 * Suc k)) (out @ des_crypt sk (take 8 (drop (8 * k) txt)))"
    using k assms(3) by (subst crypt_loop.simps) (simp only: b i if_True bind.simps simp_thms)
  also have "\<dots> = Some (int (8 * n), (out @ des_crypt sk (take 8 (drop (8 * k) txt))) @
      concat (map (\<lambda>j. des_crypt sk (take 8 (drop (8 * j) txt))) [Suc k..<n]))"
    using Suc(1) [of "Suc k"] Suc(2) k by simp
  finally show ?case using k by (simp add: upt_conv_Cons)
qed

lemma crypt_loop_blocks:
  assumes "8 * n \<le> length txt" and "8 * n + 8 < 2 ^ 31" and "\<forall>k<n. int (8 * k) < bound" and "bound \<le> int (8 * n)"
  shows "crypt_loop sk txt bound 0 [] = Some (int (8 * n), concat (map (des_crypt sk) (blocks n txt)))"
  using crypt_loop_spec [OF assms, of 0 sk "[]"] by (simp add: blocks_def comp_def)

text \<open>The two modes, as the padding interface gives them.\<close>

lemma map_option_conv: "map_option f m = (m \<bind> (\<lambda>x. Some (f x)))"
  by (cases m) simp_all

lemma mode_padding:
  assumes "mode = 0 \<or> mode = 1" and "length s < 8"
  obtains tail where "add_padding s (int (length s)) mode = Some (Inr tail)" "length tail = 8"
    "remove_padding (rev (pre @ tail)) mode = Some (Inr (8 - int (length s)))"
    "take (length (pre @ tail) - nat (8 - int (length s))) (pre @ tail) = pre @ s"
proof (cases "mode = 0")
  case True
  then have "add_padding s (int (length s)) mode = Some (Inr (padding_add_iso7816_4 s (length s)))"
    "remove_padding l mode = map_option Inr (padding_remove_iso7816_4 l)" for l
    using assms by (simp_all add: add_padding_def remove_padding_def check_padding_mode_def PADDING_MODE_COUNT_def
        padding_add_func_def padding_remove_func_def map_option_conv)
  then show ?thesis using that iso.unpad_text [OF assms(2), of pre] iso.pad_length [OF assms(2)] by auto
next
  case False
  then have "add_padding s (int (length s)) mode = Some (Inr (padding_add_pkcs7 s (length s)))"
    "remove_padding l mode = map_option Inr (padding_remove_pkcs7 l)" for l
    using assms by (simp_all add: add_padding_def remove_padding_def check_padding_mode_def PADDING_MODE_COUNT_def
        padding_add_func_def padding_remove_func_def map_option_conv)
  then show ?thesis using that pkcs7.unpad_text [OF assms(2), of pre] pkcs7.pad_length [OF assms(2)] by auto
qed

text \<open>The ciphertext: the encrypted blocks, the padded rest last.\<close>

lemma encode_blocks:
  assumes "length key = 8" and "mode = 0 \<or> mode = 1" and small: "length txt < 2 ^ 31 - 16"
  obtains bs p where "\<forall>b \<in> set bs. length b = 8" "length bs = length txt div 8 + 1"
    "ldesencode key txt mode = Some (Inr (concat (map (des_crypt (des_main_ks key)) bs)))"
    "remove_padding (rev (concat bs)) mode = Some (Inr p)" "0 < p" "p \<le> 8" "take (length (concat bs) - nat p) (concat bs) = txt"
proof -
  let ?n = "length txt div 8" and ?enc = "des_crypt (des_main_ks key)"
  let ?s = "drop (8 * ?n) txt" and ?pre = "concat (blocks ?n txt)"
  have le: "8 * ?n \<le> length txt" and len: "length ?s < 8" by simp_all
  obtain tail where tail: "add_padding ?s (int (length ?s)) mode = Some (Inr tail)" "length tail = 8"
    "remove_padding (rev (?pre @ tail)) mode = Some (Inr (8 - int (length ?s)))"
    "take (length (?pre @ tail) - nat (8 - int (length ?s))) (?pre @ tail) = ?pre @ ?s"
    using mode_padding [OF assms(2) len] by blast
  let ?bs = "blocks ?n txt @ [tail]"
  have "int_size (length txt) 7 = int (length txt) - 7" using small int_size_small [of "length txt" 7] by simp
  moreover have "\<forall>k<?n. int (8 * k) < int (length txt) - 7" "int (length txt) - 7 \<le> int (8 * ?n)" by auto
  ultimately have loop: "crypt_loop (des_main_ks key) txt (int_size (length txt) 7) 0 [] =
      Some (int (8 * ?n), concat (map ?enc (blocks ?n txt)))"
    using crypt_loop_blocks [OF le, of "int (length txt) - 7" "des_main_ks key"] small by simp
  have chunk: "(length txt + 8) div 8 * 8 = 8 * ?n + 8" by presburger
  have off: "int_size (length txt) (8 * ?n) = int (length ?s)"
    using int_size_small [of "length txt" "8 * ?n"] small by simp
  have size8: "\<forall>b \<in> set (blocks ?n txt). length b = 8" using blocks_length [OF le] by blast
  have "length (concat (map ?enc (blocks ?n txt))) = 8 * ?n"
    using length_concat8 [of "map ?enc (blocks ?n txt)"] by (simp add: blocks_def)
  then have out: "ldesencode key txt mode = Some (Inr (concat (map ?enc (blocks ?n txt)) @ ?enc tail))"
    unfolding ldesencode_def using assms(1) loop off tail(1) chunk by (simp add: des_key_def Let_def del: of_nat_mult)
  show ?thesis
  proof (rule that [of ?bs "8 - int (length ?s)"])
    show "\<forall>b \<in> set ?bs. length b = 8" unfolding set_append ball_Un using size8 tail(2) by (simp only: list.set ball_simps simp_thms)
    show "length ?bs = ?n + 1" by (simp add: blocks_def)
    show "ldesencode key txt mode = Some (Inr (concat (map ?enc ?bs)))" unfolding out by simp
    show "remove_padding (rev (concat ?bs)) mode = Some (Inr (8 - int (length ?s)))" using tail(3) by simp
    show "0 < 8 - int (length ?s)" "8 - int (length ?s) \<le> 8" using len by simp_all
    show "take (length (concat ?bs) - nat (8 - int (length ?s))) (concat ?bs) = txt"
      using tail(4) concat_blocks [OF le] by simp
  qed
qed

lemma decode_blocks:
  assumes "length key = 8" and bs: "\<forall>b \<in> set bs. length b = 8" "bs \<noteq> []" and small: "8 * length bs + 8 < 2 ^ 31"
  shows "ldesdecode key (concat (map (des_crypt (des_main_ks key)) bs)) mode = do {
      removed \<leftarrow> remove_padding (rev (concat bs)) mode;
      Some (case removed of
          Inl e \<Rightarrow> Inl e
        | Inr p \<Rightarrow> if p \<le> 0 \<or> p > 8 then Inl Invalid_text else Inr (take (length (concat bs) - nat p) (concat bs))) }"
proof -
  let ?enc = "des_crypt (des_main_ks key)"
  let ?c = "concat (map ?enc bs)"
  have len: "length ?c = 8 * length bs" using length_concat8 [of "map ?enc bs"] by simp
  have "int_size (length ?c) 0 = int (8 * length bs)" using int_size_small [of "length ?c" 0] small len by simp
  then have "crypt_loop (reverse_keys (des_main_ks key)) ?c (int_size (length ?c) 0) 0 [] =
      Some (int (8 * length bs), concat bs)"
    using crypt_loop_blocks [of "length bs" ?c "int (8 * length bs)" "reverse_keys (des_main_ks key)"] len small
      des.dec_blocks [OF bs(1), of key] by simp
  then show ?thesis
    using assms(1,3) len length_concat8 [OF bs(1)]
    by (cases "remove_padding (rev (concat bs)) mode") (auto simp: ldesdecode_def des_key_def split: sum.splits)
qed

text \<open>
  C20. DES decryption undoes encryption: for every key of eight bytes, both padding modes and
  every text (of less than 2 GiB), \<open>desencode\<close> gives whole blocks, one more than the text fills, and
  \<open>desdecode\<close> of them is the text.
\<close>

theorem des_roundtrip:
  assumes "length key = 8" and "mode = 0 \<or> mode = 1" and "length txt < 2 ^ 31 - 16"
  shows "\<exists>c. ldesencode key txt mode = Some (Inr c) \<and> length c = 8 * (length txt div 8 + 1) \<and>
    ldesdecode key c mode = Some (Inr txt)"
proof -
  obtain bs p where bs: "\<forall>b \<in> set bs. length b = 8" "length bs = length txt div 8 + 1"
    "ldesencode key txt mode = Some (Inr (concat (map (des_crypt (des_main_ks key)) bs)))"
    and p: "remove_padding (rev (concat bs)) mode = Some (Inr p)" "0 < p" "p \<le> 8" "take (length (concat bs) - nat p) (concat bs) = txt"
    by (rule encode_blocks [OF assms])
  have "bs \<noteq> []" "8 * length bs + 8 < 2 ^ 31" using bs(2) assms(3) by auto
  then have "ldesdecode key (concat (map (des_crypt (des_main_ks key)) bs)) mode = Some (Inr txt)"
    using decode_blocks [OF assms(1) bs(1), of mode] p by simp
  moreover have "length (concat (map (des_crypt (des_main_ks key)) bs)) = 8 * length bs"
    using length_concat8 [of "map (des_crypt (des_main_ks key)) bs"] by simp
  ultimately show ?thesis using bs(2,3) by auto
qed

lemma des_roundtrip_witness:
  "\<exists>c. ldesencode [1, 2, 3, 4, 5, 6, 7, 8] [104, 101, 108, 108, 111, 33, 33, 33, 33] 1 = Some (Inr c) \<and>
    length c = 8 * (length ([104, 101, 108, 108, 111, 33, 33, 33, 33] :: u8 list) div 8 + 1) \<and>
    ldesdecode [1, 2, 3, 4, 5, 6, 7, 8] c 1 = Some (Inr [104, 101, 108, 108, 111, 33, 33, 33, 33])"
  by (rule des_roundtrip) simp_all

text \<open>A ciphertext of one block of \<open>0xFF\<close> bytes: the check of the padding reads before the buffer.\<close>

lemma pkcs7_scan_short: "n < m \<Longrightarrow> pkcs7_scan m (replicate n p) p = None"
proof (induction n arbitrary: m)
  case 0
  then show ?case by (cases m) simp_all
next
  case (Suc n)
  then show ?case by (cases m) simp_all
qed

lemma pkcs7_reads_before_buffer:
  assumes "length key = 8"
  shows "ldesdecode key (des_crypt (des_main_ks key) (replicate 8 0xFF)) 1 = None"
proof -
  have r: "rev (replicate 8 (0xFF :: u8)) = 0xFF # replicate 7 0xFF" by (simp add: numeral_eq_Suc)
  have "padding_remove_pkcs7 (rev (replicate 8 0xFF)) = None"
    unfolding r padding_remove_pkcs7_def using pkcs7_scan_short [of 7 254 255] by simp
  then have "remove_padding (rev (replicate 8 0xFF)) 1 = None"
    by (simp add: remove_padding_def check_padding_mode_def PADDING_MODE_COUNT_def padding_remove_func_def)
  then show ?thesis using decode_blocks [OF assms, of "[replicate 8 0xFF]" 1] by simp
qed

end
