(* ===== verification/Encoding.thy ===== *)
theory Encoding
  imports Prelude
begin

text \<open>
  The text encodings and small hashes of \<^verbatim>\<open>lualib-src/lua-crypt.c\<close>: hexadecimal and base 64 text,
  \<open>xor_str\<close>, \<open>hashkey\<close> and \<open>randomkey\<close>.  A Lua string is the list of its bytes (shorter than 2 GiB, so that
  its size fits an \<open>int\<close>).  An output buffer is the list of the bytes written so far and its size; a write
  past the size is a failure (\<open>None\<close>), an error raised to Lua is \<open>Inl\<close>.
\<close>

definition SMALL_CHUNK :: nat where "SMALL_CHUNK = 256"

definition put_bytes :: "nat \<Rightarrow> u8 list \<Rightarrow> u8 list \<Rightarrow> u8 list option" where
  "put_bytes cap out bs = (if length out + length bs \<le> cap then Some (out @ bs) else None)"

section \<open>Hexadecimal\<close>

definition hex :: "u8 list" where
  "hex = [48, 49, 50, 51, 52, 53, 54, 55, 56, 57, 97, 98, 99, 100, 101, 102]"

fun hex_loop :: "nat \<Rightarrow> u8 list \<Rightarrow> u8 list \<Rightarrow> u8 list option" where
  "hex_loop cap [] buffer = Some buffer"
| "hex_loop cap (b # bs) buffer = do {
     buffer1 \<leftarrow> put_bytes cap buffer [hex ! unat (drop_bit 4 b), hex ! unat (b AND 0xF)];
     hex_loop cap bs buffer1 }"

definition ltohex :: "u8 list \<Rightarrow> u8 list option" where
  "ltohex bs =
     (let cap = (if length bs > SMALL_CHUNK div 2 then length bs * 2 else SMALL_CHUNK)
      in hex_loop cap bs [])"

definition hex_value :: "u8 \<Rightarrow> u8" where
  "hex_value c = (if 48 \<le> c \<and> c \<le> 57 then c - 48 else c - 97 + 10)"

datatype text_error = Invalid_hex_size | Invalid_hex | Invalid_base64 | Empty_key

fun unhex_loop :: "nat \<Rightarrow> u8 list \<Rightarrow> u8 list \<Rightarrow> (text_error + u8 list) option" where
  "unhex_loop cap (c # d # cs) buffer =
     (let hi = hex_value c; low = hex_value d
      in if hi > 16 \<or> low > 16 then Some (Inl Invalid_hex)
         else do {
           buffer1 \<leftarrow> put_bytes cap buffer [push_bit 4 hi OR low];
           unhex_loop cap cs buffer1 })"
| "unhex_loop cap [] buffer = Some (Inr buffer)"
| "unhex_loop cap [c] buffer = None"

definition lfromhex :: "u8 list \<Rightarrow> (text_error + u8 list) option" where
  "lfromhex cs =
     (if odd (length cs) then Some (Inl Invalid_hex_size)
      else let cap = (if length cs > SMALL_CHUNK * 2 then length cs div 2 else SMALL_CHUNK)
           in unhex_loop cap cs [])"

section \<open>Base 64\<close>

definition encoding :: "u8 list" where
  "encoding = map of_nat ([65..<91] @ [97..<123] @ [48..<58] @ [43, 47])"

abbreviation word_of :: "u8 \<Rightarrow> u32" where "word_of b \<equiv> ucast b"

abbreviation enc64 :: "u32 \<Rightarrow> u8" where "enc64 v \<equiv> encoding ! unat v"

fun encode_loop :: "nat \<Rightarrow> u8 list \<Rightarrow> u8 list \<Rightarrow> u8 list option" where
  "encode_loop cap (a # b # c # s) buffer =
     (let v = push_bit 16 (word_of a) OR push_bit 8 (word_of b) OR word_of c
      in do {
        buffer1 \<leftarrow> put_bytes cap buffer
          [enc64 (drop_bit 18 v), enc64 (drop_bit 12 v AND 0x3F), enc64 (drop_bit 6 v AND 0x3F), enc64 (v AND 0x3F)];
        encode_loop cap s buffer1 })"
| "encode_loop cap [a] buffer =
     (let v = word_of a
      in put_bytes cap buffer [enc64 (drop_bit 2 v), enc64 (push_bit 4 (v AND 3)), 61, 61])"
| "encode_loop cap [a, b] buffer =
     (let v = push_bit 8 (word_of a) OR word_of b
      in put_bytes cap buffer
          [enc64 (drop_bit 10 v), enc64 (drop_bit 4 v AND 0x3F), enc64 (push_bit 2 (v AND 0xF)), 61])"
| "encode_loop cap [] buffer = Some buffer"

text \<open>The division of C rounds to zero.\<close>

definition int_quot :: "int \<Rightarrow> int \<Rightarrow> int" where
  "int_quot a b = (if a < 0 then - ((- a) div b) else a div b)"

definition to_int :: "nat \<Rightarrow> int" where
  "to_int n = sint (of_nat n :: u32)"

definition lb64encode :: "u8 list \<Rightarrow> u8 list option" where
  "lb64encode s = do {
     encode_sz \<leftarrow> int_range (int_quot (to_int (length s + 2)) 3 * 4);
     let cap = (if encode_sz > int SMALL_CHUNK then nat encode_sz else SMALL_CHUNK);
     buffer \<leftarrow> encode_loop cap s [];
     assert_that (int (length buffer) = encode_sz);
     Some buffer }"

definition decoding :: "int list" where
  "decoding = [62, -1, -1, -1, 63, 52, 53, 54, 55, 56, 57, 58, 59, 60, 61, -1, -1, -1, -2, -1, -1, -1,
     0, 1, 2, 3, 4, 5, 6, 7, 8, 9, 10, 11, 12, 13, 14, 15, 16, 17, 18, 19, 20, 21, 22, 23, 24, 25,
     -1, -1, -1, -1, -1, -1, 26, 27, 28, 29, 30, 31, 32, 33, 34, 35, 36, 37, 38, 39, 40, 41, 42, 43, 44, 45,
     46, 47, 48, 49, 50, 51]"

definition b64index :: "u8 \<Rightarrow> int" where
  "b64index c =
     (if c < 43 then - 1
      else let d = c - 43
           in if unat d \<ge> length decoding then - 1 else decoding ! unat d)"

text \<open>The next \<open>n\<close> codes of the text and how many of them are padding; bytes that are no code are skipped.\<close>

fun read_group :: "nat \<Rightarrow> u8 list \<Rightarrow> int list \<Rightarrow> nat \<Rightarrow> (int list \<times> nat \<times> u8 list) option" where
  "read_group 0 s c padding = Some (c, padding, s)"
| "read_group (Suc n) [] c padding = None"
| "read_group (Suc n) (b # s) c padding =
     (let i = b64index b
      in if i = - 1 then read_group (Suc n) s c padding
         else read_group n s (c @ [i]) (if i = - 2 then padding + 1 else padding))"

definition group_bytes :: "int list \<Rightarrow> nat \<Rightarrow> u8 list option" where
  "group_bytes c padding =
     (let c0 = word_of_int (c ! 0) :: u32; c1 = word_of_int (c ! 1); c2 = word_of_int (c ! 2); c3 = word_of_int (c ! 3)
      in if padding = 0 then
           let v = push_bit 18 c0 OR push_bit 12 c1 OR push_bit 6 c2 OR c3
           in Some [ucast (drop_bit 16 v), ucast (drop_bit 8 v AND 0xFF), ucast (v AND 0xFF)]
         else if padding = 1 then
           if c ! 3 \<noteq> - 2 \<or> c2 AND 3 \<noteq> 0 then None
           else let v = push_bit 10 c0 OR push_bit 4 c1 OR drop_bit 2 c2
                in Some [ucast (drop_bit 8 v), ucast (v AND 0xFF)]
         else if padding = 2 then
           if c ! 3 \<noteq> - 2 \<or> c ! 2 \<noteq> - 2 \<or> c1 AND 0xF \<noteq> 0 then None
           else let v = push_bit 2 c0 OR drop_bit 4 c1 in Some [ucast v]
         else None)"

partial_function (option) decode_loop :: "nat \<Rightarrow> u8 list \<Rightarrow> u8 list \<Rightarrow> (text_error + u8 list) option" where
  "decode_loop cap s buffer =
     (if s = [] then Some (Inr buffer)
      else case read_group 4 s [] 0 of
        None \<Rightarrow> Some (Inl Invalid_base64)
      | Some (c, padding, s1) \<Rightarrow>
          (case group_bytes c padding of
             None \<Rightarrow> Some (Inl Invalid_base64)
           | Some bs \<Rightarrow> do {
               buffer1 \<leftarrow> put_bytes cap buffer bs;
               decode_loop cap s1 buffer1 }))"

definition lb64decode :: "u8 list \<Rightarrow> (text_error + u8 list) option" where
  "lb64decode s =
     (let decode_sz = int_quot (to_int (length s + 3)) 4 * 3;
          cap = (if decode_sz > int SMALL_CHUNK then nat decode_sz else SMALL_CHUNK)
      in decode_loop cap s [])"

section \<open>Hashes, keys and masks\<close>

definition lxor_str :: "u8 list \<Rightarrow> u8 list \<Rightarrow> text_error + u8 list" where
  "lxor_str s1 s2 =
     (if length s2 = 0 then Inl Empty_key
      else Inr (map (\<lambda>i. s1 ! i XOR s2 ! (i mod length s2)) [0..<length s1]))"

definition hash_step :: "u8 \<Rightarrow> u32 \<times> u32 \<Rightarrow> u32 \<times> u32" where
  "hash_step b = (\<lambda>(djb_hash, js_hash).
     let c = word_of b
     in (djb_hash + (push_bit 5 djb_hash + c), js_hash XOR (push_bit 5 js_hash + c + drop_bit 2 js_hash)))"

definition bytes_le :: "u32 \<Rightarrow> u8 list" where
  "bytes_le x = [ucast (x AND 0xFF), ucast (drop_bit 8 x AND 0xFF), ucast (drop_bit 16 x AND 0xFF), ucast (drop_bit 24 x AND 0xFF)]"

definition Hash :: "u8 list \<Rightarrow> u8 list" where
  "Hash str =
     (let (djb_hash, js_hash) = fold hash_step str (5381, 1315423911)
      in bytes_le djb_hash @ bytes_le js_hash)"

definition lhashkey :: "u8 list \<Rightarrow> u8 list" where
  "lhashkey key = Hash key"

text \<open>\<open>rnd i\<close> is what the \<open>i\<close>-th call of \<open>random\<close> returns.\<close>

definition lrandomkey :: "(nat \<Rightarrow> u32) \<Rightarrow> u8 list" where
  "lrandomkey rnd =
     (let tmp = map (\<lambda>i. ucast (rnd i AND 0xFF)) [0..<8];
          x = fold (XOR) tmp 0
      in if x = 0 then tmp[0 := tmp ! 0 OR 1] else tmp)"

section \<open>Hexadecimal text is read back\<close>

lemma hex_digit: "unat v < 16 \<Longrightarrow> hex_value (hex ! unat v) = v"
proof -
  have "list_all (\<lambda>i. hex_value (hex ! i) = of_nat i) [0..<16]" by code_simp
  then show "unat v < 16 \<Longrightarrow> hex_value (hex ! unat v) = v" by (simp add: list_all_iff)
qed

lemma nibbles: "unat (drop_bit 4 (b :: u8)) < 16" "unat (b AND 0xF) < 16"
proof -
  have "unat b < 256" using unsigned_less [where ?'a = nat, of b] by simp
  then show "unat (drop_bit 4 b) < 16" by (simp add: unat_shiftr)
  show "unat (b AND 0xF) < 16" using unat_and_mask [of b 4] by (simp add: mask_eq_exp_minus_1)
qed

lemma join_nibbles: "push_bit 4 (drop_bit 4 b) OR (b AND 0xF) = (b :: u8)"
proof -
  have "b AND 0xF = take_bit 4 b" by (simp add: take_bit_eq_mask mask_eq_exp_minus_1)
  then show ?thesis by (intro bit_word_eqI) (auto simp: bit_simps)
qed

lemma put_bytes_fits: "length out + length bs \<le> cap \<Longrightarrow> put_bytes cap out bs = Some (out @ bs)"
  by (simp add: put_bytes_def)

lemma hex_loop_spec:
  "length out + 2 * length bs \<le> cap \<Longrightarrow>
   \<exists>h. hex_loop cap bs out = Some (out @ h) \<and> length h = 2 * length bs \<and>
     (\<forall>cap' buf. length buf + length bs \<le> cap' \<longrightarrow> unhex_loop cap' h buf = Some (Inr (buf @ bs)))"
proof (induction bs arbitrary: out)
  case Nil
  then show ?case by simp
next
  case (Cons b bs)
  let ?d = "[hex ! unat (drop_bit 4 b), hex ! unat (b AND 0xF)]"
  obtain h where h: "hex_loop cap bs (out @ ?d) = Some ((out @ ?d) @ h)" "length h = 2 * length bs"
    "\<forall>cap' buf. length buf + length bs \<le> cap' \<longrightarrow> unhex_loop cap' h buf = Some (Inr (buf @ bs))"
    using Cons.IH [of "out @ ?d"] Cons.prems by auto
  have "hex_loop cap (b # bs) out = Some (out @ (?d @ h))" using h(1) Cons.prems by (simp add: put_bytes_def)
  moreover have "unhex_loop cap' (?d @ h) buf = Some (Inr (buf @ b # bs))" if "length buf + length (b # bs) \<le> cap'" for cap' buf
    using h(3) that nibbles [of b] hex_digit [OF nibbles(1), of b] hex_digit [OF nibbles(2), of b]
    by (simp add: put_bytes_def join_nibbles Let_def word_less_nat_alt)
  ultimately show ?case using h(2) by (intro exI [of _ "?d @ h"]) simp
qed

text \<open>
  \<open>hexencode\<close> never writes past its buffer, gives two digits for each byte, and \<open>hexdecode\<close>
  reads the digits back to the same bytes.
\<close>

theorem hex_roundtrip:
  "\<exists>h. ltohex bs = Some h \<and> length h = 2 * length bs \<and> lfromhex h = Some (Inr bs)"
proof -
  let ?cap = "if length bs > SMALL_CHUNK div 2 then length bs * 2 else SMALL_CHUNK"
  have "2 * length bs \<le> ?cap" by (simp add: SMALL_CHUNK_def)
  then obtain h where h: "hex_loop ?cap bs [] = Some h" "length h = 2 * length bs"
    "\<forall>cap' buf. length buf + length bs \<le> cap' \<longrightarrow> unhex_loop cap' h buf = Some (Inr (buf @ bs))"
    using hex_loop_spec [of "[]" bs ?cap] by auto
  moreover have "lfromhex h = Some (Inr bs)" using h(2,3) by (simp add: lfromhex_def SMALL_CHUNK_def Let_def)
  ultimately show ?thesis by (auto simp: ltohex_def Let_def)
qed

text \<open>The letter \<open>g\<close> passes the check of \<open>hexdecode\<close>: \<open>g0\<close> is read as a zero byte.\<close>

lemma hex_accepts_g: "lfromhex [103, 48] = Some (Inr [0])"
  by code_simp

section \<open>Base 64 text is read back\<close>

lemma b64index_encoding: "i < 64 \<Longrightarrow> b64index (encoding ! i) = int i"
proof -
  have "list_all (\<lambda>i. b64index (encoding ! i) = int i) [0..<64]" by code_simp
  then show "i < 64 \<Longrightarrow> b64index (encoding ! i) = int i" by (simp add: list_all_iff)
qed

lemma index_pad: "b64index 61 = - 2" by code_simp

lemma index_enc64: "unat v < 64 \<Longrightarrow> b64index (enc64 v) = int (unat v)"
  by (rule b64index_encoding)

lemma read_code: "unat v < 64 \<Longrightarrow> read_group (Suc n) (enc64 v # s) c p = read_group n s (c @ [int (unat v)]) p"
proof -
  assume "unat v < 64"
  then have "b64index (enc64 v) = int (unat v)" by (rule index_enc64)
  moreover have "int (unat v) \<noteq> - 1" "int (unat v) \<noteq> - 2" by linarith+
  ultimately show ?thesis by (simp only: read_group.simps Let_def if_False)
qed

lemma read_pad: "read_group (Suc n) (61 # s) c p = read_group n s (c @ [- 2]) (p + 1)"
  by (simp add: index_pad)

lemma four_codes: "(4 :: nat) = Suc (Suc (Suc (Suc 0)))" by simp

lemmas read_codes = four_codes read_code read_pad read_group.simps(1) append.simps

lemma code_word: "(word_of_int (int (unat v)) :: u32) = v" by simp

lemma nth_four: "[a, b, c, d] ! 0 = a" "[a, b, c, d] ! 1 = b" "[a, b, c, d] ! 2 = c" "[a, b, c, d] ! 3 = d"
  by simp_all

text \<open>The codes of a group, as bit fields.\<close>

lemma masks: "(0x3F :: u32) = mask 6" "(0xF :: u32) = mask 4" "(3 :: u32) = mask 2" "(0xFF :: u32) = mask 8"
  by (simp_all add: mask_eq_exp_minus_1)

lemma unat_small: "(\<And>n. 6 \<le> n \<Longrightarrow> \<not> bit (w :: u32) n) \<Longrightarrow> unat w < 64"
proof -
  assume high: "\<And>n. 6 \<le> n \<Longrightarrow> \<not> bit w n"
  have "bit w n \<Longrightarrow> n < 6" for n using high [of n] by fastforce
  then have "w AND mask 6 = w" by (intro bit_word_eqI) (auto simp: bit_simps)
  then have "unat w = unat w mod 2 ^ 6" using unat_and_mask [of w 6] by simp
  then show ?thesis using mod_less_divisor [of 64 "unat w"] by simp
qed

lemma bit_u8: "8 \<le> n \<Longrightarrow> \<not> bit (a :: u8) n"
  by (auto dest: bit_imp_le_length)

lemma codes_small:
  fixes a b c :: u8
  shows "unat (drop_bit 18 (push_bit 16 (word_of a) OR push_bit 8 (word_of b) OR word_of c)) < 64"
    "unat (x AND 0x3F :: u32) < 64"
    "unat (drop_bit 2 (word_of a)) < 64" "unat (push_bit 4 (word_of a AND 3)) < 64"
    "unat (drop_bit 10 (push_bit 8 (word_of a) OR word_of b)) < 64" "unat (push_bit 2 (y AND 0xF :: u32)) < 64"
  unfolding masks by (rule unat_small; auto simp: bit_simps bit_u8)+

lemma group_three:
  fixes a b c :: u8
  defines "v \<equiv> push_bit 16 (word_of a) OR push_bit 8 (word_of b) OR word_of c"
  shows "push_bit 18 (drop_bit 18 v) OR push_bit 12 (drop_bit 12 v AND 0x3F) OR push_bit 6 (drop_bit 6 v AND 0x3F) OR (v AND 0x3F) = v"
    "ucast (drop_bit 16 v) = a" "ucast (drop_bit 8 v AND 0xFF) = b" "ucast (v AND 0xFF) = c"
proof -
  show "push_bit 18 (drop_bit 18 v) OR push_bit 12 (drop_bit 12 v AND 0x3F) OR push_bit 6 (drop_bit 6 v AND 0x3F) OR (v AND 0x3F) = v"
  proof (rule bit_word_eqI)
    fix n
    assume "n < LENGTH(32)"
    then consider "n < 6" | "6 \<le> n" "n < 12" | "12 \<le> n" "n < 18" | "18 \<le> n" "n < 32" by fastforce
    then show "bit (push_bit 18 (drop_bit 18 v) OR push_bit 12 (drop_bit 12 v AND 0x3F) OR push_bit 6 (drop_bit 6 v AND 0x3F) OR (v AND 0x3F)) n
        \<longleftrightarrow> bit v n"
      unfolding masks by cases (auto simp: bit_simps)
  qed
  show "ucast (drop_bit 16 v) = a" "ucast (drop_bit 8 v AND 0xFF) = b" "ucast (v AND 0xFF) = c"
    unfolding masks v_def by (rule bit_word_eqI; auto simp: bit_simps bit_u8)+
qed

lemma group_two:
  fixes a b :: u8
  defines "w \<equiv> push_bit 8 (word_of a) OR word_of b"
  shows "push_bit 10 (drop_bit 10 w) OR push_bit 4 (drop_bit 4 w AND 0x3F) OR drop_bit 2 (push_bit 2 (w AND 0xF)) = w"
    "push_bit 2 (w AND 0xF) AND 3 = 0" "ucast (drop_bit 8 w) = a" "ucast (w AND 0xFF) = b"
proof -
  show "push_bit 10 (drop_bit 10 w) OR push_bit 4 (drop_bit 4 w AND 0x3F) OR drop_bit 2 (push_bit 2 (w AND 0xF)) = w"
  proof (rule bit_word_eqI)
    fix n
    assume "n < LENGTH(32)"
    then consider "n < 4" | "4 \<le> n" "n < 10" | "10 \<le> n" "n < 32" by fastforce
    then show "bit (push_bit 10 (drop_bit 10 w) OR push_bit 4 (drop_bit 4 w AND 0x3F) OR drop_bit 2 (push_bit 2 (w AND 0xF))) n
        \<longleftrightarrow> bit w n"
      unfolding masks by cases (auto simp: bit_simps)
  qed
  show "push_bit 2 (w AND 0xF) AND 3 = 0" unfolding masks by (rule bit_word_eqI) (auto simp: bit_simps)
  show "ucast (drop_bit 8 w) = a" "ucast (w AND 0xFF) = b"
    unfolding masks w_def by (rule bit_word_eqI; auto simp: bit_simps bit_u8)+
qed

lemma group_one:
  fixes a :: u8
  shows "push_bit 2 (drop_bit 2 (word_of a)) OR drop_bit 4 (push_bit 4 (word_of a AND 3)) = word_of a"
    "push_bit 4 (word_of a AND 3) AND 0xF = 0" "ucast (word_of a) = a"
proof -
  show "push_bit 2 (drop_bit 2 (word_of a)) OR drop_bit 4 (push_bit 4 (word_of a AND 3)) = word_of a"
  proof (rule bit_word_eqI)
    fix n
    assume "n < LENGTH(32)"
    then have "n < 32" by simp
    then consider "n = 0" | "n = 1" | m where "n = Suc (Suc m)" "Suc (Suc m) < 32"
      by (cases n; cases "n - 1") auto
    then show "bit (push_bit 2 (drop_bit 2 (word_of a)) OR drop_bit 4 (push_bit 4 (word_of a AND 3))) n \<longleftrightarrow> bit (word_of a) n"
      unfolding masks by cases (auto simp: bit_simps)
  qed
  show "push_bit 4 (word_of a AND 3) AND 0xF = 0" "ucast (word_of a) = a"
    unfolding masks by (rule bit_word_eqI; auto simp: bit_simps)+
qed

definition chars3 :: "u8 \<Rightarrow> u8 \<Rightarrow> u8 \<Rightarrow> u8 list" where
  "chars3 a b c = (let v = push_bit 16 (word_of a) OR push_bit 8 (word_of b) OR word_of c in
     [enc64 (drop_bit 18 v), enc64 (drop_bit 12 v AND 0x3F), enc64 (drop_bit 6 v AND 0x3F), enc64 (v AND 0x3F)])"

definition chars2 :: "u8 \<Rightarrow> u8 \<Rightarrow> u8 list" where
  "chars2 a b = (let v = push_bit 8 (word_of a) OR word_of b in
     [enc64 (drop_bit 10 v), enc64 (drop_bit 4 v AND 0x3F), enc64 (push_bit 2 (v AND 0xF)), 61])"

definition chars1 :: "u8 \<Rightarrow> u8 list" where
  "chars1 a = [enc64 (drop_bit 2 (word_of a)), enc64 (push_bit 4 (word_of a AND 3)), 61, 61]"

lemma length_chars: "length (chars3 a b c) = 4" "length (chars2 a b) = 4" "length (chars1 a) = 4"
  by (simp_all add: chars3_def chars2_def chars1_def Let_def)

lemma encode_chars:
  "encode_loop cap (a # b # c # s) buf = do { buf1 \<leftarrow> put_bytes cap buf (chars3 a b c); encode_loop cap s buf1 }"
  "encode_loop cap [a, b] buf = put_bytes cap buf (chars2 a b)"
  "encode_loop cap [a] buf = put_bytes cap buf (chars1 a)"
  by (simp_all only: encode_loop.simps chars3_def chars2_def chars1_def Let_def)

lemma decode_step:
  "read_group 4 s [] 0 = Some (c, p, r) \<Longrightarrow> group_bytes c p = Some bs \<Longrightarrow> s \<noteq> [] \<Longrightarrow>
   decode_loop cap s buf = do { buf1 \<leftarrow> put_bytes cap buf bs; decode_loop cap r buf1 }"
  by (subst decode_loop.simps) simp

lemma decode_chars:
  "decode_loop cap (chars3 a b c @ e) buf = do { buf1 \<leftarrow> put_bytes cap buf [a, b, c]; decode_loop cap e buf1 }"
  "decode_loop cap (chars2 a b @ e) buf = do { buf1 \<leftarrow> put_bytes cap buf [a, b]; decode_loop cap e buf1 }"
  "decode_loop cap (chars1 a @ e) buf = do { buf1 \<leftarrow> put_bytes cap buf [a]; decode_loop cap e buf1 }"
proof -
  let ?v = "push_bit 16 (word_of a) OR push_bit 8 (word_of b) OR word_of c" and ?w = "push_bit 8 (word_of a) OR word_of b"
  have "read_group 4 (chars3 a b c @ e) [] 0 = Some ([int (unat (drop_bit 18 ?v)), int (unat (drop_bit 12 ?v AND 0x3F)),
      int (unat (drop_bit 6 ?v AND 0x3F)), int (unat (?v AND 0x3F))], 0, e)"
    using codes_small by (simp only: chars3_def Let_def read_codes)
  moreover have "group_bytes [int (unat (drop_bit 18 ?v)), int (unat (drop_bit 12 ?v AND 0x3F)),
      int (unat (drop_bit 6 ?v AND 0x3F)), int (unat (?v AND 0x3F))] 0 = Some [a, b, c]"
    by (simp only: group_bytes_def code_word Let_def nth_four group_three simp_thms if_True)
  moreover have "chars3 a b c @ e \<noteq> []" by (simp add: chars3_def Let_def)
  ultimately show "decode_loop cap (chars3 a b c @ e) buf = do { buf1 \<leftarrow> put_bytes cap buf [a, b, c]; decode_loop cap e buf1 }"
    by (rule decode_step)
  have "read_group 4 (chars2 a b @ e) [] 0 = Some ([int (unat (drop_bit 10 ?w)), int (unat (drop_bit 4 ?w AND 0x3F)),
      int (unat (push_bit 2 (?w AND 0xF))), - 2], 0 + 1, e)"
    using codes_small by (simp only: chars2_def Let_def read_codes)
  moreover have "group_bytes [int (unat (drop_bit 10 ?w)), int (unat (drop_bit 4 ?w AND 0x3F)),
      int (unat (push_bit 2 (?w AND 0xF))), - 2] (0 + 1) = Some [a, b]"
    by (simp only: group_bytes_def code_word Let_def nth_four group_two simp_thms if_True if_False) simp
  moreover have "chars2 a b @ e \<noteq> []" by (simp add: chars2_def Let_def)
  ultimately show "decode_loop cap (chars2 a b @ e) buf = do { buf1 \<leftarrow> put_bytes cap buf [a, b]; decode_loop cap e buf1 }"
    by (rule decode_step)
  have "read_group 4 (chars1 a @ e) [] 0 = Some ([int (unat (drop_bit 2 (word_of a))), int (unat (push_bit 4 (word_of a AND 3))),
      - 2, - 2], 0 + 1 + 1, e)"
    using codes_small by (simp only: chars1_def Let_def read_codes)
  moreover have "group_bytes [int (unat (drop_bit 2 (word_of a))), int (unat (push_bit 4 (word_of a AND 3))),
      - 2, - 2] (0 + 1 + 1) = Some [a]"
    by (simp only: group_bytes_def code_word Let_def nth_four group_one simp_thms if_True if_False) simp
  moreover have "chars1 a @ e \<noteq> []" by (simp add: chars1_def)
  ultimately show "decode_loop cap (chars1 a @ e) buf = do { buf1 \<leftarrow> put_bytes cap buf [a]; decode_loop cap e buf1 }"
    by (rule decode_step)
qed

lemma encode_loop_spec:
  "length out + (length s + 2) div 3 * 4 \<le> cap \<Longrightarrow>
   \<exists>e. encode_loop cap s out = Some (out @ e) \<and> length e = (length s + 2) div 3 * 4 \<and>
     (\<forall>cap' buf. length buf + length s \<le> cap' \<longrightarrow> decode_loop cap' e buf = Some (Inr (buf @ s)))"
proof (induction s arbitrary: out rule: length_induct)
  case (1 s)
  consider "s = []" | a where "s = [a]" | a b where "s = [a, b]" | a b c t where "s = a # b # c # t"
    by (metis list.exhaust)
  then show ?case
  proof cases
    case 1
    then show ?thesis by (simp add: decode_loop.simps)
  next
    case (2 a)
    then show ?thesis using decode_chars(3) [of _ a "[]"] 1(2)
      by (intro exI [of _ "chars1 a"]) (simp add: encode_chars length_chars put_bytes_def decode_loop.simps [of _ "[]"] del: encode_loop.simps(1-3))
  next
    case (3 a b)
    then show ?thesis using decode_chars(2) [of _ a b "[]"] 1(2)
      by (intro exI [of _ "chars2 a b"]) (simp add: encode_chars length_chars put_bytes_def decode_loop.simps [of _ "[]"] del: encode_loop.simps(1-3))
  next
    case (4 a b c t)
    have "(length s + 2) div 3 = (length t + 2) div 3 + 1" unfolding 4 by simp
    then have fits: "length (out @ chars3 a b c) + (length t + 2) div 3 * 4 \<le> cap" using 1(2) by (simp add: length_chars)
    then obtain e where "encode_loop cap t (out @ chars3 a b c) = Some ((out @ chars3 a b c) @ e)" "length e = (length t + 2) div 3 * 4"
      "\<forall>cap' buf. length buf + length t \<le> cap' \<longrightarrow> decode_loop cap' e buf = Some (Inr (buf @ t))"
      using 1(1) 4 by (metis length_Cons less_Suc_eq)
    moreover have "put_bytes cap out (chars3 a b c) = Some (out @ chars3 a b c)"
      using fits by (simp add: put_bytes_def)
    moreover have "(5 + length t) div 3 = Suc (Suc (Suc (length t)) div 3)" by presburger
    ultimately show ?thesis unfolding 4 using fits
      by (intro exI [of _ "chars3 a b c @ e"]) (simp add: encode_chars decode_chars length_chars put_bytes_def del: encode_loop.simps(1-3))
  qed
qed

lemma to_int_small: "n < 2 ^ 31 \<Longrightarrow> to_int n = int n"
  by (simp add: to_int_def signed_of_nat signed_take_bit_int_eq_self_iff)

lemma int_quot_nat: "int_quot (int n) (int k) = int (n div k)"
  by (simp add: int_quot_def zdiv_int)

text \<open>The sizes of the buffers.\<close>

lemma encode_size: "length s + 2 < 2 ^ 31 \<Longrightarrow> int_quot (to_int (length s + 2)) 3 * 4 = int ((length s + 2) div 3 * 4)"
  using int_quot_nat [of "length s + 2" 3] by (simp only: to_int_small of_nat_mult of_nat_numeral)

lemma decode_size: "length s + 3 < 2 ^ 31 \<Longrightarrow> int_quot (to_int (length s + 3)) 4 * 3 = int ((length s + 3) div 4 * 3)"
  using int_quot_nat [of "length s + 3" 4] by (simp only: to_int_small of_nat_mult of_nat_numeral)

text \<open>
  C21. Unless the size of the text is no \<open>int\<close>, \<open>base64encode\<close> never writes past its buffer and gives four characters for every three
  bytes begun, and \<open>base64decode\<close> reads them back to the same bytes.
\<close>

theorem base64_roundtrip:
  assumes size: "(length s + 2) div 3 * 4 < 2 ^ 31"
  shows "\<exists>e. lb64encode s = Some e \<and> length e = (length s + 2) div 3 * 4 \<and> lb64decode e = Some (Inr s)"
proof -
  let ?n = "(length s + 2) div 3 * 4"
  let ?cap = "if ?n > SMALL_CHUNK then ?n else SMALL_CHUNK"
  have "length ([] :: u8 list) + ?n \<le> ?cap" by simp
  from encode_loop_spec [OF this] obtain e where e: "encode_loop ?cap s [] = Some e" "length e = ?n"
    "\<forall>cap' buf. length buf + length s \<le> cap' \<longrightarrow> decode_loop cap' e buf = Some (Inr (buf @ s))"
    by (metis append_Nil)
  have n4: "?n + 4 \<le> 2 ^ 31" using size by simp
  then have "length e + 3 < 2 ^ 31" unfolding e(2) by linarith
  moreover have "length s \<le> (length e + 3) div 4 * 3" unfolding e(2) by presburger
  ultimately have "lb64decode e = Some (Inr s)" using e(3) by (simp add: lb64decode_def decode_size Let_def)
  moreover have "length s + 2 < (length s + 2) div 3 * 3 + 3" by (simp add: mult.commute [of _ 3] dividend_less_times_div)
  then have "length s + 2 < 2 ^ 31" using n4 by linarith
  then have "int_quot (to_int (length s + 2)) 3 * 4 = int ?n" by (rule encode_size)
  moreover have "int_range (int ?n) = Some (int ?n)" using size by (simp only: int_range_def) simp
  ultimately have "lb64encode s = Some e" using e(1,2) by (simp only: lb64encode_def Option.bind.bind_lunit Let_def of_nat_less_iff nat_int) simp
  then show ?thesis using e(2) \<open>lb64decode e = Some (Inr s)\<close> by blast
qed

theorem base64_roundtrip_witness:
  "\<exists>e. lb64encode [77, 97, 110, 255] = Some e \<and> length e = (length [77 :: u8, 97, 110, 255] + 2) div 3 * 4 \<and> lb64decode e = Some (Inr [77, 97, 110, 255])"
  by (rule base64_roundtrip) simp

text \<open>For a longer string the size overflows.\<close>

lemma base64_size_overflows:
  assumes "2 ^ 31 \<le> (length s + 2) div 3 * 4" and "length s + 2 < 2 ^ 31"
  shows "lb64encode s = None"
proof -
  have "\<not> int ((length s + 2) div 3 * 4) < 2 ^ 31" using assms(1) by simp
  then show ?thesis by (simp only: lb64encode_def encode_size [OF assms(2)] int_range_def simp_thms if_False Option.bind.bind_lzero)
qed

section \<open>Any text can be decoded without a crash\<close>

lemma read_group_rest: "read_group n s c p = Some (c', p', r) \<Longrightarrow> length r + n \<le> length s"
  by (induction n s c p rule: read_group.induct) (auto simp: Let_def split: if_splits)

lemma group_bytes_length: "group_bytes c p = Some bs \<Longrightarrow> length bs \<le> 3"
  by (auto simp: group_bytes_def Let_def split: if_splits)

lemma decode_loop_total: "length buf + 3 * (length s div 4) \<le> cap \<Longrightarrow> \<exists>r. decode_loop cap s buf = Some r"
proof (induction s arbitrary: buf rule: length_induct)
  case (1 s)
  show ?case
  proof (cases "s = [] \<or> read_group 4 s [] 0 = None")
    case True
    then show ?thesis by (subst decode_loop.simps) auto
  next
    case False
    then obtain c p r where g: "read_group 4 s [] 0 = Some (c, p, r)" by auto
    have r: "length r + 4 \<le> length s" using read_group_rest [OF g] .
    show ?thesis
    proof (cases "group_bytes c p")
      case None
      then show ?thesis using False g by (subst decode_loop.simps) simp
    next
      case (Some bs)
      have "length r div 4 + 1 \<le> length s div 4" using r by (metis Suc_eq_plus1 div_add_self2 div_le_mono zero_neq_numeral)
      then have fits: "length (buf @ bs) + 3 * (length r div 4) \<le> cap" using group_bytes_length [OF Some] 1(2) by simp
      then have "put_bytes cap buf bs = Some (buf @ bs)" by (simp add: put_bytes_def)
      moreover obtain res where "decode_loop cap r (buf @ bs) = Some res" using 1(1) r fits by fastforce
      ultimately show ?thesis using decode_step [OF g Some] False by simp
    qed
  qed
qed

text \<open>
  Whatever text of less than 2 GiB it is given, \<open>base64decode\<close> returns a result or raises an error: it
  terminates and never writes past its buffer.
\<close>

theorem base64_decode_safe:
  assumes "length s + 3 < 2 ^ 31"
  shows "\<exists>r. lb64decode s = Some r"
proof -
  have "(length s div 4) * 3 \<le> (length s + 3) div 4 * 3" by (simp add: div_le_mono)
  then show ?thesis unfolding lb64decode_def Let_def decode_size [OF assms] nat_int of_nat_less_iff by (intro decode_loop_total) (simp add: mult.commute)
qed

text \<open>A line feed at the end of a text makes \<open>base64decode\<close> raise an error.\<close>

lemma trailing_newline_rejected: "lb64decode (chars3 a b c @ [10]) = Some (Inl Invalid_base64)"
proof -
  have "b64index 10 = - 1" by code_simp
  then have "read_group 4 [10] [] 0 = None" by (simp add: numeral_eq_Suc)
  then have "decode_loop cap [10] buf = Some (Inl Invalid_base64)" for cap buf by (subst decode_loop.simps) simp
  moreover have "length (chars3 a b c @ [10]) + 3 < 2 ^ 31" by (simp add: length_chars)
  then have "int_quot (to_int (length (chars3 a b c @ [10]) + 3)) 4 * 3 = 6" by (simp only: decode_size) (simp add: length_chars)
  ultimately show ?thesis by (simp only: lb64decode_def) (simp add: decode_chars Let_def put_bytes_def SMALL_CHUNK_def length_chars)
qed

section \<open>Masks and random keys\<close>

lemma xor_str_length: "lxor_str s k = Inr t \<Longrightarrow> length t = length s"
  by (auto simp: lxor_str_def split: if_splits)

lemma xor_str_twice: "lxor_str s k = Inr t \<Longrightarrow> lxor_str t k = Inr s"
  by (auto simp: lxor_str_def xor.assoc intro!: nth_equalityI split: if_splits)

lemma length_randomkey: "length (lrandomkey rnd) = 8"
  by (simp add: lrandomkey_def Let_def)

text \<open>A random key is never eight zero bytes.\<close>

lemma randomkey_not_zero: "lrandomkey rnd \<noteq> replicate 8 0"
proof
  assume eq: "lrandomkey rnd = replicate 8 0"
  define tmp :: "u8 list" where "tmp = map (\<lambda>i. ucast (rnd i AND 0xFF)) [0..<8]"
  have key: "lrandomkey rnd = (if fold (XOR) tmp 0 = 0 then tmp[0 := tmp ! 0 OR 1] else tmp)"
    by (simp add: lrandomkey_def tmp_def Let_def)
  have len: "length tmp = 8" by (simp add: tmp_def)
  show False
  proof (cases "fold (XOR) tmp 0 = 0")
    case True
    then have "lrandomkey rnd ! 0 = tmp ! 0 OR 1" using key len by simp
    then have "tmp ! 0 OR 1 = 0" unfolding eq by simp
    then have "bit (tmp ! 0 OR 1) 0 = bit (0 :: u8) 0" by simp
    then show False by (simp add: bit_simps)
  next
    case False
    then have "tmp = replicate 8 0" using key eq by simp
    then show False using False by (simp add: numeral_eq_Suc)
  qed
qed

end
