(* ===== verification/Hmac.thy ===== *)
theory Hmac
  imports Encoding
begin

text \<open>
  The message digests of \<^verbatim>\<open>lualib-src/lua-crypt.c\<close>: the MD5 compression function without the final
  addition, and the 64-bit authentication codes built on it.  The reference is MD5 as
  RFC 1321 describes it, on byte strings of any length; what the comment of \<open>lhmac64_md5\<close> says about it is
  proved.  \<open>uint32_t w[16]\<close> is a list of 16 words, a pair \<open>uint32_t x[2]\<close> a pair of words.
\<close>

section \<open>The code\<close>

definition md5_k :: "u32 list" where
  "md5_k = [
     0xd76aa478, 0xe8c7b756, 0x242070db, 0xc1bdceee, 0xf57c0faf, 0x4787c62a, 0xa8304613, 0xfd469501,
     0x698098d8, 0x8b44f7af, 0xffff5bb1, 0x895cd7be, 0x6b901122, 0xfd987193, 0xa679438e, 0x49b40821,
     0xf61e2562, 0xc040b340, 0x265e5a51, 0xe9b6c7aa, 0xd62f105d, 0x02441453, 0xd8a1e681, 0xe7d3fbc8,
     0x21e1cde6, 0xc33707d6, 0xf4d50d87, 0x455a14ed, 0xa9e3e905, 0xfcefa3f8, 0x676f02d9, 0x8d2a4c8a,
     0xfffa3942, 0x8771f681, 0x6d9d6122, 0xfde5380c, 0xa4beea44, 0x4bdecfa9, 0xf6bb4b60, 0xbebfbc70,
     0x289b7ec6, 0xeaa127fa, 0xd4ef3085, 0x04881d05, 0xd9d4d039, 0xe6db99e5, 0x1fa27cf8, 0xc4ac5665,
     0xf4292244, 0x432aff97, 0xab9423a7, 0xfc93a039, 0x655b59c3, 0x8f0ccc92, 0xffeff47d, 0x85845dd1,
     0x6fa87e4f, 0xfe2ce6e0, 0xa3014314, 0x4e0811a1, 0xf7537e82, 0xbd3af235, 0x2ad7d2bb, 0xeb86d391]"

definition md5_r :: "nat list" where
  "md5_r = [
     7, 12, 17, 22, 7, 12, 17, 22, 7, 12, 17, 22, 7, 12, 17, 22,
     5, 9, 14, 20, 5, 9, 14, 20, 5, 9, 14, 20, 5, 9, 14, 20,
     4, 11, 16, 23, 4, 11, 16, 23, 4, 11, 16, 23, 4, 11, 16, 23,
     6, 10, 15, 21, 6, 10, 15, 21, 6, 10, 15, 21, 6, 10, 15, 21]"

definition LEFTROTATE :: "u32 \<Rightarrow> nat \<Rightarrow> u32" where
  "LEFTROTATE x c = push_bit c x OR drop_bit (32 - c) x"

definition md5_step :: "u32 list \<Rightarrow> nat \<Rightarrow> u32 \<times> u32 \<times> u32 \<times> u32 \<Rightarrow> u32 \<times> u32 \<times> u32 \<times> u32" where
  "md5_step w i = (\<lambda>(a, b, c, d).
     let (f, g) =
        (if i < 16 then ((b AND c) OR (NOT b AND d), i)
         else if i < 32 then ((d AND b) OR (NOT d AND c), (5 * i + 1) mod 16)
         else if i < 48 then (b XOR c XOR d, (3 * i + 5) mod 16)
         else (c XOR (b OR NOT d), (7 * i) mod 16))
     in (d, b + LEFTROTATE (a + f + md5_k ! i + w ! g) (md5_r ! i), b, c))"

definition digest_md5 :: "u32 list \<Rightarrow> u32 \<times> u32 \<times> u32 \<times> u32" where
  "digest_md5 w = fold (md5_step w) [0..<64] (0x67452301, 0xefcdab89, 0x98badcfe, 0x10325476)"

definition hmac :: "u32 \<times> u32 \<Rightarrow> u32 \<times> u32 \<Rightarrow> u32 \<times> u32" where
  "hmac = (\<lambda>(x0, x1) (y0, y1).
     let w = concat (replicate 4 [x1, x0, y1, y0]);
         (r0, r1, r2, r3) = digest_md5 w
     in (r2 XOR r3, r0 XOR r1))"

definition hmac_md5 :: "u32 \<times> u32 \<Rightarrow> u32 \<times> u32 \<Rightarrow> u32 \<times> u32" where
  "hmac_md5 = (\<lambda>(x0, x1) (y0, y1).
     let w = concat (replicate 3 [x0, x1, y0, y1]) @ [0x80, 0, 384, 0];
         (r0, r1, r2, r3) = digest_md5 w
     in ((r0 + 0x67452301) XOR (r2 + 0x98badcfe), (r1 + 0xefcdab89) XOR (r3 + 0x10325476)))"

datatype key_error = Invalid_uint64_x | Invalid_uint64_y | Invalid_dh_key | Cannot_be_0

definition word_le :: "u8 list \<Rightarrow> nat \<Rightarrow> u32" where
  "word_le x i = ucast (x ! i) OR push_bit 8 (ucast (x ! (i + 1))) OR push_bit 16 (ucast (x ! (i + 2))) OR
     push_bit 24 (ucast (x ! (i + 3)))"

definition read64 :: "u8 list \<Rightarrow> u8 list \<Rightarrow> key_error + (u32 \<times> u32) \<times> (u32 \<times> u32)" where
  "read64 x y =
     (if length x \<noteq> 8 then Inl Invalid_uint64_x
      else if length y \<noteq> 8 then Inl Invalid_uint64_y
      else Inr ((word_le x 0, word_le x 4), (word_le y 0, word_le y 4)))"

definition pushqword :: "u32 \<times> u32 \<Rightarrow> u8 list" where
  "pushqword = (\<lambda>(r0, r1). bytes_le r0 @ bytes_le r1)"

definition lhmac64 :: "u8 list \<Rightarrow> u8 list \<Rightarrow> key_error + u8 list" where
  "lhmac64 x y = (case read64 x y of Inl e \<Rightarrow> Inl e | Inr (xx, yy) \<Rightarrow> Inr (pushqword (hmac xx yy)))"

definition lhmac64_md5 :: "u8 list \<Rightarrow> u8 list \<Rightarrow> key_error + u8 list" where
  "lhmac64_md5 x y = (case read64 x y of Inl e \<Rightarrow> Inl e | Inr (xx, yy) \<Rightarrow> Inr (pushqword (hmac_md5 xx yy)))"

definition lhmac_hash :: "u8 list \<Rightarrow> u8 list \<Rightarrow> key_error + u8 list" where
  "lhmac_hash x txt =
     (if length x \<noteq> 8 then Inl Invalid_uint64_x
      else let h = Hash txt
           in Inr (pushqword (hmac (word_le h 0, word_le h 4) (word_le x 0, word_le x 4))))"

section \<open>MD5 as RFC 1321 describes it\<close>

definition md5_F :: "u32 \<Rightarrow> u32 \<Rightarrow> u32 \<Rightarrow> u32" where "md5_F x y z = (x AND y) OR (NOT x AND z)"
definition md5_G :: "u32 \<Rightarrow> u32 \<Rightarrow> u32 \<Rightarrow> u32" where "md5_G x y z = (x AND z) OR (y AND NOT z)"
definition md5_H :: "u32 \<Rightarrow> u32 \<Rightarrow> u32 \<Rightarrow> u32" where "md5_H x y z = x XOR y XOR z"
definition md5_I :: "u32 \<Rightarrow> u32 \<Rightarrow> u32 \<Rightarrow> u32" where "md5_I x y z = y XOR (x OR NOT z)"

text \<open>The words of the block each operation takes, and its shift, per round.\<close>

definition rfc_words :: "nat list" where
  "rfc_words = [0, 1, 2, 3, 4, 5, 6, 7, 8, 9, 10, 11, 12, 13, 14, 15,
     1, 6, 11, 0, 5, 10, 15, 4, 9, 14, 3, 8, 13, 2, 7, 12,
     5, 8, 11, 14, 1, 4, 7, 10, 13, 0, 3, 6, 9, 12, 15, 2,
     0, 7, 14, 5, 12, 3, 10, 1, 8, 15, 6, 13, 4, 11, 2, 9]"

definition rfc_shifts :: "nat list list" where
  "rfc_shifts = [[7, 12, 17, 22], [5, 9, 14, 20], [4, 11, 16, 23], [6, 10, 15, 21]]"

text \<open>The operation \<open>i\<close> changes one of the four registers: \<open>A\<close>, \<open>D\<close>, \<open>C\<close>, \<open>B\<close>, \<open>A\<close>, ...\<close>

definition rfc_op :: "u32 list \<Rightarrow> nat \<Rightarrow> u32 list \<Rightarrow> u32 list" where
  "rfc_op x i regs =
     (let ra = (64 - i) mod 4;
          a = regs ! ra; b = regs ! ((ra + 1) mod 4); c = regs ! ((ra + 2) mod 4); d = regs ! ((ra + 3) mod 4);
          f = [md5_F, md5_G, md5_H, md5_I] ! (i div 16);
          s = rfc_shifts ! (i div 16) ! (i mod 4)
      in regs[ra := b + word_rotl s (a + f b c d + x ! (rfc_words ! i) + md5_k ! i)])"

definition md5_init :: "u32 list" where "md5_init = [0x67452301, 0xefcdab89, 0x98badcfe, 0x10325476]"

definition rfc_block :: "u32 list \<Rightarrow> u32 list \<Rightarrow> u32 list" where
  "rfc_block x regs = map2 (+) regs (fold (rfc_op x) [0..<64] regs)"

text \<open>Padding: a one bit, zeros up to 56 modulo 64 bytes, the length in bits as 64 bits.\<close>

definition md5_pad :: "u8 list \<Rightarrow> u8 list" where
  "md5_pad m = m @ [0x80] @ replicate ((119 - length m mod 64) mod 64) 0 @
     (let bits = of_nat (8 * length m) :: u64 in bytes_le (ucast bits) @ bytes_le (ucast (drop_bit 32 bits)))"

fun md5_words :: "u8 list \<Rightarrow> u32 list" where
  "md5_words (a # b # c # d # r) = word_le [a, b, c, d] 0 # md5_words r"
| "md5_words _ = []"

fun md5_blocks :: "nat \<Rightarrow> u32 list \<Rightarrow> u32 list \<Rightarrow> u32 list" where
  "md5_blocks 0 w regs = regs"
| "md5_blocks (Suc n) w regs = md5_blocks n (drop 16 w) (rfc_block (take 16 w) regs)"

definition md5 :: "u8 list \<Rightarrow> u8 list" where
  "md5 m = (let w = md5_words (md5_pad m)
            in concat (map bytes_le (md5_blocks (length w div 16) w md5_init)))"

section \<open>The code computes MD5\<close>

definition tables_agree :: "nat \<Rightarrow> bool" where
  "tables_agree i \<longleftrightarrow> md5_r ! i = rfc_shifts ! (i div 16) ! (i mod 4) \<and> md5_r ! i < 32 \<and> rfc_words ! i =
     (if i < 16 then i else if i < 32 then (5 * i + 1) mod 16 else if i < 48 then (3 * i + 5) mod 16 else (7 * i) mod 16)"

lemma md5_tables: "i < 64 \<Longrightarrow> tables_agree i"
proof -
  have "list_all tables_agree [0..<64]" by code_simp
  then show "i < 64 \<Longrightarrow> tables_agree i" by (simp add: list_all_iff)
qed

lemma rotate_eq:
  assumes "s < 32"
  shows "LEFTROTATE x s = word_rotl s x"
proof (rule bit_word_eqI)
  fix n
  assume n: "n < LENGTH(32)"
  show "bit (LEFTROTATE x s) n \<longleftrightarrow> bit (word_rotl s x) n"
  proof (cases "s \<le> n")
    case True
    then have "(n + (32 - s mod 32)) mod 32 = n - s" using assms n by (simp add: mod_if)
    then show ?thesis using True assms n by (auto simp: LEFTROTATE_def bit_simps dest: bit_imp_le_length)
  next
    case False
    then have "(n + (32 - s mod 32)) mod 32 = n + (32 - s)" using assms n by simp
    then show ?thesis using False assms n by (auto simp: LEFTROTATE_def bit_simps add.commute [of 32 n])
  qed
qed

lemma round_function:
  assumes "i < 64"
  shows "([md5_F, md5_G, md5_H, md5_I] ! (i div 16)) b c d =
    (if i < 16 then (b AND c) OR (NOT b AND d) else if i < 32 then (d AND b) OR (NOT d AND c)
     else if i < 48 then b XOR c XOR d else c XOR (b OR NOT d))"
proof -
  consider "i < 16" | "16 \<le> i" "i < 32" | "32 \<le> i" "i < 48" | "48 \<le> i" "i < 64" using assms by fastforce
  then show ?thesis
  proof cases
    case 2
    then have "i div 16 = 1" by simp
    then show ?thesis using 2 by (simp add: md5_G_def ac_simps)
  next
    case 3
    then have "i div 16 = 2" by simp
    then show ?thesis using 3 by (simp add: md5_H_def ac_simps)
  next
    case 4
    then have "i div 16 = 3" by simp
    then show ?thesis using 4 by (simp add: md5_I_def ac_simps)
  qed (simp add: md5_F_def)
qed

text \<open>The variables of the code are the registers, rotated.\<close>

definition rotated :: "nat \<Rightarrow> u32 list \<Rightarrow> u32 \<times> u32 \<times> u32 \<times> u32" where
  "rotated i regs =
     (let ra = (64 - i) mod 4
      in (regs ! ra, regs ! ((ra + 1) mod 4), regs ! ((ra + 2) mod 4), regs ! ((ra + 3) mod 4)))"

lemma md5_step_eq:
  "i < 64 \<Longrightarrow> md5_step w i (a, b, c, d) = (d, b + word_rotl (rfc_shifts ! (i div 16) ! (i mod 4))
     (a + ([md5_F, md5_G, md5_H, md5_I] ! (i div 16)) b c d + w ! (rfc_words ! i) + md5_k ! i), b, c)"
  using md5_tables [of i] by (simp add: md5_step_def round_function rotate_eq tables_agree_def Let_def ac_simps)

definition register_order :: "nat \<Rightarrow> bool" where
  "register_order i \<longleftrightarrow> (64 - i) mod 4 = 0 \<and> (64 - Suc i) mod 4 = 3 \<or> (64 - i) mod 4 = 1 \<and> (64 - Suc i) mod 4 = 0 \<or>
      (64 - i) mod 4 = 2 \<and> (64 - Suc i) mod 4 = 1 \<or> (64 - i) mod 4 = 3 \<and> (64 - Suc i) mod 4 = 2"

lemma register_orders: "list_all register_order [0..<64]"
  by code_simp

lemma length_rfc_op: "length (rfc_op w i regs) = length regs"
  by (simp add: rfc_op_def Let_def)

lemma rotated_step:
  assumes "i < 64" and "length regs = 4"
  shows "md5_step w i (rotated i regs) = rotated (Suc i) (rfc_op w i regs)"
proof -
  obtain r0 r1 r2 r3 where regs: "regs = [r0, r1, r2, r3]" using assms(2) by (auto simp: length_Suc_conv numeral_eq_Suc)
  have "register_order i" using assms(1) register_orders by (simp add: list_all_iff)
  then show ?thesis unfolding register_order_def
    by (elim disjE conjE) (simp_all add: rotated_def rfc_op_def md5_step_eq [OF assms(1)] regs Let_def)
qed

lemma fold_md5_step:
  assumes "length regs = 4"
  shows "n \<le> 64 \<Longrightarrow> length (fold (rfc_op w) [0..<n] regs) = 4 \<and>
    fold (md5_step w) [0..<n] (rotated 0 regs) = rotated n (fold (rfc_op w) [0..<n] regs)"
proof (induction n)
  case 0
  then show ?case using assms by simp
next
  case (Suc n)
  then have ih: "length (fold (rfc_op w) [0..<n] regs) = 4"
    "fold (md5_step w) [0..<n] (rotated 0 regs) = rotated n (fold (rfc_op w) [0..<n] regs)" by auto
  have "md5_step w n (rotated n (fold (rfc_op w) [0..<n] regs)) = rotated (Suc n) (rfc_op w n (fold (rfc_op w) [0..<n] regs))"
    using rotated_step [OF _ ih(1)] Suc.prems by simp
  then show ?case using ih by (simp add: length_rfc_op)
qed

lemma rfc_block_digest:
  "rfc_block w md5_init = (case digest_md5 w of (r0, r1, r2, r3) \<Rightarrow>
     [0x67452301 + r0, 0xefcdab89 + r1, 0x98badcfe + r2, 0x10325476 + r3])"
proof -
  let ?regs = "fold (rfc_op w) [0..<64] md5_init"
  have init: "length md5_init = 4" "rotated 0 md5_init = (0x67452301, 0xefcdab89, 0x98badcfe, 0x10325476)"
    by (simp_all add: md5_init_def rotated_def)
  have f: "length ?regs = 4" "digest_md5 w = rotated 64 ?regs"
    using fold_md5_step [OF init(1), of 64 w] unfolding digest_md5_def init(2) by simp_all
  obtain r0 r1 r2 r3 where "?regs = [r0, r1, r2, r3]" using f(1) by (auto simp: length_Suc_conv numeral_eq_Suc)
  then show ?thesis using f(2) by (simp add: rfc_block_def rotated_def md5_init_def)
qed

section \<open>The 64-bit code is a folded MD5\<close>

lemma bytes_le_xor: "bytes_le (x XOR y) = map2 (XOR) (bytes_le x) (bytes_le y)"
  by (auto simp: bytes_le_def bit_simps intro!: bit_word_eqI)

lemma md5_words_8: "length x = 8 \<Longrightarrow> md5_words (x @ r) = word_le x 0 # word_le x 4 # md5_words r"
proof -
  assume "length x = 8"
  then obtain x0 x1 x2 x3 x4 x5 x6 x7 where x: "x = [x0, x1, x2, x3, x4, x5, x6, x7]"
    by (auto simp: length_Suc_conv numeral_eq_Suc)
  show ?thesis by (simp add: x word_le_def)
qed

lemma replicate_3: "replicate 3 z = [z, z, z]"
  by (simp add: numeral_eq_Suc)

lemma md5_48:
  assumes "length x = 8" and "length y = 8"
  shows "md5_words (md5_pad (concat (replicate 3 (x @ y)))) =
    concat (replicate 3 [word_le x 0, word_le x 4, word_le y 0, word_le y 4]) @ [0x80, 0, 384, 0]"
proof -
  let ?tail = "0x80 # replicate 7 0 @ bytes_le (ucast (384 :: u64)) @ bytes_le (ucast (drop_bit 32 (384 :: u64)))"
  have tail: "md5_words ?tail = [0x80, 0, 384, 0]" by code_simp
  have "length (concat (replicate 3 (x @ y))) = 48" unfolding replicate_3 using assms by simp
  then have "md5_pad (concat (replicate 3 (x @ y))) = concat (replicate 3 (x @ y)) @ ?tail"
    by (simp add: md5_pad_def Let_def)
  then show ?thesis unfolding replicate_3
    by (simp only: concat.simps append_assoc append_Nil append_Nil2 md5_words_8 [OF assms(1)] md5_words_8 [OF assms(2)] tail append_Cons)
qed

text \<open>
  C22. The comment of \<open>lhmac64_md5\<close> is right: the code of two 8-byte strings is the MD5 digest of
  their concatenation written three times, its two halves added bitwise.
\<close>

theorem hmac64_md5_is_md5:
  assumes "length x = 8" and "length y = 8"
  shows "\<exists>h. lhmac64_md5 x y = Inr h \<and> length h = 8 \<and>
    lxor_str (take 8 (md5 (concat (replicate 3 (x @ y))))) (drop 8 (md5 (concat (replicate 3 (x @ y))))) = Inr h"
proof -
  let ?w = "concat (replicate 3 [word_le x 0, word_le x 4, word_le y 0, word_le y 4]) @ [0x80, 0, 384, 0]"
  obtain r0 r1 r2 r3 where d: "digest_md5 ?w = (r0, r1, r2, r3)" by (cases "digest_md5 ?w") auto
  have len: "length ?w = 16" by (simp add: replicate_3)
  have "md5 (concat (replicate 3 (x @ y))) = concat (map bytes_le (md5_blocks (length ?w div 16) ?w md5_init))"
    unfolding md5_def md5_48 [OF assms] Let_def ..
  also have "md5_blocks (length ?w div 16) ?w md5_init = rfc_block ?w md5_init" using len
    by (simp only: len div_self md5_blocks.simps One_nat_def take_all order.refl zero_neq_numeral [symmetric] not_False_eq_True)
  finally have m: "md5 (concat (replicate 3 (x @ y))) =
      concat (map bytes_le [0x67452301 + r0, 0xefcdab89 + r1, 0x98badcfe + r2, 0x10325476 + r3])"
    unfolding rfc_block_digest d by simp
  have h: "lhmac64_md5 x y = Inr (bytes_le ((r0 + 0x67452301) XOR (r2 + 0x98badcfe)) @ bytes_le ((r1 + 0xefcdab89) XOR (r3 + 0x10325476)))"
    using d assms by (simp add: lhmac64_md5_def read64_def hmac_md5_def pushqword_def)
  have "lxor_str (bytes_le p @ bytes_le q) (bytes_le p' @ bytes_le q') = Inr (bytes_le (p XOR p') @ bytes_le (q XOR q'))" for p q p' q'
    unfolding bytes_le_xor by (simp add: lxor_str_def bytes_le_def upt_rec)
  then show ?thesis unfolding m h by (simp add: bytes_le_def add.commute)
qed

lemma hmac64_md5_is_md5_witness:
  "\<exists>h. lhmac64_md5 [1, 2, 3, 4, 5, 6, 7, 8] [0, 0, 0, 0, 0, 0, 0, 9] = Inr h \<and> length h = 8 \<and>
    lxor_str (take 8 (md5 (concat (replicate 3 ([1, 2, 3, 4, 5, 6, 7, 8] @ [0, 0, 0, 0, 0, 0, 0, 9])))))
      (drop 8 (md5 (concat (replicate 3 ([1, 2, 3, 4, 5, 6, 7, 8] @ [0, 0, 0, 0, 0, 0, 0, 9]))))) = Inr h"
  by (rule hmac64_md5_is_md5) simp_all

end
