(* ===== verification/DhKey.thy ===== *)
theory DhKey
  imports Hmac
begin

text \<open>
  The 64-bit Diffie-Hellman exchange of \<^verbatim>\<open>lualib-src/lua-crypt.c\<close>: multiplication and power modulo
  the biggest 64-bit prime, in 64-bit words, and the two Lua functions.  \<open>pow_mod_p\<close> recurses for
  ever on the exponent 0 (\<open>None\<close>).
\<close>

section \<open>The code\<close>

definition DH_P :: u64 where "DH_P = 0xffffffffffffffc5"
definition DH_G :: u64 where "DH_G = 5"

lemma unat_half: "unat (drop_bit 1 (b :: u64)) = unat b div 2"
  by (simp add: unat_shiftr del: One_nat_def)

function mul_loop :: "u64 \<Rightarrow> u64 \<Rightarrow> u64 \<Rightarrow> u64" where
  "mul_loop a b m =
     (if b = 0 then m
      else
        let m1 = (if b AND 1 \<noteq> 0 then
                    let t = DH_P - a in if m \<ge> t then m - t else m + a
                  else m);
            a1 = (if a \<ge> DH_P - a then a * 2 - DH_P else a * 2)
        in mul_loop a1 (drop_bit 1 b) m1)"
  by auto

termination mul_loop
  by (relation "measure (\<lambda>(a, b, m). unat b)") (simp_all add: unat_half unat_gt_0 del: One_nat_def)

declare mul_loop.simps [simp del]

definition mul_mod_p :: "u64 \<Rightarrow> u64 \<Rightarrow> u64" where
  "mul_mod_p a b = mul_loop a b 0"

partial_function (option) pow_mod_p :: "u64 \<Rightarrow> u64 \<Rightarrow> u64 option" where
  "pow_mod_p a b =
     (if b = 1 then Some a
      else do {
        t \<leftarrow> pow_mod_p a (drop_bit 1 b);
        let t1 = mul_mod_p t t;
        Some (if b mod 2 \<noteq> 0 then mul_mod_p t1 a else t1) })"

definition powmodp :: "u64 \<Rightarrow> u64 \<Rightarrow> u64 option" where
  "powmodp a b = pow_mod_p (if a > DH_P then a mod DH_P else a) b"

definition push64 :: "u64 \<Rightarrow> u8 list" where
  "push64 r = [ucast (r AND 0xFF), ucast (drop_bit 8 r AND 0xFF), ucast (drop_bit 16 r AND 0xFF), ucast (drop_bit 24 r AND 0xFF),
     ucast (drop_bit 32 r AND 0xFF), ucast (drop_bit 40 r AND 0xFF), ucast (drop_bit 48 r AND 0xFF), ucast (drop_bit 56 r AND 0xFF)]"

definition join64 :: "u32 \<times> u32 \<Rightarrow> u64" where
  "join64 = (\<lambda>(x0, x1). ucast x0 OR push_bit 32 (ucast x1))"

definition ldhsecret :: "u8 list \<Rightarrow> u8 list \<Rightarrow> (key_error + u8 list) option" where
  "ldhsecret x y =
     (case read64 x y of
        Inl e \<Rightarrow> Some (Inl e)
      | Inr (x2, y2) \<Rightarrow>
          let xx = join64 x2; yy = join64 y2
          in if xx = 0 \<or> yy = 0 then Some (Inl Cannot_be_0)
             else do { r \<leftarrow> powmodp xx yy; Some (Inr (push64 r)) })"

definition ldhexchange :: "u8 list \<Rightarrow> (key_error + u8 list) option" where
  "ldhexchange x =
     (if length x \<noteq> 8 then Some (Inl Invalid_dh_key)
      else
        let x64 = join64 (word_le x 0, word_le x 4)
        in if x64 = 0 then Some (Inl Cannot_be_0)
           else do { r \<leftarrow> powmodp DH_G x64; Some (Inr (push64 r)) })"

section \<open>Modular arithmetic in 64 bits\<close>

abbreviation prime64 :: nat where "prime64 \<equiv> 0xffffffffffffffc5"

lemma unat_P: "unat DH_P = prime64"
  by (simp add: DH_P_def)

lemma add_mod_P:
  assumes "unat a \<le> prime64" and "unat m < prime64"
  shows "unat (if m \<ge> DH_P - a then m - (DH_P - a) else m + a) = (unat m + unat a) mod prime64"
proof -
  have t: "unat (DH_P - a) = prime64 - unat a" using assms(1) unat_P by (simp add: unat_sub word_le_nat_alt)
  show ?thesis
  proof (cases "m \<ge> DH_P - a")
    case True
    then have "unat (m - (DH_P - a)) = unat m - (prime64 - unat a)" by (simp only: unat_sub t)
    moreover have ge: "prime64 - unat a \<le> unat m" using True unfolding word_le_nat_alt t .
    have "prime64 \<le> unat m + unat a" "unat m + unat a - prime64 < prime64" using ge assms by linarith+
    then have "(unat m + unat a) mod prime64 = unat m + unat a - prime64" by (simp only: le_mod_geq mod_less)
    moreover have "unat m - (prime64 - unat a) = unat m + unat a - prime64" using ge assms(1) by linarith
    ultimately show ?thesis using True by (simp only: if_True)
  next
    case False
    then have "unat m + unat a < prime64" using assms unfolding word_le_nat_alt t by linarith
    moreover from this have "unat (m + a) = unat m + unat a" by (simp add: unat_plus_simple [THEN iffD1] word_le_nat_alt unat_word_ariths)
    ultimately show ?thesis using False by simp
  qed
qed

lemma double_mod_P:
  fixes a :: u64
  assumes "unat a \<le> prime64"
  defines "a1 \<equiv> (if a \<ge> DH_P - a then a * 2 - DH_P else a * 2)"
  shows "unat a1 \<le> prime64 \<and> unat a1 mod prime64 = 2 * unat a mod prime64"
proof -
  have t: "unat (DH_P - a) = prime64 - unat a" using assms(1) unat_P by (simp add: unat_sub word_le_nat_alt)
  show ?thesis
  proof (cases "a \<ge> DH_P - a")
    case True
    have "a * 2 - DH_P = a - (DH_P - a)" by simp
    then have "unat a1 = unat a - (prime64 - unat a)" using True by (simp only: a1_def if_True unat_sub t)
    moreover have le: "prime64 - unat a \<le> unat a" using True unfolding word_le_nat_alt t .
    ultimately have a1: "unat a1 + prime64 = 2 * unat a" using assms(1) by linarith
    then have "2 * unat a mod prime64 = unat a1 mod prime64" by (metis mod_add_self2)
    then show ?thesis using a1 assms(1) by linarith
  next
    case False
    then have lt: "2 * unat a < prime64" using assms(1) unfolding word_le_nat_alt t by linarith
    have "unat a1 = 2 * unat a" using False lt by (simp add: a1_def unat_word_ariths mult.commute)
    then show ?thesis using lt by simp
  qed
qed

lemma mod_step: "y mod p = w mod p \<Longrightarrow> (x mod p + y * z) mod p = (x + w * z) mod (p :: nat)"
  by (metis mod_add_cong mod_mod_trivial mod_mult_cong)

lemma halves: "(m :: nat) + a * (b mod 2) + 2 * a * (b div 2) = m + a * b"
proof -
  have "a * b = a * (b mod 2) + 2 * a * (b div 2)"
    by (subst mod_mult_div_eq [of b 2, symmetric]) (simp only: distrib_left mult.assoc mult.commute mult.left_commute)
  then show ?thesis by simp
qed

lemma mul_loop_spec:
  "unat a \<le> prime64 \<Longrightarrow> unat m < prime64 \<Longrightarrow>
   unat (mul_loop a b m) = (unat m + unat a * unat b) mod prime64"
proof (induction a b m rule: mul_loop.induct)
  case (1 a b m)
  show ?case
  proof (cases "b = 0")
    case True
    then show ?thesis using 1(3) by (simp add: mul_loop.simps)
  next
    case False
    define m1 where "m1 = (if b AND 1 \<noteq> 0 then let t = DH_P - a in if m \<ge> t then m - t else m + a else m)"
    define a1 where "a1 = (if a \<ge> DH_P - a then a * 2 - DH_P else a * 2)"
    have a1: "unat a1 \<le> prime64" "unat a1 mod prime64 = 2 * unat a mod prime64"
      using double_mod_P [OF 1(2)] by (simp_all only: a1_def)
    have bit: "unat b mod 2 = (if b AND 1 \<noteq> 0 then 1 else 0)"
    proof -
      have "unat (b AND 1) = unat b mod 2" using unat_and_mask [of b 1] by (simp add: mask_eq_exp_minus_1)
      moreover have "unat b mod 2 = 0 \<or> unat b mod 2 = 1" by linarith
      ultimately show ?thesis by (metis unat_eq_0)
    qed
    have m1: "unat m1 = (unat m + unat a * (unat b mod 2)) mod prime64"
      unfolding m1_def bit Let_def using add_mod_P [OF 1(2,3)] 1(3) by (cases "b AND 1 \<noteq> 0") simp_all
    then have small: "unat m1 < prime64" by simp
    have "unat (mul_loop a b m) = unat (mul_loop a1 (drop_bit 1 b) m1)"
      using False by (subst mul_loop.simps) (simp only: Let_def m1_def a1_def if_False)
    also have "\<dots> = (unat m1 + unat a1 * (unat b div 2)) mod prime64"
      using 1(1) [OF False, of m1 a1] a1(1) small unfolding m1_def a1_def unat_half by simp
    also have "\<dots> = (unat m + unat a * (unat b mod 2) + 2 * unat a * (unat b div 2)) mod prime64"
      unfolding m1 by (rule mod_step [OF a1(2)])
    also have "unat m + unat a * (unat b mod 2) + 2 * unat a * (unat b div 2) = unat m + unat a * unat b" by (rule halves)
    finally show ?thesis .
  qed
qed

lemma mul_mod_p_spec:
  assumes "unat a \<le> prime64"
  shows "unat (mul_mod_p a b) = unat a * unat b mod prime64" and "unat (mul_mod_p a b) < prime64"
  using mul_loop_spec [OF assms, of 0 b] by (simp_all add: mul_mod_p_def)

lemma mod_square: "t mod p = a ^ k mod p \<Longrightarrow> t * t mod p = a ^ (2 * k) mod (p :: nat)"
  by (metis mod_mult_cong mult_2 power_add)

lemma mod_times: "x = a ^ k mod p \<Longrightarrow> x * a mod p = a ^ Suc k mod (p :: nat)"
  by (simp add: mod_mult_right_eq mult.commute)

lemma pow_mod_p_spec:
  "b \<noteq> 0 \<Longrightarrow> unat a \<le> prime64 \<Longrightarrow>
   \<exists>r. pow_mod_p a b = Some r \<and> unat r \<le> prime64 \<and> unat r mod prime64 = unat a ^ unat b mod prime64 \<and>
     (unat a < prime64 \<longrightarrow> unat r < prime64)"
proof (induction "unat b" arbitrary: b rule: less_induct)
  case less
  show ?case
  proof (cases "b = 1")
    case True
    then show ?thesis using less.prems(2) by (subst pow_mod_p.simps) simp
  next
    case False
    define c where "c = drop_bit 1 b"
    have c: "unat c = unat b div 2" unfolding c_def by (rule unat_half)
    have pos: "0 < unat b" "unat b \<noteq> 1" using less.prems(1) False by (metis unat_gt_0, metis unat_1 word_unat_eq_iff)
    then have lt: "unat c < unat b" "c \<noteq> 0" using c by (auto simp: unat_eq_0 [symmetric])
    obtain t where t: "pow_mod_p a c = Some t" "unat t \<le> prime64" "unat t mod prime64 = unat a ^ unat c mod prime64"
      using less.hyps [OF lt less.prems(2)] by blast
    define t1 where "t1 = mul_mod_p t t"
    have t1: "unat t1 = unat a ^ (2 * unat c) mod prime64" "unat t1 < prime64"
      unfolding t1_def mul_mod_p_spec(1) [OF t(2)] by (rule mod_square [OF t(3)]) simp
    have step: "pow_mod_p a b = Some (if b mod 2 \<noteq> 0 then mul_mod_p t1 a else t1)"
      using False t(1) by (subst pow_mod_p.simps) (simp add: t1_def c_def [symmetric] del: One_nat_def)
    have "unat (b mod 2) = unat b mod 2" by (simp add: unat_mod_distrib)
    then have parity: "b mod 2 \<noteq> 0 \<longleftrightarrow> unat b mod 2 = 1" by (metis not_mod_2_eq_1_eq_0 unat_eq_0 zero_neq_one)
    show ?thesis
    proof (cases "b mod 2 \<noteq> 0")
      case True
      then have "unat b mod 2 = 1" using parity by blast
      then have e: "unat b = Suc (2 * unat c)" using mult_div_mod_eq [of 2 "unat b"] unfolding c by linarith
      have "unat (mul_mod_p t1 a) = unat a ^ unat b mod prime64"
        unfolding e mul_mod_p_spec(1) [OF less_imp_le [OF t1(2)]] by (rule mod_times [OF t1(1)])
      then show ?thesis using step True mul_mod_p_spec(2) [of t1 a] t1(2) by simp
    next
      case False
      then have "unat b mod 2 \<noteq> 1" using parity by argo
      then have "unat b mod 2 = 0" by simp
      then have e: "unat b = 2 * unat c" using mult_div_mod_eq [of 2 "unat b"] unfolding c by linarith
      then show ?thesis using step False t1 by simp
    qed
  qed
qed

lemma powmodp_spec:
  assumes "b \<noteq> 0"
  shows "\<exists>r. powmodp a b = Some r \<and> unat r \<le> prime64 \<and> unat r mod prime64 = unat a ^ unat b mod prime64 \<and>
     (a \<noteq> DH_P \<longrightarrow> unat r < prime64)"
proof (cases "a > DH_P")
  case True
  have m: "unat (a mod DH_P) = unat a mod prime64" by (simp only: unat_mod_distrib unat_P)
  then have lt: "unat (a mod DH_P) < prime64" by simp
  obtain r where "pow_mod_p (a mod DH_P) b = Some r" "unat r \<le> prime64" "unat r mod prime64 = (unat a mod prime64) ^ unat b mod prime64"
    "unat r < prime64"
    using pow_mod_p_spec [OF assms, of "a mod DH_P"] lt unfolding m by auto
  then show ?thesis using True by (simp add: powmodp_def power_mod)
next
  case False
  then have le: "unat a \<le> prime64" using unat_P by (simp add: word_le_nat_alt not_less)
  moreover have "a \<noteq> DH_P \<Longrightarrow> unat a < prime64" using le unat_P by (metis le_neq_implies_less word_unat_eq_iff)
  ultimately show ?thesis using pow_mod_p_spec [OF assms le] False by (auto simp: powmodp_def)
qed

text \<open>The recursion never returns for the exponent 0; the callers exclude it.\<close>

lemma pow_mod_p_diverges: "pow_mod_p a 0 = None"
proof -
  have "pow_mod_p a b = Some r \<Longrightarrow> b \<noteq> 0" for a b r
    by (erule pow_mod_p.raw_induct [where P = "\<lambda>a b r. b \<noteq> 0", rotated]) (force split: if_splits bind_splits)
  then show ?thesis by (cases "pow_mod_p a 0") auto
qed

text \<open>
  C23. The power function of the key exchange, in 64-bit words that wrap, computes the power modulo
  the prime, for every exponent but 0 and every base but the prime itself.
\<close>

theorem powmodp_is_power:
  assumes "b \<noteq> 0" and "a \<noteq> DH_P"
  shows "powmodp a b = Some (of_nat (unat a ^ unat b mod prime64))"
proof -
  obtain r where r: "powmodp a b = Some r" "unat r mod prime64 = unat a ^ unat b mod prime64" "unat r < prime64"
    using powmodp_spec [OF assms(1), of a] assms(2) by blast
  then have "unat r = unat a ^ unat b mod prime64" by simp
  then have "of_nat (unat r) = (of_nat (unat a ^ unat b mod prime64) :: u64)" by (simp only:)
  then have "r = of_nat (unat a ^ unat b mod prime64)" by (simp only: of_nat_unat ucast_id)
  then show ?thesis using r(1) by simp
qed

lemma powmodp_is_power_witness: "powmodp 0xffffffffffffffff 0x8000000000000001 = Some (of_nat (unat (0xffffffffffffffff :: u64) ^ unat (0x8000000000000001 :: u64) mod prime64))"
  by (rule powmodp_is_power) (simp_all add: DH_P_def)

text \<open>A base equal to the prime is not reduced: its first power is the prime instead of 0.\<close>

lemma powmodp_prime_unreduced: "powmodp DH_P 1 = Some DH_P"
  by (simp add: powmodp_def pow_mod_p.simps)

section \<open>Keys as byte strings\<close>

definition key_value :: "u8 list \<Rightarrow> u64" where
  "key_value x = join64 (word_le x 0, word_le x 4)"

lemma masks64: "(0xFF :: u64) = mask 8"
  by (simp add: mask_eq_exp_minus_1)

lemma byte_position:
  "m < 8 \<Longrightarrow> (8 + m) div 8 = (1 :: nat)" "m < 8 \<Longrightarrow> (16 + m) div 8 = (2 :: nat)" "m < 8 \<Longrightarrow> (24 + m) div 8 = (3 :: nat)"
  "m < 8 \<Longrightarrow> (16 + m) mod 8 = (m :: nat)" "m < 8 \<Longrightarrow> (24 + m) mod 8 = (m :: nat)"
  by presburger+

lemma bit_word_le: "n < 32 \<Longrightarrow> bit (word_le x i) n \<longleftrightarrow> bit (x ! (i + n div 8)) (n mod 8)"
proof -
  assume "n < 32"
  moreover have "n < 8 \<or> (\<exists>m<8. n = 8 + m) \<or> (\<exists>m<8. n = 16 + m) \<or> (\<exists>m<8. n = 24 + m)"
    using calculation by (cases "n < 8"; cases "n < 16"; cases "n < 24") presburger+
  ultimately show ?thesis
    by (elim disjE exE conjE) (auto simp: word_le_def bit_simps bit_u8 byte_position)
qed

lemma bit_key_value: "bit (key_value x) n \<longleftrightarrow> n < 64 \<and> bit (x ! (n div 8)) (n mod 8)"
proof (cases "n < 32")
  case True
  then show ?thesis using bit_word_le [OF True, of x 0] by (auto simp: key_value_def join64_def bit_simps)
next
  case False
  then obtain m where m: "n = 32 + m" by (metis le_add_diff_inverse linorder_not_less)
  show ?thesis
  proof (cases "m < 32")
    case True
    moreover have "(32 + m) div 8 = 4 + m div 8" "(32 + m) mod 8 = m mod 8" by presburger+
    ultimately show ?thesis using bit_word_le [OF True, of x 4] m
      by (auto simp: key_value_def join64_def bit_simps dest: bit_imp_le_length)
  next
    case False
    then show ?thesis using m by (auto simp: key_value_def join64_def bit_simps dest: bit_imp_le_length)
  qed
qed

lemma bit_push64: "i < 8 \<Longrightarrow> bit (push64 r ! i) n \<longleftrightarrow> n < 8 \<and> bit r (8 * i + n)"
proof -
  assume "i < 8"
  then consider "i = 0" | "i = 1" | "i = 2" | "i = 3" | "i = 4" | "i = 5" | "i = 6" | "i = 7" by linarith
  then show ?thesis by cases (auto simp: push64_def masks64 bit_simps)
qed

lemma length_push64: "length (push64 r) = 8"
  by (simp add: push64_def)

lemma push64_key:
  assumes "length x = 8"
  shows "push64 (key_value x) = x"
proof (rule nth_equalityI)
  fix i
  assume "i < length (push64 (key_value x))"
  then have i: "i < 8" by (simp add: length_push64)
  show "push64 (key_value x) ! i = x ! i"
  proof (rule bit_word_eqI)
    fix n
    assume "n < LENGTH(8)"
    then show "bit (push64 (key_value x) ! i) n \<longleftrightarrow> bit (x ! i) n"
      using i by (simp add: bit_push64 bit_key_value)
  qed
qed (simp add: assms length_push64)

lemma key_push64: "key_value (push64 r) = r"
proof (rule bit_word_eqI)
  fix n
  assume "n < LENGTH(64)"
  then have "n < 64" by simp
  then have "n div 8 < 8" "8 * (n div 8) + n mod 8 = n" "n mod 8 < 8" by simp_all
  then show "bit (key_value (push64 r)) n \<longleftrightarrow> bit r n"
    using \<open>n < 64\<close> by (simp add: bit_key_value bit_push64)
qed

lemma key_value_zero: "length x = 8 \<Longrightarrow> key_value x = 0 \<longleftrightarrow> x = replicate 8 0"
proof
  assume x: "length x = 8"
  assume "key_value x = 0"
  then have "x = push64 0" using push64_key [OF x] by simp
  moreover have "push64 0 = replicate 8 0" by code_simp
  ultimately show "x = replicate 8 0" by (simp only:)
next
  assume "x = replicate 8 0"
  then show "key_value x = 0" by (intro bit_word_eqI) (simp add: bit_key_value)
qed

lemma exchange_value:
  assumes "length x = 8" and "x \<noteq> replicate 8 0"
  shows "\<exists>r. ldhexchange x = Some (Inr (push64 r)) \<and> unat r = 5 ^ unat (key_value x) mod prime64"
proof -
  have "key_value x \<noteq> 0" "DH_G \<noteq> DH_P" using assms key_value_zero by (auto simp: DH_G_def DH_P_def)
  then obtain r where "powmodp DH_G (key_value x) = Some r" "unat r mod prime64 = unat DH_G ^ unat (key_value x) mod prime64" "unat r < prime64"
    using powmodp_spec [of "key_value x" DH_G] by blast
  then show ?thesis using assms(1) \<open>key_value x \<noteq> 0\<close>
    by (intro exI [of _ r]) (simp add: ldhexchange_def key_value_def DH_G_def)
qed

lemma secret_value:
  assumes "length x = 8" "length y = 8" and "key_value x \<noteq> 0" "key_value y \<noteq> 0" and "key_value x \<noteq> DH_P"
  shows "\<exists>r. ldhsecret x y = Some (Inr (push64 r)) \<and> unat r = unat (key_value x) ^ unat (key_value y) mod prime64"
proof -
  obtain r where "powmodp (key_value x) (key_value y) = Some r"
    "unat r mod prime64 = unat (key_value x) ^ unat (key_value y) mod prime64" "unat r < prime64"
    using powmodp_spec [OF assms(4), of "key_value x"] assms(5) by blast
  then show ?thesis using assms
    by (intro exI [of _ r]) (simp add: ldhsecret_def read64_def key_value_def)
qed

lemma five_power_nonzero: "5 ^ n mod prime64 \<noteq> (0 :: nat)"
proof
  assume "5 ^ n mod prime64 = (0 :: nat)"
  then have "prime64 dvd 5 ^ n" by (simp only: mod_eq_0_iff_dvd)
  moreover have "coprime prime64 (5 :: nat)" 
    by (simp add: coprime_iff_gcd_eq_1 gcd_red_nat [of prime64 5] gcd_red_nat [of 5 2])
  then have "coprime prime64 (5 ^ n :: nat)" by simp
  ultimately have "is_unit prime64" using coprime_absorb_left by blast
  then show False by simp
qed

text \<open>
  The key exchange agrees: for any two keys of eight bytes that are not all zero, both sides
  get an exchange value, and the secret each computes from the other's value is the same, the generator to
  the product of the two keys modulo the prime.
\<close>

theorem dh_agreement:
  assumes "length a = 8" "a \<noteq> replicate 8 0" and "length b = 8" "b \<noteq> replicate 8 0"
  shows "\<exists>A B s. ldhexchange a = Some (Inr A) \<and> ldhexchange b = Some (Inr B) \<and>
    ldhsecret A b = Some (Inr s) \<and> ldhsecret B a = Some (Inr s) \<and>
    unat (key_value s) = 5 ^ (unat (key_value a) * unat (key_value b)) mod prime64"
proof -
  obtain A where A: "ldhexchange a = Some (Inr (push64 A))" "unat A = 5 ^ unat (key_value a) mod prime64"
    using exchange_value [OF assms(1,2)] by blast
  obtain B where B: "ldhexchange b = Some (Inr (push64 B))" "unat B = 5 ^ unat (key_value b) mod prime64"
    using exchange_value [OF assms(3,4)] by blast
  have bounds: "A \<noteq> 0" "A \<noteq> DH_P" "B \<noteq> 0" "B \<noteq> DH_P"
    using A(2) B(2) five_power_nonzero unat_P by (metis mod_less_divisor nat_neq_iff unat_0 zero_less_numeral)+
  have keys: "key_value a \<noteq> 0" "key_value b \<noteq> 0" using assms key_value_zero by blast+
  obtain s where s: "ldhsecret (push64 A) b = Some (Inr (push64 s))" "unat s = unat A ^ unat (key_value b) mod prime64"
    using secret_value [of "push64 A" b] assms(3) bounds keys by (auto simp: length_push64 key_push64)
  obtain t where t: "ldhsecret (push64 B) a = Some (Inr (push64 t))" "unat t = unat B ^ unat (key_value a) mod prime64"
    using secret_value [of "push64 B" a] assms(1) bounds keys by (auto simp: length_push64 key_push64)
  have "unat s = 5 ^ (unat (key_value a) * unat (key_value b)) mod prime64"
    unfolding s(2) A(2) power_mod power_mult ..
  moreover have "unat t = 5 ^ (unat (key_value a) * unat (key_value b)) mod prime64"
    unfolding t(2) B(2) power_mod mult.commute [of "unat (key_value a)"] power_mult ..
  ultimately show ?thesis using A(1) B(1) s(1) t(1) word_unat_eq_iff [of s t] key_push64 by metis
qed

lemma dh_agreement_witness:
  "\<exists>A B s. ldhexchange [1, 2, 3, 4, 5, 6, 7, 8] = Some (Inr A) \<and> ldhexchange [0, 0, 0, 0, 0, 0, 0, 9] = Some (Inr B) \<and>
    ldhsecret A [0, 0, 0, 0, 0, 0, 0, 9] = Some (Inr s) \<and> ldhsecret B [1, 2, 3, 4, 5, 6, 7, 8] = Some (Inr s) \<and>
    unat (key_value s) = 5 ^ (unat (key_value [1, 2, 3, 4, 5, 6, 7, 8]) * unat (key_value [0, 0, 0, 0, 0, 0, 0, 9])) mod prime64"
  by (rule dh_agreement; code_simp)

text \<open>A random key is always accepted as a secret.\<close>

lemma randomkey_exchange: "\<exists>A. ldhexchange (lrandomkey rnd) = Some (Inr A)"
  using exchange_value [OF length_randomkey randomkey_not_zero] by blast

end
