(* ===== verification/Seri.thy ===== *)
theory Seri
  imports Prelude
begin

text \<open>
  The serializer of \<^verbatim>\<open>lualib-src/lua-seri.c\<close>: Lua values are packed into a chain of blocks of 128 bytes,
  copied into one buffer, and unpacked on the other side.  A table is what the serializer sees of it: the
  length \<open>lua_rawlen\<close> reports and the pairs in the order of \<open>lua_next\<close>; a table with a
  \<open>__pairs\<close> metamethod is the pairs that metamethod gives.  An integer is the 64 bits of a
  \<open>lua_Integer\<close>, a float the 64 bits of its double.  \<open>None\<close> is an error raised in Lua.  Strings and messages are
  shorter than 2 GiB; memory and the C stack do not run out.  The bytes written are counted in an \<open>int\<close>, which wraps
  around.
\<close>

section \<open>Lua values\<close>

datatype lua_value =
    L_nil
  | L_boolean bool
  | L_integer u64
  | L_number u64
  | L_string "u8 list"
  | L_lightuserdata u64
  | L_table nat "(lua_value \<times> lua_value) list"
  | L_pairs "(lua_value \<times> lua_value) list"
  | L_other

abbreviation lua_int :: "nat \<Rightarrow> lua_value" where "lua_int i \<equiv> L_integer (of_nat i)"

definition rawgeti :: "(lua_value \<times> lua_value) list \<Rightarrow> nat \<Rightarrow> lua_value" where
  "rawgeti ps i = (case map_of ps (lua_int i) of None \<Rightarrow> L_nil | Some v \<Rightarrow> v)"

section \<open>Writing\<close>

definition TYPE_NIL :: nat where "TYPE_NIL = 0"
definition TYPE_BOOLEAN :: nat where "TYPE_BOOLEAN = 1"
definition TYPE_NUMBER :: nat where "TYPE_NUMBER = 2"
definition TYPE_NUMBER_ZERO :: nat where "TYPE_NUMBER_ZERO = 0"
definition TYPE_NUMBER_BYTE :: nat where "TYPE_NUMBER_BYTE = 1"
definition TYPE_NUMBER_WORD :: nat where "TYPE_NUMBER_WORD = 2"
definition TYPE_NUMBER_DWORD :: nat where "TYPE_NUMBER_DWORD = 4"
definition TYPE_NUMBER_QWORD :: nat where "TYPE_NUMBER_QWORD = 6"
definition TYPE_NUMBER_REAL :: nat where "TYPE_NUMBER_REAL = 8"
definition TYPE_USERDATA :: nat where "TYPE_USERDATA = 3"
definition TYPE_SHORT_STRING :: nat where "TYPE_SHORT_STRING = 4"
definition TYPE_LONG_STRING :: nat where "TYPE_LONG_STRING = 5"
definition TYPE_TABLE :: nat where "TYPE_TABLE = 6"

definition MAX_COOKIE :: nat where "MAX_COOKIE = 32"
definition BLOCK_SIZE :: nat where "BLOCK_SIZE = 128"
definition MAX_DEPTH :: nat where "MAX_DEPTH = 32"

lemmas type_defs = TYPE_NIL_def TYPE_BOOLEAN_def TYPE_NUMBER_def TYPE_NUMBER_ZERO_def TYPE_NUMBER_BYTE_def
  TYPE_NUMBER_WORD_def TYPE_NUMBER_DWORD_def TYPE_NUMBER_QWORD_def TYPE_NUMBER_REAL_def TYPE_USERDATA_def
  TYPE_SHORT_STRING_def TYPE_LONG_STRING_def TYPE_TABLE_def MAX_COOKIE_def

definition COMBINE_TYPE :: "nat \<Rightarrow> nat \<Rightarrow> u8" where
  "COMBINE_TYPE t v = of_nat t OR push_bit 3 (of_nat v)"

text \<open>The blocks before the current one, the bytes written to the current one, the offset in it, the bytes
  written in all.\<close>

record write_block =
  wb_full :: "u8 list list"
  wb_cur :: "u8 list"
  wb_ptr :: nat
  wb_len :: u32

definition wb_init :: write_block where
  "wb_init = \<lparr>wb_full = [], wb_cur = [], wb_ptr = 0, wb_len = 0\<rparr>"

definition blk_next :: "write_block \<Rightarrow> write_block" where
  "blk_next b = b\<lparr>wb_full := wb_full b @ [wb_cur b], wb_cur := [], wb_ptr := 0\<rparr>"

function wb_fill :: "u8 list \<Rightarrow> write_block \<Rightarrow> write_block" where
  "wb_fill buf b =
     (if wb_ptr b + length buf \<le> BLOCK_SIZE then
        b\<lparr>wb_cur := take (wb_ptr b) (wb_cur b) @ buf, wb_ptr := wb_ptr b + length buf, wb_len := wb_len b + of_nat (length buf)\<rparr>
      else
        let copy = BLOCK_SIZE - wb_ptr b
        in wb_fill (drop copy buf)
             (blk_next (b\<lparr>wb_cur := take (wb_ptr b) (wb_cur b) @ take copy buf, wb_len := wb_len b + of_nat copy\<rparr>)))"
  by auto
termination
  by (relation "measure (\<lambda>(buf, b). 2 * length buf + (if wb_ptr b \<ge> BLOCK_SIZE then 1 else 0))")
    (auto simp: blk_next_def BLOCK_SIZE_def)

declare wb_fill.simps [simp del]

definition wb_push :: "u8 list \<Rightarrow> write_block \<Rightarrow> write_block" where
  "wb_push buf b = wb_fill buf (if wb_ptr b = BLOCK_SIZE then blk_next b else b)"

definition wb_nil :: "write_block \<Rightarrow> write_block" where
  "wb_nil b = wb_push [of_nat TYPE_NIL] b"

definition wb_boolean :: "bool \<Rightarrow> write_block \<Rightarrow> write_block" where
  "wb_boolean x b = wb_push [COMBINE_TYPE TYPE_BOOLEAN (if x then 1 else 0)] b"

text \<open>The \<open>n\<close> low bytes of an integer, in memory order.\<close>

fun le_bytes :: "nat \<Rightarrow> u64 \<Rightarrow> u8 list" where
  "le_bytes 0 v = []"
| "le_bytes (Suc n) v = ucast v # le_bytes n (drop_bit 8 v)"

definition wb_integer :: "u64 \<Rightarrow> write_block \<Rightarrow> write_block" where
  "wb_integer v b =
     (if v = 0 then wb_push [COMBINE_TYPE TYPE_NUMBER TYPE_NUMBER_ZERO] b
      else if v \<noteq> scast (ucast v :: u32) then
        wb_push (le_bytes 8 v) (wb_push [COMBINE_TYPE TYPE_NUMBER TYPE_NUMBER_QWORD] b)
      else if sint v < 0 then
        wb_push (le_bytes 4 v) (wb_push [COMBINE_TYPE TYPE_NUMBER TYPE_NUMBER_DWORD] b)
      else if sint v < 0x100 then
        wb_push (le_bytes 1 v) (wb_push [COMBINE_TYPE TYPE_NUMBER TYPE_NUMBER_BYTE] b)
      else if sint v < 0x10000 then
        wb_push (le_bytes 2 v) (wb_push [COMBINE_TYPE TYPE_NUMBER TYPE_NUMBER_WORD] b)
      else
        wb_push (le_bytes 4 v) (wb_push [COMBINE_TYPE TYPE_NUMBER TYPE_NUMBER_DWORD] b))"

definition wb_real :: "u64 \<Rightarrow> write_block \<Rightarrow> write_block" where
  "wb_real v b = wb_push (le_bytes 8 v) (wb_push [COMBINE_TYPE TYPE_NUMBER TYPE_NUMBER_REAL] b)"

definition wb_pointer :: "u64 \<Rightarrow> write_block \<Rightarrow> write_block" where
  "wb_pointer v b = wb_push (le_bytes 8 v) (wb_push [of_nat TYPE_USERDATA] b)"

definition wb_string :: "u8 list \<Rightarrow> write_block \<Rightarrow> write_block" where
  "wb_string str b =
     (let len = length str
      in if len < MAX_COOKIE then
           let b1 = wb_push [COMBINE_TYPE TYPE_SHORT_STRING len] b
           in if len > 0 then wb_push str b1 else b1
         else if len < 0x10000 then
           wb_push str (wb_push (le_bytes 2 (of_nat len)) (wb_push [COMBINE_TYPE TYPE_LONG_STRING 2] b))
         else
           wb_push str (wb_push (le_bytes 4 (of_nat len)) (wb_push [COMBINE_TYPE TYPE_LONG_STRING 4] b)))"

text \<open>The tables: \<open>pack\<close> stands for \<open>pack_one\<close> at the depth of the elements.\<close>

fun pack_list :: "(lua_value \<Rightarrow> write_block \<Rightarrow> write_block option) \<Rightarrow> lua_value list \<Rightarrow> write_block \<Rightarrow> write_block option" where
  "pack_list pack [] b = Some b"
| "pack_list pack (v # vs) b = do { b1 \<leftarrow> pack v b; pack_list pack vs b1 }"

definition wb_table_array ::
  "(lua_value \<Rightarrow> write_block \<Rightarrow> write_block option) \<Rightarrow> nat \<Rightarrow> (lua_value \<times> lua_value) list \<Rightarrow> write_block \<Rightarrow> write_block option" where
  "wb_table_array pack array_size ps b =
     (let b1 = (if array_size \<ge> MAX_COOKIE - 1
                then wb_integer (of_nat array_size) (wb_push [COMBINE_TYPE TYPE_TABLE (MAX_COOKIE - 1)] b)
                else wb_push [COMBINE_TYPE TYPE_TABLE array_size] b)
      in pack_list pack (map (rawgeti ps) [1..<array_size + 1]) b1)"

definition in_array :: "nat \<Rightarrow> lua_value \<Rightarrow> bool" where
  "in_array array_size k = (case k of L_integer x \<Rightarrow> 0 < sint x \<and> sint x \<le> int array_size | _ \<Rightarrow> False)"

fun pack_hash :: "(lua_value \<Rightarrow> write_block \<Rightarrow> write_block option) \<Rightarrow> nat \<Rightarrow> (lua_value \<times> lua_value) list \<Rightarrow>
    write_block \<Rightarrow> write_block option" where
  "pack_hash pack array_size [] b = Some (wb_nil b)"
| "pack_hash pack array_size ((k, v) # ps) b =
     (if in_array array_size k then pack_hash pack array_size ps b
      else do { b1 \<leftarrow> pack k b; b2 \<leftarrow> pack v b1; pack_hash pack array_size ps b2 })"

fun pack_metapairs :: "(lua_value \<Rightarrow> write_block \<Rightarrow> write_block option) \<Rightarrow> (lua_value \<times> lua_value) list \<Rightarrow>
    write_block \<Rightarrow> write_block option" where
  "pack_metapairs pack [] b = Some (wb_nil b)"
| "pack_metapairs pack ((k, v) # ps) b =
     (if k = L_nil then Some (wb_nil b)
      else do { b1 \<leftarrow> pack k b; b2 \<leftarrow> pack v b1; pack_metapairs pack ps b2 })"

text \<open>\<open>pack_one r\<close> is \<open>pack_one\<close> at depth \<open>MAX_DEPTH + 1 - r\<close>: at \<open>r = 0\<close> the depth exceeds \<open>MAX_DEPTH\<close>.\<close>

fun pack_one :: "nat \<Rightarrow> lua_value \<Rightarrow> write_block \<Rightarrow> write_block option" where
  "pack_one 0 v b = None"
| "pack_one (Suc r) v b =
     (case v of
        L_nil \<Rightarrow> Some (wb_nil b)
      | L_integer x \<Rightarrow> Some (wb_integer x b)
      | L_number x \<Rightarrow> Some (wb_real x b)
      | L_boolean x \<Rightarrow> Some (wb_boolean x b)
      | L_string s \<Rightarrow> Some (wb_string s b)
      | L_lightuserdata p \<Rightarrow> Some (wb_pointer p b)
      | L_pairs ps \<Rightarrow> pack_metapairs (pack_one r) ps (wb_push [COMBINE_TYPE TYPE_TABLE 0] b)
      | L_table n ps \<Rightarrow> do { b1 \<leftarrow> wb_table_array (pack_one r) n ps b; pack_hash (pack_one r) n ps b1 }
      | L_other \<Rightarrow> None)"

definition pack_from :: "lua_value list \<Rightarrow> write_block \<Rightarrow> write_block option" where
  "pack_from vs b = pack_list (pack_one (MAX_DEPTH + 1)) vs b"

text \<open>The loop that copies the blocks into one buffer; a read outside a block is a failure.\<close>

fun copy_blocks :: "nat \<Rightarrow> u8 list list \<Rightarrow> u8 list option" where
  "copy_blocks len [] = (if len > 0 then None else Some [])"
| "copy_blocks len (b # bs) =
     (if len = 0 then Some []
      else if len \<ge> BLOCK_SIZE then do {
        assert_that (length b = BLOCK_SIZE);
        rest \<leftarrow> copy_blocks (len - BLOCK_SIZE) bs;
        Some (b @ rest) }
      else do { assert_that (len \<le> length b); Some (take len b) })"

text \<open>A negative length is more memory than there is.\<close>

definition seri :: "u8 list list \<Rightarrow> int \<Rightarrow> u8 list option" where
  "seri bs len = do { assert_that (0 \<le> len); copy_blocks (nat len) bs }"

text \<open>\<open>Inl ()\<close> is the error raised in Lua.\<close>

definition luaseri_pack :: "lua_value list \<Rightarrow> (unit + u8 list) option" where
  "luaseri_pack vs =
     (case pack_from vs wb_init of
        None \<Rightarrow> Some (Inl ())
      | Some b \<Rightarrow> map_option Inr (seri (wb_full b @ [wb_cur b]) (sint (wb_len b))))"

section \<open>Reading\<close>

text \<open>The bytes that are left; \<open>None\<close> is NULL.\<close>

definition rb_read :: "nat \<Rightarrow> u8 list \<Rightarrow> (u8 list \<times> u8 list) option" where
  "rb_read sz rb = (if length rb < sz then None else Some (take sz rb, drop sz rb))"

fun of_le :: "u8 list \<Rightarrow> u64" where
  "of_le [] = 0"
| "of_le (b # bs) = ucast b OR push_bit 8 (of_le bs)"

definition get_integer :: "nat \<Rightarrow> u8 list \<Rightarrow> (u64 \<times> u8 list) option" where
  "get_integer cookie rb =
     (if cookie = TYPE_NUMBER_ZERO then Some (0, rb)
      else if cookie = TYPE_NUMBER_BYTE then do { (n, rb1) \<leftarrow> rb_read 1 rb; Some (of_le n, rb1) }
      else if cookie = TYPE_NUMBER_WORD then do { (n, rb1) \<leftarrow> rb_read 2 rb; Some (of_le n, rb1) }
      else if cookie = TYPE_NUMBER_DWORD then do { (n, rb1) \<leftarrow> rb_read 4 rb; Some (scast (ucast (of_le n) :: u32), rb1) }
      else if cookie = TYPE_NUMBER_QWORD then do { (n, rb1) \<leftarrow> rb_read 8 rb; Some (of_le n, rb1) }
      else None)"

definition get_real :: "u8 list \<Rightarrow> (u64 \<times> u8 list) option" where
  "get_real rb = do { (n, rb1) \<leftarrow> rb_read 8 rb; Some (of_le n, rb1) }"

definition get_pointer :: "u8 list \<Rightarrow> (u64 \<times> u8 list) option" where
  "get_pointer rb = do { (n, rb1) \<leftarrow> rb_read 8 rb; Some (of_le n, rb1) }"

text \<open>The length is an \<open>int\<close>; with a negative one \<open>rb_read\<close> gives a pointer, and \<open>lua_pushlstring\<close> raises an error
  for the huge size.\<close>

definition get_buffer :: "int \<Rightarrow> u8 list \<Rightarrow> (u8 list \<times> u8 list) option" where
  "get_buffer len rb = (if len < 0 then None else rb_read (nat len) rb)"

text \<open>What \<open>lua_rawset\<close> does with a key: nil and NaN are errors, a float with an integer value becomes the integer;
  two tables are never equal.\<close>

definition dbl_exp :: "u64 \<Rightarrow> nat" where "dbl_exp x = unat (drop_bit 52 x AND mask 11)"
definition dbl_frac :: "u64 \<Rightarrow> nat" where "dbl_frac x = unat (x AND mask 52)"

definition is_nan :: "u64 \<Rightarrow> bool" where
  "is_nan x \<longleftrightarrow> dbl_exp x = 2047 \<and> dbl_frac x \<noteq> 0"

definition dbl_to_int :: "u64 \<Rightarrow> u64 option" where
  "dbl_to_int x =
     (if dbl_exp x = 0 then if dbl_frac x = 0 then Some 0 else None
      else if dbl_exp x = 2047 then None
      else
        let m = 2 ^ 52 + dbl_frac x;
            e = dbl_exp x;
            i = (if e \<ge> 1075 + 12 then None
                 else if e \<ge> 1075 then Some (int m * 2 ^ (e - 1075))
                 else if m mod 2 ^ (1075 - e) = 0 then Some (int (m div 2 ^ (1075 - e)))
                 else None)
        in do {
          a \<leftarrow> i;
          let v = (if bit x 63 then - a else a);
          if - (2 ^ 63) \<le> v \<and> v < 2 ^ 63 then Some (word_of_int v) else None })"

definition norm_key :: "lua_value \<Rightarrow> lua_value" where
  "norm_key k = (case k of L_number x \<Rightarrow> (case dbl_to_int x of None \<Rightarrow> k | Some i \<Rightarrow> L_integer i) | _ \<Rightarrow> k)"

definition raw_equal :: "lua_value \<Rightarrow> lua_value \<Rightarrow> bool" where
  "raw_equal k k' = (case k of L_table _ _ \<Rightarrow> False | L_pairs _ \<Rightarrow> False | _ \<Rightarrow> k = k')"

definition bad_key :: "lua_value \<Rightarrow> bool" where
  "bad_key k = (case k of L_nil \<Rightarrow> True | L_number x \<Rightarrow> is_nan x | _ \<Rightarrow> False)"

definition rawset :: "lua_value \<Rightarrow> lua_value \<Rightarrow> (lua_value \<times> lua_value) list \<Rightarrow> (lua_value \<times> lua_value) list option" where
  "rawset k0 v ps =
     (let k = norm_key k0
      in if bad_key k then None
         else if v = L_nil then Some (filter (\<lambda>(k', _). \<not> raw_equal k k') ps)
         else if \<exists>(k', _) \<in> set ps. raw_equal k k' then Some (map (\<lambda>(k', v'). (k', if raw_equal k k' then v else v')) ps)
         else Some (ps @ [(k, v)]))"

text \<open>\<open>get\<close> stands for \<open>unpack_one\<close>.  The loop over the pairs is bounded by \<open>f\<close>, the nesting by the argument of
  \<open>unpack_one\<close>: the number of bytes left is enough for both (\<open>unpack_bounds\<close> below).\<close>

fun unpack_array :: "(u8 list \<Rightarrow> (lua_value \<times> u8 list) option) \<Rightarrow> nat \<Rightarrow> nat \<Rightarrow> (lua_value \<times> lua_value) list \<Rightarrow> u8 list \<Rightarrow>
    ((lua_value \<times> lua_value) list \<times> u8 list) option" where
  "unpack_array get 0 i ps rb = Some (ps, rb)"
| "unpack_array get (Suc n) i ps rb = do {
     (v, rb1) \<leftarrow> get rb;
     unpack_array get n (i + 1) (if v = L_nil then ps else ps @ [(lua_int i, v)]) rb1 }"

fun unpack_hash :: "(u8 list \<Rightarrow> (lua_value \<times> u8 list) option) \<Rightarrow> nat \<Rightarrow> (lua_value \<times> lua_value) list \<Rightarrow> u8 list \<Rightarrow>
    ((lua_value \<times> lua_value) list \<times> u8 list) option" where
  "unpack_hash get 0 ps rb = None"
| "unpack_hash get (Suc f) ps rb = do {
     (k, rb1) \<leftarrow> get rb;
     if k = L_nil then Some (ps, rb1)
     else do {
       (v, rb2) \<leftarrow> get rb1;
       ps1 \<leftarrow> rawset k v ps;
       unpack_hash get f ps1 rb2 } }"

definition table_size :: "nat \<Rightarrow> u8 list \<Rightarrow> (int \<times> u8 list) option" where
  "table_size cookie rb =
     (if cookie = MAX_COOKIE - 1 then do {
        (t, rb1) \<leftarrow> rb_read 1 rb;
        let c = unat (drop_bit 3 (t ! 0));
        if unat (t ! 0 AND 7) \<noteq> TYPE_NUMBER \<or> c = TYPE_NUMBER_REAL then None
        else do { (x, rb2) \<leftarrow> get_integer c rb1; Some (sint (ucast x :: u32), rb2) } }
      else Some (int cookie, rb))"

definition unpack_table :: "(u8 list \<Rightarrow> (lua_value \<times> u8 list) option) \<Rightarrow> nat \<Rightarrow> u8 list \<Rightarrow> (lua_value \<times> u8 list) option" where
  "unpack_table get cookie rb = do {
     (array_size, rb1) \<leftarrow> table_size cookie rb;
     (arr, rb2) \<leftarrow> unpack_array get (nat array_size) 1 [] rb1;
     (ps, rb3) \<leftarrow> unpack_hash get (length rb2 + 1) arr rb2;
     Some (L_table (nat array_size) ps, rb3) }"

definition push_value :: "(u8 list \<Rightarrow> (lua_value \<times> u8 list) option) \<Rightarrow> nat \<Rightarrow> nat \<Rightarrow> u8 list \<Rightarrow> (lua_value \<times> u8 list) option" where
  "push_value get type cookie rb =
     (if type = TYPE_NIL then Some (L_nil, rb)
      else if type = TYPE_BOOLEAN then Some (L_boolean (cookie \<noteq> 0), rb)
      else if type = TYPE_NUMBER then
        if cookie = TYPE_NUMBER_REAL then do { (x, rb1) \<leftarrow> get_real rb; Some (L_number x, rb1) }
        else do { (x, rb1) \<leftarrow> get_integer cookie rb; Some (L_integer x, rb1) }
      else if type = TYPE_USERDATA then do { (p, rb1) \<leftarrow> get_pointer rb; Some (L_lightuserdata p, rb1) }
      else if type = TYPE_SHORT_STRING then do { (s, rb1) \<leftarrow> get_buffer (int cookie) rb; Some (L_string s, rb1) }
      else if type = TYPE_LONG_STRING then
        if cookie = 2 then do {
          (n, rb1) \<leftarrow> rb_read 2 rb;
          (s, rb2) \<leftarrow> get_buffer (uint (of_le n)) rb1;
          Some (L_string s, rb2) }
        else if cookie \<noteq> 4 then None
        else do {
          (n, rb1) \<leftarrow> rb_read 4 rb;
          (s, rb2) \<leftarrow> get_buffer (sint (ucast (of_le n) :: u32)) rb1;
          Some (L_string s, rb2) }
      else if type = TYPE_TABLE then unpack_table get cookie rb
      else None)"

definition push_typed :: "(u8 list \<Rightarrow> (lua_value \<times> u8 list) option) \<Rightarrow> u8 \<Rightarrow> u8 list \<Rightarrow> (lua_value \<times> u8 list) option" where
  "push_typed get t rb = push_value get (unat (t AND 7)) (unat (drop_bit 3 t)) rb"

fun unpack_one :: "nat \<Rightarrow> u8 list \<Rightarrow> (lua_value \<times> u8 list) option" where
  "unpack_one 0 rb = None"
| "unpack_one (Suc f) rb = do { (t, rb1) \<leftarrow> rb_read 1 rb; push_typed (unpack_one f) (t ! 0) rb1 }"

text \<open>The values on the stack after the loop over the whole buffer.\<close>

fun unpack_all :: "nat \<Rightarrow> u8 list \<Rightarrow> lua_value list option" where
  "unpack_all 0 rb = None"
| "unpack_all (Suc f) rb =
     (case rb_read 1 rb of
        None \<Rightarrow> Some []
      | Some (t, rb1) \<Rightarrow> do {
          (v, rb2) \<leftarrow> push_typed (unpack_one (length rb)) (t ! 0) rb1;
          vs \<leftarrow> unpack_all f rb2;
          Some (v # vs) })"

definition luaseri_unpack :: "u8 list \<Rightarrow> lua_value list option" where
  "luaseri_unpack rb = unpack_all (length rb + 1) rb"

end
