(* ===== verification/SeriProps.thy ===== *)
theory SeriProps
  imports Seri
begin

text \<open>
  What the serializer of \<^verbatim>\<open>lualib-src/lua-seri.c\<close> promises.  The chain of blocks is a byte sequence; the bounds on the
  recursion of the reader are enough; what is packed is read back; which values cannot be packed.
\<close>

section \<open>The blocks are a byte sequence\<close>

definition wb_ok :: "write_block \<Rightarrow> bool" where
  "wb_ok b \<longleftrightarrow> (\<forall>x \<in> set (wb_full b). length x = BLOCK_SIZE) \<and> wb_ptr b = length (wb_cur b) \<and>
     length (wb_cur b) \<le> BLOCK_SIZE \<and> wb_len b = of_nat (BLOCK_SIZE * length (wb_full b) + length (wb_cur b))"

definition wb_bytes :: "write_block \<Rightarrow> u8 list" where
  "wb_bytes b = concat (wb_full b) @ wb_cur b"

definition emits :: "write_block \<Rightarrow> u8 list \<Rightarrow> write_block \<Rightarrow> bool" where
  "emits b bs b' \<longleftrightarrow> wb_ok b' \<and> wb_bytes b' = wb_bytes b @ bs"

lemma wb_ok_init: "wb_ok wb_init" "wb_bytes wb_init = []"
  by (simp_all add: wb_ok_def wb_init_def wb_bytes_def)

lemma wb_fill_spec: "wb_ok b \<Longrightarrow> emits b buf (wb_fill buf b)"
proof (induction buf b rule: wb_fill.induct)
  case (1 buf b)
  show ?case
  proof (cases "wb_ptr b + length buf \<le> BLOCK_SIZE")
    case True
    then show ?thesis using 1(2) by (subst wb_fill.simps) (simp add: emits_def wb_ok_def wb_bytes_def)
  next
    case False
    let ?copy = "BLOCK_SIZE - wb_ptr b"
    let ?b = "blk_next (b\<lparr>wb_cur := take (wb_ptr b) (wb_cur b) @ take ?copy buf, wb_len := wb_len b + of_nat ?copy\<rparr>)"
    have "wb_ok ?b" "wb_bytes ?b = wb_bytes b @ take ?copy buf"
      using 1(2) False by (auto simp: wb_ok_def wb_bytes_def blk_next_def)
    then show ?thesis using 1(1) [OF False refl] False
      by (subst wb_fill.simps) (simp add: emits_def Let_def)
  qed
qed

lemma wb_push_spec: "wb_ok b \<Longrightarrow> emits b buf (wb_push buf b)"
proof -
  assume ok: "wb_ok b"
  then have "wb_ptr b = BLOCK_SIZE \<Longrightarrow> wb_ok (blk_next b) \<and> wb_bytes (blk_next b) = wb_bytes b"
    by (auto simp: wb_ok_def wb_bytes_def blk_next_def)
  then show ?thesis using wb_fill_spec [OF ok] wb_fill_spec [of "blk_next b"]
    by (auto simp: wb_push_def emits_def)
qed

lemma emits_ok: "emits b bs b' \<Longrightarrow> wb_ok b'"
  by (simp add: emits_def)

lemma emits_trans: "emits b bs b1 \<Longrightarrow> emits b1 bs' b2 \<Longrightarrow> emits b (bs @ bs') b2"
  by (simp add: emits_def)

lemma emits_two: "wb_ok b \<Longrightarrow> emits b (bs @ bs') (wb_push bs' (wb_push bs b))"
  using emits_trans wb_push_spec emits_ok by blast

lemma emits_long: "wb_ok b \<Longrightarrow> emits b (t # bs @ bs') (wb_push bs' (wb_push bs (wb_push [t] b)))"
  using emits_trans [OF emits_two [of b "[t]" bs] wb_push_spec] emits_ok emits_two by fastforce

lemma copy_blocks_spec:
  "\<forall>x \<in> set bs. length x = BLOCK_SIZE \<Longrightarrow> length c \<le> BLOCK_SIZE \<Longrightarrow>
   copy_blocks (BLOCK_SIZE * length bs + length c) (bs @ [c]) = Some (concat bs @ c)"
proof (induction bs)
  case Nil
  then show ?case by (cases "length c = BLOCK_SIZE") (auto simp: BLOCK_SIZE_def)
next
  case (Cons b bs)
  then show ?case by (simp add: BLOCK_SIZE_def)
qed

lemma sint_of_nat32: "n < 2 ^ 31 \<Longrightarrow> sint (of_nat n :: u32) = int n"
  by (simp add: signed_of_nat signed_take_bit_int_eq_self_iff)

lemma seri_bytes:
  assumes ok: "wb_ok b" and n: "length (wb_bytes b) < 2 ^ 31"
  shows "seri (wb_full b @ [wb_cur b]) (sint (wb_len b)) = Some (wb_bytes b)"
proof -
  have b: "\<forall>x \<in> set (wb_full b). length x = BLOCK_SIZE" "length (wb_cur b) \<le> BLOCK_SIZE"
    "wb_len b = of_nat (BLOCK_SIZE * length (wb_full b) + length (wb_cur b))" using ok by (simp_all add: wb_ok_def)
  have "length (concat bs) = BLOCK_SIZE * length bs" if "\<forall>x \<in> set bs. length x = BLOCK_SIZE" for bs :: "u8 list list"
    using that by (induction bs) simp_all
  from this [OF b(1)] have "length (wb_bytes b) = BLOCK_SIZE * length (wb_full b) + length (wb_cur b)" by (simp add: wb_bytes_def)
  then have "sint (wb_len b) = int (BLOCK_SIZE * length (wb_full b) + length (wb_cur b))" unfolding b(3) by (intro sint_of_nat32) (use n in simp)
  then show ?thesis using copy_blocks_spec [OF b(1,2)] by (simp add: seri_def wb_bytes_def del: of_nat_add of_nat_mult)
qed

section \<open>Integers\<close>

lemma length_le_bytes [simp]: "length (le_bytes n v) = n"
  by (induction n arbitrary: v) simp_all

lemma bit_of_le: "bit (of_le (le_bytes n v)) k \<longleftrightarrow> k < 8 * n \<and> bit v k"
proof (induction n arbitrary: v k)
  case 0
  then show ?case by simp
next
  case (Suc n)
  then show ?case by (auto simp: bit_simps dest: bit_imp_le_length)
qed

lemma of_le_8: "of_le (le_bytes 8 v) = v"
  by (rule bit_word_eqI) (simp add: bit_of_le)

lemma of_le_4: "(ucast (of_le (le_bytes 4 v)) :: u32) = ucast v"
  by (rule bit_word_eqI) (simp add: bit_of_le bit_simps)

lemma of_le_small: "unat v < 2 ^ (8 * n) \<Longrightarrow> n \<le> 8 \<Longrightarrow> of_le (le_bytes n v) = v"
proof (rule bit_word_eqI)
  fix k
  assume v: "unat v < 2 ^ (8 * n)" and "n \<le> 8"
  have "unat (take_bit (8 * n) v) = unat v" using v by (simp add: unsigned_take_bit_eq take_bit_nat_eq_self)
  then have "take_bit (8 * n) v = v" by (simp only: word_unat_eq_iff)
  then have "bit v k \<Longrightarrow> k < 8 * n" by (metis bit_take_bit_iff)
  then show "bit (of_le (le_bytes n v)) k \<longleftrightarrow> bit v k" by (auto simp: bit_of_le)
qed

definition type_parts :: "nat \<Rightarrow> nat \<Rightarrow> bool" where
  "type_parts t v \<longleftrightarrow> unat (COMBINE_TYPE t v AND 7) = t \<and> unat (drop_bit 3 (COMBINE_TYPE t v)) = v"

lemma type_parts: "t < 8 \<Longrightarrow> v < 32 \<Longrightarrow> type_parts t v"
proof -
  have "list_all (\<lambda>t. list_all (type_parts t) [0..<32]) [0..<8]" by code_simp
  then show "t < 8 \<Longrightarrow> v < 32 \<Longrightarrow> type_parts t v" by (simp add: list_all_iff)
qed

lemma rb_read_append: "length bs = n \<Longrightarrow> rb_read n (bs @ rest) = Some (bs, rest)"
  by (simp add: rb_read_def)

lemma sint_small: "\<not> sint (v :: u64) < 0 \<Longrightarrow> sint v < 2 ^ n \<Longrightarrow> unat v < 2 ^ n"
proof -
  assume v: "\<not> sint v < 0" "sint v < 2 ^ n"
  have "uint v = uint (word_of_int (sint v) :: u64)" by simp
  also have "\<dots> = sint v" using v(1) sint_lt [of v] by (simp only: unsigned_of_int of_nat_nat) (simp add: take_bit_int_eq_self)
  finally have "int (unat v) < 2 ^ n" using v(2) by simp
  then show ?thesis by (metis of_nat_less_iff of_nat_numeral of_nat_power)
qed

lemma integer_reads:
  assumes "wb_ok b"
  shows "\<exists>c bs. emits b (COMBINE_TYPE TYPE_NUMBER c # bs) (wb_integer v b) \<and> c < 32 \<and> c \<noteq> TYPE_NUMBER_REAL \<and>
    (\<forall>rest. get_integer c (bs @ rest) = Some (v, rest))"
proof -
  consider "v = 0" | "v \<noteq> 0" "v \<noteq> scast (ucast v :: u32)" | "v \<noteq> 0" "v = scast (ucast v :: u32)" "sint v < 0"
    | "v \<noteq> 0" "v = scast (ucast v :: u32)" "\<not> sint v < 0" "sint v < 0x100"
    | "v \<noteq> 0" "v = scast (ucast v :: u32)" "\<not> sint v < 0" "\<not> sint v < 0x100" "sint v < 0x10000"
    | "v \<noteq> 0" "v = scast (ucast v :: u32)" "\<not> sint v < 0" "\<not> sint v < 0x100" "\<not> sint v < 0x10000"
    by blast
  then show ?thesis
  proof cases
    case 1
    then show ?thesis using wb_push_spec [OF assms]
      by (intro exI [of _ TYPE_NUMBER_ZERO] exI [of _ "[]"]) (simp add: wb_integer_def get_integer_def type_defs)
  next
    case 2
    have "\<forall>rest. get_integer TYPE_NUMBER_QWORD (le_bytes 8 v @ rest) = Some (v, rest)"
      by (simp add: get_integer_def rb_read_append type_defs of_le_8)
    then show ?thesis using 2 emits_two [OF assms, of "[COMBINE_TYPE TYPE_NUMBER TYPE_NUMBER_QWORD]" "le_bytes 8 v"]
      by (intro exI [of _ TYPE_NUMBER_QWORD] exI [of _ "le_bytes 8 v"]) (simp add: wb_integer_def type_defs)
  next
    case 3
    have "\<forall>rest. get_integer TYPE_NUMBER_DWORD (le_bytes 4 v @ rest) = Some (v, rest)"
      using 3(2) by (simp add: get_integer_def rb_read_append type_defs of_le_4)
    then show ?thesis using 3 emits_two [OF assms, of "[COMBINE_TYPE TYPE_NUMBER TYPE_NUMBER_DWORD]" "le_bytes 4 v"]
      by (intro exI [of _ TYPE_NUMBER_DWORD] exI [of _ "le_bytes 4 v"]) (simp add: wb_integer_def type_defs)
  next
    case 4
    have "of_le (le_bytes 1 v) = v" using sint_small [of v 8] 4(3,4) by (intro of_le_small) simp_all
    then have "\<forall>rest. get_integer TYPE_NUMBER_BYTE (le_bytes 1 v @ rest) = Some (v, rest)"
      unfolding get_integer_def by (simp add: rb_read_append type_defs del: One_nat_def)
    then show ?thesis using 4 emits_two [OF assms, of "[COMBINE_TYPE TYPE_NUMBER TYPE_NUMBER_BYTE]" "le_bytes 1 v"]
      by (intro exI [of _ TYPE_NUMBER_BYTE] exI [of _ "le_bytes 1 v"]) (simp add: wb_integer_def type_defs del: One_nat_def)
  next
    case 5
    have "of_le (le_bytes 2 v) = v" using sint_small [of v 16] 5(3,5) by (intro of_le_small) simp_all
    then have "\<forall>rest. get_integer TYPE_NUMBER_WORD (le_bytes 2 v @ rest) = Some (v, rest)"
      by (simp add: get_integer_def rb_read_append type_defs)
    then show ?thesis using 5 emits_two [OF assms, of "[COMBINE_TYPE TYPE_NUMBER TYPE_NUMBER_WORD]" "le_bytes 2 v"]
      by (intro exI [of _ TYPE_NUMBER_WORD] exI [of _ "le_bytes 2 v"]) (simp add: wb_integer_def type_defs)
  next
    case 6
    have "\<forall>rest. get_integer TYPE_NUMBER_DWORD (le_bytes 4 v @ rest) = Some (v, rest)"
      using 6(2) by (simp add: get_integer_def rb_read_append type_defs of_le_4)
    then show ?thesis using 6 emits_two [OF assms, of "[COMBINE_TYPE TYPE_NUMBER TYPE_NUMBER_DWORD]" "le_bytes 4 v"]
      by (intro exI [of _ TYPE_NUMBER_DWORD] exI [of _ "le_bytes 4 v"]) (simp add: wb_integer_def type_defs)
  qed
qed

section \<open>What is read back\<close>

definition array_part :: "nat \<Rightarrow> (lua_value \<times> lua_value) list \<Rightarrow> (lua_value \<times> lua_value) list" where
  "array_part n ps = filter (\<lambda>(k, v). v \<noteq> L_nil) (map (\<lambda>i. (lua_int i, rawgeti ps i)) [1..<n + 1])"

definition hash_part :: "nat \<Rightarrow> (lua_value \<times> lua_value) list \<Rightarrow> (lua_value \<times> lua_value) list" where
  "hash_part n ps = filter (\<lambda>(k, v). \<not> in_array n k) ps"

text \<open>A table comes back with the array part first and without its metatable.\<close>

primrec plain :: "lua_value \<Rightarrow> lua_value" where
  "plain L_nil = L_nil"
| "plain (L_boolean x) = L_boolean x"
| "plain (L_integer x) = L_integer x"
| "plain (L_number x) = L_number x"
| "plain (L_string x) = L_string x"
| "plain (L_lightuserdata x) = L_lightuserdata x"
| "plain (L_table n ps) =
     L_table n (let qs = map (map_prod plain plain) ps in array_part n qs @ hash_part n qs)"
| "plain (L_pairs ps) = L_table 0 (filter (\<lambda>(k, v). v \<noteq> L_nil) (map (map_prod plain plain) ps))"
| "plain L_other = L_other"

text \<open>What Lua guarantees of a table: its keys are not nil, not NaN, no float that is an integer, and distinct; no
  value is nil; the length is a border.\<close>

definition good_key :: "lua_value \<Rightarrow> bool" where
  "good_key k \<longleftrightarrow> \<not> bad_key k \<and> norm_key k = k"

definition distinct_keys :: "(lua_value \<times> lua_value) list \<Rightarrow> bool" where
  "distinct_keys ps \<longleftrightarrow> sorted_wrt (\<lambda>p q. \<not> raw_equal (fst p) (fst q)) ps"

primrec wf_value :: "lua_value \<Rightarrow> bool" where
  "wf_value L_nil = True"
| "wf_value (L_boolean x) = True"
| "wf_value (L_integer x) = True"
| "wf_value (L_number x) = True"
| "wf_value (L_string x) \<longleftrightarrow> length x < 2 ^ 31"
| "wf_value (L_lightuserdata x) = True"
| "wf_value (L_table n ps) \<longleftrightarrow> n < 2 ^ 31 \<and> (n > 0 \<longrightarrow> rawgeti ps n \<noteq> L_nil) \<and> distinct_keys ps \<and>
     list_all (\<lambda>(k, v). good_key k \<and> v \<noteq> L_nil) ps \<and> list_all (\<lambda>(a, b). a \<and> b) (map (map_prod wf_value wf_value) ps)"
| "wf_value (L_pairs ps) \<longleftrightarrow> distinct_keys ps \<and> list_all (\<lambda>(k, v). good_key k) ps \<and>
     list_all (\<lambda>(a, b). a \<and> b) (map (map_prod wf_value wf_value) ps)"
| "wf_value L_other = True"

text \<open>What \<open>pack_one r\<close> can pack.\<close>

fun fits :: "nat \<Rightarrow> lua_value \<Rightarrow> bool" where
  "fits 0 v = False"
| "fits (Suc r) v =
     (case v of
        L_table n ps \<Rightarrow> list_all (\<lambda>(k, v). fits r k \<and> fits r v) ps
      | L_pairs ps \<Rightarrow> list_all (\<lambda>(k, v). fits r k \<and> fits r v) ps
      | L_other \<Rightarrow> False
      | _ \<Rightarrow> True)"

section \<open>The bounds on the recursion are enough\<close>

definition shrinks :: "(u8 list \<Rightarrow> ('a \<times> u8 list) option) \<Rightarrow> bool" where
  "shrinks get \<longleftrightarrow> (\<forall>rb v rb'. get rb = Some (v, rb') \<longrightarrow> length rb' < length rb)"

definition agree :: "nat \<Rightarrow> (u8 list \<Rightarrow> 'a) \<Rightarrow> (u8 list \<Rightarrow> 'a) \<Rightarrow> bool" where
  "agree n get get' \<longleftrightarrow> (\<forall>rb. length rb < n \<longrightarrow> get rb = get' rb)"

lemma shrinksD: "shrinks get \<Longrightarrow> get rb = Some (v, rb') \<Longrightarrow> length rb' < length rb"
  by (auto simp: shrinks_def)

lemma rb_read_shorter: "rb_read n rb = Some (bs, rb') \<Longrightarrow> length rb' + n = length rb \<and> length bs = n"
  by (auto simp: rb_read_def split: if_splits)

lemma get_integer_shorter: "get_integer c rb = Some (x, rb') \<Longrightarrow> length rb' \<le> length rb"
  by (auto simp: get_integer_def dest!: rb_read_shorter split: if_splits bind_splits)

lemma table_size_shorter: "table_size c rb = Some (x, rb') \<Longrightarrow> length rb' \<le> length rb"
  by (fastforce simp: table_size_def Let_def dest!: rb_read_shorter get_integer_shorter split: if_splits bind_splits)

lemma unpack_array_shorter:
  "shrinks get \<Longrightarrow> unpack_array get n i ps rb = Some (qs, rb') \<Longrightarrow> length rb' \<le> length rb"
  by (induction n arbitrary: i ps rb) (fastforce dest: shrinksD split: bind_splits)+

lemma unpack_hash_shorter:
  "shrinks get \<Longrightarrow> unpack_hash get f ps rb = Some (qs, rb') \<Longrightarrow> length rb' < length rb"
proof (induction f arbitrary: ps rb)
  case (Suc f)
  from Suc.prems(2) obtain k rb1 where k: "get rb = Some (k, rb1)"
    and r: "(if k = L_nil then Some (ps, rb1)
      else do { (v, rb2) \<leftarrow> get rb1; ps1 \<leftarrow> rawset k v ps; unpack_hash get f ps1 rb2 }) = Some (qs, rb')"
    by (auto split: bind_splits)
  show ?case
  proof (cases "k = L_nil")
    case True
    then show ?thesis using k r shrinksD [OF Suc.prems(1)] by simp
  next
    case False
    with r obtain v rb2 ps1 where "get rb1 = Some (v, rb2)" "unpack_hash get f ps1 rb2 = Some (qs, rb')"
      by (auto split: bind_splits)
    then show ?thesis using Suc.IH [OF Suc.prems(1)] shrinksD [OF Suc.prems(1)] k by (meson less_trans)
  qed
qed simp

lemma unpack_table_shorter:
  assumes "shrinks get" and "unpack_table get c rb = Some (v, rb')"
  shows "length rb' < length rb"
proof -
  from assms(2) obtain n rb1 arr rb2 ps where "table_size c rb = Some (n, rb1)"
    and "unpack_array get (nat n) 1 [] rb1 = Some (arr, rb2)"
    and "unpack_hash get (length rb2 + 1) arr rb2 = Some (ps, rb')"
    by (auto simp: unpack_table_def simp del: unpack_hash.simps split: bind_splits)
  then show ?thesis using table_size_shorter [of c rb n rb1] unpack_array_shorter [OF assms(1), of _ _ _ rb1 arr rb2]
      unpack_hash_shorter [OF assms(1), of _ arr rb2 ps rb'] by (meson le_less_trans less_le_trans)
qed

lemma get_buffer_shorter: "get_buffer n rb = Some (bs, rb') \<Longrightarrow> length rb' \<le> length rb"
  by (auto simp: get_buffer_def dest: rb_read_shorter split: if_splits)

lemma push_typed_shorter:
  "shrinks get \<Longrightarrow> push_typed get t rb = Some (v, rb') \<Longrightarrow> length rb' \<le> length rb"
  unfolding push_typed_def push_value_def get_real_def get_pointer_def
  by (force dest!: rb_read_shorter get_integer_shorter get_buffer_shorter unpack_table_shorter split: if_splits bind_splits)

lemma unpack_one_shrinks: "shrinks (unpack_one f)"
proof (induction f)
  case 0
  then show ?case by (simp add: shrinks_def)
next
  case (Suc f)
  have "length rb' < length rb" if e: "unpack_one (Suc f) rb = Some (v, rb')" for rb v rb'
  proof -
    from e obtain t rb1 where "rb_read 1 rb = Some (t, rb1)" "push_typed (unpack_one f) (t ! 0) rb1 = Some (v, rb')"
      by (auto split: bind_splits)
    then show ?thesis using rb_read_shorter [of 1 rb t rb1] push_typed_shorter [OF Suc, of "t ! 0" rb1 v rb'] by simp
  qed
  then show ?case unfolding shrinks_def by blast
qed

lemma unpack_array_agree:
  "shrinks get \<Longrightarrow> agree m get get' \<Longrightarrow> length rb < m \<Longrightarrow> unpack_array get n i ps rb = unpack_array get' n i ps rb"
proof (induction n arbitrary: i ps rb)
  case (Suc n)
  have e: "get rb = get' rb" using Suc.prems(2,3) by (simp add: agree_def)
  show ?case
  proof (cases "get rb")
    case (Some x)
    obtain v rb1 where x: "x = (v, rb1)" by fastforce
    then have "length rb1 < m" using Some shrinksD [OF Suc.prems(1)] Suc.prems(3) by fastforce
    then show ?thesis using Suc.IH [OF Suc.prems(1,2)] Some x e by simp
  qed (simp add: e [symmetric])
qed simp

lemma unpack_hash_agree:
  "shrinks get \<Longrightarrow> agree m get get' \<Longrightarrow> length rb < m \<Longrightarrow> length rb < f \<Longrightarrow> length rb < f' \<Longrightarrow>
   unpack_hash get f ps rb = unpack_hash get' f' ps rb"
proof (induction f arbitrary: f' ps rb)
  case (Suc f)
  obtain g where g: "f' = Suc g" using Suc.prems(5) by (cases f') auto
  have e: "get rb = get' rb" using Suc.prems(2,3) by (simp add: agree_def)
  show ?case
  proof (cases "get rb")
    case None
    then show ?thesis using e g by simp
  next
    case (Some x)
    obtain k rb1 where x: "x = (k, rb1)" by fastforce
    then have l1: "length rb1 < length rb" using Some shrinksD [OF Suc.prems(1)] by blast
    then have e1: "get rb1 = get' rb1" using Suc.prems(2,3) by (simp add: agree_def)
    show ?thesis
    proof (cases "get rb1")
      case None
      then show ?thesis using Some x e e1 g by simp
    next
      case (Some y)
      obtain v rb2 where y: "y = (v, rb2)" by fastforce
      then have l2: "length rb2 < length rb1" using Some shrinksD [OF Suc.prems(1)] by blast
      have "unpack_hash get f ps1 rb2 = unpack_hash get' g ps1 rb2" for ps1
        by (rule Suc.IH [OF Suc.prems(1,2)]) (use l1 l2 Suc.prems(3-5) g in linarith)+
      then show ?thesis using Some y \<open>get rb = Some x\<close> x e e1 g by simp
    qed
  qed
qed simp

lemma push_typed_agree:
  assumes "shrinks get" and "agree m get get'" and "length rb < m"
  shows "push_typed get t rb = push_typed get' t rb"
proof -
  have "unpack_table get c rb = unpack_table get' c rb" for c
  proof (cases "table_size c rb")
    case (Some x)
    obtain n rb1 where x: "x = (n, rb1)" by fastforce
    then have l1: "length rb1 < m" using table_size_shorter Some assms(3) by fastforce
    then have e: "unpack_array get (nat n) 1 [] rb1 = unpack_array get' (nat n) 1 [] rb1" by (rule unpack_array_agree [OF assms(1,2)])
    show ?thesis
    proof (cases "unpack_array get (nat n) 1 [] rb1")
      case (Some y)
      obtain arr rb2 where y: "y = (arr, rb2)" by fastforce
      then have "length rb2 < m" using unpack_array_shorter [OF assms(1)] Some l1 by fastforce
      then have "unpack_hash get (length rb2 + 1) arr rb2 = unpack_hash get' (length rb2 + 1) arr rb2"
        by (intro unpack_hash_agree [OF assms(1,2)]) simp_all
      then show ?thesis using \<open>table_size c rb = Some x\<close> Some x y e 
        by (simp add: unpack_table_def del: unpack_hash.simps One_nat_def)
    qed (simp add: unpack_table_def Some x e [symmetric] del: unpack_hash.simps One_nat_def)
  qed (simp add: unpack_table_def)
  then show ?thesis by (simp add: push_typed_def push_value_def)
qed

text \<open>Any greater bound gives the same result.\<close>

lemma unpack_bounds: "length rb < f \<Longrightarrow> length rb < g \<Longrightarrow> unpack_one f rb = unpack_one g rb"
proof (induction f arbitrary: g rb)
  case (Suc f)
  obtain h where h: "g = Suc h" using Suc.prems(2) by (cases g) auto
  show ?case
  proof (cases "rb_read 1 rb")
    case (Some x)
    obtain t rb1 where x: "x = (t, rb1)" by fastforce
    have l: "Suc (length rb1) = length rb" using rb_read_shorter [of 1 rb t rb1] Some x by simp
    have "agree (length rb) (unpack_one f) (unpack_one h)"
      unfolding agree_def
    proof (intro allI impI)
      fix r :: "u8 list"
      assume "length r < length rb"
      then show "unpack_one f r = unpack_one h r" by (intro Suc.IH) (use Suc.prems h in linarith)+
    qed
    then have "push_typed (unpack_one f) t' rb1 = push_typed (unpack_one h) t' rb1" for t'
      using push_typed_agree [OF unpack_one_shrinks] l by simp
    then show ?thesis using Some x h by simp
  qed (simp add: h)
qed simp

section \<open>What is packed is read back\<close>

definition roundtrips ::
  "(lua_value \<Rightarrow> write_block \<Rightarrow> write_block option) \<Rightarrow> (u8 list \<Rightarrow> (lua_value \<times> u8 list) option) \<Rightarrow> lua_value \<Rightarrow> bool" where
  "roundtrips pack get v \<longleftrightarrow>
     (\<forall>b. wb_ok b \<longrightarrow> (\<exists>b' bs. pack v b = Some b' \<and> emits b bs b' \<and> (\<forall>rest. get (bs @ rest) = Some (plain v, rest))))"

lemma roundtripsD:
  "roundtrips pack get v \<Longrightarrow> wb_ok b \<Longrightarrow>
   \<exists>b' bs. pack v b = Some b' \<and> emits b bs b' \<and> (\<forall>rest. get (bs @ rest) = Some (plain v, rest))"
  by (simp add: roundtrips_def)

lemma plain_nil [simp]: "plain v = L_nil \<longleftrightarrow> v = L_nil"
  by (cases v) simp_all

lemma plain_integer [simp]: "plain v = L_integer x \<longleftrightarrow> v = L_integer x" "L_integer x = plain v \<longleftrightarrow> v = L_integer x"
  by (cases v; auto)+

lemma in_array_plain [simp]: "in_array n (plain k) = in_array n k"
  by (cases k) (simp_all add: in_array_def)

lemma good_key_plain [simp]: "good_key (plain k) = good_key k"
  by (cases k) (auto simp: good_key_def bad_key_def norm_key_def split: option.splits)

lemma raw_equal_plain [simp]: "raw_equal (plain k) (plain k') = raw_equal k k'"
  by (cases k; cases k') (simp_all add: raw_equal_def)

lemma map_of_plain: "map_of (map (map_prod plain plain) ps) (L_integer x) = map_option plain (map_of ps (L_integer x))"
  by (induction ps) auto

lemma rawgeti_plain: "rawgeti (map (map_prod plain plain) ps) i = plain (rawgeti ps i)"
  by (auto simp: rawgeti_def map_of_plain split: option.splits)

lemma sint_of_nat_small: "i < 2 ^ 31 \<Longrightarrow> sint (of_nat i :: u64) = int i"
  by (simp add: signed_of_nat signed_take_bit_int_eq_self_iff)

fun arr_pairs :: "nat \<Rightarrow> lua_value list \<Rightarrow> (lua_value \<times> lua_value) list" where
  "arr_pairs i [] = []"
| "arr_pairs i (v # vs) = (if v = L_nil then [] else [(lua_int i, v)]) @ arr_pairs (Suc i) vs"

lemma arr_pairs_upt: "arr_pairs i (map g [i..<j]) = filter (\<lambda>(k, v). v \<noteq> L_nil) (map (\<lambda>i. (lua_int i, g i)) [i..<j])"
proof (induction "j - i" arbitrary: i)
  case (Suc d)
  then have "i < j" by simp
  then show ?case using Suc(1) [of "Suc i"] Suc(2) by (simp add: upt_conv_Cons)
qed simp

lemma pack_list_reads:
  "\<forall>v \<in> set vs. roundtrips pack get v \<Longrightarrow> wb_ok b \<Longrightarrow>
   \<exists>b' bs. pack_list pack vs b = Some b' \<and> emits b bs b' \<and>
     (\<forall>rest i ps. unpack_array get (length vs) i ps (bs @ rest) = Some (ps @ arr_pairs i (map plain vs), rest))"
proof (induction vs arbitrary: b)
  case Nil
  then show ?case by (intro exI [of _ b] exI [of _ "[]"]) (simp add: emits_def)
next
  case (Cons v vs)
  have "roundtrips pack get v" using Cons.prems(1) by simp
  from roundtripsD [OF this Cons.prems(2)] obtain b1 bs1
    where 1: "pack v b = Some b1" "emits b bs1 b1" "\<forall>rest. get (bs1 @ rest) = Some (plain v, rest)" by blast
  obtain b2 bs2 where 2: "pack_list pack vs b1 = Some b2" "emits b1 bs2 b2"
    "\<forall>rest i ps. unpack_array get (length vs) i ps (bs2 @ rest) = Some (ps @ arr_pairs i (map plain vs), rest)"
    using Cons.IH [of b1] Cons.prems(1) emits_ok [OF 1(2)] by auto
  have "pack_list pack (v # vs) b = Some b2" using 1 2 by simp
  moreover have "unpack_array get (length (v # vs)) i ps ((bs1 @ bs2) @ rest) = Some (ps @ arr_pairs i (map plain (v # vs)), rest)" for rest i ps
    using 1(3) 2(3) by simp
  ultimately show ?case using emits_trans [OF 1(2) 2(2)] by blast
qed

text \<open>The pairs behind the array part: their keys are none of those in the table so far.\<close>

definition fresh_keys :: "(lua_value \<times> lua_value) list \<Rightarrow> (lua_value \<times> lua_value) list \<Rightarrow> bool" where
  "fresh_keys ps acc \<longleftrightarrow> (\<forall>(k, v) \<in> set ps. \<forall>(k', v') \<in> set acc. \<not> raw_equal k k')"

definition nil_read :: "(u8 list \<Rightarrow> (lua_value \<times> u8 list) option) \<Rightarrow> bool" where
  "nil_read get \<longleftrightarrow> (\<forall>rest. get (of_nat TYPE_NIL # rest) = Some (L_nil, rest))"

definition pairs_back :: "nat \<Rightarrow> (lua_value \<times> lua_value) list \<Rightarrow> (lua_value \<times> lua_value) list" where
  "pairs_back n ps = filter (\<lambda>(k, v). v \<noteq> L_nil) (map (map_prod plain plain) (hash_part n ps))"

lemma rawset_fresh:
  assumes "good_key k" and "\<forall>(k', v') \<in> set acc. \<not> raw_equal k k'"
  shows "rawset k v acc = Some (acc @ filter (\<lambda>(k, v). v \<noteq> L_nil) [(k, v)])"
proof -
  have "filter (\<lambda>(k', _). \<not> raw_equal k k') acc = acc"
    using assms(2) by (auto simp: filter_id_conv)
  moreover have "\<not> (\<exists>(k', _) \<in> set acc. raw_equal k k')" using assms(2) by auto
  ultimately show ?thesis using assms(1) by (simp add: rawset_def good_key_def)
qed

lemma raw_equal_sym: "raw_equal k k' \<Longrightarrow> raw_equal k' k"
  by (cases k) (auto simp: raw_equal_def)

lemma good_key_not_nil: "good_key k \<Longrightarrow> k \<noteq> L_nil"
  by (auto simp: good_key_def bad_key_def)

lemma pack_hash_reads:
  "\<forall>(k, v) \<in> set (hash_part n ps). roundtrips pack get k \<and> roundtrips pack get v \<and> good_key k \<Longrightarrow>
   distinct_keys ps \<Longrightarrow> nil_read get \<Longrightarrow> shrinks get \<Longrightarrow> wb_ok b \<Longrightarrow>
   \<exists>b' bs. pack_hash pack n ps b = Some b' \<and> emits b bs b' \<and>
     (\<forall>rest f acc. length (bs @ rest) < f \<longrightarrow> fresh_keys (map (map_prod plain plain) (hash_part n ps)) acc \<longrightarrow>
       unpack_hash get f acc (bs @ rest) = Some (acc @ pairs_back n ps, rest))"
proof (induction ps arbitrary: b)
  case Nil
  have "unpack_hash get f acc ([of_nat TYPE_NIL] @ rest) = Some (acc @ pairs_back n [], rest)"
    if "length ([of_nat TYPE_NIL] @ rest) < f" for rest f acc
    using that Nil(3) by (cases f) (simp_all add: nil_read_def pairs_back_def hash_part_def)
  then show ?case using wb_push_spec [OF Nil(5), of "[of_nat TYPE_NIL]"]
    by (intro exI [of _ "wb_nil b"] exI [of _ "[of_nat TYPE_NIL]"]) (simp add: wb_nil_def)
next
  case (Cons p ps)
  obtain k v where p: "p = (k, v)" by fastforce
  have d: "distinct_keys ps" using Cons.prems(2) by (simp add: distinct_keys_def)
  show ?case
  proof (cases "in_array n k")
    case True
    then have "hash_part n (p # ps) = hash_part n ps" by (simp add: p hash_part_def)
    then show ?thesis using Cons.IH [of b] Cons.prems d True by (simp add: p pairs_back_def)
  next
    case False
    then have h: "hash_part n (p # ps) = (k, v) # hash_part n ps" by (simp add: p hash_part_def)
    then have k: "roundtrips pack get k" "roundtrips pack get v" "good_key k" using Cons.prems(1) by auto
    from roundtripsD [OF k(1) Cons.prems(5)] obtain b1 bs1
      where 1: "pack k b = Some b1" "emits b bs1 b1" "\<forall>rest. get (bs1 @ rest) = Some (plain k, rest)" by blast
    from roundtripsD [OF k(2) emits_ok [OF 1(2)]] obtain b2 bs2
      where 2: "pack v b1 = Some b2" "emits b1 bs2 b2" "\<forall>rest. get (bs2 @ rest) = Some (plain v, rest)" by blast
    obtain b3 bs3 where 3: "pack_hash pack n ps b2 = Some b3" "emits b2 bs3 b3"
      "\<And>rest f acc. length (bs3 @ rest) < f \<Longrightarrow> fresh_keys (map (map_prod plain plain) (hash_part n ps)) acc \<Longrightarrow>
        unpack_hash get f acc (bs3 @ rest) = Some (acc @ pairs_back n ps, rest)"
      using Cons.IH [OF _ d Cons.prems(3,4) emits_ok [OF 2(2)]] Cons.prems(1) h by auto
    have pk: "pack_hash pack n (p # ps) b = Some b3" using False p 1(1) 2(1) 3(1) by simp
    have em: "emits b (bs1 @ bs2 @ bs3) b3" using emits_trans [OF 1(2) emits_trans [OF 2(2) 3(2)]] .
    have rd: "unpack_hash get f acc ((bs1 @ bs2 @ bs3) @ rest) = Some (acc @ pairs_back n (p # ps), rest)"
      if f: "length ((bs1 @ bs2 @ bs3) @ rest) < f"
        and fr: "fresh_keys (map (map_prod plain plain) (hash_part n (p # ps))) acc" for rest f acc
    proof -
      obtain g where g: "f = Suc g" using f by (cases f) auto
      let ?new = "filter (\<lambda>(k, v). v \<noteq> L_nil) [(plain k, plain v)]"
      have nn: "plain k \<noteq> L_nil" using good_key_not_nil [OF k(3)] by simp
      have rs: "rawset (plain k) (plain v) acc = Some (acc @ ?new)"
        using fr k(3) by (intro rawset_fresh) (auto simp: fresh_keys_def h)
      have dk: "\<forall>(k', v') \<in> set (hash_part n ps). \<not> raw_equal k' k"
        using Cons.prems(2) raw_equal_sym by (fastforce simp: distinct_keys_def p hash_part_def)
      have fr': "fresh_keys (map (map_prod plain plain) (hash_part n ps)) (acc @ ?new)"
        using fr dk by (fastforce simp: fresh_keys_def h)
      have "length (bs1 @ (bs2 @ bs3 @ rest)) > length (bs2 @ bs3 @ rest)"
        using shrinksD [OF Cons.prems(4)] 1(3) by blast
      then have l: "length bs1 > 0" by simp
      have u: "unpack_hash get g (acc @ ?new) (bs3 @ rest) = Some ((acc @ ?new) @ pairs_back n ps, rest)"
        by (intro 3(3) fr') (use f g l in \<open>simp only: length_append\<close>)
      have "unpack_hash get f acc ((bs1 @ bs2 @ bs3) @ rest) = unpack_hash get g (acc @ ?new) (bs3 @ rest)"
        unfolding g unpack_hash.simps using 1(3) 2(3) rs nn by simp
      also have "\<dots> = Some (acc @ pairs_back n (p # ps), rest)"
        unfolding u pairs_back_def h by simp
      finally show ?thesis .
    qed
    show ?thesis using pk em rd by blast
  qed
qed

definition table_header :: "nat \<Rightarrow> write_block \<Rightarrow> write_block" where
  "table_header n b =
     (if n \<ge> MAX_COOKIE - 1 then wb_integer (of_nat n) (wb_push [COMBINE_TYPE TYPE_TABLE (MAX_COOKIE - 1)] b)
      else wb_push [COMBINE_TYPE TYPE_TABLE n] b)"

lemma table_header_reads:
  assumes "n < 2 ^ 31" and ok: "wb_ok b"
  shows "\<exists>c bs. emits b (COMBINE_TYPE TYPE_TABLE c # bs) (table_header n b) \<and> c < 32 \<and>
    (\<forall>rest. table_size c (bs @ rest) = Some (int n, rest))"
proof (cases "n \<ge> MAX_COOKIE - 1")
  case False
  then show ?thesis using wb_push_spec [OF ok]
    by (intro exI [of _ n] exI [of _ "[]"]) (simp add: table_header_def table_size_def MAX_COOKIE_def)
next
  case True
  let ?b1 = "wb_push [COMBINE_TYPE TYPE_TABLE (MAX_COOKIE - 1)] b"
  have e1: "emits b [COMBINE_TYPE TYPE_TABLE (MAX_COOKIE - 1)] ?b1" by (rule wb_push_spec [OF ok])
  obtain c bs where i: "emits ?b1 (COMBINE_TYPE TYPE_NUMBER c # bs) (wb_integer (of_nat n) ?b1)" "c < 32" "c \<noteq> TYPE_NUMBER_REAL"
    "\<forall>rest. get_integer c (bs @ rest) = Some (of_nat n, rest)"
    using integer_reads [OF emits_ok [OF e1], of "of_nat n"] by blast
  have t: "type_parts TYPE_NUMBER c" using i(2) by (intro type_parts) (simp_all add: TYPE_NUMBER_def)
  have s: "sint (ucast (of_nat n :: u64) :: u32) = int n"
    using assms(1) by (simp add: unsigned_of_nat take_bit_nat_eq_self signed_of_nat signed_take_bit_int_eq_self_iff)
  have "table_size (MAX_COOKIE - 1) ((COMBINE_TYPE TYPE_NUMBER c # bs) @ rest) = Some (int n, rest)" for rest
    using i(3,4) t s by (simp add: table_size_def rb_read_def type_parts_def Let_def)
  moreover have "emits b (COMBINE_TYPE TYPE_TABLE (MAX_COOKIE - 1) # (COMBINE_TYPE TYPE_NUMBER c # bs)) (table_header n b)"
    using emits_trans [OF e1 i(1)] True by (simp add: table_header_def)
  ultimately show ?thesis by (intro exI [of _ "MAX_COOKIE - 1"] exI [of _ "COMBINE_TYPE TYPE_NUMBER c # bs"]) (simp add: MAX_COOKIE_def)
qed

lemma array_part_plain:
  "array_part n (map (map_prod plain plain) ps) = arr_pairs 1 (map plain (map (rawgeti ps) [1..<n + 1]))"
  unfolding map_map arr_pairs_upt array_part_def rawgeti_plain by (simp add: comp_def)

lemma table_reads:
  assumes "n < 2 ^ 31" and arr: "\<forall>i \<in> {1..n}. roundtrips pack get (rawgeti ps i)"
    and hash: "\<forall>(k, v) \<in> set (hash_part n ps). roundtrips pack get k \<and> roundtrips pack get v \<and> good_key k"
    and d: "distinct_keys ps" and g: "nil_read get" "shrinks get" and ok: "wb_ok b"
  shows "\<exists>b' c bs. (do { b1 \<leftarrow> wb_table_array pack n ps b; pack_hash pack n ps b1 }) = Some b' \<and>
    emits b (COMBINE_TYPE TYPE_TABLE c # bs) b' \<and> c < 32 \<and>
    (\<forall>rest. unpack_table get c (bs @ rest) =
       Some (L_table n (array_part n (map (map_prod plain plain) ps) @ pairs_back n ps), rest))"
proof -
  obtain c bs0 where 0: "emits b (COMBINE_TYPE TYPE_TABLE c # bs0) (table_header n b)" "c < 32"
    "\<forall>rest. table_size c (bs0 @ rest) = Some (int n, rest)"
    using table_header_reads [OF assms(1) ok] by blast
  let ?vs = "map (rawgeti ps) [1..<n + 1]"
  have "\<forall>v \<in> set ?vs. roundtrips pack get v" using arr by auto
  from pack_list_reads [OF this emits_ok [OF 0(1)]] obtain b1 bs1
    where 1: "pack_list pack ?vs (table_header n b) = Some b1" "emits (table_header n b) bs1 b1"
      "\<And>rest i qs. unpack_array get (length ?vs) i qs (bs1 @ rest) = Some (qs @ arr_pairs i (map plain ?vs), rest)" by blast
  from pack_hash_reads [OF hash d g emits_ok [OF 1(2)]] obtain b2 bs2
    where 2: "pack_hash pack n ps b1 = Some b2" "emits b1 bs2 b2"
      "\<And>rest f acc. length (bs2 @ rest) < f \<Longrightarrow> fresh_keys (map (map_prod plain plain) (hash_part n ps)) acc \<Longrightarrow>
       unpack_hash get f acc (bs2 @ rest) = Some (acc @ pairs_back n ps, rest)" by blast
  let ?arr = "array_part n (map (map_prod plain plain) ps)"
  have fr: "fresh_keys (map (map_prod plain plain) (hash_part n ps)) ?arr"
  proof -
    have "\<not> raw_equal (plain k) (lua_int i)" if "\<not> in_array n k" "i \<in> {1..n}" for k i
    proof
      assume "raw_equal (plain k) (lua_int i)"
      then have "k = lua_int i" by (cases k) (auto simp: raw_equal_def)
      then show False using that assms(1) by (simp add: in_array_def sint_of_nat_small)
    qed
    then show ?thesis by (auto simp: fresh_keys_def hash_part_def array_part_def)
  qed
  have "unpack_table get c ((bs0 @ bs1 @ bs2) @ rest) = Some (L_table n (?arr @ pairs_back n ps), rest)" for rest
  proof -
    have "unpack_array get n 1 [] (bs1 @ bs2 @ rest) = Some (?arr, bs2 @ rest)"
      using 1(3) [of 1 "[]" "bs2 @ rest"] unfolding array_part_plain by (simp only: length_map length_upt append_Nil add_diff_cancel_right')
    moreover have "unpack_hash get (length (bs2 @ rest) + 1) ?arr (bs2 @ rest) = Some (?arr @ pairs_back n ps, rest)"
      by (intro 2(3) fr) simp
    ultimately show ?thesis using 0(3) by (simp add: unpack_table_def del: One_nat_def unpack_hash.simps)
  qed
  moreover have "emits b (COMBINE_TYPE TYPE_TABLE c # (bs0 @ bs1 @ bs2)) b2"
    using emits_trans [OF 0(1) emits_trans [OF 1(2) 2(2)]] by simp
  moreover have "(do { b1 \<leftarrow> wb_table_array pack n ps b; pack_hash pack n ps b1 }) = Some b2"
    using 1(1) 2(1) by (simp add: wb_table_array_def table_header_def Let_def)
  ultimately show ?thesis using 0(2) by blast
qed

lemma string_reads:
  assumes "length s < 2 ^ 31" and ok: "wb_ok b"
  shows "\<exists>t c bs. emits b (COMBINE_TYPE t c # bs) (wb_string s b) \<and> t < 8 \<and> c < 32 \<and>
    (\<forall>get rest. push_value get t c (bs @ rest) = Some (L_string s, rest))"
proof -
  let ?n = "of_nat (length s) :: u64"
  have n: "unat ?n = length s" using assms(1) by (simp add: unsigned_of_nat take_bit_nat_eq_self)
  have buf: "get_buffer (int (length s)) (s @ rest) = Some (s, rest)" for rest
    by (simp add: get_buffer_def rb_read_append)
  consider "length s < MAX_COOKIE" | "\<not> length s < MAX_COOKIE" "length s < 0x10000"
    | "\<not> length s < MAX_COOKIE" "\<not> length s < 0x10000" by blast
  then show ?thesis
  proof cases
    case 1
    then have "wb_string s b = (if s = [] then wb_push [COMBINE_TYPE TYPE_SHORT_STRING (length s)] b
        else wb_push s (wb_push [COMBINE_TYPE TYPE_SHORT_STRING (length s)] b))"
      by (auto simp: wb_string_def)
    then have "emits b (COMBINE_TYPE TYPE_SHORT_STRING (length s) # s) (wb_string s b)"
      using wb_push_spec [OF ok] emits_two [OF ok] by (metis append_Cons append_Nil)
    then show ?thesis using 1 buf
      by (intro exI [of _ TYPE_SHORT_STRING] exI [of _ "length s"] exI [of _ s]) (simp add: push_value_def type_defs)
  next
    case 2
    have l: "of_le (le_bytes 2 ?n) = ?n" using 2(2) n by (intro of_le_small) simp_all
    have u: "uint ?n = int (length s)" using assms(1) by (simp add: unsigned_of_nat take_bit_nat_eq_self)
    have "emits b (COMBINE_TYPE TYPE_LONG_STRING 2 # le_bytes 2 ?n @ s) (wb_string s b)"
      using emits_long [OF ok] 2 by (simp add: wb_string_def)
    moreover have "push_value get TYPE_LONG_STRING 2 ((le_bytes 2 ?n @ s) @ rest) = Some (L_string s, rest)" for get rest
      using buf u l by (simp add: push_value_def type_defs rb_read_append)
    ultimately show ?thesis
      by (intro exI [of _ TYPE_LONG_STRING] exI [of _ 2] exI [of _ "le_bytes 2 ?n @ s"]) (simp add: type_defs)
  next
    case 3
    have l: "(ucast (of_le (le_bytes 4 ?n)) :: u32) = ucast ?n" by (rule of_le_4)
    have u: "sint (ucast ?n :: u32) = int (length s)"
      using assms(1) by (simp add: unsigned_of_nat take_bit_nat_eq_self signed_of_nat signed_take_bit_int_eq_self_iff)
    have "emits b (COMBINE_TYPE TYPE_LONG_STRING 4 # le_bytes 4 ?n @ s) (wb_string s b)"
      using emits_long [OF ok] 3 by (simp add: wb_string_def)
    moreover have "push_value get TYPE_LONG_STRING 4 ((le_bytes 4 ?n @ s) @ rest) = Some (L_string s, rest)" for get rest
      using buf u l by (simp add: push_value_def type_defs rb_read_append)
    ultimately show ?thesis
      by (intro exI [of _ TYPE_LONG_STRING] exI [of _ 4] exI [of _ "le_bytes 4 ?n @ s"]) (simp add: type_defs)
  qed
qed

lemma typed_reads:
  assumes "emits b (COMBINE_TYPE t c # bs) b'" and "t < 8" and "c < 32"
    and "\<And>rest. push_value (unpack_one f) t c (bs @ rest) = Some (w, rest)"
  shows "\<exists>bs. emits b bs b' \<and> (\<forall>rest. unpack_one (Suc f) (bs @ rest) = Some (w, rest))"
proof -
  have "type_parts t c" using assms(2,3) by (rule type_parts)
  then have "unpack_one (Suc f) ((COMBINE_TYPE t c # bs) @ rest) = Some (w, rest)" for rest
    using assms(4) by (simp add: rb_read_def push_typed_def type_parts_def)
  then show ?thesis using assms(1) by blast
qed

lemma unpack_one_nil: "nil_read (unpack_one (Suc f))"
  by (simp add: nil_read_def rb_read_def push_typed_def push_value_def TYPE_NIL_def)

lemma wf_pairs:
  "list_all (\<lambda>(a, b). a \<and> b) (map (map_prod wf_value wf_value) ps) \<longleftrightarrow> (\<forall>(k, v) \<in> set ps. wf_value k \<and> wf_value v)"
  by (auto simp: list_all_iff)

lemma pack_metapairs_hash: "\<forall>(k, v) \<in> set ps. k \<noteq> L_nil \<Longrightarrow> pack_metapairs pack ps b = pack_hash pack 0 ps b"
proof (induction ps arbitrary: b)
  case (Cons p ps)
  obtain k v where p: "p = (k, v)" by fastforce
  have "\<not> in_array 0 k" by (auto simp: in_array_def split: lua_value.splits)
  moreover have "pack_metapairs pack ps = pack_hash pack 0 ps" using Cons by auto
  ultimately show ?case using Cons.prems p by simp
qed simp

lemma hash_part_0: "hash_part 0 ps = ps"
  by (auto simp: hash_part_def in_array_def filter_id_conv split: lua_value.splits)

lemma pairs_back_plain: "\<forall>(k, v) \<in> set ps. v \<noteq> L_nil \<Longrightarrow> pairs_back n ps = hash_part n (map (map_prod plain plain) ps)"
  by (induction ps) (auto simp: pairs_back_def hash_part_def)

lemma rawgeti_cases: "rawgeti ps i = L_nil \<or> (lua_int i, rawgeti ps i) \<in> set ps"
  by (auto simp: rawgeti_def dest: map_of_SomeD split: option.splits)

lemma unpack_one_table:
  assumes "emits b (COMBINE_TYPE TYPE_TABLE c # bs) b'" and "c < 32"
    and "\<And>rest. unpack_table (unpack_one f) c (bs @ rest) = Some (w, rest)"
  shows "\<exists>bs. emits b bs b' \<and> (\<forall>rest. unpack_one (Suc f) (bs @ rest) = Some (w, rest))"
  by (rule typed_reads [OF assms(1) _ assms(2)]) (simp_all add: type_defs push_value_def assms(3) [unfolded type_defs])

lemma pack_one_reads: "fits r v \<Longrightarrow> wf_value v \<Longrightarrow> r \<le> f \<Longrightarrow> roundtrips (pack_one r) (unpack_one (Suc f)) v"
proof (induction r arbitrary: f v)
  case (Suc r)
  obtain g where f: "f = Suc g" and rg: "r \<le> g" using Suc.prems(3) by (cases f) auto
  have IH: "roundtrips (pack_one r) (unpack_one f) w" if "fits r w" "wf_value w" for w
    unfolding f by (rule Suc.IH [OF that rg])
  have tab: "\<exists>b' bs. (do { b1 \<leftarrow> wb_table_array (pack_one r) n ps b; pack_hash (pack_one r) n ps b1 }) = Some b' \<and> emits b bs b' \<and>
      (\<forall>rest. unpack_one (Suc f) (bs @ rest) = Some (L_table n (array_part n (map (map_prod plain plain) ps) @ pairs_back n ps), rest))"
    if "n < 2 ^ 31" and n: "0 < n \<longrightarrow> rawgeti ps n \<noteq> L_nil"
      and ps: "\<forall>(k, v) \<in> set ps. fits r k \<and> fits r v \<and> wf_value k \<and> wf_value v \<and> good_key k"
      and d: "distinct_keys ps" and ok: "wb_ok b" for n ps b
  proof -
    have "roundtrips (pack_one r) (unpack_one f) (rawgeti ps i)" if "i \<in> {1..n}" for i
    proof -
      have "(lua_int n, rawgeti ps n) \<in> set ps" using n that rawgeti_cases [of ps n] by auto
      then have "0 < r" using ps by (cases r) auto
      then have "fits r L_nil" by (cases r) simp_all
      then show ?thesis using rawgeti_cases [of ps i] ps by (intro IH) auto
    qed
    then have arr: "\<forall>i \<in> {1..n}. roundtrips (pack_one r) (unpack_one f) (rawgeti ps i)" by blast
    have hash: "\<forall>(k, v) \<in> set (hash_part n ps). roundtrips (pack_one r) (unpack_one f) k \<and> roundtrips (pack_one r) (unpack_one f) v \<and> good_key k"
      using ps IH by (auto simp: hash_part_def)
    have nr: "nil_read (unpack_one f)" unfolding f by (rule unpack_one_nil)
    from table_reads [OF that(1) arr hash d nr unpack_one_shrinks ok] obtain b' c bs
      where t: "(do { b1 \<leftarrow> wb_table_array (pack_one r) n ps b; pack_hash (pack_one r) n ps b1 }) = Some b'"
        "emits b (COMBINE_TYPE TYPE_TABLE c # bs) b'" "c < 32"
        "\<And>rest. unpack_table (unpack_one f) c (bs @ rest) =
           Some (L_table n (array_part n (map (map_prod plain plain) ps) @ pairs_back n ps), rest)" by blast
    from unpack_one_table [OF t(2-4)] t(1) show ?thesis by blast
  qed
  have sim: "\<exists>b' bs. pack_one (Suc r) v b = Some b' \<and> emits b bs b' \<and> (\<forall>rest. unpack_one (Suc f) (bs @ rest) = Some (w, rest))"
    if "emits b (COMBINE_TYPE t c # bs) b'" "t < 8" "c < 32" "\<And>rest. push_value (unpack_one f) t c (bs @ rest) = Some (w, rest)"
      "pack_one (Suc r) v b = Some b'" for b t c bs w b'
    using typed_reads [OF that(1-4)] that(5) by blast
  have "\<exists>b' bs. pack_one (Suc r) v b = Some b' \<and> emits b bs b' \<and> (\<forall>rest. unpack_one (Suc f) (bs @ rest) = Some (plain v, rest))"
    if ok: "wb_ok b" for b
  proof (cases v)
    case L_nil
    show ?thesis by (rule sim [of b TYPE_NIL 0 "[]" "wb_nil b"])
        (use wb_push_spec [OF ok] in \<open>simp_all add: L_nil wb_nil_def push_value_def type_defs COMBINE_TYPE_def\<close>)
  next
    case (L_boolean x)
    show ?thesis by (rule sim [of b TYPE_BOOLEAN "if x then 1 else 0" "[]" "wb_boolean x b"])
        (use wb_push_spec [OF ok] in \<open>simp_all add: L_boolean wb_boolean_def push_value_def type_defs\<close>)
  next
    case (L_integer x)
    obtain c bs where i: "emits b (COMBINE_TYPE TYPE_NUMBER c # bs) (wb_integer x b)" "c < 32" "c \<noteq> TYPE_NUMBER_REAL"
      "\<forall>rest. get_integer c (bs @ rest) = Some (x, rest)" using integer_reads [OF ok] by blast
    show ?thesis by (rule sim [OF i(1) _ i(2)]) (use i(3,4) in \<open>simp_all add: L_integer push_value_def type_defs\<close>)
  next
    case (L_number x)
    show ?thesis by (rule sim [of b TYPE_NUMBER TYPE_NUMBER_REAL "le_bytes 8 x" "wb_real x b"])
        (use emits_two [OF ok, of "[_]"] in \<open>simp_all add: L_number wb_real_def push_value_def type_defs get_real_def rb_read_append of_le_8\<close>)
  next
    case (L_lightuserdata x)
    show ?thesis by (rule sim [of b TYPE_USERDATA 0 "le_bytes 8 x" "wb_pointer x b"])
        (use emits_two [OF ok, of "[_]"] in \<open>simp_all add: L_lightuserdata wb_pointer_def push_value_def type_defs get_pointer_def
          rb_read_append of_le_8 COMBINE_TYPE_def\<close>)
  next
    case (L_string s)
    then have "length s < 2 ^ 31" using Suc.prems(2) by simp
    from string_reads [OF this ok] obtain t c bs where i: "emits b (COMBINE_TYPE t c # bs) (wb_string s b)" "t < 8" "c < 32"
      "\<And>get rest. push_value get t c (bs @ rest) = Some (L_string s, rest)" by blast
    show ?thesis by (rule sim [OF i(1-3)]) (use i(4) in \<open>simp_all add: L_string\<close>)
  next
    case (L_table n ps)
    have "\<forall>(k, v) \<in> set ps. v \<noteq> L_nil" using Suc.prems(2) L_table by (simp add: list_all_iff case_prod_beta)
    then have p: "plain v = L_table n (array_part n (map (map_prod plain plain) ps) @ pairs_back n ps)"
      using L_table by (simp add: pairs_back_plain Let_def)
    show ?thesis unfolding p unfolding L_table pack_one.simps lua_value.case
      by (rule tab) (use Suc.prems(1,2) L_table ok in \<open>auto simp: wf_pairs list_all_iff\<close>)
  next
    case (L_pairs ps)
    have k: "\<forall>(k, v) \<in> set ps. k \<noteq> L_nil" using Suc.prems(2) L_pairs good_key_not_nil by (fastforce simp: list_all_iff)
    have p: "plain v = L_table 0 (array_part 0 (map (map_prod plain plain) ps) @ pairs_back 0 ps)"
      using L_pairs by (simp add: pairs_back_def array_part_def hash_part_0)
    have e: "pack_one (Suc r) v b = (do { b1 \<leftarrow> wb_table_array (pack_one r) 0 ps b; pack_hash (pack_one r) 0 ps b1 })"
      using L_pairs k by (simp add: pack_metapairs_hash wb_table_array_def MAX_COOKIE_def)
    show ?thesis unfolding p e
      by (rule tab) (use Suc.prems(1,2) L_pairs ok in \<open>auto simp: wf_pairs list_all_iff\<close>)
  next
    case L_other
    then show ?thesis using Suc.prems(1) by simp
  qed
  then show ?case by (simp only: roundtrips_def) blast
qed simp

lemma pack_all_reads:
  "list_all (fits r) vs \<Longrightarrow> list_all wf_value vs \<Longrightarrow> wb_ok b \<Longrightarrow>
   \<exists>b' bs. pack_list (pack_one r) vs b = Some b' \<and> emits b bs b' \<and> (\<forall>f. length bs < f \<longrightarrow> unpack_all f bs = Some (map plain vs))"
proof (induction vs arbitrary: b)
  case Nil
  have "unpack_all f [] = Some []" if "0 < f" for f using that by (cases f) (simp_all add: rb_read_def)
  then show ?case using Nil by (intro exI [of _ b] exI [of _ "[]"]) (simp add: emits_def)
next
  case (Cons v vs)
  have rt: "roundtrips (pack_one r) (unpack_one (Suc f)) v" if "r \<le> f" for f
    using Cons.prems(1,2) that by (intro pack_one_reads) simp_all
  from roundtripsD [OF rt [OF le_refl] Cons.prems(3)] obtain b1 bs1 where 1: "pack_one r v b = Some b1" "emits b bs1 b1" by blast
  have r1: "unpack_one (Suc f) (bs1 @ rest) = Some (plain v, rest)" if "r \<le> f" for f rest
    using roundtripsD [OF rt [OF that] Cons.prems(3)] 1 by (auto simp: emits_def)
  from Cons.IH [OF _ _ emits_ok [OF 1(2)]] Cons.prems(1,2) obtain b2 bs2
    where 2: "pack_list (pack_one r) vs b1 = Some b2" "emits b1 bs2 b2"
      "\<And>f. length bs2 < f \<Longrightarrow> unpack_all f bs2 = Some (map plain vs)" by auto
  have "unpack_all f (bs1 @ bs2) = Some (map plain (v # vs))" if f: "length (bs1 @ bs2) < f" for f
  proof -
    obtain g where g: "f = Suc g" using f by (cases f) auto
    let ?n = "length (bs1 @ bs2)"
    have "unpack_one (Suc ?n) (bs1 @ bs2) = unpack_one (Suc (r + ?n)) (bs1 @ bs2)" by (intro unpack_bounds) simp_all
    then have u: "unpack_one (Suc ?n) (bs1 @ bs2) = Some (plain v, bs2)" using r1 by simp
    then obtain t rb where rb: "rb_read 1 (bs1 @ bs2) = Some (t, rb)" "push_typed (unpack_one ?n) (t ! 0) rb = Some (plain v, bs2)"
      by (auto split: bind_splits)
    have "length bs2 < ?n" using shrinksD [OF unpack_one_shrinks u] .
    then have "unpack_all g bs2 = Some (map plain vs)" using f unfolding g by (intro 2(3)) linarith
    then show ?thesis using rb g by simp
  qed
  moreover have "pack_list (pack_one r) (v # vs) b = Some b2" using 1 2 by simp
  ultimately show ?case using emits_trans [OF 1(2) 2(2)] by blast
qed

text \<open>What is written into the blocks.\<close>

definition packed :: "lua_value list \<Rightarrow> u8 list" where
  "packed vs = (case pack_from vs wb_init of None \<Rightarrow> [] | Some b \<Rightarrow> wb_bytes b)"

lemma pack_bytes_back:
  assumes "list_all wf_value vs" and "list_all (fits (MAX_DEPTH + 1)) vs"
  shows "pack_from vs wb_init \<noteq> None" and "length (packed vs) < 2 ^ 31 \<Longrightarrow> luaseri_pack vs = Some (Inr (packed vs))"
    and "luaseri_unpack (packed vs) = Some (map plain vs)"
proof -
  from pack_all_reads [OF assms(2,1) wb_ok_init(1)] obtain b bs
    where 1: "pack_list (pack_one (MAX_DEPTH + 1)) vs wb_init = Some b" "emits wb_init bs b"
      "\<And>f. length bs < f \<Longrightarrow> unpack_all f bs = Some (map plain vs)" by blast
  have p: "pack_from vs wb_init = Some b" using 1(1) by (simp add: pack_from_def)
  then show "pack_from vs wb_init \<noteq> None" by simp
  show "luaseri_pack vs = Some (Inr (packed vs))" if "length (packed vs) < 2 ^ 31"
    using p that seri_bytes [OF emits_ok [OF 1(2)]] by (simp add: luaseri_pack_def packed_def)
  have "packed vs = bs" using p 1(2) by (simp add: packed_def emits_def wb_ok_init)
  then show "luaseri_unpack (packed vs) = Some (map plain vs)" using 1(3) [of "length bs + 1"] by (simp add: luaseri_unpack_def del: unpack_all.simps)
qed

text \<open>From \<open>2 ^ 31\<close> bytes on the count is negative, and so is the size of the buffer that is asked for.\<close>

lemma long_message_fails:
  assumes "list_all wf_value vs" and "list_all (fits (MAX_DEPTH + 1)) vs" and "2 ^ 31 \<le> length (packed vs)" "length (packed vs) < 2 ^ 32"
  shows "luaseri_pack vs = None"
proof -
  from pack_all_reads [OF assms(2,1) wb_ok_init(1)] obtain b bs
    where 1: "pack_list (pack_one (MAX_DEPTH + 1)) vs wb_init = Some b" "emits wb_init bs b" by blast
  have p: "pack_from vs wb_init = Some b" "packed vs = wb_bytes b" using 1(1) by (simp_all add: pack_from_def packed_def)
  have c: "length (concat bs) = BLOCK_SIZE * length bs" if "\<forall>x \<in> set bs. length x = BLOCK_SIZE" for bs :: "u8 list list"
    using that by (induction bs) simp_all
  have "wb_len b = of_nat (length (wb_bytes b))" using emits_ok [OF 1(2)] c [of "wb_full b"] by (simp add: wb_ok_def wb_bytes_def)
  moreover have "sint (of_nat n :: u32) < 0" if n: "2 ^ 31 \<le> n" "n < 2 ^ 32" for n
  proof -
    have "(int n + 2 ^ 31) mod 2 ^ 32 = int n + 2 ^ 31 - 2 ^ 32" using n mod_pos_geq [of "2 ^ 32" "int n + 2 ^ 31"] by simp
    then show ?thesis using n by (simp add: signed_of_nat signed_take_bit_eq_take_bit_shift take_bit_eq_mod)
  qed
  ultimately have "sint (wb_len b) < 0" using assms(3,4) p(2) by simp
  then show ?thesis using p(1) by (simp add: luaseri_pack_def seri_def)
qed

section \<open>What cannot be packed\<close>

lemma pack_list_None: "w \<in> set vs \<Longrightarrow> \<forall>b. pack w b = None \<Longrightarrow> pack_list pack vs b = None"
  by (induction vs arbitrary: b) (auto split: bind_splits)

lemma pack_hash_None:
  "(k, v) \<in> set ps \<Longrightarrow> \<not> in_array n k \<Longrightarrow> \<forall>b. pack k b = None \<or> (\<forall>b. pack v b = None) \<Longrightarrow> pack_hash pack n ps b = None"
proof (induction ps arbitrary: b)
  case (Cons p ps)
  obtain k' v' where p: "p = (k', v')" by fastforce
  show ?case
  proof (cases "(k, v) \<in> set ps")
    case True
    then have "pack_hash pack n ps b = None" for b using Cons by blast
    then show ?thesis unfolding p by (auto split: bind_splits)
  next
    case False
    then have "k' = k" "v' = v" using Cons.prems(1) p by auto
    then show ?thesis using Cons.prems(2,3) unfolding p by (cases "pack k b") auto
  qed
qed simp

lemma rawgeti_unique: "(lua_int i, v) \<in> set ps \<Longrightarrow> distinct_keys ps \<Longrightarrow> rawgeti ps i = v"
proof (induction ps)
  case (Cons p ps)
  then show ?case by (cases p) (fastforce simp: rawgeti_def distinct_keys_def raw_equal_def)
qed simp

lemma in_array_int:
  assumes "in_array n k" shows "\<exists>i \<in> {1..n}. k = lua_int i"
proof -
  from assms obtain x where k: "k = L_integer x" "0 < sint x" "sint x \<le> int n"
    by (auto simp: in_array_def split: lua_value.splits)
  have "x = word_of_int (sint x)" by simp
  also have "\<dots> = of_nat (nat (sint x))" using k(2) by (metis less_imp_le nat_0_le of_int_of_nat_eq)
  finally show ?thesis using k by (intro bexI [of _ "nat (sint x)"]) auto
qed

lemma pack_one_None: "\<not> fits r v \<Longrightarrow> wf_value v \<Longrightarrow> pack_one r v b = None"
proof (induction r arbitrary: v b)
  case (Suc r)
  have tab: "(do { b1 \<leftarrow> wb_table_array (pack_one r) n ps b; pack_hash (pack_one r) n ps b1 }) = None"
    if kv: "(k, v) \<in> set ps" "\<not> fits r k \<or> \<not> fits r v" "wf_value k" "wf_value v" and d: "distinct_keys ps" for n ps k v b
  proof (cases "in_array n k")
    case True
    then obtain i where i: "i \<in> {1..n}" "k = lua_int i" using in_array_int by blast
    have "pack_one r v b = None" for b
    proof (cases r)
      case (Suc q)
      then have "fits r k" using i by simp
      then show ?thesis using kv Suc.IH by blast
    qed simp
    moreover have "rawgeti ps i = v" using rawgeti_unique [OF _ d] kv(1) i(2) by blast
    then have "v \<in> set (map (rawgeti ps) [1..<n + 1])" using i(1) by (simp only: set_map set_upt) auto
    ultimately have "pack_list (pack_one r) (map (rawgeti ps) [1..<n + 1]) b1 = None" for b1 using pack_list_None by blast
    then show ?thesis by (simp add: wb_table_array_def Let_def)
  next
    case False
    have "\<forall>b. pack_one r k b = None \<or> (\<forall>b. pack_one r v b = None)" using Suc.IH kv by blast
    from pack_hash_None [OF kv(1) False this] show ?thesis by (auto split: bind_splits)
  qed
  show ?case
  proof (cases v)
    case (L_table n ps)
    then obtain k w where kw: "(k, w) \<in> set ps" "\<not> fits r k \<or> \<not> fits r w" using Suc.prems(1) by (auto simp: list_all_iff)
    then have "wf_value k" "wf_value w" using Suc.prems(2) L_table by (auto simp: wf_pairs)
    from tab [OF kw this] show ?thesis using Suc.prems(2) L_table by simp
  next
    case (L_pairs ps)
    then obtain k w where kw: "(k, w) \<in> set ps" "\<not> fits r k \<or> \<not> fits r w" using Suc.prems(1) by (auto simp: list_all_iff)
    then have w: "wf_value k" "wf_value w" using Suc.prems(2) L_pairs by (auto simp: wf_pairs)
    have k: "\<forall>(k, v) \<in> set ps. k \<noteq> L_nil" using Suc.prems(2) L_pairs good_key_not_nil by (fastforce simp: list_all_iff)
    have "pack_one (Suc r) v b = (do { b1 \<leftarrow> wb_table_array (pack_one r) 0 ps b; pack_hash (pack_one r) 0 ps b1 })"
      using L_pairs k by (simp add: pack_metapairs_hash wb_table_array_def MAX_COOKIE_def)
    then show ?thesis using tab [OF kw w] Suc.prems(2) L_pairs by simp
  qed (use Suc.prems(1) in simp_all)
qed simp

lemma pack_error: "list_all wf_value vs \<Longrightarrow> \<not> list_all (fits (MAX_DEPTH + 1)) vs \<Longrightarrow> luaseri_pack vs = Some (Inl ())"
proof -
  assume a: "list_all wf_value vs" "\<not> list_all (fits (MAX_DEPTH + 1)) vs"
  then obtain v where "v \<in> set vs" "wf_value v" "\<not> fits (MAX_DEPTH + 1) v" by (auto simp: list_all_iff)
  then have "pack_list (pack_one (MAX_DEPTH + 1)) vs wb_init = None" using pack_one_None pack_list_None by metis
  then show ?thesis by (simp add: luaseri_pack_def pack_from_def)
qed

section \<open>Properties\<close>

text \<open>C37. Whatever Lua values are packed, unless one is of a type that cannot be packed or is nested more than 32 deep, if
  fewer than \<open>2 ^ 31\<close> bytes are written, these bytes are the result of \<open>luaseri_pack\<close>, and \<open>luaseri_unpack\<close> gives the same values back:
  strings of every length, integers in each of their widths, tables with their array part and their other pairs; a table loses
  only its metatable.\<close>

theorem seri_roundtrip:
  assumes "list_all wf_value vs" and "list_all (fits (MAX_DEPTH + 1)) vs" and "length (packed vs) < 2 ^ 31"
  shows "luaseri_pack vs = Some (Inr (packed vs)) \<and> luaseri_unpack (packed vs) = Some (map plain vs)"
  using pack_bytes_back [OF assms(1,2)] assms(3) by blast

definition sample_values :: "lua_value list" where
  "sample_values = [L_integer 70000, L_table 2 [(lua_int 1, L_boolean True), (lua_int 2, L_string [7, 8]), (L_string [9], L_table 0 [])]]"

lemma sample_values_ok: "list_all wf_value sample_values" "list_all (fits (MAX_DEPTH + 1)) sample_values"
  by (simp add: sample_values_def distinct_keys_def raw_equal_def good_key_def bad_key_def norm_key_def rawgeti_def)
    code_simp

lemma sample_packed: "packed sample_values = [34, 112, 17, 1, 0, 22, 9, 20, 7, 8, 12, 9, 6, 0, 0]"
  by code_simp

theorem seri_roundtrip_witness:
  "luaseri_pack sample_values = Some (Inr (packed sample_values)) \<and> luaseri_unpack (packed sample_values) = Some (map plain sample_values)"
  by (rule seri_roundtrip [OF sample_values_ok]) (simp add: sample_packed)

text \<open>C38. \<open>luaseri_pack\<close> raises a Lua error exactly when one of the values holds something that cannot be packed (a
  function, a thread, a full userdata) or is nested deeper than \<open>MAX_DEPTH\<close>: no other value makes it fail.\<close>

theorem seri_pack_errors:
  assumes "list_all wf_value vs"
  shows "luaseri_pack vs = Some (Inl ()) \<longleftrightarrow> \<not> list_all (fits (MAX_DEPTH + 1)) vs"
proof (cases "list_all (fits (MAX_DEPTH + 1)) vs")
  case True
  then have "\<exists>b. pack_from vs wb_init = Some b" using pack_bytes_back(1) [OF assms True] by blast
  then show ?thesis using True by (auto simp: luaseri_pack_def)
qed (use pack_error [OF assms] in simp)

theorem seri_pack_errors_witness: "luaseri_pack [L_table 1 [(lua_int 1, L_other)]] = Some (Inl ())"
proof -
  have "list_all wf_value [L_table 1 [(lua_int 1, L_other)]]"
    by (simp add: distinct_keys_def raw_equal_def good_key_def bad_key_def norm_key_def rawgeti_def)
  moreover have "\<not> list_all (fits (MAX_DEPTH + 1)) [L_table 1 [(lua_int 1, L_other)]]" by code_simp
  ultimately show ?thesis using seri_pack_errors by blast
qed

end
