(* ===== verification/SocketServer.thy ===== *)
theory SocketServer
  imports Prelude
begin

text \<open>
  The socket server of \<^verbatim>\<open>skynet-src/socket_server.c\<close>, as it is compiled for Windows.  Worker threads call
  \<open>socket_server_connect\<close>, \<open>socket_server_send\<close> and so on; most of them only put a request on the control channel.
  The socket thread runs \<open>socket_server_poll\<close>, which takes requests and events of the poller and returns one message
  at a time.

  A list of write buffers is the list of its nodes (head and tail are NULL exactly when it is empty: every operation that
  empties it resets the tail).  A memory buffer is its address with its bytes; freeing, writing to a file descriptor and
  calling the poller are effects in the log of the server.  What system calls return is an input.  Every call of a worker
  and every round of the socket thread is one step; the lock of a socket is a flag that is set while a worker holds it.
  Strings that only go into messages (\<open>strerror\<close>, \<open>inet_ntop\<close>) are inputs.  Buffers are shorter than 2 GiB.
\<close>

section \<open>Constants\<close>

definition MAX_SOCKET :: nat where "MAX_SOCKET = 65536"
definition MIN_READ_BUFFER :: int where "MIN_READ_BUFFER = 64"
definition WARNING_SIZE :: int where "WARNING_SIZE = 1024 * 1024"
definition UDP_ADDRESS_SIZE :: nat where "UDP_ADDRESS_SIZE = 19"

definition SOCKET_DATA :: int where "SOCKET_DATA = 0"
definition SOCKET_CLOSE :: int where "SOCKET_CLOSE = 1"
definition SOCKET_OPEN :: int where "SOCKET_OPEN = 2"
definition SOCKET_ACCEPT :: int where "SOCKET_ACCEPT = 3"
definition SOCKET_ERR :: int where "SOCKET_ERR = 4"
definition SOCKET_EXIT :: int where "SOCKET_EXIT = 5"
definition SOCKET_UDP :: int where "SOCKET_UDP = 6"
definition SOCKET_WARNING :: int where "SOCKET_WARNING = 7"

lemmas socket_results = SOCKET_DATA_def SOCKET_CLOSE_def SOCKET_OPEN_def SOCKET_ACCEPT_def SOCKET_ERR_def
  SOCKET_EXIT_def SOCKET_UDP_def SOCKET_WARNING_def

datatype socket_type =
    TYPE_INVALID
  | TYPE_RESERVE
  | TYPE_PLISTEN
  | TYPE_LISTEN
  | TYPE_CONNECTING
  | TYPE_CONNECTED
  | TYPE_HALFCLOSE
  | TYPE_PACCEPT
  | TYPE_BIND

datatype protocol = PROTOCOL_TCP | PROTOCOL_UDP | PROTOCOL_UDPv6 | PROTOCOL_UNKNOWN

definition protocol_byte :: "protocol \<Rightarrow> u8" where
  "protocol_byte p = (case p of PROTOCOL_TCP \<Rightarrow> 0 | PROTOCOL_UDP \<Rightarrow> 1 | PROTOCOL_UDPv6 \<Rightarrow> 2 | PROTOCOL_UNKNOWN \<Rightarrow> 255)"

definition HASH_ID :: "int \<Rightarrow> nat" where
  "HASH_ID i = nat (i mod int MAX_SOCKET)"

definition ID_TAG16 :: "int \<Rightarrow> u32" where
  "ID_TAG16 i = of_int (i div int MAX_SOCKET) AND mask 16"

section \<open>State\<close>

text \<open>A buffer and its size as a request carries them: memory, or a user object (the size is \<open>USEROBJECT\<close>).\<close>

datatype payload = Memory addr "u8 list" | Object addr

text \<open>\<open>wb_addr\<close> is \<open>None\<close> in a node of \<open>SIZEOF_TCPBUFFER\<close> bytes, which ends before the address.\<close>

record write_buffer =
  wb_buffer :: addr
  wb_ptr :: addr
  wb_data :: "u8 list"
  wb_userobject :: bool
  wb_addr :: "u8 list option"

record socket_stat =
  st_rtime :: u64
  st_wtime :: u64
  st_read :: u64
  st_write :: u64

text \<open>The union \<open>p\<close>: the size of the next read, or the address of the peer.\<close>

datatype read_size = P_size int | P_address "u8 list"

record sock =
  s_opaque :: u64
  s_high :: "write_buffer list"
  s_low :: "write_buffer list"
  s_wb_size :: int
  s_stat :: socket_stat
  s_sending :: u32
  s_fd :: int
  s_id :: int
  s_protocol :: protocol
  s_type :: socket_type
  s_udpconnecting :: u16
  s_warn_size :: int
  s_p :: read_size
  s_dw_lock :: bool
  s_dw_offset :: nat
  s_dw_buffer :: "payload option"

datatype effect =
    Free bool addr
  | Written int "u8 list"
  | Sent_to int "u8 list" "u8 list"
  | Sp_add int
  | Sp_del int
  | Sp_write int bool
  | Close_fd int
  | Set_option int int int

datatype request =
    Req_start int u64
  | Req_bind int int u64
  | Req_listen int int u64
  | Req_close int bool u64
  | Req_open int int u64 string
  | Req_exit
  | Req_send int payload
  | Req_send_low int payload
  | Req_send_udp int payload "u8 list"
  | Req_setopt int int int
  | Req_udp int int bool u64
  | Req_set_udp int "u8 list"

text \<open>The object interface: where the bytes of an object are, and the bytes.\<close>

record object_interface =
  soi_buffer :: "addr \<Rightarrow> addr"
  soi_data :: "addr \<Rightarrow> u8 list"

record event =
  e_s :: "nat option"
  e_read :: bool
  e_write :: bool
  e_error :: bool
  e_eof :: bool

text \<open>\<open>ss_bound\<close> is the port the control socket is bound to, \<open>ss_cmds\<close> the datagrams waiting in it.\<close>

record server =
  ss_time :: u64
  ss_udp_port :: u16
  ss_bound :: u16
  ss_checkctrl :: bool
  ss_alloc_id :: int
  ss_event_index :: nat
  ss_ev :: "event list"
  ss_soi :: "object_interface option"
  ss_slot :: "nat \<Rightarrow> sock"
  ss_cmds :: "request list"
  ss_log :: "effect list"

datatype mdata = M_null | M_text string | M_data "u8 list"

record socket_message =
  sm_id :: int
  sm_opaque :: u64
  sm_ud :: int
  sm_data :: mdata

text \<open>What the operating system answers: to \<open>send\<close> and \<open>sendto\<close>, in order (no answer left means that the call would
  block), to \<open>recv\<close>, \<open>recvfrom\<close>, \<open>accept\<close>, \<open>getaddrinfo\<close> with \<open>connect\<close>, \<open>getsockopt\<close>.\<close>

datatype io = Sent nat | Intr | Would_block | Failed

datatype recv_result = Received "u8 list" | Recv_again | Recv_failed string

datatype recvfrom_result = Received_v4 "u8 list" "u8 list" | Received_v6 "u8 list" "u8 list" | Recvfrom_again | Recvfrom_failed string

datatype accept_result = Accepted int "string option" | Accept_limit string | Accept_failed

datatype connect_result = Connect_done | Connect_progress | Connect_failed

datatype open_result = Gai_failed string | Gai "(int \<times> connect_result \<times> string option) list" string

datatype wait_result = Wait_events "event list" | Wait_intr | Wait_failed

record world =
  w_ios :: "io list"
  w_recv :: recv_result
  w_recvfrom :: recvfrom_result
  w_accept :: accept_result
  w_connected :: "string + string option"
  w_sockerr :: string
  w_open :: open_result
  w_add_fails :: bool
  w_wait :: wait_result

section \<open>Sockets\<close>

text \<open>The operations on one socket give the socket and the effects.\<close>

definition stat_read :: "u64 \<Rightarrow> nat \<Rightarrow> sock \<Rightarrow> sock" where
  "stat_read t n s = s\<lparr>s_stat := (s_stat s)\<lparr>st_read := st_read (s_stat s) + of_nat n, st_rtime := t\<rparr>\<rparr>"

definition stat_write :: "u64 \<Rightarrow> nat \<Rightarrow> sock \<Rightarrow> sock" where
  "stat_write t n s = s\<lparr>s_stat := (s_stat s)\<lparr>st_write := st_write (s_stat s) + of_nat n, st_wtime := t\<rparr>\<rparr>"

definition write_buffer_free :: "write_buffer \<Rightarrow> effect" where
  "write_buffer_free w = Free (wb_userobject w) (wb_buffer w)"

definition free_wb_list :: "write_buffer list \<Rightarrow> effect list" where
  "free_wb_list ws = map write_buffer_free ws"

definition free_payload :: "payload \<Rightarrow> effect" where
  "free_payload p = (case p of Memory a d \<Rightarrow> Free False a | Object a \<Rightarrow> Free True a)"

text \<open>The bytes and where they start; an object needs the interface, whose functions are NULL before it is set.\<close>

definition send_object_init :: "object_interface option \<Rightarrow> payload \<Rightarrow> (addr \<times> u8 list) option" where
  "send_object_init soi p =
     (case p of
        Memory a d \<Rightarrow> Some (a, d)
      | Object a \<Rightarrow> do { i \<leftarrow> soi; Some (soi_buffer i a, soi_data i a) })"

definition payload_addr :: "payload \<Rightarrow> addr" where
  "payload_addr p = (case p of Memory a d \<Rightarrow> a | Object a \<Rightarrow> a)"

definition is_object :: "payload \<Rightarrow> bool" where
  "is_object p = (case p of Memory a d \<Rightarrow> False | Object a \<Rightarrow> True)"

definition nomsg :: "int \<Rightarrow> u64 \<Rightarrow> socket_message" where
  "nomsg i opaque = \<lparr>sm_id = i, sm_opaque = opaque, sm_ud = 0, sm_data = M_null\<rparr>"

definition force_close :: "sock \<Rightarrow> (socket_message \<times> sock \<times> effect list) option" where
  "force_close s =
     (let result = nomsg (s_id s) (s_opaque s)
      in if s_type s = TYPE_INVALID then Some (result, s, [])
         else do {
           assert_that (s_type s \<noteq> TYPE_RESERVE);
           assert_that (\<not> s_dw_lock s);
           Some (result, s\<lparr>s_high := [], s_low := [], s_type := TYPE_INVALID, s_dw_buffer := None\<rparr>,
             free_wb_list (s_high s) @ free_wb_list (s_low s) @
             (if s_type s \<noteq> TYPE_PACCEPT \<and> s_type s \<noteq> TYPE_PLISTEN then [Sp_del (s_fd s)] else []) @
             (if s_type s \<noteq> TYPE_BIND then [Close_fd (s_fd s)] else []) @
             (case s_dw_buffer s of None \<Rightarrow> [] | Some p \<Rightarrow> [free_payload p])) })"

section \<open>Sending the buffers\<close>

definition wl :: "bool \<Rightarrow> sock \<Rightarrow> write_buffer list" where
  "wl hi s = (if hi then s_high s else s_low s)"

definition set_wl :: "bool \<Rightarrow> write_buffer list \<Rightarrow> sock \<Rightarrow> sock" where
  "set_wl hi ws s = (if hi then s\<lparr>s_high := ws\<rparr> else s\<lparr>s_low := ws\<rparr>)"

fun send_list_tcp :: "u64 \<Rightarrow> bool \<Rightarrow> io list \<Rightarrow> sock \<Rightarrow> socket_message \<Rightarrow>
    (int \<times> io list \<times> socket_message \<times> sock \<times> effect list) option" where
  "send_list_tcp t hi [] s r = Some (- 1, [], r, s, [])"
| "send_list_tcp t hi (x # ios) s r =
     (case wl hi s of
        [] \<Rightarrow> Some (- 1, x # ios, r, s, [])
      | w # ws \<Rightarrow>
         (case x of
            Intr \<Rightarrow> send_list_tcp t hi ios s r
          | Would_block \<Rightarrow> Some (- 1, ios, r, s, [])
          | Failed \<Rightarrow> do { (r1, s1, e) \<leftarrow> force_close s; Some (SOCKET_CLOSE, ios, r1, s1, e) }
          | Sent n \<Rightarrow>
              let sz = min n (length (wb_data w));
                  s1 = stat_write t sz s;
                  s2 = s1\<lparr>s_wb_size := s_wb_size s1 - int sz\<rparr>;
                  out = Written (s_fd s) (take sz (wb_data w))
              in if sz \<noteq> length (wb_data w) then
                   Some (- 1, ios, r, set_wl hi (w\<lparr>wb_ptr := wb_ptr w + sz, wb_data := drop sz (wb_data w)\<rparr> # ws) s2, [out])
                 else do {
                   (c, ios1, r1, s3, e) \<leftarrow> send_list_tcp t hi ios (set_wl hi ws s2) r;
                   Some (c, ios1, r1, s3, out # write_buffer_free w # e) }))"

text \<open>The socket address: its port and IP number; NULL when the address is of another protocol.\<close>

definition udp_socket_address :: "sock \<Rightarrow> u8 list \<Rightarrow> u8 list option" where
  "udp_socket_address s udp_address =
     (if udp_address ! 0 \<noteq> protocol_byte (s_protocol s) then None
      else case s_protocol s of
        PROTOCOL_UDP \<Rightarrow> Some (take 6 (drop 1 udp_address))
      | PROTOCOL_UDPv6 \<Rightarrow> Some (take 18 (drop 1 udp_address))
      | _ \<Rightarrow> None)"

definition drop_udp :: "bool \<Rightarrow> write_buffer \<Rightarrow> write_buffer list \<Rightarrow> sock \<Rightarrow> sock \<times> effect list" where
  "drop_udp hi w ws s =
     (set_wl hi ws (s\<lparr>s_wb_size := s_wb_size s - int (length (wb_data w))\<rparr>), [write_buffer_free w])"

fun send_list_udp :: "u64 \<Rightarrow> bool \<Rightarrow> io list \<Rightarrow> sock \<Rightarrow> (int \<times> io list \<times> sock \<times> effect list) option" where
  "send_list_udp t hi ios s =
     (case wl hi s of
        [] \<Rightarrow> Some (- 1, ios, s, [])
      | w # ws \<Rightarrow> do {
          udp_address \<leftarrow> wb_addr w;
          case udp_socket_address s udp_address of
            None \<Rightarrow> (let (s1, e) = drop_udp hi w ws s in Some (- 1, ios, s1, e))
          | Some sa \<Rightarrow>
             (case ios of
                [] \<Rightarrow> Some (- 1, [], s, [])
              | Intr # ios1 \<Rightarrow> Some (- 1, ios1, s, [])
              | Would_block # ios1 \<Rightarrow> Some (- 1, ios1, s, [])
              | Failed # ios1 \<Rightarrow> (let (s1, e) = drop_udp hi w ws s in Some (- 1, ios1, s1, e))
              | Sent n # ios1 \<Rightarrow> do {
                  let s1 = stat_write t (length (wb_data w)) s;
                  let s2 = set_wl hi ws (s1\<lparr>s_wb_size := s_wb_size s1 - int (length (wb_data w))\<rparr>);
                  (c, ios2, s3, e) \<leftarrow> send_list_udp t hi ios1 s2;
                  Some (c, ios2, s3, Sent_to (s_fd s) (wb_data w) sa # write_buffer_free w # e) }) })"

definition send_list :: "u64 \<Rightarrow> bool \<Rightarrow> io list \<Rightarrow> sock \<Rightarrow> socket_message \<Rightarrow>
    (int \<times> io list \<times> socket_message \<times> sock \<times> effect list) option" where
  "send_list t hi ios s r =
     (if s_protocol s = PROTOCOL_TCP then send_list_tcp t hi ios s r
      else do { (c, ios1, s1, e) \<leftarrow> send_list_udp t hi ios s; Some (c, ios1, r, s1, e) })"

definition list_uncomplete :: "write_buffer list \<Rightarrow> bool" where
  "list_uncomplete ws = (case ws of [] \<Rightarrow> False | w # _ \<Rightarrow> wb_ptr w \<noteq> wb_buffer w)"

definition raise_uncomplete :: "sock \<Rightarrow> sock option" where
  "raise_uncomplete s =
     (case s_low s of
        [] \<Rightarrow> None
      | w # ws \<Rightarrow> do { assert_that (s_high s = []); Some (s\<lparr>s_low := ws, s_high := [w]\<rparr>) })"

definition send_buffer_empty :: "sock \<Rightarrow> bool" where
  "send_buffer_empty s \<longleftrightarrow> s_high s = [] \<and> s_low s = []"

definition nomore_sending_data :: "sock \<Rightarrow> bool" where
  "nomore_sending_data s \<longleftrightarrow> send_buffer_empty s \<and> s_dw_buffer s = None \<and> s_sending s AND mask 16 = 0"

text \<open>Step 4: nothing is left to send.\<close>

definition send_buffer_done :: "sock \<Rightarrow> socket_message \<Rightarrow> (int \<times> socket_message \<times> sock \<times> effect list) option" where
  "send_buffer_done s r = do {
     assert_that (send_buffer_empty s \<and> s_wb_size s = 0);
     let e = [Sp_write (s_fd s) False];
     if s_type s = TYPE_HALFCLOSE then do {
       (r1, s1, e1) \<leftarrow> force_close s;
       Some (SOCKET_CLOSE, r1, s1, e @ e1) }
     else if s_warn_size s > 0 then
       Some (SOCKET_WARNING, nomsg (s_id s) (s_opaque s), s\<lparr>s_warn_size := 0\<rparr>, e)
     else Some (- 1, r, s, e) }"

definition send_buffer_steps :: "u64 \<Rightarrow> io list \<Rightarrow> sock \<Rightarrow> socket_message \<Rightarrow>
    (int \<times> socket_message \<times> sock \<times> effect list) option" where
  "send_buffer_steps t ios s r = do {
     assert_that (\<not> list_uncomplete (s_low s));
     (c, ios1, r1, s1, e1) \<leftarrow> send_list t True ios s r;
     if c = SOCKET_CLOSE then Some (SOCKET_CLOSE, r1, s1, e1)
     else if s_high s1 \<noteq> [] then Some (- 1, r1, s1, e1)
     else if s_low s1 \<noteq> [] then do {
       (c2, ios2, r2, s2, e2) \<leftarrow> send_list t False ios1 s1 r1;
       if c2 = SOCKET_CLOSE then Some (SOCKET_CLOSE, r2, s2, e1 @ e2)
       else if list_uncomplete (s_low s2) then do { s3 \<leftarrow> raise_uncomplete s2; Some (- 1, r2, s3, e1 @ e2) }
       else if s_low s2 \<noteq> [] then Some (- 1, r2, s2, e1 @ e2)
       else do { (c3, r3, s3, e3) \<leftarrow> send_buffer_done s2 r2; Some (c3, r3, s3, e1 @ e2 @ e3) } }
     else do { (c3, r3, s3, e3) \<leftarrow> send_buffer_done s1 r1; Some (c3, r3, s3, e1 @ e3) } }"

text \<open>What a direct write left over goes before the high list, in a node without an address.\<close>

definition dw_to_list :: "object_interface option \<Rightarrow> sock \<Rightarrow> sock option" where
  "dw_to_list soi s =
     (case s_dw_buffer s of
        None \<Rightarrow> Some s
      | Some p \<Rightarrow> do {
          (a, d) \<leftarrow> send_object_init soi p;
          let buf = \<lparr>wb_buffer = payload_addr p, wb_ptr = a + s_dw_offset s, wb_data = drop (s_dw_offset s) d,
                     wb_userobject = is_object p, wb_addr = None\<rparr>;
          Some (s\<lparr>s_wb_size := s_wb_size s + int (length (wb_data buf)), s_high := buf # s_high s, s_dw_buffer := None\<rparr>) })"

definition send_buffer :: "object_interface option \<Rightarrow> u64 \<Rightarrow> io list \<Rightarrow> sock \<Rightarrow> socket_message \<Rightarrow>
    (int \<times> socket_message \<times> sock \<times> effect list) option" where
  "send_buffer soi t ios s r =
     (if s_dw_lock s then Some (- 1, r, s, [])
      else do { s1 \<leftarrow> dw_to_list soi s; send_buffer_steps t ios s1 r })"

definition append_node :: "object_interface option \<Rightarrow> bool \<Rightarrow> payload \<Rightarrow> u8 list option \<Rightarrow> sock \<Rightarrow> sock option" where
  "append_node soi hi p udp_address s = do {
     (a, d) \<leftarrow> send_object_init soi p;
     let buf = \<lparr>wb_buffer = payload_addr p, wb_ptr = a, wb_data = d, wb_userobject = is_object p, wb_addr = udp_address\<rparr>;
     let s1 = set_wl hi (wl hi s @ [buf]) s;
     Some (s1\<lparr>s_wb_size := s_wb_size s1 + int (length d)\<rparr>) }"

definition append_sendbuffer :: "object_interface option \<Rightarrow> payload \<Rightarrow> sock \<Rightarrow> sock option" where
  "append_sendbuffer soi p s = append_node soi True p None s"

definition append_sendbuffer_low :: "object_interface option \<Rightarrow> payload \<Rightarrow> sock \<Rightarrow> sock option" where
  "append_sendbuffer_low soi p s = append_node soi False p None s"

definition append_sendbuffer_udp :: "object_interface option \<Rightarrow> bool \<Rightarrow> payload \<Rightarrow> u8 list \<Rightarrow> sock \<Rightarrow> sock option" where
  "append_sendbuffer_udp soi hi p udp_address s = append_node soi hi p (Some udp_address) s"

section \<open>Identifiers\<close>

definition slot_of :: "server \<Rightarrow> int \<Rightarrow> sock" where
  "slot_of ss i = ss_slot ss (HASH_ID i)"

definition put_slot :: "nat \<Rightarrow> sock \<Rightarrow> effect list \<Rightarrow> server \<Rightarrow> server" where
  "put_slot h s e ss = ss\<lparr>ss_slot := (ss_slot ss)(h := s), ss_log := ss_log ss @ e\<rparr>"

definition emit :: "effect list \<Rightarrow> server \<Rightarrow> server" where
  "emit e ss = ss\<lparr>ss_log := ss_log ss @ e\<rparr>"

text \<open>\<open>ATOM_INC\<close> gives the new value of the 32-bit counter; on Windows \<open>ATOM_AND\<close> is \<open>_InterlockedAnd\<close>, which gives the
  old one.\<close>

definition atom_inc :: "int \<Rightarrow> int" where
  "atom_inc i = (if i = 2 ^ 31 - 1 then - (2 ^ 31) else i + 1)"

definition next_id :: "int \<Rightarrow> int \<times> int" where
  "next_id alloc_id =
     (let i = atom_inc alloc_id
      in if i < 0 then (i, i mod 2 ^ 31) else (i, i))"

fun reserve_loop :: "nat \<Rightarrow> server \<Rightarrow> int \<times> server" where
  "reserve_loop 0 ss = (- 1, ss)"
| "reserve_loop (Suc n) ss =
     (let (i, alloc) = next_id (ss_alloc_id ss);
          ss1 = ss\<lparr>ss_alloc_id := alloc\<rparr>;
          s = slot_of ss1 i
      in if s_type s = TYPE_INVALID then
           (i, put_slot (HASH_ID i)
             (s\<lparr>s_type := TYPE_RESERVE, s_id := i, s_protocol := PROTOCOL_UNKNOWN, s_udpconnecting := 0, s_fd := - 1\<rparr>) [] ss1)
         else reserve_loop n ss1)"

definition reserve_id :: "server \<Rightarrow> int \<times> server" where
  "reserve_id ss = reserve_loop MAX_SOCKET ss"

text \<open>The first free port, downwards from the highest, is bound; the port is kept in host byte order.  \<open>junk\<close> is what
  the memory of the slots holds before; \<open>can_bind\<close> tells which ports are free.\<close>

definition server_of_port :: "nat \<Rightarrow> (nat \<Rightarrow> sock) \<Rightarrow> u64 \<Rightarrow> server" where
  "server_of_port p junk time =
     \<lparr>ss_time = time, ss_udp_port = of_nat p, ss_bound = of_nat p, ss_checkctrl = True, ss_alloc_id = 0, ss_event_index = 0,
      ss_ev = [], ss_soi = None,
      ss_slot = (\<lambda>h. (junk h)\<lparr>s_type := TYPE_INVALID, s_high := [], s_low := [], s_dw_lock := False\<rparr>),
      ss_cmds = [], ss_log = []\<rparr>"

fun bind_port :: "(nat \<Rightarrow> bool) \<Rightarrow> nat \<Rightarrow> nat option" where
  "bind_port can_bind 0 = None"
| "bind_port can_bind (Suc p) = (if can_bind p then Some p else bind_port can_bind p)"

definition socket_server_create :: "bool \<Rightarrow> (nat \<Rightarrow> bool) \<Rightarrow> (nat \<Rightarrow> sock) \<Rightarrow> u64 \<Rightarrow> server option" where
  "socket_server_create poll_ok can_bind junk time =
     (if poll_ok then map_option (\<lambda>p. server_of_port p junk time) (bind_port can_bind MAX_SOCKET) else None)"

definition socket_server_updatetime :: "u64 \<Rightarrow> server \<Rightarrow> server" where
  "socket_server_updatetime time ss = ss\<lparr>ss_time := time\<rparr>"

fun release_slots :: "nat list \<Rightarrow> server \<Rightarrow> server option" where
  "release_slots [] ss = Some ss"
| "release_slots (h # hs) ss =
     (if s_type (ss_slot ss h) \<noteq> TYPE_RESERVE then do {
        (r, s, e) \<leftarrow> force_close (ss_slot ss h);
        release_slots hs (put_slot h s e ss) }
      else release_slots hs ss)"

definition socket_server_release :: "server \<Rightarrow> server option" where
  "socket_server_release ss = release_slots [0..<MAX_SOCKET] ss"

text \<open>The descriptors 0 to 2 are not added to the poller on Windows.\<close>

definition new_fd :: "int \<Rightarrow> int \<Rightarrow> protocol \<Rightarrow> u64 \<Rightarrow> bool \<Rightarrow> bool \<Rightarrow> server \<Rightarrow> (sock option \<times> server) option" where
  "new_fd i fd protocol opaque add add_fails ss =
     (let s = slot_of ss i;
          polled = add \<and> \<not> (0 \<le> fd \<and> fd \<le> 2)
      in do {
        assert_that (s_type s = TYPE_RESERVE);
        if polled \<and> add_fails then Some (None, put_slot (HASH_ID i) (s\<lparr>s_type := TYPE_INVALID\<rparr>) [] ss)
        else do {
          assert_that (s_high s = [] \<and> s_low s = []);
          let s1 = s\<lparr>s_id := i, s_fd := fd, s_sending := push_bit 16 (ID_TAG16 i), s_protocol := protocol,
                     s_p := P_size MIN_READ_BUFFER, s_opaque := opaque, s_wb_size := 0, s_warn_size := 0,
                     s_dw_buffer := None, s_stat := \<lparr>st_rtime = 0, st_wtime = 0, st_read = 0, st_write = 0\<rparr>\<rparr>;
          Some (Some s1, put_slot (HASH_ID i) s1 (if polled then [Sp_add fd] else []) ss) } })"

definition set_type :: "int \<Rightarrow> socket_type \<Rightarrow> server \<Rightarrow> server" where
  "set_type i t ss = put_slot (HASH_ID i) ((slot_of ss i)\<lparr>s_type := t\<rparr>) [] ss"

section \<open>The handlers of requests\<close>

text \<open>The first candidate address whose socket connects or starts to.  The sockets of the others are closed.\<close>

fun try_connect :: "(int \<times> connect_result \<times> string option) list \<Rightarrow> (int \<times> bool \<times> string option) option \<times> effect list" where
  "try_connect [] = (None, [])"
| "try_connect ((sock, c, name) # ais) =
     (if sock < 0 then try_connect ais
      else if c = Connect_failed then (let (r, e) = try_connect ais in (r, Close_fd sock # e))
      else (Some (sock, c = Connect_done, name), []))"

definition open_socket :: "world \<Rightarrow> int \<Rightarrow> u64 \<Rightarrow> server \<Rightarrow> (int \<times> socket_message \<times> server) option" where
  "open_socket w i opaque ss =
     (let result = nomsg i opaque
      in case w_open w of
        Gai_failed msg \<Rightarrow> Some (SOCKET_ERR, result\<lparr>sm_data := M_text msg\<rparr>, set_type i TYPE_INVALID ss)
      | Gai ais err \<Rightarrow>
         (case try_connect ais of
            (None, e) \<Rightarrow> Some (SOCKET_ERR, result\<lparr>sm_data := M_text err\<rparr>, set_type i TYPE_INVALID (emit e ss))
          | (Some (fd, done, name), e) \<Rightarrow> do {
              (ns, ss1) \<leftarrow> new_fd i fd PROTOCOL_TCP opaque True (w_add_fails w) (emit e ss);
              case ns of
                None \<Rightarrow> Some (SOCKET_ERR, result\<lparr>sm_data := M_text ''reach skynet socket number limit''\<rparr>,
                              set_type i TYPE_INVALID (emit [Close_fd fd] ss1))
              | Some s \<Rightarrow>
                  if done then
                    Some (SOCKET_OPEN, result\<lparr>sm_data := (case name of None \<Rightarrow> M_null | Some n \<Rightarrow> M_text n)\<rparr>,
                          set_type i TYPE_CONNECTED ss1)
                  else Some (- 1, result, emit [Sp_write fd True] (set_type i TYPE_CONNECTING ss1)) }))"

definition sock_address :: "sock \<Rightarrow> u8 list option" where
  "sock_address s = (case s_p s of P_address a \<Rightarrow> Some a | P_size _ \<Rightarrow> None)"

definition the_address :: "u8 list option \<Rightarrow> sock \<Rightarrow> u8 list option" where
  "the_address udp_address s = (case udp_address of None \<Rightarrow> sock_address s | Some a \<Rightarrow> Some a)"

text \<open>The warning: the size of the buffers in units of 1024 bytes, rounded up.\<close>

definition send_warning :: "sock \<Rightarrow> socket_message \<Rightarrow> int \<times> socket_message \<times> sock" where
  "send_warning s r =
     (if s_wb_size s \<ge> WARNING_SIZE \<and> s_wb_size s \<ge> s_warn_size s then
        (SOCKET_WARNING,
         (nomsg (s_id s) (s_opaque s))\<lparr>sm_ud := (if s_wb_size s mod 1024 = 0 then s_wb_size s div 1024 else s_wb_size s div 1024 + 1)\<rparr>,
         s\<lparr>s_warn_size := (if s_warn_size s = 0 then WARNING_SIZE * 2 else s_warn_size s * 2)\<rparr>)
      else (- 1, r, s))"

text \<open>\<open>None\<close> as the socket: the request is over (dropped, or sent at once), with the effects.\<close>

definition enqueue :: "object_interface option \<Rightarrow> u64 \<Rightarrow> io list \<Rightarrow> payload \<Rightarrow> bool \<Rightarrow> u8 list option \<Rightarrow> sock \<Rightarrow>
    (bool \<times> sock \<times> effect list) option" where
  "enqueue soi t ios p hi udp_address s =
     (if send_buffer_empty s \<and> s_type s = TYPE_CONNECTED then
        if s_protocol s = PROTOCOL_TCP then do {
          s1 \<leftarrow> append_sendbuffer soi p s;
          Some (True, s1, [Sp_write (s_fd s) True]) }
        else do {
          (a, d) \<leftarrow> send_object_init soi p;
          address \<leftarrow> the_address udp_address s;
          case udp_socket_address s address of
            None \<Rightarrow> Some (False, s, [free_payload p])
          | Some sa \<Rightarrow>
              if (case ios of Sent n # _ \<Rightarrow> n = length d | _ \<Rightarrow> False) then
                Some (False, stat_write t (length d) s, [Sent_to (s_fd s) d sa, free_payload p])
              else do {
                s1 \<leftarrow> append_sendbuffer_udp soi hi p address s;
                Some (True, s1, [Sp_write (s_fd s) True]) } }
      else if s_protocol s = PROTOCOL_TCP then do {
        s1 \<leftarrow> (if hi then append_sendbuffer soi p s else append_sendbuffer_low soi p s);
        Some (True, s1, []) }
      else do {
        address \<leftarrow> the_address udp_address s;
        s1 \<leftarrow> append_sendbuffer_udp soi hi p address s;
        Some (True, s1, []) })"

definition send_socket :: "io list \<Rightarrow> int \<Rightarrow> payload \<Rightarrow> bool \<Rightarrow> u8 list option \<Rightarrow> socket_message \<Rightarrow> server \<Rightarrow>
    (int \<times> socket_message \<times> server) option" where
  "send_socket ios i p hi udp_address r ss =
     (let s = slot_of ss i
      in do {
        _ \<leftarrow> send_object_init (ss_soi ss) p;
        if s_type s = TYPE_INVALID \<or> s_id s \<noteq> i \<or> s_type s = TYPE_HALFCLOSE \<or> s_type s = TYPE_PACCEPT \<or>
           s_type s = TYPE_PLISTEN \<or> s_type s = TYPE_LISTEN
        then Some (- 1, r, emit [free_payload p] ss)
        else do {
          (queued, s1, e) \<leftarrow> enqueue (ss_soi ss) (ss_time ss) ios p hi udp_address s;
          if queued then
            (let (c, r1, s2) = send_warning s1 r in Some (c, r1, put_slot (HASH_ID i) s2 e ss))
          else Some (- 1, r, put_slot (HASH_ID i) s1 e ss) } })"

definition listen_socket :: "int \<Rightarrow> int \<Rightarrow> u64 \<Rightarrow> socket_message \<Rightarrow> server \<Rightarrow> (int \<times> socket_message \<times> server) option" where
  "listen_socket i fd opaque r ss = do {
     (ns, ss1) \<leftarrow> new_fd i fd PROTOCOL_TCP opaque False False ss;
     case ns of
       None \<Rightarrow> Some (SOCKET_ERR, (nomsg i opaque)\<lparr>sm_data := M_text ''reach skynet socket number limit''\<rparr>,
                     set_type i TYPE_INVALID (emit [Close_fd fd] ss1))
     | Some s \<Rightarrow> Some (- 1, r, set_type i TYPE_PLISTEN ss1) }"

text \<open>The code returns what \<open>send_buffer\<close> returned unless that is nothing or a warning.\<close>

definition close_socket :: "io list \<Rightarrow> int \<Rightarrow> bool \<Rightarrow> u64 \<Rightarrow> socket_message \<Rightarrow> server \<Rightarrow> (int \<times> socket_message \<times> server) option" where
  "close_socket ios i shutdown opaque r ss =
     (let s = slot_of ss i
      in if s_type s = TYPE_INVALID \<or> s_id s \<noteq> i then Some (SOCKET_CLOSE, nomsg i opaque, ss)
         else do {
           (c, r1, s1, e1) \<leftarrow> (if \<not> nomore_sending_data s then send_buffer (ss_soi ss) (ss_time ss) ios s r else Some (- 1, r, s, []));
           if c \<noteq> - 1 \<and> c \<noteq> SOCKET_WARNING then Some (c, r1, put_slot (HASH_ID i) s1 e1 ss)
           else if shutdown \<or> nomore_sending_data s1 then do {
             (r2, s2, e2) \<leftarrow> force_close s1;
             Some (SOCKET_CLOSE, r2\<lparr>sm_id := i, sm_opaque := opaque\<rparr>, put_slot (HASH_ID i) s2 (e1 @ e2) ss) }
           else Some (- 1, r1, put_slot (HASH_ID i) (s1\<lparr>s_type := TYPE_HALFCLOSE\<rparr>) e1 ss) })"

definition bind_socket :: "world \<Rightarrow> int \<Rightarrow> int \<Rightarrow> u64 \<Rightarrow> server \<Rightarrow> (int \<times> socket_message \<times> server) option" where
  "bind_socket w i fd opaque ss = do {
     (ns, ss1) \<leftarrow> new_fd i fd PROTOCOL_TCP opaque True (w_add_fails w) ss;
     case ns of
       None \<Rightarrow> Some (SOCKET_ERR, (nomsg i opaque)\<lparr>sm_data := M_text ''reach skynet socket number limit''\<rparr>, ss1)
     | Some s \<Rightarrow> Some (SOCKET_OPEN, (nomsg i opaque)\<lparr>sm_data := M_text ''binding'', sm_ud := fd\<rparr>, set_type i TYPE_BIND ss1) }"

definition start_socket :: "world \<Rightarrow> int \<Rightarrow> u64 \<Rightarrow> server \<Rightarrow> (int \<times> socket_message \<times> server) option" where
  "start_socket w i opaque ss =
     (let s = slot_of ss i;
          result = nomsg i opaque
      in if s_type s = TYPE_INVALID \<or> s_id s \<noteq> i then Some (SOCKET_ERR, result\<lparr>sm_data := M_text ''invalid socket''\<rparr>, ss)
         else if s_type s = TYPE_PACCEPT \<or> s_type s = TYPE_PLISTEN then
           if w_add_fails w then do {
             (r1, s1, e1) \<leftarrow> force_close s;
             Some (SOCKET_ERR, r1\<lparr>sm_data := M_text (w_sockerr w)\<rparr>, put_slot (HASH_ID i) s1 e1 ss) }
           else
             Some (SOCKET_OPEN, result\<lparr>sm_data := M_text ''start''\<rparr>,
               put_slot (HASH_ID i)
                 (s\<lparr>s_type := (if s_type s = TYPE_PACCEPT then TYPE_CONNECTED else TYPE_LISTEN), s_opaque := opaque\<rparr>)
                 [Sp_add (s_fd s)] ss)
         else if s_type s = TYPE_CONNECTED then
           Some (SOCKET_OPEN, result\<lparr>sm_data := M_text ''transfer''\<rparr>, put_slot (HASH_ID i) (s\<lparr>s_opaque := opaque\<rparr>) [] ss)
         else Some (- 1, result, ss))"

definition setopt_socket :: "int \<Rightarrow> int \<Rightarrow> int \<Rightarrow> server \<Rightarrow> server" where
  "setopt_socket i what value ss =
     (let s = slot_of ss i
      in if s_type s = TYPE_INVALID \<or> s_id s \<noteq> i then ss else emit [Set_option (s_fd s) what value] ss)"

definition add_udp_socket :: "world \<Rightarrow> int \<Rightarrow> int \<Rightarrow> bool \<Rightarrow> u64 \<Rightarrow> server \<Rightarrow> server option" where
  "add_udp_socket w i fd inet6 opaque ss = do {
     (ns, ss1) \<leftarrow> new_fd i fd (if inet6 then PROTOCOL_UDPv6 else PROTOCOL_UDP) opaque True (w_add_fails w) ss;
     case ns of
       None \<Rightarrow> Some (set_type i TYPE_INVALID (emit [Close_fd fd] ss1))
     | Some s \<Rightarrow> Some (put_slot (HASH_ID i) (s\<lparr>s_type := TYPE_CONNECTED, s_p := P_address (replicate UDP_ADDRESS_SIZE 0)\<rparr>) [] ss1) }"

definition set_udp_address :: "int \<Rightarrow> u8 list \<Rightarrow> socket_message \<Rightarrow> server \<Rightarrow> (int \<times> socket_message \<times> server) option" where
  "set_udp_address i address r ss =
     (let s = slot_of ss i
      in if s_type s = TYPE_INVALID \<or> s_id s \<noteq> i then Some (- 1, r, ss)
         else if address ! 0 \<noteq> protocol_byte (s_protocol s) then
           Some (SOCKET_ERR, (nomsg (s_id s) (s_opaque s))\<lparr>sm_data := M_text ''protocol mismatch''\<rparr>, ss)
         else do {
           old \<leftarrow> sock_address s;
           let n = (if address ! 0 = protocol_byte PROTOCOL_UDP then 7 else 19);
           Some (- 1, r, put_slot (HASH_ID i)
             (s\<lparr>s_p := P_address (take n address @ drop n old), s_udpconnecting := s_udpconnecting s - 1\<rparr>) [] ss) })"

text \<open>The counter of sends on their way.  When it is full the worker waits: \<open>None\<close>.\<close>

definition inc_sending_ref :: "int \<Rightarrow> sock \<Rightarrow> sock option" where
  "inc_sending_ref i s =
     (if s_protocol s \<noteq> PROTOCOL_TCP then Some s
      else if drop_bit 16 (s_sending s) = ID_TAG16 i then
        if s_sending s AND mask 16 = mask 16 then None else Some (s\<lparr>s_sending := s_sending s + 1\<rparr>)
      else Some s)"

definition dec_sending_ref :: "int \<Rightarrow> server \<Rightarrow> server option" where
  "dec_sending_ref i ss =
     (let s = slot_of ss i
      in if s_id s = i \<and> s_protocol s = PROTOCOL_TCP then do {
           assert_that (s_sending s AND mask 16 \<noteq> 0);
           Some (put_slot (HASH_ID i) (s\<lparr>s_sending := s_sending s - 1\<rparr>) [] ss) }
         else Some ss)"

text \<open>A datagram is copied into a cleared buffer, so a short address is followed by zeros.\<close>

definition ctrl_cmd :: "world \<Rightarrow> request \<Rightarrow> socket_message \<Rightarrow> server \<Rightarrow> (int \<times> socket_message \<times> server) option" where
  "ctrl_cmd w q r ss =
     (case q of
        Req_start i opaque \<Rightarrow> start_socket w i opaque ss
      | Req_bind i fd opaque \<Rightarrow> bind_socket w i fd opaque ss
      | Req_listen i fd opaque \<Rightarrow> listen_socket i fd opaque r ss
      | Req_close i shutdown opaque \<Rightarrow> close_socket (w_ios w) i shutdown opaque r ss
      | Req_open i port opaque host \<Rightarrow> open_socket w i opaque ss
      | Req_exit \<Rightarrow> Some (SOCKET_EXIT, nomsg 0 0, ss)
      | Req_send i p \<Rightarrow> do {
          (c, r1, ss1) \<leftarrow> send_socket (w_ios w) i p True None r ss;
          ss2 \<leftarrow> dec_sending_ref i ss1;
          Some (c, r1, ss2) }
      | Req_send_low i p \<Rightarrow> do {
          (c, r1, ss1) \<leftarrow> send_socket (w_ios w) i p False None r ss;
          ss2 \<leftarrow> dec_sending_ref i ss1;
          Some (c, r1, ss2) }
      | Req_send_udp i p address \<Rightarrow>
          send_socket (w_ios w) i p True (Some (take UDP_ADDRESS_SIZE (address @ replicate UDP_ADDRESS_SIZE 0))) r ss
      | Req_set_udp i address \<Rightarrow> set_udp_address i (take UDP_ADDRESS_SIZE (address @ replicate UDP_ADDRESS_SIZE 0)) r ss
      | Req_setopt i what value \<Rightarrow> Some (- 1, r, setopt_socket i what value ss)
      | Req_udp i fd inet6 opaque \<Rightarrow> do { ss1 \<leftarrow> add_udp_socket w i fd inet6 opaque ss; Some (- 1, r, ss1) })"

section \<open>The handlers of events\<close>

text \<open>The size of the next read doubles when the buffer was filled and halves when less than half was used.\<close>

definition adapt_size :: "int \<Rightarrow> int \<Rightarrow> int option" where
  "adapt_size n sz =
     (if n = sz then int_range (sz * 2)
      else if sz > MIN_READ_BUFFER then do { n2 \<leftarrow> int_range (n * 2); Some (if n2 < sz then sz div 2 else sz) }
      else Some sz)"

definition forward_message_tcp :: "u64 \<Rightarrow> world \<Rightarrow> sock \<Rightarrow> socket_message \<Rightarrow>
    (int \<times> socket_message \<times> sock \<times> effect list) option" where
  "forward_message_tcp t w s r = do {
     sz \<leftarrow> (case s_p s of P_size sz \<Rightarrow> Some sz | P_address _ \<Rightarrow> None);
     case w_recv w of
       Recv_again \<Rightarrow> Some (- 1, r, s, [])
     | Recv_failed msg \<Rightarrow> do {
         (r1, s1, e) \<leftarrow> force_close s;
         Some (SOCKET_ERR, r1\<lparr>sm_data := M_text msg\<rparr>, s1, e) }
     | Received bytes0 \<Rightarrow> do {
         let bytes = take (nat sz) bytes0;
         if bytes = [] then do { (r1, s1, e) \<leftarrow> force_close s; Some (SOCKET_CLOSE, r1, s1, e) }
         else if s_type s = TYPE_HALFCLOSE then Some (- 1, r, s, [])
         else do {
           let n = int (length bytes);
           sz1 \<leftarrow> adapt_size n sz;
           Some (SOCKET_DATA, \<lparr>sm_id = s_id s, sm_opaque = s_opaque s, sm_ud = n, sm_data = M_data bytes\<rparr>,
             (stat_read t (length bytes) s)\<lparr>s_p := P_size sz1\<rparr>, []) } } }"

text \<open>The protocol, the port and the IP number of the sender behind the data.\<close>

definition gen_udp_address :: "protocol \<Rightarrow> u8 list \<Rightarrow> u8 list" where
  "gen_udp_address protocol sa = protocol_byte protocol # (if protocol = PROTOCOL_UDP then take 6 sa else take 18 sa)"

definition udp_message :: "sock \<Rightarrow> u8 list \<Rightarrow> u8 list \<Rightarrow> socket_message" where
  "udp_message s bytes address =
     \<lparr>sm_id = s_id s, sm_opaque = s_opaque s, sm_ud = int (length bytes), sm_data = M_data (bytes @ address)\<rparr>"

definition forward_message_udp :: "u64 \<Rightarrow> world \<Rightarrow> sock \<Rightarrow> socket_message \<Rightarrow>
    (int \<times> socket_message \<times> sock \<times> effect list) option" where
  "forward_message_udp t w s r =
     (case w_recvfrom w of
        Recvfrom_again \<Rightarrow> Some (- 1, r, s, [])
      | Recvfrom_failed msg \<Rightarrow> do {
          (r1, s1, e) \<leftarrow> force_close s;
          Some (SOCKET_ERR, r1\<lparr>sm_data := M_text msg\<rparr>, s1, e) }
      | Received_v4 bytes sa \<Rightarrow>
          (let s1 = stat_read t (length bytes) s
           in if s_protocol s \<noteq> PROTOCOL_UDP then Some (- 1, r, s1, [])
              else Some (SOCKET_UDP, udp_message s bytes (gen_udp_address PROTOCOL_UDP sa), s1, []))
      | Received_v6 bytes sa \<Rightarrow>
          (let s1 = stat_read t (length bytes) s
           in if s_protocol s \<noteq> PROTOCOL_UDPv6 then Some (- 1, r, s1, [])
              else Some (SOCKET_UDP, udp_message s bytes (gen_udp_address PROTOCOL_UDPv6 sa), s1, [])))"

definition report_connect :: "world \<Rightarrow> sock \<Rightarrow> (int \<times> socket_message \<times> sock \<times> effect list) option" where
  "report_connect w s =
     (case w_connected w of
        Inl msg \<Rightarrow> do {
          (r1, s1, e) \<leftarrow> force_close s;
          Some (SOCKET_ERR, r1\<lparr>sm_data := M_text msg\<rparr>, s1, e) }
      | Inr name \<Rightarrow>
          Some (SOCKET_OPEN, (nomsg (s_id s) (s_opaque s))\<lparr>sm_data := (case name of None \<Rightarrow> M_null | Some n \<Rightarrow> M_text n)\<rparr>,
            s\<lparr>s_type := TYPE_CONNECTED\<rparr>,
            if nomore_sending_data s then [Sp_write (s_fd s) False] else []))"

definition report_accept :: "world \<Rightarrow> nat \<Rightarrow> socket_message \<Rightarrow> server \<Rightarrow> (int \<times> socket_message \<times> server) option" where
  "report_accept w h r ss =
     (let s = ss_slot ss h
      in case w_accept w of
        Accept_limit msg \<Rightarrow> Some (- 1, (nomsg (s_id s) (s_opaque s))\<lparr>sm_data := M_text msg\<rparr>, ss)
      | Accept_failed \<Rightarrow> Some (0, r, ss)
      | Accepted fd name \<Rightarrow>
         (let (i, ss1) = reserve_id ss
          in if i < 0 then Some (0, r, emit [Close_fd fd] ss1)
             else do {
               (ns, ss2) \<leftarrow> new_fd i fd PROTOCOL_TCP (s_opaque s) False False ss1;
               case ns of
                 None \<Rightarrow> Some (0, r, emit [Close_fd fd] ss2)
               | Some _ \<Rightarrow> do {
                   let ss3 = put_slot h (stat_read (ss_time ss2) 1 (ss_slot ss2 h)) [] ss2;
                   Some (1, \<lparr>sm_id = s_id s, sm_opaque = s_opaque s, sm_ud = i,
                             sm_data = (case name of None \<Rightarrow> M_null | Some n \<Rightarrow> M_text n)\<rparr>,
                     set_type i TYPE_PACCEPT ss3) } }))"

text \<open>The events behind the current one: the first one of the closed socket is cleared.\<close>

fun clear_events :: "(nat \<Rightarrow> sock) \<Rightarrow> int \<Rightarrow> event list \<Rightarrow> event list" where
  "clear_events slots i [] = []"
| "clear_events slots i (e # es) =
     (case e_s e of
        Some h \<Rightarrow> if s_type (slots h) = TYPE_INVALID \<and> s_id (slots h) = i then e\<lparr>e_s := None\<rparr> # es
                  else e # clear_events slots i es
      | None \<Rightarrow> e # clear_events slots i es)"

definition clear_closed_event :: "int \<Rightarrow> int \<Rightarrow> server \<Rightarrow> server" where
  "clear_closed_event i type ss =
     (if type = SOCKET_CLOSE \<or> type = SOCKET_ERR then
        ss\<lparr>ss_ev := take (ss_event_index ss) (ss_ev ss) @ clear_events (ss_slot ss) i (drop (ss_event_index ss) (ss_ev ss))\<rparr>
      else ss)"

text \<open>The default case of the switch on the type: reading, writing, error, end.  The event goes back to the list with its
  read flag cleared when there is also something to write.\<close>

definition socket_event :: "world \<Rightarrow> event \<Rightarrow> nat \<Rightarrow> socket_message \<Rightarrow> server \<Rightarrow> (int \<times> socket_message \<times> server) option" where
  "socket_event w e h r ss =
     (let s = ss_slot ss h;
          back = (\<lambda>ss. ss\<lparr>ss_event_index := ss_event_index ss - 1\<rparr>)
      in if e_read e then
           if s_protocol s = PROTOCOL_TCP then do {
             (c, r1, s1, ef) \<leftarrow> forward_message_tcp (ss_time ss) w s r;
             let ss1 = put_slot h s1 ef ss;
             Some (c, r1,
               if e_write e \<and> c \<noteq> SOCKET_CLOSE \<and> c \<noteq> SOCKET_ERR
               then back (ss1\<lparr>ss_ev := (ss_ev ss1)[ss_event_index ss - 1 := e\<lparr>e_read := False\<rparr>]\<rparr>) else ss1) }
           else do {
             (c, r1, s1, ef) \<leftarrow> forward_message_udp (ss_time ss) w s r;
             let ss1 = put_slot h s1 ef ss;
             Some (c, r1,
               if c = SOCKET_UDP then back ss1
               else if e_write e \<and> c \<noteq> SOCKET_CLOSE \<and> c \<noteq> SOCKET_ERR
               then back (ss1\<lparr>ss_ev := (ss_ev ss1)[ss_event_index ss - 1 := e\<lparr>e_read := False\<rparr>]\<rparr>) else ss1) }
         else if e_write e then do {
           (c, r1, s1, ef) \<leftarrow> send_buffer (ss_soi ss) (ss_time ss) (w_ios w) s r;
           Some (c, r1, put_slot h s1 ef ss) }
         else if e_error e then do {
           (r1, s1, ef) \<leftarrow> force_close s;
           Some (SOCKET_ERR, r1\<lparr>sm_data := M_text (w_sockerr w)\<rparr>, put_slot h s1 ef ss) }
         else if e_eof e then do {
           (r1, s1, ef) \<leftarrow> force_close s;
           Some (SOCKET_CLOSE, r1, put_slot h s1 ef ss) }
         else Some (- 1, r, ss))"

definition handle_event :: "world \<Rightarrow> event \<Rightarrow> nat \<Rightarrow> socket_message \<Rightarrow> server \<Rightarrow> (int \<times> socket_message \<times> server) option" where
  "handle_event w e h r ss =
     (let s = ss_slot ss h
      in if s_type s = TYPE_CONNECTING then do {
           (c, r1, s1, ef) \<leftarrow> report_connect w s;
           Some (c, r1, put_slot h s1 ef ss) }
         else if s_type s = TYPE_LISTEN then do {
           (ok, r1, ss1) \<leftarrow> report_accept w h r ss;
           Some (if ok > 0 then SOCKET_ACCEPT else if ok < 0 then SOCKET_ERR else - 1, r1, ss1) }
         else if s_type s = TYPE_INVALID then Some (- 1, r, ss)
         else socket_event w e h r ss)"

text \<open>One round of the loop of \<open>socket_server_poll\<close>: the type it returns, \<open>None\<close> when it goes on; \<open>more\<close> (\<open>mo\<close>) is
  cleared when the poller was asked.\<close>

definition wait_events :: "world \<Rightarrow> server \<Rightarrow> bool \<times> server" where
  "wait_events w ss =
     (case w_wait w of
        Wait_events es \<Rightarrow> (es \<noteq> [], ss\<lparr>ss_ev := es, ss_checkctrl := True, ss_event_index := 0\<rparr>)
      | _ \<Rightarrow> (False, ss\<lparr>ss_ev := [], ss_checkctrl := True, ss_event_index := 0\<rparr>))"

definition poll_event :: "world \<Rightarrow> socket_message \<Rightarrow> bool \<Rightarrow> server \<Rightarrow>
    (int option \<times> socket_message \<times> bool \<times> server) option" where
  "poll_event w r mo ss =
     (let ss1 = ss\<lparr>ss_event_index := ss_event_index ss + 1\<rparr>
      in do {
        e \<leftarrow> arr_get (ss_ev ss) (ss_event_index ss);
        case e_s e of
          None \<Rightarrow> Some (None, r, mo, ss1)
        | Some h \<Rightarrow> do {
            (c, r1, ss2) \<leftarrow> handle_event w e h r ss1;
            Some (if c = - 1 then None else Some c, r1, mo, ss2) } })"

definition poll_round :: "world \<Rightarrow> socket_message \<Rightarrow> bool \<Rightarrow> server \<Rightarrow>
    (int option \<times> socket_message \<times> bool \<times> server) option" where
  "poll_round w r mo ss =
     (if ss_checkctrl ss \<and> ss_cmds ss \<noteq> [] then do {
        (c, r1, ss1) \<leftarrow> ctrl_cmd w (hd (ss_cmds ss)) r (ss\<lparr>ss_cmds := tl (ss_cmds ss)\<rparr>);
        Some (if c = - 1 then None else Some c, r1, mo, if c = - 1 then ss1 else clear_closed_event (sm_id r1) c ss1) }
      else
        let ss1 = ss\<lparr>ss_checkctrl := False\<rparr>
        in if ss_event_index ss1 = length (ss_ev ss1) then
             (let (some, ss2) = wait_events w ss1
              in if \<not> some then Some (if w_wait w = Wait_intr then None else Some (- 1), r, False, ss2)
                 else poll_event w r False ss2)
           else poll_event w r mo ss1)"

text \<open>The loop, with the answers of the system for each round; \<open>None\<close> inside is that the rounds given do not end it.\<close>

fun socket_server_poll :: "world list \<Rightarrow> socket_message \<Rightarrow> bool \<Rightarrow> server \<Rightarrow>
    (int option \<times> socket_message \<times> bool \<times> server) option" where
  "socket_server_poll [] r mo ss = Some (None, r, mo, ss)"
| "socket_server_poll (w # ws) r mo ss = do {
     (c, r1, mo1, ss1) \<leftarrow> poll_round w r mo ss;
     if c = None then socket_server_poll ws r1 mo1 ss1 else Some (c, r1, mo1, ss1) }"

section \<open>The calls of workers\<close>

text \<open>The request goes to the port as it stands in \<open>sin_port\<close>: on a little-endian machine its two bytes are swapped.\<close>

definition swap16 :: "u16 \<Rightarrow> u16" where
  "swap16 p = push_bit 8 p OR drop_bit 8 p"

definition send_request :: "request \<Rightarrow> server \<Rightarrow> server" where
  "send_request q ss = (if swap16 (ss_udp_port ss) = ss_bound ss then ss\<lparr>ss_cmds := ss_cmds ss @ [q]\<rparr> else ss)"

text \<open>\<open>sizeof(struct request_open)\<close> is 24.\<close>

definition open_request :: "string \<Rightarrow> server \<Rightarrow> int \<times> server" where
  "open_request addr ss = (if length addr + 24 \<ge> 256 then (- 1, ss) else reserve_id ss)"

definition socket_server_connect :: "u64 \<Rightarrow> string \<Rightarrow> int \<Rightarrow> server \<Rightarrow> int \<times> server" where
  "socket_server_connect opaque addr port ss =
     (let (i, ss1) = open_request addr ss
      in if i < 0 then (- 1, ss1) else (i, send_request (Req_open i port opaque addr) ss1))"

definition can_direct_write :: "sock \<Rightarrow> int \<Rightarrow> bool" where
  "can_direct_write s i \<longleftrightarrow> s_id s = i \<and> nomore_sending_data s \<and> s_type s = TYPE_CONNECTED \<and> s_udpconnecting s = 0"

text \<open>What a worker hands over: memory or an object that the server frees, or a raw pointer that it copies.  \<open>fresh\<close> is
  the address of the copy.\<close>

datatype sendbuffer = Owned payload | Raw_pointer addr "u8 list"

definition free_buffer :: "sendbuffer \<Rightarrow> effect list" where
  "free_buffer b = (case b of Owned p \<Rightarrow> [free_payload p] | Raw_pointer a d \<Rightarrow> [])"

definition clone_buffer :: "addr \<Rightarrow> sendbuffer \<Rightarrow> payload" where
  "clone_buffer fresh b = (case b of Owned p \<Rightarrow> p | Raw_pointer a d \<Rightarrow> Memory fresh d)"

definition send_object_init_from_sendbuffer :: "object_interface option \<Rightarrow> sendbuffer \<Rightarrow> (addr \<times> u8 list) option" where
  "send_object_init_from_sendbuffer soi b = (case b of Owned p \<Rightarrow> send_object_init soi p | Raw_pointer a d \<Rightarrow> Some (a, d))"

text \<open>The direct write: how many bytes were taken.  An error counts as nothing.\<close>

definition io_count :: "io list \<Rightarrow> nat \<Rightarrow> nat" where
  "io_count ios len = (case ios of Sent n # _ \<Rightarrow> min n len | _ \<Rightarrow> 0)"

definition direct_write :: "addr \<Rightarrow> io list \<Rightarrow> int \<Rightarrow> sendbuffer \<Rightarrow> server \<Rightarrow> (int \<times> server) option" where
  "direct_write fresh ios i b ss =
     (let s = slot_of ss i
      in do {
        (a, d) \<leftarrow> send_object_init_from_sendbuffer (ss_soi ss) b;
        out \<leftarrow> (if s_protocol s = PROTOCOL_TCP then Some (Some [Written (s_fd s) (take (io_count ios (length d)) d)])
                else do {
                  address \<leftarrow> sock_address s;
                  Some (map_option (\<lambda>sa. [Sent_to (s_fd s) (take (io_count ios (length d)) d) sa]) (udp_socket_address s address)) });
        case out of
          None \<Rightarrow> Some (- 1, emit (free_buffer b) ss)
        | Some e \<Rightarrow>
           (let n = io_count ios (length d);
                s1 = stat_write (ss_time ss) n s;
                e1 = (if n = 0 then [] else e)
            in if n = length d then Some (0, put_slot (HASH_ID i) s1 (e1 @ free_buffer b) ss)
               else Some (0, put_slot (HASH_ID i) (s1\<lparr>s_dw_buffer := Some (clone_buffer fresh b), s_dw_offset := n\<rparr>)
                      (e1 @ [Sp_write (s_fd s) True]) ss)) })"

definition queue_send :: "int \<Rightarrow> request \<Rightarrow> server \<Rightarrow> server option" where
  "queue_send i q ss = do {
     s \<leftarrow> inc_sending_ref i (slot_of ss i);
     Some (send_request q (put_slot (HASH_ID i) s [] ss)) }"

definition socket_server_send :: "addr \<Rightarrow> io list \<Rightarrow> int \<Rightarrow> sendbuffer \<Rightarrow> server \<Rightarrow> (int \<times> server) option" where
  "socket_server_send fresh ios i b ss =
     (let s = slot_of ss i
      in if s_id s \<noteq> i \<or> s_type s = TYPE_INVALID then Some (- 1, emit (free_buffer b) ss)
         else if can_direct_write s i \<and> \<not> s_dw_lock s then direct_write fresh ios i b ss
         else do {
           ss1 \<leftarrow> queue_send i (Req_send i (clone_buffer fresh b)) ss;
           Some (0, ss1) })"

definition socket_server_send_lowpriority :: "addr \<Rightarrow> int \<Rightarrow> sendbuffer \<Rightarrow> server \<Rightarrow> (int \<times> server) option" where
  "socket_server_send_lowpriority fresh i b ss =
     (let s = slot_of ss i
      in if s_id s \<noteq> i \<or> s_type s = TYPE_INVALID then Some (- 1, emit (free_buffer b) ss)
         else do {
           ss1 \<leftarrow> queue_send i (Req_send_low i (clone_buffer fresh b)) ss;
           Some (0, ss1) })"

definition socket_server_exit :: "server \<Rightarrow> server" where
  "socket_server_exit ss = send_request Req_exit ss"

definition socket_server_close :: "u64 \<Rightarrow> int \<Rightarrow> server \<Rightarrow> server" where
  "socket_server_close opaque i ss = send_request (Req_close i False opaque) ss"

definition socket_server_shutdown :: "u64 \<Rightarrow> int \<Rightarrow> server \<Rightarrow> server" where
  "socket_server_shutdown opaque i ss = send_request (Req_close i True opaque) ss"

text \<open>What the system answers while a socket is created and bound.\<close>

record bind_world =
  b_gai :: bool
  b_inet6 :: bool
  b_fd :: int
  b_setopt :: bool
  b_bind :: bool
  b_listen :: bool

definition do_bind :: "bind_world \<Rightarrow> server \<Rightarrow> int \<times> server" where
  "do_bind b ss =
     (if \<not> b_gai b then (- 1, ss)
      else if b_fd b < 0 then (- 1, ss)
      else if \<not> b_setopt b then (- 1, emit [Close_fd (b_fd b)] ss)
      else if \<not> b_bind b then (- 1, emit [Close_fd (b_fd b)] ss)
      else (b_fd b, ss))"

definition do_listen :: "bind_world \<Rightarrow> server \<Rightarrow> int \<times> server" where
  "do_listen b ss =
     (let (fd, ss1) = do_bind b ss
      in if fd < 0 then (- 1, ss1)
         else if \<not> b_listen b then (- 1, emit [Close_fd fd] ss1)
         else (fd, ss1))"

definition socket_server_listen :: "u64 \<Rightarrow> bind_world \<Rightarrow> server \<Rightarrow> int \<times> server" where
  "socket_server_listen opaque b ss =
     (let (fd, ss1) = do_listen b ss
      in if fd < 0 then (- 1, ss1)
         else let (i, ss2) = reserve_id ss1
              in if i < 0 then (i, emit [Close_fd fd] ss2)
                 else (i, send_request (Req_listen i fd opaque) ss2))"

definition socket_server_bind :: "u64 \<Rightarrow> int \<Rightarrow> server \<Rightarrow> int \<times> server" where
  "socket_server_bind opaque fd ss =
     (let (i, ss1) = reserve_id ss
      in if i < 0 then (- 1, ss1) else (i, send_request (Req_bind i fd opaque) ss1))"

definition socket_server_start :: "u64 \<Rightarrow> int \<Rightarrow> server \<Rightarrow> server" where
  "socket_server_start opaque i ss = send_request (Req_start i opaque) ss"

text \<open>\<open>TCP_NODELAY\<close> is 1.\<close>

definition socket_server_nodelay :: "int \<Rightarrow> server \<Rightarrow> server" where
  "socket_server_nodelay i ss = send_request (Req_setopt i 1 1) ss"

definition socket_server_userobject :: "object_interface \<Rightarrow> server \<Rightarrow> server" where
  "socket_server_userobject soi ss = ss\<lparr>ss_soi := Some soi\<rparr>"

text \<open>\<open>bound\<close>: an address or a port is given.\<close>

definition socket_server_udp :: "u64 \<Rightarrow> bool \<Rightarrow> bind_world \<Rightarrow> server \<Rightarrow> int \<times> server" where
  "socket_server_udp opaque bound b ss =
     (let (fd, ss1) = (if bound then do_bind b ss else (b_fd b, ss))
      in if fd < 0 then (- 1, ss1)
         else let (i, ss2) = reserve_id ss1
              in if i < 0 then (- 1, emit [Close_fd fd] ss2)
                 else (i, send_request (Req_udp i fd (bound \<and> b_inet6 b) opaque) ss2))"

definition socket_server_udp_send :: "addr \<Rightarrow> io list \<Rightarrow> int \<Rightarrow> u8 list \<Rightarrow> sendbuffer \<Rightarrow> server \<Rightarrow> (int \<times> server) option" where
  "socket_server_udp_send fresh ios i address b ss =
     (let s = slot_of ss i;
          addrsz = (if address ! 0 = protocol_byte PROTOCOL_UDP then 7 else 19);
          queued = (\<lambda>ss. send_request (Req_send_udp i (clone_buffer fresh b) (take addrsz address)) ss)
      in if s_id s \<noteq> i \<or> s_type s = TYPE_INVALID then Some (- 1, emit (free_buffer b) ss)
         else if address ! 0 \<noteq> protocol_byte PROTOCOL_UDP \<and> address ! 0 \<noteq> protocol_byte PROTOCOL_UDPv6 then
           Some (- 1, emit (free_buffer b) ss)
         else if can_direct_write s i \<and> \<not> s_dw_lock s then do {
           (a, d) \<leftarrow> send_object_init_from_sendbuffer (ss_soi ss) b;
           case udp_socket_address s address of
             None \<Rightarrow> Some (- 1, emit (free_buffer b) ss)
           | Some sa \<Rightarrow>
              (case ios of
                 Sent n # _ \<Rightarrow> Some (0, put_slot (HASH_ID i) (stat_write (ss_time ss) (min n (length d)) s)
                                 (Sent_to (s_fd s) d sa # free_buffer b) ss)
               | _ \<Rightarrow> Some (0, queued ss)) }
         else Some (0, queued ss))"

text \<open>\<open>gai\<close> is the family and the address that \<open>getaddrinfo\<close> gives; a family that is neither IPv4 nor IPv6 is
  \<open>PROTOCOL_UNKNOWN\<close>.\<close>

definition socket_server_udp_connect :: "(protocol \<times> u8 list) option \<Rightarrow> int \<Rightarrow> server \<Rightarrow> int \<times> server" where
  "socket_server_udp_connect gai i ss =
     (let s = slot_of ss i
      in if s_id s \<noteq> i \<or> s_type s = TYPE_INVALID then (- 1, ss)
         else
           let ss1 = put_slot (HASH_ID i) (s\<lparr>s_udpconnecting := s_udpconnecting s + 1\<rparr>) [] ss
           in case gai of
             None \<Rightarrow> (- 1, ss1)
           | Some (p, sa) \<Rightarrow>
               if p \<noteq> PROTOCOL_UDP \<and> p \<noteq> PROTOCOL_UDPv6 then (- 1, ss1)
               else (0, send_request (Req_set_udp i (gen_udp_address p sa)) ss1))"

definition socket_server_udp_address :: "socket_message \<Rightarrow> u8 list option" where
  "socket_server_udp_address m =
     (case sm_data m of
        M_data bytes \<Rightarrow>
          (let address = drop (nat (sm_ud m)) bytes
           in if address = [] then None
              else if address ! 0 = protocol_byte PROTOCOL_UDP then Some (take 7 address)
              else if address ! 0 = protocol_byte PROTOCOL_UDPv6 then Some (take 19 address)
              else None)
      | _ \<Rightarrow> None)"

section \<open>Information\<close>

datatype info_type = INFO_LISTEN | INFO_TCP | INFO_UDP | INFO_BIND

record socket_info =
  si_id :: int
  si_type :: info_type
  si_opaque :: u64
  si_stat :: socket_stat
  si_wbuffer :: int
  si_name :: "string option"

text \<open>\<open>name\<close> is the text of the own or peer address of a descriptor, when the system gives it, \<open>udp_name\<close> the text of a
  socket address.  \<open>None\<close>: nothing is written to the field, which keeps what the memory held.\<close>

definition query_info :: "(int \<Rightarrow> string option) \<Rightarrow> (u8 list \<Rightarrow> string) \<Rightarrow> sock \<Rightarrow> socket_info option" where
  "query_info name udp_name s = do {
     (t, n) \<leftarrow> (case s_type s of
         TYPE_BIND \<Rightarrow> Some (INFO_BIND, Some [])
       | TYPE_LISTEN \<Rightarrow> Some (INFO_LISTEN, name (s_fd s))
       | TYPE_CONNECTED \<Rightarrow>
           (if s_protocol s = PROTOCOL_TCP then Some (INFO_TCP, name (s_fd s))
            else do { a \<leftarrow> sock_address s; Some (INFO_UDP, map_option udp_name (udp_socket_address s a)) })
       | _ \<Rightarrow> None);
     Some \<lparr>si_id = s_id s, si_type = t, si_opaque = s_opaque s, si_stat = s_stat s, si_wbuffer = s_wb_size s, si_name = n\<rparr> }"

fun info_list :: "(int \<Rightarrow> string option) \<Rightarrow> (u8 list \<Rightarrow> string) \<Rightarrow> server \<Rightarrow> nat list \<Rightarrow> socket_info list \<Rightarrow> socket_info list" where
  "info_list name udp_name ss [] si = si"
| "info_list name udp_name ss (h # hs) si =
     (case query_info name udp_name (ss_slot ss h) of
        None \<Rightarrow> info_list name udp_name ss hs si
      | Some x \<Rightarrow> info_list name udp_name ss hs (x # si))"

definition socket_server_info :: "(int \<Rightarrow> string option) \<Rightarrow> (u8 list \<Rightarrow> string) \<Rightarrow> server \<Rightarrow> socket_info list" where
  "socket_server_info name udp_name ss = info_list name udp_name ss [0..<MAX_SOCKET] []"

end
