(* ===== verification/SocketBuffers.thy ===== *)
theory SocketBuffers
  imports SocketServer
begin

text \<open>
  One socket of the server: its invariant, and what sending its buffers does.  A stream is written in the order of its
  buffers and no byte is lost or written twice; only the first buffer of the high list may be sent in part; the size
  counter is the number of bytes left; no assertion of \<^verbatim>\<open>send_buffer_\<close> fails.
\<close>

section \<open>The invariant of a socket\<close>

definition active :: "sock \<Rightarrow> bool" where
  "active s \<longleftrightarrow> s_type s \<noteq> TYPE_INVALID \<and> s_type s \<noteq> TYPE_RESERVE"

definition bytes_of :: "write_buffer list \<Rightarrow> u8 list" where
  "bytes_of ws = concat (map wb_data ws)"

definition whole :: "write_buffer \<Rightarrow> bool" where
  "whole w \<longleftrightarrow> wb_ptr w = wb_buffer w"

definition is_udp :: "sock \<Rightarrow> bool" where
  "is_udp s \<longleftrightarrow> s_protocol s = PROTOCOL_UDP \<or> s_protocol s = PROTOCOL_UDPv6"

text \<open>The part that does not depend on how far the low list is sent.\<close>

definition sock_base :: "sock \<Rightarrow> bool" where
  "sock_base s \<longleftrightarrow>
     s_wb_size s = int (length (bytes_of (s_high s)) + length (bytes_of (s_low s))) \<and>
     \<not> s_dw_lock s \<and>
     (\<forall>p. s_dw_buffer s = Some p \<longrightarrow> s_protocol s = PROTOCOL_TCP \<and> (\<exists>a d. p = Memory a d)) \<and>
     (s_protocol s = PROTOCOL_TCP \<and> (\<exists>sz > 0. s_p s = P_size sz) \<or>
      is_udp s \<and> (\<exists>a. s_p s = P_address a) \<and> (s_type s = TYPE_CONNECTED \<or> s_type s = TYPE_HALFCLOSE) \<and>
      (\<forall>w \<in> set (s_high s @ s_low s). wb_addr w \<noteq> None \<and> whole w))"

definition sock_ok :: "sock \<Rightarrow> bool" where
  "sock_ok s \<longleftrightarrow>
     (if active s then sock_base s \<and> (\<forall>w \<in> set (s_low s). whole w) else s_high s = [] \<and> s_low s = [] \<and> \<not> s_dw_lock s)"

definition same_ident :: "sock \<Rightarrow> sock \<Rightarrow> bool" where
  "same_ident s s' \<longleftrightarrow> s_id s' = s_id s \<and> s_sending s' = s_sending s \<and> s_protocol s' = s_protocol s \<and> s_fd s' = s_fd s"

lemma same_ident_refl [simp]: "same_ident s s"
  by (simp add: same_ident_def)

lemma same_ident_trans [trans]: "same_ident s s' \<Longrightarrow> same_ident s' s'' \<Longrightarrow> same_ident s s''"
  by (simp add: same_ident_def)

text \<open>The bytes that go to the descriptor of a stream.\<close>

fun written :: "effect list \<Rightarrow> u8 list" where
  "written [] = []"
| "written (Written fd bs # es) = bs @ written es"
| "written (_ # es) = written es"

lemma written_append [simp]: "written (es @ fs) = written es @ written fs"
  by (induction es rule: written.induct) simp_all

lemma written_free [simp]: "written (free_wb_list ws) = []"
  by (induction ws) (simp_all add: free_wb_list_def write_buffer_free_def)

lemma bytes_of_simps [simp]: "bytes_of [] = []" "bytes_of (w # ws) = wb_data w @ bytes_of ws"
  "bytes_of (ws @ ws') = bytes_of ws @ bytes_of ws'"
  by (simp_all add: bytes_of_def)

lemma force_close_ok:
  assumes "sock_ok s" and "active s"
  shows "\<exists>s' e. force_close s = Some (nomsg (s_id s) (s_opaque s), s', e) \<and> same_ident s s' \<and> sock_ok s' \<and> s_type s' = TYPE_INVALID"
  using assms by (auto simp: force_close_def active_def sock_ok_def sock_base_def same_ident_def Let_def)

lemma force_close_base:
  assumes "sock_base s" and "active s"
  shows "\<exists>s' e. force_close s = Some (nomsg (s_id s) (s_opaque s), s', e) \<and> same_ident s s' \<and> sock_ok s' \<and> s_type s' = TYPE_INVALID"
  using assms by (auto simp: force_close_def active_def sock_ok_def sock_base_def same_ident_def Let_def)

section \<open>Sending the buffers\<close>

lemma wl_simps [simp]:
  "wl hi (set_wl hi ws s) = ws" "s_high (set_wl False ws s) = s_high s" "s_low (set_wl True ws s) = s_low s"
  "wl True s = s_high s" "wl False s = s_low s"
  "s_high (set_wl True ws s) = ws" "s_low (set_wl False ws s) = ws"
  by (simp_all add: wl_def set_wl_def)

lemma set_wl_fields [simp]:
  "s_type (set_wl hi ws s) = s_type s" "s_id (set_wl hi ws s) = s_id s" "s_sending (set_wl hi ws s) = s_sending s"
  "s_protocol (set_wl hi ws s) = s_protocol s" "s_fd (set_wl hi ws s) = s_fd s" "s_wb_size (set_wl hi ws s) = s_wb_size s"
  "s_dw_lock (set_wl hi ws s) = s_dw_lock s" "s_dw_buffer (set_wl hi ws s) = s_dw_buffer s" "s_p (set_wl hi ws s) = s_p s"
  "s_opaque (set_wl hi ws s) = s_opaque s" "s_dw_offset (set_wl hi ws s) = s_dw_offset s" "s_warn_size (set_wl hi ws s) = s_warn_size s"
  by (simp_all add: set_wl_def)

lemma stat_fields [simp]:
  "s_high (stat_write t n s) = s_high s" "s_low (stat_write t n s) = s_low s" "s_wb_size (stat_write t n s) = s_wb_size s"
  "s_type (stat_write t n s) = s_type s" "s_id (stat_write t n s) = s_id s" "s_sending (stat_write t n s) = s_sending s"
  "s_protocol (stat_write t n s) = s_protocol s" "s_fd (stat_write t n s) = s_fd s" "s_dw_lock (stat_write t n s) = s_dw_lock s"
  "s_dw_buffer (stat_write t n s) = s_dw_buffer s" "s_p (stat_write t n s) = s_p s" "s_opaque (stat_write t n s) = s_opaque s"
  "s_dw_offset (stat_write t n s) = s_dw_offset s" "wl hi (stat_write t n s) = wl hi s" "s_warn_size (stat_write t n s) = s_warn_size s"
  by (simp_all add: stat_write_def wl_def)

lemma stat_read_fields [simp]:
  "s_high (stat_read t n s) = s_high s" "s_low (stat_read t n s) = s_low s" "s_wb_size (stat_read t n s) = s_wb_size s"
  "s_type (stat_read t n s) = s_type s" "s_id (stat_read t n s) = s_id s" "s_sending (stat_read t n s) = s_sending s"
  "s_protocol (stat_read t n s) = s_protocol s" "s_fd (stat_read t n s) = s_fd s" "s_dw_lock (stat_read t n s) = s_dw_lock s"
  "s_dw_buffer (stat_read t n s) = s_dw_buffer s" "s_p (stat_read t n s) = s_p s" "s_opaque (stat_read t n s) = s_opaque s"
  by (simp_all add: stat_read_def)

text \<open>What sending one list leaves: the socket is closed, or the bytes sent and the bytes left are the bytes there were;
  only the first buffer left may be sent in part.\<close>

definition list_sent :: "bool \<Rightarrow> sock \<Rightarrow> sock \<Rightarrow> effect list \<Rightarrow> bool" where
  "list_sent hi s s' e \<longleftrightarrow>
     sock_base s' \<and> s_type s' = s_type s \<and> same_ident s s' \<and> wl (\<not> hi) s' = wl (\<not> hi) s \<and>
     s_dw_buffer s' = s_dw_buffer s \<and> s_opaque s' = s_opaque s \<and> s_warn_size s' = s_warn_size s \<and>
     (\<forall>w \<in> set (tl (wl hi s')). w \<in> set (wl hi s)) \<and>
     (s_protocol s = PROTOCOL_TCP \<longrightarrow> written e @ bytes_of (wl hi s') = bytes_of (wl hi s)) \<and>
     (is_udp s \<longrightarrow> set (wl hi s') \<subseteq> set (wl hi s))"

definition closed_by :: "sock \<Rightarrow> sock \<Rightarrow> socket_message \<Rightarrow> bool" where
  "closed_by s s' r \<longleftrightarrow> same_ident s s' \<and> sock_ok s' \<and> s_type s' = TYPE_INVALID \<and> r = nomsg (s_id s) (s_opaque s)"

lemma in_tl: "w \<in> set (tl ws) \<Longrightarrow> w \<in> set ws"
  by (cases ws) auto

lemma list_sent_refl: "sock_base s \<Longrightarrow> list_sent hi s s []"
  by (auto simp: list_sent_def dest: in_tl)

lemma list_sent_step:
  assumes "sock_base s" and "s_protocol s = PROTOCOL_TCP" and w: "wl hi s = w # ws" and k: "k \<le> length (wb_data w)"
  shows "list_sent hi s (set_wl hi (if k = length (wb_data w) then ws else w\<lparr>wb_ptr := wb_ptr w + k, wb_data := drop k (wb_data w)\<rparr> # ws)
           ((stat_write t k s)\<lparr>s_wb_size := s_wb_size s - int k\<rparr>)) [Written (s_fd s) (take k (wb_data w))]"
proof -
  have u: "\<not> is_udp s" using assms(2) by (simp add: is_udp_def)
  show ?thesis
  proof (cases hi)
    case True
    then show ?thesis using assms u by (auto simp: list_sent_def sock_base_def same_ident_def is_udp_def dest: in_tl)
  next
    case False
    then show ?thesis using assms u by (auto simp: list_sent_def sock_base_def same_ident_def is_udp_def dest: in_tl)
  qed
qed

lemma list_sent_trans:
  assumes "list_sent hi s s1 e" and "list_sent hi s1 s2 e1" and "set (wl hi s1) \<subseteq> set (wl hi s)"
  shows "list_sent hi s s2 (e @ e1)"
  using assms by (auto simp: list_sent_def same_ident_def is_udp_def)

lemma list_sent_free: "list_sent hi s s1 [e] \<Longrightarrow> list_sent hi s s1 [e, write_buffer_free w]"
  by (simp add: list_sent_def write_buffer_free_def) (metis append_Nil2 written.simps(1,3) written_append append_Cons append_Nil)

lemma send_list_tcp_spec:
  "sock_base s \<Longrightarrow> active s \<Longrightarrow> s_protocol s = PROTOCOL_TCP \<Longrightarrow>
   \<exists>c ios' r' s' e. send_list_tcp t hi ios s r = Some (c, ios', r', s', e) \<and>
     (c = - 1 \<and> r' = r \<and> list_sent hi s s' e \<or> c = SOCKET_CLOSE \<and> closed_by s s' r')"
proof (induction ios arbitrary: s)
  case Nil
  then show ?case by (simp add: list_sent_refl)
next
  case (Cons x ios)
  show ?case
  proof (cases "wl hi s")
    case Nil
    then show ?thesis using Cons.prems by (simp add: list_sent_refl)
  next
    case w: (Cons w ws)
    show ?thesis
    proof (cases x)
      case Intr
      then show ?thesis using Cons w by simp
    next
      case Would_block
      then show ?thesis using Cons.prems w by (simp add: list_sent_refl)
    next
      case Failed
      then show ?thesis using force_close_base [OF Cons.prems(1,2)] w by (auto simp: closed_by_def)
    next
      case (Sent n)
      define k where "k = min n (length (wb_data w))"
      let ?k = k
      let ?w = "if ?k = length (wb_data w) then ws else w\<lparr>wb_ptr := wb_ptr w + ?k, wb_data := drop ?k (wb_data w)\<rparr> # ws"
      let ?s = "(stat_write t ?k s)\<lparr>s_wb_size := s_wb_size s - int ?k\<rparr>"
      let ?o = "Written (s_fd s) (take ?k (wb_data w))"
      have ls: "list_sent hi s (set_wl hi ?w ?s) [?o]"
        by (rule list_sent_step [OF Cons.prems(1,3) w]) (simp add: k_def)
      show ?thesis
      proof (cases "?k = length (wb_data w)")
        case False
        then have "n < length (wb_data w)" by (simp add: k_def min_def split: if_splits)
        then have "send_list_tcp t hi (x # ios) s r =
            Some (- 1, ios, r, set_wl hi (w\<lparr>wb_ptr := wb_ptr w + k, wb_data := drop k (wb_data w)\<rparr> # ws) ?s, [?o])"
          using w Sent unfolding k_def by (simp add: Let_def)
        then show ?thesis using ls False by simp
      next
        case True
        let ?s1 = "set_wl hi ws ?s"
        have ls1: "list_sent hi s ?s1 [?o, write_buffer_free w]" using ls True by (simp add: list_sent_free)
        have "sock_base ?s1" "active ?s1" "s_protocol ?s1 = PROTOCOL_TCP"
          using ls1 Cons.prems by (auto simp: list_sent_def active_def)
        from Cons.IH [OF this] obtain c ios' r' s' e where 1: "send_list_tcp t hi ios ?s1 r = Some (c, ios', r', s', e)"
          and 2: "c = - 1 \<and> r' = r \<and> list_sent hi ?s1 s' e \<or> c = SOCKET_CLOSE \<and> closed_by ?s1 s' r'" by blast
        have "send_list_tcp t hi (x # ios) s r = Some (c, ios', r', s', ?o # write_buffer_free w # e)"
          using 1 w Sent True unfolding k_def by (simp add: Let_def)
        moreover have "closed_by ?s1 s' r' \<Longrightarrow> closed_by s s' r'" by (simp add: closed_by_def same_ident_def)
        moreover have "list_sent hi ?s1 s' e \<Longrightarrow> list_sent hi s s' ([?o, write_buffer_free w] @ e)"
          by (rule list_sent_trans [OF ls1]) (use w in auto)
        ultimately show ?thesis using 2 by auto
      qed
    qed
  qed
qed

lemma send_list_udp_spec:
  "sock_base s \<Longrightarrow> is_udp s \<Longrightarrow>
   \<exists>ios' s' e. send_list_udp t hi ios s = Some (- 1, ios', s', e) \<and> list_sent hi s s' e"
proof (induction t hi ios s rule: send_list_udp.induct)
  case (1 t hi ios s)
  show ?case
  proof (cases "wl hi s")
    case Nil
    then show ?thesis using 1(2) by (subst send_list_udp.simps) (simp add: list_sent_refl)
  next
    case w: (Cons w ws)
    then have "w \<in> set (s_high s @ s_low s)" by (cases hi) auto
    then obtain a where a: "wb_addr w = Some a" using 1(2,3) by (auto simp: sock_base_def is_udp_def)
    have np: "s_protocol s \<noteq> PROTOCOL_TCP" using 1(3) by (auto simp: is_udp_def)
    have drp: "list_sent hi s (set_wl hi ws (s\<lparr>s_wb_size := s_wb_size s - int (length (wb_data w))\<rparr>)) [write_buffer_free w]"
      using 1(2,3) w np by (cases hi) (auto simp: list_sent_def sock_base_def is_udp_def same_ident_def active_def dest: in_tl)
    let ?s = "set_wl hi ws ((stat_write t (length (wb_data w)) s)\<lparr>s_wb_size := s_wb_size s - int (length (wb_data w))\<rparr>)"
    have snt: "list_sent hi s ?s f" for f
      using 1(2,3) w np by (cases hi) (auto simp: list_sent_def sock_base_def is_udp_def same_ident_def active_def dest: in_tl)
    show ?thesis
    proof (cases "udp_socket_address s a")
      case None
      then show ?thesis using w a drp by (subst send_list_udp.simps) (simp add: drop_udp_def)
    next
      case (Some sa)
      show ?thesis
      proof (cases ios)
        case Nil
        then show ?thesis using w a Some 1(2) by (subst send_list_udp.simps) (simp add: list_sent_refl)
      next
        case (Cons x ios1)
        have base: "sock_base ?s" "is_udp ?s" using snt 1(3) by (auto simp: list_sent_def is_udp_def)
        consider "x = Intr \<or> x = Would_block" | "x = Failed" | n where "x = Sent n" by (cases x) auto
        then show ?thesis
        proof cases
          case 1
          then show ?thesis using w a Some Cons \<open>sock_base s\<close>
            by (subst send_list_udp.simps) (auto simp: list_sent_refl)
        next
          case 2
          then show ?thesis using w a Some Cons drp by (subst send_list_udp.simps) (simp add: drop_udp_def)
        next
          case (3 n)
          obtain ios2 s3 e where r: "send_list_udp t hi ios1 ?s = Some (- 1, ios2, s3, e)" "list_sent hi ?s s3 e"
            using 1(1) [OF w a Some Cons 3 refl refl] base by auto
          have "list_sent hi s s3 ([Sent_to (s_fd s) (wb_data w) sa, write_buffer_free w] @ e)"
            by (rule list_sent_trans [OF snt r(2)]) (use w in auto)
          then show ?thesis using w a Some Cons 3 r(1) by (subst send_list_udp.simps) simp
        qed
      qed
    qed
  qed
qed

lemma send_list_spec:
  assumes "sock_base s" and "active s"
  shows "\<exists>c ios' r' s' e. send_list t hi ios s r = Some (c, ios', r', s', e) \<and>
     (c = - 1 \<and> r' = r \<and> list_sent hi s s' e \<or> c = SOCKET_CLOSE \<and> closed_by s s' r')"
proof (cases "s_protocol s = PROTOCOL_TCP")
  case True
  then show ?thesis using send_list_tcp_spec [OF assms] by (simp add: send_list_def)
next
  case False
  then have "is_udp s" using assms(1) by (auto simp: sock_base_def)
  from send_list_udp_spec [OF assms(1) this] obtain ios' s' e
    where "send_list_udp t hi ios s = Some (- 1, ios', s', e)" "list_sent hi s s' e" by blast
  then show ?thesis using False by (simp add: send_list_def)
qed

text \<open>What a direct write has left.\<close>

definition dw_bytes :: "sock \<Rightarrow> u8 list" where
  "dw_bytes s = (case s_dw_buffer s of Some (Memory a d) \<Rightarrow> drop (s_dw_offset s) d | _ \<Rightarrow> [])"

lemma dw_bytes_cong: "s_dw_buffer s' = s_dw_buffer s \<Longrightarrow> s_dw_offset s' = s_dw_offset s \<Longrightarrow> dw_bytes s' = dw_bytes s"
  by (simp add: dw_bytes_def split: option.split payload.split)

lemma dw_bytes_fields [simp]:
  "dw_bytes (s\<lparr>s_warn_size := x\<rparr>) = dw_bytes s" "dw_bytes (s\<lparr>s_wb_size := x\<rparr>) = dw_bytes s" "dw_bytes (set_wl hi ws s) = dw_bytes s"
  "dw_bytes (s\<lparr>s_type := y\<rparr>) = dw_bytes s" "dw_bytes (s\<lparr>s_sending := z\<rparr>) = dw_bytes s" "dw_bytes (s\<lparr>s_opaque := op\<rparr>) = dw_bytes s"
  "dw_bytes (stat_read t n s) = dw_bytes s" "dw_bytes (s\<lparr>s_p := q\<rparr>) = dw_bytes s"
  by (rule dw_bytes_cong; simp add: stat_read_def)+

definition kept :: "sock \<Rightarrow> sock \<Rightarrow> effect list \<Rightarrow> bool" where
  "kept s s' e \<longleftrightarrow>
     sock_ok s' \<and> same_ident s s' \<and> s_type s' = s_type s \<and> s_opaque s' = s_opaque s \<and>
     (s_protocol s = PROTOCOL_TCP \<and> s_low s = [] \<longrightarrow>
        s_low s' = [] \<and> written e @ dw_bytes s' @ bytes_of (s_high s') = dw_bytes s @ bytes_of (s_high s))"

lemma sock_ok_base: "sock_base s \<Longrightarrow> active s \<Longrightarrow> \<forall>w \<in> set (s_low s). whole w \<Longrightarrow> sock_ok s"
  by (simp add: sock_ok_def)

lemma send_buffer_done_spec:
  assumes "sock_base s" and "active s" and "send_buffer_empty s"
  shows "\<exists>c r' s' e. send_buffer_done s r = Some (c, r', s', e) \<and> written e = [] \<and>
    (c = SOCKET_CLOSE \<and> s_type s = TYPE_HALFCLOSE \<and> closed_by s s' r' \<or>
     s_type s \<noteq> TYPE_HALFCLOSE \<and> (c = - 1 \<and> r' = r \<or> c = SOCKET_WARNING \<and> r' = nomsg (s_id s) (s_opaque s)) \<and>
     sock_base s' \<and> same_ident s s' \<and> s_type s' = s_type s \<and> s_opaque s' = s_opaque s \<and>
     s_high s' = s_high s \<and> s_low s' = s_low s \<and> s_dw_buffer s' = s_dw_buffer s)"
proof -
  have z: "s_wb_size s = 0" using assms(1,3) by (simp add: sock_base_def send_buffer_empty_def)
  show ?thesis
  proof (cases "s_type s = TYPE_HALFCLOSE")
    case True
    have "written (snd (snd x)) = []" if "force_close s = Some x" for x
      using that assms(3) by (auto simp: force_close_def Let_def send_buffer_empty_def free_payload_def free_wb_list_def
        split: if_splits option.splits payload.splits)
    then show ?thesis using force_close_base [OF assms(1,2)] True z assms(3)
      by (fastforce simp: send_buffer_done_def closed_by_def)
  next
    case False
    have "sock_base (s\<lparr>s_warn_size := 0\<rparr>)" using assms(1) by (simp add: sock_base_def is_udp_def)
    then show ?thesis using assms z False
      by (cases "s_warn_size s > 0") (simp_all add: send_buffer_done_def same_ident_def Let_def)
  qed
qed

lemma raise_uncomplete_spec:
  assumes "sock_base s" and "active s" and "list_uncomplete (s_low s)" and "s_high s = []" and "\<forall>w \<in> set (tl (s_low s)). whole w"
  shows "\<exists>s'. raise_uncomplete s = Some s' \<and> sock_ok s' \<and> same_ident s s' \<and> s_type s' = s_type s \<and> s_opaque s' = s_opaque s \<and>
    s_dw_buffer s' = s_dw_buffer s"
proof -
  obtain w ws where "s_low s = w # ws" using assms(3) by (cases "s_low s") (simp_all add: list_uncomplete_def)
  then show ?thesis using assms
    by (auto simp: raise_uncomplete_def sock_ok_def sock_base_def same_ident_def is_udp_def active_def)
qed

lemma closed_by_trans: "same_ident s s1 \<Longrightarrow> s_opaque s1 = s_opaque s \<Longrightarrow> closed_by s1 s' r \<Longrightarrow> closed_by s s' r"
  by (auto simp: closed_by_def same_ident_def)

lemma send_buffer_steps_spec:
  assumes ok: "sock_ok s" and act: "active s" and dw: "s_dw_buffer s = None"
  shows "\<exists>c r' s' e. send_buffer_steps t ios s r = Some (c, r', s', e) \<and>
    (c = SOCKET_CLOSE \<and> closed_by s s' r' \<or>
     (c = - 1 \<and> r' = r \<or> c = SOCKET_WARNING \<and> r' = nomsg (s_id s) (s_opaque s)) \<and> kept s s' e)"
proof -
  have base: "sock_base s" and low: "\<forall>w \<in> set (s_low s). whole w" using ok act by (auto simp: sock_ok_def)
  have nu: "\<not> list_uncomplete (s_low s)" using low by (auto simp: list_uncomplete_def whole_def split: list.splits)
  obtain c ios1 r1 s1 e1 where 1: "send_list t True ios s r = Some (c, ios1, r1, s1, e1)"
    and c1: "c = - 1 \<and> r1 = r \<and> list_sent True s s1 e1 \<or> c = SOCKET_CLOSE \<and> closed_by s s1 r1"
    using send_list_spec [OF base act] by blast
  show ?thesis
  proof (cases "c = SOCKET_CLOSE")
    case True
    then show ?thesis using 1 c1 nu by (simp add: send_buffer_steps_def SOCKET_CLOSE_def)
  next
    case False
    then have ls: "list_sent True s s1 e1" and r1: "r1 = r" using c1 by auto
    have b1: "sock_base s1" "active s1" "s_type s1 = s_type s" "same_ident s s1" "s_opaque s1 = s_opaque s"
      "s_low s1 = s_low s" "s_dw_buffer s1 = s_dw_buffer s"
      using ls act by (auto simp: list_sent_def active_def)
    have k1: "kept s s1 e1" if "s_high s1 \<noteq> [] \<or> s_low s1 = []"
      using ls b1 low act dw by (auto simp: kept_def list_sent_def sock_ok_def dw_bytes_def)
    show ?thesis
    proof (cases "s_high s1 = []")
      case False
      then show ?thesis using 1 c1 \<open>c \<noteq> SOCKET_CLOSE\<close> nu k1 r1 by (simp add: send_buffer_steps_def)
    next
      case h1: True
      have wr: "written e1 = bytes_of (s_high s)" if "s_protocol s = PROTOCOL_TCP"
        using ls that h1 by (simp add: list_sent_def)
      show ?thesis
      proof (cases "s_low s1 = []")
        case True
        then have em: "send_buffer_empty s1" using h1 by (simp add: send_buffer_empty_def)
        from send_buffer_done_spec [OF b1(1,2) em, of r] obtain c2 r2 s2 e2
          where 2: "send_buffer_done s1 r = Some (c2, r2, s2, e2)" and w2: "written e2 = []" and
            d: "c2 = SOCKET_CLOSE \<and> s_type s1 = TYPE_HALFCLOSE \<and> closed_by s1 s2 r2 \<or>
              s_type s1 \<noteq> TYPE_HALFCLOSE \<and> (c2 = - 1 \<and> r2 = r \<or> c2 = SOCKET_WARNING \<and> r2 = nomsg (s_id s1) (s_opaque s1)) \<and>
              sock_base s2 \<and> same_ident s1 s2 \<and> s_type s2 = s_type s1 \<and> s_opaque s2 = s_opaque s1 \<and>
              s_high s2 = s_high s1 \<and> s_low s2 = s_low s1 \<and> s_dw_buffer s2 = s_dw_buffer s1" by blast
        have st: "send_buffer_steps t ios s r = Some (c2, r2, s2, e1 @ e2)"
          using 1 2 \<open>c \<noteq> SOCKET_CLOSE\<close> nu h1 True r1 by (simp add: send_buffer_steps_def)
        show ?thesis
          using d
        proof (elim disjE conjE)
          assume "c2 = SOCKET_CLOSE" "closed_by s1 s2 r2"
          then show ?thesis using st closed_by_trans [OF b1(4,5)] by blast
        qed (use st b1 h1 True wr w2 act dw in \<open>auto simp: kept_def sock_ok_def same_ident_def active_def dw_bytes_def\<close>)
      next
        case l1: False
        from send_list_spec [OF b1(1,2), of t False ios1 r] obtain c2 ios2 r2 s2 e2
          where 2: "send_list t False ios1 s1 r = Some (c2, ios2, r2, s2, e2)"
            and c2: "c2 = - 1 \<and> r2 = r \<and> list_sent False s1 s2 e2 \<or> c2 = SOCKET_CLOSE \<and> closed_by s1 s2 r2" by blast
        show ?thesis
        proof (cases "c2 = SOCKET_CLOSE")
          case True
          then have "closed_by s s2 r2" using c2 closed_by_trans [OF b1(4,5)] by (auto simp: SOCKET_CLOSE_def)
          then show ?thesis using 1 2 \<open>c \<noteq> SOCKET_CLOSE\<close> nu h1 l1 r1 True by (simp add: send_buffer_steps_def)
        next
          case False
          then have ls2: "list_sent False s1 s2 e2" and r2: "r2 = r" using c2 by auto
          have b2: "sock_base s2" "active s2" "s_type s2 = s_type s" "same_ident s s2" "s_opaque s2 = s_opaque s"
            "s_high s2 = []" "s_dw_buffer s2 = None" "\<forall>w \<in> set (tl (s_low s2)). whole w"
            using ls2 b1 act h1 low dw by (auto simp: list_sent_def active_def same_ident_def)
          have nl: "s_low s \<noteq> []" using l1 b1 by simp
          show ?thesis
          proof (cases "list_uncomplete (s_low s2)")
            case True
            from raise_uncomplete_spec [OF b2(1,2) True b2(6,8)] obtain s3
              where "raise_uncomplete s2 = Some s3" "sock_ok s3" "same_ident s2 s3" "s_type s3 = s_type s2" "s_opaque s3 = s_opaque s2" by blast
            then show ?thesis using 1 2 \<open>c \<noteq> SOCKET_CLOSE\<close> nu h1 l1 r1 False r2 True b2 nl
              by (auto simp: send_buffer_steps_def kept_def same_ident_def)
          next
            case nu2: False
            have w2: "\<forall>w \<in> set (s_low s2). whole w" using nu2 b2(8)
              by (cases "s_low s2") (auto simp: list_uncomplete_def whole_def)
            then have o2: "sock_ok s2" using b2 by (simp add: sock_ok_def)
            show ?thesis
            proof (cases "s_low s2 = []")
              case False
              then show ?thesis using 1 2 \<open>c \<noteq> SOCKET_CLOSE\<close> nu h1 l1 r1 \<open>c2 \<noteq> SOCKET_CLOSE\<close> r2 nu2 b2 nl o2
                by (auto simp: send_buffer_steps_def kept_def same_ident_def)
            next
              case True
              then have em: "send_buffer_empty s2" using b2 by (simp add: send_buffer_empty_def)
              from send_buffer_done_spec [OF b2(1,2) em, of r] obtain c3 r3 s3 e3
                where 3: "send_buffer_done s2 r = Some (c3, r3, s3, e3)" and
                  d: "c3 = SOCKET_CLOSE \<and> s_type s2 = TYPE_HALFCLOSE \<and> closed_by s2 s3 r3 \<or>
                    s_type s2 \<noteq> TYPE_HALFCLOSE \<and> (c3 = - 1 \<and> r3 = r \<or> c3 = SOCKET_WARNING \<and> r3 = nomsg (s_id s2) (s_opaque s2)) \<and>
                    sock_base s3 \<and> same_ident s2 s3 \<and> s_type s3 = s_type s2 \<and> s_opaque s3 = s_opaque s2 \<and>
                    s_high s3 = s_high s2 \<and> s_low s3 = s_low s2 \<and> s_dw_buffer s3 = s_dw_buffer s2" by blast
              have st: "send_buffer_steps t ios s r = Some (c3, r3, s3, e1 @ e2 @ e3)"
                using 1 2 3 \<open>c \<noteq> SOCKET_CLOSE\<close> \<open>c2 \<noteq> SOCKET_CLOSE\<close> nu h1 l1 r1 r2 nu2 True by (simp add: send_buffer_steps_def)
              show ?thesis
                using d
              proof (elim disjE conjE)
                assume "c3 = SOCKET_CLOSE" "closed_by s2 s3 r3"
                then show ?thesis using st closed_by_trans [OF b2(4,5)] by blast
              qed (use st b2 nl True act in \<open>auto simp: kept_def sock_ok_def same_ident_def active_def\<close>)
            qed
          qed
        qed
      qed
    qed
  qed
qed

lemma dw_to_list_spec:
  assumes "sock_ok s" and "active s"
  shows "\<exists>s'. dw_to_list soi s = Some s' \<and> sock_ok s' \<and> active s' \<and> s_type s' = s_type s \<and> same_ident s s' \<and>
    s_opaque s' = s_opaque s \<and> s_dw_buffer s' = None \<and> s_low s' = s_low s \<and>
    bytes_of (s_high s') = dw_bytes s @ bytes_of (s_high s)"
proof (cases "s_dw_buffer s")
  case None
  then show ?thesis using assms by (simp add: dw_to_list_def dw_bytes_def)
next
  case (Some p)
  then have u: "s_protocol s = PROTOCOL_TCP" using assms by (simp add: sock_ok_def sock_base_def)
  obtain a d where "p = Memory a d" using Some assms by (auto simp: sock_ok_def sock_base_def)
  then show ?thesis using Some assms u
    by (auto simp: dw_to_list_def send_object_init_def sock_ok_def sock_base_def same_ident_def active_def dw_bytes_def is_udp_def)
qed

lemma send_buffer_spec:
  assumes "sock_ok s" and "active s"
  shows "\<exists>c r' s' e. send_buffer soi t ios s r = Some (c, r', s', e) \<and>
    (c = SOCKET_CLOSE \<and> closed_by s s' r' \<or>
     (c = - 1 \<and> r' = r \<or> c = SOCKET_WARNING \<and> r' = nomsg (s_id s) (s_opaque s)) \<and> kept s s' e)"
proof -
  have nl: "\<not> s_dw_lock s" using assms by (simp add: sock_ok_def sock_base_def)
  from dw_to_list_spec [OF assms] obtain s1 where 1: "dw_to_list soi s = Some s1" "sock_ok s1" "active s1"
    "s_type s1 = s_type s" "same_ident s s1" "s_opaque s1 = s_opaque s" "s_dw_buffer s1 = None" "s_low s1 = s_low s"
    "bytes_of (s_high s1) = dw_bytes s @ bytes_of (s_high s)" by blast
  from send_buffer_steps_spec [OF 1(2,3,7), of t ios r] obtain c r' s' e
    where 2: "send_buffer_steps t ios s1 r = Some (c, r', s', e)"
      and d: "c = SOCKET_CLOSE \<and> closed_by s1 s' r' \<or>
       (c = - 1 \<and> r' = r \<or> c = SOCKET_WARNING \<and> r' = nomsg (s_id s1) (s_opaque s1)) \<and> kept s1 s' e" by blast
  have sb: "send_buffer soi t ios s r = Some (c, r', s', e)" using nl 1(1) 2 by (simp add: send_buffer_def)
  have z: "dw_bytes s1 = []" using 1(7) by (simp add: dw_bytes_def)
  have "kept s1 s' e \<Longrightarrow> kept s s' e" using 1 z by (auto simp: kept_def same_ident_def)
  moreover have "closed_by s1 s' r' \<Longrightarrow> closed_by s s' r'" using closed_by_trans [OF 1(5,6)] .
  moreover have "nomsg (s_id s1) (s_opaque s1) = nomsg (s_id s) (s_opaque s)" using 1(5,6) by (simp add: same_ident_def)
  ultimately show ?thesis using sb d by (intro exI [of _ c] exI [of _ r'] exI [of _ s'] exI [of _ e]) auto
qed

end
