(* ===== verification/SocketInv.thy ===== *)
theory SocketInv
  imports SocketBuffers
begin

text \<open>
  The invariant of the socket server, and that every request of the control channel keeps it.  The requests that wait in
  the channel are part of it: each reserved id is opened by exactly one of them, before any other request for the id, and
  the counter of a stream is the number of its sends that wait.  No event that is still to be handled is of a closed socket.
\<close>

section \<open>The invariant of the server\<close>

definition request_id :: "request \<Rightarrow> int option" where
  "request_id q = (case q of
     Req_start i _ \<Rightarrow> Some i | Req_bind i _ _ \<Rightarrow> Some i | Req_listen i _ _ \<Rightarrow> Some i | Req_close i _ _ \<Rightarrow> Some i
   | Req_open i _ _ _ \<Rightarrow> Some i | Req_exit \<Rightarrow> None | Req_send i _ \<Rightarrow> Some i | Req_send_low i _ \<Rightarrow> Some i
   | Req_send_udp i _ _ \<Rightarrow> Some i | Req_setopt i _ _ \<Rightarrow> Some i | Req_udp i _ _ _ \<Rightarrow> Some i | Req_set_udp i _ \<Rightarrow> Some i)"

text \<open>The requests that turn a reserved slot into a socket.\<close>

definition opens :: "request \<Rightarrow> bool" where
  "opens q = (case q of Req_bind _ _ _ \<Rightarrow> True | Req_listen _ _ _ \<Rightarrow> True | Req_open _ _ _ _ \<Rightarrow> True | Req_udp _ _ _ _ \<Rightarrow> True | _ \<Rightarrow> False)"

text \<open>The counted sends of an id that wait in the channel.\<close>

definition counted :: "int \<Rightarrow> request \<Rightarrow> bool" where
  "counted i q = (case q of Req_send j _ \<Rightarrow> j = i | Req_send_low j _ \<Rightarrow> j = i | _ \<Rightarrow> False)"

definition sends :: "int \<Rightarrow> request list \<Rightarrow> nat" where
  "sends i qs = length (filter (counted i) qs)"

text \<open>Each reserved id has exactly one request that opens it, and no other request for it comes before.\<close>

fun channel_ok :: "int set \<Rightarrow> request list \<Rightarrow> bool" where
  "channel_ok R [] \<longleftrightarrow> R = {}"
| "channel_ok R (q # qs) \<longleftrightarrow>
     (case request_id q of
        None \<Rightarrow> channel_ok R qs
      | Some i \<Rightarrow> if opens q then i \<in> R \<and> channel_ok (R - {i}) qs else i \<notin> R \<and> channel_ok R qs)"

definition reserved :: "server \<Rightarrow> int set" where
  "reserved ss = {i. s_type (slot_of ss i) = TYPE_RESERVE \<and> s_id (slot_of ss i) = i}"

text \<open>The sends on their way to a stream are what its counter says.\<close>

definition count_ok :: "request list \<Rightarrow> sock \<Rightarrow> bool" where
  "count_ok qs s \<longleftrightarrow>
     (s_protocol s = PROTOCOL_TCP \<and> (s_type s \<noteq> TYPE_INVALID \<or> 0 < sends (s_id s) qs) \<longrightarrow>
        unat (s_sending s AND mask 16) = sends (s_id s) qs \<and> drop_bit 16 (s_sending s) = ID_TAG16 (s_id s)) \<and>
     (s_type s = TYPE_RESERVE \<longrightarrow> s_protocol s = PROTOCOL_UNKNOWN \<and> sends (s_id s) qs = 0)"

definition event_ok :: "server \<Rightarrow> event \<Rightarrow> bool" where
  "event_ok ss e \<longleftrightarrow> (\<forall>h. e_s e = Some h \<longrightarrow> h < MAX_SOCKET \<and> active (ss_slot ss h))"

definition event_slots :: "event list \<Rightarrow> nat list" where
  "event_slots es = List.map_filter e_s es"

definition left_events :: "server \<Rightarrow> event list" where
  "left_events ss = drop (ss_event_index ss) (ss_ev ss)"

definition events_ok :: "server \<Rightarrow> bool" where
  "events_ok ss \<longleftrightarrow> ss_event_index ss \<le> length (ss_ev ss) \<and>
     (\<forall>e \<in> set (left_events ss). event_ok ss e) \<and> distinct (event_slots (left_events ss))"

text \<open>The same while the socket \<open>i\<close> has just been closed.\<close>

definition events_but :: "int \<Rightarrow> server \<Rightarrow> bool" where
  "events_but i ss \<longleftrightarrow> ss_event_index ss \<le> length (ss_ev ss) \<and>
     (\<forall>e \<in> set (left_events ss). \<forall>h. e_s e = Some h \<longrightarrow> h < MAX_SOCKET \<and>
        (active (ss_slot ss h) \<or> h = HASH_ID i \<and> s_type (ss_slot ss h) = TYPE_INVALID \<and> s_id (ss_slot ss h) = i)) \<and>
     distinct (event_slots (left_events ss))"

definition request_ok :: "request \<Rightarrow> bool" where
  "request_ok q = (case q of
     Req_send _ p \<Rightarrow> \<not> is_object p | Req_send_low _ p \<Rightarrow> \<not> is_object p | Req_send_udp _ p _ \<Rightarrow> \<not> is_object p
   | Req_set_udp _ a \<Rightarrow> a \<noteq> [] \<and> a ! 0 \<noteq> protocol_byte PROTOCOL_TCP | _ \<Rightarrow> True)"

definition core_ok :: "request list \<Rightarrow> server \<Rightarrow> bool" where
  "core_ok qs ss \<longleftrightarrow>
     (\<forall>h < MAX_SOCKET. sock_ok (ss_slot ss h) \<and> (HASH_ID (s_id (ss_slot ss h)) = h \<longrightarrow> count_ok qs (ss_slot ss h)) \<and>
        (s_type (ss_slot ss h) \<noteq> TYPE_INVALID \<longrightarrow> HASH_ID (s_id (ss_slot ss h)) = h)) \<and>
     channel_ok (reserved ss) qs \<and>
     (\<forall>q \<in> set qs. request_ok q \<and> (\<forall>i. request_id q = Some i \<longrightarrow> i \<le> ss_alloc_id ss)) \<and>
     0 \<le> ss_alloc_id ss \<and> ss_alloc_id ss < 2 ^ 31 \<and> swap16 (ss_udp_port ss) = ss_bound ss"

definition server_ok :: "server \<Rightarrow> bool" where
  "server_ok ss \<longleftrightarrow> core_ok (ss_cmds ss) ss \<and> events_ok ss"

lemma HASH_ID_bound [simp]: "HASH_ID i < MAX_SOCKET"
  by (simp add: HASH_ID_def MAX_SOCKET_def nat_less_iff)

lemma core_slot:
  assumes "core_ok qs ss"
  shows "sock_ok (slot_of ss i)" "s_id (slot_of ss i) = i \<or> s_type (slot_of ss i) \<noteq> TYPE_INVALID \<Longrightarrow> count_ok qs (slot_of ss i)" "s_type (slot_of ss i) \<noteq> TYPE_INVALID \<Longrightarrow> HASH_ID (s_id (slot_of ss i)) = HASH_ID i"
  using assms by (auto simp: core_ok_def slot_of_def)

lemma put_slot_fields [simp]:
  "ss_cmds (put_slot h s e ss) = ss_cmds ss" "ss_alloc_id (put_slot h s e ss) = ss_alloc_id ss"
  "ss_ev (put_slot h s e ss) = ss_ev ss" "ss_event_index (put_slot h s e ss) = ss_event_index ss"
  "ss_udp_port (put_slot h s e ss) = ss_udp_port ss" "ss_bound (put_slot h s e ss) = ss_bound ss"
  "ss_slot (put_slot h s e ss) = (ss_slot ss)(h := s)" "ss_time (put_slot h s e ss) = ss_time ss" "ss_soi (put_slot h s e ss) = ss_soi ss"
  by (simp_all add: put_slot_def)

lemma emit_fields [simp]:
  "ss_cmds (emit e ss) = ss_cmds ss" "ss_alloc_id (emit e ss) = ss_alloc_id ss"
  "ss_ev (emit e ss) = ss_ev ss" "ss_event_index (emit e ss) = ss_event_index ss"
  "ss_udp_port (emit e ss) = ss_udp_port ss" "ss_bound (emit e ss) = ss_bound ss"
  "ss_slot (emit e ss) = ss_slot ss" "slot_of (emit e ss) i = slot_of ss i" "ss_time (emit e ss) = ss_time ss" "ss_soi (emit e ss) = ss_soi ss"
  by (simp_all add: emit_def slot_of_def)

lemma emit_ok [simp]: "core_ok qs (emit e ss) = core_ok qs ss" "events_ok (emit e ss) = events_ok ss" "events_but i (emit e ss) = events_but i ss"
  "server_ok (emit e ss) = server_ok ss"
  by (simp_all add: server_ok_def core_ok_def events_ok_def events_but_def event_ok_def left_events_def reserved_def)

lemma slot_of_put [simp]: "slot_of (put_slot h s e ss) i = (if HASH_ID i = h then s else slot_of ss i)"
  by (simp add: slot_of_def)

lemma reserved_put_same:
  assumes "s_type s' = TYPE_RESERVE \<longleftrightarrow> s_type (ss_slot ss h) = TYPE_RESERVE" and "s_type s' = TYPE_RESERVE \<Longrightarrow> s_id s' = s_id (ss_slot ss h)"
  shows "reserved (put_slot h s' e ss) = reserved ss"
  using assms by (auto simp: reserved_def slot_of_def)

lemma reserved_put_open:
  assumes "i \<in> reserved ss" and "s_type s' \<noteq> TYPE_RESERVE"
  shows "reserved (put_slot (HASH_ID i) s' e ss) = reserved ss - {i}"
  using assms by (auto simp: reserved_def slot_of_def)

lemma count_ok_ident:
  "count_ok qs s \<Longrightarrow> active s \<Longrightarrow> same_ident s s' \<Longrightarrow> s_type s' \<noteq> TYPE_RESERVE \<Longrightarrow> count_ok qs s'"
  by (auto simp: count_ok_def active_def same_ident_def)

lemma core_put:
  assumes "core_ok qs ss" and "active (ss_slot ss h)" and "same_ident (ss_slot ss h) s'" and "sock_ok s'" and "s_type s' \<noteq> TYPE_RESERVE" and "h < MAX_SOCKET"
  shows "core_ok qs (put_slot h s' e ss)"
proof -
  have "reserved (put_slot h s' e ss) = reserved ss"
    by (rule reserved_put_same) (use assms(2,5) in \<open>auto simp: active_def\<close>)
  moreover have "count_ok qs s'"
    by (rule count_ok_ident [of qs "ss_slot ss h"]) (use assms in \<open>auto simp: core_ok_def active_def\<close>)
  ultimately show ?thesis using assms by (auto simp: core_ok_def same_ident_def active_def)
qed

lemma events_put:
  assumes "events_ok ss" and "active s'"
  shows "events_ok (put_slot h s' e ss)"
  using assms by (auto simp: events_ok_def event_ok_def left_events_def)

lemma events_put_closed:
  assumes "events_ok ss" and "s_type s' = TYPE_INVALID" and "s_id s' = i"
  shows "events_but i (put_slot (HASH_ID i) s' e ss)"
  using assms by (auto simp: events_ok_def events_but_def event_ok_def left_events_def)

lemma events_put_inactive:
  assumes "events_ok ss" and "\<not> active (ss_slot ss h)"
  shows "events_ok (put_slot h s' e ss)"
  using assms by (auto simp: events_ok_def event_ok_def left_events_def)

lemma events_ok_but: "events_ok ss \<Longrightarrow> events_but i ss"
  by (auto simp: events_ok_def events_but_def event_ok_def)

lemma clear_events_spec:
  "distinct (event_slots es) \<Longrightarrow>
   (\<forall>e \<in> set es. \<forall>h. e_s e = Some h \<longrightarrow> h < MAX_SOCKET \<and>
        (active (slots h) \<or> h = HASH_ID i \<and> s_type (slots h) = TYPE_INVALID \<and> s_id (slots h) = i)) \<Longrightarrow>
   (\<forall>e \<in> set (clear_events slots i es). \<forall>h. e_s e = Some h \<longrightarrow> h < MAX_SOCKET \<and> active (slots h)) \<and>
   distinct (event_slots (clear_events slots i es)) \<and> set (event_slots (clear_events slots i es)) \<subseteq> set (event_slots es)"
proof (induction es)
  case Nil
  then show ?case by (simp add: event_slots_def)
next
  case (Cons e es)
  have IH: "(\<forall>e \<in> set (clear_events slots i es). \<forall>h. e_s e = Some h \<longrightarrow> h < MAX_SOCKET \<and> active (slots h)) \<and>
     distinct (event_slots (clear_events slots i es)) \<and> set (event_slots (clear_events slots i es)) \<subseteq> set (event_slots es)"
    using Cons by (auto simp: event_slots_def map_filter_simps split: option.splits)
  show ?case
  proof (cases "e_s e")
    case None
    then show ?thesis using IH by (auto simp: event_slots_def map_filter_simps)
  next
    case (Some h)
    show ?thesis
    proof (cases "s_type (slots h) = TYPE_INVALID \<and> s_id (slots h) = i")
      case True
      then have h: "h = HASH_ID i" using Some Cons.prems(2) by (auto simp: active_def)
      have "HASH_ID i \<notin> set (event_slots es)" using Cons.prems(1) Some h by (simp add: event_slots_def map_filter_simps)
      then have "\<forall>e \<in> set es. e_s e \<noteq> Some (HASH_ID i)" by (force simp: event_slots_def map_filter_def)
      then show ?thesis using Some True Cons.prems by (auto simp: event_slots_def map_filter_simps)
    next
      case False
      then have "active (slots h)" "h < MAX_SOCKET" using Cons.prems(2) Some by auto
      then show ?thesis using Some False IH Cons.prems(1) by (auto simp: event_slots_def map_filter_simps)
    qed
  qed
qed

lemma length_clear_events [simp]: "length (clear_events slots i es) = length es"
  by (induction es) (auto split: option.splits)

lemma clear_closed_event_ok:
  assumes "events_but i ss" and "type = SOCKET_CLOSE \<or> type = SOCKET_ERR"
  shows "events_ok (clear_closed_event i type ss)"
proof -
  let ?es = "clear_events (ss_slot ss) i (left_events ss)"
  have l: "left_events (clear_closed_event i type ss) = ?es"
    using assms by (auto simp: clear_closed_event_def left_events_def events_but_def)
  have "(\<forall>e \<in> set ?es. \<forall>h. e_s e = Some h \<longrightarrow> h < MAX_SOCKET \<and> active (ss_slot ss h)) \<and> distinct (event_slots ?es)"
    using assms(1) clear_events_spec unfolding events_but_def by blast
  moreover have "ss_slot (clear_closed_event i type ss) = ss_slot ss" by (simp add: clear_closed_event_def)
  moreover have "ss_event_index (clear_closed_event i type ss) \<le> length (ss_ev (clear_closed_event i type ss))"
    using assms by (auto simp: clear_closed_event_def events_but_def)
  ultimately show ?thesis using l by (simp add: events_ok_def event_ok_def)
qed

lemma clear_closed_event_core [simp]: "core_ok qs (clear_closed_event i type ss) = core_ok qs ss"
  "ss_cmds (clear_closed_event i type ss) = ss_cmds ss"
  by (simp_all add: clear_closed_event_def core_ok_def reserved_def slot_of_def)

section \<open>The handlers of requests\<close>

definition handled :: "int \<Rightarrow> socket_message \<Rightarrow> request list \<Rightarrow> server \<Rightarrow> bool" where
  "handled c r qs ss \<longleftrightarrow> core_ok qs ss \<and> (if c = SOCKET_CLOSE \<or> c = SOCKET_ERR then events_but (sm_id r) ss else events_ok ss)"

lemma handled_same: "core_ok qs ss \<Longrightarrow> events_ok ss \<Longrightarrow> handled c r qs ss"
  by (simp add: handled_def events_ok_but)

lemma handled_emit [simp]: "handled c r qs (emit e ss) = handled c r qs ss"
  by (simp add: handled_def)

lemma put_put [simp]: "put_slot h s2 e2 (put_slot h s1 e1 ss) = put_slot h s2 (e1 @ e2) ss"
  by (simp add: put_slot_def)

lemma put_emit [simp]: "put_slot h s2 e2 (emit e1 ss) = put_slot h s2 (e1 @ e2) ss" "emit e2 (put_slot h s2 e1 ss) = put_slot h s2 (e1 @ e2) ss"
  by (simp_all add: put_slot_def emit_def)

lemma sends_Cons: "sends i (q # qs) = (if counted i q then Suc (sends i qs) else sends i qs)"
  by (simp add: sends_def)

lemma core_drop:
  assumes "core_ok (q # qs) ss" and "\<not> opens q" and "\<And>i. \<not> counted i q"
  shows "core_ok qs ss"
proof -
  have "sends i (q # qs) = sends i qs" for i using assms(3) by (simp add: sends_Cons)
  then have "count_ok (q # qs) = count_ok qs" by (simp add: count_ok_def fun_eq_iff)
  then show ?thesis using assms(1,2) by (auto simp: core_ok_def split: option.splits)
qed

lemma core_not_reserved: "core_ok (q # qs) ss \<Longrightarrow> \<not> opens q \<Longrightarrow> request_id q = Some i \<Longrightarrow> i \<notin> reserved ss"
  by (simp add: core_ok_def)

lemma active_slot:
  "i \<notin> reserved ss \<Longrightarrow> s_type (slot_of ss i) \<noteq> TYPE_INVALID \<Longrightarrow> s_id (slot_of ss i) = i \<Longrightarrow> active (slot_of ss i)"
  by (auto simp: reserved_def active_def)

text \<open>A handler that changes one socket, or closes it.\<close>

lemma handled_put:
  assumes "core_ok qs ss" and "events_ok ss" and "active (slot_of ss i)" and "s_id (slot_of ss i) = i"
    and "same_ident (slot_of ss i) s'" and "sock_ok s'" and "active s'"
  shows "handled c r qs (put_slot (HASH_ID i) s' e ss)"
  using core_put [of qs ss "HASH_ID i" s' e] events_put [of ss s' "HASH_ID i" e] assms events_ok_but
  by (auto simp: handled_def slot_of_def active_def)

lemma handled_closed:
  assumes "core_ok qs ss" and "events_ok ss" and "active (slot_of ss i)" and "s_id (slot_of ss i) = i"
    and "same_ident (slot_of ss i) s'" and "sock_ok s'" and "s_type s' = TYPE_INVALID" and "c = SOCKET_CLOSE \<or> c = SOCKET_ERR" and "sm_id r = i"
  shows "handled c r qs (put_slot (HASH_ID i) s' e ss)"
  using core_put [of qs ss "HASH_ID i" s' e] events_put_closed [of ss s' i e] assms
  by (auto simp: handled_def slot_of_def same_ident_def)

lemma handled_close:
  assumes "core_ok qs ss" and "events_ok ss" and "active (slot_of ss i)" and "s_id (slot_of ss i) = i"
    and "closed_by (slot_of ss i) s' r" and "c = SOCKET_CLOSE \<or> c = SOCKET_ERR"
  shows "handled c r qs (put_slot (HASH_ID i) s' e ss)"
  using handled_closed [OF assms(1-4)] assms(4-6) by (simp add: closed_by_def nomsg_def)

lemma nomsg_id [simp]: "sm_id (nomsg i a) = i" "sm_opaque (nomsg i a) = a"
  by (simp_all add: nomsg_def)

lemma start_socket_ok:
  assumes core: "core_ok qs ss" and ev: "events_ok ss" and nr: "i \<notin> reserved ss"
  shows "\<exists>c r ss'. start_socket w i opaque ss = Some (c, r, ss') \<and> handled c r qs ss'"
proof (cases "s_type (slot_of ss i) = TYPE_INVALID \<or> s_id (slot_of ss i) \<noteq> i")
  case True
  then show ?thesis using handled_same [OF core ev] by (simp add: start_socket_def Let_def)
next
  case False
  let ?s = "slot_of ss i"
  have act: "active ?s" using False nr active_slot by blast
  have ok: "sock_ok ?s" using core_slot [OF core] by blast
  consider "s_type ?s = TYPE_PACCEPT \<or> s_type ?s = TYPE_PLISTEN" "w_add_fails w"
    | "s_type ?s = TYPE_PACCEPT \<or> s_type ?s = TYPE_PLISTEN" "\<not> w_add_fails w"
    | "s_type ?s = TYPE_CONNECTED"
    | "s_type ?s \<noteq> TYPE_PACCEPT" "s_type ?s \<noteq> TYPE_PLISTEN" "s_type ?s \<noteq> TYPE_CONNECTED" by blast
  then show ?thesis
  proof cases
    case 1
    from force_close_ok [OF ok act] obtain s' e where f: "force_close ?s = Some (nomsg (s_id ?s) (s_opaque ?s), s', e)"
      "same_ident ?s s'" "sock_ok s'" "s_type s' = TYPE_INVALID" by blast
    then show ?thesis using 1 False by (auto simp: start_socket_def Let_def intro!: handled_closed [OF core ev act])
  next
    case 2
    let ?s' = "?s\<lparr>s_type := (if s_type ?s = TYPE_PACCEPT then TYPE_CONNECTED else TYPE_LISTEN), s_opaque := opaque\<rparr>"
    have "sock_ok ?s'" using ok 2 act by (auto simp: sock_ok_def sock_base_def active_def is_udp_def)
    then have "handled c r qs (put_slot (HASH_ID i) ?s' [Sp_add (s_fd ?s)] ss)" for c r
      by (intro handled_put [OF core ev act]) (use False in \<open>auto simp: same_ident_def active_def\<close>)
    then show ?thesis using 2 False by (simp add: start_socket_def Let_def)
  next
    case 3
    have "sock_ok (?s\<lparr>s_opaque := opaque\<rparr>)" using ok 3 act by (auto simp: sock_ok_def sock_base_def active_def is_udp_def)
    then have "handled c r qs (put_slot (HASH_ID i) (?s\<lparr>s_opaque := opaque\<rparr>) [] ss)" for c r
      by (intro handled_put [OF core ev act]) (use False 3 in \<open>auto simp: same_ident_def active_def\<close>)
    then show ?thesis using 3 False by (simp add: start_socket_def Let_def)
  next
    case 4
    then show ?thesis using False handled_same [OF core ev] by (simp add: start_socket_def Let_def)
  qed
qed

lemma sock_ok_halfclose: "sock_ok s \<Longrightarrow> active s \<Longrightarrow> sock_ok (s\<lparr>s_type := TYPE_HALFCLOSE\<rparr>)"
  by (auto simp: sock_ok_def sock_base_def active_def is_udp_def)

lemma closed_by_close:
  assumes "sock_ok s" and "active s"
  shows "\<exists>s' e. force_close s = Some (nomsg (s_id s) (s_opaque s), s', e) \<and> closed_by s s' (nomsg (s_id s) (s_opaque s))"
  using force_close_ok [OF assms] by (auto simp: closed_by_def)

lemma close_socket_ok:
  assumes core: "core_ok qs ss" and ev: "events_ok ss" and nr: "i \<notin> reserved ss"
  shows "\<exists>c r' ss'. close_socket ios i shutdown opaque r ss = Some (c, r', ss') \<and> handled c r' qs ss'"
proof (cases "s_type (slot_of ss i) = TYPE_INVALID \<or> s_id (slot_of ss i) \<noteq> i")
  case True
  then show ?thesis using handled_same [OF core ev] by (simp add: close_socket_def Let_def)
next
  case False
  let ?s = "slot_of ss i"
  have act: "active ?s" using False nr active_slot by blast
  have ok: "sock_ok ?s" using core_slot [OF core] by blast
  obtain c r1 s1 e1 where 1: "(if \<not> nomore_sending_data ?s then send_buffer (ss_soi ss) (ss_time ss) ios ?s r else Some (- 1, r, ?s, [])) = Some (c, r1, s1, e1)"
    and d: "c = SOCKET_CLOSE \<and> closed_by ?s s1 r1 \<or> (c = - 1 \<or> c = SOCKET_WARNING) \<and> sock_ok s1 \<and> same_ident ?s s1 \<and> s_type s1 = s_type ?s"
    using send_buffer_spec [OF ok act, of "ss_soi ss" "ss_time ss" ios r] ok
    by (cases "nomore_sending_data ?s") (auto simp: kept_def)
  show ?thesis
  proof (cases "c = SOCKET_CLOSE")
    case True
    then have "handled c r1 qs (put_slot (HASH_ID i) s1 e1 ss)"
      by (intro handled_close [OF core ev act]) (use d False in \<open>auto simp: socket_results\<close>)
    then show ?thesis using 1 True False by (simp add: close_socket_def Let_def socket_results)
  next
    case nc: False
    then have k: "sock_ok s1" "same_ident ?s s1" "s_type s1 = s_type ?s" "c = - 1 \<or> c = SOCKET_WARNING" using d by auto
    have a1: "active s1" using act k by (simp add: active_def)
    show ?thesis
    proof (cases "shutdown \<or> nomore_sending_data s1")
      case True
      from closed_by_close [OF k(1) a1] obtain s2 e2 where 2: "force_close s1 = Some (nomsg (s_id s1) (s_opaque s1), s2, e2)"
        "closed_by s1 s2 (nomsg (s_id s1) (s_opaque s1))" by blast
      then have "handled SOCKET_CLOSE ((nomsg (s_id s1) (s_opaque s1))\<lparr>sm_id := i, sm_opaque := opaque\<rparr>) qs (put_slot (HASH_ID i) s2 (e1 @ e2) ss)"
        by (intro handled_closed [OF core ev act]) (use k False in \<open>auto simp: closed_by_def same_ident_def\<close>)
      then show ?thesis using 1 2(1) True False k(4) by (auto simp: close_socket_def Let_def)
    next
      case nd: False
      have "handled (- 1) r1 qs (put_slot (HASH_ID i) (s1\<lparr>s_type := TYPE_HALFCLOSE\<rparr>) e1 ss)"
        by (intro handled_put [OF core ev act]) (use k False a1 sock_ok_halfclose in \<open>auto simp: same_ident_def active_def\<close>)
      then show ?thesis using 1 nd False k(4) by (auto simp: close_socket_def Let_def)
    qed
  qed
qed

lemma append_node_ok:
  assumes "sock_ok s" and "active s" and "s_protocol s = PROTOCOL_TCP \<or> ad \<noteq> None"
  shows "\<exists>s'. append_node soi hi (Memory a d) ad s = Some s' \<and> sock_ok s' \<and> same_ident s s' \<and> s_type s' = s_type s \<and>
    s_opaque s' = s_opaque s \<and> dw_bytes s' = dw_bytes s \<and>
    bytes_of (wl hi s') = bytes_of (wl hi s) @ d \<and> wl (\<not> hi) s' = wl (\<not> hi) s"
proof -
  let ?b = "\<lparr>wb_buffer = payload_addr (Memory a d), wb_ptr = a, wb_data = d, wb_userobject = is_object (Memory a d), wb_addr = ad\<rparr>"
  have "whole ?b" by (simp add: whole_def payload_addr_def)
  then show ?thesis using assms
    by (cases hi) (auto simp: append_node_def send_object_init_def sock_ok_def sock_base_def same_ident_def active_def is_udp_def
      Let_def)
qed

lemma enqueue_ok:
  assumes ok: "sock_ok s" and act: "active s" and p: "p = Memory a d"
  shows "\<exists>b s' e. enqueue soi t ios p hi ad s = Some (b, s', e) \<and> sock_ok s' \<and> same_ident s s' \<and> s_type s' = s_type s \<and> s_opaque s' = s_opaque s \<and>
    (s_protocol s = PROTOCOL_TCP \<longrightarrow> b \<and> written e = [] \<and> dw_bytes s' = dw_bytes s \<and>
      (s_low s = [] \<and> hi \<longrightarrow> s_low s' = [] \<and> bytes_of (s_high s') = bytes_of (s_high s) @ d))"
proof (cases "s_protocol s = PROTOCOL_TCP")
  case True
  from append_node_ok [OF ok act, of None soi _ a d] True obtain s1 s2 where
    1: "append_sendbuffer soi p s = Some s1" "sock_ok s1" "same_ident s s1" "s_type s1 = s_type s" "s_opaque s1 = s_opaque s"
      "dw_bytes s1 = dw_bytes s" "bytes_of (s_high s1) = bytes_of (s_high s) @ d" "s_low s1 = s_low s" and
    2: "append_sendbuffer_low soi p s = Some s2" "sock_ok s2" "same_ident s s2" "s_type s2 = s_type s" "s_opaque s2 = s_opaque s"
      "dw_bytes s2 = dw_bytes s"
    unfolding p append_sendbuffer_def append_sendbuffer_low_def by (metis wl_simps(4,5))
  show ?thesis
  proof (cases "(send_buffer_empty s \<and> s_type s = TYPE_CONNECTED) \<or> hi")
    case True
    then show ?thesis using 1 \<open>s_protocol s = PROTOCOL_TCP\<close> by (auto simp: enqueue_def)
  next
    case False
    then show ?thesis using 2 \<open>s_protocol s = PROTOCOL_TCP\<close> by (auto simp: enqueue_def)
  qed
next
  case False
  then obtain ad0 where "s_p s = P_address ad0" using ok act by (auto simp: sock_ok_def sock_base_def)
  then obtain ad1 where ad1: "the_address ad s = Some ad1" by (cases ad) (auto simp: the_address_def sock_address_def)
  from append_node_ok [OF ok act, of "Some ad1" soi hi a d] obtain s1 where
    1: "append_sendbuffer_udp soi hi p ad1 s = Some s1" "sock_ok s1" "same_ident s s1" "s_type s1 = s_type s" "s_opaque s1 = s_opaque s"
    unfolding p append_sendbuffer_udp_def by auto
  have st: "sock_ok (stat_write t n s)" for n
    using ok act by (simp add: sock_ok_def sock_base_def active_def is_udp_def)
  have i: "send_object_init soi p = Some (a, d)" by (simp add: p send_object_init_def)
  show ?thesis
  proof (cases "send_buffer_empty s \<and> s_type s = TYPE_CONNECTED")
    case True
    show ?thesis
    proof (cases "udp_socket_address s ad1")
      case None
      then have "enqueue soi t ios p hi ad s = Some (False, s, [free_payload p])" using True False ad1 i by (simp add: enqueue_def)
      then show ?thesis using ok False by (intro exI [of _ False] exI [of _ s] exI [of _ "[free_payload p]"]) simp
    next
      case (Some sa)
      then show ?thesis using True False ad1 i 1 st
        by (cases "case ios of Sent n # _ \<Rightarrow> n = length d | _ \<Rightarrow> False") (auto simp: enqueue_def same_ident_def)
    qed
  next
    case nd: False
    then show ?thesis using False ad1 1 by (auto simp: enqueue_def)
  qed
qed

lemma send_warning_ok:
  assumes "sock_ok s" and "active s" and "send_warning s r = (c, r', s')"
  shows "sock_ok s' \<and> same_ident s s' \<and> s_type s' = s_type s \<and> s_opaque s' = s_opaque s \<and> (c = - 1 \<or> c = SOCKET_WARNING) \<and>
    s_high s' = s_high s \<and> s_low s' = s_low s \<and> dw_bytes s' = dw_bytes s"
proof -
  have "sock_ok (s\<lparr>s_warn_size := x\<rparr>)" for x using assms(1,2) by (simp add: sock_ok_def sock_base_def active_def is_udp_def)
  then show ?thesis using assms(1,3) by (auto simp: send_warning_def same_ident_def split: if_splits)
qed

text \<open>A send request leaves the channel with its counter, which \<open>dec_sending_ref\<close> reduces afterwards.\<close>

lemma send_socket_ok:
  assumes core: "core_ok qs ss" and ev: "events_ok ss" and nr: "i \<notin> reserved ss" and p: "\<not> is_object p"
  shows "\<exists>c r' ss'. send_socket ios i p hi ad r ss = Some (c, r', ss') \<and> (c = - 1 \<or> c = SOCKET_WARNING) \<and>
    core_ok qs ss' \<and> events_ok ss' \<and> reserved ss' = reserved ss \<and> ss_alloc_id ss' = ss_alloc_id ss \<and>
    same_ident (slot_of ss i) (slot_of ss' i) \<and> s_type (slot_of ss' i) = s_type (slot_of ss i)"
proof -
  let ?s = "slot_of ss i"
  obtain a d where p: "p = Memory a d" using p by (cases p) (auto simp: is_object_def)
  have i: "send_object_init (ss_soi ss) p = Some (a, d)" by (simp add: p send_object_init_def)
  show ?thesis
  proof (cases "s_type ?s = TYPE_INVALID \<or> s_id ?s \<noteq> i \<or> s_type ?s = TYPE_HALFCLOSE \<or> s_type ?s = TYPE_PACCEPT \<or>
           s_type ?s = TYPE_PLISTEN \<or> s_type ?s = TYPE_LISTEN")
    case True
    then have "send_socket ios i p hi ad r ss = Some (- 1, r, emit [free_payload p] ss)"
      using i by (simp add: send_socket_def Let_def)
    moreover have "reserved (emit [free_payload p] ss) = reserved ss" by (simp add: reserved_def)
    ultimately show ?thesis using core ev by simp
  next
    case False
    then have act: "active ?s" using nr active_slot by blast
    have ok: "sock_ok ?s" using core_slot [OF core] by blast
    from enqueue_ok [OF ok act p, of "ss_soi ss" "ss_time ss" ios hi ad] obtain b s1 e
      where 1: "enqueue (ss_soi ss) (ss_time ss) ios p hi ad ?s = Some (b, s1, e)" "sock_ok s1" "same_ident ?s s1"
        "s_type s1 = s_type ?s" by blast
    have a1: "active s1" using act 1(4) by (simp add: active_def)
    obtain c r1 s2 where w: "(if b then send_warning s1 r else (- 1, r, s1)) = (c, r1, s2)" by (metis prod_cases3)
    have 2: "sock_ok s2 \<and> same_ident ?s s2 \<and> s_type s2 = s_type ?s \<and> (c = - 1 \<or> c = SOCKET_WARNING)"
      using send_warning_ok [OF 1(2) a1, of r c r1 s2] 1 w by (auto simp: same_ident_def split: if_splits)
    have "send_socket ios i p hi ad r ss = Some (c, r1, put_slot (HASH_ID i) s2 e ss)"
      using False i 1(1) w by (auto simp: send_socket_def Let_def split: if_splits)
    moreover have "core_ok qs (put_slot (HASH_ID i) s2 e ss)"
      by (intro core_put [OF core]) (use act 2 in \<open>auto simp: slot_of_def active_def\<close>)
    moreover have "events_ok (put_slot (HASH_ID i) s2 e ss)"
      by (intro events_put [OF ev]) (use act 2 in \<open>auto simp: active_def\<close>)
    moreover have "reserved (put_slot (HASH_ID i) s2 e ss) = reserved ss"
      by (rule reserved_put_same) (use act 2 in \<open>auto simp: active_def slot_of_def same_ident_def\<close>)
    ultimately show ?thesis using 2 by simp
  qed
qed

lemma core_opened:
  assumes core: "core_ok (q # qs) ss" and "opens q" and "request_id q = Some i"
    and "s_type s' \<noteq> TYPE_RESERVE" and "sock_ok s'" and "count_ok qs s'" and "s_id s' = i"
  shows "core_ok qs (put_slot (HASH_ID i) s' e ss)"
proof -
  have i: "i \<in> reserved ss" "channel_ok (reserved ss - {i}) qs" using assms(1-3) by (simp_all add: core_ok_def)
  have "\<not> counted j q" for j using assms(2) by (auto simp: opens_def counted_def split: request.splits)
  then have "sends j (q # qs) = sends j qs" for j by (simp add: sends_Cons)
  then have "count_ok (q # qs) = count_ok qs" by (simp add: count_ok_def fun_eq_iff)
  then show ?thesis using core assms(4-7) reserved_put_open [OF i(1) assms(4), of e] i(2)
    by (auto simp: core_ok_def)
qed

lemma push_tag: "drop_bit 16 (push_bit 16 (ID_TAG16 i)) = ID_TAG16 i" "push_bit 16 (ID_TAG16 i) AND mask 16 = 0"
  by (rule bit_word_eqI; auto simp: bit_simps ID_TAG16_def)+

lemma new_fd_ok:
  assumes core: "core_ok (q # qs) ss" and q: "opens q" "request_id q = Some i"
  shows "\<exists>s1 e. new_fd i fd p opaque add fails ss =
      (if (add \<and> \<not> (0 \<le> fd \<and> fd \<le> 2)) \<and> fails
       then Some (None, put_slot (HASH_ID i) ((slot_of ss i)\<lparr>s_type := TYPE_INVALID\<rparr>) [] ss)
       else Some (Some s1, put_slot (HASH_ID i) s1 e ss)) \<and>
    s_id s1 = i \<and> s_high s1 = [] \<and> s_low s1 = [] \<and> s_wb_size s1 = 0 \<and> s_dw_buffer s1 = None \<and> \<not> s_dw_lock s1 \<and>
    s_protocol s1 = p \<and> s_p s1 = P_size 64 \<and> s_sending s1 = push_bit 16 (ID_TAG16 i) \<and> sends i qs = 0"
proof -
  have r: "s_type (slot_of ss i) = TYPE_RESERVE" "s_id (slot_of ss i) = i"
    using core q by (simp_all add: core_ok_def reserved_def)
  have ok: "sock_ok (slot_of ss i)" "count_ok (q # qs) (slot_of ss i)" using core_slot [OF core] r by simp_all
  have "sends i qs = 0" using ok(2) r by (auto simp: count_ok_def sends_Cons split: if_splits)
  then show ?thesis using r ok(1)
    by (intro exI [of _ "(slot_of ss i)\<lparr>s_id := i, s_fd := fd, s_sending := push_bit 16 (ID_TAG16 i), s_protocol := p,
                     s_p := P_size MIN_READ_BUFFER, s_opaque := opaque, s_wb_size := 0, s_warn_size := 0,
                     s_dw_buffer := None, s_stat := \<lparr>st_rtime = 0, st_wtime = 0, st_read = 0, st_write = 0\<rparr>\<rparr>"]
        exI [of _ "if add \<and> \<not> (0 \<le> fd \<and> fd \<le> 2) then [Sp_add fd] else []"])
      (auto simp: new_fd_def Let_def sock_ok_def active_def MIN_READ_BUFFER_def)
qed

lemma events_opened:
  assumes core: "core_ok (q # qs) ss" and q: "opens q" "request_id q = Some i" and ev: "events_ok ss"
  shows "events_ok (put_slot (HASH_ID i) s' e ss)"
proof -
  have "s_type (slot_of ss i) = TYPE_RESERVE" using core q by (simp add: core_ok_def reserved_def)
  then show ?thesis by (intro events_put_inactive [OF ev]) (simp add: active_def slot_of_def)
qed

text \<open>The two ends of a request that opens: the slot is free again, or a socket.\<close>

lemma handled_failed:
  assumes core: "core_ok (q # qs) ss" and q: "opens q" "request_id q = Some i" and ev: "events_ok ss"
  shows "handled c r qs (put_slot (HASH_ID i) ((slot_of ss i)\<lparr>s_type := TYPE_INVALID\<rparr>) e ss)"
proof -
  have r: "s_type (slot_of ss i) = TYPE_RESERVE" "s_id (slot_of ss i) = i"
    using core q by (simp_all add: core_ok_def reserved_def)
  have ok: "sock_ok (slot_of ss i)" "count_ok (q # qs) (slot_of ss i)" using core_slot [OF core] r by simp_all
  have s: "s_protocol (slot_of ss i) = PROTOCOL_UNKNOWN" using ok(2) r by (simp add: count_ok_def)
  have "core_ok qs (put_slot (HASH_ID i) ((slot_of ss i)\<lparr>s_type := TYPE_INVALID\<rparr>) e ss)"
    by (intro core_opened [OF core q]) (use r ok s in \<open>auto simp: sock_ok_def active_def count_ok_def\<close>)
  then show ?thesis using events_opened [OF core q ev] handled_same by blast
qed

lemma handled_opened:
  assumes core: "core_ok (q # qs) ss" and q: "opens q" "request_id q = Some i" and ev: "events_ok ss"
    and "s_id s1 = i" "s_high s1 = []" "s_low s1 = []" "s_wb_size s1 = 0" "s_dw_buffer s1 = None" "\<not> s_dw_lock s1"
    and "s_sending s1 = push_bit 16 (ID_TAG16 i)" "sends i qs = 0" "active s1"
    and "s_protocol s1 = PROTOCOL_TCP \<and> s_p s1 = P_size 64 \<or> is_udp s1 \<and> s_type s1 = TYPE_CONNECTED \<and> (\<exists>a. s_p s1 = P_address a)"
  shows "handled c r qs (put_slot (HASH_ID i) s1 e ss)"
proof -
  have "count_ok qs s1" using assms(5,11-13) push_tag [of i] by (simp add: count_ok_def active_def)
  moreover have "sock_ok s1" using assms(5-14) by (auto simp: sock_ok_def sock_base_def is_udp_def active_def)
  ultimately have "core_ok qs (put_slot (HASH_ID i) s1 e ss)"
    by (intro core_opened [OF core q]) (use assms(5,13) in \<open>auto simp: active_def\<close>)
  then show ?thesis using events_opened [OF core q ev] handled_same by blast
qed

lemma set_type_put: "set_type i t (put_slot (HASH_ID i) s e ss) = put_slot (HASH_ID i) (s\<lparr>s_type := t\<rparr>) e ss"
  by (simp add: set_type_def)

lemma listen_socket_ok:
  assumes core: "core_ok (Req_listen i fd opaque # qs) ss" and ev: "events_ok ss"
  shows "\<exists>c r' ss'. listen_socket i fd opaque r ss = Some (c, r', ss') \<and> handled c r' qs ss'"
proof -
  have q: "opens (Req_listen i fd opaque)" "request_id (Req_listen i fd opaque) = Some i" by (simp_all add: opens_def request_id_def)
  from new_fd_ok [OF core q, of fd PROTOCOL_TCP opaque False False] obtain s1 e where
    1: "new_fd i fd PROTOCOL_TCP opaque False False ss = Some (Some s1, put_slot (HASH_ID i) s1 e ss)"
      "s_id s1 = i" "s_high s1 = []" "s_low s1 = []" "s_wb_size s1 = 0" "s_dw_buffer s1 = None" "\<not> s_dw_lock s1"
      "s_protocol s1 = PROTOCOL_TCP" "s_p s1 = P_size 64" "s_sending s1 = push_bit 16 (ID_TAG16 i)" "sends i qs = 0" by auto
  have "handled (- 1) r qs (put_slot (HASH_ID i) (s1\<lparr>s_type := TYPE_PLISTEN\<rparr>) e ss)"
    by (intro handled_opened [OF core q ev]) (use 1 in \<open>auto simp: active_def\<close>)
  then show ?thesis using 1(1) by (simp add: listen_socket_def set_type_put)
qed

lemma bind_socket_ok:
  assumes core: "core_ok (Req_bind i fd opaque # qs) ss" and ev: "events_ok ss"
  shows "\<exists>c r' ss'. bind_socket w i fd opaque ss = Some (c, r', ss') \<and> handled c r' qs ss'"
proof -
  have q: "opens (Req_bind i fd opaque)" "request_id (Req_bind i fd opaque) = Some i" by (simp_all add: opens_def request_id_def)
  from new_fd_ok [OF core q, of fd PROTOCOL_TCP opaque True "w_add_fails w"] obtain s1 e where
    1: "new_fd i fd PROTOCOL_TCP opaque True (w_add_fails w) ss =
        (if (True \<and> \<not> (0 \<le> fd \<and> fd \<le> 2)) \<and> w_add_fails w
         then Some (None, put_slot (HASH_ID i) ((slot_of ss i)\<lparr>s_type := TYPE_INVALID\<rparr>) [] ss)
         else Some (Some s1, put_slot (HASH_ID i) s1 e ss))"
      "s_id s1 = i" "s_high s1 = []" "s_low s1 = []" "s_wb_size s1 = 0" "s_dw_buffer s1 = None" "\<not> s_dw_lock s1"
      "s_protocol s1 = PROTOCOL_TCP" "s_p s1 = P_size 64" "s_sending s1 = push_bit 16 (ID_TAG16 i)" "sends i qs = 0" by auto
  have "handled c r' qs (put_slot (HASH_ID i) (s1\<lparr>s_type := TYPE_BIND\<rparr>) e ss)" for c r'
    by (intro handled_opened [OF core q ev]) (use 1 in \<open>auto simp: active_def\<close>)
  then show ?thesis using 1(1) handled_failed [OF core q ev] by (auto simp: bind_socket_def set_type_put)
qed

lemma add_udp_socket_ok:
  assumes core: "core_ok (Req_udp i fd inet6 opaque # qs) ss" and ev: "events_ok ss"
  shows "\<exists>ss'. add_udp_socket w i fd inet6 opaque ss = Some ss' \<and> handled (- 1) r qs ss'"
proof -
  let ?p = "if inet6 then PROTOCOL_UDPv6 else PROTOCOL_UDP"
  have q: "opens (Req_udp i fd inet6 opaque)" "request_id (Req_udp i fd inet6 opaque) = Some i" by (simp_all add: opens_def request_id_def)
  from new_fd_ok [OF core q, of fd ?p opaque True "w_add_fails w"] obtain s1 e where
    1: "new_fd i fd ?p opaque True (w_add_fails w) ss =
        (if (True \<and> \<not> (0 \<le> fd \<and> fd \<le> 2)) \<and> w_add_fails w
         then Some (None, put_slot (HASH_ID i) ((slot_of ss i)\<lparr>s_type := TYPE_INVALID\<rparr>) [] ss)
         else Some (Some s1, put_slot (HASH_ID i) s1 e ss))"
      "s_id s1 = i" "s_high s1 = []" "s_low s1 = []" "s_wb_size s1 = 0" "s_dw_buffer s1 = None" "\<not> s_dw_lock s1"
      "s_protocol s1 = ?p" "s_p s1 = P_size 64" "s_sending s1 = push_bit 16 (ID_TAG16 i)" "sends i qs = 0" by blast
  have "handled (- 1) r qs (put_slot (HASH_ID i) (s1\<lparr>s_type := TYPE_CONNECTED, s_p := P_address (replicate UDP_ADDRESS_SIZE 0)\<rparr>) e' ss)" for e'
    by (intro handled_opened [OF core q ev]) (use 1 in \<open>auto simp: active_def is_udp_def\<close>)
  then show ?thesis using 1(1) handled_failed [OF core q ev, of "- 1" r] by (auto simp: add_udp_socket_def set_type_put)
qed

lemma open_socket_ok:
  assumes core: "core_ok (Req_open i port opaque host # qs) ss" and ev: "events_ok ss"
  shows "\<exists>c r' ss'. open_socket w i opaque ss = Some (c, r', ss') \<and> handled c r' qs ss'"
proof -
  have q: "opens (Req_open i port opaque host)" "request_id (Req_open i port opaque host) = Some i" by (simp_all add: opens_def request_id_def)
  have fail: "handled c r' qs (set_type i TYPE_INVALID (emit e ss))" for c r' e
    using handled_failed [OF core q ev] by (simp add: set_type_def)
  show ?thesis
  proof (cases "w_open w")
    case (Gai_failed msg)
    then show ?thesis using handled_failed [OF core q ev] by (simp add: open_socket_def set_type_def)
  next
    case (Gai ais err)
    show ?thesis
    proof (cases "fst (try_connect ais)")
      case None
      then show ?thesis using Gai fail by (cases "try_connect ais") (simp add: open_socket_def)
    next
      case (Some x)
      obtain fd don name e0 where t: "try_connect ais = (Some (fd, don, name), e0)"
        using Some by (cases "try_connect ais"; cases x) auto
      have core0: "core_ok (Req_open i port opaque host # qs) (emit e0 ss)" "events_ok (emit e0 ss)" using core ev by simp_all
      from new_fd_ok [OF core0(1) q, of fd PROTOCOL_TCP opaque True "w_add_fails w"] obtain s1 e where
        1: "new_fd i fd PROTOCOL_TCP opaque True (w_add_fails w) (emit e0 ss) =
            (if (True \<and> \<not> (0 \<le> fd \<and> fd \<le> 2)) \<and> w_add_fails w
             then Some (None, put_slot (HASH_ID i) ((slot_of (emit e0 ss) i)\<lparr>s_type := TYPE_INVALID\<rparr>) [] (emit e0 ss))
             else Some (Some s1, put_slot (HASH_ID i) s1 e (emit e0 ss)))"
          "s_id s1 = i" "s_high s1 = []" "s_low s1 = []" "s_wb_size s1 = 0" "s_dw_buffer s1 = None" "\<not> s_dw_lock s1"
          "s_protocol s1 = PROTOCOL_TCP" "s_p s1 = P_size 64" "s_sending s1 = push_bit 16 (ID_TAG16 i)" "sends i qs = 0" by blast
      have op: "handled c r' qs (put_slot (HASH_ID i) (s1\<lparr>s_type := ty\<rparr>) e' ss)" if "ty = TYPE_CONNECTED \<or> ty = TYPE_CONNECTING" for c r' ty e'
        by (intro handled_opened [OF core q ev]) (use 1 that in \<open>auto simp: active_def\<close>)
      show ?thesis using Gai t 1(1) op handled_failed [OF core q ev]
        by (cases don) (auto simp: open_socket_def set_type_put Let_def)
    qed
  qed
qed

lemma protocol_byte_eq [simp]: "protocol_byte p = protocol_byte p' \<longleftrightarrow> p = p'"
  by (cases p; cases p') (simp_all add: protocol_byte_def)

lemma set_udp_address_ok:
  assumes core: "core_ok qs ss" and ev: "events_ok ss" and nr: "i \<notin> reserved ss" and a: "a ! 0 \<noteq> protocol_byte PROTOCOL_TCP"
  shows "\<exists>c r' ss'. set_udp_address i a r ss = Some (c, r', ss') \<and> handled c r' qs ss'"
proof (cases "s_type (slot_of ss i) = TYPE_INVALID \<or> s_id (slot_of ss i) \<noteq> i \<or> a ! 0 \<noteq> protocol_byte (s_protocol (slot_of ss i))")
  case True
  then show ?thesis using handled_same [OF core ev] by (auto simp: set_udp_address_def Let_def)
next
  case False
  let ?s = "slot_of ss i"
  have act: "active ?s" using False nr active_slot by blast
  have ok: "sock_ok ?s" using core_slot [OF core] by blast
  have u: "s_protocol ?s \<noteq> PROTOCOL_TCP" using False a by auto
  then obtain old where o: "s_p ?s = P_address old" using ok act by (auto simp: sock_ok_def sock_base_def)
  have "handled (- 1) r qs (put_slot (HASH_ID i) (?s\<lparr>s_p := P_address x, s_udpconnecting := y\<rparr>) [] ss)" for x y
    by (intro handled_put [OF core ev act]) (use False u ok act in \<open>auto simp: same_ident_def sock_ok_def sock_base_def active_def is_udp_def\<close>)
  then show ?thesis using False o by (simp add: set_udp_address_def Let_def sock_address_def)
qed

lemma mod_pred:
  fixes n M :: nat
  assumes "n mod M \<noteq> 0" and "0 < M"
  shows "(n - 1) mod M = n mod M - 1" "(n - 1) div M = n div M"
proof -
  obtain r where r: "n mod M = Suc r" using assms(1) by (cases "n mod M") auto
  have "n = n div M * M + Suc r" using div_mult_mod_eq [of n M] r by simp
  then have n: "n - 1 = r + n div M * M" by linarith
  have "r < M" using mod_less_divisor [OF assms(2), of n] r by simp
  then show "(n - 1) mod M = n mod M - 1" "(n - 1) div M = n div M" unfolding n r by simp_all
qed

lemma sock_ok_sending [simp]: "sock_ok (s\<lparr>s_sending := x\<rparr>) = sock_ok s"
  by (simp add: sock_ok_def sock_base_def active_def is_udp_def)

lemma dec_word:
  fixes x :: u32
  assumes "x AND mask 16 \<noteq> 0"
  shows "unat ((x - 1) AND mask 16) = unat (x AND mask 16) - 1" "drop_bit 16 (x - 1) = drop_bit 16 x"
proof -
  have m: "unat x mod 2 ^ 16 \<noteq> 0"
  proof
    assume "unat x mod 2 ^ 16 = 0"
    then have "unat (x AND mask 16) = 0" by (simp only: unat_and_mask)
    then show False using assms by (simp only: unat_eq_zero)
  qed
  then have "x \<noteq> 0" by auto
  then have u: "unat (x - 1) = unat x - 1" by (simp add: unat_minus_one)
  have "unat ((x - 1) AND mask 16) = (unat x - 1) mod 2 ^ 16" by (simp only: unat_and_mask u)
  also have "\<dots> = unat x mod 2 ^ 16 - 1" by (rule mod_pred(1) [OF m]) simp
  finally show "unat ((x - 1) AND mask 16) = unat (x AND mask 16) - 1" by (simp only: unat_and_mask)
  have "unat (drop_bit 16 (x - 1)) = (unat x - 1) div 2 ^ 16" by (simp only: unat_shiftr u)
  also have "\<dots> = unat x div 2 ^ 16" by (rule mod_pred(2) [OF m]) simp
  finally have "unat (drop_bit 16 (x - 1)) = unat (drop_bit 16 x)" by (simp only: unat_shiftr)
  then show "drop_bit 16 (x - 1) = drop_bit 16 x" by (simp only: word_unat_eq_iff)
qed

lemma core_replace:
  assumes "core_ok (q # qs) ss" and "channel_ok (reserved ss) qs" and "count_ok qs s'" and "sock_ok s'"
    and "reserved (put_slot h s' e ss) = reserved ss" and "s_type s' \<noteq> TYPE_INVALID \<Longrightarrow> HASH_ID (s_id s') = h"
    and "\<And>h'. h' < MAX_SOCKET \<Longrightarrow> HASH_ID (s_id (ss_slot ss h')) = h' \<Longrightarrow> h' \<noteq> h \<Longrightarrow> count_ok qs (ss_slot ss h')"
  shows "core_ok qs (put_slot h s' e ss)"
  unfolding core_ok_def assms(5)
proof (intro conjI allI impI)
  fix h' assume "h' < MAX_SOCKET"
  then show "sock_ok (ss_slot (put_slot h s' e ss) h')" using assms(1,4) by (simp add: core_ok_def)
next
  fix h' assume "h' < MAX_SOCKET" "HASH_ID (s_id (ss_slot (put_slot h s' e ss) h')) = h'"
  then show "count_ok qs (ss_slot (put_slot h s' e ss) h')" using assms(3,7) by (cases "h' = h") auto
next
  fix h' assume "h' < MAX_SOCKET" "s_type (ss_slot (put_slot h s' e ss) h') \<noteq> TYPE_INVALID"
  then show "HASH_ID (s_id (ss_slot (put_slot h s' e ss) h')) = h'" using assms(1,6) by (cases "h' = h") (auto simp: core_ok_def)
qed (use assms(1,2) in \<open>simp_all add: core_ok_def\<close>)

lemma dec_sending_ref_ok:
  assumes core: "core_ok (q # qs) ss" and ev: "events_ok ss" and q: "counted i q"
  shows "\<exists>ss'. dec_sending_ref i ss = Some ss' \<and> core_ok qs ss' \<and> events_ok ss'"
proof -
  let ?s = "slot_of ss i"
  have rq: "request_id q = Some i" "\<not> opens q" using q by (auto simp: counted_def request_id_def opens_def split: request.splits)
  have nr: "i \<notin> reserved ss" and ch: "channel_ok (reserved ss) qs" using core rq by (auto simp: core_ok_def)
  have c: "counted j q \<longleftrightarrow> j = i" for j using q by (auto simp: counted_def split: request.splits)
  have other: "count_ok qs s" if "count_ok (q # qs) s" "s_id s \<noteq> i \<or> s_protocol s \<noteq> PROTOCOL_TCP" "\<not> (s_type s = TYPE_RESERVE \<and> s_id s = i)" for s
    using that by (auto simp: count_ok_def sends_Cons c split: if_splits)
  have cnt: "count_ok qs (ss_slot ss h)"
    if h: "h < MAX_SOCKET" "HASH_ID (s_id (ss_slot ss h)) = h" "s_id (ss_slot ss h) \<noteq> i \<or> s_protocol (ss_slot ss h) \<noteq> PROTOCOL_TCP" for h
  proof (rule other)
    show "count_ok (q # qs) (ss_slot ss h)" using core h by (simp add: core_ok_def)
    show "\<not> (s_type (ss_slot ss h) = TYPE_RESERVE \<and> s_id (ss_slot ss h) = i)" using nr h by (auto simp: reserved_def slot_of_def)
  qed (rule h)
  show ?thesis
  proof (cases "s_id ?s = i \<and> s_protocol ?s = PROTOCOL_TCP")
    case True
    have co: "count_ok (q # qs) ?s" using core_slot [OF core] True by blast
    then have e: "unat (s_sending ?s AND mask 16) = Suc (sends i qs)" "drop_bit 16 (s_sending ?s) = ID_TAG16 i"
      using True by (auto simp: count_ok_def sends_Cons c)
    then have nz: "s_sending ?s AND mask 16 \<noteq> 0" by auto
    let ?s' = "?s\<lparr>s_sending := s_sending ?s - 1\<rparr>"
    have "count_ok qs ?s'" using dec_word [OF nz] e True co by (auto simp: count_ok_def)
    moreover have "sock_ok ?s'" using core_slot(1) [OF core, of i] by simp
    moreover have "reserved (put_slot (HASH_ID i) ?s' [] ss) = reserved ss"
      by (rule reserved_put_same) (simp_all add: slot_of_def)
    moreover have "count_ok qs (ss_slot ss h)" if "h < MAX_SOCKET" "HASH_ID (s_id (ss_slot ss h)) = h" "h \<noteq> HASH_ID i" for h
      by (rule cnt [OF that(1,2)]) (use that(2,3) in auto)
    moreover have "s_type ?s' \<noteq> TYPE_INVALID \<Longrightarrow> HASH_ID (s_id ?s') = HASH_ID i" using True by simp
    ultimately have "core_ok qs (put_slot (HASH_ID i) ?s' [] ss)"
      by (intro core_replace [OF core ch])
    moreover have "events_ok (put_slot (HASH_ID i) ?s' [] ss)"
      using ev by (auto simp: events_ok_def event_ok_def left_events_def active_def slot_of_def)
    ultimately show ?thesis using True nz by (simp add: dec_sending_ref_def Let_def)
  next
    case False
    have "count_ok qs (ss_slot ss h)" if h: "h < MAX_SOCKET" "HASH_ID (s_id (ss_slot ss h)) = h" for h
      by (rule cnt [OF h]) (use False h in \<open>auto simp: slot_of_def\<close>)
    then have "core_ok qs ss" using core ch by (auto simp: core_ok_def)
    moreover have "dec_sending_ref i ss = Some ss" unfolding dec_sending_ref_def Let_def using False by (simp only: if_False)
    ultimately show ?thesis using ev by blast
  qed
qed

lemma send_cmd_ok:
  assumes core: "core_ok (q # qs) ss" and ev: "events_ok ss" and q: "counted i q" and p: "\<not> is_object p"
  shows "\<exists>c r' ss'. (do { (c, r1, ss1) \<leftarrow> send_socket ios i p hi ad r ss; ss2 \<leftarrow> dec_sending_ref i ss1; Some (c, r1, ss2) }) = Some (c, r', ss') \<and>
    handled c r' qs ss'"
proof -
  have rq: "request_id q = Some i" "\<not> opens q" using q by (auto simp: counted_def request_id_def opens_def split: request.splits)
  have nr: "i \<notin> reserved ss" by (rule core_not_reserved [OF core rq(2,1)])
  from send_socket_ok [OF core ev nr p, of ios hi ad r] obtain c r1 ss1 where
    1: "send_socket ios i p hi ad r ss = Some (c, r1, ss1)" "core_ok (q # qs) ss1" "events_ok ss1" by blast
  from dec_sending_ref_ok [OF 1(2,3) q] obtain ss2 where "dec_sending_ref i ss1 = Some ss2" "core_ok qs ss2" "events_ok ss2" by blast
  then show ?thesis using 1(1) handled_same by auto
qed

lemma ctrl_cmd_ok:
  assumes core: "core_ok (q # qs) ss" and ev: "events_ok ss"
  shows "\<exists>c r' ss'. ctrl_cmd w q r ss = Some (c, r', ss') \<and> handled c r' qs ss'"
proof -
  have rq: "request_ok q" using core by (simp add: core_ok_def)
  show ?thesis
  proof (cases q)
    case (Req_start i opaque)
    then have "core_ok qs ss" "i \<notin> reserved ss"
      using core_drop [OF core] core_not_reserved [OF core] by (simp_all add: opens_def counted_def request_id_def)
    then show ?thesis using start_socket_ok ev Req_start by (simp add: ctrl_cmd_def)
  next
    case (Req_bind i fd opaque)
    then show ?thesis using bind_socket_ok core ev by (simp add: ctrl_cmd_def)
  next
    case (Req_listen i fd opaque)
    then show ?thesis using listen_socket_ok core ev by (simp add: ctrl_cmd_def)
  next
    case (Req_close i sd opaque)
    then have "core_ok qs ss" "i \<notin> reserved ss"
      using core_drop [OF core] core_not_reserved [OF core] by (simp_all add: opens_def counted_def request_id_def)
    then show ?thesis using close_socket_ok ev Req_close by (simp add: ctrl_cmd_def)
  next
    case (Req_open i port opaque host)
    then show ?thesis using open_socket_ok core ev by (simp add: ctrl_cmd_def)
  next
    case Req_exit
    then have "core_ok qs ss" using core_drop [OF core] by (simp add: opens_def counted_def)
    then show ?thesis using handled_same [OF _ ev] Req_exit by (simp add: ctrl_cmd_def)
  next
    case (Req_send i p)
    then have "counted i q" "\<not> is_object p" using rq by (simp_all add: counted_def request_ok_def)
    from send_cmd_ok [OF core ev this] show ?thesis using Req_send by (simp add: ctrl_cmd_def)
  next
    case (Req_send_low i p)
    then have "counted i q" "\<not> is_object p" using rq by (simp_all add: counted_def request_ok_def)
    from send_cmd_ok [OF core ev this] show ?thesis using Req_send_low by (simp add: ctrl_cmd_def)
  next
    case (Req_send_udp i p a)
    then have "core_ok qs ss" "i \<notin> reserved ss" "\<not> is_object p"
      using core_drop [OF core] core_not_reserved [OF core] rq by (simp_all add: opens_def counted_def request_id_def request_ok_def)
    from send_socket_ok [OF this(1) ev this(2,3)] show ?thesis using Req_send_udp handled_same by (simp add: ctrl_cmd_def) blast
  next
    case (Req_setopt i what v)
    then have "core_ok qs ss" using core_drop [OF core] by (simp add: opens_def counted_def)
    then have "handled (- 1) r qs (setopt_socket i what v ss)" using handled_same [OF _ ev] by (simp add: setopt_socket_def Let_def)
    then show ?thesis using Req_setopt by (simp add: ctrl_cmd_def)
  next
    case (Req_udp i fd inet6 opaque)
    then show ?thesis using add_udp_socket_ok [OF _ ev, of i fd inet6 opaque qs w r] core by (auto simp: ctrl_cmd_def)
  next
    case (Req_set_udp i a)
    then have "core_ok qs ss" "i \<notin> reserved ss"
      using core_drop [OF core] core_not_reserved [OF core] by (simp_all add: opens_def counted_def request_id_def)
    moreover have "take UDP_ADDRESS_SIZE (a @ replicate UDP_ADDRESS_SIZE 0) ! 0 \<noteq> protocol_byte PROTOCOL_TCP"
      using rq Req_set_udp by (cases a) (simp_all add: request_ok_def UDP_ADDRESS_SIZE_def)
    ultimately show ?thesis using set_udp_address_ok ev Req_set_udp by (simp add: ctrl_cmd_def)
  qed
qed

end
