(* ===== verification/SocketProps.thy ===== *)
theory SocketProps
  imports SocketInv
begin

text \<open>
  The events of the poller, the calls of workers, and every run of them: the invariant of the server holds in every state,
  so that no assertion fails.
\<close>

section \<open>The handlers of events\<close>

text \<open>No read returns a gigabyte at once.\<close>

definition world_ok :: "world \<Rightarrow> bool" where
  "world_ok w \<longleftrightarrow> (\<forall>bs. w_recv w = Received bs \<longrightarrow> length bs < 2 ^ 30)"

definition sock_step :: "sock \<Rightarrow> int \<Rightarrow> sock \<Rightarrow> bool" where
  "sock_step s c s' \<longleftrightarrow> sock_ok s' \<and> same_ident s s' \<and> s_type s' \<noteq> TYPE_RESERVE \<and> (active s' \<or> c = SOCKET_CLOSE \<or> c = SOCKET_ERR)"

lemma sock_step_close: "closed_by s s' r \<Longrightarrow> c = SOCKET_CLOSE \<or> c = SOCKET_ERR \<Longrightarrow> sock_step s c s'"
  by (simp add: sock_step_def closed_by_def)

lemma adapt_size_ok:
  assumes "0 < n" and "n < 2 ^ 30" and "0 < sz"
  shows "\<exists>sz'. adapt_size n sz = Some sz' \<and> 0 < sz'"
  using assms by (auto simp: adapt_size_def int_range_def MIN_READ_BUFFER_def)

lemma sock_ok_read: "sock_ok s \<Longrightarrow> active s \<Longrightarrow> s_protocol s = PROTOCOL_TCP \<Longrightarrow> 0 < sz \<Longrightarrow>
  sock_ok ((stat_read t n s)\<lparr>s_p := P_size sz\<rparr>)"
  by (simp add: sock_ok_def sock_base_def active_def is_udp_def)

lemma sock_ok_stat_read: "sock_ok (stat_read t n s) = sock_ok s"
  by (simp add: sock_ok_def sock_base_def active_def is_udp_def)

lemma forward_message_tcp_ok:
  assumes ok: "sock_ok s" and act: "active s" and tcp: "s_protocol s = PROTOCOL_TCP" and w: "world_ok w"
  shows "\<exists>c r' s' e. forward_message_tcp t w s r = Some (c, r', s', e) \<and> sock_step s c s'"
proof -
  obtain sz where sz: "s_p s = P_size sz" "0 < sz" using ok act tcp by (auto simp: sock_ok_def sock_base_def is_udp_def)
  from closed_by_close [OF ok act] obtain s1 e1 where fc: "force_close s = Some (nomsg (s_id s) (s_opaque s), s1, e1)"
    and cb: "closed_by s s1 (nomsg (s_id s) (s_opaque s))" by blast
  have cl: "sock_step s SOCKET_CLOSE s1" "sock_step s SOCKET_ERR s1" using sock_step_close [OF cb] by simp_all
  have same: "sock_step s c s" for c using ok act by (simp add: sock_step_def active_def)
  show ?thesis
  proof (cases "w_recv w")
    case (Received bs)
    let ?bs = "take (nat sz) bs"
    show ?thesis
    proof (cases "?bs = [] \<or> s_type s = TYPE_HALFCLOSE")
      case True
      then show ?thesis using Received sz fc cl same by (auto simp: forward_message_tcp_def Let_def simp del: take_eq_Nil)
    next
      case False
      have l: "0 < int (length ?bs)" "int (length ?bs) < 2 ^ 30"
        using False w Received by (auto simp: world_ok_def simp del: length_take) (simp add: min_def)
      from adapt_size_ok [OF l sz(2)] obtain sz' where a: "adapt_size (int (length ?bs)) sz = Some sz'" "0 < sz'" by blast
      have "sock_step s SOCKET_DATA ((stat_read t (length ?bs) s)\<lparr>s_p := P_size sz'\<rparr>)"
        using sock_ok_read [OF ok act tcp a(2)] act by (simp add: sock_step_def same_ident_def active_def)
      then show ?thesis using False Received sz a(1)
        by (simp add: forward_message_tcp_def Let_def del: take_eq_Nil length_take)
    qed
  qed (use sz fc cl same in \<open>auto simp: forward_message_tcp_def\<close>)
qed

lemma forward_message_udp_ok:
  assumes ok: "sock_ok s" and act: "active s"
  shows "\<exists>c r' s' e. forward_message_udp t w s r = Some (c, r', s', e) \<and> sock_step s c s'"
proof -
  from closed_by_close [OF ok act] obtain s1 e1 where fc: "force_close s = Some (nomsg (s_id s) (s_opaque s), s1, e1)"
    and cb: "closed_by s s1 (nomsg (s_id s) (s_opaque s))" by blast
  have cl: "sock_step s SOCKET_ERR s1" using sock_step_close [OF cb] by simp
  have st: "sock_step s c (stat_read t n s)" "sock_step s c s" for c n
    using sock_ok_stat_read ok act by (simp_all add: sock_step_def active_def same_ident_def)
  show ?thesis using fc cl st by (cases "w_recvfrom w") (auto simp: forward_message_udp_def Let_def)
qed

lemma report_connect_ok:
  assumes ok: "sock_ok s" and c: "s_type s = TYPE_CONNECTING"
  shows "\<exists>c r' s' e. report_connect w s = Some (c, r', s', e) \<and> sock_step s c s'"
proof -
  have act: "active s" using c by (simp add: active_def)
  from closed_by_close [OF ok act] obtain s1 e1 where fc: "force_close s = Some (nomsg (s_id s) (s_opaque s), s1, e1)"
    and cb: "closed_by s s1 (nomsg (s_id s) (s_opaque s))" by blast
  have "sock_step s SOCKET_ERR s1" using sock_step_close [OF cb] by simp
  moreover have "sock_step s SOCKET_OPEN (s\<lparr>s_type := TYPE_CONNECTED\<rparr>)"
    using ok c by (auto simp: sock_step_def sock_ok_def sock_base_def active_def same_ident_def is_udp_def)
  ultimately show ?thesis using fc by (cases "w_connected w") (auto simp: report_connect_def)
qed

lemma send_buffer_step:
  assumes ok: "sock_ok s" and act: "active s"
  shows "\<exists>c r' s' e. send_buffer soi t ios s r = Some (c, r', s', e) \<and> sock_step s c s'"
  using send_buffer_spec [OF ok act, of soi t ios r] act by (fastforce simp: sock_step_def closed_by_def kept_def active_def)

lemma force_close_step:
  assumes ok: "sock_ok s" and act: "active s"
  shows "\<exists>s' e. force_close s = Some (nomsg (s_id s) (s_opaque s), s', e) \<and> sock_step s SOCKET_CLOSE s' \<and> sock_step s SOCKET_ERR s'"
  using closed_by_close [OF ok act] sock_step_close by blast

section \<open>Reserving an id\<close>

lemma reserve_loop_spec:
  "0 \<le> ss_alloc_id ss \<Longrightarrow> ss_alloc_id ss + int n < 2 ^ 31 \<Longrightarrow> reserve_loop n ss = (i, ss') \<Longrightarrow>
   i = - 1 \<and> ss' = ss\<lparr>ss_alloc_id := ss_alloc_id ss + int n\<rparr> \<and>
     (\<forall>j. 0 < j \<and> j \<le> int n \<longrightarrow> s_type (slot_of ss (ss_alloc_id ss + j)) \<noteq> TYPE_INVALID) \<or>
   ss_alloc_id ss < i \<and> i \<le> ss_alloc_id ss + int n \<and> s_type (slot_of ss i) = TYPE_INVALID \<and>
     ss' = put_slot (HASH_ID i)
       ((slot_of ss i)\<lparr>s_type := TYPE_RESERVE, s_id := i, s_protocol := PROTOCOL_UNKNOWN, s_udpconnecting := 0, s_fd := - 1\<rparr>) []
       (ss\<lparr>ss_alloc_id := i\<rparr>)"
proof (induction n arbitrary: ss)
  case 0
  then show ?case by auto
next
  case (Suc n)
  have nx: "next_id (ss_alloc_id ss) = (ss_alloc_id ss + 1, ss_alloc_id ss + 1)"
    using Suc.prems(1,2) by (simp add: next_id_def atom_inc_def Let_def)
  let ?ss = "ss\<lparr>ss_alloc_id := ss_alloc_id ss + 1\<rparr>"
  have so: "slot_of ?ss j = slot_of ss j" for j by (simp add: slot_of_def)
  show ?case
  proof (cases "s_type (slot_of ss (ss_alloc_id ss + 1)) = TYPE_INVALID")
    case True
    then show ?thesis using Suc.prems nx so by (auto simp: Let_def)
  next
    case False
    then have r: "reserve_loop n ?ss = (i, ss')" using Suc.prems(3) nx so by (simp add: Let_def)
    have IH: "i = - 1 \<and> ss' = ?ss\<lparr>ss_alloc_id := ss_alloc_id ?ss + int n\<rparr> \<and>
       (\<forall>j. 0 < j \<and> j \<le> int n \<longrightarrow> s_type (slot_of ?ss (ss_alloc_id ?ss + j)) \<noteq> TYPE_INVALID) \<or>
     ss_alloc_id ?ss < i \<and> i \<le> ss_alloc_id ?ss + int n \<and> s_type (slot_of ?ss i) = TYPE_INVALID \<and>
       ss' = put_slot (HASH_ID i)
         ((slot_of ?ss i)\<lparr>s_type := TYPE_RESERVE, s_id := i, s_protocol := PROTOCOL_UNKNOWN, s_udpconnecting := 0, s_fd := - 1\<rparr>) []
         (?ss\<lparr>ss_alloc_id := i\<rparr>)"
      by (rule Suc.IH [OF _ _ r]) (use Suc.prems(1,2) in simp_all)
    then show ?thesis
    proof (elim disjE conjE)
      assume a: "i = - 1" "ss' = ?ss\<lparr>ss_alloc_id := ss_alloc_id ?ss + int n\<rparr>"
        "\<forall>j. 0 < j \<and> j \<le> int n \<longrightarrow> s_type (slot_of ?ss (ss_alloc_id ?ss + j)) \<noteq> TYPE_INVALID"
      have "s_type (slot_of ss (ss_alloc_id ss + j)) \<noteq> TYPE_INVALID" if j: "0 < j" "j \<le> int (Suc n)" for j
      proof (cases "j = 1")
        case False
        then have "0 < j - 1" "j - 1 \<le> int n" using j by simp_all
        then show ?thesis using a(3) [rule_format, of "j - 1"] so by (simp add: algebra_simps)
      qed (use \<open>s_type (slot_of ss (ss_alloc_id ss + 1)) \<noteq> TYPE_INVALID\<close> in simp)
      then show ?thesis using a(1,2) by simp
    qed (use so in auto)
  qed
qed

lemma reserve_id_spec:
  assumes "0 \<le> ss_alloc_id ss" and "ss_alloc_id ss + 65536 < 2 ^ 31" and "reserve_id ss = (i, ss')"
  shows "i = - 1 \<and> ss' = ss\<lparr>ss_alloc_id := ss_alloc_id ss + 65536\<rparr> \<and> (\<forall>h < MAX_SOCKET. s_type (ss_slot ss h) \<noteq> TYPE_INVALID) \<or>
   ss_alloc_id ss < i \<and> i \<le> ss_alloc_id ss + 65536 \<and> s_type (slot_of ss i) = TYPE_INVALID \<and>
     ss' = put_slot (HASH_ID i)
       ((slot_of ss i)\<lparr>s_type := TYPE_RESERVE, s_id := i, s_protocol := PROTOCOL_UNKNOWN, s_udpconnecting := 0, s_fd := - 1\<rparr>) []
       (ss\<lparr>ss_alloc_id := i\<rparr>)"
proof -
  have all: "s_type (ss_slot ss h) \<noteq> TYPE_INVALID"
    if a: "\<forall>j. 0 < j \<and> j \<le> 65536 \<longrightarrow> s_type (slot_of ss (ss_alloc_id ss + j)) \<noteq> TYPE_INVALID" and h: "h < MAX_SOCKET" for h
  proof -
    define j where "j = (int h - ss_alloc_id ss - 1) mod 65536 + 1"
    have j: "0 < j" "j \<le> 65536" using pos_mod_bound [of 65536 "int h - ss_alloc_id ss - 1"] pos_mod_sign [of 65536 "int h - ss_alloc_id ss - 1"]
      by (simp_all add: j_def)
    have "(ss_alloc_id ss + j) mod 65536 = int h mod 65536"
    proof -
      have "ss_alloc_id ss + j = (ss_alloc_id ss + 1) + (int h - ss_alloc_id ss - 1) mod 65536" by (simp add: j_def)
      then have "(ss_alloc_id ss + j) mod 65536 = ((ss_alloc_id ss + 1) + (int h - ss_alloc_id ss - 1)) mod 65536"
        by (simp only: mod_add_right_eq)
      then show ?thesis by simp
    qed
    then have "HASH_ID (ss_alloc_id ss + j) = h" using h by (simp add: HASH_ID_def MAX_SOCKET_def)
    then show ?thesis using a j by (auto simp: slot_of_def)
  qed
  have "int MAX_SOCKET = 65536" by (simp add: MAX_SOCKET_def)
  then show ?thesis using reserve_loop_spec [of ss MAX_SOCKET i ss'] assms all unfolding reserve_id_def by auto
qed

definition reserved_sock :: "sock \<Rightarrow> int \<Rightarrow> sock" where
  "reserved_sock s i = s\<lparr>s_type := TYPE_RESERVE, s_id := i, s_protocol := PROTOCOL_UNKNOWN, s_udpconnecting := 0, s_fd := - 1\<rparr>"

lemma sends_fresh: "\<forall>q \<in> set qs. \<forall>j. request_id q = Some j \<longrightarrow> j \<le> a \<Longrightarrow> a < i \<Longrightarrow> sends i qs = 0"
proof (induction qs)
  case (Cons q qs)
  then have "\<not> counted i q" by (auto simp: counted_def request_id_def split: request.splits)
  then show ?case using Cons by (simp add: sends_Cons)
qed (simp add: sends_def)

lemma sends_append [simp]: "sends i (qs @ qs') = sends i qs + sends i qs'"
  by (simp add: sends_def)

lemma channel_append: "channel_ok R qs \<Longrightarrow> \<not> opens q \<Longrightarrow> channel_ok R (qs @ [q])"
  by (induction qs arbitrary: R) (auto split: option.splits)

lemma channel_append_open:
  "channel_ok R qs \<Longrightarrow> opens q \<Longrightarrow> request_id q = Some i \<Longrightarrow> i \<notin> R \<Longrightarrow> \<forall>p \<in> set qs. request_id p \<noteq> Some i \<Longrightarrow>
   channel_ok (insert i R) (qs @ [q])"
proof (induction qs arbitrary: R)
  case (Cons p qs)
  show ?case
  proof (cases "request_id p")
    case None
    then show ?thesis using Cons by auto
  next
    case (Some j)
    then have j: "j \<noteq> i" using Cons.prems(5) by auto
    then have "insert i R - {j} = insert i (R - {j})" by auto
    then show ?thesis using Cons Some j by (auto split: if_splits)
  qed
qed auto

lemma core_alloc: "core_ok qs ss \<Longrightarrow> ss_alloc_id ss \<le> a \<Longrightarrow> a < 2 ^ 31 \<Longrightarrow> core_ok qs (ss\<lparr>ss_alloc_id := a\<rparr>)"
  by (auto simp: core_ok_def reserved_def slot_of_def)

lemma events_alloc [simp]: "events_ok (ss\<lparr>ss_alloc_id := a\<rparr>) = events_ok ss" "events_ok (ss\<lparr>ss_cmds := qs\<rparr>) = events_ok ss"
  by (simp_all add: events_ok_def event_ok_def left_events_def)

lemma core_cmds [simp]: "core_ok qs (ss\<lparr>ss_cmds := qs'\<rparr>) = core_ok qs ss"
  by (simp add: core_ok_def reserved_def slot_of_def)

text \<open>A free slot becomes another one that is not reserved.\<close>

lemma core_fill:
  assumes core: "core_ok qs ss" and f: "s_type (ss_slot ss h) = TYPE_INVALID" and "h < MAX_SOCKET"
    and "sock_ok s'" "count_ok qs s'" "s_type s' \<noteq> TYPE_RESERVE" "HASH_ID (s_id s') = h"
  shows "core_ok qs (put_slot h s' e ss)"
proof -
  have "reserved (put_slot h s' e ss) = reserved ss" by (rule reserved_put_same) (use f assms(6) in auto)
  then show ?thesis using core assms(4,5,7) by (auto simp: core_ok_def)
qed

text \<open>The request that opens a reserved id follows at once.\<close>

lemma core_reserve:
  assumes core: "core_ok qs ss" and f: "s_type (slot_of ss i) = TYPE_INVALID" and i: "ss_alloc_id ss < i" "i < 2 ^ 31"
    and q: "opens q" "request_id q = Some i" "request_ok q"
  shows "core_ok (qs @ [q]) (put_slot (HASH_ID i) (reserved_sock (slot_of ss i) i) [] (ss\<lparr>ss_alloc_id := i\<rparr>))"
proof -
  let ?s = "reserved_sock (slot_of ss i) i"
  let ?ss = "put_slot (HASH_ID i) ?s [] (ss\<lparr>ss_alloc_id := i\<rparr>)"
  have ids: "\<forall>q \<in> set qs. \<forall>j. request_id q = Some j \<longrightarrow> j \<le> ss_alloc_id ss" using core by (simp add: core_ok_def)
  have nc: "\<not> counted j q" for j using q(1) by (auto simp: opens_def counted_def split: request.splits)
  then have sn: "sends j (qs @ [q]) = sends j qs" for j by (simp add: sends_def)
  have sz: "sends i qs = 0" by (rule sends_fresh [OF ids i(1)])
  have ok: "sock_ok (slot_of ss i)" using core_slot [OF core] by blast
  have "reserved ?ss = insert i (reserved ss)"
    using f by (auto simp: reserved_def slot_of_def reserved_sock_def)
  moreover have "i \<notin> reserved ss" using f by (simp add: reserved_def)
  moreover have "\<forall>p \<in> set qs. request_id p \<noteq> Some i" using ids i(1) by fastforce
  ultimately have ch: "channel_ok (reserved ?ss) (qs @ [q])"
    using core q channel_append_open by (simp add: core_ok_def)
  have ce: "count_ok (qs @ [q]) = count_ok qs" by (simp add: count_ok_def fun_eq_iff nc sends_def)
  have "sock_ok ?s" using ok f by (simp add: sock_ok_def active_def reserved_sock_def)
  moreover have "count_ok qs ?s" using sz by (simp add: count_ok_def reserved_sock_def)
  ultimately have sl: "\<forall>h < MAX_SOCKET. sock_ok (ss_slot ?ss h) \<and> (HASH_ID (s_id (ss_slot ?ss h)) = h \<longrightarrow> count_ok qs (ss_slot ?ss h)) \<and>
        (s_type (ss_slot ?ss h) \<noteq> TYPE_INVALID \<longrightarrow> HASH_ID (s_id (ss_slot ?ss h)) = h)"
    using core by (auto simp: core_ok_def reserved_sock_def)
  have "\<forall>p \<in> set (qs @ [q]). request_ok p \<and> (\<forall>j. request_id p = Some j \<longrightarrow> j \<le> i)"
    using core q ids i(1) by (force simp: core_ok_def)
  then show ?thesis using sl ch core i unfolding core_ok_def ce by (simp add: core_ok_def)
qed

lemma events_left_put:
  assumes "events_ok ss" and "h \<notin> set (event_slots (left_events ss))"
  shows "events_ok (put_slot h s' e ss)"
proof -
  have "e_s ev \<noteq> Some h" if "ev \<in> set (left_events ss)" for ev
    using assms(2) that by (force simp: event_slots_def map_filter_def)
  then show ?thesis using assms(1) by (auto simp: events_ok_def event_ok_def left_events_def)
qed

lemma report_accept_ok:
  assumes core: "core_ok qs ss" and ev: "events_ok ss" and a: "ss_alloc_id ss + 65536 < 2 ^ 31"
    and h: "h < MAX_SOCKET" "s_type (ss_slot ss h) = TYPE_LISTEN" "h \<notin> set (event_slots (left_events ss))"
  shows "\<exists>c r' ss'. report_accept w h r ss = Some (c, r', ss') \<and> core_ok qs ss' \<and> events_ok ss' \<and>
    ss_cmds ss' = ss_cmds ss"
proof (cases "w_accept w")
  case (Accepted fd name)
  have al: "0 \<le> ss_alloc_id ss" using core by (simp add: core_ok_def)
  obtain i ss1 where r: "reserve_id ss = (i, ss1)" by fastforce
  from reserve_id_spec [OF al a r] show ?thesis
  proof (elim disjE conjE)
    assume f: "i = - 1" "ss1 = ss\<lparr>ss_alloc_id := ss_alloc_id ss + 65536\<rparr>"
    have "core_ok qs ss1" unfolding f by (rule core_alloc [OF core]) (use a in simp_all)
    moreover have "events_ok ss1" using ev f by simp
    moreover have "report_accept w h r ss = Some (0, r, emit [Close_fd fd] ss1)"
      using Accepted r f(1) by (simp add: report_accept_def Let_def)
    ultimately show ?thesis using f(2) by simp
  next
    assume i: "ss_alloc_id ss < i" "i \<le> ss_alloc_id ss + 65536" "s_type (slot_of ss i) = TYPE_INVALID"
      and ss1: "ss1 = put_slot (HASH_ID i)
       ((slot_of ss i)\<lparr>s_type := TYPE_RESERVE, s_id := i, s_protocol := PROTOCOL_UNKNOWN, s_udpconnecting := 0, s_fd := - 1\<rparr>) []
       (ss\<lparr>ss_alloc_id := i\<rparr>)"
    have hi: "h \<noteq> HASH_ID i" using h(2) i(3) by (auto simp: slot_of_def)
    have ids: "\<forall>q \<in> set qs. \<forall>j. request_id q = Some j \<longrightarrow> j \<le> ss_alloc_id ss" using core by (simp add: core_ok_def)
    have sz: "sends i qs = 0" by (rule sends_fresh [OF ids i(1)])
    have free: "s_high (slot_of ss i) = []" "s_low (slot_of ss i) = []" "\<not> s_dw_lock (slot_of ss i)"
      using core_slot(1) [OF core, of i] i(3) by (simp_all add: sock_ok_def active_def)
    let ?A = "ss\<lparr>ss_alloc_id := i\<rparr>"
    let ?st = "stat_read (ss_time ss) 1 (ss_slot ss h)"
    let ?s2 = "(slot_of ss i)\<lparr>s_udpconnecting := 0, s_id := i, s_fd := fd, s_sending := push_bit 16 (ID_TAG16 i),
      s_protocol := PROTOCOL_TCP, s_p := P_size MIN_READ_BUFFER, s_opaque := s_opaque (ss_slot ss h), s_wb_size := 0,
      s_warn_size := 0, s_dw_buffer := None, s_stat := \<lparr>st_rtime = 0, st_wtime = 0, st_read = 0, st_write = 0\<rparr>,
      s_type := TYPE_PACCEPT\<rparr>"
    let ?B = "put_slot h ?st [] ?A"
    let ?m = "\<lparr>sm_id = s_id (ss_slot ss h), sm_opaque = s_opaque (ss_slot ss h), sm_ud = i,
                             sm_data = (case name of None \<Rightarrow> M_null | Some n \<Rightarrow> M_text n)\<rparr>"
    have eq: "report_accept w h r ss = Some (1, ?m, put_slot (HASH_ID i) ?s2 [] ?B)"
      using Accepted r i(1) al ss1 free hi
      by (simp add: report_accept_def Let_def new_fd_def set_type_def put_slot_def fun_upd_twist slot_of_def)
    have A: "core_ok qs ?A" by (rule core_alloc [OF core]) (use i a in simp_all)
    have "core_ok qs ?B"
      by (rule core_put [OF A]) (use h core in \<open>auto simp: active_def same_ident_def core_ok_def sock_ok_stat_read\<close>)
    then have "core_ok qs (put_slot (HASH_ID i) ?s2 [] ?B)"
      by (rule core_fill) (use i(3) hi free sz push_tag [of i] in
          \<open>auto simp: slot_of_def sock_ok_def sock_base_def active_def count_ok_def is_udp_def MIN_READ_BUFFER_def\<close>)
    moreover have "events_ok ?B" using events_left_put [of ?A h ?st "[]"] ev h(3) by (simp add: left_events_def)
    then have "events_ok (put_slot (HASH_ID i) ?s2 [] ?B)"
      by (rule events_put_inactive) (use i(3) hi in \<open>auto simp: active_def slot_of_def\<close>)
    ultimately show ?thesis using eq by simp
  qed
qed (use core ev in \<open>simp_all add: report_accept_def Let_def\<close>)

text \<open>An event of a live socket, taken from the list.\<close>

lemma sock_step_server:
  assumes core: "core_ok qs ss" and ev: "events_ok ss" and h: "h < MAX_SOCKET" "active (ss_slot ss h)" "h \<notin> set (event_slots (left_events ss))"
    and st: "sock_step (ss_slot ss h) c s'"
  shows "core_ok qs (put_slot h s' e ss) \<and> events_ok (put_slot h s' e ss)"
  using core_put [OF core h(2), of s' e] events_left_put [OF ev h(3), of s' e] st h(1) by (simp add: sock_step_def)

text \<open>Putting the event back.\<close>

lemma events_back:
  assumes ev: "events_ok ss" and h: "h < MAX_SOCKET" "active (ss_slot ss h)" "h \<notin> set (event_slots (left_events ss))"
    and e: "e_s e = Some h" and i: "0 < ss_event_index ss"
  shows "events_ok (ss\<lparr>ss_ev := (ss_ev ss)[ss_event_index ss - 1 := e], ss_event_index := ss_event_index ss - 1\<rparr>)"
proof -
  have l: "ss_event_index ss \<le> length (ss_ev ss)" using ev by (simp add: events_ok_def)
  have "drop (ss_event_index ss - 1) ((ss_ev ss)[ss_event_index ss - 1 := e]) = e # drop (ss_event_index ss) (ss_ev ss)"
    using i l by (simp add: Cons_nth_drop_Suc [symmetric] drop_update_cancel)
  then show ?thesis using ev h e l
    by (auto simp: events_ok_def left_events_def event_ok_def event_slots_def map_filter_simps)
qed

section \<open>Requests stay in the channel\<close>

lemma set_type_cmds [simp]: "ss_cmds (set_type i t ss) = ss_cmds ss"
  by (simp add: set_type_def)

lemma new_fd_cmds: "new_fd i fd p opaque add fails ss = Some (s, ss') \<Longrightarrow> ss_cmds ss' = ss_cmds ss"
  by (auto simp: new_fd_def Let_def split: if_splits)

lemma ctrl_cmd_cmds: "ctrl_cmd w q r ss = Some (c, r', ss') \<Longrightarrow> ss_cmds ss' = ss_cmds ss"
proof (cases q)
  case (Req_start i opaque)
  assume "ctrl_cmd w q r ss = Some (c, r', ss')"
  then show ?thesis using Req_start by (auto simp: ctrl_cmd_def start_socket_def Let_def split: if_splits bind_splits)
next
  case (Req_bind i fd opaque)
  assume "ctrl_cmd w q r ss = Some (c, r', ss')"
  then show ?thesis using Req_bind by (auto simp: ctrl_cmd_def bind_socket_def dest!: new_fd_cmds split: bind_splits option.splits)
next
  case (Req_listen i fd opaque)
  assume "ctrl_cmd w q r ss = Some (c, r', ss')"
  then show ?thesis using Req_listen by (auto simp: ctrl_cmd_def listen_socket_def dest!: new_fd_cmds split: bind_splits option.splits)
next
  case (Req_close i sd opaque)
  assume "ctrl_cmd w q r ss = Some (c, r', ss')"
  then show ?thesis using Req_close
    by (auto simp: ctrl_cmd_def close_socket_def Let_def split: if_splits bind_splits)
next
  case (Req_open i port opaque host)
  assume "ctrl_cmd w q r ss = Some (c, r', ss')"
  then show ?thesis using Req_open
    by (auto simp: ctrl_cmd_def open_socket_def Let_def dest!: new_fd_cmds split: if_splits bind_splits option.splits open_result.splits prod.splits)
next
  case (Req_udp i fd inet6 opaque)
  assume "ctrl_cmd w q r ss = Some (c, r', ss')"
  then show ?thesis using Req_udp
    by (auto simp: ctrl_cmd_def add_udp_socket_def dest!: new_fd_cmds split: bind_splits option.splits)
next
  case (Req_send i p)
  assume "ctrl_cmd w q r ss = Some (c, r', ss')"
  then show ?thesis using Req_send
    by (auto simp: ctrl_cmd_def send_socket_def dec_sending_ref_def Let_def split: if_splits bind_splits prod.splits)
next
  case (Req_send_low i p)
  assume "ctrl_cmd w q r ss = Some (c, r', ss')"
  then show ?thesis using Req_send_low
    by (auto simp: ctrl_cmd_def send_socket_def dec_sending_ref_def Let_def split: if_splits bind_splits prod.splits)
next
  case (Req_send_udp i p a)
  assume "ctrl_cmd w q r ss = Some (c, r', ss')"
  then show ?thesis using Req_send_udp
    by (auto simp: ctrl_cmd_def send_socket_def Let_def split: if_splits bind_splits prod.splits)
next
  case (Req_set_udp i a)
  assume "ctrl_cmd w q r ss = Some (c, r', ss')"
  then show ?thesis using Req_set_udp
    by (auto simp: ctrl_cmd_def set_udp_address_def Let_def split: if_splits bind_splits)
qed (auto simp: ctrl_cmd_def setopt_socket_def Let_def)

section \<open>A round of the socket thread\<close>

text \<open>The poller reports sockets that were added to it, each once.\<close>

definition wait_ok :: "world \<Rightarrow> server \<Rightarrow> bool" where
  "wait_ok w ss \<longleftrightarrow> (\<forall>es. w_wait w = Wait_events es \<longrightarrow> (\<forall>e \<in> set es. event_ok ss e) \<and> distinct (event_slots es))"

lemma event_index_back:
  assumes ev: "events_ok ss" and h: "h < MAX_SOCKET" "active (ss_slot ss h)" "h \<notin> set (event_slots (left_events ss))"
    and e: "e_s (ss_ev ss ! (ss_event_index ss - 1)) = Some h" and i: "0 < ss_event_index ss"
  shows "events_ok (ss\<lparr>ss_event_index := ss_event_index ss - 1\<rparr>)"
proof -
  have "ss\<lparr>ss_ev := (ss_ev ss)[ss_event_index ss - 1 := ss_ev ss ! (ss_event_index ss - 1)], ss_event_index := ss_event_index ss - 1\<rparr>
      = ss\<lparr>ss_event_index := ss_event_index ss - 1\<rparr>" by simp
  then show ?thesis using events_back [OF ev h e i] by simp
qed

lemma core_events [simp]: "core_ok qs (ss\<lparr>ss_event_index := i\<rparr>) = core_ok qs ss" "core_ok qs (ss\<lparr>ss_ev := es\<rparr>) = core_ok qs ss"
  "core_ok qs (ss\<lparr>ss_checkctrl := b\<rparr>) = core_ok qs ss" "events_ok (ss\<lparr>ss_checkctrl := b\<rparr>) = events_ok ss"
  by (simp_all add: core_ok_def reserved_def slot_of_def events_ok_def event_ok_def left_events_def)

lemma socket_event_ok:
  assumes core: "core_ok qs ss" and ev: "events_ok ss" and w: "world_ok w"
    and h: "h < MAX_SOCKET" "active (ss_slot ss h)" "h \<notin> set (event_slots (left_events ss))"
    and e: "ss_ev ss ! (ss_event_index ss - 1) = e" "e_s e = Some h" and i: "0 < ss_event_index ss"
  shows "\<exists>c r' ss'. socket_event w e h r ss = Some (c, r', ss') \<and> core_ok qs ss' \<and> events_ok ss' \<and> ss_cmds ss' = ss_cmds ss"
proof -
  let ?s = "ss_slot ss h"
  have ok: "sock_ok ?s" using core h(1) by (simp add: core_ok_def)
  have put: "core_ok qs (put_slot h s' ef ss) \<and> events_ok (put_slot h s' ef ss)" if "sock_step ?s c s'" for c s' ef
    by (rule sock_step_server [OF core ev h that])
  have keep: "c \<noteq> SOCKET_CLOSE \<Longrightarrow> c \<noteq> SOCKET_ERR \<Longrightarrow> sock_step ?s c s' \<Longrightarrow> active s'" for c s' by (simp add: sock_step_def)
  have bk: "events_ok ((put_slot h s' ef ss)\<lparr>ss_ev := (ss_ev ss)[ss_event_index ss - 1 := e'], ss_event_index := ss_event_index ss - 1\<rparr>)"
    if "sock_step ?s c s'" "c \<noteq> SOCKET_CLOSE" "c \<noteq> SOCKET_ERR" "e_s e' = Some h" for c s' ef e'
    using events_back [of "put_slot h s' ef ss" h e'] put [OF that(1)] keep [OF that(2,3,1)] h that(4) i by (simp add: left_events_def)
  have bk0: "events_ok ((put_slot h s' ef ss)\<lparr>ss_event_index := ss_event_index ss - 1\<rparr>)"
    if "sock_step ?s c s'" "c \<noteq> SOCKET_CLOSE" "c \<noteq> SOCKET_ERR" for c s' ef
    using event_index_back [of "put_slot h s' ef ss" h] put [OF that(1)] keep [OF that(2,3,1)] h e i by (simp add: left_events_def)
  show ?thesis
  proof (cases "e_read e")
    case True
    show ?thesis
    proof (cases "s_protocol ?s = PROTOCOL_TCP")
      case tcp: True
      from forward_message_tcp_ok [OF ok h(2) tcp w] obtain c r' s' ef
        where "forward_message_tcp (ss_time ss) w ?s r = Some (c, r', s', ef)" "sock_step ?s c s'" by blast
      then show ?thesis using True tcp put bk e by (simp add: socket_event_def Let_def)
    next
      case False
      from forward_message_udp_ok [OF ok h(2)] obtain c r' s' ef
        where "forward_message_udp (ss_time ss) w ?s r = Some (c, r', s', ef)" "sock_step ?s c s'" by blast
      then show ?thesis using True False put bk bk0 e by (simp add: socket_event_def Let_def socket_results)
    qed
  next
    case nr: False
    show ?thesis
    proof (cases "e_write e")
      case True
      from send_buffer_step [OF ok h(2)] obtain c r' s' ef
        where "send_buffer (ss_soi ss) (ss_time ss) (w_ios w) ?s r = Some (c, r', s', ef)" "sock_step ?s c s'" by blast
      then show ?thesis using nr True put by (simp add: socket_event_def Let_def)
    next
      case False
      from force_close_step [OF ok h(2)] obtain s' ef where f: "force_close ?s = Some (nomsg (s_id ?s) (s_opaque ?s), s', ef)"
        "sock_step ?s SOCKET_CLOSE s'" by blast
      then show ?thesis using nr False put [OF f(2)] core ev by (simp add: socket_event_def Let_def)
    qed
  qed
qed

lemma handle_event_ok:
  assumes core: "core_ok qs ss" and ev: "events_ok ss" and w: "world_ok w" and a: "ss_alloc_id ss + 65536 < 2 ^ 31"
    and h: "h < MAX_SOCKET" "active (ss_slot ss h)" "h \<notin> set (event_slots (left_events ss))"
    and e: "ss_ev ss ! (ss_event_index ss - 1) = e" "e_s e = Some h" and i: "0 < ss_event_index ss"
  shows "\<exists>c r' ss'. handle_event w e h r ss = Some (c, r', ss') \<and> core_ok qs ss' \<and> events_ok ss' \<and> ss_cmds ss' = ss_cmds ss"
proof -
  have ok: "sock_ok (ss_slot ss h)" using core h(1) by (simp add: core_ok_def)
  consider "s_type (ss_slot ss h) = TYPE_CONNECTING" | "s_type (ss_slot ss h) = TYPE_LISTEN"
    | "s_type (ss_slot ss h) \<noteq> TYPE_CONNECTING" "s_type (ss_slot ss h) \<noteq> TYPE_LISTEN" by blast
  then show ?thesis
  proof cases
    case 1
    from report_connect_ok [OF ok 1, of w] obtain c r' s' ef
      where "report_connect w (ss_slot ss h) = Some (c, r', s', ef)" "sock_step (ss_slot ss h) c s'" by blast
    then show ?thesis using 1 sock_step_server [OF core ev h] by (simp add: handle_event_def Let_def)
  next
    case 2
    from report_accept_ok [OF core ev a h(1) 2 h(3), of w r] obtain c r' ss'
      where "report_accept w h r ss = Some (c, r', ss')" "core_ok qs ss'" "events_ok ss'" "ss_cmds ss' = ss_cmds ss" by blast
    then show ?thesis using 2 by (simp add: handle_event_def Let_def)
  next
    case 3
    then show ?thesis using socket_event_ok [OF core ev w h e i, of r] h(2) by (simp add: handle_event_def Let_def active_def)
  qed
qed

lemma poll_event_ok:
  assumes sv: "server_ok ss" and w: "world_ok w" and a: "ss_alloc_id ss + 65536 < 2 ^ 31" and l: "ss_event_index ss < length (ss_ev ss)"
  shows "\<exists>c r' mo' ss'. poll_event w r mo ss = Some (c, r', mo', ss') \<and> server_ok ss'"
proof -
  let ?e = "ss_ev ss ! ss_event_index ss"
  let ?ss = "ss\<lparr>ss_event_index := ss_event_index ss + 1\<rparr>"
  have left: "left_events ss = ?e # left_events ?ss" using l by (simp add: left_events_def Cons_nth_drop_Suc)
  have ev: "events_ok ?ss" using sv l left
    by (auto simp: server_ok_def events_ok_def event_ok_def event_slots_def map_filter_simps split: option.splits)
  have core: "core_ok (ss_cmds ss) ?ss" using sv by (simp add: server_ok_def)
  show ?thesis
  proof (cases "e_s ?e")
    case None
    then show ?thesis using l ev core by (simp add: poll_event_def server_ok_def Let_def)
  next
    case (Some h)
    have h: "h < MAX_SOCKET" "active (ss_slot ?ss h)" "h \<notin> set (event_slots (left_events ?ss))"
      using sv left Some by (auto simp: server_ok_def events_ok_def event_ok_def event_slots_def map_filter_simps)
    have e: "ss_ev ?ss ! (ss_event_index ?ss - 1) = ?e" "0 < ss_event_index ?ss" by simp_all
    from handle_event_ok [OF core ev w _ h e(1) Some e(2), of r] a obtain c r' ss'
      where "handle_event w ?e h r ?ss = Some (c, r', ss')" "core_ok (ss_cmds ss) ss'" "events_ok ss'" "ss_cmds ss' = ss_cmds ss" by auto
    then show ?thesis using Some l by (simp add: poll_event_def server_ok_def Let_def)
  qed
qed

lemma poll_round_ok:
  assumes sv: "server_ok ss" and w: "world_ok w" "wait_ok w ss" and a: "ss_alloc_id ss + 65536 < 2 ^ 31"
  shows "\<exists>c r' mo' ss'. poll_round w r mo ss = Some (c, r', mo', ss') \<and> server_ok ss'"
proof (cases "ss_checkctrl ss \<and> ss_cmds ss \<noteq> []")
  case True
  then obtain q qs where q: "ss_cmds ss = q # qs" by (cases "ss_cmds ss") auto
  let ?ss = "ss\<lparr>ss_cmds := qs\<rparr>"
  have "core_ok (q # qs) ?ss" "events_ok ?ss" using sv q by (simp_all add: server_ok_def)
  from ctrl_cmd_ok [OF this, of w r] obtain c r' ss' where c: "ctrl_cmd w q r ?ss = Some (c, r', ss')" "handled c r' qs ss'" by blast
  have "ss_cmds ss' = qs" using ctrl_cmd_cmds [OF c(1)] by simp
  then have "server_ok (if c = - 1 then ss' else clear_closed_event (sm_id r') c ss')"
    using c(2) clear_closed_event_ok [of "sm_id r'" ss' c]
    by (auto simp: handled_def server_ok_def socket_results clear_closed_event_def split: if_splits)
  then show ?thesis using True q c(1) by (simp add: poll_round_def)
next
  case False
  let ?ss = "ss\<lparr>ss_checkctrl := False\<rparr>"
  have sv1: "server_ok ?ss" using sv by (simp add: server_ok_def)
  have le: "ss_event_index ss \<le> length (ss_ev ss)" using sv by (simp add: server_ok_def events_ok_def)
  show ?thesis
  proof (cases "ss_event_index ss = length (ss_ev ss)")
    case nx: False
    then show ?thesis using poll_event_ok [OF sv1 w(1), of r mo] a le False by (auto simp: poll_round_def Let_def)
  next
    case ex: True
    obtain some ss2 where wt: "wait_events w ?ss = (some, ss2)" by fastforce
    have "server_ok ss2 \<and> ss_alloc_id ss2 = ss_alloc_id ss \<and> (some \<longrightarrow> ss_event_index ss2 < length (ss_ev ss2))"
      using wt sv w(2) by (auto simp: wait_events_def server_ok_def events_ok_def left_events_def wait_ok_def event_ok_def event_slots_def
          map_filter_simps core_ok_def reserved_def slot_of_def split: wait_result.splits)
    then show ?thesis using poll_event_ok [of ss2 w r False] w(1) a wt ex False by (cases some) (auto simp: poll_round_def Let_def)
  qed
qed

section \<open>The calls of workers\<close>

lemma send_request_cmds: "server_ok ss \<Longrightarrow> send_request q ss = ss\<lparr>ss_cmds := ss_cmds ss @ [q]\<rparr>"
  by (simp add: send_request_def server_ok_def core_ok_def)

lemma send_request_ok:
  assumes sv: "server_ok ss" and q: "\<not> opens q" "request_ok q" "\<And>i. \<not> counted i q" "\<And>i. request_id q = Some i \<Longrightarrow> i \<le> ss_alloc_id ss"
  shows "server_ok (send_request q ss)"
proof -
  have "sends i (ss_cmds ss @ [q]) = sends i (ss_cmds ss)" for i using q(3) by (simp add: sends_def)
  then have "count_ok (ss_cmds ss @ [q]) = count_ok (ss_cmds ss)" by (simp add: count_ok_def fun_eq_iff)
  then have "core_ok (ss_cmds ss @ [q]) ss"
    using sv q(1,2,4) channel_append [of "reserved ss" "ss_cmds ss" q] by (auto simp: server_ok_def core_ok_def)
  then show ?thesis using sv send_request_cmds [OF sv, of q] by (simp add: server_ok_def)
qed

text \<open>Reserving an id and sending the request that opens it.\<close>

lemma reserve_and_send:
  assumes sv: "server_ok ss" and a: "ss_alloc_id ss + 65536 < 2 ^ 31"
    and q: "\<And>i. opens (q i)" "\<And>i. request_id (q i) = Some i" "\<And>i. request_ok (q i)"
    and r: "reserve_id ss = (i, ss1)"
  shows "if i < 0 then server_ok ss1 else server_ok (send_request (q i) ss1)"
proof -
  have core: "core_ok (ss_cmds ss) ss" and ev: "events_ok ss" using sv by (simp_all add: server_ok_def)
  then have al: "0 \<le> ss_alloc_id ss" "swap16 (ss_udp_port ss) = ss_bound ss" by (simp_all add: core_ok_def)
  from reserve_id_spec [OF al(1) a r] show ?thesis
  proof (elim disjE conjE)
    assume f: "i = - 1" "ss1 = ss\<lparr>ss_alloc_id := ss_alloc_id ss + 65536\<rparr>"
    have "core_ok (ss_cmds ss) ss1" unfolding f by (rule core_alloc [OF core]) (use a in simp_all)
    then show ?thesis using f ev by (simp add: server_ok_def)
  next
    assume i: "ss_alloc_id ss < i" "i \<le> ss_alloc_id ss + 65536" "s_type (slot_of ss i) = TYPE_INVALID"
      and ss1: "ss1 = put_slot (HASH_ID i)
       ((slot_of ss i)\<lparr>s_type := TYPE_RESERVE, s_id := i, s_protocol := PROTOCOL_UNKNOWN, s_udpconnecting := 0, s_fd := - 1\<rparr>) []
       (ss\<lparr>ss_alloc_id := i\<rparr>)"
    have i31: "i < 2 ^ 31" using i(2) a by simp
    have "core_ok (ss_cmds ss @ [q i]) ss1"
      using core_reserve [OF core i(3,1) i31 q] unfolding ss1 reserved_sock_def .
    moreover have "events_ok ss1"
      unfolding ss1 by (rule events_put_inactive) (use ev i(3) in \<open>simp_all add: active_def slot_of_def\<close>)
    moreover have "send_request (q i) ss1 = ss1\<lparr>ss_cmds := ss_cmds ss @ [q i]\<rparr>"
      using al(2) ss1 by (simp add: send_request_def)
    ultimately show ?thesis using i(1) al(1) by (simp add: server_ok_def)
  qed
qed

lemma inc_word:
  fixes x :: u32
  assumes "x AND mask 16 \<noteq> mask 16"
  shows "unat ((x + 1) AND mask 16) = unat (x AND mask 16) + 1" "drop_bit 16 (x + 1) = drop_bit 16 x"
proof -
  have m: "unat x mod 2 ^ 16 \<noteq> 2 ^ 16 - 1"
  proof
    assume "unat x mod 2 ^ 16 = 2 ^ 16 - 1"
    then have "unat (x AND mask 16) = unat (mask 16 :: u32)" by (simp only: unat_and_mask) (simp add: mask_eq_exp_minus_1)
    then show False using assms by (simp only: word_unat_eq_iff)
  qed
  have lt: "unat x mod 2 ^ 16 < 2 ^ 16 - 1" using m mod_less_divisor [of 65536 "unat x"] by simp
  have "x + 1 \<noteq> 0"
  proof
    assume "x + 1 = 0"
    then have "x = - 1" by (simp add: eq_neg_iff_add_eq_0)
    then show False using assms by simp
  qed
  then have u: "unat (x + 1) = unat x + 1" by (simp add: unatSuc add.commute)
  have "unat ((x + 1) AND mask 16) = (unat x + 1) mod 2 ^ 16" by (simp only: unat_and_mask u)
  also have "\<dots> = unat x mod 2 ^ 16 + 1" using lt by (simp add: mod_Suc)
  finally show "unat ((x + 1) AND mask 16) = unat (x AND mask 16) + 1" by (simp only: unat_and_mask)
  have "unat (drop_bit 16 (x + 1)) = (unat x + 1) div 2 ^ 16" by (simp only: unat_shiftr u)
  also have "\<dots> = unat x div 2 ^ 16" using mod_pred(2) [of "unat x + 1" "2 ^ 16"] lt by (simp add: mod_Suc)
  finally have "unat (drop_bit 16 (x + 1)) = unat (drop_bit 16 x)" by (simp only: unat_shiftr)
  then show "drop_bit 16 (x + 1) = drop_bit 16 x" by (simp only: word_unat_eq_iff)
qed

text \<open>A counted send: the counter and the request together.\<close>

lemma queue_send_ok:
  assumes sv: "server_ok ss" and q: "\<And>j. counted j q \<longleftrightarrow> j = i" "request_ok q" "request_id q = Some i" "\<not> opens q"
    and i: "i \<le> ss_alloc_id ss" and act: "active (slot_of ss i)" "s_id (slot_of ss i) = i"
    and nf: "s_sending (slot_of ss i) AND mask 16 \<noteq> mask 16"
  shows "\<exists>ss'. queue_send i q ss = Some ss' \<and> server_ok ss'"
proof -
  let ?s = "slot_of ss i"
  have core: "core_ok (ss_cmds ss) ss" and ev: "events_ok ss" using sv by (simp_all add: server_ok_def)
  have co: "count_ok (ss_cmds ss) ?s" using core_slot(2) [OF core] act by blast
  have ok: "sock_ok ?s" using core_slot(1) [OF core] by blast
  have ty: "s_type ?s \<noteq> TYPE_INVALID" "s_type ?s \<noteq> TYPE_RESERVE" using act by (simp_all add: active_def)
  define s' where "s' = (if s_protocol ?s = PROTOCOL_TCP then ?s\<lparr>s_sending := s_sending ?s + 1\<rparr> else ?s)"
  have sn: "sends j (ss_cmds ss @ [q]) = sends j (ss_cmds ss) + (if j = i then 1 else 0)" for j
    using q(1) by (simp add: sends_def)
  have inc: "inc_sending_ref i ?s = Some s'"
    using co act nf ty by (auto simp: inc_sending_ref_def s'_def count_ok_def)
  have c': "count_ok (ss_cmds ss @ [q]) s'"
    using co ty act sn inc_word [OF nf] by (auto simp: count_ok_def s'_def)
  have o': "sock_ok s'" "s_type s' = s_type ?s" "s_id s' = i" using ok act by (auto simp: s'_def)
  let ?ss = "put_slot (HASH_ID i) s' [] ss"
  have res: "reserved ?ss = reserved ss"
    by (rule reserved_put_same) (use ty o' in \<open>auto simp: slot_of_def\<close>)
  have ot: "count_ok (ss_cmds ss @ [q]) (ss_slot ss h)" if h: "h < MAX_SOCKET" "HASH_ID (s_id (ss_slot ss h)) = h" "h \<noteq> HASH_ID i" for h
  proof -
    have "s_id (ss_slot ss h) \<noteq> i" using h by auto
    moreover have "count_ok (ss_cmds ss) (ss_slot ss h)" using core h by (simp add: core_ok_def)
    ultimately show ?thesis using sn by (simp add: count_ok_def)
  qed
  have "core_ok (ss_cmds ss @ [q]) ?ss"
    unfolding core_ok_def res
  proof (intro conjI allI impI)
    fix h assume "h < MAX_SOCKET" "HASH_ID (s_id (ss_slot ?ss h)) = h"
    then show "count_ok (ss_cmds ss @ [q]) (ss_slot ?ss h)" using c' ot by (cases "h = HASH_ID i") auto
  next
    show "channel_ok (reserved ss) (ss_cmds ss @ [q])" using core channel_append q(4) by (simp add: core_ok_def)
  qed (use core o' q(2,3) i in \<open>auto simp: core_ok_def\<close>)
  moreover have "events_ok ?ss" by (rule events_put [OF ev]) (use ty o' in \<open>simp add: active_def\<close>)
  moreover have "send_request q ?ss = ?ss\<lparr>ss_cmds := ss_cmds ss @ [q]\<rparr>" using core by (simp add: send_request_def core_ok_def)
  ultimately show ?thesis using inc by (simp add: queue_send_def server_ok_def)
qed

lemma sock_ok_direct:
  assumes "sock_ok s" and "active s" and "s_dw_buffer s = None"
  shows "sock_ok (stat_write t n s)" "s_protocol s = PROTOCOL_TCP \<Longrightarrow> sock_ok ((stat_write t n s)\<lparr>s_dw_buffer := Some (Memory a d), s_dw_offset := m\<rparr>)"
  using assms by (simp_all add: sock_ok_def sock_base_def active_def is_udp_def)

lemma server_put:
  assumes sv: "server_ok ss" and act: "active (slot_of ss i)" and s': "same_ident (slot_of ss i) s'" "sock_ok s'" "active s'"
  shows "server_ok (put_slot (HASH_ID i) s' e ss)"
  using core_put [of "ss_cmds ss" ss "HASH_ID i" s' e] events_put [of ss s' "HASH_ID i" e] assms
  by (simp add: server_ok_def slot_of_def active_def)

lemma plain_buffer:
  assumes "\<forall>p. b = Owned p \<longrightarrow> \<not> is_object p"
  shows "\<exists>a d. send_object_init_from_sendbuffer soi b = Some (a, d) \<and> (\<exists>a'. clone_buffer fresh b = Memory a' d)"
proof (cases b)
  case (Owned p)
  then obtain a d where "p = Memory a d" using assms by (cases p) (auto simp: is_object_def)
  then show ?thesis using Owned by (simp add: send_object_init_from_sendbuffer_def clone_buffer_def send_object_init_def)
qed (simp add: send_object_init_from_sendbuffer_def clone_buffer_def)

text \<open>A UDP datagram that is written directly is taken whole.\<close>

definition whole_datagram :: "io list \<Rightarrow> sendbuffer \<Rightarrow> bool" where
  "whole_datagram ios b \<longleftrightarrow> (\<exists>n rest a d. ios = Sent n # rest \<and> length d \<le> n \<and> (b = Owned (Memory a d) \<or> b = Raw_pointer a d))"

lemma direct_write_ok:
  assumes sv: "server_ok ss" and c: "can_direct_write (slot_of ss i) i"
    and b: "\<forall>p. b = Owned p \<longrightarrow> \<not> is_object p" and u: "is_udp (slot_of ss i) \<Longrightarrow> whole_datagram ios b"
  shows "\<exists>n ss'. direct_write fresh ios i b ss = Some (n, ss') \<and> server_ok ss'"
proof -
  let ?s = "slot_of ss i"
  have act: "active ?s" and nd: "s_dw_buffer ?s = None" using c by (simp_all add: can_direct_write_def active_def nomore_sending_data_def)
  have ok: "sock_ok ?s" using sv core_slot(1) by (auto simp: server_ok_def)
  obtain a d a' where ad: "send_object_init_from_sendbuffer (ss_soi ss) b = Some (a, d)" "clone_buffer fresh b = Memory a' d"
    using plain_buffer [OF b] by blast
  have same: "same_ident ?s (stat_write t n ?s)" "active (stat_write t n ?s)"
    "same_ident ?s ((stat_write t n ?s)\<lparr>s_dw_buffer := x, s_dw_offset := m\<rparr>)" "active ((stat_write t n ?s)\<lparr>s_dw_buffer := x, s_dw_offset := m\<rparr>)" for t n x m
    using act by (simp_all add: same_ident_def active_def)
  show ?thesis
  proof (cases "s_protocol ?s = PROTOCOL_TCP")
    case True
    then show ?thesis using ad server_put [OF sv act same(1) _ same(2)] server_put [OF sv act same(3) _ same(4)] sock_ok_direct [OF ok act nd]
      by (auto simp: direct_write_def Let_def)
  next
    case False
    then have ud: "is_udp ?s" and "\<exists>x. s_p ?s = P_address x" using ok act by (auto simp: sock_ok_def sock_base_def)
    then obtain x where x: "s_p ?s = P_address x" by blast
    have n: "io_count ios (length d) = length d" using u [OF ud] ad(1)
      by (auto simp: whole_datagram_def io_count_def send_object_init_from_sendbuffer_def send_object_init_def)
    show ?thesis using False x n ad(1) sv server_put [OF sv act same(1) _ same(2)] sock_ok_direct(1) [OF ok act nd]
      by (cases "udp_socket_address ?s x") (auto simp: direct_write_def Let_def sock_address_def)
  qed
qed

text \<open>The sends that the server can rely on: no user object, no socket that is not open yet, a counter that is not full,
  and a datagram that is taken whole when it is written directly.\<close>

definition send_allowed :: "io list \<Rightarrow> int \<Rightarrow> sendbuffer \<Rightarrow> server \<Rightarrow> bool" where
  "send_allowed ios i b ss \<longleftrightarrow>
     i \<le> ss_alloc_id ss \<and> i \<notin> reserved ss \<and> (\<forall>p. b = Owned p \<longrightarrow> \<not> is_object p) \<and>
     s_sending (slot_of ss i) AND mask 16 \<noteq> mask 16 \<and>
     (is_udp (slot_of ss i) \<longrightarrow> can_direct_write (slot_of ss i) i \<longrightarrow> whole_datagram ios b)"

lemma clone_plain: "\<forall>p. b = Owned p \<longrightarrow> \<not> is_object p \<Longrightarrow> \<not> is_object (clone_buffer fresh b)"
  by (cases b) (auto simp: clone_buffer_def is_object_def)

lemma socket_server_send_ok:
  assumes sv: "server_ok ss" and a: "send_allowed ios i b ss"
  shows "\<exists>n ss'. socket_server_send fresh ios i b ss = Some (n, ss') \<and> server_ok ss'"
proof (cases "s_id (slot_of ss i) \<noteq> i \<or> s_type (slot_of ss i) = TYPE_INVALID")
  case True
  then show ?thesis using sv by (simp add: socket_server_send_def Let_def)
next
  case False
  then have act: "active (slot_of ss i)" using a active_slot by (auto simp: send_allowed_def)
  have "sock_ok (slot_of ss i)" using sv core_slot(1) by (auto simp: server_ok_def)
  then have lk: "\<not> s_dw_lock (slot_of ss i)" using act by (simp add: sock_ok_def sock_base_def)
  show ?thesis
  proof (cases "can_direct_write (slot_of ss i) i")
    case True
    from direct_write_ok [OF sv True, of b ios fresh] show ?thesis
      using a False True lk by (auto simp: socket_server_send_def Let_def send_allowed_def)
  next
    case nd: False
    let ?q = "Req_send i (clone_buffer fresh b)"
    have "\<exists>ss'. queue_send i ?q ss = Some ss' \<and> server_ok ss'"
      by (rule queue_send_ok [OF sv]) (use a act False clone_plain in \<open>auto simp: send_allowed_def counted_def request_ok_def request_id_def opens_def\<close>)
    then show ?thesis using False nd by (auto simp: socket_server_send_def Let_def)
  qed
qed

lemma socket_server_send_low_ok:
  assumes sv: "server_ok ss" and a: "send_allowed ios i b ss"
  shows "\<exists>n ss'. socket_server_send_lowpriority fresh i b ss = Some (n, ss') \<and> server_ok ss'"
proof (cases "s_id (slot_of ss i) \<noteq> i \<or> s_type (slot_of ss i) = TYPE_INVALID")
  case True
  then show ?thesis using sv by (simp add: socket_server_send_lowpriority_def Let_def)
next
  case False
  then have act: "active (slot_of ss i)" using a active_slot by (auto simp: send_allowed_def)
  let ?q = "Req_send_low i (clone_buffer fresh b)"
  have "\<exists>ss'. queue_send i ?q ss = Some ss' \<and> server_ok ss'"
    by (rule queue_send_ok [OF sv]) (use a act False clone_plain in \<open>auto simp: send_allowed_def counted_def request_ok_def request_id_def opens_def\<close>)
  then show ?thesis using False by (auto simp: socket_server_send_lowpriority_def Let_def)
qed

lemma socket_server_udp_send_ok:
  assumes sv: "server_ok ss" and i: "i \<le> ss_alloc_id ss" and b: "\<forall>p. b = Owned p \<longrightarrow> \<not> is_object p"
  shows "\<exists>n ss'. socket_server_udp_send fresh ios i ad b ss = Some (n, ss') \<and> server_ok ss'"
proof (cases "s_id (slot_of ss i) \<noteq> i \<or> s_type (slot_of ss i) = TYPE_INVALID \<or>
    (ad ! 0 \<noteq> protocol_byte PROTOCOL_UDP \<and> ad ! 0 \<noteq> protocol_byte PROTOCOL_UDPv6)")
  case True
  then show ?thesis using sv by (auto simp: socket_server_udp_send_def Let_def)
next
  case False
  let ?s = "slot_of ss i"
  have q: "server_ok (send_request (Req_send_udp i (clone_buffer fresh b) x) ss)" for x
    by (rule send_request_ok [OF sv]) (use i clone_plain [OF b] in \<open>auto simp: opens_def request_ok_def counted_def request_id_def\<close>)
  show ?thesis
  proof (cases "can_direct_write ?s i \<and> \<not> s_dw_lock ?s")
    case nd: False
    then show ?thesis using False q by (auto simp: socket_server_udp_send_def Let_def)
  next
    case True
    then have act: "active ?s" and nd: "s_dw_buffer ?s = None" by (auto simp: can_direct_write_def active_def nomore_sending_data_def)
    have ok: "sock_ok ?s" using sv core_slot(1) by (auto simp: server_ok_def)
    have p: "server_ok (put_slot (HASH_ID i) (stat_write (ss_time ss) n ?s) e ss)" for n e
      by (rule server_put [OF sv act _ sock_ok_direct(1) [OF ok act nd]]) (use act in \<open>simp_all add: same_ident_def active_def\<close>)
    obtain a d where ad': "send_object_init_from_sendbuffer (ss_soi ss) b = Some (a, d)" using plain_buffer [OF b] by blast
    show ?thesis using False True ad' q p sv
      by (cases "udp_socket_address ?s ad"; cases ios; cases "hd ios") (auto simp: socket_server_udp_send_def Let_def)
  qed
qed

lemma socket_server_udp_connect_ok:
  assumes sv: "server_ok ss" and i: "i \<le> ss_alloc_id ss" and nr: "i \<notin> reserved ss"
  shows "\<exists>n ss'. socket_server_udp_connect gai i ss = (n, ss') \<and> server_ok ss'"
proof (cases "s_id (slot_of ss i) \<noteq> i \<or> s_type (slot_of ss i) = TYPE_INVALID")
  case True
  then show ?thesis using sv by (simp add: socket_server_udp_connect_def Let_def)
next
  case False
  let ?s = "slot_of ss i"
  have act: "active ?s" using False nr active_slot by blast
  have ok: "sock_ok ?s" using sv core_slot(1) by (auto simp: server_ok_def)
  let ?ss = "put_slot (HASH_ID i) (?s\<lparr>s_udpconnecting := s_udpconnecting ?s + 1\<rparr>) [] ss"
  have s1: "server_ok ?ss"
    by (rule server_put [OF sv act]) (use act ok in \<open>simp_all add: same_ident_def active_def sock_ok_def sock_base_def is_udp_def\<close>)
  have "server_ok (send_request (Req_set_udp i (gen_udp_address p sa)) ?ss)" if "p = PROTOCOL_UDP \<or> p = PROTOCOL_UDPv6" for p sa
    by (rule send_request_ok [OF s1])
      (use i that in \<open>auto simp: opens_def request_ok_def counted_def request_id_def gen_udp_address_def\<close>)
  then show ?thesis using False s1 by (cases gai) (auto simp: socket_server_udp_connect_def Let_def)
qed

section \<open>Every run\<close>

datatype socket_call =
    Connect u64 string int
  | Listen u64 bind_world
  | Bind u64 int
  | Udp u64 bool bind_world
  | Start u64 int
  | Close u64 int
  | Shutdown u64 int
  | Nodelay int
  | Exit
  | Send addr "io list" int sendbuffer
  | Send_low addr int sendbuffer
  | Send_udp addr "io list" int "u8 list" sendbuffer
  | Udp_connect "(protocol \<times> u8 list) option" int
  | Update_time u64
  | Poll world socket_message bool

definition perform :: "socket_call \<Rightarrow> server \<Rightarrow> server option" where
  "perform c ss =
     (case c of
        Connect opaque ad port \<Rightarrow> Some (snd (socket_server_connect opaque ad port ss))
      | Listen opaque b \<Rightarrow> Some (snd (socket_server_listen opaque b ss))
      | Bind opaque fd \<Rightarrow> Some (snd (socket_server_bind opaque fd ss))
      | Udp opaque bound b \<Rightarrow> Some (snd (socket_server_udp opaque bound b ss))
      | Start opaque i \<Rightarrow> Some (socket_server_start opaque i ss)
      | Close opaque i \<Rightarrow> Some (socket_server_close opaque i ss)
      | Shutdown opaque i \<Rightarrow> Some (socket_server_shutdown opaque i ss)
      | Nodelay i \<Rightarrow> Some (socket_server_nodelay i ss)
      | Exit \<Rightarrow> Some (socket_server_exit ss)
      | Send fresh ios i b \<Rightarrow> map_option snd (socket_server_send fresh ios i b ss)
      | Send_low fresh i b \<Rightarrow> map_option snd (socket_server_send_lowpriority fresh i b ss)
      | Send_udp fresh ios i ad b \<Rightarrow> map_option snd (socket_server_udp_send fresh ios i ad b ss)
      | Udp_connect gai i \<Rightarrow> Some (snd (socket_server_udp_connect gai i ss))
      | Update_time t \<Rightarrow> Some (socket_server_updatetime t ss)
      | Poll w r mo \<Rightarrow> map_option (\<lambda>(c, r1, mo1, ss1). ss1) (poll_round w r mo ss))"

definition room :: "server \<Rightarrow> bool" where
  "room ss \<longleftrightarrow> ss_alloc_id ss + 65536 < 2 ^ 31"

text \<open>What the server relies on: ids come from it, the id counter has not reached its end, and the conditions on sends.\<close>

definition allowed :: "socket_call \<Rightarrow> server \<Rightarrow> bool" where
  "allowed c ss =
     (case c of
        Connect _ _ _ \<Rightarrow> room ss | Listen _ _ \<Rightarrow> room ss | Bind _ _ \<Rightarrow> room ss | Udp _ _ _ \<Rightarrow> room ss
      | Start _ i \<Rightarrow> i \<le> ss_alloc_id ss | Close _ i \<Rightarrow> i \<le> ss_alloc_id ss | Shutdown _ i \<Rightarrow> i \<le> ss_alloc_id ss
      | Nodelay i \<Rightarrow> i \<le> ss_alloc_id ss
      | Exit \<Rightarrow> True
      | Send _ ios i b \<Rightarrow> send_allowed ios i b ss
      | Send_low _ i b \<Rightarrow> send_allowed [] i b ss
      | Send_udp _ _ i _ b \<Rightarrow> i \<le> ss_alloc_id ss \<and> (\<forall>p. b = Owned p \<longrightarrow> \<not> is_object p)
      | Udp_connect _ i \<Rightarrow> i \<le> ss_alloc_id ss \<and> i \<notin> reserved ss
      | Update_time _ \<Rightarrow> True
      | Poll w _ _ \<Rightarrow> room ss \<and> world_ok w \<and> wait_ok w ss)"

lemma perform_ok:
  assumes sv: "server_ok ss" and a: "allowed c ss"
  shows "\<exists>ss'. perform c ss = Some ss' \<and> server_ok ss'"
proof -
  have rq: "server_ok (send_request q ss)"
    if "\<not> opens q" "request_ok q" "\<And>i. \<not> counted i q" "\<And>i. request_id q = Some i \<Longrightarrow> i \<le> ss_alloc_id ss" for q
    by (rule send_request_ok [OF sv that])
  have open_ok: "if i < 0 then server_ok ss2 else server_ok (send_request (q i) ss2)"
    if "server_ok ss1" "room ss1" "\<And>i. opens (q i)" "\<And>i. request_id (q i) = Some i" "\<And>i. request_ok (q i)" "reserve_id ss1 = (i, ss2)"
    for ss1 ss2 q i
    by (rule reserve_and_send [OF that(1) _ that(3-6)]) (use that(2) in \<open>simp add: room_def\<close>)
  have em: "room (emit e ss) = room ss" for e by (simp add: room_def)
  note defs = opens_def request_ok_def counted_def request_id_def
  show ?thesis
  proof (cases c)
    case (Connect opaque ad port)
    obtain i ss2 where r: "reserve_id ss = (i, ss2)" by fastforce
    have "if i < 0 then server_ok ss2 else server_ok (send_request (Req_open i port opaque ad) ss2)"
      by (rule open_ok [OF sv _ _ _ _ r]) (use a Connect in \<open>simp_all add: allowed_def defs\<close>)
    then show ?thesis using Connect r sv by (auto simp: perform_def socket_server_connect_def open_request_def Let_def)
  next
    case (Listen opaque b)
    have "\<exists>e. snd (do_listen b ss) = emit e ss"
      by (auto simp: do_listen_def do_bind_def Let_def emit_def intro: exI [of _ "[]"])
    then obtain fd e where d: "do_listen b ss = (fd, emit e ss)" by (metis prod.collapse)
    obtain i ss2 where r: "reserve_id (emit e ss) = (i, ss2)" by fastforce
    have "if i < 0 then server_ok ss2 else server_ok (send_request (Req_listen i fd opaque) ss2)"
      by (rule open_ok [OF _ _ _ _ _ r]) (use a sv Listen em in \<open>simp_all add: allowed_def defs\<close>)
    then show ?thesis using Listen r sv d by (auto simp: perform_def socket_server_listen_def Let_def)
  next
    case (Bind opaque fd)
    obtain i ss2 where r: "reserve_id ss = (i, ss2)" by fastforce
    have "if i < 0 then server_ok ss2 else server_ok (send_request (Req_bind i fd opaque) ss2)"
      by (rule open_ok [OF sv _ _ _ _ r]) (use a Bind in \<open>simp_all add: allowed_def defs\<close>)
    then show ?thesis using Bind r sv by (auto simp: perform_def socket_server_bind_def Let_def)
  next
    case (Udp opaque bound b)
    have "\<exists>e. snd (if bound then do_bind b ss else (b_fd b, ss)) = emit e ss"
      by (auto simp: do_bind_def emit_def intro: exI [of _ "[]"])
    then obtain fd e where d: "(if bound then do_bind b ss else (b_fd b, ss)) = (fd, emit e ss)" by (metis prod.collapse)
    obtain i ss2 where r: "reserve_id (emit e ss) = (i, ss2)" by fastforce
    have "if i < 0 then server_ok ss2 else server_ok (send_request (Req_udp i fd (bound \<and> b_inet6 b) opaque) ss2)"
      by (rule open_ok [OF _ _ _ _ _ r]) (use a sv Udp em in \<open>simp_all add: allowed_def defs\<close>)
    then show ?thesis using Udp r sv d by (auto simp: perform_def socket_server_udp_def Let_def)
  next
    case (Start opaque i)
    then show ?thesis using a by (auto simp: perform_def allowed_def socket_server_start_def defs intro!: rq)
  next
    case (Close opaque i)
    then show ?thesis using a by (auto simp: perform_def allowed_def socket_server_close_def defs intro!: rq)
  next
    case (Shutdown opaque i)
    then show ?thesis using a by (auto simp: perform_def allowed_def socket_server_shutdown_def defs intro!: rq)
  next
    case (Nodelay i)
    then show ?thesis using a by (auto simp: perform_def allowed_def socket_server_nodelay_def defs intro!: rq)
  next
    case Exit
    then show ?thesis by (auto simp: perform_def socket_server_exit_def defs intro!: rq)
  next
    case (Send fresh ios i b)
    then show ?thesis using a socket_server_send_ok [OF sv, of ios i b fresh] by (auto simp: perform_def allowed_def)
  next
    case (Send_low fresh i b)
    then show ?thesis using a socket_server_send_low_ok [OF sv, of "[]" i b fresh] by (auto simp: perform_def allowed_def)
  next
    case (Send_udp fresh ios i ad b)
    then show ?thesis using a socket_server_udp_send_ok [OF sv, of i b fresh ios ad] by (auto simp: perform_def allowed_def)
  next
    case (Udp_connect gai i)
    then show ?thesis using a socket_server_udp_connect_ok [OF sv, of i gai] by (auto simp: perform_def allowed_def)
  next
    case (Update_time t)
    then show ?thesis using sv
      by (simp add: perform_def socket_server_updatetime_def server_ok_def core_ok_def events_ok_def event_ok_def left_events_def
          reserved_def slot_of_def)
  next
    case (Poll w r mo)
    then have "room ss" "world_ok w" "wait_ok w ss" using a by (simp_all add: allowed_def)
    then have "\<exists>c r' mo' ss'. poll_round w r mo ss = Some (c, r', mo', ss') \<and> server_ok ss'"
      by (intro poll_round_ok [OF sv]) (simp_all add: room_def)
    then show ?thesis using Poll by (auto simp: perform_def)
  qed
qed

lemma server_ok_start: "server_ok (server_of_port 65535 junk t)"
proof -
  have r: "reserved (server_of_port 65535 junk t) = {}" by (simp add: reserved_def slot_of_def server_of_port_def)
  have "swap16 65535 = 65535" by (simp add: swap16_def)
  then show ?thesis unfolding server_ok_def core_ok_def r
    by (simp add: server_of_port_def sock_ok_def active_def count_ok_def sends_def events_ok_def left_events_def event_slots_def map_filter_simps)
qed

lemma create_65535: "socket_server_create True can_bind junk t = Some ss \<Longrightarrow> can_bind 65535 \<Longrightarrow> ss = server_of_port 65535 junk t"
proof -
  have "MAX_SOCKET = Suc 65535" by (simp add: MAX_SOCKET_def)
  have "can_bind 65535 \<Longrightarrow> bind_port can_bind MAX_SOCKET = Some 65535"
    unfolding \<open>MAX_SOCKET = Suc 65535\<close> by (simp only: bind_port.simps if_True)
  then show "socket_server_create True can_bind junk t = Some ss \<Longrightarrow> can_bind 65535 \<Longrightarrow> ss = server_of_port 65535 junk t"
    by (simp add: socket_server_create_def)
qed

text \<open>The states of a server that was created while port 65535 was free.\<close>

inductive server_run :: "server \<Rightarrow> bool" where
  created: "socket_server_create True can_bind junk t = Some ss \<Longrightarrow> can_bind 65535 \<Longrightarrow> server_run ss"
| performed: "server_run ss \<Longrightarrow> allowed c ss \<Longrightarrow> perform c ss = Some ss' \<Longrightarrow> server_run ss'"

lemma server_run_ok: "server_run ss \<Longrightarrow> server_ok ss"
proof (induction rule: server_run.induct)
  case (created can_bind junk t ss)
  then show ?case using create_65535 server_ok_start by blast
next
  case (performed ss c ss')
  then show ?case using perform_ok by fastforce
qed

end
