(* ===== verification/SocketStream.thy ===== *)
theory SocketStream
  imports SocketProps
begin

text \<open>
  A stream through the socket server, and the safety of all runs.
\<close>

section \<open>What one step does to a stream\<close>

fun written_to :: "int \<Rightarrow> effect list \<Rightarrow> u8 list" where
  "written_to fd [] = []"
| "written_to fd (Written x bs # es) = (if x = fd then bs else []) @ written_to fd es"
| "written_to fd (_ # es) = written_to fd es"

lemma written_to_append [simp]: "written_to fd (es @ fs) = written_to fd es @ written_to fd fs"
  by (induction es rule: written.induct) simp_all

text \<open>The bytes that wait in the channel for \<open>i\<close>.\<close>

fun channel_bytes :: "int \<Rightarrow> request list \<Rightarrow> u8 list" where
  "channel_bytes i [] = []"
| "channel_bytes i (q # qs) =
     (case q of Req_send j (Memory a d) \<Rightarrow> if j = i then d else [] | _ \<Rightarrow> []) @ channel_bytes i qs"

lemma channel_bytes_append [simp]: "channel_bytes i (qs @ qs') = channel_bytes i qs @ channel_bytes i qs'"
  by (induction qs) simp_all

definition stream_rest :: "int \<Rightarrow> server \<Rightarrow> u8 list" where
  "stream_rest i ss = dw_bytes (slot_of ss i) @ bytes_of (s_high (slot_of ss i)) @ channel_bytes i (ss_cmds ss)"

text \<open>No low-priority send and no UDP send is on its way to \<open>i\<close>.\<close>

definition high_only :: "int \<Rightarrow> request list \<Rightarrow> bool" where
  "high_only i qs \<longleftrightarrow> (\<forall>q \<in> set qs. (\<forall>p. q \<noteq> Req_send_low i p) \<and> (\<forall>p a. q \<noteq> Req_send_udp i p a))"

definition streaming :: "int \<Rightarrow> server \<Rightarrow> bool" where
  "streaming i ss \<longleftrightarrow>
     s_id (slot_of ss i) = i \<and> s_protocol (slot_of ss i) = PROTOCOL_TCP \<and> s_low (slot_of ss i) = [] \<and>
     (s_type (slot_of ss i) = TYPE_CONNECTING \<or> s_type (slot_of ss i) = TYPE_CONNECTED \<or> s_type (slot_of ss i) = TYPE_BIND) \<and>
     high_only i (ss_cmds ss) \<and>
     (\<forall>h < MAX_SOCKET. h \<noteq> HASH_ID i \<and> s_type (ss_slot ss h) \<noteq> TYPE_INVALID \<longrightarrow> s_fd (ss_slot ss h) \<noteq> s_fd (slot_of ss i))"

text \<open>Only the socket that is handled writes, and only to its descriptor.\<close>

definition only_to :: "int \<Rightarrow> effect list \<Rightarrow> bool" where
  "only_to fd es \<longleftrightarrow> (\<forall>x bs. Written x bs \<in> set es \<longrightarrow> x = fd)"

lemma only_to_simps [simp]:
  "only_to fd []" "only_to fd (Written x bs # es) \<longleftrightarrow> x = fd \<and> only_to fd es" "only_to fd (es @ fs) \<longleftrightarrow> only_to fd es \<and> only_to fd fs"
  "only_to fd (Free u a # es) = only_to fd es" "only_to fd (Sent_to x d sa # es) = only_to fd es" "only_to fd (Sp_add x # es) = only_to fd es"
  "only_to fd (Sp_del x # es) = only_to fd es" "only_to fd (Sp_write x b # es) = only_to fd es" "only_to fd (Close_fd x # es) = only_to fd es"
  "only_to fd (Set_option x y z # es) = only_to fd es"
  by (auto simp: only_to_def)

lemma only_to_other: "only_to fd' es \<Longrightarrow> fd' \<noteq> fd \<Longrightarrow> written_to fd es = []"
  by (induction fd es rule: written_to.induct) auto

lemma only_to_own: "only_to fd es \<Longrightarrow> written_to fd es = written es"
  by (induction fd es rule: written_to.induct) auto

lemma only_to_payload [simp]: "only_to fd (free_payload p # es) = only_to fd es"
  by (cases p) (simp_all add: free_payload_def)

lemma only_to_free_list [simp]: "only_to fd (free_wb_list ws)"
  by (auto simp: only_to_def free_wb_list_def write_buffer_free_def)

lemma only_to_free_node [simp]: "only_to fd (write_buffer_free w # es) = only_to fd es"
  by (simp add: write_buffer_free_def)

lemma only_to_free_buffer [simp]: "only_to fd (free_buffer b)"
  by (cases b) (simp_all add: free_buffer_def)

lemma force_close_only: "force_close s = Some (r, s', e) \<Longrightarrow> only_to fd e \<and> s_fd s' = s_fd s"
  by (auto simp: force_close_def Let_def split: if_splits option.splits)

lemma send_list_tcp_only: "send_list_tcp t hi ios s r = Some (c, ios', r', s', e) \<Longrightarrow> only_to (s_fd s) e \<and> s_fd s' = s_fd s"
proof (induction t hi ios s r arbitrary: c ios' r' s' e rule: send_list_tcp.induct)
  case (2 t hi x ios s r)
  show ?case
  proof (cases "wl hi s")
    case Nil
    then show ?thesis using 2 by simp
  next
    case (Cons w ws)
    show ?thesis
    proof (cases x)
      case (Sent n)
      let ?k = "min n (length (wb_data w))"
      let ?s = "(stat_write t ?k s)\<lparr>s_wb_size := s_wb_size s - int ?k\<rparr>"
      show ?thesis
      proof (cases "?k = length (wb_data w)")
        case True
        obtain y where r: "send_list_tcp t hi ios (set_wl hi ws ?s) r = Some y"
          and e: "e = Written (s_fd s) (take ?k (wb_data w)) # write_buffer_free w # snd (snd (snd (snd y)))" "s' = fst (snd (snd (snd y)))"
          using 2(3) Cons Sent True by (auto simp: Let_def split: bind_splits)
        obtain c1 i1 r1 s1 e1 where y: "y = (c1, i1, r1, s1, e1)" by (cases y)
        have "only_to (s_fd (set_wl hi ws ?s)) e1 \<and> s_fd s1 = s_fd (set_wl hi ws ?s)"
          using 2(1) [OF Cons Sent refl refl refl refl] r y True by simp
        then show ?thesis using e y by simp
      qed (use 2(3) Cons Sent in \<open>auto simp: Let_def split: if_splits\<close>)
    qed (use 2(3) 2(2) [OF Cons] Cons in \<open>auto dest: force_close_only [where fd = "s_fd s"] split: bind_splits\<close>)
  qed
qed simp

declare send_list_udp.simps [simp del]

lemma send_list_udp_only: "send_list_udp t hi ios s = Some (c, ios', s', e) \<Longrightarrow> only_to fd e \<and> s_fd s' = s_fd s"
proof (induction t hi ios s arbitrary: c ios' s' e rule: send_list_udp.induct)
  case (1 t hi ios s)
  note u = 1(2) [unfolded send_list_udp.simps [of t hi ios s]]
  show ?case
  proof (cases "\<exists>w ws a sa n ios1. wl hi s = w # ws \<and> wb_addr w = Some a \<and> udp_socket_address s a = Some sa \<and> ios = Sent n # ios1")
    case True
    then obtain w ws a sa n ios1 where c: "wl hi s = w # ws" "wb_addr w = Some a" "udp_socket_address s a = Some sa" "ios = Sent n # ios1"
      by blast
    let ?s = "set_wl hi ws ((stat_write t (length (wb_data w)) s)\<lparr>s_wb_size := s_wb_size s - int (length (wb_data w))\<rparr>)"
    obtain x where r: "send_list_udp t hi ios1 ?s = Some x" and e: "e = Sent_to (s_fd s) (wb_data w) sa # write_buffer_free w # snd (snd (snd x))"
      "s' = fst (snd (snd x))"
      using u c by (auto split: bind_splits)
    obtain c1 i1 s1 e1 where x: "x = (c1, i1, s1, e1)" by (cases x)
    have "send_list_udp t hi ios1 (set_wl hi ws (stat_write t (length (wb_data w)) s
        \<lparr>s_wb_size := s_wb_size (stat_write t (length (wb_data w)) s) - int (length (wb_data w))\<rparr>)) = Some (c1, i1, s1, e1)"
      using r x by simp
    from 1(1) [OF c refl refl refl this] show ?thesis using e x by simp
  next
    case False
    then show ?thesis using u
      by (auto simp: drop_udp_def split: list.splits option.splits io.splits bind_splits)
  qed
qed

lemma send_list_only: "send_list t hi ios s r = Some (c, ios', r', s', e) \<Longrightarrow> only_to (s_fd s) e \<and> s_fd s' = s_fd s"
  by (auto simp: send_list_def dest: send_list_tcp_only send_list_udp_only split: if_splits bind_splits)

lemma send_buffer_done_only: "send_buffer_done s r = Some (c, r', s', e) \<Longrightarrow> only_to fd e \<and> s_fd s' = s_fd s"
  by (auto simp: send_buffer_done_def Let_def dest: force_close_only split: if_splits bind_splits)

lemma raise_uncomplete_fd: "raise_uncomplete s = Some s' \<Longrightarrow> s_fd s' = s_fd s"
  by (auto simp: raise_uncomplete_def split: list.splits bind_splits if_splits)

lemma send_buffer_steps_only: "send_buffer_steps t ios s r = Some (c, r', s', e) \<Longrightarrow> only_to (s_fd s) e \<and> s_fd s' = s_fd s"
  unfolding send_buffer_steps_def
  by (auto dest!: send_list_only send_buffer_done_only [where fd = "s_fd s"] raise_uncomplete_fd split: if_splits bind_splits)

lemma send_buffer_only: "send_buffer soi t ios s r = Some (c, r', s', e) \<Longrightarrow> only_to (s_fd s) e \<and> s_fd s' = s_fd s"
  by (auto simp: send_buffer_def dw_to_list_def dest!: send_buffer_steps_only split: if_splits bind_splits option.splits)

section \<open>What a step leaves alone\<close>

text \<open>What has been written to a descriptor.\<close>

definition out :: "int \<Rightarrow> server \<Rightarrow> u8 list" where
  "out fd ss = written_to fd (ss_log ss)"

lemma out_simps [simp]:
  "out fd (put_slot h s e ss) = out fd ss @ written_to fd e" "out fd (emit e ss) = out fd ss @ written_to fd e"
  "out fd (ss\<lparr>ss_cmds := qs\<rparr>) = out fd ss" "out fd (ss\<lparr>ss_alloc_id := a\<rparr>) = out fd ss" "out fd (set_type i t ss) = out fd ss"
  "out fd (ss\<lparr>ss_ev := ev\<rparr>) = out fd ss" "out fd (ss\<lparr>ss_event_index := n\<rparr>) = out fd ss" "out fd (ss\<lparr>ss_checkctrl := b\<rparr>) = out fd ss"
  "out fd (ss\<lparr>ss_time := t'\<rparr>) = out fd ss" "out fd (send_request q ss) = out fd ss" "out fd (clear_closed_event j c ss) = out fd ss"
  by (simp_all add: out_def put_slot_def emit_def set_type_def send_request_def clear_closed_event_def)

lemma written_to_free [simp]: "written_to fd (free_wb_list ws) = []" "written_to fd (write_buffer_free w # es) = written_to fd es"
  by (induction ws) (simp_all add: write_buffer_free_def free_wb_list_def)

lemma written_to_payload [simp]: "written_to fd (free_payload p # es) = written_to fd es"
  by (cases p) (simp_all add: free_payload_def)

lemma written_to_buffer [simp]: "written_to fd (free_buffer b) = []"
  by (cases b) (simp_all add: free_buffer_def)

definition untouched :: "int \<Rightarrow> int \<Rightarrow> server \<Rightarrow> server \<Rightarrow> bool" where
  "untouched i fd ss ss' \<longleftrightarrow> slot_of ss' i = slot_of ss i \<and> out fd ss' = out fd ss"

lemma untouched_refl [simp]: "untouched i fd ss ss"
  by (simp add: untouched_def)

lemma untouched_trans [trans]: "untouched i fd ss ss1 \<Longrightarrow> untouched i fd ss1 ss2 \<Longrightarrow> untouched i fd ss ss2"
  by (simp add: untouched_def)

lemma slot_of_fields [simp]:
  "slot_of (ss\<lparr>ss_cmds := qs\<rparr>) i = slot_of ss i" "slot_of (ss\<lparr>ss_alloc_id := a\<rparr>) i = slot_of ss i"
  "slot_of (ss\<lparr>ss_ev := ev\<rparr>) i = slot_of ss i" "slot_of (ss\<lparr>ss_event_index := n\<rparr>) i = slot_of ss i"
  "slot_of (ss\<lparr>ss_checkctrl := b\<rparr>) i = slot_of ss i" "slot_of (ss\<lparr>ss_time := t\<rparr>) i = slot_of ss i"
  "slot_of (send_request q ss) i = slot_of ss i" "slot_of (clear_closed_event j c ss) i = slot_of ss i"
  "slot_of (set_type j ty ss) i = (if HASH_ID i = HASH_ID j then (slot_of ss j)\<lparr>s_type := ty\<rparr> else slot_of ss i)"
  by (simp_all add: slot_of_def send_request_def clear_closed_event_def set_type_def)

text \<open>\<open>j\<close> names another socket than \<open>i\<close>, or no socket at all.\<close>

definition elsewhere :: "int \<Rightarrow> int \<Rightarrow> int \<Rightarrow> server \<Rightarrow> bool" where
  "elsewhere i fd j ss \<longleftrightarrow>
     (s_id (slot_of ss j) = j \<longrightarrow> HASH_ID i \<noteq> HASH_ID j \<and> (s_type (slot_of ss j) \<noteq> TYPE_INVALID \<longrightarrow> s_fd (slot_of ss j) \<noteq> fd))"

lemma send_buffer_other: "send_buffer soi t ios s r = Some (c, r', s', e) \<Longrightarrow> s_fd s \<noteq> fd \<Longrightarrow> written_to fd e = []"
  using send_buffer_only only_to_other by blast

lemma force_close_written [simp]: "force_close s = Some (r, s', e) \<Longrightarrow> written_to fd e = []"
  by (auto simp: force_close_def Let_def split: if_splits option.splits)

lemma new_fd_frame:
  "new_fd j fd' p opaque add fails ss = Some (s, ss') \<Longrightarrow>
   out fd ss' = out fd ss \<and> (HASH_ID i \<noteq> HASH_ID j \<longrightarrow> slot_of ss' i = slot_of ss i) \<and> s_type (slot_of ss j) = TYPE_RESERVE"
  by (auto simp: new_fd_def Let_def split: if_splits bind_splits)

lemma try_connect_written: "written_to fd (snd (try_connect ais)) = []"
  by (induction ais rule: try_connect.induct) (auto split: prod.splits)

lemma start_frame:
  "start_socket w j opaque ss = Some (c, r', ss') \<Longrightarrow> elsewhere i fd j ss \<Longrightarrow> untouched i fd ss ss'"
  by (auto simp: start_socket_def elsewhere_def untouched_def Let_def split: if_splits bind_splits)

lemma close_frame:
  "close_socket ios j shutdown opaque r ss = Some (c, r', ss') \<Longrightarrow> elsewhere i fd j ss \<Longrightarrow> untouched i fd ss ss'"
  by (auto simp: close_socket_def elsewhere_def untouched_def Let_def send_buffer_other split: if_splits bind_splits)

lemma enqueue_written: "enqueue soi t ios p hi a s = Some (b, s', e) \<Longrightarrow> written_to fd e = []"
  by (auto simp: enqueue_def split: if_splits bind_splits option.splits)

lemma send_frame:
  "send_socket ios j p hi a r ss = Some (c, r', ss') \<Longrightarrow> elsewhere i fd j ss \<Longrightarrow> untouched i fd ss ss'"
  by (auto simp: send_socket_def elsewhere_def untouched_def Let_def enqueue_written split: if_splits bind_splits prod.splits)

lemma dec_frame:
  "dec_sending_ref j ss = Some ss' \<Longrightarrow> elsewhere i fd j ss \<Longrightarrow> untouched i fd ss ss'"
  by (auto simp: dec_sending_ref_def elsewhere_def untouched_def Let_def split: if_splits bind_splits)

lemma listen_frame:
  "listen_socket j fd' opaque r ss = Some (c, r', ss') \<Longrightarrow> HASH_ID i \<noteq> HASH_ID j \<Longrightarrow> untouched i fd ss ss'"
  by (auto simp: listen_socket_def untouched_def dest!: new_fd_frame [where i = i and fd = fd] split: if_splits bind_splits option.splits)

lemma bind_frame:
  "bind_socket w j fd' opaque ss = Some (c, r', ss') \<Longrightarrow> HASH_ID i \<noteq> HASH_ID j \<Longrightarrow> untouched i fd ss ss'"
  by (auto simp: bind_socket_def untouched_def dest!: new_fd_frame [where i = i and fd = fd] split: if_splits bind_splits option.splits)

lemma udp_frame:
  "add_udp_socket w j fd' inet6 opaque ss = Some ss' \<Longrightarrow> HASH_ID i \<noteq> HASH_ID j \<Longrightarrow> untouched i fd ss ss'"
  by (auto simp: add_udp_socket_def untouched_def dest!: new_fd_frame [where i = i and fd = fd] split: if_splits bind_splits option.splits)

lemma open_frame:
  "open_socket w j opaque ss = Some (c, r', ss') \<Longrightarrow> HASH_ID i \<noteq> HASH_ID j \<Longrightarrow> untouched i fd ss ss'"
proof -
  assume o: "open_socket w j opaque ss = Some (c, r', ss')" and h: "HASH_ID i \<noteq> HASH_ID j"
  have w: "written_to fd e = []" if "try_connect ais = (x, e)" for ais x e
    using try_connect_written [of fd ais] that by simp
  show "untouched i fd ss ss'"
    using o h by (auto simp: open_socket_def untouched_def w Let_def dest!: new_fd_frame [where i = i and fd = fd]
      split: open_result.splits if_splits bind_splits option.splits prod.splits)
qed

lemma set_udp_frame:
  "set_udp_address j a r ss = Some (c, r', ss') \<Longrightarrow> elsewhere i fd j ss \<Longrightarrow> untouched i fd ss ss'"
  by (auto simp: set_udp_address_def elsewhere_def untouched_def Let_def split: if_splits bind_splits)

lemma setopt_frame: "untouched i fd ss (setopt_socket j what v ss)"
  by (auto simp: setopt_socket_def untouched_def Let_def)

lemma append_node_ident: "append_node soi hi p a s = Some s' \<Longrightarrow> s_id s' = s_id s \<and> s_fd s' = s_fd s \<and> s_type s' = s_type s"
  by (auto simp: append_node_def Let_def split: bind_splits)

lemma enqueue_ident: "enqueue soi t ios p hi a s = Some (b, s', e) \<Longrightarrow> s_id s' = s_id s \<and> s_fd s' = s_fd s \<and> s_type s' = s_type s"
  by (auto simp: enqueue_def append_sendbuffer_def append_sendbuffer_low_def append_sendbuffer_udp_def
      dest!: append_node_ident split: if_splits bind_splits option.splits)

lemma send_warning_ident: "send_warning s r = (c, r', s') \<Longrightarrow> s_id s' = s_id s \<and> s_fd s' = s_fd s \<and> s_type s' = s_type s"
  by (auto simp: send_warning_def split: if_splits)

lemma send_socket_ident:
  "send_socket ios j p hi a r ss = Some (c, r', ss') \<Longrightarrow> elsewhere i fd j ss' = elsewhere i fd j ss"
  by (auto simp: send_socket_def elsewhere_def Let_def dest!: enqueue_ident send_warning_ident split: if_splits bind_splits prod.splits)

lemma ctrl_cmd_frame:
  assumes c: "ctrl_cmd w q r ss = Some (c, r', ss')" and q: "request_id q = Some j \<Longrightarrow> elsewhere i fd j ss"
    and o: "opens q \<Longrightarrow> request_id q = Some j \<Longrightarrow> HASH_ID i \<noteq> HASH_ID j" and j: "\<And>k. request_id q = Some k \<Longrightarrow> k = j"
  shows "untouched i fd ss ss'"
proof -
  have send: "untouched i fd ss ss2"
    if "send_socket (w_ios w) j p hi a r ss = Some (c1, r1, ss1)" "dec_sending_ref j ss1 = Some ss2" "elsewhere i fd j ss" for p hi a c1 r1 ss1 ss2
    using send_frame [OF that(1,3)] dec_frame [OF that(2)] send_socket_ident [OF that(1)] that(3) untouched_trans by blast
  show ?thesis
  proof (cases q)
    case (Req_open j' port opaque host)
    then show ?thesis using c o j open_frame by (auto simp: ctrl_cmd_def request_id_def opens_def)
  next
    case (Req_bind j' fd' opaque)
    then show ?thesis using c o j bind_frame by (auto simp: ctrl_cmd_def request_id_def opens_def)
  next
    case (Req_listen j' fd' opaque)
    then show ?thesis using c o j listen_frame by (auto simp: ctrl_cmd_def request_id_def opens_def)
  next
    case (Req_udp j' fd' b opaque)
    then show ?thesis using c o j udp_frame by (auto simp: ctrl_cmd_def request_id_def opens_def split: bind_splits)
  next
    case (Req_send j' p)
    then show ?thesis using c q j send by (auto simp: ctrl_cmd_def request_id_def split: bind_splits)
  next
    case (Req_send_low j' p)
    then show ?thesis using c q j send by (auto simp: ctrl_cmd_def request_id_def split: bind_splits)
  qed (use c q j start_frame close_frame send_frame set_udp_frame setopt_frame in \<open>auto simp: ctrl_cmd_def request_id_def\<close>)
qed

section \<open>What a step does to the stream\<close>

text \<open>The bytes sent are those still to come and those added.\<close>

definition flows :: "int \<Rightarrow> int \<Rightarrow> u8 list \<Rightarrow> server \<Rightarrow> server \<Rightarrow> bool" where
  "flows i fd bs ss ss' \<longleftrightarrow> out fd ss' @ stream_rest i ss' = out fd ss @ stream_rest i ss @ bs \<and> s_fd (slot_of ss' i) = s_fd (slot_of ss i)"

lemma flows_untouched: "untouched i fd ss ss' \<Longrightarrow> channel_bytes i (ss_cmds ss') = channel_bytes i (ss_cmds ss) @ bs \<Longrightarrow> flows i fd bs ss ss'"
  by (simp add: flows_def untouched_def stream_rest_def)

text \<open>The socket itself, when the step is on it; the rest of the channel is \<open>qs\<close>.\<close>

lemma flows_own:
  assumes "ss' = put_slot (HASH_ID i) s' e ss1" and "slot_of ss1 = slot_of ss" and "out fd ss1 = out fd ss" and "ss_cmds ss1 = ss_cmds ss"
    and "written_to fd e @ dw_bytes s' @ bytes_of (s_high s') = dw_bytes (slot_of ss i) @ bytes_of (s_high (slot_of ss i))"
    and "s_fd s' = s_fd (slot_of ss i)"
  shows "flows i fd [] ss ss'"
  using assms by (simp add: flows_def stream_rest_def)

lemma streaming_active: "streaming i ss \<Longrightarrow> active (slot_of ss i)"
  by (auto simp: streaming_def active_def)

text \<open>A request that is not of the stream, or of a former socket in its slot, is handled elsewhere.\<close>

lemma streaming_elsewhere:
  assumes "streaming i ss" and "core_ok qs ss" and "j \<noteq> i"
  shows "elsewhere i (s_fd (slot_of ss i)) j ss"
proof -
  have "HASH_ID i \<noteq> HASH_ID j" if "s_id (slot_of ss j) = j"
    using assms that by (auto simp: streaming_def slot_of_def)
  moreover have "s_fd (slot_of ss j) \<noteq> s_fd (slot_of ss i)" if "HASH_ID i \<noteq> HASH_ID j" "s_type (slot_of ss j) \<noteq> TYPE_INVALID"
    using assms(1) that by (auto simp: streaming_def slot_of_def)
  ultimately show ?thesis by (auto simp: elsewhere_def)
qed

lemma close_own:
  assumes "close_socket ios i shutdown opaque r ss = Some (c, r', ss')" and "streaming i ss" and "core_ok qs ss"
  shows "\<not> streaming i ss'"
proof -
  let ?s = "slot_of ss i"
  have ok: "sock_ok ?s" "active ?s" using assms core_slot(1) streaming_active by blast+
  obtain c1 r1 s1 e1 where 1: "send_buffer (ss_soi ss) (ss_time ss) ios ?s r = Some (c1, r1, s1, e1)"
    and d: "c1 = SOCKET_CLOSE \<and> closed_by ?s s1 r1 \<or>
       (c1 = - 1 \<and> r1 = r \<or> c1 = SOCKET_WARNING \<and> r1 = nomsg (s_id ?s) (s_opaque ?s)) \<and> kept ?s s1 e1"
    using send_buffer_spec [OF ok] by blast
  have fc: "s_type s2 = TYPE_INVALID" if "force_close s = Some (r2, s2, e2)" for s r2 s2 e2
    using that by (auto simp: force_close_def Let_def split: if_splits)
  have st: "s_type ?s \<noteq> TYPE_INVALID" "s_id ?s = i" using assms(2) by (auto simp: streaming_def)
  have c1: "s_type s1 = TYPE_INVALID" if "c1 \<noteq> - 1" "c1 \<noteq> SOCKET_WARNING" using d that by (auto simp: closed_by_def)
  obtain s' e where ss': "ss' = put_slot (HASH_ID i) s' e ss" and "s_type s' = TYPE_INVALID \<or> s_type s' = TYPE_HALFCLOSE"
  proof (cases "nomore_sending_data ?s")
    case True
    then show ?thesis using assms(1) st fc that by (auto simp: close_socket_def Let_def split: if_splits bind_splits)
  next
    case False
    show ?thesis
    proof (cases "c1 \<noteq> - 1 \<and> c1 \<noteq> SOCKET_WARNING")
      case True
      then have "ss' = put_slot (HASH_ID i) s1 e1 ss" using assms(1) st 1 False by (simp add: close_socket_def Let_def)
      then show ?thesis using that c1 True by blast
    next
      case no: False
      then show ?thesis using assms(1) st 1 False fc that by (auto simp: close_socket_def Let_def split: if_splits bind_splits)
    qed
  qed
  then show ?thesis by (auto simp: streaming_def)
qed

lemma dw_udpconnecting: "dw_bytes (s\<lparr>s_udpconnecting := n\<rparr>) = dw_bytes s"
  by (rule dw_bytes_cong) simp_all

lemma append_high:
  "append_sendbuffer soi (Memory a d) s = Some s' \<Longrightarrow>
   dw_bytes s' = dw_bytes s \<and> bytes_of (s_high s') = bytes_of (s_high s) @ d \<and> s_fd s' = s_fd s"
  by (auto simp: append_sendbuffer_def append_node_def send_object_init_def)

lemma enqueue_own:
  "enqueue soi t ios (Memory a d) True x s = Some (b, s', e) \<Longrightarrow> s_protocol s = PROTOCOL_TCP \<Longrightarrow>
   b \<and> dw_bytes s' = dw_bytes s \<and> bytes_of (s_high s') = bytes_of (s_high s) @ d \<and> s_fd s' = s_fd s"
  by (auto simp: enqueue_def dest: append_high split: if_splits bind_splits)

lemma send_warning_own:
  "send_warning s r = (c, r', s') \<Longrightarrow> dw_bytes s' = dw_bytes s \<and> s_high s' = s_high s \<and> s_fd s' = s_fd s"
  by (auto simp: send_warning_def split: if_splits)

lemma dec_own:
  "dec_sending_ref i ss = Some ss' \<Longrightarrow>
   out fd ss' = out fd ss \<and> dw_bytes (slot_of ss' i) = dw_bytes (slot_of ss i) \<and> s_high (slot_of ss' i) = s_high (slot_of ss i) \<and>
   s_fd (slot_of ss' i) = s_fd (slot_of ss i)"
  by (auto simp: dec_sending_ref_def Let_def split: if_splits bind_splits)

lemma send_own:
  assumes "send_socket ios i (Memory a d) True None r ss = Some (c, r', ss1)" and st: "streaming i ss"
  shows "out fd ss1 = out fd ss \<and> dw_bytes (slot_of ss1 i) = dw_bytes (slot_of ss i) \<and>
    bytes_of (s_high (slot_of ss1 i)) = bytes_of (s_high (slot_of ss i)) @ d \<and> s_fd (slot_of ss1 i) = s_fd (slot_of ss i)"
proof -
  let ?s = "slot_of ss i"
  have tcp: "s_protocol ?s = PROTOCOL_TCP" using st by (simp add: streaming_def)
  have "\<not> (s_type ?s = TYPE_INVALID \<or> s_id ?s \<noteq> i \<or> s_type ?s = TYPE_HALFCLOSE \<or> s_type ?s = TYPE_PACCEPT \<or>
           s_type ?s = TYPE_PLISTEN \<or> s_type ?s = TYPE_LISTEN)" using st by (auto simp: streaming_def)
  then obtain b s1 e where e: "enqueue (ss_soi ss) (ss_time ss) ios (Memory a d) True None ?s = Some (b, s1, e)"
    and s: "(if b then (let (c, r1, s2) = send_warning s1 r in Some (c, r1, put_slot (HASH_ID i) s2 e ss))
             else Some (- 1, r, put_slot (HASH_ID i) s1 e ss)) = Some (c, r', ss1)"
    using assms(1) by (auto simp: send_socket_def Let_def send_object_init_def split: bind_splits)
  obtain c2 r2 s2 where w: "send_warning s1 r = (c2, r2, s2)" by (cases "send_warning s1 r") auto
  from enqueue_own [OF e tcp] enqueue_written [OF e] send_warning_own [OF w] s w show ?thesis by auto
qed

lemma ctrl_cmd_own:
  assumes c: "ctrl_cmd w q r ss = Some (c, r', ss')" and q: "request_id q = Some i" and st: "streaming i ss" and st': "streaming i ss'"
    and co: "core_ok (q # qs) ss" and hi: "high_only i [q]"
  shows "out fd ss' = out fd ss \<and> s_fd (slot_of ss' i) = s_fd (slot_of ss i) \<and>
    dw_bytes (slot_of ss' i) @ bytes_of (s_high (slot_of ss' i)) =
    dw_bytes (slot_of ss i) @ bytes_of (s_high (slot_of ss i)) @ channel_bytes i [q]"
proof -
  have no: "\<not> opens q"
  proof
    assume "opens q"
    then have "i \<in> reserved ss" using co q by (simp add: core_ok_def)
    then show False using st by (auto simp: reserved_def streaming_def)
  qed
  show ?thesis
  proof (cases q)
    case (Req_start j opaque)
    then show ?thesis using c q st
      by (auto simp: ctrl_cmd_def request_id_def start_socket_def streaming_def Let_def split: if_splits bind_splits)
  next
    case (Req_close j b opaque)
    then show ?thesis using c q st st' co close_own by (auto simp: ctrl_cmd_def request_id_def)
  next
    case (Req_send j p)
    then obtain a d where p: "p = Memory a d" "j = i" using co q by (cases p) (auto simp: core_ok_def request_ok_def is_object_def request_id_def)
    obtain c1 r1 ss1 where 1: "send_socket (w_ios w) i (Memory a d) True None r ss = Some (c1, r1, ss1)" "dec_sending_ref i ss1 = Some ss'"
      using c Req_send p by (auto simp: ctrl_cmd_def split: bind_splits)
    show ?thesis using send_own [OF 1(1) st, of fd] dec_own [OF 1(2), of fd] Req_send p by simp
  next
    case (Req_set_udp j a)
    then show ?thesis using c q by (auto simp: ctrl_cmd_def request_id_def set_udp_address_def Let_def dw_udpconnecting split: if_splits bind_splits)
  next
    case (Req_setopt j x y)
    then show ?thesis using c q by (auto simp: ctrl_cmd_def request_id_def setopt_socket_def Let_def)
  qed (use no q hi in \<open>auto simp: opens_def request_id_def high_only_def\<close>)
qed

section \<open>What an event does to the stream\<close>

text \<open>The socket stays open and its bytes move on, or it is closed.\<close>

definition sock_flow :: "sock \<Rightarrow> sock \<Rightarrow> effect list \<Rightarrow> bool" where
  "sock_flow s s' e \<longleftrightarrow>
     s_fd s' = s_fd s \<and> only_to (s_fd s) e \<and>
     (s_type s' \<noteq> TYPE_INVALID \<and> s_protocol s = PROTOCOL_TCP \<and> s_low s = [] \<longrightarrow>
        written e @ dw_bytes s' @ bytes_of (s_high s') = dw_bytes s @ bytes_of (s_high s))"

lemma sock_flow_refl [simp]: "sock_flow s s []"
  by (simp add: sock_flow_def)

lemma force_close_flow: "force_close s = Some (r, s', e) \<Longrightarrow> sock_flow s s' e"
  by (auto simp: sock_flow_def force_close_def Let_def split: if_splits bind_splits option.splits)

lemma forward_tcp_flow: "forward_message_tcp t w s r = Some (c, r', s', e) \<Longrightarrow> sock_flow s s' e"
  by (auto simp: forward_message_tcp_def Let_def dest: force_close_flow split: recv_result.splits if_splits bind_splits)
    (simp add: sock_flow_def)

lemma forward_udp_flow: "forward_message_udp t w s r = Some (c, r', s', e) \<Longrightarrow> sock_flow s s' e"
  by (auto simp: forward_message_udp_def Let_def dest: force_close_flow split: recvfrom_result.splits if_splits bind_splits)
    (simp_all add: sock_flow_def)

lemma report_connect_flow: "report_connect w s = Some (c, r', s', e) \<Longrightarrow> sock_flow s s' e"
  by (auto simp: report_connect_def Let_def dest: force_close_flow split: sum.splits if_splits bind_splits) (simp_all add: sock_flow_def)

lemma send_buffer_flow:
  assumes "sock_ok s" and "active s" and b: "send_buffer soi t ios s r = Some (c, r', s', e)"
  shows "sock_flow s s' e"
proof -
  have "c = SOCKET_CLOSE \<and> closed_by s s' r' \<or> kept s s' e" using send_buffer_spec [OF assms(1,2), of soi t ios r] b by auto
  then show ?thesis using send_buffer_only [OF b] by (auto simp: sock_flow_def closed_by_def kept_def)
qed

lemma socket_event_flow:
  assumes "sock_ok (ss_slot ss h)" and "active (ss_slot ss h)" and "socket_event w e h r ss = Some (c, r', ss')"
  shows "\<exists>s' ef. sock_flow (ss_slot ss h) s' ef \<and> ss_slot ss' = (ss_slot ss)(h := s') \<and> ss_log ss' = ss_log ss @ ef \<and> ss_cmds ss' = ss_cmds ss"
proof -
  let ?s = "ss_slot ss h"
  have put: "ss_slot (put_slot h s' ef ss) = (ss_slot ss)(h := s') \<and> ss_log (put_slot h s' ef ss) = ss_log ss @ ef" for s' ef
    by (simp add: put_slot_def)
  have fin: ?thesis if "sock_flow ?s s' ef"
    and "ss' = put_slot h s' ef ss \<or> (\<exists>ev n. ss' = (put_slot h s' ef ss)\<lparr>ss_ev := ev, ss_event_index := n\<rparr>) \<or>
      (\<exists>n. ss' = (put_slot h s' ef ss)\<lparr>ss_event_index := n\<rparr>)" for s' ef
    using that put by (intro exI [of _ s'] exI [of _ ef]) auto
  show ?thesis
  proof (cases "e_read e")
    case True
    show ?thesis
    proof (cases "s_protocol ?s = PROTOCOL_TCP")
      case t: True
      then obtain x where f: "forward_message_tcp (ss_time ss) w ?s r = Some x"
        using assms(3) True by (auto simp: socket_event_def Let_def split: bind_splits)
      obtain c1 r1 s1 e1 where x: "x = (c1, r1, s1, e1)" by (cases x)
      show ?thesis
        by (rule fin [of s1 e1]) (use forward_tcp_flow assms(3) True t f x in \<open>auto simp: socket_event_def Let_def split: if_splits\<close>)
    next
      case u: False
      then obtain x where f: "forward_message_udp (ss_time ss) w ?s r = Some x"
        using assms(3) True by (auto simp: socket_event_def Let_def split: bind_splits)
      obtain c1 r1 s1 e1 where x: "x = (c1, r1, s1, e1)" by (cases x)
      show ?thesis
        by (rule fin [of s1 e1]) (use forward_udp_flow assms(3) True u f x in \<open>auto simp: socket_event_def Let_def split: if_splits\<close>)
    qed
  next
    case nr: False
    show ?thesis
    proof (cases "e_write e")
      case True
      then obtain x where f: "send_buffer (ss_soi ss) (ss_time ss) (w_ios w) ?s r = Some x"
        using assms(3) nr by (auto simp: socket_event_def Let_def split: bind_splits)
      obtain c1 r1 s1 e1 where x: "x = (c1, r1, s1, e1)" by (cases x)
      show ?thesis
        by (rule fin [of s1 e1]) (use send_buffer_flow [OF assms(1,2)] assms(3) True nr f x in \<open>auto simp: socket_event_def Let_def\<close>)
    next
      case nw: False
      show ?thesis
      proof (cases "e_error e \<or> e_eof e")
        case True
        then obtain x where f: "force_close ?s = Some x"
          using assms(3) nr nw by (auto simp: socket_event_def Let_def split: bind_splits if_splits)
        obtain r1 s1 e1 where x: "x = (r1, s1, e1)" by (cases x)
        show ?thesis
          by (rule fin [of s1 e1]) (use force_close_flow assms(3) True nr nw f x in \<open>auto simp: socket_event_def Let_def split: if_splits\<close>)
      next
        case False
        then have "ss' = ss" using assms(3) nr nw by (simp add: socket_event_def Let_def)
        then show ?thesis by (intro exI [of _ ?s] exI [of _ "[]"]) simp
      qed
    qed
  qed
qed

lemma reserve_frame:
  assumes "reserve_id ss = (j, ss')" and "0 \<le> ss_alloc_id ss" and "room ss" and "s_type (slot_of ss i) \<noteq> TYPE_INVALID"
  shows "untouched i fd ss ss' \<and> ss_cmds ss' = ss_cmds ss \<and> (j < 0 \<or> HASH_ID i \<noteq> HASH_ID j) \<and>
    ss_udp_port ss' = ss_udp_port ss \<and> ss_bound ss' = ss_bound ss"
proof -
  have "j = - 1 \<and> ss' = ss\<lparr>ss_alloc_id := ss_alloc_id ss + 65536\<rparr> \<and> (\<forall>h < MAX_SOCKET. s_type (ss_slot ss h) \<noteq> TYPE_INVALID) \<or>
   ss_alloc_id ss < j \<and> j \<le> ss_alloc_id ss + 65536 \<and> s_type (slot_of ss j) = TYPE_INVALID \<and>
     ss' = put_slot (HASH_ID j)
       ((slot_of ss j)\<lparr>s_type := TYPE_RESERVE, s_id := j, s_protocol := PROTOCOL_UNKNOWN, s_udpconnecting := 0, s_fd := - 1\<rparr>) []
       (ss\<lparr>ss_alloc_id := j\<rparr>)"
    by (rule reserve_id_spec [OF assms(2) _ assms(1)]) (use assms(3) in \<open>simp add: room_def\<close>)
  then show ?thesis using assms(4) by (auto simp: untouched_def slot_of_def)
qed

lemma report_accept_frame:
  assumes "report_accept w h r ss = Some (c, r', ss')" and "0 \<le> ss_alloc_id ss" and "room ss" and "s_type (slot_of ss i) \<noteq> TYPE_INVALID"
    and "h \<noteq> HASH_ID i"
  shows "untouched i fd ss ss' \<and> ss_cmds ss' = ss_cmds ss"
proof (cases "w_accept w")
  case (Accepted fd' name)
  obtain j ss1 where r: "reserve_id ss = (j, ss1)" by fastforce
  note f = reserve_frame [OF r assms(2-4), of fd]
  show ?thesis
  proof (cases "j < 0")
    case True
    then show ?thesis using assms(1) Accepted r f by (auto simp: report_accept_def untouched_def)
  next
    case False
    then have h: "HASH_ID i \<noteq> HASH_ID j" using f by simp
    obtain x ss2 where n: "new_fd j fd' PROTOCOL_TCP (s_opaque (ss_slot ss h)) False False ss1 = Some (x, ss2)"
      using assms(1) Accepted r False by (auto simp: report_accept_def Let_def split: bind_splits)
    have "untouched i fd ss1 ss2" "ss_cmds ss2 = ss_cmds ss1"
      using new_fd_frame [OF n, of fd i] new_fd_cmds [OF n] h by (simp_all add: untouched_def)
    then show ?thesis using assms(1,5) Accepted r False n f h by (auto simp: report_accept_def untouched_def Let_def split: option.splits)
  qed
qed (use assms(1) in \<open>auto simp: report_accept_def Let_def\<close>)

lemma handle_event_flow:
  assumes hd: "handle_event w e h r ss = Some (c, r', ss')" and st: "streaming i ss" and st': "s_type (slot_of ss' i) \<noteq> TYPE_INVALID"
    and co: "core_ok qs ss" and h: "h < MAX_SOCKET" "active (ss_slot ss h)" and rm: "room ss"
  shows "flows i (s_fd (slot_of ss i)) [] ss ss' \<and> ss_cmds ss' = ss_cmds ss"
proof -
  let ?s = "ss_slot ss h"
  have ok: "sock_ok ?s" and al: "0 \<le> ss_alloc_id ss" using co h by (auto simp: core_ok_def)
  have one: "flows i (s_fd (slot_of ss i)) [] ss ss' \<and> ss_cmds ss' = ss_cmds ss"
    if f: "sock_flow ?s s' ef" and sl: "ss_slot ss' = (ss_slot ss)(h := s')" and lg: "ss_log ss' = ss_log ss @ ef"
      and cm: "ss_cmds ss' = ss_cmds ss" for s' ef
  proof (cases "h = HASH_ID i")
    case True
    then have s: "?s = slot_of ss i" and s': "slot_of ss' i = s'" using sl by (simp_all add: slot_of_def)
    then show ?thesis using f st st' lg cm only_to_own [of "s_fd (slot_of ss i)" ef]
      by (simp add: flows_def stream_rest_def sock_flow_def streaming_def out_def)
  next
    case False
    then have "s_fd ?s \<noteq> s_fd (slot_of ss i)" using st h by (auto simp: streaming_def active_def)
    then have "written_to (s_fd (slot_of ss i)) ef = []" using f only_to_other by (auto simp: sock_flow_def)
    then show ?thesis using False sl lg cm by (simp add: flows_def stream_rest_def slot_of_def out_def)
  qed
  show ?thesis
  proof (cases "s_type ?s = TYPE_CONNECTING")
    case True
    then obtain x where x: "report_connect w ?s = Some x" using hd by (auto simp: handle_event_def Let_def split: bind_splits)
    obtain c1 r1 s1 e1 where x': "x = (c1, r1, s1, e1)" by (cases x)
    show ?thesis
      by (rule one [of s1 e1])
        (use hd True x x' report_connect_flow in \<open>auto simp: handle_event_def put_slot_def Let_def\<close>)
  next
    case nc: False
    show ?thesis
    proof (cases "s_type ?s = TYPE_LISTEN")
      case True
      then have hi: "h \<noteq> HASH_ID i" using st by (auto simp: streaming_def slot_of_def)
      obtain x where x: "report_accept w h r ss = Some x" using hd True by (auto simp: handle_event_def Let_def split: bind_splits)
      obtain c1 r1 ss1 where x': "x = (c1, r1, ss1)" by (cases x)
      have "s_type (slot_of ss i) \<noteq> TYPE_INVALID" using st by (auto simp: streaming_def)
      from report_accept_frame [OF x [unfolded x'] al rm this hi, of "s_fd (slot_of ss i)"]
      have "untouched i (s_fd (slot_of ss i)) ss ss' \<and> ss_cmds ss' = ss_cmds ss"
        using hd True x x' by (simp add: handle_event_def Let_def)
      then show ?thesis by (simp add: flows_untouched)
    next
      case False
      then have "socket_event w e h r ss = Some (c, r', ss')" using hd nc h by (simp add: handle_event_def active_def Let_def)
      from socket_event_flow [OF ok h(2) this] one show ?thesis by blast
    qed
  qed
qed

lemma streaming_fields [simp]:
  "streaming i (ss\<lparr>ss_ev := ev\<rparr>) = streaming i ss" "streaming i (ss\<lparr>ss_event_index := n\<rparr>) = streaming i ss"
  "streaming i (ss\<lparr>ss_checkctrl := b\<rparr>) = streaming i ss" "streaming i (clear_closed_event j c ss) = streaming i ss"
  by (simp_all add: streaming_def clear_closed_event_def)

lemma flows_fields [simp]:
  "flows i fd bs (ss\<lparr>ss_ev := ev\<rparr>) ss' = flows i fd bs ss ss'" "flows i fd bs (ss\<lparr>ss_event_index := n\<rparr>) ss' = flows i fd bs ss ss'"
  "flows i fd bs (ss\<lparr>ss_checkctrl := b\<rparr>) ss' = flows i fd bs ss ss'" "flows i fd bs ss (clear_closed_event j c ss') = flows i fd bs ss ss'"
  by (simp_all add: flows_def stream_rest_def clear_closed_event_def)

lemma room_fields [simp]: "room (ss\<lparr>ss_event_index := n\<rparr>) = room ss" "room (ss\<lparr>ss_ev := ev\<rparr>) = room ss" "room (ss\<lparr>ss_checkctrl := b\<rparr>) = room ss"
  by (simp_all add: room_def)

lemma poll_event_flow:
  assumes p: "poll_event w r mo ss = Some (c, r', mo', ss')" and st: "streaming i ss" and st': "s_type (slot_of ss' i) \<noteq> TYPE_INVALID"
    and sv: "server_ok ss" and rm: "room ss"
  shows "flows i (s_fd (slot_of ss i)) [] ss ss' \<and> ss_cmds ss' = ss_cmds ss"
proof -
  let ?ss = "ss\<lparr>ss_event_index := ss_event_index ss + 1\<rparr>"
  obtain e where e: "arr_get (ss_ev ss) (ss_event_index ss) = Some e" using p by (auto simp: poll_event_def Let_def split: bind_splits)
  then have l: "ss_event_index ss < length (ss_ev ss)" "ss_ev ss ! ss_event_index ss = e" by (auto simp: arr_get_def split: if_splits)
  show ?thesis
  proof (cases "e_s e")
    case None
    then show ?thesis using p e by (auto simp: poll_event_def Let_def flows_def stream_rest_def)
  next
    case (Some h)
    have "e \<in> set (left_events ss)" using l by (simp add: left_events_def flip: Cons_nth_drop_Suc)
    then have h: "h < MAX_SOCKET" "active (ss_slot ?ss h)" using sv Some by (auto simp: server_ok_def events_ok_def event_ok_def)
    obtain x where x: "handle_event w e h r ?ss = Some x" using p e Some by (auto simp: poll_event_def Let_def split: bind_splits)
    obtain c1 r1 ss1 where x': "x = (c1, r1, ss1)" by (cases x)
    have s1: "ss1 = ss'" using p e Some x x' by (auto simp: poll_event_def Let_def)
    have "flows i (s_fd (slot_of ?ss i)) [] ?ss ss' \<and> ss_cmds ss' = ss_cmds ?ss"
      by (rule handle_event_flow [OF _ _ st' _ h]) (use x x' s1 st sv rm in \<open>auto simp: server_ok_def\<close>)
    then show ?thesis by simp
  qed
qed

lemma poll_round_flow:
  assumes p: "poll_round w r mo ss = Some (c, r', mo', ss')" and st: "streaming i ss" and st': "streaming i ss'"
    and sv: "server_ok ss" and w: "wait_ok w ss" and rm: "room ss"
  shows "flows i (s_fd (slot_of ss i)) [] ss ss'"
proof (cases "ss_checkctrl ss \<and> ss_cmds ss \<noteq> []")
  case True
  then obtain q qs where q: "ss_cmds ss = q # qs" by (cases "ss_cmds ss") auto
  let ?ss = "ss\<lparr>ss_cmds := qs\<rparr>"
  let ?fd = "s_fd (slot_of ss i)"
  obtain x where x: "ctrl_cmd w q r ?ss = Some x" using p True q by (auto simp: poll_round_def split: bind_splits)
  obtain c1 r1 ss1 where x': "x = (c1, r1, ss1)" by (cases x)
  have cc: "ctrl_cmd w q r ?ss = Some (c1, r1, ss1)" using x x' by simp
  have s1: "ss' = ss1 \<or> ss' = clear_closed_event (sm_id r1) c1 ss1" using p True q x x' by (auto simp: poll_round_def split: if_splits)
  have core: "core_ok (q # qs) ?ss" using sv q by (simp add: server_ok_def)
  have st0: "streaming i ?ss" using st q by (simp add: streaming_def high_only_def)
  have st1: "streaming i ss1" using st' s1 by auto
  have hi: "high_only i [q]" using st q by (simp add: streaming_def high_only_def)
  have cm: "ss_cmds ss1 = qs" using ctrl_cmd_cmds [OF cc] by simp
  have "flows i ?fd [] ss ss1"
  proof (cases "request_id q = Some i")
    case True
    from ctrl_cmd_own [OF cc True st0 st1 core hi, of ?fd] cm q show ?thesis by (simp add: flows_def stream_rest_def)
  next
    case False
    have el: "elsewhere i ?fd j ?ss" if "request_id q = Some j" for j
      using streaming_elsewhere [OF st0 core, of j] False that by auto
    have op: "HASH_ID i \<noteq> HASH_ID j" if "opens q" "request_id q = Some j" for j
    proof -
      have "channel_ok (reserved ?ss) (q # qs)" using core unfolding core_ok_def by blast
      then have "j \<in> reserved ?ss" using that by simp
      then have "s_type (slot_of ss j) = TYPE_RESERVE" unfolding reserved_def by simp
      moreover have "s_type (slot_of ss i) \<noteq> TYPE_RESERVE" using streaming_active [OF st] by (simp add: active_def)
      ultimately show ?thesis by (auto simp: slot_of_def)
    qed
    have nb: "channel_bytes i [q] = []" using False by (cases q) (simp_all add: request_id_def split: payload.split)
    have "untouched i ?fd ?ss ss1"
    proof (cases "request_id q")
      case None
      then show ?thesis using ctrl_cmd_frame [OF cc, of i i ?fd] by simp
    next
      case (Some j)
      show ?thesis by (rule ctrl_cmd_frame [OF cc el op]) (use Some in simp_all)
    qed
    then show ?thesis using cm q nb by (simp add: flows_def stream_rest_def untouched_def)
  qed
  then show ?thesis using s1 by auto
next
  case False
  let ?ss = "ss\<lparr>ss_checkctrl := False\<rparr>"
  have sv1: "server_ok ?ss" using sv by (simp add: server_ok_def)
  have ty: "s_type (slot_of ss' i) \<noteq> TYPE_INVALID" using st' by (auto simp: streaming_def)
  show ?thesis
  proof (cases "ss_event_index ss = length (ss_ev ss)")
    case nx: False
    then have "poll_event w r mo ?ss = Some (c, r', mo', ss')" using p False by (simp add: poll_round_def Let_def)
    from poll_event_flow [OF this _ ty sv1] st rm show ?thesis by simp
  next
    case ex: True
    obtain some ss2 where wt: "wait_events w ?ss = (some, ss2)" by fastforce
    have ss2: "server_ok ss2 \<and> streaming i ss2 \<and> room ss2 \<and> slot_of ss2 = slot_of ss \<and> out (s_fd (slot_of ss i)) ss2 = out (s_fd (slot_of ss i)) ss \<and> ss_cmds ss2 = ss_cmds ss"
      using wt sv w st rm by (auto simp: wait_events_def server_ok_def events_ok_def left_events_def wait_ok_def event_ok_def event_slots_def
          map_filter_simps core_ok_def reserved_def slot_of_def out_def split: wait_result.splits)
    show ?thesis
    proof (cases some)
      case True
      then have "poll_event w r False ss2 = Some (c, r', mo', ss')" using p wt ex False by (simp add: poll_round_def Let_def)
      from poll_event_flow [OF this _ ty] ss2 have "flows i (s_fd (slot_of ss2 i)) [] ss2 ss'" by simp
      moreover have "stream_rest i ss2 = stream_rest i ss" using ss2 by (simp add: stream_rest_def)
      ultimately show ?thesis using ss2 by (simp add: flows_def)
    next
      case no: False
      then have "ss' = ss2" using p wt ex False by (auto simp: poll_round_def Let_def)
      then show ?thesis using ss2 by (simp add: flows_def stream_rest_def)
    qed
  qed
qed

section \<open>What a call of a worker does to the stream\<close>

text \<open>The bytes that a call adds to the stream.\<close>

definition buffer_data :: "sendbuffer \<Rightarrow> u8 list" where
  "buffer_data b = (case b of Owned (Memory a d) \<Rightarrow> d | Owned (Object a) \<Rightarrow> [] | Raw_pointer a d \<Rightarrow> d)"

definition sent_by :: "int \<Rightarrow> socket_call \<Rightarrow> u8 list" where
  "sent_by i c = (case c of Send fresh ios j b \<Rightarrow> if j = i then buffer_data b else [] | _ \<Rightarrow> [])"

lemma channel_request: "server_ok ss \<Longrightarrow> ss_cmds (send_request q ss) = ss_cmds ss @ [q]"
  by (simp add: send_request_cmds)

lemma flows_request:
  "server_ok ss \<Longrightarrow> channel_bytes i [q] = bs \<Longrightarrow> flows i fd bs ss (send_request q ss)"
  by (simp add: flows_def stream_rest_def channel_request)

text \<open>While sends of \<open>i\<close> wait in the channel, its counter is not zero, so none goes past them.\<close>

lemma no_sends_no_bytes: "sends i qs = 0 \<Longrightarrow> channel_bytes i qs = []"
  by (induction qs) (auto simp: sends_def counted_def split: request.split payload.split if_splits)

lemma direct_own:
  assumes d: "direct_write fresh ios i b ss = Some (n, ss')" and st: "streaming i ss" and sv: "server_ok ss"
    and c: "can_direct_write (slot_of ss i) i" and b: "\<forall>p. b = Owned p \<longrightarrow> \<not> is_object p"
  shows "flows i (s_fd (slot_of ss i)) (buffer_data b) ss ss'"
proof -
  let ?s = "slot_of ss i"
  have e: "s_high ?s = []" "s_dw_buffer ?s = None" "s_sending ?s AND mask 16 = 0"
    using c by (simp_all add: can_direct_write_def nomore_sending_data_def send_buffer_empty_def)
  have "count_ok (ss_cmds ss) ?s" using sv core_slot(2) [of "ss_cmds ss" ss i] st by (auto simp: server_ok_def streaming_def)
  then have "sends i (ss_cmds ss) = 0" using e(3) st by (auto simp: count_ok_def streaming_def)
  then have ch: "channel_bytes i (ss_cmds ss) = []" by (rule no_sends_no_bytes)
  have rest: "stream_rest i ss = []" using e ch by (simp add: stream_rest_def dw_bytes_def)
  obtain a a' where ad: "send_object_init_from_sendbuffer (ss_soi ss) b = Some (a, buffer_data b)" "clone_buffer fresh b = Memory a' (buffer_data b)"
    using b by (cases b) (auto simp: send_object_init_from_sendbuffer_def send_object_init_def clone_buffer_def buffer_data_def is_object_def
      split: payload.splits)
  let ?n = "io_count ios (length (buffer_data b))"
  have n: "?n \<le> length (buffer_data b)" by (simp add: io_count_def split: list.split io.split)
  have tcp: "s_protocol ?s = PROTOCOL_TCP" using st by (simp add: streaming_def)
  have dw: "dw_bytes (stat_write t k ?s) = []" for t k using e(2) by (simp add: dw_bytes_def)
  show ?thesis
  proof (cases "?n = length (buffer_data b)")
    case True
    then show ?thesis using d tcp ad rest e ch dw
      by (cases "?n = 0") (auto simp: direct_write_def Let_def flows_def stream_rest_def)
  next
    case False
    then show ?thesis using d tcp ad rest e ch n
      by (cases "?n = 0") (auto simp: direct_write_def Let_def flows_def stream_rest_def dw_bytes_def)
  qed
qed

lemma queue_flow:
  assumes q: "queue_send j q ss = Some ss'" and sv: "server_ok ss" and cb: "channel_bytes i [q] = bs"
  shows "flows i fd bs ss ss'"
proof -
  obtain s where s: "inc_sending_ref j (slot_of ss j) = Some s" and ss': "ss' = send_request q (put_slot (HASH_ID j) s [] ss)"
    using q by (auto simp: queue_send_def split: bind_splits)
  have keep: "dw_bytes s = dw_bytes (slot_of ss j) \<and> s_high s = s_high (slot_of ss j) \<and> s_fd s = s_fd (slot_of ss j)"
    using s by (auto simp: inc_sending_ref_def split: if_splits)
  have "swap16 (ss_udp_port ss) = ss_bound ss" using sv by (simp add: server_ok_def core_ok_def)
  then have cm: "ss_cmds ss' = ss_cmds ss @ [q]" by (simp add: ss' send_request_def)
  have "slot_of ss' i = (if HASH_ID i = HASH_ID j then s else slot_of ss i)" by (simp add: ss')
  moreover have "slot_of ss j = slot_of ss i" if "HASH_ID i = HASH_ID j" using that by (simp add: slot_of_def)
  ultimately show ?thesis using keep cm cb by (auto simp: flows_def stream_rest_def ss')
qed

lemma flows_open:
  assumes r: "reserve_id (emit e ss) = (j, ss1)" and sv: "server_ok ss" and rm: "room ss" and st: "streaming i ss"
    and e: "written_to fd e = []" and cb: "channel_bytes i [q] = []"
  shows "flows i fd [] ss (emit e' ss1) \<longleftrightarrow> written_to fd e' = []" "flows i fd [] ss ss1" "flows i fd [] ss (send_request q ss1)"
proof -
  have "0 \<le> ss_alloc_id (emit e ss)" "room (emit e ss)" "s_type (slot_of (emit e ss) i) \<noteq> TYPE_INVALID" "swap16 (ss_udp_port ss) = ss_bound ss"
    using sv rm st by (auto simp: server_ok_def core_ok_def room_def streaming_def)
  from reserve_frame [OF r this(1-3), of fd] this(4) e cb
  show "flows i fd [] ss (emit e' ss1) \<longleftrightarrow> written_to fd e' = []" "flows i fd [] ss ss1" "flows i fd [] ss (send_request q ss1)"
    by (auto simp: flows_def stream_rest_def untouched_def send_request_def)
qed

lemma close_effects: "\<exists>fd' e. do_listen b ss = (fd', emit e ss) \<and> written_to fd e = []" "\<exists>fd' e. do_bind b ss = (fd', emit e ss) \<and> written_to fd e = []"
  by (auto simp: do_listen_def do_bind_def Let_def emit_def intro: exI [of _ "[]"])

lemma send_flow:
  assumes s: "socket_server_send fresh ios j b ss = Some (n, ss')" and st: "streaming i ss" and sv: "server_ok ss"
    and b: "\<forall>p. b = Owned p \<longrightarrow> \<not> is_object p"
  shows "flows i (s_fd (slot_of ss i)) (if j = i then buffer_data b else []) ss ss'"
proof -
  let ?fd = "s_fd (slot_of ss i)"
  have core: "core_ok (ss_cmds ss) ss" using sv by (simp add: server_ok_def)
  have cb: "channel_bytes i [Req_send j (clone_buffer fresh b)] = (if j = i then buffer_data b else [])"
    using b by (cases b) (auto simp: clone_buffer_def buffer_data_def is_object_def split: payload.splits)
  show ?thesis
  proof (cases "s_id (slot_of ss j) \<noteq> j \<or> s_type (slot_of ss j) = TYPE_INVALID")
    case True
    then have "j \<noteq> i" using st by (auto simp: streaming_def)
    then show ?thesis using s True by (auto simp: socket_server_send_def Let_def flows_def stream_rest_def)
  next
    case False
    show ?thesis
    proof (cases "can_direct_write (slot_of ss j) j \<and> \<not> s_dw_lock (slot_of ss j)")
      case True
      then have d: "direct_write fresh ios j b ss = Some (n, ss')" using s False by (simp add: socket_server_send_def Let_def)
      show ?thesis
      proof (cases "j = i")
        case True
        then show ?thesis using direct_own [OF d [unfolded True] st sv _ b] \<open>can_direct_write _ _ \<and> _\<close> by simp
      next
        case ji: False
        have "HASH_ID i \<noteq> HASH_ID j" "s_fd (slot_of ss j) \<noteq> ?fd"
          using streaming_elsewhere [OF st core ji] False by (simp_all add: elsewhere_def)
        then have "untouched i ?fd ss ss' \<and> ss_cmds ss' = ss_cmds ss"
          using d by (auto simp: direct_write_def untouched_def Let_def split: bind_splits option.splits if_splits)
        then show ?thesis using ji by (simp add: flows_untouched)
      qed
    next
      case nd: False
      then obtain ss1 where "queue_send j (Req_send j (clone_buffer fresh b)) ss = Some ss1" "ss' = ss1"
        using s False by (auto simp: socket_server_send_def Let_def split: bind_splits)
      then show ?thesis using queue_flow [OF _ sv cb] by blast
    qed
  qed
qed

lemma send_low_flow:
  assumes "socket_server_send_lowpriority fresh j b ss = Some (n, ss')" and sv: "server_ok ss"
  shows "flows i fd [] ss ss'"
proof (cases "s_id (slot_of ss j) \<noteq> j \<or> s_type (slot_of ss j) = TYPE_INVALID")
  case True
  then show ?thesis using assms by (auto simp: socket_server_send_lowpriority_def Let_def flows_def stream_rest_def)
next
  case False
  then obtain ss1 where "queue_send j (Req_send_low j (clone_buffer fresh b)) ss = Some ss1" "ss' = ss1"
    using assms(1) by (auto simp: socket_server_send_lowpriority_def Let_def split: bind_splits)
  then show ?thesis using queue_flow [OF _ sv, of j "Req_send_low j (clone_buffer fresh b)" ss1 i "[]"] by simp
qed

lemma flows_put:
  assumes "dw_bytes s' = dw_bytes (slot_of ss j)" and "s_high s' = s_high (slot_of ss j)" and "s_fd s' = s_fd (slot_of ss j)"
    and "written_to fd e = []"
  shows "flows i fd [] ss (put_slot (HASH_ID j) s' e ss)"
  using assms by (auto simp: flows_def stream_rest_def slot_of_def)

lemma dw_stat_write [simp]: "dw_bytes (stat_write t n s) = dw_bytes s"
  by (rule dw_bytes_cong) simp_all

lemma udp_send_flow:
  assumes "socket_server_udp_send fresh ios j ad b ss = Some (n, ss')" and sv: "server_ok ss"
  shows "flows i fd [] ss ss'"
proof -
  have em: "flows i fd [] ss (emit (free_buffer b) ss)" by (simp add: flows_def stream_rest_def)
  have rq: "flows i fd [] ss (send_request (Req_send_udp j x y) ss)" for x y by (rule flows_request [OF sv]) simp
  have pt: "flows i fd [] ss (put_slot (HASH_ID j) (stat_write t k (slot_of ss j)) (Sent_to x d sa # free_buffer b) ss)" for t k x d sa
    by (rule flows_put) simp_all
  show ?thesis using assms(1) em rq pt
    by (auto simp: socket_server_udp_send_def Let_def split: if_splits bind_splits option.splits list.splits io.splits)
qed

lemma udp_connect_flow:
  assumes "socket_server_udp_connect gai j ss = (n, ss')" and sv: "server_ok ss"
  shows "flows i fd [] ss ss'"
proof -
  let ?ss = "put_slot (HASH_ID j) ((slot_of ss j)\<lparr>s_udpconnecting := s_udpconnecting (slot_of ss j) + 1\<rparr>) [] ss"
  have pt: "flows i fd [] ss ?ss" by (rule flows_put) (simp_all add: dw_udpconnecting)
  have "swap16 (ss_udp_port ss) = ss_bound ss" using sv by (simp add: server_ok_def core_ok_def)
  then have "ss_cmds (send_request q ?ss) = ss_cmds ss @ [q]" for q by (simp add: send_request_def)
  then have "flows i fd [] ss (send_request (Req_set_udp j x) ?ss)" for x using pt by (simp add: flows_def stream_rest_def)
  then show ?thesis using assms(1) pt
    by (auto simp: socket_server_udp_connect_def flows_def stream_rest_def Let_def split: if_splits option.splits)
qed

lemma flows_refl [simp]: "flows i fd [] ss ss"
  by (simp add: flows_def)

lemma perform_flow:
  assumes p: "perform c ss = Some ss'" and st: "streaming i ss" and st': "streaming i ss'" and sv: "server_ok ss" and a: "allowed c ss"
  shows "flows i (s_fd (slot_of ss i)) (sent_by i c) ss ss'"
proof -
  let ?fd = "s_fd (slot_of ss i)"
  have rq: "flows i ?fd [] ss (send_request q ss)" if "channel_bytes i [q] = []" for q
    by (rule flows_request [OF sv that])
  have opn: "flows i ?fd [] ss (if j < 0 then emit e' ss1 else send_request q ss1)"
    if "reserve_id (emit e ss) = (j, ss1)" "room ss" "written_to ?fd e = []" "written_to ?fd e' = []" "channel_bytes i [q] = []" for e j ss1 e' q
    using flows_open [OF that(1) sv that(2) st that(3,5)] that(4) by (cases "j < 0") simp_all
  have em0: "emit [] ss = ss" for ss by (simp add: emit_def)
  show ?thesis
  proof (cases c)
    case (Connect opaque ad port)
    obtain j ss1 where r: "reserve_id ss = (j, ss1)" by fastforce
    have "flows i ?fd [] ss (if j < 0 then emit [] ss1 else send_request (Req_open j port opaque ad) ss1)"
      by (rule opn [of "[]"]) (use r a Connect em0 in \<open>simp_all add: allowed_def\<close>)
    then show ?thesis using p Connect r em0
      by (auto simp: perform_def sent_by_def socket_server_connect_def open_request_def Let_def split: if_splits)
  next
    case (Listen opaque b)
    obtain fd' e where l: "do_listen b ss = (fd', emit e ss)" "written_to ?fd e = []" using close_effects(1) by blast
    obtain j ss1 where r: "reserve_id (emit e ss) = (j, ss1)" by fastforce
    have "flows i ?fd [] ss (if j < 0 then emit [Close_fd fd'] ss1 else send_request (Req_listen j fd' opaque) ss1)"
      by (rule opn [OF r]) (use l a Listen in \<open>simp_all add: allowed_def\<close>)
    moreover have "flows i ?fd [] ss (emit e ss)" using l(2) by (simp add: flows_def stream_rest_def)
    ultimately show ?thesis using p Listen r l
      by (auto simp: perform_def sent_by_def socket_server_listen_def Let_def split: if_splits)
  next
    case (Bind opaque fd')
    obtain j ss1 where r: "reserve_id ss = (j, ss1)" by fastforce
    have "flows i ?fd [] ss (if j < 0 then emit [] ss1 else send_request (Req_bind j fd' opaque) ss1)"
      by (rule opn [of "[]"]) (use r a Bind em0 in \<open>simp_all add: allowed_def\<close>)
    then show ?thesis using p Bind r em0
      by (auto simp: perform_def sent_by_def socket_server_bind_def Let_def split: if_splits)
  next
    case (Udp opaque bound b)
    have "\<exists>fd' e. (if bound then do_bind b ss else (b_fd b, ss)) = (fd', emit e ss) \<and> written_to ?fd e = []"
      using close_effects(2) by (cases bound) (auto simp: em0 intro: exI [of _ "[]"])
    then obtain fd' e where l: "(if bound then do_bind b ss else (b_fd b, ss)) = (fd', emit e ss)" "written_to ?fd e = []" by blast
    obtain j ss1 where r: "reserve_id (emit e ss) = (j, ss1)" by fastforce
    have "flows i ?fd [] ss (if j < 0 then emit [Close_fd fd'] ss1 else send_request (Req_udp j fd' (bound \<and> b_inet6 b) opaque) ss1)"
      by (rule opn [OF r]) (use l a Udp in \<open>simp_all add: allowed_def\<close>)
    moreover have "flows i ?fd [] ss (emit e ss)" using l(2) by (simp add: flows_def stream_rest_def)
    ultimately show ?thesis using p Udp r l
      by (auto simp: perform_def sent_by_def socket_server_udp_def Let_def split: if_splits)
  next
    case (Start opaque j)
    then show ?thesis using p rq by (auto simp: perform_def sent_by_def socket_server_start_def)
  next
    case (Close opaque j)
    then show ?thesis using p rq by (auto simp: perform_def sent_by_def socket_server_close_def)
  next
    case (Shutdown opaque j)
    then show ?thesis using p rq by (auto simp: perform_def sent_by_def socket_server_shutdown_def)
  next
    case (Nodelay j)
    then show ?thesis using p rq by (auto simp: perform_def sent_by_def socket_server_nodelay_def)
  next
    case Exit
    then show ?thesis using p rq by (auto simp: perform_def sent_by_def socket_server_exit_def)
  next
    case (Send fresh ios j b)
    have b: "\<forall>p. b = Owned p \<longrightarrow> \<not> is_object p" using a Send by (simp add: allowed_def send_allowed_def)
    obtain n where s: "socket_server_send fresh ios j b ss = Some (n, ss')" using p Send by (auto simp: perform_def)
    show ?thesis using send_flow [OF s st sv b] Send by (simp add: sent_by_def)
  next
    case (Send_low fresh j b)
    then show ?thesis using p send_low_flow [OF _ sv] by (auto simp: perform_def sent_by_def)
  next
    case (Send_udp fresh ios j ad b)
    then show ?thesis using p udp_send_flow [OF _ sv] by (auto simp: perform_def sent_by_def)
  next
    case (Udp_connect gai j)
    have "socket_server_udp_connect gai j ss = (fst (socket_server_udp_connect gai j ss), ss')" using p Udp_connect by (auto simp: perform_def)
    from udp_connect_flow [OF this sv] show ?thesis using Udp_connect by (simp add: sent_by_def)
  next
    case (Update_time t)
    then show ?thesis using p by (auto simp: perform_def sent_by_def socket_server_updatetime_def flows_def stream_rest_def)
  next
    case (Poll w r mo)
    then obtain c1 r1 mo1 where "poll_round w r mo ss = Some (c1, r1, mo1, ss')" using p by (auto simp: perform_def)
    from poll_round_flow [OF this st st' sv] a Poll show ?thesis by (simp add: allowed_def sent_by_def)
  qed
qed

text \<open>A run during which the stream \<open>i\<close> is open: it takes \<open>bs\<close> to send.\<close>

inductive stream_run :: "int \<Rightarrow> server \<Rightarrow> u8 list \<Rightarrow> server \<Rightarrow> bool" where
  opened: "server_run ss \<Longrightarrow> streaming i ss \<Longrightarrow> stream_run i ss [] ss"
| called: "stream_run i ss bs ss1 \<Longrightarrow> allowed c ss1 \<Longrightarrow> perform c ss1 = Some ss' \<Longrightarrow> streaming i ss' \<Longrightarrow>
    stream_run i ss (bs @ sent_by i c) ss'"

lemma stream_run_flows: "stream_run i ss bs ss' \<Longrightarrow> server_run ss' \<and> streaming i ss' \<and> flows i (s_fd (slot_of ss i)) bs ss ss'"
proof (induction rule: stream_run.induct)
  case (called i ss bs ss1 c ss')
  have "flows i (s_fd (slot_of ss1 i)) (sent_by i c) ss1 ss'"
    by (rule perform_flow [OF called(3)]) (use called server_run_ok in auto)
  moreover have "server_run ss'" by (rule server_run.performed) (use called in auto)
  ultimately show ?case using called by (simp add: flows_def)
qed simp

end
