(* ===== verification/SocketTheorems.thy ===== *)
theory SocketTheorems
  imports SocketStream
begin

text \<open>
  The properties of the socket server: no call fails in a run, streams keep their order, a half-closed stream is drained,
  ids are fresh, and the four ways in which the code leaves these conditions.
\<close>

section \<open>Draining a stream\<close>

text \<open>The buffers and bytes that are left, of one list and of both.\<close>

definition list_work :: "bool \<Rightarrow> sock \<Rightarrow> nat" where
  "list_work hi s = length (bytes_of (wl hi s)) + length (wl hi s)"

definition work :: "sock \<Rightarrow> nat" where
  "work s = list_work True s + list_work False s"

definition no_failure :: "io list \<Rightarrow> bool" where
  "no_failure ios \<longleftrightarrow> Failed \<notin> set ios"

text \<open>A writable event at which the system takes at least one byte.\<close>

definition takes_some :: "io list \<Rightarrow> bool" where
  "takes_some ios \<longleftrightarrow> (\<exists>n rest. ios = Sent (Suc n) # rest) \<and> no_failure ios"

lemma send_list_tcp_work:
  "no_failure ios \<Longrightarrow>
   \<exists>ios' s' e. send_list_tcp t hi ios s r = Some (- 1, ios', r, s', e) \<and> no_failure ios' \<and> list_work hi s' \<le> list_work hi s \<and>
     (wl hi s = [] \<longrightarrow> ios' = ios \<and> s' = s \<and> e = []) \<and> (takes_some ios \<and> wl hi s \<noteq> [] \<longrightarrow> list_work hi s' < list_work hi s)"
proof (induction ios arbitrary: s)
  case Nil
  then show ?case by (simp add: takes_some_def)
next
  case (Cons x ios)
  then have nf: "no_failure ios" "x \<noteq> Failed" by (auto simp: no_failure_def)
  show ?case
  proof (cases "wl hi s")
    case Nil
    then show ?thesis using Cons.prems by simp
  next
    case w: (Cons w ws)
    show ?thesis
    proof (cases x)
      case Intr
      obtain ios' s' e where "send_list_tcp t hi ios s r = Some (- 1, ios', r, s', e)" "no_failure ios'" "list_work hi s' \<le> list_work hi s"
        using Cons.IH [OF nf(1)] by blast
      then show ?thesis using Intr w by (simp add: takes_some_def)
    next
      case (Sent n)
      define k where "k = min n (length (wb_data w))"
      let ?s = "(stat_write t k s)\<lparr>s_wb_size := s_wb_size s - int k\<rparr>"
      show ?thesis
      proof (cases "k = length (wb_data w)")
        case True
        obtain ios' s' e where 1: "send_list_tcp t hi ios (set_wl hi ws ?s) r = Some (- 1, ios', r, s', e)" "no_failure ios'"
          and 2: "list_work hi s' \<le> list_work hi (set_wl hi ws ?s)" using Cons.IH [OF nf(1)] by blast
        have "list_work hi (set_wl hi ws ?s) < list_work hi s" using w by (simp add: list_work_def)
        then show ?thesis using 1 2 w Sent True unfolding k_def by (simp add: Let_def)
      next
        case False
        then have k: "k = n" "n < length (wb_data w)" by (auto simp: k_def min_def split: if_splits)
        let ?s' = "set_wl hi (w\<lparr>wb_ptr := wb_ptr w + k, wb_data := drop k (wb_data w)\<rparr> # ws) ?s"
        have "send_list_tcp t hi (x # ios) s r = Some (- 1, ios, r, ?s', [Written (s_fd s) (take k (wb_data w))])"
          using w Sent k by (simp add: Let_def)
        moreover have "list_work hi ?s' \<le> list_work hi s" "0 < n \<Longrightarrow> list_work hi ?s' < list_work hi s" using w k by (simp_all add: list_work_def)
        ultimately show ?thesis using Sent w nf by (auto simp: takes_some_def)
      qed
    qed (use w nf in \<open>auto simp: takes_some_def\<close>)
  qed
qed

text \<open>The writable events of a stream, one after the other, until it is closed.\<close>

fun write_events :: "object_interface option \<Rightarrow> u64 \<Rightarrow> socket_message \<Rightarrow> io list list \<Rightarrow> sock \<Rightarrow> (int \<times> sock \<times> effect list) option" where
  "write_events soi t r [] s = Some (- 1, s, [])"
| "write_events soi t r (ios # iss) s = do {
     (c, r1, s1, e) \<leftarrow> send_buffer soi t ios s r;
     if c = SOCKET_CLOSE then Some (c, s1, e)
     else do { (c2, s2, e2) \<leftarrow> write_events soi t r iss s1; Some (c2, s2, e @ e2) } }"

definition half_closed :: "sock \<Rightarrow> bool" where
  "half_closed s \<longleftrightarrow> sock_ok s \<and> s_type s = TYPE_HALFCLOSE \<and> s_protocol s = PROTOCOL_TCP"

text \<open>The bytes of both lists, and all that an open stream still has to write.\<close>

definition listed :: "sock \<Rightarrow> u8 list" where
  "listed s = bytes_of (s_high s) @ bytes_of (s_low s)"

definition pending :: "sock \<Rightarrow> u8 list" where
  "pending s = dw_bytes s @ listed s"

lemma half_closed_lock: "half_closed s \<Longrightarrow> \<not> s_dw_lock s"
  by (auto simp: half_closed_def sock_ok_def sock_base_def split: if_splits)

text \<open>One list is sent; the other one stays.\<close>

lemma half_closed_list:
  assumes b: "sock_base s" "s_type s = TYPE_HALFCLOSE" "s_protocol s = PROTOCOL_TCP" "s_dw_buffer s = None" and nf: "no_failure ios"
  shows "\<exists>ios' s' e. send_list t hi ios s r = Some (- 1, ios', r, s', e) \<and> no_failure ios' \<and> sock_base s' \<and> s_type s' = TYPE_HALFCLOSE \<and>
    s_protocol s' = PROTOCOL_TCP \<and> s_dw_buffer s' = None \<and> wl (\<not> hi) s' = wl (\<not> hi) s \<and> written e @ bytes_of (wl hi s') = bytes_of (wl hi s) \<and>
    (\<forall>w \<in> set (tl (wl hi s')). w \<in> set (wl hi s)) \<and> list_work hi s' \<le> list_work hi s \<and>
    (wl hi s = [] \<longrightarrow> ios' = ios \<and> s' = s \<and> e = []) \<and> (takes_some ios \<and> wl hi s \<noteq> [] \<longrightarrow> list_work hi s' < list_work hi s)"
proof -
  have act: "active s" using b(2) by (simp add: active_def)
  from send_list_tcp_work [OF nf, of t hi s r] obtain ios' s' e where 1: "send_list_tcp t hi ios s r = Some (- 1, ios', r, s', e)"
    and w: "no_failure ios'" "list_work hi s' \<le> list_work hi s" "wl hi s = [] \<longrightarrow> ios' = ios \<and> s' = s \<and> e = []"
      "takes_some ios \<and> wl hi s \<noteq> [] \<longrightarrow> list_work hi s' < list_work hi s" by blast
  have ls: "list_sent hi s s' e" using send_list_tcp_spec [OF b(1) act b(3), of t hi ios r] 1 by (auto simp: socket_results)
  have "send_list t hi ios s r = Some (- 1, ios', r, s', e)" using 1 b(3) by (simp add: send_list_def)
  then show ?thesis using w ls b by (auto simp: list_sent_def same_ident_def)
qed

lemma half_closed_done:
  assumes "sock_base s" "s_type s = TYPE_HALFCLOSE" "s_high s = []" "s_low s = []"
  shows "\<exists>r' s' e. send_buffer_done s r = Some (SOCKET_CLOSE, r', s', e) \<and> written e = [] \<and> s_type s' = TYPE_INVALID"
  using send_buffer_done_spec [OF assms(1), of r] assms(2-4) by (auto simp: active_def send_buffer_empty_def closed_by_def)

text \<open>The low list, when the high one is empty; a buffer that is sent in part moves to the high list.\<close>

lemma half_closed_low:
  assumes b: "sock_base s" "s_type s = TYPE_HALFCLOSE" "s_protocol s = PROTOCOL_TCP" "s_dw_buffer s = None" and nf: "no_failure ios"
    and e: "s_high s = []" "s_low s \<noteq> []" and whl: "\<forall>w \<in> set (s_low s). whole w"
  shows "\<exists>r' s' e c. (do {
       (c2, ios2, r2, s2, e2) \<leftarrow> send_list t False ios s r;
       if c2 = SOCKET_CLOSE then Some (SOCKET_CLOSE, r2, s2, e1 @ e2)
       else if list_uncomplete (s_low s2) then do { s3 \<leftarrow> raise_uncomplete s2; Some (- 1, r2, s3, e1 @ e2) }
       else if s_low s2 \<noteq> [] then Some (- 1, r2, s2, e1 @ e2)
       else do { (c3, r3, s3, e3) \<leftarrow> send_buffer_done s2 r2; Some (c3, r3, s3, e1 @ e2 @ e3) } }) = Some (c, r', s', e1 @ e) \<and>
    (c = SOCKET_CLOSE \<and> s_type s' = TYPE_INVALID \<and> written e = listed s \<or>
     c = - 1 \<and> half_closed s' \<and> s_dw_buffer s' = None \<and> written e @ listed s' = listed s \<and> work s' \<le> work s \<and> (takes_some ios \<longrightarrow> work s' < work s))"
proof -
  from half_closed_list [OF b nf, of t False r] obtain ios2 s2 e2 where 2: "send_list t False ios s r = Some (- 1, ios2, r, s2, e2)"
    and s2: "sock_base s2" "s_type s2 = TYPE_HALFCLOSE" "s_protocol s2 = PROTOCOL_TCP" "s_dw_buffer s2 = None" "s_high s2 = []"
      "written e2 @ bytes_of (s_low s2) = bytes_of (s_low s)" "\<forall>w \<in> set (tl (s_low s2)). w \<in> set (s_low s)"
    and wk: "list_work False s2 \<le> list_work False s" "takes_some ios \<longrightarrow> list_work False s2 < list_work False s" using e by auto
  have act: "active s2" using s2(2) by (simp add: active_def)
  have tw: "\<forall>w \<in> set (tl (s_low s2)). whole w" using s2(7) whl by blast
  have ws: "list_work True s2 = list_work True s" using s2(5) e(1) by (simp add: list_work_def)
  show ?thesis
  proof (cases "list_uncomplete (s_low s2)")
    case True
    from raise_uncomplete_spec [OF s2(1) act True s2(5) tw] obtain s3 where s3: "raise_uncomplete s2 = Some s3" "sock_ok s3" "same_ident s2 s3"
      "s_type s3 = s_type s2" by blast
    obtain w ws' where low: "s_low s2 = w # ws'" using True by (cases "s_low s2") (simp_all add: list_uncomplete_def)
    then have eq: "s3 = s2\<lparr>s_low := ws', s_high := [w]\<rparr>" using s3(1) s2(5) by (simp add: raise_uncomplete_def)
    then have "listed s3 = listed s2" "work s3 = work s2" "s_dw_buffer s3 = None" using s2(4,5) low by (simp_all add: listed_def work_def list_work_def)
    moreover have "half_closed s3" using s3 s2(2,3) by (simp add: half_closed_def same_ident_def)
    ultimately show ?thesis using 2 True s3(1) s2(5,6) e(1) wk ws by (auto simp: socket_results listed_def work_def)
  next
    case nu: False
    have w2: "\<forall>w \<in> set (s_low s2). whole w" using nu tw by (cases "s_low s2") (auto simp: list_uncomplete_def whole_def)
    then have ok: "half_closed s2" using s2(1-3) by (simp add: half_closed_def sock_ok_def active_def)
    show ?thesis
    proof (cases "s_low s2 = []")
      case False
      then show ?thesis using 2 nu ok s2(4-6) e(1) wk ws by (auto simp: socket_results listed_def work_def)
    next
      case True
      from half_closed_done [OF s2(1,2,5) True, of r] obtain r3 s3 e3 where 3: "send_buffer_done s2 r = Some (SOCKET_CLOSE, r3, s3, e3)"
        "written e3 = []" "s_type s3 = TYPE_INVALID" by blast
      then show ?thesis using 2 nu True s2(5,6) e(1)
        by (intro exI [of _ r3] exI [of _ s3] exI [of _ "e2 @ e3"] exI [of _ SOCKET_CLOSE]) (simp add: socket_results listed_def)
    qed
  qed
qed

lemma half_closed_listed:
  assumes h: "half_closed s" and d: "s_dw_buffer s = None" and nf: "no_failure ios"
  shows "\<exists>c r' s' e. send_buffer_steps t ios s r = Some (c, r', s', e) \<and>
    (c = SOCKET_CLOSE \<and> s_type s' = TYPE_INVALID \<and> written e = listed s \<or>
     c = - 1 \<and> half_closed s' \<and> s_dw_buffer s' = None \<and> written e @ listed s' = listed s \<and> (takes_some ios \<longrightarrow> work s' < work s))"
proof -
  have b: "sock_base s" "s_type s = TYPE_HALFCLOSE" "s_protocol s = PROTOCOL_TCP" and low: "\<forall>w \<in> set (s_low s). whole w"
    using h by (auto simp: half_closed_def active_def sock_ok_def)
  have nu: "\<not> list_uncomplete (s_low s)" using low by (auto simp: list_uncomplete_def whole_def split: list.splits)
  from half_closed_list [OF b d nf, of t True r] obtain ios1 s1 e1 where 1: "send_list t True ios s r = Some (- 1, ios1, r, s1, e1)" "no_failure ios1"
    and s1: "sock_base s1" "s_type s1 = TYPE_HALFCLOSE" "s_protocol s1 = PROTOCOL_TCP" "s_dw_buffer s1 = None" "s_low s1 = s_low s"
      "written e1 @ bytes_of (s_high s1) = bytes_of (s_high s)"
    and wk: "list_work True s1 \<le> list_work True s" "s_high s = [] \<longrightarrow> ios1 = ios \<and> s1 = s \<and> e1 = []"
      "takes_some ios \<and> s_high s \<noteq> [] \<longrightarrow> list_work True s1 < list_work True s" by auto
  have ws: "list_work False s1 = list_work False s" using s1(5) by (simp add: list_work_def)
  show ?thesis
  proof (cases "s_high s1 = []")
    case False
    then have "s_high s \<noteq> []" using wk(2) by auto
    moreover have "half_closed s1" using s1 low by (simp add: half_closed_def sock_ok_def active_def)
    moreover have "send_buffer_steps t ios s r = Some (- 1, r, s1, e1)" using 1(1) nu False by (simp add: send_buffer_steps_def socket_results)
    ultimately show ?thesis using s1 wk ws by (auto simp: listed_def work_def)
  next
    case he: True
    show ?thesis
    proof (cases "s_low s1 = []")
      case True
      from half_closed_done [OF s1(1,2) he True, of r] obtain r2 s2 e2 where 2: "send_buffer_done s1 r = Some (SOCKET_CLOSE, r2, s2, e2)"
        "written e2 = []" "s_type s2 = TYPE_INVALID" by blast
      have "send_buffer_steps t ios s r = Some (SOCKET_CLOSE, r2, s2, e1 @ e2)"
        using 1(1) nu he True 2(1) by (simp add: send_buffer_steps_def socket_results)
      then show ?thesis using 2 s1(5,6) he True by (simp add: listed_def)
    next
      case False
      have lw: "\<forall>w \<in> set (s_low s1). whole w" using low s1(5) by simp
      from half_closed_low [OF s1(1-4) 1(2) he False lw, of t r e1] obtain r' s' e c where
        2: "send_buffer_steps t ios s r = Some (c, r', s', e1 @ e)" and
        d: "c = SOCKET_CLOSE \<and> s_type s' = TYPE_INVALID \<and> written e = listed s1 \<or>
         c = - 1 \<and> half_closed s' \<and> s_dw_buffer s' = None \<and> written e @ listed s' = listed s1 \<and> work s' \<le> work s1 \<and> (takes_some ios1 \<longrightarrow> work s' < work s1)"
        using 1(1) nu he False by (auto simp: send_buffer_steps_def socket_results)
      have l1: "written e1 @ listed s1 = listed s" using s1(5,6) by (simp add: listed_def)
      have "work s1 \<le> work s" "takes_some ios \<and> s_high s \<noteq> [] \<longrightarrow> work s1 < work s" using wk ws by (simp_all add: work_def)
      then have "work s' < work s" if "work s' \<le> work s1" "takes_some ios1 \<longrightarrow> work s' < work s1" "takes_some ios"
        using that wk(2) by (cases "s_high s = []") auto
      then show ?thesis using 2 d l1 by auto
    qed
  qed
qed

lemma half_closed_events:
  "half_closed s \<Longrightarrow> s_dw_buffer s = None \<Longrightarrow> work s < length iss \<Longrightarrow> \<forall>ios \<in> set iss. takes_some ios \<Longrightarrow>
   \<exists>s' e. write_events soi t r iss s = Some (SOCKET_CLOSE, s', e) \<and> s_type s' = TYPE_INVALID \<and> written e = listed s"
proof (induction iss arbitrary: s)
  case (Cons ios iss)
  have nl: "send_buffer soi t ios s r = send_buffer_steps t ios s r"
    using Cons.prems(1,2) half_closed_lock by (simp add: send_buffer_def dw_to_list_def)
  have tk: "takes_some ios" and nf: "no_failure ios" using Cons.prems(4) by (auto simp: takes_some_def)
  from half_closed_listed [OF Cons.prems(1,2) nf, of t r] obtain c r' s1 e where b: "send_buffer_steps t ios s r = Some (c, r', s1, e)"
    and d: "c = SOCKET_CLOSE \<and> s_type s1 = TYPE_INVALID \<and> written e = listed s \<or>
     c = - 1 \<and> half_closed s1 \<and> s_dw_buffer s1 = None \<and> written e @ listed s1 = listed s \<and>
     (takes_some ios \<longrightarrow> work s1 < work s)" by blast
  show ?case
    using d
  proof (elim disjE conjE)
    assume "c = SOCKET_CLOSE" "s_type s1 = TYPE_INVALID" "written e = listed s"
    then show ?thesis using b nl by simp
  next
    assume 1: "c = - 1" "half_closed s1" "s_dw_buffer s1 = None" "written e @ listed s1 = listed s"
      "takes_some ios \<longrightarrow> work s1 < work s"
    have "work s1 < length iss" using 1(5) tk Cons.prems(3) by simp
    from Cons.IH [OF 1(2,3) this] Cons.prems(4) obtain s2 e2
      where "write_events soi t r iss s1 = Some (SOCKET_CLOSE, s2, e2)" "s_type s2 = TYPE_INVALID" "written e2 = listed s1"
      by auto
    then show ?thesis using b nl 1 by (simp add: socket_results)
  qed
qed simp

lemma half_closed_pending:
  assumes h: "half_closed s" and n: "length (pending s) + length (s_high s) + length (s_low s) + 1 < length iss" and tk: "\<forall>ios \<in> set iss. takes_some ios"
  shows "\<exists>s' e. write_events soi t r iss s = Some (SOCKET_CLOSE, s', e) \<and> s_type s' = TYPE_INVALID \<and> written e = pending s"
proof (cases "s_dw_buffer s")
  case None
  have "work s < length iss" using n None by (simp add: work_def list_work_def pending_def listed_def dw_bytes_def)
  from half_closed_events [OF h None this tk] None show ?thesis by (simp add: pending_def dw_bytes_def)
next
  case (Some p)
  have act: "active s" and ok: "sock_ok s" using h by (auto simp: half_closed_def active_def)
  then obtain a d where p: "p = Memory a d" using Some by (auto simp: sock_ok_def sock_base_def)
  from dw_to_list_spec [OF ok act] obtain s1 where s1: "dw_to_list soi s = Some s1" "sock_ok s1" "s_type s1 = s_type s" "same_ident s s1"
    "s_dw_buffer s1 = None" "s_low s1 = s_low s" "bytes_of (s_high s1) = dw_bytes s @ bytes_of (s_high s)" by blast
  have len: "length (s_high s1) = Suc (length (s_high s))" using s1(1) Some p by (auto simp: dw_to_list_def send_object_init_def)
  have h1: "half_closed s1" using h s1 by (simp add: half_closed_def same_ident_def)
  have lk: "\<not> s_dw_lock s" "\<not> s_dw_lock s1" using ok s1(2) act s1(3) by (auto simp: sock_ok_def sock_base_def active_def)
  have ls: "listed s1 = pending s" using s1(6,7) by (simp add: listed_def pending_def)
  have w: "work s1 < length iss" using n s1(6,7) len by (simp add: work_def list_work_def pending_def listed_def)
  have "dw_to_list soi s1 = Some s1" using s1(5) by (simp add: dw_to_list_def)
  then have eq: "send_buffer soi t ios s r = send_buffer soi t ios s1 r" for ios using lk s1(1) by (simp add: send_buffer_def)
  obtain ios iss' where iss: "iss = ios # iss'" using n by (cases iss) auto
  then have "write_events soi t r iss s = write_events soi t r iss s1" using eq by simp
  then show ?thesis using half_closed_events [OF h1 s1(5) w tk, of soi t r] ls by simp
qed

section \<open>An id that wraps\<close>

text \<open>\<open>_InterlockedAnd\<close> gives the old value, so the id that follows the last one is negative.\<close>

lemma reserve_wraps:
  assumes "ss_alloc_id ss = 2 ^ 31 - 1" and "s_type (ss_slot ss 0) = TYPE_INVALID"
  shows "fst (reserve_id ss) = - (2 ^ 31)" "s_type (ss_slot (snd (reserve_id ss)) 0) = TYPE_RESERVE" "ss_cmds (snd (reserve_id ss)) = ss_cmds ss"
    "ss_alloc_id (snd (reserve_id ss)) = 0" "s_id (ss_slot (snd (reserve_id ss)) 0) = - (2 ^ 31)"
proof -
  obtain k where m: "MAX_SOCKET = Suc k" by (cases MAX_SOCKET) (simp_all add: MAX_SOCKET_def)
  have n: "next_id (2147483647 :: int) = (- 2147483648, 0)" by (simp add: next_id_def atom_inc_def)
  have h: "HASH_ID (- 2147483648) = 0" by (simp add: HASH_ID_def MAX_SOCKET_def)
  show "fst (reserve_id ss) = - (2 ^ 31)" "s_type (ss_slot (snd (reserve_id ss)) 0) = TYPE_RESERVE" "ss_cmds (snd (reserve_id ss)) = ss_cmds ss"
    "ss_alloc_id (snd (reserve_id ss)) = 0" "s_id (ss_slot (snd (reserve_id ss)) 0) = - (2 ^ 31)"
    using assms unfolding reserve_id_def m by (simp_all add: n h slot_of_def)
qed

section \<open>A send that overtakes the opening\<close>

lemma append_node_same: "append_node soi hi p a s = Some s' \<Longrightarrow> same_ident s s'"
  by (auto simp: append_node_def same_ident_def Let_def split: bind_splits)

lemma enqueue_same: "enqueue soi t ios p hi a s = Some (b, s', e) \<Longrightarrow> same_ident s s'"
  by (auto simp: enqueue_def append_sendbuffer_def append_sendbuffer_low_def append_sendbuffer_udp_def
      dest!: append_node_same split: if_splits bind_splits option.splits) (simp_all add: same_ident_def)

lemma send_warning_same: "send_warning s r = (c, r', s') \<Longrightarrow> same_ident s s'"
  by (auto simp: send_warning_def same_ident_def split: if_splits)

text \<open>The two rounds of the socket thread: it opens the socket, then it counts down a send that was not counted.\<close>

lemma uncounted_send:
  assumes "s_id (slot_of ss i) = i" and "s_protocol (slot_of ss i) = PROTOCOL_TCP" and "s_sending (slot_of ss i) AND mask 16 = 0"
    and "ss_cmds ss = Req_send i p # qs" and "ss_checkctrl ss"
  shows "poll_round w r mo ss = None"
proof -
  let ?ss = "ss\<lparr>ss_cmds := qs\<rparr>"
  have "ctrl_cmd w (Req_send i p) r ?ss = None"
  proof (cases "send_socket (w_ios w) i p True None r ?ss")
    case (Some x)
    obtain c r1 ss1 where x: "x = (c, r1, ss1)" by (cases x)
    have "s_sending (slot_of ss1 i) = s_sending (slot_of ?ss i) \<and> s_protocol (slot_of ss1 i) = s_protocol (slot_of ?ss i) \<and>
        s_id (slot_of ss1 i) = s_id (slot_of ?ss i)"
      using Some x by (auto simp: send_socket_def Let_def same_ident_def dest!: enqueue_same send_warning_same split: if_splits bind_splits prod.splits)
    then show ?thesis using Some x assms(1-3) by (simp add: ctrl_cmd_def dec_sending_ref_def Let_def)
  qed (simp add: ctrl_cmd_def)
  then show ?thesis using assms(4,5) by (simp add: poll_round_def)
qed

lemma opened_slot:
  assumes t: "s_type (slot_of ss i) = TYPE_RESERVE" and e: "s_high (slot_of ss i) = []" "s_low (slot_of ss i) = []"
    and w: "w_open w = Gai [(fd, cr, name)] err" "0 \<le> fd" "cr \<noteq> Connect_failed" "\<not> w_add_fails w"
  shows "\<exists>c r' ss'. open_socket w i opaque ss = Some (c, r', ss') \<and> c \<noteq> SOCKET_CLOSE \<and> c \<noteq> SOCKET_ERR \<and> s_id (slot_of ss' i) = i \<and>
    s_protocol (slot_of ss' i) = PROTOCOL_TCP \<and> s_sending (slot_of ss' i) AND mask 16 = 0 \<and> ss_cmds ss' = ss_cmds ss \<and>
    ss_checkctrl ss' = ss_checkctrl ss"
proof -
  have ck: "ss_checkctrl (put_slot h s e ss) = ss_checkctrl ss" "ss_checkctrl (emit e ss) = ss_checkctrl ss" "ss_checkctrl (set_type j ty ss) = ss_checkctrl ss" for h s e ss j ty
    by (simp_all add: put_slot_def emit_def set_type_def)
  show ?thesis using t e w push_tag(2)
    by (cases "cr = Connect_done") (simp_all add: open_socket_def new_fd_def Let_def ck socket_results)
qed

section \<open>A datagram that is not taken whole\<close>

lemma address_missing:
  assumes "s_dw_buffer s = Some (Memory a d)" and "s_protocol s \<noteq> PROTOCOL_TCP" and "s_low s = []" and "\<not> s_dw_lock s"
  shows "send_buffer soi t ios s r = None"
proof -
  obtain s1 w where "dw_to_list soi s = Some s1" and s1: "s_high s1 = w # s_high s" "wb_addr w = None" "s_low s1 = []" "s_protocol s1 = s_protocol s"
    using assms by (simp add: dw_to_list_def send_object_init_def)
  moreover have "send_list_udp t True ios s1 = None" by (subst send_list_udp.simps) (simp add: s1)
  ultimately show ?thesis using assms by (simp add: send_buffer_def send_buffer_steps_def list_uncomplete_def send_list_def)
qed

section \<open>A control socket on another port\<close>

text \<open>Requests go to the port with its bytes swapped; when that is not the port of the control socket, none arrives.\<close>

definition deaf :: "server \<Rightarrow> bool" where
  "deaf ss \<longleftrightarrow> swap16 (ss_udp_port ss) \<noteq> ss_bound ss \<and> ss_cmds ss = []"

lemma deaf_simps [simp]:
  "deaf (put_slot h s e ss) = deaf ss" "deaf (emit e ss) = deaf ss" "deaf (set_type i t ss) = deaf ss" "deaf ss \<Longrightarrow> send_request q ss = ss"
  "deaf (ss\<lparr>ss_alloc_id := a\<rparr>) = deaf ss" "deaf (ss\<lparr>ss_ev := ev\<rparr>) = deaf ss" "deaf (ss\<lparr>ss_event_index := n\<rparr>) = deaf ss"
  "deaf (ss\<lparr>ss_checkctrl := b\<rparr>) = deaf ss" "deaf (ss\<lparr>ss_time := t'\<rparr>) = deaf ss"
  by (simp_all add: deaf_def set_type_def send_request_def)

lemma reserve_deaf: "deaf (snd (reserve_id ss)) = deaf ss"
proof -
  have "deaf (snd (reserve_loop n ss)) = deaf ss" for n
    by (induction n arbitrary: ss) (auto simp: Let_def split: prod.splits)
  then show ?thesis by (simp add: reserve_id_def)
qed

lemma reserve_deaf': "reserve_id ss = (i, ss') \<Longrightarrow> deaf ss' = deaf ss"
  using reserve_deaf [of ss] by simp

lemma new_fd_deaf: "new_fd i fd p opaque add fails ss = Some (s, ss') \<Longrightarrow> deaf ss' = deaf ss"
  by (auto simp: new_fd_def Let_def split: if_splits bind_splits)

lemma report_accept_deaf: "report_accept w h r ss = Some (c, r', ss') \<Longrightarrow> deaf ss' = deaf ss"
  by (auto simp: report_accept_def Let_def dest!: new_fd_deaf reserve_deaf' split: accept_result.splits if_splits bind_splits option.splits prod.splits)

lemma socket_event_deaf: "socket_event w e h r ss = Some (c, r', ss') \<Longrightarrow> deaf ss' = deaf ss"
  by (auto simp: socket_event_def Let_def split: if_splits bind_splits)

lemma handle_event_deaf: "handle_event w e h r ss = Some (c, r', ss') \<Longrightarrow> deaf ss' = deaf ss"
  by (auto simp: handle_event_def Let_def dest: report_accept_deaf socket_event_deaf split: if_splits bind_splits)

lemma poll_event_deaf: "poll_event w r mo ss = Some (c, r', mo', ss') \<Longrightarrow> deaf ss' = deaf ss"
  by (auto simp: poll_event_def Let_def dest: handle_event_deaf split: if_splits bind_splits option.splits)

lemma wait_events_deaf: "wait_events w ss = (b, ss') \<Longrightarrow> deaf ss' = deaf ss"
  by (auto simp: wait_events_def deaf_def split: wait_result.splits)

lemma poll_round_deaf:
  assumes p: "poll_round w r mo ss = Some (c, r', mo', ss')" and d: "deaf ss"
  shows "deaf ss'"
proof -
  have e: "ss_cmds ss = []" using d by (simp add: deaf_def)
  let ?ss = "ss\<lparr>ss_checkctrl := False\<rparr>"
  obtain some ss2 where wt: "wait_events w ?ss = (some, ss2)" by fastforce
  show ?thesis
  proof (cases "ss_event_index ss = length (ss_ev ss)")
    case False
    then have "poll_event w r mo ?ss = Some (c, r', mo', ss')" using p e by (simp add: poll_round_def Let_def)
    from poll_event_deaf [OF this] d show ?thesis by simp
  next
    case True
    show ?thesis
    proof (cases some)
      case True
      then have "poll_event w r False ss2 = Some (c, r', mo', ss')" using p e wt \<open>ss_event_index ss = _\<close> by (simp add: poll_round_def Let_def)
      from poll_event_deaf [OF this] wait_events_deaf [OF wt] d show ?thesis by simp
    next
      case no: False
      then have "ss' = ss2" using p e wt True by (simp add: poll_round_def Let_def)
      then show ?thesis using wait_events_deaf [OF wt] d by simp
    qed
  qed
qed

lemma close_effects_only: "\<exists>fd e. do_listen b ss = (fd, emit e ss)" "\<exists>fd e. do_bind b ss = (fd, emit e ss)"
  using close_effects by blast+

lemma perform_deaf:
  assumes p: "perform c ss = Some ss'" and d: "deaf ss"
  shows "deaf ss'"
proof (cases c)
  case (Connect opaque ad port)
  obtain j ss1 where r: "reserve_id ss = (j, ss1)" by fastforce
  then have "deaf ss1" using reserve_deaf' d by blast
  then show ?thesis using p Connect r d by (auto simp: perform_def socket_server_connect_def open_request_def Let_def split: if_splits)
next
  case (Listen opaque b)
  obtain fd e where l: "do_listen b ss = (fd, emit e ss)" using close_effects_only(1) by blast
  obtain j ss1 where r: "reserve_id (emit e ss) = (j, ss1)" by fastforce
  then have "deaf ss1" using reserve_deaf' d deaf_simps(2) by blast
  then show ?thesis using p Listen l r d by (auto simp: perform_def socket_server_listen_def Let_def split: if_splits)
next
  case (Bind opaque fd)
  obtain j ss1 where r: "reserve_id ss = (j, ss1)" by fastforce
  then have "deaf ss1" using reserve_deaf' d by blast
  then show ?thesis using p Bind r d by (auto simp: perform_def socket_server_bind_def Let_def split: if_splits)
next
  case (Udp opaque bound b)
  have em0: "emit [] ss = ss" by (simp add: emit_def)
  have "\<exists>fd e. (if bound then do_bind b ss else (b_fd b, ss)) = (fd, emit e ss)"
    using close_effects_only(2) em0 by (cases bound) (auto intro: exI [of _ "[]"])
  then obtain fd e where l: "(if bound then do_bind b ss else (b_fd b, ss)) = (fd, emit e ss)" by blast
  obtain j ss1 where r: "reserve_id (emit e ss) = (j, ss1)" by fastforce
  then have "deaf ss1" using reserve_deaf' d deaf_simps(2) by blast
  then show ?thesis using p Udp l r d by (auto simp: perform_def socket_server_udp_def Let_def split: if_splits)
next
  case (Send fresh ios i b)
  then show ?thesis using p d
    by (auto simp: perform_def socket_server_send_def queue_send_def direct_write_def Let_def split: if_splits bind_splits option.splits)
next
  case (Send_low fresh i b)
  then show ?thesis using p d
    by (auto simp: perform_def socket_server_send_lowpriority_def queue_send_def Let_def split: if_splits bind_splits)
next
  case (Send_udp fresh ios i ad b)
  then show ?thesis using p d
    by (auto simp: perform_def socket_server_udp_send_def Let_def split: if_splits bind_splits option.splits list.splits io.splits)
next
  case (Udp_connect gai i)
  then show ?thesis using p d
    by (auto simp: perform_def socket_server_udp_connect_def Let_def split: if_splits option.splits)
next
  case (Poll w r mo)
  then show ?thesis using p d poll_round_deaf by (auto simp: perform_def)
qed (use p d in \<open>auto simp: perform_def socket_server_start_def socket_server_close_def socket_server_shutdown_def
    socket_server_nodelay_def socket_server_exit_def socket_server_updatetime_def\<close>)

section \<open>The properties\<close>

text \<open>A server right after its creation, and what the system answers, for the witnesses.\<close>

definition demo_sock :: sock where
  "demo_sock = \<lparr>s_opaque = 0, s_high = [], s_low = [], s_wb_size = 0, s_stat = \<lparr>st_rtime = 0, st_wtime = 0, st_read = 0, st_write = 0\<rparr>,
     s_sending = 0, s_fd = 0, s_id = 0, s_protocol = PROTOCOL_TCP, s_type = TYPE_INVALID, s_udpconnecting = 0, s_warn_size = 0,
     s_p = P_size 0, s_dw_lock = False, s_dw_offset = 0, s_dw_buffer = None\<rparr>"

definition demo_server :: server where
  "demo_server = server_of_port 65535 (\<lambda>_. demo_sock) 0"

definition demo_world :: world where
  "demo_world = \<lparr>w_ios = [Sent 2], w_recv = Recv_again, w_recvfrom = Recvfrom_again, w_accept = Accept_failed, w_connected = Inr None,
     w_sockerr = [], w_open = Gai [(7, Connect_done, None)] [], w_add_fails = False, w_wait = Wait_intr\<rparr>"

lemma demo_run: "server_run demo_server"
proof -
  have m: "MAX_SOCKET = Suc 65535" by (simp add: MAX_SOCKET_def)
  have "bind_port (\<lambda>_. True) MAX_SOCKET = Some 65535" unfolding m by (simp only: bind_port.simps if_True)
  then have "socket_server_create True (\<lambda>_. True) (\<lambda>_. demo_sock) 0 = Some demo_server"
    by (simp add: socket_server_create_def demo_server_def)
  then show ?thesis by (rule server_run.created) simp
qed

text \<open>The first connection: the id 1, opened by the first round of the socket thread.\<close>

definition demo_connected :: server where
  "demo_connected = demo_server\<lparr>ss_alloc_id := 1, ss_log := [Sp_add 7],
     ss_slot := (\<lambda>_. demo_sock)(1 := demo_sock\<lparr>s_opaque := 3, s_fd := 7, s_id := 1, s_type := TYPE_CONNECTED, s_p := P_size 64\<rparr>)\<rparr>"

lemma reserve_next:
  assumes "0 \<le> ss_alloc_id ss" and "ss_alloc_id ss < 2 ^ 31 - 1" and "s_type (slot_of ss (ss_alloc_id ss + 1)) = TYPE_INVALID"
  shows "reserve_id ss = (ss_alloc_id ss + 1, put_slot (HASH_ID (ss_alloc_id ss + 1))
    ((slot_of ss (ss_alloc_id ss + 1))\<lparr>s_type := TYPE_RESERVE, s_id := ss_alloc_id ss + 1, s_protocol := PROTOCOL_UNKNOWN,
       s_udpconnecting := 0, s_fd := - 1\<rparr>) [] (ss\<lparr>ss_alloc_id := ss_alloc_id ss + 1\<rparr>))"
proof -
  obtain k where m: "MAX_SOCKET = Suc k" by (cases MAX_SOCKET) (simp_all add: MAX_SOCKET_def)
  have "next_id (ss_alloc_id ss) = (ss_alloc_id ss + 1, ss_alloc_id ss + 1)" using assms(1,2) by (simp add: next_id_def atom_inc_def Let_def)
  then show ?thesis using assms(3) unfolding reserve_id_def m by (simp add: Let_def)
qed

lemma demo_steps:
  "HASH_ID 1 = 1" "HASH_ID 0 = 0" "swap16 65535 = 65535"
  by (simp_all add: HASH_ID_def MAX_SOCKET_def swap16_def)

lemma demo_connect:
  "perform (Connect 3 ''host'' 80) demo_server = Some (demo_server\<lparr>ss_alloc_id := 1, ss_cmds := [Req_open 1 80 3 ''host''],
     ss_slot := (\<lambda>_. demo_sock)(1 := demo_sock\<lparr>s_type := TYPE_RESERVE, s_id := 1, s_protocol := PROTOCOL_UNKNOWN, s_fd := - 1\<rparr>)\<rparr>)"
proof -
  have "reserve_id demo_server = (1, put_slot 1 (demo_sock\<lparr>s_type := TYPE_RESERVE, s_id := 1, s_protocol := PROTOCOL_UNKNOWN,
       s_udpconnecting := 0, s_fd := - 1\<rparr>) [] (demo_server\<lparr>ss_alloc_id := 1\<rparr>))"
    using reserve_next [of demo_server] by (simp add: demo_server_def server_of_port_def demo_steps slot_of_def demo_sock_def)
  then show ?thesis
    by (simp add: perform_def socket_server_connect_def open_request_def send_request_def put_slot_def demo_server_def server_of_port_def
      demo_steps demo_sock_def Let_def)
qed

lemma demo_open:
  "perform (Poll demo_world (nomsg 0 0) True) (demo_server\<lparr>ss_alloc_id := 1, ss_cmds := [Req_open 1 80 3 ''host''],
     ss_slot := (\<lambda>_. demo_sock)(1 := demo_sock\<lparr>s_type := TYPE_RESERVE, s_id := 1, s_protocol := PROTOCOL_UNKNOWN, s_fd := - 1\<rparr>)\<rparr>) =
   Some demo_connected"
  by (simp add: perform_def poll_round_def ctrl_cmd_def open_socket_def demo_world_def new_fd_def set_type_def put_slot_def emit_def
      demo_connected_def demo_server_def server_of_port_def demo_steps slot_of_def demo_sock_def ID_TAG16_def MAX_SOCKET_def
      clear_closed_event_def MIN_READ_BUFFER_def socket_results Let_def)

lemma demo_connected_run: "server_run demo_connected"
proof -
  have "allowed (Connect 3 ''host'' 80) demo_server" by (simp add: allowed_def room_def demo_server_def server_of_port_def)
  note 1 = server_run.performed [OF demo_run this demo_connect]
  show ?thesis
    by (rule server_run.performed [OF 1 _ demo_open])
      (simp add: allowed_def room_def world_ok_def wait_ok_def demo_world_def demo_server_def server_of_port_def)
qed



text \<open>
  C6. A stream keeps its order and loses nothing: while the socket \<open>i\<close> is open and only sends of normal priority go to
  it, what has been written to its descriptor, followed by what still waits (the rest of a direct write, the write
  buffers, the requests in the channel), grows exactly by the bytes given to \<open>socket_server_send\<close>, in their order,
  however direct writes, queued sends, partial writes and rounds of the socket thread are mixed.
\<close>

theorem socket_stream_in_order:
  assumes "stream_run i ss bs ss'"
  shows "out (s_fd (slot_of ss i)) ss' @ stream_rest i ss' = out (s_fd (slot_of ss i)) ss @ stream_rest i ss @ bs"
  using stream_run_flows [OF assms] by (simp add: flows_def)

lemma socket_stream_in_order_witness:
  "\<exists>ss1 ss2. perform (Send 900 [Sent 2] 1 (Raw_pointer 500 [1, 2, 3])) demo_connected = Some ss1 \<and>
    perform (Send 901 [] 1 (Raw_pointer 600 [4])) ss1 = Some ss2 \<and> out 7 ss2 = [1, 2] \<and> out 7 ss2 @ stream_rest 1 ss2 = [1, 2, 3, 4]"
proof -
  let ?ss1 = "demo_connected\<lparr>ss_log := [Sp_add 7, Written 7 [1, 2], Sp_write 7 True],
     ss_slot := (\<lambda>_. demo_sock)(1 := demo_sock\<lparr>s_opaque := 3, s_fd := 7, s_id := 1, s_type := TYPE_CONNECTED, s_p := P_size 64,
       s_stat := \<lparr>st_rtime = 0, st_wtime = 0, st_read = 0, st_write = 2\<rparr>, s_dw_buffer := Some (Memory 900 [1, 2, 3]), s_dw_offset := 2\<rparr>)\<rparr>"
  let ?ss2 = "?ss1\<lparr>ss_cmds := [Req_send 1 (Memory 901 [4])],
     ss_slot := (ss_slot ?ss1)(1 := (ss_slot ?ss1 1)\<lparr>s_sending := 1\<rparr>)\<rparr>"
  note demo = demo_connected_def demo_server_def server_of_port_def demo_steps demo_sock_def slot_of_def
  have s0: "streaming 1 demo_connected" by (simp add: streaming_def demo high_only_def)
  have s1: "streaming 1 ?ss1" by (simp add: streaming_def demo high_only_def)
  have s2: "streaming 1 ?ss2" by (simp add: streaming_def demo high_only_def)
  have p1: "perform (Send 900 [Sent 2] 1 (Raw_pointer 500 [1, 2, 3])) demo_connected = Some ?ss1"
    by (simp add: perform_def socket_server_send_def can_direct_write_def nomore_sending_data_def send_buffer_empty_def direct_write_def
      send_object_init_from_sendbuffer_def io_count_def clone_buffer_def stat_write_def put_slot_def demo numeral_2_eq_2 Let_def)
  have p2: "perform (Send 901 [] 1 (Raw_pointer 600 [4])) ?ss1 = Some ?ss2"
    by (simp add: perform_def socket_server_send_def can_direct_write_def nomore_sending_data_def queue_send_def inc_sending_ref_def
      ID_TAG16_def MAX_SOCKET_def send_request_def clone_buffer_def put_slot_def demo Let_def)
  have a: "allowed (Send 900 [Sent 2] 1 (Raw_pointer 500 [1, 2, 3])) demo_connected" "allowed (Send 901 [] 1 (Raw_pointer 600 [4])) ?ss1"
    by (simp_all add: allowed_def send_allowed_def reserved_def is_udp_def demo)
  have "stream_run 1 demo_connected ([] @ sent_by 1 (Send 900 [Sent 2] 1 (Raw_pointer 500 [1, 2, 3])) @
      sent_by 1 (Send 901 [] 1 (Raw_pointer 600 [4]))) ?ss2"
    using stream_run.called [OF stream_run.called [OF stream_run.opened [OF demo_connected_run s0] a(1) p1 s1] a(2) p2 s2] by simp
  from socket_stream_in_order [OF this] have "out 7 ?ss2 @ stream_rest 1 ?ss2 = [1, 2, 3, 4]"
    by (simp add: demo out_def stream_rest_def dw_bytes_def sent_by_def buffer_data_def)
  moreover have "out 7 ?ss2 = [1, 2]" by (simp add: out_def)
  ultimately show ?thesis using p1 p2 by blast
qed

text \<open>
  C12. A half-closed stream is drained and closed: after as many writable events as there are bytes and buffers left, each
  taking at least one byte and none failing, every pending byte has been written in order, the rest of a direct write first, then the
  high list and then the low list (whose first buffer is raised to the high list when it is sent in part), and the socket is closed.
\<close>

theorem half_closed_stream_drains:
  assumes "half_closed s" and "length (pending s) + length (s_high s) + length (s_low s) + 1 < length iss" and "\<forall>ios \<in> set iss. takes_some ios"
  shows "\<exists>s' e. write_events soi t r iss s = Some (SOCKET_CLOSE, s', e) \<and> s_type s' = TYPE_INVALID \<and> written e = pending s"
  using half_closed_pending [OF assms] .

text \<open>Two bytes of normal priority and two of low priority, a byte at a time.\<close>

lemma half_closed_stream_drains_witness:
  "\<exists>s' e. write_events None 0 (nomsg 0 0) (replicate 8 [Sent 1])
     (demo_sock\<lparr>s_type := TYPE_HALFCLOSE, s_p := P_size 64, s_wb_size := 4,
        s_high := [\<lparr>wb_buffer = 100, wb_ptr = 100, wb_data = [1, 2], wb_userobject = False, wb_addr = None\<rparr>],
        s_low := [\<lparr>wb_buffer = 200, wb_ptr = 200, wb_data = [3, 4], wb_userobject = False, wb_addr = None\<rparr>]\<rparr>) =
     Some (SOCKET_CLOSE, s', e) \<and> s_type s' = TYPE_INVALID \<and> written e = [1, 2, 3, 4]"
proof -
  let ?s = "demo_sock\<lparr>s_type := TYPE_HALFCLOSE, s_p := P_size 64, s_wb_size := 4,
        s_high := [\<lparr>wb_buffer = 100, wb_ptr = 100, wb_data = [1, 2], wb_userobject = False, wb_addr = None\<rparr>],
        s_low := [\<lparr>wb_buffer = 200, wb_ptr = 200, wb_data = [3, 4], wb_userobject = False, wb_addr = None\<rparr>]\<rparr>"
  have "half_closed ?s" by (simp add: half_closed_def sock_ok_def sock_base_def active_def demo_sock_def whole_def)
  moreover have p: "pending ?s = [1, 2, 3, 4]" by (simp add: pending_def listed_def dw_bytes_def demo_sock_def)
  moreover have "\<forall>ios \<in> set (replicate 8 [Sent 1]). takes_some ios" by (simp add: takes_some_def no_failure_def)
  ultimately show ?thesis using half_closed_stream_drains [of ?s "replicate 8 [Sent 1]" None 0 "nomsg 0 0"] by simp
qed

text \<open>
  \<open>reserve_id\<close> gives a fresh id while the counter is below its end: if a slot is free, an id larger than every id
  before, whose slot was free and is now reserved for it, all other slots unchanged; it fails only when no slot is free.
\<close>

theorem reserve_id_fresh:
  assumes "0 \<le> ss_alloc_id ss" and "ss_alloc_id ss + 65536 < 2 ^ 31" and "reserve_id ss = (i, ss')"
  shows "if (\<exists>h < MAX_SOCKET. s_type (ss_slot ss h) = TYPE_INVALID)
    then ss_alloc_id ss < i \<and> i \<le> ss_alloc_id ss + 65536 \<and> ss_alloc_id ss' = i \<and> s_type (slot_of ss i) = TYPE_INVALID \<and>
      (\<exists>s. ss_slot ss' = (ss_slot ss)(HASH_ID i := s) \<and> s_type s = TYPE_RESERVE \<and> s_id s = i)
    else i = - 1 \<and> ss_slot ss' = ss_slot ss"
  using reserve_id_spec [OF assms] assms(1) HASH_ID_bound [of i] by (auto simp: slot_of_def)

lemma reserve_id_fresh_witness:
  "0 < fst (reserve_id demo_server) \<and> ss_alloc_id (snd (reserve_id demo_server)) = fst (reserve_id demo_server)"
proof -
  have "\<exists>h < MAX_SOCKET. s_type (ss_slot demo_server h) = TYPE_INVALID"
    by (intro exI [of _ 0]) (simp add: demo_server_def server_of_port_def MAX_SOCKET_def)
  then show ?thesis using reserve_id_fresh [of demo_server "fst (reserve_id demo_server)" "snd (reserve_id demo_server)"]
    by (simp add: demo_server_def server_of_port_def)
qed

text \<open>
  The id after the last one: on Windows \<open>reserve_id\<close> gives \<open>-2^31\<close>, because \<open>_InterlockedAnd\<close> returns the value
  before the mask; \<open>socket_server_connect\<close> then fails although a slot is free, and slot 0 stays reserved with no request
  on its way that would open it.
\<close>

theorem reserve_id_wraps:
  assumes "ss_alloc_id ss = 2 ^ 31 - 1" and "s_type (ss_slot ss 0) = TYPE_INVALID" and "length ad + 24 < 256"
  shows "fst (socket_server_connect opaque ad port ss) = - 1 \<and>
    s_type (ss_slot (snd (socket_server_connect opaque ad port ss)) 0) = TYPE_RESERVE \<and>
    ss_cmds (snd (socket_server_connect opaque ad port ss)) = ss_cmds ss"
  using reserve_wraps [OF assms(1,2)] assms(3)
  by (cases "reserve_id ss") (simp add: socket_server_connect_def open_request_def)

lemma reserve_id_wraps_witness:
  "fst (socket_server_connect 3 ''host'' 80 (demo_server\<lparr>ss_alloc_id := 2 ^ 31 - 1\<rparr>)) = - 1 \<and>
    s_type (ss_slot (snd (socket_server_connect 3 ''host'' 80 (demo_server\<lparr>ss_alloc_id := 2 ^ 31 - 1\<rparr>))) 0) = TYPE_RESERVE"
  using reserve_id_wraps [of "demo_server\<lparr>ss_alloc_id := 2 ^ 31 - 1\<rparr>" "''host''" 3 80]
  by (simp add: demo_server_def server_of_port_def)

text \<open>
  C40. A send that overtakes the opening: \<open>socket_server_connect\<close> gives the id at once, and a worker may send to it before
  the socket thread has opened it.  The send is then queued without being counted; when the socket has been opened as a
  stream, the socket thread counts the send down from zero and its assertion fails.
\<close>

theorem send_before_open_fails:
  assumes sv: "server_ok ss" and rm: "room ss" and e: "ss_cmds ss = []" "ss_checkctrl ss"
    and c: "socket_server_connect opaque ad port ss = (i, ss1)" "0 \<le> i"
    and w: "w_open w = Gai [(fd, cr, name)] err" "0 \<le> fd" "cr \<noteq> Connect_failed" "\<not> w_add_fails w"
  shows "\<exists>ss2 c r1 mo1 ss3. socket_server_send fresh ios i (Owned (Memory a d)) ss1 = Some (0, ss2) \<and>
    poll_round w r mo ss2 = Some (c, r1, mo1, ss3) \<and> poll_round w' r' mo' ss3 = None"
proof -
  have len: "\<not> length ad + 24 \<ge> 256" using c by (auto simp: socket_server_connect_def open_request_def)
  obtain j ss0 where r: "reserve_id ss = (j, ss0)" by fastforce
  have j: "j = i" "ss1 = send_request (Req_open i port opaque ad) ss0"
    using c r len by (auto simp: socket_server_connect_def open_request_def split: if_splits)
  have al: "0 \<le> ss_alloc_id ss" "ss_alloc_id ss + 65536 < 2 ^ 31" and sw: "swap16 (ss_udp_port ss) = ss_bound ss"
    using sv rm by (simp_all add: server_ok_def core_ok_def room_def)
  let ?s = "(slot_of ss i)\<lparr>s_type := TYPE_RESERVE, s_id := i, s_protocol := PROTOCOL_UNKNOWN, s_udpconnecting := 0, s_fd := - 1\<rparr>"
  have ss0: "s_type (slot_of ss i) = TYPE_INVALID \<and> ss0 = put_slot (HASH_ID i) ?s [] (ss\<lparr>ss_alloc_id := i\<rparr>)"
    using reserve_id_spec [OF al r] c(2) j(1) by auto
  have ok: "sock_ok (slot_of ss i)" using sv core_slot(1) by (auto simp: server_ok_def)
  then have emp: "s_high (slot_of ss i) = []" "s_low (slot_of ss i) = []" using ss0 by (simp_all add: sock_ok_def active_def)
  have cm0: "ss_cmds ss0 = []" "ss_checkctrl ss0" "swap16 (ss_udp_port ss0) = ss_bound ss0" using ss0 e sw by (simp_all add: put_slot_def)
  let ?q = "Req_send i (Memory a d)"
  let ?ss2 = "ss0\<lparr>ss_cmds := [Req_open i port opaque ad, ?q]\<rparr>"
  have ss1: "ss1 = ss0\<lparr>ss_cmds := [Req_open i port opaque ad]\<rparr>" using j(2) cm0 by (simp add: send_request_def)
  have sl1: "slot_of ss1 i = ?s" using ss1 ss0 by simp
  have ps: "put_slot (HASH_ID i) (slot_of ss1 i) [] ss1 = ss1" by (simp add: put_slot_def slot_of_def)
  have snd: "socket_server_send fresh ios i (Owned (Memory a d)) ss1 = Some (0, ?ss2)"
  proof -
    have "send_request ?q ss1 = ?ss2" using ss1 cm0 by (simp add: send_request_def)
    then have "queue_send i ?q ss1 = Some ?ss2" using sl1 ps by (simp add: queue_send_def inc_sending_ref_def)
    then show ?thesis using sl1 by (simp add: socket_server_send_def can_direct_write_def clone_buffer_def Let_def)
  qed
  let ?t = "ss0\<lparr>ss_cmds := [?q]\<rparr>"
  have st: "slot_of ?t i = ?s" using ss0 by simp
  obtain c1 r1 ss3 where op: "open_socket w i opaque ?t = Some (c1, r1, ss3)" "c1 \<noteq> SOCKET_CLOSE" "c1 \<noteq> SOCKET_ERR"
    "s_id (slot_of ss3 i) = i" "s_protocol (slot_of ss3 i) = PROTOCOL_TCP" "s_sending (slot_of ss3 i) AND mask 16 = 0"
    "ss_cmds ss3 = [?q]" "ss_checkctrl ss3"
    using opened_slot [of ?t i w fd cr name err opaque] w st emp cm0(2) by auto
  have "clear_closed_event (sm_id r1) c1 ss3 = ss3" using op(2,3) by (simp add: clear_closed_event_def)
  then have "poll_round w r mo ?ss2 = Some (if c1 = - 1 then None else Some c1, r1, mo, ss3)"
    using op(1) cm0(2) by (simp add: poll_round_def ctrl_cmd_def)
  moreover have "poll_round w' r' mo' ss3 = None" by (rule uncounted_send [OF op(4,5,6,7,8)])
  ultimately show ?thesis using snd by blast
qed

lemma send_before_open_fails_witness:
  "\<exists>ss2 c r1 mo1 ss3. socket_server_send 900 [] 1 (Owned (Memory 100 [5])) (snd (socket_server_connect 3 ''host'' 80 demo_server)) = Some (0, ss2) \<and>
    poll_round demo_world (nomsg 0 0) True ss2 = Some (c, r1, mo1, ss3) \<and> poll_round demo_world (nomsg 0 0) True ss3 = None"
proof (rule send_before_open_fails [OF server_run_ok [OF demo_run]])
  show "socket_server_connect 3 ''host'' 80 demo_server = (1, snd (socket_server_connect 3 ''host'' 80 demo_server))"
    using reserve_next [of demo_server]
    by (simp add: socket_server_connect_def open_request_def demo_server_def server_of_port_def demo_steps slot_of_def demo_sock_def)
  show "w_open demo_world = Gai [(7, Connect_done, None)] []" by (simp add: demo_world_def)
qed (simp_all add: room_def demo_server_def server_of_port_def demo_world_def)

text \<open>
  A datagram that is not taken whole: when \<open>sendto\<close> of a direct write takes fewer bytes than the datagram has, the rest
  is put in front of the buffers in a node that is too short to hold an address, and the next writable event reads the
  address behind its end.
\<close>

theorem partial_datagram_fails:
  assumes c: "can_direct_write (slot_of ss i) i" "\<not> s_dw_lock (slot_of ss i)" and u: "s_protocol (slot_of ss i) \<noteq> PROTOCOL_TCP"
    and p: "s_p (slot_of ss i) = P_address x" "udp_socket_address (slot_of ss i) x = Some sa" and n: "n < length d"
  shows "\<exists>ss1. socket_server_send fresh (Sent n # rest) i (Raw_pointer a d) ss = Some (0, ss1) \<and>
    send_buffer soi t ios (slot_of ss1 i) r = None"
proof -
  let ?s = "slot_of ss i"
  have low: "s_low ?s = []" using c by (simp add: can_direct_write_def nomore_sending_data_def send_buffer_empty_def)
  have ty: "s_id ?s = i" "s_type ?s \<noteq> TYPE_INVALID" using c by (simp_all add: can_direct_write_def)
  let ?s1 = "(stat_write (ss_time ss) n ?s)\<lparr>s_dw_buffer := Some (Memory fresh d), s_dw_offset := n\<rparr>"
  obtain e where "socket_server_send fresh (Sent n # rest) i (Raw_pointer a d) ss = Some (0, put_slot (HASH_ID i) ?s1 e ss)"
    using c u p n ty by (simp add: socket_server_send_def direct_write_def send_object_init_from_sendbuffer_def sock_address_def io_count_def
      clone_buffer_def Let_def)
  moreover have "send_buffer soi t ios ?s1 r = None" by (rule address_missing) (use c u low in simp_all)
  ultimately show ?thesis by auto
qed

lemma partial_datagram_fails_witness:
  "\<exists>ss1. socket_server_send 900 [Sent 1] 1 (Raw_pointer 500 [1, 2]) (demo_connected\<lparr>ss_slot := (ss_slot demo_connected)(1 :=
      (ss_slot demo_connected 1)\<lparr>s_protocol := PROTOCOL_UDP, s_p := P_address (1 # replicate 18 9)\<rparr>)\<rparr>) = Some (0, ss1) \<and>
    send_buffer None 0 [Sent 1] (slot_of ss1 1) (nomsg 0 0) = None"
  by (rule partial_datagram_fails [where x = "1 # replicate 18 9" and sa = "replicate 6 9"])
    (simp_all add: can_direct_write_def nomore_sending_data_def send_buffer_empty_def demo_connected_def demo_sock_def slot_of_def demo_steps
      udp_socket_address_def protocol_byte_def)

text \<open>The states of a server that was created while 65535 was taken and 65534 was free.\<close>

inductive second_run :: "server \<Rightarrow> bool" where
  second: "socket_server_create True can_bind junk t = Some ss \<Longrightarrow> \<not> can_bind 65535 \<Longrightarrow> can_bind 65534 \<Longrightarrow> second_run ss"
| second_call: "second_run ss \<Longrightarrow> perform c ss = Some ss' \<Longrightarrow> second_run ss'"

text \<open>
  A second node on the same machine hears nothing: port 65535 is taken, so its control socket is bound to 65534, but
  requests are sent to the port with its bytes swapped; whatever is called, no request ever reaches its socket thread.
\<close>

theorem second_node_hears_nothing:
  assumes "second_run ss"
  shows "ss_cmds ss = [] \<and> ss_bound ss \<noteq> swap16 (ss_udp_port ss)"
proof -
  have "deaf ss" using assms
  proof (induction rule: second_run.induct)
    case (second can_bind junk t ss)
    have m: "MAX_SOCKET = Suc (Suc 65534)" by (simp add: MAX_SOCKET_def)
    have "bind_port can_bind MAX_SOCKET = Some 65534" using second(2,3) unfolding m by (simp only: bind_port.simps if_True if_False)
        simp
    then have "ss = server_of_port 65534 junk t" using second(1) by (simp add: socket_server_create_def)
    then show ?case by (simp add: deaf_def server_of_port_def swap16_def)
  qed (use perform_deaf in blast)
  then show ?thesis by (auto simp: deaf_def)
qed

lemma second_node_hears_nothing_witness:
  "ss_cmds (snd (socket_server_connect 3 ''host'' 80 (server_of_port 65534 (\<lambda>_. demo_sock) 0))) = []"
proof -
  have m: "MAX_SOCKET = Suc (Suc 65534)" by (simp add: MAX_SOCKET_def)
  have "bind_port (\<lambda>p. p \<noteq> 65535) MAX_SOCKET = Some 65534" unfolding m by (subst bind_port.simps, subst bind_port.simps) simp
  then have "socket_server_create True (\<lambda>p. p \<noteq> 65535) (\<lambda>_. demo_sock) 0 = Some (server_of_port 65534 (\<lambda>_. demo_sock) 0)"
    by (simp add: socket_server_create_def)
  then have "second_run (server_of_port 65534 (\<lambda>_. demo_sock) 0)" by (rule second_run.second) simp_all
  then have "second_run (snd (socket_server_connect 3 ''host'' 80 (server_of_port 65534 (\<lambda>_. demo_sock) 0)))"
    by (rule second_run.second_call [of _ "Connect 3 ''host'' 80"]) (simp add: perform_def)
  from second_node_hears_nothing [OF this] show ?thesis by simp
qed

end
