(* ===== verification/SprotoPack.thy ===== *)
theory SprotoPack
  imports Prelude
begin

text \<open>
  The 0-packing of sproto: \<open>sproto_pack\<close> and \<open>sproto_unpack\<close> of \<^verbatim>\<open>lualib-src/sproto/sproto.c\<close> with their callers
  \<open>lpack\<close> and \<open>lunpack\<close> of \<^verbatim>\<open>lsproto.c\<close>.  A buffer is the list of its bytes and a pointer into it an index; a read or
  write outside is \<open>None\<close>.  Sizes stay below 2 GiB.
\<close>

section \<open>Packing\<close>

text \<open>\<open>memcpy\<close> into a buffer.\<close>

definition put_bytes :: "u8 list \<Rightarrow> nat \<Rightarrow> u8 list \<Rightarrow> u8 list option" where
  "put_bytes buf p bs =
     (if p + length bs \<le> length buf then Some (take p buf @ bs @ drop (p + length bs) buf) else None)"

text \<open>The loop over the eight bytes of a segment: the header, the number of bytes that are not zero, the buffer, the write
  position and the space that is left.\<close>

fun seg_loop :: "nat list \<Rightarrow> u8 list \<Rightarrow> u8 \<times> nat \<times> u8 list \<times> nat \<times> int \<Rightarrow> (u8 \<times> nat \<times> u8 list \<times> nat \<times> int) option" where
  "seg_loop [] src st = Some st"
| "seg_loop (i # is) src (header, notzero, buf, p, sz) = do {
     x \<leftarrow> arr_get src i;
     if x \<noteq> 0 then
       if sz > 0 then do {
         buf1 \<leftarrow> arr_set buf p x;
         seg_loop is src (header OR push_bit i 1, notzero + 1, buf1, p + 1, sz - 1) }
       else seg_loop is src (header OR push_bit i 1, notzero + 1, buf, p, sz)
     else seg_loop is src (header, notzero, buf, p, sz) }"

definition pack_seg :: "u8 list \<Rightarrow> u8 list \<Rightarrow> nat \<Rightarrow> int \<Rightarrow> nat \<Rightarrow> (nat \<times> u8 list) option" where
  "pack_seg src buf p sz n = do {
     (header, notzero, buf1, p1, sz1) \<leftarrow> seg_loop [0..<8] src (0, 0, buf, p + 1, sz - 1);
     let notzero1 = (if (notzero = 7 \<or> notzero = 6) \<and> n > 0 then 8 else notzero);
     if notzero1 = 8 then Some (if n > 0 then 8 else 10, buf1)
     else if sz - 1 < 0 then Some (notzero1 + 1, buf1)
     else do { buf2 \<leftarrow> arr_set buf1 p header; Some (notzero1 + 1, buf2) } }"

text \<open>A run of \<open>n\<close> full segments of the source from \<open>start\<close>: the length and the bytes, the last segment filled with zeros.
  \<open>None\<close> as the start is the buffer \<open>tmp\<close>, which is not part of the source.\<close>

definition write_ff :: "u8 list \<Rightarrow> nat option \<Rightarrow> u8 list \<Rightarrow> nat \<Rightarrow> nat \<Rightarrow> u8 list option" where
  "write_ff src start buf des n = do {
     s \<leftarrow> start;
     buf1 \<leftarrow> arr_set buf des 0xFF;
     buf2 \<leftarrow> arr_set buf1 (des + 1) (of_nat n - 1);
     if s + n * 8 \<le> length src then put_bytes buf2 (des + 2) (take (n * 8) (drop s src))
     else do {
       let sz = length src - s;
       buf3 \<leftarrow> put_bytes buf2 (des + 2) (drop s src);
       put_bytes buf3 (des + 2 + sz) (replicate (n * 8 - sz) 0) } }"

record pack_state =
  pk_buf :: "u8 list"
  pk_pos :: nat
  pk_left :: int
  pk_ff_start :: "nat option"
  pk_ff_des :: nat
  pk_ff_n :: nat
  pk_size :: nat

text \<open>One round: the segment at \<open>i\<close>; the last one is copied to \<open>tmp\<close> and filled with zeros.\<close>

definition segment :: "u8 list \<Rightarrow> nat \<Rightarrow> u8 list" where
  "segment src i = (if length src < i + 8 then drop i src @ replicate (i + 8 - length src) 0 else take 8 (drop i src))"

definition pack_step :: "u8 list \<Rightarrow> nat \<Rightarrow> pack_state \<Rightarrow> pack_state option" where
  "pack_step src i st = do {
     (n, buf) \<leftarrow> pack_seg (segment src i) (pk_buf st) (pk_pos st) (pk_left st) (pk_ff_n st);
     let left = pk_left st - int n;
     let st1 = st\<lparr>pk_buf := buf, pk_left := left\<rparr>;
     st2 \<leftarrow>
       (if n = 10 then
          Some (st1\<lparr>pk_ff_start := (if length src < i + 8 then None else Some i), pk_ff_des := pk_pos st, pk_ff_n := 1\<rparr>)
        else if n = 8 \<and> pk_ff_n st > 0 then
          if pk_ff_n st + 1 = 256 then do {
            buf2 \<leftarrow> (if left \<ge> 0 then write_ff src (pk_ff_start st) buf (pk_ff_des st) 256 else Some buf);
            Some (st1\<lparr>pk_buf := buf2, pk_ff_n := 0\<rparr>) }
          else Some (st1\<lparr>pk_ff_n := pk_ff_n st + 1\<rparr>)
        else if pk_ff_n st > 0 then do {
          buf2 \<leftarrow> (if left \<ge> 0 then write_ff src (pk_ff_start st) buf (pk_ff_des st) (pk_ff_n st) else Some buf);
          Some (st1\<lparr>pk_buf := buf2, pk_ff_n := 0\<rparr>) }
        else Some st1);
     Some (st2\<lparr>pk_pos := pk_pos st + n, pk_size := pk_size st + n\<rparr>) }"

fun pack_loop :: "u8 list \<Rightarrow> nat list \<Rightarrow> pack_state \<Rightarrow> pack_state option" where
  "pack_loop src [] st = Some st"
| "pack_loop src (k # ks) st = do { st1 \<leftarrow> pack_step src (8 * k) st; pack_loop src ks st1 }"

text \<open>The size, and the buffer; when the size is larger than the buffer, the output is not complete.\<close>

definition sproto_pack :: "u8 list \<Rightarrow> u8 list \<Rightarrow> nat \<Rightarrow> (nat \<times> u8 list) option" where
  "sproto_pack src buf bufsz = do {
     st \<leftarrow> pack_loop src [0..<(length src + 7) div 8]
       \<lparr>pk_buf = buf, pk_pos = 0, pk_left = int bufsz, pk_ff_start = None, pk_ff_des = 0, pk_ff_n = 0, pk_size = 0\<rparr>;
     buf1 \<leftarrow> (if pk_left st \<ge> 0 \<and> pk_ff_n st > 0
       then write_ff src (pk_ff_start st) (pk_buf st) (pk_ff_des st) (pk_ff_n st) else Some (pk_buf st));
     Some (pk_size st, buf1) }"

section \<open>Unpacking\<close>

text \<open>A result of the code: \<open>-1\<close>, or the size with the buffer.\<close>

datatype unpack_result = Invalid | Unpacked nat "u8 list"

text \<open>The loop over the bits of a header; the bytes that are left, the buffer, the position, the space that is left.  The
  code tests \<open>srcsz < 0\<close> before it reads, which lets it read one byte behind the source.\<close>

fun bits_loop :: "nat list \<Rightarrow> u8 \<Rightarrow> u8 list \<Rightarrow> u8 list \<Rightarrow> nat \<Rightarrow> int \<Rightarrow> (u8 list \<times> u8 list \<times> nat \<times> int) option" where
  "bits_loop [] header src buf p left = Some (src, buf, p, left)"
| "bits_loop (i # is) header src buf p left =
     (if bit header i then do {
        x \<leftarrow> arr_get src 0;
        if left > 0 then do { buf1 \<leftarrow> arr_set buf p x; bits_loop is header (tl src) buf1 (p + 1) (left - 1) }
        else bits_loop is header (tl src) buf p left }
      else if left > 0 then do { buf1 \<leftarrow> arr_set buf p 0; bits_loop is header src buf1 (p + 1) (left - 1) }
      else bits_loop is header src buf p left)"

lemma bits_loop_shorter: "bits_loop is header src buf p left = Some (src', b, q, l) \<Longrightarrow> length src' \<le> length src"
  by (induction "is" header src buf p left rule: bits_loop.induct) (force split: if_splits bind_splits)+

function unpack_loop :: "u8 list \<Rightarrow> u8 list \<Rightarrow> nat \<Rightarrow> int \<Rightarrow> nat \<Rightarrow> unpack_result option" where
  "unpack_loop [] buf p left count = Some (Unpacked count buf)"
| "unpack_loop (header # src) buf p left count =
     (if header = 0xFF then do {
        b \<leftarrow> arr_get src 0;
        let n = (unat b + 1) * 8;
        if length src < n + 1 then Some Invalid
        else do {
          buf1 \<leftarrow> (if left \<ge> int n then put_bytes buf p (take n (drop 1 src)) else Some buf);
          unpack_loop (drop (n + 1) src) buf1 (p + n) (left - int n) (count + n) } }
      else
        case bits_loop [0..<8] header src buf p left of
          None \<Rightarrow> None
        | Some (src1, buf1, p1, left1) \<Rightarrow> unpack_loop src1 buf1 p1 left1 (count + 8))"
  by pat_completeness auto
termination
  by (relation "measure (\<lambda>(src, buf, p, left, count). length src)") (auto dest: bits_loop_shorter simp: less_Suc_eq_le)

definition sproto_unpack :: "u8 list \<Rightarrow> u8 list \<Rightarrow> nat \<Rightarrow> unpack_result option" where
  "sproto_unpack src buf bufsz = unpack_loop src buf 0 (int bufsz) 0"

section \<open>The Lua functions\<close>

definition ENCODE_MAXSIZE :: nat where "ENCODE_MAXSIZE = 0x1000000"

text \<open>The size of the new buffer: doubling at least once, in an \<open>int\<close>.  From 0 it would never end.\<close>

function expand_size :: "nat \<Rightarrow> nat \<Rightarrow> nat option" where
  "expand_size osz nsz =
     (if osz * 2 \<ge> 2 ^ 31 then None
      else if osz * 2 < nsz then if osz = 0 then None else expand_size (osz * 2) nsz
      else Some (osz * 2))"
  by pat_completeness auto
termination
  by (relation "measure (\<lambda>(osz, nsz). nsz - osz)") auto

text \<open>\<open>Inl\<close> is a Lua error; otherwise the string and the buffer kept for the next call.  \<open>fresh n\<close> is the memory of a new
  buffer of \<open>n\<close> bytes.\<close>

definition expand_buffer :: "(nat \<Rightarrow> u8 list) \<Rightarrow> nat \<Rightarrow> nat \<Rightarrow> (string + u8 list) option" where
  "expand_buffer fresh osz nsz = do {
     n \<leftarrow> expand_size osz nsz;
     Some (if n > ENCODE_MAXSIZE then Inl ''object is too large'' else Inr (fresh n)) }"

definition lpack :: "(nat \<Rightarrow> u8 list) \<Rightarrow> u8 list \<Rightarrow> u8 list \<Rightarrow> (string + u8 list \<times> u8 list) option" where
  "lpack fresh src output = do {
     let maxsz = (length src + 2047) div 2048 * 2 + length src + 2;
     out \<leftarrow> (if length output < maxsz then expand_buffer fresh (length output) maxsz else Some (Inr output));
     case out of
       Inl msg \<Rightarrow> Some (Inl msg)
     | Inr buf \<Rightarrow> do {
         (bytes, buf1) \<leftarrow> sproto_pack src buf maxsz;
         Some (if bytes > maxsz then Inl ''packing error'' else Inr (take bytes buf1, buf1)) } }"

definition lunpack :: "(nat \<Rightarrow> u8 list) \<Rightarrow> u8 list \<Rightarrow> u8 list \<Rightarrow> (string + u8 list \<times> u8 list) option" where
  "lunpack fresh src output = do {
     r \<leftarrow> sproto_unpack src output (length output);
     case r of
       Invalid \<Rightarrow> Some (Inl ''Invalid unpack stream'')
     | Unpacked n buf \<Rightarrow>
         if n > length output then do {
           out \<leftarrow> expand_buffer fresh (length output) n;
           case out of
             Inl msg \<Rightarrow> Some (Inl msg)
           | Inr buf1 \<Rightarrow> do {
               r1 \<leftarrow> sproto_unpack src buf1 n;
               case r1 of
                 Invalid \<Rightarrow> Some (Inl ''Invalid unpack stream'')
               | Unpacked m buf2 \<Rightarrow> do { s \<leftarrow> (if m \<le> length buf2 then Some (take m buf2) else None); Some (Inr (s, buf2)) } } }
         else Some (Inr (take n buf, buf)) }"

end
