(* ===== verification/SprotoPackProps.thy ===== *)
theory SprotoPackProps
  imports SprotoPack
begin

text \<open>
  Packing and unpacking: the round trip, the bound on the packed size, and the byte that is read behind a cut source.
\<close>

section \<open>One segment\<close>

definition nonzero :: "u8 list \<Rightarrow> nat list \<Rightarrow> u8 list" where
  "nonzero src is = filter (\<lambda>x. x \<noteq> 0) (map ((!) src) is)"

lemma nonzero_simps [simp]:
  "nonzero src [] = []" "nonzero src (i # is) = (if src ! i \<noteq> 0 then src ! i # nonzero src is else nonzero src is)"
  by (simp_all add: nonzero_def)

text \<open>The header has the bits of the bytes that are not zero.\<close>

definition header_of :: "u8 list \<Rightarrow> u8 \<Rightarrow> bool" where
  "header_of src h \<longleftrightarrow> (\<forall>k < 8. bit h k \<longleftrightarrow> src ! k \<noteq> 0)"

lemma seg_loop_spec:
  "\<forall>i \<in> set is. i < length src \<and> i < 8 \<Longrightarrow> int p + sz \<le> int (length buf) \<Longrightarrow>
   \<exists>h' buf' p' sz'. seg_loop is src (h, nz, buf, p, sz) = Some (h', nz + length (nonzero src is), buf', p', sz') \<and>
     length buf' = length buf \<and> take p buf' = take p buf \<and>
     (int (length (nonzero src is)) \<le> sz \<longrightarrow> take (p + length (nonzero src is)) buf' = take p buf @ nonzero src is) \<and>
     (\<forall>k < 8. bit h' k \<longleftrightarrow> bit h k \<or> (k \<in> set is \<and> src ! k \<noteq> 0))"
proof (induction "is" src "(h, nz, buf, p, sz)" arbitrary: h nz buf p sz rule: seg_loop.induct)
  case 1
  then show ?case by simp
next
  case (2 i "is" src h nz buf p sz)
  have i: "i < length src" "i < 8" using 2(4) by simp_all
  have b: "bit (h OR push_bit i 1) k \<longleftrightarrow> bit h k \<or> k = i" if "k < 8" for k
    using that i by (auto simp: bit_or_iff bit_exp_iff)
  show ?case
  proof (cases "src ! i = 0")
    case True
    then show ?thesis using 2(3) [of "src ! i"] 2(4,5) i by fastforce
  next
    case nz1: False
    show ?thesis
    proof (cases "sz > 0")
      case True
      then have p: "p < length buf" using 2(5) by simp
      let ?b = "buf[p := src ! i]"
      from 2(1) [of "src ! i" ?b] i nz1 True p 2(4,5) obtain h' buf' p' sz'
        where r: "seg_loop is src (h OR push_bit i 1, nz + 1, ?b, p + 1, sz - 1) = Some (h', nz + 1 + length (nonzero src is), buf', p', sz')"
          and l: "length buf' = length ?b" "take (p + 1) buf' = take (p + 1) ?b"
            "int (length (nonzero src is)) \<le> sz - 1 \<longrightarrow> take (p + 1 + length (nonzero src is)) buf' = take (p + 1) ?b @ nonzero src is"
            "\<forall>k < 8. bit h' k \<longleftrightarrow> bit (h OR push_bit i 1) k \<or> (k \<in> set is \<and> src ! k \<noteq> 0)" by fastforce
      have tk: "take (p + 1) ?b = take p buf @ [src ! i]" using p by (simp add: take_Suc_conv_app_nth)
      have t: "take p buf' = take p buf" using arg_cong [OF l(2), of "take p"] p by (simp add: min_def)
      have "seg_loop (i # is) src (h, nz, buf, p, sz) = Some (h', nz + length (nonzero src (i # is)), buf', p', sz')"
        using r nz1 True i p by simp
      moreover have "int (length (nonzero src (i # is))) \<le> sz \<longrightarrow>
          take (p + length (nonzero src (i # is))) buf' = take p buf @ nonzero src (i # is)"
        using l(3) tk nz1 by simp
      ultimately show ?thesis using l(1,4) t b nz1 by auto
    next
      case False
      then show ?thesis using 2(2) [of "src ! i"] i nz1 b 2(4,5) by fastforce
    qed
  qed
qed

definition full :: "u8 list \<Rightarrow> nat" where
  "full src = length (nonzero src [0..<8])"

lemma full_le [simp]: "full src \<le> 8"
  unfolding full_def nonzero_def by (rule order_trans [OF length_filter_le]) simp

lemma header_not_ff:
  assumes "header_of src h" and "full src < 8"
  shows "h \<noteq> 0xFF"
proof
  assume "h = 0xFF"
  moreover have "(0xFF :: u8) = - 1" by simp
  ultimately have "bit h k" if "k < 8" for k using that by (simp only: bit_minus_1_iff) simp
  then have "\<forall>k < 8. src ! k \<noteq> 0" using assms(1) by (simp add: header_of_def)
  then have "nonzero src [0..<8] = map ((!) src) [0..<8]" by (auto simp: nonzero_def filter_id_conv)
  then show False using assms(2) by (simp add: full_def)
qed

lemma pack_seg_spec:
  assumes l: "length src = 8" and p: "int p + sz \<le> int (length buf)"
  shows "\<exists>buf'. pack_seg src buf p sz n = Some (if n > 0 \<and> full src \<ge> 6 then 8 else if full src = 8 then 10 else full src + 1, buf') \<and>
    length buf' = length buf \<and> take p buf' = take p buf \<and>
    (\<not> (n > 0 \<and> full src \<ge> 6) \<and> full src < 8 \<and> int (full src) + 1 \<le> sz \<longrightarrow>
      (\<exists>h. header_of src h \<and> take (p + full src + 1) buf' = take p buf @ h # nonzero src [0..<8]))"
proof -
  obtain h b q s where 1: "seg_loop [0..<8] src (0, 0, buf, p + 1, sz - 1) = Some (h, full src, b, q, s)"
    and lb: "length b = length buf" "take (p + 1) b = take (p + 1) buf"
      "int (full src) \<le> sz - 1 \<longrightarrow> take (p + 1 + full src) b = take (p + 1) buf @ nonzero src [0..<8]"
      "\<forall>k < 8. bit h k \<longleftrightarrow> src ! k \<noteq> 0"
    using seg_loop_spec [of "[0..<8]" src "p + 1" "sz - 1" buf 0 0] l p unfolding full_def by fastforce
  have t: "take p b = take p buf" using arg_cong [OF lb(2), of "take p"] by (simp add: min_def)
  have hd: "header_of src h" using lb(4) by (simp add: header_of_def)
  let ?n1 = "if (full src = 7 \<or> full src = 6) \<and> n > 0 then 8 else full src"
  have f8: "full src \<le> 8" by simp
  show ?thesis
  proof (cases "?n1 = 8")
    case True
    then show ?thesis using 1 lb(1) t f8 by (auto simp: pack_seg_def split: if_splits)
  next
    case False
    then have f: "\<not> (n > 0 \<and> full src \<ge> 6)" "full src < 8" "?n1 = full src" using f8 by (auto simp del: full_le split: if_splits)
    show ?thesis
    proof (cases "sz - 1 < 0")
      case True
      then show ?thesis using 1 lb(1) t f by (auto simp: pack_seg_def)
    next
      case False
      then have pl: "p < length b" using p lb(1) by simp
      have "pack_seg src buf p sz n = Some (full src + 1, b[p := h])" using 1 f False pl by (auto simp: pack_seg_def)
      moreover have "take (p + full src + 1) (b[p := h]) = take p buf @ h # nonzero src [0..<8]" if "int (full src) + 1 \<le> sz"
      proof -
        have "take (p + 1 + full src) b = take (p + 1) buf @ nonzero src [0..<8]" using lb(3) that by simp
        then have "take (p + 1 + full src) (b[p := h]) = (take (p + 1) buf @ nonzero src [0..<8])[p := h]"
          by (simp add: take_update_swap)
        also have "\<dots> = take p buf @ h # nonzero src [0..<8]"
          using pl lb(1) by (simp add: list_update_append take_Suc_conv_app_nth)
        finally show ?thesis by (simp add: add.commute add.left_commute)
      qed
      ultimately show ?thesis using f lb(1) t hd by auto
    qed
  qed
qed

section \<open>What unpacking does\<close>

text \<open>The packed bytes \<open>bs\<close> unpack to \<open>out\<close>: with room for them they are written, without it they are still counted.\<close>

definition decodes :: "u8 list \<Rightarrow> u8 list \<Rightarrow> bool" where
  "decodes bs out \<longleftrightarrow>
     (\<forall>rest buf p left count. int (length out) \<le> left \<and> int p + left \<le> int (length buf) \<longrightarrow>
        unpack_loop (bs @ rest) buf p left count =
          unpack_loop rest (take p buf @ out @ drop (p + length out) buf) (p + length out) (left - int (length out)) (count + length out)) \<and>
     (\<forall>rest buf p left count. int p + left \<le> int (length buf) \<longrightarrow>
        (\<exists>buf' p' left'. unpack_loop (bs @ rest) buf p left count = unpack_loop rest buf' p' left' (count + length out) \<and>
           length buf' = length buf \<and> int p' + left' \<le> int (length buf')))"

lemma decodes_Nil [simp]: "decodes [] []"
  by (auto simp: decodes_def)

lemma decodes_append:
  assumes a: "decodes as xs" and b: "decodes bs ys"
  shows "decodes (as @ bs) (xs @ ys)"
proof -
  have "unpack_loop ((as @ bs) @ rest) buf p left count =
      unpack_loop rest (take p buf @ (xs @ ys) @ drop (p + length (xs @ ys)) buf) (p + length (xs @ ys)) (left - int (length (xs @ ys))) (count + length (xs @ ys))"
    if c: "int (length (xs @ ys)) \<le> left" "int p + left \<le> int (length buf)" for rest buf p left count
  proof -
    let ?b = "take p buf @ xs @ drop (p + length xs) buf"
    have pl: "p + length xs \<le> length buf" using c by simp
    then have l: "length ?b = length buf" by simp
    have "unpack_loop ((as @ bs) @ rest) buf p left count = unpack_loop (bs @ rest) ?b (p + length xs) (left - int (length xs)) (count + length xs)"
      using a c unfolding decodes_def by simp
    also have "\<dots> = unpack_loop rest (take (p + length xs) ?b @ ys @ drop (p + length xs + length ys) ?b) (p + length xs + length ys)
        (left - int (length xs) - int (length ys)) (count + length xs + length ys)"
      using b c l unfolding decodes_def by simp
    also have "take (p + length xs) ?b = take p buf @ xs" using pl by simp
    also have "drop (p + length xs + length ys) ?b = drop (p + length xs + length ys) buf" using pl by (simp add: ac_simps)
    finally show ?thesis by (simp add: algebra_simps)
  qed
  moreover have "\<exists>buf' p' left'. unpack_loop ((as @ bs) @ rest) buf p left count = unpack_loop rest buf' p' left' (count + length (xs @ ys)) \<and>
           length buf' = length buf \<and> int p' + left' \<le> int (length buf')" if c: "int p + left \<le> int (length buf)" for rest buf p left count
  proof -
    obtain b1 p1 l1 where 1: "unpack_loop (as @ bs @ rest) buf p left count = unpack_loop (bs @ rest) b1 p1 l1 (count + length xs)"
      "length b1 = length buf" "int p1 + l1 \<le> int (length b1)" using a c unfolding decodes_def by blast
    obtain b2 p2 l2 where 2: "unpack_loop (bs @ rest) b1 p1 l1 (count + length xs) = unpack_loop rest b2 p2 l2 (count + length xs + length ys)"
      "length b2 = length b1" "int p2 + l2 \<le> int (length b2)" using b 1(3) unfolding decodes_def by blast
    show ?thesis using 1 2 by (intro exI [of _ b2] exI [of _ p2] exI [of _ l2]) (simp add: add.assoc)
  qed
  ultimately show ?thesis unfolding decodes_def by blast
qed

lemma bits_loop_spec:
  "\<forall>i \<in> set is. bit h i \<longleftrightarrow> src ! i \<noteq> 0 \<Longrightarrow> int (length is) \<le> left \<Longrightarrow> int p + left \<le> int (length buf) \<Longrightarrow>
   bits_loop is h (nonzero src is @ rest) buf p left =
     Some (rest, take p buf @ map ((!) src) is @ drop (p + length is) buf, p + length is, left - int (length is))"
proof (induction "is" arbitrary: buf p left)
  case Nil
  then show ?case by simp
next
  case (Cons i "is")
  have p: "p < length buf" "left > 0" using Cons.prems by simp_all
  have u: "take (p + 1) (buf[p := src ! i]) = take p buf @ [src ! i]" using p by (simp add: take_Suc_conv_app_nth)
  have ih: "bits_loop is h (nonzero src is @ rest) (buf[p := src ! i]) (p + 1) (left - 1) =
     Some (rest, take (p + 1) (buf[p := src ! i]) @ map ((!) src) is @ drop (p + 1 + length is) (buf[p := src ! i]), p + 1 + length is, left - 1 - int (length is))"
    by (rule Cons.IH) (use Cons.prems in auto)
  show ?case
  proof (cases "src ! i = 0")
    case True
    then have "\<not> bit h i" using Cons.prems by simp
    then show ?thesis using ih p True u by simp
  next
    case False
    then have "bit h i" using Cons.prems by simp
    then show ?thesis using ih p False u by simp
  qed
qed

lemma bits_loop_any:
  "\<forall>i \<in> set is. bit h i \<longleftrightarrow> src ! i \<noteq> 0 \<Longrightarrow> int p + left \<le> int (length buf) \<Longrightarrow>
   \<exists>buf' p' left'. bits_loop is h (nonzero src is @ rest) buf p left = Some (rest, buf', p', left') \<and> length buf' = length buf \<and>
     int p' + left' \<le> int (length buf')"
proof (induction "is" arbitrary: buf p left)
  case Nil
  then show ?case by simp
next
  case (Cons i "is")
  show ?case
  proof (cases "left > 0")
    case True
    then have p: "p < length buf" using Cons.prems by simp
    have "\<exists>buf' p' left'. bits_loop is h (nonzero src is @ rest) (buf[p := src ! i]) (p + 1) (left - 1) = Some (rest, buf', p', left') \<and>
        length buf' = length (buf[p := src ! i]) \<and> int p' + left' \<le> int (length buf')"
      by (rule Cons.IH) (use Cons.prems in auto)
    then show ?thesis using True p Cons.prems(1) by (cases "src ! i = 0") auto
  next
    case False
    have "\<exists>buf' p' left'. bits_loop is h (nonzero src is @ rest) buf p left = Some (rest, buf', p', left') \<and>
        length buf' = length buf \<and> int p' + left' \<le> int (length buf')"
      by (rule Cons.IH) (use Cons.prems in auto)
    then show ?thesis using False Cons.prems(1) by (cases "src ! i = 0") auto
  qed
qed

lemma segment_bytes: "length src = 8 \<Longrightarrow> map ((!) src) [0..<8] = src"
  by (metis map_nth)

lemma decodes_segment:
  assumes l: "length src = 8" and h: "header_of src h" and f: "full src < 8"
  shows "decodes (h # nonzero src [0..<8]) src"
proof -
  have nf: "h \<noteq> 0xFF" by (rule header_not_ff [OF h f])
  have b: "\<forall>i \<in> set [0..<8]. bit h i \<longleftrightarrow> src ! i \<noteq> 0" using h by (simp add: header_of_def)
  show ?thesis unfolding decodes_def
  proof (intro conjI allI impI)
    fix rest buf :: "u8 list" and p left count assume "int (length src) \<le> left \<and> int p + left \<le> int (length buf)"
    then show "unpack_loop ((h # nonzero src [0..<8]) @ rest) buf p left count =
          unpack_loop rest (take p buf @ src @ drop (p + length src) buf) (p + length src) (left - int (length src)) (count + length src)"
      using bits_loop_spec [OF b, of left p buf rest] nf l segment_bytes [OF l] by simp
  next
    fix rest buf :: "u8 list" and p left count assume "int p + left \<le> int (length buf)"
    from bits_loop_any [OF b this, of rest] obtain buf' p' left' where
      "bits_loop [0..<8] h (nonzero src [0..<8] @ rest) buf p left = Some (rest, buf', p', left')" "length buf' = length buf"
      "int p' + left' \<le> int (length buf')" by blast
    then show "\<exists>buf' p' left'. unpack_loop ((h # nonzero src [0..<8]) @ rest) buf p left count =
        unpack_loop rest buf' p' left' (count + length src) \<and> length buf' = length buf \<and> int p' + left' \<le> int (length buf')"
      using nf l by (intro exI [of _ buf'] exI [of _ p'] exI [of _ left']) simp
  qed
qed

lemma run_length: "1 \<le> n \<Longrightarrow> n \<le> 256 \<Longrightarrow> unat (of_nat n - 1 :: u8) + 1 = n"
  by (cases n) (simp_all add: unat_of_nat)

lemma decodes_run:
  assumes n: "1 \<le> n" "n \<le> 256" and l: "length body = 8 * n"
  shows "decodes (0xFF # (of_nat n - 1) # body) body"
proof -
  have u: "(unat (of_nat n - 1 :: u8) + 1) * 8 = length body" using run_length [OF n] l by simp
  show ?thesis unfolding decodes_def
  proof (intro conjI allI impI)
    fix rest buf :: "u8 list" and p left count assume "int (length body) \<le> left \<and> int p + left \<le> int (length buf)"
    then show "unpack_loop ((0xFF # (of_nat n - 1) # body) @ rest) buf p left count =
          unpack_loop rest (take p buf @ body @ drop (p + length body) buf) (p + length body) (left - int (length body)) (count + length body)"
      using u by (simp add: put_bytes_def Let_def)
  next
    fix rest buf :: "u8 list" and p left count assume a: "int p + left \<le> int (length buf)"
    show "\<exists>buf' p' left'. unpack_loop ((0xFF # (of_nat n - 1) # body) @ rest) buf p left count =
        unpack_loop rest buf' p' left' (count + length body) \<and> length buf' = length buf \<and> int p' + left' \<le> int (length buf')"
    proof (cases "int (length body) \<le> left")
      case True
      then show ?thesis using a u
        by (intro exI [of _ "take p buf @ body @ drop (p + length body) buf"] exI [of _ "p + length body"] exI [of _ "left - int (length body)"])
          (simp add: put_bytes_def Let_def)
    next
      case False
      then show ?thesis using a u by (intro exI [of _ buf] exI [of _ "p + length body"] exI [of _ "left - int (length body)"]) (simp add: Let_def)
    qed
  qed
qed

section \<open>What packing does\<close>

text \<open>The source in segments of eight bytes, the last one filled with zeros.\<close>

definition segs :: "u8 list \<Rightarrow> nat \<Rightarrow> nat \<Rightarrow> u8 list" where
  "segs src j n = concat (map (\<lambda>k. segment src (8 * k)) [j..<j + n])"

lemma length_segment [simp]: "i < length src \<Longrightarrow> length (segment src i) = 8"
  by (simp add: segment_def)

lemma length_segs: "8 * (j + n) < length src + 8 \<Longrightarrow> length (segs src j n) = 8 * n"
  by (induction n) (simp_all add: segs_def)

lemma segs_0 [simp]: "segs src j 0 = []"
  by (simp add: segs_def)

lemma segs_Suc: "segs src j (Suc n) = segs src j n @ segment src (8 * (j + n))"
  by (simp add: segs_def)

lemma segs_split: "segs src 0 (j + n) = segs src 0 j @ segs src j n"
  by (simp add: segs_def upt_add_eq_append [of 0 j n])

text \<open>A run of segments is a part of the source, filled with zeros at its end.\<close>

lemma segment_source: "i < length src \<Longrightarrow> segment src i = take 8 (drop i (src @ replicate 8 0))"
  by (auto simp: segment_def)

lemma segs_source:
  "8 * (j + n) < length src + 8 \<Longrightarrow> segs src j n = take (8 * n) (drop (8 * j) (src @ replicate 8 0))"
proof (induction n)
  case 0
  then show ?case by simp
next
  case (Suc n)
  let ?d = "drop (8 * j) (src @ replicate 8 0)"
  have b: "8 * (j + n) < length src" using Suc.prems by simp
  then have "segs src j (Suc n) = take (8 * n) ?d @ take 8 (drop (8 * n) ?d)"
    using Suc.IH segment_source [OF b] by (simp only: segs_Suc drop_drop) (simp add: algebra_simps)
  also have "\<dots> = take (8 * n + 8) ?d" by (simp only: take_add)
  finally show ?case by (simp only: mult_Suc_right add.commute)
qed

lemma put_bytes_ok: "p + length bs \<le> length buf \<Longrightarrow> put_bytes buf p bs = Some (take p buf @ bs @ drop (p + length bs) buf)"
  by (simp add: put_bytes_def)

lemma write_ff_spec:
  assumes b: "8 * (j + n) < length src + 8" "1 \<le> n" and d: "des + 2 + 8 * n \<le> length buf"
  shows "write_ff src (Some (8 * j)) buf des n = Some (take des buf @ (0xFF # (of_nat n - 1) # segs src j n) @ drop (des + 2 + 8 * n) buf)"
proof -
  let ?b = "buf[des := 0xFF, des + 1 := of_nat n - 1]"
  have t2: "take (des + 2) ?b = take des buf @ [0xFF, of_nat n - 1]"
    using d by (simp add: list_eq_iff_nth_eq nth_append nth_list_update)
  have dr: "drop (des + 2 + k) ?b = drop (des + 2 + k) buf" for k by simp
  have lb: "length ?b = length buf" by simp
  show ?thesis
  proof (cases "8 * j + n * 8 \<le> length src")
    case True
    have s: "segs src j n = take (n * 8) (drop (8 * j) src)" using segs_source [OF b(1)] True by (simp add: take_append algebra_simps)
    have "length (take (n * 8) (drop (8 * j) src)) = 8 * n" using True by simp
    then have "put_bytes ?b (des + 2) (take (n * 8) (drop (8 * j) src)) = Some (take (des + 2) ?b @ segs src j n @ drop (des + 2 + 8 * n) ?b)"
      using d s lb by (simp only: put_bytes_ok)
    then show ?thesis using True d t2 dr by (simp add: write_ff_def)
  next
    case False
    let ?sz = "length src - 8 * j"
    have sz: "?sz \<le> 8 * n" using False by simp
    have l1: "length (drop (8 * j) src) = ?sz" by simp
    have s: "segs src j n = drop (8 * j) src @ replicate (n * 8 - ?sz) 0"
      using segs_source [OF b(1)] False b(1) by (simp add: take_append algebra_simps)
    let ?b1 = "take (des + 2) ?b @ drop (8 * j) src @ drop (des + 2 + ?sz) ?b"
    have p1: "put_bytes ?b (des + 2) (drop (8 * j) src) = Some ?b1" using d sz l1 lb by (simp add: put_bytes_def)
    have lb1: "length ?b1 = length buf" using d sz by simp
    have tk: "take (des + 2 + ?sz) ?b1 = take (des + 2) ?b @ drop (8 * j) src" using d sz by simp
    have dk: "drop (des + 2 + 8 * n) ?b1 = drop (des + 2 + 8 * n) ?b" using d sz by (simp add: ac_simps)
    have "put_bytes ?b1 (des + 2 + ?sz) (replicate (n * 8 - ?sz) 0) =
        Some (take (des + 2 + ?sz) ?b1 @ replicate (n * 8 - ?sz) 0 @ drop (des + 2 + 8 * n) ?b1)"
      using d sz lb1 by (simp add: put_bytes_def algebra_simps)
    then show ?thesis using False d t2 dr p1 s tk dk by (simp add: write_ff_def)
  qed
qed

text \<open>The state after \<open>k\<close> segments: what is written unpacks to the segments before the run that is open, which has its
  place reserved.\<close>

definition pack_inv :: "u8 list \<Rightarrow> nat \<Rightarrow> nat \<Rightarrow> pack_state \<Rightarrow> bool" where
  "pack_inv src L k st \<longleftrightarrow>
     length (pk_buf st) = L \<and> int (pk_pos st) + pk_left st \<le> int L \<and> pk_size st = pk_pos st \<and> pk_ff_n st \<le> k \<and> pk_ff_n st < 256 \<and>
     (pk_ff_n st > 0 \<longrightarrow>
        pk_ff_start st = Some (8 * (k - pk_ff_n st)) \<and> pk_pos st = pk_ff_des st + 2 + 8 * pk_ff_n st) \<and>
     (pk_left st \<ge> 0 \<longrightarrow>
        decodes (take (if pk_ff_n st > 0 then pk_ff_des st else pk_pos st) (pk_buf st)) (segs src 0 (k - pk_ff_n st)))"

lemma full_segment:
  assumes "full (segment src i) = 8" and "i < length src"
  shows "i + 8 \<le> length src"
proof (rule ccontr)
  assume n: "\<not> i + 8 \<le> length src"
  then have "segment src i ! 7 = 0" using assms(2) by (auto simp: segment_def nth_append)
  moreover have "length (filter (\<lambda>x. x \<noteq> 0) (map ((!) (segment src i)) [0..<8])) = length (map ((!) (segment src i)) [0..<8])"
    using assms(1) by (simp add: full_def nonzero_def)
  then have "\<forall>x \<in> set (map ((!) (segment src i)) [0..<8]). x \<noteq> 0"
    using length_filter_less [of _ "map ((!) (segment src i)) [0..<8]" "\<lambda>x. x \<noteq> 0"] by (metis less_irrefl)
  ultimately show False by simp
qed

lemma take_whole: "length xs = n \<Longrightarrow> take n (xs @ ys) = xs"
  by simp

lemma take_beyond: "length xs = n \<Longrightarrow> take (n + m) (xs @ ys) = xs @ take m ys"
  by simp

lemma decodes_flush:
  assumes d: "decodes (take des buf) (segs src 0 (k - n))" and n: "1 \<le> n" "n \<le> 256" "n \<le> k" and k: "8 * k < length src + 8"
    and l: "des + 2 + 8 * n \<le> length buf"
  shows "decodes (take (des + 2 + 8 * n) (take des buf @ (0xFF # (of_nat n - 1) # segs src (k - n) n) @ drop (des + 2 + 8 * n) buf)) (segs src 0 k)"
proof -
  have ls: "length (segs src (k - n) n) = 8 * n" by (rule length_segs) (use n k in simp)
  have "take (des + 2 + 8 * n) (take des buf @ (0xFF # (of_nat n - 1) # segs src (k - n) n) @ drop (des + 2 + 8 * n) buf) =
      take des buf @ (0xFF # (of_nat n - 1) # segs src (k - n) n)"
    using ls l by simp
  moreover have "segs src 0 k = segs src 0 (k - n) @ segs src (k - n) n" using segs_split [of src "k - n" n] n by simp
  ultimately show ?thesis using decodes_append [OF d decodes_run [OF n(1,2) ls]] by simp
qed

lemma pack_step_inv:
  assumes inv: "pack_inv src L k st" and k: "8 * k < length src"
  shows "\<exists>st'. pack_step src (8 * k) st = Some st' \<and> pack_inv src L (Suc k) st' \<and>
    pk_size st' = pk_size st + (if pk_ff_n st > 0 \<and> full (segment src (8 * k)) \<ge> 6 then 8 else if full (segment src (8 * k)) = 8 then 10
      else full (segment src (8 * k)) + 1) \<and>
    pk_ff_n st' = (if pk_ff_n st > 0 \<and> full (segment src (8 * k)) \<ge> 6 then (if pk_ff_n st = 255 then 0 else pk_ff_n st + 1)
      else if full (segment src (8 * k)) = 8 then 1 else 0) \<and> pk_left st' = pk_left st - int (pk_size st') + int (pk_size st)"
proof -
  let ?g = "segment src (8 * k)"
  let ?f = "full ?g"
  let ?p = "pk_pos st"
  let ?b = "pk_buf st"
  let ?run = "pk_ff_n st"
  let ?n = "if ?run > 0 \<and> ?f \<ge> 6 then 8 else if ?f = 8 then 10 else ?f + 1"
  let ?left = "pk_left st - int ?n"
  have i: "length ?b = L" "int ?p + pk_left st \<le> int L" "pk_size st = ?p" "?run \<le> k" "?run < 256" using inv by (simp_all add: pack_inv_def)
  have run: "?run > 0 \<Longrightarrow> pk_ff_start st = Some (8 * (k - ?run)) \<and> ?p = pk_ff_des st + 2 + 8 * ?run" using inv by (simp add: pack_inv_def)
  have dec: "pk_left st \<ge> 0 \<Longrightarrow> decodes (take (if ?run > 0 then pk_ff_des st else ?p) ?b) (segs src 0 (k - ?run))" using inv by (simp add: pack_inv_def)
  have lg: "length ?g = 8" using k by simp
  obtain b1 where ps: "pack_seg ?g ?b ?p (pk_left st) ?run = Some (?n, b1)" and b1: "length b1 = length ?b" "take ?p b1 = take ?p ?b"
    and hdr: "\<not> (?run > 0 \<and> ?f \<ge> 6) \<and> ?f < 8 \<and> int ?f + 1 \<le> pk_left st \<longrightarrow>
      (\<exists>h. header_of ?g h \<and> take (?p + ?f + 1) b1 = take ?p ?b @ h # nonzero ?g [0..<8])"
    using pack_seg_spec [OF lg, of ?p "pk_left st" ?b ?run] i(1,2) by auto
  have room: "?left \<ge> 0 \<Longrightarrow> ?p + ?n \<le> L" using i(2) by simp
  have d1: "?run > 0 \<Longrightarrow> take (pk_ff_des st) b1 = take (pk_ff_des st) ?b"
    using arg_cong [OF b1(2), of "take (pk_ff_des st)"] run by (simp add: min_def)
  have k8: "8 * k < length src + 8" "8 * (k + 1) < length src + 8" using k by simp_all
  have seg1: "segs src 0 (Suc k) = segs src 0 k @ ?g" by (simp add: segs_Suc)
  have wf: "write_ff src (pk_ff_start st) b1 (pk_ff_des st) n =
      Some (take (pk_ff_des st) b1 @ (0xFF # (of_nat n - 1) # segs src (k - ?run) n) @ drop (pk_ff_des st + 2 + 8 * n) b1)"
    if "?run > 0" "n = ?run \<or> n = ?run + 1" "pk_ff_des st + 2 + 8 * n \<le> L" for n
    using write_ff_spec [of "k - ?run" n src "pk_ff_des st" b1] run [OF that(1)] that i(1,4) b1(1) k by auto
  have ff8: "?f \<le> 8" by simp
  consider "?run > 0" "?f \<ge> 6" "?run = 255" | "?run > 0" "?f \<ge> 6" "?run < 255" | "?run = 0" "?f = 8" | "?run > 0" "?f < 6" | "?run = 0" "?f < 8"
    using i(5) ff8 by linarith
  then show ?thesis
  proof cases
    case 1
    let ?b2 = "if ?left \<ge> 0 then take (pk_ff_des st) b1 @ (0xFF # (of_nat 256 - 1) # segs src (k - 255) 256) @ drop (pk_ff_des st + 2 + 8 * 256) b1 else b1"
    let ?st = "st\<lparr>pk_buf := b1, pk_left := ?left, pk_buf := ?b2, pk_ff_n := 0, pk_pos := ?p + 8, pk_size := ?p + 8\<rparr>"
    have w: "(if ?left \<ge> 0 then write_ff src (pk_ff_start st) b1 (pk_ff_des st) 256 else Some b1) = Some ?b2"
      using 1 wf [of 256] room run by auto
    have stp: "pack_step src (8 * k) st = Some ?st" using ps 1 w i(3) by (simp add: pack_step_def Let_def del: of_nat_numeral)
    have "decodes (take (?p + 8) ?b2) (segs src 0 (Suc k))" if "?left \<ge> 0"
    proof -
      have "decodes (take (pk_ff_des st) b1) (segs src 0 (k + 1 - 256))" using dec that 1 d1 by simp
      from decodes_flush [OF this, of] show ?thesis using that 1 run room i(1,4) b1(1) k8 by simp
    qed
    moreover have "length ?b2 = L" using room run 1 i(1,4) b1(1) k by (auto simp: length_segs)
    ultimately have "pack_inv src L (Suc k) ?st" using 1 i by (simp add: pack_inv_def)
    then show ?thesis using stp 1 i(3) by simp
  next
    case 2
    let ?st = "st\<lparr>pk_buf := b1, pk_left := ?left, pk_ff_n := ?run + 1, pk_pos := ?p + 8, pk_size := ?p + 8\<rparr>"
    have stp: "pack_step src (8 * k) st = Some ?st" using ps 2 i(3) by (simp add: pack_step_def Let_def)
    have "decodes (take (pk_ff_des st) b1) (segs src 0 (k - ?run))" if "?left \<ge> 0" using dec that 2 d1 by simp
    then have "pack_inv src L (Suc k) ?st" using 2 i b1(1) run by (simp add: pack_inv_def)
    then show ?thesis using stp 2 i(3) by simp
  next
    case 3
    let ?st = "st\<lparr>pk_buf := b1, pk_left := ?left, pk_ff_start := Some (8 * k), pk_ff_des := ?p, pk_ff_n := 1, pk_pos := ?p + 10, pk_size := ?p + 10\<rparr>"
    have "8 * k + 8 \<le> length src" using full_segment 3 k by blast
    then have stp: "pack_step src (8 * k) st = Some ?st" using ps 3 i(3) by (simp add: pack_step_def Let_def)
    have "decodes (take ?p b1) (segs src 0 k)" if "?left \<ge> 0" using dec that 3 b1(2) by simp
    then have "pack_inv src L (Suc k) ?st" using 3 i b1(1) by (simp add: pack_inv_def)
    then show ?thesis using stp 3 i(3) by simp
  next
    case 4
    let ?b2 = "if ?left \<ge> 0 then take (pk_ff_des st) b1 @ (0xFF # (of_nat ?run - 1) # segs src (k - ?run) ?run) @ drop ?p b1 else b1"
    let ?st = "st\<lparr>pk_buf := b1, pk_left := ?left, pk_buf := ?b2, pk_ff_n := 0, pk_pos := ?p + ?f + 1, pk_size := ?p + ?f + 1\<rparr>"
    have w: "(if ?left \<ge> 0 then write_ff src (pk_ff_start st) b1 (pk_ff_des st) ?run else Some b1) = Some ?b2"
      using 4 wf [of ?run] room run by auto
    have stp: "pack_step src (8 * k) st = Some ?st" using ps 4 w i(3) by (simp add: pack_step_def Let_def)
    have dc: "decodes (take (?p + ?f + 1) ?b2) (segs src 0 (Suc k))" if l: "?left \<ge> 0"
    proof -
      obtain h where h: "header_of ?g h" "take (?p + ?f + 1) b1 = take ?p ?b @ h # nonzero ?g [0..<8]" using hdr 4 l by auto
      have pb: "?p \<le> length b1" using room l b1(1) i(1) by simp
      have lr: "length (take (pk_ff_des st) b1 @ (0xFF # (of_nat ?run - 1) # segs src (k - ?run) ?run)) = ?p"
        using run [OF 4(1)] pb i(4) k8 by (simp add: length_segs)
      have t2: "take (?f + 1) (drop ?p b1) = h # nonzero ?g [0..<8]"
        using h(2) b1 pb by (simp add: take_drop add.commute add.left_commute)
      have "decodes (take (pk_ff_des st) b1) (segs src 0 (k - ?run))" using dec l 4 d1 by simp
      from decodes_flush [OF this, of] have
        "decodes (take ?p (take (pk_ff_des st) b1 @ (0xFF # (of_nat ?run - 1) # segs src (k - ?run) ?run) @ drop ?p b1)) (segs src 0 k)"
        using l 4 run [OF 4(1)] room i(1,4,5) b1(1) k8 by simp
      moreover have "take ?p (take (pk_ff_des st) b1 @ (0xFF # (of_nat ?run - 1) # segs src (k - ?run) ?run) @ drop ?p b1) =
          take (pk_ff_des st) b1 @ (0xFF # (of_nat ?run - 1) # segs src (k - ?run) ?run)"
        unfolding append_assoc [symmetric] by (rule take_whole [OF lr])
      ultimately have "decodes (take (pk_ff_des st) b1 @ (0xFF # (of_nat ?run - 1) # segs src (k - ?run) ?run)) (segs src 0 k)" by (simp only:)
      moreover have "take (?p + (?f + 1)) (take (pk_ff_des st) b1 @ (0xFF # (of_nat ?run - 1) # segs src (k - ?run) ?run) @ drop ?p b1) =
          (take (pk_ff_des st) b1 @ (0xFF # (of_nat ?run - 1) # segs src (k - ?run) ?run)) @ (h # nonzero ?g [0..<8])"
        unfolding append_assoc [symmetric] t2 [symmetric] by (rule take_beyond [OF lr])
      moreover have "decodes (h # nonzero ?g [0..<8]) ?g" by (rule decodes_segment [OF lg h(1)]) (use 4 in simp)
      ultimately show ?thesis using decodes_append l by (simp only: seg1 if_True add.assoc)
    qed
    have "length ?b2 = L" using room run 4 i(1,4) b1(1) k by (auto simp: length_segs)
    then have "pack_inv src L (Suc k) ?st" using 4 i dc by (simp add: pack_inv_def)
    then show ?thesis using stp 4 i(3) by simp
  next
    case 5
    let ?st = "st\<lparr>pk_buf := b1, pk_left := ?left, pk_pos := ?p + ?f + 1, pk_size := ?p + ?f + 1\<rparr>"
    have stp: "pack_step src (8 * k) st = Some ?st" using ps 5 i(3) ff8 by (auto simp: pack_step_def Let_def)
    have "decodes (take (?p + ?f + 1) b1) (segs src 0 (Suc k))" if l: "?left \<ge> 0"
    proof -
      obtain h where h: "header_of ?g h" "take (?p + ?f + 1) b1 = take ?p ?b @ h # nonzero ?g [0..<8]" using hdr 5 l by auto
      have "decodes (take ?p ?b) (segs src 0 k)" using dec l 5 by simp
      from decodes_append [OF this decodes_segment [OF lg h(1)]] 5 h(2) show ?thesis by (simp add: seg1)
    qed
    then have "pack_inv src L (Suc k) ?st" using 5 i b1(1) by (simp add: pack_inv_def)
    then show ?thesis using stp 5 i(3) by simp
  qed
qed

text \<open>The size so far: two bytes more than the source for each run of 256 that is complete and for the run that is open.\<close>

definition size_inv :: "nat \<Rightarrow> pack_state \<Rightarrow> bool" where
  "size_inv k st \<longleftrightarrow> (\<exists>c. 256 * c + pk_ff_n st \<le> k \<and> pk_size st \<le> 8 * k + 2 * c + (if pk_ff_n st > 0 then 2 else 0))"

lemma full_segment_bound: "i < length src \<Longrightarrow> full (segment src i) \<le> length src - i"
proof -
  assume i: "i < length src"
  show ?thesis
  proof (cases "length src < i + 8")
    case True
    have "nonzero (segment src i) [0..<8] = filter (\<lambda>x. x \<noteq> 0) (segment src i)"
      using segment_bytes [of "segment src i"] i by (simp add: nonzero_def)
    also have "\<dots> = filter (\<lambda>x. x \<noteq> 0) (drop i src)" using True by (simp add: segment_def)
    finally show ?thesis unfolding full_def by (metis length_filter_le length_drop)
  next
    case False
    then show ?thesis using full_le [of "segment src i"] by linarith
  qed
qed

lemma pack_loop_inv:
  "pack_inv src L k st \<Longrightarrow> size_inv k st \<Longrightarrow> 8 * m < length src + 8 \<Longrightarrow> k \<le> m \<Longrightarrow>
   \<exists>st'. pack_loop src [k..<m] st = Some st' \<and> pack_inv src L m st' \<and> int (pk_size st') + pk_left st' = int (pk_size st) + pk_left st \<and>
     (m = k \<and> st' = st \<or> pk_size st' \<le> length src + 2 + 2 * ((m + 255) div 256)) \<and> (8 * m \<le> length src \<longrightarrow> size_inv m st')"
proof (induction "m - k" arbitrary: k st)
  case 0
  then show ?case by simp
next
  case (Suc d)
  then have km: "k < m" by simp
  have k: "8 * k < length src" using Suc.prems(3) km by simp
  let ?f = "full (segment src (8 * k))"
  obtain st1 where s1: "pack_step src (8 * k) st = Some st1" "pack_inv src L (Suc k) st1"
    and sz: "pk_size st1 = pk_size st + (if pk_ff_n st > 0 \<and> ?f \<ge> 6 then 8 else if ?f = 8 then 10 else ?f + 1)"
    and fn: "pk_ff_n st1 = (if pk_ff_n st > 0 \<and> ?f \<ge> 6 then (if pk_ff_n st = 255 then 0 else pk_ff_n st + 1) else if ?f = 8 then 1 else 0)"
    and lf: "pk_left st1 = pk_left st - int (pk_size st1) + int (pk_size st)"
    using pack_step_inv [OF Suc.prems(1) k] by blast
  obtain c where c: "256 * c + pk_ff_n st \<le> k" "pk_size st \<le> 8 * k + 2 * c + (if pk_ff_n st > 0 then 2 else 0)"
    using Suc.prems(2) by (auto simp: size_inv_def)
  have f8: "?f \<le> 8" by simp
  have up: "[k..<m] = k # [Suc k..<m]" using km by (simp add: upt_rec)
  have si: "size_inv (Suc k) st1"
  proof -
    consider "pk_ff_n st > 0" "?f \<ge> 6" "pk_ff_n st = 255" | "pk_ff_n st > 0" "?f \<ge> 6" "pk_ff_n st \<noteq> 255"
      | "pk_ff_n st > 0" "?f < 6" | "pk_ff_n st = 0" by linarith
    then show ?thesis
    proof cases
      case 1
      then show ?thesis using c sz fn unfolding size_inv_def by (intro exI [of _ "Suc c"]) simp
    next
      case 2
      then show ?thesis using c sz fn unfolding size_inv_def by (intro exI [of _ c]) simp
    next
      case 3
      then show ?thesis using c sz fn unfolding size_inv_def by (intro exI [of _ c]) auto
    next
      case 4
      then show ?thesis using c sz fn f8 unfolding size_inv_def by (intro exI [of _ c]) (auto simp del: full_le)
    qed
  qed
  have d: "d = m - Suc k" "Suc k \<le> m" using Suc.hyps(2) km by simp_all
  from Suc.hyps(1) [OF d(1) s1(2) si Suc.prems(3) d(2)] obtain st' where st': "pack_loop src [Suc k..<m] st1 = Some st'" "pack_inv src L m st'"
    "int (pk_size st') + pk_left st' = int (pk_size st1) + pk_left st1"
    "m = Suc k \<and> st' = st1 \<or> pk_size st' \<le> length src + 2 + 2 * ((m + 255) div 256)" "8 * m \<le> length src \<longrightarrow> size_inv m st'" by blast
  have "pk_size st1 \<le> length src + 2 + 2 * ((m + 255) div 256)" if m: "m = Suc k"
  proof -
    have fb: "?f \<le> length src - 8 * k" using full_segment_bound k by blast
    then have fl: "8 * k + ?f \<le> length src" using k by simp
    have q: "(m + 255) div 256 = (k div 256) + 1" using m by simp
    have ck: "c \<le> k div 256" using c(1) by simp
    show ?thesis
    proof (cases "pk_ff_n st > 0 \<and> ?f \<ge> 6")
      case True
      then show ?thesis using sz c(2) fl ck unfolding q by simp
    next
      case False
      then show ?thesis using sz c(2) fl ck k f8 unfolding q by (auto split: if_splits simp del: full_le)
    qed
  qed
  then show ?case using up s1(1) st' lf by auto
qed

lemma segs_all: "8 * m < length src + 8 \<Longrightarrow> segs src 0 m = take (8 * m) (src @ replicate 8 0)"
  using segs_source [of 0 m src] by simp

lemma round_up: "8 * ((n + 7) div 8) = n + (8 - n mod 8) mod (8 :: nat)"
proof -
  obtain q r where n: "n = 8 * q + r" "r < 8" by (metis mult_div_mod_eq mod_less_divisor zero_less_numeral)
  have "r = 0 \<or> r = 1 \<or> r = 2 \<or> r = 3 \<or> r = 4 \<or> r = 5 \<or> r = 6 \<or> r = 7" using n(2) by linarith
  then have "8 * ((r + 7) div 8) = r + (8 - r) mod 8" by (elim disjE) simp_all
  moreover have "(8 * q + r) mod 8 = r" using n(2) by simp
  moreover have "(8 * q + r + 7) div 8 = q + (r + 7) div 8" by (simp only: add.assoc div_mult_self2 [of 8 "r + 7" q] add.commute [of "8 * q"])
  ultimately show ?thesis unfolding n(1) by simp
qed

text \<open>The source, filled with zeros to a multiple of eight.\<close>

definition padded :: "u8 list \<Rightarrow> u8 list" where
  "padded src = src @ replicate ((8 - length src mod 8) mod 8) 0"

definition packed_bound :: "nat \<Rightarrow> nat" where
  "packed_bound n = (n + 2047) div 2048 * 2 + n + 2"

lemma rounds: "8 * ((n + 7) div 8) < n + 8" "n \<le> 8 * ((n + 7) div 8)" "((n + 7) div 8 + 255) div 256 = (n + 2047) div (2048 :: nat)"
proof -
  show "8 * ((n + 7) div 8) < n + 8" "n \<le> 8 * ((n + 7) div 8)" by linarith+
  have "((n + 7) div 8 + 255) div 256 = ((n + 7 + 255 * 8) div 8) div 256" by simp
  also have "\<dots> = (n + 2047) div (8 * 256)" by (simp only: div_mult2_eq)
  finally show "((n + 7) div 8 + 255) div 256 = (n + 2047) div 2048" by simp
qed

lemma segs_padded: "segs src 0 ((length src + 7) div 8) = padded src"
proof -
  let ?m = "(length src + 7) div 8"
  note e = round_up [of "length src"]
  have "segs src 0 ?m = take (8 * ?m) (src @ replicate 8 0)" by (rule segs_all) (rule rounds(1))
  also have "\<dots> = padded src" unfolding e by (simp add: padded_def min_def)
  finally show ?thesis .
qed

text \<open>Packing: it never leaves its buffer; it gives the size, which is bounded; and when the buffer is large enough the bytes
  unpack to the source.\<close>

lemma sproto_pack_spec:
  assumes b: "bufsz \<le> length buf"
  shows "\<exists>n buf'. sproto_pack src buf bufsz = Some (n, buf') \<and> length buf' = length buf \<and> n \<le> packed_bound (length src) \<and>
    (n \<le> bufsz \<longrightarrow> decodes (take n buf') (padded src))"
proof -
  let ?m = "(length src + 7) div 8"
  let ?st = "\<lparr>pk_buf = buf, pk_pos = 0, pk_left = int bufsz, pk_ff_start = None, pk_ff_des = 0, pk_ff_n = 0, pk_size = 0\<rparr>"
  have i: "pack_inv src (length buf) 0 ?st" using b by (simp add: pack_inv_def)
  have s: "size_inv 0 ?st" by (simp add: size_inv_def)
  obtain st where st: "pack_loop src [0..<?m] ?st = Some st" "pack_inv src (length buf) ?m st"
    "int (pk_size st) + pk_left st = int bufsz" "?m = 0 \<and> st = ?st \<or> pk_size st \<le> length src + 2 + 2 * ((?m + 255) div 256)"
    using pack_loop_inv [OF i s rounds(1)] by auto
  have n: "pk_size st \<le> packed_bound (length src)"
    using st(4) unfolding rounds(3) packed_bound_def by (elim disjE) (simp_all only:, simp_all)
  have inv: "length (pk_buf st) = length buf" "int (pk_pos st) + pk_left st \<le> int (length buf)" "pk_size st = pk_pos st" "pk_ff_n st \<le> ?m" "pk_ff_n st < 256"
    "pk_ff_n st > 0 \<Longrightarrow> pk_ff_start st = Some (8 * (?m - pk_ff_n st)) \<and> pk_pos st = pk_ff_des st + 2 + 8 * pk_ff_n st"
    "pk_left st \<ge> 0 \<Longrightarrow> decodes (take (if pk_ff_n st > 0 then pk_ff_des st else pk_pos st) (pk_buf st)) (segs src 0 (?m - pk_ff_n st))"
    using st(2) by (simp_all add: pack_inv_def)
  show ?thesis
  proof (cases "pk_left st \<ge> 0 \<and> pk_ff_n st > 0")
    case True
    let ?n = "pk_ff_n st"
    have room: "pk_ff_des st + 2 + 8 * ?n \<le> length (pk_buf st)" using True inv(1,2,6) by simp
    have wf: "write_ff src (pk_ff_start st) (pk_buf st) (pk_ff_des st) ?n =
      Some (take (pk_ff_des st) (pk_buf st) @ (0xFF # (of_nat ?n - 1) # segs src (?m - ?n) ?n) @ drop (pk_ff_des st + 2 + 8 * ?n) (pk_buf st))"
      using write_ff_spec [of "?m - ?n" ?n src "pk_ff_des st" "pk_buf st"] inv(4,6) True room rounds(1) [of "length src"] by simp
    have d: "decodes (take (pk_ff_des st) (pk_buf st)) (segs src 0 (?m - ?n))" using inv(7) True by simp
    have "decodes (take (pk_ff_des st + 2 + 8 * ?n) (take (pk_ff_des st) (pk_buf st) @ (0xFF # (of_nat ?n - 1) # segs src (?m - ?n) ?n) @
        drop (pk_ff_des st + 2 + 8 * ?n) (pk_buf st))) (segs src 0 ?m)"
      by (rule decodes_flush [OF d _ _ inv(4) rounds(1) room]) (use True inv(5) in simp_all)
    then have dc: "decodes (take (pk_size st) (take (pk_ff_des st) (pk_buf st) @ (0xFF # (of_nat ?n - 1) # segs src (?m - ?n) ?n) @
        drop (pk_ff_des st + 2 + 8 * ?n) (pk_buf st))) (padded src)"
      using inv(3,6) True segs_padded by simp
    have ln: "length (segs src (?m - ?n) ?n) = 8 * ?n" by (rule length_segs) (use inv(4) rounds(1) [of "length src"] in simp)
    show ?thesis using st(1) wf True dc n ln room inv(1) by (simp add: sproto_pack_def)
  next
    case False
    then have "decodes (take (pk_size st) (pk_buf st)) (padded src)" if "pk_left st \<ge> 0" using inv(3,7) that segs_padded by simp
    then show ?thesis using st(1,3) False n inv(1) by (auto simp: sproto_pack_def)
  qed
qed

section \<open>The Lua functions\<close>

declare expand_size.simps [simp del]

lemma expand_size_ok:
  "0 < osz \<Longrightarrow> osz < nsz \<Longrightarrow> nsz \<le> 2 ^ 30 \<Longrightarrow> \<exists>n. expand_size osz nsz = Some n \<and> nsz \<le> n \<and> n < 2 * nsz"
proof (induction osz nsz rule: expand_size.induct)
  case (1 osz nsz)
  show ?case
  proof (cases "osz * 2 < nsz")
    case True
    then show ?thesis using 1 by (subst expand_size.simps) auto
  next
    case False
    then show ?thesis using 1(2-) by (subst expand_size.simps) auto
  qed
qed

lemma expand_buffer_ok:
  assumes f: "\<And>n. length (fresh n) = n" and o: "0 < osz" "osz < nsz" and n: "2 * nsz \<le> ENCODE_MAXSIZE"
  shows "\<exists>buf. expand_buffer fresh osz nsz = Some (Inr buf) \<and> nsz \<le> length buf"
  using expand_size_ok [OF o] n f by (auto simp: expand_buffer_def ENCODE_MAXSIZE_def)

lemma decodes_room:
  "decodes bs out \<Longrightarrow> int (length out) \<le> left \<Longrightarrow> int p + left \<le> int (length buf) \<Longrightarrow> unpack_loop (bs @ rest) buf p left count =
     unpack_loop rest (take p buf @ out @ drop (p + length out) buf) (p + length out) (left - int (length out)) (count + length out)"
  unfolding decodes_def by blast

lemma decodes_any:
  assumes "decodes bs out" and "int p + left \<le> int (length buf)"
  obtains buf' p' left' where "unpack_loop (bs @ rest) buf p left count = unpack_loop rest buf' p' left' (count + length out)"
    "length buf' = length buf"
  using assms unfolding decodes_def by blast

lemma decodes_unpack:
  assumes d: "decodes bs out" and b: "bufsz \<le> length buf"
  shows "length out \<le> bufsz \<Longrightarrow> sproto_unpack bs buf bufsz = Some (Unpacked (length out) (out @ drop (length out) buf))"
    and "\<exists>buf'. sproto_unpack bs buf bufsz = Some (Unpacked (length out) buf') \<and> length buf' = length buf"
proof -
  show "sproto_unpack bs buf bufsz = Some (Unpacked (length out) (out @ drop (length out) buf))" if l: "length out \<le> bufsz"
  proof -
    have "int (length out) \<le> int bufsz" "int 0 + int bufsz \<le> int (length buf)" using l b by simp_all
    from decodes_room [OF d this, of "[]" 0] show ?thesis by (simp add: sproto_unpack_def)
  qed
  have "int 0 + int bufsz \<le> int (length buf)" using b by simp
  from decodes_any [OF d this, of "[]" 0] obtain buf' p' left' where
    "unpack_loop (bs @ []) buf 0 (int bufsz) 0 = unpack_loop [] buf' p' left' (0 + length out)" "length buf' = length buf" by blast
  then show "\<exists>buf'. sproto_unpack bs buf bufsz = Some (Unpacked (length out) buf') \<and> length buf' = length buf"
    by (simp add: sproto_unpack_def)
qed

lemma lpack_spec:
  assumes f: "\<And>n. length (fresh n) = n" and o: "0 < length output" and n: "length src \<le> 8000000"
  shows "\<exists>bytes out. lpack fresh src output = Some (Inr (bytes, out)) \<and> length bytes \<le> packed_bound (length src) \<and> decodes bytes (padded src)"
proof -
  let ?m = "packed_bound (length src)"
  have m: "2 * ?m \<le> ENCODE_MAXSIZE" using n unfolding packed_bound_def ENCODE_MAXSIZE_def by simp
  obtain buf where b: "(if length output < ?m then expand_buffer fresh (length output) ?m else Some (Inr output)) = Some (Inr buf)" "?m \<le> length buf"
  proof (cases "length output < ?m")
    case True
    then show ?thesis using expand_buffer_ok [OF f o True m] that by auto
  next
    case False
    then show ?thesis using that [of "output"] by simp
  qed
  obtain k buf' where k: "sproto_pack src buf ?m = Some (k, buf')" "length buf' = length buf" "k \<le> ?m" "k \<le> ?m \<longrightarrow> decodes (take k buf') (padded src)"
    using sproto_pack_spec [OF b(2)] by blast
  then show ?thesis using b unfolding lpack_def packed_bound_def Let_def by auto
qed

lemma lunpack_spec:
  assumes f: "\<And>n. length (fresh n) = n" and o: "0 < length output" and d: "decodes bytes xs" and n: "2 * length xs \<le> ENCODE_MAXSIZE"
  shows "\<exists>out. lunpack fresh bytes output = Some (Inr (xs, out))"
proof (cases "length xs > length output")
  case True
  obtain b1 where b1: "sproto_unpack bytes output (length output) = Some (Unpacked (length xs) b1)" using decodes_unpack(2) [OF d order_refl] by blast
  obtain buf where buf: "expand_buffer fresh (length output) (length xs) = Some (Inr buf)" "length xs \<le> length buf"
    using expand_buffer_ok [OF f o True n] by blast
  then show ?thesis using True b1 decodes_unpack(1) [OF d buf(2) order_refl] by (simp add: lunpack_def)
next
  case False
  then show ?thesis using decodes_unpack(1) [OF d, of "length output" "output"] False by (simp add: lunpack_def)
qed

lemma length_padded: "length (padded src) \<le> length src + 7"
proof -
  have "(8 - length src mod 8) mod 8 < 8" by (rule mod_less_divisor) simp
  then show ?thesis unfolding padded_def by simp
qed

text \<open>
  C36.  Unpacking what was packed gives the bytes back, filled with zeros to a multiple of eight, whatever the sizes of the
  two buffers are; packing needs no more room than it reserves.
\<close>

theorem sproto_pack_roundtrip:
  assumes "\<And>n. length (fresh n) = n" and "0 < length output" and "0 < length output2" and "length src \<le> 8000000"
  shows "\<exists>bytes o1 o2. lpack fresh src output = Some (Inr (bytes, o1)) \<and> length bytes \<le> packed_bound (length src) \<and>
    lunpack fresh bytes output2 = Some (Inr (padded src, o2))"
proof -
  obtain bytes o1 where b: "lpack fresh src output = Some (Inr (bytes, o1))" "length bytes \<le> packed_bound (length src)" "decodes bytes (padded src)"
    using lpack_spec [OF assms(1,2,4)] by blast
  have "2 * length (padded src) \<le> ENCODE_MAXSIZE" using length_padded [of src] assms(4) by (simp add: ENCODE_MAXSIZE_def)
  then show ?thesis using lunpack_spec [OF assms(1,3) b(3)] b by blast
qed

lemma sproto_pack_roundtrip_witness:
  "\<exists>bytes o1 o2. lpack (\<lambda>n. replicate n 0) [8, 0, 0, 0, 3, 0, 2, 0, 0x19] [7] = Some (Inr (bytes, o1)) \<and> length bytes \<le> packed_bound 9 \<and>
     lunpack (\<lambda>n. replicate n 0) bytes [1] = Some (Inr ([8, 0, 0, 0, 3, 0, 2, 0, 0x19, 0, 0, 0, 0, 0, 0, 0], o2))"
proof -
  have p: "padded [8, 0, 0, 0, 3, 0, 2, 0, 0x19] = [8, 0, 0, 0, 3, 0, 2, 0, 0x19, 0, 0, 0, 0, 0, 0, 0]"
    "length [8 :: u8, 0, 0, 0, 3, 0, 2, 0, 0x19] = 9" by code_simp+
  show ?thesis unfolding p(1) [symmetric] unfolding p(2) [symmetric] by (rule sproto_pack_roundtrip) simp_all
qed







end
