(* ===== verification/SprotoTypes.thy ===== *)
theory SprotoTypes
  imports SprotoPack
begin

text \<open>
  The schema of sproto, from \<^verbatim>\<open>lualib-src/sproto/sproto.c\<close>: its memory pool, the import of a bundle (\<open>sproto_create\<close>)
  and the queries.  A pointer into the bundle is an index; the pointer to a type is its index in the array of types; the
  name of a field is its address in the pool with its bytes.
  Pool memory is the address only.  \<open>Some None\<close> is a returned NULL or -1.
\<close>

section \<open>The pool\<close>

definition CHUNK_SIZE :: nat where "CHUNK_SIZE = 1000"

text \<open>The sizes of the chunks, the newest first; a chunk is known by its number, the oldest being 0.\<close>

record pool =
  pl_chunks :: "nat list"
  pl_current :: "nat option"
  pl_used :: nat

type_synonym pool_addr = "nat \<times> nat"

definition pool_init :: pool where
  "pool_init = \<lparr>pl_chunks = [], pl_current = None, pl_used = 0\<rparr>"

definition pool_newchunk :: "pool \<Rightarrow> nat \<Rightarrow> pool_addr \<times> pool" where
  "pool_newchunk p sz = ((length (pl_chunks p), 0), p\<lparr>pl_chunks := sz # pl_chunks p\<rparr>)"

definition pool_header :: "pool \<Rightarrow> nat option" where
  "pool_header p = (if pl_chunks p = [] then None else Some (length (pl_chunks p) - 1))"

definition pool_alloc :: "pool \<Rightarrow> nat \<Rightarrow> pool_addr \<times> pool" where
  "pool_alloc p sz0 =
     (let sz = (sz0 + 7) div 8 * 8 in
      if sz \<ge> CHUNK_SIZE then pool_newchunk p sz
      else
        let p1 = (if pl_current p = None then let p' = snd (pool_newchunk p CHUNK_SIZE) in p'\<lparr>pl_current := pool_header p'\<rparr> else p)
        in if sz + pl_used p1 \<le> CHUNK_SIZE then ((the (pl_current p1), pl_used p1), p1\<lparr>pl_used := pl_used p1 + sz\<rparr>)
           else if sz \<ge> pl_used p1 then pool_newchunk p1 sz
           else let (ret, p2) = pool_newchunk p1 CHUNK_SIZE in (ret, p2\<lparr>pl_current := pool_header p2, pl_used := sz\<rparr>))"

section \<open>The schema\<close>

definition SIZEOF_LENGTH :: nat where "SIZEOF_LENGTH = 4"
definition SIZEOF_HEADER :: nat where "SIZEOF_HEADER = 2"
definition SIZEOF_FIELD :: nat where "SIZEOF_FIELD = 2"

definition SPROTO_TINTEGER :: int where "SPROTO_TINTEGER = 0"
definition SPROTO_TBOOLEAN :: int where "SPROTO_TBOOLEAN = 1"
definition SPROTO_TSTRING :: int where "SPROTO_TSTRING = 2"
definition SPROTO_TDOUBLE :: int where "SPROTO_TDOUBLE = 3"
definition SPROTO_TSTRUCT :: int where "SPROTO_TSTRUCT = 4"
definition SPROTO_TARRAY :: int where "SPROTO_TARRAY = 0x80"

type_synonym cname = "pool_addr \<times> u8 list"

record field_desc =
  f_tag :: int
  f_type :: int
  f_name :: "cname option"
  f_st :: "nat option"
  f_key :: int
  f_extra :: int

record sproto_type =
  t_name :: "cname"
  t_base :: int
  t_maxn :: nat
  t_f :: "field_desc list"

record protocol =
  p_name :: "cname option"
  p_tag :: int
  p_confirm :: int
  p_request :: "nat option"
  p_response :: "nat option"

record sproto =
  sp_memory :: pool
  sp_type :: "sproto_type list"
  sp_proto :: "protocol list"

section \<open>Reading the bundle\<close>

definition toword :: "u8 list \<Rightarrow> nat \<Rightarrow> nat option" where
  "toword data p = do { b0 \<leftarrow> arr_get data p; b1 \<leftarrow> arr_get data (p + 1); Some (unat b0 + 256 * unat b1) }"

definition todword :: "u8 list \<Rightarrow> nat \<Rightarrow> u32 option" where
  "todword data p = do {
     b0 \<leftarrow> arr_get data p;
     b1 \<leftarrow> arr_get data (p + 1);
     b2 \<leftarrow> arr_get data (p + 2);
     b3 \<leftarrow> arr_get data (p + 3);
     Some (ucast b0 OR push_bit 8 (ucast b1) OR push_bit 16 (ucast b2) OR push_bit 24 (ucast b3)) }"

text \<open>The number of elements of an array.  An element whose size is 0xFFFFFFFC has the size 0 with its length, and the loop
  never ends.\<close>

function count_loop :: "u8 list \<Rightarrow> nat \<Rightarrow> u32 \<Rightarrow> nat \<Rightarrow> nat option option" where
  "count_loop data stream len n =
     (if len = 0 then Some (Some n)
      else if len < of_nat SIZEOF_LENGTH then Some None
      else case todword data stream of
        None \<Rightarrow> None
      | Some d \<Rightarrow>
          let nsz = d + of_nat SIZEOF_LENGTH in
          if nsz > len then Some None
          else if nsz = 0 then None
          else count_loop data (stream + unat nsz) (len - nsz) (n + 1))"
  by pat_completeness auto
termination
proof (relation "measure (\<lambda>(data, stream, len, n). unat len)", goal_cases)
  case (2 data stream len n d nsz)
  then have "nsz \<le> len" "nsz \<noteq> 0" by simp_all
  then have "unat (len - nsz) = unat len - unat nsz" "unat nsz > 0" "unat nsz \<le> unat len"
    by (simp_all add: unat_sub word_le_nat_alt unat_gt_0)
  then show ?case by simp
qed simp

definition count_array :: "u8 list \<Rightarrow> nat \<Rightarrow> nat option option" where
  "count_array data stream = do { len \<leftarrow> todword data stream; count_loop data (stream + SIZEOF_LENGTH) len 0 }"

text \<open>The data of the fields: their sizes.\<close>

fun struct_loop :: "u8 list \<Rightarrow> nat list \<Rightarrow> nat \<Rightarrow> nat \<Rightarrow> bool option" where
  "struct_loop data [] stream sz = Some True"
| "struct_loop data (field # fs) stream sz = do {
     value \<leftarrow> toword data field;
     if value \<noteq> 0 then struct_loop data fs stream sz
     else if sz < SIZEOF_LENGTH then Some False
     else do {
       dsz \<leftarrow> todword data stream;
       let n = unat (of_nat SIZEOF_LENGTH + dsz);
       if sz < n then Some False else struct_loop data fs (stream + n) (sz - n) } }"

definition struct_field :: "u8 list \<Rightarrow> nat \<Rightarrow> nat \<Rightarrow> nat option option" where
  "struct_field data stream sz =
     (if sz < SIZEOF_LENGTH then Some None
      else do {
        fn \<leftarrow> toword data stream;
        let header = SIZEOF_HEADER + SIZEOF_FIELD * fn;
        if sint (of_nat sz :: u32) < int header then Some None
        else do {
          ok \<leftarrow> struct_loop data (map (\<lambda>i. stream + SIZEOF_HEADER + i * SIZEOF_FIELD) [0..<fn]) (stream + header) (sz - header);
          Some (if ok then Some fn else None) } })"

definition import_string :: "u8 list \<Rightarrow> nat \<Rightarrow> pool \<Rightarrow> (cname \<times> pool) option" where
  "import_string data stream pl = do {
     sz \<leftarrow> todword data stream;
     let (a, pl1) = pool_alloc pl (unat (sz + 1));
     if sz + 1 = 0 \<or> length data < stream + SIZEOF_LENGTH + unat sz then None
     else Some ((a, take (unat sz) (drop (stream + SIZEOF_LENGTH) data)), pl1) }"

text \<open>The base is squared before the test that ends the recursion.\<close>

function calc_pow :: "int \<Rightarrow> nat \<Rightarrow> int option" where
  "calc_pow b n =
     (if n = 0 then Some 1
      else case int_range (b * b) of
        None \<Rightarrow> None
      | Some b2 \<Rightarrow>
          (case calc_pow b2 (n div 2) of
             None \<Rightarrow> None
           | Some r \<Rightarrow> if odd n then int_range (r * b) else Some r))"
  by pat_completeness auto
termination by (relation "measure snd") auto

section \<open>Fields\<close>

text \<open>One entry of a field: the tag, the array flag, the field and the pool.\<close>

definition import_entry :: "nat \<Rightarrow> int \<Rightarrow> int \<Rightarrow> int \<times> field_desc \<Rightarrow> (int \<times> field_desc) option option" where
  "import_entry type_n tag value = (\<lambda>(arr, f).
     if tag = 1 then
       (if value \<ge> SPROTO_TSTRUCT then Some None else Some (Some (arr, f\<lparr>f_type := value\<rparr>)))
     else if tag = 2 then
       (if f_type f = SPROTO_TINTEGER then do { r \<leftarrow> calc_pow 10 (nat value); Some (Some (arr, f\<lparr>f_extra := r\<rparr>)) }
        else if f_type f = SPROTO_TSTRING then Some (Some (arr, f\<lparr>f_extra := value\<rparr>))
        else if value \<ge> int type_n then Some None
        else if f_type f \<ge> 0 then Some None
        else Some (Some (arr, f\<lparr>f_type := SPROTO_TSTRUCT, f_st := Some (nat value)\<rparr>)))
     else if tag = 3 then Some (Some (arr, f\<lparr>f_tag := value\<rparr>))
     else if tag = 4 then Some (Some (if value \<noteq> 0 then SPROTO_TARRAY else arr, f))
     else if tag = 5 then Some (Some (arr, f\<lparr>f_key := value\<rparr>))
     else Some None)"

fun import_field_loop ::
  "nat \<Rightarrow> u8 list \<Rightarrow> nat \<Rightarrow> nat list \<Rightarrow> int \<Rightarrow> int \<times> field_desc \<Rightarrow> pool \<Rightarrow> ((int \<times> field_desc) \<times> pool) option option" where
  "import_field_loop type_n data content [] tag st pl = Some (Some (st, pl))"
| "import_field_loop type_n data content (e # es) tag st pl = do {
     value \<leftarrow> toword data e;
     if odd value then import_field_loop type_n data content es (tag + 1 + int (value div 2)) st pl
     else if tag + 1 = 0 then
       if value \<noteq> 0 then Some None
       else do {
         (name, pl1) \<leftarrow> import_string data content pl;
         import_field_loop type_n data content es (tag + 1) (fst st, (snd st)\<lparr>f_name := Some name\<rparr>) pl1 }
     else if value = 0 then Some None
     else do {
       r \<leftarrow> import_entry type_n (tag + 1) (int value div 2 - 1) st;
       case r of None \<Rightarrow> Some None | Some st1 \<Rightarrow> import_field_loop type_n data content es (tag + 1) st1 pl } }"

definition import_field :: "nat \<Rightarrow> u8 list \<Rightarrow> nat \<Rightarrow> pool \<Rightarrow> (field_desc \<times> nat \<times> pool) option option" where
  "import_field type_n data stream0 pl = do {
     sz \<leftarrow> todword data stream0;
     let stream = stream0 + SIZEOF_LENGTH;
     let result = stream + unat sz;
     r \<leftarrow> struct_field data stream (unat sz);
     case r of
       None \<Rightarrow> Some None
     | Some fn \<Rightarrow> do {
         let entries = stream + SIZEOF_HEADER;
         q \<leftarrow> import_field_loop type_n data (entries + fn * SIZEOF_FIELD) (map (\<lambda>i. entries + SIZEOF_FIELD * i) [0..<fn]) (-1)
           (0, \<lparr>f_tag = -1, f_type = -1, f_name = None, f_st = None, f_key = -1, f_extra = 0\<rparr>) pl;
         Some (case q of
             None \<Rightarrow> None
           | Some ((arr, f), pl1) \<Rightarrow>
               if f_tag f < 0 \<or> f_type f < 0 \<or> f_name f = None then None
               else Some (f\<lparr>f_type := f_type f OR arr\<rparr>, result, pl1)) } }"

section \<open>Types\<close>

fun import_fields ::
  "nat \<Rightarrow> u8 list \<Rightarrow> nat \<Rightarrow> nat \<Rightarrow> field_desc list \<Rightarrow> int \<Rightarrow> nat \<Rightarrow> pool \<Rightarrow> (field_desc list \<times> nat \<times> pool) option option" where
  "import_fields type_n data 0 stream fs last_tag maxn pl = Some (Some (fs, maxn, pl))"
| "import_fields type_n data (Suc n) stream fs last_tag maxn pl = do {
     r \<leftarrow> import_field type_n data stream pl;
     case r of
       None \<Rightarrow> Some None
     | Some (f, stream1, pl1) \<Rightarrow>
         if f_tag f \<le> last_tag then Some None
         else import_fields type_n data n stream1 (fs @ [f]) (f_tag f) (if f_tag f > last_tag + 1 then maxn + 1 else maxn) pl1 }"

fun all_zero :: "u8 list \<Rightarrow> nat list \<Rightarrow> bool option" where
  "all_zero data [] = Some True"
| "all_zero data (e # es) = do { v \<leftarrow> toword data e; if v \<noteq> 0 then Some False else all_zero data es }"

text \<open>The sizes of the structs are those of a 64-bit build.  Of an empty array of fields the code still reads the first and
  the last tag.\<close>

definition import_type_fields :: "nat \<Rightarrow> u8 list \<Rightarrow> sproto_type \<Rightarrow> nat \<Rightarrow> pool \<Rightarrow> (sproto_type \<times> pool) option option" where
  "import_type_fields type_n data t second pl1 = do {
     c \<leftarrow> count_array data second;
     case c of
       None \<Rightarrow> Some None
     | Some n \<Rightarrow> do {
         let (fa, pl2) = pool_alloc pl1 (32 * n);
         q \<leftarrow> import_fields type_n data n (second + SIZEOF_LENGTH) [] (-1) n pl2;
         case q of
           None \<Rightarrow> Some None
         | Some (fs, maxn, pl3) \<Rightarrow> do {
             f0 \<leftarrow> arr_get fs 0;
             fl \<leftarrow> arr_get fs (n - 1);
             let base = (if f_tag fl - f_tag f0 + 1 \<noteq> int n then -1 else f_tag f0);
             Some (Some (t\<lparr>t_base := base, t_maxn := maxn, t_f := fs\<rparr>, pl3)) } } }"

definition import_type :: "nat \<Rightarrow> u8 list \<Rightarrow> nat \<Rightarrow> pool \<Rightarrow> (sproto_type \<times> nat \<times> pool) option option" where
  "import_type type_n data stream0 pl = do {
     sz \<leftarrow> todword data stream0;
     let stream = stream0 + SIZEOF_LENGTH;
     let result = stream + unat sz;
     r \<leftarrow> struct_field data stream (unat sz);
     case r of
       None \<Rightarrow> Some None
     | Some fn \<Rightarrow>
         if fn = 0 \<or> fn > 2 then Some None
         else do {
           ok \<leftarrow> all_zero data (map (\<lambda>i. stream + SIZEOF_HEADER + i * SIZEOF_FIELD) [0..<fn]);
           if \<not> ok then Some None
           else do {
             let content = stream + SIZEOF_HEADER + fn * SIZEOF_FIELD;
             (name, pl1) \<leftarrow> import_string data content pl;
             let t = \<lparr>t_name = name, t_base = 0, t_maxn = 0, t_f = []\<rparr>;
             if fn = 1 then Some (Some (t, result, pl1))
             else do {
               d \<leftarrow> todword data content;
               q \<leftarrow> import_type_fields type_n data t (content + unat (d + of_nat SIZEOF_LENGTH)) pl1;
               Some (case q of None \<Rightarrow> None | Some (t1, pl2) \<Rightarrow> Some (t1, result, pl2)) } } } }"

section \<open>Protocols\<close>

text \<open>The code counts the tags of the entries but chooses the member by the number of the entry.\<close>

fun import_protocol_loop ::
  "nat \<Rightarrow> u8 list \<Rightarrow> nat \<Rightarrow> (nat \<times> nat) list \<Rightarrow> protocol \<Rightarrow> pool \<Rightarrow> (protocol \<times> pool) option option" where
  "import_protocol_loop type_n data content [] p pl = Some (Some (p, pl))"
| "import_protocol_loop type_n data content ((i, e) # es) p pl = do {
     v \<leftarrow> toword data e;
     if odd v then import_protocol_loop type_n data content es p pl
     else do {
       let value = int v div 2 - 1;
       if i = 0 then
         if value \<noteq> -1 then Some None
         else do {
           (name, pl1) \<leftarrow> import_string data content pl;
           import_protocol_loop type_n data content es (p\<lparr>p_name := Some name\<rparr>) pl1 }
       else if i = 1 then
         if value < 0 then Some None else import_protocol_loop type_n data content es (p\<lparr>p_tag := value\<rparr>) pl
       else if i = 2 then
         if value < 0 \<or> value \<ge> int type_n then Some None
         else import_protocol_loop type_n data content es (p\<lparr>p_request := Some (nat value)\<rparr>) pl
       else if i = 3 then
         if value < 0 \<or> value \<ge> int type_n then Some None
         else import_protocol_loop type_n data content es (p\<lparr>p_response := Some (nat value)\<rparr>) pl
       else if i = 4 then import_protocol_loop type_n data content es (p\<lparr>p_confirm := value\<rparr>) pl
       else Some None } }"

definition import_protocol :: "nat \<Rightarrow> u8 list \<Rightarrow> nat \<Rightarrow> pool \<Rightarrow> (protocol \<times> nat \<times> pool) option option" where
  "import_protocol type_n data stream0 pl = do {
     sz \<leftarrow> todword data stream0;
     let stream = stream0 + SIZEOF_LENGTH;
     let result = stream + unat sz;
     r \<leftarrow> struct_field data stream (unat sz);
     let fn = (case r of None \<Rightarrow> 0 | Some fn \<Rightarrow> fn);
     let entries = stream + SIZEOF_HEADER;
     q \<leftarrow> import_protocol_loop type_n data (entries + SIZEOF_FIELD * fn) (map (\<lambda>i. (i, entries + SIZEOF_FIELD * i)) [0..<fn])
       \<lparr>p_name = None, p_tag = -1, p_confirm = 0, p_request = None, p_response = None\<rparr> pl;
     Some (case q of
         None \<Rightarrow> None
       | Some (p, pl1) \<Rightarrow> if p_name p = None \<or> p_tag p < 0 then None else Some (p, result, pl1)) }"

section \<open>The bundle\<close>

fun import_types :: "nat \<Rightarrow> u8 list \<Rightarrow> nat \<Rightarrow> nat \<Rightarrow> sproto_type list \<Rightarrow> pool \<Rightarrow> (sproto_type list \<times> pool) option option" where
  "import_types type_n data 0 stream ts pl = Some (Some (ts, pl))"
| "import_types type_n data (Suc n) stream ts pl = do {
     r \<leftarrow> import_type type_n data stream pl;
     case r of None \<Rightarrow> Some None | Some (t, stream1, pl1) \<Rightarrow> import_types type_n data n stream1 (ts @ [t]) pl1 }"

fun import_protocols :: "nat \<Rightarrow> u8 list \<Rightarrow> nat \<Rightarrow> nat \<Rightarrow> protocol list \<Rightarrow> pool \<Rightarrow> (protocol list \<times> pool) option option" where
  "import_protocols type_n data 0 stream ps pl = Some (Some (ps, pl))"
| "import_protocols type_n data (Suc n) stream ps pl = do {
     r \<leftarrow> import_protocol type_n data stream pl;
     case r of None \<Rightarrow> Some None | Some (p, stream1, pl1) \<Rightarrow> import_protocols type_n data n stream1 (ps @ [p]) pl1 }"

text \<open>The arrays of the bundle: for each its number of elements and where they start.\<close>

fun bundle_arrays :: "u8 list \<Rightarrow> nat list \<Rightarrow> nat \<Rightarrow> pool \<Rightarrow> ((nat \<times> nat) list \<times> pool) option option" where
  "bundle_arrays data [] content pl = Some (Some ([], pl))"
| "bundle_arrays data (e # es) content pl = do {
     value \<leftarrow> toword data e;
     if value \<noteq> 0 then Some None
     else do {
       c \<leftarrow> count_array data content;
       case c of
         None \<Rightarrow> Some None
       | Some n \<Rightarrow> do {
           let (a, pl1) = pool_alloc pl (n * 32);
           d \<leftarrow> todword data content;
           r \<leftarrow> bundle_arrays data es (content + unat (d + of_nat SIZEOF_LENGTH)) pl1;
           Some (case r of None \<Rightarrow> None | Some (xs, pl2) \<Rightarrow> Some ((n, content + SIZEOF_LENGTH) # xs, pl2)) } } }"

definition create_from_bundle :: "pool \<Rightarrow> u8 list \<Rightarrow> sproto option option" where
  "create_from_bundle pl data = do {
     r \<leftarrow> struct_field data 0 (length data);
     case r of
       None \<Rightarrow> Some None
     | Some fn \<Rightarrow>
         if fn > 2 then Some None
         else do {
           a \<leftarrow> bundle_arrays data (map (\<lambda>i. SIZEOF_HEADER + i * SIZEOF_FIELD) [0..<fn]) (SIZEOF_HEADER + fn * SIZEOF_FIELD) pl;
           case a of
             None \<Rightarrow> Some None
           | Some (xs, pl1) \<Rightarrow> do {
               let (type_n, typedata) = (case xs of x # _ \<Rightarrow> x | _ \<Rightarrow> (0, 0));
               let (protocol_n, protocoldata) = (case xs of _ # x # _ \<Rightarrow> x | _ \<Rightarrow> (0, 0));
               t \<leftarrow> import_types type_n data type_n typedata [] pl1;
               case t of
                 None \<Rightarrow> Some None
               | Some (ts, pl2) \<Rightarrow> do {
                   p \<leftarrow> import_protocols type_n data protocol_n protocoldata [] pl2;
                   Some (case p of
                       None \<Rightarrow> None
                     | Some (ps, pl3) \<Rightarrow> Some \<lparr>sp_memory = pl3, sp_type = ts, sp_proto = ps\<rparr>) } } } }"

definition sproto_create :: "u8 list \<Rightarrow> sproto option option" where
  "sproto_create data = create_from_bundle (snd (pool_alloc pool_init 48)) data"

section \<open>Queries\<close>

text \<open>The name as C compares it: up to its first 0.\<close>

definition cstr :: "u8 list \<Rightarrow> u8 list" where
  "cstr bs = takeWhile (\<lambda>b. b \<noteq> 0) bs"

fun prototag_loop :: "protocol list \<Rightarrow> u8 list \<Rightarrow> int" where
  "prototag_loop [] name = -1"
| "prototag_loop (p # ps) name = (if map_option (cstr \<circ> snd) (p_name p) = Some (cstr name) then p_tag p else prototag_loop ps name)"

definition sproto_prototag :: "sproto \<Rightarrow> u8 list \<Rightarrow> int" where
  "sproto_prototag sp name = prototag_loop (sp_proto sp) name"

text \<open>Both binary searches, over the tags: the index that is found.\<close>

function tag_search :: "int list \<Rightarrow> int \<Rightarrow> nat \<Rightarrow> nat \<Rightarrow> nat option option" where
  "tag_search tags tag begin_i end_i =
     (if begin_i < end_i then
        let mid = (begin_i + end_i) div 2 in
        case arr_get tags mid of
          None \<Rightarrow> None
        | Some t \<Rightarrow>
            if t = tag then Some (Some mid)
            else if tag > t then tag_search tags tag (mid + 1) end_i
            else tag_search tags tag begin_i mid
      else Some None)"
  by pat_completeness auto
termination by (relation "measure (\<lambda>(tags, tag, begin_i, end_i). end_i - begin_i)") auto

definition query_proto :: "sproto \<Rightarrow> int \<Rightarrow> protocol option option" where
  "query_proto sp tag = do {
     r \<leftarrow> tag_search (map p_tag (sp_proto sp)) tag 0 (length (sp_proto sp));
     case r of None \<Rightarrow> Some None | Some i \<Rightarrow> do { p \<leftarrow> arr_get (sp_proto sp) i; Some (Some p) } }"

definition sproto_protoquery :: "sproto \<Rightarrow> int \<Rightarrow> int \<Rightarrow> nat option option" where
  "sproto_protoquery sp proto what =
     (if what < 0 \<or> what > 1 then Some None
      else do {
        r \<leftarrow> query_proto sp proto;
        Some (case r of None \<Rightarrow> None | Some p \<Rightarrow> if what = 0 then p_request p else p_response p) })"

definition sproto_protoresponse :: "sproto \<Rightarrow> int \<Rightarrow> bool option" where
  "sproto_protoresponse sp proto = do {
     r \<leftarrow> query_proto sp proto;
     Some (case r of None \<Rightarrow> False | Some p \<Rightarrow> p_response p \<noteq> None \<or> p_confirm p \<noteq> 0) }"

definition sproto_protoname :: "sproto \<Rightarrow> int \<Rightarrow> cname option option" where
  "sproto_protoname sp proto = do { r \<leftarrow> query_proto sp proto; Some (case r of None \<Rightarrow> None | Some p \<Rightarrow> p_name p) }"

fun type_loop :: "sproto_type list \<Rightarrow> nat \<Rightarrow> u8 list \<Rightarrow> nat option" where
  "type_loop [] i name = None"
| "type_loop (t # ts) i name = (if cstr (snd (t_name t)) = cstr name then Some i else type_loop ts (i + 1) name)"

definition query_type :: "sproto \<Rightarrow> u8 list \<Rightarrow> nat option" where
  "query_type sp name = type_loop (sp_type sp) 0 name"

definition findtag :: "sproto_type \<Rightarrow> int \<Rightarrow> field_desc option option" where
  "findtag st tag =
     (if t_base st \<ge> 0 then
        let tag1 = tag - t_base st in
        if tag1 < 0 \<or> tag1 \<ge> int (length (t_f st)) then Some None
        else do { f \<leftarrow> arr_get (t_f st) (nat tag1); Some (Some f) }
      else do {
        r \<leftarrow> tag_search (map f_tag (t_f st)) tag 0 (length (t_f st));
        case r of None \<Rightarrow> Some None | Some i \<Rightarrow> do { f \<leftarrow> arr_get (t_f st) i; Some (Some f) } })"

end
