(* ===== verification/SprotoCodec.thy ===== *)
theory SprotoCodec
  imports SprotoTypes
begin

text \<open>
  \<open>sproto_encode\<close> and \<open>sproto_decode\<close> of \<^verbatim>\<open>lualib-src/sproto/sproto.c\<close>.  The memory is a list of bytes, a pointer into it an
  index, and a callback a function over a state of its own; the callback of the encoder may write to the memory.  \<open>None\<close>
  is an access outside of the memory, a failed assertion, or a callback that does not return (it raises a Lua error).
\<close>

section \<open>Callbacks\<close>

definition SPROTO_CB_ERROR :: int where "SPROTO_CB_ERROR = -1"
definition SPROTO_CB_NIL :: int where "SPROTO_CB_NIL = -2"
definition SPROTO_CB_NOARRAY :: int where "SPROTO_CB_NOARRAY = -3"

text \<open>Where the value is: a local variable of the codec with its content, the memory, or nowhere.\<close>

datatype value_ptr = Local u64 | At nat | Nowhere

record sproto_arg =
  a_tagname :: "cname option"
  a_tagid :: int
  a_type :: int
  a_subtype :: "nat option"
  a_value :: value_ptr
  a_length :: int
  a_index :: int
  a_mainindex :: int
  a_extra :: int

text \<open>The callback of the encoder gives its result, the content of the local variable, the memory and its state.\<close>

type_synonym 's enc_cb = "sproto_arg \<Rightarrow> u8 list \<Rightarrow> 's \<Rightarrow> (int \<times> u64 \<times> u8 list \<times> 's) option"

type_synonym 's dec_cb = "sproto_arg \<Rightarrow> 's \<Rightarrow> (int \<times> 's) option"

definition field_arg :: "field_desc \<Rightarrow> int \<Rightarrow> int \<Rightarrow> value_ptr \<Rightarrow> int \<Rightarrow> sproto_arg" where
  "field_arg f type i v len =
     \<lparr>a_tagname = f_name f, a_tagid = f_tag f, a_type = type, a_subtype = f_st f, a_value = v, a_length = len,
      a_index = i, a_mainindex = f_key f, a_extra = f_extra f\<rparr>"

section \<open>Encoding\<close>

definition dword_bytes :: "u32 \<Rightarrow> u8 list" where
  "dword_bytes v = [ucast v, ucast (drop_bit 8 v), ucast (drop_bit 16 v), ucast (drop_bit 24 v)]"

definition qword_bytes :: "u64 \<Rightarrow> u8 list" where
  "qword_bytes v = [ucast v, ucast (drop_bit 8 v), ucast (drop_bit 16 v), ucast (drop_bit 24 v),
     ucast (drop_bit 32 v), ucast (drop_bit 40 v), ucast (drop_bit 48 v), ucast (drop_bit 56 v)]"

definition word_bytes :: "int \<Rightarrow> u8 list" where
  "word_bytes v = [of_int v, of_int (drop_bit 8 v)]"

definition fill_size :: "u8 list \<Rightarrow> nat \<Rightarrow> int \<Rightarrow> (int \<times> u8 list) option" where
  "fill_size buf data sz = do {
     buf1 \<leftarrow> put_bytes buf data (dword_bytes (of_int sz));
     Some (sz + int SIZEOF_LENGTH, buf1) }"

text \<open>The size is compared as an unsigned number.\<close>

definition encode_integer :: "u32 \<Rightarrow> u8 list \<Rightarrow> nat \<Rightarrow> int \<Rightarrow> (int \<times> u8 list) option" where
  "encode_integer v buf data room =
     (if 0 \<le> room \<and> room < int SIZEOF_LENGTH + 4 then Some (-1, buf)
      else do { buf1 \<leftarrow> put_bytes buf (data + 4) (dword_bytes v); fill_size buf1 data 4 })"

definition encode_uint64 :: "u64 \<Rightarrow> u8 list \<Rightarrow> nat \<Rightarrow> int \<Rightarrow> (int \<times> u8 list) option" where
  "encode_uint64 v buf data room =
     (if 0 \<le> room \<and> room < int SIZEOF_LENGTH + 8 then Some (-1, buf)
      else do { buf1 \<leftarrow> put_bytes buf (data + 4) (qword_bytes v); fill_size buf1 data 8 })"

definition encode_object :: "'s enc_cb \<Rightarrow> field_desc \<Rightarrow> u8 list \<Rightarrow> nat \<Rightarrow> int \<Rightarrow> 's \<Rightarrow> (int \<times> u8 list \<times> 's) option" where
  "encode_object cb f buf data room s =
     (if room < int SIZEOF_LENGTH then Some (-1, buf, s)
      else do {
        (sz, u, buf1, s1) \<leftarrow> cb (field_arg f (f_type f) 0 (At (data + SIZEOF_LENGTH)) (room - int SIZEOF_LENGTH)) buf s;
        if sz < 0 then Some (if sz = SPROTO_CB_NIL then 0 else -1, buf1, s1)
        else do {
          assert_that (sz \<le> room - int SIZEOF_LENGTH);
          (r, buf2) \<leftarrow> fill_size buf1 data sz;
          Some (r, buf2, s1) } })"

definition uint32_to_uint64 :: "bool \<Rightarrow> u8 list \<Rightarrow> nat \<Rightarrow> u8 list option" where
  "uint32_to_uint64 negative buf p = put_bytes buf (p + 4) (if negative then replicate 4 0xFF else replicate 4 0)"

text \<open>The numbers so far, written with four bytes, become numbers of eight bytes, from the last to the first.\<close>

fun rearrange :: "u8 list \<Rightarrow> nat \<Rightarrow> nat \<Rightarrow> u8 list option" where
  "rearrange buf header 0 = Some buf"
| "rearrange buf header (Suc i) =
     (if length buf < header + 1 + i * 4 + 4 then None
      else do {
        buf1 \<leftarrow> put_bytes buf (header + 1 + i * 8) (take 4 (drop (header + 1 + i * 4) buf));
        x \<leftarrow> arr_get buf1 (header + 1 + i * 8 + 3);
        buf2 \<leftarrow> uint32_to_uint64 (x AND 0x80 \<noteq> 0) buf1 (header + 1 + i * 8);
        rearrange buf2 header i })"

text \<open>The results of the loop of an integer array: failure, no array, or the end of the array.\<close>

datatype int_array = Failed | No_array nat nat | Array_end nat nat

text \<open>\<open>wide\<close>: the numbers have eight bytes.  \<open>index\<close> counts from 1.\<close>

function int_array_loop :: "'s enc_cb \<Rightarrow> field_desc \<Rightarrow> nat \<Rightarrow> u8 list \<Rightarrow> nat \<Rightarrow> int \<Rightarrow> bool \<Rightarrow> nat \<Rightarrow> 's \<Rightarrow> (int_array \<times> u8 list \<times> 's) option" where
  "int_array_loop cb f header buf buffer room wide index s =
     (case cb (field_arg f (f_type f AND NOT SPROTO_TARRAY) (int index) (Local 0) 8) buf s of
        None \<Rightarrow> None
      | Some (sz, u, buf1, s1) \<Rightarrow>
          if sz \<le> 0 then
            Some (if sz = SPROTO_CB_NIL then Array_end buffer (if wide then 8 else 4) else if sz = SPROTO_CB_NOARRAY then No_array buffer (if wide then 8 else 4) else Failed, buf1, s1)
          else if room < 8 then Some (Failed, buf1, s1)
          else if sz = 4 then
            case do {
              buf2 \<leftarrow> put_bytes buf1 buffer (dword_bytes (ucast u));
              if wide then uint32_to_uint64 ((ucast u :: u32) AND 0x80000000 \<noteq> 0) buf2 buffer else Some buf2 } of
              None \<Rightarrow> None
            | Some buf3 \<Rightarrow>
                let intlen = (if wide then 8 else 4) in
                int_array_loop cb f header buf3 (buffer + intlen) (room - int intlen) wide (index + 1) s1
          else if sz \<noteq> 8 then Some (Failed, buf1, s1)
          else
            let grow = (if wide then 0 else (index - 1) * 4) in
            if room - int grow < 8 then Some (Failed, buf1, s1)
            else case do {
              buf2 \<leftarrow> (if wide then Some buf1 else rearrange buf1 header (index - 1));
              put_bytes buf2 (buffer + grow) (qword_bytes u) } of
              None \<Rightarrow> None
            | Some buf3 \<Rightarrow> int_array_loop cb f header buf3 (buffer + grow + 8) (room - int grow - 8) True (index + 1) s1)"
  by pat_completeness auto
termination
  by (relation "measure (\<lambda>(cb, f, header, buf, buffer, room, wide, index, s). nat room)") auto

definition encode_integer_array :: "'s enc_cb \<Rightarrow> field_desc \<Rightarrow> u8 list \<Rightarrow> nat \<Rightarrow> int \<Rightarrow> 's \<Rightarrow> (int_array \<times> u8 list \<times> 's) option" where
  "encode_integer_array cb f buf header room s =
     (if room < 1 then Some (Failed, buf, s)
      else do {
        (r, buf1, s1) \<leftarrow> int_array_loop cb f header buf (header + 1) (room - 1) False 1 s;
        case r of
          Failed \<Rightarrow> Some (Failed, buf1, s1)
        | No_array p intlen \<Rightarrow>
            if p = header + 1 then Some (No_array header intlen, buf1, s1)
            else do { buf2 \<leftarrow> arr_set buf1 header (of_nat intlen); Some (r, buf2, s1) }
        | Array_end p intlen \<Rightarrow>
            if p = header + 1 then Some (Array_end header intlen, buf1, s1)
            else do { buf2 \<leftarrow> arr_set buf1 header (of_nat intlen); Some (r, buf2, s1) } })"

function bool_array_loop :: "'s enc_cb \<Rightarrow> field_desc \<Rightarrow> u8 list \<Rightarrow> nat \<Rightarrow> int \<Rightarrow> nat \<Rightarrow> 's \<Rightarrow> (int_array \<times> u8 list \<times> 's) option" where
  "bool_array_loop cb f buf buffer room index s =
     (case cb (field_arg f SPROTO_TBOOLEAN (int index) (Local 0) 4) buf s of
        None \<Rightarrow> None
      | Some (sz, v, buf1, s1) \<Rightarrow>
          if sz < 0 then
            Some (if sz = SPROTO_CB_NIL then Array_end buffer 1 else if sz = SPROTO_CB_NOARRAY then No_array buffer 1 else Failed, buf1, s1)
          else if room < 1 then Some (Failed, buf1, s1)
          else case arr_set buf1 buffer (if (ucast v :: u32) \<noteq> 0 then 1 else 0) of
            None \<Rightarrow> None
          | Some buf2 \<Rightarrow> bool_array_loop cb f buf2 (buffer + 1) (room - 1) (index + 1) s1)"
  by pat_completeness auto
termination
  by (relation "measure (\<lambda>(cb, f, buf, buffer, room, index, s). nat room)") auto

function object_array_loop :: "'s enc_cb \<Rightarrow> field_desc \<Rightarrow> u8 list \<Rightarrow> nat \<Rightarrow> int \<Rightarrow> nat \<Rightarrow> 's \<Rightarrow> (int_array \<times> u8 list \<times> 's) option" where
  "object_array_loop cb f buf buffer room index s =
     (if room < int SIZEOF_LENGTH then Some (Failed, buf, s)
      else case cb (field_arg f (f_type f AND NOT SPROTO_TARRAY) (int index) (At (buffer + SIZEOF_LENGTH)) (room - int SIZEOF_LENGTH)) buf s of
        None \<Rightarrow> None
      | Some (sz, u, buf1, s1) \<Rightarrow>
          if sz < 0 then
            Some (if sz = SPROTO_CB_NIL then Array_end buffer 1 else if sz = SPROTO_CB_NOARRAY then No_array buffer 1 else Failed, buf1, s1)
          else case fill_size buf1 buffer sz of
            None \<Rightarrow> None
          | Some (r, buf2) \<Rightarrow> object_array_loop cb f buf2 (buffer + SIZEOF_LENGTH + nat sz) (room - int SIZEOF_LENGTH - sz) (index + 1) s1)"
  by pat_completeness auto
termination
  by (relation "measure (\<lambda>(cb, f, buf, buffer, room, index, s). nat room)") (auto simp: SIZEOF_LENGTH_def)

definition encode_array :: "'s enc_cb \<Rightarrow> field_desc \<Rightarrow> u8 list \<Rightarrow> nat \<Rightarrow> int \<Rightarrow> 's \<Rightarrow> (int \<times> u8 list \<times> 's) option" where
  "encode_array cb f buf data room s =
     (if room < int SIZEOF_LENGTH then Some (-1, buf, s)
      else do {
        let type = f_type f AND NOT SPROTO_TARRAY;
        let buffer = data + SIZEOF_LENGTH;
        (r, buf1, s1) \<leftarrow>
          (if type = SPROTO_TDOUBLE \<or> type = SPROTO_TINTEGER then encode_integer_array cb f buf buffer (room - int SIZEOF_LENGTH) s
           else if type = SPROTO_TBOOLEAN then bool_array_loop cb f buf buffer (room - int SIZEOF_LENGTH) 1 s
           else object_array_loop cb f buf buffer (room - int SIZEOF_LENGTH) 1 s);
        case r of
          Failed \<Rightarrow> Some (-1, buf1, s1)
        | No_array p w \<Rightarrow> Some (0, buf1, s1)
        | Array_end p w \<Rightarrow> do { (n, buf2) \<leftarrow> fill_size buf1 data (int p - int buffer); Some (n, buf2, s1) } })"

text \<open>A number, inline when it is small: the value of the record and the size, or the end of the whole message.\<close>

definition encode_number :: "'s enc_cb \<Rightarrow> field_desc \<Rightarrow> u8 list \<Rightarrow> nat \<Rightarrow> int \<Rightarrow> 's \<Rightarrow> ((int + int \<times> int) \<times> u8 list \<times> 's) option" where
  "encode_number cb f buf data room s = do {
     (sz, u, buf1, s1) \<leftarrow> cb (field_arg f (f_type f) 0 (Local 0) 8) buf s;
     if sz < 0 then
       Some (if sz = SPROTO_CB_NIL then Inr (0, 0) else if sz = SPROTO_CB_NOARRAY then Inl 0 else Inl (-1), buf1, s1)
     else if sz = 4 then
       let v = (ucast u :: u32) in
       if v < 0x7FFF then Some (Inr ((uint v + 1) * 2, 2), buf1, s1)
       else do { (n, buf2) \<leftarrow> encode_integer v buf1 data room; Some (Inr (0, n), buf2, s1) }
     else if sz = 8 then do { (n, buf2) \<leftarrow> encode_uint64 u buf1 data room; Some (Inr (0, n), buf2, s1) }
     else Some (Inl (-1), buf1, s1) }"

record enc_state =
  e_buf :: "u8 list"
  e_data :: nat
  e_size :: int
  e_index :: nat
  e_lasttag :: int

text \<open>The entry of a field in the header, after its data of \<open>sz\<close> bytes; \<open>None\<close> inside when too many tags are skipped.\<close>

definition put_record :: "nat \<Rightarrow> field_desc \<Rightarrow> int \<Rightarrow> int \<Rightarrow> enc_state \<Rightarrow> enc_state option option" where
  "put_record header f value sz e = do {
     let e1 = (if value = 0 then e\<lparr>e_data := e_data e + nat sz, e_size := e_size e - sz\<rparr> else e);
     let rec = header + SIZEOF_HEADER + SIZEOF_FIELD * e_index e;
     let tag = f_tag f - e_lasttag e - 1;
     if tag > 0 then
       let skip = (tag - 1) * 2 + 1 in
       if skip > 0xFFFF then Some None
       else do {
         buf1 \<leftarrow> put_bytes (e_buf e1) rec (word_bytes skip);
         buf2 \<leftarrow> put_bytes buf1 (rec + SIZEOF_FIELD) (word_bytes value);
         Some (Some (e1\<lparr>e_buf := buf2, e_index := e_index e + 2, e_lasttag := f_tag f\<rparr>)) }
     else do {
       buf2 \<leftarrow> put_bytes (e_buf e1) rec (word_bytes value);
       Some (Some (e1\<lparr>e_buf := buf2, e_index := e_index e + 1, e_lasttag := f_tag f\<rparr>)) } }"

text \<open>What follows the data of a field: \<open>Inl\<close> is the end of the whole message with its result.\<close>

definition finish_field :: "nat \<Rightarrow> field_desc \<Rightarrow> int + int \<times> int \<Rightarrow> enc_state \<Rightarrow> (int \<times> u8 list + enc_state) option" where
  "finish_field header f r e =
     (case r of
        Inl n \<Rightarrow> Some (Inl (n, e_buf e))
      | Inr (value, sz) \<Rightarrow>
          if sz < 0 then Some (Inl (-1, e_buf e))
          else if sz > 0 then do {
            q \<leftarrow> put_record header f value sz e;
            Some (case q of None \<Rightarrow> Inl (-1, e_buf e) | Some e1 \<Rightarrow> Inr e1) }
          else Some (Inr e))"

text \<open>One field.\<close>

definition encode_field :: "'s enc_cb \<Rightarrow> nat \<Rightarrow> field_desc \<Rightarrow> enc_state \<Rightarrow> 's \<Rightarrow> ((int \<times> u8 list + enc_state) \<times> 's) option" where
  "encode_field cb header f e s = do {
     let type = f_type f;
     (r, buf, s1) \<leftarrow>
       (if type AND SPROTO_TARRAY \<noteq> 0 then do {
          (n, b, s1) \<leftarrow> encode_array cb f (e_buf e) (e_data e) (e_size e) s;
          Some (Inr (0, n), b, s1) }
        else if type = SPROTO_TDOUBLE \<or> type = SPROTO_TINTEGER \<or> type = SPROTO_TBOOLEAN then
          encode_number cb f (e_buf e) (e_data e) (e_size e) s
        else if type = SPROTO_TSTRUCT \<or> type = SPROTO_TSTRING then do {
          (n, b, s1) \<leftarrow> encode_object cb f (e_buf e) (e_data e) (e_size e) s;
          Some (Inr (0, n), b, s1) }
        else Some (Inr (0, -1), e_buf e, s));
     q \<leftarrow> finish_field header f r (e\<lparr>e_buf := buf\<rparr>);
     Some (q, s1) }"

fun encode_fields :: "'s enc_cb \<Rightarrow> nat \<Rightarrow> field_desc list \<Rightarrow> enc_state \<Rightarrow> 's \<Rightarrow> ((int \<times> u8 list + enc_state) \<times> 's) option" where
  "encode_fields cb header [] e s = Some (Inr e, s)"
| "encode_fields cb header (f # fs) e s = do {
     (r, s1) \<leftarrow> encode_field cb header f e s;
     case r of Inl x \<Rightarrow> Some (Inl x, s1) | Inr e1 \<Rightarrow> encode_fields cb header fs e1 s1 }"

text \<open>\<open>memmove\<close>.\<close>

definition move_bytes :: "u8 list \<Rightarrow> nat \<Rightarrow> nat \<Rightarrow> nat \<Rightarrow> u8 list option" where
  "move_bytes buf des src n = (if src + n \<le> length buf then put_bytes buf des (take n (drop src buf)) else None)"

definition sproto_encode :: "'s enc_cb \<Rightarrow> sproto_type \<Rightarrow> u8 list \<Rightarrow> nat \<Rightarrow> int \<Rightarrow> 's \<Rightarrow> (int \<times> u8 list \<times> 's) option" where
  "sproto_encode cb st buf header room s = do {
     let header_sz = SIZEOF_HEADER + t_maxn st * SIZEOF_FIELD;
     if room < int header_sz then Some (-1, buf, s)
     else do {
       (r, s1) \<leftarrow> encode_fields cb header (t_f st)
         \<lparr>e_buf = buf, e_data = header + header_sz, e_size = room - int header_sz, e_index = 0, e_lasttag = -1\<rparr> s;
       case r of
         Inl (n, buf1) \<Rightarrow> Some (n, buf1, s1)
       | Inr e \<Rightarrow> do {
           buf1 \<leftarrow> put_bytes (e_buf e) header (word_bytes (int (e_index e)));
           let datasz = e_data e - (header + header_sz);
           buf2 \<leftarrow> (if e_index e \<noteq> t_maxn st
             then move_bytes buf1 (header + SIZEOF_HEADER + e_index e * SIZEOF_FIELD) (header + header_sz) datasz else Some buf1);
           Some (int (SIZEOF_HEADER + e_index e * SIZEOF_FIELD + datasz), buf2, s1) } } }"

section \<open>Decoding\<close>

text \<open>\<open>int\<close> arithmetic that the compiler does on \<open>uint32_t\<close>.\<close>

definition sub32 :: "int \<Rightarrow> u32 \<Rightarrow> int" where
  "sub32 a b = sint (of_int a - b :: u32)"

function object_loop :: "'s dec_cb \<Rightarrow> u8 list \<Rightarrow> field_desc \<Rightarrow> nat \<Rightarrow> int \<Rightarrow> int \<Rightarrow> 's \<Rightarrow> (int \<times> 's) option" where
  "object_loop cb data f stream sz index s =
     (if sz > 0 then
        if sz < int SIZEOF_LENGTH then Some (-1, s)
        else if length data < stream + SIZEOF_LENGTH then None
        else case todword data stream of
          None \<Rightarrow> None
        | Some hsz \<Rightarrow>
            if sint hsz > sz - int SIZEOF_LENGTH then Some (-1, s)
            else
              case cb (field_arg f (f_type f AND NOT SPROTO_TARRAY) index (At (stream + SIZEOF_LENGTH)) (sint hsz)) s of
                None \<Rightarrow> None
              | Some (r, s1) \<Rightarrow>
                  if r \<noteq> 0 then Some (-1, s1)
                  else object_loop cb data f (stream + SIZEOF_LENGTH + unat hsz) (sub32 (sz - int SIZEOF_LENGTH) hsz) (index + 1) s1
      else Some (0, s))"
  by pat_completeness auto
termination
  by (relation "measure (\<lambda>(cb, data, f, stream, sz, index, s). length data - stream)") (auto simp: SIZEOF_LENGTH_def)

definition expand64 :: "u32 \<Rightarrow> u64" where
  "expand64 v = (if v AND 0x80000000 \<noteq> 0 then ucast v OR push_bit 32 (NOT 0) else ucast v)"

text \<open>A callback on each number of an array; its result is not looked at.\<close>

fun each_number :: "'s dec_cb \<Rightarrow> field_desc \<Rightarrow> (nat \<Rightarrow> u64 option) \<Rightarrow> nat list \<Rightarrow> 's \<Rightarrow> 's option" where
  "each_number cb f get [] s = Some s"
| "each_number cb f get (i # is) s = do {
     value \<leftarrow> get i;
     (r, s1) \<leftarrow> cb (field_arg f (f_type f AND NOT SPROTO_TARRAY) (int i + 1) (Local value) 8) s;
     each_number cb f get is s1 }"

definition get_uint64 :: "u8 list \<Rightarrow> nat \<Rightarrow> u64 option" where
  "get_uint64 data p = do { low \<leftarrow> todword data p; hi \<leftarrow> todword data (p + 4); Some (ucast low OR push_bit 32 (ucast hi)) }"

definition decode_array :: "'s dec_cb \<Rightarrow> u8 list \<Rightarrow> field_desc \<Rightarrow> nat \<Rightarrow> 's \<Rightarrow> (int \<times> 's) option" where
  "decode_array cb data f stream0 s = do {
     sz \<leftarrow> todword data stream0;
     let type = f_type f AND NOT SPROTO_TARRAY;
     if sz = 0 then do { (r, s1) \<leftarrow> cb (field_arg f type (-1) Nowhere 0) s; Some (0, s1) }
     else do {
       let stream = stream0 + SIZEOF_LENGTH;
       if type = SPROTO_TDOUBLE \<or> type = SPROTO_TINTEGER then do {
         len \<leftarrow> arr_get data stream;
         let n = sz - 1;
         if len = 4 then
           if n mod 4 \<noteq> 0 then Some (-1, s)
           else do {
             s1 \<leftarrow> each_number cb f (\<lambda>i. do { v \<leftarrow> todword data (stream + 1 + i * 4); Some (expand64 v) }) [0..<nat (sint n) div 4] s;
             Some (0, s1) }
         else if len = 8 then
           if n mod 8 \<noteq> 0 then Some (-1, s)
           else do {
             s1 \<leftarrow> each_number cb f (\<lambda>i. get_uint64 data (stream + 1 + i * 8)) [0..<nat (sint n) div 8] s;
             Some (0, s1) }
         else Some (-1, s) }
       else if type = SPROTO_TBOOLEAN then do {
         s1 \<leftarrow> each_number cb f (\<lambda>i. do { v \<leftarrow> arr_get data (stream + i); Some (ucast v) }) [0..<nat (sint sz)] s;
         Some (0, s1) }
       else if type = SPROTO_TSTRING \<or> type = SPROTO_TSTRUCT then object_loop cb data f stream (sint sz) 1 s
       else Some (-1, s) } }"

text \<open>A field whose value is in the data part.\<close>

definition decode_data :: "'s dec_cb \<Rightarrow> u8 list \<Rightarrow> field_desc \<Rightarrow> nat \<Rightarrow> 's \<Rightarrow> (int \<times> 's) option" where
  "decode_data cb data f current s =
     (if f_type f AND SPROTO_TARRAY \<noteq> 0 then do {
        (r, s1) \<leftarrow> decode_array cb data f current s;
        Some (if r \<noteq> 0 then -1 else 0, s1) }
      else if f_type f = SPROTO_TDOUBLE \<or> f_type f = SPROTO_TINTEGER then do {
        sz \<leftarrow> todword data current;
        if sz = 4 then do {
          v \<leftarrow> todword data (current + SIZEOF_LENGTH);
          (r, s1) \<leftarrow> cb (field_arg f (f_type f) 0 (Local (expand64 v)) 8) s;
          Some (0, s1) }
        else if sz \<noteq> 8 then Some (-1, s)
        else do {
          v \<leftarrow> get_uint64 data (current + SIZEOF_LENGTH);
          (r, s1) \<leftarrow> cb (field_arg f (f_type f) 0 (Local v) 8) s;
          Some (0, s1) } }
      else if f_type f = SPROTO_TSTRING \<or> f_type f = SPROTO_TSTRUCT then do {
        sz \<leftarrow> todword data current;
        (r, s1) \<leftarrow> cb (field_arg f (f_type f) 0 (At (current + SIZEOF_LENGTH)) (sint sz)) s;
        Some (if r \<noteq> 0 then -1 else 0, s1) }
      else Some (-1, s))"

text \<open>The entries of the header: the tag, the data that is left.  \<open>Inl\<close> is an error of the message, \<open>Inr\<close> the size left.\<close>

fun decode_entries :: "'s dec_cb \<Rightarrow> u8 list \<Rightarrow> sproto_type \<Rightarrow> nat list \<Rightarrow> int \<Rightarrow> nat \<Rightarrow> int \<Rightarrow> 's \<Rightarrow> ((unit + int) \<times> 's) option" where
  "decode_entries cb data st [] tag datastream room s = Some (Inr room, s)"
| "decode_entries cb data st (e # es) tag datastream room s = do {
     value0 \<leftarrow> toword data e;
     if odd value0 then decode_entries cb data st es (tag + 1 + int (value0 div 2)) datastream room s
     else do {
       let value = int value0 div 2 - 1;
       let tag1 = tag + 1;
       if value < 0 then
         if room < int SIZEOF_LENGTH then Some (Inl (), s)
         else do {
           sz \<leftarrow> todword data datastream;
           n \<leftarrow> int_range (sint sz + int SIZEOF_LENGTH);
           if room < n then Some (Inl (), s)
           else do {
             f \<leftarrow> findtag st tag1;
             (r, s1) \<leftarrow> (case f of None \<Rightarrow> Some (0, s) | Some fd \<Rightarrow> decode_data cb data fd datastream s);
             if r \<noteq> 0 then Some (Inl (), s1)
             else decode_entries cb data st es tag1 (datastream + unat (sz + of_nat SIZEOF_LENGTH)) (sub32 room (sz + of_nat SIZEOF_LENGTH)) s1 } }
       else do {
         f \<leftarrow> findtag st tag1;
         case f of
           None \<Rightarrow> decode_entries cb data st es tag1 datastream room s
         | Some fd \<Rightarrow>
             if f_type fd \<noteq> SPROTO_TINTEGER \<and> f_type fd \<noteq> SPROTO_TBOOLEAN then Some (Inl (), s)
             else do {
               (r, s1) \<leftarrow> cb (field_arg fd (f_type fd AND NOT SPROTO_TARRAY) 0 (Local (of_int value)) 8) s;
               decode_entries cb data st es tag1 datastream room s1 } } } }"

definition sproto_decode :: "'s dec_cb \<Rightarrow> u8 list \<Rightarrow> sproto_type \<Rightarrow> nat \<Rightarrow> int \<Rightarrow> 's \<Rightarrow> (int \<times> 's) option" where
  "sproto_decode cb data st start room s =
     (if room < int SIZEOF_HEADER then Some (-1, s)
      else do {
        fn \<leftarrow> toword data start;
        let stream = start + SIZEOF_HEADER;
        let size1 = room - int SIZEOF_HEADER;
        if size1 < int (fn * SIZEOF_FIELD) then Some (-1, s)
        else do {
          (r, s1) \<leftarrow> decode_entries cb data st (map (\<lambda>i. stream + i * SIZEOF_FIELD) [0..<fn]) (-1)
            (stream + fn * SIZEOF_FIELD) (size1 - int (fn * SIZEOF_FIELD)) s;
          Some (case r of Inl _ \<Rightarrow> -1 | Inr left \<Rightarrow> room - left, s1) } })"

end
