(* ===== verification/LSproto.thy ===== *)
theory LSproto
  imports Seri SprotoCodec
begin

text \<open>
  The callbacks of \<^verbatim>\<open>lualib-src/sproto/lsproto.c\<close> that walk Lua tables, with \<open>lencode\<close> and \<open>ldecode\<close>.  Lua values are those of
  \<^verbatim>\<open>Seri\<close>; tables have no metatable other than one with \<open>__pairs\<close>, whose value here is the list of the pairs it iterates over.  A stack slot the code keeps an index of is a field of the state;
  the slot that holds the array being decoded is the key under which that table is stored, as the calls for one array come one
  after the other.  \<open>None\<close> is also the Lua error that leaves the C code.  The conversions of the Lua library that do arithmetic
  on floats or read numbers from strings are parameters, as are reading a value that is not a plain table (\<open>c_index\<close>) and the number
  of stack slots that the limit of Lua leaves to the function (\<open>c_stack\<close>, 1000000 less what its callers use).  The height of the stack is
  kept for the encoder, which leaves values on it; the decoder has at most three slots for each of the 64 levels, which are taken to be
  there.
\<close>

section \<open>Lua\<close>

record lua_conv =
  c_tointeger :: "lua_value \<Rightarrow> u64 option"
  c_tonumber :: "lua_value \<Rightarrow> u64"
  c_round :: "u64 \<Rightarrow> int \<Rightarrow> u64"
  c_divide :: "u64 \<Rightarrow> int \<Rightarrow> u64"
  c_tostring :: "lua_value \<Rightarrow> u8 list"
  c_index :: "lua_value \<Rightarrow> lua_value \<Rightarrow> lua_value option"
  c_stack :: nat

definition rawget :: "lua_value \<Rightarrow> (lua_value \<times> lua_value) list \<Rightarrow> lua_value" where
  "rawget k ps = (case map_of ps k of None \<Rightarrow> L_nil | Some v \<Rightarrow> v)"

definition gettable :: "lua_conv \<Rightarrow> lua_value \<Rightarrow> lua_value \<Rightarrow> lua_value option" where
  "gettable C t k = (case t of L_table n ps \<Rightarrow> Some (rawget k ps) | _ \<Rightarrow> c_index C t k)"

definition tointegerx :: "lua_conv \<Rightarrow> lua_value \<Rightarrow> u64 option" where
  "tointegerx C v = (case v of L_integer i \<Rightarrow> Some i | L_number x \<Rightarrow> c_tointeger C v | L_string s \<Rightarrow> c_tointeger C v | _ \<Rightarrow> None)"

definition tonumber :: "lua_conv \<Rightarrow> lua_value \<Rightarrow> u64" where
  "tonumber C v = (case v of L_number x \<Rightarrow> x | _ \<Rightarrow> c_tonumber C v)"

definition tolstring :: "lua_conv \<Rightarrow> lua_value \<Rightarrow> u8 list option" where
  "tolstring C v = (case v of L_string s \<Rightarrow> Some s | L_integer i \<Rightarrow> Some (c_tostring C v) | L_number x \<Rightarrow> Some (c_tostring C v) | _ \<Rightarrow> None)"

text \<open>\<open>lua_next\<close> after the key \<open>k\<close>, and the iterator of a \<open>__pairs\<close> metamethod: the next pair, or the end.\<close>

definition lua_next :: "(lua_value \<times> lua_value) list \<Rightarrow> lua_value \<Rightarrow> (lua_value \<times> lua_value) option option" where
  "lua_next ps k =
     (if k = L_nil then Some (case ps of [] \<Rightarrow> None | p # _ \<Rightarrow> Some p)
      else case dropWhile (\<lambda>p. fst p \<noteq> k) ps of
        [] \<Rightarrow> None
      | _ # rest \<Rightarrow> Some (case rest of [] \<Rightarrow> None | p # _ \<Rightarrow> Some p))"

text \<open>A store into a table; the length is the one of a sequence.\<close>

definition table_set :: "lua_value \<Rightarrow> lua_value \<Rightarrow> lua_value \<Rightarrow> lua_value option" where
  "table_set k v t = (case t of L_table n ps \<Rightarrow> do { ps1 \<leftarrow> rawset k v ps; Some (L_table (if norm_key k = lua_int (n + 1) then n + 1 else n) ps1) } | _ \<Rightarrow> None)"

definition name_key :: "cname \<Rightarrow> lua_value" where
  "name_key nm = L_string (cstr (snd nm))"

section \<open>Encoding\<close>

definition ENCODE_DEEPLEVEL :: nat where "ENCODE_DEEPLEVEL = 64"

record encode_ud =
  eu_tbl :: lua_value
  eu_array_tag :: "cname option"
  eu_array :: "lua_value option"
  eu_key :: lua_value
  eu_top :: nat

text \<open>\<open>eu_top\<close> is the height of the stack between two calls.  The table is on top of it.\<close>

definition new_encode_ud :: "nat \<Rightarrow> lua_value \<Rightarrow> encode_ud" where
  "new_encode_ud h t = \<lparr>eu_tbl = t, eu_array_tag = None, eu_array = None, eu_key = L_nil, eu_top = h\<rparr>"

definition check_stack :: "lua_conv \<Rightarrow> encode_ud \<Rightarrow> nat \<Rightarrow> unit option" where
  "check_stack C self n = assert_that (eu_top self + n \<le> c_stack C)"

text \<open>A new array: \<open>False\<close> when there is none.  The array takes the slot of the array before it, if that had one; the nil of a
  missing array and the slots of the iteration stay on the stack.\<close>

definition begin_array :: "lua_conv \<Rightarrow> cname \<Rightarrow> encode_ud \<Rightarrow> (bool \<times> encode_ud) option" where
  "begin_array C name self = do {
     let self1 = self\<lparr>eu_array_tag := Some name\<rparr>;
     v \<leftarrow> gettable C (eu_tbl self1) (name_key name);
     let h = (if eu_array self1 = None then eu_top self1 + 1 else eu_top self1);
     if v = L_nil then Some (False, self1\<lparr>eu_array := None, eu_top := h\<rparr>)
     else case v of
       L_table n ps \<Rightarrow> Some (True, self1\<lparr>eu_array := Some v, eu_key := L_nil, eu_top := h + 1\<rparr>)
     | L_pairs ps \<Rightarrow> Some (True, self1\<lparr>eu_array := Some v, eu_key := L_nil, eu_top := h + 3\<rparr>)
     | _ \<Rightarrow> None }"

definition next_list :: "encode_ud \<Rightarrow> (lua_value \<times> lua_value) option option" where
  "next_list self = do {
     a \<leftarrow> eu_array self;
     case a of L_table n ps \<Rightarrow> lua_next ps (eu_key self) | L_pairs ps \<Rightarrow> lua_next ps (eu_key self) | _ \<Rightarrow> None }"

text \<open>The value that is asked for, or the code that is returned.\<close>

definition fetch :: "lua_conv \<Rightarrow> sproto_arg \<Rightarrow> encode_ud \<Rightarrow> ((int + lua_value) \<times> encode_ud) option" where
  "fetch C args self = do {
     name \<leftarrow> a_tagname args;
     if a_index args > 0 then do {
       (there, self1) \<leftarrow> (if Some name \<noteq> eu_array_tag self then begin_array C name self else Some (True, self));
       if \<not> there then Some (Inl SPROTO_CB_NOARRAY, self1)
       else if a_mainindex args \<ge> 0 then do {
         r \<leftarrow> next_list self1;
         Some (case r of None \<Rightarrow> (Inl SPROTO_CB_NIL, self1\<lparr>eu_key := L_nil\<rparr>) | Some (k, v) \<Rightarrow> (Inr v, self1\<lparr>eu_key := k\<rparr>)) }
       else do {
         a \<leftarrow> eu_array self1;
         v \<leftarrow> gettable C a (lua_int (nat (a_index args)));
         Some (Inr v, self1) } }
     else do { v \<leftarrow> gettable C (eu_tbl self) (name_key name); Some (Inr v, self) } }"

definition integer_value :: "lua_conv \<Rightarrow> int \<Rightarrow> lua_value \<Rightarrow> u64 option" where
  "integer_value C extra v = (if extra \<noteq> 0 then Some (c_round C (tonumber C v) extra) else tointegerx C v)"

text \<open>An integer of 32 bits is returned with four bytes.\<close>

definition put_integer :: "u64 \<Rightarrow> int \<times> u64" where
  "put_integer v = (let vh = sint v div 2 ^ 31 in if vh = 0 \<or> vh = -1 then (4, ucast (ucast v :: u32)) else (8, v))"

text \<open>\<open>rec\<close> stands for \<open>encode\<close> one level deeper.  The value is one slot above \<open>eu_top\<close>; a double is left there.\<close>

definition encode_value :: "lua_conv \<Rightarrow> sproto_type list \<Rightarrow> encode_ud enc_cb \<Rightarrow> sproto_arg \<Rightarrow> lua_value \<Rightarrow> u8 list \<Rightarrow> encode_ud \<Rightarrow>
    (int \<times> u64 \<times> u8 list \<times> encode_ud) option" where
  "encode_value C ts rec args v buf self =
     (if a_type args = SPROTO_TINTEGER then do {
        i \<leftarrow> integer_value C (a_extra args) v;
        let (n, u) = put_integer i;
        Some (n, u, buf, self) }
      else if a_type args = SPROTO_TDOUBLE then Some (8, tonumber C v, buf, self\<lparr>eu_top := eu_top self + 1\<rparr>)
      else if a_type args = SPROTO_TBOOLEAN then
        (case v of L_boolean b \<Rightarrow> Some (4, if b then 1 else 0, buf, self) | _ \<Rightarrow> None)
      else if a_type args = SPROTO_TSTRING then do {
        str \<leftarrow> tolstring C v;
        let n = sint (of_nat (length str) :: u32);
        if n > a_length args then Some (SPROTO_CB_ERROR, 0, buf, self)
        else case a_value args of
          At p \<Rightarrow> do { buf1 \<leftarrow> put_bytes buf p str; Some (n, 0, buf1, self) }
        | _ \<Rightarrow> None }
      else if a_type args = SPROTO_TSTRUCT then do {
        i \<leftarrow> a_subtype args;
        st \<leftarrow> arr_get ts i;
        case a_value args of
          At p \<Rightarrow> do {
            (r, buf1, sub) \<leftarrow> sproto_encode rec st buf p (a_length args) (new_encode_ud (eu_top self + 1) v);
            Some (if r < 0 then SPROTO_CB_ERROR else r, 0, buf1, self) }
        | _ \<Rightarrow> None }
      else None)"

text \<open>The callback with the levels that are left.\<close>

primrec encode :: "lua_conv \<Rightarrow> sproto_type list \<Rightarrow> nat \<Rightarrow> encode_ud enc_cb" where
  "encode C ts 0 = (\<lambda>args buf self. None)"
| "encode C ts (Suc d) = (\<lambda>args buf self. do {
     u \<leftarrow> check_stack C self 12;
     (r, self1) \<leftarrow> fetch C args self;
     case r of
       Inl code \<Rightarrow> Some (code, 0, buf, self1)
     | Inr v \<Rightarrow> if v = L_nil then Some (SPROTO_CB_NIL, 0, buf, self1) else encode_value C ts (encode C ts d) args v buf self1 })"

text \<open>The buffer is doubled until the message fits.  \<open>Inl\<close> is the error of \<open>expand_buffer\<close>, which refuses a size above the
  maximum; from the size 0 the loop would never end.\<close>

function lencode_loop :: "(nat \<Rightarrow> u8 list) \<Rightarrow> lua_conv \<Rightarrow> sproto_type list \<Rightarrow> sproto_type \<Rightarrow> lua_value \<Rightarrow> u8 list \<Rightarrow> nat \<Rightarrow>
    (string + u8 list \<times> u8 list) option" where
  "lencode_loop fresh C ts st tbl buf sz =
     (case sproto_encode (encode C ts ENCODE_DEEPLEVEL) st buf 0 (int sz) (new_encode_ud 2 tbl) of
        None \<Rightarrow> None
      | Some (r, buf1, s) \<Rightarrow>
          if r < 0 then
            case expand_buffer fresh sz (sz * 2) of
              None \<Rightarrow> None
            | Some (Inl msg) \<Rightarrow> Some (Inl msg)
            | Some (Inr buf2) \<Rightarrow>
                if sz = 0 \<or> sz * 2 > ENCODE_MAXSIZE then None else lencode_loop fresh C ts st tbl buf2 (sz * 2)
          else if nat r \<le> length buf1 then Some (Inr (take (nat r) buf1, buf1)) else None)"
  by pat_completeness auto
termination
  by (relation "measure (\<lambda>(fresh, C, ts, st, tbl, buf, sz). ENCODE_MAXSIZE + 1 - sz)") auto

text \<open>Without a type the message is empty.\<close>

definition lencode :: "(nat \<Rightarrow> u8 list) \<Rightarrow> lua_conv \<Rightarrow> sproto_type list \<Rightarrow> nat option \<Rightarrow> lua_value \<Rightarrow> u8 list \<Rightarrow> (string + u8 list \<times> u8 list) option" where
  "lencode fresh C ts ti tbl output =
     (case ti of
        None \<Rightarrow> if tbl = L_nil then Some (Inr ([], output)) else None
      | Some i \<Rightarrow> do { st \<leftarrow> arr_get ts i; lencode_loop fresh C ts st tbl output (length output) })"

section \<open>Decoding\<close>

record decode_ud =
  du_result :: lua_value
  du_array_tag :: "cname option"
  du_array :: "lua_value option"
  du_mainindex :: int
  du_key :: lua_value

definition new_decode_ud :: "lua_value \<Rightarrow> int \<Rightarrow> decode_ud" where
  "new_decode_ud t m = \<lparr>du_result = t, du_array_tag = None, du_array = None, du_mainindex = m, du_key = L_nil\<rparr>"

text \<open>Stores into the table of the array.\<close>

definition array_set :: "lua_value \<Rightarrow> lua_value \<Rightarrow> decode_ud \<Rightarrow> decode_ud option" where
  "array_set k v self = do {
     a \<leftarrow> du_array self;
     case du_result self of
       L_table n ps \<Rightarrow> do {
         t \<leftarrow> table_set k v (rawget a ps);
         r \<leftarrow> table_set a t (du_result self);
         Some (self\<lparr>du_result := r\<rparr>) }
     | _ \<Rightarrow> None }"

definition result_set :: "cname \<Rightarrow> lua_value \<Rightarrow> decode_ud \<Rightarrow> decode_ud option" where
  "result_set name v self = do { r \<leftarrow> table_set (name_key name) v (du_result self); Some (self\<lparr>du_result := r\<rparr>) }"

text \<open>A value other than a struct.\<close>

definition decode_scalar :: "lua_conv \<Rightarrow> u8 list \<Rightarrow> sproto_arg \<Rightarrow> lua_value option" where
  "decode_scalar C data args =
     (if a_type args = SPROTO_TINTEGER then
        (case a_value args of Local v \<Rightarrow> Some (if a_extra args \<noteq> 0 then L_number (c_divide C v (a_extra args)) else L_integer v) | _ \<Rightarrow> None)
      else if a_type args = SPROTO_TDOUBLE then (case a_value args of Local v \<Rightarrow> Some (L_number v) | _ \<Rightarrow> None)
      else if a_type args = SPROTO_TBOOLEAN then (case a_value args of Local v \<Rightarrow> Some (L_boolean (v \<noteq> 0)) | _ \<Rightarrow> None)
      else if a_type args = SPROTO_TSTRING then
        (case a_value args of
           At p \<Rightarrow> if a_length args < 0 \<or> length data < p + nat (a_length args) then None
             else Some (L_string (take (nat (a_length args)) (drop p data)))
         | _ \<Rightarrow> None)
      else None)"

definition store_value :: "sproto_arg \<Rightarrow> cname \<Rightarrow> lua_value \<Rightarrow> decode_ud \<Rightarrow> decode_ud option" where
  "store_value args name v self =
     (if a_index args > 0 then array_set (lua_int (nat (a_index args))) v self
      else
        let self1 = (if du_mainindex self = a_tagid args then self\<lparr>du_key := v\<rparr> else self)
        in result_set name v self1)"

text \<open>A struct: its table, or the code that is returned.\<close>

definition decode_struct :: "sproto_type list \<Rightarrow> (decode_ud dec_cb) \<Rightarrow> u8 list \<Rightarrow> sproto_arg \<Rightarrow> (int + decode_ud) option" where
  "decode_struct ts rec data args = do {
     i \<leftarrow> a_subtype args;
     st \<leftarrow> arr_get ts i;
     case a_value args of
       At p \<Rightarrow> do {
         (r, sub) \<leftarrow> sproto_decode rec data st p (a_length args)
           (new_decode_ud (L_table 0 []) (if a_mainindex args \<ge> 0 then a_mainindex args else -1));
         Some (if r < 0 then Inl SPROTO_CB_ERROR else if r \<noteq> a_length args then Inl r else Inr sub) }
     | _ \<Rightarrow> None }"

definition enter_array :: "sproto_arg \<Rightarrow> cname \<Rightarrow> decode_ud \<Rightarrow> (bool \<times> decode_ud) option" where
  "enter_array args name self =
     (if a_index args \<noteq> 0 \<and> Some name \<noteq> du_array_tag self then do {
        self1 \<leftarrow> result_set name (L_table 0 []) (self\<lparr>du_array_tag := Some name\<rparr>);
        Some (a_index args < 0, self1\<lparr>du_array := Some (name_key name)\<rparr>) }
      else Some (False, self))"

primrec decode :: "lua_conv \<Rightarrow> sproto_type list \<Rightarrow> u8 list \<Rightarrow> nat \<Rightarrow> decode_ud dec_cb" where
  "decode C ts data 0 = (\<lambda>args self. None)"
| "decode C ts data (Suc d) = (\<lambda>args self. do {
     name \<leftarrow> a_tagname args;
     (empty, self1) \<leftarrow> enter_array args name self;
     if empty then Some (0, self1)
     else if a_type args = SPROTO_TSTRUCT then do {
       r \<leftarrow> decode_struct ts (decode C ts data d) data args;
       case r of
         Inl code \<Rightarrow> Some (code, self1)
       | Inr sub \<Rightarrow>
           if a_mainindex args \<ge> 0 then
             if du_key sub = L_nil then None
             else do { self2 \<leftarrow> array_set (du_key sub) (du_result sub) self1; Some (0, self2) }
           else do { self2 \<leftarrow> store_value args name (du_result sub) self1; Some (0, self2) } }
     else do {
       v \<leftarrow> decode_scalar C data args;
       self2 \<leftarrow> store_value args name v self1;
       Some (0, self2) } })"

text \<open>The result is a new table or the one that is given; the other result is the number of bytes read.\<close>

definition ldecode :: "lua_conv \<Rightarrow> sproto_type list \<Rightarrow> nat option \<Rightarrow> u8 list \<Rightarrow> lua_value \<Rightarrow> (string + (lua_value \<times> int) option) option" where
  "ldecode C ts ti data given =
     (case ti of
        None \<Rightarrow> Some (Inr None)
      | Some i \<Rightarrow> do {
          st \<leftarrow> arr_get ts i;
          (r, self) \<leftarrow> sproto_decode (decode C ts data ENCODE_DEEPLEVEL) data st 0 (sint (of_nat (length data) :: u32))
            (new_decode_ud (case given of L_table n ps \<Rightarrow> given | _ \<Rightarrow> L_table 0 []) (-1));
          Some (if r < 0 then Inl ''decode error'' else Inr (Some (du_result self, r))) })"

section \<open>Queries\<close>

text \<open>\<open>Inl\<close> is a Lua error.  The number or the name that answers a query for a protocol.\<close>

datatype proto_key = By_name "u8 list" | By_tag int

definition lquerytype :: "lua_conv \<Rightarrow> sproto option \<Rightarrow> lua_value \<Rightarrow> string + nat option" where
  "lquerytype C sp arg =
     (case sp of
        None \<Rightarrow> Inl ''Need a sproto object''
      | Some s \<Rightarrow> (case tolstring C arg of None \<Rightarrow> Inl ''string expected'' | Some name \<Rightarrow> Inr (query_type s name)))"

text \<open>The types of a tag: of the request, and of the response; \<open>Some None\<close> is the NULL pointer of a response without a type.\<close>

definition protocol_answer :: "sproto \<Rightarrow> int \<Rightarrow> (nat option \<times> nat option option) option" where
  "protocol_answer sp tag = do {
     request \<leftarrow> sproto_protoquery sp tag 0;
     response \<leftarrow> sproto_protoquery sp tag 1;
     case response of
       None \<Rightarrow> do { r \<leftarrow> sproto_protoresponse sp tag; Some (request, if r then Some None else None) }
     | Some i \<Rightarrow> Some (request, Some (Some i)) }"

definition lprotocol :: "lua_conv \<Rightarrow> sproto option \<Rightarrow> lua_value \<Rightarrow> (string + (proto_key \<times> nat option \<times> nat option option) option) option" where
  "lprotocol C sp arg =
     (case sp of
        None \<Rightarrow> Some (Inl ''Need a sproto_type object'')
      | Some s \<Rightarrow>
          if (case arg of L_integer i \<Rightarrow> True | L_number x \<Rightarrow> True | _ \<Rightarrow> False) then do {
            let tag = sint (ucast (case tointegerx C arg of None \<Rightarrow> 0 | Some i \<Rightarrow> i) :: u32);
            name \<leftarrow> sproto_protoname s tag;
            case name of
              None \<Rightarrow> Some (Inr None)
            | Some nm \<Rightarrow> do { r \<leftarrow> protocol_answer s tag; Some (Inr (Some (By_name (cstr (snd nm)), r))) } }
          else case tolstring C arg of
            None \<Rightarrow> Some (Inl ''Should be number or string'')
          | Some name \<Rightarrow>
              let tag = sproto_prototag s name in
              if tag < 0 then Some (Inr None)
              else do { r \<leftarrow> protocol_answer s tag; Some (Inr (Some (By_tag tag, r))) })"

section \<open>The global schemas\<close>

definition MAX_GLOBALSPROTO :: nat where "MAX_GLOBALSPROTO = 16"

text \<open>A schema is known by its address in its pool, which is behind the header of a chunk.  \<open>skynet_free\<close> takes what
  \<open>skynet_malloc\<close> gave, the start of that header.  As built for Windows, the old schema of a slot is freed.\<close>

definition SIZEOF_CHUNK :: nat where "SIZEOF_CHUNK = 8"

definition free_block :: "pool_addr \<Rightarrow> unit option" where
  "free_block a = (if SIZEOF_CHUNK + snd a = 0 then Some () else None)"

definition lsaveproto :: "(pool_addr \<times> sproto) option \<Rightarrow> int \<Rightarrow> (pool_addr \<times> sproto) option list \<Rightarrow>
    (string + (pool_addr \<times> sproto) option list) option" where
  "lsaveproto sp index slots =
     (if index < 0 \<or> index \<ge> int MAX_GLOBALSPROTO then Some (Inl ''Invalid global slot index'')
      else do {
        rp \<leftarrow> arr_get slots (nat index);
        slots1 \<leftarrow> arr_set slots (nat index) sp;
        u \<leftarrow> (case rp of None \<Rightarrow> Some () | Some (a, old) \<Rightarrow> free_block a);
        Some (Inr slots1) })"

definition lloadproto :: "int \<Rightarrow> (pool_addr \<times> sproto) option list \<Rightarrow> (string + pool_addr \<times> sproto) option" where
  "lloadproto index slots =
     (if index < 0 \<or> index \<ge> int MAX_GLOBALSPROTO then Some (Inl ''Invalid global slot index'')
      else do {
        sp \<leftarrow> arr_get slots (nat index);
        Some (case sp of None \<Rightarrow> Inl ''nil sproto at index'' | Some s \<Rightarrow> Inr s) })"

end
