(* ===== verification/SprotoMemory.thy ===== *)
theory SprotoMemory
  imports SprotoCodec
begin

text \<open>
  Regions of a memory: what they hold, and what a write leaves as it was.  The bytes of numbers.
\<close>

section \<open>Regions\<close>

definition has :: "u8 list \<Rightarrow> nat \<Rightarrow> u8 list \<Rightarrow> bool" where
  "has buf p bs \<longleftrightarrow> p + length bs \<le> length buf \<and> (\<forall>i < length bs. buf ! (p + i) = bs ! i)"

text \<open>Only the \<open>n\<close> bytes from \<open>p\<close> may differ.\<close>

definition same :: "nat \<Rightarrow> nat \<Rightarrow> u8 list \<Rightarrow> u8 list \<Rightarrow> bool" where
  "same p n buf buf' \<longleftrightarrow> length buf' = length buf \<and> (\<forall>i < length buf. i < p \<or> p + n \<le> i \<longrightarrow> buf' ! i = buf ! i)"

lemma same_refl [simp, intro]: "same p n buf buf"
  by (simp add: same_def)

lemma same_length: "same p n buf buf' \<Longrightarrow> length buf' = length buf"
  by (simp add: same_def)

lemma same_trans: "same p n a b \<Longrightarrow> same p n b c \<Longrightarrow> same p n a c"
  by (auto simp: same_def)

lemma same_mono: "same p n a b \<Longrightarrow> q \<le> p \<Longrightarrow> p + n \<le> q + m \<Longrightarrow> same q m a b"
  by (auto simp: same_def)

lemma has_length: "has buf p bs \<Longrightarrow> p + length bs \<le> length buf"
  by (simp add: has_def)

lemma has_Nil [simp]: "has buf p [] \<longleftrightarrow> p \<le> length buf"
  by (simp add: has_def)

lemma has_append: "has buf p (xs @ ys) \<longleftrightarrow> has buf p xs \<and> has buf (p + length xs) ys"
proof
  assume h: "has buf p (xs @ ys)"
  then have "buf ! (p + i) = xs ! i" if "i < length xs" for i using h that unfolding has_def by (metis length_append nth_append trans_less_add1)
  moreover have "buf ! (p + length xs + i) = ys ! i" if "i < length ys" for i
    using h that unfolding has_def by (metis add.assoc length_append nat_add_left_cancel_less nth_append_length_plus)
  ultimately show "has buf p xs \<and> has buf (p + length xs) ys" using h by (simp add: has_def)
next
  assume h: "has buf p xs \<and> has buf (p + length xs) ys"
  have "buf ! (p + i) = (xs @ ys) ! i" if "i < length (xs @ ys)" for i
  proof (cases "i < length xs")
    case True
    then show ?thesis using h by (simp add: has_def nth_append)
  next
    case False
    then have "i - length xs < length ys" using that by simp
    then have "buf ! (p + length xs + (i - length xs)) = ys ! (i - length xs)" using h unfolding has_def by blast
    moreover have "p + length xs + (i - length xs) = p + i" using False by simp
    ultimately show ?thesis using False by (simp add: nth_append)
  qed
  then show "has buf p (xs @ ys)" using h by (simp add: has_def add.assoc)
qed

lemma has_Cons: "has buf p (x # xs) \<longleftrightarrow> p < length buf \<and> buf ! p = x \<and> has buf (p + 1) xs"
  using has_append [of buf p "[x]" xs] by (auto simp: has_def)

lemma has_same: "has buf q bs \<Longrightarrow> same p n buf buf' \<Longrightarrow> q + length bs \<le> p \<or> p + n \<le> q \<Longrightarrow> has buf' q bs"
  by (auto simp: has_def same_def)

lemma has_unique: "has buf p xs \<Longrightarrow> has buf p ys \<Longrightarrow> length xs = length ys \<Longrightarrow> xs = ys"
  by (auto simp: has_def intro: nth_equalityI)

lemma has_take_drop: "has buf p bs \<Longrightarrow> take (length bs) (drop p buf) = bs"
  by (rule nth_equalityI) (auto simp: has_def)

lemma has_self: "p + n \<le> length buf \<Longrightarrow> has buf p (take n (drop p buf))"
  by (simp add: has_def)

lemma has_0 [simp]: "has bs 0 bs"
  by (simp add: has_def)

lemma put_bytes_spec:
  assumes "p + length bs \<le> length buf"
  obtains buf' where "put_bytes buf p bs = Some buf'" "same p (length bs) buf buf'" "has buf' p bs"
proof
  let ?b = "take p buf @ bs @ drop (p + length bs) buf"
  show "put_bytes buf p bs = Some ?b" using assms by (simp add: put_bytes_def)
  have tp: "length (take p buf) = p" using assms by simp
  have "?b ! i = buf ! i" if "i < length buf" "i < p \<or> p + length bs \<le> i" for i
  proof (cases "i < p")
    case True
    then show ?thesis using tp by (simp add: nth_append)
  next
    case False
    then have "\<not> i - p < length bs" "p + length bs \<le> i" using that by simp_all
    then show ?thesis using False tp that(1) by (simp add: nth_append)
  qed
  then show "same p (length bs) buf ?b" using assms by (simp add: same_def)
  have "?b ! (p + i) = bs ! i" if "i < length bs" for i using that tp by (simp add: nth_append)
  then show "has ?b p bs" using assms by (simp add: has_def)
qed

section \<open>Numbers\<close>

lemma length_bytes [simp]: "length (dword_bytes v) = 4" "length (qword_bytes w) = 8" "length (word_bytes k) = 2"
  by (simp_all add: dword_bytes_def qword_bytes_def word_bytes_def)

lemma has_list: "has buf p bs \<Longrightarrow> i < length bs \<Longrightarrow> arr_get buf (p + i) = Some (bs ! i)"
  by (simp add: has_def)

lemma dword_join:
  "ucast (ucast (v :: u32) :: u8) OR push_bit 8 (ucast (ucast (drop_bit 8 v) :: u8)) OR push_bit 16 (ucast (ucast (drop_bit 16 v) :: u8)) OR
     push_bit 24 (ucast (ucast (drop_bit 24 v) :: u8)) = (v :: u32)"
proof (rule bit_word_eqI)
  fix n assume n: "n < LENGTH(32)"
  consider "n < 8" | "8 \<le> n" "n < 16" | "16 \<le> n" "n < 24" | "24 \<le> n" using n by linarith
  then show "bit (ucast (ucast v :: u8) OR push_bit 8 (ucast (ucast (drop_bit 8 v) :: u8)) OR push_bit 16 (ucast (ucast (drop_bit 16 v) :: u8)) OR
     push_bit 24 (ucast (ucast (drop_bit 24 v) :: u8)) :: u32) n = bit v n"
    using n by cases (auto simp: bit_or_iff bit_push_bit_iff bit_ucast_iff bit_drop_bit_eq)
qed

lemma todword_has: "has data p (dword_bytes v) \<Longrightarrow> todword data p = Some v"
proof -
  assume h: "has data p (dword_bytes v)"
  have "arr_get data p = Some (ucast v)" "arr_get data (p + 1) = Some (ucast (drop_bit 8 v))" "arr_get data (p + 2) = Some (ucast (drop_bit 16 v))"
    "arr_get data (p + 3) = Some (ucast (drop_bit 24 v))"
    using has_list [OF h, of 0] has_list [OF h, of 1] has_list [OF h, of 2] has_list [OF h, of 3] by (simp_all add: dword_bytes_def)
  then show ?thesis unfolding todword_def by (simp only: Option.bind.bind_lunit dword_join)
qed

lemma qword_split: "qword_bytes v = dword_bytes (ucast v) @ dword_bytes (ucast (drop_bit 32 v))"
  unfolding qword_bytes_def dword_bytes_def
  by (simp, intro conjI bit_word_eqI) (simp_all add: bit_ucast_iff bit_drop_bit_eq)

lemma get_uint64_has: "has data p (qword_bytes v) \<Longrightarrow> get_uint64 data p = Some v"
proof -
  assume "has data p (qword_bytes v)"
  then have "todword data p = Some (ucast v)" "todword data (p + 4) = Some (ucast (drop_bit 32 v))"
    unfolding qword_split has_append by (auto intro: todword_has)
  moreover have "ucast (ucast v :: u32) OR push_bit 32 (ucast (ucast (drop_bit 32 v) :: u32)) = v"
    by (rule bit_word_eqI) (auto simp: bit_or_iff bit_push_bit_iff bit_ucast_iff bit_drop_bit_eq)
  ultimately show ?thesis by (simp add: get_uint64_def)
qed

lemma toword_has: "has data p (word_bytes v) \<Longrightarrow> 0 \<le> v \<Longrightarrow> v < 65536 \<Longrightarrow> toword data p = Some (nat v)"
proof -
  assume h: "has data p (word_bytes v)" and v: "0 \<le> v" "v < 65536"
  have g: "arr_get data p = Some (of_int v)" "arr_get data (p + 1) = Some (of_int (drop_bit 8 v))"
    using has_list [OF h, of 0] has_list [OF h, of 1] by (simp_all add: word_bytes_def)
  have u: "uint (of_int v :: u8) = v mod 256" "uint (of_int (drop_bit 8 v) :: u8) = v div 256"
    using v by (simp_all add: uint_word_of_int drop_bit_eq_div)
  have "unat (of_int v :: u8) + 256 * unat (of_int (drop_bit 8 v) :: u8) = nat (v mod 256) + 256 * nat (v div 256)"
    unfolding unat_eq_nat_uint u by simp
  also have "\<dots> = nat v mod 256 + 256 * (nat v div 256)" using v by (simp add: nat_mod_distrib nat_div_distrib)
  also have "\<dots> = nat v" by simp
  finally show ?thesis using g by (simp add: toword_def)
qed

lemma top_bit: "(v :: u32) AND 0x80000000 \<noteq> 0 \<longleftrightarrow> bit v 31"
  using and_exp_eq_0_iff_not_bit [of v 31] by simp

lemma dword_expand: "qword_bytes (expand64 v) = dword_bytes v @ (if v AND 0x80000000 \<noteq> 0 then replicate 4 0xFF else replicate 4 0)"
proof (cases "bit v 31")
  case True
  then have e: "expand64 v = ucast v OR push_bit 32 (- 1)" by (simp add: expand64_def top_bit)
  have "ucast (expand64 v) = v" "(ucast (drop_bit 32 (expand64 v)) :: u32) = - 1" unfolding e
    by (rule bit_word_eqI; simp add: bit_simps)+
  moreover have "dword_bytes (- 1) = replicate 4 0xFF" by code_simp
  ultimately show ?thesis using True by (simp add: qword_split top_bit)
next
  case False
  then have e: "expand64 v = ucast v" by (simp add: expand64_def top_bit)
  have "ucast (expand64 v) = v" "(ucast (drop_bit 32 (expand64 v)) :: u32) = 0" unfolding e
    by (rule bit_word_eqI; auto simp: bit_simps dest: bit_imp_le_length)+
  moreover have "dword_bytes 0 = replicate 4 0" by code_simp
  ultimately show ?thesis using False by (simp add: qword_split top_bit)
qed

lemma top_byte: "(ucast (drop_bit 24 (v :: u32)) :: u8) AND 0x80 \<noteq> 0 \<longleftrightarrow> v AND 0x80000000 \<noteq> 0"
proof -
  have 1: "(x :: u8) AND 0x80 \<noteq> 0 \<longleftrightarrow> bit x 7" for x
    using and_exp_eq_0_iff_not_bit [of x 7] by simp
  show ?thesis unfolding 1 top_bit by (simp add: bit_ucast_iff bit_drop_bit_eq)
qed

end
