(* ===== verification/SprotoTypesProps.thy ===== *)
theory SprotoTypesProps
  imports SprotoTypes
begin

text \<open>
  The schema: allocations of the pool do not overlap, an imported bundle is well formed, and the binary searches find what
  a linear search finds.
\<close>

section \<open>The pool\<close>

text \<open>How much of a chunk is in use: of the current chunk what was handed out, of another all.\<close>

definition extent :: "pool \<Rightarrow> nat \<Rightarrow> nat" where
  "extent p c =
     (if c < length (pl_chunks p) then if pl_current p = Some c then pl_used p else rev (pl_chunks p) ! c else 0)"

definition pool_ok :: "pool \<Rightarrow> bool" where
  "pool_ok p \<longleftrightarrow> (case pl_current p of None \<Rightarrow> pl_used p = 0
     | Some c \<Rightarrow> c < length (pl_chunks p) \<and> rev (pl_chunks p) ! c = CHUNK_SIZE \<and> pl_used p \<le> CHUNK_SIZE)"

lemma pool_init_ok [simp]: "pool_ok pool_init"
  by (simp add: pool_ok_def pool_init_def)

definition after :: "pool \<Rightarrow> pool_addr \<Rightarrow> bool" where
  "after p a \<longleftrightarrow> extent p (fst a) \<le> snd a"

definition before :: "pool \<Rightarrow> pool_addr \<Rightarrow> bool" where
  "before p a \<longleftrightarrow> snd a < extent p (fst a)"

lemma rev_Cons_nth: "c < length xs \<Longrightarrow> rev (x # xs) ! c = rev xs ! c" "rev (x # xs) ! length xs = x"
  by (simp_all add: nth_append)

lemma newchunk_spec:
  "pool_newchunk p sz = (a, p') \<Longrightarrow> pool_ok p \<Longrightarrow>
   pool_ok p' \<and> after p a \<and> snd a = 0 \<and> pl_current p' = pl_current p \<and>
   extent p' (fst a) = sz \<and> (\<forall>c. c \<noteq> fst a \<longrightarrow> extent p' c = extent p c)"
  by (auto simp: pool_newchunk_def pool_ok_def after_def extent_def nth_append split: option.splits)

lemma newchunk_mono: "pool_newchunk p sz = (a, p') \<Longrightarrow> pool_ok p \<Longrightarrow> extent p c \<le> extent p' c"
  using newchunk_spec [of p sz a p'] by (cases "c = fst a") (simp_all add: after_def)

lemma pool_alloc_spec:
  assumes a: "pool_alloc p sz = (a, p')" and ok: "pool_ok p"
  shows "pool_ok p' \<and> after p a \<and> snd a + sz \<le> extent p' (fst a) \<and> (\<forall>c. extent p c \<le> extent p' c)"
proof -
  let ?sz = "(sz + 7) div 8 * 8"
  have sz: "sz \<le> ?sz" by linarith
  let ?p1 = "if pl_current p = None then let p' = snd (pool_newchunk p CHUNK_SIZE) in p'\<lparr>pl_current := pool_header p'\<rparr> else p"
  have p1: "pool_ok ?p1" "pl_current ?p1 \<noteq> None" "\<forall>c. extent p c \<le> extent ?p1 c"
    using ok by (auto simp: pool_ok_def pool_newchunk_def pool_header_def extent_def CHUNK_SIZE_def nth_append split: option.splits)
  have up: "\<forall>c. extent p c \<le> extent p' c" if "\<forall>c. extent ?p1 c \<le> extent p' c" using that p1(3) by (meson order_trans)
  have before: "after ?p1 a \<Longrightarrow> after p a" using p1(3) by (auto simp: after_def intro: order_trans)
  obtain c where c: "pl_current ?p1 = Some c" using p1(2) by blast
  have lc: "c < length (pl_chunks ?p1)" "rev (pl_chunks ?p1) ! c = CHUNK_SIZE" "pl_used ?p1 \<le> CHUNK_SIZE" using p1(1) c by (auto simp: pool_ok_def)
  consider "?sz \<ge> CHUNK_SIZE" | "?sz < CHUNK_SIZE" "?sz + pl_used ?p1 \<le> CHUNK_SIZE"
    | "?sz < CHUNK_SIZE" "\<not> ?sz + pl_used ?p1 \<le> CHUNK_SIZE" "?sz \<ge> pl_used ?p1"
    | "?sz < CHUNK_SIZE" "\<not> ?sz + pl_used ?p1 \<le> CHUNK_SIZE" "?sz < pl_used ?p1" by linarith
  then show ?thesis
  proof cases
    case 1
    then have "pool_newchunk p ?sz = (a, p')" using a by (simp add: pool_alloc_def Let_def)
    from newchunk_spec [OF this ok] newchunk_mono [OF this ok] show ?thesis using sz by simp
  next
    case 2
    then have e: "a = (c, pl_used ?p1)" "p' = ?p1\<lparr>pl_used := pl_used ?p1 + ?sz\<rparr>" using a c unfolding pool_alloc_def Let_def by auto
    have "pool_ok p'" using p1(1) c 2 unfolding e(2) pool_ok_def by auto
    moreover have "extent p' c = pl_used ?p1 + ?sz" "extent ?p1 c = pl_used ?p1" unfolding e(2) using c lc by (simp_all add: extent_def)
    moreover have "extent p' d = extent ?p1 d" if "d \<noteq> c" for d unfolding e(2) using c that by (simp add: extent_def)
    moreover have "extent ?p1 d \<le> extent p' d" for d using calculation by (cases "d = c") simp_all
    moreover have "after ?p1 a" using calculation unfolding e(1) by (simp add: after_def)
    ultimately show ?thesis using sz up before unfolding e(1) by simp
  next
    case 3
    then have "pool_newchunk ?p1 ?sz = (a, p')" using a unfolding pool_alloc_def Let_def by auto
    note n = newchunk_spec [OF this p1(1)]
    have "\<forall>c. extent ?p1 c \<le> extent p' c" using newchunk_mono [OF \<open>pool_newchunk ?p1 ?sz = (a, p')\<close> p1(1)] by blast
    then show ?thesis using n sz up before by simp
  next
    case 4
    obtain a2 p2 where n2: "pool_newchunk ?p1 CHUNK_SIZE = (a2, p2)" by fastforce
    then have e: "a = a2" "p' = p2\<lparr>pl_current := pool_header p2, pl_used := ?sz\<rparr>" using a 4 unfolding pool_alloc_def Let_def by auto
    have p2: "a2 = (length (pl_chunks ?p1), 0)" "p2 = ?p1\<lparr>pl_chunks := CHUNK_SIZE # pl_chunks ?p1\<rparr>" using n2 by (simp_all add: pool_newchunk_def)
    have "pool_ok p'" using 4 unfolding e(2) p2 by (simp add: pool_ok_def pool_header_def nth_append)
    moreover have "extent p' (fst a) = ?sz" "after ?p1 a" unfolding e p2 by (simp_all add: extent_def pool_header_def after_def)
    moreover have "extent ?p1 d \<le> extent p' d" for d
      unfolding e(2) p2 using c lc(2,3) by (auto simp: extent_def pool_header_def nth_append)
    ultimately show ?thesis using sz up before unfolding e p2 by simp
  qed
qed

text \<open>A later allocation starts where no earlier one of more than 0 bytes starts.\<close>

lemma alloc_fresh: "before p a \<Longrightarrow> after p b \<Longrightarrow> a \<noteq> b"
  by (auto simp: before_def after_def)

lemma alloc_before: "pool_alloc p sz = (a, p') \<Longrightarrow> pool_ok p \<Longrightarrow> 0 < sz \<Longrightarrow> before p' a"
  using pool_alloc_spec [of p sz a p'] by (simp add: before_def)

lemma before_mono: "before p a \<Longrightarrow> \<forall>c. extent p c \<le> extent p' c \<Longrightarrow> before p' a"
  by (auto simp: before_def intro: less_le_trans)

section \<open>Searching\<close>

lemma sorted_gap: "sorted_wrt (<) (tags :: int list) \<Longrightarrow> i \<le> j \<Longrightarrow> j < length tags \<Longrightarrow> tags ! i \<le> tags ! j"
  by (metis nle_le not_less order.strict_iff_order sorted_wrt_nth_less)

declare tag_search.simps [simp del]

lemma tag_search_spec:
  "sorted_wrt (<) tags \<Longrightarrow> e \<le> length tags \<Longrightarrow> \<forall>i < b. i < length tags \<longrightarrow> tags ! i < tag \<Longrightarrow> \<forall>i. e \<le> i \<and> i < length tags \<longrightarrow> tag < tags ! i \<Longrightarrow>
   \<exists>r. tag_search tags tag b e = Some r \<and>
     (case r of Some i \<Rightarrow> i < length tags \<and> tags ! i = tag | None \<Rightarrow> tag \<notin> set tags)"
proof (induction tags tag b e rule: tag_search.induct)
  case (1 tags tag b e)
  show ?case
  proof (cases "b < e")
    case False
    then have "tags ! i \<noteq> tag" if "i < length tags" for i using 1(5,6) that by (metis linorder_not_le order_less_irrefl order_trans)
    then have "tag \<notin> set tags" by (metis in_set_conv_nth)
    then show ?thesis using False by (subst tag_search.simps) simp
  next
    case True
    let ?m = "(b + e) div 2"
    have m: "b \<le> ?m" "?m < e" "?m < length tags" using True 1(4) by simp_all
    have g: "arr_get tags ?m = Some (tags ! ?m)" using m by simp
    consider "tags ! ?m = tag" | "tags ! ?m < tag" | "tag < tags ! ?m" by linarith
    then show ?thesis
    proof cases
      case 1
      then show ?thesis using True m by (subst tag_search.simps) (simp add: Let_def)
    next
      case 2
      have "\<forall>i < ?m + 1. i < length tags \<longrightarrow> tags ! i < tag"
        using 2 sorted_gap [OF 1(3) _ m(3)] by (metis Suc_eq_plus1 less_Suc_eq_le order_le_less_trans)
      with 1(1) [OF True refl g _ 2 1(3,4) _ 1(6)] 2 True m show ?thesis by (subst tag_search.simps) (simp add: Let_def)
    next
      case 3
      have "\<forall>i. ?m \<le> i \<and> i < length tags \<longrightarrow> tag < tags ! i"
        using 3 sorted_gap [OF 1(3)] by (meson order_less_le_trans)
      with 1(2) [OF True refl g _ _ 1(3) _ 1(5)] 3 True m show ?thesis by (subst tag_search.simps) (auto simp: Let_def)
    qed
  qed
qed

lemma tag_search_find:
  assumes "sorted_wrt (<) (map g xs)"
  shows "\<exists>r. tag_search (map g xs) tag 0 (length xs) = Some r \<and>
    (case r of None \<Rightarrow> None | Some i \<Rightarrow> arr_get xs i) = find (\<lambda>x. g x = tag) xs \<and> (\<forall>i. r = Some i \<longrightarrow> i < length xs)"
proof -
  obtain r where r: "tag_search (map g xs) tag 0 (length xs) = Some r"
    "case r of Some i \<Rightarrow> i < length (map g xs) \<and> map g xs ! i = tag | None \<Rightarrow> tag \<notin> set (map g xs)"
    using tag_search_spec [OF assms, of "length xs" 0 tag] by auto
  show ?thesis
  proof (cases r)
    case None
    then have "find (\<lambda>x. g x = tag) xs = None" using r by (auto simp: find_None_iff)
    then show ?thesis using r None by simp
  next
    case (Some i)
    have "find (\<lambda>x. g x = tag) xs = Some (xs ! i)"
      unfolding find_Some_iff using r(2) Some assms
      by (intro exI [of _ i]) (fastforce simp: sorted_wrt_iff_nth_less)
    then show ?thesis using r Some by simp
  qed
qed

section \<open>Imported fields\<close>

text \<open>Later states of the pool.\<close>

definition grows :: "pool \<Rightarrow> pool \<Rightarrow> bool" where
  "grows p p' \<longleftrightarrow> pool_ok p' \<and> (\<forall>c. extent p c \<le> extent p' c)"

lemma grows_refl [simp]: "grows p p \<longleftrightarrow> pool_ok p"
  by (simp add: grows_def)

lemma grows_trans: "grows p q \<Longrightarrow> grows q r \<Longrightarrow> grows p r"
  by (auto simp: grows_def intro: order_trans)

lemma grows_before: "before p a \<Longrightarrow> grows p q \<Longrightarrow> before q a"
  by (auto simp: grows_def before_mono)

lemma grows_after: "after q a \<Longrightarrow> grows p q \<Longrightarrow> after p a"
  by (auto simp: grows_def after_def intro: order_trans)

lemma alloc_grows: "pool_alloc p sz = (a, p') \<Longrightarrow> pool_ok p \<Longrightarrow> grows p p'"
  using pool_alloc_spec by (auto simp: grows_def)

lemma import_string_spec:
  "import_string data stream pl = Some (nm, pl') \<Longrightarrow> pool_ok pl \<Longrightarrow> grows pl pl' \<and> after pl (fst nm) \<and> before pl' (fst nm)"
proof -
  assume i: "import_string data stream pl = Some (nm, pl')" and ok: "pool_ok pl"
  then obtain sz a where a: "pool_alloc pl (unat (sz + 1)) = (a, pl')" "fst nm = a" "sz + 1 \<noteq> (0 :: u32)"
    by (auto simp: import_string_def split: bind_splits prod.splits if_splits)
  then have "0 < unat (sz + 1)" by (simp add: unat_gt_0)
  then show ?thesis using a pool_alloc_spec [OF a(1) ok] alloc_grows [OF a(1) ok] by (simp add: before_def)
qed

text \<open>A field while it is imported, and when it is complete.\<close>

definition field_inv :: "nat \<Rightarrow> int \<Rightarrow> int \<Rightarrow> field_desc \<Rightarrow> bool" where
  "field_inv type_n tag arr f \<longleftrightarrow>
     (arr = 0 \<or> arr = 0x80) \<and> -1 \<le> f_type f \<and> f_type f \<le> 4 \<and> f_tag f < 0x7FFF \<and> (tag < 2 \<longrightarrow> f_st f = None) \<and>
     (f_type f = 4 \<longleftrightarrow> f_st f \<noteq> None) \<and> (\<forall>i. f_st f = Some i \<longrightarrow> i < type_n)"

lemma toword_less: "toword data p = Some v \<Longrightarrow> v < 65536"
proof -
  assume "toword data p = Some v"
  then obtain a b :: u8 where v: "v = unat a + 256 * unat b" by (auto simp: toword_def split: bind_splits)
  have "unat a < 256" "unat b < 256" using unsigned_less [of a] unsigned_less [of b] by simp_all
  then show "v < 65536" unfolding v by simp
qed

lemma import_entry_inv:
  assumes "import_entry type_n tag value (arr, f) = Some (Some (arr', f'))" and "field_inv type_n (tag - 1) arr f" "0 < tag"
    and "0 \<le> value" "value < 0x7FFF"
  shows "field_inv type_n tag arr' f' \<and> f_name f' = f_name f"
proof -
  note inv = assms(2) [unfolded field_inv_def]
  note e = assms(1) [unfolded import_entry_def prod.case]
  consider "tag = 1" | "tag = 2" "f_type f = 0" | "tag = 2" "f_type f = 2" | "tag = 2" "f_type f \<noteq> 0" "f_type f \<noteq> 2"
    | "tag = 3" | "tag = 4" | "tag = 5" | "tag > 5" using assms(3) by linarith
  then show ?thesis
  proof cases
    case 1
    then show ?thesis using e inv assms(4) by (auto simp: field_inv_def SPROTO_TSTRUCT_def split: if_splits)
  next
    case 2
    then show ?thesis using e inv by (auto simp: field_inv_def SPROTO_TINTEGER_def split: bind_splits)
  next
    case 3
    then show ?thesis using e inv by (auto simp: field_inv_def SPROTO_TINTEGER_def SPROTO_TSTRING_def)
  next
    case 4
    then show ?thesis using e inv assms(4) by (auto simp: field_inv_def SPROTO_TINTEGER_def SPROTO_TSTRING_def SPROTO_TSTRUCT_def split: if_splits)
  next
    case 5
    then show ?thesis using e inv assms(5) by (auto simp: field_inv_def)
  next
    case 6
    then show ?thesis using e inv by (auto simp: field_inv_def SPROTO_TARRAY_def split: if_splits)
  next
    case 7
    then show ?thesis using e inv by (auto simp: field_inv_def)
  next
    case 8
    then show ?thesis using e by simp
  qed
qed

lemma import_field_loop_inv:
  "import_field_loop type_n data content es tag (arr, f) pl = Some (Some ((arr', f'), pl')) \<Longrightarrow> pool_ok pl \<Longrightarrow> -1 \<le> tag \<Longrightarrow>
   field_inv type_n tag arr f \<Longrightarrow>
   field_inv type_n 6 arr' f' \<and> grows pl pl' \<and>
     (f_name f' = f_name f \<or> (\<exists>nm. f_name f' = Some nm \<and> after pl (fst nm) \<and> before pl' (fst nm)))"
proof (induction es arbitrary: tag arr f pl)
  case Nil
  then show ?case by (auto simp: field_inv_def)
next
  case (Cons e es)
  obtain v where v: "toword data e = Some v" using Cons.prems(1) by (auto split: bind_splits)
  note run = Cons.prems(1) [simplified, unfolded v, simplified]
  have keep: "field_inv type_n t arr f" if "tag \<le> t" for t using Cons.prems(4) that by (auto simp: field_inv_def)
  show ?case
  proof (cases "odd v")
    case True
    then show ?thesis using Cons.IH [OF _ Cons.prems(2) _ keep] run Cons.prems(3) by simp
  next
    case ev: False
    show ?thesis
    proof (cases "tag + 1 = 0")
      case True
      then have t: "tag = -1" by simp
      obtain nm pl1 where s: "v = 0" "import_string data content pl = Some (nm, pl1)"
        "import_field_loop type_n data content es 0 (arr, f\<lparr>f_name := Some nm\<rparr>) pl1 = Some (Some ((arr', f'), pl'))"
        using run ev t by (auto split: if_splits bind_splits)
      note n = import_string_spec [OF s(2) Cons.prems(2)]
      have "field_inv type_n 0 arr (f\<lparr>f_name := Some nm\<rparr>)" using keep [of 0] t by (simp add: field_inv_def)
      from Cons.IH [OF s(3) _ _ this] n have r: "field_inv type_n 6 arr' f'" "grows pl1 pl'"
        "f_name f' = Some nm \<or> (\<exists>nm. f_name f' = Some nm \<and> after pl1 (fst nm) \<and> before pl' (fst nm))" by (auto simp: grows_def)
      have "\<exists>nm. f_name f' = Some nm \<and> after pl (fst nm) \<and> before pl' (fst nm)"
        using r(2,3) n by (meson grows_after grows_before)
      then show ?thesis using r n grows_trans by blast
    next
      case False
      then have tg: "0 < tag + 1" using Cons.prems(3) by simp
      obtain a1 f1 where s: "v \<noteq> 0" "import_entry type_n (tag + 1) (int v div 2 - 1) (arr, f) = Some (Some (a1, f1))"
        "import_field_loop type_n data content es (tag + 1) (a1, f1) pl = Some (Some ((arr', f'), pl'))"
        using run ev False by (auto split: if_splits bind_splits option.splits)
      have vb: "0 \<le> int v div 2 - 1" "int v div 2 - 1 < 0x7FFF" using s(1) ev toword_less [OF v] by presburger+
      have i: "field_inv type_n (tag + 1 - 1) arr f" using Cons.prems(4) by simp
      from import_entry_inv [OF s(2) i tg vb] have "field_inv type_n (tag + 1) a1 f1" "f_name f1 = f_name f" by simp_all
      then show ?thesis using Cons.IH [OF s(3) Cons.prems(2)] Cons.prems(3) by simp
    qed
  qed
qed

text \<open>The type of a field without the array flag is one of the five, a struct has the index of an existing type, and the
  tag fits the entries of a message.\<close>

definition wf_field :: "nat \<Rightarrow> field_desc \<Rightarrow> bool" where
  "wf_field type_n f \<longleftrightarrow>
     (\<exists>t. 0 \<le> t \<and> t \<le> SPROTO_TSTRUCT \<and> (f_type f = t \<or> f_type f = SPROTO_TARRAY + t) \<and>
        (case f_st f of None \<Rightarrow> t \<noteq> SPROTO_TSTRUCT | Some i \<Rightarrow> t = SPROTO_TSTRUCT \<and> i < type_n)) \<and>
     0 \<le> f_tag f \<and> f_tag f < 0x7FFF \<and> f_name f \<noteq> None"

lemma or_array: "0 \<le> (t :: int) \<Longrightarrow> t \<le> 4 \<Longrightarrow> arr = 0 \<or> arr = 0x80 \<Longrightarrow> t OR arr = t \<or> t OR arr = 0x80 + t"
proof -
  assume "0 \<le> t" "t \<le> 4" "arr = 0 \<or> arr = 0x80"
  then have "t = 0 \<or> t = 1 \<or> t = 2 \<or> t = 3 \<or> t = 4" by presburger
  then show ?thesis using \<open>arr = 0 \<or> arr = 0x80\<close> by auto
qed

lemma import_field_spec:
  assumes i: "import_field type_n data stream pl = Some (Some (f, stream', pl'))" and ok: "pool_ok pl"
  shows "wf_field type_n f \<and> grows pl pl' \<and> (\<exists>nm. f_name f = Some nm \<and> after pl (fst nm) \<and> before pl' (fst nm))"
proof -
  let ?f0 = "\<lparr>f_tag = -1, f_type = -1, f_name = None, f_st = None, f_key = -1, f_extra = 0\<rparr>"
  obtain content es arr f1 where l: "import_field_loop type_n data content es (-1) (0, ?f0) pl = Some (Some ((arr, f1), pl'))"
    and f: "\<not> (f_tag f1 < 0 \<or> f_type f1 < 0 \<or> f_name f1 = None)" "f = f1\<lparr>f_type := f_type f1 OR arr\<rparr>"
    using i unfolding import_field_def Let_def by (auto split: bind_splits option.splits if_splits)
  have "field_inv type_n (-1) 0 ?f0" by (simp add: field_inv_def)
  from import_field_loop_inv [OF l ok _ this] have r: "field_inv type_n 6 arr f1" "grows pl pl'"
    "f_name f1 = None \<or> (\<exists>nm. f_name f1 = Some nm \<and> after pl (fst nm) \<and> before pl' (fst nm))" by simp_all
  have t: "0 \<le> f_type f1" "f_type f1 \<le> 4" "arr = 0 \<or> arr = 0x80" using r(1) f(1) by (simp_all add: field_inv_def)
  have "wf_field type_n f" unfolding wf_field_def
    using r(1) f t or_array [OF t] by (intro conjI exI [of _ "f_type f1"]) (auto simp: field_inv_def SPROTO_TSTRUCT_def SPROTO_TARRAY_def split: option.splits)
  then show ?thesis using r(2,3) f by auto
qed

section \<open>Imported types\<close>

fun ascending :: "int \<Rightarrow> field_desc list \<Rightarrow> bool" where
  "ascending l [] \<longleftrightarrow> True"
| "ascending l (f # fs) \<longleftrightarrow> l < f_tag f \<and> ascending (f_tag f) fs"

text \<open>How many entries of a message say that tags are skipped, when all fields are there.\<close>

fun gaps :: "int \<Rightarrow> field_desc list \<Rightarrow> nat" where
  "gaps l [] = 0"
| "gaps l (f # fs) = (if f_tag f > l + 1 then 1 else 0) + gaps (f_tag f) fs"

lemma ascending_sorted: "ascending l fs \<longleftrightarrow> (\<forall>f \<in> set fs. l < f_tag f) \<and> sorted_wrt (<) (map f_tag fs)"
  by (induction fs arbitrary: l) (auto intro: less_trans)

definition name_addr :: "field_desc \<Rightarrow> pool_addr" where
  "name_addr f = fst (the (f_name f))"

definition wf_type :: "nat \<Rightarrow> sproto_type \<Rightarrow> bool" where
  "wf_type type_n t \<longleftrightarrow>
     (\<forall>f \<in> set (t_f t). wf_field type_n f) \<and> ascending (-1) (t_f t) \<and> distinct (map name_addr (t_f t)) \<and>
     t_maxn t = length (t_f t) + gaps (-1) (t_f t) \<and>
     (0 \<le> t_base t \<longrightarrow> (\<forall>i < length (t_f t). f_tag (t_f t ! i) = t_base t + int i))"

lemma import_fields_spec:
  "import_fields type_n data n stream fs l m pl = Some (Some (fs', m', pl')) \<Longrightarrow> pool_ok pl \<Longrightarrow>
   \<exists>new. fs' = fs @ new \<and> length new = n \<and> ascending l new \<and> m' = m + gaps l new \<and> (\<forall>f \<in> set new. wf_field type_n f) \<and> grows pl pl' \<and>
     (\<forall>f \<in> set new. after pl (name_addr f) \<and> before pl' (name_addr f)) \<and> distinct (map name_addr new)"
proof (induction n arbitrary: stream fs l m pl)
  case 0
  then show ?case by simp
next
  case (Suc n)
  obtain f st1 pl1 where i: "import_field type_n data stream pl = Some (Some (f, st1, pl1))" and l: "l < f_tag f"
    and run: "import_fields type_n data n st1 (fs @ [f]) (f_tag f) (if f_tag f > l + 1 then m + 1 else m) pl1 = Some (Some (fs', m', pl'))"
    using Suc.prems(1) by (auto split: bind_splits option.splits if_splits)
  have f: "wf_field type_n f" "grows pl pl1" "after pl (name_addr f)" "before pl1 (name_addr f)"
    using import_field_spec [OF i Suc.prems(2)] by (auto simp: name_addr_def)
  then have "pool_ok pl1" by (simp add: grows_def)
  from Suc.IH [OF run this] obtain new where n: "fs' = (fs @ [f]) @ new" "length new = n" "ascending (f_tag f) new"
    "m' = (if f_tag f > l + 1 then m + 1 else m) + gaps (f_tag f) new" "\<forall>f \<in> set new. wf_field type_n f" "grows pl1 pl'"
    "\<forall>f \<in> set new. after pl1 (name_addr f) \<and> before pl' (name_addr f)" "distinct (map name_addr new)" by blast
  have "name_addr f \<noteq> name_addr g" if "g \<in> set new" for g using alloc_fresh [OF f(4)] n(7) that by blast
  then have "distinct (map name_addr (f # new))" using n(8) by auto
  moreover have "\<forall>g \<in> set (f # new). after pl (name_addr g) \<and> before pl' (name_addr g)"
  proof
    fix g assume "g \<in> set (f # new)"
    then consider "g = f" | "g \<in> set new" by auto
    then show "after pl (name_addr g) \<and> before pl' (name_addr g)"
      by cases (use f n(6,7) grows_before grows_after in blast)+
  qed
  ultimately show ?case using n f l grows_trans [OF f(2) n(6)] by (intro exI [of _ "f # new"]) simp
qed

lemma ascending_steps:
  "sorted_wrt (<) (xs :: int list) \<Longrightarrow> i + k < length xs \<Longrightarrow> xs ! i + int k \<le> xs ! (i + k)"
proof (induction k)
  case 0
  then show ?case by simp
next
  case (Suc k)
  have "xs ! (i + k) < xs ! (i + Suc k)" using sorted_wrt_nth_less [OF Suc.prems(1)] Suc.prems(2) by simp
  then show ?case using Suc by simp
qed

lemma consecutive:
  assumes s: "sorted_wrt (<) (xs :: int list)" and l: "xs ! (length xs - 1) - xs ! 0 + 1 = int (length xs)" and i: "i < length xs"
  shows "xs ! i = xs ! 0 + int i"
proof -
  have "xs ! 0 + int i \<le> xs ! i" using ascending_steps [OF s, of 0 i] i by simp
  moreover have "xs ! i + int (length xs - 1 - i) \<le> xs ! (length xs - 1)" using ascending_steps [OF s, of i "length xs - 1 - i"] i by simp
  ultimately show ?thesis using l i by linarith
qed

lemma import_type_fields_spec:
  assumes i: "import_type_fields type_n data t second pl1 = Some (Some (t', pl'))" and ok: "pool_ok pl1"
  shows "wf_type type_n t' \<and> grows pl1 pl'"
proof -
  obtain n fa pl2 fs maxn f0 fl where a: "pool_alloc pl1 (32 * n) = (fa, pl2)"
    and f: "import_fields type_n data n (second + SIZEOF_LENGTH) [] (-1) n pl2 = Some (Some (fs, maxn, pl'))"
    and f0: "arr_get fs 0 = Some f0" and fl: "arr_get fs (n - 1) = Some fl"
    and t: "t' = t\<lparr>t_base := if f_tag fl - f_tag f0 + 1 \<noteq> int n then -1 else f_tag f0, t_maxn := maxn, t_f := fs\<rparr>"
    using i unfolding import_type_fields_def Let_def by (auto split: bind_splits option.splits prod.splits simp del: arr_get_Some)
  have g2: "grows pl1 pl2" by (rule alloc_grows [OF a ok])
  then have "pool_ok pl2" by (simp add: grows_def)
  from import_fields_spec [OF f this] have n: "length fs = n" "ascending (-1) fs" "maxn = n + gaps (-1) fs" "\<forall>f \<in> set fs. wf_field type_n f"
    "grows pl2 pl'" "distinct (map name_addr fs)" by auto
  have srt: "sorted_wrt (<) (map f_tag fs)" using n(2) by (simp add: ascending_sorted)
  have "\<forall>i < length fs. f_tag (fs ! i) = t_base t' + int i" if "0 \<le> t_base t'"
  proof -
    have b: "f_tag fl - f_tag f0 + 1 = int n" "t_base t' = f_tag f0" using that t by (auto split: if_splits)
    have z: "fs ! 0 = f0" "fs ! (n - 1) = fl" "0 < length fs" using f0 fl by auto
    show ?thesis
    proof (intro allI impI)
      fix i assume "i < length fs"
      then show "f_tag (fs ! i) = t_base t' + int i" using consecutive [OF srt, of i] b n(1) z by (simp add: nth_map)
    qed
  qed
  then show ?thesis using n t grows_trans [OF g2 n(5)] by (simp add: wf_type_def)
qed

lemma import_type_spec:
  assumes i: "import_type type_n data stream pl = Some (Some (t, stream', pl'))" and ok: "pool_ok pl"
  shows "wf_type type_n t \<and> grows pl pl'"
proof -
  consider name content pl1 where "import_string data content pl = Some (name, pl1)" "t = \<lparr>t_name = name, t_base = 0, t_maxn = 0, t_f = []\<rparr>" "pl1 = pl'"
    | name content pl1 t0 second where "import_string data content pl = Some (name, pl1)" "import_type_fields type_n data t0 second pl1 = Some (Some (t, pl'))"
    using i unfolding import_type_def Let_def by (auto split: bind_splits option.splits if_splits)
  then show ?thesis
  proof cases
    case 1
    then show ?thesis using import_string_spec [OF 1(1) ok] by (simp add: wf_type_def)
  next
    case 2
    have g: "grows pl pl1" using import_string_spec [OF 2(1) ok] by simp
    then have "pool_ok pl1" by (simp add: grows_def)
    from import_type_fields_spec [OF 2(2) this] show ?thesis using grows_trans [OF g] by blast
  qed
qed

lemma import_types_spec:
  "import_types type_n data n stream ts pl = Some (Some (ts', pl')) \<Longrightarrow> pool_ok pl \<Longrightarrow> \<forall>t \<in> set ts. wf_type type_n t \<Longrightarrow>
   (\<forall>t \<in> set ts'. wf_type type_n t) \<and> length ts' = length ts + n \<and> pool_ok pl'"
proof (induction n arbitrary: stream ts pl)
  case 0
  then show ?case by simp
next
  case (Suc n)
  obtain t st1 pl1 where i: "import_type type_n data stream pl = Some (Some (t, st1, pl1))"
    and run: "import_types type_n data n st1 (ts @ [t]) pl1 = Some (Some (ts', pl'))"
    using Suc.prems(1) by (auto split: bind_splits option.splits)
  have w: "wf_type type_n t" "pool_ok pl1" using import_type_spec [OF i Suc.prems(2)] by (simp_all add: grows_def)
  have "\<forall>u \<in> set (ts @ [t]). wf_type type_n u" using w(1) Suc.prems(3) by auto
  from Suc.IH [OF run w(2) this] show ?case by simp
qed

section \<open>Imported protocols\<close>

definition proto_types :: "nat \<Rightarrow> protocol \<Rightarrow> bool" where
  "proto_types type_n p \<longleftrightarrow> (\<forall>i. p_request p = Some i \<or> p_response p = Some i \<longrightarrow> i < type_n)"

definition wf_protocol :: "nat \<Rightarrow> protocol \<Rightarrow> bool" where
  "wf_protocol type_n p \<longleftrightarrow> 0 \<le> p_tag p \<and> p_name p \<noteq> None \<and> proto_types type_n p"

lemma proto_types_update [simp]:
  "proto_types n (p\<lparr>p_name := a\<rparr>) = proto_types n p" "proto_types n (p\<lparr>p_tag := v\<rparr>) = proto_types n p"
  "proto_types n (p\<lparr>p_confirm := v\<rparr>) = proto_types n p"
  "proto_types n p \<Longrightarrow> i < n \<Longrightarrow> proto_types n (p\<lparr>p_request := Some i\<rparr>)"
  "proto_types n p \<Longrightarrow> i < n \<Longrightarrow> proto_types n (p\<lparr>p_response := Some i\<rparr>)"
  by (auto simp: proto_types_def)

lemma import_protocol_loop_spec:
  "import_protocol_loop type_n data content es p pl = Some (Some (p', pl')) \<Longrightarrow> pool_ok pl \<Longrightarrow> proto_types type_n p \<Longrightarrow>
   proto_types type_n p' \<and> pool_ok pl'"
proof (induction es arbitrary: p pl)
  case Nil
  then show ?case by simp
next
  case (Cons ie es)
  obtain i e where ie: "ie = (i, e)" by fastforce
  obtain v where v: "toword data e = Some v" using Cons.prems(1) ie by (auto split: bind_splits)
  note run = Cons.prems(1) [unfolded ie, simplified, unfolded v, simplified]
  have "\<exists>p1 pl1. import_protocol_loop type_n data content es p1 pl1 = Some (Some (p', pl')) \<and> pool_ok pl1 \<and> proto_types type_n p1"
  proof (cases "even v \<and> i = 0")
    case True
    then obtain nm pl1 where s: "import_string data content pl = Some (nm, pl1)"
      "import_protocol_loop type_n data content es (p\<lparr>p_name := Some nm\<rparr>) pl1 = Some (Some (p', pl'))"
      using run by (auto split: if_splits bind_splits)
    have "pool_ok pl1" using import_string_spec [OF s(1) Cons.prems(2)] by (simp add: grows_def)
    moreover have "proto_types type_n (p\<lparr>p_name := Some nm\<rparr>)" using Cons.prems(3) by simp
    ultimately show ?thesis using s(2) by blast
  next
    case False
    have "\<exists>p1. import_protocol_loop type_n data content es p1 pl = Some (Some (p', pl')) \<and> proto_types type_n p1"
    proof -
      consider "odd v" | "even v" "i = 1" | "even v" "i = 2" | "even v" "i = 3" | "even v" "i = 4" | "even v" "i > 4" using False by linarith
      then show ?thesis
      proof cases
        case 1
        then show ?thesis using run Cons.prems(3) by auto
      next
        case 2
        then show ?thesis using run Cons.prems(3) by (intro exI [of _ "p\<lparr>p_tag := int v div 2 - 1\<rparr>"]) (auto split: if_splits)
      next
        case 3
        then show ?thesis using run Cons.prems(3) by (intro exI [of _ "p\<lparr>p_request := Some (nat (int v div 2 - 1))\<rparr>"]) (auto split: if_splits)
      next
        case 4
        then show ?thesis using run Cons.prems(3) by (intro exI [of _ "p\<lparr>p_response := Some (nat (int v div 2 - 1))\<rparr>"]) (auto split: if_splits)
      next
        case 5
        then show ?thesis using run Cons.prems(3) by (intro exI [of _ "p\<lparr>p_confirm := int v div 2 - 1\<rparr>"]) simp
      next
        case 6
        then show ?thesis using run by simp
      qed
    qed
    then show ?thesis using Cons.prems(2) by blast
  qed
  then show ?case using Cons.IH by blast
qed

lemma import_protocol_spec:
  assumes "import_protocol type_n data stream pl = Some (Some (p, stream', pl'))" and "pool_ok pl"
  shows "wf_protocol type_n p \<and> pool_ok pl'"
proof -
  obtain content es where l: "import_protocol_loop type_n data content es
      \<lparr>p_name = None, p_tag = -1, p_confirm = 0, p_request = None, p_response = None\<rparr> pl = Some (Some (p, pl'))"
    and "p_name p \<noteq> None" "0 \<le> p_tag p"
    using assms(1) unfolding import_protocol_def Let_def by (auto split: bind_splits option.splits if_splits)
  then show ?thesis using import_protocol_loop_spec [OF l assms(2)] by (simp add: wf_protocol_def proto_types_def)
qed

lemma import_protocols_spec:
  "import_protocols type_n data n stream ps pl = Some (Some (ps', pl')) \<Longrightarrow> pool_ok pl \<Longrightarrow> \<forall>p \<in> set ps. wf_protocol type_n p \<Longrightarrow>
   \<forall>p \<in> set ps'. wf_protocol type_n p"
proof (induction n arbitrary: stream ps pl)
  case 0
  then show ?case by simp
next
  case (Suc n)
  obtain p st1 pl1 where i: "import_protocol type_n data stream pl = Some (Some (p, st1, pl1))"
    and run: "import_protocols type_n data n st1 (ps @ [p]) pl1 = Some (Some (ps', pl'))"
    using Suc.prems(1) by (auto split: bind_splits option.splits)
  have w: "wf_protocol type_n p" "pool_ok pl1" using import_protocol_spec [OF i Suc.prems(2)] by simp_all
  have "\<forall>q \<in> set (ps @ [p]). wf_protocol type_n q" using w(1) Suc.prems(3) by auto
  from Suc.IH [OF run w(2) this] show ?case .
qed

section \<open>Imported bundles\<close>

lemma bundle_arrays_ok:
  "bundle_arrays data es content pl = Some (Some (xs, pl')) \<Longrightarrow> pool_ok pl \<Longrightarrow> pool_ok pl'"
proof (induction es arbitrary: content pl xs)
  case Nil
  then show ?case by simp
next
  case (Cons e es)
  then show ?case
    using alloc_grows by (fastforce simp: grows_def Let_def split: bind_splits option.splits if_splits prod.splits)
qed

lemma sproto_create_types:
  assumes "sproto_create data = Some (Some sp)"
  shows "(\<forall>t \<in> set (sp_type sp). wf_type (length (sp_type sp)) t) \<and> (\<forall>p \<in> set (sp_proto sp). wf_protocol (length (sp_type sp)) p)"
proof -
  let ?pl = "snd (pool_alloc pool_init 48)"
  have ok: "pool_ok ?pl" using alloc_grows [of pool_init 48 "fst (pool_alloc pool_init 48)" ?pl] by (simp add: grows_def)
  obtain es content xs pl1 type_n typedata protocol_n protocoldata ts pl2 ps pl3
    where a: "bundle_arrays data es content ?pl = Some (Some (xs, pl1))"
    and t: "import_types type_n data type_n typedata [] pl1 = Some (Some (ts, pl2))"
    and p: "import_protocols type_n data protocol_n protocoldata [] pl2 = Some (Some (ps, pl3))"
    and sp: "sp = \<lparr>sp_memory = pl3, sp_type = ts, sp_proto = ps\<rparr>"
    using assms unfolding sproto_create_def create_from_bundle_def
    by (auto simp: Let_def split: bind_splits option.splits if_splits prod.splits)
  have "(\<forall>t \<in> set ts. wf_type type_n t) \<and> length ts = type_n \<and> pool_ok pl2"
    using import_types_spec [OF t bundle_arrays_ok [OF a ok]] by simp
  then show ?thesis using import_protocols_spec [OF p] sp by simp
qed

text \<open>
  C33.  A schema that is created has only well-formed types and protocols: the tags of a type ascend, the names of its fields have
  different addresses, the header that is reserved for a message is large enough, and every index of a type exists.
\<close>

theorem sproto_create_wf:
  assumes "sproto_create data = Some (Some sp)"
  shows "(\<forall>t \<in> set (sp_type sp). wf_type (length (sp_type sp)) t) \<and> (\<forall>p \<in> set (sp_proto sp). wf_protocol (length (sp_type sp)) p)"
  by (rule sproto_create_types [OF assms])

text \<open>A bundle with the type \<open>a\<close> whose field \<open>x\<close> has the tag 0 and is an integer.\<close>

definition small_bundle :: "u8 list" where
  "small_bundle = [1, 0, 0, 0, 38, 0, 0, 0, 34, 0, 0, 0, 2, 0, 0, 0, 0, 0, 1, 0, 0, 0, 97, 19, 0, 0, 0, 15, 0, 0, 0,
     4, 0, 0, 0, 2, 0, 1, 0, 2, 0, 1, 0, 0, 0, 120]"

lemma small_bundle_sproto: "map_option (map_option sp_type) (sproto_create small_bundle) = Some (Some
   [\<lparr>t_name = ((0, 80), [97]), t_base = 0, t_maxn = 1,
     t_f = [\<lparr>f_tag = 0, f_type = 0, f_name = Some ((0, 120), [120]), f_st = None, f_key = -1, f_extra = 0\<rparr>]\<rparr>])"
  by code_simp

lemma sproto_create_wf_witness:
  "\<exists>sp. sproto_create small_bundle = Some (Some sp) \<and> length (sp_type sp) = 1 \<and> wf_type 1 (hd (sp_type sp))"
proof -
  obtain sp where sp: "sproto_create small_bundle = Some (Some sp)" "length (sp_type sp) = 1"
    using small_bundle_sproto by auto
  have "hd (sp_type sp) \<in> set (sp_type sp)" using sp(2) by (cases "sp_type sp") simp_all
  then show ?thesis using sproto_create_wf [OF sp(1)] sp by auto
qed

lemma wf_type_findtag: "wf_type n t \<Longrightarrow> findtag t tag = Some (find (\<lambda>f. f_tag f = tag) (t_f t))"
proof -
  assume w: "wf_type n t"
  then have srt: "sorted_wrt (<) (map f_tag (t_f t))" by (simp add: wf_type_def ascending_sorted)
  show ?thesis
  proof (cases "0 \<le> t_base t")
    case True
    then have c: "\<forall>i < length (t_f t). f_tag (t_f t ! i) = t_base t + int i" using w by (simp add: wf_type_def)
    show ?thesis
    proof (cases "tag - t_base t < 0 \<or> tag - t_base t \<ge> int (length (t_f t))")
      case out: True
      have "f_tag (t_f t ! i) \<noteq> tag" if "i < length (t_f t)" for i using c that out by auto
      then have "find (\<lambda>f. f_tag f = tag) (t_f t) = None" by (auto simp: find_None_iff in_set_conv_nth)
      then show ?thesis using True out by (auto simp: findtag_def)
    next
      case False
      let ?i = "nat (tag - t_base t)"
      have i: "?i < length (t_f t)" using False by linarith
      have "find (\<lambda>f. f_tag f = tag) (t_f t) = Some (t_f t ! ?i)"
        unfolding find_Some_iff using i c False by (intro exI [of _ ?i]) auto
      then show ?thesis using True False i by (simp add: findtag_def)
    qed
  next
    case False
    obtain r where r: "tag_search (map f_tag (t_f t)) tag 0 (length (t_f t)) = Some r"
      "(case r of None \<Rightarrow> None | Some i \<Rightarrow> arr_get (t_f t) i) = find (\<lambda>f. f_tag f = tag) (t_f t)" "\<forall>i. r = Some i \<longrightarrow> i < length (t_f t)"
      using tag_search_find [OF srt, of tag] by blast
    then show ?thesis unfolding r(2) [symmetric] using False by (cases r) (simp_all add: findtag_def)
  qed
qed

text \<open>
  C35.  In a schema that is created, looking up a tag, by offset or by binary search, finds what going through all fields of the
  type finds.
\<close>

theorem findtag_is_lookup:
  assumes "sproto_create data = Some (Some sp)" and "t \<in> set (sp_type sp)"
  shows "findtag t tag = Some (find (\<lambda>f. f_tag f = tag) (t_f t))"
  using sproto_create_types [OF assms(1)] assms(2) wf_type_findtag by blast

lemma findtag_is_lookup_witness:
  "\<exists>sp t. sproto_create small_bundle = Some (Some sp) \<and> sp_type sp = [t] \<and> findtag t 0 = Some (Some (hd (t_f t))) \<and> findtag t 1 = Some None"
proof -
  obtain sp t where sp: "sproto_create small_bundle = Some (Some sp)" "sp_type sp = [t]" "map f_tag (t_f t) = [0]"
    using small_bundle_sproto by (auto simp: map_option_case split: option.splits)
  then have "t \<in> set (sp_type sp)" by simp
  from findtag_is_lookup [OF sp(1) this] sp show ?thesis by auto
qed

lemma query_proto_is_lookup:
  "sorted_wrt (<) (map p_tag (sp_proto sp)) \<Longrightarrow> query_proto sp tag = Some (find (\<lambda>p. p_tag p = tag) (sp_proto sp))"
proof -
  assume "sorted_wrt (<) (map p_tag (sp_proto sp))"
  from tag_search_find [OF this, of tag] obtain r where r: "tag_search (map p_tag (sp_proto sp)) tag 0 (length (sp_proto sp)) = Some r"
    "(case r of None \<Rightarrow> None | Some i \<Rightarrow> arr_get (sp_proto sp) i) = find (\<lambda>p. p_tag p = tag) (sp_proto sp)" "\<forall>i. r = Some i \<longrightarrow> i < length (sp_proto sp)"
    by blast
  then show ?thesis unfolding r(2) [symmetric] by (cases r) (simp_all add: query_proto_def)
qed

text \<open>The import does not refuse protocols whose tags do not ascend, and the binary search then misses one of them.\<close>

lemma query_proto_unsorted:
  "\<exists>sp p. p \<in> set (sp_proto sp) \<and> p_tag p = 2 \<and> query_proto sp 2 = Some None"
proof -
  let ?p = "\<lambda>t. \<lparr>p_name = None, p_tag = t, p_confirm = 0, p_request = None, p_response = None\<rparr>"
  let ?sp = "\<lparr>sp_memory = pool_init, sp_type = [], sp_proto = [?p 2, ?p 1]\<rparr>"
  have "query_proto ?sp 2 = Some None" by code_simp
  then show ?thesis by (intro exI [of _ ?sp] exI [of _ "?p 2"]) simp
qed

text \<open>
  A type whose array of fields is empty is not refused: the first and the last field are read, where there is none.
\<close>

theorem import_empty_fields_overread:
  assumes "count_array data second = Some (Some 0)"
  shows "import_type_fields type_n data t second pl = None"
  using assms by (auto simp: import_type_fields_def Let_def arr_get_def split: prod.splits)

lemma import_empty_fields_overread_witness:
  "import_type_fields 1 [0, 0, 0, 0] \<lparr>t_name = ((0, 0), []), t_base = 0, t_maxn = 0, t_f = []\<rparr> 0 pool_init = None"
  by (rule import_empty_fields_overread) code_simp

end
