(* ===== verification/SprotoEncode.thy ===== *)
theory SprotoEncode
  imports SprotoMemory SprotoTypesProps
begin

text \<open>
  What \<open>sproto_encode\<close> writes: a function of the values of the fields alone.  The interface of the callback is a locale.
\<close>

section \<open>Messages\<close>

text \<open>The value of a field: a number the callback gives with eight bytes or with four, the bytes of a string or of a
  message, or an array of them.\<close>

datatype fval = Missing | Number bool u64 | Bytes "u8 list" | Numbers "(bool \<times> u64) list" | Bools "bool list" | Blobs "u8 list list"

definition number64 :: "bool \<Rightarrow> u64 \<Rightarrow> u64" where
  "number64 w u = (if w then u else expand64 (ucast u))"

definition any_wide :: "(bool \<times> u64) list \<Rightarrow> bool" where
  "any_wide xs \<longleftrightarrow> (\<exists>x \<in> set xs. fst x)"

definition narrow_bytes :: "(bool \<times> u64) list \<Rightarrow> u8 list" where
  "narrow_bytes xs = concat (map (\<lambda>x. dword_bytes (ucast (snd x))) xs)"

definition wide_bytes :: "(bool \<times> u64) list \<Rightarrow> u8 list" where
  "wide_bytes xs = concat (map (\<lambda>x. qword_bytes (number64 (fst x) (snd x))) xs)"

definition number_bytes :: "(bool \<times> u64) list \<Rightarrow> u8 list" where
  "number_bytes xs = (if any_wide xs then wide_bytes xs else narrow_bytes xs)"

definition numbers_data :: "(bool \<times> u64) list \<Rightarrow> u8 list" where
  "numbers_data xs = (if xs = [] then [] else (if any_wide xs then 8 else 4) # number_bytes xs)"

definition sized :: "u8 list \<Rightarrow> u8 list" where
  "sized bs = dword_bytes (of_nat (length bs)) @ bs"

definition bool_bytes :: "bool list \<Rightarrow> u8 list" where
  "bool_bytes bs = map (\<lambda>b. if b then 1 else 0) bs"

definition blobs_data :: "u8 list list \<Rightarrow> u8 list" where
  "blobs_data xs = concat (map sized xs)"

text \<open>The entry of a field and its data.\<close>

fun field_parts :: "fval \<Rightarrow> (int \<times> u8 list) option" where
  "field_parts Missing = None"
| "field_parts (Number w u) =
     (if w then Some (0, sized (qword_bytes u))
      else if (ucast u :: u32) < 0x7FFF then Some ((uint (ucast u :: u32) + 1) * 2, [])
      else Some (0, sized (dword_bytes (ucast u))))"
| "field_parts (Bytes bs) = Some (0, sized bs)"
| "field_parts (Numbers xs) = Some (0, sized (numbers_data xs))"
| "field_parts (Bools bs) = Some (0, sized (bool_bytes bs))"
| "field_parts (Blobs xs) = Some (0, sized (blobs_data xs))"

definition field_data :: "fval \<Rightarrow> u8 list" where
  "field_data v = (case field_parts v of None \<Rightarrow> [] | Some (x, d) \<Rightarrow> d)"

fun entry_words :: "(field_desc \<Rightarrow> fval) \<Rightarrow> int \<Rightarrow> field_desc list \<Rightarrow> int list" where
  "entry_words val l [] = []"
| "entry_words val l (f # fs) =
     (case field_parts (val f) of
        None \<Rightarrow> entry_words val l fs
      | Some (x, d) \<Rightarrow> (if f_tag f - l - 1 > 0 then [(f_tag f - l - 2) * 2 + 1] else []) @ x # entry_words val (f_tag f) fs)"

definition data_bytes :: "(field_desc \<Rightarrow> fval) \<Rightarrow> field_desc list \<Rightarrow> u8 list" where
  "data_bytes val fs = concat (map (\<lambda>f. field_data (val f)) fs)"

definition words_bytes :: "int list \<Rightarrow> u8 list" where
  "words_bytes ws = concat (map word_bytes ws)"

definition message :: "(field_desc \<Rightarrow> fval) \<Rightarrow> field_desc list \<Rightarrow> u8 list" where
  "message val fs =
     (let ws = entry_words val (-1) fs in word_bytes (int (length ws)) @ words_bytes ws @ data_bytes val fs)"

lemma number_bytes_Nil [simp]: "number_bytes [] = []" "narrow_bytes [] = []" "wide_bytes [] = []" "\<not> any_wide []"
  by (simp_all add: number_bytes_def narrow_bytes_def wide_bytes_def any_wide_def)

lemma any_wide_snoc [simp]: "any_wide (xs @ [x]) \<longleftrightarrow> any_wide xs \<or> fst x"
  by (auto simp: any_wide_def)

lemma narrow_snoc: "narrow_bytes (xs @ [x]) = narrow_bytes xs @ dword_bytes (ucast (snd x))"
  by (simp add: narrow_bytes_def)

lemma wide_snoc: "wide_bytes (xs @ [x]) = wide_bytes xs @ qword_bytes (number64 (fst x) (snd x))"
  by (simp add: wide_bytes_def)

lemma length_narrow [simp]: "length (narrow_bytes xs) = 4 * length xs"
  by (induction xs) (simp_all add: narrow_bytes_def)

lemma length_wide [simp]: "length (wide_bytes xs) = 8 * length xs"
  by (induction xs) (simp_all add: wide_bytes_def)

lemma length_number_bytes: "length (number_bytes xs) = (if any_wide xs then 8 else 4) * length xs"
  by (simp add: number_bytes_def)

lemma length_sized [simp]: "length (sized bs) = 4 + length bs"
  by (simp add: sized_def)

lemma length_words [simp]: "length (words_bytes ws) = 2 * length ws"
  by (induction ws) (simp_all add: words_bytes_def)

section \<open>Writing\<close>

lemma fill_size_spec:
  assumes "p + 4 \<le> length buf"
  obtains buf' where "fill_size buf p n = Some (n + 4, buf')" "same p 4 buf buf'" "has buf' p (dword_bytes (of_int n))"
proof -
  have "p + length (dword_bytes (of_int n)) \<le> length buf" using assms by simp
  from put_bytes_spec [OF this] obtain buf' where b: "put_bytes buf p (dword_bytes (of_int n)) = Some buf'" "same p 4 buf buf'"
    "has buf' p (dword_bytes (of_int n))" by auto
  then have "fill_size buf p n = Some (n + 4, buf')" by (simp add: fill_size_def SIZEOF_LENGTH_def)
  from that [OF this b(2,3)] show ?thesis .
qed

text \<open>The bytes were written behind the place of their size.\<close>

lemma fill_sized:
  assumes h: "has buf (p + 4) bs"
  obtains buf' where "fill_size buf p (int (length bs)) = Some (int (length (sized bs)), buf')" "same p 4 buf buf'" "has buf' p (sized bs)"
proof -
  have "p + 4 \<le> length buf" using h by (simp add: has_def)
  from fill_size_spec [OF this, of "int (length bs)"] obtain buf' where b: "fill_size buf p (int (length bs)) = Some (int (length bs) + 4, buf')"
    "same p 4 buf buf'" "has buf' p (dword_bytes (of_int (int (length bs))))" by blast
  have "has buf' (p + 4) bs" using has_same [OF h b(2)] by simp
  then have "has buf' p (sized bs)" using b(3) by (simp add: sized_def has_append)
  then show ?thesis using that b(1,2) by simp
qed

lemma encode_sized:
  assumes "p + nat z \<le> length buf" and "int (4 + length bs) \<le> z"
  obtains buf1 buf' where "put_bytes buf (p + 4) bs = Some buf1" "fill_size buf1 p (int (length bs)) = Some (int (length (sized bs)), buf')"
    "same p (nat z) buf buf'" "has buf' p (sized bs)"
proof -
  have "p + 4 + length bs \<le> length buf" using assms by linarith
  from put_bytes_spec [OF this] obtain buf1 where b: "put_bytes buf (p + 4) bs = Some buf1" "same (p + 4) (length bs) buf buf1" "has buf1 (p + 4) bs" .
  from fill_sized [OF b(3)] obtain buf' where c: "fill_size buf1 p (int (length bs)) = Some (int (length (sized bs)), buf')" "same p 4 buf1 buf'"
    "has buf' p (sized bs)" .
  have "same p (nat z) buf buf1" by (rule same_mono [OF b(2)]) (use assms in linarith)+
  moreover have "same p (nat z) buf1 buf'" by (rule same_mono [OF c(2)]) (use assms in linarith)+
  ultimately have "same p (nat z) buf buf'" by (rule same_trans)
  from that [OF b(1) c(1) this c(3)] show ?thesis .
qed

lemma encode_integer_spec:
  assumes "p + nat z \<le> length buf" and "0 \<le> z"
  shows "z < 8 \<and> encode_integer v buf p z = Some (-1, buf) \<or>
    (\<exists>buf'. 8 \<le> z \<and> encode_integer v buf p z = Some (8, buf') \<and> same p (nat z) buf buf' \<and> has buf' p (sized (dword_bytes v)))"
proof (cases "z < 8")
  case True
  then show ?thesis using assms(2) by (simp add: encode_integer_def SIZEOF_LENGTH_def)
next
  case False
  then have "int (4 + length (dword_bytes v)) \<le> z" by simp
  from encode_sized [OF assms(1) this] obtain buf1 buf' where b: "put_bytes buf (p + 4) (dword_bytes v) = Some buf1"
    "fill_size buf1 p (int (length (dword_bytes v))) = Some (int (length (sized (dword_bytes v))), buf')"
    "same p (nat z) buf buf'" "has buf' p (sized (dword_bytes v))" .
  then show ?thesis using False by (simp add: encode_integer_def SIZEOF_LENGTH_def)
qed

lemma encode_uint64_spec:
  assumes "p + nat z \<le> length buf" and "0 \<le> z"
  shows "z < 12 \<and> encode_uint64 v buf p z = Some (-1, buf) \<or>
    (\<exists>buf'. 12 \<le> z \<and> encode_uint64 v buf p z = Some (12, buf') \<and> same p (nat z) buf buf' \<and> has buf' p (sized (qword_bytes v)))"
proof (cases "z < 12")
  case True
  then show ?thesis using assms(2) by (simp add: encode_uint64_def SIZEOF_LENGTH_def)
next
  case False
  then have "int (4 + length (qword_bytes v)) \<le> z" by simp
  from encode_sized [OF assms(1) this] obtain buf1 buf' where b: "put_bytes buf (p + 4) (qword_bytes v) = Some buf1"
    "fill_size buf1 p (int (length (qword_bytes v))) = Some (int (length (sized (qword_bytes v))), buf')"
    "same p (nat z) buf buf'" "has buf' p (sized (qword_bytes v))" .
  then show ?thesis using False by (simp add: encode_uint64_def SIZEOF_LENGTH_def)
qed

text \<open>Widening the numbers of an array in place.\<close>

lemma widen_spec:
  assumes h: "has buf p (dword_bytes v)" and r: "p + 8 \<le> length buf"
  obtains buf' where "uint32_to_uint64 (v AND 0x80000000 \<noteq> 0) buf p = Some buf'" "same (p + 4) 4 buf buf'" "has buf' p (qword_bytes (expand64 v))"
proof -
  define t where "t = (if v AND 0x80000000 \<noteq> 0 then replicate 4 (0xFF :: u8) else replicate 4 0)"
  have lt: "length t = 4" by (simp add: t_def)
  then have "p + 4 + length t \<le> length buf" using r by simp
  from put_bytes_spec [OF this] lt obtain buf' where b: "put_bytes buf (p + 4) t = Some buf'" "same (p + 4) 4 buf buf'" "has buf' (p + 4) t" by metis
  have "has buf' p (dword_bytes v)" using has_same [OF h b(2)] by simp
  then have "has buf' p (qword_bytes (expand64 v))" unfolding dword_expand t_def [symmetric] has_append using b(3) by simp
  from that [OF _ b(2) this] show ?thesis using b(1) unfolding uint32_to_uint64_def t_def .
qed

lemma rearrange_spec:
  "\<not> any_wide xs \<Longrightarrow> has buf (h + 1) (narrow_bytes xs) \<Longrightarrow> h + 1 + 8 * length xs \<le> length buf \<Longrightarrow>
   \<exists>buf'. rearrange buf h (length xs) = Some buf' \<and> same (h + 1) (8 * length xs) buf buf' \<and> has buf' (h + 1) (wide_bytes xs)"
proof (induction xs arbitrary: buf rule: rev_induct)
  case Nil
  then show ?case by simp
next
  case (snoc x xs)
  let ?n = "length xs" let ?v = "ucast (snd x) :: u32" let ?q = "h + 1 + ?n * 8"
  have pre: "has buf (h + 1) (narrow_bytes xs)" and last: "has buf (h + 1 + 4 * ?n) (dword_bytes ?v)"
    using snoc.prems(2) by (simp_all add: narrow_snoc has_append)
  have room: "?q + 8 \<le> length buf" using snoc.prems(3) by simp
  have cp: "take 4 (drop (h + 1 + ?n * 4) buf) = dword_bytes ?v" using has_take_drop [OF last] by (simp add: mult.commute)
  have "?q + length (dword_bytes ?v) \<le> length buf" using room by simp
  from put_bytes_spec [OF this] obtain b1 where b1: "put_bytes buf ?q (dword_bytes ?v) = Some b1" "same ?q 4 buf b1" "has b1 ?q (dword_bytes ?v)" by auto
  have top: "arr_get b1 (?q + 3) = Some (ucast (drop_bit 24 ?v))" using has_list [OF b1(3), of 3] by (simp add: dword_bytes_def)
  have "?q + 8 \<le> length b1" using room same_length [OF b1(2)] by simp
  from widen_spec [OF b1(3) this] obtain b2 where b2: "uint32_to_uint64 (?v AND 0x80000000 \<noteq> 0) b1 ?q = Some b2" "same (?q + 4) 4 b1 b2"
    "has b2 ?q (qword_bytes (expand64 ?v))" .
  have s2: "same ?q 8 buf b2" by (rule same_trans [OF same_mono [OF b1(2)] same_mono [OF b2(2)]]) simp_all
  have pre2: "has b2 (h + 1) (narrow_bytes xs)" by (rule has_same [OF pre s2]) simp
  have "\<not> any_wide xs" "h + 1 + 8 * ?n \<le> length b2" using snoc.prems(1) room same_length [OF s2] by simp_all
  from snoc.IH [OF this(1) pre2 this(2)] obtain b3 where b3: "rearrange b2 h ?n = Some b3" "same (h + 1) (8 * ?n) b2 b3" "has b3 (h + 1) (wide_bytes xs)"
    by blast
  have run: "rearrange buf h (length (xs @ [x])) = Some b3"
    using cp b1(1) top b2(1) b3(1) room unfolding top_byte [symmetric] by simp
  have s3: "same (h + 1) (8 * length (xs @ [x])) buf b3" by (rule same_trans [OF same_mono [OF s2] same_mono [OF b3(2)]]) simp_all
  have "has b3 ?q (qword_bytes (expand64 ?v))" by (rule has_same [OF b2(3) b3(2)]) simp
  moreover have "fst x = False" using snoc.prems(1) by simp
  ultimately have "has b3 (h + 1) (wide_bytes (xs @ [x]))" using b3(3) by (simp add: wide_snoc has_append number64_def mult.commute)
  then show ?case using run s3 by blast
qed

section \<open>The interface of the callback\<close>

definition elem_type :: "field_desc \<Rightarrow> int" where
  "elem_type f = f_type f AND NOT SPROTO_TARRAY"

definition is_array :: "field_desc \<Rightarrow> bool" where
  "is_array f \<longleftrightarrow> f_type f AND SPROTO_TARRAY \<noteq> 0"

text \<open>The kind of value that a type has.\<close>

fun fits_array :: "int \<Rightarrow> fval \<Rightarrow> bool" where
  "fits_array t Missing \<longleftrightarrow> True"
| "fits_array t (Numbers xs) \<longleftrightarrow> t = SPROTO_TINTEGER \<or> t = SPROTO_TDOUBLE"
| "fits_array t (Bools xs) \<longleftrightarrow> t = SPROTO_TBOOLEAN"
| "fits_array t (Blobs xs) \<longleftrightarrow> t = SPROTO_TSTRING \<or> t = SPROTO_TSTRUCT"
| "fits_array t v \<longleftrightarrow> False"

fun fits_scalar :: "int \<Rightarrow> fval \<Rightarrow> bool" where
  "fits_scalar t Missing \<longleftrightarrow> True"
| "fits_scalar t (Number w u) \<longleftrightarrow> t = SPROTO_TINTEGER \<or> t = SPROTO_TDOUBLE \<and> w \<or> t = SPROTO_TBOOLEAN \<and> \<not> w \<and> (ucast u :: u32) < 0x7FFF"
| "fits_scalar t (Bytes bs) \<longleftrightarrow> t = SPROTO_TSTRING \<or> t = SPROTO_TSTRUCT"
| "fits_scalar t v \<longleftrightarrow> False"

definition fits :: "field_desc \<Rightarrow> fval \<Rightarrow> bool" where
  "fits f v \<longleftrightarrow> (if is_array f then fits_array (elem_type f) v else fits_scalar (elem_type f) v)"

lemma wf_field_type:
  assumes "wf_field n f"
  shows "is_array f \<and> f_type f = SPROTO_TARRAY + elem_type f \<or> \<not> is_array f \<and> f_type f = elem_type f"
    and "elem_type f = SPROTO_TINTEGER \<or> elem_type f = SPROTO_TBOOLEAN \<or> elem_type f = SPROTO_TSTRING \<or> elem_type f = SPROTO_TDOUBLE \<or>
      elem_type f = SPROTO_TSTRUCT"
proof -
  obtain t where t: "0 \<le> t" "t \<le> 4" "f_type f = t \<or> f_type f = 0x80 + t"
    using assms by (auto simp: wf_field_def SPROTO_TSTRUCT_def SPROTO_TARRAY_def)
  then have "t = 0 \<or> t = 1 \<or> t = 2 \<or> t = 3 \<or> t = 4" by presburger
  then show "is_array f \<and> f_type f = SPROTO_TARRAY + elem_type f \<or> \<not> is_array f \<and> f_type f = elem_type f"
    "elem_type f = SPROTO_TINTEGER \<or> elem_type f = SPROTO_TBOOLEAN \<or> elem_type f = SPROTO_TSTRING \<or> elem_type f = SPROTO_TDOUBLE \<or>
      elem_type f = SPROTO_TSTRUCT"
    using t(3) by (auto simp: is_array_def elem_type_def SPROTO_TARRAY_def SPROTO_TINTEGER_def SPROTO_TBOOLEAN_def SPROTO_TSTRING_def
        SPROTO_TDOUBLE_def SPROTO_TSTRUCT_def)
qed

lemmas sproto_type_defs = SPROTO_TINTEGER_def SPROTO_TBOOLEAN_def SPROTO_TSTRING_def SPROTO_TDOUBLE_def SPROTO_TSTRUCT_def

definition field_words :: "(field_desc \<Rightarrow> fval) \<Rightarrow> int \<Rightarrow> field_desc \<Rightarrow> int list" where
  "field_words val l f = (case field_parts (val f) of None \<Rightarrow> []
     | Some (x, d) \<Rightarrow> (if f_tag f - l - 1 > 0 then [(f_tag f - l - 2) * 2 + 1] else []) @ [x])"

definition next_tag :: "(field_desc \<Rightarrow> fval) \<Rightarrow> int \<Rightarrow> field_desc \<Rightarrow> int" where
  "next_tag val l f = (if field_parts (val f) = None then l else f_tag f)"

lemma entry_words_Cons: "entry_words val l (f # fs) = field_words val l f @ entry_words val (next_tag val l f) fs"
  by (auto simp: field_words_def next_tag_def split: option.splits)

lemma entry_words_length:
  "ascending prev fs \<Longrightarrow> l \<le> prev \<Longrightarrow> length (entry_words val l fs) \<le> length fs + gaps prev fs + (if l < prev then 1 else 0)"
proof (induction fs arbitrary: l prev)
  case Nil
  then show ?case by simp
next
  case (Cons f fs)
  then have t: "prev < f_tag f" "ascending (f_tag f) fs" by simp_all
  show ?case
  proof (cases "field_parts (val f)")
    case None
    have "length (entry_words val l fs) \<le> length fs + gaps (f_tag f) fs + 1" using Cons.IH [OF t(2), of l] t(1) Cons.prems(2) by simp
    then show ?thesis using None by simp
  next
    case (Some a)
    obtain x d where a: "a = (x, d)" by fastforce
    have "length (entry_words val (f_tag f) fs) \<le> length fs + gaps (f_tag f) fs" using Cons.IH [OF t(2), of "f_tag f"] by simp
    then show ?thesis using Some a Cons.prems(2) t(1) by auto
  qed
qed

text \<open>With this room a field, and with it all fields, never fail.\<close>

definition field_need :: "(field_desc \<Rightarrow> fval) \<Rightarrow> (field_desc \<Rightarrow> nat) \<Rightarrow> field_desc \<Rightarrow> nat" where
  "field_need val need f = (case val f of Missing \<Rightarrow> 8 | Number w u \<Rightarrow> 12 | Bytes bs \<Rightarrow> 4 + length bs + need f | Numbers xs \<Rightarrow> 5 + 8 * length xs
     | Bools bs \<Rightarrow> 4 + length bs | Blobs xs \<Rightarrow> 8 + length (blobs_data xs) + need f)"

definition fields_need :: "(field_desc \<Rightarrow> fval) \<Rightarrow> (field_desc \<Rightarrow> nat) \<Rightarrow> field_desc list \<Rightarrow> nat" where
  "fields_need val need fs = sum_list (map (field_need val need) fs)"

definition message_need :: "(field_desc \<Rightarrow> fval) \<Rightarrow> (field_desc \<Rightarrow> nat) \<Rightarrow> sproto_type \<Rightarrow> nat" where
  "message_need val need st = 2 + 2 * t_maxn st + fields_need val need (t_f st)"

text \<open>What the callback answers to a request for the bytes of an object: it writes only where it may, and fails only when the
  room is less than \<open>need\<close>.\<close>

definition writes :: "u8 list \<Rightarrow> nat \<Rightarrow> nat \<Rightarrow> nat \<Rightarrow> u8 list \<Rightarrow> bool \<Rightarrow> int \<times> u64 \<times> u8 list \<times> 's \<Rightarrow> bool" where
  "writes bs need p len buf next res \<longleftrightarrow> (case res of (r, u, buf', s') \<Rightarrow>
     same p len buf buf' \<and> (r = SPROTO_CB_ERROR \<and> len < need \<or> next \<and> r = int (length bs) \<and> length bs \<le> len \<and> has buf' p bs))"

text \<open>The callback gives the values \<open>val\<close>.  \<open>at fs s\<close>: in the state \<open>s\<close> the next field is the first of \<open>fs\<close>; \<open>within f fs i s\<close>: the
  next request is for the element \<open>i\<close> of the array \<open>f\<close>.\<close>

locale encode_source =
  fixes cb :: "'s enc_cb"
    and val :: "field_desc \<Rightarrow> fval"
    and at :: "field_desc list \<Rightarrow> 's \<Rightarrow> bool"
    and within :: "field_desc \<Rightarrow> field_desc list \<Rightarrow> nat \<Rightarrow> 's \<Rightarrow> bool"
    and need :: "field_desc \<Rightarrow> nat"
  assumes fitting: "at (f # fs) s \<Longrightarrow> fits f (val f)"
    and start: "at (f # fs) s \<Longrightarrow> is_array f \<Longrightarrow> within f fs 1 s"
    and missing: "at (f # fs) s \<Longrightarrow> \<not> is_array f \<Longrightarrow> val f = Missing \<Longrightarrow>
      \<exists>u s'. cb (field_arg f (f_type f) 0 v len) buf s = Some (SPROTO_CB_NIL, u, buf, s') \<and> at fs s'"
    and number: "at (f # fs) s \<Longrightarrow> \<not> is_array f \<Longrightarrow> val f = Number w n \<Longrightarrow>
      \<exists>u s'. cb (field_arg f (f_type f) 0 (Local 0) 8) buf s = Some (if w then 8 else 4, u, buf, s') \<and>
        (if w then u = n else (ucast u :: u32) = ucast n) \<and> at fs s'"
    and object: "at (f # fs) s \<Longrightarrow> \<not> is_array f \<Longrightarrow> val f = Bytes bs \<Longrightarrow> p + room \<le> length buf \<Longrightarrow>
      \<exists>r u buf' s'. cb (field_arg f (f_type f) 0 (At p) (int room)) buf s = Some (r, u, buf', s') \<and>
        writes bs (need f) p room buf (at fs s') (r, u, buf', s')"
    and no_array: "within f fs 1 s \<Longrightarrow> val f = Missing \<Longrightarrow>
      \<exists>u s'. cb (field_arg f (elem_type f) 1 v len) buf s = Some (SPROTO_CB_NOARRAY, u, buf, s') \<and> at fs s'"
    and numbers: "within f fs i s \<Longrightarrow> val f = Numbers xs \<Longrightarrow> 1 \<le> i \<Longrightarrow> i \<le> length xs \<Longrightarrow> xs ! (i - 1) = (w, n) \<Longrightarrow>
      \<exists>u s'. cb (field_arg f (elem_type f) (int i) (Local 0) 8) buf s = Some (if w then 8 else 4, u, buf, s') \<and>
        (if w then u = n else (ucast u :: u32) = ucast n) \<and> within f fs (i + 1) s'"
    and bools: "within f fs i s \<Longrightarrow> val f = Bools qs \<Longrightarrow> 1 \<le> i \<Longrightarrow> i \<le> length qs \<Longrightarrow>
      \<exists>r u s'. cb (field_arg f (elem_type f) (int i) (Local 0) 4) buf s = Some (r, u, buf, s') \<and> 0 \<le> r \<and>
        ((ucast u :: u32) \<noteq> 0 \<longleftrightarrow> qs ! (i - 1)) \<and> within f fs (i + 1) s'"
    and blobs: "within f fs i s \<Longrightarrow> val f = Blobs ys \<Longrightarrow> 1 \<le> i \<Longrightarrow> i \<le> length ys \<Longrightarrow> p + room \<le> length buf \<Longrightarrow>
      \<exists>r u buf' s'. cb (field_arg f (elem_type f) (int i) (At p) (int room)) buf s = Some (r, u, buf', s') \<and>
        writes (ys ! (i - 1)) (need f) p room buf (within f fs (i + 1) s') (r, u, buf', s')"
    and array_end: "within f fs i s \<Longrightarrow> (case val f of Numbers xs \<Rightarrow> i = length xs + 1 | Bools qs \<Rightarrow> i = length qs + 1
        | Blobs ys \<Rightarrow> i = length ys + 1 | _ \<Rightarrow> False) \<Longrightarrow>
      \<exists>u s'. cb (field_arg f (elem_type f) (int i) v len) buf s = Some (SPROTO_CB_NIL, u, buf, s') \<and> at fs s'"
begin

declare int_array_loop.simps [simp del] bool_array_loop.simps [simp del] object_array_loop.simps [simp del]

lemma int_step:
  assumes v: "val f = Numbers xs" and st: "within f fs (k + 1) s" and k: "k < length xs"
    and h: "has buf (h + 1) (number_bytes (take k xs))" and room: "h + 1 + nat z \<le> length buf"
    and z: "int (length (number_bytes (take k xs))) \<le> z"
  shows "\<exists>s'. within f fs (k + 2) s' \<and>
    (let call = int_array_loop cb f h buf (h + 1 + length (number_bytes (take k xs))) (z - int (length (number_bytes (take k xs))))
        (any_wide (take k xs)) (k + 1) s in
     call = Some (Failed, buf, s') \<and> z < 8 * int (length xs) \<or>
     (\<exists>buf'. call = int_array_loop cb f h buf' (h + 1 + length (number_bytes (take (k + 1) xs))) (z - int (length (number_bytes (take (k + 1) xs))))
        (any_wide (take (k + 1) xs)) (k + 2) s' \<and> same (h + 1) (nat z) buf buf' \<and>
        has buf' (h + 1) (number_bytes (take (k + 1) xs)) \<and> int (length (number_bytes (take (k + 1) xs))) \<le> z))"
proof -
  define done_xs where "done_xs = take k xs"
  let ?wide = "any_wide done_xs" let ?len = "length (number_bytes done_xs)"
  obtain w n where x: "xs ! k = (w, n)" by fastforce
  have nxt: "take (k + 1) xs = done_xs @ [(w, n)]" using k x by (simp add: take_Suc_conv_app_nth done_xs_def)
  have lk: "length done_xs = k" using k by (simp add: done_xs_def)
  from numbers [OF st v, of w n buf] k x obtain u s' where
    cb: "cb (field_arg f (elem_type f) (int (k + 1)) (Local 0) 8) buf s = Some (if w then 8 else 4, u, buf, s')"
    and u: "if w then u = n else (ucast u :: u32) = ucast n" and s': "within f fs (k + 2) s'" by auto
  have len: "?len = (if ?wide then 8 else 4) * k" by (simp add: length_number_bytes lk)
  let ?q = "h + 1 + ?len" let ?r = "z - int ?len" let ?nb = "number_bytes (done_xs @ [(w, n)])"
  note h = h [folded done_xs_def] and z = z [folded done_xs_def]
  have fail: "z < 8 * int (length xs)" if "z < 8 * int k + 8" using that k by linarith
  let ?call = "int_array_loop cb f h buf ?q ?r ?wide (k + 1) s"
  have "?call = Some (Failed, buf, s') \<and> z < 8 * int (length xs) \<or>
     (\<exists>buf'. ?call = int_array_loop cb f h buf' (h + 1 + length ?nb) (z - int (length ?nb)) (any_wide (done_xs @ [(w, n)])) (k + 2) s' \<and>
        same (h + 1) (nat z) buf buf' \<and> has buf' (h + 1) ?nb \<and> int (length ?nb) \<le> z)"
  proof (cases "?r < 8")
    case True
    have "?len \<le> 8 * k" unfolding len by simp
    then have "z < 8 * int k + 8" using True by linarith
    then have "z < 8 * int (length xs)" by (rule fail)
    then show ?thesis using True cb by (subst int_array_loop.simps) (simp add: elem_type_def)
  next
    case r8: False
    show ?thesis
    proof (cases w)
      case False
      let ?v = "ucast n :: u32"
      have "?q + length (dword_bytes ?v) \<le> length buf" using room r8 by simp
      from put_bytes_spec [OF this] obtain b1 where b1: "put_bytes buf ?q (dword_bytes ?v) = Some b1" "same ?q 4 buf b1" "has b1 ?q (dword_bytes ?v)" by auto
      have pre: "has b1 (h + 1) (number_bytes done_xs)" by (rule has_same [OF h b1(2)]) simp
      have s1: "same (h + 1) (nat z) buf b1" by (rule same_mono [OF b1(2)]) (use r8 in linarith)+
      show ?thesis
      proof (cases ?wide)
        case wd: True
        have "?q + 8 \<le> length b1" using room r8 same_length [OF b1(2)] by linarith
        from widen_spec [OF b1(3) this] obtain b2 where b2: "uint32_to_uint64 (?v AND 0x80000000 \<noteq> 0) b1 ?q = Some b2" "same (?q + 4) 4 b1 b2"
          "has b2 ?q (qword_bytes (expand64 ?v))" .
        have "has b2 (h + 1) (number_bytes done_xs)" by (rule has_same [OF pre b2(2)]) simp
        then have hb: "has b2 (h + 1) ?nb" using b2(3) wd False len lk
          by (simp add: number_bytes_def wide_snoc has_append number64_def)
        have s2: "same (h + 1) (nat z) b1 b2" by (rule same_mono [OF b2(2)]) (use r8 in linarith)+
        have ln: "length ?nb = ?len + 8" using wd lk len by (simp add: length_number_bytes)
        have "?call = int_array_loop cb f h b2 (?q + 8) (?r - 8) True (k + 2) s'"
          using cb False u r8 wd b1(1) b2(1) by (subst int_array_loop.simps) (simp add: elem_type_def)
        then have "?call = int_array_loop cb f h b2 (h + 1 + length ?nb) (z - int (length ?nb)) (any_wide (done_xs @ [(w, n)])) (k + 2) s'"
          unfolding ln using wd by (simp add: algebra_simps)
        then show ?thesis using same_trans [OF s1 s2] hb ln r8 by auto
      next
        case nw: False
        have hb: "has b1 (h + 1) ?nb" using pre b1(3) nw False len lk by (simp add: number_bytes_def narrow_snoc has_append)
        have ln: "length ?nb = ?len + 4" using nw False lk len by (simp add: length_number_bytes)
        have "?call = int_array_loop cb f h b1 (?q + 4) (?r - 4) False (k + 2) s'"
          using cb False u r8 nw b1(1) by (subst int_array_loop.simps) (simp add: elem_type_def)
        then have "?call = int_array_loop cb f h b1 (h + 1 + length ?nb) (z - int (length ?nb)) (any_wide (done_xs @ [(w, n)])) (k + 2) s'"
          unfolding ln using nw False by (simp add: algebra_simps)
        then show ?thesis using s1 hb ln r8 by auto
      qed
    next
      case w: True
      have nbw: "?nb = wide_bytes done_xs @ qword_bytes n" using w by (simp add: number_bytes_def wide_snoc number64_def)
      have ln: "length ?nb = 8 * k + 8" using nbw lk by simp
      show ?thesis
      proof (cases ?wide)
        case wd: True
        have "?q + length (qword_bytes n) \<le> length buf" using room r8 by simp
        from put_bytes_spec [OF this] obtain b1 where b1: "put_bytes buf ?q (qword_bytes n) = Some b1" "same ?q 8 buf b1" "has b1 ?q (qword_bytes n)" by auto
        have "has b1 (h + 1) (number_bytes done_xs)" by (rule has_same [OF h b1(2)]) simp
        then have hb: "has b1 (h + 1) ?nb" using b1(3) wd len lk unfolding nbw by (simp add: number_bytes_def has_append)
        have s1: "same (h + 1) (nat z) buf b1" by (rule same_mono [OF b1(2)]) (use r8 in linarith)+
        have "?call = int_array_loop cb f h b1 (?q + 8) (?r - 8) True (k + 2) s'"
          using cb w u r8 wd b1(1) by (subst int_array_loop.simps) (simp add: elem_type_def Let_def)
        then have "?call = int_array_loop cb f h b1 (h + 1 + length ?nb) (z - int (length ?nb)) (any_wide (done_xs @ [(w, n)])) (k + 2) s'"
          unfolding ln using wd len by (simp add: algebra_simps)
        then show ?thesis using s1 hb ln r8 len wd by auto
      next
        case nw: False
        then have len4: "?len = 4 * k" using len by simp
        show ?thesis
        proof (cases "?r - 4 * int k < 8")
          case True
          then have "z < 8 * int k + 8" using len4 by linarith
          then have "z < 8 * int (length xs)" by (rule fail)
          then show ?thesis using True cb w r8 nw by (subst int_array_loop.simps) (simp add: elem_type_def Let_def mult.commute)
        next
          case False
          have hn: "has buf (h + 1) (narrow_bytes done_xs)" using h nw by (simp add: number_bytes_def)
          have "h + 1 + 8 * length done_xs \<le> length buf" using room False len4 lk by linarith
          from rearrange_spec [OF nw hn this] obtain b0 where b0: "rearrange buf h k = Some b0" "same (h + 1) (8 * k) buf b0" "has b0 (h + 1) (wide_bytes done_xs)"
            unfolding lk by blast
          have "h + 1 + 8 * k + length (qword_bytes n) \<le> length b0" using room False len4 same_length [OF b0(2)] by simp
          from put_bytes_spec [OF this] obtain b1 where b1: "put_bytes b0 (h + 1 + 8 * k) (qword_bytes n) = Some b1" "same (h + 1 + 8 * k) 8 b0 b1"
            "has b1 (h + 1 + 8 * k) (qword_bytes n)" by auto
          have "has b1 (h + 1) (wide_bytes done_xs)" by (rule has_same [OF b0(3) b1(2)]) (simp add: lk)
          then have hb: "has b1 (h + 1) ?nb" using b1(3) lk unfolding nbw by (simp add: has_append)
          have s0: "same (h + 1) (nat z) buf b0" by (rule same_mono [OF b0(2)]) (use False len4 in linarith)+
          have s1: "same (h + 1) (nat z) b0 b1" by (rule same_mono [OF b1(2)]) (use False len4 in linarith)+
          have q: "?q + k * 4 = h + 1 + 8 * k" using len4 by simp
          have "?call = int_array_loop cb f h b1 (?q + k * 4 + 8) (?r - int (k * 4) - 8) True (k + 2) s'"
            using cb w u r8 nw False b0(1) b1(1) [folded q] by (subst int_array_loop.simps) (simp add: elem_type_def Let_def mult.commute)
          then have "?call = int_array_loop cb f h b1 (h + 1 + length ?nb) (z - int (length ?nb)) (any_wide (done_xs @ [(w, n)])) (k + 2) s'"
            unfolding ln q using w len4 by (simp add: algebra_simps)
          then show ?thesis using same_trans [OF s0 s1] hb ln False len4 by auto
        qed
      qed
    qed
  qed
  then show ?thesis unfolding nxt done_xs_def [symmetric] Let_def using s' by blast
qed

lemma int_loop:
  assumes v: "val f = Numbers xs"
  shows "within f fs (k + 1) s \<Longrightarrow> k \<le> length xs \<Longrightarrow> has buf (h + 1) (number_bytes (take k xs)) \<Longrightarrow> h + 1 + nat z \<le> length buf \<Longrightarrow>
    int (length (number_bytes (take k xs))) \<le> z \<Longrightarrow>
    \<exists>r buf' s'. int_array_loop cb f h buf (h + 1 + length (number_bytes (take k xs))) (z - int (length (number_bytes (take k xs))))
        (any_wide (take k xs)) (k + 1) s = Some (r, buf', s') \<and> same (h + 1) (nat z) buf buf' \<and>
      (r = Failed \<and> z < 8 * int (length xs) \<or>
       r = Array_end (h + 1 + length (number_bytes xs)) (if any_wide xs then 8 else 4) \<and> int (length (number_bytes xs)) \<le> z \<and>
         has buf' (h + 1) (number_bytes xs) \<and> at fs s')"
proof (induction "length xs - k" arbitrary: k s buf)
  case 0
  then have k: "k = length xs" by simp
  from array_end [OF 0(2)] v k obtain u s' where
    "cb (field_arg f (elem_type f) (int (k + 1)) (Local 0) 8) buf s = Some (SPROTO_CB_NIL, u, buf, s')" "at fs s'" by fastforce
  then show ?case using 0 k by (subst int_array_loop.simps) (auto simp: elem_type_def SPROTO_CB_NIL_def)
next
  case (Suc d)
  then have k: "k < length xs" "d = length xs - (k + 1)" by simp_all
  let ?call = "int_array_loop cb f h buf (h + 1 + length (number_bytes (take k xs))) (z - int (length (number_bytes (take k xs)))) (any_wide (take k xs)) (k + 1) s"
  from int_step [OF v Suc.prems(1) k(1) Suc.prems(3,4,5)] obtain s' where s': "within f fs (k + 2) s'"
    and c: "?call = Some (Failed, buf, s') \<and> z < 8 * int (length xs) \<or>
     (\<exists>buf'. ?call = int_array_loop cb f h buf' (h + 1 + length (number_bytes (take (k + 1) xs))) (z - int (length (number_bytes (take (k + 1) xs))))
        (any_wide (take (k + 1) xs)) (k + 2) s' \<and> same (h + 1) (nat z) buf buf' \<and>
        has buf' (h + 1) (number_bytes (take (k + 1) xs)) \<and> int (length (number_bytes (take (k + 1) xs))) \<le> z)" unfolding Let_def by blast
  from c show ?case
  proof (elim disjE exE conjE)
    assume "?call = Some (Failed, buf, s')" "z < 8 * int (length xs)"
    then show ?thesis by auto
  next
    fix buf' assume e: "?call = int_array_loop cb f h buf' (h + 1 + length (number_bytes (take (k + 1) xs))) (z - int (length (number_bytes (take (k + 1) xs))))
        (any_wide (take (k + 1) xs)) (k + 2) s'" and sm: "same (h + 1) (nat z) buf buf'"
        and hb: "has buf' (h + 1) (number_bytes (take (k + 1) xs))" and zz: "int (length (number_bytes (take (k + 1) xs))) \<le> z"
    have w: "within f fs (k + 1 + 1) s'" and rm: "h + 1 + nat z \<le> length buf'" using s' Suc.prems(4) same_length [OF sm] by simp_all
    from Suc.hyps(1) [OF k(2) w _ hb rm zz] k(1) obtain r b2 s2 where
      "int_array_loop cb f h buf' (h + 1 + length (number_bytes (take (k + 1) xs))) (z - int (length (number_bytes (take (k + 1) xs))))
        (any_wide (take (k + 1) xs)) (k + 2) s' = Some (r, b2, s2)" "same (h + 1) (nat z) buf' b2"
      "r = Failed \<and> z < 8 * int (length xs) \<or>
       r = Array_end (h + 1 + length (number_bytes xs)) (if any_wide xs then 8 else 4) \<and> int (length (number_bytes xs)) \<le> z \<and>
         has b2 (h + 1) (number_bytes xs) \<and> at fs s2" by auto
    then show ?thesis unfolding e using same_trans [OF sm] by blast
  qed
qed

text \<open>The outcome of the loops: the bytes of the array from \<open>h\<close> on, or a failure for want of room.\<close>

definition array_done :: "field_desc list \<Rightarrow> nat \<Rightarrow> int \<Rightarrow> u8 list \<Rightarrow> u8 list \<Rightarrow> int \<Rightarrow> int_array \<times> u8 list \<times> 's \<Rightarrow> bool" where
  "array_done fs h z buf content bound res \<longleftrightarrow> (case res of (r, buf', s') \<Rightarrow> same h (nat z) buf buf' \<and>
     (r = Failed \<and> z < bound \<or>
      (\<exists>w. r = Array_end (h + length content) w) \<and> int (length content) \<le> z \<and> has buf' h content \<and> at fs s'))"

lemma integer_array:
  assumes v: "val f = Numbers xs" and st: "within f fs 1 s" and room: "h + nat z \<le> length buf"
  shows "\<exists>res. encode_integer_array cb f buf h z s = Some res \<and> array_done fs h z buf (numbers_data xs) (8 * int (length xs) + 1) res"
proof (cases "z < 1")
  case True
  then show ?thesis by (simp add: encode_integer_array_def array_done_def)
next
  case False
  have "h + 1 + nat (z - 1) \<le> length buf" using room False by linarith
  from int_loop [OF v, of fs 0 s buf h "z - 1"] st this obtain r buf' s' where
    l: "int_array_loop cb f h buf (h + 1) (z - 1) False 1 s = Some (r, buf', s')" "same (h + 1) (nat (z - 1)) buf buf'"
    and r: "r = Failed \<and> z - 1 < 8 * int (length xs) \<or> r = Array_end (h + 1 + length (number_bytes xs)) (if any_wide xs then 8 else 4) \<and>
      int (length (number_bytes xs)) \<le> z - 1 \<and> has buf' (h + 1) (number_bytes xs) \<and> at fs s'" using False by auto
  have sm: "same h (nat z) buf buf'" by (rule same_mono [OF l(2)]) (use False in linarith)+
  from r show ?thesis
  proof (elim disjE conjE)
    assume "r = Failed" "z - 1 < 8 * int (length xs)"
    then show ?thesis using l(1) sm False by (simp add: encode_integer_array_def array_done_def)
  next
    assume e: "r = Array_end (h + 1 + length (number_bytes xs)) (if any_wide xs then 8 else 4)" "int (length (number_bytes xs)) \<le> z - 1"
      "has buf' (h + 1) (number_bytes xs)" "at fs s'"
    show ?thesis
    proof (cases "xs = []")
      case True
      then show ?thesis using l(1) sm False e room by (simp add: encode_integer_array_def array_done_def numbers_data_def same_def)
    next
      case ne: False
      then have ln: "0 < length (number_bytes xs)" by (simp add: length_number_bytes)
      have hl: "h < length buf'" using same_length [OF sm] room False by linarith
      let ?w = "if any_wide xs then 8 else 4"
      let ?b = "buf'[h := of_nat ?w]"
      have s2: "same h 1 buf' ?b" by (auto simp: same_def nth_list_update)
      have "has ?b (h + 1) (number_bytes xs)" by (rule has_same [OF e(3) s2]) simp
      then have "has ?b h (numbers_data xs)" using ne hl by (simp add: numbers_data_def has_Cons)
      moreover have "same h (nat z) buf ?b" by (rule same_trans [OF sm same_mono [OF s2]]) (use False in linarith)+
      ultimately show ?thesis using l(1) e ln hl False ne by (auto simp: encode_integer_array_def array_done_def numbers_data_def)
    qed
  qed
qed

lemma integer_array_missing:
  assumes v: "val f = Missing" and st: "within f fs 1 s"
  shows "\<exists>r s'. encode_integer_array cb f buf h z s = Some (r, buf, s') \<and> (r = Failed \<and> z < 1 \<or> (\<exists>p w. r = No_array p w) \<and> at fs s')"
proof (cases "z < 1")
  case True
  then show ?thesis by (simp add: encode_integer_array_def)
next
  case False
  from no_array [OF st v, of "Local 0" 8 buf] obtain u s' where "cb (field_arg f (elem_type f) 1 (Local 0) 8) buf s = Some (SPROTO_CB_NOARRAY, u, buf, s')" "at fs s'"
    by blast
  then show ?thesis using False
    by (simp add: encode_integer_array_def, subst int_array_loop.simps) (simp add: elem_type_def SPROTO_CB_NOARRAY_def SPROTO_CB_NIL_def)
qed

lemma bool_loop:
  assumes v: "val f = Bools bs" and t: "elem_type f = SPROTO_TBOOLEAN"
  shows "within f fs (k + 1) s \<Longrightarrow> k \<le> length bs \<Longrightarrow> has buf h (bool_bytes (take k bs)) \<Longrightarrow> h + nat z \<le> length buf \<Longrightarrow> int k \<le> z \<Longrightarrow>
    \<exists>res. bool_array_loop cb f buf (h + k) (z - int k) (k + 1) s = Some res \<and> array_done fs h z buf (bool_bytes bs) (int (length bs)) res"
proof (induction "length bs - k" arbitrary: k s buf)
  case 0
  then have k: "k = length bs" by simp
  from array_end [OF 0(2)] v k t obtain u s' where
    "cb (field_arg f SPROTO_TBOOLEAN (int (k + 1)) (Local 0) 4) buf s = Some (SPROTO_CB_NIL, u, buf, s')" "at fs s'" by fastforce
  then show ?case using 0 k by (subst bool_array_loop.simps) (auto simp: array_done_def SPROTO_CB_NIL_def bool_bytes_def)
next
  case (Suc d)
  then have k: "k < length bs" "d = length bs - (k + 1)" by simp_all
  from bools [OF Suc.prems(1) v, of buf] k t obtain r u s' where cb: "cb (field_arg f SPROTO_TBOOLEAN (int (k + 1)) (Local 0) 4) buf s = Some (r, u, buf, s')"
    "0 \<le> r" "(ucast u :: u32) \<noteq> 0 \<longleftrightarrow> bs ! k" and s': "within f fs (k + 1 + 1) s'" by auto
  show ?case
  proof (cases "z - int k < 1")
    case True
    then show ?thesis using cb k by (subst bool_array_loop.simps) (simp add: array_done_def)
  next
    case False
    let ?x = "if bs ! k then 1 else 0 :: u8" let ?b = "buf[h + k := ?x]"
    have hk: "h + k < length buf" using False Suc.prems(4) by linarith
    have sm: "same (h + k) 1 buf ?b" by (auto simp: same_def nth_list_update)
    have "has ?b h (bool_bytes (take k bs))" by (rule has_same [OF Suc.prems(3) sm]) (simp add: bool_bytes_def)
    then have hb: "has ?b h (bool_bytes (take (k + 1) bs))" using hk k(1)
      by (simp add: take_Suc_conv_app_nth bool_bytes_def has_append has_Cons)
    have rm: "h + nat z \<le> length ?b" "int (k + 1) \<le> z" "k + 1 \<le> length bs" using Suc.prems(4) False k(1) by simp_all
    from Suc.hyps(1) [OF k(2) s' rm(3) hb rm(1,2)] obtain res where
      r: "bool_array_loop cb f ?b (h + (k + 1)) (z - int (k + 1)) (k + 1 + 1) s' = Some res" "array_done fs h z ?b (bool_bytes bs) (int (length bs)) res" by blast
    have s2: "same h (nat z) buf ?b" by (rule same_mono [OF sm]) (use False in linarith)+
    have "bool_array_loop cb f buf (h + k) (z - int k) (k + 1) s = Some res"
      using cb False hk r(1) by (subst bool_array_loop.simps) (simp add: algebra_simps)
    moreover have "array_done fs h z buf (bool_bytes bs) (int (length bs)) res"
      using r(2) same_trans [OF s2] by (auto simp: array_done_def split: prod.splits)
    ultimately show ?thesis by blast
  qed
qed

lemma bool_array_missing:
  assumes "val f = Missing" and "within f fs 1 s" and "elem_type f = SPROTO_TBOOLEAN"
  shows "\<exists>s' q w. bool_array_loop cb f buf p z 1 s = Some (No_array q w, buf, s') \<and> at fs s'"
proof -
  from no_array [OF assms(2,1), of "Local 0" 4 buf] obtain u s' where
    "cb (field_arg f SPROTO_TBOOLEAN 1 (Local 0) 4) buf s = Some (SPROTO_CB_NOARRAY, u, buf, s')" "at fs s'" unfolding assms(3) by blast
  then show ?thesis by (subst bool_array_loop.simps) (simp add: SPROTO_CB_NOARRAY_def SPROTO_CB_NIL_def)
qed

lemma object_loop:
  assumes v: "val f = Blobs xs"
  shows "within f fs (k + 1) s \<Longrightarrow> k \<le> length xs \<Longrightarrow> has buf h (blobs_data (take k xs)) \<Longrightarrow> h + nat z \<le> length buf \<Longrightarrow>
    int (length (blobs_data (take k xs))) \<le> z \<Longrightarrow>
    \<exists>res. object_array_loop cb f buf (h + length (blobs_data (take k xs))) (z - int (length (blobs_data (take k xs)))) (k + 1) s = Some res \<and>
      array_done fs h z buf (blobs_data xs) (int (length (blobs_data xs) + 4 + need f)) res"
proof (induction "length xs - k" arbitrary: k s buf)
  case 0
  then have k: "k = length xs" by simp
  let ?q = "h + length (blobs_data xs)" let ?r = "z - int (length (blobs_data xs))"
  show ?case
  proof (cases "?r < 4")
    case True
    then show ?thesis using k by (subst object_array_loop.simps) (simp add: array_done_def SIZEOF_LENGTH_def)
  next
    case False
    from array_end [OF 0(2)] v k obtain u s' where
      "cb (field_arg f (elem_type f) (int (k + 1)) (At (?q + 4)) (?r - 4)) buf s = Some (SPROTO_CB_NIL, u, buf, s')" "at fs s'" by fastforce
    then show ?thesis using 0 k False
      by (subst object_array_loop.simps) (auto simp: array_done_def SPROTO_CB_NIL_def SIZEOF_LENGTH_def elem_type_def)
  qed
next
  case (Suc d)
  then have k: "k < length xs" "d = length xs - (k + 1)" by simp_all
  let ?pre = "blobs_data (take k xs)" let ?x = "xs ! k"
  let ?q = "h + length ?pre" let ?r = "z - int (length ?pre)"
  have nxt: "blobs_data (take (k + 1) xs) = ?pre @ sized ?x" using k by (simp add: take_Suc_conv_app_nth blobs_data_def)
  have "take (k + 1) xs @ drop (k + 1) xs = xs" by simp
  then have "blobs_data xs = blobs_data (take (k + 1) xs) @ blobs_data (drop (k + 1) xs)" unfolding blobs_data_def by (metis concat_append map_append)
  then have tot: "length ?pre + 4 + length ?x \<le> length (blobs_data xs)" using nxt by simp
  show ?case
  proof (cases "?r < 4")
    case True
    then show ?thesis using tot by (subst object_array_loop.simps) (simp add: array_done_def SIZEOF_LENGTH_def)
  next
    case False
    let ?room = "nat (?r - 4)"
    have rm: "?q + 4 + ?room \<le> length buf" using False Suc.prems(4) by linarith
    have ri: "int ?room = ?r - 4" using False by simp
    from blobs [OF Suc.prems(1) v _ _ rm] k obtain r u b1 s1 where
      cb: "cb (field_arg f (elem_type f) (int (k + 1)) (At (?q + 4)) (?r - 4)) buf s = Some (r, u, b1, s1)"
      and wr: "writes ?x (need f) (?q + 4) ?room buf (within f fs (k + 1 + 1) s1) (r, u, b1, s1)" unfolding ri by auto
    from wr have sm: "same (?q + 4) ?room buf b1" by (simp add: writes_def)
    from wr consider "r = SPROTO_CB_ERROR" "?room < need f" | "within f fs (k + 1 + 1) s1" "r = int (length ?x)" "length ?x \<le> ?room" "has b1 (?q + 4) ?x"
      by (auto simp: writes_def)
    then show ?thesis
    proof cases
      case 1
      have "same h (nat z) buf b1" by (rule same_mono [OF sm]) (use False in linarith)+
      then show ?thesis using 1 cb False tot
        by (subst object_array_loop.simps) (auto simp: array_done_def SPROTO_CB_ERROR_def SPROTO_CB_NIL_def SPROTO_CB_NOARRAY_def SIZEOF_LENGTH_def elem_type_def)
    next
      case 2
      from fill_sized [OF 2(4)] obtain b2 where b2: "fill_size b1 ?q (int (length ?x)) = Some (int (length (sized ?x)), b2)" "same ?q 4 b1 b2" "has b2 ?q (sized ?x)" .
      have "has b1 h ?pre" by (rule has_same [OF Suc.prems(3) sm]) simp
      from has_same [OF this b2(2)] have hb: "has b2 h (blobs_data (take (k + 1) xs))" using b2(3) unfolding nxt has_append by simp
      have s1: "same h (nat z) buf b1" by (rule same_mono [OF sm]) (use False in linarith)+
      have s2: "same h (nat z) b1 b2" by (rule same_mono [OF b2(2)]) (use False in linarith)+
      have s3: "same h (nat z) buf b2" by (rule same_trans [OF s1 s2])
      have "int (length ?x) \<le> ?r - 4" using 2(3) ri by linarith
      then have rm2: "h + nat z \<le> length b2" "int (length (blobs_data (take (k + 1) xs))) \<le> z" "k + 1 \<le> length xs"
        using Suc.prems(4) same_length [OF s3] k(1) unfolding nxt by simp_all
      have q2: "h + length (blobs_data (take (k + 1) xs)) = ?q + 4 + length ?x" "z - int (length (blobs_data (take (k + 1) xs))) = ?r - 4 - int (length ?x)"
        unfolding nxt by simp_all
      from Suc.hyps(1) [OF k(2) 2(1) rm2(3) hb rm2(1,2)] obtain res where
        r: "object_array_loop cb f b2 (?q + 4 + length ?x) (?r - 4 - int (length ?x)) (k + 1 + 1) s1 = Some res"
          "array_done fs h z b2 (blobs_data xs) (int (length (blobs_data xs) + 4 + need f)) res" unfolding q2 by blast
      have "object_array_loop cb f buf ?q ?r (k + 1) s = Some res"
        using cb 2(2) False b2(1) r(1) by (subst object_array_loop.simps) (simp add: SIZEOF_LENGTH_def elem_type_def)
      moreover have "array_done fs h z buf (blobs_data xs) (int (length (blobs_data xs) + 4 + need f)) res"
        using r(2) same_trans [OF s3] by (auto simp: array_done_def split: prod.splits)
      ultimately show ?thesis by blast
    qed
  qed
qed

lemma object_array_missing:
  assumes "val f = Missing" and "within f fs 1 s"
  shows "\<exists>r s' p' w. object_array_loop cb f buf p z 1 s = Some (r, buf, s') \<and> (r = Failed \<and> z < 4 \<or> r = No_array p' w \<and> at fs s')"
proof (cases "z < 4")
  case True
  then show ?thesis by (subst object_array_loop.simps) (simp add: SIZEOF_LENGTH_def)
next
  case False
  from no_array [OF assms(2,1), of "At (p + 4)" "z - 4" buf] obtain u s' where
    "cb (field_arg f (elem_type f) 1 (At (p + 4)) (z - 4)) buf s = Some (SPROTO_CB_NOARRAY, u, buf, s')" "at fs s'" by blast
  then show ?thesis using False by (subst object_array_loop.simps) (simp add: SPROTO_CB_NOARRAY_def SPROTO_CB_NIL_def SIZEOF_LENGTH_def elem_type_def)
qed

text \<open>The data of a field were written, or there was not enough room.\<close>

definition part_done :: "field_desc \<Rightarrow> field_desc list \<Rightarrow> nat \<Rightarrow> int \<Rightarrow> u8 list \<Rightarrow> int \<times> u8 list \<times> 's \<Rightarrow> bool" where
  "part_done f fs d z buf res \<longleftrightarrow> (case res of (n, buf', s') \<Rightarrow> same d (nat z) buf buf' \<and>
     (n = -1 \<and> z < int (field_need val need f) \<or>
      n = int (length (field_data (val f))) \<and> n \<le> z \<and> has buf' d (field_data (val f)) \<and> at fs s'))"

lemma array_part:
  assumes a: "array_done fs (d + 4) (z - 4) buf content bound (r, buf1, s1)" and z: "4 \<le> z" and room: "d + nat z \<le> length buf"
    and fd: "field_data (val f) = sized content" and need: "bound + 4 \<le> int (field_need val need f)"
  shows "\<exists>res. (case r of Failed \<Rightarrow> Some (-1, buf1, s1) | No_array p w \<Rightarrow> Some (0, buf1, s1)
      | Array_end p w \<Rightarrow> do { (n, buf2) \<leftarrow> fill_size buf1 d (int p - int (d + 4)); Some (n, buf2, s1) }) = Some res \<and> part_done f fs d z buf res"
proof -
  from a have sm: "same (d + 4) (nat (z - 4)) buf buf1" by (simp add: array_done_def)
  have s1: "same d (nat z) buf buf1" by (rule same_mono [OF sm]) (use z in linarith)+
  from a consider "r = Failed" "z - 4 < bound"
    | w where "r = Array_end (d + 4 + length content) w" "int (length content) \<le> z - 4" "has buf1 (d + 4) content" "at fs s1"
    by (auto simp: array_done_def)
  then show ?thesis
  proof cases
    case 1
    then show ?thesis using s1 need by (simp add: part_done_def)
  next
    case 2
    from fill_sized [OF 2(3)] obtain b2 where b2: "fill_size buf1 d (int (length content)) = Some (int (length (sized content)), b2)" "same d 4 buf1 b2"
      "has b2 d (sized content)" .
    have "same d (nat z) buf1 b2" by (rule same_mono [OF b2(2)]) (use z in linarith)+
    from same_trans [OF s1 this] show ?thesis using 2 b2 fd by (simp add: part_done_def)
  qed
qed

lemma array_spec:
  assumes st: "at (f # fs) s" and arr: "is_array f" and room: "d + nat z \<le> length buf"
  shows "\<exists>res. encode_array cb f buf d z s = Some res \<and> part_done f fs d z buf res"
proof (cases "z < 4")
  case True
  have "4 \<le> field_need val need f" by (auto simp: field_need_def split: fval.splits)
  then show ?thesis using True by (simp add: encode_array_def part_done_def SIZEOF_LENGTH_def)
next
  case False
  note w = start [OF st arr]
  have fit: "fits_array (elem_type f) (val f)" using fitting [OF st] arr by (simp add: fits_def)
  have rm: "d + 4 + nat (z - 4) \<le> length buf" using room False by linarith
  have dl: "d \<le> length buf" using room by simp
  define loop where "loop = (if elem_type f = SPROTO_TDOUBLE \<or> elem_type f = SPROTO_TINTEGER then encode_integer_array cb f buf (d + 4) (z - 4) s
           else if elem_type f = SPROTO_TBOOLEAN then bool_array_loop cb f buf (d + 4) (z - 4) 1 s
           else object_array_loop cb f buf (d + 4) (z - 4) 1 s)"
  have enc: "encode_array cb f buf d z s = do { (r, buf1, s1) \<leftarrow> loop; case r of Failed \<Rightarrow> Some (-1, buf1, s1) | No_array p w \<Rightarrow> Some (0, buf1, s1)
      | Array_end p w \<Rightarrow> do { (n, buf2) \<leftarrow> fill_size buf1 d (int p - int (d + 4)); Some (n, buf2, s1) } }"
    using False unfolding encode_array_def loop_def elem_type_def SIZEOF_LENGTH_def Let_def by simp
  have part: "\<exists>res. encode_array cb f buf d z s = Some res \<and> part_done f fs d z buf res"
    if "loop = Some res" "array_done fs (d + 4) (z - 4) buf content bound res" "field_data (val f) = sized content" "bound + 4 \<le> int (field_need val need f)"
    for res content bound
  proof -
    obtain r b1 s1 where res: "res = (r, b1, s1)" by (cases res)
    show ?thesis using array_part [OF that(2) [unfolded res] _ room that(3,4)] False that(1) unfolding enc res by simp
  qed
  show ?thesis
  proof (cases "val f")
    case Missing
    have "\<exists>r s'. loop = Some (r, buf, s') \<and> (r = Failed \<and> z - 4 < 4 \<or> (\<exists>p w. r = No_array p w) \<and> at fs s')"
    proof (cases "elem_type f = SPROTO_TDOUBLE \<or> elem_type f = SPROTO_TINTEGER")
      case True
      then show ?thesis using integer_array_missing [OF Missing w, of buf "d + 4" "z - 4"] by (auto simp: loop_def)
    next
      case nn: False
      show ?thesis
      proof (cases "elem_type f = SPROTO_TBOOLEAN")
        case True
        then show ?thesis using bool_array_missing [OF Missing w True, of buf "d + 4" "z - 4"] nn by (auto simp: loop_def)
      next
        case False
        then show ?thesis using object_array_missing [OF Missing w, of buf "d + 4" "z - 4"] nn by (auto simp: loop_def)
      qed
    qed
    then obtain r s' where l: "loop = Some (r, buf, s')" and r: "r = Failed \<and> z - 4 < 4 \<or> (\<exists>p w. r = No_array p w) \<and> at fs s'" by blast
    from r show ?thesis using l False dl unfolding enc by (auto simp: part_done_def field_data_def Missing field_need_def)
  next
    case (Number a b)
    then show ?thesis using fit by simp
  next
    case (Bytes bs)
    then show ?thesis using fit by simp
  next
    case (Numbers xs)
    then have "loop = encode_integer_array cb f buf (d + 4) (z - 4) s" using fit by (auto simp: loop_def)
    then show ?thesis using integer_array [OF Numbers w rm] part Numbers by (auto simp: field_data_def field_need_def)
  next
    case (Bools bs)
    then have t: "elem_type f = SPROTO_TBOOLEAN" using fit by simp
    then have "loop = bool_array_loop cb f buf (d + 4) (z - 4) 1 s" by (simp add: loop_def SPROTO_TBOOLEAN_def SPROTO_TDOUBLE_def SPROTO_TINTEGER_def)
    then show ?thesis using bool_loop [OF Bools t, of fs 0 s buf "d + 4" "z - 4"] w rm False part Bools
      by (auto simp: field_data_def field_need_def bool_bytes_def)
  next
    case (Blobs xs)
    then have "elem_type f = SPROTO_TSTRING \<or> elem_type f = SPROTO_TSTRUCT" using fit by simp
    then have "loop = object_array_loop cb f buf (d + 4) (z - 4) 1 s"
      by (auto simp: loop_def SPROTO_TBOOLEAN_def SPROTO_TDOUBLE_def SPROTO_TINTEGER_def SPROTO_TSTRING_def SPROTO_TSTRUCT_def)
    then show ?thesis using object_loop [OF Blobs, of fs 0 s buf "d + 4" "z - 4"] w rm False part Blobs
      by (auto simp: field_data_def field_need_def blobs_data_def)
  qed
qed

lemma object_spec:
  assumes st: "at (f # fs) s" and arr: "\<not> is_array f" and room: "d + nat z \<le> length buf" and v: "val f = Missing \<or> val f = Bytes bs"
  shows "\<exists>res. encode_object cb f buf d z s = Some res \<and> part_done f fs d z buf res"
proof (cases "z < 4")
  case True
  have "4 \<le> field_need val need f" by (auto simp: field_need_def split: fval.splits)
  then show ?thesis using True by (simp add: encode_object_def part_done_def SIZEOF_LENGTH_def)
next
  case False
  let ?room = "nat (z - 4)"
  have ri: "int ?room = z - 4" using False by simp
  have rm: "d + 4 + ?room \<le> length buf" using room False by linarith
  from v show ?thesis
  proof
    assume m: "val f = Missing"
    from missing [OF st arr m, of "At (d + 4)" "z - 4" buf] obtain u s' where
      "cb (field_arg f (f_type f) 0 (At (d + 4)) (z - 4)) buf s = Some (SPROTO_CB_NIL, u, buf, s')" "at fs s'" by blast
    then show ?thesis using False rm m
      by (simp add: encode_object_def part_done_def SIZEOF_LENGTH_def field_data_def SPROTO_CB_NIL_def)
  next
    assume b: "val f = Bytes bs"
    from object [OF st arr b rm] obtain r u b1 s1 where cb: "cb (field_arg f (f_type f) 0 (At (d + 4)) (z - 4)) buf s = Some (r, u, b1, s1)"
      and wr: "writes bs (need f) (d + 4) ?room buf (at fs s1) (r, u, b1, s1)" unfolding ri by blast
    from wr have sm: "same (d + 4) ?room buf b1" by (simp add: writes_def)
    have s1: "same d (nat z) buf b1" by (rule same_mono [OF sm]) (use False in linarith)+
    from wr consider "r = SPROTO_CB_ERROR" "?room < need f" | "at fs s1" "r = int (length bs)" "length bs \<le> ?room" "has b1 (d + 4) bs"
      by (auto simp: writes_def)
    then show ?thesis
    proof cases
      case 1
      then show ?thesis using cb False s1 b
        by (simp add: encode_object_def part_done_def SIZEOF_LENGTH_def SPROTO_CB_ERROR_def SPROTO_CB_NIL_def field_need_def)
    next
      case 2
      from fill_sized [OF 2(4)] obtain b2 where b2: "fill_size b1 d (int (length bs)) = Some (int (length (sized bs)), b2)" "same d 4 b1 b2" "has b2 d (sized bs)" .
      have "same d (nat z) b1 b2" by (rule same_mono [OF b2(2)]) (use False in linarith)+
      then have "same d (nat z) buf b2" by (rule same_trans [OF s1])
      moreover have "int (length bs) \<le> z - 4" using 2(3) ri by linarith
      ultimately show ?thesis using cb False b 2(1,2) b2
        by (simp add: encode_object_def part_done_def SIZEOF_LENGTH_def field_data_def)
    qed
  qed
qed

lemma number_spec:
  assumes st: "at (f # fs) s" and arr: "\<not> is_array f" and room: "d + nat z \<le> length buf" and z: "0 \<le> z" and v: "val f = Number w n"
  shows "\<exists>x m buf' s'. encode_number cb f buf d z s = Some (Inr (x, m), buf', s') \<and> same d (nat z) buf buf' \<and>
    (m = -1 \<and> z < int (field_need val need f) \<or> field_parts (val f) = Some (x, field_data (val f)) \<and> 0 < m \<and> (x = 0 \<longrightarrow> m = int (length (field_data (val f)))) \<and>
       int (length (field_data (val f))) \<le> z \<and> has buf' d (field_data (val f)) \<and> at fs s')"
proof -
  from number [OF st arr v, of buf] obtain u s' where cb: "cb (field_arg f (f_type f) 0 (Local 0) 8) buf s = Some (if w then 8 else 4, u, buf, s')"
    and u: "if w then u = n else (ucast u :: u32) = ucast n" and s': "at fs s'" by blast
  have need: "field_need val need f = 12" by (simp add: field_need_def v)
  have dl: "d \<le> length buf" using room by simp
  show ?thesis
  proof (cases w)
    case True
    then show ?thesis using encode_uint64_spec [OF room z, of n] cb u s' v
      by (auto simp: encode_number_def field_data_def need)
  next
    case False
    then have u: "(ucast u :: u32) = ucast n" using u by simp
    show ?thesis
    proof (cases "(ucast n :: u32) < 0x7FFF")
      case True
      have "0 \<le> uint (ucast n :: u32)" by simp
      then have "uint (ucast n :: u32) * 2 + 2 \<noteq> 0" by linarith
      then show ?thesis using cb u s' v False dl z True by (auto simp: encode_number_def field_data_def Let_def)
    next
      case big: False
      then show ?thesis using encode_integer_spec [OF room z, of "ucast n"] cb u s' v False
        by (auto simp: encode_number_def field_data_def need Let_def)
    qed
  qed
qed

definition enc_inv :: "nat \<Rightarrow> nat \<Rightarrow> int \<Rightarrow> u8 list \<Rightarrow> int list \<Rightarrow> u8 list \<Rightarrow> int \<Rightarrow> enc_state \<Rightarrow> bool" where
  "enc_inv h hs z buf0 ws ds l e \<longleftrightarrow>
     e_index e = length ws \<and> e_lasttag e = l \<and> e_data e = h + hs + length ds \<and> e_size e = z - int hs - int (length ds) \<and> 0 \<le> e_size e \<and>
     same h (nat z) buf0 (e_buf e) \<and> has (e_buf e) (h + 2) (words_bytes ws) \<and> has (e_buf e) (h + hs) ds"

lemma put_word:
  assumes "p + 2 \<le> length buf"
  obtains buf' where "put_bytes buf p (word_bytes v) = Some buf'" "same p 2 buf buf'" "has buf' p (word_bytes v)"
proof -
  have "p + length (word_bytes v) \<le> length buf" using assms by simp
  from put_bytes_spec [OF this] that show ?thesis by auto
qed

lemma words_snoc: "words_bytes (ws @ [x]) = words_bytes ws @ word_bytes x"
  by (simp add: words_bytes_def)

lemma put_record_spec:
  assumes inv: "enc_inv h hs z buf0 ws ds l e" and hs: "hs = 2 + 2 * maxn"
    and cap: "length ws + length (field_words val l f) \<le> maxn" and room: "h + nat z \<le> length buf0"
    and p: "field_parts (val f) = Some (x, field_data (val f))" and m: "0 < m" "x = 0 \<longrightarrow> m = int (length (field_data (val f)))"
    and inl: "x \<noteq> 0 \<longrightarrow> field_data (val f) = []"
    and z: "int (length (field_data (val f))) \<le> e_size e" and d: "has (e_buf e) (e_data e) (field_data (val f))"
    and tag: "l < f_tag f" "-1 \<le> l" "f_tag f < 0x7FFF"
  shows "\<exists>e1. put_record h f x m e = Some (Some e1) \<and> enc_inv h hs z buf0 (ws @ field_words val l f) (ds @ field_data (val f)) (f_tag f) e1"
proof -
  let ?d = "field_data (val f)"
  note i = inv [unfolded enc_inv_def]
  have hz: "int hs \<le> z" using i by linarith
  have len: "length (e_buf e) = length buf0" using i same_length by blast
  define e1 where "e1 = (if x = 0 then e\<lparr>e_data := e_data e + nat m, e_size := e_size e - m\<rparr> else e)"
  have e1: "e_buf e1 = e_buf e" "e_data e1 = h + hs + length (ds @ ?d)" "e_size e1 = z - int hs - int (length (ds @ ?d))"
    using i m inl by (auto simp: e1_def)
  have dd: "has (e_buf e) (h + hs) (ds @ ?d)" using i d by (simp add: has_append)
  let ?rec = "h + 2 + 2 * length ws"
  have sm: "same h (nat z) b b'" if "same q 2 b b'" "h \<le> q" "q + 2 \<le> h + hs" for q b b'
    by (rule same_mono [OF that(1)]) (use that hz in linarith)+
  have keep: "has b' (h + hs) (ds @ ?d)" if "has b (h + hs) (ds @ ?d)" "same q 2 b b'" "q + 2 \<le> h + hs" for q b b'
    by (rule has_same [OF that(1,2)]) (use that(3) in simp)
  show ?thesis
  proof (cases "f_tag f - l - 1 > 0")
    case True
    then have w: "field_words val l f = [(f_tag f - l - 2) * 2 + 1, x]" by (simp add: field_words_def p)
    let ?s = "(f_tag f - l - 2) * 2 + 1"
    have c: "2 * length ws + 4 \<le> 2 * maxn" using cap w by simp
    have "?rec + 2 \<le> length (e_buf e)" using c hs hz room len by linarith
    from put_word [OF this, of ?s] obtain b1 where b1: "put_bytes (e_buf e) ?rec (word_bytes ?s) = Some b1" "same ?rec 2 (e_buf e) b1" "has b1 ?rec (word_bytes ?s)" .
    have "?rec + 2 + 2 \<le> length b1" using c hs hz room len same_length [OF b1(2)] by linarith
    from put_word [OF this, of x] obtain b2 where b2: "put_bytes b1 (?rec + 2) (word_bytes x) = Some b2" "same (?rec + 2) 2 b1 b2" "has b2 (?rec + 2) (word_bytes x)" .
    have q: "?rec + 2 \<le> h + hs" "?rec + 2 + 2 \<le> h + hs" using c hs by simp_all
    have "has b1 (h + 2) (words_bytes ws)" by (rule has_same [OF _ b1(2)]) (use i in simp_all)
    then have "has b1 (h + 2) (words_bytes (ws @ [?s]))" using b1(3) by (simp add: words_snoc has_append)
    then have "has b2 (h + 2) (words_bytes (ws @ [?s]))" by (rule has_same [OF _ b2(2)]) simp
    then have hw: "has b2 (h + 2) (words_bytes (ws @ [?s, x]))" using b2(3) words_snoc [of "ws @ [?s]" x] by (simp add: has_append)
    have hd: "has b2 (h + hs) (ds @ ?d)" by (rule keep [OF keep [OF dd b1(2) q(1)] b2(2) q(2)])
    have "same h (nat z) (e_buf e) b2" by (rule same_trans [OF sm [OF b1(2) _ q(1)] sm [OF b2(2) _ q(2)]]) simp_all
    then have s2: "same h (nat z) buf0 b2" using i same_trans by blast
    have e: "f_tag f - e_lasttag e - 1 = f_tag f - l - 1" "e_index e = length ws" using i by simp_all
    have run: "put_record h f x m e = Some (Some (e1\<lparr>e_buf := b2, e_index := e_index e + 2, e_lasttag := f_tag f\<rparr>))"
      using True b1(1) b2(1) tag e unfolding put_record_def e1_def [symmetric] Let_def e e1(1)
      by (simp add: SIZEOF_HEADER_def SIZEOF_FIELD_def algebra_simps)
    show ?thesis unfolding run w by (intro exI conjI, rule refl) (use e1 s2 hw hd z i in \<open>simp add: enc_inv_def\<close>)
  next
    case False
    then have w: "field_words val l f = [x]" by (simp add: field_words_def p)
    have c: "2 * length ws + 2 \<le> 2 * maxn" using cap w by simp
    have "?rec + 2 \<le> length (e_buf e)" using c hs hz room len by linarith
    from put_word [OF this, of x] obtain b1 where b1: "put_bytes (e_buf e) ?rec (word_bytes x) = Some b1" "same ?rec 2 (e_buf e) b1" "has b1 ?rec (word_bytes x)" .
    have q: "?rec + 2 \<le> h + hs" using c hs by simp
    have "has b1 (h + 2) (words_bytes ws)" by (rule has_same [OF _ b1(2)]) (use i in simp_all)
    then have hw: "has b1 (h + 2) (words_bytes (ws @ [x]))" using b1(3) by (simp add: words_snoc has_append)
    have hd: "has b1 (h + hs) (ds @ ?d)" by (rule keep [OF dd b1(2) q(1)])
    have "same h (nat z) (e_buf e) b1" by (rule sm [OF b1(2) _ q]) simp
    then have s2: "same h (nat z) buf0 b1" using i same_trans by blast
    have e: "f_tag f - e_lasttag e - 1 = f_tag f - l - 1" "e_index e = length ws" using i by simp_all
    have run: "put_record h f x m e = Some (Some (e1\<lparr>e_buf := b1, e_index := e_index e + 1, e_lasttag := f_tag f\<rparr>))"
      using False b1(1) e unfolding put_record_def e1_def [symmetric] Let_def e e1(1)
      by (simp add: SIZEOF_HEADER_def SIZEOF_FIELD_def algebra_simps)
    show ?thesis unfolding run w by (intro exI conjI, rule refl) (use e1 s2 hw hd z i in \<open>simp add: enc_inv_def\<close>)
  qed
qed

lemma enc_inv_buf:
  assumes inv: "enc_inv h hs z buf0 ws ds l e" and room: "h + nat z \<le> length buf0" and hs: "2 + 2 * length ws \<le> hs"
    and sm: "same (e_data e) (nat (e_size e)) (e_buf e) buf"
  shows "enc_inv h hs z buf0 ws ds l (e\<lparr>e_buf := buf\<rparr>)"
proof -
  note i = inv [unfolded enc_inv_def]
  have "same h (nat z) (e_buf e) buf" by (rule same_mono [OF sm]) (use i in linarith)+
  then have "same h (nat z) buf0 buf" using i same_trans by blast
  moreover have "has buf (h + 2) (words_bytes ws)" by (rule has_same [OF _ sm]) (use i hs in simp_all)
  moreover have "has buf (h + hs) ds" by (rule has_same [OF _ sm]) (use i in simp_all)
  ultimately show ?thesis using i by (simp add: enc_inv_def)
qed

lemma field_parts_inline: "field_parts v = Some (x, d) \<Longrightarrow> x \<noteq> 0 \<Longrightarrow> d = []"
  by (cases v) (auto split: if_splits)

lemma field_parts_data: "field_parts v = Some (x, d) \<Longrightarrow> d = field_data v"
  by (simp add: field_data_def)

lemma field_step:
  assumes st: "at (f # fs) s" and wf: "wf_field n f" and inv: "enc_inv h hs z buf0 ws ds l e" and hs: "hs = 2 + 2 * maxn"
    and cap: "length ws + length (field_words val l f) \<le> maxn" and room: "h + nat z \<le> length buf0" and tag: "l < f_tag f" "-1 \<le> l"
  shows "\<exists>r s'. encode_field cb h f e s = Some (r, s') \<and>
    (case r of Inl (k, b) \<Rightarrow> k = -1 \<and> same h (nat z) buf0 b \<and> e_size e < int (field_need val need f)
     | Inr e1 \<Rightarrow> at fs s' \<and> enc_inv h hs z buf0 (ws @ field_words val l f) (ds @ field_data (val f)) (next_tag val l f) e1)"
proof -
  note i = inv [unfolded enc_inv_def]
  have len: "length (e_buf e) = length buf0" using i same_length by blast
  have rm: "e_data e + nat (e_size e) \<le> length (e_buf e)" using i room len by linarith
  have hw: "2 + 2 * length ws \<le> hs" using hs cap by simp
  have tg: "f_tag f < 0x7FFF" using wf by (simp add: wf_field_def)
  define ok where "ok = (\<lambda>q s'. case q of Inl (k, b) \<Rightarrow> k = (-1 :: int) \<and> same h (nat z) buf0 b \<and> e_size e < int (field_need val need f)
     | Inr e1 \<Rightarrow> at fs s' \<and> enc_inv h hs z buf0 (ws @ field_words val l f) (ds @ field_data (val f)) (next_tag val l f) e1)"
  have fin: "\<exists>q. finish_field h f (Inr (x, m)) (e\<lparr>e_buf := b\<rparr>) = Some q \<and> ok q s'"
    if sm: "same (e_data e) (nat (e_size e)) (e_buf e) b"
      and res: "m = -1 \<and> e_size e < int (field_need val need f) \<or>
        m = 0 \<and> val f = Missing \<and> at fs s' \<or>
        field_parts (val f) = Some (x, field_data (val f)) \<and> 0 < m \<and> (x = 0 \<longrightarrow> m = int (length (field_data (val f)))) \<and>
          int (length (field_data (val f))) \<le> e_size e \<and> has b (e_data e) (field_data (val f)) \<and> at fs s'"
    for x m b s'
  proof -
    note ib = enc_inv_buf [OF inv room hw sm]
    from res show ?thesis
    proof (elim disjE conjE)
      assume "m = -1" "e_size e < int (field_need val need f)"
      moreover have "same h (nat z) buf0 b" using ib by (simp add: enc_inv_def)
      ultimately show ?thesis by (simp add: finish_field_def ok_def)
    next
      assume "m = 0" "val f = Missing" "at fs s'"
      then show ?thesis using ib by (simp add: finish_field_def ok_def field_words_def field_data_def next_tag_def)
    next
      assume a: "field_parts (val f) = Some (x, field_data (val f))" "0 < m" "x = 0 \<longrightarrow> m = int (length (field_data (val f)))"
        "int (length (field_data (val f))) \<le> e_size e" "has b (e_data e) (field_data (val f))" "at fs s'"
      have inl: "x \<noteq> 0 \<longrightarrow> field_data (val f) = []" using field_parts_inline [OF a(1)] by blast
      have "\<exists>e1. put_record h f x m (e\<lparr>e_buf := b\<rparr>) = Some (Some e1) \<and>
          enc_inv h hs z buf0 (ws @ field_words val l f) (ds @ field_data (val f)) (f_tag f) e1"
        by (rule put_record_spec [OF ib hs cap room a(1,2,3) inl]) (use a tag tg in simp_all)
      then obtain e1 where "put_record h f x m (e\<lparr>e_buf := b\<rparr>) = Some (Some e1)"
        "enc_inv h hs z buf0 (ws @ field_words val l f) (ds @ field_data (val f)) (f_tag f) e1" by blast
      then show ?thesis using a by (simp add: finish_field_def ok_def next_tag_def)
    qed
  qed
  have parts: "m = -1 \<and> e_size e < int (field_need val need f) \<or> m = 0 \<and> val f = Missing \<and> at fs s' \<or>
        field_parts (val f) = Some (0, field_data (val f)) \<and> 0 < m \<and> (0 = (0::int) \<longrightarrow> m = int (length (field_data (val f)))) \<and>
          int (length (field_data (val f))) \<le> e_size e \<and> has b (e_data e) (field_data (val f)) \<and> at fs s'"
    if "part_done f fs (e_data e) (e_size e) (e_buf e) (m, b, s')" "\<And>w u. val f \<noteq> Number w u" for m b s'
    using that by (cases "val f") (auto simp: part_done_def field_data_def)
  have "is_array f \<and> f_type f = SPROTO_TARRAY + elem_type f \<or>
      \<not> is_array f \<and> f_type f = elem_type f \<and> (f_type f = SPROTO_TINTEGER \<or> f_type f = SPROTO_TDOUBLE \<or> f_type f = SPROTO_TBOOLEAN) \<or>
      \<not> is_array f \<and> f_type f = elem_type f \<and> (f_type f = SPROTO_TSTRING \<or> f_type f = SPROTO_TSTRUCT)"
    using wf_field_type [OF wf] by auto
  moreover have "\<exists>q s'. encode_field cb h f e s = Some (q, s') \<and> ok q s'" if arr: "is_array f" "f_type f = SPROTO_TARRAY + elem_type f"
  proof -
    from array_spec [OF st arr(1) rm] obtain m b s' where a: "encode_array cb f (e_buf e) (e_data e) (e_size e) s = Some (m, b, s')"
      "part_done f fs (e_data e) (e_size e) (e_buf e) (m, b, s')" by (metis prod_cases3)
    have nn: "val f \<noteq> Number w u" for w u using fitting [OF st] arr(1) by (auto simp: fits_def)
    have sm: "same (e_data e) (nat (e_size e)) (e_buf e) b" using a(2) by (simp add: part_done_def)
    from fin [OF sm parts [OF a(2) nn]] show ?thesis using a(1) arr(1) by (auto simp: encode_field_def is_array_def)
  qed
  moreover have "\<exists>q s'. encode_field cb h f e s = Some (q, s') \<and> ok q s'"
    if num: "\<not> is_array f" "f_type f = elem_type f" "f_type f = SPROTO_TINTEGER \<or> f_type f = SPROTO_TDOUBLE \<or> f_type f = SPROTO_TBOOLEAN"
  proof -
    have na: "\<not> f_type f AND SPROTO_TARRAY \<noteq> 0" using num(1) by (simp add: is_array_def)
    have enc: "encode_field cb h f e s = do {
      (r, buf, s1) \<leftarrow> encode_number cb f (e_buf e) (e_data e) (e_size e) s;
      q \<leftarrow> finish_field h f r (e\<lparr>e_buf := buf\<rparr>);
      Some (q, s1) }"
      using na num(3) unfolding encode_field_def Let_def by auto
    show ?thesis
    proof (cases "val f")
      case Missing
      from missing [OF st num(1) this, of "Local 0" 8 "e_buf e"] obtain u s' where
        cb: "cb (field_arg f (f_type f) 0 (Local 0) 8) (e_buf e) s = Some (SPROTO_CB_NIL, u, e_buf e, s')" "at fs s'" by blast
      then have a: "encode_number cb f (e_buf e) (e_data e) (e_size e) s = Some (Inr (0, 0), e_buf e, s')"
        by (simp add: encode_number_def SPROTO_CB_NIL_def)
      show ?thesis unfolding enc a using fin [of "e_buf e" 0 s' 0] cb(2) Missing by auto
    next
      case (Number w u)
      have "0 \<le> e_size e" using i by blast
      from number_spec [OF st num(1) rm this Number] obtain x m b s' where
        a: "encode_number cb f (e_buf e) (e_data e) (e_size e) s = Some (Inr (x, m), b, s')" and sm: "same (e_data e) (nat (e_size e)) (e_buf e) b"
        and r: "m = -1 \<and> e_size e < int (field_need val need f) \<or> field_parts (val f) = Some (x, field_data (val f)) \<and> 0 < m \<and>
          (x = 0 \<longrightarrow> m = int (length (field_data (val f)))) \<and> int (length (field_data (val f))) \<le> e_size e \<and> has b (e_data e) (field_data (val f)) \<and> at fs s'"
        by blast
      have "\<exists>q. finish_field h f (Inr (x, m)) (e\<lparr>e_buf := b\<rparr>) = Some q \<and> ok q s'" by (rule fin [OF sm]) (use r in blast)
      then show ?thesis unfolding enc a by auto
    qed (use fitting [OF st] num in \<open>auto simp: fits_def sproto_type_defs\<close>)
  qed
  moreover have "\<exists>q s'. encode_field cb h f e s = Some (q, s') \<and> ok q s'"
    if obj: "\<not> is_array f" "f_type f = elem_type f" "f_type f = SPROTO_TSTRING \<or> f_type f = SPROTO_TSTRUCT"
  proof -
    have na: "\<not> f_type f AND SPROTO_TARRAY \<noteq> 0" using obj(1) by (simp add: is_array_def)
    have nn: "\<not> (f_type f = SPROTO_TDOUBLE \<or> f_type f = SPROTO_TINTEGER \<or> f_type f = SPROTO_TBOOLEAN)" using obj(3) by (auto simp: sproto_type_defs)
    have v: "val f = Missing \<or> (\<exists>bs. val f = Bytes bs)" using fitting [OF st] obj by (cases "val f") (auto simp: fits_def sproto_type_defs)
    then obtain m b s' where a: "encode_object cb f (e_buf e) (e_data e) (e_size e) s = Some (m, b, s')"
      "part_done f fs (e_data e) (e_size e) (e_buf e) (m, b, s')" using object_spec [OF st obj(1) rm] by (metis prod_cases3)
    have nv: "val f \<noteq> Number w u" for w u using v by auto
    have sm: "same (e_data e) (nat (e_size e)) (e_buf e) b" using a(2) by (simp add: part_done_def)
    have enc: "encode_field cb h f e s = do { q \<leftarrow> finish_field h f (Inr (0, m)) (e\<lparr>e_buf := b\<rparr>); Some (q, s') }"
      unfolding encode_field_def Let_def if_not_P [OF na] if_not_P [OF nn] using a(1) obj(3) by auto
    from fin [OF sm parts [OF a(2) nv]] show ?thesis unfolding enc by auto
  qed
  ultimately show ?thesis unfolding ok_def by blast
qed

lemma field_data_need: "length (field_data (val f)) \<le> field_need val need f"
proof (cases "val f")
  case (Numbers xs)
  then show ?thesis by (simp add: field_data_def field_need_def numbers_data_def length_number_bytes)
qed (auto simp: field_data_def field_need_def bool_bytes_def)

lemma field_words_Cons: "length (entry_words val l (f # fs)) = length (field_words val l f) + length (entry_words val (next_tag val l f) fs)"
  by (simp only: entry_words_Cons length_append)

lemma fields_run:
  "at fs s \<Longrightarrow> \<forall>f \<in> set fs. wf_field n f \<Longrightarrow> enc_inv h hs z buf0 ws ds l e \<Longrightarrow> hs = 2 + 2 * maxn \<Longrightarrow>
   length ws + length (entry_words val l fs) \<le> maxn \<Longrightarrow> h + nat z \<le> length buf0 \<Longrightarrow> ascending prev fs \<Longrightarrow> l \<le> prev \<Longrightarrow> -1 \<le> l \<Longrightarrow>
   \<exists>r s'. encode_fields cb h fs e s = Some (r, s') \<and>
    (case r of Inl (k, b) \<Rightarrow> k = -1 \<and> same h (nat z) buf0 b \<and> e_size e < int (fields_need val need fs)
     | Inr e1 \<Rightarrow> at [] s' \<and> (\<exists>l'. enc_inv h hs z buf0 (ws @ entry_words val l fs) (ds @ data_bytes val fs) l' e1))"
proof (induction fs arbitrary: s ws ds l e prev)
  case Nil
  then show ?case by (auto simp: data_bytes_def)
next
  case (Cons f fs)
  have wf: "wf_field n f" and t: "l < f_tag f" "ascending (f_tag f) fs" using Cons.prems by auto
  have cap: "length ws + length (field_words val l f) \<le> maxn" using Cons.prems(5) unfolding field_words_Cons by linarith
  obtain r s1 where step: "encode_field cb h f e s = Some (r, s1)" and r: "case r of Inl (k, b) \<Rightarrow> k = -1 \<and> same h (nat z) buf0 b \<and> e_size e < int (field_need val need f)
     | Inr e1 \<Rightarrow> at fs s1 \<and> enc_inv h hs z buf0 (ws @ field_words val l f) (ds @ field_data (val f)) (next_tag val l f) e1"
    using field_step [OF Cons.prems(1) wf Cons.prems(3,4) cap Cons.prems(6) t(1) Cons.prems(9)] by blast
  show ?case
  proof (cases r)
    case (Inl kb)
    then show ?thesis using step r by (cases kb) (auto simp: fields_need_def)
  next
    case (Inr e1)
    let ?l = "next_tag val l f"
    have e1: "at fs s1" "enc_inv h hs z buf0 (ws @ field_words val l f) (ds @ field_data (val f)) ?l e1" using r Inr by simp_all
    have c: "length (ws @ field_words val l f) + length (entry_words val ?l fs) \<le> maxn" using Cons.prems(5) unfolding field_words_Cons by simp
    have l: "?l \<le> f_tag f" "-1 \<le> ?l" using t(1) Cons.prems(9) by (auto simp: next_tag_def)
    have wfs: "\<forall>f \<in> set fs. wf_field n f" using Cons.prems(2) by simp
    from Cons.IH [OF e1(1) wfs e1(2) Cons.prems(4) c Cons.prems(6) t(2) l] obtain r2 s2 where
      r2: "encode_fields cb h fs e1 s1 = Some (r2, s2)" "case r2 of Inl (k, b) \<Rightarrow> k = -1 \<and> same h (nat z) buf0 b \<and> e_size e1 < int (fields_need val need fs)
     | Inr e1 \<Rightarrow> at [] s2 \<and> (\<exists>l'. enc_inv h hs z buf0 ((ws @ field_words val l f) @ entry_words val ?l fs) ((ds @ field_data (val f)) @ data_bytes val fs) l' e1)"
      by blast
    have run: "encode_fields cb h (f # fs) e s = Some (r2, s2)" using step Inr r2(1) by simp
    show ?thesis
    proof (cases r2)
      case Inl2: (Inl kb)
      have "e_size e1 = e_size e - int (length (field_data (val f)))" using e1(2) Cons.prems(3) by (simp add: enc_inv_def)
      then have "e_size e < int (fields_need val need (f # fs))" if "e_size e1 < int (fields_need val need fs)"
        using that field_data_need [of f] by (simp add: fields_need_def)
      then show ?thesis using run r2(2) Inl2 by (cases kb) auto
    next
      case Inr2: (Inr e2)
      then show ?thesis using run r2(2) unfolding entry_words_Cons data_bytes_def by auto
    qed
  qed
qed

text \<open>The encoder writes the message of the values, within its room; it fails only for want of room.\<close>

lemma sproto_encode_spec:
  assumes st: "at (t_f st) s" and wf: "wf_type n st" and room: "h + nat z \<le> length buf" and z: "0 \<le> z"
  shows "\<exists>r buf' s'. sproto_encode cb st buf h z s = Some (r, buf', s') \<and> same h (nat z) buf buf' \<and>
    (r = -1 \<and> z < int (message_need val need st) \<or>
     r = int (length (message val (t_f st))) \<and> r \<le> z \<and> has buf' h (message val (t_f st)) \<and> at [] s')"
proof (cases "z < 2 + 2 * int (t_maxn st)")
  case True
  then show ?thesis by (simp add: sproto_encode_def SIZEOF_HEADER_def SIZEOF_FIELD_def message_need_def)
next
  case False
  let ?hs = "2 + 2 * t_maxn st" let ?ws = "entry_words val (-1) (t_f st)" let ?ds = "data_bytes val (t_f st)"
  let ?e = "\<lparr>e_buf = buf, e_data = h + ?hs, e_size = z - int ?hs, e_index = 0, e_lasttag = -1\<rparr>"
  have w: "\<forall>f \<in> set (t_f st). wf_field n f" "ascending (-1) (t_f st)" "t_maxn st = length (t_f st) + gaps (-1) (t_f st)" using wf by (simp_all add: wf_type_def)
  have hsz: "int ?hs \<le> z" using False by simp
  have "h + ?hs \<le> length buf" using room hsz by linarith
  then have inv: "enc_inv h ?hs z buf [] [] (-1) ?e" using hsz by (simp add: enc_inv_def words_bytes_def)
  have cap: "length ?ws \<le> t_maxn st" using entry_words_length [OF w(2), of "-1" val] w(3) by simp
  have cap0: "length ([] :: int list) + length ?ws \<le> t_maxn st" using cap by simp
  have e0: "e_size ?e = z - int ?hs" "[] @ ?ws = ?ws" "[] @ ?ds = ?ds" by simp_all
  from fields_run [OF st w(1) inv refl cap0 room w(2) order_refl order_refl, unfolded e0] obtain r s' where r: "encode_fields cb h (t_f st) ?e s = Some (r, s')"
    "case r of Inl (k, b) \<Rightarrow> k = -1 \<and> same h (nat z) buf b \<and> z - int ?hs < int (fields_need val need (t_f st))
     | Inr e1 \<Rightarrow> at [] s' \<and> (\<exists>l'. enc_inv h ?hs z buf ?ws ?ds l' e1)" by blast
  have enc: "sproto_encode cb st buf h z s = (case r of
         Inl (n, buf1) \<Rightarrow> Some (n, buf1, s')
       | Inr e \<Rightarrow> do {
           buf1 \<leftarrow> put_bytes (e_buf e) h (word_bytes (int (e_index e)));
           let datasz = e_data e - (h + ?hs);
           buf2 \<leftarrow> (if e_index e \<noteq> t_maxn st then move_bytes buf1 (h + 2 + e_index e * 2) (h + ?hs) datasz else Some buf1);
           Some (int (2 + e_index e * 2 + datasz), buf2, s') })"
  proof -
    have "\<not> z < int ?hs" using hsz by simp
    then show ?thesis unfolding sproto_encode_def Let_def SIZEOF_HEADER_def SIZEOF_FIELD_def mult.commute [of "t_maxn st" 2]
      using r(1) by (simp only: if_False Option.bind.bind_lunit prod.case)
  qed
  show ?thesis
  proof (cases r)
    case (Inl kb)
    then show ?thesis using r(2) unfolding enc by (cases kb) (auto simp: message_need_def)
  next
    case (Inr e)
    then obtain l' where e: "enc_inv h ?hs z buf ?ws ?ds l' e" and fin: "at [] s'" using r(2) by auto
    note i = e [unfolded enc_inv_def]
    have len: "length (e_buf e) = length buf" using i same_length by blast
    have hl: "h + 2 \<le> length (e_buf e)" using hsz room len by linarith
    from put_word [OF hl, of "int (length ?ws)"] obtain b1 where b1: "put_bytes (e_buf e) h (word_bytes (int (length ?ws))) = Some b1"
      "same h 2 (e_buf e) b1" "has b1 h (word_bytes (int (length ?ws)))" .
    have ws: "has b1 (h + 2) (words_bytes ?ws)" by (rule has_same [OF _ b1(2)]) (use i in simp_all)
    have ds: "has b1 (h + ?hs) ?ds" by (rule has_same [OF _ b1(2)]) (use i in simp_all)
    have "same h (nat z) (e_buf e) b1" by (rule same_mono [OF b1(2)]) (use hsz in linarith)+
    then have s1: "same h (nat z) buf b1" using i same_trans by blast
    have dz: "int ?hs + int (length ?ds) \<le> z" using i by linarith
    have datasz: "e_data e - (h + ?hs) = length ?ds" using i by simp
    have ml: "length (message val (t_f st)) = 2 + length ?ws * 2 + length ?ds" by (simp add: message_def Let_def)
    show ?thesis
    proof (cases "length ?ws = t_maxn st")
      case True
      then have "has b1 h (message val (t_f st))" using b1(3) ws ds unfolding message_def Let_def by (simp add: has_append)
      then show ?thesis using Inr b1(1) True i fin s1 dz ml unfolding enc by (simp add: Let_def)
    next
      case ne: False
      let ?q = "h + 2 + length ?ws * 2"
      have rm: "h + ?hs + length ?ds \<le> length b1" using ds by (simp add: has_def)
      have "?q + length ?ds \<le> length b1" using rm cap by simp
      from put_bytes_spec [OF this] obtain b2 where b2: "put_bytes b1 ?q ?ds = Some b2" "same ?q (length ?ds) b1 b2" "has b2 ?q ?ds" .
      have mv: "move_bytes b1 ?q (h + ?hs) (length ?ds) = Some b2" using b2(1) rm has_take_drop [OF ds] by (simp add: move_bytes_def)
      have c2: "has b2 h (word_bytes (int (length ?ws)))" "has b2 (h + 2) (words_bytes ?ws)"
        by (rule has_same [OF b1(3) b2(2)], simp) (rule has_same [OF ws b2(2)], simp)
      have hm: "has b2 h (message val (t_f st))" using c2 b2(3) unfolding message_def Let_def by (simp add: has_append mult.commute add.assoc)
      have "same h (nat z) b1 b2" by (rule same_mono [OF b2(2)]) (use dz cap in linarith)+
      then have s2: "same h (nat z) buf b2" by (rule same_trans [OF s1])
      show ?thesis using Inr b1(1) ne i fin s2 hm dz ml cap mv datasz unfolding enc by (simp add: Let_def)
    qed
  qed
qed

end

end
