(* ===== verification/SprotoDecode.thy ===== *)
theory SprotoDecode
  imports SprotoEncode
begin

text \<open>
  What \<open>sproto_decode\<close> asks its callback for, when the memory holds a message.
\<close>

section \<open>Calls\<close>

text \<open>The callback is asked for one value after the other and accepts each.\<close>

fun calls :: "'s dec_cb \<Rightarrow> sproto_arg list \<Rightarrow> 's \<Rightarrow> 's option" where
  "calls cb [] s = Some s"
| "calls cb (a # as) s = do { (r, s1) \<leftarrow> cb a s; if r \<noteq> 0 then None else calls cb as s1 }"

lemma calls_append: "calls cb (as @ bs) s = do { s1 \<leftarrow> calls cb as s; calls cb bs s1 }"
  by (induction as arbitrary: s) (auto split: Option.bind_split)

definition number_calls :: "field_desc \<Rightarrow> u64 list \<Rightarrow> sproto_arg list" where
  "number_calls f vs = map (\<lambda>i. field_arg f (elem_type f) (int i + 1) (Local (vs ! i)) 8) [0..<length vs]"

fun blob_calls :: "field_desc \<Rightarrow> nat \<Rightarrow> int \<Rightarrow> u8 list list \<Rightarrow> sproto_arg list" where
  "blob_calls f q i [] = []"
| "blob_calls f q i (b # bs) = field_arg f (elem_type f) i (At (q + 4)) (int (length b)) # blob_calls f (q + 4 + length b) (i + 1) bs"

definition empty_call :: "field_desc \<Rightarrow> sproto_arg list" where
  "empty_call f = [field_arg f (elem_type f) (-1) Nowhere 0]"

text \<open>The calls for a field whose data start at \<open>p\<close>.\<close>

fun field_calls :: "nat \<Rightarrow> field_desc \<Rightarrow> fval \<Rightarrow> sproto_arg list" where
  "field_calls p f Missing = []"
| "field_calls p f (Number w u) = [field_arg f (elem_type f) 0 (Local (number64 w u)) 8]"
| "field_calls p f (Bytes bs) = [field_arg f (elem_type f) 0 (At (p + 4)) (int (length bs))]"
| "field_calls p f (Numbers xs) = (if xs = [] then empty_call f else number_calls f (map (\<lambda>x. number64 (fst x) (snd x)) xs))"
| "field_calls p f (Bools bs) = (if bs = [] then empty_call f else number_calls f (map (\<lambda>b. if b then 1 else 0) bs))"
| "field_calls p f (Blobs bs) = (if bs = [] then empty_call f else blob_calls f (p + 4) 1 bs)"

fun data_calls :: "(field_desc \<Rightarrow> fval) \<Rightarrow> nat \<Rightarrow> field_desc list \<Rightarrow> sproto_arg list" where
  "data_calls val p [] = []"
| "data_calls val p (f # fs) = field_calls p f (val f) @ data_calls val (p + length (field_data (val f))) fs"

definition message_calls :: "(field_desc \<Rightarrow> fval) \<Rightarrow> nat \<Rightarrow> field_desc list \<Rightarrow> sproto_arg list" where
  "message_calls val p fs = data_calls val (p + 2 + 2 * length (entry_words val (-1) fs)) fs"

section \<open>Numbers\<close>

lemma each_number_calls:
  "\<forall>i \<in> set is. get i = Some (vs ! i) \<Longrightarrow> calls cb (map (\<lambda>i. field_arg f (elem_type f) (int i + 1) (Local (vs ! i)) 8) is) s = Some s' \<Longrightarrow>
   each_number cb f get is s = Some s'"
proof (induction "is" arbitrary: s)
  case Nil
  then show ?case by simp
next
  case (Cons i "is")
  then obtain s1 where "cb (field_arg f (elem_type f) (int i + 1) (Local (vs ! i)) 8) s = Some (0, s1)"
    "calls cb (map (\<lambda>i. field_arg f (elem_type f) (int i + 1) (Local (vs ! i)) 8) is) s1 = Some s'"
    by (auto split: bind_splits if_splits)
  then show ?case using Cons by (simp add: elem_type_def)
qed

lemma has_elem:
  "has data p (concat (map g xs)) \<Longrightarrow> \<forall>x. length (g x) = c \<Longrightarrow> i < length xs \<Longrightarrow> has data (p + i * c) (g (xs ! i))"
proof (induction xs arbitrary: p i)
  case Nil
  then show ?case by simp
next
  case (Cons x xs)
  then have h: "has data p (g x)" "has data (p + c) (concat (map g xs))" by (simp_all add: has_append)
  show ?case
  proof (cases i)
    case 0
    then show ?thesis using h by simp
  next
    case (Suc j)
    then show ?thesis using Cons.IH [OF h(2) Cons.prems(2), of j] Cons.prems(3) by (simp add: add.assoc)
  qed
qed

lemma sint_nat_small: "n < 2 ^ 31 \<Longrightarrow> sint (of_nat n :: u32) = int n"
  by (simp add: signed_of_nat signed_take_bit_int_eq_self_iff)

lemma unat_nat_small: "n < 2 ^ 31 \<Longrightarrow> unat (of_nat n :: u32) = n"
  by (simp add: unsigned_of_nat take_bit_nat_eq_self)

lemma sized_todword: "has data p (sized bs) \<Longrightarrow> todword data p = Some (of_nat (length bs))"
  by (rule todword_has) (simp add: sized_def has_append)

lemma sized_content: "has data p (sized bs) \<Longrightarrow> has data (p + 4) bs"
  by (simp add: sized_def has_append)

declare object_loop.simps [simp del]

lemma object_loop_calls:
  "has data q (blobs_data bs) \<Longrightarrow> int (length (blobs_data bs)) < 2 ^ 31 \<Longrightarrow> calls cb (blob_calls f q i bs) s = Some s' \<Longrightarrow>
   object_loop cb data f q (int (length (blobs_data bs))) i s = Some (0, s')"
proof (induction bs arbitrary: q i s)
  case Nil
  then show ?case by (subst object_loop.simps) (simp add: blobs_data_def)
next
  case (Cons b bs)
  let ?n = "length b" let ?m = "length (blobs_data bs)"
  have bd: "blobs_data (b # bs) = sized b @ blobs_data bs" by (simp add: blobs_data_def)
  have h: "has data q (sized b)" "has data (q + 4 + ?n) (blobs_data bs)" using Cons.prems(1) by (simp_all add: bd has_append add.assoc)
  have sz: "4 + ?n + ?m < 2 ^ 31" using Cons.prems(2) by (simp add: bd)
  obtain s1 where cb: "cb (field_arg f (elem_type f) i (At (q + 4)) (int ?n)) s = Some (0, s1)"
    and rest: "calls cb (blob_calls f (q + 4 + ?n) (i + 1) bs) s1 = Some s'" using Cons.prems(3) by (auto split: bind_splits if_splits)
  have "int ?m < 2 ^ 31" using sz by simp
  note ih = Cons.IH [OF h(2) this rest]
  have sn: "sint (of_nat ?n :: u32) = int ?n" "unat (of_nat ?n :: u32) = ?n" using sz by (simp_all add: sint_nat_small unat_nat_small)
  have lq: "q + 4 \<le> length data" using h(1) by (simp add: has_def)
  have sub: "sub32 (int (4 + ?n + ?m) - 4) (of_nat ?n) = int ?m"
  proof -
    have "of_int (int (4 + ?n + ?m) - 4) - of_nat ?n = (of_nat ?m :: u32)" by simp
    then show ?thesis using sint_nat_small [of ?m] sz by (simp add: sub32_def)
  qed
  show ?case
    using sized_todword [OF h(1)] cb ih lq sn sub
    by (subst object_loop.simps) (simp add: bd SIZEOF_LENGTH_def elem_type_def add.assoc)
qed

lemma expand64_narrow: "\<not> any_wide xs \<Longrightarrow> x \<in> set xs \<Longrightarrow> number64 (fst x) (snd x) = expand64 (ucast (snd x))"
  by (auto simp: any_wide_def number64_def)

lemma decode_numbers:
  assumes h: "has data p (sized (numbers_data xs))" and sz: "length (numbers_data xs) < 2 ^ 31" and ne: "xs \<noteq> []"
    and t: "elem_type f = SPROTO_TDOUBLE \<or> elem_type f = SPROTO_TINTEGER"
    and c: "calls cb (number_calls f (map (\<lambda>x. number64 (fst x) (snd x)) xs)) s = Some s'"
  shows "decode_array cb data f p s = Some (0, s')"
proof -
  let ?vs = "map (\<lambda>x. number64 (fst x) (snd x)) xs" let ?k = "length xs"
  have d: "todword data p = Some (of_nat (length (numbers_data xs)))" by (rule sized_todword [OF h])
  have ct: "has data (p + 4) (numbers_data xs)" by (rule sized_content [OF h])
  have nd: "numbers_data xs = (if any_wide xs then 8 else 4) # number_bytes xs" using ne by (simp add: numbers_data_def)
  have len: "arr_get data (p + 4) = Some (if any_wide xs then 8 else 4)" and nb: "has data (p + 5) (number_bytes xs)"
    using ct unfolding nd has_Cons by (simp_all add: add.commute)
  let ?m = "length (number_bytes xs)"
  have lm: "length (numbers_data xs) = Suc ?m" by (simp add: nd)
  have n0: "(of_nat (Suc ?m) :: u32) \<noteq> 0"
  proof
    assume "(of_nat (Suc ?m) :: u32) = 0"
    then have "unat (of_nat (Suc ?m) :: u32) = 0" by (simp only: unsigned_0)
    then show False using unat_nat_small [of "Suc ?m"] sz lm by simp
  qed
  have m1: "(of_nat (Suc ?m) :: u32) - 1 = of_nat ?m" by simp
  have sm: "?m < 2 ^ 31" using sz lm by simp
  have st: "nat (sint (of_nat ?m :: u32)) = ?m" using sint_nat_small [OF sm] by simp
  have md: "(of_nat ?m :: u32) mod (if any_wide xs then 8 else 4) = 0"
  proof -
    have "unat ((of_nat ?m :: u32) mod (if any_wide xs then 8 else 4)) = ?m mod (if any_wide xs then 8 else 4)"
      by (simp add: unat_mod_distrib unat_nat_small [OF sm])
    also have "\<dots> = 0" by (simp add: length_number_bytes)
    finally show ?thesis by (simp only: unat_eq_0)
  qed
  have c': "calls cb (map (\<lambda>i. field_arg f (elem_type f) (int i + 1) (Local (?vs ! i)) 8) [0..<?k]) s = Some s'"
    using c by (simp only: number_calls_def length_map)
  have p5: "p + 5 = p + 4 + 1" by simp
  show ?thesis
  proof (cases "any_wide xs")
    case True
    have q: "?m div 8 = ?k" using True by (simp add: length_number_bytes)
    have "\<forall>i \<in> set [0..<?k]. get_uint64 data (p + 5 + i * 8) = Some (?vs ! i)"
    proof
      fix i assume "i \<in> set [0..<?k]"
      then have i: "i < ?k" by simp
      have "has data (p + 5 + i * 8) (qword_bytes (number64 (fst (xs ! i)) (snd (xs ! i))))"
        using has_elem [OF _ _ i, of data "p + 5" "\<lambda>x. qword_bytes (number64 (fst x) (snd x))" 8] nb True by (simp add: number_bytes_def wide_bytes_def)
      then show "get_uint64 data (p + 5 + i * 8) = Some (?vs ! i)" using get_uint64_has i by simp
    qed
    from each_number_calls [OF this c'] have e: "each_number cb f (\<lambda>i. get_uint64 data (p + 5 + i * 8)) [0..<?k] s = Some s'" .
    show ?thesis using d n0 len m1 st md q True t e [unfolded p5] unfolding decode_array_def Let_def lm
      by (simp add: elem_type_def SIZEOF_LENGTH_def del: of_nat_Suc)
  next
    case False
    have q: "?m div 4 = ?k" using False by (simp add: length_number_bytes)
    have "\<forall>i \<in> set [0..<?k]. do { v \<leftarrow> todword data (p + 5 + i * 4); Some (expand64 v) } = Some (?vs ! i)"
    proof
      fix i assume "i \<in> set [0..<?k]"
      then have i: "i < ?k" by simp
      have "has data (p + 5 + i * 4) (dword_bytes (ucast (snd (xs ! i))))"
        using has_elem [OF _ _ i, of data "p + 5" "\<lambda>x. dword_bytes (ucast (snd x))" 4] nb False by (simp add: number_bytes_def narrow_bytes_def)
      then show "do { v \<leftarrow> todword data (p + 5 + i * 4); Some (expand64 v) } = Some (?vs ! i)"
        using todword_has expand64_narrow [OF False nth_mem [OF i]] i by simp
    qed
    from each_number_calls [OF this c'] have e: "each_number cb f (\<lambda>i. do { v \<leftarrow> todword data (p + 5 + i * 4); Some (expand64 v) }) [0..<?k] s = Some s'" .
    show ?thesis using d n0 len m1 st md q False t e [unfolded p5] unfolding decode_array_def Let_def lm
      by (simp add: elem_type_def SIZEOF_LENGTH_def del: of_nat_Suc)
  qed
qed

lemma decode_empty:
  assumes "has data p (sized [])" and "calls cb (empty_call f) s = Some s'"
  shows "decode_array cb data f p s = Some (0, s')"
  using sized_todword [OF assms(1)] assms(2)
  by (auto simp: decode_array_def empty_call_def elem_type_def split: bind_splits if_splits)

lemma size_nonzero: "0 < n \<Longrightarrow> n < 2 ^ 31 \<Longrightarrow> (of_nat n :: u32) \<noteq> 0"
proof
  assume "0 < n" "n < 2 ^ 31" "(of_nat n :: u32) = 0"
  then have "unat (of_nat n :: u32) = 0" by (simp only: unsigned_0)
  then show False using unat_nat_small [OF \<open>n < 2 ^ 31\<close>] \<open>0 < n\<close> by simp
qed

lemma decode_bools:
  assumes h: "has data p (sized (bool_bytes bs))" and sz: "length bs < 2 ^ 31" and ne: "bs \<noteq> []"
    and t: "elem_type f = SPROTO_TBOOLEAN"
    and c: "calls cb (number_calls f (map (\<lambda>b. if b then 1 else 0) bs)) s = Some s'"
  shows "decode_array cb data f p s = Some (0, s')"
proof -
  let ?vs = "map (\<lambda>b. if b then 1 else 0) bs :: u64 list"
  have lb: "length (bool_bytes bs) = length bs" by (simp add: bool_bytes_def)
  have d: "todword data p = Some (of_nat (length bs))" using sized_todword [OF h] lb by simp
  have ct: "has data (p + 4) (bool_bytes bs)" by (rule sized_content [OF h])
  have "\<forall>i \<in> set [0..<length bs]. do { v \<leftarrow> arr_get data (p + 4 + i); Some (ucast v) } = Some (?vs ! i)"
  proof
    fix i assume "i \<in> set [0..<length bs]"
    then have i: "i < length bs" by simp
    then have "arr_get data (p + 4 + i) = Some (if bs ! i then 1 else 0)" using has_list [OF ct, of i] lb by (simp add: bool_bytes_def)
    then show "do { v \<leftarrow> arr_get data (p + 4 + i); Some (ucast v) } = Some (?vs ! i)" using i by simp
  qed
  from each_number_calls [OF this, of cb f s s'] c
  have e: "each_number cb f (\<lambda>i. do { v \<leftarrow> arr_get data (p + 4 + i); Some (ucast v) }) [0..<length bs] s = Some s'" by (simp add: number_calls_def)
  have n0: "(of_nat (length bs) :: u32) \<noteq> 0" using size_nonzero [of "length bs"] ne sz by simp
  have st: "nat (sint (of_nat (length bs) :: u32)) = length bs" using sint_nat_small [OF sz] by simp
  show ?thesis using d n0 st t e unfolding decode_array_def Let_def
    by (simp add: elem_type_def SIZEOF_LENGTH_def sproto_type_defs)
qed

lemma decode_blobs:
  assumes h: "has data p (sized (blobs_data bs))" and sz: "length (blobs_data bs) < 2 ^ 31" and ne: "bs \<noteq> []"
    and t: "elem_type f = SPROTO_TSTRING \<or> elem_type f = SPROTO_TSTRUCT"
    and c: "calls cb (blob_calls f (p + 4) 1 bs) s = Some s'"
  shows "decode_array cb data f p s = Some (0, s')"
proof -
  let ?n = "length (blobs_data bs)"
  have d: "todword data p = Some (of_nat ?n)" by (rule sized_todword [OF h])
  have ct: "has data (p + 4) (blobs_data bs)" by (rule sized_content [OF h])
  have "int ?n < 2 ^ 31" using sz by simp
  note ol = object_loop_calls [OF ct this c]
  have "0 < ?n" using ne by (cases bs) (simp_all add: blobs_data_def)
  then have n0: "(of_nat ?n :: u32) \<noteq> 0" using size_nonzero [of ?n] sz by simp
  have st: "sint (of_nat ?n :: u32) = int ?n" using sint_nat_small [OF sz] .
  show ?thesis using d n0 st t ol unfolding decode_array_def Let_def
    by (auto simp: elem_type_def SIZEOF_LENGTH_def sproto_type_defs)
qed

section \<open>Fields\<close>

lemma inline_not_0 [simp]: "uint (a :: u32) * 2 + 2 \<noteq> 0"
  using uint_ge_0 [of a] by linarith

lemma decode_data_calls:
  assumes h: "has data p (field_data (val f))" and parts: "field_parts (val f) = Some (0, d)" and fit: "fits f (val f)" and wf: "wf_field n f"
    and sz: "length (field_data (val f)) < 2 ^ 31" and c: "calls cb (field_calls p f (val f)) s = Some s'"
  shows "decode_data cb data f p s = Some (0, s')"
proof (cases "is_array f")
  case True
  have fa: "fits_array (elem_type f) (val f)" using fit True by (simp add: fits_def)
  have "decode_array cb data f p s = Some (0, s')"
  proof (cases "val f")
    case (Numbers xs)
    then show ?thesis
      using decode_numbers [of data p xs f cb s s'] decode_empty [of data p cb f s s'] h sz fa c
      by (auto simp: field_data_def numbers_data_def split: if_splits)
  next
    case (Bools bs)
    then show ?thesis
      using decode_bools [of data p bs f cb s s'] decode_empty [of data p cb f s s'] h sz fa c
      by (auto simp: field_data_def bool_bytes_def split: if_splits)
  next
    case (Blobs bs)
    then show ?thesis
      using decode_blobs [of data p bs f cb s s'] decode_empty [of data p cb f s s'] h sz fa c
      by (auto simp: field_data_def blobs_data_def split: if_splits)
  qed (use fa parts in simp_all)
  then show ?thesis using True by (simp add: decode_data_def is_array_def)
next
  case False
  then have na: "f_type f AND SPROTO_TARRAY = 0" and t: "f_type f = elem_type f" using wf_field_type [OF wf] by (auto simp: is_array_def)
  have fs: "fits_scalar (elem_type f) (val f)" using fit False by (simp add: fits_def)
  show ?thesis
  proof (cases "val f")
    case (Number w u)
    have cb: "cb (field_arg f (f_type f) 0 (Local (number64 w u)) 8) s = Some (0, s')" using c Number t by (auto split: bind_splits if_splits)
    have big: "w \<or> \<not> (ucast u :: u32) < 0x7FFF" using parts Number by (auto split: if_splits)
    have ty: "f_type f = SPROTO_TDOUBLE \<or> f_type f = SPROTO_TINTEGER" using fs Number t big by auto
    show ?thesis
    proof (cases w)
      case True
      then have hd: "has data p (sized (qword_bytes u))" using h Number by (simp add: field_data_def)
      have "todword data p = Some 8" using sized_todword [OF hd] by simp
      moreover have "get_uint64 data (p + 4) = Some u" by (rule get_uint64_has [OF sized_content [OF hd]])
      ultimately show ?thesis using na ty cb True by (simp add: decode_data_def number64_def SIZEOF_LENGTH_def)
    next
      case nw: False
      then have hd: "has data p (sized (dword_bytes (ucast u)))" using h Number big by (simp add: field_data_def)
      have "todword data p = Some 4" using sized_todword [OF hd] by simp
      moreover have "todword data (p + 4) = Some (ucast u)" by (rule todword_has [OF sized_content [OF hd]])
      ultimately show ?thesis using na ty cb nw by (simp add: decode_data_def number64_def SIZEOF_LENGTH_def)
    qed
  next
    case (Bytes bs)
    have cb: "cb (field_arg f (f_type f) 0 (At (p + 4)) (int (length bs))) s = Some (0, s')" using c Bytes t by (auto split: bind_splits if_splits)
    have hd: "has data p (sized bs)" using h Bytes by (simp add: field_data_def)
    have "length bs < 2 ^ 31" using sz Bytes by (simp add: field_data_def)
    then have "sint (of_nat (length bs) :: u32) = int (length bs)" by (rule sint_nat_small)
    moreover have "f_type f = SPROTO_TSTRING \<or> f_type f = SPROTO_TSTRUCT" using fs Bytes t by simp
    ultimately show ?thesis using na cb sized_todword [OF hd] by (auto simp: decode_data_def SIZEOF_LENGTH_def sproto_type_defs)
  qed (use fs parts in simp_all)
qed

lemma field_data_sized: "field_parts v = Some (0, d) \<Longrightarrow> \<exists>bs. field_data v = sized bs"
  by (cases v) (auto simp: field_data_def split: if_splits)

lemma inline_value:
  assumes "field_parts (Number w u) = Some (x, d)" "x \<noteq> 0"
  shows "\<not> w \<and> 2 \<le> x \<and> x < 0xFFFF \<and> even x \<and> of_int (x div 2 - 1) = number64 w u \<and> d = []"
proof -
  have w: "\<not> w" "(ucast u :: u32) < 0x7FFF" "x = (uint (ucast u :: u32) + 1) * 2" "d = []" using assms by (auto split: if_splits)
  have lt: "uint (ucast u :: u32) < 0x7FFF" using w(2) by (simp add: word_less_def)
  have "\<not> bit (ucast u :: u32) 31"
  proof
    assume b: "bit (ucast u :: u32) 31"
    have z: "uint (ucast u :: u32) div 2 ^ 31 = 0" using lt by (intro div_pos_pos_trivial) simp_all
    have "bit (uint (ucast u :: u32)) 31" using b by (simp add: bit_uint_iff)
    then have "odd (uint (ucast u :: u32) div 2 ^ 31)" unfolding bit_iff_odd .
    moreover have "even (uint (ucast u :: u32) div 2 ^ 31)" using z by (metis even_zero)
    ultimately show False by blast
  qed
  then have "number64 w u = ucast (ucast u :: u32)" using w(1) by (simp add: number64_def expand64_def top_bit)
  moreover have "of_int (x div 2 - 1) = (ucast (ucast u :: u32) :: u64)" using w(3) by simp
  ultimately show ?thesis using w lt by simp
qed

section \<open>Entries\<close>

lemma entry_words_range:
  assumes "field_parts (val f) = Some (x, d)" and "wf_field n f" and "-1 \<le> l" "l < f_tag f"
  shows "0 \<le> x \<and> x < 65536 \<and> (0 < f_tag f - l - 1 \<longrightarrow> 0 \<le> (f_tag f - l - 2) * 2 + 1 \<and> (f_tag f - l - 2) * 2 + 1 < 65536)"
proof -
  have "f_tag f < 0x7FFF" using assms(2) by (simp add: wf_field_def)
  moreover have "0 \<le> x \<and> x < 65536"
  proof (cases "x = 0")
    case False
    then show ?thesis
    proof (cases "val f")
      case (Number w u)
      from inline_value [OF assms(1) [unfolded Number] False] show ?thesis by simp
    qed (use assms(1) False in auto)
  qed simp
  ultimately show ?thesis using assms(3,4) by auto
qed

lemma find_field:
  assumes "wf_type n st" and "f \<in> set (t_f st)"
  shows "findtag st (f_tag f) = Some (Some f)"
proof -
  have srt: "sorted_wrt (<) (map f_tag (t_f st))" using assms(1) by (simp add: wf_type_def ascending_sorted)
  then have d: "distinct (map f_tag (t_f st))" using strict_sorted_iff by blast
  have "find (\<lambda>g. f_tag g = f_tag f) (t_f st) = Some f"
  proof -
    obtain i where i: "i < length (t_f st)" "t_f st ! i = f" using assms(2) by (auto simp: in_set_conv_nth)
    have "f_tag (t_f st ! j) \<noteq> f_tag f" if "j < i" for j
      using d i that by (auto simp: distinct_conv_nth)
    then show ?thesis unfolding find_Some_iff using i by (intro exI [of _ i]) auto
  qed
  then show ?thesis using wf_type_findtag [OF assms(1)] by simp
qed

lemma field_data_Missing [simp]: "field_data Missing = []"
  by (simp add: field_data_def)

lemma entry_skip:
  "has data e (word_bytes (k * 2 + 1)) \<Longrightarrow> 0 \<le> k \<Longrightarrow> k * 2 + 1 < 65536 \<Longrightarrow>
   decode_entries cb data st (e # es) tag d z s = decode_entries cb data st es (tag + 1 + k) d z s"
proof -
  assume h: "has data e (word_bytes (k * 2 + 1))" and k: "0 \<le> k" "k * 2 + 1 < 65536"
  have n: "nat (k * 2 + 1) = 2 * nat k + 1" using k by (simp add: nat_add_distrib nat_mult_distrib)
  have "toword data e = Some (2 * nat k + 1)" using toword_has [OF h] k n by simp
  then show ?thesis using k by simp
qed

lemma entry_value:
  assumes h: "has data e (word_bytes x)" and parts: "field_parts (val f) = Some (x, field_data (val f))" and wf: "wf_type n st" and f: "f \<in> set (t_f st)"
    and fit: "fits f (val f)" and tag: "tag + 1 = f_tag f" and hd: "has data d (field_data (val f))"
    and sz: "int (length (field_data (val f))) \<le> z" "z < 2 ^ 31" and c: "calls cb (field_calls d f (val f)) s = Some s'"
  shows "decode_entries cb data st (e # es) tag d z s =
    decode_entries cb data st es (f_tag f) (d + length (field_data (val f))) (z - int (length (field_data (val f)))) s'"
proof -
  have wff: "wf_field n f" using wf f by (simp add: wf_type_def)
  note ff = find_field [OF wf f]
  show ?thesis
  proof (cases "x = 0")
    case True
    then have t0: "toword data e = Some 0" using toword_has [OF h] by simp
    obtain bs where bs: "field_data (val f) = sized bs" using field_data_sized parts True by metis
    have dw: "todword data d = Some (of_nat (length bs))" using sized_todword hd bs by simp
    have lb: "length bs + 4 < 2 ^ 31" using sz bs by simp
    then have si: "sint (of_nat (length bs) :: u32) = int (length bs)" by (simp add: sint_nat_small)
    have sum: "(of_nat (length bs) :: u32) + of_nat SIZEOF_LENGTH = of_nat (length (field_data (val f)))"
      by (simp add: bs SIZEOF_LENGTH_def)
    have un: "unat (of_nat (length (field_data (val f))) :: u32) = length (field_data (val f))" using lb bs by (simp add: unat_nat_small del: of_nat_add)
    have sub: "sub32 z (of_nat (length (field_data (val f)))) = z - int (length (field_data (val f)))"
    proof -
      have "of_int z - of_nat (length (field_data (val f))) = (of_nat (nat (z - int (length (field_data (val f))))) :: u32)" using sz(1) by (simp add: of_nat_nat)
      moreover have "nat (z - int (length (field_data (val f)))) < 2 ^ 31" using sz by simp
      ultimately show ?thesis using sint_nat_small sz(1) unfolding sub32_def by (metis int_nat_eq diff_ge_0_iff_ge)
    qed
    have ir: "int_range (int (length bs) + 4) = Some (int (length bs) + 4)" using lb by (simp add: int_range_def)
    have z4: "\<not> z < int (length bs) + 4" "\<not> z < 4" using sz(1) bs by simp_all
    have "length (field_data (val f)) < 2 ^ 31" using sz by simp
    from decode_data_calls [where val = val, OF hd parts [unfolded True] fit wff this c] have dd: "decode_data cb data f d s = Some (0, s')" .
    show ?thesis using t0 dw si ir z4 ff tag dd sum un sub by (simp add: SIZEOF_LENGTH_def)
  next
    case False
    obtain w u where v: "val f = Number w u" using parts False by (cases "val f") (auto split: if_splits)
    note iv = inline_value [OF parts [unfolded v] False]
    have d: "field_data (val f) = []" unfolding v using iv by blast
    have x: "2 \<le> x" "x < 65536" "even x" using iv by simp_all
    have tw: "toword data e = Some (nat x)" using toword_has [OF h] x by simp
    have od: "even (nat x)" "int (nat x) div 2 - 1 = x div 2 - 1" "\<not> x div 2 - 1 < 0" using x by (auto simp: even_nat_iff)
    have na: "\<not> is_array f" using fit v by (auto simp: fits_def)
    then have ty: "f_type f = elem_type f" using wf_field_type [OF wff] by blast
    have "elem_type f = SPROTO_TINTEGER \<or> elem_type f = SPROTO_TBOOLEAN" using fit v na iv by (auto simp: fits_def)
    moreover have "cb (field_arg f (elem_type f) 0 (Local (of_int (x div 2 - 1))) 8) s = Some (0, s')" using c v iv by (auto split: bind_splits if_splits)
    moreover have "elem_type f AND NOT SPROTO_TARRAY = elem_type f" by (simp add: elem_type_def and.assoc)
    ultimately show ?thesis using tw od ff tag d ty by (auto simp: elem_type_def [symmetric])
  qed
qed

lemma entries_run:
  "list_all2 (\<lambda>e x. has data e (word_bytes x)) es (entry_words val l fs) \<Longrightarrow> has data d (data_bytes val fs) \<Longrightarrow> wf_type n st \<Longrightarrow>
   set fs \<subseteq> set (t_f st) \<Longrightarrow> ascending prev fs \<Longrightarrow> l \<le> prev \<Longrightarrow> -1 \<le> l \<Longrightarrow> \<forall>f \<in> set fs. fits f (val f) \<Longrightarrow>
   int (length (data_bytes val fs)) \<le> z \<Longrightarrow> z < 2 ^ 31 \<Longrightarrow> calls cb (data_calls val d fs) s = Some s' \<Longrightarrow>
   decode_entries cb data st es l d z s = Some (Inr (z - int (length (data_bytes val fs))), s')"
proof (induction fs arbitrary: es l prev d z s)
  case Nil
  then show ?case by (simp add: data_bytes_def)
next
  case (Cons f fs)
  have asc: "prev < f_tag f" "ascending (f_tag f) fs" using Cons.prems(5) by simp_all
  have mem: "f \<in> set (t_f st)" "set fs \<subseteq> set (t_f st)" using Cons.prems(4) by simp_all
  have fit: "fits f (val f)" "\<forall>f \<in> set fs. fits f (val f)" using Cons.prems(8) by simp_all
  have wff: "wf_field n f" using Cons.prems(3) mem by (simp add: wf_type_def)
  let ?fd = "field_data (val f)"
  have db: "data_bytes val (f # fs) = ?fd @ data_bytes val fs" by (simp add: data_bytes_def)
  have hd: "has data d ?fd" "has data (d + length ?fd) (data_bytes val fs)" using Cons.prems(2) by (simp_all add: db has_append)
  obtain s1 where c: "calls cb (field_calls d f (val f)) s = Some s1" "calls cb (data_calls val (d + length ?fd) fs) s1 = Some s'"
    using Cons.prems(11) by (auto simp: calls_append split: bind_splits)
  have sz: "int (length ?fd) \<le> z" "int (length (data_bytes val fs)) \<le> z - int (length ?fd)" using Cons.prems(9) by (simp_all add: db)
  show ?case
  proof (cases "field_parts (val f)")
    case None
    then have m: "val f = Missing" by (cases "val f") (auto split: if_splits)
    then have fd: "?fd = []" by (simp add: field_data_def)
    have "l \<le> f_tag f" using asc(1) Cons.prems(6) by simp
    from Cons.IH [OF _ _ Cons.prems(3) mem(2) asc(2) this Cons.prems(7) fit(2), of es d z s] show ?thesis
      using Cons.prems(1,10) None hd sz c m by (simp add: db fd)
  next
    case (Some xd)
    then obtain x where p: "field_parts (val f) = Some (x, ?fd)" by (cases xd) (auto simp: field_data_def)
    have lt: "l < f_tag f" using asc(1) Cons.prems(6) by simp
    note rg = entry_words_range [where val = val, OF p wff Cons.prems(7) lt]
    have z2: "z - int (length ?fd) < 2 ^ 31" using Cons.prems(10) by linarith
    have fin: "decode_entries cb data st es2 (f_tag f) (d + length ?fd) (z - int (length ?fd)) s1 = Some (Inr (z - int (length (data_bytes val (f # fs)))), s')"
      if "list_all2 (\<lambda>e x. has data e (word_bytes x)) es2 (entry_words val (f_tag f) fs)" for es2
      using Cons.IH [OF that hd(2) Cons.prems(3) mem(2) asc(2) order_refl _ fit(2) sz(2) z2 c(2)] lt Cons.prems(7) by (simp add: db)
    show ?thesis
    proof (cases "0 < f_tag f - l - 1")
      case True
      then have "entry_words val l (f # fs) = ((f_tag f - l - 2) * 2 + 1) # x # entry_words val (f_tag f) fs" using p by simp
      then obtain e1 e2 es2 where es: "es = e1 # e2 # es2" "has data e1 (word_bytes ((f_tag f - l - 2) * 2 + 1))" "has data e2 (word_bytes x)"
        "list_all2 (\<lambda>e x. has data e (word_bytes x)) es2 (entry_words val (f_tag f) fs)" using Cons.prems(1) by (auto simp: list_all2_Cons2)
      have tg: "l + 1 + (f_tag f - l - 2) + 1 = f_tag f" by simp
      have k: "0 \<le> f_tag f - l - 2" "(f_tag f - l - 2) * 2 + 1 < 65536" using True rg by simp_all
      show ?thesis unfolding es(1) entry_skip [OF es(2) k]
        entry_value [where val = val, OF es(3) p Cons.prems(3) mem(1) fit(1) tg hd(1) sz(1) Cons.prems(10) c(1)] by (rule fin [OF es(4)])
    next
      case False
      then have "entry_words val l (f # fs) = x # entry_words val (f_tag f) fs" using p by simp
      then obtain e1 es2 where es: "es = e1 # es2" "has data e1 (word_bytes x)"
        "list_all2 (\<lambda>e x. has data e (word_bytes x)) es2 (entry_words val (f_tag f) fs)" using Cons.prems(1) by (auto simp: list_all2_Cons2)
      have tg: "l + 1 = f_tag f" using False lt by simp
      show ?thesis unfolding es(1)
        entry_value [where val = val, OF es(2) p Cons.prems(3) mem(1) fit(1) tg hd(1) sz(1) Cons.prems(10) c(1)] by (rule fin [OF es(3)])
    qed
  qed
qed

lemma words_list_all2:
  "has data q (words_bytes ws) \<Longrightarrow> list_all2 (\<lambda>e x. has data e (word_bytes x)) (map (\<lambda>i. q + i * 2) [0..<length ws]) ws"
proof (rule list_all2_all_nthI)
  fix i assume h: "has data q (words_bytes ws)" and "i < length (map (\<lambda>i. q + i * 2) [0..<length ws])"
  then have i: "i < length ws" by simp
  have "has data (q + i * 2) (word_bytes (ws ! i))" by (rule has_elem [of data q word_bytes ws 2 i]) (use h i in \<open>simp_all add: words_bytes_def\<close>)
  then show "has data (map (\<lambda>i. q + i * 2) [0..<length ws] ! i) (word_bytes (ws ! i))" using i by simp
qed simp

lemma entries_bound:
  "ascending prev fs \<Longrightarrow> -1 \<le> prev \<Longrightarrow> prev < 0x7FFF \<Longrightarrow> \<forall>f \<in> set fs. f_tag f < 0x7FFF \<Longrightarrow> int (length fs + gaps prev fs) \<le> 0x7FFE - prev"
proof (induction fs arbitrary: prev)
  case Nil
  then show ?case by simp
next
  case (Cons f fs)
  then have "int (length fs + gaps (f_tag f) fs) \<le> 0x7FFE - f_tag f" by simp
  then show ?case using Cons.prems by auto
qed

text \<open>The decoder reads back the values of a message.\<close>

lemma sproto_decode_spec:
  assumes h: "has data p (message val (t_f st))" and wf: "wf_type n st" and fit: "\<forall>f \<in> set (t_f st). fits f (val f)"
    and sz: "length (message val (t_f st)) < 2 ^ 31" and c: "calls cb (message_calls val p (t_f st)) s = Some s'"
  shows "sproto_decode cb data st p (int (length (message val (t_f st)))) s = Some (int (length (message val (t_f st))), s')"
proof -
  let ?ws = "entry_words val (-1) (t_f st)" let ?ds = "data_bytes val (t_f st)" let ?n = "length ?ws"
  have m: "message val (t_f st) = word_bytes (int ?n) @ words_bytes ?ws @ ?ds" by (simp add: message_def Let_def)
  have hp: "has data p (word_bytes (int ?n))" "has data (p + 2) (words_bytes ?ws)" "has data (p + 2 + 2 * ?n) ?ds"
    using h by (simp_all add: m has_append)
  have w: "ascending (-1) (t_f st)" "t_maxn st = length (t_f st) + gaps (-1) (t_f st)" using wf by (simp_all add: wf_type_def)
  have "\<forall>f \<in> set (t_f st). f_tag f < 0x7FFF" using wf by (auto simp: wf_type_def wf_field_def)
  then have "int (t_maxn st) \<le> 0x7FFF" using entries_bound [OF w(1)] w(2) by simp
  then have n: "int ?n < 65536" using entry_words_length [OF w(1), of "-1" val] w(2) by simp
  have fn: "toword data p = Some ?n" using toword_has [OF hp(1)] n by simp
  have lm: "int (length (message val (t_f st))) = 2 + 2 * int ?n + int (length ?ds)" by (simp add: m)
  have "length ?ds < 2 ^ 31" using sz m by simp
  then have zd: "int (length ?ds) < 2 ^ 31" by simp
  have cc: "calls cb (data_calls val (p + 2 + 2 * ?n) (t_f st)) s = Some s'" using c by (simp add: message_calls_def)
  from entries_run [OF words_list_all2 [OF hp(2)] hp(3) wf subset_refl w(1) order_refl order_refl fit order_refl zd cc]
  have "decode_entries cb data st (map (\<lambda>i. p + 2 + i * 2) [0..<?n]) (-1) (p + 2 + 2 * ?n) (int (length ?ds)) s = Some (Inr 0, s')" by simp
  then show ?thesis using fn unfolding sproto_decode_def lm SIZEOF_HEADER_def SIZEOF_FIELD_def Let_def
    by (simp add: mult.commute)
qed

end
