(* ===== verification/LSprotoEncode.thy ===== *)
theory LSprotoEncode
  imports LSproto SprotoDecode SprotoPackProps
begin

text \<open>
  Encoding Lua tables: the callback is an instance of the interface of the encoder, so a table whose values fit the schema is
  encoded to the message of its values, whatever the buffer is.
\<close>

section \<open>The values of a table\<close>

definition field_value :: "lua_conv \<Rightarrow> lua_value \<Rightarrow> field_desc \<Rightarrow> lua_value" where
  "field_value C tbl f = (case gettable C tbl (name_key (the (f_name f))) of None \<Rightarrow> L_nil | Some x \<Rightarrow> x)"

definition table_pairs :: "lua_value \<Rightarrow> (lua_value \<times> lua_value) list" where
  "table_pairs x = (case x of L_table n ps \<Rightarrow> ps | L_pairs ps \<Rightarrow> ps | _ \<Rightarrow> [])"

definition is_table :: "lua_value \<Rightarrow> bool" where
  "is_table x = (case x of L_table n ps \<Rightarrow> True | L_pairs ps \<Rightarrow> True | _ \<Rightarrow> False)"

definition plain_table :: "lua_value \<Rightarrow> bool" where
  "plain_table x = (case x of L_table n ps \<Rightarrow> True | _ \<Rightarrow> False)"

text \<open>The elements of an array: up to the first nil, or all values of a map.\<close>

definition sequence :: "(lua_value \<times> lua_value) list \<Rightarrow> lua_value list" where
  "sequence ps = takeWhile (\<lambda>v. v \<noteq> L_nil) (map (\<lambda>i. rawget (lua_int i) ps) [1..<length ps + 2])"

definition elements :: "field_desc \<Rightarrow> lua_value \<Rightarrow> lua_value list" where
  "elements f x = (if f_key f \<ge> 0 then map snd (table_pairs x) else sequence (table_pairs x))"

definition table_ok :: "field_desc \<Rightarrow> lua_value \<Rightarrow> bool" where
  "table_ok f x \<longleftrightarrow> is_table x \<and> (f_key f < 0 \<longrightarrow> plain_table x) \<and> length (table_pairs x) < 2 ^ 31 \<and>
     (f_key f \<ge> 0 \<longrightarrow> distinct (map fst (table_pairs x)) \<and> (\<forall>p \<in> set (table_pairs x). fst p \<noteq> L_nil \<and> snd p \<noteq> L_nil))"

definition elem_number :: "lua_conv \<Rightarrow> field_desc \<Rightarrow> lua_value \<Rightarrow> bool \<times> u64" where
  "elem_number C f x =
     (if elem_type f = SPROTO_TDOUBLE then (True, tonumber C x)
      else if elem_type f = SPROTO_TBOOLEAN then (False, if x = L_boolean True then 1 else 0)
      else let (n, u) = put_integer (the (integer_value C (f_extra f) x)) in (n = 8, u))"

definition struct_of :: "sproto_type list \<Rightarrow> field_desc \<Rightarrow> sproto_type" where
  "struct_of ts f = ts ! the (f_st f)"

definition elem_bytes :: "lua_conv \<Rightarrow> (lua_value \<Rightarrow> u8 list) \<Rightarrow> field_desc \<Rightarrow> lua_value \<Rightarrow> u8 list" where
  "elem_bytes C msg f x = (if elem_type f = SPROTO_TSTRING then the (tolstring C x) else msg x)"

definition numeric :: "field_desc \<Rightarrow> bool" where
  "numeric f \<longleftrightarrow> elem_type f = SPROTO_TINTEGER \<or> elem_type f = SPROTO_TDOUBLE \<or> elem_type f = SPROTO_TBOOLEAN"

text \<open>The values of the fields, with the number of levels that are left.\<close>

primrec tree_val :: "lua_conv \<Rightarrow> sproto_type list \<Rightarrow> nat \<Rightarrow> lua_value \<Rightarrow> field_desc \<Rightarrow> fval" where
  "tree_val C ts 0 tbl f = Missing"
| "tree_val C ts (Suc d) tbl f =
     (let x = field_value C tbl f; bytes = elem_bytes C (\<lambda>y. message (tree_val C ts d y) (t_f (struct_of ts f))) f in
      if x = L_nil then Missing
      else if is_array f then
        if elem_type f = SPROTO_TBOOLEAN then Bools (map (\<lambda>y. y = L_boolean True) (elements f x))
        else if numeric f then Numbers (map (elem_number C f) (elements f x))
        else Blobs (map bytes (elements f x))
      else if numeric f then (case elem_number C f x of (w, u) \<Rightarrow> Number w u)
      else Bytes (bytes x))"

definition elem_need :: "lua_conv \<Rightarrow> (lua_value \<Rightarrow> nat) \<Rightarrow> field_desc \<Rightarrow> lua_value \<Rightarrow> nat" where
  "elem_need C nd f x = (if elem_type f = SPROTO_TSTRING then length (the (tolstring C x)) else nd x)"

primrec tree_need :: "lua_conv \<Rightarrow> sproto_type list \<Rightarrow> nat \<Rightarrow> lua_value \<Rightarrow> field_desc \<Rightarrow> nat" where
  "tree_need C ts 0 tbl f = 0"
| "tree_need C ts (Suc d) tbl f =
     (let x = field_value C tbl f; nd = elem_need C (\<lambda>y. message_need (tree_val C ts d y) (tree_need C ts d y) (struct_of ts f)) f in
      if numeric f then 0 else if is_array f then foldr max (map nd (elements f x)) 0 else nd x)"

definition elem_ok :: "lua_conv \<Rightarrow> sproto_type list \<Rightarrow> (lua_value \<Rightarrow> sproto_type \<Rightarrow> bool) \<Rightarrow> field_desc \<Rightarrow> lua_value \<Rightarrow> bool" where
  "elem_ok C ts sub f x \<longleftrightarrow>
     (if elem_type f = SPROTO_TINTEGER then integer_value C (f_extra f) x \<noteq> None
      else if elem_type f = SPROTO_TBOOLEAN then \<exists>b. x = L_boolean b
      else if elem_type f = SPROTO_TSTRING then (case tolstring C x of None \<Rightarrow> False | Some str \<Rightarrow> length str < 2 ^ 31)
      else if elem_type f = SPROTO_TSTRUCT then sub x (struct_of ts f)
      else True)"

definition field_ok :: "lua_conv \<Rightarrow> sproto_type list \<Rightarrow> (lua_value \<Rightarrow> sproto_type \<Rightarrow> bool) \<Rightarrow> lua_value \<Rightarrow> field_desc \<Rightarrow> bool" where
  "field_ok C ts sub tbl f \<longleftrightarrow> gettable C tbl (name_key (the (f_name f))) \<noteq> None \<and>
     (field_value C tbl f = L_nil \<or>
      (if is_array f then table_ok f (field_value C tbl f) \<and> (\<forall>y \<in> set (elements f (field_value C tbl f)). elem_ok C ts sub f y)
       else elem_ok C ts sub f (field_value C tbl f)))"

text \<open>The table has for each field of the type a fitting value or none, to the given number of levels.\<close>

primrec conforms :: "lua_conv \<Rightarrow> sproto_type list \<Rightarrow> nat \<Rightarrow> lua_value \<Rightarrow> sproto_type \<Rightarrow> bool" where
  "conforms C ts 0 tbl t \<longleftrightarrow> False"
| "conforms C ts (Suc d) tbl t \<longleftrightarrow> (\<forall>f \<in> set (t_f t). field_ok C ts (conforms C ts d) tbl f)"

text \<open>The slots of the stack that stay used behind a field: those of an array, and one for each double.\<close>

definition array_slots :: "lua_value \<Rightarrow> nat" where
  "array_slots x = (case x of L_pairs ps \<Rightarrow> 4 | _ \<Rightarrow> 2)"

definition field_slots :: "lua_conv \<Rightarrow> lua_value \<Rightarrow> field_desc \<Rightarrow> nat" where
  "field_slots C tbl f =
     (let x = field_value C tbl f; double = elem_type f = SPROTO_TDOUBLE in
      if is_array f then if x = L_nil then 1 else array_slots x + (if double then length (elements f x) else 0)
      else if x \<noteq> L_nil \<and> double then 1 else 0)"

text \<open>The slots for the structs of a field, which are free again after each of them; \<open>sub\<close> is what a struct needs.\<close>

definition struct_slots :: "sproto_type list \<Rightarrow> (lua_value \<Rightarrow> sproto_type \<Rightarrow> nat) \<Rightarrow> lua_conv \<Rightarrow> lua_value \<Rightarrow> field_desc \<Rightarrow> nat" where
  "struct_slots ts sub C tbl f =
     (let x = field_value C tbl f in
      if elem_type f = SPROTO_TSTRUCT \<and> x \<noteq> L_nil
      then foldr max (map (\<lambda>y. sub y (struct_of ts f) + 1) (if is_array f then elements f x else [x])) 0
      else 0)"

definition level_slots :: "sproto_type list \<Rightarrow> (lua_value \<Rightarrow> sproto_type \<Rightarrow> nat) \<Rightarrow> lua_conv \<Rightarrow> lua_value \<Rightarrow> field_desc list \<Rightarrow> nat" where
  "level_slots ts sub C tbl fs = sum_list (map (field_slots C tbl) fs) + foldr max (map (struct_slots ts sub C tbl) fs) 0"

primrec table_slots :: "lua_conv \<Rightarrow> sproto_type list \<Rightarrow> nat \<Rightarrow> lua_value \<Rightarrow> sproto_type \<Rightarrow> nat" where
  "table_slots C ts 0 tbl t = 0"
| "table_slots C ts (Suc d) tbl t = level_slots ts (table_slots C ts d) C tbl (t_f t)"

section \<open>Sequences\<close>

lemma sequence_nth: "i < length (sequence ps) \<Longrightarrow> sequence ps ! i = rawget (lua_int (i + 1)) ps \<and> rawget (lua_int (i + 1)) ps \<noteq> L_nil"
proof -
  let ?xs = "map (\<lambda>i. rawget (lua_int i) ps) [1..<length ps + 2]"
  assume i: "i < length (sequence ps)"
  then have il: "i < length ?xs" using length_takeWhile_le [of "\<lambda>v. v \<noteq> L_nil" ?xs] by (simp add: sequence_def)
  have e: "sequence ps ! i = ?xs ! i" using i by (simp add: sequence_def takeWhile_nth)
  have "sequence ps ! i \<in> set (sequence ps)" using i by simp
  then have "sequence ps ! i \<noteq> L_nil" unfolding sequence_def by (rule set_takeWhileD [THEN conjunct2])
  moreover have "?xs ! i = rawget (lua_int (i + 1)) ps" using il by (simp add: nth_map del: upt_Suc)
  ultimately show ?thesis using e by simp
qed

lemma lua_int_inj: "i < 2 ^ 32 \<Longrightarrow> j < 2 ^ 32 \<Longrightarrow> lua_int i = lua_int j \<Longrightarrow> i = j"
proof -
  assume b: "i < 2 ^ 32" "j < 2 ^ 32" and e: "lua_int i = lua_int j"
  have "unat (of_nat i :: u64) = unat (of_nat j :: u64)" using e by simp
  then show ?thesis using b by (simp add: unsigned_of_nat take_bit_nat_eq_self)
qed

lemma sequence_end:
  assumes l: "length ps < 2 ^ 31"
  shows "rawget (lua_int (length (sequence ps) + 1)) ps = L_nil"
proof -
  let ?xs = "map (\<lambda>i. rawget (lua_int i) ps) [1..<length ps + 2]"
  have "\<exists>v \<in> set ?xs. v = L_nil"
  proof (rule ccontr)
    assume "\<not> (\<exists>v \<in> set ?xs. v = L_nil)"
    then have d: "lua_int i \<in> fst ` set ps" if "i \<in> {1..<length ps + 2}" for i
    proof -
      have "rawget (lua_int i) ps \<in> set ?xs" using that by (simp del: upt_Suc)
      then have "rawget (lua_int i) ps \<noteq> L_nil" using \<open>\<not> (\<exists>v \<in> set ?xs. v = L_nil)\<close> by blast
      then have "map_of ps (lua_int i) \<noteq> None" by (cases "map_of ps (lua_int i)") (simp_all add: rawget_def)
      then show ?thesis by (simp add: map_of_eq_None_iff)
    qed
    have inj: "inj_on lua_int {1..<length ps + 2}" using l by (intro inj_onI) (rule lua_int_inj, auto)
    have "card (lua_int ` {1..<length ps + 2}) \<le> card (fst ` set ps)" by (rule card_mono) (use d in auto)
    also have "\<dots> \<le> length ps" by (metis card_image_le card_length order_trans List.finite_set)
    finally show False using card_image [OF inj] by simp
  qed
  then have lt: "length (sequence ps) < length ?xs" unfolding sequence_def
    by (metis (mono_tags, lifting) length_takeWhile_le takeWhile_eq_all_conv order_le_imp_less_or_eq takeWhile_eq_take take_all order_refl)
  then have "?xs ! length (sequence ps) = L_nil" unfolding sequence_def using nth_length_takeWhile [of "\<lambda>v. v \<noteq> L_nil" ?xs] by simp
  then show ?thesis using lt by (simp del: upt_Suc)
qed

section \<open>The state of the callback\<close>

definition fresh_tag :: "field_desc list \<Rightarrow> encode_ud \<Rightarrow> bool" where
  "fresh_tag fs s \<longleftrightarrow> (\<forall>f \<in> set fs. f_name f \<noteq> eu_array_tag s)"

definition fields_ok :: "lua_conv \<Rightarrow> sproto_type list \<Rightarrow> nat \<Rightarrow> lua_value \<Rightarrow> field_desc list \<Rightarrow> bool" where
  "fields_ok C ts d tbl fs \<longleftrightarrow> (\<forall>t \<in> set ts. wf_type (length ts) t) \<and> (\<forall>f \<in> set fs. wf_field (length ts) f \<and> field_ok C ts (conforms C ts d) tbl f) \<and> distinct (map name_addr fs)"

text \<open>With \<open>Suc d\<close> levels left, the callback is about to be asked for the first of the fields, or for an element of its array.\<close>

definition at_fields :: "lua_conv \<Rightarrow> sproto_type list \<Rightarrow> nat \<Rightarrow> lua_value \<Rightarrow> field_desc list \<Rightarrow> encode_ud \<Rightarrow> bool" where
  "at_fields C ts d tbl fs s \<longleftrightarrow> fields_ok C ts d tbl fs \<and> eu_tbl s = tbl \<and> fresh_tag fs s \<and>
     eu_top s + level_slots ts (table_slots C ts d) C tbl fs + 12 \<le> c_stack C"

text \<open>The slots that an array has taken before its element \<open>i\<close>.\<close>

definition taken :: "lua_conv \<Rightarrow> lua_value \<Rightarrow> field_desc \<Rightarrow> nat \<Rightarrow> nat" where
  "taken C tbl f i = array_slots (field_value C tbl f) + (if elem_type f = SPROTO_TDOUBLE then i - 1 else 0)"

definition at_element :: "lua_conv \<Rightarrow> sproto_type list \<Rightarrow> nat \<Rightarrow> lua_value \<Rightarrow> field_desc \<Rightarrow> field_desc list \<Rightarrow> nat \<Rightarrow> encode_ud \<Rightarrow> bool" where
  "at_element C ts d tbl f fs i s \<longleftrightarrow> fields_ok C ts d tbl (f # fs) \<and> is_array f \<and> eu_tbl s = tbl \<and> 1 \<le> i \<and>
     eu_top s + level_slots ts (table_slots C ts d) C tbl (f # fs) + 12 \<le> c_stack C + (if i = 1 then 0 else taken C tbl f i) \<and>
     (if i = 1 then fresh_tag (f # fs) s
      else let x = field_value C tbl f in x \<noteq> L_nil \<and> eu_array_tag s = f_name f \<and> eu_array s = Some x \<and> i \<le> length (elements f x) + 1 \<and>
        (f_key f \<ge> 0 \<longrightarrow> eu_key s = fst (table_pairs x ! (i - 2))))"

lemma field_arg_simps [simp]:
  "a_tagname (field_arg f t i v len) = f_name f" "a_tagid (field_arg f t i v len) = f_tag f" "a_type (field_arg f t i v len) = t"
  "a_subtype (field_arg f t i v len) = f_st f" "a_value (field_arg f t i v len) = v" "a_length (field_arg f t i v len) = len"
  "a_index (field_arg f t i v len) = i" "a_mainindex (field_arg f t i v len) = f_key f" "a_extra (field_arg f t i v len) = f_extra f"
  by (simp_all add: field_arg_def)

lemma field_named: "wf_field n f \<Longrightarrow> \<exists>nm. f_name f = Some nm"
  by (auto simp: wf_field_def)

lemma distinct_names: "distinct (map name_addr (f # fs)) \<Longrightarrow> \<forall>g \<in> set fs. f_name g \<noteq> f_name f"
proof (intro ballI notI)
  fix g assume "distinct (map name_addr (f # fs))" "g \<in> set fs" "f_name g = f_name f"
  moreover from this have "name_addr g = name_addr f" by (simp add: name_addr_def)
  ultimately show False by (metis distinct.simps(2) image_eqI list.set_map list.simps(9))
qed

lemma field_get: "field_ok C ts sub tbl f \<Longrightarrow> gettable C tbl (name_key (the (f_name f))) = Some (field_value C tbl f)"
  by (auto simp: field_ok_def field_value_def)

text \<open>After the value is taken.\<close>

definition after :: "field_desc \<Rightarrow> encode_ud \<Rightarrow> encode_ud" where
  "after f s = (if elem_type f = SPROTO_TDOUBLE then s\<lparr>eu_top := eu_top s + 1\<rparr> else s)"

lemma after_simps [simp]: "eu_tbl (after f s) = eu_tbl s" "eu_array_tag (after f s) = eu_array_tag s" "eu_array (after f s) = eu_array s"
  "eu_key (after f s) = eu_key s" "eu_top (after f s) = eu_top s + (if elem_type f = SPROTO_TDOUBLE then 1 else 0)"
  by (simp_all add: after_def)

lemma level_slots_Cons: "field_slots C tbl f + level_slots ts sub C tbl fs \<le> level_slots ts sub C tbl (f # fs)"
  "field_slots C tbl f + struct_slots ts sub C tbl f \<le> level_slots ts sub C tbl (f # fs)"
  by (simp_all add: level_slots_def)

lemma taken_le: "is_array f \<Longrightarrow> field_value C tbl f \<noteq> L_nil \<Longrightarrow> i \<le> length (elements f (field_value C tbl f)) + 1 \<Longrightarrow> taken C tbl f i \<le> field_slots C tbl f"
  using diff_le_mono [of i "length (elements f (field_value C tbl f)) + 1" 1] by (simp add: taken_def field_slots_def Let_def)

lemma fetch_scalar:
  assumes "at_fields C ts d tbl (f # fs) s"
  shows "fetch C (field_arg f t 0 v len) s = Some (Inr (field_value C tbl f), s)" and "\<not> is_array f \<Longrightarrow> at_fields C ts d tbl fs (if field_value C tbl f = L_nil then s else after f s)"
proof -
  have ok: "wf_field (length ts) f" "field_ok C ts (conforms C ts d) tbl f" "eu_tbl s = tbl" using assms by (simp_all add: at_fields_def fields_ok_def)
  obtain nm where nm: "f_name f = Some nm" using field_named [OF ok(1)] by blast
  show "fetch C (field_arg f t 0 v len) s = Some (Inr (field_value C tbl f), s)"
    using field_get [OF ok(2)] ok(3) nm by (simp add: fetch_def)
  show "at_fields C ts d tbl fs (if field_value C tbl f = L_nil then s else after f s)" if "\<not> is_array f"
    using assms level_slots_Cons(1) [of C tbl f ts "table_slots C ts d" fs] that
    by (auto simp: at_fields_def fields_ok_def fresh_tag_def field_slots_def Let_def)
qed

text \<open>After the array.\<close>

lemma after_array:
  assumes "fields_ok C ts d tbl (f # fs)" and "eu_tbl s = tbl" and "eu_array_tag s = f_name f"
    and "eu_top s + level_slots ts (table_slots C ts d) C tbl (f # fs) + 12 \<le> c_stack C + field_slots C tbl f"
  shows "at_fields C ts d tbl fs s"
  using assms distinct_names [of f fs] level_slots_Cons(1) [of C tbl f ts "table_slots C ts d" fs]
  by (auto simp: at_fields_def fields_ok_def fresh_tag_def)

lemma fetch_no_array:
  assumes w: "at_element C ts d tbl f fs 1 s" and m: "field_value C tbl f = L_nil"
  shows "\<exists>s'. fetch C (field_arg f t 1 v len) s = Some (Inl SPROTO_CB_NOARRAY, s') \<and> at_fields C ts d tbl fs s'"
proof -
  have ok: "wf_field (length ts) f" "field_ok C ts (conforms C ts d) tbl f" "eu_tbl s = tbl" "fields_ok C ts d tbl (f # fs)" "f_name f \<noteq> eu_array_tag s"
    using w by (simp_all add: at_element_def fields_ok_def fresh_tag_def)
  have slots: "is_array f" "eu_top s + level_slots ts (table_slots C ts d) C tbl (f # fs) + 12 \<le> c_stack C" using w by (simp_all add: at_element_def)
  obtain nm where nm: "f_name f = Some nm" using field_named [OF ok(1)] by blast
  let ?s = "s\<lparr>eu_array_tag := f_name f, eu_array := None, eu_top := if eu_array s = None then eu_top s + 1 else eu_top s\<rparr>"
  have "begin_array C (the (f_name f)) s = Some (False, ?s)"
    using field_get [OF ok(2)] ok(3) m nm by (simp add: begin_array_def Let_def)
  then have "fetch C (field_arg f t 1 v len) s = Some (Inl SPROTO_CB_NOARRAY, ?s)"
    using nm ok(5) by (simp add: fetch_def)
  moreover have "at_fields C ts d tbl fs ?s" by (rule after_array [OF ok(4)]) (use ok(3) slots m in \<open>auto simp: field_slots_def\<close>)
  ultimately show ?thesis by blast
qed

lemma next_first: "lua_next ps L_nil = Some (case ps of [] \<Rightarrow> None | p # _ \<Rightarrow> Some p)"
  by (simp add: lua_next_def)

lemma next_after:
  assumes "distinct (map fst ps)" and "\<forall>p \<in> set ps. fst p \<noteq> L_nil" and "i < length ps"
  shows "lua_next ps (fst (ps ! i)) = Some (if i + 1 < length ps then Some (ps ! (i + 1)) else None)"
proof -
  have nn: "fst (ps ! i) \<noteq> L_nil" using assms(2,3) nth_mem by blast
  have dw: "dropWhile (\<lambda>p. fst p \<noteq> fst (ps ! i)) ps = drop i ps"
  proof -
    have "ps = take i ps @ ps ! i # drop (Suc i) ps" using id_take_nth_drop [OF assms(3)] .
    moreover have "\<forall>p \<in> set (take i ps). fst p \<noteq> fst (ps ! i)"
    proof
      fix p assume "p \<in> set (take i ps)"
      then obtain j where j: "j < i" "p = ps ! j" using assms(3) by (auto simp: in_set_conv_nth)
      then show "fst p \<noteq> fst (ps ! i)" using assms(1,3) by (auto simp: distinct_conv_nth)
    qed
    ultimately have "dropWhile (\<lambda>p. fst p \<noteq> fst (ps ! i)) (take i ps @ ps ! i # drop (Suc i) ps) = ps ! i # drop (Suc i) ps"
      by (subst dropWhile_append2) simp_all
    then show ?thesis using id_take_nth_drop [OF assms(3)] Cons_nth_drop_Suc [OF assms(3)] by simp
  qed
  have "drop i ps = ps ! i # drop (i + 1) ps" using assms(3) by (simp add: Cons_nth_drop_Suc)
  moreover have "drop (i + 1) ps = (if i + 1 < length ps then ps ! (i + 1) # drop (i + 2) ps else [])"
    by (simp add: Cons_nth_drop_Suc)
  ultimately show ?thesis using nn dw by (simp add: lua_next_def)
qed

text \<open>The array is entered at its first element.\<close>

lemma entered:
  assumes w: "at_element C ts d tbl f fs i s" and x: "field_value C tbl f \<noteq> L_nil" and ok: "table_ok f (field_value C tbl f)"
    and i: "i \<le> length (elements f (field_value C tbl f)) + 1"
  shows "\<exists>s'. (if f_name f \<noteq> eu_array_tag s then begin_array C (the (f_name f)) s else Some (True, s)) = Some (True, s') \<and>
    eu_tbl s' = tbl \<and> eu_array_tag s' = f_name f \<and> eu_array s' = Some (field_value C tbl f) \<and>
    (f_key f \<ge> 0 \<longrightarrow> eu_key s' = (if i = 1 then L_nil else fst (table_pairs (field_value C tbl f) ! (i - 2)))) \<and>
    eu_top s' + level_slots ts (table_slots C ts d) C tbl (f # fs) + 12 \<le> c_stack C + taken C tbl f i"
proof (cases "i = 1")
  case True
  have a: "wf_field (length ts) f" "field_ok C ts (conforms C ts d) tbl f" "eu_tbl s = tbl" "f_name f \<noteq> eu_array_tag s"
    using w True by (simp_all add: at_element_def fields_ok_def fresh_tag_def)
  obtain nm where nm: "f_name f = Some nm" using field_named [OF a(1)] by blast
  have "is_table (field_value C tbl f)" using ok by (simp add: table_ok_def)
  then have "\<exists>h. begin_array C (the (f_name f)) s =
      Some (True, s\<lparr>eu_array_tag := f_name f, eu_array := Some (field_value C tbl f), eu_key := L_nil, eu_top := h\<rparr>) \<and>
      h \<le> eu_top s + array_slots (field_value C tbl f)"
    using field_get [OF a(2)] a(3) x nm by (auto simp: begin_array_def is_table_def array_slots_def Let_def split: lua_value.splits)
  then show ?thesis using a True w by (auto simp: at_element_def taken_def)
next
  case False
  then show ?thesis using w by (simp add: at_element_def Let_def)
qed

lemma gettable_table: "plain_table x \<Longrightarrow> gettable C x k = Some (rawget k (table_pairs x))"
  by (auto simp: plain_table_def gettable_def table_pairs_def split: lua_value.splits)

lemma next_list_table: "eu_array s = Some x \<Longrightarrow> is_table x \<Longrightarrow> next_list s = lua_next (table_pairs x) (eu_key s)"
  by (auto simp: next_list_def is_table_def table_pairs_def split: lua_value.splits)

lemma fetch_entered:
  assumes "f_name f = Some nm" and "(if f_name f \<noteq> eu_array_tag s then begin_array C (the (f_name f)) s else Some (True, s)) = Some (True, s1)" and "1 \<le> i"
  shows "fetch C (field_arg f t (int i) v len) s =
    (if f_key f \<ge> 0 then do {
       r \<leftarrow> next_list s1;
       Some (case r of None \<Rightarrow> (Inl SPROTO_CB_NIL, s1\<lparr>eu_key := L_nil\<rparr>) | Some (k, v) \<Rightarrow> (Inr v, s1\<lparr>eu_key := k\<rparr>)) }
     else do { a \<leftarrow> eu_array s1; v \<leftarrow> gettable C a (lua_int i); Some (Inr v, s1) })"
proof -
  have "(if Some nm \<noteq> eu_array_tag s then begin_array C nm s else Some (True, s)) = Some (True, s1)" using assms(1,2) by (auto split: if_splits)
  then show ?thesis using assms(1,3) unfolding fetch_def field_arg_simps by simp
qed

lemma fetch_element:
  assumes w: "at_element C ts d tbl f fs i s" and x: "field_value C tbl f \<noteq> L_nil" and i: "1 \<le> i" "i \<le> length (elements f (field_value C tbl f))"
    and ok: "table_ok f (field_value C tbl f)"
  shows "\<exists>s'. fetch C (field_arg f t (int i) v len) s = Some (Inr (elements f (field_value C tbl f) ! (i - 1)), s') \<and>
    at_element C ts d tbl f fs (i + 1) (after f s') \<and> elements f (field_value C tbl f) ! (i - 1) \<noteq> L_nil \<and>
    eu_top s' + struct_slots ts (table_slots C ts d) C tbl f + 12 \<le> c_stack C"
proof -
  let ?x = "field_value C tbl f" let ?ps = "table_pairs ?x"
  have fo: "fields_ok C ts d tbl (f # fs)" "is_array f" using w by (simp_all add: at_element_def)
  then have wf: "wf_field (length ts) f" by (simp add: fields_ok_def)
  obtain nm where nm: "f_name f = Some nm" using field_named [OF wf] by blast
  have i1: "1 \<le> i" using i by simp
  have "i \<le> length (elements f ?x) + 1" using i by simp
  from entered [OF w x ok this] obtain s1 where s1: "(if f_name f \<noteq> eu_array_tag s then begin_array C (the (f_name f)) s else Some (True, s)) = Some (True, s1)"
    "eu_tbl s1 = tbl" "eu_array_tag s1 = f_name f" "eu_array s1 = Some ?x"
    "f_key f \<ge> 0 \<longrightarrow> eu_key s1 = (if i = 1 then L_nil else fst (?ps ! (i - 2)))"
    and slots: "eu_top s1 + level_slots ts (table_slots C ts d) C tbl (f # fs) + 12 \<le> c_stack C + taken C tbl f i" by blast
  have tk: "taken C tbl f i \<le> field_slots C tbl f" using taken_le fo(2) x \<open>i \<le> length (elements f ?x) + 1\<close> by blast
  have it: "is_table ?x" using ok by (simp add: table_ok_def)
  have tk1: "taken C tbl f (i + 1) = taken C tbl f i + (if elem_type f = SPROTO_TDOUBLE then 1 else 0)" using i1 by (simp add: taken_def)
  have free: "eu_top s1 + struct_slots ts (table_slots C ts d) C tbl f + 12 \<le> c_stack C"
    using slots tk level_slots_Cons(2) [of C tbl f ts "table_slots C ts d" fs] by linarith
  have pt: "f_key f < 0 \<Longrightarrow> plain_table ?x" using ok by (simp add: table_ok_def)
  show ?thesis
  proof (cases "f_key f \<ge> 0")
    case True
    have el: "elements f ?x = map snd ?ps" using True by (simp add: elements_def)
    then have ip: "i - 1 < length ?ps" using i by simp
    have ps: "distinct (map fst ?ps)" "\<forall>p \<in> set ?ps. fst p \<noteq> L_nil" "\<forall>p \<in> set ?ps. snd p \<noteq> L_nil" using ok True by (simp_all add: table_ok_def)
    have "lua_next ?ps (eu_key s1) = Some (Some (?ps ! (i - 1)))"
    proof (cases "i = 1")
      case True
      then show ?thesis using s1(5) \<open>f_key f \<ge> 0\<close> ip by (cases ?ps) (simp_all add: next_first)
    next
      case False
      then have "i - 2 < length ?ps" "i - 2 + 1 = i - 1" using ip i by simp_all
      then show ?thesis using next_after [OF ps(1,2), of "i - 2"] s1(5) True False ip by simp
    qed
    then have nx: "next_list s1 = Some (Some (?ps ! (i - 1)))" using next_list_table [OF s1(4) it] by simp
    obtain k y where p: "?ps ! (i - 1) = (k, y)" by fastforce
    have f: "fetch C (field_arg f t (int i) v len) s = Some (Inr y, s1\<lparr>eu_key := k\<rparr>)"
      using fetch_entered [OF nm s1(1) i(1)] nx p True by simp
    have y: "elements f ?x ! (i - 1) = y" using el ip p by simp
    have "at_element C ts d tbl f fs (i + 1) (after f (s1\<lparr>eu_key := k\<rparr>))"
      using fo s1 x i p True slots tk1 by (simp add: at_element_def Let_def)
    moreover have "y \<noteq> L_nil" using ps(3) nth_mem [OF ip] p by fastforce
    moreover have "eu_top (s1\<lparr>eu_key := k\<rparr>) + struct_slots ts (table_slots C ts d) C tbl f + 12 \<le> c_stack C" using free by simp
    ultimately show ?thesis using f y by blast
  next
    case False
    have el: "elements f ?x = sequence ?ps" using False by (simp add: elements_def)
    then have iq: "i - 1 < length (sequence ?ps)" using i by simp
    from sequence_nth [OF iq] i have v: "sequence ?ps ! (i - 1) = rawget (lua_int i) ?ps" "rawget (lua_int i) ?ps \<noteq> L_nil" by simp_all
    have f: "fetch C (field_arg f t (int i) v len) s = Some (Inr (rawget (lua_int i) ?ps), s1)"
      using fetch_entered [OF nm s1(1) i(1)] s1(4) gettable_table [OF pt] False by simp
    have "at_element C ts d tbl f fs (i + 1) (after f s1)" using fo s1 x i False slots tk1 by (simp add: at_element_def Let_def)
    then show ?thesis using f v el free by auto
  qed
qed

lemma fetch_end:
  assumes w: "at_element C ts d tbl f fs i s" and x: "field_value C tbl f \<noteq> L_nil" and i: "i = length (elements f (field_value C tbl f)) + 1"
    and ok: "table_ok f (field_value C tbl f)"
  shows "\<exists>r s'. fetch C (field_arg f t (int i) v len) s = Some (r, s') \<and> (r = Inl SPROTO_CB_NIL \<or> r = Inr L_nil) \<and> at_fields C ts d tbl fs s'"
proof -
  let ?x = "field_value C tbl f" let ?ps = "table_pairs ?x"
  have fo: "fields_ok C ts d tbl (f # fs)" "is_array f" using w by (simp_all add: at_element_def)
  then have wf: "wf_field (length ts) f" by (simp add: fields_ok_def)
  obtain nm where nm: "f_name f = Some nm" using field_named [OF wf] by blast
  have i1: "1 \<le> i" using i by simp
  have "i \<le> length (elements f ?x) + 1" using i by simp
  from entered [OF w x ok this] obtain s1 where s1: "(if f_name f \<noteq> eu_array_tag s then begin_array C (the (f_name f)) s else Some (True, s)) = Some (True, s1)"
    "eu_tbl s1 = tbl" "eu_array_tag s1 = f_name f" "eu_array s1 = Some ?x"
    "f_key f \<ge> 0 \<longrightarrow> eu_key s1 = (if i = 1 then L_nil else fst (?ps ! (i - 2)))"
    and slots: "eu_top s1 + level_slots ts (table_slots C ts d) C tbl (f # fs) + 12 \<le> c_stack C + taken C tbl f i" by blast
  have tk: "taken C tbl f i \<le> field_slots C tbl f" using taken_le fo(2) x \<open>i \<le> length (elements f ?x) + 1\<close> by blast
  have it: "is_table ?x" using ok by (simp add: table_ok_def)
  have left: "eu_top s1 + level_slots ts (table_slots C ts d) C tbl (f # fs) + 12 \<le> c_stack C + field_slots C tbl f" using slots tk by linarith
  have pt: "f_key f < 0 \<Longrightarrow> plain_table ?x" using ok by (simp add: table_ok_def)
  show ?thesis
  proof (cases "f_key f \<ge> 0")
    case True
    have el: "i = length ?ps + 1" using True i by (simp add: elements_def)
    have ps: "distinct (map fst ?ps)" "\<forall>p \<in> set ?ps. fst p \<noteq> L_nil" using ok True by (simp_all add: table_ok_def)
    have "lua_next ?ps (eu_key s1) = Some None"
    proof (cases "?ps = []")
      case e: True
      then show ?thesis using s1(5) True el by (simp add: next_first)
    next
      case False
      then have "i - 2 < length ?ps" "i \<noteq> 1" "\<not> i - 2 + 1 < length ?ps" using el by (cases ?ps; simp)+
      then show ?thesis using next_after [OF ps, of "i - 2"] s1(5) True by simp
    qed
    then have nx: "next_list s1 = Some None" using next_list_table [OF s1(4) it] by simp
    have "fetch C (field_arg f t (int i) v len) s = Some (Inl SPROTO_CB_NIL, s1\<lparr>eu_key := L_nil\<rparr>)"
      using fetch_entered [OF nm s1(1) i1] nx True by simp
    moreover have "at_fields C ts d tbl fs (s1\<lparr>eu_key := L_nil\<rparr>)" by (rule after_array [OF fo(1)]) (use s1 left in simp_all)
    ultimately show ?thesis by blast
  next
    case False
    have "i = length (sequence ?ps) + 1" using False i by (simp add: elements_def)
    then have "rawget (lua_int i) ?ps = L_nil" using sequence_end ok by (simp add: table_ok_def)
    then have "fetch C (field_arg f t (int i) v len) s = Some (Inr L_nil, s1)"
      using fetch_entered [OF nm s1(1) i1] s1(4) gettable_table [OF pt] False by simp
    moreover have "at_fields C ts d tbl fs s1" by (rule after_array [OF fo(1)]) (use s1 left in simp_all)
    ultimately show ?thesis by blast
  qed
qed

section \<open>The callback answers\<close>

lemma number_value:
  assumes "numeric f" and "elem_ok C ts sub f y"
  shows "encode_value C ts rec (field_arg f (elem_type f) i v len) y buf s =
    Some (if fst (elem_number C f y) then 8 else 4, snd (elem_number C f y), buf, after f s)"
proof -
  consider "elem_type f = SPROTO_TINTEGER" | "elem_type f = SPROTO_TDOUBLE" | "elem_type f = SPROTO_TBOOLEAN" using assms(1) by (auto simp: numeric_def)
  then show ?thesis
  proof cases
    case 1
    then obtain w where "integer_value C (f_extra f) y = Some w" using assms(2) by (auto simp: elem_ok_def)
    then show ?thesis using 1 by (auto simp: encode_value_def elem_number_def put_integer_def after_def Let_def sproto_type_defs)
  next
    case 2
    then show ?thesis by (simp add: encode_value_def elem_number_def after_def sproto_type_defs)
  next
    case 3
    then obtain b where "y = L_boolean b" using assms(2) by (auto simp: elem_ok_def sproto_type_defs)
    then show ?thesis using 3 by (simp add: encode_value_def elem_number_def after_def sproto_type_defs)
  qed
qed

lemma struct_index:
  assumes "wf_field n f" and "elem_type f = SPROTO_TSTRUCT"
  shows "\<exists>k. f_st f = Some k \<and> k < n"
proof -
  obtain t where t: "0 \<le> t" "t \<le> SPROTO_TSTRUCT" "f_type f = t \<or> f_type f = SPROTO_TARRAY + t"
    "case f_st f of None \<Rightarrow> t \<noteq> SPROTO_TSTRUCT | Some i \<Rightarrow> t = SPROTO_TSTRUCT \<and> i < n" using assms(1) by (auto simp: wf_field_def)
  have "t = 0 \<or> t = 1 \<or> t = 2 \<or> t = 3 \<or> t = 4" using t(1,2) by (simp add: sproto_type_defs) presburger
  then have "t = elem_type f" using t(3) by (auto simp: elem_type_def SPROTO_TARRAY_def)
  then show ?thesis using t(4) assms(2) by (auto split: option.splits)
qed

text \<open>The callback one level deeper keeps the contract.\<close>

definition deeper :: "lua_conv \<Rightarrow> sproto_type list \<Rightarrow> nat \<Rightarrow> bool" where
  "deeper C ts d \<longleftrightarrow> (\<forall>d' y. d = Suc d' \<longrightarrow>
     encode_source (encode C ts d) (tree_val C ts d y) (at_fields C ts d' y) (at_element C ts d' y) (tree_need C ts d y))"

lemma object_value:
  assumes deep: "deeper C ts d" and schema: "\<forall>t \<in> set ts. wf_type (length ts) t" and wf: "wf_field (length ts) f"
    and ty: "elem_type f = SPROTO_TSTRING \<or> elem_type f = SPROTO_TSTRUCT"
    and ok: "elem_ok C ts (conforms C ts d) f y" and room: "p + room \<le> length buf"
    and top: "elem_type f = SPROTO_TSTRUCT \<Longrightarrow> eu_top s + 1 + table_slots C ts d y (struct_of ts f) + 12 \<le> c_stack C"
  shows "\<exists>r u buf'. encode_value C ts (encode C ts d) (field_arg f (elem_type f) i (At p) (int room)) y buf s = Some (r, u, buf', s) \<and>
    (nx \<longrightarrow> writes (elem_bytes C (\<lambda>y. message (tree_val C ts d y) (t_f (struct_of ts f))) f y)
       (elem_need C (\<lambda>y. message_need (tree_val C ts d y) (tree_need C ts d y) (struct_of ts f)) f y) p room buf nx (r, u, buf', s))"
proof (cases "elem_type f = SPROTO_TSTRING")
  case True
  then obtain str where str: "tolstring C y = Some str" and small: "length str < 2 ^ 31"
    using ok by (auto simp: elem_ok_def sproto_type_defs split: option.splits)
  note sn = sint_nat_small [OF small]
  show ?thesis
  proof (cases "length str > room")
    case big: True
    then show ?thesis using True str sn
      by (auto simp: encode_value_def writes_def elem_need_def sproto_type_defs SPROTO_CB_ERROR_def)
  next
    case False
    then have "p + length str \<le> length buf" using room by simp
    from put_bytes_spec [OF this] obtain b where b: "put_bytes buf p str = Some b" "same p (length str) buf b" "has b p str" .
    have "same p room buf b" by (rule same_mono [OF b(2)]) (use False in simp_all)
    then show ?thesis using True str False b sn
      by (auto simp: encode_value_def writes_def elem_bytes_def sproto_type_defs)
  qed
next
  case False
  then have st: "elem_type f = SPROTO_TSTRUCT" using ty by blast
  then have cf: "conforms C ts d y (struct_of ts f)" using ok by (simp add: elem_ok_def sproto_type_defs)
  then obtain d' where d: "d = Suc d'" by (cases d) simp_all
  obtain k where k: "f_st f = Some k" "k < length ts" using struct_index [OF wf st] by blast
  let ?st = "struct_of ts f"
  have so: "?st = ts ! k" "?st \<in> set ts" using k by (simp_all add: struct_of_def)
  then have wt: "wf_type (length ts) ?st" using schema by blast
  have src: "encode_source (encode C ts d) (tree_val C ts d y) (at_fields C ts d' y) (at_element C ts d' y) (tree_need C ts d y)"
    using deep d by (simp add: deeper_def)
  have "fields_ok C ts d' y (t_f ?st)"
    using cf wt schema unfolding d by (auto simp: fields_ok_def wf_type_def)
  then have at: "at_fields C ts d' y (t_f ?st) (new_encode_ud (eu_top s + 1) y)"
    using wt top [OF st] unfolding d by (auto simp: at_fields_def fresh_tag_def new_encode_ud_def wf_type_def wf_field_def)
  have rm: "p + nat (int room) \<le> length buf" using room by simp
  from encode_source.sproto_encode_spec [OF src at wt rm] obtain r b s' where e: "sproto_encode (encode C ts d) ?st buf p (int room) (new_encode_ud (eu_top s + 1) y) = Some (r, b, s')"
    "same p room buf b" "r = -1 \<and> int room < int (message_need (tree_val C ts d y) (tree_need C ts d y) ?st) \<or>
     r = int (length (message (tree_val C ts d y) (t_f ?st))) \<and> r \<le> int room \<and> has b p (message (tree_val C ts d y) (t_f ?st))" by auto
  have run: "encode_value C ts (encode C ts d) (field_arg f (elem_type f) i (At p) (int room)) y buf s = Some (if r < 0 then SPROTO_CB_ERROR else r, 0, b, s)"
    using st k e(1) so by (simp add: encode_value_def sproto_type_defs)
  show ?thesis unfolding run using e(2,3) st by (auto simp: writes_def elem_need_def elem_bytes_def sproto_type_defs SPROTO_CB_ERROR_def)
qed

lemma encode_Suc:
  "eu_top s + 12 \<le> c_stack C \<Longrightarrow> encode C ts (Suc d) args buf s = do {
     (r, s1) \<leftarrow> fetch C args s;
     case r of
       Inl code \<Rightarrow> Some (code, 0, buf, s1)
     | Inr v \<Rightarrow> if v = L_nil then Some (SPROTO_CB_NIL, 0, buf, s1) else encode_value C ts (encode C ts d) args v buf s1 }"
  by (simp add: check_stack_def)

lemma tree_val_simps:
  "field_value C tbl f = L_nil \<Longrightarrow> tree_val C ts (Suc d) tbl f = Missing"
  "field_value C tbl f \<noteq> L_nil \<Longrightarrow> is_array f \<Longrightarrow> elem_type f = SPROTO_TBOOLEAN \<Longrightarrow>
     tree_val C ts (Suc d) tbl f = Bools (map (\<lambda>y. y = L_boolean True) (elements f (field_value C tbl f)))"
  "field_value C tbl f \<noteq> L_nil \<Longrightarrow> is_array f \<Longrightarrow> elem_type f \<noteq> SPROTO_TBOOLEAN \<Longrightarrow> numeric f \<Longrightarrow>
     tree_val C ts (Suc d) tbl f = Numbers (map (elem_number C f) (elements f (field_value C tbl f)))"
  "field_value C tbl f \<noteq> L_nil \<Longrightarrow> is_array f \<Longrightarrow> \<not> numeric f \<Longrightarrow>
     tree_val C ts (Suc d) tbl f = Blobs (map (elem_bytes C (\<lambda>y. message (tree_val C ts d y) (t_f (struct_of ts f))) f) (elements f (field_value C tbl f)))"
  "field_value C tbl f \<noteq> L_nil \<Longrightarrow> \<not> is_array f \<Longrightarrow> numeric f \<Longrightarrow>
     tree_val C ts (Suc d) tbl f = Number (fst (elem_number C f (field_value C tbl f))) (snd (elem_number C f (field_value C tbl f)))"
  "field_value C tbl f \<noteq> L_nil \<Longrightarrow> \<not> is_array f \<Longrightarrow> \<not> numeric f \<Longrightarrow>
     tree_val C ts (Suc d) tbl f = Bytes (elem_bytes C (\<lambda>y. message (tree_val C ts d y) (t_f (struct_of ts f))) f (field_value C tbl f))"
  by (simp_all add: Let_def numeric_def split: prod.splits)

lemma tree_val_kind:
  "tree_val C ts (Suc d) tbl f = Missing \<Longrightarrow> field_value C tbl f = L_nil"
  "tree_val C ts (Suc d) tbl f = Number w n \<Longrightarrow> field_value C tbl f \<noteq> L_nil \<and> \<not> is_array f \<and> numeric f \<and> elem_number C f (field_value C tbl f) = (w, n)"
  "tree_val C ts (Suc d) tbl f = Bytes bs \<Longrightarrow> field_value C tbl f \<noteq> L_nil \<and> \<not> is_array f \<and> \<not> numeric f \<and>
     bs = elem_bytes C (\<lambda>y. message (tree_val C ts d y) (t_f (struct_of ts f))) f (field_value C tbl f)"
  "tree_val C ts (Suc d) tbl f = Numbers xs \<Longrightarrow> field_value C tbl f \<noteq> L_nil \<and> is_array f \<and> numeric f \<and> elem_type f \<noteq> SPROTO_TBOOLEAN \<and>
     xs = map (elem_number C f) (elements f (field_value C tbl f))"
  "tree_val C ts (Suc d) tbl f = Bools qs \<Longrightarrow> field_value C tbl f \<noteq> L_nil \<and> is_array f \<and> elem_type f = SPROTO_TBOOLEAN \<and>
     qs = map (\<lambda>y. y = L_boolean True) (elements f (field_value C tbl f))"
  "tree_val C ts (Suc d) tbl f = Blobs ys \<Longrightarrow> field_value C tbl f \<noteq> L_nil \<and> is_array f \<and> \<not> numeric f \<and>
     ys = map (elem_bytes C (\<lambda>y. message (tree_val C ts d y) (t_f (struct_of ts f))) f) (elements f (field_value C tbl f))"
  by (auto simp: Let_def numeric_def split: if_splits prod.splits)

lemma non_numeric: "wf_field n f \<Longrightarrow> \<not> numeric f \<Longrightarrow> elem_type f = SPROTO_TSTRING \<or> elem_type f = SPROTO_TSTRUCT"
  using wf_field_type(2) [of n f] by (auto simp: numeric_def)

lemma scalar_type: "wf_field n f \<Longrightarrow> \<not> is_array f \<Longrightarrow> f_type f = elem_type f"
  using wf_field_type(1) [of n f] by blast

lemma at_element_ok:
  "at_element C ts d tbl f fs i s \<Longrightarrow> wf_field (length ts) f \<and> (\<forall>t \<in> set ts. wf_type (length ts) t) \<and>
    (field_value C tbl f \<noteq> L_nil \<longrightarrow> table_ok f (field_value C tbl f) \<and>
      (\<forall>y \<in> set (elements f (field_value C tbl f)). elem_ok C ts (conforms C ts d) f y))"
  by (auto simp: at_element_def fields_ok_def field_ok_def)

lemma at_fields_ok:
  "at_fields C ts d tbl (f # fs) s \<Longrightarrow> wf_field (length ts) f \<and> (\<forall>t \<in> set ts. wf_type (length ts) t) \<and>
    (field_value C tbl f \<noteq> L_nil \<longrightarrow> \<not> is_array f \<longrightarrow> elem_ok C ts (conforms C ts d) f (field_value C tbl f))"
  by (auto simp: at_fields_def fields_ok_def field_ok_def)

lemma fields_ok_first:
  "fields_ok C ts d tbl (f # fs) \<Longrightarrow> wf_field (length ts) f \<and> (\<forall>t \<in> set ts. wf_type (length ts) t) \<and>
    (field_value C tbl f \<noteq> L_nil \<longrightarrow> \<not> is_array f \<longrightarrow> elem_ok C ts (conforms C ts d) f (field_value C tbl f))"
  by (auto simp: fields_ok_def field_ok_def)

text \<open>There is room for the call.\<close>

lemma at_fields_room: "at_fields C ts d tbl fs s \<Longrightarrow> eu_top s + 12 \<le> c_stack C"
  by (simp add: at_fields_def)

lemma at_element_room:
  assumes "at_element C ts d tbl f fs i s"
  shows "eu_top s + 12 \<le> c_stack C"
proof (cases "i = 1")
  case False
  then have "taken C tbl f i \<le> field_slots C tbl f" by (intro taken_le) (use assms in \<open>auto simp: at_element_def Let_def\<close>)
  moreover have "eu_top s + level_slots ts (table_slots C ts d) C tbl (f # fs) + 12 \<le> c_stack C + taken C tbl f i"
    using assms False by (simp add: at_element_def)
  ultimately show ?thesis using level_slots_Cons(1) [of C tbl f ts "table_slots C ts d" fs] by linarith
qed (use assms in \<open>simp add: at_element_def\<close>)

lemma tree_val_fits:
  assumes "fields_ok C ts d tbl (f # fs)"
  shows "fits f (tree_val C ts (Suc d) tbl f)"
proof (cases "field_value C tbl f = L_nil")
  case True
  then show ?thesis by (simp add: tree_val_simps(1) fits_def)
next
  case False
  note ok = fields_ok_first [OF assms]
  have nn: "\<not> numeric f \<Longrightarrow> elem_type f = SPROTO_TSTRING \<or> elem_type f = SPROTO_TSTRUCT" using non_numeric ok by blast
  consider "is_array f" | "\<not> is_array f" "numeric f" | "\<not> is_array f" "\<not> numeric f" by blast
  then show ?thesis
  proof cases
    case 1
    then show ?thesis using tree_val_simps(2-4) [OF False, where ts = ts and d = d] nn by (cases "elem_type f = SPROTO_TBOOLEAN"; cases "numeric f") (auto simp: fits_def numeric_def)
  next
    case 2
    then show ?thesis using tree_val_simps(5) [OF False, where ts = ts and d = d] by (auto simp: fits_def numeric_def elem_number_def sproto_type_defs)
  next
    case 3
    then show ?thesis using tree_val_simps(6) [OF False, where ts = ts and d = d] nn by (simp add: fits_def)
  qed
qed

lemma max_need: "y \<in> set ys \<Longrightarrow> nd y \<le> foldr max (map nd ys) (0 :: nat)"
  by (induction ys) (auto simp: max.coboundedI2)

lemma writes_more: "writes bs n p room buf nx res \<Longrightarrow> n \<le> n' \<Longrightarrow> writes bs n' p room buf nx res"
  by (auto simp: writes_def split: prod.splits)

lemma encode_source_step:
  assumes deep: "deeper C ts d"
  shows "encode_source (encode C ts (Suc d)) (tree_val C ts (Suc d) tbl) (at_fields C ts d tbl) (at_element C ts d tbl) (tree_need C ts (Suc d) tbl)"
proof
  fix f fs s assume a: "at_fields C ts d tbl (f # fs) s"
  show "fits f (tree_val C ts (Suc d) tbl f)" by (rule tree_val_fits [where fs = fs]) (use a in \<open>simp add: at_fields_def\<close>)
  assume "is_array f"
  then show "at_element C ts d tbl f fs 1 s" using a by (simp add: at_element_def at_fields_def)
next
  fix f fs s v len buf assume a: "at_fields C ts d tbl (f # fs) s" and m: "tree_val C ts (Suc d) tbl f = Missing" and "\<not> is_array f"
  then show "\<exists>u s'. encode C ts (Suc d) (field_arg f (f_type f) 0 v len) buf s = Some (SPROTO_CB_NIL, u, buf, s') \<and> at_fields C ts d tbl fs s'"
    using fetch_scalar(1) [OF a, of "f_type f" v len] fetch_scalar(2) [OF a] tree_val_kind(1) [OF m] unfolding encode_Suc [OF at_fields_room [OF a]] by simp
next
  fix f fs s w n buf assume a: "at_fields C ts d tbl (f # fs) s" and na: "\<not> is_array f" and v: "tree_val C ts (Suc d) tbl f = Number w n"
  note k = tree_val_kind(2) [OF v] and ok = at_fields_ok [OF a]
  have t: "f_type f = elem_type f" using scalar_type ok na by blast
  have "elem_ok C ts (conforms C ts d) f (field_value C tbl f)" using ok k by blast
  from number_value [OF _ this] k have "encode_value C ts (encode C ts d) (field_arg f (elem_type f) 0 (Local 0) 8) (field_value C tbl f) buf s =
    Some (if w then 8 else 4, n, buf, after f s)" by simp
  then show "\<exists>u s'. encode C ts (Suc d) (field_arg f (f_type f) 0 (Local 0) 8) buf s = Some (if w then 8 else 4, u, buf, s') \<and>
      (if w then u = n else (ucast u :: u32) = ucast n) \<and> at_fields C ts d tbl fs s'"
    using fetch_scalar(1) [OF a, of "f_type f" "Local 0" 8] fetch_scalar(2) [OF a na] k t unfolding encode_Suc [OF at_fields_room [OF a]] by auto
next
  fix f fs s bs p room buf assume a: "at_fields C ts d tbl (f # fs) s" and na: "\<not> is_array f" and v: "tree_val C ts (Suc d) tbl f = Bytes bs"
    and room: "p + room \<le> length (buf :: u8 list)"
  note k = tree_val_kind(3) [OF v] and ok = at_fields_ok [OF a]
  have t: "f_type f = elem_type f" using scalar_type ok na by blast
  have e: "elem_ok C ts (conforms C ts d) f (field_value C tbl f)" using ok k by blast
  have ty: "elem_type f = SPROTO_TSTRING \<or> elem_type f = SPROTO_TSTRUCT" using non_numeric ok k by blast
  have af: "after f s = s" using ty by (auto simp: after_def sproto_type_defs)
  have nd: "tree_need C ts (Suc d) tbl f = elem_need C (\<lambda>y. message_need (tree_val C ts d y) (tree_need C ts d y) (struct_of ts f)) f (field_value C tbl f)"
    using k by (simp add: Let_def)
  have tp: "eu_top s + 1 + table_slots C ts d (field_value C tbl f) (struct_of ts f) + 12 \<le> c_stack C" if "elem_type f = SPROTO_TSTRUCT"
    using a na k that level_slots_Cons(2) [of C tbl f ts "table_slots C ts d" fs] by (simp add: at_fields_def struct_slots_def Let_def)
  from object_value [OF deep _ _ ty e room tp, where i = 0 and nx = True] ok obtain r u buf' where
    "encode_value C ts (encode C ts d) (field_arg f (elem_type f) 0 (At p) (int room)) (field_value C tbl f) buf s = Some (r, u, buf', s)"
    "writes bs (tree_need C ts (Suc d) tbl f) p room buf True (r, u, buf', s)" unfolding nd conjunct2 [OF conjunct2 [OF conjunct2 [OF k]]] by blast
  then show "\<exists>r u buf' s'. encode C ts (Suc d) (field_arg f (f_type f) 0 (At p) (int room)) buf s = Some (r, u, buf', s') \<and>
      writes bs (tree_need C ts (Suc d) tbl f) p room buf (at_fields C ts d tbl fs s') (r, u, buf', s')"
    using af fetch_scalar(1) [OF a, of "f_type f" "At p" "int room"] fetch_scalar(2) [OF a na] k t unfolding encode_Suc [OF at_fields_room [OF a]] by auto
next
  fix f fs s v len buf assume w: "at_element C ts d tbl f fs 1 s" and m: "tree_val C ts (Suc d) tbl f = Missing"
  from fetch_no_array [OF w tree_val_kind(1) [OF m], of "elem_type f" v len]
  show "\<exists>u s'. encode C ts (Suc d) (field_arg f (elem_type f) 1 v len) buf s = Some (SPROTO_CB_NOARRAY, u, buf, s') \<and> at_fields C ts d tbl fs s'"
    unfolding encode_Suc [OF at_element_room [OF w]] by auto
next
  fix f fs i s xs w n buf assume a: "at_element C ts d tbl f fs i s" and v: "tree_val C ts (Suc d) tbl f = Numbers xs" and i: "1 \<le> i" "i \<le> length xs"
    and x: "xs ! (i - 1) = (w, n)"
  note k = tree_val_kind(4) [OF v] and ok = at_element_ok [OF a]
  have il: "i \<le> length (elements f (field_value C tbl f))" using i k by simp
  let ?y = "elements f (field_value C tbl f) ! (i - 1)"
  have y: "elem_number C f ?y = (w, n)" using x k i by (simp add: nth_map)
  obtain s' where s': "fetch C (field_arg f (elem_type f) (int i) (Local 0) 8) s = Some (Inr ?y, s')" "at_element C ts d tbl f fs (i + 1) (after f s')" "?y \<noteq> L_nil"
    "eu_top s' + struct_slots ts (table_slots C ts d) C tbl f + 12 \<le> c_stack C"
    using fetch_element [OF a _ i(1) il, of "elem_type f" "Local 0" 8] k ok by blast
  have "?y \<in> set (elements f (field_value C tbl f))" using il i by simp
  then have "elem_ok C ts (conforms C ts d) f ?y" using ok k by blast
  from number_value [OF _ this] k y
  have "encode_value C ts (encode C ts d) (field_arg f (elem_type f) (int i) (Local 0) 8) ?y buf s' = Some (if w then 8 else 4, n, buf, after f s')" by simp
  then show "\<exists>u s'. encode C ts (Suc d) (field_arg f (elem_type f) (int i) (Local 0) 8) buf s = Some (if w then 8 else 4, u, buf, s') \<and>
      (if w then u = n else (ucast u :: u32) = ucast n) \<and> at_element C ts d tbl f fs (i + 1) s'"
    using s' unfolding encode_Suc [OF at_element_room [OF a]] by auto
next
  fix f fs i s qs buf assume a: "at_element C ts d tbl f fs i s" and v: "tree_val C ts (Suc d) tbl f = Bools qs" and i: "1 \<le> i" "i \<le> length qs"
  note k = tree_val_kind(5) [OF v] and ok = at_element_ok [OF a]
  have il: "i \<le> length (elements f (field_value C tbl f))" using i k by simp
  let ?y = "elements f (field_value C tbl f) ! (i - 1)"
  have q: "qs ! (i - 1) \<longleftrightarrow> ?y = L_boolean True" using k i by (simp add: nth_map)
  obtain s' where s': "fetch C (field_arg f (elem_type f) (int i) (Local 0) 4) s = Some (Inr ?y, s')" "at_element C ts d tbl f fs (i + 1) (after f s')" "?y \<noteq> L_nil"
    "eu_top s' + struct_slots ts (table_slots C ts d) C tbl f + 12 \<le> c_stack C"
    using fetch_element [OF a _ i(1) il, of "elem_type f" "Local 0" 4] k ok by blast
  have "?y \<in> set (elements f (field_value C tbl f))" using il i by simp
  then have e: "elem_ok C ts (conforms C ts d) f ?y" using ok k by blast
  have "numeric f" using k by (simp add: numeric_def)
  from number_value [OF this e] have "encode_value C ts (encode C ts d) (field_arg f (elem_type f) (int i) (Local 0) 4) ?y buf s' =
    Some (4, if ?y = L_boolean True then 1 else 0, buf, after f s')" using k by (simp add: elem_number_def sproto_type_defs)
  then show "\<exists>r u s'. encode C ts (Suc d) (field_arg f (elem_type f) (int i) (Local 0) 4) buf s = Some (r, u, buf, s') \<and> 0 \<le> r \<and>
      ((ucast u :: u32) \<noteq> 0 \<longleftrightarrow> qs ! (i - 1)) \<and> at_element C ts d tbl f fs (i + 1) s'"
    using s' q unfolding encode_Suc [OF at_element_room [OF a]] by auto
next
  fix f fs i s ys p room buf assume a: "at_element C ts d tbl f fs i s" and v: "tree_val C ts (Suc d) tbl f = Blobs ys" and i: "1 \<le> i" "i \<le> length ys"
    and room: "p + room \<le> length (buf :: u8 list)"
  note k = tree_val_kind(6) [OF v] and ok = at_element_ok [OF a]
  have il: "i \<le> length (elements f (field_value C tbl f))" using i k by simp
  let ?y = "elements f (field_value C tbl f) ! (i - 1)"
  let ?nd = "elem_need C (\<lambda>y. message_need (tree_val C ts d y) (tree_need C ts d y) (struct_of ts f)) f"
  have q: "ys ! (i - 1) = elem_bytes C (\<lambda>y. message (tree_val C ts d y) (t_f (struct_of ts f))) f ?y" using k i by (simp add: nth_map)
  obtain s' where s': "fetch C (field_arg f (elem_type f) (int i) (At p) (int room)) s = Some (Inr ?y, s')" "at_element C ts d tbl f fs (i + 1) (after f s')" "?y \<noteq> L_nil"
    "eu_top s' + struct_slots ts (table_slots C ts d) C tbl f + 12 \<le> c_stack C"
    using fetch_element [OF a _ i(1) il, of "elem_type f" "At p" "int room"] k ok by blast
  have yin: "?y \<in> set (elements f (field_value C tbl f))" using il i by simp
  then have e: "elem_ok C ts (conforms C ts d) f ?y" using ok k by blast
  have ty: "elem_type f = SPROTO_TSTRING \<or> elem_type f = SPROTO_TSTRUCT" using non_numeric ok k by blast
  have af: "after f s' = s'" using ty by (auto simp: after_def sproto_type_defs)
  have nd: "?nd ?y \<le> tree_need C ts (Suc d) tbl f" using k max_need [OF yin, of ?nd] by (simp add: Let_def)
  have tp: "eu_top s' + 1 + table_slots C ts d ?y (struct_of ts f) + 12 \<le> c_stack C" if "elem_type f = SPROTO_TSTRUCT"
    using s'(4) k that max_need [OF yin, of "\<lambda>y. table_slots C ts d y (struct_of ts f) + 1"] by (simp add: struct_slots_def Let_def)
  from object_value [OF deep _ _ ty e room tp, where i = "int i" and nx = True] ok obtain r u buf' where
    e: "encode_value C ts (encode C ts d) (field_arg f (elem_type f) (int i) (At p) (int room)) ?y buf s' = Some (r, u, buf', s')"
    and "writes (ys ! (i - 1)) (?nd ?y) p room buf True (r, u, buf', s')" unfolding q by blast
  then have "writes (ys ! (i - 1)) (tree_need C ts (Suc d) tbl f) p room buf True (r, u, buf', s')" using writes_more nd by blast
  then show "\<exists>r u buf' s'. encode C ts (Suc d) (field_arg f (elem_type f) (int i) (At p) (int room)) buf s = Some (r, u, buf', s') \<and>
      writes (ys ! (i - 1)) (tree_need C ts (Suc d) tbl f) p room buf (at_element C ts d tbl f fs (i + 1) s') (r, u, buf', s')"
    using s' e af unfolding encode_Suc [OF at_element_room [OF a]] by auto
next
  fix f fs i s v len buf assume a: "at_element C ts d tbl f fs i s"
    and v: "case tree_val C ts (Suc d) tbl f of Numbers xs \<Rightarrow> i = length xs + 1 | Bools qs \<Rightarrow> i = length qs + 1 | Blobs ys \<Rightarrow> i = length ys + 1 | _ \<Rightarrow> False"
  note ok = at_element_ok [OF a]
  have k: "field_value C tbl f \<noteq> L_nil \<and> i = length (elements f (field_value C tbl f)) + 1"
  proof (cases "tree_val C ts (Suc d) tbl f")
    case (Numbers xs)
    then show ?thesis using tree_val_kind(4) [OF Numbers] v by simp
  next
    case (Bools qs)
    then show ?thesis using tree_val_kind(5) [OF Bools] v by simp
  next
    case (Blobs ys)
    then show ?thesis using tree_val_kind(6) [OF Blobs] v by simp
  qed (use v in simp_all)
  then obtain r s' where r: "fetch C (field_arg f (elem_type f) (int i) v len) s = Some (r, s')" "r = Inl SPROTO_CB_NIL \<or> r = Inr L_nil" "at_fields C ts d tbl fs s'"
    using fetch_end [OF a, of "elem_type f" v len] ok by blast
  then show "\<exists>u s'. encode C ts (Suc d) (field_arg f (elem_type f) (int i) v len) buf s = Some (SPROTO_CB_NIL, u, buf, s') \<and> at_fields C ts d tbl fs s'"
    unfolding encode_Suc [OF at_element_room [OF a]] by auto
qed

lemma all_deeper: "deeper C ts d"
proof (induction d)
  case 0
  then show ?case by (simp add: deeper_def)
next
  case (Suc d)
  show ?case unfolding deeper_def
  proof (intro allI impI)
    fix d' y assume "Suc d = Suc d'"
    then have "d' = d" by simp
    then show "encode_source (encode C ts (Suc d)) (tree_val C ts (Suc d) y) (at_fields C ts d' y) (at_element C ts d' y) (tree_need C ts (Suc d) y)"
      using encode_source_step [OF Suc.IH, of y] by (simp only:)
  qed
qed

text \<open>The callback of \<open>lsproto.c\<close> is such a source, at every level.\<close>

interpretation lua_enc: encode_source "encode C ts (Suc d)" "tree_val C ts (Suc d) tbl" "at_fields C ts d tbl" "at_element C ts d tbl"
  "tree_need C ts (Suc d) tbl" for C ts d tbl
  by (rule encode_source_step [OF all_deeper])

section \<open>The message of a table\<close>

definition table_message :: "lua_conv \<Rightarrow> sproto_type list \<Rightarrow> nat \<Rightarrow> sproto_type \<Rightarrow> lua_value \<Rightarrow> u8 list" where
  "table_message C ts d st tbl = message (tree_val C ts d tbl) (t_f st)"

definition table_need :: "lua_conv \<Rightarrow> sproto_type list \<Rightarrow> nat \<Rightarrow> sproto_type \<Rightarrow> lua_value \<Rightarrow> nat" where
  "table_need C ts d st tbl = message_need (tree_val C ts d tbl) (tree_need C ts d tbl) st"

lemma table_fields_ok:
  assumes "\<forall>t \<in> set ts. wf_type (length ts) t" and "st \<in> set ts" and "conforms C ts (Suc d) tbl st"
  shows "fields_ok C ts d tbl (t_f st)"
  using assms by (auto simp: fields_ok_def wf_type_def)

lemma at_new:
  assumes schema: "\<forall>t \<in> set ts. wf_type (length ts) t" and st: "st \<in> set ts" and ok: "conforms C ts (Suc d) tbl st"
  and room: "h + table_slots C ts (Suc d) tbl st + 12 \<le> c_stack C"
  shows "at_fields C ts d tbl (t_f st) (new_encode_ud h tbl)"
proof -
  have wt: "wf_type (length ts) st" using schema st by blast
  then have "fields_ok C ts d tbl (t_f st)" using ok schema by (auto simp: fields_ok_def wf_type_def)
  then show ?thesis using wt room by (auto simp: at_fields_def fresh_tag_def new_encode_ud_def wf_type_def wf_field_def)
qed

lemma encode_table:
  assumes schema: "\<forall>t \<in> set ts. wf_type (length ts) t" and st: "st \<in> set ts" and ok: "conforms C ts (Suc d) tbl st"
    and room: "2 + table_slots C ts (Suc d) tbl st + 12 \<le> c_stack C"
  obtains r buf' s' where "sproto_encode (encode C ts (Suc d)) st buf 0 (int (length buf)) (new_encode_ud 2 tbl) = Some (r, buf', s')"
    "length buf' = length buf" "r = -1 \<and> length buf < table_need C ts (Suc d) st tbl \<or>
      r = int (length (table_message C ts (Suc d) st tbl)) \<and> has buf' 0 (table_message C ts (Suc d) st tbl)"
proof -
  have wt: "wf_type (length ts) st" using schema st by blast
  have "0 + nat (int (length buf)) \<le> length buf" "0 \<le> int (length buf)" by simp_all
  from lua_enc.sproto_encode_spec [OF at_new [OF assms] wt this] show ?thesis
    using that same_length by (fastforce simp: table_message_def table_need_def)
qed

lemma double_size: "0 < sz \<Longrightarrow> sz \<le> ENCODE_MAXSIZE \<Longrightarrow> expand_size sz (sz * 2) = Some (sz * 2)"
  by (subst expand_size.simps) (simp add: ENCODE_MAXSIZE_def)

lemma lencode_loop_message:
  assumes schema: "\<forall>t \<in> set ts. wf_type (length ts) t" and st: "st \<in> set ts" and ok: "conforms C ts ENCODE_DEEPLEVEL tbl st"
    and room: "2 + table_slots C ts ENCODE_DEEPLEVEL tbl st + 12 \<le> c_stack C" and fresh: "\<And>n. length (fresh n) = n"
  shows "0 < length buf \<Longrightarrow> length buf \<le> ENCODE_MAXSIZE \<Longrightarrow>
    (\<exists>buf'. lencode_loop fresh C ts st tbl buf (length buf) = Some (Inr (table_message C ts ENCODE_DEEPLEVEL st tbl, buf')) \<and>
      length (table_message C ts ENCODE_DEEPLEVEL st tbl) \<le> length buf' \<and> length buf' \<le> ENCODE_MAXSIZE) \<or>
    lencode_loop fresh C ts st tbl buf (length buf) = Some (Inl ''object is too large'') \<and>
      ENCODE_MAXSIZE < 2 * table_need C ts ENCODE_DEEPLEVEL st tbl"
proof (induction "ENCODE_MAXSIZE - length buf" arbitrary: buf rule: less_induct)
  case less
  have lev: "ENCODE_DEEPLEVEL = Suc 63" by (simp add: ENCODE_DEEPLEVEL_def)
  let ?sz = "length buf" let ?m = "table_message C ts ENCODE_DEEPLEVEL st tbl"
  obtain r b s where e: "sproto_encode (encode C ts ENCODE_DEEPLEVEL) st buf 0 (int ?sz) (new_encode_ud 2 tbl) = Some (r, b, s)"
    and lb: "length b = length buf" and rb: "r = -1 \<and> ?sz < table_need C ts ENCODE_DEEPLEVEL st tbl \<or> r = int (length ?m) \<and> has b 0 ?m"
    using encode_table [OF schema st ok [unfolded lev] room [unfolded lev], of buf] unfolding lev by blast
  show ?case
  proof (cases "r = -1")
    case False
    then have "r = int (length ?m)" "length ?m \<le> length b" "\<forall>i < length ?m. b ! i = ?m ! i" using rb by (auto simp: has_def)
    moreover from this have "take (length ?m) b = ?m" by (intro nth_equalityI) simp_all
    ultimately have "r = int (length ?m)" "length ?m \<le> length b" "take (length ?m) b = ?m" by blast+
    then show ?thesis using e lb less.prems(2) by (subst lencode_loop.simps) simp
  next
    case True
    then have need: "?sz < table_need C ts ENCODE_DEEPLEVEL st tbl" using rb by auto
    show ?thesis
    proof (cases "?sz * 2 > ENCODE_MAXSIZE")
      case True
      then show ?thesis using e \<open>r = -1\<close> need less.prems double_size [of ?sz] by (subst (2) lencode_loop.simps) (simp add: expand_buffer_def)
    next
      case False
      let ?b = "fresh (?sz * 2)"
      have "lencode_loop fresh C ts st tbl buf ?sz = lencode_loop fresh C ts st tbl ?b (length ?b)"
        using e \<open>r = -1\<close> False less.prems double_size [of ?sz] fresh by (subst lencode_loop.simps) (simp add: expand_buffer_def)
      moreover have "ENCODE_MAXSIZE - length ?b < ENCODE_MAXSIZE - ?sz" "0 < length ?b" "length ?b \<le> ENCODE_MAXSIZE"
        unfolding fresh using False less.prems(1) by linarith+
      ultimately show ?thesis using less.hyps by metis
    qed
  qed
qed

end
