(* ===== verification/LSprotoDecode.thy ===== *)
theory LSprotoDecode
  imports LSprotoEncode
begin

text \<open>
  Decoding into Lua tables: the message of a table is decoded to the table of its fields, with the numbers the message can carry.
\<close>

section \<open>The decoded table\<close>

definition norm_elem :: "lua_conv \<Rightarrow> (lua_value \<Rightarrow> lua_value) \<Rightarrow> field_desc \<Rightarrow> lua_value \<Rightarrow> lua_value" where
  "norm_elem C sub f y =
     (if elem_type f = SPROTO_TINTEGER then
        let i = the (integer_value C (f_extra f) y) in if f_extra f \<noteq> 0 then L_number (c_divide C i (f_extra f)) else L_integer i
      else if elem_type f = SPROTO_TDOUBLE then L_number (tonumber C y)
      else if elem_type f = SPROTO_TBOOLEAN then L_boolean (y = L_boolean True)
      else if elem_type f = SPROTO_TSTRING then L_string (the (tolstring C y))
      else sub y)"

text \<open>The structs of a map are stored under the field of the main index, other elements under their position.\<close>

definition is_map :: "field_desc \<Rightarrow> bool" where
  "is_map f \<longleftrightarrow> is_array f \<and> elem_type f = SPROTO_TSTRUCT \<and> 0 \<le> f_key f"

fun set_pairs :: "(lua_value \<times> lua_value) list \<Rightarrow> lua_value \<Rightarrow> lua_value option" where
  "set_pairs [] t = Some t"
| "set_pairs (kv # kvs) t = do { t1 \<leftarrow> table_set (fst kv) (snd kv) t; set_pairs kvs t1 }"

definition positions :: "lua_value list \<Rightarrow> (lua_value \<times> lua_value) list" where
  "positions vs = map (\<lambda>i. (lua_int (i + 1), vs ! i)) [0..<length vs]"

definition norm_array :: "lua_conv \<Rightarrow> (lua_value \<Rightarrow> lua_value) \<Rightarrow> (lua_value \<Rightarrow> lua_value) \<Rightarrow> field_desc \<Rightarrow> lua_value list \<Rightarrow> lua_value" where
  "norm_array C sub key f ys =
     (if is_map f then the (set_pairs (map (\<lambda>y. (key y, norm_elem C sub f y)) ys) (L_table 0 []))
      else L_table (length ys) (positions (map (norm_elem C sub f) ys)))"

definition norm_field :: "lua_conv \<Rightarrow> (lua_value \<Rightarrow> lua_value) \<Rightarrow> (lua_value \<Rightarrow> lua_value) \<Rightarrow> field_desc \<Rightarrow> lua_value \<Rightarrow> lua_value" where
  "norm_field C sub key f x = (if is_array f then norm_array C sub key f (elements f x) else norm_elem C sub f x)"

text \<open>The value of the main index: that of the field with its tag.\<close>

definition main_field :: "lua_conv \<Rightarrow> int \<Rightarrow> sproto_type \<Rightarrow> lua_value \<Rightarrow> field_desc option" where
  "main_field C k st y = find (\<lambda>g. f_tag g = k \<and> \<not> is_array g \<and> field_value C y g \<noteq> L_nil) (t_f st)"

definition main_key :: "lua_conv \<Rightarrow> int \<Rightarrow> sproto_type \<Rightarrow> lua_value \<Rightarrow> lua_value" where
  "main_key C k st y = (case main_field C k st y of None \<Rightarrow> L_nil | Some g \<Rightarrow> norm_elem C (\<lambda>_. L_nil) g (field_value C y g))"

primrec norm_table :: "lua_conv \<Rightarrow> sproto_type list \<Rightarrow> nat \<Rightarrow> sproto_type \<Rightarrow> lua_value \<Rightarrow> lua_value" where
  "norm_table C ts 0 st tbl = L_nil"
| "norm_table C ts (Suc d) st tbl =
     L_table 0 (map (\<lambda>f. (name_key (the (f_name f)),
         norm_field C (norm_table C ts d (struct_of ts f)) (main_key C (f_key f) (struct_of ts f)) f (field_value C tbl f)))
       (filter (\<lambda>f. field_value C tbl f \<noteq> L_nil) (t_f st)))"

text \<open>The struct of a map has a main index that is no struct and can be a key.\<close>

definition key_ok :: "lua_conv \<Rightarrow> int \<Rightarrow> sproto_type \<Rightarrow> lua_value \<Rightarrow> bool" where
  "key_ok C k st y \<longleftrightarrow> \<not> bad_key (norm_key (main_key C k st y)) \<and>
     (case main_field C k st y of None \<Rightarrow> False | Some g \<Rightarrow> elem_type g \<noteq> SPROTO_TSTRUCT)"

primrec keys_ok :: "lua_conv \<Rightarrow> sproto_type list \<Rightarrow> nat \<Rightarrow> sproto_type \<Rightarrow> lua_value \<Rightarrow> bool" where
  "keys_ok C ts 0 st tbl \<longleftrightarrow> False"
| "keys_ok C ts (Suc d) st tbl \<longleftrightarrow>
     (\<forall>f \<in> set (t_f st). field_value C tbl f \<noteq> L_nil \<longrightarrow> elem_type f = SPROTO_TSTRUCT \<longrightarrow>
        (\<forall>y \<in> set (if is_array f then elements f (field_value C tbl f) else [field_value C tbl f]).
           keys_ok C ts d (struct_of ts f) y \<and> (is_map f \<longrightarrow> key_ok C (f_key f) (struct_of ts f) y)))"

text \<open>The names of the fields of a type differ, and only arrays of structs have a main index.\<close>

definition names_ok :: "sproto_type list \<Rightarrow> bool" where
  "names_ok ts \<longleftrightarrow> (\<forall>t \<in> set ts. distinct (map (\<lambda>f. name_key (the (f_name f))) (t_f t)) \<and>
     (\<forall>f \<in> set (t_f t). elem_type f = SPROTO_TSTRUCT \<longrightarrow> 0 \<le> f_key f \<longrightarrow> is_array f))"

section \<open>Numbers\<close>

lemma div_small_bounds: "i div 2 ^ 31 = 0 \<or> i div 2 ^ 31 = -1 \<Longrightarrow> - (2 ^ 31) \<le> i \<and> i < (2 ^ 31 :: int)"
  by simp presburger

lemma expand64_scast: "expand64 x = scast x"
proof (rule bit_word_eqI)
  fix n :: nat assume "n < LENGTH(64)"
  consider "n < 31" | "n = 31" | "31 < n" by linarith
  then show "bit (expand64 x) n \<longleftrightarrow> bit (scast x :: u64) n"
  proof cases
    case 3
    then have "\<not> bit x n" using bit_imp_le_length [of x n] by auto
    then show ?thesis using 3 \<open>n < LENGTH(64)\<close> by (auto simp: expand64_def top_bit bit_simps)
  qed (auto simp: expand64_def top_bit bit_simps)
qed

lemma expand64_ucast:
  assumes "sint (v :: u64) div 2 ^ 31 = 0 \<or> sint v div 2 ^ 31 = -1"
  shows "expand64 (ucast (ucast (ucast v :: u32) :: u64)) = v"
proof -
  have b: "- (2 ^ 31) \<le> sint v" "sint v < 2 ^ 31" using assms div_small_bounds by blast+
  have c: "ucast (ucast (ucast v :: u32) :: u64) = (ucast v :: u32)" by (rule bit_word_eqI) (simp add: bit_simps)
  have e: "(ucast v :: u32) = word_of_int (sint v)" by (rule bit_word_eqI) (simp add: bit_simps)
  have "sint (word_of_int i :: u32) = signed_take_bit 31 i" for i by (simp add: signed_of_int)
  then have "sint (ucast v :: u32) = signed_take_bit 31 (sint v)" by (simp only: e)
  then have "sint (ucast v :: u32) = sint v" using b by (simp add: signed_take_bit_int_eq_self_iff)
  then have "expand64 (ucast v :: u32) = v" unfolding expand64_scast scast_eq by simp
  then show ?thesis unfolding c by simp
qed

lemma number64_put: "put_integer v = (n, u) \<Longrightarrow> number64 (n = 8) u = v"
  using expand64_ucast [of v] by (auto simp: put_integer_def number64_def Let_def split: if_splits)

lemma decode_number:
  assumes "numeric f" and "elem_ok C ts sub f y" and "elem_number C f y = (w, u)"
  shows "decode_scalar C data (field_arg f (elem_type f) i (Local (number64 w u)) 8) = Some (norm_elem C nt f y)"
proof -
  consider "elem_type f = SPROTO_TINTEGER" | "elem_type f = SPROTO_TDOUBLE" | "elem_type f = SPROTO_TBOOLEAN" using assms(1) by (auto simp: numeric_def)
  then show ?thesis
  proof cases
    case 1
    then obtain v where v: "integer_value C (f_extra f) y = Some v" using assms(2) by (auto simp: elem_ok_def)
    obtain n x where p: "put_integer v = (n, x)" by (cases "put_integer v")
    then have "number64 w u = v" using 1 v assms(3) number64_put [OF p] by (simp add: elem_number_def sproto_type_defs)
    then show ?thesis using 1 v by (simp add: decode_scalar_def norm_elem_def sproto_type_defs)
  next
    case 2
    then show ?thesis using assms(3) by (auto simp: decode_scalar_def norm_elem_def elem_number_def number64_def sproto_type_defs)
  next
    case 3
    then show ?thesis using assms(2,3) by (auto simp: decode_scalar_def norm_elem_def elem_number_def number64_def expand64_def sproto_type_defs split: if_splits)
  qed
qed

section \<open>Storing\<close>

lemma rawset_name_fresh: "name_key nm \<notin> fst ` set R \<Longrightarrow> v \<noteq> L_nil \<Longrightarrow> rawset (name_key nm) v R = Some (R @ [(name_key nm, v)])"
proof -
  assume n: "name_key nm \<notin> fst ` set R" and v: "v \<noteq> L_nil"
  then have "\<not> (\<exists>(k', _) \<in> set R. raw_equal (name_key nm) k')" by (force simp: raw_equal_def name_key_def)
  then show ?thesis using v by (simp add: rawset_def name_key_def norm_key_def bad_key_def)
qed

lemma rawset_last:
  assumes n: "name_key nm \<notin> fst ` set R" and v: "v \<noteq> L_nil"
  shows "rawset (name_key nm) v (R @ [(name_key nm, t)]) = Some (R @ [(name_key nm, v)])"
proof -
  have "map (\<lambda>(k', v'). (k', if raw_equal (name_key nm) k' then v else v')) R = R"
    using n by (intro map_idI) (force simp: raw_equal_def name_key_def)
  then show ?thesis using v by (simp add: rawset_def name_key_def norm_key_def bad_key_def raw_equal_def)
qed

lemma rawget_last: "k \<notin> fst ` set R \<Longrightarrow> rawget k (R @ [(k, t)]) = t"
  using map_of_eq_None_iff [of R k] by (simp add: rawget_def map_add_def)

definition in_array :: "cname \<Rightarrow> (lua_value \<times> lua_value) list \<Rightarrow> lua_value \<Rightarrow> decode_ud \<Rightarrow> bool" where
  "in_array nm R t s \<longleftrightarrow> name_key nm \<notin> fst ` set R \<and> du_result s = L_table 0 (R @ [(name_key nm, t)]) \<and>
     du_array_tag s = Some nm \<and> du_array s = Some (name_key nm)"

lemma name_key_not_int: "norm_key (name_key nm) \<noteq> L_integer i"
  by (simp add: name_key_def norm_key_def)

lemma table_set_not_nil: "table_set k v t = Some t' \<Longrightarrow> t' \<noteq> L_nil"
  by (auto simp: table_set_def split: lua_value.splits bind_splits)

lemma array_set_in:
  assumes i: "in_array nm R t s" and t: "table_set k v t = Some t'"
  shows "\<exists>s'. array_set k v s = Some s' \<and> in_array nm R t' s' \<and> du_key s' = du_key s \<and> du_mainindex s' = du_mainindex s"
  using i t table_set_not_nil [OF t] rawset_last [of nm R t' t] rawget_last [of "name_key nm" R t] name_key_not_int [of nm]
  by (simp add: array_set_def in_array_def table_set_def [of "name_key nm"])

text \<open>The call stores a value into the array.\<close>

definition stores :: "decode_ud dec_cb \<Rightarrow> cname \<Rightarrow> sproto_arg \<Rightarrow> lua_value \<times> lua_value \<Rightarrow> bool" where
  "stores cb nm a kv \<longleftrightarrow> 0 < a_index a \<and> (\<forall>s. cb a s = do {
     (empty, s1) \<leftarrow> enter_array a nm s; s2 \<leftarrow> array_set (fst kv) (snd kv) s1; Some (0, s2) })"

lemma stored:
  "list_all2 (stores cb nm) as kvs \<Longrightarrow> in_array nm R t s \<Longrightarrow> set_pairs kvs t = Some t' \<Longrightarrow>
   \<exists>s'. calls cb as s = Some s' \<and> in_array nm R t' s' \<and> du_key s' = du_key s \<and> du_mainindex s' = du_mainindex s"
proof (induction "as" kvs arbitrary: t s rule: list_all2_induct)
  case Nil
  then show ?case by simp
next
  case (Cons a "as" kv kvs)
  then obtain t1 where t1: "table_set (fst kv) (snd kv) t = Some t1" "set_pairs kvs t1 = Some t'" by (auto split: bind_splits)
  have "enter_array a nm s = Some (False, s)" using Cons.prems(1) by (simp add: enter_array_def in_array_def)
  moreover obtain s1 where s1: "array_set (fst kv) (snd kv) s = Some s1" "in_array nm R t1 s1" "du_key s1 = du_key s" "du_mainindex s1 = du_mainindex s"
    using array_set_in [OF Cons.prems(1) t1(1)] by blast
  ultimately have "cb a s = Some (0, s1)" using Cons.hyps by (simp add: stores_def)
  then show ?case using Cons.IH [OF s1(2) t1(2)] s1 by simp
qed

text \<open>The first call enters the array.\<close>

lemma enter_new:
  assumes n: "name_key nm \<notin> fst ` set R" and r: "du_result s = L_table 0 R" and t: "du_array_tag s \<noteq> Some nm" and i: "a_index a \<noteq> 0"
  obtains s1 where "enter_array a nm s = Some (a_index a < 0, s1)" "in_array nm R (L_table 0 []) s1" "du_key s1 = du_key s"
    "du_mainindex s1 = du_mainindex s"
proof
  let ?s = "s\<lparr>du_array_tag := Some nm, du_result := L_table 0 (R @ [(name_key nm, L_table 0 [])]), du_array := Some (name_key nm)\<rparr>"
  show "enter_array a nm s = Some (a_index a < 0, ?s)"
    using assms rawset_name_fresh [of nm R "L_table 0 []"] name_key_not_int [of nm] by (simp add: enter_array_def result_set_def table_set_def)
  show "in_array nm R (L_table 0 []) ?s" using n by (simp add: in_array_def)
qed simp_all

lemma array_stored:
  assumes n: "name_key nm \<notin> fst ` set R" and r: "du_result s = L_table 0 R" and t: "du_array_tag s \<noteq> Some nm"
    and all: "list_all2 (stores cb nm) as kvs" and ne: "as \<noteq> []" and kv: "set_pairs kvs (L_table 0 []) = Some t'"
  shows "\<exists>s'. calls cb as s = Some s' \<and> in_array nm R t' s' \<and> du_key s' = du_key s \<and> du_mainindex s' = du_mainindex s"
proof -
  obtain a as' where a: "as = a # as'" using ne by (cases "as") simp_all
  then have st: "\<exists>kv. stores cb nm a kv" using all by (auto simp: list_all2_Cons1)
  then have i: "0 < a_index a" by (auto simp: stores_def)
  then have "a_index a \<noteq> 0" by simp
  from enter_new [OF n r t this] obtain s1 where e: "enter_array a nm s = Some (a_index a < 0, s1)" "in_array nm R (L_table 0 []) s1" "du_key s1 = du_key s"
    "du_mainindex s1 = du_mainindex s" .
  have "enter_array a nm s1 = Some (False, s1)" using e(2) by (simp add: enter_array_def in_array_def)
  then have "cb a s = cb a s1" using st e(1) by (auto simp: stores_def)
  then have "calls cb as s = calls cb as s1" using a by simp
  then show ?thesis using stored [OF all e(2) kv] e(3,4) by simp
qed

lemma positions_snoc: "positions (vs @ [v]) = positions vs @ [(lua_int (length vs + 1), v)]"
proof -
  have "map (\<lambda>i. (lua_int (i + 1), (vs @ [v]) ! i)) [0..<length vs] = map (\<lambda>i. (lua_int (i + 1), vs ! i)) [0..<length vs]"
    by (rule map_cong) (simp_all add: nth_append)
  then show ?thesis by (simp add: positions_def)
qed

lemma table_set_next:
  assumes "v \<noteq> L_nil" and "length vs \<le> 2 ^ 31"
  shows "table_set (lua_int (length vs + 1)) v (L_table (length vs) (positions vs)) = Some (L_table (length (vs @ [v])) (positions (vs @ [v])))"
proof -
  have "lua_int (length vs + 1) \<noteq> lua_int (i + 1)" if "i < length vs" for i
    using lua_int_inj [of "length vs + 1" "i + 1"] that assms(2) by auto
  then have "\<not> (\<exists>(k', _) \<in> set (positions vs). raw_equal (lua_int (length vs + 1)) k')"
    by (auto simp: raw_equal_def positions_def)
  then have "rawset (lua_int (length vs + 1)) v (positions vs) = Some (positions vs @ [(lua_int (length vs + 1), v)])"
    using assms(1) by (simp add: rawset_def norm_key_def bad_key_def)
  then show ?thesis by (simp add: table_set_def norm_key_def positions_snoc)
qed

lemma set_pairs_append: "set_pairs (xs @ ys) t = do { t1 \<leftarrow> set_pairs xs t; set_pairs ys t1 }"
  by (induction xs arbitrary: t) (auto split: Option.bind_split)

lemma set_positions:
  "\<forall>v \<in> set vs. v \<noteq> L_nil \<Longrightarrow> length vs \<le> 2 ^ 31 \<Longrightarrow> set_pairs (positions vs) (L_table 0 []) = Some (L_table (length vs) (positions vs))"
proof (induction vs rule: rev_induct)
  case Nil
  then show ?case by (simp add: positions_def)
next
  case (snoc v vs)
  then have "set_pairs (positions vs) (L_table 0 []) = Some (L_table (length vs) (positions vs))" by simp
  moreover have "v \<noteq> L_nil" "length vs \<le> 2 ^ 31" using snoc.prems by simp_all
  ultimately show ?case using table_set_next [of v vs] unfolding positions_snoc set_pairs_append by (simp add: positions_snoc)
qed

section \<open>The callback\<close>

lemma decode_Suc:
  "decode C ts data (Suc d) args self = do {
     name \<leftarrow> a_tagname args;
     (empty, self1) \<leftarrow> enter_array args name self;
     if empty then Some (0, self1)
     else if a_type args = SPROTO_TSTRUCT then do {
       r \<leftarrow> decode_struct ts (decode C ts data d) data args;
       case r of
         Inl code \<Rightarrow> Some (code, self1)
       | Inr sub \<Rightarrow>
           if a_mainindex args \<ge> 0 then
             if du_key sub = L_nil then None
             else do { self2 \<leftarrow> array_set (du_key sub) (du_result sub) self1; Some (0, self2) }
           else do { self2 \<leftarrow> store_value args name (du_result sub) self1; Some (0, self2) } }
     else do {
       v \<leftarrow> decode_scalar C data args;
       self2 \<leftarrow> store_value args name v self1;
       Some (0, self2) } }"
  by simp

declare decode.simps [simp del]

text \<open>What the callback makes of the value of a call: its value, and the key of a map.\<close>

definition yields :: "lua_conv \<Rightarrow> sproto_type list \<Rightarrow> u8 list \<Rightarrow> nat \<Rightarrow> sproto_arg \<Rightarrow> lua_value \<Rightarrow> lua_value \<Rightarrow> bool" where
  "yields C ts data d a v key \<longleftrightarrow>
     (if a_type a = SPROTO_TSTRUCT then
        \<exists>sub. decode_struct ts (decode C ts data d) data a = Some (Inr sub) \<and> du_result sub = v \<and> (0 \<le> a_mainindex a \<longrightarrow> du_key sub = key \<and> key \<noteq> L_nil)
      else decode_scalar C data a = Some v)"

lemma yields_stores:
  assumes y: "yields C ts data d a v key" and nm: "a_tagname a = Some nm" and i: "0 < a_index a"
  shows "stores (decode C ts data (Suc d)) nm a (if a_type a = SPROTO_TSTRUCT \<and> 0 \<le> a_mainindex a then key else lua_int (nat (a_index a)), v)"
  using y i unfolding stores_def decode_Suc nm
  by (auto simp: yields_def enter_array_def store_value_def split: if_splits bind_splits Option.bind_split)

lemma yields_scalar:
  assumes y: "yields C ts data d a v key" and nm: "a_tagname a = Some nm" and i: "a_index a = 0" and m: "a_type a = SPROTO_TSTRUCT \<longrightarrow> a_mainindex a < 0"
    and n: "name_key nm \<notin> fst ` set R" and r: "du_result s = L_table 0 R" and v: "v \<noteq> L_nil"
  shows "\<exists>s'. decode C ts data (Suc d) a s = Some (0, s') \<and> du_result s' = L_table 0 (R @ [(name_key nm, v)]) \<and>
    du_mainindex s' = du_mainindex s \<and> du_array_tag s' = du_array_tag s \<and>
    du_key s' = (if du_mainindex s = a_tagid a then v else du_key s)"
  using y i m r rawset_name_fresh [OF n v] name_key_not_int [of nm] unfolding decode_Suc nm
  by (auto simp: yields_def enter_array_def store_value_def result_set_def table_set_def split: if_splits)

section \<open>Elements\<close>

text \<open>A struct is decoded to its table, and its main index is kept.\<close>

definition reads :: "lua_conv \<Rightarrow> sproto_type list \<Rightarrow> u8 list \<Rightarrow> nat \<Rightarrow> bool" where
  "reads C ts data d \<longleftrightarrow> (\<forall>p y st m. st \<in> set ts \<longrightarrow> conforms C ts d y st \<longrightarrow> keys_ok C ts d st y \<longrightarrow>
     has data p (table_message C ts d st y) \<longrightarrow>
     (\<exists>s'. sproto_decode (decode C ts data d) data st p (int (length (table_message C ts d st y))) (new_decode_ud (L_table 0 []) m) =
        Some (int (length (table_message C ts d st y)), s') \<and> du_result s' = norm_table C ts d st y \<and>
      (0 \<le> m \<longrightarrow> (\<forall>g. main_field C m st y = Some g \<longrightarrow> elem_type g \<noteq> SPROTO_TSTRUCT \<longrightarrow> du_key s' = main_key C m st y))))"

abbreviation elem_msg :: "lua_conv \<Rightarrow> sproto_type list \<Rightarrow> nat \<Rightarrow> field_desc \<Rightarrow> lua_value \<Rightarrow> u8 list" where
  "elem_msg C ts d f \<equiv> elem_bytes C (\<lambda>y. message (tree_val C ts d y) (t_f (struct_of ts f))) f"

abbreviation norm :: "lua_conv \<Rightarrow> sproto_type list \<Rightarrow> nat \<Rightarrow> field_desc \<Rightarrow> lua_value \<Rightarrow> lua_value" where
  "norm C ts d f \<equiv> norm_elem C (norm_table C ts d (struct_of ts f)) f"

definition struct_keys :: "lua_conv \<Rightarrow> sproto_type list \<Rightarrow> nat \<Rightarrow> field_desc \<Rightarrow> lua_value \<Rightarrow> bool" where
  "struct_keys C ts d f y \<longleftrightarrow> (elem_type f = SPROTO_TSTRUCT \<longrightarrow> keys_ok C ts d (struct_of ts f) y \<and>
     (is_map f \<longrightarrow> key_ok C (f_key f) (struct_of ts f) y) \<and> (0 \<le> f_key f \<longrightarrow> is_array f))"

lemma norm_not_nil: "elem_ok C ts (conforms C ts d) f y \<Longrightarrow> wf_field n f \<Longrightarrow> norm C ts d f y \<noteq> L_nil"
  using wf_field_type(2) [of n f] by (cases d) (auto simp: elem_ok_def norm_elem_def sproto_type_defs Let_def)

lemma key_not_nil: "key_ok C k st y \<Longrightarrow> main_key C k st y \<noteq> L_nil"
  by (auto simp: key_ok_def norm_key_def bad_key_def)

lemma object_yields:
  assumes rd: "reads C ts data d" and wf: "wf_field (length ts) f" and nn: "\<not> numeric f" and ok: "elem_ok C ts (conforms C ts d) f y"
    and ks: "struct_keys C ts d f y" and h: "has data q (elem_msg C ts d f y)"
  shows "yields C ts data d (field_arg f (elem_type f) i (At q) (int (length (elem_msg C ts d f y)))) (norm C ts d f y)
    (main_key C (f_key f) (struct_of ts f) y)"
proof (cases "elem_type f = SPROTO_TSTRING")
  case True
  then show ?thesis using has_take_drop [OF h] has_length [OF h]
    by (simp add: yields_def decode_scalar_def norm_elem_def elem_bytes_def sproto_type_defs)
next
  case False
  then have st: "elem_type f = SPROTO_TSTRUCT" using non_numeric [OF wf nn] by blast
  obtain k where k: "f_st f = Some k" "k < length ts" using struct_index [OF wf st] by blast
  let ?st = "struct_of ts f" let ?m = "if 0 \<le> f_key f then f_key f else -1"
  have si: "?st \<in> set ts" "ts ! k = ?st" using k by (simp_all add: struct_of_def)
  have m: "elem_msg C ts d f y = table_message C ts d ?st y" using st by (simp add: elem_bytes_def table_message_def sproto_type_defs)
  have c: "conforms C ts d y ?st" "keys_ok C ts d ?st y" using ok ks st by (simp_all add: elem_ok_def struct_keys_def sproto_type_defs)
  have key: "key_ok C (f_key f) ?st y" if "0 \<le> f_key f" using ks st that by (simp add: struct_keys_def is_map_def)
  obtain sub where s: "sproto_decode (decode C ts data d) data ?st q (int (length (table_message C ts d ?st y))) (new_decode_ud (L_table 0 []) ?m) =
      Some (int (length (table_message C ts d ?st y)), sub)" "du_result sub = norm_table C ts d ?st y"
    "0 \<le> ?m \<longrightarrow> (\<forall>g. main_field C ?m ?st y = Some g \<longrightarrow> elem_type g \<noteq> SPROTO_TSTRUCT \<longrightarrow> du_key sub = main_key C ?m ?st y)"
    using rd [unfolded reads_def, rule_format, OF si(1) c h [unfolded m], of ?m] by blast
  have "decode_struct ts (decode C ts data d) data (field_arg f (elem_type f) i (At q) (int (length (elem_msg C ts d f y)))) = Some (Inr sub)"
    using s(1) k si(2) unfolding m by (cases "0 \<le> f_key f") (simp_all add: decode_struct_def)
  moreover have "du_key sub = main_key C (f_key f) ?st y" if "0 \<le> f_key f"
    using s(3) that key [OF that] by (auto simp: key_ok_def split: option.splits)
  ultimately show ?thesis using s(2) st key_not_nil key by (simp add: yields_def norm_elem_def sproto_type_defs)
qed

lemma number_yields:
  assumes "numeric f" and "elem_ok C ts sub f y" and "elem_number C f y = (w, u)"
  shows "yields C ts data d (field_arg f (elem_type f) i (Local (number64 w u)) 8) (norm C ts d f y) key"
  using decode_number [OF assms] assms(1) by (auto simp: yields_def numeric_def sproto_type_defs)

section \<open>Fields\<close>

lemma blob_calls_nth:
  "has data q (blobs_data bs) \<Longrightarrow> k < length bs \<Longrightarrow>
   \<exists>p. blob_calls f q i bs ! k = field_arg f (elem_type f) (i + int k) (At p) (int (length (bs ! k))) \<and> has data p (bs ! k)"
proof (induction bs arbitrary: q i k)
  case Nil
  then show ?case by simp
next
  case (Cons b bs)
  have h: "has data (q + 4) b" "has data (q + 4 + length b) (blobs_data bs)" using Cons.prems(1) by (simp_all add: blobs_data_def sized_def has_append add.assoc)
  show ?case
  proof (cases k)
    case 0
    then show ?thesis using h by auto
  next
    case (Suc j)
    then show ?thesis using Cons.IH [OF h(2), of j "i + 1"] Cons.prems(2) by (auto simp: add.assoc)
  qed
qed

lemma length_blob_calls: "length (blob_calls f q i bs) = length bs"
  by (induction bs arbitrary: q i) simp_all

lemma blob_calls_Nil: "blob_calls f q i bs = [] \<longleftrightarrow> bs = []"
  by (cases bs) simp_all

definition elem_pairs :: "(lua_value \<Rightarrow> lua_value) \<Rightarrow> (lua_value \<Rightarrow> lua_value) \<Rightarrow> field_desc \<Rightarrow> lua_value list \<Rightarrow> (lua_value \<times> lua_value) list" where
  "elem_pairs nf key f ys = (if is_map f then map (\<lambda>y. (key y, nf y)) ys else positions (map nf ys))"

lemma elem_pairs_nth: "k < length ys \<Longrightarrow> elem_pairs nf key f ys ! k = (if is_map f then key (ys ! k) else lua_int (k + 1), nf (ys ! k))"
  by (simp add: elem_pairs_def positions_def)

lemma length_elem_pairs: "length (elem_pairs nf key f ys) = length ys"
  by (simp add: elem_pairs_def positions_def)

lemma rawset_total: "\<not> bad_key (norm_key k) \<Longrightarrow> \<exists>ps1. rawset k v ps = Some ps1"
  by (simp add: rawset_def Let_def)

lemma set_pairs_total: "\<forall>kv \<in> set kvs. \<not> bad_key (norm_key (fst kv)) \<Longrightarrow> \<exists>t'. set_pairs kvs (L_table n ps) = Some t'"
proof (induction kvs arbitrary: n ps)
  case Nil
  then show ?case by simp
next
  case (Cons kv kvs)
  then obtain ps1 where "rawset (fst kv) (snd kv) ps = Some ps1" using rawset_total by (metis list.set_intros(1))
  then show ?case using Cons by (simp add: table_set_def)
qed

lemma set_elem_pairs:
  assumes "is_map f \<Longrightarrow> \<forall>y \<in> set ys. \<not> bad_key (norm_key (key y))" and "\<forall>y \<in> set ys. norm_elem C sub f y \<noteq> L_nil" and "length ys \<le> 2 ^ 31"
  shows "set_pairs (elem_pairs (norm_elem C sub f) key f ys) (L_table 0 []) = Some (norm_array C sub key f ys)"
proof (cases "is_map f")
  case True
  then obtain t where "set_pairs (map (\<lambda>y. (key y, norm_elem C sub f y)) ys) (L_table 0 []) = Some t"
    using set_pairs_total [of "map (\<lambda>y. (key y, norm_elem C sub f y)) ys" 0 "[]"] assms(1) by auto
  then show ?thesis using True by (simp add: norm_array_def elem_pairs_def)
next
  case False
  then show ?thesis using set_positions [of "map (norm_elem C sub f) ys"] assms(2,3) by (simp add: norm_array_def elem_pairs_def)
qed

lemma length_elements: "table_ok f x \<Longrightarrow> length (elements f x) \<le> 2 ^ 31"
  using length_takeWhile_le [of "\<lambda>v. v \<noteq> L_nil" "map (\<lambda>i. rawget (lua_int i) (table_pairs x)) [1..<length (table_pairs x) + 2]"]
  by (auto simp: elements_def sequence_def table_ok_def)

text \<open>A call for the element \<open>k\<close> of an array.\<close>

lemma elem_stores:
  assumes y: "yields C ts data d (field_arg f (elem_type f) (int k + 1) v len) nv key" and nm: "f_name f = Some nm"
    and a: "is_array f"
  shows "stores (decode C ts data (Suc d)) nm (field_arg f (elem_type f) (int k + 1) v len) (if is_map f then key else lua_int (k + 1), nv)"
proof -
  let ?a = "field_arg f (elem_type f) (int k + 1) v len"
  have "nat (int k + 1) = k + 1" by simp
  then have "(if a_type ?a = SPROTO_TSTRUCT \<and> 0 \<le> a_mainindex ?a then key else lua_int (nat (a_index ?a))) = (if is_map f then key else lua_int (k + 1))"
    using a by (simp add: is_map_def)
  then show ?thesis using yields_stores [OF y, of nm] nm by simp
qed

definition field_state :: "cname \<Rightarrow> lua_value \<Rightarrow> (lua_value \<times> lua_value) list \<Rightarrow> decode_ud \<Rightarrow> decode_ud \<Rightarrow> bool" where
  "field_state nm v R s s' \<longleftrightarrow> du_result s' = L_table 0 (R @ [(name_key nm, v)]) \<and> du_mainindex s' = du_mainindex s \<and>
     (du_array_tag s' = du_array_tag s \<or> du_array_tag s' = Some nm)"

lemma array_field:
  assumes n: "name_key nm \<notin> fst ` set R" "du_result s = L_table 0 R" "du_array_tag s \<noteq> Some nm" and nm: "f_name f = Some nm"
    and all: "list_all2 (stores (decode C ts data (Suc d)) nm) as (elem_pairs (norm_elem C sub f) key f ys)"
    and set: "set_pairs (elem_pairs (norm_elem C sub f) key f ys) (L_table 0 []) = Some (norm_array C sub key f ys)"
  shows "\<exists>s'. calls (decode C ts data (Suc d)) (if as = [] then empty_call f else as) s = Some s' \<and>
    field_state nm (norm_array C sub key f ys) R s s' \<and> du_key s' = du_key s"
proof (cases "as = []")
  case True
  then have ys: "elem_pairs (norm_elem C sub f) key f ys = []" using all by simp
  then have t: "norm_array C sub key f ys = L_table 0 []" using set by simp
  let ?a = "field_arg f (elem_type f) (-1) Nowhere 0"
  have "a_index ?a \<noteq> 0" by simp
  from enter_new [OF n this] obtain s1 where "enter_array ?a nm s = Some (True, s1)" "in_array nm R (L_table 0 []) s1" "du_key s1 = du_key s"
    "du_mainindex s1 = du_mainindex s" by auto
  then show ?thesis using True nm t by (simp add: empty_call_def in_array_def field_state_def decode_Suc)
next
  case False
  from array_stored [OF n all False set] False show ?thesis by (auto simp: in_array_def field_state_def)
qed

definition field_good :: "lua_conv \<Rightarrow> sproto_type list \<Rightarrow> nat \<Rightarrow> lua_value \<Rightarrow> field_desc \<Rightarrow> bool" where
  "field_good C ts d tbl f \<longleftrightarrow> wf_field (length ts) f \<and> field_ok C ts (conforms C ts d) tbl f \<and>
     (field_value C tbl f \<noteq> L_nil \<longrightarrow> (\<forall>y \<in> set (if is_array f then elements f (field_value C tbl f) else [field_value C tbl f]). struct_keys C ts d f y))"

lemma number_calls_stored:
  assumes nm: "f_name f = Some nm" and a: "is_array f" and num: "numeric f" and ok: "\<forall>y \<in> set ys. elem_ok C ts sub f y"
    and vs: "vs = map (\<lambda>y. number64 (fst (elem_number C f y)) (snd (elem_number C f y))) ys"
  shows "list_all2 (stores (decode C ts data (Suc d)) nm) (number_calls f vs) (elem_pairs (norm C ts d f) key f ys)"
proof (rule list_all2_all_nthI)
  show "length (number_calls f vs) = length (elem_pairs (norm C ts d f) key f ys)" by (simp add: number_calls_def length_elem_pairs vs)
  fix k assume "k < length (number_calls f vs)"
  then have k: "k < length ys" by (simp add: number_calls_def vs)
  obtain w u where wu: "elem_number C f (ys ! k) = (w, u)" by (cases "elem_number C f (ys ! k)")
  have e: "elem_ok C ts sub f (ys ! k)" using ok k by simp
  have "yields C ts data d (field_arg f (elem_type f) (int k + 1) (Local (number64 w u)) 8) (norm C ts d f (ys ! k)) (key (ys ! k))"
    by (rule number_yields [OF num e wu])
  from elem_stores [OF this nm a] show "stores (decode C ts data (Suc d)) nm (number_calls f vs ! k) (elem_pairs (norm C ts d f) key f ys ! k)"
    using k wu by (simp add: number_calls_def vs elem_pairs_nth)
qed

lemma blob_calls_stored:
  assumes nm: "f_name f = Some nm" and a: "is_array f" and num: "\<not> numeric f" and wf: "wf_field (length ts) f" and rd: "reads C ts data d"
    and ok: "\<forall>y \<in> set ys. elem_ok C ts (conforms C ts d) f y \<and> struct_keys C ts d f y"
    and h: "has data q (blobs_data (map (elem_msg C ts d f) ys))"
  shows "list_all2 (stores (decode C ts data (Suc d)) nm) (blob_calls f q 1 (map (elem_msg C ts d f) ys))
    (elem_pairs (norm C ts d f) (main_key C (f_key f) (struct_of ts f)) f ys)"
proof (rule list_all2_all_nthI)
  show "length (blob_calls f q 1 (map (elem_msg C ts d f) ys)) = length (elem_pairs (norm C ts d f) (main_key C (f_key f) (struct_of ts f)) f ys)"
    by (simp add: length_blob_calls length_elem_pairs)
  fix k assume "k < length (blob_calls f q 1 (map (elem_msg C ts d f) ys))"
  then have k: "k < length ys" by (simp add: length_blob_calls)
  then obtain p where p: "blob_calls f q 1 (map (elem_msg C ts d f) ys) ! k =
      field_arg f (elem_type f) (int k + 1) (At p) (int (length (elem_msg C ts d f (ys ! k))))" "has data p (elem_msg C ts d f (ys ! k))"
    using blob_calls_nth [OF h, of k f 1] by (auto simp: add.commute)
  have "elem_ok C ts (conforms C ts d) f (ys ! k)" "struct_keys C ts d f (ys ! k)" using ok k by simp_all
  from elem_stores [OF object_yields [OF rd wf num this p(2)] nm a]
  show "stores (decode C ts data (Suc d)) nm (blob_calls f q 1 (map (elem_msg C ts d f) ys) ! k)
    (elem_pairs (norm C ts d f) (main_key C (f_key f) (struct_of ts f)) f ys ! k)" unfolding p(1) elem_pairs_nth [OF k] .
qed

text \<open>The calls for an array are those of its elements.\<close>

lemma array_calls:
  assumes good: "field_good C ts d tbl f" and x: "field_value C tbl f \<noteq> L_nil" and a: "is_array f" and nm: "f_name f = Some nm"
    and rd: "reads C ts data d" and h: "has data q (field_data (tree_val C ts (Suc d) tbl f))"
  obtains "as" where "field_calls q f (tree_val C ts (Suc d) tbl f) = (if as = [] then empty_call f else as)"
    "list_all2 (stores (decode C ts data (Suc d)) nm) as
      (elem_pairs (norm C ts d f) (main_key C (f_key f) (struct_of ts f)) f (elements f (field_value C tbl f)))"
proof -
  let ?ys = "elements f (field_value C tbl f)" let ?key = "main_key C (f_key f) (struct_of ts f)"
  have wf: "wf_field (length ts) f" and ok: "\<forall>y \<in> set ?ys. elem_ok C ts (conforms C ts d) f y \<and> struct_keys C ts d f y"
    using good x a by (auto simp: field_good_def field_ok_def)
  then have ok1: "\<forall>y \<in> set ?ys. elem_ok C ts (conforms C ts d) f y" by blast
  show ?thesis
  proof (cases "numeric f")
    case num: True
    let ?vs = "map (\<lambda>y. number64 (fst (elem_number C f y)) (snd (elem_number C f y))) ?ys"
    have "field_calls q f (tree_val C ts (Suc d) tbl f) = (if number_calls f ?vs = [] then empty_call f else number_calls f ?vs)"
    proof (cases "elem_type f = SPROTO_TBOOLEAN")
      case True
      then have "map (\<lambda>b. if b then 1 else 0) (map (\<lambda>y. y = L_boolean True) ?ys) = ?vs"
        by (auto simp: elem_number_def sproto_type_defs number64_def expand64_def)
      then show ?thesis using tree_val_simps(2) [OF x a True] by (simp add: number_calls_def)
    next
      case False
      then show ?thesis using tree_val_simps(3) [OF x a False num] by (simp add: number_calls_def comp_def)
    qed
    then show ?thesis using that number_calls_stored [OF nm a num ok1 refl] by blast
  next
    case num: False
    note t = tree_val_simps(4) [OF x a num, where ts = ts and d = d]
    have "has data (q + 4) (blobs_data (map (elem_msg C ts d f) ?ys))" using h unfolding t by (simp add: field_data_def sized_def has_append)
    note st = blob_calls_stored [OF nm a num wf rd ok this]
    have "field_calls q f (tree_val C ts (Suc d) tbl f) =
      (if blob_calls f (q + 4) 1 (map (elem_msg C ts d f) ?ys) = [] then empty_call f else blob_calls f (q + 4) 1 (map (elem_msg C ts d f) ?ys))"
      unfolding t by (simp add: blob_calls_Nil)
    from that [OF this st] show ?thesis .
  qed
qed

abbreviation field_result :: "lua_conv \<Rightarrow> sproto_type list \<Rightarrow> nat \<Rightarrow> lua_value \<Rightarrow> field_desc \<Rightarrow> lua_value" where
  "field_result C ts d tbl f \<equiv> norm_field C (norm_table C ts d (struct_of ts f)) (main_key C (f_key f) (struct_of ts f)) f (field_value C tbl f)"

lemma field_decoded:
  assumes good: "field_good C ts d tbl f" and x: "field_value C tbl f \<noteq> L_nil" and nm: "f_name f = Some nm" and rd: "reads C ts data d"
    and h: "has data q (field_data (tree_val C ts (Suc d) tbl f))"
    and n: "name_key nm \<notin> fst ` set R" "du_result s = L_table 0 R" "du_array_tag s \<noteq> Some nm"
  shows "\<exists>s'. calls (decode C ts data (Suc d)) (field_calls q f (tree_val C ts (Suc d) tbl f)) s = Some s' \<and>
    field_state nm (field_result C ts d tbl f) R s s' \<and>
    du_key s' = (if \<not> is_array f \<and> du_mainindex s = f_tag f then field_result C ts d tbl f else du_key s)"
proof (cases "is_array f")
  case a: True
  let ?ys = "elements f (field_value C tbl f)" let ?key = "main_key C (f_key f) (struct_of ts f)"
  have wf: "wf_field (length ts) f" and ok: "\<forall>y \<in> set ?ys. elem_ok C ts (conforms C ts d) f y" "\<forall>y \<in> set ?ys. struct_keys C ts d f y"
    and tb: "table_ok f (field_value C tbl f)" using good x a by (auto simp: field_good_def field_ok_def)
  from array_calls [OF good x a nm rd h] obtain "as" where c: "field_calls q f (tree_val C ts (Suc d) tbl f) = (if as = [] then empty_call f else as)"
    "list_all2 (stores (decode C ts data (Suc d)) nm) as (elem_pairs (norm C ts d f) ?key f ?ys)" .
  have "is_map f \<Longrightarrow> \<forall>y \<in> set ?ys. \<not> bad_key (norm_key (?key y))" using ok(2) by (auto simp: struct_keys_def key_ok_def is_map_def)
  moreover have "\<forall>y \<in> set ?ys. norm C ts d f y \<noteq> L_nil" using norm_not_nil [OF _ wf] ok(1) by blast
  ultimately have "set_pairs (elem_pairs (norm C ts d f) ?key f ?ys) (L_table 0 []) = Some (norm_array C (norm_table C ts d (struct_of ts f)) ?key f ?ys)"
    by (rule set_elem_pairs [OF _ _ length_elements [OF tb]])
  from array_field [OF n nm c(2) this] show ?thesis unfolding c(1) using a by (simp add: norm_field_def)
next
  case a: False
  have wf: "wf_field (length ts) f" and ok: "elem_ok C ts (conforms C ts d) f (field_value C tbl f)" and ks: "struct_keys C ts d f (field_value C tbl f)"
    using good x a by (auto simp: field_good_def field_ok_def)
  have m: "elem_type f = SPROTO_TSTRUCT \<longrightarrow> f_key f < 0" using ks a by (auto simp: struct_keys_def)
  have v: "norm C ts d f (field_value C tbl f) \<noteq> L_nil" by (rule norm_not_nil [OF ok wf])
  obtain arg where c: "field_calls q f (tree_val C ts (Suc d) tbl f) = [arg]" "a_tagname arg = Some nm" "a_index arg = 0" "a_tagid arg = f_tag f"
      "a_type arg = SPROTO_TSTRUCT \<longrightarrow> a_mainindex arg < 0"
    and y: "yields C ts data d arg (norm C ts d f (field_value C tbl f)) (main_key C (f_key f) (struct_of ts f) (field_value C tbl f))"
  proof (cases "numeric f")
    case True
    obtain w u where wu: "elem_number C f (field_value C tbl f) = (w, u)" by (cases "elem_number C f (field_value C tbl f)")
    show ?thesis by (rule that [OF _ _ _ _ _ number_yields [OF True ok wu]]) (use tree_val_simps(5) [OF x a True] wu nm m in simp_all)
  next
    case False
    note t = tree_val_simps(6) [OF x a False, where ts = ts and d = d]
    have "has data (q + 4) (elem_msg C ts d f (field_value C tbl f))" using h unfolding t by (simp add: field_data_def sized_def has_append)
    from that [OF _ _ _ _ _ object_yields [OF rd wf False ok ks this]] t nm m show ?thesis by simp
  qed
  from yields_scalar [OF y c(2,3,5) n(1,2) v] obtain s' where "decode C ts data (Suc d) arg s = Some (0, s')"
    "du_result s' = L_table 0 (R @ [(name_key nm, norm C ts d f (field_value C tbl f))])" "du_mainindex s' = du_mainindex s"
    "du_array_tag s' = du_array_tag s" "du_key s' = (if du_mainindex s = a_tagid arg then norm C ts d f (field_value C tbl f) else du_key s)" by blast
  then show ?thesis using c(1,4) a by (simp add: norm_field_def field_state_def)
qed

abbreviation entries :: "lua_conv \<Rightarrow> sproto_type list \<Rightarrow> nat \<Rightarrow> lua_value \<Rightarrow> field_desc list \<Rightarrow> (lua_value \<times> lua_value) list" where
  "entries C ts d tbl fs \<equiv> map (\<lambda>f. (name_key (the (f_name f)), field_result C ts d tbl f)) (filter (\<lambda>f. field_value C tbl f \<noteq> L_nil) fs)"

definition keeps_key :: "lua_conv \<Rightarrow> int \<Rightarrow> lua_value \<Rightarrow> field_desc \<Rightarrow> bool" where
  "keeps_key C k tbl g \<longleftrightarrow> f_tag g = k \<and> \<not> is_array g \<and> field_value C tbl g \<noteq> L_nil"

lemma fields_decoded:
  "\<forall>f \<in> set fs. field_good C ts d tbl f \<Longrightarrow> reads C ts data d \<Longrightarrow> has data q (data_bytes (tree_val C ts (Suc d) tbl) fs) \<Longrightarrow>
   distinct (map (\<lambda>f. name_key (the (f_name f))) fs) \<Longrightarrow> distinct (map f_tag fs) \<Longrightarrow>
   \<forall>f \<in> set fs. name_key (the (f_name f)) \<notin> fst ` set R \<Longrightarrow> du_result s = L_table 0 R \<Longrightarrow> \<forall>f \<in> set fs. du_array_tag s \<noteq> f_name f \<Longrightarrow>
   \<exists>s'. calls (decode C ts data (Suc d)) (data_calls (tree_val C ts (Suc d) tbl) q fs) s = Some s' \<and>
     du_result s' = L_table 0 (R @ entries C ts d tbl fs) \<and>
     du_key s' = (case find (keeps_key C (du_mainindex s) tbl) fs of None \<Rightarrow> du_key s | Some g \<Rightarrow> field_result C ts d tbl g)"
proof (induction fs arbitrary: q R s)
  case Nil
  then show ?case by simp
next
  case (Cons f fs)
  let ?v = "tree_val C ts (Suc d) tbl"
  have h: "has data q (field_data (?v f))" "has data (q + length (field_data (?v f))) (data_bytes ?v fs)"
    using Cons.prems(3) by (simp_all add: data_bytes_def has_append)
  have good: "field_good C ts d tbl f" "\<forall>f \<in> set fs. field_good C ts d tbl f" using Cons.prems(1) by simp_all
  then have "wf_field (length ts) f" by (simp add: field_good_def)
  from field_named [OF this] obtain nm where nm: "f_name f = Some nm" by blast
  show ?case
  proof (cases "field_value C tbl f = L_nil")
    case True
    then show ?thesis using Cons.IH [OF good(2) Cons.prems(2) h(2) _ _ _ Cons.prems(7)] Cons.prems tree_val_simps(1) [OF True]
      by (simp add: keeps_key_def)
  next
    case False
    have n: "name_key nm \<notin> fst ` set R" "du_array_tag s \<noteq> Some nm" using Cons.prems(6,8) nm by auto
    from field_decoded [OF good(1) False nm Cons.prems(2) h(1) n(1) Cons.prems(7) n(2)] obtain s1 where
      s1: "calls (decode C ts data (Suc d)) (field_calls q f (?v f)) s = Some s1" "field_state nm (field_result C ts d tbl f) R s s1"
      "du_key s1 = (if \<not> is_array f \<and> du_mainindex s = f_tag f then field_result C ts d tbl f else du_key s)" by blast
    let ?R = "R @ [(name_key nm, field_result C ts d tbl f)]"
    have st: "du_result s1 = L_table 0 ?R" "du_mainindex s1 = du_mainindex s" using s1(2) by (simp_all add: field_state_def)
    have ne: "name_key (the (f_name g)) \<noteq> name_key nm" if "g \<in> set fs" for g
      using Cons.prems(4) nm that by (simp add: image_iff) metis
    have fr: "\<forall>g \<in> set fs. name_key (the (f_name g)) \<notin> fst ` set ?R" using Cons.prems(6) ne by auto
    have tg: "\<forall>g \<in> set fs. du_array_tag s1 \<noteq> f_name g"
    proof
      fix g assume g: "g \<in> set fs"
      then have "f_name g \<noteq> Some nm" using ne by fastforce
      then show "du_array_tag s1 \<noteq> f_name g" using s1(2) Cons.prems(8) g by (auto simp: field_state_def)
    qed
    have ds: "distinct (map (\<lambda>f. name_key (the (f_name f))) fs)" "distinct (map f_tag fs)" using Cons.prems(4,5) by simp_all
    from Cons.IH [OF good(2) Cons.prems(2) h(2) ds fr st(1) tg] obtain s' where
      s': "calls (decode C ts data (Suc d)) (data_calls ?v (q + length (field_data (?v f))) fs) s1 = Some s'"
      "du_result s' = L_table 0 (?R @ entries C ts d tbl fs)"
      "du_key s' = (case find (keeps_key C (du_mainindex s1) tbl) fs of None \<Rightarrow> du_key s1 | Some g \<Rightarrow> field_result C ts d tbl g)" by blast
    have "\<forall>x \<in> set fs. f_tag x \<noteq> f_tag f" using Cons.prems(5) by (simp add: image_iff) metis
    then have "find (keeps_key C (f_tag f) tbl) fs = None" by (auto simp: find_None_iff keeps_key_def)
    then have k: "du_key s' = (case find (keeps_key C (du_mainindex s) tbl) (f # fs) of None \<Rightarrow> du_key s | Some g \<Rightarrow> field_result C ts d tbl g)"
      using s'(3) s1(3) st(2) False by (auto simp: keeps_key_def split: option.splits)
    have c: "calls (decode C ts data (Suc d)) (data_calls ?v q (f # fs)) s = Some s'" using s'(1) s1(1) by (simp add: calls_append del: tree_val.simps)
    have "du_result s' = L_table 0 (R @ entries C ts d tbl (f # fs))" using s'(2) False nm by simp
    then show ?thesis using k c by blast
  qed
qed

section \<open>Tables\<close>

lemma ascending_tags: "ascending prev fs \<Longrightarrow> distinct (map f_tag fs) \<and> (\<forall>f \<in> set fs. prev < f_tag f)"
  by (induction fs arbitrary: prev) fastforce+

lemma main_key_field:
  assumes "main_field C m st y = Some g" and "elem_type g \<noteq> SPROTO_TSTRUCT" and "\<forall>f \<in> set (t_f st). wf_field n f"
  shows "find (keeps_key C m y) (t_f st) = Some g \<and> main_key C m st y = field_result C ts d y g"
proof -
  have f: "find (keeps_key C m y) (t_f st) = Some g" using assms(1) by (simp add: main_field_def keeps_key_def [abs_def])
  then have "keeps_key C m y g" "g \<in> set (t_f st)" by (auto simp: find_Some_iff)
  then have "\<not> is_array g" "wf_field n g" using assms(3) by (simp_all add: keeps_key_def)
  then show ?thesis using f assms(1,2) wf_field_type(2) [of n g] by (auto simp: main_key_def norm_field_def norm_elem_def)
qed

lemma all_good:
  assumes schema: "\<forall>t \<in> set ts. wf_type (length ts) t" and names: "names_ok ts" and st: "st \<in> set ts"
    and c: "conforms C ts (Suc d) y st" and k: "keys_ok C ts (Suc d) st y"
  shows "\<forall>f \<in> set (t_f st). field_good C ts d y f"
proof
  fix f assume f: "f \<in> set (t_f st)"
  have "wf_field (length ts) f" "field_ok C ts (conforms C ts d) y f" using schema st c f by (auto simp: wf_type_def)
  moreover have "elem_type f = SPROTO_TSTRUCT \<longrightarrow> 0 \<le> f_key f \<longrightarrow> is_array f" using names st f by (auto simp: names_ok_def)
  ultimately show "field_good C ts d y f" using k f by (auto simp: field_good_def struct_keys_def is_map_def)
qed

lemma reads_all:
  assumes schema: "\<forall>t \<in> set ts. wf_type (length ts) t" and names: "names_ok ts" and len: "length data < 2 ^ 31"
  shows "reads C ts data d"
proof (induction d)
  case 0
  then show ?case by (simp add: reads_def)
next
  case (Suc d)
  show ?case unfolding reads_def
  proof (intro allI impI)
    fix p y st m
    assume st: "st \<in> set ts" and c: "conforms C ts (Suc d) y st" and k: "keys_ok C ts (Suc d) st y" and h: "has data p (table_message C ts (Suc d) st y)"
    let ?v = "tree_val C ts (Suc d) y" let ?s = "new_decode_ud (L_table 0 []) m" let ?q = "p + 2 + 2 * length (entry_words ?v (-1) (t_f st))"
    have wt: "wf_type (length ts) st" using schema st by blast
    have hm: "has data p (message ?v (t_f st))" using h by (simp add: table_message_def)
    then have hd: "has data ?q (data_bytes ?v (t_f st))" by (simp add: message_def Let_def has_append add.assoc)
    have fit: "\<forall>f \<in> set (t_f st). fits f (?v f)"
    proof
      fix f assume "f \<in> set (t_f st)"
      then have "fields_ok C ts d y [f]" using table_fields_ok [OF schema st c] by (auto simp: fields_ok_def)
      then show "fits f (?v f)" by (rule tree_val_fits)
    qed
    have ds: "distinct (map (\<lambda>f. name_key (the (f_name f))) (t_f st))" "distinct (map f_tag (t_f st))"
      using names st wt ascending_tags by (auto simp: names_ok_def wf_type_def)
    have fr: "\<forall>f \<in> set (t_f st). name_key (the (f_name f)) \<notin> fst ` set []" "du_result ?s = L_table 0 []" by (simp_all add: new_decode_ud_def)
    have tg: "\<forall>f \<in> set (t_f st). du_array_tag ?s \<noteq> f_name f" using wt by (auto simp: new_decode_ud_def wf_type_def wf_field_def)
    have ini: "du_key ?s = L_nil" "du_mainindex ?s = m" by (simp_all add: new_decode_ud_def)
    from fields_decoded [OF all_good [OF schema names st c k] Suc.IH hd ds fr tg, unfolded ini append_Nil] obtain s' where
      s': "calls (decode C ts data (Suc d)) (data_calls ?v ?q (t_f st)) ?s = Some s'" "du_result s' = L_table 0 (entries C ts d y (t_f st))"
      "du_key s' = (case find (keeps_key C m y) (t_f st) of None \<Rightarrow> L_nil | Some g \<Rightarrow> field_result C ts d y g)" by blast
    have lm: "length (message ?v (t_f st)) < 2 ^ 31" using has_length [OF hm] len by linarith
    have "calls (decode C ts data (Suc d)) (message_calls ?v p (t_f st)) ?s = Some s'" using s'(1) by (simp add: message_calls_def)
    from sproto_decode_spec [OF hm wt fit lm this] have dec: "sproto_decode (decode C ts data (Suc d)) data st p (int (length (table_message C ts (Suc d) st y))) ?s =
      Some (int (length (table_message C ts (Suc d) st y)), s')" by (simp add: table_message_def)
    have "\<forall>f \<in> set (t_f st). wf_field (length ts) f" using wt by (simp add: wf_type_def)
    then have "\<forall>g. main_field C m st y = Some g \<longrightarrow> elem_type g \<noteq> SPROTO_TSTRUCT \<longrightarrow> du_key s' = main_key C m st y"
      using main_key_field [where ts = ts and d = d] s'(3) by fastforce
    then show "\<exists>s'. sproto_decode (decode C ts data (Suc d)) data st p (int (length (table_message C ts (Suc d) st y))) ?s =
        Some (int (length (table_message C ts (Suc d) st y)), s') \<and> du_result s' = norm_table C ts (Suc d) st y \<and>
      (0 \<le> m \<longrightarrow> (\<forall>g. main_field C m st y = Some g \<longrightarrow> elem_type g \<noteq> SPROTO_TSTRUCT \<longrightarrow> du_key s' = main_key C m st y))"
      using dec s'(2) by auto
  qed
qed

section \<open>Round trip\<close>

definition schema_ok :: "sproto_type list \<Rightarrow> bool" where
  "schema_ok ts \<longleftrightarrow> (\<forall>t \<in> set ts. wf_type (length ts) t) \<and> names_ok ts"

lemma ldecode_message:
  assumes schema: "schema_ok ts" and i: "i < length ts" and ok: "conforms C ts ENCODE_DEEPLEVEL tbl (ts ! i)"
    and ks: "keys_ok C ts ENCODE_DEEPLEVEL (ts ! i) tbl"
    and m: "m = table_message C ts ENCODE_DEEPLEVEL (ts ! i) tbl" and len: "length m < 2 ^ 31"
  shows "ldecode C ts (Some i) m L_nil = Some (Inr (Some (norm_table C ts ENCODE_DEEPLEVEL (ts ! i) tbl, int (length m))))"
proof -
  have st: "ts ! i \<in> set ts" using i by simp
  have "reads C ts m ENCODE_DEEPLEVEL" using reads_all schema len by (simp add: schema_ok_def)
  from this [unfolded reads_def, rule_format, OF st ok ks, of 0 "-1"] obtain s' where
    "sproto_decode (decode C ts m ENCODE_DEEPLEVEL) m (ts ! i) 0 (int (length m)) (new_decode_ud (L_table 0 []) (-1)) = Some (int (length m), s')"
    "du_result s' = norm_table C ts ENCODE_DEEPLEVEL (ts ! i) tbl" unfolding m by auto
  then show ?thesis using i sint_nat_small [OF len] by (simp add: ldecode_def)
qed

text \<open>A person with a name, a number and children that are kept by number.\<close>

definition persons :: "sproto_type list" where
  "persons =
     [\<lparr>t_name = ((0, 0), [112]), t_base = 0, t_maxn = 3, t_f =
        [\<lparr>f_tag = 0, f_type = 2, f_name = Some ((0, 1), [110]), f_st = None, f_key = -1, f_extra = 0\<rparr>,
         \<lparr>f_tag = 1, f_type = 0, f_name = Some ((0, 2), [105]), f_st = None, f_key = -1, f_extra = 0\<rparr>,
         \<lparr>f_tag = 2, f_type = 132, f_name = Some ((0, 3), [99]), f_st = Some 0, f_key = 1, f_extra = 0\<rparr>]\<rparr>]"

definition family :: lua_value where
  "family = L_table 0 [(L_string [110], L_string [65]), (L_string [105], lua_int 7),
     (L_string [99], L_table 0 [(lua_int 9, L_table 0 [(L_string [110], L_string [66]), (L_string [105], lua_int 9)])])]"

definition no_conv :: lua_conv where
  "no_conv = \<lparr>c_tointeger = \<lambda>_. None, c_tonumber = \<lambda>_. 0, c_round = \<lambda>x _. x, c_divide = \<lambda>x _. x, c_tostring = \<lambda>_. [], c_index = \<lambda>_ _. None, c_stack = 1000\<rparr>"

lemma levels: "ENCODE_DEEPLEVEL = Suc (Suc 62)"
  by (simp add: ENCODE_DEEPLEVEL_def)

lemma persons_ok: "schema_ok persons"
proof -
  have "\<exists>t\<ge>0. t \<le> 4 \<and> (t = 2 \<or> 126 + t = (0::int)) \<and> t \<noteq> 4" by (rule exI [of _ 2]) simp
  moreover have "\<exists>t\<ge>0. t \<le> 4 \<and> (t = 0 \<or> 128 + t = (0::int)) \<and> t \<noteq> 4" by (rule exI [of _ 0]) simp
  moreover have "(\<forall>i<Suc (Suc (Suc 0)). P i) \<longleftrightarrow> P 0 \<and> P 1 \<and> P 2" for P by (auto simp: less_Suc_eq numeral_2_eq_2)
  ultimately show ?thesis
    by (simp add: schema_ok_def names_ok_def persons_def wf_type_def wf_field_def name_addr_def name_key_def cstr_def elem_type_def is_array_def
      sproto_type_defs SPROTO_TARRAY_def)
qed

lemmas sample_defs = persons_def family_def no_conv_def field_value_def gettable_def name_key_def cstr_def rawget_def
  struct_of_def elements_def table_pairs_def elem_type_def is_array_def sproto_type_defs SPROTO_TARRAY_def numeric_def

lemma family_conforms: "conforms no_conv persons (Suc (Suc d)) family (persons ! 0)"
  by (simp add: sample_defs field_ok_def elem_ok_def table_ok_def is_table_def plain_table_def integer_value_def tointegerx_def tolstring_def)

lemma family_keys: "keys_ok no_conv persons (Suc (Suc d)) (persons ! 0) family"
  by (simp add: sample_defs key_ok_def is_map_def main_field_def main_key_def norm_elem_def integer_value_def tointegerx_def bad_key_def norm_key_def)

lemma family_need: "table_need no_conv persons (Suc (Suc d)) (persons ! 0) family \<le> 1000"
  by (simp add: sample_defs table_need_def message_need_def fields_need_def field_need_def elem_need_def elem_bytes_def elem_number_def
    tolstring_def integer_value_def tointegerx_def put_integer_def message_def data_bytes_def field_data_def blobs_data_def)

lemma family_slots: "2 + table_slots no_conv persons (Suc (Suc d)) family (persons ! 0) + 12 \<le> c_stack no_conv"
  by (simp add: sample_defs level_slots_def field_slots_def struct_slots_def array_slots_def)

lemma family_back: "norm_table no_conv persons (Suc (Suc d)) (persons ! 0) family = family"
  by (simp add: sample_defs norm_elem_def norm_field_def norm_array_def is_map_def tolstring_def integer_value_def tointegerx_def
    main_key_def main_field_def table_set_def rawset_def norm_key_def bad_key_def raw_equal_def Let_def)

text \<open>C34. A table that conforms to the schema is encoded, whatever the size of the buffer it starts with, when the stack of Lua has the
  slots that the encoder uses (two or four for each array and one for each double, which it leaves there, above the deepest struct): the
  buffer is doubled until the message fits, and only a message that needs more than half of the maximum can be refused as too large.
  The bytes are those of the values of the fields alone.\<close>

theorem lencode_conforming:
  assumes "\<forall>t \<in> set ts. wf_type (length ts) t" and "i < length ts" and "conforms C ts ENCODE_DEEPLEVEL tbl (ts ! i)"
    and "2 + table_slots C ts ENCODE_DEEPLEVEL tbl (ts ! i) + 12 \<le> c_stack C"
    and "\<forall>n. length (fresh n) = n" and "0 < length buf" and "length buf \<le> ENCODE_MAXSIZE"
  shows "(\<exists>buf'. lencode fresh C ts (Some i) tbl buf = Some (Inr (table_message C ts ENCODE_DEEPLEVEL (ts ! i) tbl, buf'))) \<or>
    lencode fresh C ts (Some i) tbl buf = Some (Inl ''object is too large'') \<and> ENCODE_MAXSIZE < 2 * table_need C ts ENCODE_DEEPLEVEL (ts ! i) tbl"
proof -
  have "ts ! i \<in> set ts" "\<And>n. length (fresh n) = n" using assms(2,5) by simp_all
  from lencode_loop_message [OF assms(1) this(1) assms(3,4) this(2) assms(6,7)] show ?thesis using assms(2) by (auto simp: lencode_def)
qed

theorem lencode_conforming_witness:
  "(\<exists>buf'. lencode (\<lambda>n. replicate n 0) no_conv persons (Some 0) family [0] =
      Some (Inr (table_message no_conv persons ENCODE_DEEPLEVEL (persons ! 0) family, buf'))) \<or>
    lencode (\<lambda>n. replicate n 0) no_conv persons (Some 0) family [0] = Some (Inl ''object is too large'') \<and>
      ENCODE_MAXSIZE < 2 * table_need no_conv persons ENCODE_DEEPLEVEL (persons ! 0) family"
proof (rule lencode_conforming)
  show "\<forall>t \<in> set persons. wf_type (length persons) t" using persons_ok by (simp add: schema_ok_def)
  show "conforms no_conv persons ENCODE_DEEPLEVEL family (persons ! 0)" unfolding levels by (rule family_conforms)
  show "2 + table_slots no_conv persons ENCODE_DEEPLEVEL family (persons ! 0) + 12 \<le> c_stack no_conv" unfolding levels by (rule family_slots)
qed (simp_all add: persons_def ENCODE_MAXSIZE_def)

text \<open>C32. A table that conforms to the schema, whose message needs at most half of the maximum and for which the stack of Lua has the slots
  that the encoder uses, is encoded, and \<open>ldecode\<close> gives back the table of the fields of the schema: integers, strings, booleans, doubles
  and the structs, arrays and maps of them, numbers with a precision divided again, and the whole message is read.\<close>

theorem sproto_roundtrip:
  assumes "schema_ok ts" and "i < length ts" and "conforms C ts ENCODE_DEEPLEVEL tbl (ts ! i)" and "keys_ok C ts ENCODE_DEEPLEVEL (ts ! i) tbl"
    and "2 + table_slots C ts ENCODE_DEEPLEVEL tbl (ts ! i) + 12 \<le> c_stack C"
    and "\<forall>n. length (fresh n) = n" and "0 < length buf" and "length buf \<le> ENCODE_MAXSIZE"
    and "2 * table_need C ts ENCODE_DEEPLEVEL (ts ! i) tbl \<le> ENCODE_MAXSIZE"
  shows "\<exists>m buf'. lencode fresh C ts (Some i) tbl buf = Some (Inr (m, buf')) \<and>
    ldecode C ts (Some i) m L_nil = Some (Inr (Some (norm_table C ts ENCODE_DEEPLEVEL (ts ! i) tbl, int (length m))))"
proof -
  let ?m = "table_message C ts ENCODE_DEEPLEVEL (ts ! i) tbl"
  have st: "ts ! i \<in> set ts" "\<forall>t \<in> set ts. wf_type (length ts) t" "\<And>n. length (fresh n) = n" using assms(1,2,6) by (simp_all add: schema_ok_def)
  from lencode_loop_message [OF st(2,1) assms(3,5) st(3) assms(7,8)] assms(9) obtain buf' where
    e: "lencode_loop fresh C ts (ts ! i) tbl buf (length buf) = Some (Inr (?m, buf'))" "length ?m \<le> length buf'" "length buf' \<le> ENCODE_MAXSIZE" by auto
  then have "length ?m < 2 ^ 31" by (simp add: ENCODE_MAXSIZE_def)
  from ldecode_message [OF assms(1-4) refl this] e(1) assms(2) show ?thesis by (auto simp: lencode_def)
qed

theorem sproto_roundtrip_witness:
  "\<exists>m buf'. lencode (\<lambda>n. replicate n 0) no_conv persons (Some 0) family [0] = Some (Inr (m, buf')) \<and>
    ldecode no_conv persons (Some 0) m L_nil = Some (Inr (Some (family, int (length m))))"
proof -
  have "0 < length persons" by (simp add: persons_def)
  moreover have "conforms no_conv persons ENCODE_DEEPLEVEL family (persons ! 0)" unfolding levels by (rule family_conforms)
  moreover have "keys_ok no_conv persons ENCODE_DEEPLEVEL (persons ! 0) family" unfolding levels by (rule family_keys)
  moreover have "2 + table_slots no_conv persons ENCODE_DEEPLEVEL family (persons ! 0) + 12 \<le> c_stack no_conv" unfolding levels by (rule family_slots)
  moreover have "\<forall>n. length (replicate n 0 :: u8 list) = n" "0 < length [0 :: u8]" "length [0 :: u8] \<le> ENCODE_MAXSIZE" by (simp_all add: ENCODE_MAXSIZE_def)
  moreover have "2 * table_need no_conv persons ENCODE_DEEPLEVEL (persons ! 0) family \<le> ENCODE_MAXSIZE"
    unfolding levels using family_need [of 62] by (simp only: ENCODE_MAXSIZE_def)
  moreover have "norm_table no_conv persons ENCODE_DEEPLEVEL (persons ! 0) family = family" unfolding levels by (rule family_back)
  ultimately show ?thesis using sproto_roundtrip [OF persons_ok] by metis
qed

end
