(* ===== verification/LSprotoQuery.thy ===== *)
theory LSprotoQuery
  imports LSproto SprotoTypesProps
begin

text \<open>
  The queries of Lua on a schema, and the global schemas.
\<close>

definition protos_ok :: "sproto \<Rightarrow> bool" where
  "protos_ok sp \<longleftrightarrow> sorted_wrt (<) (map p_tag (sp_proto sp)) \<and> (\<forall>p \<in> set (sp_proto sp). p_name p \<noteq> None \<and> 0 \<le> p_tag p \<and> p_tag p < 2 ^ 31) \<and>
     distinct (map (\<lambda>p. cstr (snd (the (p_name p)))) (sp_proto sp))"

text \<open>What both queries tell of a protocol.\<close>

definition types_of :: "protocol \<Rightarrow> nat option \<times> nat option option" where
  "types_of p = (p_request p, case p_response p of None \<Rightarrow> if p_confirm p \<noteq> 0 then Some None else None | Some i \<Rightarrow> Some (Some i))"

lemma prototag_found:
  "p \<in> set ps \<Longrightarrow> distinct (map (\<lambda>p. cstr (snd (the (p_name p)))) ps) \<Longrightarrow> \<forall>p \<in> set ps. p_name p \<noteq> None \<Longrightarrow>
   cstr (snd (the (p_name p))) = cstr name \<Longrightarrow> prototag_loop ps name = p_tag p"
proof (induction ps)
  case Nil
  then show ?case by simp
next
  case (Cons q qs)
  then obtain nm where nm: "p_name q = Some nm" by auto
  show ?case
  proof (cases "p = q")
    case True
    then show ?thesis using Cons.prems nm by simp
  next
    case False
    then have "cstr (snd nm) \<noteq> cstr name" using Cons.prems nm by (auto simp: image_iff)
    then show ?thesis using Cons False nm by simp
  qed
qed

lemma find_key: "distinct (map g xs) \<Longrightarrow> x \<in> set xs \<Longrightarrow> find (\<lambda>y. g y = g x) xs = Some x"
proof (induction xs)
  case Nil
  then show ?case by simp
next
  case (Cons y ys)
  then show ?case by (cases "x = y") (auto simp: image_iff)
qed

lemma query_found: "protos_ok sp \<Longrightarrow> p \<in> set (sp_proto sp) \<Longrightarrow> query_proto sp (p_tag p) = Some (Some p)"
proof -
  assume ok: "protos_ok sp" and p: "p \<in> set (sp_proto sp)"
  then have s: "sorted_wrt (<) (map p_tag (sp_proto sp))" by (simp add: protos_ok_def)
  then have "distinct (map p_tag (sp_proto sp))" by (simp add: strict_sorted_iff)
  then have "find (\<lambda>q. p_tag q = p_tag p) (sp_proto sp) = Some p" by (rule find_key [OF _ p])
  then show ?thesis using query_proto_is_lookup [OF s] by simp
qed

lemma answer_found: "query_proto sp tag = Some (Some p) \<Longrightarrow> protocol_answer sp tag = Some (types_of p)"
  by (auto simp: protocol_answer_def sproto_protoquery_def sproto_protoresponse_def types_of_def split: option.splits)

text \<open>In a schema whose protocols have ascending tags and different names, asking for a protocol by its name and by the tag
  that this gives answer with the same types: of its request, and of its response, which may be missing or empty.\<close>

theorem lprotocol_agrees:
  assumes "protos_ok sp" and "p \<in> set (sp_proto sp)" and "p_name p = Some nm"
  shows "lprotocol C (Some sp) (L_string (cstr (snd nm))) = Some (Inr (Some (By_tag (p_tag p), types_of p))) \<and>
    lprotocol C (Some sp) (L_integer (word_of_int (p_tag p))) = Some (Inr (Some (By_name (cstr (snd nm)), types_of p)))"
proof
  have r: "0 \<le> p_tag p" "p_tag p < 2 ^ 31" "\<forall>p \<in> set (sp_proto sp). p_name p \<noteq> None" "distinct (map (\<lambda>p. cstr (snd (the (p_name p)))) (sp_proto sp))"
    using assms by (auto simp: protos_ok_def)
  have "cstr (cstr (snd nm)) = cstr (snd nm)" by (simp add: cstr_def takeWhile_idem)
  then have "sproto_prototag sp (cstr (snd nm)) = p_tag p" using prototag_found [OF assms(2) r(4,3)] assms(3) by (simp add: sproto_prototag_def)
  then show "lprotocol C (Some sp) (L_string (cstr (snd nm))) = Some (Inr (Some (By_tag (p_tag p), types_of p)))"
    using answer_found [OF query_found [OF assms(1,2)]] r(1) by (simp add: lprotocol_def tolstring_def)
  have "ucast (word_of_int i :: u64) = (word_of_int i :: u32)" for i by (rule bit_word_eqI) (simp add: bit_simps)
  moreover have "sint (word_of_int i :: u32) = signed_take_bit 31 i" for i by (simp add: signed_of_int)
  ultimately have "sint (ucast (word_of_int (p_tag p) :: u64) :: u32) = p_tag p" using r(1,2) by (simp add: signed_take_bit_int_eq_self_iff)
  then show "lprotocol C (Some sp) (L_integer (word_of_int (p_tag p))) = Some (Inr (Some (By_name (cstr (snd nm)), types_of p)))"
    using answer_found [OF query_found [OF assms(1,2)]] query_found [OF assms(1,2)] assms(3)
    by (simp add: lprotocol_def tointegerx_def sproto_protoname_def)
qed

definition no_conversions :: lua_conv where
  "no_conversions = \<lparr>c_tointeger = \<lambda>_. None, c_tonumber = \<lambda>_. 0, c_round = \<lambda>x _. x, c_divide = \<lambda>x _. x, c_tostring = \<lambda>_. [], c_index = \<lambda>_ _. None, c_stack = 1000\<rparr>"

theorem lprotocol_agrees_witness:
  "let sp = \<lparr>sp_memory = pool_init, sp_type = [],
       sp_proto = [\<lparr>p_name = Some ((0, 0), [97]), p_tag = 1, p_confirm = 0, p_request = Some 0, p_response = None\<rparr>,
         \<lparr>p_name = Some ((0, 8), [98]), p_tag = 4, p_confirm = 1, p_request = None, p_response = None\<rparr>]\<rparr>
   in lprotocol no_conversions (Some sp) (L_string [98]) = Some (Inr (Some (By_tag 4, None, Some None))) \<and>
    lprotocol no_conversions (Some sp) (L_integer 4) = Some (Inr (Some (By_name [98], None, Some None)))"
  unfolding Let_def
proof -
  let ?q = "\<lparr>p_name = Some ((0, 8), [98]), p_tag = 4, p_confirm = 1, p_request = None, p_response = None\<rparr>"
  let ?sp = "\<lparr>sp_memory = pool_init, sp_type = [],
       sp_proto = [\<lparr>p_name = Some ((0, 0), [97]), p_tag = 1, p_confirm = 0, p_request = Some 0, p_response = None\<rparr>, ?q]\<rparr>"
  have "protos_ok ?sp" by (simp add: protos_ok_def cstr_def)
  moreover have "?q \<in> set (sp_proto ?sp)" "p_name ?q = Some ((0, 8), [98])" by simp_all
  ultimately show "lprotocol no_conversions (Some ?sp) (L_string [98]) = Some (Inr (Some (By_tag 4, None, Some None))) \<and>
    lprotocol no_conversions (Some ?sp) (L_integer 4) = Some (Inr (Some (By_name [98], None, Some None)))"
    using lprotocol_agrees [of ?sp ?q "((0, 8), [98])" no_conversions] by (simp add: cstr_def types_of_def)
qed

text \<open>A protocol named a with the tag 1 and a confirm flag, no request and no response, whose members 2 and 3 are skipped by one
  entry: the flag becomes the type of the response.\<close>

lemma import_protocol_confirm_misread:
  "\<exists>p n pl. import_protocol 2 [15, 0, 0, 0, 4, 0, 0, 0, 4, 0, 3, 0, 4, 0, 1, 0, 0, 0, 97] 0 pool_init = Some (Some (p, n, pl)) \<and>
     p_tag p = 1 \<and> p_response p = Some 1 \<and> p_confirm p = 0"
proof -
  have "map_option (map_option (\<lambda>(p, n, pl). (p_tag p, p_response p, p_confirm p)))
     (import_protocol 2 [15, 0, 0, 0, 4, 0, 0, 0, 4, 0, 3, 0, 4, 0, 1, 0, 0, 0, 97] 0 pool_init) = Some (Some (1, Some 1, 0))"
    by code_simp
  then show ?thesis by auto
qed

text \<open>A schema saved in an empty slot is found there; saving again in this slot frees the old schema by a pointer into its
  pool, which is no pointer \<open>skynet_malloc\<close> gave.\<close>

theorem saveproto_twice_fails:
  assumes "0 \<le> index" and "index < int MAX_GLOBALSPROTO" and "length slots = MAX_GLOBALSPROTO" and "slots ! nat index = None"
  shows "\<exists>slots1. lsaveproto (Some s) index slots = Some (Inr slots1) \<and> lloadproto index slots1 = Some (Inr s) \<and> lsaveproto sp index slots1 = None"
proof -
  have i: "nat index < length slots" using assms by (simp add: MAX_GLOBALSPROTO_def)
  show ?thesis using assms i by (cases s) (auto simp: lsaveproto_def lloadproto_def arr_get_def arr_set_def free_block_def SIZEOF_CHUNK_def)
qed

theorem saveproto_twice_fails_witness:
  "\<exists>slots1. lsaveproto (Some ((0, 0), \<lparr>sp_memory = pool_init, sp_type = [], sp_proto = []\<rparr>)) 3 (replicate 16 None) = Some (Inr slots1) \<and>
    lloadproto 3 slots1 = Some (Inr ((0, 0), \<lparr>sp_memory = pool_init, sp_type = [], sp_proto = []\<rparr>)) \<and>
    lsaveproto (Some ((0, 0), \<lparr>sp_memory = pool_init, sp_type = [], sp_proto = []\<rparr>)) 3 slots1 = None"
  by (rule saveproto_twice_fails) (simp_all add: MAX_GLOBALSPROTO_def)

end
