(* ===== verification/Harbor.thy ===== *)
theory Harbor
  imports Gate
begin

text \<open>
  The harbor service of \<^verbatim>\<open>service-src/service_harbor.c\<close>: the connections to the other nodes, the queues of messages for nodes that
  are not connected and for names that are not known, and the framing of remote messages.  What the service asks of the
  node is recorded in \<open>hb_outs\<close>, in order.  \<open>reach n\<close> says whether the \<open>n\<close>-th of these, a \<open>skynet_send\<close>, finds its destination;
  then it returns the session, else a negative number.
  A buffer is its bytes; \<open>H_free\<close> records that one is freed, a send with \<open>PTYPE_TAG_DONTCOPY\<close> gives one away.
\<close>

section \<open>Data\<close>

definition HASH_SIZE :: nat where "HASH_SIZE = 4096"
definition DEFAULT_QUEUE_SIZE :: nat where "DEFAULT_QUEUE_SIZE = 1024"
definition HEADER_COOKIE_LENGTH :: nat where "HEADER_COOKIE_LENGTH = 12"
definition GLOBALNAME_LENGTH :: nat where "GLOBALNAME_LENGTH = 16"
definition REMOTE_MAX :: nat where "REMOTE_MAX = 256"
definition REMOTE_MASK :: u32 where "REMOTE_MASK = 0xFFFFFF"
definition PT_ERROR :: int where "PT_ERROR = 7"
definition TAG_DONTCOPY :: int where "TAG_DONTCOPY = 0x10000"

record remote_header =
  rh_source :: u32
  rh_destination :: u32
  rh_session :: u32

record harbor_msg =
  hm_header :: remote_header
  hm_buffer :: "u8 list"

text \<open>A slot of the ring that was never written is \<open>None\<close>.\<close>

record harbor_queue =
  hq_head :: nat
  hq_tail :: nat
  hq_data :: "harbor_msg option list"

record keyvalue =
  kv_key :: "u8 list"
  kv_hash :: u32
  kv_value :: u32
  kv_queue :: "harbor_queue option"

datatype slave_status = St_wait | St_handshake | St_header | St_content | St_down

record slave =
  sl_fd :: int
  sl_queue :: "harbor_queue option"
  sl_status :: slave_status
  sl_length :: nat
  sl_read :: nat
  sl_size :: "u8 list"
  sl_recv :: "u8 list option"

text \<open>A send has a source, a destination, a type with its tags, a session and the data.\<close>

datatype harbor_out =
    H_send u32 u32 int int "u8 list"
  | H_write int "u8 list"
  | H_close int
  | H_start int
  | H_free "u8 list"
  | H_log string

text \<open>The chains of the hash map are lists.\<close>

record harbor =
  hb_id :: int
  hb_slave :: u32
  hb_map :: "keyvalue list list"
  hb_s :: "slave list"
  hb_outs :: "harbor_out list"

definition hout :: "harbor_out \<Rightarrow> harbor \<Rightarrow> harbor" where
  "hout e h = h\<lparr>hb_outs := hb_outs h @ [e]\<rparr>"

section \<open>Queues\<close>

definition new_queue :: harbor_queue where
  "new_queue = \<lparr>hq_head = 0, hq_tail = 0, hq_data = replicate DEFAULT_QUEUE_SIZE None\<rparr>"

definition expand_ring :: "harbor_queue \<Rightarrow> harbor_queue" where
  "expand_ring q =
     (let n = length (hq_data q)
      in \<lparr>hq_head = 0, hq_tail = n - 1,
          hq_data = map (\<lambda>i. hq_data q ! ((i + hq_head q) mod n)) [0..<n - 1] @ replicate (n + 1) None\<rparr>)"

definition push_queue_msg :: "harbor_msg \<Rightarrow> harbor_queue \<Rightarrow> harbor_queue option" where
  "push_queue_msg m q = do {
     assert_that (hq_data q \<noteq> []);
     let q1 = (if (hq_tail q + 1) mod length (hq_data q) = hq_head q then expand_ring q else q);
     d \<leftarrow> arr_set (hq_data q1) (hq_tail q1) (Some m);
     Some (q1\<lparr>hq_data := d, hq_tail := (hq_tail q1 + 1) mod length d\<rparr>) }"

definition push_queue :: "u8 list \<Rightarrow> remote_header \<Rightarrow> harbor_queue \<Rightarrow> harbor_queue option" where
  "push_queue buffer header q = push_queue_msg \<lparr>hm_header = header, hm_buffer = buffer\<rparr> q"

text \<open>The outer result is \<open>NULL\<close> when the queue is empty.\<close>

definition pop_queue :: "harbor_queue \<Rightarrow> (harbor_msg option \<times> harbor_queue) option" where
  "pop_queue q =
     (if hq_head q = hq_tail q then Some (None, q)
      else do {
        x \<leftarrow> arr_get (hq_data q) (hq_head q);
        m \<leftarrow> x;
        Some (Some m, q\<lparr>hq_head := (hq_head q + 1) mod length (hq_data q)\<rparr>) })"

text \<open>A loop that pops a queue until it is empty; it ends, as every pop moves the head.\<close>

definition ring_count :: "harbor_queue \<Rightarrow> nat" where
  "ring_count q = (if hq_head q \<le> hq_tail q then hq_tail q - hq_head q else hq_tail q + length (hq_data q) - hq_head q)"

fun drain :: "nat \<Rightarrow> (harbor_msg \<Rightarrow> 's \<Rightarrow> 's option) \<Rightarrow> harbor_queue \<Rightarrow> 's \<Rightarrow> ('s \<times> harbor_queue) option" where
  "drain 0 f q s = Some (s, q)"
| "drain (Suc n) f q s = do {
     (r, q1) \<leftarrow> pop_queue q;
     case r of None \<Rightarrow> Some (s, q1) | Some m \<Rightarrow> do { s1 \<leftarrow> f m s; drain n f q1 s1 } }"

definition drain_all :: "(harbor_msg \<Rightarrow> 's \<Rightarrow> 's option) \<Rightarrow> harbor_queue \<Rightarrow> 's \<Rightarrow> ('s \<times> harbor_queue) option" where
  "drain_all f q s = drain (ring_count q) f q s"

definition release_queue :: "harbor_queue option \<Rightarrow> harbor \<Rightarrow> harbor option" where
  "release_queue q h =
     (case q of None \<Rightarrow> Some h
      | Some q \<Rightarrow> do { (h1, q1) \<leftarrow> drain_all (\<lambda>m h. Some (hout (H_free (hm_buffer m)) h)) q h; Some h1 })"

section \<open>The table of names\<close>

definition le_word :: "u8 list \<Rightarrow> nat \<Rightarrow> u32" where
  "le_word bs i = ucast (bs ! i) OR push_bit 8 (ucast (bs ! (i + 1))) OR push_bit 16 (ucast (bs ! (i + 2))) OR push_bit 24 (ucast (bs ! (i + 3)))"

definition name_hash :: "u8 list \<Rightarrow> u32" where
  "name_hash name = le_word name 0 XOR le_word name 4 XOR le_word name 8 XOR le_word name 12"

text \<open>\<open>strncmp\<close> with the length of a name.\<close>

definition same_name :: "u8 list \<Rightarrow> u8 list \<Rightarrow> bool" where
  "same_name a b \<longleftrightarrow> takeWhile (\<lambda>c. c \<noteq> 0) (take GLOBALNAME_LENGTH a) = takeWhile (\<lambda>c. c \<noteq> 0) (take GLOBALNAME_LENGTH b)"

fun chain_search :: "keyvalue list \<Rightarrow> u32 \<Rightarrow> u8 list \<Rightarrow> nat \<Rightarrow> nat option" where
  "chain_search [] h name i = None"
| "chain_search (n # ns) h name i =
     (if kv_hash n = h \<and> same_name (kv_key n) name then Some i else chain_search ns h name (i + 1))"

text \<open>A node is known by its chain and its place in it.\<close>

definition hash_search :: "keyvalue list list \<Rightarrow> u8 list \<Rightarrow> (nat \<times> nat) option" where
  "hash_search m name =
     (let h = name_hash name; c = unat h mod HASH_SIZE
      in map_option (\<lambda>i. (c, i)) (chain_search (m ! c) h name 0))"

definition hash_insert :: "keyvalue list list \<Rightarrow> u8 list \<Rightarrow> (nat \<times> nat) \<times> keyvalue list list" where
  "hash_insert m name =
     (let h = name_hash name; c = unat h mod HASH_SIZE
      in ((c, 0), m[c := \<lparr>kv_key = name, kv_hash = h, kv_value = 0, kv_queue = None\<rparr> # m ! c]))"

definition find_or_insert :: "keyvalue list list \<Rightarrow> u8 list \<Rightarrow> (nat \<times> nat) \<times> keyvalue list list" where
  "find_or_insert m name = (case hash_search m name of Some p \<Rightarrow> (p, m) | None \<Rightarrow> hash_insert m name)"

definition node_at :: "keyvalue list list \<Rightarrow> nat \<times> nat \<Rightarrow> keyvalue option" where
  "node_at m p = do { c \<leftarrow> arr_get m (fst p); arr_get c (snd p) }"

definition set_node :: "nat \<times> nat \<Rightarrow> keyvalue \<Rightarrow> keyvalue list list \<Rightarrow> keyvalue list list" where
  "set_node p n m = m[fst p := (m ! fst p)[snd p := n]]"

fun release_nodes :: "keyvalue list \<Rightarrow> harbor \<Rightarrow> harbor option" where
  "release_nodes [] h = Some h"
| "release_nodes (n # ns) h = do { h1 \<leftarrow> release_queue (kv_queue n) h; release_nodes ns h1 }"

definition hash_delete :: "harbor \<Rightarrow> harbor option" where
  "hash_delete h = release_nodes (concat (hb_map h)) h"

section \<open>Connections\<close>

definition slave_zero :: slave where
  "slave_zero = \<lparr>sl_fd = 0, sl_queue = None, sl_status = St_wait, sl_length = 0, sl_read = 0, sl_size = replicate 4 0, sl_recv = None\<rparr>"

definition set_slave :: "nat \<Rightarrow> slave \<Rightarrow> harbor \<Rightarrow> harbor" where
  "set_slave i s h = h\<lparr>hb_s := (hb_s h)[i := s]\<rparr>"

definition harbor_create :: harbor where
  "harbor_create = \<lparr>hb_id = 0, hb_slave = 0, hb_map = replicate HASH_SIZE [], hb_s = replicate REMOTE_MAX slave_zero, hb_outs = []\<rparr>"

definition close_harbor :: "nat \<Rightarrow> harbor \<Rightarrow> harbor option" where
  "close_harbor i h = do {
     s \<leftarrow> arr_get (hb_s h) i;
     let h1 = set_slave i (s\<lparr>sl_status := St_down\<rparr>) h;
     let h2 = (if sl_fd s \<noteq> 0 then hout (H_close (sl_fd s)) h1 else h1);
     h3 \<leftarrow> release_queue (sl_queue s) h2;
     Some (set_slave i (s\<lparr>sl_status := St_down, sl_queue := None\<rparr>) h3) }"

definition report_harbor_down :: "nat \<Rightarrow> harbor \<Rightarrow> harbor" where
  "report_harbor_down i h = hout (H_send 0 (hb_slave h) (uint PT_TEXT) 0 (chars (''D '' @ int_str (int i)))) h"

fun close_all :: "nat list \<Rightarrow> harbor \<Rightarrow> harbor option" where
  "close_all [] h = Some h"
| "close_all (i # is) h = do {
     s \<leftarrow> arr_get (hb_s h) i;
     h1 \<leftarrow> (if sl_fd s \<noteq> 0 \<and> sl_status s \<noteq> St_down then close_harbor i h else Some h);
     close_all is h1 }"

definition harbor_release :: "harbor \<Rightarrow> harbor option" where
  "harbor_release h = do { h1 \<leftarrow> close_all [1..<REMOTE_MAX] h; hash_delete h1 }"

section \<open>Remote messages\<close>

definition to_bigendian :: "u32 \<Rightarrow> u8 list" where
  "to_bigendian n = [ucast (drop_bit 24 n), ucast (drop_bit 16 n), ucast (drop_bit 8 n), ucast n]"

definition header_to_message :: "remote_header \<Rightarrow> u8 list" where
  "header_to_message c = to_bigendian (rh_source c) @ to_bigendian (rh_destination c) @ to_bigendian (rh_session c)"

definition from_bigendian :: "u8 list \<Rightarrow> nat \<Rightarrow> u32" where
  "from_bigendian bs i = push_bit 24 (ucast (bs ! i)) OR push_bit 16 (ucast (bs ! (i + 1))) OR push_bit 8 (ucast (bs ! (i + 2))) OR ucast (bs ! (i + 3))"

definition message_to_header :: "u8 list \<Rightarrow> remote_header" where
  "message_to_header bs = \<lparr>rh_source = from_bigendian bs 0, rh_destination = from_bigendian bs 4, rh_session = from_bigendian bs 8\<rparr>"

definition remote_type :: "u32 \<Rightarrow> int" where
  "remote_type d = uint (drop_bit 24 d)"

text \<open>
  The cookie is read before the start of a message that is shorter.  A \<open>skynet_send\<close> that succeeds returns the session, so one with a
  negative session is taken for a failure.
\<close>

definition forward_local_message :: "(nat \<Rightarrow> bool) \<Rightarrow> u8 list \<Rightarrow> harbor \<Rightarrow> harbor option" where
  "forward_local_message reach msg h = do {
     assert_that (HEADER_COOKIE_LENGTH \<le> length msg);
     let n = length msg - HEADER_COOKIE_LENGTH;
     let header = message_to_header (drop n msg);
     let type = remote_type (rh_destination header);
     let destination = (rh_destination header AND REMOTE_MASK) OR push_bit 24 (of_int (hb_id h));
     let h1 = hout (H_send (rh_source header) destination (type OR TAG_DONTCOPY) (sint (rh_session header)) (take n msg)) h;
     Some (if reach (length (hb_outs h)) \<and> 0 \<le> sint (rh_session header) then h1
       else
         let h2 = (if type \<noteq> PT_ERROR then hout (H_send destination (rh_source header) PT_ERROR (sint (rh_session header)) []) h1 else h1)
         in hout (H_log ''Unknown destination'') h2) }"

definition remote_packet :: "remote_header \<Rightarrow> u8 list \<Rightarrow> u8 list" where
  "remote_packet cookie buffer = to_bigendian (of_nat (length buffer + HEADER_COOKIE_LENGTH)) @ buffer @ header_to_message cookie"

definition send_remote :: "int \<Rightarrow> u8 list \<Rightarrow> remote_header \<Rightarrow> harbor \<Rightarrow> harbor" where
  "send_remote fd buffer cookie h =
     (if length buffer + HEADER_COOKIE_LENGTH > 0xFFFFFFFF then hout (H_log ''remote message is too large'') h
      else hout (H_write fd (remote_packet cookie buffer)) h)"

text \<open>A message of a queue goes out, and its buffer is freed.\<close>

definition send_and_free :: "int \<Rightarrow> (remote_header \<Rightarrow> remote_header) \<Rightarrow> harbor_msg \<Rightarrow> harbor \<Rightarrow> harbor option" where
  "send_and_free fd f m h = Some (hout (H_free (hm_buffer m)) (send_remote fd (hm_buffer m) (f (hm_header m)) h))"

definition set_destination :: "u32 \<Rightarrow> remote_header \<Rightarrow> remote_header" where
  "set_destination handle c = c\<lparr>rh_destination := rh_destination c OR (handle AND REMOTE_MASK)\<rparr>"

text \<open>The messages of a local name.\<close>

definition send_local :: "u32 \<Rightarrow> harbor_msg \<Rightarrow> harbor \<Rightarrow> harbor option" where
  "send_local handle m h =
     Some (hout (H_send (rh_source (hm_header m)) handle (remote_type (rh_destination (hm_header m)) OR TAG_DONTCOPY)
       (sint (rh_session (hm_header m))) (hm_buffer m)) h)"

text \<open>The queue of a node whose value is known now: what becomes of it is the queue that the node has then.\<close>

definition dispatch_name_queue :: "harbor_queue \<Rightarrow> u32 \<Rightarrow> harbor \<Rightarrow> (harbor_queue option \<times> harbor) option" where
  "dispatch_name_queue queue handle h = do {
     let i = nat (remote_type handle);
     s \<leftarrow> arr_get (hb_s h) i;
     if sl_fd s = 0 then
       if sl_status s = St_down then Some (Some queue, hout (H_log ''Drop message to name'') h)
       else do {
         (sq, nq) \<leftarrow> (case sl_queue s of
             None \<Rightarrow> Some (queue, None)
           | Some sq \<Rightarrow> do { (sq1, q1) \<leftarrow> drain_all push_queue_msg queue sq; Some (sq1, Some q1) });
         let h1 = set_slave i (s\<lparr>sl_queue := Some sq\<rparr>) h;
         if remote_type handle = remote_type (hb_slave h) then do {
           (h2, sq1) \<leftarrow> drain_all (send_local handle) sq h1;
           h3 \<leftarrow> release_queue (Some sq1) h2;
           Some (nq, set_slave i (s\<lparr>sl_queue := None\<rparr>) h3) }
         else Some (nq, h1) }
     else do {
       (h1, q1) \<leftarrow> drain_all (send_and_free (sl_fd s) (set_destination handle)) queue h;
       Some (Some q1, h1) } }"

definition dispatch_queue :: "nat \<Rightarrow> harbor \<Rightarrow> harbor option" where
  "dispatch_queue i h = do {
     s \<leftarrow> arr_get (hb_s h) i;
     assert_that (sl_fd s \<noteq> 0);
     case sl_queue s of
       None \<Rightarrow> Some h
     | Some q \<Rightarrow> do {
         (h1, q1) \<leftarrow> drain_all (send_and_free (sl_fd s) (\<lambda>c. c)) q h;
         h2 \<leftarrow> release_queue (Some q1) h1;
         Some (set_slave i (s\<lparr>sl_queue := None\<rparr>) h2) } }"

section \<open>Data of a connection\<close>

definition memcpy_at :: "u8 list \<Rightarrow> nat \<Rightarrow> u8 list \<Rightarrow> u8 list option" where
  "memcpy_at xs p ys = (if p + length ys \<le> length xs then Some (take p xs @ ys @ drop (p + length ys) xs) else None)"

text \<open>Each part of the loop gives what is left of the bytes, or \<open>None\<close> when the function returns.\<close>

definition handshake_part :: "nat \<Rightarrow> u8 list \<Rightarrow> harbor \<Rightarrow> (harbor \<times> u8 list option) option" where
  "handshake_part i buf h =
     (case buf of
        [] \<Rightarrow> None
      | b # rest \<Rightarrow> do {
          s \<leftarrow> arr_get (hb_s h) i;
          if unat b \<noteq> i then do { h1 \<leftarrow> close_harbor i (hout (H_log ''Invalid shakehand id'') h); Some (h1, None) }
          else do {
            h1 \<leftarrow> dispatch_queue i (set_slave i (s\<lparr>sl_status := St_header\<rparr>) h);
            Some (h1, Some rest) } })"

definition header_part :: "nat \<Rightarrow> u8 list \<Rightarrow> harbor \<Rightarrow> (harbor \<times> u8 list option) option" where
  "header_part i buf h = do {
     s \<leftarrow> arr_get (hb_s h) i;
     assert_that (sl_read s \<le> 4);
     let need = 4 - sl_read s;
     if length buf < need then do {
       z \<leftarrow> memcpy_at (sl_size s) (sl_read s) buf;
       Some (set_slave i (s\<lparr>sl_size := z, sl_read := sl_read s + length buf\<rparr>) h, None) }
     else do {
       z \<leftarrow> memcpy_at (sl_size s) (sl_read s) (take need buf);
       let rest = drop need buf;
       if z ! 0 \<noteq> 0 then do {
         h1 \<leftarrow> close_harbor i (hout (H_log ''Message is too long'') (set_slave i (s\<lparr>sl_size := z\<rparr>) h));
         Some (h1, None) }
       else
         let n = unat (z ! 1) * 65536 + unat (z ! 2) * 256 + unat (z ! 3);
             h1 = set_slave i (s\<lparr>sl_size := z, sl_length := n, sl_read := 0, sl_recv := Some (replicate n 0), sl_status := St_content\<rparr>) h
         in Some (h1, if rest = [] then None else Some rest) } }"

definition content_part :: "(nat \<Rightarrow> bool) \<Rightarrow> nat \<Rightarrow> u8 list \<Rightarrow> harbor \<Rightarrow> (harbor \<times> u8 list option) option" where
  "content_part reach i buf h = do {
     s \<leftarrow> arr_get (hb_s h) i;
     recv \<leftarrow> sl_recv s;
     assert_that (sl_read s \<le> sl_length s);
     let need = sl_length s - sl_read s;
     if length buf < need then do {
       r \<leftarrow> memcpy_at recv (sl_read s) buf;
       Some (set_slave i (s\<lparr>sl_recv := Some r, sl_read := sl_read s + length buf\<rparr>) h, None) }
     else do {
       r \<leftarrow> memcpy_at recv (sl_read s) (take need buf);
       h1 \<leftarrow> forward_local_message reach r h;
       let rest = drop need buf;
       Some (set_slave i (s\<lparr>sl_length := 0, sl_read := 0, sl_recv := None, sl_status := St_header\<rparr>) h1,
         if rest = [] then None else Some rest) } }"

text \<open>One round of the loop, by the status of the connection; the cases go through to the next one.\<close>

definition data_step :: "(nat \<Rightarrow> bool) \<Rightarrow> nat \<Rightarrow> u8 list \<Rightarrow> harbor \<Rightarrow> (harbor \<times> u8 list option) option" where
  "data_step reach i buf h = do {
     s \<leftarrow> arr_get (hb_s h) i;
     case sl_status s of
       St_handshake \<Rightarrow> do {
         (h1, r) \<leftarrow> handshake_part i buf h;
         case r of
           None \<Rightarrow> Some (h1, None)
         | Some rest \<Rightarrow>
             if rest = [] then Some (h1, Some rest)
             else do {
               (h2, r2) \<leftarrow> header_part i rest h1;
               case r2 of None \<Rightarrow> Some (h2, None) | Some rest2 \<Rightarrow> content_part reach i rest2 h2 } }
     | St_header \<Rightarrow> do {
         (h2, r2) \<leftarrow> header_part i buf h;
         case r2 of None \<Rightarrow> Some (h2, None) | Some rest2 \<Rightarrow> content_part reach i rest2 h2 }
     | St_content \<Rightarrow> content_part reach i buf h
     | _ \<Rightarrow> Some (h, None) }"

text \<open>The loop, bounded: each round but the first takes at least one byte or ends.\<close>

fun data_loop :: "nat \<Rightarrow> (nat \<Rightarrow> bool) \<Rightarrow> nat \<Rightarrow> u8 list \<Rightarrow> harbor \<Rightarrow> harbor option" where
  "data_loop 0 reach i buf h = None"
| "data_loop (Suc n) reach i buf h = do {
     (h1, r) \<leftarrow> data_step reach i buf h;
     case r of None \<Rightarrow> Some h1 | Some rest \<Rightarrow> data_loop n reach i rest h1 }"

fun find_fd :: "slave list \<Rightarrow> int \<Rightarrow> nat list \<Rightarrow> nat option" where
  "find_fd ss fd [] = None"
| "find_fd ss fd (i # is) = (if i < length ss \<and> sl_fd (ss ! i) = fd then Some i else find_fd ss fd is)"

definition harbor_of :: "harbor \<Rightarrow> int \<Rightarrow> nat option" where
  "harbor_of h fd = find_fd (hb_s h) fd [1..<REMOTE_MAX]"

definition push_socket_data :: "(nat \<Rightarrow> bool) \<Rightarrow> socket_message \<Rightarrow> harbor \<Rightarrow> harbor option" where
  "push_socket_data reach m h =
     (case harbor_of h (sm_id m) of
        None \<Rightarrow> Some (hout (H_log ''Invalid socket fd'') h)
      | Some i \<Rightarrow> do {
          assert_that (0 \<le> sm_ud m \<and> nat (sm_ud m) \<le> length (sm_buffer m));
          data_loop (nat (sm_ud m) + 2) reach i (take (nat (sm_ud m)) (sm_buffer m)) h })"

section \<open>Messages to other nodes\<close>

definition update_name :: "u8 list \<Rightarrow> u32 \<Rightarrow> harbor \<Rightarrow> harbor option" where
  "update_name name handle h = do {
     let (p, m) = find_or_insert (hb_map h) name;
     n \<leftarrow> node_at m p;
     let n1 = n\<lparr>kv_value := handle\<rparr>;
     let h1 = h\<lparr>hb_map := set_node p n1 m\<rparr>;
     case kv_queue n1 of
       None \<Rightarrow> Some h1
     | Some q \<Rightarrow> do {
         (q1, h2) \<leftarrow> dispatch_name_queue q handle h1;
         h3 \<leftarrow> release_queue q1 h2;
         Some (h3\<lparr>hb_map := set_node p (n1\<lparr>kv_queue := None\<rparr>) (hb_map h3)\<rparr>) } }"

definition remote_cookie :: "u32 \<Rightarrow> u32 \<Rightarrow> int \<Rightarrow> int \<Rightarrow> remote_header" where
  "remote_cookie source destination type session =
     \<lparr>rh_source = source, rh_destination = push_bit 24 (of_int type) OR (destination AND REMOTE_MASK), rh_session = of_int session\<rparr>"

text \<open>The first result: the buffer was given away or is in a queue.\<close>

definition remote_send_handle :: "u32 \<Rightarrow> u32 \<Rightarrow> int \<Rightarrow> int \<Rightarrow> u8 list \<Rightarrow> harbor \<Rightarrow> (bool \<times> harbor) option" where
  "remote_send_handle source destination type session msg h =
     (if remote_type destination = hb_id h then Some (True, hout (H_send source destination (type OR TAG_DONTCOPY) session msg) h)
      else do {
        let i = nat (remote_type destination);
        s \<leftarrow> arr_get (hb_s h) i;
        if sl_fd s = 0 \<or> sl_status s = St_handshake then
          if sl_status s = St_down then
            Some (False, hout (H_log ''Drop message to harbor'') (hout (H_send destination source PT_ERROR 0 []) h))
          else do {
            q \<leftarrow> push_queue msg (remote_cookie source destination type session) (case sl_queue s of None \<Rightarrow> new_queue | Some q \<Rightarrow> q);
            Some (True, set_slave i (s\<lparr>sl_queue := Some q\<rparr>) h) }
        else Some (False, send_remote (sl_fd s) msg (remote_cookie source destination type session) h) })"

definition name_query :: "u8 list \<Rightarrow> u8 list" where
  "name_query name = chars ''Q '' @ takeWhile (\<lambda>c. c \<noteq> 0) name"

definition remote_send_name :: "u32 \<Rightarrow> u8 list \<Rightarrow> int \<Rightarrow> int \<Rightarrow> u8 list \<Rightarrow> harbor \<Rightarrow> (bool \<times> harbor) option" where
  "remote_send_name source name type session msg h = do {
     let (p, m) = find_or_insert (hb_map h) name;
     n \<leftarrow> node_at m p;
     let h1 = h\<lparr>hb_map := m\<rparr>;
     if kv_value n = 0 then do {
       q \<leftarrow> push_queue msg (remote_cookie source 0 type session) (case kv_queue n of None \<Rightarrow> new_queue | Some q \<Rightarrow> q);
       let h2 = h1\<lparr>hb_map := set_node p (n\<lparr>kv_queue := Some q\<rparr>) m\<rparr>;
       Some (True, hout (H_send 0 (hb_slave h) (uint PT_TEXT) 0 (name_query name)) h2) }
     else remote_send_handle source (kv_value n) type session msg h1 }"

section \<open>Commands\<close>

definition handshake :: "nat \<Rightarrow> harbor \<Rightarrow> harbor option" where
  "handshake i h = do { s \<leftarrow> arr_get (hb_s h) i; Some (hout (H_write (sl_fd s) [of_int (hb_id h)]) h) }"

text \<open>\<open>sscanf\<close> with \<open>%d\<close>: the number and the rest; nothing when there is no digit.\<close>

definition scan_number :: "string \<Rightarrow> (int \<times> string) option" where
  "scan_number t =
     (let (neg, s1) = read_sign (dropWhile is_space t); (v, s2) = read_digits 10 s1 0
      in if s2 = s1 then None else Some (if neg then - int v else int v, s2))"

text \<open>Two numbers, those that are not read stay 0; a number out of range is not defined.\<close>

definition scan_ints :: "(int \<Rightarrow> int option) \<Rightarrow> (int \<Rightarrow> int option) \<Rightarrow> string \<Rightarrow> (int \<times> int) option" where
  "scan_ints ra rb t =
     (case scan_number t of
        None \<Rightarrow> Some (0, 0)
      | Some (a, r) \<Rightarrow> do {
          x \<leftarrow> ra a;
          case scan_number r of None \<Rightarrow> Some (x, 0) | Some (b, r1) \<Rightarrow> do { y \<leftarrow> rb b; Some (x, y) } })"

definition uint_range :: "int \<Rightarrow> int option" where
  "uint_range i = (if - (2 ^ 32) < i \<and> i < 2 ^ 32 then Some (i mod 2 ^ 32) else None)"

text \<open>\<open>mem\<close> is the memory from the message on, \<open>sz\<close> its size; one byte behind the message is read.\<close>

definition name_command :: "u8 list \<Rightarrow> nat \<Rightarrow> u32 \<Rightarrow> harbor \<Rightarrow> harbor option" where
  "name_command mem sz source h =
     (if sz \<le> 2 \<or> sz - 2 \<ge> GLOBALNAME_LENGTH then Some (hout (H_log ''Invalid global name'') h)
      else do {
        assert_that (sz \<le> length mem);
        let name = take (sz - 2) (drop 2 mem) @ replicate (GLOBALNAME_LENGTH - (sz - 2)) 0;
        update_name name source h })"

definition connect_command :: "bool \<Rightarrow> u8 list \<Rightarrow> nat \<Rightarrow> harbor \<Rightarrow> harbor option" where
  "connect_command wait mem sz h = do {
     assert_that (2 \<le> sz \<and> sz + 1 \<le> length mem);
     let buffer = take (sz - 1) (drop 2 mem);
     assert_that (0 \<in> set buffer);
     (fd, i) \<leftarrow> scan_ints int_range int_range (text_of buffer);
     if fd = 0 \<or> i \<le> 0 \<or> i \<ge> int REMOTE_MAX then Some (hout (H_log ''Invalid command'') h)
     else do {
       s \<leftarrow> arr_get (hb_s h) (nat i);
       if sl_fd s \<noteq> 0 then Some (hout (H_log ''Harbor alreay exist'') h)
       else do {
         h1 \<leftarrow> handshake (nat i) (hout (H_start fd) (set_slave (nat i) (s\<lparr>sl_fd := fd\<rparr>) h));
         if wait then Some (set_slave (nat i) (s\<lparr>sl_fd := fd, sl_status := St_handshake\<rparr>) h1)
         else dispatch_queue (nat i) (set_slave (nat i) (s\<lparr>sl_fd := fd, sl_status := St_header\<rparr>) h1) } } }"

definition harbor_command :: "u8 list \<Rightarrow> nat \<Rightarrow> u32 \<Rightarrow> harbor \<Rightarrow> harbor option" where
  "harbor_command mem sz source h = do {
     c \<leftarrow> arr_get mem 0;
     if c = 78 then name_command mem sz source h
     else if c = 83 then connect_command True mem sz h
     else if c = 65 then connect_command False mem sz h
     else Some (hout (H_log ''Unknown command'') h) }"

section \<open>The service\<close>

datatype harbor_in =
    In_socket socket_message
  | In_harbor "u8 list" nat u32
  | In_system u32 "u8 list" u32 int int "u8 list"
  | In_other int int u32

text \<open>\<open>In_system\<close>: source, name and handle of the destination, type, session and message.\<close>

definition socket_event :: "(nat \<Rightarrow> bool) \<Rightarrow> socket_message \<Rightarrow> harbor \<Rightarrow> harbor option" where
  "socket_event reach m h =
     (case sm_type m of
        S_DATA \<Rightarrow> do { h1 \<leftarrow> push_socket_data reach m h; Some (hout (H_free (sm_buffer m)) h1) }
      | S_ERROR \<Rightarrow> Some (case harbor_of h (sm_id m) of Some i \<Rightarrow> report_harbor_down i h | None \<Rightarrow> hout (H_log ''Unkown fd closed'') h)
      | S_CLOSE \<Rightarrow> Some (case harbor_of h (sm_id m) of Some i \<Rightarrow> report_harbor_down i h | None \<Rightarrow> hout (H_log ''Unkown fd closed'') h)
      | S_CONNECT \<Rightarrow> Some h
      | S_WARNING \<Rightarrow> Some (case harbor_of h (sm_id m) of Some i \<Rightarrow> hout (H_log ''message havn't send'') h | None \<Rightarrow> h)
      | _ \<Rightarrow> Some (hout (H_log ''recv invalid socket message'') h))"

definition mainloop :: "(nat \<Rightarrow> bool) \<Rightarrow> harbor_in \<Rightarrow> harbor \<Rightarrow> harbor option" where
  "mainloop reach x h =
     (case x of
        In_socket m \<Rightarrow> socket_event reach m h
      | In_harbor mem sz source \<Rightarrow> harbor_command mem sz source h
      | In_system source name handle type session msg \<Rightarrow> do {
          (kept, h1) \<leftarrow> (if handle = 0 then remote_send_name source name type session msg h
            else remote_send_handle source handle type session msg h);
          Some (if kept then h1 else hout (H_free msg) h1) }
      | In_other type session source \<Rightarrow>
          let h1 = hout (H_log ''recv invalid message'') h
          in Some (if session \<noteq> 0 \<and> type \<noteq> PT_ERROR then hout (H_send 0 source PT_ERROR session []) h1 else h1))"

definition harbor_init :: "string \<Rightarrow> harbor \<Rightarrow> (bool \<times> harbor) option" where
  "harbor_init args h = do {
     (i, slave) \<leftarrow> scan_ints int_range uint_range args;
     Some (if slave = 0 then (False, h) else (True, h\<lparr>hb_id := i, hb_slave := of_int slave\<rparr>)) }"

end
