(* ===== verification/HarborQueue.thy ===== *)
theory HarborQueue
  imports Harbor Fifo
begin

text \<open>
  The queues of the harbor service are first-in first-out queues, and draining one is a fold over its messages.
\<close>

definition queue_at :: "harbor_queue \<Rightarrow> nat \<Rightarrow> harbor_msg option" where
  "queue_at q i = hq_data q ! ((hq_head q + i) mod length (hq_data q))"

definition hq_ok :: "harbor_queue \<Rightarrow> bool" where
  "hq_ok q \<longleftrightarrow> 2 \<le> length (hq_data q) \<and> hq_head q < length (hq_data q) \<and> hq_tail q < length (hq_data q) \<and>
     (\<forall>i < ring_count q. queue_at q i \<noteq> None)"

definition queue_list :: "harbor_queue \<Rightarrow> harbor_msg list" where
  "queue_list q = map (\<lambda>i. the (queue_at q i)) [0..<ring_count q]"

lemma ring_count_tail: "hq_ok q \<Longrightarrow> (hq_head q + ring_count q) mod length (hq_data q) = hq_tail q \<and> ring_count q < length (hq_data q)"
  by (auto simp: hq_ok_def ring_count_def mod_if)

lemma new_queue_ok [simp]: "hq_ok new_queue" "queue_list new_queue = []"
  by (simp_all add: hq_ok_def queue_list_def new_queue_def ring_count_def DEFAULT_QUEUE_SIZE_def)

lemma expand_spec:
  assumes ok: "hq_ok q" and full: "(hq_tail q + 1) mod length (hq_data q) = hq_head q"
  shows "hq_ok (expand_ring q)" and "queue_list (expand_ring q) = queue_list q"
    and "(hq_tail (expand_ring q) + 1) mod length (hq_data (expand_ring q)) \<noteq> hq_head (expand_ring q)"
proof -
  let ?n = "length (hq_data q)"
  have rc: "ring_count q = ?n - 1"
    using ok full by (auto simp: hq_ok_def ring_count_def mod_if split: if_splits)
  have rc': "ring_count (expand_ring q) = ?n - 1" by (simp add: ring_count_def expand_ring_def Let_def)
  have n: "2 \<le> ?n" using ok by (simp add: hq_ok_def)
  have at: "queue_at (expand_ring q) i = queue_at q i" if "i < ?n - 1" for i
    using that by (simp add: queue_at_def expand_ring_def Let_def nth_append add.commute)
  have sz: "length (hq_data (expand_ring q)) = ?n - 1 + (?n + 1)" "hq_head (expand_ring q) = 0" "hq_tail (expand_ring q) = ?n - 1"
    by (simp_all add: expand_ring_def Let_def)
  show "hq_ok (expand_ring q)" using ok n at unfolding hq_ok_def rc rc' sz by auto
  show "queue_list (expand_ring q) = queue_list q" unfolding queue_list_def rc rc' using at by simp
  show "(hq_tail (expand_ring q) + 1) mod length (hq_data (expand_ring q)) \<noteq> hq_head (expand_ring q)"
    using n by (simp add: expand_ring_def Let_def)
qed

lemma write_spec:
  assumes ok: "hq_ok q" and room: "(hq_tail q + 1) mod length (hq_data q) \<noteq> hq_head q"
  shows "let q' = q\<lparr>hq_data := (hq_data q)[hq_tail q := Some m], hq_tail := (hq_tail q + 1) mod length (hq_data q)\<rparr>
    in hq_ok q' \<and> queue_list q' = queue_list q @ [m]"
proof -
  let ?n = "length (hq_data q)"
  let ?q = "q\<lparr>hq_data := (hq_data q)[hq_tail q := Some m], hq_tail := (hq_tail q + 1) mod ?n\<rparr>"
  have t: "(hq_head q + ring_count q) mod ?n = hq_tail q" "ring_count q < ?n" using ring_count_tail [OF ok] by simp_all
  have rc: "ring_count ?q = ring_count q + 1"
    using ok room by (auto simp: hq_ok_def ring_count_def mod_if split: if_splits)
  have hd: "hq_head q < ?n" using ok by (simp add: hq_ok_def)
  have md: "Suc (hq_tail q) mod ?n < ?n" using hd by (intro mod_less_divisor) linarith
  have old: "queue_at ?q i = queue_at q i" if "i < ring_count q" for i
  proof -
    have "(hq_head q + i) mod ?n \<noteq> hq_tail q" using mod_ring_inj [of i ?n "ring_count q" "hq_head q"] that t hd by auto
    then show ?thesis by (simp add: queue_at_def)
  qed
  have new: "queue_at ?q (ring_count q) = Some m" using t ok by (simp add: queue_at_def hq_ok_def)
  have "hq_ok ?q" using ok old new md unfolding hq_ok_def rc
    by (auto simp: less_Suc_eq)
  moreover have "queue_list ?q = queue_list q @ [m]" unfolding queue_list_def rc using old new by simp
  ultimately show ?thesis by simp
qed

lemma hq_push_spec:
  assumes "hq_ok q"
  shows "\<exists>q'. push_queue_msg m q = Some q' \<and> hq_ok q' \<and> queue_list q' = queue_list q @ [m]"
proof -
  have ne: "hq_data q \<noteq> []" using assms by (auto simp: hq_ok_def)
  let ?q = "if (hq_tail q + 1) mod length (hq_data q) = hq_head q then expand_ring q else q"
  have q: "hq_ok ?q" "queue_list ?q = queue_list q" "(hq_tail ?q + 1) mod length (hq_data ?q) \<noteq> hq_head ?q"
    using expand_spec [OF assms] assms by auto
  then have "hq_tail ?q < length (hq_data ?q)" by (simp add: hq_ok_def)
  then show ?thesis using write_spec [OF q(1,3), of m] q(2) ne by (auto simp: push_queue_msg_def Let_def)
qed

lemma hq_pop_empty: "hq_ok q \<Longrightarrow> queue_list q = [] \<Longrightarrow> pop_queue q = Some (None, q)"
  by (auto simp: queue_list_def pop_queue_def ring_count_def hq_ok_def split: if_splits)

lemma hq_pop_cons:
  assumes ok: "hq_ok q" and l: "queue_list q = m # ms"
  shows "\<exists>q'. pop_queue q = Some (Some m, q') \<and> hq_ok q' \<and> queue_list q' = ms \<and> ring_count q = Suc (ring_count q')"
proof -
  let ?n = "length (hq_data q)" let ?q = "q\<lparr>hq_head := (hq_head q + 1) mod ?n\<rparr>"
  have rc: "0 < ring_count q" using l by (cases "ring_count q") (simp_all add: queue_list_def)
  then have ne: "hq_head q \<noteq> hq_tail q" by (auto simp: ring_count_def)
  have hd: "hq_head q < ?n" using ok by (simp add: hq_ok_def)
  have rc': "ring_count q = Suc (ring_count ?q)" using ok ne rc by (auto simp: hq_ok_def ring_count_def mod_if split: if_splits)
  have at: "queue_at ?q i = queue_at q (Suc i)" for i by (simp add: queue_at_def mod_add_left_eq)
  have up: "[0..<Suc k] = 0 # map Suc [0..<k]" for k by (simp add: upt_conv_Cons map_Suc_upt del: upt_Suc)
  have "m = the (queue_at q 0) \<and> ms = map (\<lambda>i. the (queue_at q (Suc i))) [0..<ring_count ?q]"
    using l unfolding queue_list_def rc' up by (auto simp: comp_def)
  then have "m = the (queue_at q 0)" "ms = map (\<lambda>i. the (queue_at q (Suc i))) [0..<ring_count ?q]" by blast+
  moreover have "queue_at q 0 \<noteq> None" using ok rc by (simp add: hq_ok_def)
  ultimately have "pop_queue q = Some (Some m, ?q)" using ne hd by (auto simp: pop_queue_def queue_at_def)
  moreover have "(hq_head q + 1) mod ?n < ?n" using hd by (intro mod_less_divisor) linarith
  then have "hq_ok ?q" using ok rc' at unfolding hq_ok_def by (auto simp del: One_nat_def)
  moreover have "queue_list ?q = ms" using \<open>ms = _\<close> at by (simp add: queue_list_def)
  ultimately show ?thesis using rc' by blast
qed

interpretation hq: fifo push_queue_msg pop_queue queue_list hq_ok
proof unfold_locales
  show "\<exists>q'. push_queue_msg x q = Some q' \<and> hq_ok q' \<and> queue_list q' = queue_list q @ [x]" if "hq_ok q" for q x
    using hq_push_spec [OF that] .
  show "\<exists>q'. pop_queue q = Some (None, q') \<and> hq_ok q' \<and> queue_list q' = []" if "hq_ok q" "queue_list q = []" for q
    using hq_pop_empty [OF that] that by blast
  show "\<exists>q'. pop_queue q = Some (Some x, q') \<and> hq_ok q' \<and> queue_list q' = xs" if "hq_ok q" "queue_list q = x # xs" for q x xs
    using hq_pop_cons [OF that] by blast
qed

section \<open>Draining\<close>

fun fold_some :: "('a \<Rightarrow> 's \<Rightarrow> 's option) \<Rightarrow> 'a list \<Rightarrow> 's \<Rightarrow> 's option" where
  "fold_some f [] s = Some s"
| "fold_some f (x # xs) s = do { s1 \<leftarrow> f x s; fold_some f xs s1 }"

lemma fold_some_total: "(\<And>x s. f x s = Some (g x s)) \<Longrightarrow> fold_some f xs s = Some (fold g xs s)"
  by (induction xs arbitrary: s) simp_all

lemma length_queue_list: "length (queue_list q) = ring_count q"
  by (simp add: queue_list_def)

lemma hq_drain_spec:
  "hq_ok q \<Longrightarrow> n = ring_count q \<Longrightarrow> fold_some f (queue_list q) s = Some s' \<Longrightarrow>
   \<exists>q'. drain n f q s = Some (s', q') \<and> hq_ok q' \<and> queue_list q' = []"
proof (induction n arbitrary: q s)
  case 0
  then have "queue_list q = []" using length_queue_list [of q] by simp
  then show ?case using 0 by auto
next
  case (Suc n)
  then obtain m ms where l: "queue_list q = m # ms" using length_queue_list [of q] by (cases "queue_list q") auto
  from hq_pop_cons [OF Suc.prems(1) l] obtain q1 where q1: "pop_queue q = Some (Some m, q1)" "hq_ok q1" "queue_list q1 = ms" "ring_count q = Suc (ring_count q1)"
    by blast
  from Suc.prems(3) l obtain s1 where s1: "f m s = Some s1" "fold_some f ms s1 = Some s'" by (auto split: bind_splits)
  from Suc.IH [OF q1(2), of s1] q1 s1 Suc.prems(2) show ?case by auto
qed

lemma drain_all_spec:
  assumes "hq_ok q" and "fold_some f (queue_list q) s = Some s'"
  obtains q' where "drain_all f q s = Some (s', q')" "hq_ok q'" "queue_list q' = []"
  using hq_drain_spec [OF assms(1) refl assms(2)] by (auto simp: drain_all_def)

lemma fold_push:
  "hq_ok q \<Longrightarrow> \<exists>q'. fold_some push_queue_msg ms q = Some q' \<and> hq_ok q' \<and> queue_list q' = queue_list q @ ms"
proof (induction ms arbitrary: q)
  case Nil
  then show ?case by simp
next
  case (Cons m ms)
  from hq_push_spec [OF Cons.prems, of m] obtain q1 where "push_queue_msg m q = Some q1" "hq_ok q1" "queue_list q1 = queue_list q @ [m]" by blast
  then show ?case using Cons.IH [of q1] by auto
qed

lemma fold_hout: "fold (\<lambda>x. hout (g x)) xs h = h\<lparr>hb_outs := hb_outs h @ map g xs\<rparr>"
  by (induction xs arbitrary: h) (simp_all add: hout_def)

lemma release_queue_spec:
  assumes "\<forall>q'. q = Some q' \<longrightarrow> hq_ok q'"
  shows "release_queue q h = Some (h\<lparr>hb_outs := hb_outs h @ (case q of None \<Rightarrow> [] | Some q \<Rightarrow> map (\<lambda>m. H_free (hm_buffer m)) (queue_list q))\<rparr>)"
proof (cases q)
  case None
  then show ?thesis by (simp add: release_queue_def)
next
  case (Some q')
  have "fold_some (\<lambda>m h. Some (hout (H_free (hm_buffer m)) h)) (queue_list q') h = Some (fold (\<lambda>m. hout (H_free (hm_buffer m))) (queue_list q') h)"
    by (rule fold_some_total) simp
  with assms Some obtain q1 where "drain_all (\<lambda>m h. Some (hout (H_free (hm_buffer m)) h)) q' h = Some (fold (\<lambda>m. hout (H_free (hm_buffer m))) (queue_list q') h, q1)"
    by (metis drain_all_spec)
  then show ?thesis using Some by (simp add: release_queue_def fold_hout)
qed

end
