(* ===== verification/HarborStream.thy ===== *)
theory HarborStream
  imports HarborQueue
begin

text \<open>
  The bytes of a connection to another node: how they are cut into remote messages, however they arrive.
\<close>

section \<open>Cutting\<close>

definition body_length :: "u8 \<Rightarrow> u8 \<Rightarrow> u8 \<Rightarrow> nat" where
  "body_length a b c = unat a * 65536 + unat b * 256 + unat c"

text \<open>The bodies of the complete messages, and what is left over.\<close>

fun cut_remote :: "u8 list \<Rightarrow> u8 list list \<times> u8 list" where
  "cut_remote (z # a # b # c # s) =
     (let n = body_length a b c in
      if length s < n then ([], z # a # b # c # s)
      else let (ms, r) = cut_remote (drop n s) in (take n s # ms, r))"
| "cut_remote s = ([], s)"

text \<open>No message is longer than three bytes can say, none is shorter than its cookie.\<close>

fun safe_stream :: "u8 list \<Rightarrow> bool" where
  "safe_stream (z # a # b # c # s) \<longleftrightarrow>
     z = 0 \<and> HEADER_COOKIE_LENGTH \<le> body_length a b c \<and> (body_length a b c \<le> length s \<longrightarrow> safe_stream (drop (body_length a b c) s))"
| "safe_stream s \<longleftrightarrow> True"

lemma cut_short: "length s < 4 \<Longrightarrow> cut_remote s = ([], s)"
  by (cases s rule: cut_remote.cases) auto

definition stream_length :: "u8 list \<Rightarrow> nat" where
  "stream_length z = body_length (z ! 1) (z ! 2) (z ! 3)"

lemma four: "length z = 4 \<Longrightarrow> \<exists>a b c d. z = [a, b, c, d]"
  by (auto simp: eval_nat_numeral length_Suc_conv)

lemma cut_header:
  assumes "length z = 4"
  shows "cut_remote (z @ s) = (if length s < stream_length z then ([], z @ s)
      else let (ms, r) = cut_remote (drop (stream_length z) s) in (take (stream_length z) s # ms, r))"
    and "safe_stream (z @ s) \<longleftrightarrow> z ! 0 = 0 \<and> HEADER_COOKIE_LENGTH \<le> stream_length z \<and>
      (stream_length z \<le> length s \<longrightarrow> safe_stream (drop (stream_length z) s))"
proof -
  obtain a b c d where z: "z = [a, b, c, d]" using four [OF assms] by blast
  then show "cut_remote (z @ s) = (if length s < stream_length z then ([], z @ s)
      else let (ms, r) = cut_remote (drop (stream_length z) s) in (take (stream_length z) s # ms, r))"
    by (simp add: stream_length_def Let_def)
  show "safe_stream (z @ s) \<longleftrightarrow> z ! 0 = 0 \<and> HEADER_COOKIE_LENGTH \<le> stream_length z \<and>
      (stream_length z \<le> length s \<longrightarrow> safe_stream (drop (stream_length z) s))"
    using z by (simp add: stream_length_def)
qed

section \<open>The state of a connection\<close>

definition pending_bytes :: "slave \<Rightarrow> u8 list" where
  "pending_bytes s =
     (case sl_status s of
        St_header \<Rightarrow> take (sl_read s) (sl_size s)
      | St_content \<Rightarrow> sl_size s @ take (sl_read s) (the (sl_recv s))
      | _ \<Rightarrow> [])"

definition receiving :: "slave \<Rightarrow> bool" where
  "receiving s \<longleftrightarrow> length (sl_size s) = 4 \<and>
     (case sl_status s of
        St_header \<Rightarrow> sl_read s < 4
      | St_content \<Rightarrow> sl_size s ! 0 = 0 \<and> sl_length s = stream_length (sl_size s) \<and>
          (\<exists>r. sl_recv s = Some r \<and> length r = sl_length s) \<and> (sl_read s < sl_length s \<or> sl_read s = 0 \<and> sl_length s = 0)
      | _ \<Rightarrow> False)"

text \<open>What a message of another node makes the service do.\<close>

definition local_send :: "int \<Rightarrow> u8 list \<Rightarrow> harbor_out" where
  "local_send self m =
     (let n = length m - HEADER_COOKIE_LENGTH; c = message_to_header (drop n m)
      in H_send (rh_source c) ((rh_destination c AND REMOTE_MASK) OR push_bit 24 (of_int self))
        (remote_type (rh_destination c) OR TAG_DONTCOPY) (sint (rh_session c)) (take n m))"

definition refused :: "int \<Rightarrow> u8 list \<Rightarrow> harbor_out list" where
  "refused self m =
     (let c = message_to_header (drop (length m - HEADER_COOKIE_LENGTH) m)
      in (if remote_type (rh_destination c) \<noteq> PT_ERROR
          then [H_send ((rh_destination c AND REMOTE_MASK) OR push_bit 24 (of_int self)) (rh_source c) PT_ERROR (sint (rh_session c)) []] else []) @
        [H_log ''Unknown destination''])"

definition session_of :: "u8 list \<Rightarrow> int" where
  "session_of m = sint (rh_session (message_to_header (drop (length m - HEADER_COOKIE_LENGTH) m)))"

definition deliver :: "(nat \<Rightarrow> bool) \<Rightarrow> u8 list \<Rightarrow> harbor \<Rightarrow> harbor" where
  "deliver reach m h =
     h\<lparr>hb_outs := hb_outs h @ local_send (hb_id h) m # (if reach (length (hb_outs h)) \<and> 0 \<le> session_of m then [] else refused (hb_id h) m)\<rparr>"

lemma forward_deliver: "HEADER_COOKIE_LENGTH \<le> length m \<Longrightarrow> forward_local_message reach m h = Some (deliver reach m h)"
  by (simp add: forward_local_message_def deliver_def local_send_def refused_def session_of_def hout_def Let_def)

lemma deliver_fields [simp]:
  "hb_s (deliver reach m h) = hb_s h" "hb_id (deliver reach m h) = hb_id h" "hb_map (deliver reach m h) = hb_map h"
  "hb_slave (deliver reach m h) = hb_slave h"
  by (simp_all add: deliver_def)

lemma deliver_set_slave: "deliver reach m (set_slave i s h) = set_slave i s (deliver reach m h)"
  by (simp add: deliver_def set_slave_def)

lemma set_slave_simps [simp]:
  "hb_s (set_slave i s h) = (hb_s h)[i := s]" "hb_id (set_slave i s h) = hb_id h" "hb_outs (set_slave i s h) = hb_outs h"
  "hb_map (set_slave i s h) = hb_map h" "hb_slave (set_slave i s h) = hb_slave h"
  "set_slave i s (set_slave i s' h) = set_slave i s h"
  by (simp_all add: set_slave_def)

lemma memcpy_at_Some: "p + length ys \<le> length xs \<Longrightarrow> memcpy_at xs p ys = Some (take p xs @ ys @ drop (p + length ys) xs)"
  by (simp add: memcpy_at_def)

text \<open>The same connection with other bytes pending.\<close>

definition moved :: "slave \<Rightarrow> slave \<Rightarrow> u8 list \<Rightarrow> bool" where
  "moved s s' bs \<longleftrightarrow> sl_fd s' = sl_fd s \<and> sl_queue s' = sl_queue s \<and> receiving s' \<and> pending_bytes s' = bs"

lemma content_round:
  assumes i: "i < length (hb_s h)" "hb_s h ! i = s" and st: "sl_status s = St_content" and r: "receiving s"
    and safe: "safe_stream (pending_bytes s @ buf)"
  obtains (wait) s' where "content_part reach i buf h = Some (set_slave i s' h, None)" "moved s s' (pending_bytes s @ buf)"
      "cut_remote (pending_bytes s @ buf) = ([], pending_bytes s @ buf)"
  | (whole) s' m rest where "content_part reach i buf h = Some (set_slave i s' (deliver reach m h), if rest = [] then None else Some rest)"
      "moved s s' []" "sl_status s' = St_header" "safe_stream rest" "length rest \<le> length buf"
      "cut_remote (pending_bytes s @ buf) = (let (ms, t) = cut_remote rest in (m # ms, t))"
proof -
  obtain rv where v: "sl_recv s = Some rv" "length rv = sl_length s" "sl_read s \<le> sl_length s" "length (sl_size s) = 4"
    "sl_length s = stream_length (sl_size s)" using r st by (auto simp: receiving_def)
  have p: "pending_bytes s = sl_size s @ take (sl_read s) rv" using st v by (simp add: pending_bytes_def)
  let ?all = "take (sl_read s) rv @ buf"
  have len: "length ?all = sl_read s + length buf" using v by simp
  have sf: "HEADER_COOKIE_LENGTH \<le> sl_length s" "sl_length s \<le> length ?all \<longrightarrow> safe_stream (drop (sl_length s) ?all)"
    using safe cut_header(2) [OF v(4), of ?all] v(5) unfolding p append_assoc by auto
  let ?need = "sl_length s - sl_read s"
  show ?thesis
  proof (cases "length buf < ?need")
    case True
    let ?r = "take (sl_read s) rv @ buf @ drop (sl_read s + length buf) rv"
    let ?s = "s\<lparr>sl_recv := Some ?r, sl_read := sl_read s + length buf\<rparr>"
    have "memcpy_at rv (sl_read s) buf = Some ?r" by (rule memcpy_at_Some) (use True v in linarith)
    then have c: "content_part reach i buf h = Some (set_slave i ?s h, None)" using True i v by (simp add: content_part_def)
    have "moved s ?s (pending_bytes s @ buf)" using True v st r
      by (simp add: moved_def receiving_def pending_bytes_def) linarith
    moreover have "cut_remote (pending_bytes s @ buf) = ([], pending_bytes s @ buf)"
    proof -
      have "length ?all < stream_length (sl_size s)" unfolding len using True v(5) by linarith
      then show ?thesis using cut_header(1) [OF v(4), of ?all] unfolding p append_assoc by simp
    qed
    ultimately show ?thesis using wait c by blast
  next
    case False
    let ?m = "take (sl_read s) rv @ take ?need buf" let ?rest = "drop ?need buf"
    let ?s = "s\<lparr>sl_length := 0, sl_read := 0, sl_recv := None, sl_status := St_header\<rparr>"
    have "memcpy_at rv (sl_read s) (take ?need buf) = Some (take (sl_read s) rv @ take ?need buf @ drop (sl_read s + length (take ?need buf)) rv)"
      by (rule memcpy_at_Some) (use False v in simp)
    moreover have "drop (sl_read s + length (take ?need buf)) rv = []" using False v by simp
    ultimately have mc: "memcpy_at rv (sl_read s) (take ?need buf) = Some ?m" by simp
    have lm: "length ?m = sl_length s" using False v by simp
    have c: "content_part reach i buf h = Some (set_slave i ?s (deliver reach ?m h), if ?rest = [] then None else Some ?rest)"
      using False i v mc forward_deliver [of ?m reach h] sf(1) lm by (simp add: content_part_def Let_def)
    have tk: "take (sl_length s) ?all = ?m" "drop (sl_length s) ?all = ?rest" using False v by (simp_all add: min_def)
    have "moved s ?s []" using v by (simp add: moved_def receiving_def pending_bytes_def)
    moreover have "safe_stream ?rest" using sf(2) False len v(3) tk by simp
    moreover have "cut_remote (pending_bytes s @ buf) = (let (ms, t) = cut_remote ?rest in (?m # ms, t))"
    proof -
      have "\<not> length ?all < stream_length (sl_size s)" unfolding len using False v(5) by linarith
      then show ?thesis using cut_header(1) [OF v(4), of ?all] tk v(5) unfolding p append_assoc by simp
    qed
    ultimately show ?thesis using whole [OF c] by simp
  qed
qed

lemma header_round:
  assumes i: "i < length (hb_s h)" "hb_s h ! i = s" and st: "sl_status s = St_header" and r: "receiving s"
    and safe: "safe_stream (pending_bytes s @ buf)"
  obtains (wait) s' where "header_part i buf h = Some (set_slave i s' h, None)" "moved s s' (pending_bytes s @ buf)"
      "cut_remote (pending_bytes s @ buf) = ([], pending_bytes s @ buf)"
  | (whole) s' rest where "header_part i buf h = Some (set_slave i s' h, if rest = [] then None else Some rest)"
      "moved s s' (pending_bytes s')" "sl_status s' = St_content" "pending_bytes s' @ rest = pending_bytes s @ buf" "length rest < length buf" "length (pending_bytes s') = 4"
proof -
  have v: "sl_read s < 4" "length (sl_size s) = 4" using r st by (auto simp: receiving_def)
  have p: "pending_bytes s = take (sl_read s) (sl_size s)" using st by (simp add: pending_bytes_def)
  let ?need = "4 - sl_read s"
  show ?thesis
  proof (cases "length buf < ?need")
    case True
    let ?z = "take (sl_read s) (sl_size s) @ buf @ drop (sl_read s + length buf) (sl_size s)"
    let ?s = "s\<lparr>sl_size := ?z, sl_read := sl_read s + length buf\<rparr>"
    have "memcpy_at (sl_size s) (sl_read s) buf = Some ?z" by (rule memcpy_at_Some) (use True v in linarith)
    then have c: "header_part i buf h = Some (set_slave i ?s h, None)" using True i v by (simp add: header_part_def)
    have "moved s ?s (pending_bytes s @ buf)" using True v st by (simp add: moved_def receiving_def pending_bytes_def)
    moreover have "cut_remote (pending_bytes s @ buf) = ([], pending_bytes s @ buf)" by (rule cut_short) (use True v p in simp)
    ultimately show ?thesis using wait c by blast
  next
    case False
    let ?z = "take (sl_read s) (sl_size s) @ take ?need buf" let ?rest = "drop ?need buf"
    have "memcpy_at (sl_size s) (sl_read s) (take ?need buf) = Some (take (sl_read s) (sl_size s) @ take ?need buf @ drop (sl_read s + length (take ?need buf)) (sl_size s))"
      by (rule memcpy_at_Some) (use False v in simp)
    moreover have "drop (sl_read s + length (take ?need buf)) (sl_size s) = []" using False v by simp
    ultimately have mc: "memcpy_at (sl_size s) (sl_read s) (take ?need buf) = Some ?z" by simp
    have lz: "length ?z = 4" using False v by simp
    have zr: "?z @ ?rest = pending_bytes s @ buf" using p by simp
    have z0: "?z ! 0 = 0" using safe cut_header(2) [OF lz, of ?rest] unfolding zr by blast
    let ?n = "unat (?z ! 1) * 65536 + unat (?z ! 2) * 256 + unat (?z ! 3)"
    let ?s = "s\<lparr>sl_size := ?z, sl_length := ?n, sl_read := 0, sl_recv := Some (replicate ?n 0), sl_status := St_content\<rparr>"
    have c: "header_part i buf h = Some (set_slave i ?s h, if ?rest = [] then None else Some ?rest)"
      using False i v mc z0 by (simp add: header_part_def Let_def)
    have n: "?n = stream_length ?z" by (simp only: stream_length_def body_length_def)
    have "length (pending_bytes ?s) = 4" using lz by (simp add: pending_bytes_def)
    moreover have "receiving ?s" using lz z0 unfolding receiving_def n by auto
    then have "moved s ?s (pending_bytes ?s)" by (simp add: moved_def)
    moreover have "pending_bytes ?s @ ?rest = pending_bytes s @ buf" using zr by (simp add: pending_bytes_def)
    ultimately show ?thesis using whole [OF c] False v by simp
  qed
qed

section \<open>The loop\<close>

fun deliver_all :: "(nat \<Rightarrow> bool) \<Rightarrow> u8 list list \<Rightarrow> harbor \<Rightarrow> harbor" where
  "deliver_all reach [] h = h"
| "deliver_all reach (m # ms) h = deliver_all reach ms (deliver reach m h)"

lemma deliver_all_fields [simp]:
  "hb_s (deliver_all reach ms h) = hb_s h" "hb_id (deliver_all reach ms h) = hb_id h" "hb_map (deliver_all reach ms h) = hb_map h"
  "hb_slave (deliver_all reach ms h) = hb_slave h"
  by (induction ms arbitrary: h) simp_all

lemma deliver_all_set_slave: "deliver_all reach ms (set_slave i s h) = set_slave i s (deliver_all reach ms h)"
  by (induction ms arbitrary: h) (simp_all add: deliver_set_slave)

text \<open>A round from the header: nothing is left, or one message is delivered and some bytes are left, or none.\<close>

lemma status_round:
  assumes i: "i < length (hb_s h)" "hb_s h ! i = s" and st: "sl_status s = St_header \<or> sl_status s = St_content" and r: "receiving s"
    and safe: "safe_stream (pending_bytes s @ buf)"
  obtains (stop) s' ms where "data_step reach i buf h = Some (set_slave i s' (deliver_all reach ms h), None)"
      "moved s s' (snd (cut_remote (pending_bytes s @ buf)))" "ms = fst (cut_remote (pending_bytes s @ buf))"
  | (again) s' m rest where "data_step reach i buf h = Some (set_slave i s' (deliver reach m h), Some rest)"
      "moved s s' []" "sl_status s' = St_header" "safe_stream rest" "length rest \<le> length buf" "sl_status s = St_header \<Longrightarrow> length rest < length buf"
      "cut_remote (pending_bytes s @ buf) = (let (ms, t) = cut_remote rest in (m # ms, t))"
proof (cases "sl_status s = St_content")
  case True
  from i True r safe show ?thesis
  proof (cases rule: content_round [where reach = reach])
    case (wait s')
    show ?thesis by (rule stop [of s' "[]"]) (use wait i True in \<open>simp_all add: data_step_def\<close>)
  next
    case (whole s' m rest)
    have step: "data_step reach i buf h = Some (set_slave i s' (deliver reach m h), if rest = [] then None else Some rest)"
      using whole(1) i True by (simp add: data_step_def)
    show ?thesis
    proof (cases "rest = []")
      case e: True
      show ?thesis by (rule stop [of s' "[m]"]) (use step whole(2,6) e in simp_all)
    next
      case False
      show ?thesis by (rule again [OF _ whole(2-5) _ whole(6)]) (use step False True in simp_all)
    qed
  qed
next
  case False
  then have st: "sl_status s = St_header" using st by blast
  from i st r safe show ?thesis
  proof (cases rule: header_round)
    case (wait s')
    show ?thesis by (rule stop [of s' "[]"]) (use wait i st in \<open>simp_all add: data_step_def\<close>)
  next
    case (whole s1 rest1)
    show ?thesis
    proof (cases "rest1 = []")
      case e: True
      have step: "data_step reach i buf h = Some (set_slave i s1 h, None)" using whole(1) e i st by (simp add: data_step_def)
      have z: "length (pending_bytes s1) = 4" "pending_bytes s @ buf = pending_bytes s1 @ []" using whole(4,6) e by simp_all
      then have "HEADER_COOKIE_LENGTH \<le> stream_length (pending_bytes s1)" using safe cut_header(2) [OF z(1), of "[]"] by simp
      then have "cut_remote (pending_bytes s @ buf) = ([], pending_bytes s1)"
        using cut_header(1) [OF z(1), of "[]"] z(2) by (simp add: HEADER_COOKIE_LENGTH_def)
      then show ?thesis using step whole(2) by (intro stop [of s1 "[]"]) simp_all
    next
      case False
      have i1: "i < length (hb_s (set_slave i s1 h))" "hb_s (set_slave i s1 h) ! i = s1" using i by simp_all
      have r1: "receiving s1" using whole(2) by (simp add: moved_def)
      have safe1: "safe_stream (pending_bytes s1 @ rest1)" using safe whole(4) by simp
      have dd: "data_step reach i buf h = content_part reach i rest1 (set_slave i s1 h)" using whole(1) False i st by (simp add: data_step_def)
      from i1 whole(3) r1 safe1 show ?thesis
      proof (cases rule: content_round [where reach = reach])
        case w: (wait s')
        then show ?thesis using whole(2,4) dd by (intro stop [of s' "[]"]) (simp_all add: moved_def)
      next
        case w: (whole s' m rest)
        have mv: "moved s s' []" using w(2) whole(2) by (simp add: moved_def)
        have cut: "cut_remote (pending_bytes s @ buf) = (let (ms, t) = cut_remote rest in (m # ms, t))" using w(6) whole(4) by simp
        have step: "data_step reach i buf h = Some (set_slave i s' (deliver reach m h), if rest = [] then None else Some rest)"
          using w(1) dd by (simp add: deliver_set_slave)
        show ?thesis
        proof (cases "rest = []")
          case e: True
          show ?thesis by (rule stop [of s' "[m]"]) (use step mv cut e in simp_all)
        next
          case e: False
          show ?thesis by (rule again [OF _ mv w(3,4) _ _ cut]) (use step e w(5) whole(5) in simp_all)
        qed
      qed
    qed
  qed
qed

text \<open>The loop takes the bytes that came and delivers every message that is complete now.\<close>

lemma data_loop_stream:
  "i < length (hb_s h) \<Longrightarrow> sl_status (hb_s h ! i) = St_header \<or> sl_status (hb_s h ! i) = St_content \<Longrightarrow> receiving (hb_s h ! i) \<Longrightarrow>
   safe_stream (pending_bytes (hb_s h ! i) @ buf) \<Longrightarrow> (if sl_status (hb_s h ! i) = St_header then 0 else 1) + length buf < n \<Longrightarrow>
   \<exists>s'. data_loop n reach i buf h = Some (set_slave i s' (deliver_all reach (fst (cut_remote (pending_bytes (hb_s h ! i) @ buf))) h)) \<and>
     moved (hb_s h ! i) s' (snd (cut_remote (pending_bytes (hb_s h ! i) @ buf)))"
proof (induction n arbitrary: buf h)
  case 0
  then show ?case by simp
next
  case (Suc n)
  from Suc.prems(1) refl Suc.prems(2-4) show ?case
  proof (cases rule: status_round [where reach = reach])
    case (stop s' ms)
    then show ?thesis by auto
  next
    case (again s' m rest)
    let ?h = "set_slave i s' (deliver reach m h)"
    have s': "hb_s ?h ! i = s'" "i < length (hb_s ?h)" using Suc.prems(1) by simp_all
    have p: "pending_bytes s' = []" "receiving s'" using again(2) by (simp_all add: moved_def)
    have le: "length rest < n" using again(5,6) Suc.prems(5) by (auto split: if_splits)
    from Suc.IH [of ?h rest] s' p again(3,4) le
    obtain s2 where s2: "data_loop n reach i rest ?h = Some (set_slave i s2 (deliver_all reach (fst (cut_remote rest)) ?h))"
      "moved s' s2 (snd (cut_remote rest))" by auto
    have "moved (hb_s h ! i) s2 (snd (cut_remote rest))" using again(2) s2(2) by (simp add: moved_def)
    moreover have "fst (cut_remote (pending_bytes (hb_s h ! i) @ buf)) = m # fst (cut_remote rest)"
      "snd (cut_remote (pending_bytes (hb_s h ! i) @ buf)) = snd (cut_remote rest)" using again(7) by (simp_all add: Let_def split: prod.split)
    ultimately show ?thesis using s2(1) again(1) by (auto simp: deliver_all_set_slave)
  qed
qed

end
