(* ===== verification/HarborRemote.thy ===== *)
theory HarborRemote
  imports HarborStream
begin

text \<open>
  Messages between two nodes: what one harbor service writes to a connection is what the other one delivers.
\<close>

section \<open>Numbers of the cookie\<close>

lemma from_to_bigendian: "from_bigendian (to_bigendian x @ s) 0 = x"
proof (rule bit_eqI)
  fix n assume "possible_bit TYPE(32 word) n"
  then have n: "n < 32" by simp
  consider "n < 8" | k where "n = k + 8" "k < 8" | k where "n = k + 16" "k < 8" | k where "n = k + 24" "k < 8"
  proof -
    have "n = (n - 8) + 8 \<and> n - 8 < 8 \<or> n = (n - 16) + 16 \<and> n - 16 < 8 \<or> n = (n - 24) + 24 \<and> n - 24 < 8 \<or> n < 8" using n by linarith
    then show ?thesis using that by blast
  qed
  then show "bit (from_bigendian (to_bigendian x @ s) 0) n = bit x n"
    by cases (simp_all add: from_bigendian_def to_bigendian_def bit_simps add.commute)
qed

lemma from_bigendian_drop: "from_bigendian bs i = from_bigendian (drop i bs) 0" if "i + 3 < length bs"
  using that by (simp add: from_bigendian_def)

lemma length_to_bigendian [simp]: "length (to_bigendian x) = 4"
  by (simp add: to_bigendian_def)

lemma message_header_roundtrip: "message_to_header (header_to_message c) = c"
proof -
  have "from_bigendian (header_to_message c) 0 = rh_source c" by (simp add: header_to_message_def from_to_bigendian)
  moreover have "from_bigendian (header_to_message c) 4 = rh_destination c"
    using from_bigendian_drop [of 4 "header_to_message c"] by (simp add: header_to_message_def from_to_bigendian)
  moreover have "from_bigendian (header_to_message c) 8 = rh_session c"
    using from_bigendian_drop [of 8 "header_to_message c"] from_to_bigendian [of "rh_session c" "[]"] by (simp add: header_to_message_def)
  ultimately show ?thesis by (simp add: message_to_header_def)
qed

lemma length_header [simp]: "length (header_to_message c) = HEADER_COOKIE_LENGTH"
  by (simp add: header_to_message_def HEADER_COOKIE_LENGTH_def)

lemma unat_byte: "unat (ucast (x :: u32) :: u8) = unat x mod 256"
  by (simp add: unsigned_ucast_eq unsigned_take_bit_eq take_bit_eq_mod)

lemma byte_of_zero: "unat x < 2 ^ 24 \<Longrightarrow> ucast (drop_bit 24 (x :: u32)) = (0 :: u8)"
  using unat_byte [of "drop_bit 24 x"] unat_shiftr [of 24 x] by (intro word_unat_eq_iff [THEN iffD2]) simp

lemma three_digits: "n < 2 ^ 24 \<Longrightarrow> n div 65536 mod 256 * 65536 + n div 256 mod 256 * 256 + n mod 256 = (n :: nat)"
proof -
  assume "n < 2 ^ 24"
  then have "n div 65536 < 256" by (simp add: less_mult_imp_div_less)
  moreover have "n div 65536 = n div 256 div 256" by (simp add: div_mult2_eq)
  moreover have "n div 256 * 256 + n mod 256 = n" "n div 256 div 256 * 256 + n div 256 mod 256 = n div 256" by (rule div_mult_mod_eq)+
  moreover have "n div 65536 mod 256 = n div 65536" using \<open>n div 65536 < 256\<close> by simp
  ultimately show ?thesis by linarith
qed

lemma length_field:
  assumes "n < 2 ^ 24"
  shows "to_bigendian (of_nat n) ! 0 = 0" and "stream_length (to_bigendian (of_nat n)) = n"
proof -
  let ?x = "of_nat n :: u32"
  have x: "unat ?x = n" using assms by (simp add: unat_of_nat)
  show "to_bigendian ?x ! 0 = 0" using byte_of_zero [of ?x] x assms by (simp add: to_bigendian_def)
  have s: "unat (drop_bit 16 ?x) = n div 65536" "unat (drop_bit 8 ?x) = n div 256" using unat_shiftr [of 16 ?x] unat_shiftr [of 8 ?x] x by simp_all
  have "stream_length (to_bigendian ?x) = n div 65536 mod 256 * 65536 + n div 256 mod 256 * 256 + n mod 256"
    unfolding stream_length_def body_length_def to_bigendian_def by (simp add: unat_byte s x del: mod_less)
  then show "stream_length (to_bigendian ?x) = n" unfolding three_digits [OF assms] .
qed

section \<open>Packets\<close>

definition packet_fits :: "remote_header \<times> u8 list \<Rightarrow> bool" where
  "packet_fits p \<longleftrightarrow> length (snd p) + HEADER_COOKIE_LENGTH < 2 ^ 24"

definition packet_body :: "remote_header \<times> u8 list \<Rightarrow> u8 list" where
  "packet_body p = snd p @ header_to_message (fst p)"

definition packet_stream :: "(remote_header \<times> u8 list) list \<Rightarrow> u8 list" where
  "packet_stream ps = concat (map (\<lambda>p. remote_packet (fst p) (snd p)) ps)"

lemma packet_cut:
  assumes "packet_fits p"
  shows "cut_remote (remote_packet (fst p) (snd p) @ s) = (let (ms, t) = cut_remote s in (packet_body p # ms, t))"
    and "safe_stream (remote_packet (fst p) (snd p) @ s) \<longleftrightarrow> safe_stream s"
proof -
  let ?n = "length (snd p) + HEADER_COOKIE_LENGTH" let ?z = "to_bigendian (of_nat ?n)"
  have z: "length ?z = 4" "?z ! 0 = 0" "stream_length ?z = ?n" using length_field [of ?n] assms by (simp_all add: packet_fits_def)
  have r: "remote_packet (fst p) (snd p) @ s = ?z @ packet_body p @ s" by (simp add: remote_packet_def packet_body_def)
  have b: "length (packet_body p) = ?n" by (simp add: packet_body_def)
  show "cut_remote (remote_packet (fst p) (snd p) @ s) = (let (ms, t) = cut_remote s in (packet_body p # ms, t))"
    using cut_header(1) [OF z(1), of "packet_body p @ s"] z(3) b unfolding r by simp
  show "safe_stream (remote_packet (fst p) (snd p) @ s) \<longleftrightarrow> safe_stream s"
    using cut_header(2) [OF z(1), of "packet_body p @ s"] z(2,3) b unfolding r by simp
qed

lemma stream_cut:
  "\<forall>p \<in> set ps. packet_fits p \<Longrightarrow> cut_remote (packet_stream ps) = (map packet_body ps, []) \<and> safe_stream (packet_stream ps)"
  by (induction ps) (simp_all add: packet_stream_def packet_cut)

section \<open>Cutting in pieces\<close>

lemma cut_append: "cut_remote (a @ b) = (let (ms, t) = cut_remote a; (ns, u) = cut_remote (t @ b) in (ms @ ns, u))"
proof (induction a rule: cut_remote.induct)
  case (1 z a b' c s)
  let ?n = "body_length a b' c"
  show ?case
  proof (cases "length s < ?n")
    case False
    then have "\<not> length (s @ b) < ?n" by simp
    then show ?thesis using 1 [OF refl False] False by (simp add: Let_def split: prod.splits)
  qed simp
qed (simp_all add: Let_def split: prod.splits)

lemma safe_append: "safe_stream (a @ b) \<Longrightarrow> safe_stream a \<and> safe_stream (snd (cut_remote a) @ b)"
proof (induction a rule: cut_remote.induct)
  case (1 z a b' c s)
  let ?n = "body_length a b' c"
  show ?case
  proof (cases "length s < ?n")
    case True
    then show ?thesis using 1(2) by (simp add: Let_def)
  next
    case False
    then have "safe_stream (drop ?n s @ b)" using 1(2) by simp
    then show ?thesis using 1(1) [OF refl False] 1(2) False by (cases "cut_remote (drop ?n s)") simp
  qed
qed simp_all

section \<open>The receiver\<close>

definition socket_data :: "int \<Rightarrow> u8 list \<Rightarrow> harbor_in" where
  "socket_data fd d = In_socket \<lparr>sm_type = S_DATA, sm_id = fd, sm_ud = int (length d), sm_buffer = d\<rparr>"

definition receives :: "harbor \<Rightarrow> int \<Rightarrow> nat \<Rightarrow> bool" where
  "receives h fd i \<longleftrightarrow> harbor_of h fd = Some i \<and> i < length (hb_s h) \<and> receiving (hb_s h ! i)"

definition is_send :: "harbor_out \<Rightarrow> bool" where
  "is_send e = (case e of H_send s d t n b \<Rightarrow> True | _ \<Rightarrow> False)"

definition harbor_sends :: "harbor \<Rightarrow> harbor_out list" where
  "harbor_sends h = filter is_send (hb_outs h)"

lemma find_fd_update: "sl_fd s' = sl_fd (ss ! i) \<Longrightarrow> find_fd (ss[i := s']) fd is = find_fd ss fd is"
proof (induction "is")
  case (Cons a as)
  have "sl_fd (ss[i := s'] ! a) = sl_fd (ss ! a)" if "a < length ss" using that Cons.prems by (cases "a = i") simp_all
  then show ?case using Cons by auto
qed simp

lemma receiving_status: "receiving s \<Longrightarrow> sl_status s = St_header \<or> sl_status s = St_content"
  by (cases "sl_status s") (simp_all add: receiving_def)

lemma socket_data_step:
  assumes r: "receives h fd i" and safe: "safe_stream (pending_bytes (hb_s h ! i) @ d)"
  shows "\<exists>s'. mainloop reach (socket_data fd d) h =
      Some (hout (H_free d) (set_slave i s' (deliver_all reach (fst (cut_remote (pending_bytes (hb_s h ! i) @ d))) h))) \<and>
    moved (hb_s h ! i) s' (snd (cut_remote (pending_bytes (hb_s h ! i) @ d)))"
proof -
  have v: "i < length (hb_s h)" "receiving (hb_s h ! i)" "harbor_of h fd = Some i" using r by (simp_all add: receives_def)
  have "(if sl_status (hb_s h ! i) = St_header then 0 else 1) + length d < length d + 2" by simp
  from data_loop_stream [OF v(1) receiving_status [OF v(2)] v(2) safe this, of reach]
  obtain s' where s': "data_loop (length d + 2) reach i d h = Some (set_slave i s' (deliver_all reach (fst (cut_remote (pending_bytes (hb_s h ! i) @ d))) h))"
    "moved (hb_s h ! i) s' (snd (cut_remote (pending_bytes (hb_s h ! i) @ d)))" by blast
  have "push_socket_data reach \<lparr>sm_type = S_DATA, sm_id = fd, sm_ud = int (length d), sm_buffer = d\<rparr> h =
      Some (set_slave i s' (deliver_all reach (fst (cut_remote (pending_bytes (hb_s h ! i) @ d))) h))"
    using v(3) s'(1) by (simp add: push_socket_data_def del: data_loop.simps)
  then show ?thesis using s'(2) by (auto simp: mainloop_def socket_data_def socket_event_def)
qed

lemma hout_simps [simp]:
  "hb_s (hout e h) = hb_s h" "hb_id (hout e h) = hb_id h" "hb_map (hout e h) = hb_map h" "hb_slave (hout e h) = hb_slave h"
  "hb_outs (hout e h) = hb_outs h @ [e]"
  by (simp_all add: hout_def)

text \<open>The sends that a message of another node leads to when its destination is there.\<close>

definition local_sends :: "int \<Rightarrow> u8 list \<Rightarrow> harbor_out list" where
  "local_sends self m = local_send self m # (if 0 \<le> session_of m then [] else filter is_send (refused self m))"

lemma sends_deliver_all:
  "filter is_send (hb_outs (deliver_all (\<lambda>_. True) ms h)) = harbor_sends h @ concat (map (local_sends (hb_id h)) ms)"
proof (induction ms arbitrary: h)
  case Nil
  then show ?case by (simp add: harbor_sends_def)
next
  case (Cons m ms)
  have "is_send (local_send self m)" for self by (simp add: is_send_def local_send_def Let_def)
  then have "harbor_sends (deliver (\<lambda>_. True) m h) = harbor_sends h @ local_sends (hb_id h) m"
    by (simp add: harbor_sends_def deliver_def local_sends_def)
  then show ?case using Cons [of "deliver (\<lambda>_. True) m h"] by simp
qed

lemma receives_moved: "receives h fd i \<Longrightarrow> moved (hb_s h ! i) s' bs \<Longrightarrow> hb_s h' = (hb_s h)[i := s'] \<Longrightarrow> receives h' fd i \<and> pending_bytes (hb_s h' ! i) = bs"
  by (simp add: receives_def moved_def harbor_of_def find_fd_update)

lemma pending_cut: "receiving s \<Longrightarrow> safe_stream (pending_bytes s) \<Longrightarrow> cut_remote (pending_bytes s) = ([], pending_bytes s)"
proof -
  assume r: "receiving s" and safe: "safe_stream (pending_bytes s)"
  from receiving_status [OF r] show ?thesis
  proof
    assume "sl_status s = St_header"
    then show ?thesis using r by (intro cut_short) (simp add: pending_bytes_def receiving_def)
  next
    assume c: "sl_status s = St_content"
    then obtain rv where v: "sl_recv s = Some rv" "length rv = sl_length s" "length (sl_size s) = 4" "sl_length s = stream_length (sl_size s)"
      "sl_read s < sl_length s \<or> sl_length s = 0" using r by (auto simp: receiving_def)
    have p: "pending_bytes s = sl_size s @ take (sl_read s) rv" using c v by (simp add: pending_bytes_def)
    have "HEADER_COOKIE_LENGTH \<le> stream_length (sl_size s)" using safe cut_header(2) [OF v(3)] unfolding p by blast
    then show ?thesis using cut_header(1) [OF v(3), of "take (sl_read s) rv"] v unfolding p by (auto simp: HEADER_COOKIE_LENGTH_def)
  qed
qed

lemma receive_chunks:
  "receives h fd i \<Longrightarrow> safe_stream (pending_bytes (hb_s h ! i) @ concat ds) \<Longrightarrow>
   \<exists>h'. fold_some (\<lambda>d. mainloop (\<lambda>_. True) (socket_data fd d)) ds h = Some h' \<and> receives h' fd i \<and> hb_id h' = hb_id h \<and>
     harbor_sends h' = harbor_sends h @ concat (map (local_sends (hb_id h)) (fst (cut_remote (pending_bytes (hb_s h ! i) @ concat ds)))) \<and>
     pending_bytes (hb_s h' ! i) = snd (cut_remote (pending_bytes (hb_s h ! i) @ concat ds))"
proof (induction ds arbitrary: h)
  case Nil
  then show ?case using pending_cut [of "hb_s h ! i"] by (simp add: receives_def)
next
  case (Cons d ds)
  let ?p = "pending_bytes (hb_s h ! i)" let ?t = "snd (cut_remote (?p @ d))"
  have safe: "safe_stream (?p @ d)" "safe_stream (?t @ concat ds)" using safe_append [of "?p @ d" "concat ds"] Cons.prems(2) by simp_all
  from socket_data_step [OF Cons.prems(1) safe(1), of "\<lambda>_. True"] obtain s' where s':
    "mainloop (\<lambda>_. True) (socket_data fd d) h = Some (hout (H_free d) (set_slave i s' (deliver_all (\<lambda>_. True) (fst (cut_remote (?p @ d))) h)))"
    "moved (hb_s h ! i) s' ?t" by blast
  let ?h = "hout (H_free d) (set_slave i s' (deliver_all (\<lambda>_. True) (fst (cut_remote (?p @ d))) h))"
  have r: "receives ?h fd i" "pending_bytes (hb_s ?h ! i) = ?t" using receives_moved [OF Cons.prems(1) s'(2), of ?h] by simp_all
  have out: "harbor_sends ?h = harbor_sends h @ concat (map (local_sends (hb_id h)) (fst (cut_remote (?p @ d))))"
    using sends_deliver_all [of "fst (cut_remote (?p @ d))" h] by (simp add: harbor_sends_def is_send_def [of "H_free d"])
  have cut: "cut_remote (?p @ concat (d # ds)) = (fst (cut_remote (?p @ d)) @ fst (cut_remote (?t @ concat ds)), snd (cut_remote (?t @ concat ds)))"
    using cut_append [of "?p @ d" "concat ds"] by (simp add: Let_def split: prod.splits)
  from Cons.IH [OF r(1)] safe(2) r(2) s'(1) out cut show ?case by auto
qed

section \<open>The sender\<close>

text \<open>A message: source, destination, type, session and data.\<close>

type_synonym node_message = "u32 \<times> u32 \<times> int \<times> int \<times> u8 list"

definition system_message :: "u8 list \<Rightarrow> node_message \<Rightarrow> harbor_in" where
  "system_message name x = (case x of (source, destination, type, session, msg) \<Rightarrow> In_system source name destination type session msg)"

definition message_fits :: "nat \<Rightarrow> node_message \<Rightarrow> bool" where
  "message_fits i x = (case x of (source, destination, type, session, msg) \<Rightarrow>
     destination \<noteq> 0 \<and> remote_type destination = int i \<and> 0 \<le> type \<and> type < 256 \<and> - (2 ^ 31) \<le> session \<and> session < 2 ^ 31 \<and>
     length msg + HEADER_COOKIE_LENGTH < 2 ^ 24)"

definition message_packet :: "node_message \<Rightarrow> remote_header \<times> u8 list" where
  "message_packet x = (case x of (source, destination, type, session, msg) \<Rightarrow> (remote_cookie source destination type session, msg))"

definition message_send :: "node_message \<Rightarrow> harbor_out" where
  "message_send x = (case x of (source, destination, type, session, msg) \<Rightarrow> H_send source destination (type OR TAG_DONTCOPY) session msg)"

text \<open>
  What arrives: the message, and for one with a negative session an error to its source as well, unless it is an error itself.
\<close>

definition message_arrival :: "node_message \<Rightarrow> harbor_out list" where
  "message_arrival x = message_send x # (case x of (source, destination, type, session, msg) \<Rightarrow>
     if 0 \<le> session \<or> type = PT_ERROR then [] else [H_send destination source PT_ERROR session []])"

definition harbor_written :: "int \<Rightarrow> harbor_out list \<Rightarrow> u8 list" where
  "harbor_written fd es = concat (map (\<lambda>e. case e of H_write f bs \<Rightarrow> if f = fd then bs else [] | _ \<Rightarrow> []) es)"

definition connected :: "harbor \<Rightarrow> int \<Rightarrow> nat \<Rightarrow> bool" where
  "connected h fd i \<longleftrightarrow> i < length (hb_s h) \<and> sl_fd (hb_s h ! i) = fd \<and> fd \<noteq> 0 \<and> sl_status (hb_s h ! i) \<noteq> St_handshake \<and> hb_id h \<noteq> int i"

lemma send_connected:
  assumes c: "connected h fd i" and f: "message_fits i x"
  shows "mainloop reach (system_message name x) h =
    Some (h\<lparr>hb_outs := hb_outs h @ [H_write fd (remote_packet (fst (message_packet x)) (snd (message_packet x))), H_free (snd (message_packet x))]\<rparr>)"
proof -
  obtain source destination type session msg where x: "x = (source, destination, type, session, msg)" by (cases x)
  have "\<not> length msg + HEADER_COOKIE_LENGTH > 0xFFFFFFFF" using f by (simp add: x message_fits_def)
  then show ?thesis using c f
    by (simp add: x message_fits_def connected_def mainloop_def system_message_def remote_send_handle_def send_remote_def message_packet_def hout_def)
qed

lemma send_all_connected:
  "connected h fd i \<Longrightarrow> \<forall>x \<in> set xs. message_fits i x \<Longrightarrow>
   \<exists>h'. fold_some (\<lambda>x. mainloop reach (system_message name x)) xs h = Some h' \<and> connected h' fd i \<and>
     (\<exists>es. hb_outs h' = hb_outs h @ es \<and> harbor_written fd es = packet_stream (map message_packet xs))"
proof (induction xs arbitrary: h)
  case Nil
  then show ?case by (simp add: harbor_written_def packet_stream_def)
next
  case (Cons x xs)
  let ?es = "[H_write fd (remote_packet (fst (message_packet x)) (snd (message_packet x))), H_free (snd (message_packet x))]"
  let ?h = "h\<lparr>hb_outs := hb_outs h @ ?es\<rparr>"
  have c: "connected ?h fd i" using Cons.prems(1) by (simp add: connected_def)
  from Cons.IH [OF c] Cons.prems(2) obtain h' es where h': "fold_some (\<lambda>x. mainloop reach (system_message name x)) xs ?h = Some h'"
    "connected h' fd i" "hb_outs h' = hb_outs ?h @ es" "harbor_written fd es = packet_stream (map message_packet xs)" by auto
  have "fold_some (\<lambda>x. mainloop reach (system_message name x)) (x # xs) h = Some h'"
    using h'(1) send_connected [OF Cons.prems(1), of x reach name] Cons.prems(2) by simp
  moreover have "harbor_written fd (?es @ es) = packet_stream (map message_packet (x # xs))" using h'(4) by (simp add: harbor_written_def packet_stream_def)
  ultimately show ?case using h'(2,3) by (intro exI [of _ h'] conjI exI [of _ "?es @ es"]) simp_all
qed

text \<open>The destination with the type in its place, and back.\<close>

lemma mask_24: "REMOTE_MASK = mask 24"
  by (simp add: REMOTE_MASK_def mask_eq_exp_minus_1)

lemma cookie_type:
  assumes "0 \<le> t" "t < 256"
  shows "remote_type (push_bit 24 (of_int t) OR (d AND REMOTE_MASK)) = t"
proof -
  have "drop_bit 24 (push_bit 24 (of_int t) OR (d AND mask 24)) = (of_int t :: u32)"
  proof (rule bit_eqI)
    fix n assume "possible_bit TYPE(32 word) n"
    have "\<not> bit t n" if "8 \<le> n"
    proof -
      have "(2::int) ^ 8 \<le> 2 ^ n" using that by (intro power_increasing) simp_all
      then have "t < 2 ^ n" using assms by simp
      then show ?thesis using assms by (simp add: bit_iff_odd div_pos_pos_trivial)
    qed
    then show "bit (drop_bit 24 (push_bit 24 (of_int t) OR (d AND mask 24))) n = bit (of_int t :: u32) n"
      by (cases "n < 8") (auto simp: bit_simps)
  qed
  moreover have "uint (of_int t :: u32) = t" using assms by (simp add: uint_word_of_int)
  ultimately show ?thesis by (simp add: remote_type_def mask_24)
qed

lemma cookie_destination: "(push_bit 24 x OR (d AND REMOTE_MASK)) AND REMOTE_MASK OR push_bit 24 (of_int (remote_type d)) = d"
  unfolding remote_type_def mask_24
proof (rule bit_eqI)
  fix n assume "possible_bit TYPE(32 word) n"
  then show "bit ((push_bit 24 x OR d AND mask 24) AND mask 24 OR push_bit 24 (of_int (uint (drop_bit 24 d)))) n = bit d n"
    by (cases "n < 24") (auto simp: bit_simps)
qed

lemma sint_of_session: "- (2 ^ 31) \<le> s \<Longrightarrow> s < 2 ^ 31 \<Longrightarrow> sint (of_int s :: u32) = s"
  by (simp add: signed_of_int signed_take_bit_int_eq_self)

lemma local_sends_packet:
  assumes "message_fits i x"
  shows "local_sends (int i) (packet_body (message_packet x)) = message_arrival x"
proof -
  obtain source destination type session msg where x: "x = (source, destination, type, session, msg)" by (cases x)
  have v: "remote_type destination = int i" "0 \<le> type" "type < 256" "sint (of_int session :: u32) = session"
    using assms sint_of_session by (simp_all add: x message_fits_def)
  have d: "(push_bit 24 (of_int type) OR (destination AND REMOTE_MASK)) AND REMOTE_MASK OR push_bit 24 (of_int (int i)) = destination"
    using cookie_destination [of "of_int type" destination] v(1) by simp
  show ?thesis using v d cookie_type [of type destination]
    by (auto simp: x local_sends_def local_send_def refused_def session_of_def message_arrival_def packet_body_def message_packet_def message_send_def
        message_header_roundtrip remote_cookie_def is_send_def Let_def)
qed

section \<open>From node to node\<close>

text \<open>
  C24. What a node sends to another one arrives there, unchanged and in order: the messages for handles of node \<open>i\<close> that are given to a
  harbor service with an open connection to node \<open>i\<close> (types of one byte, fewer than \<open>2 ^ 24 - 12\<close> bytes each) are all written, and
  when the written bytes arrive at the harbor service of node \<open>i\<close>, cut into chunks in any way, it sends exactly these messages,
  with their sources, destinations, types, sessions and data, in the same order, and no byte is left over.  The code takes the session that
  \<open>skynet_send\<close> returns for its success: after a message with a negative session it also sends an error to the source, although the message
  was delivered (\<open>message_arrival\<close>), and for one with a session that is not negative it sends nothing more.
\<close>

theorem remote_messages_arrive:
  assumes sender: "connected g fa i" and msgs: "\<forall>x \<in> set xs. message_fits i x"
    and receiver: "receives h fb j" "pending_bytes (hb_s h ! j) = []" "hb_id h = int i"
  shows "\<exists>g' es. fold_some (\<lambda>x. mainloop reach (system_message name x)) xs g = Some g' \<and> hb_outs g' = hb_outs g @ es \<and>
    (\<forall>chunks. concat chunks = harbor_written fa es \<longrightarrow>
      (\<exists>h'. fold_some (\<lambda>d. mainloop (\<lambda>_. True) (socket_data fb d)) chunks h = Some h' \<and>
         harbor_sends h' = harbor_sends h @ concat (map message_arrival xs) \<and> pending_bytes (hb_s h' ! j) = []))"
proof -
  from send_all_connected [OF sender msgs, of reach name] obtain g' es where
    g': "fold_some (\<lambda>x. mainloop reach (system_message name x)) xs g = Some g'" "hb_outs g' = hb_outs g @ es"
    "harbor_written fa es = packet_stream (map message_packet xs)" by blast
  have fits: "\<forall>p \<in> set (map message_packet xs). packet_fits p"
    using msgs by (auto simp: message_fits_def packet_fits_def message_packet_def)
  have "map (local_sends (hb_id h) \<circ> (packet_body \<circ> message_packet)) xs = map message_arrival xs"
    using msgs local_sends_packet receiver(3) by simp
  then have sent: "concat (map (local_sends (hb_id h) \<circ> (packet_body \<circ> message_packet)) xs) = concat (map message_arrival xs)" by (simp only:)
  have "\<exists>h'. fold_some (\<lambda>d. mainloop (\<lambda>_. True) (socket_data fb d)) chunks h = Some h' \<and>
      harbor_sends h' = harbor_sends h @ concat (map message_arrival xs) \<and> pending_bytes (hb_s h' ! j) = []" if c: "concat chunks = harbor_written fa es" for chunks
    using receive_chunks [OF receiver(1), of chunks] stream_cut [OF fits] receiver(2) c g'(3) sent by auto
  then show ?thesis using g'(1,2) by blast
qed

definition node_one :: harbor where
  "node_one = harbor_create\<lparr>hb_id := 1, hb_slave := 0x01000002,
     hb_s := (replicate REMOTE_MAX slave_zero)[2 := slave_zero\<lparr>sl_fd := 10, sl_status := St_header\<rparr>]\<rparr>"

definition node_two :: harbor where
  "node_two = harbor_create\<lparr>hb_id := 2, hb_slave := 0x02000002,
     hb_s := (replicate REMOTE_MAX slave_zero)[1 := slave_zero\<lparr>sl_fd := 11, sl_status := St_header\<rparr>]\<rparr>"

lemma node_one_connected: "connected node_one 10 2"
  by (simp add: connected_def node_one_def REMOTE_MAX_def)

lemma node_two_receives: "receives node_two 11 1 \<and> pending_bytes (hb_s node_two ! 1) = [] \<and> hb_id node_two = int 2"
proof -
  have "[1..<REMOTE_MAX] = 1 # [2..<REMOTE_MAX]" by (simp add: REMOTE_MAX_def upt_conv_Cons)
  then show ?thesis
    by (simp add: receives_def harbor_of_def node_two_def receiving_def slave_zero_def pending_bytes_def) (simp add: REMOTE_MAX_def)
qed

theorem remote_messages_arrive_witness:
  "let xs = [(0x01000005, 0x02000007, 1, 3, [65, 66]), (0x01000005, 0x02000009, 0, - 1, [])] in
   \<exists>g' es. fold_some (\<lambda>x. mainloop (\<lambda>_. True) (system_message [] x)) xs node_one = Some g' \<and> hb_outs g' = hb_outs node_one @ es \<and>
    (\<forall>chunks. concat chunks = harbor_written 10 es \<longrightarrow>
      (\<exists>h'. fold_some (\<lambda>d. mainloop (\<lambda>_. True) (socket_data 11 d)) chunks node_two = Some h' \<and>
         harbor_sends h' = harbor_sends node_two @ concat (map message_arrival xs) \<and> pending_bytes (hb_s h' ! 1) = []))"
proof -
  have f: "\<forall>x \<in> set [(0x01000005, 0x02000007, 1, 3, [65, 66]), (0x01000005, 0x02000009, 0, - 1, [])]. message_fits 2 x"
    by (simp add: message_fits_def remote_type_def HEADER_COOKIE_LENGTH_def)
  show ?thesis unfolding Let_def
    by (rule remote_messages_arrive [OF node_one_connected f]) (use node_two_receives in simp_all)
qed

end
