(* ===== verification/HarborConnect.thy ===== *)
theory HarborConnect
  imports HarborRemote
begin

text \<open>
  Connecting to another node: the messages that wait for it, the commands of the slave service, and the handshake.
\<close>

section \<open>Reading numbers\<close>

lemma dec_digits: "set (dec_str n) \<subseteq> {c. digit_val 10 c \<noteq> None}"
proof (induction n rule: dec_str.induct)
  case (1 n)
  then show ?case by (cases "n < 10") (simp_all add: dec_str.simps [of n] digit_val_dec)
qed

lemma dec_str_ne: "dec_str n \<noteq> []"
  by (simp add: dec_str.simps [of n])

lemma digit_no_space: "digit_val 10 c \<noteq> None \<Longrightarrow> \<not> is_space c \<and> c \<noteq> CHR ''-'' \<and> c \<noteq> CHR ''+'' \<and> of_char c \<noteq> (0::nat)"
  by (auto simp: digit_val_def is_space_def Let_def split: if_splits)

lemma read_dec_stop: "t = [] \<or> digit_val 10 (hd t) = None \<Longrightarrow> read_digits 10 (dec_str n @ t) 0 = (n, t)"
  using read_digits_dec [of n "[]" 0] by (cases t) (simp_all add: read_digits_dec)

lemma scan_number_str:
  assumes "t = [] \<or> digit_val 10 (hd t) = None"
  shows "scan_number (int_str i @ t) = Some (i, t)"
proof -
  have s: "read_sign (dropWhile is_space (int_str i @ t)) = (i < 0, dec_str (nat \<bar>i\<bar>) @ t)"
  proof (cases "i < 0")
    case True
    then show ?thesis by (simp add: int_str_def read_sign_def is_space_def)
  next
    case False
    obtain c cs where d: "dec_str (nat i) = c # cs" using dec_str_ne [of "nat i"] by (cases "dec_str (nat i)") auto
    then have "digit_val 10 c \<noteq> None" using dec_digits [of "nat i"] by auto
    then show ?thesis using False d digit_no_space [of c] by (simp add: int_str_def read_sign_def)
  qed
  have ne: "t \<noteq> dec_str (nat \<bar>i\<bar>) @ t" using dec_str_ne [of "nat \<bar>i\<bar>"] by simp
  show ?thesis using s read_dec_stop [OF assms, of "nat \<bar>i\<bar>"] ne by (simp add: scan_number_def)
qed

lemma scan_number_space: "scan_number (CHR '' '' # t) = scan_number t"
  by (simp add: scan_number_def is_space_def)

text \<open>A command of the slave service, as its format strings write it, with the NUL that ends the string.\<close>

definition connect_text :: "int \<Rightarrow> nat \<Rightarrow> string" where
  "connect_text fd i = int_str fd @ CHR '' '' # int_str (int i)"

definition connect_message :: "char \<Rightarrow> int \<Rightarrow> nat \<Rightarrow> u32 \<Rightarrow> harbor_in" where
  "connect_message c fd i source =
     In_harbor (chars (c # CHR '' '' # connect_text fd i) @ [0]) (length (connect_text fd i) + 2) source"

lemma int_str_no_nul: "c \<in> set (int_str i) \<Longrightarrow> of_char c \<noteq> (0::nat)"
  using dec_digits [of "nat i"] dec_digits [of "nat (- i)"] digit_no_space [of c] by (auto simp: int_str_def split: if_splits)

lemma text_of_chars:
  assumes "\<forall>c \<in> set s. of_char c \<noteq> (0::nat)"
  shows "text_of (chars s @ 0 # r) = s"
proof -
  have nz: "(of_nat (of_char c) :: u8) \<noteq> 0" "char_of (unat (of_nat (of_char c) :: u8)) = c" if "c \<in> set s" for c
  proof -
    have u: "unat (of_nat (of_char c) :: u8) = of_char c" by (simp add: unat_of_nat)
    then show "(of_nat (of_char c) :: u8) \<noteq> 0" using that assms by (metis unat_0)
    show "char_of (unat (of_nat (of_char c) :: u8)) = c" using u by simp
  qed
  have "takeWhile (\<lambda>b. b \<noteq> 0) (chars s @ 0 # r) = chars s"
    using nz(1) by (subst takeWhile_append2) (auto simp: chars_def)
  then show ?thesis using nz(2) by (simp add: text_of_def chars_def comp_def map_idI)
qed

lemma connect_scan:
  assumes "int_range fd = Some fd" "i < REMOTE_MAX"
  shows "scan_ints int_range int_range (text_of (chars (connect_text fd i) @ [0])) = Some (fd, int i)"
proof -
  have "text_of (chars (connect_text fd i) @ [0]) = connect_text fd i"
    by (rule text_of_chars) (auto simp: connect_text_def dest: int_str_no_nul)
  moreover have "scan_number (connect_text fd i) = Some (fd, CHR '' '' # int_str (int i))"
    unfolding connect_text_def by (rule scan_number_str) (simp add: digit_val_def)
  moreover have "scan_number (CHR '' '' # int_str (int i)) = Some (int i, [])"
    using scan_number_str [of "[]" "int i"] by (simp add: scan_number_space)
  moreover have "int_range (int i) = Some (int i)" using assms(2) by (simp add: int_range_def REMOTE_MAX_def)
  ultimately show ?thesis using assms(1) by (simp add: scan_ints_def)
qed

section \<open>Messages that wait\<close>

definition waiting :: "slave \<Rightarrow> harbor_msg list" where
  "waiting s = (case sl_queue s of None \<Rightarrow> [] | Some q \<Rightarrow> queue_list q)"

definition slave_queue_ok :: "slave \<Rightarrow> bool" where
  "slave_queue_ok s \<longleftrightarrow> (\<forall>q. sl_queue s = Some q \<longrightarrow> hq_ok q)"

definition message_msg :: "node_message \<Rightarrow> harbor_msg" where
  "message_msg x = \<lparr>hm_header = fst (message_packet x), hm_buffer = snd (message_packet x)\<rparr>"

definition queue_writes :: "int \<Rightarrow> harbor_msg list \<Rightarrow> harbor_out list" where
  "queue_writes fd ms = concat (map (\<lambda>m. [H_write fd (remote_packet (hm_header m) (hm_buffer m)), H_free (hm_buffer m)]) ms)"

definition msg_fits :: "harbor_msg \<Rightarrow> bool" where
  "msg_fits m \<longleftrightarrow> length (hm_buffer m) + HEADER_COOKIE_LENGTH < 2 ^ 24"

lemma waiting_new: "\<exists>q. push_queue_msg m (case sl_queue s of None \<Rightarrow> new_queue | Some q \<Rightarrow> q) = Some q \<and> hq_ok q \<and> queue_list q = waiting s @ [m]"
  if "slave_queue_ok s"
  using that hq_push_spec [of new_queue m] hq_push_spec [of _ m] by (cases "sl_queue s") (auto simp: waiting_def slave_queue_ok_def)

definition unconnected :: "harbor \<Rightarrow> nat \<Rightarrow> bool" where
  "unconnected h i \<longleftrightarrow> i < length (hb_s h) \<and> hb_id h \<noteq> int i \<and> slave_queue_ok (hb_s h ! i) \<and>
     (sl_fd (hb_s h ! i) = 0 \<and> sl_status (hb_s h ! i) \<noteq> St_down \<or> sl_status (hb_s h ! i) = St_handshake)"

lemma send_unconnected:
  assumes u: "unconnected h i" and f: "message_fits i x"
  shows "\<exists>q. mainloop reach (system_message name x) h = Some (set_slave i ((hb_s h ! i)\<lparr>sl_queue := Some q\<rparr>) h) \<and> hq_ok q \<and>
    queue_list q = waiting (hb_s h ! i) @ [message_msg x]"
proof -
  obtain source destination type session msg where x: "x = (source, destination, type, session, msg)" by (cases x)
  let ?s = "hb_s h ! i"
  have ok: "slave_queue_ok ?s" using u by (simp add: unconnected_def)
  from waiting_new [OF ok, of "message_msg x"] obtain q where q: "push_queue_msg (message_msg x) (case sl_queue ?s of None \<Rightarrow> new_queue | Some q \<Rightarrow> q) = Some q"
    "hq_ok q" "queue_list q = waiting ?s @ [message_msg x]" by blast
  have p: "push_queue msg (remote_cookie source destination type session) (case sl_queue ?s of None \<Rightarrow> new_queue | Some q \<Rightarrow> q) = Some q"
    using q(1) by (simp add: push_queue_def x message_msg_def message_packet_def)
  have "sl_status ?s \<noteq> St_down \<and> (sl_fd ?s = 0 \<or> sl_status ?s = St_handshake)" using u by (auto simp: unconnected_def)
  then have "mainloop reach (system_message name x) h = Some (set_slave i (?s\<lparr>sl_queue := Some q\<rparr>) h)"
    using u f p by (simp add: x message_fits_def unconnected_def mainloop_def system_message_def remote_send_handle_def Let_def)
  then show ?thesis using q(2,3) by blast
qed

text \<open>The same connection with more messages that wait.\<close>

definition more_waiting :: "slave \<Rightarrow> slave \<Rightarrow> harbor_msg list \<Rightarrow> bool" where
  "more_waiting s s' ms \<longleftrightarrow> slave_queue_ok s' \<and> waiting s' = waiting s @ ms \<and> s'\<lparr>sl_queue := sl_queue s\<rparr> = s"

lemma more_waiting_fields:
  assumes "more_waiting s s' ms"
  shows "sl_fd s' = sl_fd s" and "sl_status s' = sl_status s" and "sl_read s' = sl_read s" and "sl_size s' = sl_size s"
    and "waiting s' = waiting s @ ms" and "slave_queue_ok s'"
proof -
  have e: "s'\<lparr>sl_queue := sl_queue s\<rparr> = s" "waiting s' = waiting s @ ms" "slave_queue_ok s'" using assms unfolding more_waiting_def by blast+
  show "sl_fd s' = sl_fd s" "sl_status s' = sl_status s" "sl_read s' = sl_read s" "sl_size s' = sl_size s"
    using arg_cong [OF e(1), of sl_fd] arg_cong [OF e(1), of sl_status] arg_cong [OF e(1), of sl_read] arg_cong [OF e(1), of sl_size] by simp_all
  show "waiting s' = waiting s @ ms" "slave_queue_ok s'" by (rule e)+
qed

lemma send_all_unconnected:
  "unconnected h i \<Longrightarrow> \<forall>x \<in> set xs. message_fits i x \<Longrightarrow>
   \<exists>s'. fold_some (\<lambda>x. mainloop reach (system_message name x)) xs h = Some (set_slave i s' h) \<and> more_waiting (hb_s h ! i) s' (map message_msg xs)"
proof (induction xs arbitrary: h)
  case Nil
  then have "h = set_slave i (hb_s h ! i) h" by (simp add: set_slave_def)
  moreover have "more_waiting (hb_s h ! i) (hb_s h ! i) []" using Nil by (simp add: more_waiting_def unconnected_def)
  ultimately show ?case by (metis fold_some.simps(1) list.simps(8))
next
  case (Cons x xs)
  let ?s = "hb_s h ! i"
  from send_unconnected [OF Cons.prems(1), of x reach name] Cons.prems(2) obtain q where q:
    "mainloop reach (system_message name x) h = Some (set_slave i (?s\<lparr>sl_queue := Some q\<rparr>) h)" "hq_ok q" "queue_list q = waiting ?s @ [message_msg x]"
    by auto
  let ?s1 = "?s\<lparr>sl_queue := Some q\<rparr>"
  have i: "i < length (hb_s h)" using Cons.prems(1) by (simp add: unconnected_def)
  have u: "unconnected (set_slave i ?s1 h) i" using Cons.prems(1) q(2) by (simp add: unconnected_def slave_queue_ok_def)
  from Cons.IH [OF u] Cons.prems(2) i obtain s' where s': "fold_some (\<lambda>x. mainloop reach (system_message name x)) xs (set_slave i ?s1 h) = Some (set_slave i s' h)"
    "more_waiting ?s1 s' (map message_msg xs)" by auto
  have "waiting ?s1 = waiting ?s @ [message_msg x]" using q(3) by (simp add: waiting_def)
  moreover have "s'\<lparr>sl_queue := sl_queue ?s1\<rparr> = ?s1" using s'(2) unfolding more_waiting_def by blast
  then have "(s'\<lparr>sl_queue := sl_queue ?s1\<rparr>)\<lparr>sl_queue := sl_queue ?s\<rparr> = ?s1\<lparr>sl_queue := sl_queue ?s\<rparr>" by (rule arg_cong)
  then have "s'\<lparr>sl_queue := sl_queue ?s\<rparr> = ?s" by simp
  ultimately have "more_waiting ?s s' (map message_msg (x # xs))" using s'(2) by (simp add: more_waiting_def)
  then show ?case using q(1) s'(1) by auto
qed

lemma fold_send:
  "\<forall>m \<in> set ms. msg_fits (f m) \<Longrightarrow> \<forall>m. hm_buffer (f m) = hm_buffer m \<and> hm_header (f m) = g (hm_header m) \<Longrightarrow>
   fold_some (send_and_free fd g) ms h = Some (h\<lparr>hb_outs := hb_outs h @ queue_writes fd (map f ms)\<rparr>)"
proof (induction ms arbitrary: h)
  case (Cons m ms)
  have "\<not> length (hm_buffer m) + HEADER_COOKIE_LENGTH > 0xFFFFFFFF" using Cons.prems by (auto simp: msg_fits_def)
  then show ?case using Cons by (simp add: send_and_free_def send_remote_def queue_writes_def hout_def)
qed (simp add: queue_writes_def)

lemma dispatch_queue_spec:
  assumes "i < length (hb_s h)" "sl_fd (hb_s h ! i) = fd" "fd \<noteq> 0" "slave_queue_ok (hb_s h ! i)" "\<forall>m \<in> set (waiting (hb_s h ! i)). msg_fits m"
  shows "dispatch_queue i h = Some (set_slave i ((hb_s h ! i)\<lparr>sl_queue := None\<rparr>) (h\<lparr>hb_outs := hb_outs h @ queue_writes fd (waiting (hb_s h ! i))\<rparr>))"
proof (cases "sl_queue (hb_s h ! i)")
  case None
  then have e: "(hb_s h ! i)\<lparr>sl_queue := None\<rparr> = hb_s h ! i" by (cases "hb_s h ! i") simp
  show ?thesis unfolding e using assms None by (simp add: dispatch_queue_def waiting_def queue_writes_def set_slave_def)
next
  case (Some q)
  have q: "hq_ok q" "waiting (hb_s h ! i) = queue_list q" using assms(4) Some by (simp_all add: slave_queue_ok_def waiting_def)
  have "fold_some (send_and_free fd (\<lambda>c. c)) (queue_list q) h = Some (h\<lparr>hb_outs := hb_outs h @ queue_writes fd (queue_list q)\<rparr>)"
    using fold_send [of "queue_list q" "\<lambda>m. m" "\<lambda>c. c"] assms(5) q(2) by simp
  with q(1) obtain q1 where q1: "drain_all (send_and_free fd (\<lambda>c. c)) q h = Some (h\<lparr>hb_outs := hb_outs h @ queue_writes fd (queue_list q)\<rparr>, q1)"
    "hq_ok q1" "queue_list q1 = []" by (rule drain_all_spec)
  then show ?thesis using assms(1-3) Some q(2) release_queue_spec [of "Some q1"] by (simp add: dispatch_queue_def)
qed

section \<open>Connecting\<close>

lemma connect_step:
  assumes i: "i < length (hb_s h)" "0 < i" "i < REMOTE_MAX" and fd: "fd \<noteq> 0" "int_range fd = Some fd" "sl_fd (hb_s h ! i) = 0"
  shows "mainloop reach (connect_message c fd i source) h =
    (let h1 = h\<lparr>hb_outs := hb_outs h @ [H_start fd, H_write fd [of_int (hb_id h)]]\<rparr> in
     if c = CHR ''S'' then Some (set_slave i ((hb_s h ! i)\<lparr>sl_fd := fd, sl_status := St_handshake\<rparr>) h1)
     else if c = CHR ''A'' then dispatch_queue i (set_slave i ((hb_s h ! i)\<lparr>sl_fd := fd, sl_status := St_header\<rparr>) h1)
     else if c = CHR ''N'' then mainloop reach (connect_message c fd i source) h
     else Some (hout (H_log ''Unknown command'') h))"
proof -
  let ?t = "connect_text fd i"
  let ?mem = "chars (c # CHR '' '' # ?t) @ [0]"
  have mem: "?mem ! 0 = of_nat (of_char c)" "drop 2 ?mem = chars ?t @ [0]" "length ?mem = length ?t + 3"
    by (simp_all add: chars_def)
  have cmd: "connect_command w ?mem (length ?t + 2) h =
      (let h1 = hout (H_write fd [of_int (hb_id h)]) (hout (H_start fd) (set_slave i ((hb_s h ! i)\<lparr>sl_fd := fd\<rparr>) h))
       in if w then Some (set_slave i ((hb_s h ! i)\<lparr>sl_fd := fd, sl_status := St_handshake\<rparr>) h1)
          else dispatch_queue i (set_slave i ((hb_s h ! i)\<lparr>sl_fd := fd, sl_status := St_header\<rparr>) h1))" for w
  proof -
    have b: "take (length ?t + 2 - 1) (drop 2 ?mem) = chars ?t @ [0]" unfolding mem by (simp add: chars_def)
    have nz: "i \<noteq> 0" "\<not> int REMOTE_MAX \<le> int i" using i by simp_all
    have z: "0 \<in> set (chars ?t @ [0])" by simp
    have len: "2 \<le> length ?t + 2 \<and> length ?t + 2 + 1 \<le> length ?mem" unfolding mem by simp
    show ?thesis unfolding connect_command_def b Let_def using i fd nz len z connect_scan [OF fd(2) i(3)]
      by (simp add: handshake_def)
  qed
  have eq: "(of_nat (of_char c) = (of_nat (of_char d) :: u8)) = (c = d)" for d
  proof
    assume "of_nat (of_char c) = (of_nat (of_char d) :: u8)"
    then have "unat (of_nat (of_char c) :: u8) = unat (of_nat (of_char d) :: u8)" by simp
    then have "of_char c = (of_char d :: nat)" by (simp add: unat_of_nat)
    then show "c = d" by simp
  qed simp
  have ch: "(of_nat (of_char c) = (78 :: u8)) = (c = CHR ''N'')" "(of_nat (of_char c) = (83 :: u8)) = (c = CHR ''S'')"
    "(of_nat (of_char c) = (65 :: u8)) = (c = CHR ''A'')"
    using eq [of "CHR ''N''"] eq [of "CHR ''S''"] eq [of "CHR ''A''"] by simp_all
  have sl: "set_slave i s (h\<lparr>hb_outs := es\<rparr>) = (set_slave i s h)\<lparr>hb_outs := es\<rparr>" for s es by (simp add: set_slave_def)
  show ?thesis
    using mem cmd [of True] cmd [of False] ch
    by (auto simp: mainloop_def connect_message_def harbor_command_def Let_def hout_def sl set_slave_def)
qed

lemma connect_refused:
  assumes "i < length (hb_s h)" "0 < i" "i < REMOTE_MAX" "fd \<noteq> 0" "int_range fd = Some fd" "sl_fd (hb_s h ! i) \<noteq> 0"
  shows "mainloop reach (connect_message CHR ''A'' fd i source) h = Some (hout (H_log ''Harbor alreay exist'') h)"
proof -
  let ?t = "connect_text fd i" let ?mem = "chars (CHR ''A'' # CHR '' '' # ?t) @ [0]"
  have mem: "?mem ! 0 = 65" "length ?mem = length ?t + 3" "take (length ?t + 2 - 1) (drop 2 ?mem) = chars ?t @ [0]" by (simp_all add: chars_def)
  have "connect_command False ?mem (length ?t + 2) h = Some (hout (H_log ''Harbor alreay exist'') h)"
    unfolding connect_command_def mem(3) Let_def using assms mem(2) connect_scan [OF assms(5,3)] by simp
  then show ?thesis using mem(1,2) by (simp add: mainloop_def connect_message_def harbor_command_def)
qed

lemma find_fd_new: "find_fd ss fd is = None \<Longrightarrow> i \<in> set is \<Longrightarrow> i < length ss \<Longrightarrow> sl_fd s' = fd \<Longrightarrow> find_fd (ss[i := s']) fd is = Some i"
  by (induction "is") (auto simp: nth_list_update split: if_splits)

lemma harbor_of_new: "harbor_of h fd = None \<Longrightarrow> 0 < i \<Longrightarrow> i < REMOTE_MAX \<Longrightarrow> i < length (hb_s h) \<Longrightarrow> sl_fd s' = fd \<Longrightarrow> hb_s h' = (hb_s h)[i := s'] \<Longrightarrow> harbor_of h' fd = Some i"
  by (simp add: harbor_of_def find_fd_new)

text \<open>The byte of the handshake.\<close>

lemma header_part_nothing:
  assumes "i < length (hb_s h)" "sl_read (hb_s h ! i) < 4" "length (sl_size (hb_s h ! i)) = 4"
  shows "header_part i [] h = Some (h, None)"
proof -
  have "memcpy_at (sl_size (hb_s h ! i)) (sl_read (hb_s h ! i)) [] = Some (sl_size (hb_s h ! i))" using assms by (simp add: memcpy_at_def)
  moreover have "set_slave i (hb_s h ! i) h = h" by (simp add: set_slave_def)
  moreover have "(hb_s h ! i)\<lparr>sl_size := sl_size (hb_s h ! i), sl_read := sl_read (hb_s h ! i)\<rparr> = hb_s h ! i" by (cases "hb_s h ! i") simp
  ultimately show ?thesis using assms by (simp add: header_part_def)
qed

lemma handshake_step:
  assumes r: "harbor_of h fd = Some i" "i < length (hb_s h)" "i < REMOTE_MAX" "sl_fd (hb_s h ! i) = fd" "fd \<noteq> 0" "sl_status (hb_s h ! i) = St_handshake"
    and s: "sl_read (hb_s h ! i) = 0" "length (sl_size (hb_s h ! i)) = 4"
    and q: "slave_queue_ok (hb_s h ! i)" "\<forall>m \<in> set (waiting (hb_s h ! i)). msg_fits m"
  shows "mainloop reach (socket_data fd [of_nat i]) h =
    Some (set_slave i ((hb_s h ! i)\<lparr>sl_status := St_header, sl_queue := None\<rparr>)
      (h\<lparr>hb_outs := hb_outs h @ queue_writes fd (waiting (hb_s h ! i)) @ [H_free [of_nat i]]\<rparr>))"
proof -
  let ?s = "hb_s h ! i" let ?h = "set_slave i (?s\<lparr>sl_status := St_header\<rparr>) h"
  let ?e = "hb_outs h @ queue_writes fd (waiting ?s)"
  have d: "dispatch_queue i ?h = Some (set_slave i (?s\<lparr>sl_status := St_header, sl_queue := None\<rparr>) (h\<lparr>hb_outs := ?e\<rparr>))"
  proof -
    have w: "waiting (?s\<lparr>sl_status := St_header\<rparr>) = waiting ?s" "slave_queue_ok (?s\<lparr>sl_status := St_header\<rparr>) = slave_queue_ok ?s"
      by (simp_all add: waiting_def slave_queue_ok_def)
    show ?thesis using dispatch_queue_spec [of i ?h fd] r q w by (simp add: set_slave_def)
  qed
  let ?h1 = "set_slave i (?s\<lparr>sl_status := St_header, sl_queue := None\<rparr>) (h\<lparr>hb_outs := ?e\<rparr>)"
  have u: "unat (of_nat i :: u8) = i" using r(3) by (simp add: unat_of_nat REMOTE_MAX_def)
  have one: "data_step reach i [of_nat i] h = Some (?h1, Some [])"
    using r u d by (simp add: data_step_def handshake_part_def)
  have two: "data_step reach i [] ?h1 = Some (?h1, None)"
    using r header_part_nothing [of i ?h1] s by (simp add: data_step_def)
  have "data_loop (Suc (Suc (Suc 0))) reach i [of_nat i] h = Some ?h1" using one two by simp
  then have "push_socket_data reach \<lparr>sm_type = S_DATA, sm_id = fd, sm_ud = int (length [of_nat i :: u8]), sm_buffer = [of_nat i]\<rparr> h = Some ?h1"
    using r(1) by (simp add: push_socket_data_def eval_nat_numeral del: data_loop.simps)
  then show ?thesis by (simp add: mainloop_def socket_data_def socket_event_def hout_def set_slave_def)
qed

lemma fold_some_append: "fold_some f (xs @ ys) s = do { s1 \<leftarrow> fold_some f xs s; fold_some f ys s1 }"
  by (induction xs arbitrary: s) (auto split: bind_splits)

lemma fold_some_map: "fold_some f (map g xs) s = fold_some (\<lambda>x. f (g x)) xs s"
  by (induction xs arbitrary: s) (auto split: bind_splits)

section \<open>From the first message to the handshake\<close>

lemma message_fits_msg: "\<forall>x \<in> set xs. message_fits i x \<Longrightarrow> \<forall>m \<in> set (map message_msg xs). msg_fits m"
  by (auto simp: message_fits_def msg_fits_def message_msg_def message_packet_def)

lemma receiving_new: "receiving s" if "sl_status s = St_header" "sl_read s = 0" "length (sl_size s) = 4"
  using that by (simp add: receiving_def)

text \<open>
  C27. A connection that is started with \<open>S\<close>: the messages for the node that were given before the command and between the
  command and the answer of the other node all wait; when the byte of the handshake arrives they are written, in order, each
  followed by the release of its buffer, and nothing before them but the own byte of the handshake.  Afterwards the connection
  is open for sending and receiving.
\<close>

theorem handshake_sends_waiting:
  assumes i: "0 < i" "i < REMOTE_MAX" "i < length (hb_s h)" "hb_s h ! i = slave_zero" "hb_id h \<noteq> int i"
    and fd: "fd \<noteq> 0" "int_range fd = Some fd" "harbor_of h fd = None"
    and msgs: "\<forall>x \<in> set (xs @ ys). message_fits i x"
  shows "\<exists>h'. fold_some (mainloop reach) (map (system_message name) xs @ connect_message CHR ''S'' fd i source #
        map (system_message name) ys @ [socket_data fd [of_nat i]]) h = Some h' \<and>
      hb_outs h' = hb_outs h @ [H_start fd, H_write fd [of_int (hb_id h)]] @ queue_writes fd (map message_msg (xs @ ys)) @ [H_free [of_nat i]] \<and>
      connected h' fd i \<and> receives h' fd i \<and> pending_bytes (hb_s h' ! i) = []"
proof -
  have u: "unconnected h i" using i by (simp add: unconnected_def slave_queue_ok_def slave_zero_def)
  from send_all_unconnected [OF u, of xs reach name] msgs obtain s1 where s1:
    "fold_some (\<lambda>x. mainloop reach (system_message name x)) xs h = Some (set_slave i s1 h)" "more_waiting slave_zero s1 (map message_msg xs)"
    using i(4) by auto
  let ?h1 = "set_slave i s1 h"
  have z1: "sl_fd s1 = 0" "sl_read s1 = 0" "length (sl_size s1) = 4" "waiting s1 = map message_msg xs" "slave_queue_ok s1"
    using more_waiting_fields [OF s1(2)] by (simp_all add: slave_zero_def waiting_def)
  let ?s2 = "s1\<lparr>sl_fd := fd, sl_status := St_handshake\<rparr>"
  let ?h2 = "set_slave i ?s2 (h\<lparr>hb_outs := hb_outs h @ [H_start fd, H_write fd [of_int (hb_id h)]]\<rparr>)"
  have c: "mainloop reach (connect_message CHR ''S'' fd i source) ?h1 = Some ?h2"
    using connect_step [of i ?h1 fd reach "CHR ''S''" source] i fd z1(1) by (simp add: Let_def set_slave_def)
  have u2: "unconnected ?h2 i" using i z1(5) by (simp add: unconnected_def slave_queue_ok_def set_slave_def)
  from send_all_unconnected [OF u2, of ys reach name] msgs obtain s3 where s3:
    "fold_some (\<lambda>x. mainloop reach (system_message name x)) ys ?h2 = Some (set_slave i s3 ?h2)" "more_waiting ?s2 s3 (map message_msg ys)"
    using i(3) by (auto simp: set_slave_def)
  let ?h3 = "set_slave i s3 ?h2"
  have z3: "sl_fd s3 = fd" "sl_read s3 = 0" "length (sl_size s3) = 4" "sl_status s3 = St_handshake" "waiting s3 = map message_msg (xs @ ys)" "slave_queue_ok s3"
    using more_waiting_fields [OF s3(2)] z1 by (simp_all add: waiting_def)
  have hof: "harbor_of ?h3 fd = Some i" by (rule harbor_of_new [OF fd(3) i(1-3) z3(1)]) simp
  let ?s4 = "s3\<lparr>sl_status := St_header, sl_queue := None\<rparr>"
  let ?h4 = "set_slave i ?s4 (?h3\<lparr>hb_outs := hb_outs ?h3 @ queue_writes fd (map message_msg (xs @ ys)) @ [H_free [of_nat i]]\<rparr>)"
  have hs: "mainloop reach (socket_data fd [of_nat i]) ?h3 = Some ?h4"
  proof -
    have at: "hb_s ?h3 ! i = s3" using i(3) by simp
    show ?thesis using handshake_step [OF hof, unfolded at, of reach] i(2,3) fd(1) z3 message_fits_msg [OF msgs] by simp
  qed
  have "fold_some (mainloop reach) (map (system_message name) xs @ connect_message CHR ''S'' fd i source #
      map (system_message name) ys @ [socket_data fd [of_nat i]]) h = Some ?h4"
    using s1(1) c s3(1) hs by (simp add: fold_some_append fold_some_map)
  moreover have "hb_outs ?h4 = hb_outs h @ [H_start fd, H_write fd [of_int (hb_id h)]] @ queue_writes fd (map message_msg (xs @ ys)) @ [H_free [of_nat i]]"
    by simp
  moreover have "connected ?h4 fd i" using i(3,5) fd(1) z3(1) by (simp add: connected_def)
  moreover have "harbor_of ?h4 fd = Some i" by (rule harbor_of_new [OF fd(3) i(1-3), of ?s4]) (simp_all add: z3(1))
  then have "receives ?h4 fd i" using i(3) z3(2,3) by (simp add: receives_def receiving_new)
  moreover have "pending_bytes (hb_s ?h4 ! i) = []" using i(3) z3(2) by (simp add: pending_bytes_def)
  ultimately show ?thesis by blast
qed

text \<open>A connection that is accepted needs no answer.\<close>

lemma accept_sends_waiting:
  assumes i: "i < length (hb_s h)" "0 < i" "i < REMOTE_MAX" and fd: "fd \<noteq> 0" "int_range fd = Some fd" "sl_fd (hb_s h ! i) = 0"
    and q: "slave_queue_ok (hb_s h ! i)" "\<forall>m \<in> set (waiting (hb_s h ! i)). msg_fits m"
  shows "\<exists>h'. mainloop reach (connect_message CHR ''A'' fd i source) h = Some h' \<and>
    hb_outs h' = hb_outs h @ [H_start fd, H_write fd [of_int (hb_id h)]] @ queue_writes fd (waiting (hb_s h ! i))"
proof -
  let ?h1 = "set_slave i ((hb_s h ! i)\<lparr>sl_fd := fd, sl_status := St_header\<rparr>) (h\<lparr>hb_outs := hb_outs h @ [H_start fd, H_write fd [of_int (hb_id h)]]\<rparr>)"
  have "mainloop reach (connect_message CHR ''A'' fd i source) h = dispatch_queue i ?h1"
    using connect_step [OF i fd, of reach "CHR ''A''" source] by (simp add: Let_def)
  moreover have "waiting (hb_s ?h1 ! i) = waiting (hb_s h ! i)" "slave_queue_ok (hb_s ?h1 ! i)" "sl_fd (hb_s ?h1 ! i) = fd" "i < length (hb_s ?h1)"
    using i(1) q(1) by (simp_all add: waiting_def slave_queue_ok_def)
  ultimately show ?thesis using dispatch_queue_spec [of i ?h1 fd] fd(1) q(2) by simp
qed

section \<open>A connection that is closed\<close>

text \<open>
  C29. A peer whose length has a first byte that is not 0 is closed, but its descriptor stays in the table: a message for this
  node is written to the closed socket and freed, no error goes back to its source, and a new connection of the node is
  refused.
\<close>

theorem closed_node_swallows:
  assumes r: "receives h fd i" "sl_status (hb_s h ! i) = St_header" "pending_bytes (hb_s h ! i) = []" "sl_queue (hb_s h ! i) = None"
    and c: "connected h fd i" "0 < i" "i < REMOTE_MAX" and z: "z \<noteq> 0" and f: "message_fits i x" and fd': "fd' \<noteq> 0" "int_range fd' = Some fd'"
  shows "\<exists>h1. mainloop reach (socket_data fd [z, a, b, d]) h = Some h1 \<and> sl_status (hb_s h1 ! i) = St_down \<and>
      hb_outs h1 = hb_outs h @ [H_log ''Message is too long'', H_close fd, H_free [z, a, b, d]] \<and>
      (\<exists>h2. mainloop reach (system_message name x) h1 = Some h2 \<and>
         hb_outs h2 = hb_outs h1 @ [H_write fd (remote_packet (fst (message_packet x)) (snd (message_packet x))), H_free (snd (message_packet x))]) \<and>
      mainloop reach (connect_message CHR ''A'' fd' i source) h1 = Some (hout (H_log ''Harbor alreay exist'') h1)"
proof -
  let ?s = "hb_s h ! i"
  have s: "i < length (hb_s h)" "length (sl_size ?s) = 4" "sl_read ?s = 0" "harbor_of h fd = Some i" "sl_fd ?s = fd" "fd \<noteq> 0"
    using r c by (auto simp: receives_def receiving_def pending_bytes_def connected_def)
  let ?s1 = "?s\<lparr>sl_size := [z, a, b, d]\<rparr>"
  let ?e = "hb_outs h @ [H_log ''Message is too long'', H_close fd]"
  let ?h1 = "set_slave i (?s1\<lparr>sl_status := St_down, sl_queue := None\<rparr>) (h\<lparr>hb_outs := ?e @ [H_free [z, a, b, d]]\<rparr>)"
  have cl: "close_harbor i (hout (H_log ''Message is too long'') (set_slave i ?s1 h)) =
      Some (set_slave i (?s1\<lparr>sl_status := St_down, sl_queue := None\<rparr>) (h\<lparr>hb_outs := ?e\<rparr>))"
    using s r(4) by (simp add: close_harbor_def release_queue_def hout_def set_slave_def)
  have "header_part i [z, a, b, d] h = Some (set_slave i (?s1\<lparr>sl_status := St_down, sl_queue := None\<rparr>) (h\<lparr>hb_outs := ?e\<rparr>), None)"
    using s z cl by (simp add: header_part_def memcpy_at_def Let_def)
  then have "data_loop (Suc n) reach i [z, a, b, d] h = Some (set_slave i (?s1\<lparr>sl_status := St_down, sl_queue := None\<rparr>) (h\<lparr>hb_outs := ?e\<rparr>))" for n
    using s r(2) by (simp add: data_step_def)
  from this [of 5] have one: "mainloop reach (socket_data fd [z, a, b, d]) h = Some ?h1"
    using s(4) by (simp add: mainloop_def socket_data_def socket_event_def push_socket_data_def hout_def set_slave_def del: data_loop.simps)
  have c1: "connected ?h1 fd i" using c(1) s(1) by (simp add: connected_def)
  have three: "mainloop reach (connect_message CHR ''A'' fd' i source) ?h1 = Some (hout (H_log ''Harbor alreay exist'') ?h1)"
    using connect_refused [of i ?h1 fd' reach] s c(2,3) fd' by simp
  show ?thesis using one send_connected [OF c1 f, of reach name] three s(1) by (intro exI [of _ ?h1]) simp
qed

section \<open>Messages for a name\<close>

lemma same_name_refl [simp]: "same_name n n"
  by (simp add: same_name_def)

lemma name_bucket_less: "unat (name_hash name) mod HASH_SIZE < HASH_SIZE"
  by (simp add: HASH_SIZE_def)

text \<open>
  C28. A message for a name that is not known yet waits, and the slave service is asked for the name.  When the name turns out to
  belong to a node that is not connected yet, the message moves to the queue of this node without the handle of the name: once
  the node connects it is sent with the handle 0, and the other node sends it to nobody.
\<close>

theorem name_queue_loses_destination:
  assumes i: "0 < i" "i < REMOTE_MAX" "i < length (hb_s h)" "hb_s h ! i = slave_zero" "hb_id h \<noteq> int i"
    and fd: "fd \<noteq> 0" "int_range fd = Some fd"
    and handle: "remote_type handle = int i" "remote_type (hb_slave h) \<noteq> int i"
    and name: "0 < length nm" "length nm < GLOBALNAME_LENGTH" "hash_search (hb_map h) (nm @ replicate (GLOBALNAME_LENGTH - length nm) 0) = None"
    and m: "length (hb_map h) = HASH_SIZE" "0 \<le> type" "type < 256" "- (2 ^ 31) \<le> session" "session < 2 ^ 31" "length msg + HEADER_COOKIE_LENGTH < 2 ^ 24"
  shows "let name = nm @ replicate (GLOBALNAME_LENGTH - length nm) 0; c = remote_cookie source 0 type session in
    (\<exists>h'. fold_some (mainloop reach) [In_system source name 0 type session msg, In_harbor (chars ''N '' @ nm @ [0]) (length nm + 2) handle,
        connect_message CHR ''A'' fd i sl] h = Some h' \<and>
      hb_outs h' = hb_outs h @ [H_send 0 (hb_slave h) (uint PT_TEXT) 0 (name_query name), H_start fd, H_write fd [of_int (hb_id h)],
        H_write fd (remote_packet c msg), H_free msg]) \<and>
    local_send (int i) (packet_body (c, msg)) = H_send source (push_bit 24 (of_int (int i))) (type OR TAG_DONTCOPY) session msg"
proof -
  let ?name = "nm @ replicate (GLOBALNAME_LENGTH - length nm) 0" let ?c = "remote_cookie source 0 type session"
  let ?b = "unat (name_hash ?name) mod HASH_SIZE"
  let ?m = "\<lparr>hm_header = ?c, hm_buffer = msg\<rparr>"
  from hq_push_spec [of new_queue ?m] obtain q where q: "push_queue_msg ?m new_queue = Some q" "hq_ok q" "queue_list q = [?m]" by auto
  let ?n = "\<lparr>kv_key = ?name, kv_hash = name_hash ?name, kv_value = 0, kv_queue = Some q\<rparr>"
  let ?h1 = "h\<lparr>hb_map := (hb_map h)[?b := ?n # hb_map h ! ?b], hb_outs := hb_outs h @ [H_send 0 (hb_slave h) (uint PT_TEXT) 0 (name_query ?name)]\<rparr>"
  have one: "mainloop reach (In_system source ?name 0 type session msg) h = Some ?h1"
    using name(3) name_bucket_less [of ?name] m(1) q(1)
    by (simp add: mainloop_def remote_send_name_def find_or_insert_def hash_insert_def Let_def node_at_def set_node_def push_queue_def hout_def)
  let ?h2 = "(set_slave i (slave_zero\<lparr>sl_queue := Some q\<rparr>) ?h1)\<lparr>hb_map := (hb_map h)[?b := ?n\<lparr>kv_value := handle, kv_queue := None\<rparr> # hb_map h ! ?b]\<rparr>"
  have two: "mainloop reach (In_harbor (chars ''N '' @ nm @ [0]) (length nm + 2) handle) ?h1 = Some ?h2"
  proof -
    have s: "hash_search (hb_map ?h1) ?name = Some (?b, 0)" using name_bucket_less [of ?name] m(1) by (simp add: hash_search_def Let_def)
    have d: "dispatch_name_queue q handle (?h1\<lparr>hb_map := (hb_map h)[?b := ?n\<lparr>kv_value := handle\<rparr> # hb_map h ! ?b]\<rparr>) =
        Some (None, set_slave i (slave_zero\<lparr>sl_queue := Some q\<rparr>) (?h1\<lparr>hb_map := (hb_map h)[?b := ?n\<lparr>kv_value := handle\<rparr> # hb_map h ! ?b]\<rparr>))"
      using i handle by (simp add: dispatch_name_queue_def slave_zero_def)
    show ?thesis using s d name(1,2) name_bucket_less [of ?name] m(1)
      by (simp add: mainloop_def harbor_command_def chars_def name_command_def update_name_def find_or_insert_def node_at_def set_node_def release_queue_def set_slave_def Let_def)
  qed
  have three: "\<exists>h'. mainloop reach (connect_message CHR ''A'' fd i sl) ?h2 = Some h' \<and>
      hb_outs h' = hb_outs ?h1 @ [H_start fd, H_write fd [of_int (hb_id h)], H_write fd (remote_packet ?c msg), H_free msg]"
    using accept_sends_waiting [of i ?h2 fd reach sl] i fd q(2,3) m(6)
    by (simp add: slave_zero_def slave_queue_ok_def waiting_def msg_fits_def queue_writes_def)
  have "remote_type (rh_destination ?c) = type" using cookie_type [OF m(2,3), of 0] by (simp add: remote_cookie_def)
  moreover have "rh_destination ?c AND REMOTE_MASK = 0"
    unfolding remote_cookie_def mask_24 by (simp, rule bit_eqI) (auto simp: bit_simps)
  ultimately have "local_send (int i) (packet_body (?c, msg)) = H_send source (push_bit 24 (of_int (int i))) (type OR TAG_DONTCOPY) session msg"
    using sint_of_session [OF m(4,5)] by (simp add: local_send_def packet_body_def message_header_roundtrip Let_def) (simp add: remote_cookie_def)
  moreover obtain h' where h': "mainloop reach (connect_message CHR ''A'' fd i sl) ?h2 = Some h'"
    "hb_outs h' = hb_outs ?h1 @ [H_start fd, H_write fd [of_int (hb_id h)], H_write fd (remote_packet ?c msg), H_free msg]"
    using three by blast
  have "fold_some (mainloop reach) [In_system source ?name 0 type session msg, In_harbor (chars ''N '' @ nm @ [0]) (length nm + 2) handle,
      connect_message CHR ''A'' fd i sl] h = Some h'"
    by (simp only: fold_some.simps one two h'(1) bind.bind_lunit)
  moreover have "hb_outs h' = hb_outs h @ [H_send 0 (hb_slave h) (uint PT_TEXT) 0 (name_query ?name), H_start fd, H_write fd [of_int (hb_id h)],
      H_write fd (remote_packet ?c msg), H_free msg]" using h'(2) by simp
  ultimately show ?thesis unfolding Let_def by blast
qed

section \<open>Examples\<close>

definition lone_node :: harbor where
  "lone_node = harbor_create\<lparr>hb_id := 1, hb_slave := 0x01000002\<rparr>"

lemma find_fd_none: "\<forall>i < length ss. sl_fd (ss ! i) \<noteq> fd \<Longrightarrow> find_fd ss fd is = None"
  by (induction "is") auto

lemma lone_node_free: "fd \<noteq> 0 \<Longrightarrow> harbor_of lone_node fd = None"
  by (simp add: harbor_of_def lone_node_def harbor_create_def find_fd_none slave_zero_def)

lemma lone_node_two:
  "0 < (2::nat) \<and> 2 < REMOTE_MAX \<and> 2 < length (hb_s lone_node) \<and> hb_s lone_node ! 2 = slave_zero \<and> hb_id lone_node \<noteq> int 2 \<and>
   (10::int) \<noteq> 0 \<and> int_range 10 = Some 10"
  by (simp add: lone_node_def harbor_create_def REMOTE_MAX_def int_range_def)

theorem handshake_sends_waiting_witness:
  "let xs = [(0x01000005, 0x02000007, 1, 3, [65, 66])]; ys = [(0x01000006, 0x02000009, 0, - 1, [])] in
   \<exists>h'. fold_some (mainloop (\<lambda>_. True)) (map (system_message []) xs @ connect_message CHR ''S'' 10 2 0x01000002 #
        map (system_message []) ys @ [socket_data 10 [of_nat 2]]) lone_node = Some h' \<and>
      hb_outs h' = hb_outs lone_node @ [H_start 10, H_write 10 [of_int (hb_id lone_node)]] @
        queue_writes 10 (map message_msg (xs @ ys)) @ [H_free [of_nat 2]] \<and>
      connected h' 10 2 \<and> receives h' 10 2 \<and> pending_bytes (hb_s h' ! 2) = []"
proof -
  have f: "\<forall>x \<in> set ([(0x01000005, 0x02000007, 1, 3, [65, 66])] @ [(0x01000006, 0x02000009, 0, - 1, [])]). message_fits 2 x"
    by (simp add: message_fits_def remote_type_def HEADER_COOKIE_LENGTH_def)
  show ?thesis unfolding Let_def
    by (rule handshake_sends_waiting [OF _ _ _ _ _ _ _ lone_node_free f]) (use lone_node_two in simp_all)
qed

theorem closed_node_swallows_witness:
  "\<exists>h1. mainloop (\<lambda>_. True) (socket_data 11 [1, 0, 0, 12]) node_two = Some h1 \<and> sl_status (hb_s h1 ! 1) = St_down \<and>
      hb_outs h1 = hb_outs node_two @ [H_log ''Message is too long'', H_close 11, H_free [1, 0, 0, 12]] \<and>
      (\<exists>h2. mainloop (\<lambda>_. True) (system_message [] (0x02000005, 0x01000007, 1, 3, [65])) h1 = Some h2 \<and>
         hb_outs h2 = hb_outs h1 @ [H_write 11 (remote_packet (fst (message_packet (0x02000005, 0x01000007, 1, 3, [65])))
           (snd (message_packet (0x02000005, 0x01000007, 1, 3, [65])))), H_free (snd (message_packet (0x02000005, 0x01000007, 1, 3, [65])))]) \<and>
      mainloop (\<lambda>_. True) (connect_message CHR ''A'' 12 1 0x02000002) h1 = Some (hout (H_log ''Harbor alreay exist'') h1)"
proof -
  have s: "sl_status (hb_s node_two ! 1) = St_header" "sl_queue (hb_s node_two ! 1) = None" "connected node_two 11 1" "0 < (1::nat)" "1 < REMOTE_MAX"
    by (simp_all add: node_two_def connected_def REMOTE_MAX_def slave_zero_def)
  have f: "message_fits 1 (0x02000005, 0x01000007, 1, 3, [65])" by (simp add: message_fits_def remote_type_def HEADER_COOKIE_LENGTH_def)
  show ?thesis
    by (rule closed_node_swallows [OF _ s(1) _ s(2-5) _ f]) (use node_two_receives in \<open>simp_all add: int_range_def\<close>)
qed

theorem name_queue_loses_destination_witness:
  "let name = [65] @ replicate (GLOBALNAME_LENGTH - length [65 :: u8]) 0; c = remote_cookie 0x01000005 0 1 3 in
    (\<exists>h'. fold_some (mainloop (\<lambda>_. True)) [In_system 0x01000005 name 0 1 3 [66], In_harbor (chars ''N '' @ [65] @ [0]) (length [65 :: u8] + 2) 0x02000007,
        connect_message CHR ''A'' 10 2 0x01000002] lone_node = Some h' \<and>
      hb_outs h' = hb_outs lone_node @ [H_send 0 (hb_slave lone_node) (uint PT_TEXT) 0 (name_query name), H_start 10, H_write 10 [of_int (hb_id lone_node)],
        H_write 10 (remote_packet c [66]), H_free [66]]) \<and>
    local_send (int 2) (packet_body (c, [66])) = H_send 0x01000005 (push_bit 24 (of_int (int 2))) (1 OR TAG_DONTCOPY) 3 [66]"
proof -
  have s: "hash_search (hb_map lone_node) ([65] @ replicate (GLOBALNAME_LENGTH - length [65 :: u8]) 0) = None"
    using name_bucket_less by (simp add: hash_search_def Let_def lone_node_def harbor_create_def)
  have h: "remote_type 0x02000007 = int 2" "remote_type (hb_slave lone_node) \<noteq> int 2" "length (hb_map lone_node) = HASH_SIZE"
    by (simp_all add: remote_type_def lone_node_def harbor_create_def)
  show ?thesis
    by (rule name_queue_loses_destination [OF _ _ _ _ _ _ _ h(1,2) _ _ s h(3)])
      (use lone_node_two in \<open>simp_all add: GLOBALNAME_LENGTH_def HEADER_COOKIE_LENGTH_def\<close>)
qed

end
