(* ===== verification/HarborInv.thy ===== *)
theory HarborInv
  imports HarborConnect "HOL-Library.Multiset"
begin

text \<open>
  The invariant of the harbor service, and that no input that respects it makes the service fail.
\<close>

section \<open>The invariant\<close>

definition slave_ok :: "slave \<Rightarrow> bool" where
  "slave_ok s \<longleftrightarrow> length (sl_size s) = 4 \<and> slave_queue_ok s \<and> (sl_status s = St_wait \<longleftrightarrow> sl_fd s = 0) \<and>
     (sl_status s = St_header \<or> sl_status s = St_content \<longrightarrow> receiving s) \<and>
     (sl_status s = St_wait \<or> sl_status s = St_handshake \<longrightarrow> sl_read s = 0) \<and>
     (sl_queue s \<noteq> None \<longrightarrow> sl_status s = St_wait \<or> sl_status s = St_handshake)"

definition node_ok :: "keyvalue \<Rightarrow> bool" where
  "node_ok n \<longleftrightarrow> (\<forall>q. kv_queue n = Some q \<longrightarrow> hq_ok q)"

definition harbor_inv :: "harbor \<Rightarrow> bool" where
  "harbor_inv h \<longleftrightarrow> length (hb_s h) = REMOTE_MAX \<and> length (hb_map h) = HASH_SIZE \<and> (\<forall>i < REMOTE_MAX. slave_ok (hb_s h ! i)) \<and>
     (\<forall>c \<in> set (hb_map h). \<forall>n \<in> set c. node_ok n)"

lemma harbor_inv_slave: "harbor_inv h \<Longrightarrow> i < REMOTE_MAX \<Longrightarrow> slave_ok (hb_s h ! i) \<and> i < length (hb_s h)"
  by (simp add: harbor_inv_def)

lemma harbor_inv_cong: "harbor_inv h \<Longrightarrow> hb_s h' = hb_s h \<Longrightarrow> hb_map h' = hb_map h \<Longrightarrow> harbor_inv h'"
  by (simp add: harbor_inv_def)

lemma harbor_inv_hout [simp]: "harbor_inv (hout e h) \<longleftrightarrow> harbor_inv h"
  by (simp add: harbor_inv_def)

lemma harbor_inv_outs [simp]: "harbor_inv (h\<lparr>hb_outs := es\<rparr>) \<longleftrightarrow> harbor_inv h"
  by (simp add: harbor_inv_def)

lemma harbor_inv_set: "harbor_inv h \<Longrightarrow> slave_ok s \<Longrightarrow> harbor_inv (set_slave i s h)"
  by (cases "i < length (hb_s h)") (auto simp: harbor_inv_def nth_list_update)

lemma set_slave_outs [simp]: "set_slave i s ((set_slave i s' h)\<lparr>hb_outs := es\<rparr>) = set_slave i s (h\<lparr>hb_outs := es\<rparr>)"
  by (simp add: set_slave_def)

lemma harbor_inv_create: "harbor_inv harbor_create"
  by (simp add: harbor_inv_def harbor_create_def slave_ok_def slave_zero_def slave_queue_ok_def)

section \<open>Buffers that are given up\<close>

text \<open>A buffer is given up when it is freed or sent without a copy.\<close>

definition gives :: "harbor_out \<Rightarrow> u8 list multiset" where
  "gives e = (case e of H_free b \<Rightarrow> {#b#} | H_send s d t n b \<Rightarrow> if bit t 16 then {#b#} else {#} | _ \<Rightarrow> {#})"

definition given :: "harbor_out list \<Rightarrow> u8 list multiset" where
  "given es = sum_list (map gives es)"

lemma given_simps [simp]: "given [] = {#}" "given (e # es) = gives e + given es" "given (xs @ ys) = given xs + given ys"
  by (simp_all add: given_def)

lemma bit_dontcopy [simp]: "bit (t OR TAG_DONTCOPY) 16"
  by (simp add: TAG_DONTCOPY_def bit_or_iff)

lemma gives_simps [simp]:
  "gives (H_free b) = {#b#}" "gives (H_send s d (t OR TAG_DONTCOPY) n b) = {#b#}" "gives (H_write f b) = {#}" "gives (H_close f) = {#}"
  "gives (H_start f) = {#}" "gives (H_log l) = {#}" "gives (H_send s d PT_ERROR n b) = {#}" "gives (H_send s d (uint PT_TEXT) n b) = {#}"
  by (simp_all add: gives_def PT_ERROR_def PT_TEXT_def)

definition queue_held :: "harbor_queue option \<Rightarrow> u8 list multiset" where
  "queue_held q = (case q of None \<Rightarrow> {#} | Some q \<Rightarrow> mset (map hm_buffer (queue_list q)))"

section \<open>The stream of a connection\<close>

text \<open>A length with a first byte that is not 0 closes the connection; only a body that is shorter than the cookie is fatal.\<close>

fun tolerable :: "u8 list \<Rightarrow> bool" where
  "tolerable (z # a # b # c # s) \<longleftrightarrow>
     z \<noteq> 0 \<or> HEADER_COOKIE_LENGTH \<le> body_length a b c \<and> (body_length a b c \<le> length s \<longrightarrow> tolerable (drop (body_length a b c) s))"
| "tolerable s \<longleftrightarrow> True"

lemma tolerable_header:
  assumes "length z = 4"
  shows "tolerable (z @ s) \<longleftrightarrow> z ! 0 \<noteq> 0 \<or> HEADER_COOKIE_LENGTH \<le> stream_length z \<and>
    (stream_length z \<le> length s \<longrightarrow> tolerable (drop (stream_length z) s))"
proof -
  obtain a b c d where "z = [a, b, c, d]" using four [OF assms] by blast
  then show ?thesis by (simp add: stream_length_def)
qed

text \<open>The messages that a stream completes, up to a length with a first byte that is not 0, and the data of one.\<close>

fun whole_messages :: "u8 list \<Rightarrow> u8 list list" where
  "whole_messages (z # a # b # c # s) =
     (if z \<noteq> 0 \<or> length s < body_length a b c then []
      else take (body_length a b c) s # whole_messages (drop (body_length a b c) s))"
| "whole_messages s = []"

definition payloads :: "u8 list list \<Rightarrow> u8 list multiset" where
  "payloads ms = mset (map (\<lambda>m. take (length m - HEADER_COOKIE_LENGTH) m) ms)"

lemma payloads_simps [simp]: "payloads [] = {#}" "payloads (m # ms) = {#take (length m - HEADER_COOKIE_LENGTH) m#} + payloads ms"
  "payloads (xs @ ys) = payloads xs + payloads ys"
  by (simp_all add: payloads_def)

lemma whole_short: "length s < 4 \<Longrightarrow> whole_messages s = []"
  by (cases s rule: whole_messages.cases) auto

lemma whole_header:
  assumes "length z = 4"
  shows "whole_messages (z @ s) = (if z ! 0 \<noteq> 0 \<or> length s < stream_length z then []
    else take (stream_length z) s # whole_messages (drop (stream_length z) s))"
proof -
  obtain a b c d where "z = [a, b, c, d]" using four [OF assms] by blast
  then show ?thesis by (simp add: stream_length_def)
qed

lemma given_delivery: "given (local_send self m # (if p then [] else refused self m)) = payloads [m]"
  by (simp add: local_send_def refused_def Let_def)

text \<open>A step of the loop: the connection is well-formed afterwards, has no queue, and nothing else changed; what is left has a tolerable
  rest, and it is a header; what is given up are the messages that are complete now.\<close>

definition good_step :: "nat \<Rightarrow> harbor \<Rightarrow> u8 list \<Rightarrow> u8 list \<Rightarrow> harbor \<times> u8 list option \<Rightarrow> bool" where
  "good_step i h pending buf r \<longleftrightarrow> (\<exists>s' es ms. fst r = set_slave i s' (h\<lparr>hb_outs := hb_outs h @ es\<rparr>) \<and> slave_ok s' \<and> sl_queue s' = None \<and>
     given es = payloads ms \<and> whole_messages (pending @ buf) = ms @ (case snd r of None \<Rightarrow> [] | Some rest \<Rightarrow> whole_messages rest) \<and>
     (\<forall>rest. snd r = Some rest \<longrightarrow> sl_status s' = St_header \<and> sl_read s' = 0 \<and> tolerable rest \<and> length rest \<le> length buf))"

lemma content_total:
  assumes i: "i < length (hb_s h)" "hb_s h ! i = s" and st: "sl_status s = St_content" and ok: "slave_ok s"
    and t: "tolerable (pending_bytes s @ buf)"
  shows "\<exists>r. content_part reach i buf h = Some r \<and> good_step i h (pending_bytes s) buf r"
proof -
  have r: "receiving s" and fd: "sl_fd s \<noteq> 0" "sl_queue s = None" using ok st by (auto simp: slave_ok_def)
  obtain rv where v: "sl_recv s = Some rv" "length rv = sl_length s" "sl_read s \<le> sl_length s" "length (sl_size s) = 4"
    "sl_length s = stream_length (sl_size s)" "sl_size s ! 0 = 0" using r st by (auto simp: receiving_def)
  let ?all = "take (sl_read s) rv @ buf"
  have p: "pending_bytes s @ buf = sl_size s @ ?all" using st v by (simp add: pending_bytes_def)
  have len: "length ?all = sl_read s + length buf" using v by simp
  have sf: "HEADER_COOKIE_LENGTH \<le> sl_length s" "sl_length s \<le> length ?all \<longrightarrow> tolerable (drop (sl_length s) ?all)"
    using t tolerable_header [OF v(4), of ?all] v(5,6) unfolding p by auto
  let ?need = "sl_length s - sl_read s"
  show ?thesis
  proof (cases "length buf < ?need")
    case True
    let ?r = "take (sl_read s) rv @ buf @ drop (sl_read s + length buf) rv"
    let ?s = "s\<lparr>sl_recv := Some ?r, sl_read := sl_read s + length buf\<rparr>"
    have "memcpy_at rv (sl_read s) buf = Some ?r" by (rule memcpy_at_Some) (use True v in linarith)
    then have c: "content_part reach i buf h = Some (set_slave i ?s h, None)" using True i v by (simp add: content_part_def)
    have rl: "length ?r = sl_length s" using True v by simp
    have "receiving ?s" using True v st rl by (auto simp: receiving_def)
    then have "slave_ok ?s" using ok st by (simp add: slave_ok_def slave_queue_ok_def)
    moreover have "length ?all < stream_length (sl_size s)" unfolding len using True v(5) by linarith
    then have "whole_messages (pending_bytes s @ buf) = []" unfolding p using whole_header [OF v(4), of ?all] by simp
    ultimately show ?thesis using c fd by (auto simp: good_step_def set_slave_def intro!: exI [of _ ?s] exI [of _ "[]"])
  next
    case False
    let ?m = "take (sl_read s) rv @ take ?need buf" let ?rest = "drop ?need buf"
    let ?s = "s\<lparr>sl_length := 0, sl_read := 0, sl_recv := None, sl_status := St_header\<rparr>"
    have "memcpy_at rv (sl_read s) (take ?need buf) = Some (take (sl_read s) rv @ take ?need buf @ drop (sl_read s + length (take ?need buf)) rv)"
      by (rule memcpy_at_Some) (use False v in simp)
    moreover have "drop (sl_read s + length (take ?need buf)) rv = []" using False v by simp
    ultimately have mc: "memcpy_at rv (sl_read s) (take ?need buf) = Some ?m" by simp
    have lm: "length ?m = sl_length s" using False v by simp
    have c: "content_part reach i buf h = Some (set_slave i ?s (deliver reach ?m h), if ?rest = [] then None else Some ?rest)"
      using False i v mc forward_deliver [of ?m reach h] sf(1) lm by (simp add: content_part_def Let_def)
    have dr: "drop (sl_length s) ?all = ?rest" "take (sl_length s) ?all = ?m" using False v by (simp_all add: min_def)
    then have "tolerable ?rest" using sf(2) False len v(3) by simp
    moreover have "whole_messages (pending_bytes s @ buf) = [?m] @ whole_messages ?rest"
    proof -
      have "\<not> length ?all < stream_length (sl_size s)" unfolding len using False v(5) by linarith
      then show ?thesis unfolding p using whole_header [OF v(4), of ?all] v(5,6) dr by simp
    qed
    moreover have "slave_ok ?s" using fd v ok by (simp add: slave_ok_def receiving_def slave_queue_ok_def)
    moreover have "whole_messages (if ?rest = [] then [] else ?rest) = whole_messages ?rest" by simp
    ultimately have "good_step i h (pending_bytes s) buf (set_slave i ?s (deliver reach ?m h), if ?rest = [] then None else Some ?rest)"
      unfolding good_step_def using fd
      by (intro exI [of _ ?s] exI [of _ "local_send (hb_id h) ?m # (if reach (length (hb_outs h)) \<and> 0 \<le> session_of ?m then [] else refused (hb_id h) ?m)"]
          exI [of _ "[?m]"] conjI) (simp_all only: given_delivery, simp_all add: deliver_def)
    then show ?thesis using c by blast
  qed
qed

lemma header_total:
  assumes i: "i < length (hb_s h)" "hb_s h ! i = s" and st: "sl_status s = St_header" and ok: "slave_ok s"
    and t: "tolerable (pending_bytes s @ buf)"
  shows "\<exists>s' es r. header_part i buf h = Some (set_slave i s' (h\<lparr>hb_outs := hb_outs h @ es\<rparr>), r) \<and> slave_ok s' \<and> sl_queue s' = None \<and> given es = {#} \<and>
    whole_messages (pending_bytes s @ buf) = (case r of None \<Rightarrow> [] | Some rest \<Rightarrow> whole_messages (pending_bytes s' @ rest)) \<and>
    (\<forall>rest. r = Some rest \<longrightarrow> sl_status s' = St_content \<and> es = [] \<and> rest \<noteq> [] \<and> tolerable (pending_bytes s' @ rest) \<and> length rest < length buf)"
proof -
  have v: "sl_read s < 4" "length (sl_size s) = 4" "sl_fd s \<noteq> 0" "sl_queue s = None"
    using ok st by (auto simp: slave_ok_def receiving_def)
  have p: "pending_bytes s = take (sl_read s) (sl_size s)" using st by (simp add: pending_bytes_def)
  let ?need = "4 - sl_read s"
  show ?thesis
  proof (cases "length buf < ?need")
    case True
    let ?z = "take (sl_read s) (sl_size s) @ buf @ drop (sl_read s + length buf) (sl_size s)"
    let ?s = "s\<lparr>sl_size := ?z, sl_read := sl_read s + length buf\<rparr>"
    have "memcpy_at (sl_size s) (sl_read s) buf = Some ?z" by (rule memcpy_at_Some) (use True v in linarith)
    then have "header_part i buf h = Some (set_slave i ?s (h\<lparr>hb_outs := hb_outs h @ []\<rparr>), None)" using True i v by (simp add: header_part_def set_slave_def)
    moreover have "slave_ok ?s" using True v st by (simp add: slave_ok_def receiving_def slave_queue_ok_def)
    moreover have "whole_messages (pending_bytes s @ buf) = []" by (rule whole_short) (use True v p in simp)
    ultimately show ?thesis using v(4) by (intro exI [of _ ?s] exI [of _ "[]"] exI [of _ None]) simp
  next
    case False
    let ?z = "take (sl_read s) (sl_size s) @ take ?need buf" let ?rest = "drop ?need buf"
    have "memcpy_at (sl_size s) (sl_read s) (take ?need buf) = Some (take (sl_read s) (sl_size s) @ take ?need buf @ drop (sl_read s + length (take ?need buf)) (sl_size s))"
      by (rule memcpy_at_Some) (use False v in simp)
    moreover have "drop (sl_read s + length (take ?need buf)) (sl_size s) = []" using False v by simp
    ultimately have mc: "memcpy_at (sl_size s) (sl_read s) (take ?need buf) = Some ?z" by simp
    have lz: "length ?z = 4" using False v by simp
    have zr: "?z @ ?rest = pending_bytes s @ buf" using p by simp
    show ?thesis
    proof (cases "?z ! 0 = 0")
      case z0: False
      let ?s = "s\<lparr>sl_size := ?z, sl_status := St_down, sl_queue := None\<rparr>"
      have "header_part i buf h = Some (set_slave i ?s (h\<lparr>hb_outs := hb_outs h @ [H_log ''Message is too long'', H_close (sl_fd s)]\<rparr>), None)"
        using False i v mc z0 by (simp add: header_part_def close_harbor_def release_queue_def hout_def set_slave_def)
      moreover have "slave_ok ?s" using lz v by (simp add: slave_ok_def slave_queue_ok_def)
      moreover have "whole_messages (pending_bytes s @ buf) = []" using whole_header [OF lz, of ?rest] z0 zr by simp
      ultimately show ?thesis
        by (intro exI [of _ ?s] exI [of _ "[H_log ''Message is too long'', H_close (sl_fd s)]"] exI [of _ None]) simp
    next
      case z0: True
      let ?n = "unat (?z ! 1) * 65536 + unat (?z ! 2) * 256 + unat (?z ! 3)"
      let ?s = "s\<lparr>sl_size := ?z, sl_length := ?n, sl_read := 0, sl_recv := Some (replicate ?n 0), sl_status := St_content\<rparr>"
      have n: "?n = stream_length ?z" by (simp only: stream_length_def body_length_def)
      have c: "header_part i buf h = Some (set_slave i ?s (h\<lparr>hb_outs := hb_outs h @ []\<rparr>), if ?rest = [] then None else Some ?rest)"
        using False i v mc z0 by (simp add: header_part_def Let_def set_slave_def)
      have "receiving ?s" using lz z0 unfolding receiving_def n by auto
      then have "slave_ok ?s" using lz v by (simp add: slave_ok_def slave_queue_ok_def)
      moreover have "tolerable (pending_bytes ?s @ ?rest)" using t zr by (simp add: pending_bytes_def)
      moreover have "?rest \<noteq> [] \<Longrightarrow> length ?rest < length buf" using v False by simp
      moreover have "?rest = [] \<Longrightarrow> whole_messages (pending_bytes s @ buf) = []" using whole_header [OF lz, of "[]"] t tolerable_header [OF lz, of "[]"] z0 zr
        by (auto simp: HEADER_COOKIE_LENGTH_def)
      moreover have "pending_bytes ?s @ ?rest = pending_bytes s @ buf" using zr by (simp add: pending_bytes_def)
      then have "whole_messages (pending_bytes s @ buf) = whole_messages (pending_bytes ?s @ ?rest)" by simp
      moreover have "sl_queue ?s = None" using v(4) by simp
      ultimately show ?thesis using c by (intro exI [of _ ?s] exI [of _ "[]"] exI [of _ "if ?rest = [] then None else Some ?rest"]) simp
    qed
  qed
qed

lemma step_total:
  assumes i: "i < length (hb_s h)" "hb_s h ! i = s" and st: "sl_status s = St_header \<or> sl_status s = St_content" and ok: "slave_ok s"
    and t: "tolerable (pending_bytes s @ buf)"
  shows "\<exists>r. data_step reach i buf h = Some r \<and> good_step i h (pending_bytes s) buf r \<and>
    (\<forall>rest. snd r = Some rest \<longrightarrow> sl_status s = St_header \<longrightarrow> length rest < length buf)"
proof (cases "sl_status s = St_content")
  case True
  then show ?thesis using content_total [OF i True ok t, of reach] i by (auto simp: data_step_def)
next
  case False
  then have hd: "sl_status s = St_header" using st by simp
  from header_total [OF i hd ok t] obtain s1 es r where r: "header_part i buf h = Some (set_slave i s1 (h\<lparr>hb_outs := hb_outs h @ es\<rparr>), r)" "slave_ok s1"
    "\<forall>rest. r = Some rest \<longrightarrow> sl_status s1 = St_content \<and> es = [] \<and> rest \<noteq> [] \<and> tolerable (pending_bytes s1 @ rest) \<and> length rest < length buf"
    "sl_queue s1 = None" "given es = {#}"
    "whole_messages (pending_bytes s @ buf) = (case r of None \<Rightarrow> [] | Some rest \<Rightarrow> whole_messages (pending_bytes s1 @ rest))" by blast
  show ?thesis
  proof (cases r)
    case None
    then have "good_step i h (pending_bytes s) buf (set_slave i s1 (h\<lparr>hb_outs := hb_outs h @ es\<rparr>), None)"
      using r(2,4-6) unfolding good_step_def by (intro exI [of _ s1] exI [of _ es] exI [of _ "[]"]) simp
    then show ?thesis using r(1) None i hd by (simp add: data_step_def)
  next
    case (Some rest)
    let ?h = "set_slave i s1 h"
    have rr: "sl_status s1 = St_content" "es = []" "tolerable (pending_bytes s1 @ rest)" "length rest < length buf" using r(3) Some by simp_all
    have "data_step reach i buf h = content_part reach i rest ?h" using r(1) Some rr(2) i hd by (simp add: data_step_def)
    moreover have at: "i < length (hb_s ?h)" "hb_s ?h ! i = s1" using i by simp_all
    from content_total [OF at rr(1) r(2) rr(3), of reach] obtain r2 where r2: "content_part reach i rest ?h = Some r2" "good_step i ?h (pending_bytes s1) rest r2" by blast
    have "good_step i h (pending_bytes s) buf r2"
    proof -
      from r2(2) obtain s' es ms where e: "fst r2 = set_slave i s' (?h\<lparr>hb_outs := hb_outs ?h @ es\<rparr>)" "slave_ok s'" "sl_queue s' = None" "given es = payloads ms"
        "whole_messages (pending_bytes s1 @ rest) = ms @ (case snd r2 of None \<Rightarrow> [] | Some rest2 \<Rightarrow> whole_messages rest2)"
        "\<forall>rest2. snd r2 = Some rest2 \<longrightarrow> sl_status s' = St_header \<and> sl_read s' = 0 \<and> tolerable rest2 \<and> length rest2 \<le> length rest"
        unfolding good_step_def by blast
      have "fst r2 = set_slave i s' (h\<lparr>hb_outs := hb_outs h @ es\<rparr>)" using e(1) by (simp add: set_slave_def)
      then show ?thesis unfolding good_step_def using e(2-6) rr(4) r(6) Some by (intro exI [of _ s'] exI [of _ es] exI [of _ ms]) auto
    qed
    moreover have "\<forall>rest2. snd r2 = Some rest2 \<longrightarrow> length rest2 < length buf" using r2(2) rr(4) by (auto simp: good_step_def)
    ultimately show ?thesis using r2(1) by auto
  qed
qed

lemma loop_total:
  "i < length (hb_s h) \<Longrightarrow> sl_status (hb_s h ! i) = St_header \<or> sl_status (hb_s h ! i) = St_content \<Longrightarrow> slave_ok (hb_s h ! i) \<Longrightarrow>
   tolerable (pending_bytes (hb_s h ! i) @ buf) \<Longrightarrow> (if sl_status (hb_s h ! i) = St_header then 0 else 1) + length buf < n \<Longrightarrow>
   \<exists>s' es. data_loop n reach i buf h = Some (set_slave i s' (h\<lparr>hb_outs := hb_outs h @ es\<rparr>)) \<and> slave_ok s' \<and> sl_queue s' = None \<and>
     given es = payloads (whole_messages (pending_bytes (hb_s h ! i) @ buf))"
proof (induction n arbitrary: buf h)
  case 0
  then show ?case by simp
next
  case (Suc n)
  from step_total [OF Suc.prems(1) refl Suc.prems(2-4), of reach] obtain h1 r where r: "data_step reach i buf h = Some (h1, r)"
    "good_step i h (pending_bytes (hb_s h ! i)) buf (h1, r)" "\<forall>rest. r = Some rest \<longrightarrow> sl_status (hb_s h ! i) = St_header \<longrightarrow> length rest < length buf" by auto
  from r(2) obtain s' es ms where s': "h1 = set_slave i s' (h\<lparr>hb_outs := hb_outs h @ es\<rparr>)" "slave_ok s'"
    "\<forall>rest. r = Some rest \<longrightarrow> sl_status s' = St_header \<and> sl_read s' = 0 \<and> tolerable rest \<and> length rest \<le> length buf"
    "sl_queue s' = None" "given es = payloads ms"
    "whole_messages (pending_bytes (hb_s h ! i) @ buf) = ms @ (case r of None \<Rightarrow> [] | Some rest \<Rightarrow> whole_messages rest)" by (auto simp: good_step_def)
  show ?case
  proof (cases r)
    case None
    then show ?thesis using r(1) s' by auto
  next
    case (Some rest)
    have q: "sl_status s' = St_header" "sl_read s' = 0" "tolerable rest" "length rest \<le> length buf" using s'(3) Some by simp_all
    have at: "hb_s h1 ! i = s'" "i < length (hb_s h1)" using s'(1) Suc.prems(1) by simp_all
    have p: "pending_bytes s' = []" using q(1,2) by (simp add: pending_bytes_def)
    have le: "length rest < n" using q(4) r(3) Some Suc.prems(5) by (auto split: if_splits)
    from Suc.IH [of h1 rest] at p q s'(2) le obtain s2 es2 where
      s2: "data_loop n reach i rest h1 = Some (set_slave i s2 (h1\<lparr>hb_outs := hb_outs h1 @ es2\<rparr>))" "slave_ok s2" "sl_queue s2 = None"
      "given es2 = payloads (whole_messages rest)" by auto
    have "set_slave i s2 (h1\<lparr>hb_outs := hb_outs h1 @ es2\<rparr>) = set_slave i s2 (h\<lparr>hb_outs := hb_outs h @ (es @ es2)\<rparr>)"
      unfolding s'(1) by (simp add: set_slave_def)
    then have "data_loop (Suc n) reach i buf h = Some (set_slave i s2 (h\<lparr>hb_outs := hb_outs h @ (es @ es2)\<rparr>))"
      using r(1) Some s2(1) by simp
    moreover have "given (es @ es2) = payloads (whole_messages (pending_bytes (hb_s h ! i) @ buf))" using s'(5,6) s2(4) Some by simp
    ultimately show ?thesis using s2(2,3) by blast
  qed
qed

section \<open>Queues that are sent\<close>

lemma drain_outs:
  assumes q: "hq_ok q" and f: "\<And>m h. \<exists>es. f m h = Some (h\<lparr>hb_outs := hb_outs h @ es\<rparr>)"
  shows "\<exists>es q'. drain_all f q h = Some (h\<lparr>hb_outs := hb_outs h @ es\<rparr>, q') \<and> hq_ok q' \<and> queue_list q' = []"
proof -
  have "\<exists>es. fold_some f ms h = Some (h\<lparr>hb_outs := hb_outs h @ es\<rparr>)" for ms h
  proof (induction ms arbitrary: h)
    case Nil
    show ?case by (intro exI [of _ "[]"]) simp
  next
    case (Cons m ms)
    obtain es where es: "f m h = Some (h\<lparr>hb_outs := hb_outs h @ es\<rparr>)" using f by blast
    obtain es2 where "fold_some f ms (h\<lparr>hb_outs := hb_outs h @ es\<rparr>) = Some (h\<lparr>hb_outs := hb_outs h @ es\<rparr>\<lparr>hb_outs := (hb_outs h @ es) @ es2\<rparr>)"
      using Cons [of "h\<lparr>hb_outs := hb_outs h @ es\<rparr>"] by auto
    then show ?case using es by (intro exI [of _ "es @ es2"]) simp
  qed
  then obtain es where "fold_some f (queue_list q) h = Some (h\<lparr>hb_outs := hb_outs h @ es\<rparr>)" by blast
  with q show ?thesis by (metis drain_all_spec)
qed

lemma send_and_free_outs: "\<exists>es. send_and_free fd f m h = Some (h\<lparr>hb_outs := hb_outs h @ es\<rparr>)"
  by (auto simp: send_and_free_def send_remote_def hout_def)

lemma send_local_outs: "\<exists>es. send_local handle m h = Some (h\<lparr>hb_outs := hb_outs h @ es\<rparr>)"
  by (auto simp: send_local_def hout_def)

lemma release_empty: "hq_ok q \<Longrightarrow> queue_list q = [] \<Longrightarrow> release_queue (Some q) h = Some h"
  using release_queue_spec [of "Some q" h] by simp

text \<open>Draining a queue with a function that gives up the buffer of each message.\<close>

lemma drain_gives:
  assumes q: "hq_ok q" and f: "\<And>m h. \<exists>es. f m h = Some (h\<lparr>hb_outs := hb_outs h @ es\<rparr>) \<and> given es = {#hm_buffer m#}"
  shows "\<exists>es q'. drain_all f q h = Some (h\<lparr>hb_outs := hb_outs h @ es\<rparr>, q') \<and> hq_ok q' \<and> queue_list q' = [] \<and> given es = queue_held (Some q)"
proof -
  have "\<exists>es. fold_some f ms h = Some (h\<lparr>hb_outs := hb_outs h @ es\<rparr>) \<and> given es = mset (map hm_buffer ms)" for ms h
  proof (induction ms arbitrary: h)
    case Nil
    show ?case by (intro exI [of _ "[]"]) simp
  next
    case (Cons m ms)
    obtain es where es: "f m h = Some (h\<lparr>hb_outs := hb_outs h @ es\<rparr>)" "given es = {#hm_buffer m#}" using f by blast
    obtain es2 where "fold_some f ms (h\<lparr>hb_outs := hb_outs h @ es\<rparr>) = Some (h\<lparr>hb_outs := hb_outs h @ es\<rparr>\<lparr>hb_outs := (hb_outs h @ es) @ es2\<rparr>)"
      "given es2 = mset (map hm_buffer ms)" using Cons [of "h\<lparr>hb_outs := hb_outs h @ es\<rparr>"] by auto
    then show ?case using es by (intro exI [of _ "es @ es2"]) simp
  qed
  then obtain es where "fold_some f (queue_list q) h = Some (h\<lparr>hb_outs := hb_outs h @ es\<rparr>)" "given es = mset (map hm_buffer (queue_list q))" by blast
  with q show ?thesis unfolding queue_held_def option.case by (metis drain_all_spec)
qed

lemma send_and_free_gives: "\<exists>es. send_and_free fd f m h = Some (h\<lparr>hb_outs := hb_outs h @ es\<rparr>) \<and> given es = {#hm_buffer m#}"
  by (auto simp: send_and_free_def send_remote_def hout_def)

lemma send_local_gives: "\<exists>es. send_local handle m h = Some (h\<lparr>hb_outs := hb_outs h @ es\<rparr>) \<and> given es = {#hm_buffer m#}"
  by (auto simp: send_local_def hout_def)

lemma release_gives:
  assumes "\<forall>q'. q = Some q' \<longrightarrow> hq_ok q'"
  shows "\<exists>es. release_queue q h = Some (h\<lparr>hb_outs := hb_outs h @ es\<rparr>) \<and> given es = queue_held q"
proof -
  have "given (map (\<lambda>m. H_free (hm_buffer m)) ms) = mset (map hm_buffer ms)" for ms by (induction ms) simp_all
  then show ?thesis unfolding release_queue_spec [OF assms]
    by (intro exI [of _ "case q of None \<Rightarrow> [] | Some q \<Rightarrow> map (\<lambda>m. H_free (hm_buffer m)) (queue_list q)"])
      (auto simp: queue_held_def split: option.splits)
qed

lemma dispatch_queue_total:
  assumes "i < length (hb_s h)" "hb_s h ! i = s" "sl_fd s \<noteq> 0" "slave_queue_ok s"
  shows "\<exists>es. dispatch_queue i h = Some (set_slave i (s\<lparr>sl_queue := None\<rparr>) (h\<lparr>hb_outs := hb_outs h @ es\<rparr>)) \<and> given es = queue_held (sl_queue s)"
proof (cases "sl_queue s")
  case None
  then have e: "s\<lparr>sl_queue := None\<rparr> = s" by (cases s) simp
  have "set_slave i s h = h" using assms(2) by (auto simp: set_slave_def)
  then show ?thesis unfolding e using assms None by (intro exI [of _ "[]"]) (simp add: dispatch_queue_def queue_held_def)
next
  case (Some q)
  then have "hq_ok q" using assms(4) by (simp add: slave_queue_ok_def)
  from drain_gives [where f = "send_and_free (sl_fd s) (\<lambda>c. c)" and h = h, OF this send_and_free_gives] obtain es q' where
    "drain_all (send_and_free (sl_fd s) (\<lambda>c. c)) q h = Some (h\<lparr>hb_outs := hb_outs h @ es\<rparr>, q')" "hq_ok q'" "queue_list q' = []"
    "given es = queue_held (Some q)" by blast
  then show ?thesis using assms Some release_empty by (intro exI [of _ es]) (simp add: dispatch_queue_def)
qed

lemma remote_type_less: "nat (remote_type d) < REMOTE_MAX"
proof -
  have "unat d < 2 ^ 32" using unsigned_less [of d] by simp
  then have "unat (drop_bit 24 d) < 256" unfolding unat_shiftr by (simp add: less_mult_imp_div_less)
  then show ?thesis by (simp add: remote_type_def REMOTE_MAX_def)
qed

lemma dispatch_name_total:
  assumes inv: "harbor_inv h" and q: "hq_ok queue"
  shows "\<exists>r h'. dispatch_name_queue queue handle h = Some (r, h') \<and> harbor_inv h' \<and> hb_map h' = hb_map h \<and> (\<forall>q'. r = Some q' \<longrightarrow> hq_ok q')"
proof -
  let ?i = "nat (remote_type handle)" let ?s = "hb_s h ! ?i"
  have i: "?i < REMOTE_MAX" by (rule remote_type_less)
  have s: "slave_ok ?s" "?i < length (hb_s h)" using harbor_inv_slave [OF inv i] by simp_all
  show ?thesis
  proof (cases "sl_fd ?s = 0")
    case False
    from drain_outs [where f = "send_and_free (sl_fd ?s) (set_destination handle)" and h = h, OF q send_and_free_outs] obtain es q' where
      "drain_all (send_and_free (sl_fd ?s) (set_destination handle)) queue h = Some (h\<lparr>hb_outs := hb_outs h @ es\<rparr>, q')" "hq_ok q'" by blast
    then show ?thesis using False s inv by (intro exI [of _ "Some q'"] exI [of _ "h\<lparr>hb_outs := hb_outs h @ es\<rparr>"]) (simp add: dispatch_name_queue_def)
  next
    case True
    have st: "sl_status ?s = St_wait" using s(1) True by (simp add: slave_ok_def)
    have "\<exists>sq nq. (case sl_queue ?s of None \<Rightarrow> Some (queue, None)
        | Some sq \<Rightarrow> do { (sq1, q1) \<leftarrow> drain_all push_queue_msg queue sq; Some (sq1, Some q1) }) = Some (sq, nq) \<and> hq_ok sq \<and> (\<forall>q'. nq = Some q' \<longrightarrow> hq_ok q')"
    proof (cases "sl_queue ?s")
      case None
      then show ?thesis using q by simp
    next
      case (Some sq)
      then have "hq_ok sq" using s(1) by (simp add: slave_ok_def slave_queue_ok_def)
      from fold_push [OF this, of "queue_list queue"] obtain sq1 where "fold_some push_queue_msg (queue_list queue) sq = Some sq1" "hq_ok sq1" by blast
      moreover from drain_all_spec [OF q this(1)] obtain q1 where "drain_all push_queue_msg queue sq = Some (sq1, q1)" "hq_ok q1" by blast
      ultimately show ?thesis using Some by simp
    qed
    then obtain sq nq where sq: "(case sl_queue ?s of None \<Rightarrow> Some (queue, None)
        | Some sq \<Rightarrow> do { (sq1, q1) \<leftarrow> drain_all push_queue_msg queue sq; Some (sq1, Some q1) }) = Some (sq, nq)" "hq_ok sq" "\<forall>q'. nq = Some q' \<longrightarrow> hq_ok q'"
      by blast
    let ?h1 = "set_slave ?i (?s\<lparr>sl_queue := Some sq\<rparr>) h"
    have ok1: "slave_ok (?s\<lparr>sl_queue := Some sq\<rparr>)" "slave_ok (?s\<lparr>sl_queue := None\<rparr>)"
      using s(1) st sq(2) by (simp_all add: slave_ok_def slave_queue_ok_def)
    show ?thesis
    proof (cases "remote_type handle = remote_type (hb_slave h)")
      case False
      then have "dispatch_name_queue queue handle h = Some (nq, ?h1)" using s(2) True st sq(1) by (simp add: dispatch_name_queue_def Let_def)
      then show ?thesis using harbor_inv_set [OF inv ok1(1)] sq(3) by auto
    next
      case local: True
      from drain_outs [where f = "send_local handle" and h = ?h1, OF sq(2) send_local_outs] obtain es sq1 where
        d: "drain_all (send_local handle) sq ?h1 = Some (?h1\<lparr>hb_outs := hb_outs ?h1 @ es\<rparr>, sq1)" "hq_ok sq1" "queue_list sq1 = []" by blast
      have "dispatch_name_queue queue handle h = Some (nq, set_slave ?i (?s\<lparr>sl_queue := None\<rparr>) (?h1\<lparr>hb_outs := hb_outs ?h1 @ es\<rparr>))"
        using s(2) True st sq(1) local d release_empty by (simp add: dispatch_name_queue_def Let_def)
      moreover have "harbor_inv (set_slave ?i (?s\<lparr>sl_queue := None\<rparr>) (?h1\<lparr>hb_outs := hb_outs ?h1 @ es\<rparr>))"
        by (intro harbor_inv_set ok1) (simp add: harbor_inv_set [OF inv ok1(1)])
      ultimately show ?thesis using sq(3) by simp
    qed
  qed
qed

section \<open>The table of names\<close>

definition names_inv :: "keyvalue list list \<Rightarrow> bool" where
  "names_inv m \<longleftrightarrow> length m = HASH_SIZE \<and> (\<forall>c \<in> set m. \<forall>n \<in> set c. node_ok n)"

lemma harbor_inv_map: "harbor_inv h \<Longrightarrow> names_inv m \<Longrightarrow> harbor_inv (h\<lparr>hb_map := m\<rparr>)"
  by (simp add: harbor_inv_def names_inv_def)

lemma names_of_inv: "harbor_inv h \<Longrightarrow> names_inv (hb_map h)"
  by (simp add: harbor_inv_def names_inv_def)

lemma chain_search_less: "chain_search ns x name i = Some j \<Longrightarrow> i \<le> j \<and> j < i + length ns"
  by (induction ns arbitrary: i) (fastforce split: if_splits)+

lemma find_or_insert_spec:
  assumes "names_inv m" "find_or_insert m name = (p, m')"
  shows "names_inv m' \<and> fst p < length m' \<and> snd p < length (m' ! fst p) \<and> (\<exists>n. node_at m' p = Some n \<and> node_ok n)"
proof (cases "hash_search m name")
  case None
  let ?c = "unat (name_hash name) mod HASH_SIZE" let ?n = "\<lparr>kv_key = name, kv_hash = name_hash name, kv_value = 0, kv_queue = None\<rparr>"
  have c: "?c < length m" using assms(1) name_bucket_less by (simp add: names_inv_def)
  have e: "p = (?c, 0)" "m' = m[?c := ?n # m ! ?c]" using assms(2) None by (simp_all add: find_or_insert_def hash_insert_def Let_def)
  have old: "\<forall>n \<in> set (m ! ?c). node_ok n" using assms(1) nth_mem [OF c] by (auto simp: names_inv_def)
  have "names_inv m'" unfolding e using assms(1) old by (auto simp: names_inv_def node_ok_def dest!: set_update_subset_insert [THEN subsetD])
  then show ?thesis using e c by (simp add: node_at_def node_ok_def)
next
  case (Some p')
  let ?c = "unat (name_hash name) mod HASH_SIZE"
  have e: "p' = p" "m' = m" using assms(2) Some by (simp_all add: find_or_insert_def)
  have c: "?c < length m" using assms(1) name_bucket_less by (simp add: names_inv_def)
  from Some e obtain j where j: "p = (?c, j)" "chain_search (m ! ?c) (name_hash name) name 0 = Some j" by (auto simp: hash_search_def Let_def)
  have "j < length (m ! ?c)" using chain_search_less [OF j(2)] by simp
  moreover then have "m ! ?c ! j \<in> set (m ! ?c)" "m ! ?c \<in> set m" using c by simp_all
  then have "node_ok (m ! ?c ! j)" using assms(1) by (auto simp: names_inv_def)
  ultimately show ?thesis using e(2) j(1) c assms(1) by (simp add: node_at_def)
qed

lemma set_node_inv: "names_inv m \<Longrightarrow> node_ok n \<Longrightarrow> fst p < length m \<Longrightarrow> names_inv (set_node p n m)"
  unfolding names_inv_def set_node_def
  by (auto dest!: set_update_subset_insert [THEN subsetD])

section \<open>The main loop\<close>

lemma update_name_total:
  assumes "harbor_inv h"
  shows "\<exists>h'. update_name name handle h = Some h' \<and> harbor_inv h'"
proof -
  obtain p m where p: "find_or_insert (hb_map h) name = (p, m)" by (cases "find_or_insert (hb_map h) name")
  from find_or_insert_spec [OF names_of_inv [OF assms] p] obtain n where n: "names_inv m" "fst p < length m" "snd p < length (m ! fst p)"
    "node_at m p = Some n" "node_ok n" by blast
  let ?n = "n\<lparr>kv_value := handle\<rparr>" let ?h1 = "h\<lparr>hb_map := set_node p ?n m\<rparr>"
  have ok: "node_ok ?n" "node_ok (?n\<lparr>kv_queue := None\<rparr>)" using n(5) by (simp_all add: node_ok_def)
  have inv1: "harbor_inv ?h1" by (rule harbor_inv_map [OF assms set_node_inv [OF n(1) ok(1) n(2)]])
  show ?thesis
  proof (cases "kv_queue n")
    case None
    then show ?thesis using p n(4) inv1 by (simp add: update_name_def)
  next
    case (Some q)
    then have q: "hq_ok q" using n(5) by (simp add: node_ok_def)
    from dispatch_name_total [OF inv1 q, of handle] obtain r h2 where
      r: "dispatch_name_queue q handle ?h1 = Some (r, h2)" "harbor_inv h2" "hb_map h2 = hb_map ?h1" "\<forall>q'. r = Some q' \<longrightarrow> hq_ok q'" by blast
    let ?h3 = "h2\<lparr>hb_outs := hb_outs h2 @ (case r of None \<Rightarrow> [] | Some q \<Rightarrow> map (\<lambda>m. H_free (hm_buffer m)) (queue_list q))\<rparr>"
    have rel: "release_queue r h2 = Some ?h3" by (rule release_queue_spec [OF r(4)])
    have inv3: "harbor_inv ?h3" using r(2) by simp
    have "harbor_inv (?h3\<lparr>hb_map := set_node p (?n\<lparr>kv_queue := None\<rparr>) (hb_map ?h3)\<rparr>)"
      using n(1,2) r(3) by (intro harbor_inv_map inv3 set_node_inv ok names_of_inv) (simp_all add: set_node_def)
    then show ?thesis using p n(4) Some r(1) rel by (simp add: update_name_def)
  qed
qed

lemma remote_send_handle_total:
  assumes "harbor_inv h"
  shows "\<exists>k h'. remote_send_handle source destination type session msg h = Some (k, h') \<and> harbor_inv h'"
proof (cases "remote_type destination = hb_id h")
  case True
  then show ?thesis using assms by (intro exI [of _ True]) (simp add: remote_send_handle_def)
next
  case False
  let ?i = "nat (remote_type destination)" let ?s = "hb_s h ! ?i"
  have s: "slave_ok ?s" "?i < length (hb_s h)" using harbor_inv_slave [OF assms remote_type_less] by simp_all
  show ?thesis
  proof (cases "(sl_fd ?s = 0 \<or> sl_status ?s = St_handshake) \<and> sl_status ?s \<noteq> St_down")
    case True
    have "slave_queue_ok ?s" using s(1) by (simp add: slave_ok_def)
    from waiting_new [OF this, of "\<lparr>hm_header = remote_cookie source destination type session, hm_buffer = msg\<rparr>"] obtain q where
      q: "push_queue msg (remote_cookie source destination type session) (case sl_queue ?s of None \<Rightarrow> new_queue | Some q \<Rightarrow> q) = Some q" "hq_ok q"
      by (auto simp: push_queue_def)
    have "slave_ok (?s\<lparr>sl_queue := Some q\<rparr>)" using s(1) q(2) True by (auto simp: slave_ok_def slave_queue_ok_def)
    then show ?thesis using False True s(2) q(1) harbor_inv_set [OF assms]
      by (intro exI [of _ True]) (simp add: remote_send_handle_def Let_def)
  next
    case down: False
    then show ?thesis using False s(2) assms by (auto simp: remote_send_handle_def Let_def send_remote_def)
  qed
qed

lemma remote_send_name_total:
  assumes "harbor_inv h"
  shows "\<exists>k h'. remote_send_name source name type session msg h = Some (k, h') \<and> harbor_inv h'"
proof -
  obtain p m where p: "find_or_insert (hb_map h) name = (p, m)" by (cases "find_or_insert (hb_map h) name")
  from find_or_insert_spec [OF names_of_inv [OF assms] p] obtain n where n: "names_inv m" "fst p < length m" "snd p < length (m ! fst p)"
    "node_at m p = Some n" "node_ok n" by blast
  have inv1: "harbor_inv (h\<lparr>hb_map := m\<rparr>)" by (rule harbor_inv_map [OF assms n(1)])
  show ?thesis
  proof (cases "kv_value n = 0")
    case True
    have "\<exists>q. push_queue msg (remote_cookie source 0 type session) (case kv_queue n of None \<Rightarrow> new_queue | Some q \<Rightarrow> q) = Some q \<and> hq_ok q"
    proof -
      have "hq_ok (case kv_queue n of None \<Rightarrow> new_queue | Some q \<Rightarrow> q)" using n(5) by (auto simp: node_ok_def split: option.splits)
      then show ?thesis unfolding push_queue_def using hq_push_spec by blast
    qed
    then obtain q where q: "push_queue msg (remote_cookie source 0 type session) (case kv_queue n of None \<Rightarrow> new_queue | Some q \<Rightarrow> q) = Some q" "hq_ok q" by blast
    have "harbor_inv (h\<lparr>hb_map := set_node p (n\<lparr>kv_queue := Some q\<rparr>) m\<rparr>)"
      by (rule harbor_inv_map [OF assms set_node_inv [OF n(1) _ n(2)]]) (use q(2) in \<open>simp add: node_ok_def\<close>)
    then show ?thesis using p n(4) True q(1) by (intro exI [of _ True]) (simp add: remote_send_name_def)
  next
    case False
    then show ?thesis using remote_send_handle_total [OF inv1] p n(4) by (simp add: remote_send_name_def)
  qed
qed

text \<open>What the bytes of a connection must not be: a body without room for the cookie.\<close>

definition data_ok :: "slave \<Rightarrow> nat \<Rightarrow> u8 list \<Rightarrow> bool" where
  "data_ok s i d \<longleftrightarrow> d \<noteq> [] \<and>
     (case sl_status s of
        St_handshake \<Rightarrow> unat (hd d) = i \<longrightarrow> tolerable (tl d)
      | St_header \<Rightarrow> tolerable (pending_bytes s @ d)
      | St_content \<Rightarrow> tolerable (pending_bytes s @ d)
      | _ \<Rightarrow> True)"

text \<open>The remote messages that the bytes complete.\<close>

definition data_messages :: "slave \<Rightarrow> nat \<Rightarrow> u8 list \<Rightarrow> u8 list list" where
  "data_messages s i d =
     (case sl_status s of
        St_handshake \<Rightarrow> if d \<noteq> [] \<and> unat (hd d) = i then whole_messages (tl d) else []
      | St_header \<Rightarrow> whole_messages (pending_bytes s @ d)
      | St_content \<Rightarrow> whole_messages (pending_bytes s @ d)
      | _ \<Rightarrow> [])"

text \<open>What becomes of the connection and what is given up: the queue that the connection no longer has, and these messages.\<close>

definition data_accounts :: "nat \<Rightarrow> harbor \<Rightarrow> u8 list \<Rightarrow> harbor \<Rightarrow> bool" where
  "data_accounts i h d h' \<longleftrightarrow> (\<exists>s' es. h' = set_slave i s' (h\<lparr>hb_outs := hb_outs h @ es\<rparr>) \<and> slave_ok s' \<and>
     queue_held (sl_queue s') + given es = queue_held (sl_queue (hb_s h ! i)) + payloads (data_messages (hb_s h ! i) i d))"

definition command_ok :: "u8 list \<Rightarrow> nat \<Rightarrow> bool" where
  "command_ok mem sz \<longleftrightarrow> mem \<noteq> [] \<and> (mem ! 0 = 78 \<longrightarrow> sz \<le> length mem) \<and>
     (mem ! 0 = 83 \<or> mem ! 0 = 65 \<longrightarrow> 2 \<le> sz \<and> sz + 1 \<le> length mem \<and> 0 \<in> set (take (sz - 1) (drop 2 mem)) \<and>
        scan_ints int_range int_range (text_of (take (sz - 1) (drop 2 mem))) \<noteq> None)"

definition harbor_input_ok :: "harbor \<Rightarrow> harbor_in \<Rightarrow> bool" where
  "harbor_input_ok h x =
     (case x of
        In_socket m \<Rightarrow> sm_type m = S_DATA \<longrightarrow> sm_ud m = int (length (sm_buffer m)) \<and>
          (case harbor_of h (sm_id m) of None \<Rightarrow> True | Some i \<Rightarrow> data_ok (hb_s h ! i) i (sm_buffer m))
      | In_harbor mem sz source \<Rightarrow> command_ok mem sz
      | _ \<Rightarrow> True)"

lemma find_fd_Some: "find_fd ss fd is = Some i \<Longrightarrow> i \<in> set is \<and> i < length ss \<and> sl_fd (ss ! i) = fd"
  by (induction "is") (auto split: if_splits)

lemma handshake_total:
  assumes i: "i < length (hb_s h)" "hb_s h ! i = s" "sl_status s = St_handshake" and ok: "slave_ok s" and d: "data_ok s i d"
  shows "\<exists>h'. data_loop (length d + 2) reach i d h = Some h' \<and> data_accounts i h d h'"
proof -
  obtain b rest where b: "d = b # rest" using d by (cases d) (auto simp: data_ok_def)
  have v: "sl_fd s \<noteq> 0" "sl_read s = 0" "length (sl_size s) = 4" "slave_queue_ok s" using ok i(3) by (auto simp: slave_ok_def)
  show ?thesis
  proof (cases "unat b = i")
    case False
    let ?es = "[H_log ''Invalid shakehand id'', H_close (sl_fd s)] @ (case sl_queue s of None \<Rightarrow> [] | Some q \<Rightarrow> map (\<lambda>m. H_free (hm_buffer m)) (queue_list q))"
    let ?s = "s\<lparr>sl_status := St_down, sl_queue := None\<rparr>"
    have "close_harbor i (hout (H_log ''Invalid shakehand id'') h) = Some (set_slave i ?s (h\<lparr>hb_outs := hb_outs h @ ?es\<rparr>))"
      using i v(1,4) release_queue_spec [of "sl_queue s"] by (simp add: close_harbor_def slave_queue_ok_def hout_def set_slave_def)
    then have "data_loop (length d + 2) reach i d h = Some (set_slave i ?s (h\<lparr>hb_outs := hb_outs h @ ?es\<rparr>))"
      using i False b by (simp add: data_step_def handshake_part_def)
    moreover have "slave_ok ?s" using v by (simp add: slave_ok_def slave_queue_ok_def)
    moreover have "given (map (\<lambda>m. H_free (hm_buffer m)) ms) = mset (map hm_buffer ms)" for ms by (induction ms) simp_all
    then have "given ?es = queue_held (sl_queue s)" by (auto simp: queue_held_def split: option.split)
    then have "queue_held (sl_queue ?s) + given ?es = queue_held (sl_queue (hb_s h ! i)) + payloads (data_messages (hb_s h ! i) i d)"
      using i b False by (simp add: data_messages_def queue_held_def [of None])
    ultimately show ?thesis unfolding data_accounts_def by blast
  next
    case True
    have t: "tolerable rest" using d b True i(3) by (simp add: data_ok_def)
    let ?h1 = "set_slave i (s\<lparr>sl_status := St_header\<rparr>) h"
    have at: "i < length (hb_s ?h1)" "hb_s ?h1 ! i = s\<lparr>sl_status := St_header\<rparr>" using i by simp_all
    from dispatch_queue_total [OF at] v(1,4) obtain es where
      es: "dispatch_queue i ?h1 = Some (set_slave i (s\<lparr>sl_status := St_header, sl_queue := None\<rparr>) (?h1\<lparr>hb_outs := hb_outs h @ es\<rparr>))" "given es = queue_held (sl_queue s)"
      by (auto simp: slave_queue_ok_def)
    let ?s2 = "s\<lparr>sl_status := St_header, sl_queue := None\<rparr>" let ?h2 = "set_slave i ?s2 (h\<lparr>hb_outs := hb_outs h @ es\<rparr>)"
    have h2: "set_slave i ?s2 (?h1\<lparr>hb_outs := hb_outs h @ es\<rparr>) = ?h2" by (simp add: set_slave_def)
    have hp: "handshake_part i d h = Some (?h2, Some rest)" using i b True es(1) h2 by (simp add: handshake_part_def)
    have s2: "slave_ok ?s2" "hb_s ?h2 ! i = ?s2" "i < length (hb_s ?h2)" "sl_status ?s2 = St_header" "pending_bytes ?s2 = []"
      using v i(1) by (simp_all add: slave_ok_def slave_queue_ok_def receiving_def pending_bytes_def)
    have same: "data_loop (length d + 2) reach i d h = (if rest = [] then data_loop (length d + 1) reach i rest ?h2 else data_loop (length d + 2) reach i rest ?h2)"
    proof (cases "rest = []")
      case True
      then have "data_step reach i d h = Some (?h2, Some rest)" using hp i by (simp add: data_step_def)
      then show ?thesis using True by simp
    next
      case False
      have "data_step reach i d h = data_step reach i rest ?h2"
        unfolding data_step_def using hp i False s2(2-4) by simp
      then show ?thesis using False by simp
    qed
    have lt: "length rest < length d + 1" "length rest < length d + 2" using b by simp_all
    have "\<exists>s' es'. data_loop (length d + 2) reach i d h = Some (set_slave i s' (?h2\<lparr>hb_outs := hb_outs ?h2 @ es'\<rparr>)) \<and> slave_ok s' \<and> sl_queue s' = None \<and>
        given es' = payloads (whole_messages rest)"
      unfolding same using loop_total [of i ?h2 rest "length d + 1" reach] loop_total [of i ?h2 rest "length d + 2" reach] s2 t lt
      by (cases "rest = []") auto
    then obtain s' es' where s': "data_loop (length d + 2) reach i d h = Some (set_slave i s' (?h2\<lparr>hb_outs := hb_outs ?h2 @ es'\<rparr>))" "slave_ok s'"
      "sl_queue s' = None" "given es' = payloads (whole_messages rest)" by blast
    moreover have "set_slave i s' (?h2\<lparr>hb_outs := hb_outs ?h2 @ es'\<rparr>) = set_slave i s' (h\<lparr>hb_outs := hb_outs h @ (es @ es')\<rparr>)" by (simp add: set_slave_def)
    moreover have "queue_held (sl_queue s') + given (es @ es') = queue_held (sl_queue (hb_s h ! i)) + payloads (data_messages (hb_s h ! i) i d)"
      using s'(3,4) es(2) i b True by (simp add: data_messages_def queue_held_def [of None])
    ultimately show ?thesis unfolding data_accounts_def by metis
  qed
qed

lemma push_socket_data_accounts:
  assumes inv: "harbor_inv h" and fd: "harbor_of h (sm_id m) = Some i" and ud: "sm_ud m = int (length (sm_buffer m))"
    and d: "data_ok (hb_s h ! i) i (sm_buffer m)"
  shows "\<exists>h'. push_socket_data reach m h = Some h' \<and> data_accounts i h (sm_buffer m) h'"
proof -
  let ?d = "sm_buffer m" let ?s = "hb_s h ! i"
  have i: "i < length (hb_s h)" "i < REMOTE_MAX" using find_fd_Some [OF fd [unfolded harbor_of_def]] by simp_all
  have s: "slave_ok ?s" using harbor_inv_slave [OF inv i(2)] by simp
  consider "sl_status ?s = St_handshake" | "sl_status ?s = St_header \<or> sl_status ?s = St_content" | "sl_status ?s = St_wait \<or> sl_status ?s = St_down"
    by (cases "sl_status ?s") auto
  then have "\<exists>h'. data_loop (length ?d + 2) reach i ?d h = Some h' \<and> data_accounts i h ?d h'"
  proof cases
    case 1
    show ?thesis by (rule handshake_total [OF i(1) refl 1 s d])
  next
    case 2
    have lt: "(if sl_status ?s = St_header then 0 else 1) + length ?d < length ?d + 2" by simp
    have t: "tolerable (pending_bytes ?s @ ?d)" using d 2 by (auto simp: data_ok_def)
    have q: "queue_held (sl_queue ?s) = {#}" using s 2 by (auto simp: slave_ok_def queue_held_def)
    have m: "data_messages ?s i ?d = whole_messages (pending_bytes ?s @ ?d)" using 2 by (auto simp: data_messages_def)
    from loop_total [OF i(1) 2 s t lt, of reach] obtain s' es where
      "data_loop (length ?d + 2) reach i ?d h = Some (set_slave i s' (h\<lparr>hb_outs := hb_outs h @ es\<rparr>))" "slave_ok s'" "sl_queue s' = None"
      "given es = payloads (whole_messages (pending_bytes ?s @ ?d))" by blast
    moreover from this have "data_accounts i h ?d (set_slave i s' (h\<lparr>hb_outs := hb_outs h @ es\<rparr>))"
      unfolding data_accounts_def using q m by (intro exI [of _ s'] exI [of _ es]) (simp add: queue_held_def [of None])
    ultimately show ?thesis by blast
  next
    case 3
    then have "data_loop (length ?d + 2) reach i ?d h = Some (set_slave i ?s (h\<lparr>hb_outs := hb_outs h @ []\<rparr>))"
      using i(1) by (auto simp: data_step_def set_slave_def)
    moreover have "data_accounts i h ?d (set_slave i ?s (h\<lparr>hb_outs := hb_outs h @ []\<rparr>))"
      unfolding data_accounts_def using s 3 by (intro exI [of _ ?s] exI [of _ "[]"]) (auto simp: data_messages_def)
    ultimately show ?thesis by blast
  qed
  then show ?thesis using fd ud by (simp add: push_socket_data_def del: data_loop.simps)
qed

lemma push_socket_data_total:
  assumes inv: "harbor_inv h" and ud: "sm_ud m = int (length (sm_buffer m))"
    and ok: "case harbor_of h (sm_id m) of None \<Rightarrow> True | Some i \<Rightarrow> data_ok (hb_s h ! i) i (sm_buffer m)"
  shows "\<exists>h'. push_socket_data reach m h = Some h' \<and> harbor_inv h'"
proof (cases "harbor_of h (sm_id m)")
  case None
  then show ?thesis using inv by (simp add: push_socket_data_def)
next
  case (Some i)
  then have "data_ok (hb_s h ! i) i (sm_buffer m)" using ok by simp
  from push_socket_data_accounts [OF inv Some ud this, of reach] show ?thesis
    using harbor_inv_set [of "h\<lparr>hb_outs := es\<rparr>" for es] inv by (auto simp: data_accounts_def)
qed

lemma connect_command_total:
  assumes inv: "harbor_inv h" and mem: "2 \<le> sz" "sz + 1 \<le> length mem" "0 \<in> set (take (sz - 1) (drop 2 mem))"
    and sc: "scan_ints int_range int_range (text_of (take (sz - 1) (drop 2 mem))) \<noteq> None"
  shows "\<exists>h'. connect_command w mem sz h = Some h' \<and> harbor_inv h'"
proof -
  obtain fd i where fi: "scan_ints int_range int_range (text_of (take (sz - 1) (drop 2 mem))) = Some (fd, i)" using sc by auto
  show ?thesis
  proof (cases "fd = 0 \<or> i \<le> 0 \<or> i \<ge> int REMOTE_MAX")
    case True
    then show ?thesis using mem fi inv by (auto simp: connect_command_def Let_def)
  next
    case False
    let ?i = "nat i" let ?s = "hb_s h ! ?i"
    have i: "?i < REMOTE_MAX" using False by (simp add: nat_less_iff)
    have s: "slave_ok ?s" "?i < length (hb_s h)" using harbor_inv_slave [OF inv i] by simp_all
    show ?thesis
    proof (cases "sl_fd ?s = 0")
      case used: False
      then show ?thesis using False mem fi inv s(2) by (simp add: connect_command_def Let_def)
    next
      case free: True
      have st: "sl_status ?s = St_wait" "sl_read ?s = 0" "length (sl_size ?s) = 4" "slave_queue_ok ?s" using s(1) free by (auto simp: slave_ok_def)
      let ?h1 = "hout (H_write fd [of_int (hb_id h)]) (hout (H_start fd) (set_slave ?i (?s\<lparr>sl_fd := fd\<rparr>) h))"
      have c: "connect_command w mem sz h = (if w then Some (set_slave ?i (?s\<lparr>sl_fd := fd, sl_status := St_handshake\<rparr>) ?h1)
          else dispatch_queue ?i (set_slave ?i (?s\<lparr>sl_fd := fd, sl_status := St_header\<rparr>) ?h1))"
        using False mem fi s(2) free by (simp add: connect_command_def Let_def handshake_def)
      let ?e = "hb_outs h @ [H_start fd, H_write fd [of_int (hb_id h)]]"
      have e: "set_slave ?i x ?h1 = set_slave ?i x (h\<lparr>hb_outs := ?e\<rparr>)" for x by (simp add: set_slave_def hout_def)
      show ?thesis
      proof (cases w)
        case True
        have "slave_ok (?s\<lparr>sl_fd := fd, sl_status := St_handshake\<rparr>)" using st False by (simp add: slave_ok_def slave_queue_ok_def)
        then show ?thesis unfolding c e using True harbor_inv_set [of "h\<lparr>hb_outs := ?e\<rparr>"] inv by simp
      next
        case acc: False
        let ?s2 = "?s\<lparr>sl_fd := fd, sl_status := St_header\<rparr>" let ?h2 = "set_slave ?i ?s2 (h\<lparr>hb_outs := ?e\<rparr>)"
        have "\<exists>es. dispatch_queue ?i ?h2 = Some (set_slave ?i (?s2\<lparr>sl_queue := None\<rparr>) (?h2\<lparr>hb_outs := hb_outs ?h2 @ es\<rparr>)) \<and> given es = queue_held (sl_queue ?s2)"
          by (rule dispatch_queue_total) (use s(2) st False in \<open>simp_all add: slave_queue_ok_def\<close>)
        then obtain es where es: "dispatch_queue ?i ?h2 = Some (set_slave ?i (?s2\<lparr>sl_queue := None\<rparr>) (?h2\<lparr>hb_outs := hb_outs ?h2 @ es\<rparr>))" by blast
        have ok: "slave_ok (?s2\<lparr>sl_queue := None\<rparr>)" using st False by (simp add: slave_ok_def slave_queue_ok_def receiving_def)
        have "set_slave ?i (?s2\<lparr>sl_queue := None\<rparr>) (?h2\<lparr>hb_outs := hb_outs ?h2 @ es\<rparr>) =
            set_slave ?i (?s2\<lparr>sl_queue := None\<rparr>) (h\<lparr>hb_outs := ?e @ es\<rparr>)" by (simp add: set_slave_def)
        then show ?thesis unfolding c e using acc es harbor_inv_set [OF _ ok, of "h\<lparr>hb_outs := ?e @ es\<rparr>"] inv by simp
      qed
    qed
  qed
qed

lemma command_total:
  assumes inv: "harbor_inv h" and ok: "command_ok mem sz"
  shows "\<exists>h'. harbor_command mem sz source h = Some h' \<and> harbor_inv h'"
proof -
  have m: "mem \<noteq> []" using ok by (simp add: command_ok_def)
  consider "mem ! 0 = 78" | "mem ! 0 = 83 \<or> mem ! 0 = 65" | "mem ! 0 \<noteq> 78 \<and> mem ! 0 \<noteq> 83 \<and> mem ! 0 \<noteq> 65" by blast
  then show ?thesis
  proof cases
    case 1
    then have "sz \<le> length mem" using ok by (simp add: command_ok_def)
    then show ?thesis using 1 m inv update_name_total [OF inv] by (auto simp: harbor_command_def name_command_def Let_def)
  next
    case 2
    have c: "2 \<le> sz" "sz + 1 \<le> length mem" "0 \<in> set (take (sz - 1) (drop 2 mem))"
      "scan_ints int_range int_range (text_of (take (sz - 1) (drop 2 mem))) \<noteq> None" using ok 2 unfolding command_ok_def by blast+
    from 2 show ?thesis using connect_command_total [OF inv c] m by (auto simp: harbor_command_def)
  next
    case 3
    then show ?thesis using m inv by (simp add: harbor_command_def)
  qed
qed

text \<open>
  C25. The harbor service never fails and keeps its invariant: a slot of the table of nodes without a descriptor is one that
  waits (so none of them is ever down), queues exist only before the handshake and are well-formed, the buffer of a connection
  fits its length.  The only inputs excluded are bodies without room for the cookie, which the code reads before their start,
  and commands whose numbers are out of range or whose string is not ended.
\<close>

theorem harbor_invariant:
  assumes "harbor_inv h" and "harbor_input_ok h x"
  shows "\<exists>h'. mainloop reach x h = Some h' \<and> harbor_inv h'"
proof (cases x)
  case (In_socket m)
  show ?thesis
  proof (cases "sm_type m = S_DATA")
    case True
    then obtain h' where "push_socket_data reach m h = Some h'" "harbor_inv h'"
      using push_socket_data_total [OF assms(1), of m reach] assms(2) In_socket by (auto simp: harbor_input_ok_def)
    then show ?thesis using In_socket True by (simp add: mainloop_def socket_event_def)
  next
    case False
    then show ?thesis using In_socket assms(1)
      by (auto simp: mainloop_def socket_event_def report_harbor_down_def split: socket_type.splits option.splits)
  qed
next
  case (In_harbor mem sz source)
  then show ?thesis using command_total [OF assms(1), of mem sz source] assms(2) by (simp add: mainloop_def harbor_input_ok_def)
next
  case (In_system source name handle type session msg)
  from remote_send_handle_total [OF assms(1), of source handle type session msg] remote_send_name_total [OF assms(1), of source name type session msg]
  obtain k h' where "(if handle = 0 then remote_send_name source name type session msg h else remote_send_handle source handle type session msg h) = Some (k, h')"
    "harbor_inv h'" by (cases "handle = 0") auto
  then show ?thesis using In_system by (simp add: mainloop_def)
next
  case (In_other type session source)
  then show ?thesis using assms(1) by (simp add: mainloop_def Let_def)
qed

theorem harbor_invariant_witness:
  "\<exists>h'. mainloop (\<lambda>_. True) (connect_message CHR ''S'' 10 2 0x01000002) lone_node = Some h' \<and> harbor_inv h'"
proof -
  have inv: "harbor_inv lone_node" using harbor_inv_create by (simp add: harbor_inv_def lone_node_def)
  have sc: "scan_ints int_range int_range (text_of (chars (connect_text 10 2) @ [0])) = Some (10, int 2)"
    by (rule connect_scan) (simp_all add: int_range_def REMOTE_MAX_def)
  have "harbor_input_ok lone_node (connect_message CHR ''S'' 10 2 0x01000002)"
    using sc by (simp add: harbor_input_ok_def connect_message_def command_ok_def chars_def)
  then show ?thesis by (rule harbor_invariant [OF inv])
qed

end
