(* ===== verification/HarborOwn.thy ===== *)
theory HarborOwn
  imports HarborInv
begin

text \<open>
  Who owns the buffers of messages: the service queues them, gives them away with \<open>PTYPE_TAG_DONTCOPY\<close>, or frees them.
\<close>

section \<open>Buffers\<close>

definition slaves_held :: "slave list \<Rightarrow> u8 list multiset" where
  "slaves_held ss = sum_list (map (\<lambda>s. queue_held (sl_queue s)) ss)"

definition chain_held :: "keyvalue list \<Rightarrow> u8 list multiset" where
  "chain_held c = sum_list (map (\<lambda>n. queue_held (kv_queue n)) c)"

definition names_held :: "keyvalue list list \<Rightarrow> u8 list multiset" where
  "names_held m = sum_list (map chain_held m)"

definition harbor_held :: "harbor \<Rightarrow> u8 list multiset" where
  "harbor_held h = slaves_held (hb_s h) + names_held (hb_map h)"

lemma sum_list_update: "i < length xs \<Longrightarrow> sum_list (map f (xs[i := y])) + f (xs ! i) = sum_list (map f xs) + (f y :: 'b::comm_monoid_add)"
proof (induction xs arbitrary: i)
  case (Cons x xs)
  then show ?case by (cases i) (auto simp: ac_simps)
qed simp

lemma slaves_update: "i < length ss \<Longrightarrow> slaves_held (ss[i := s]) + queue_held (sl_queue (ss ! i)) = slaves_held ss + queue_held (sl_queue s)"
  unfolding slaves_held_def using sum_list_update [of i ss "\<lambda>s. queue_held (sl_queue s)" s] by simp

lemma slaves_same: "i < length ss \<Longrightarrow> sl_queue s = sl_queue (ss ! i) \<Longrightarrow> slaves_held (ss[i := s]) = slaves_held ss"
  using slaves_update [of i ss s] by simp

lemma names_update:
  assumes "fst p < length m" "snd p < length (m ! fst p)"
  shows "names_held (set_node p n m) + queue_held (kv_queue (m ! fst p ! snd p)) = names_held m + queue_held (kv_queue n)"
proof -
  have c: "chain_held ((m ! fst p)[snd p := n]) + queue_held (kv_queue (m ! fst p ! snd p)) = chain_held (m ! fst p) + queue_held (kv_queue n)"
    unfolding chain_held_def using sum_list_update [OF assms(2), of "\<lambda>n. queue_held (kv_queue n)" n] by simp
  have "names_held (set_node p n m) + chain_held (m ! fst p) = names_held m + chain_held ((m ! fst p)[snd p := n])"
    unfolding names_held_def set_node_def using sum_list_update [OF assms(1), of chain_held "(m ! fst p)[snd p := n]"] by simp
  then have "names_held (set_node p n m) + queue_held (kv_queue (m ! fst p ! snd p)) + chain_held (m ! fst p) =
      names_held m + (chain_held ((m ! fst p)[snd p := n]) + queue_held (kv_queue (m ! fst p ! snd p)))" by (simp add: ac_simps)
  then show ?thesis unfolding c by (simp add: ac_simps)
qed

lemma names_insert: "find_or_insert m name = (p, m') \<Longrightarrow> length m = HASH_SIZE \<Longrightarrow> names_held m' = names_held m"
proof -
  assume f: "find_or_insert m name = (p, m')" and l: "length m = HASH_SIZE"
  let ?c = "unat (name_hash name) mod HASH_SIZE" let ?n = "\<lparr>kv_key = name, kv_hash = name_hash name, kv_value = 0, kv_queue = None\<rparr>"
  have "names_held (m[?c := ?n # m ! ?c]) + chain_held (m ! ?c) = names_held m + chain_held (?n # m ! ?c)"
    unfolding names_held_def using sum_list_update [of ?c m chain_held "?n # m ! ?c"] l name_bucket_less by simp
  then have "names_held (m[?c := ?n # m ! ?c]) = names_held m" by (simp add: chain_held_def queue_held_def)
  then show ?thesis using f by (auto simp: find_or_insert_def hash_insert_def Let_def split: option.splits)
qed

section \<open>Conservation\<close>

definition conserves :: "harbor \<Rightarrow> harbor \<Rightarrow> u8 list multiset \<Rightarrow> bool" where
  "conserves h h' new \<longleftrightarrow> (\<exists>es. hb_outs h' = hb_outs h @ es \<and> harbor_held h' + given es = harbor_held h + new)"

lemma conserves_refl: "conserves h h {#}"
  by (simp add: conserves_def)

lemma conserves_trans: "conserves h1 h2 a \<Longrightarrow> conserves h2 h3 b \<Longrightarrow> conserves h1 h3 (a + b)"
proof -
  assume "conserves h1 h2 a" "conserves h2 h3 b"
  then obtain es es' where "hb_outs h2 = hb_outs h1 @ es" "harbor_held h2 + given es = harbor_held h1 + a"
    "hb_outs h3 = hb_outs h2 @ es'" "harbor_held h3 + given es' = harbor_held h2 + b" by (auto simp: conserves_def)
  then have "hb_outs h3 = hb_outs h1 @ (es @ es')" "harbor_held h3 + given (es @ es') = harbor_held h1 + (a + b)"
    by (simp_all add: ac_simps) (metis add.assoc add.commute)
  then show ?thesis unfolding conserves_def by blast
qed

lemma conserves_hout: "gives e = a \<Longrightarrow> conserves h (hout e h) a"
  by (auto simp: conserves_def harbor_held_def)

lemma moved_along: "a + s = h \<Longrightarrow> a + (s + q) + {#} = h + (q :: 'a multiset)"
  by (simp add: add.assoc [symmetric])

lemma moved_out: "n + q = m \<Longrightarrow> n + (s + q) = s + (m :: 'a multiset)"
  by (auto simp: ac_simps)

section \<open>The operations\<close>

lemma dispatch_queue_conserves:
  assumes "i < length (hb_s h)" "sl_fd (hb_s h ! i) \<noteq> 0" "slave_queue_ok (hb_s h ! i)"
  shows "\<exists>h'. dispatch_queue i h = Some h' \<and> conserves h h' {#}"
proof (cases "sl_queue (hb_s h ! i)")
  case None
  then show ?thesis using assms conserves_refl by (simp add: dispatch_queue_def)
next
  case (Some q)
  then have "hq_ok q" using assms(3) by (simp add: slave_queue_ok_def)
  from drain_gives [where f = "send_and_free (sl_fd (hb_s h ! i)) (\<lambda>c. c)" and h = h, OF this send_and_free_gives] obtain es q' where
    d: "drain_all (send_and_free (sl_fd (hb_s h ! i)) (\<lambda>c. c)) q h = Some (h\<lparr>hb_outs := hb_outs h @ es\<rparr>, q')" "hq_ok q'" "queue_list q' = []"
    "given es = queue_held (Some q)" by blast
  let ?h' = "set_slave i ((hb_s h ! i)\<lparr>sl_queue := None\<rparr>) (h\<lparr>hb_outs := hb_outs h @ es\<rparr>)"
  have "dispatch_queue i h = Some ?h'" using assms Some d release_empty by (simp add: dispatch_queue_def)
  moreover have "slaves_held (hb_s ?h') + queue_held (Some q) = slaves_held (hb_s h)"
    using slaves_update [OF assms(1), of "(hb_s h ! i)\<lparr>sl_queue := None\<rparr>"] Some by (simp add: queue_held_def)
  then have "harbor_held ?h' + given es = harbor_held h" unfolding d(4) harbor_held_def by (simp add: ac_simps)
  then have "conserves h ?h' {#}" by (auto simp: conserves_def)
  ultimately show ?thesis by blast
qed

text \<open>What a pending queue of a name becomes: it moves to the node, is sent, or stays.\<close>

lemma dispatch_name_conserves:
  assumes inv: "harbor_inv h" and q: "hq_ok queue"
  shows "\<exists>r h' es. dispatch_name_queue queue handle h = Some (r, h') \<and> harbor_inv h' \<and> hb_map h' = hb_map h \<and> (\<forall>q'. r = Some q' \<longrightarrow> hq_ok q') \<and>
    hb_outs h' = hb_outs h @ es \<and> slaves_held (hb_s h') + given es + queue_held r = slaves_held (hb_s h) + queue_held (Some queue)"
proof -
  let ?i = "nat (remote_type handle)" let ?s = "hb_s h ! ?i"
  have s: "slave_ok ?s" "?i < length (hb_s h)" using harbor_inv_slave [OF inv remote_type_less] by simp_all
  show ?thesis
  proof (cases "sl_fd ?s = 0")
    case False
    from drain_gives [where f = "send_and_free (sl_fd ?s) (set_destination handle)" and h = h, OF q send_and_free_gives] obtain es q' where
      d: "drain_all (send_and_free (sl_fd ?s) (set_destination handle)) queue h = Some (h\<lparr>hb_outs := hb_outs h @ es\<rparr>, q')" "hq_ok q'"
      "queue_list q' = []" "given es = queue_held (Some queue)" by blast
    have "dispatch_name_queue queue handle h = Some (Some q', h\<lparr>hb_outs := hb_outs h @ es\<rparr>)" using False s d(1) by (simp add: dispatch_name_queue_def Let_def)
    then show ?thesis using d inv by (intro exI [of _ "Some q'"] exI [of _ "h\<lparr>hb_outs := hb_outs h @ es\<rparr>"] exI [of _ es]) (simp add: queue_held_def)
  next
    case True
    have st: "sl_status ?s = St_wait" using s(1) True by (simp add: slave_ok_def)
    have "\<exists>sq nq. (case sl_queue ?s of None \<Rightarrow> Some (queue, None)
        | Some sq \<Rightarrow> do { (sq1, q1) \<leftarrow> drain_all push_queue_msg queue sq; Some (sq1, Some q1) }) = Some (sq, nq) \<and> hq_ok sq \<and> (\<forall>q'. nq = Some q' \<longrightarrow> hq_ok q') \<and>
        queue_held (Some sq) = queue_held (sl_queue ?s) + queue_held (Some queue) \<and> queue_held nq = {#}"
    proof (cases "sl_queue ?s")
      case None
      then show ?thesis using q by (simp add: queue_held_def)
    next
      case (Some sq)
      then have "hq_ok sq" using s(1) by (simp add: slave_ok_def slave_queue_ok_def)
      from fold_push [OF this, of "queue_list queue"] obtain sq1 where f: "fold_some push_queue_msg (queue_list queue) sq = Some sq1" "hq_ok sq1"
        "queue_list sq1 = queue_list sq @ queue_list queue" by blast
      from drain_all_spec [OF q f(1)] obtain q1 where "drain_all push_queue_msg queue sq = Some (sq1, q1)" "hq_ok q1" "queue_list q1 = []" by blast
      then show ?thesis using Some f by (simp add: queue_held_def)
    qed
    then obtain sq nq where sq: "(case sl_queue ?s of None \<Rightarrow> Some (queue, None)
        | Some sq \<Rightarrow> do { (sq1, q1) \<leftarrow> drain_all push_queue_msg queue sq; Some (sq1, Some q1) }) = Some (sq, nq)" "hq_ok sq" "\<forall>q'. nq = Some q' \<longrightarrow> hq_ok q'"
        "queue_held (Some sq) = queue_held (sl_queue ?s) + queue_held (Some queue)" "queue_held nq = {#}"
      by blast
    let ?h1 = "set_slave ?i (?s\<lparr>sl_queue := Some sq\<rparr>) h"
    have ok1: "slave_ok (?s\<lparr>sl_queue := Some sq\<rparr>)" "slave_ok (?s\<lparr>sl_queue := None\<rparr>)"
      using s(1) st sq(2) by (simp_all add: slave_ok_def slave_queue_ok_def)
    have h1: "slaves_held (hb_s ?h1) = slaves_held (hb_s h) + queue_held (Some queue)"
      using slaves_update [OF s(2), of "?s\<lparr>sl_queue := Some sq\<rparr>"] sq(4) by (simp add: ac_simps)
    show ?thesis
    proof (cases "remote_type handle = remote_type (hb_slave h)")
      case False
      then have "dispatch_name_queue queue handle h = Some (nq, ?h1)" using s(2) True st sq(1) by (simp add: dispatch_name_queue_def Let_def)
      then show ?thesis using harbor_inv_set [OF inv ok1(1)] sq(3,5) h1 by (intro exI [of _ nq] exI [of _ ?h1] exI [of _ "[]"]) simp
    next
      case local: True
      from drain_gives [where f = "send_local handle" and h = ?h1, OF sq(2) send_local_gives] obtain es sq1 where
        d: "drain_all (send_local handle) sq ?h1 = Some (?h1\<lparr>hb_outs := hb_outs ?h1 @ es\<rparr>, sq1)" "hq_ok sq1" "queue_list sq1 = []"
        "given es = queue_held (Some sq)" by blast
      let ?h2 = "set_slave ?i (?s\<lparr>sl_queue := None\<rparr>) (h\<lparr>hb_outs := hb_outs h @ es\<rparr>)"
      have "dispatch_name_queue queue handle h = Some (nq, ?h2)"
        using s(2) True st sq(1) local d(1-3) release_empty by (simp add: dispatch_name_queue_def Let_def)
      moreover have "harbor_inv ?h2" by (intro harbor_inv_set ok1) (simp add: inv)
      moreover have "slaves_held (hb_s ?h2) + queue_held (sl_queue ?s) = slaves_held (hb_s h)"
        using slaves_update [OF s(2), of "?s\<lparr>sl_queue := None\<rparr>"] by (simp add: queue_held_def)
      then have "slaves_held (hb_s ?h2) + given es + queue_held nq = slaves_held (hb_s h) + queue_held (Some queue)"
        unfolding d(4) sq(4,5) by (rule moved_along)
      ultimately show ?thesis using sq(3) by (intro exI [of _ nq] exI [of _ ?h2] exI [of _ es]) simp
    qed
  qed
qed

lemma held_map: "harbor_held (h\<lparr>hb_map := m\<rparr>) = slaves_held (hb_s h) + names_held m"
  by (simp add: harbor_held_def)

lemma update_name_conserves:
  assumes inv: "harbor_inv h"
  shows "\<exists>h'. update_name name handle h = Some h' \<and> conserves h h' {#}"
proof -
  obtain p m where p: "find_or_insert (hb_map h) name = (p, m)" by (cases "find_or_insert (hb_map h) name")
  from find_or_insert_spec [OF names_of_inv [OF inv] p] obtain n where n: "names_inv m" "fst p < length m" "snd p < length (m ! fst p)"
    "node_at m p = Some n" "node_ok n" by blast
  have at: "m ! fst p ! snd p = n" using n(4) by (auto simp: node_at_def split: bind_splits)
  have same: "names_held m = names_held (hb_map h)" using names_insert [OF p] inv by (simp add: harbor_inv_def)
  let ?n = "n\<lparr>kv_value := handle\<rparr>" let ?h1 = "h\<lparr>hb_map := set_node p ?n m\<rparr>"
  have ok: "node_ok ?n" using n(5) by (simp add: node_ok_def)
  have inv1: "harbor_inv ?h1" by (rule harbor_inv_map [OF inv set_node_inv [OF n(1) ok n(2)]])
  have h1: "names_held (set_node p ?n m) = names_held (hb_map h)" using names_update [OF n(2,3), of ?n] at same by simp
  show ?thesis
  proof (cases "kv_queue n")
    case None
    have "conserves h ?h1 {#}" using h1 by (simp add: conserves_def harbor_held_def)
    then show ?thesis using None p n(4) by (simp add: update_name_def)
  next
    case (Some q)
    then have q: "hq_ok q" using n(5) by (simp add: node_ok_def)
    from dispatch_name_conserves [OF inv1 q, of handle] obtain r h2 es where
      r: "dispatch_name_queue q handle ?h1 = Some (r, h2)" "hb_map h2 = hb_map ?h1" "\<forall>q'. r = Some q' \<longrightarrow> hq_ok q'"
      "hb_outs h2 = hb_outs h @ es" "slaves_held (hb_s h2) + given es + queue_held r = slaves_held (hb_s h) + queue_held (Some q)" by auto
    from release_gives [OF r(3)] obtain es2 where
      rel: "release_queue r h2 = Some (h2\<lparr>hb_outs := hb_outs h2 @ es2\<rparr>)" "given es2 = queue_held r" by blast
    let ?m = "set_node p (?n\<lparr>kv_queue := None\<rparr>) (set_node p ?n m)"
    let ?h3 = "h2\<lparr>hb_outs := hb_outs h2 @ es2, hb_map := ?m\<rparr>"
    have res: "update_name name handle h = Some ?h3" using p n(4) Some r(1,2) rel(1) by (simp add: update_name_def Let_def)
    have mm: "?m = set_node p (?n\<lparr>kv_queue := None\<rparr>) m" using n(2) by (simp add: set_node_def)
    have "names_held ?m + queue_held (Some q) = names_held (hb_map h)"
      unfolding mm using names_update [OF n(2,3), of "?n\<lparr>kv_queue := None\<rparr>"] at same Some by (simp add: queue_held_def)
    moreover have "harbor_held ?h3 + given (es @ es2) = names_held ?m + (slaves_held (hb_s h2) + given es + queue_held r)"
      by (simp add: harbor_held_def rel(2) ac_simps)
    ultimately have "harbor_held ?h3 + given (es @ es2) = harbor_held h"
      unfolding r(5) harbor_held_def by (metis moved_out)
    then have "conserves h ?h3 {#}" unfolding conserves_def using r(4) by (intro exI [of _ "es @ es2"]) simp
    then show ?thesis using res by blast
  qed
qed

lemma waiting_held:
  "push_queue_msg m (case q of None \<Rightarrow> new_queue | Some q \<Rightarrow> q) = Some q' \<Longrightarrow> \<forall>q0. q = Some q0 \<longrightarrow> hq_ok q0 \<Longrightarrow>
   queue_held (Some q') = queue_held q + {#hm_buffer m#}"
proof -
  assume p: "push_queue_msg m (case q of None \<Rightarrow> new_queue | Some q \<Rightarrow> q) = Some q'" and ok: "\<forall>q0. q = Some q0 \<longrightarrow> hq_ok q0"
  have "hq_ok (case q of None \<Rightarrow> new_queue | Some q \<Rightarrow> q)" using ok by (auto split: option.splits)
  from hq_push_spec [OF this, of m] p have "queue_list q' = queue_list (case q of None \<Rightarrow> new_queue | Some q \<Rightarrow> q) @ [m]" by auto
  then show ?thesis by (auto simp: queue_held_def split: option.splits)
qed

lemma push_waiting:
  assumes "\<forall>q0. q = Some q0 \<longrightarrow> hq_ok q0"
  shows "\<exists>q'. push_queue msg c (case q of None \<Rightarrow> new_queue | Some q \<Rightarrow> q) = Some q' \<and> queue_held (Some q') = queue_held q + {#msg#}"
proof -
  have "hq_ok (case q of None \<Rightarrow> new_queue | Some q \<Rightarrow> q)" using assms by (auto split: option.splits)
  from hq_push_spec [OF this] show ?thesis using waiting_held [OF _ assms] unfolding push_queue_def by fastforce
qed

lemma remote_send_handle_conserves:
  assumes inv: "harbor_inv h"
  shows "\<exists>k h'. remote_send_handle source destination type session msg h = Some (k, h') \<and> conserves h h' (if k then {#msg#} else {#})"
proof (cases "remote_type destination = hb_id h")
  case True
  then show ?thesis by (intro exI [of _ True] exI [of _ "hout (H_send source destination (type OR TAG_DONTCOPY) session msg) h"])
    (simp add: remote_send_handle_def conserves_hout)
next
  case False
  let ?i = "nat (remote_type destination)" let ?s = "hb_s h ! ?i"
  have s: "slave_ok ?s" "?i < length (hb_s h)" using harbor_inv_slave [OF inv remote_type_less] by simp_all
  have down: "\<not> (sl_fd ?s = 0 \<and> sl_status ?s = St_down)" using s(1) by (auto simp: slave_ok_def)
  show ?thesis
  proof (cases "sl_fd ?s = 0 \<or> sl_status ?s = St_handshake")
    case True
    have "\<forall>q0. sl_queue ?s = Some q0 \<longrightarrow> hq_ok q0" using s(1) by (simp add: slave_ok_def slave_queue_ok_def)
    from push_waiting [OF this, of msg "remote_cookie source destination type session"] obtain q where
      q: "push_queue msg (remote_cookie source destination type session) (case sl_queue ?s of None \<Rightarrow> new_queue | Some q \<Rightarrow> q) = Some q"
      "queue_held (Some q) = queue_held (sl_queue ?s) + {#msg#}" by blast
    let ?h' = "set_slave ?i (?s\<lparr>sl_queue := Some q\<rparr>) h"
    have "slaves_held (hb_s ?h') = slaves_held (hb_s h) + {#msg#}"
      using slaves_update [OF s(2), of "?s\<lparr>sl_queue := Some q\<rparr>"] q(2) by (simp add: ac_simps)
    then have "conserves h ?h' {#msg#}" by (simp add: conserves_def harbor_held_def)
    moreover have "remote_send_handle source destination type session msg h = Some (True, ?h')"
      using False True down s(2) q(1) by (auto simp: remote_send_handle_def Let_def)
    ultimately show ?thesis by (metis (full_types))
  next
    case f: False
    have "conserves h (send_remote (sl_fd ?s) msg (remote_cookie source destination type session) h) {#}"
      by (simp add: send_remote_def conserves_hout)
    then show ?thesis using False f s(2) by (intro exI [of _ False]) (simp add: remote_send_handle_def Let_def)
  qed
qed

lemma remote_send_name_conserves:
  assumes inv: "harbor_inv h"
  shows "\<exists>k h'. remote_send_name source name type session msg h = Some (k, h') \<and> conserves h h' (if k then {#msg#} else {#})"
proof -
  obtain p m where p: "find_or_insert (hb_map h) name = (p, m)" by (cases "find_or_insert (hb_map h) name")
  from find_or_insert_spec [OF names_of_inv [OF inv] p] obtain n where n: "names_inv m" "fst p < length m" "snd p < length (m ! fst p)"
    "node_at m p = Some n" "node_ok n" by blast
  have at: "m ! fst p ! snd p = n" using n(4) by (auto simp: node_at_def split: bind_splits)
  have same: "names_held m = names_held (hb_map h)" using names_insert [OF p] inv by (simp add: harbor_inv_def)
  have c1: "conserves h (h\<lparr>hb_map := m\<rparr>) {#}" using same by (simp add: conserves_def harbor_held_def)
  show ?thesis
  proof (cases "kv_value n = 0")
    case True
    have "\<forall>q0. kv_queue n = Some q0 \<longrightarrow> hq_ok q0" using n(5) by (simp add: node_ok_def)
    from push_waiting [OF this, of msg "remote_cookie source 0 type session"] obtain q where
      q: "push_queue msg (remote_cookie source 0 type session) (case kv_queue n of None \<Rightarrow> new_queue | Some q \<Rightarrow> q) = Some q"
      "queue_held (Some q) = queue_held (kv_queue n) + {#msg#}" by blast
    let ?h2 = "h\<lparr>hb_map := set_node p (n\<lparr>kv_queue := Some q\<rparr>) m\<rparr>"
    have "names_held (set_node p (n\<lparr>kv_queue := Some q\<rparr>) m) = names_held (hb_map h) + {#msg#}"
      using names_update [OF n(2,3), of "n\<lparr>kv_queue := Some q\<rparr>"] at same q(2) by (simp add: ac_simps)
    then have "conserves h ?h2 {#msg#}" by (simp add: conserves_def harbor_held_def)
    from conserves_trans [OF this conserves_hout [OF gives_simps(8)]] have "conserves h (hout (H_send 0 (hb_slave h) (uint PT_TEXT) 0 (name_query name)) ?h2) {#msg#}" by simp
    then show ?thesis using p n(4) True q(1) by (intro exI [of _ True]) (simp add: remote_send_name_def)
  next
    case False
    have "harbor_inv (h\<lparr>hb_map := m\<rparr>)" by (rule harbor_inv_map [OF inv n(1)])
    from remote_send_handle_conserves [OF this, of source "kv_value n" type session msg] obtain k h' where
      r: "remote_send_handle source (kv_value n) type session msg (h\<lparr>hb_map := m\<rparr>) = Some (k, h')" "conserves (h\<lparr>hb_map := m\<rparr>) h' (if k then {#msg#} else {#})" by blast
    have "conserves h h' (if k then {#msg#} else {#})" using conserves_trans [OF c1 r(2)] by simp
    then show ?thesis using p n(4) False r(1) by (auto simp: remote_send_name_def)
  qed
qed

lemma conserves_set: "i < length (hb_s h) \<Longrightarrow> sl_queue s = sl_queue (hb_s h ! i) \<Longrightarrow> conserves h (set_slave i s h) {#}"
  by (simp add: conserves_def harbor_held_def slaves_same)

lemma conserves_then: "conserves h1 h2 {#} \<Longrightarrow> conserves h2 h3 a \<Longrightarrow> conserves h1 h3 a"
  using conserves_trans [of h1 h2 "{#}" h3 a] by simp

lemma conserves_log [simp]: "conserves h (hout (H_log l) h) {#}"
  by (rule conserves_hout) simp

lemma connect_command_conserves:
  assumes inv: "harbor_inv h" and mem: "2 \<le> sz" "sz + 1 \<le> length mem" "0 \<in> set (take (sz - 1) (drop 2 mem))"
    and sc: "scan_ints int_range int_range (text_of (take (sz - 1) (drop 2 mem))) \<noteq> None"
  shows "\<exists>h'. connect_command w mem sz h = Some h' \<and> conserves h h' {#}"
proof -
  obtain fd i where fi: "scan_ints int_range int_range (text_of (take (sz - 1) (drop 2 mem))) = Some (fd, i)" using sc by auto
  show ?thesis
  proof (cases "fd = 0 \<or> i \<le> 0 \<or> i \<ge> int REMOTE_MAX")
    case True
    then show ?thesis using mem fi by (auto simp: connect_command_def Let_def)
  next
    case False
    let ?i = "nat i" let ?s = "hb_s h ! ?i"
    have i: "?i < REMOTE_MAX" using False by (simp add: nat_less_iff)
    have s: "slave_ok ?s" "?i < length (hb_s h)" using harbor_inv_slave [OF inv i] by simp_all
    show ?thesis
    proof (cases "sl_fd ?s = 0")
      case used: False
      then show ?thesis using False mem fi s(2) by (simp add: connect_command_def Let_def)
    next
      case free: True
      let ?h1 = "hout (H_write fd [of_int (hb_id h)]) (hout (H_start fd) (set_slave ?i (?s\<lparr>sl_fd := fd\<rparr>) h))"
      let ?h2 = "\<lambda>st. set_slave ?i (?s\<lparr>sl_fd := fd, sl_status := st\<rparr>) ?h1"
      have c: "connect_command w mem sz h = (if w then Some (?h2 St_handshake) else dispatch_queue ?i (?h2 St_header))"
        using False mem fi s(2) free by (simp add: connect_command_def Let_def handshake_def)
      have c1: "conserves h (set_slave ?i (?s\<lparr>sl_fd := fd\<rparr>) h) {#}" by (rule conserves_set) (use s(2) in simp_all)
      have c2: "conserves (set_slave ?i (?s\<lparr>sl_fd := fd\<rparr>) h) ?h1 {#}"
        by (rule conserves_then [OF conserves_hout [OF gives_simps(5)] conserves_hout [OF gives_simps(3)]])
      have c3: "conserves ?h1 (?h2 st) {#}" for st by (rule conserves_set) (use s(2) in simp_all)
      have c4: "conserves h (?h2 st) {#}" for st by (rule conserves_then [OF conserves_then [OF c1 c2] c3])
      have "\<exists>h'. dispatch_queue ?i (?h2 St_header) = Some h' \<and> conserves (?h2 St_header) h' {#}"
        by (rule dispatch_queue_conserves) (use s False in \<open>simp_all add: slave_ok_def slave_queue_ok_def\<close>)
      then show ?thesis unfolding c using c4 conserves_then [OF c4] by (cases w) auto
    qed
  qed
qed

lemma command_conserves:
  assumes inv: "harbor_inv h" and ok: "command_ok mem sz"
  shows "\<exists>h'. harbor_command mem sz source h = Some h' \<and> conserves h h' {#}"
proof -
  have m: "mem \<noteq> []" using ok by (simp add: command_ok_def)
  consider "mem ! 0 = 78" | "mem ! 0 = 83 \<or> mem ! 0 = 65" | "mem ! 0 \<noteq> 78 \<and> mem ! 0 \<noteq> 83 \<and> mem ! 0 \<noteq> 65" by blast
  then show ?thesis
  proof cases
    case 1
    then have "sz \<le> length mem" using ok by (simp add: command_ok_def)
    then show ?thesis using 1 m update_name_conserves [OF inv] by (auto simp: harbor_command_def name_command_def Let_def)
  next
    case 2
    have c: "2 \<le> sz" "sz + 1 \<le> length mem" "0 \<in> set (take (sz - 1) (drop 2 mem))"
      "scan_ints int_range int_range (text_of (take (sz - 1) (drop 2 mem))) \<noteq> None" using ok 2 unfolding command_ok_def by blast+
    from 2 show ?thesis using connect_command_conserves [OF inv c] m by (auto simp: harbor_command_def)
  next
    case 3
    then show ?thesis using m by (simp add: harbor_command_def)
  qed
qed

text \<open>
  What comes in: the message of an \<open>In_system\<close>; for data of a socket its buffer and the receive buffers of the remote messages that it
  completes.
\<close>

definition came_in :: "harbor \<Rightarrow> harbor_in \<Rightarrow> u8 list multiset" where
  "came_in h x =
     (case x of
        In_system source name handle type session msg \<Rightarrow> {#msg#}
      | In_socket m \<Rightarrow>
          if sm_type m = S_DATA then
            add_mset (sm_buffer m) (case harbor_of h (sm_id m) of None \<Rightarrow> {#} | Some i \<Rightarrow> payloads (data_messages (hb_s h ! i) i (sm_buffer m)))
          else {#}
      | _ \<Rightarrow> {#})"

lemma data_conserves:
  assumes "data_accounts i h d h'" and "i < length (hb_s h)"
  shows "conserves h h' (payloads (data_messages (hb_s h ! i) i d))"
proof -
  obtain s' es where s': "h' = set_slave i s' (h\<lparr>hb_outs := hb_outs h @ es\<rparr>)"
    "queue_held (sl_queue s') + given es = queue_held (sl_queue (hb_s h ! i)) + payloads (data_messages (hb_s h ! i) i d)"
    using assms(1) by (auto simp: data_accounts_def)
  have "slaves_held (hb_s h') + queue_held (sl_queue (hb_s h ! i)) = slaves_held (hb_s h) + queue_held (sl_queue s')"
    using slaves_update [OF assms(2), of s'] s'(1) by simp
  then have "slaves_held (hb_s h') + given es + queue_held (sl_queue (hb_s h ! i)) =
      slaves_held (hb_s h) + payloads (data_messages (hb_s h ! i) i d) + queue_held (sl_queue (hb_s h ! i))"
    using s'(2) by (metis (no_types, lifting) add.assoc add.commute)
  then have "slaves_held (hb_s h') + given es = slaves_held (hb_s h) + payloads (data_messages (hb_s h ! i) i d)" by simp
  then show ?thesis unfolding conserves_def harbor_held_def using s'(1) by (intro exI [of _ es]) (simp add: ac_simps)
qed

lemma socket_data_conserves:
  assumes inv: "harbor_inv h" and ok: "harbor_input_ok h (In_socket m)" and d: "sm_type m = S_DATA"
  shows "\<exists>h'. mainloop reach (In_socket m) h = Some h' \<and> conserves h h' (came_in h (In_socket m))"
proof (cases "harbor_of h (sm_id m)")
  case None
  then show ?thesis using d conserves_then [OF conserves_log conserves_hout [OF gives_simps(1)]]
    by (simp add: mainloop_def socket_event_def push_socket_data_def came_in_def)
next
  case (Some i)
  have v: "sm_ud m = int (length (sm_buffer m))" "data_ok (hb_s h ! i) i (sm_buffer m)" using ok d Some by (simp_all add: harbor_input_ok_def)
  have i: "i < length (hb_s h)" using find_fd_Some [OF Some [unfolded harbor_of_def]] by simp
  from push_socket_data_accounts [OF inv Some v, of reach] obtain h1 where h1: "push_socket_data reach m h = Some h1" "data_accounts i h (sm_buffer m) h1" by blast
  have "conserves h (hout (H_free (sm_buffer m)) h1) (payloads (data_messages (hb_s h ! i) i (sm_buffer m)) + {#sm_buffer m#})"
    by (rule conserves_trans [OF data_conserves [OF h1(2) i] conserves_hout]) simp
  then show ?thesis using h1(1) d Some by (simp add: mainloop_def socket_event_def came_in_def)
qed

text \<open>
  C26. No buffer is lost or freed twice: for every input of the main loop, the data of a socket included, other
  than a malformed command or a body without room for the cookie (\<open>harbor_input_ok\<close>), the buffers that the service
  holds afterwards in the queues of nodes and names together with those it gave up, freed or sent without a copy, are those it held before
  and those that came in: the message to another node, or the buffer of the socket message and one receive buffer for every remote message
  that its bytes complete.  So a handshake frees the queue after it is sent, a connection that is refused frees its queue, and a remote
  message is given away once, whether its destination is there or not.  A receive buffer that is not complete yet is not counted.
\<close>

theorem harbor_owns_messages:
  assumes "harbor_inv h" and "harbor_input_ok h x"
  shows "\<exists>h' es. mainloop reach x h = Some h' \<and> hb_outs h' = hb_outs h @ es \<and> harbor_held h' + given es = harbor_held h + came_in h x"
proof -
  have "\<exists>h'. mainloop reach x h = Some h' \<and> conserves h h' (came_in h x)"
  proof (cases x)
    case (In_socket m)
    show ?thesis
    proof (cases "sm_type m = S_DATA")
      case True
      then show ?thesis using socket_data_conserves [OF assms(1), of m reach] assms(2) In_socket by simp
    next
      case False
      then show ?thesis using In_socket conserves_refl conserves_hout [OF gives_simps(8)]
        by (auto simp: mainloop_def socket_event_def report_harbor_down_def came_in_def split: socket_type.splits option.splits)
    qed
  next
    case (In_harbor mem sz source)
    then show ?thesis using command_conserves [OF assms(1), of mem sz source] assms(2) by (simp add: mainloop_def harbor_input_ok_def came_in_def)
  next
    case (In_system source name handle type session msg)
    from remote_send_handle_conserves [OF assms(1), of source handle type session msg] remote_send_name_conserves [OF assms(1), of source name type session msg]
    obtain k h' where r: "(if handle = 0 then remote_send_name source name type session msg h else remote_send_handle source handle type session msg h) = Some (k, h')"
      "conserves h h' (if k then {#msg#} else {#})" by (cases "handle = 0") auto
    have "conserves h (if k then h' else hout (H_free msg) h') {#msg#}"
      using r(2) conserves_then [OF _ conserves_hout [OF gives_simps(1)]] by (cases k) auto
    then show ?thesis using In_system r(1) by (simp add: mainloop_def came_in_def)
  next
    case (In_other type session source)
    then show ?thesis using conserves_then [OF conserves_log conserves_hout [OF gives_simps(7)]] by (simp add: mainloop_def Let_def came_in_def)
  qed
  then show ?thesis unfolding conserves_def by blast
qed

text \<open>A message of one byte arrives on the connection to node 1.\<close>

definition one_message :: "u8 list" where
  "one_message = [0, 0, 0, 13, 65, 1, 0, 0, 5, 1, 0, 0, 7, 0, 0, 0, 3]"

lemma node_two_inv: "harbor_inv node_two"
proof -
  have "slave_ok (hb_s node_two ! i)" if "i < REMOTE_MAX" for i
    using that by (cases "i = 1") (simp_all add: node_two_def slave_ok_def slave_zero_def slave_queue_ok_def receiving_def)
  then show ?thesis by (auto simp: harbor_inv_def node_two_def harbor_create_def)
qed

lemma one_message_completes: "payloads (data_messages (hb_s node_two ! 1) 1 one_message) = {#[65]#} \<and> data_ok (hb_s node_two ! 1) 1 one_message"
  by (simp add: node_two_def REMOTE_MAX_def data_messages_def data_ok_def slave_zero_def pending_bytes_def one_message_def body_length_def
      HEADER_COOKIE_LENGTH_def)

theorem harbor_owns_messages_witness:
  "\<exists>h' es. mainloop (\<lambda>_. True) (socket_data 11 one_message) node_two = Some h' \<and> hb_outs h' = hb_outs node_two @ es \<and>
    harbor_held h' + given es = harbor_held node_two + {#one_message, [65]#}"
proof -
  have f: "harbor_of node_two 11 = Some 1" using node_two_receives by (simp add: receives_def)
  have ok: "harbor_input_ok node_two (socket_data 11 one_message)" using f one_message_completes by (simp add: harbor_input_ok_def socket_data_def)
  have "came_in node_two (socket_data 11 one_message) = {#one_message, [65]#}"
    using f one_message_completes by (simp add: came_in_def socket_data_def)
  then show ?thesis using harbor_owns_messages [OF node_two_inv ok, of "\<lambda>_. True"] by simp
qed

end
