(* ===== verification/Cluster.thy ===== *)
theory Cluster
  imports Prelude
begin

text \<open>
  The packets of cluster requests and responses of \<^verbatim>\<open>lualib-src/lua-cluster.c\<close>.  Each function is a Lua function: its result is \<open>Inl\<close> of
  the message of a Lua error or \<open>Inr\<close> of the list of its results, and \<open>None\<close> when it leaves its memory or fails an assertion.
  A packer that takes a message also says whether it freed it.  Numbers of Lua are integers here, and the arguments have the
  types that the functions check.
\<close>

section \<open>Values\<close>

datatype cluster_val =
    V_nil
  | V_bool bool
  | V_int int
  | V_string "u8 list"
  | V_data "u8 list"
  | V_table "u8 list list"

text \<open>\<open>V_data\<close> is a light userdata, a pointer to these bytes.  The first argument of a packer: a number or a string.\<close>

datatype cluster_addr = A_number int | A_string "u8 list" | A_other

type_synonym lua_results = "string + cluster_val list"

definition TEMP_LENGTH :: nat where "TEMP_LENGTH = 0x8200"
definition MULTI_PART :: nat where "MULTI_PART = 0x8000"

section \<open>Requests\<close>

definition fill_uint32 :: "u32 \<Rightarrow> u8 list" where
  "fill_uint32 n = [ucast (n AND 0xFF), ucast (drop_bit 8 n AND 0xFF), ucast (drop_bit 16 n AND 0xFF), ucast (drop_bit 24 n AND 0xFF)]"

definition fill_header :: "nat \<Rightarrow> u8 list option" where
  "fill_header sz = do { assert_that (sz < 0x10000); Some [of_nat (sz div 256), of_nat (sz mod 256)] }"

text \<open>A packet has to fit the temporary buffer, and its message has to be there.\<close>

definition temp_packet :: "u8 list \<Rightarrow> u8 list \<Rightarrow> nat \<Rightarrow> u8 list option" where
  "temp_packet front msg sz = do { assert_that (sz \<le> length msg \<and> length front + sz \<le> TEMP_LENGTH); Some (front @ take sz msg) }"

text \<open>The second result is the number of further packets.\<close>

definition packreq_number :: "int \<Rightarrow> u32 \<Rightarrow> u8 list \<Rightarrow> u32 \<Rightarrow> bool \<Rightarrow> (u8 list \<times> nat) option" where
  "packreq_number addr session msg sz is_push =
     (if unat sz < MULTI_PART then do {
        h \<leftarrow> fill_header (unat sz + 9);
        p \<leftarrow> temp_packet (h @ [0] @ fill_uint32 (of_int addr) @ fill_uint32 (if is_push then 0 else session)) msg (unat sz);
        Some (p, 0) }
      else do {
        let part = (unat sz - 1) div MULTI_PART + 1;
        h \<leftarrow> fill_header 13;
        Some (h @ [if is_push then 0x41 else 1] @ fill_uint32 (of_int addr) @ fill_uint32 session @ fill_uint32 sz, part) })"

definition packreq_string :: "cluster_addr \<Rightarrow> u32 \<Rightarrow> u8 list \<Rightarrow> u32 \<Rightarrow> bool \<Rightarrow> (string + u8 list \<times> nat) option" where
  "packreq_string addr session msg sz is_push =
     (case addr of
        A_string name \<Rightarrow>
          if length name < 1 \<or> length name > 255 then Some (Inl ''name is too long'')
          else if unat sz < MULTI_PART then do {
            h \<leftarrow> fill_header (unat sz + 6 + length name);
            p \<leftarrow> temp_packet (h @ [0x80] @ [of_nat (length name)] @ name @ fill_uint32 (if is_push then 0 else session)) msg (unat sz);
            Some (Inr (p, 0)) }
          else do {
            let part = (unat sz - 1) div MULTI_PART + 1;
            h \<leftarrow> fill_header (10 + length name);
            Some (Inr (h @ [if is_push then 0xC1 else 0x81] @ [of_nat (length name)] @ name @ fill_uint32 session @ fill_uint32 sz, part)) }
      | _ \<Rightarrow> Some (Inl ''name is not a string''))"

text \<open>The loop over the parts.\<close>

fun multi_parts :: "nat \<Rightarrow> u32 \<Rightarrow> u8 list \<Rightarrow> nat \<Rightarrow> u8 list list option" where
  "multi_parts 0 session ptr sz = Some []"
| "multi_parts (Suc n) session ptr sz = do {
     let s = (if sz > MULTI_PART then MULTI_PART else sz);
     let t = (if sz > MULTI_PART then 2 else 3);
     h \<leftarrow> fill_header (s + 5);
     p \<leftarrow> temp_packet (h @ [t] @ fill_uint32 session) ptr s;
     ps \<leftarrow> multi_parts n session (drop s ptr) (sz - s);
     Some (p # ps) }"

definition packreq_multi :: "u32 \<Rightarrow> u8 list \<Rightarrow> u32 \<Rightarrow> u8 list list option" where
  "packreq_multi session msg sz = multi_parts ((unat sz - 1) div MULTI_PART + 1) session msg (unat sz)"

text \<open>The message is a pointer or \<open>NULL\<close>; \<open>n\<close> and \<open>k\<close> are the integers of the session and the size.\<close>

definition packrequest :: "bool \<Rightarrow> cluster_addr \<Rightarrow> int \<Rightarrow> u8 list option \<Rightarrow> int \<Rightarrow> (bool \<times> lua_results) option" where
  "packrequest is_push addr n msg k =
     (case msg of
        None \<Rightarrow> Some (False, Inl ''Invalid request message'')
      | Some m \<Rightarrow>
          let sz = of_int k :: u32; session = sint (of_int n :: u32) in
          if session \<le> 0 then Some (True, Inl ''Invalid request session'')
          else do {
            r \<leftarrow> (case addr of
                A_number a \<Rightarrow> map_option Inr (packreq_number a (of_int session) m sz is_push)
              | _ \<Rightarrow> packreq_string addr (of_int session) m sz is_push);
            case r of
              Inl e \<Rightarrow> Some (True, Inl e)
            | Inr (p, multipak) \<Rightarrow>
                let new_session = (of_int session + 1 :: u32);
                    next_session = (if uint new_session > 0x7FFFFFFF then 1 else uint new_session) in
                if multipak \<noteq> 0 then do {
                  ps \<leftarrow> packreq_multi (of_int session) m sz;
                  Some (True, Inr [V_string p, V_int next_session, V_table ps]) }
                else Some (True, Inr [V_string p, V_int next_session]) })"

definition lpackrequest :: "cluster_addr \<Rightarrow> int \<Rightarrow> u8 list option \<Rightarrow> int \<Rightarrow> (bool \<times> lua_results) option" where
  "lpackrequest = packrequest False"

definition lpackpush :: "cluster_addr \<Rightarrow> int \<Rightarrow> u8 list option \<Rightarrow> int \<Rightarrow> (bool \<times> lua_results) option" where
  "lpackpush = packrequest True"

definition lpacktrace :: "u8 list \<Rightarrow> lua_results option" where
  "lpacktrace tag =
     (if length tag > 0x8000 then Some (Inl ''trace tag is too long'')
      else do {
        h \<leftarrow> fill_header (length tag + 1);
        p \<leftarrow> temp_packet (h @ [4]) tag (length tag);
        Some (Inr [V_string p]) })"

section \<open>Reading requests\<close>

text \<open>\<open>mem\<close> is the memory that may be read from the packet on; of a Lua string that is its bytes and a NUL.
  The shift of a byte into the sign bit of an \<open>int\<close> gives that bit, as the compilers do it.\<close>

definition unpack_uint32 :: "u8 list \<Rightarrow> nat \<Rightarrow> u32 option" where
  "unpack_uint32 mem i = do {
     a \<leftarrow> arr_get mem i;
     b \<leftarrow> arr_get mem (i + 1);
     c \<leftarrow> arr_get mem (i + 2);
     d \<leftarrow> arr_get mem (i + 3);
     Some (ucast a OR push_bit 8 (ucast b) OR push_bit 16 (ucast c) OR push_bit 24 (ucast d)) }"

definition return_buffer :: "u8 list \<Rightarrow> nat \<Rightarrow> int \<Rightarrow> cluster_val list option" where
  "return_buffer mem i sz = do { assert_that (0 \<le> sz \<and> i + nat sz \<le> length mem); Some [V_data (take (nat sz) (drop i mem)), V_int sz] }"

definition get_string :: "u8 list \<Rightarrow> nat \<Rightarrow> nat \<Rightarrow> cluster_val option" where
  "get_string mem i n = do { assert_that (i + n \<le> length mem); Some (V_string (take n (drop i mem))) }"

definition unpackreq_number :: "u8 list \<Rightarrow> int \<Rightarrow> lua_results option" where
  "unpackreq_number mem sz =
     (if sz < 9 then Some (Inl ''Invalid cluster message'')
      else do {
        address \<leftarrow> unpack_uint32 mem 1;
        session \<leftarrow> unpack_uint32 mem 5;
        b \<leftarrow> return_buffer mem 9 (sz - 9);
        Some (Inr ([V_int (uint address), V_int (uint session)] @ b @ (if session = 0 then [V_nil, V_bool True] else []))) })"

definition unpackmreq_number :: "u8 list \<Rightarrow> int \<Rightarrow> bool \<Rightarrow> lua_results option" where
  "unpackmreq_number mem sz is_push =
     (if sz \<noteq> 13 then Some (Inl ''Invalid cluster message size'')
      else do {
        address \<leftarrow> unpack_uint32 mem 1;
        session \<leftarrow> unpack_uint32 mem 5;
        n \<leftarrow> unpack_uint32 mem 9;
        Some (Inr [V_int (uint address), V_int (uint session), V_nil, V_int (uint n), V_bool True, V_bool is_push]) })"

definition unpackmreq_part :: "u8 list \<Rightarrow> int \<Rightarrow> lua_results option" where
  "unpackmreq_part mem sz =
     (if sz < 5 then Some (Inl ''Invalid cluster multi part message'')
      else do {
        t \<leftarrow> arr_get mem 0;
        session \<leftarrow> unpack_uint32 mem 1;
        b \<leftarrow> return_buffer mem 5 (sz - 5);
        Some (Inr ([V_bool False, V_int (uint session)] @ b @ [V_bool (t = 2)])) })"

definition unpacktrace :: "u8 list \<Rightarrow> int \<Rightarrow> lua_results option" where
  "unpacktrace mem sz = do { assert_that (1 \<le> sz); s \<leftarrow> get_string mem 1 (nat (sz - 1)); Some (Inr [s]) }"

definition unpackreq_string :: "u8 list \<Rightarrow> int \<Rightarrow> lua_results option" where
  "unpackreq_string mem sz =
     (if sz < 2 then Some (Inl ''Invalid cluster message'')
      else do {
        b1 \<leftarrow> arr_get mem 1;
        let namesz = unat b1;
        if sz < int namesz + 6 then Some (Inl ''Invalid cluster message'')
        else do {
          name \<leftarrow> get_string mem 2 namesz;
          session \<leftarrow> unpack_uint32 mem (namesz + 2);
          b \<leftarrow> return_buffer mem (2 + namesz + 4) (sz - int namesz - 6);
          Some (Inr ([name, V_int (uint session)] @ b @ (if session = 0 then [V_nil, V_bool True] else []))) } })"

definition unpackmreq_string :: "u8 list \<Rightarrow> int \<Rightarrow> bool \<Rightarrow> lua_results option" where
  "unpackmreq_string mem sz is_push =
     (if sz < 2 then Some (Inl ''Invalid cluster message'')
      else do {
        b1 \<leftarrow> arr_get mem 1;
        let namesz = unat b1;
        if sz < int namesz + 10 then Some (Inl ''Invalid cluster message'')
        else do {
          name \<leftarrow> get_string mem 2 namesz;
          session \<leftarrow> unpack_uint32 mem (namesz + 2);
          n \<leftarrow> unpack_uint32 mem (namesz + 6);
          Some (Inr [name, V_int (uint session), V_nil, V_int (uint n), V_bool True, V_bool is_push]) } })"

definition lunpackrequest :: "u8 list \<Rightarrow> int \<Rightarrow> lua_results option" where
  "lunpackrequest mem sz = do {
     t \<leftarrow> arr_get mem 0;
     if t = 0 then unpackreq_number mem sz
     else if t = 1 then unpackmreq_number mem sz False
     else if t = 0x41 then unpackmreq_number mem sz True
     else if t = 2 \<or> t = 3 then unpackmreq_part mem sz
     else if t = 4 then unpacktrace mem sz
     else if t = 0x80 then unpackreq_string mem sz
     else if t = 0x81 then unpackmreq_string mem sz False
     else if t = 0xC1 then unpackmreq_string mem sz True
     else Some (Inl ''Invalid req package type'') }"

section \<open>Responses\<close>

fun response_parts :: "nat \<Rightarrow> u32 \<Rightarrow> u8 list \<Rightarrow> nat \<Rightarrow> u8 list list option" where
  "response_parts 0 session ptr sz = Some []"
| "response_parts (Suc n) session ptr sz = do {
     let s = (if sz > MULTI_PART then MULTI_PART else sz);
     let t = (if sz > MULTI_PART then 3 else 4);
     h \<leftarrow> fill_header (s + 5);
     p \<leftarrow> temp_packet (h @ fill_uint32 session @ [t]) ptr s;
     ps \<leftarrow> response_parts n session (drop s ptr) (sz - s);
     Some (p # ps) }"

text \<open>The number of parts is computed with \<open>int\<close>, whose division rounds to zero.\<close>

definition part_quotient :: "int \<Rightarrow> int" where
  "part_quotient n = (if n < 0 then - ((- n) div int MULTI_PART) else n div int MULTI_PART)"

definition lpackresponse :: "int \<Rightarrow> bool \<Rightarrow> u8 list \<Rightarrow> nat \<Rightarrow> lua_results option" where
  "lpackresponse n ok msg sz =
     (let session = of_int n :: u32 in
      if ok \<and> sz > MULTI_PART then do {
        isz1 \<leftarrow> int_range (sint (of_nat sz :: u32) - 1);
        h \<leftarrow> fill_header 9;
        ps \<leftarrow> response_parts (nat (part_quotient isz1 + 1)) session msg sz;
        Some (Inr [V_table ((h @ fill_uint32 session @ [2] @ fill_uint32 (of_nat sz)) # ps)]) }
      else do {
        let s = (if \<not> ok \<and> sz > MULTI_PART then MULTI_PART else sz);
        h \<leftarrow> fill_header (s + 5);
        p \<leftarrow> temp_packet (h @ fill_uint32 session @ [if ok then 1 else 0]) msg s;
        Some (Inr [V_string p]) })"

definition lunpackresponse :: "u8 list \<Rightarrow> lua_results option" where
  "lunpackresponse buf =
     (let sz = length buf; mem = buf @ [0] in
      if sz < 5 then Some (Inr [])
      else do {
        session \<leftarrow> unpack_uint32 mem 0;
        t \<leftarrow> arr_get mem 4;
        let s = V_int (uint session);
        let b = V_string (drop 5 buf);
        if t = 0 then Some (Inr [s, V_bool False, b])
        else if t = 1 \<or> t = 4 then Some (Inr [s, V_bool True, b])
        else if t = 2 then
          if sz \<noteq> 9 then Some (Inr [])
          else do { n \<leftarrow> unpack_uint32 mem 5; Some (Inr [s, V_bool True, V_int (uint n), V_bool True]) }
        else if t = 3 then Some (Inr [s, V_bool True, b, V_bool True])
        else Some (Inr []) })"

section \<open>Joining\<close>

text \<open>The table of the parts is the list of its elements.\<close>

definition lappend :: "cluster_val list \<Rightarrow> cluster_val \<Rightarrow> cluster_val \<Rightarrow> (string + cluster_val list) option" where
  "lappend t v k =
     (case v of
        V_nil \<Rightarrow> Some (Inr (if k = V_nil then t else t @ [k]))
      | V_data b \<Rightarrow>
          (case k of
             V_int n \<Rightarrow> do {
               let sz = sint (of_int n :: u32);
               assert_that (0 \<le> sz \<and> nat sz \<le> length b);
               Some (Inr (t @ [V_string (take (nat sz) b)])) }
           | _ \<Rightarrow> Some (Inl ''number expected''))
      | _ \<Rightarrow> Some (Inl ''Need lightuserdata''))"

text \<open>The loop: \<open>None\<close> within when the result is nothing.\<close>

fun concat_loop :: "int \<Rightarrow> cluster_val list \<Rightarrow> u8 list \<Rightarrow> u8 list option option" where
  "concat_loop sz (V_string s # vs) buff = do {
     n \<leftarrow> int_range (sint (of_nat (length s) :: u32) + int (length buff));
     if n > sz then Some None
     else do { assert_that (int (length buff) + int (length s) \<le> sz); concat_loop sz vs (buff @ s) } }"
| "concat_loop sz vs buff = Some (if int (length buff) \<noteq> sz then None else Some buff)"

definition lconcat :: "cluster_val list \<Rightarrow> lua_results option" where
  "lconcat t =
     (case t of
        V_int n # vs \<Rightarrow> do {
          let sz = sint (of_int n :: u32);
          assert_that (0 \<le> sz);
          r \<leftarrow> concat_loop sz vs [];
          Some (Inr (case r of None \<Rightarrow> [] | Some buff \<Rightarrow> [V_data buff, V_int sz])) }
      | _ \<Rightarrow> Some (Inr []))"

definition lisname :: "cluster_addr \<Rightarrow> cluster_val list" where
  "lisname a = (case a of A_string s \<Rightarrow> if s \<noteq> [] \<and> hd s = 0x40 then [V_bool True] else [] | _ \<Rightarrow> [])"

end
