(* ===== verification/ClusterProps.thy ===== *)
theory ClusterProps
  imports NetPack Cluster
begin

text \<open>
  What the packers of \<^verbatim>\<open>lua-cluster.c\<close> write, their counterparts read back: requests and responses of any size.
\<close>

section \<open>Numbers and frames\<close>

lemma length_fill_uint32 [simp]: "length (fill_uint32 n) = 4"
  by (simp add: fill_uint32_def)

lemma join_fill_uint32:
  "ucast (fill_uint32 n ! 0) OR push_bit 8 (ucast (fill_uint32 n ! 1)) OR push_bit 16 (ucast (fill_uint32 n ! 2)) OR push_bit 24 (ucast (fill_uint32 n ! 3)) = (n :: u32)"
proof (rule bit_eqI)
  fix k assume "possible_bit TYPE(32 word) k"
  then have n: "k < 32" by simp
  have ff: "(0xFF :: u32) = mask 8" by (simp add: mask_eq_exp_minus_1)
  consider "k < 8" | j where "k = j + 8" "j < 8" | j where "k = j + 16" "j < 8" | j where "k = j + 24" "j < 8"
  proof -
    have "k = (k - 8) + 8 \<and> k - 8 < 8 \<or> k = (k - 16) + 16 \<and> k - 16 < 8 \<or> k = (k - 24) + 24 \<and> k - 24 < 8 \<or> k < 8" using n by linarith
    then show ?thesis using that by blast
  qed
  then show "bit (ucast (fill_uint32 n ! 0) OR push_bit 8 (ucast (fill_uint32 n ! 1)) OR push_bit 16 (ucast (fill_uint32 n ! 2)) OR push_bit 24 (ucast (fill_uint32 n ! 3)) :: u32) k = bit n k"
    unfolding fill_uint32_def ff by cases (simp_all add: bit_simps add.commute)
qed

lemma unpack_filled: "unpack_uint32 (xs @ fill_uint32 n @ ys) (length xs) = Some n"
proof -
  have "arr_get (xs @ fill_uint32 n @ ys) (length xs + i) = Some (fill_uint32 n ! i)" if "i < 4" for i
    using that by (simp add: nth_append)
  from this [of 0] this [of 1] this [of 2] this [of 3] show ?thesis using join_fill_uint32 [of n] by (simp add: unpack_uint32_def add.assoc)
qed

lemma fill_header_Some: "n < 0x10000 \<Longrightarrow> fill_header n = Some (write_size n)"
  by (simp add: fill_header_def write_size_def)

text \<open>A packet whose body fits its length.\<close>

definition framed :: "u8 list \<Rightarrow> u8 list \<Rightarrow> bool" where
  "framed p body \<longleftrightarrow> p = write_size (length body) @ body \<and> length body < 0x10000"

lemma split_framed: "list_all2 framed ps bs \<Longrightarrow> split_packs (concat ps) = (bs, [])"
  by (induction rule: list_all2_induct) (simp_all add: framed_def split_write_size)

section \<open>Addresses\<close>

definition address_ok :: "cluster_addr \<Rightarrow> bool" where
  "address_ok a = (case a of A_number n \<Rightarrow> 0 \<le> n \<and> n < 2 ^ 32 | A_string s \<Rightarrow> 1 \<le> length s \<and> length s \<le> 255 | A_other \<Rightarrow> False)"

definition address_val :: "cluster_addr \<Rightarrow> cluster_val" where
  "address_val a = (case a of A_number n \<Rightarrow> V_int n | A_string s \<Rightarrow> V_string s | A_other \<Rightarrow> V_nil)"

text \<open>The type byte, and the address behind it.\<close>

definition address_bytes :: "u8 \<Rightarrow> cluster_addr \<Rightarrow> u8 list" where
  "address_bytes t a = (case a of A_number n \<Rightarrow> t # fill_uint32 (of_int n) | A_string s \<Rightarrow> (t OR 0x80) # of_nat (length s) # s | A_other \<Rightarrow> [])"

definition session_ok :: "int \<Rightarrow> bool" where
  "session_ok s \<longleftrightarrow> 0 < s \<and> s < 2 ^ 31"

definition next_session :: "int \<Rightarrow> int" where
  "next_session s = (if s = 2 ^ 31 - 1 then 1 else s + 1)"

lemma session_word: "session_ok s \<Longrightarrow> sint (of_int s :: u32) = s \<and> uint (of_int s :: u32) = s \<and> (of_int s :: u32) \<noteq> 0 \<and>
   (if uint (of_int s + 1 :: u32) > 0x7FFFFFFF then 1 else uint (of_int s + 1 :: u32)) = next_session s"
proof -
  assume s: "session_ok s"
  then have r: "0 < s" "s < 2 ^ 31" by (simp_all add: session_ok_def)
  have u: "uint (of_int s :: u32) = s" using r by (simp add: uint_word_of_int)
  have "sint (of_int s :: u32) = s" using r by (simp add: signed_of_int signed_take_bit_int_eq_self)
  moreover have "(of_int s :: u32) \<noteq> 0" using u r by (metis less_irrefl unsigned_0)
  moreover have "uint (of_int s + 1 :: u32) = s + 1" using u r by (simp add: uint_plus_if_size word_size)
  ultimately show ?thesis using u r by (auto simp: next_session_def)
qed

lemma of_nat_byte: "n \<le> 255 \<Longrightarrow> unat (of_nat n :: u8) = n"
  by (simp add: unat_of_nat)

lemma small_word: "0 \<le> k \<Longrightarrow> k < 2 ^ 31 \<Longrightarrow> uint (of_int k :: u32) = k \<and> sint (of_int k :: u32) = k \<and> unat (of_int k :: u32) = nat k"
proof -
  assume k: "0 \<le> k" "k < 2 ^ 31"
  have u: "uint (of_int k :: u32) = k" using k by (simp add: uint_word_of_int)
  moreover have "sint (of_int k :: u32) = k" using k by (simp add: signed_of_int signed_take_bit_int_eq_self)
  moreover have "unat (of_int k :: u32) = nat (uint (of_int k :: u32))" by simp
  then have "unat (of_int k :: u32) = nat k" unfolding u .
  ultimately show ?thesis by simp
qed

lemma data_word:
  assumes "length d < 2 ^ 31"
  shows "unat (of_int (int (length d)) :: u32) = length d" and "sint (of_int (int (length d)) :: u32) = int (length d)"
    and "uint (of_int (int (length d)) :: u32) = int (length d)"
  using small_word [of "int (length d)"] assms by simp_all

lemma buffer_behind: "return_buffer (xs @ d @ ys) (length xs) (int (length d)) = Some [V_data d, V_int (int (length d))]"
  by (simp add: return_buffer_def)

section \<open>One packet\<close>

lemma read_request:
  assumes a: "address_ok a" and s: "s' = 0 \<or> s' = of_int s" "session_ok s"
  shows "lunpackrequest (address_bytes 0 a @ fill_uint32 s' @ d @ [0]) (int (length (address_bytes 0 a @ fill_uint32 s' @ d))) =
    Some (Inr ([address_val a, V_int (if s' = 0 then 0 else s), V_data d, V_int (int (length d))] @ (if s' = 0 then [V_nil, V_bool True] else [])))"
proof (cases a)
  case (A_number n)
  have n: "0 \<le> n" "n < 2 ^ 32" using a A_number by (simp_all add: address_ok_def)
  have u: "uint (of_int n :: u32) = n" using n by (simp add: uint_word_of_int)
  have 1: "unpack_uint32 (0 # fill_uint32 (of_int n) @ fill_uint32 s' @ d @ [0]) 1 = Some (of_int n)"
    using unpack_filled [of "[0]" "of_int n" "fill_uint32 s' @ d @ [0]"] by simp
  have 2: "unpack_uint32 (0 # fill_uint32 (of_int n) @ fill_uint32 s' @ d @ [0]) 5 = Some s'"
    using unpack_filled [of "0 # fill_uint32 (of_int n)" s' "d @ [0]"] by simp
  have 3: "return_buffer (0 # fill_uint32 (of_int n) @ fill_uint32 s' @ d @ [0]) 9 (int (length d)) = Some [V_data d, V_int (int (length d))]"
    by (simp add: return_buffer_def)
  show ?thesis using A_number 1 2 3 u s session_word [OF s(2)] by (auto simp: lunpackrequest_def unpackreq_number_def address_bytes_def address_val_def)
next
  case (A_string nm)
  have n: "1 \<le> length nm" "length nm \<le> 255" using a A_string by (simp_all add: address_ok_def)
  let ?mem = "0x80 # of_nat (length nm) # nm @ fill_uint32 s' @ d @ [0]"
  have 1: "get_string ?mem 2 (length nm) = Some (V_string nm)" by (simp add: get_string_def)
  have 2: "unpack_uint32 ?mem (length nm + 2) = Some s'"
    using unpack_filled [of "0x80 # of_nat (length nm) # nm" s' "d @ [0]"] by simp
  have 3: "return_buffer ?mem (2 + length nm + 4) (int (length d)) = Some [V_data d, V_int (int (length d))]"
    using buffer_behind [of "0x80 # of_nat (length nm) # nm @ fill_uint32 s'" d "[0]"] by (simp add: ac_simps)
  have c: "uint (of_nat (length nm) :: u8) = int (length nm)" using n(2) by (simp add: unsigned_of_nat take_bit_eq_mod)
  show ?thesis using A_string 1 2 3 n of_nat_byte [OF n(2)] c s session_word [OF s(2)]
    by (auto simp: lunpackrequest_def unpackreq_string_def address_bytes_def address_val_def Let_def)
next
  case A_other
  then show ?thesis using a by (simp add: address_ok_def)
qed

text \<open>The first packet of a request that has parts.\<close>

lemma read_multi:
  assumes a: "address_ok a" and s: "session_ok s" and t: "t = 1 \<and> \<not> push \<or> t = 0x41 \<and> push"
  shows "lunpackrequest (address_bytes t a @ fill_uint32 (of_int s) @ fill_uint32 n @ [0]) (int (length (address_bytes t a @ fill_uint32 (of_int s) @ fill_uint32 n))) =
    Some (Inr [address_val a, V_int s, V_nil, V_int (uint n), V_bool True, V_bool push])"
proof (cases a)
  case (A_number k)
  have k: "0 \<le> k" "k < 2 ^ 32" using a A_number by (simp_all add: address_ok_def)
  have u: "uint (of_int k :: u32) = k" using k by (simp add: uint_word_of_int)
  let ?mem = "t # fill_uint32 (of_int k) @ fill_uint32 (of_int s) @ fill_uint32 n @ [0]"
  have 1: "unpack_uint32 ?mem 1 = Some (of_int k)" using unpack_filled [of "[t]" "of_int k" "fill_uint32 (of_int s) @ fill_uint32 n @ [0]"] by simp
  have 2: "unpack_uint32 ?mem 5 = Some (of_int s)" using unpack_filled [of "t # fill_uint32 (of_int k)" "of_int s" "fill_uint32 n @ [0]"] by simp
  have 3: "unpack_uint32 ?mem 9 = Some n" using unpack_filled [of "t # fill_uint32 (of_int k) @ fill_uint32 (of_int s)" n "[0]"] by simp
  show ?thesis using t A_number 1 2 3 u session_word [OF s]
    by (auto simp: lunpackrequest_def unpackmreq_number_def address_bytes_def address_val_def)
next
  case (A_string nm)
  have n: "1 \<le> length nm" "length nm \<le> 255" using a A_string by (simp_all add: address_ok_def)
  let ?t = "t OR 0x80"
  let ?mem = "?t # of_nat (length nm) # nm @ fill_uint32 (of_int s) @ fill_uint32 n @ [0]"
  have 1: "get_string ?mem 2 (length nm) = Some (V_string nm)" by (simp add: get_string_def)
  have 2: "unpack_uint32 ?mem (length nm + 2) = Some (of_int s)"
    using unpack_filled [of "?t # of_nat (length nm) # nm" "of_int s" "fill_uint32 n @ [0]"] by simp
  have 3: "unpack_uint32 ?mem (length nm + 6) = Some n"
    using unpack_filled [of "?t # of_nat (length nm) # nm @ fill_uint32 (of_int s)" n "[0]"] by (simp add: ac_simps)
  have c: "uint (of_nat (length nm) :: u8) = int (length nm)" using n(2) by (simp add: unsigned_of_nat take_bit_eq_mod)
  show ?thesis using t A_string 1 2 3 n of_nat_byte [OF n(2)] c session_word [OF s]
    by (auto simp: lunpackrequest_def unpackmreq_string_def address_bytes_def address_val_def Let_def)
next
  case A_other
  then show ?thesis using a by (simp add: address_ok_def)
qed

section \<open>Parts\<close>

fun part_bodies :: "nat \<Rightarrow> u32 \<Rightarrow> u8 list \<Rightarrow> u8 list list" where
  "part_bodies 0 s d = []"
| "part_bodies (Suc n) s d = ((if length d > MULTI_PART then 2 else 3) # fill_uint32 s @ take MULTI_PART d) # part_bodies n s (drop MULTI_PART d)"

definition part_count :: "nat \<Rightarrow> nat" where
  "part_count sz = (sz - 1) div MULTI_PART + 1"

lemma write_size_2 [simp]: "length (write_size n) = 2"
  by (simp add: write_size_def)

lemma multi_parts_spec: "length d \<le> n * MULTI_PART \<Longrightarrow> \<exists>ps. multi_parts n s d (length d) = Some ps \<and> list_all2 framed ps (part_bodies n s d)"
proof (induction n arbitrary: d)
  case (Suc n)
  let ?k = "if length d > MULTI_PART then MULTI_PART else length d"
  have k: "?k + 5 < 0x10000" "?k + 7 \<le> TEMP_LENGTH" "?k \<le> length d" by (simp_all add: MULTI_PART_def TEMP_LENGTH_def)
  have dr: "drop ?k d = drop MULTI_PART d" "take ?k d = take MULTI_PART d" "length d - ?k = length (drop MULTI_PART d)" by simp_all
  have "length (drop MULTI_PART d) \<le> n * MULTI_PART" using Suc.prems by simp
  from Suc.IH [OF this] obtain ps where ps: "multi_parts n s (drop MULTI_PART d) (length (drop MULTI_PART d)) = Some ps"
    "list_all2 framed ps (part_bodies n s (drop MULTI_PART d))" by blast
  let ?t = "if length d > MULTI_PART then 2 else 3 :: u8"
  have p: "temp_packet (write_size (?k + 5) @ [?t] @ fill_uint32 s) d ?k = Some (write_size (?k + 5) @ [?t] @ fill_uint32 s @ take MULTI_PART d)"
    using k by (simp add: temp_packet_def)
  have "framed (write_size (?k + 5) @ [?t] @ fill_uint32 s @ take MULTI_PART d) (?t # fill_uint32 s @ take MULTI_PART d)"
  proof -
    have l: "length (?t # fill_uint32 s @ take MULTI_PART d) = ?k + 5" by simp
    show ?thesis unfolding framed_def l using k(1) by simp
  qed
  moreover have "multi_parts (Suc n) s d (length d) = Some ((write_size (?k + 5) @ [?t] @ fill_uint32 s @ take MULTI_PART d) # ps)"
    using p ps(1) fill_header_Some [OF k(1)] dr by (simp add: Let_def split del: if_split)
  ultimately show ?case using ps(2) by (intro exI conjI) auto
qed simp

section \<open>Joining the parts\<close>

text \<open>The receiver takes the parts one by one: they carry the session, all but the last say that more follow.\<close>

fun join_parts :: "int \<Rightarrow> cluster_val list \<Rightarrow> u8 list list \<Rightarrow> cluster_val list option" where
  "join_parts s t [] = Some t"
| "join_parts s t (b # bs) =
     (case lunpackrequest (b @ [0]) (int (length b)) of
        Some (Inr [V_bool False, V_int s', V_data d, V_int n, V_bool more_follow]) \<Rightarrow>
          if s' = s \<and> more_follow = (bs \<noteq> []) then
            (case lappend t (V_data d) (V_int n) of Some (Inr t1) \<Rightarrow> join_parts s t1 bs | _ \<Rightarrow> None)
          else None
      | _ \<Rightarrow> None)"

fun part_chunks :: "nat \<Rightarrow> u8 list \<Rightarrow> u8 list list" where
  "part_chunks 0 d = []"
| "part_chunks (Suc n) d = take MULTI_PART d # part_chunks n (drop MULTI_PART d)"

lemma concat_part_chunks: "length d \<le> n * MULTI_PART \<Longrightarrow> concat (part_chunks n d) = d"
  by (induction n arbitrary: d) simp_all

lemma part_count_step:
  assumes n: "MULTI_PART < n"
  shows "part_count n = Suc (part_count (n - MULTI_PART))"
proof -
  have m: "MULTI_PART \<noteq> 0" by (simp add: MULTI_PART_def)
  have "n - 1 = (n - MULTI_PART - 1) + MULTI_PART" using n by simp
  then have "(n - 1) div MULTI_PART = (n - MULTI_PART - 1) div MULTI_PART + 1" using div_add_self2 [OF m, of "n - MULTI_PART - 1"] by simp
  then show ?thesis by (simp add: part_count_def)
qed

lemma part_count_last: "n \<le> MULTI_PART \<Longrightarrow> part_count n = 1"
  by (simp add: part_count_def MULTI_PART_def)

lemma part_count_room: "n \<le> part_count n * MULTI_PART"
proof (cases n)
  case (Suc m)
  have "m mod MULTI_PART < MULTI_PART" by (intro mod_less_divisor) (simp add: MULTI_PART_def)
  moreover have "m div MULTI_PART * MULTI_PART + m mod MULTI_PART = m" by (rule div_mult_mod_eq)
  moreover have "part_count n * MULTI_PART = m div MULTI_PART * MULTI_PART + MULTI_PART" using Suc by (simp add: part_count_def)
  ultimately show ?thesis using Suc by linarith
qed simp

lemma read_part:
  assumes "session_ok s" "t = 2 \<or> t = 3"
  shows "lunpackrequest ((t # fill_uint32 (of_int s) @ d) @ [0]) (int (length (t # fill_uint32 (of_int s) @ d))) =
    Some (Inr [V_bool False, V_int s, V_data d, V_int (int (length d)), V_bool (t = 2)])"
proof -
  have 1: "unpack_uint32 (t # fill_uint32 (of_int s) @ d @ [0]) 1 = Some (of_int s)" using unpack_filled [of "[t]" "of_int s" "d @ [0]"] by simp
  have 2: "return_buffer (t # fill_uint32 (of_int s) @ d @ [0]) 5 (int (length d)) = Some [V_data d, V_int (int (length d))]"
    using buffer_behind [of "t # fill_uint32 (of_int s)" d "[0]"] by simp
  show ?thesis using assms(2) 1 2 session_word [OF assms(1)] by (auto simp: lunpackrequest_def unpackmreq_part_def)
qed

lemma append_data: "length d < 2 ^ 31 \<Longrightarrow> lappend t (V_data d) (V_int (int (length d))) = Some (Inr (t @ [V_string d]))"
  using data_word(2) [of d] by (simp add: lappend_def)

lemma join_parts_spec:
  "session_ok s \<Longrightarrow> n = part_count (length d) \<Longrightarrow> join_parts s t (part_bodies n (of_int s) d) = Some (t @ map V_string (part_chunks n d))"
proof (induction n arbitrary: d t)
  case 0
  then show ?case by (simp add: part_count_def)
next
  case (Suc n)
  let ?c = "take MULTI_PART d"
  have c: "length ?c < 2 ^ 31" by (simp add: MULTI_PART_def min_def)
  have ne: "(part_bodies n (of_int s) (drop MULTI_PART d) \<noteq> []) = (MULTI_PART < length d)" and rest: "MULTI_PART < length d \<Longrightarrow> n = part_count (length (drop MULTI_PART d))"
    and last: "\<not> MULTI_PART < length d \<Longrightarrow> n = 0"
  proof -
    show "n = part_count (length (drop MULTI_PART d))" if "MULTI_PART < length d" using part_count_step [OF that] Suc.prems(2) by simp
    show "n = 0" if "\<not> MULTI_PART < length d" using part_count_last [of "length d"] that Suc.prems(2) by simp
    then show "(part_bodies n (of_int s) (drop MULTI_PART d) \<noteq> []) = (MULTI_PART < length d)"
      using part_count_step [of "length d"] Suc.prems(2) by (cases n) (auto simp: part_count_def)
  qed
  let ?t = "if length d > MULTI_PART then 2 else 3 :: u8"
  have r: "lunpackrequest ((?t # fill_uint32 (of_int s) @ ?c) @ [0]) (int (length (?t # fill_uint32 (of_int s) @ ?c))) =
      Some (Inr [V_bool False, V_int s, V_data ?c, V_int (int (length ?c)), V_bool (MULTI_PART < length d)])"
    using read_part [OF Suc.prems(1), of ?t ?c] by simp
  have "join_parts s t (part_bodies (Suc n) (of_int s) d) = join_parts s (t @ [V_string ?c]) (part_bodies n (of_int s) (drop MULTI_PART d))"
    unfolding part_bodies.simps join_parts.simps r using append_data [OF c] ne by simp
  also have "\<dots> = Some (t @ map V_string (part_chunks (Suc n) d))"
  proof (cases "MULTI_PART < length d")
    case True
    then show ?thesis using Suc.IH [OF Suc.prems(1) rest [OF True]] by simp
  next
    case False
    then show ?thesis using last by simp
  qed
  finally show ?case .
qed

lemma concat_loop_spec:
  "int (length buff + length (concat cs)) = sz \<Longrightarrow> sz < 2 ^ 31 \<Longrightarrow> concat_loop sz (map V_string cs) buff = Some (Some (buff @ concat cs))"
proof (induction cs arbitrary: buff)
  case (Cons c cs)
  have l: "length c < 2 ^ 31" using Cons.prems by simp
  have s: "sint (of_nat (length c) :: u32) = int (length c)" using data_word(2) [OF l] by simp
  have r: "int_range (int (length c) + int (length buff)) = Some (int (length c) + int (length buff))" using Cons.prems by (simp add: int_range_def)
  show ?case using Cons.IH [of "buff @ c"] Cons.prems s r by simp
qed simp

section \<open>Requests\<close>

definition packet_of :: "cluster_addr \<Rightarrow> int \<Rightarrow> u8 list \<Rightarrow> bool \<Rightarrow> u8 list" where
  "packet_of a s d push =
     (if length d < MULTI_PART then address_bytes 0 a @ fill_uint32 (if push then 0 else of_int s) @ d
      else address_bytes (if push then 0x41 else 1) a @ fill_uint32 (of_int s) @ fill_uint32 (of_nat (length d)))"

lemma framed_intro: "length body = n \<Longrightarrow> n < 0x10000 \<Longrightarrow> framed (write_size n @ body) body"
  by (simp add: framed_def)

lemma pack_first:
  assumes a: "address_ok a" and d: "length d < 2 ^ 31"
  shows "\<exists>p. (case a of A_number k \<Rightarrow> map_option Inr (packreq_number k (of_int s) d (of_nat (length d)) push)
      | _ \<Rightarrow> packreq_string a (of_int s) d (of_nat (length d)) push) =
    Some (Inr (p, if length d < MULTI_PART then 0 else part_count (length d))) \<and> framed p (packet_of a s d push)"
proof -
  have u: "unat (of_nat (length d) :: u32) = length d" using data_word(1) [OF d] by simp
  have m: "length d < MULTI_PART \<Longrightarrow> length d < 0x8000" by (simp add: MULTI_PART_def)
  show ?thesis
  proof (cases a)
    case (A_number k)
    show ?thesis
    proof (cases "length d < MULTI_PART")
      case True
      have h: "length d + 9 < 0x10000" "length d + 11 \<le> TEMP_LENGTH" using m [OF True] by (simp_all add: TEMP_LENGTH_def)
      have "framed (write_size (length d + 9) @ packet_of a s d push) (packet_of a s d push)"
        by (rule framed_intro) (use h(1) True A_number in \<open>simp_all add: packet_of_def address_bytes_def\<close>)
      then show ?thesis using A_number True u h fill_header_Some [OF h(1)]
        by (simp add: packreq_number_def temp_packet_def packet_of_def address_bytes_def)
    next
      case False
      have "framed (write_size 13 @ packet_of a s d push) (packet_of a s d push)"
        by (rule framed_intro) (use False A_number in \<open>simp_all add: packet_of_def address_bytes_def\<close>)
      then show ?thesis using A_number False u fill_header_Some [of 13]
        by (simp add: packreq_number_def packet_of_def address_bytes_def part_count_def Let_def)
    qed
  next
    case (A_string nm)
    have n: "nm \<noteq> []" "length nm \<le> 255" using a A_string by (auto simp: address_ok_def)
    show ?thesis
    proof (cases "length d < MULTI_PART")
      case True
      have h: "length d + 6 + length nm < 0x10000" "length d + length nm + 8 \<le> TEMP_LENGTH" using m [OF True] n by (simp_all add: TEMP_LENGTH_def)
      have "framed (write_size (length d + 6 + length nm) @ packet_of a s d push) (packet_of a s d push)"
        by (rule framed_intro) (use h(1) True A_string in \<open>simp_all add: packet_of_def address_bytes_def\<close>)
      then show ?thesis using A_string True n u h fill_header_Some [OF h(1)]
        by (simp add: packreq_string_def temp_packet_def packet_of_def address_bytes_def)
    next
      case False
      have h: "10 + length nm < 0x10000" using n by simp
      have "framed (write_size (10 + length nm) @ packet_of a s d push) (packet_of a s d push)"
        by (rule framed_intro) (use False A_string h in \<open>simp_all add: packet_of_def address_bytes_def\<close>)
      then show ?thesis using A_string False n u fill_header_Some [OF h]
        by (cases push) (simp_all add: packreq_string_def packet_of_def address_bytes_def part_count_def Let_def)
    qed
  next
    case A_other
    then show ?thesis using a by (simp add: address_ok_def)
  qed
qed

lemma pack_spec:
  assumes a: "address_ok a" and s: "session_ok s" and d: "length d < 2 ^ 31"
  shows "\<exists>p ps. packrequest push a s (Some d) (int (length d)) =
      Some (True, Inr ([V_string p, V_int (next_session s)] @ (if length d < MULTI_PART then [] else [V_table ps]))) \<and>
    framed p (packet_of a s d push) \<and> (if length d < MULTI_PART then ps = [] else list_all2 framed ps (part_bodies (part_count (length d)) (of_int s) d))"
proof -
  from pack_first [OF a d, of s push] obtain p where p: "(case a of A_number k \<Rightarrow> map_option Inr (packreq_number k (of_int s) d (of_nat (length d)) push)
      | _ \<Rightarrow> packreq_string a (of_int s) d (of_nat (length d)) push) =
    Some (Inr (p, if length d < MULTI_PART then 0 else part_count (length d)))" "framed p (packet_of a s d push)" by blast
  have w: "sint (of_int s :: u32) = s" "\<not> s \<le> 0" "(if uint (of_int s + 1 :: u32) > 0x7FFFFFFF then 1 else uint (of_int s + 1 :: u32)) = next_session s"
    using session_word [OF s] s by (simp_all add: session_ok_def)
  from multi_parts_spec [OF part_count_room, of d "of_int s"] obtain ps where
    ps: "multi_parts (part_count (length d)) (of_int s) d (length d) = Some ps" "list_all2 framed ps (part_bodies (part_count (length d)) (of_int s) d)" by blast
  have m: "packreq_multi (of_int s) d (of_nat (length d)) = Some ps" using ps(1) data_word(1) [OF d] by (simp add: packreq_multi_def part_count_def)
  have r: "packrequest push a s (Some d) (int (length d)) =
      Some (True, Inr ([V_string p, V_int (next_session s)] @ (if length d < MULTI_PART then [] else [V_table ps])))"
  proof -
    have "part_count (length d) \<noteq> 0" by (simp add: part_count_def)
    then show ?thesis using p(1) w m by (simp add: packrequest_def Let_def)
  qed
  show ?thesis
    by (rule exI [of _ p], rule exI [of _ "if length d < MULTI_PART then [] else ps"]) (use r p(2) ps(2) in simp)
qed

text \<open>
  C30. Cluster requests arrive as they were sent: for every address, session and message of less than \<open>2 ^ 31\<close> bytes the packer frees the
  message and gives packets that the packet filter of sockets separates; the first is read back as the address, the session (0
  for a push) and the message, or, from 32 KB on, as the announcement of a message of this size in parts; then the parts, all
  but the last saying that more follow, join to the message.
\<close>

theorem cluster_request_roundtrip:
  assumes a: "address_ok a" and s: "session_ok s" and d: "length d < 2 ^ 31"
  shows "\<exists>p ps first parts. packrequest push a s (Some d) (int (length d)) =
      Some (True, Inr ([V_string p, V_int (next_session s)] @ (if length d < MULTI_PART then [] else [V_table ps]))) \<and>
    split_packs (concat (p # ps)) = (first # parts, []) \<and>
    (if length d < MULTI_PART then
       lunpackrequest (first @ [0]) (int (length first)) =
         Some (Inr ([address_val a, V_int (if push then 0 else s), V_data d, V_int (int (length d))] @ (if push then [V_nil, V_bool True] else [])))
     else
       lunpackrequest (first @ [0]) (int (length first)) = Some (Inr [address_val a, V_int s, V_nil, V_int (int (length d)), V_bool True, V_bool push]) \<and>
       (\<exists>t0 t. lappend [] V_nil (V_int (int (length d))) = Some (Inr t0) \<and> join_parts s t0 parts = Some t \<and>
          lconcat t = Some (Inr [V_data d, V_int (int (length d))])))"
proof -
  from pack_spec [OF a s d, of push] obtain p ps where p: "packrequest push a s (Some d) (int (length d)) =
      Some (True, Inr ([V_string p, V_int (next_session s)] @ (if length d < MULTI_PART then [] else [V_table ps])))"
    "framed p (packet_of a s d push)" "if length d < MULTI_PART then ps = [] else list_all2 framed ps (part_bodies (part_count (length d)) (of_int s) d)" by blast
  let ?bs = "if length d < MULTI_PART then [] else part_bodies (part_count (length d)) (of_int s) d"
  have "list_all2 framed (p # ps) (packet_of a s d push # ?bs)" using p(2,3) by (auto split: if_splits)
  then have sp: "split_packs (concat (p # ps)) = (packet_of a s d push # ?bs, [])" by (rule split_framed)
  show ?thesis
  proof (cases "length d < MULTI_PART")
    case True
    have "lunpackrequest (packet_of a s d push @ [0]) (int (length (packet_of a s d push))) =
        Some (Inr ([address_val a, V_int (if push then 0 else s), V_data d, V_int (int (length d))] @ (if push then [V_nil, V_bool True] else [])))"
      using read_request [OF a _ s, of "if push then 0 else of_int s" d] True session_word [OF s] by (simp add: packet_of_def)
    then show ?thesis using p(1) sp True
      by (intro exI [of _ p] exI [of _ ps] exI [of _ "packet_of a s d push"] exI [of _ "[]"]) simp
  next
    case False
    have f: "lunpackrequest (packet_of a s d push @ [0]) (int (length (packet_of a s d push))) =
        Some (Inr [address_val a, V_int s, V_nil, V_int (int (length d)), V_bool True, V_bool push])"
      using read_multi [OF a s, of "if push then 0x41 else 1" push "of_nat (length d)"] False data_word(3) [OF d] by (simp add: packet_of_def)
    let ?t = "[V_int (int (length d))] @ map V_string (part_chunks (part_count (length d)) d)"
    have j: "join_parts s [V_int (int (length d))] (part_bodies (part_count (length d)) (of_int s) d) = Some ?t"
      by (rule join_parts_spec [OF s refl])
    have "concat_loop (int (length d)) (map V_string (part_chunks (part_count (length d)) d)) [] = Some (Some d)"
      using concat_loop_spec [of "[]" "part_chunks (part_count (length d)) d" "int (length d)"] concat_part_chunks [OF part_count_room] d by simp
    then have "lconcat ?t = Some (Inr [V_data d, V_int (int (length d))])" using data_word(2) [OF d] by (simp add: lconcat_def)
    then show ?thesis using p(1) sp False f j
      by (intro exI [of _ p] exI [of _ ps] exI [of _ "packet_of a s d push"] exI [of _ "part_bodies (part_count (length d)) (of_int s) d"])
        (simp add: lappend_def)
  qed
qed

theorem cluster_request_roundtrip_witness:
  "let a = A_string [64, 97]; s = 5; d = replicate 40000 1; push = False in
   \<exists>p ps first parts. packrequest push a s (Some d) (int (length d)) =
      Some (True, Inr ([V_string p, V_int (next_session s)] @ (if length d < MULTI_PART then [] else [V_table ps]))) \<and>
    split_packs (concat (p # ps)) = (first # parts, []) \<and>
    (if length d < MULTI_PART then
       lunpackrequest (first @ [0]) (int (length first)) =
         Some (Inr ([address_val a, V_int (if push then 0 else s), V_data d, V_int (int (length d))] @ (if push then [V_nil, V_bool True] else [])))
     else
       lunpackrequest (first @ [0]) (int (length first)) = Some (Inr [address_val a, V_int s, V_nil, V_int (int (length d)), V_bool True, V_bool push]) \<and>
       (\<exists>t0 t. lappend [] V_nil (V_int (int (length d))) = Some (Inr t0) \<and> join_parts s t0 parts = Some t \<and>
          lconcat t = Some (Inr [V_data d, V_int (int (length d))])))"
  unfolding Let_def by (rule cluster_request_roundtrip) (simp_all add: address_ok_def session_ok_def)

section \<open>Responses\<close>

fun response_bodies :: "nat \<Rightarrow> u32 \<Rightarrow> u8 list \<Rightarrow> u8 list list" where
  "response_bodies 0 s d = []"
| "response_bodies (Suc n) s d = (fill_uint32 s @ (if length d > MULTI_PART then 3 else 4) # take MULTI_PART d) # response_bodies n s (drop MULTI_PART d)"

lemma response_parts_spec:
  "length d \<le> n * MULTI_PART \<Longrightarrow> \<exists>ps. response_parts n s d (length d) = Some ps \<and> list_all2 framed ps (response_bodies n s d)"
proof (induction n arbitrary: d)
  case (Suc n)
  let ?k = "if length d > MULTI_PART then MULTI_PART else length d"
  have k: "?k + 5 < 0x10000" "?k + 7 \<le> TEMP_LENGTH" "?k \<le> length d" by (simp_all add: MULTI_PART_def TEMP_LENGTH_def)
  have dr: "drop ?k d = drop MULTI_PART d" "take ?k d = take MULTI_PART d" "length d - ?k = length (drop MULTI_PART d)" by simp_all
  have "length (drop MULTI_PART d) \<le> n * MULTI_PART" using Suc.prems by simp
  from Suc.IH [OF this] obtain ps where ps: "response_parts n s (drop MULTI_PART d) (length (drop MULTI_PART d)) = Some ps"
    "list_all2 framed ps (response_bodies n s (drop MULTI_PART d))" by blast
  let ?t = "if length d > MULTI_PART then 3 else 4 :: u8"
  have p: "temp_packet (write_size (?k + 5) @ fill_uint32 s @ [?t]) d ?k = Some (write_size (?k + 5) @ fill_uint32 s @ ?t # take MULTI_PART d)"
    using k by (simp add: temp_packet_def)
  have "framed (write_size (?k + 5) @ fill_uint32 s @ ?t # take MULTI_PART d) (fill_uint32 s @ ?t # take MULTI_PART d)"
    by (rule framed_intro) (use k(1) in simp_all)
  moreover have "response_parts (Suc n) s d (length d) = Some ((write_size (?k + 5) @ fill_uint32 s @ ?t # take MULTI_PART d) # ps)"
    using p ps(1) fill_header_Some [OF k(1)] dr by (simp add: Let_def split del: if_split)
  ultimately show ?case using ps(2) by (intro exI conjI) auto
qed simp

text \<open>The receiver of a response collects the parts until one says that none follows.\<close>

fun join_responses :: "int \<Rightarrow> u8 list list \<Rightarrow> cluster_val list option" where
  "join_responses s [] = Some []"
| "join_responses s (b # bs) =
     (case lunpackresponse b of
        Some (Inr [V_int s', V_bool True, V_string d]) \<Rightarrow> if s' = s \<and> bs = [] then Some [V_string d] else None
      | Some (Inr [V_int s', V_bool True, V_string d, V_bool True]) \<Rightarrow>
          if s' = s then map_option (Cons (V_string d)) (join_responses s bs) else None
      | _ \<Rightarrow> None)"

lemma read_response:
  assumes "0 \<le> s" "s < 2 ^ 32"
  shows "lunpackresponse (fill_uint32 (of_int s) @ 0 # d) = Some (Inr [V_int s, V_bool False, V_string d])"
    and "lunpackresponse (fill_uint32 (of_int s) @ 1 # d) = Some (Inr [V_int s, V_bool True, V_string d])"
    and "lunpackresponse (fill_uint32 (of_int s) @ 4 # d) = Some (Inr [V_int s, V_bool True, V_string d])"
    and "lunpackresponse (fill_uint32 (of_int s) @ 3 # d) = Some (Inr [V_int s, V_bool True, V_string d, V_bool True])"
    and "lunpackresponse (fill_uint32 (of_int s) @ 2 # fill_uint32 n) = Some (Inr [V_int s, V_bool True, V_int (uint n), V_bool True])"
proof -
  have u: "uint (of_int s :: u32) = s" using assms by (simp add: uint_word_of_int)
  have 1: "unpack_uint32 (fill_uint32 (of_int s) @ t # r) 0 = Some (of_int s)" for t r
    using unpack_filled [of "[]" "of_int s" "t # r"] by simp
  have 2: "arr_get (fill_uint32 (of_int s) @ t # r) 4 = Some t" for t r by (simp add: nth_append)
  have 3: "unpack_uint32 (fill_uint32 (of_int s) @ 2 # fill_uint32 n @ [0]) 5 = Some n"
    using unpack_filled [of "fill_uint32 (of_int s) @ [2]" n "[0]"] by simp
  show "lunpackresponse (fill_uint32 (of_int s) @ 0 # d) = Some (Inr [V_int s, V_bool False, V_string d])"
    "lunpackresponse (fill_uint32 (of_int s) @ 1 # d) = Some (Inr [V_int s, V_bool True, V_string d])"
    "lunpackresponse (fill_uint32 (of_int s) @ 4 # d) = Some (Inr [V_int s, V_bool True, V_string d])"
    "lunpackresponse (fill_uint32 (of_int s) @ 3 # d) = Some (Inr [V_int s, V_bool True, V_string d, V_bool True])"
    "lunpackresponse (fill_uint32 (of_int s) @ 2 # fill_uint32 n) = Some (Inr [V_int s, V_bool True, V_int (uint n), V_bool True])"
    using u 1 2 3 by (simp_all add: lunpackresponse_def Let_def del: arr_get_Some)
qed

lemma join_responses_spec:
  "0 \<le> s \<Longrightarrow> s < 2 ^ 32 \<Longrightarrow> n = part_count (length d) \<Longrightarrow> join_responses s (response_bodies n (of_int s) d) = Some (map V_string (part_chunks n d))"
proof (induction n arbitrary: d)
  case 0
  then show ?case by simp
next
  case (Suc n)
  show ?case
  proof (cases "MULTI_PART < length d")
    case True
    then have n: "n = part_count (length (drop MULTI_PART d))" using part_count_step [OF True] Suc.prems(3) by simp
    have "join_responses s (response_bodies (Suc n) (of_int s) d) =
        map_option (Cons (V_string (take MULTI_PART d))) (join_responses s (response_bodies n (of_int s) (drop MULTI_PART d)))"
      using True read_response(4) [OF Suc.prems(1,2)] by (simp split: option.splits)
    then show ?thesis using Suc.IH [OF Suc.prems(1,2) n] by simp
  next
    case False
    then have "n = 0" using part_count_last [of "length d"] Suc.prems(3) by simp
    then show ?thesis using False read_response(3) [OF Suc.prems(1,2)] by simp
  qed
qed

text \<open>
  C31. Cluster responses arrive as they were sent: for every session, a response of less than \<open>2 ^ 31\<close> bytes is packed into packets
  that the packet filter separates.  An error message comes back as failed, cut at 32 KB; a result of up to 32 KB as one packet; a
  longer one as its announced size and its parts, which join to it.
\<close>

theorem cluster_response_roundtrip:
  assumes s: "0 \<le> s" "s < 2 ^ 32" and d: "length d < 2 ^ 31"
  shows "\<exists>ps bs. lpackresponse s ok d (length d) = Some (Inr (if ok \<and> MULTI_PART < length d then [V_table ps] else map V_string ps)) \<and>
    split_packs (concat ps) = (bs, []) \<and>
    (if ok \<and> MULTI_PART < length d then
       \<exists>t. lunpackresponse (hd bs) = Some (Inr [V_int s, V_bool True, V_int (int (length d)), V_bool True]) \<and>
         join_responses s (tl bs) = Some t \<and> lconcat (V_int (int (length d)) # t) = Some (Inr [V_data d, V_int (int (length d))])
     else \<exists>b. bs = [b] \<and> lunpackresponse b = Some (Inr [V_int s, V_bool ok, V_string (if ok then d else take MULTI_PART d)]))"
proof (cases "ok \<and> MULTI_PART < length d")
  case True
  let ?b = "fill_uint32 (of_int s) @ 2 # fill_uint32 (of_nat (length d))" let ?n = "part_count (length d)"
  from response_parts_spec [OF part_count_room, of d "of_int s"] obtain ps where
    ps: "response_parts ?n (of_int s) d (length d) = Some ps" "list_all2 framed ps (response_bodies ?n (of_int s) d)" by blast
  have f: "framed (write_size 9 @ ?b) ?b" by (rule framed_intro) simp_all
  have n: "nat (part_quotient (int (length d) - 1) + 1) = ?n"
  proof -
    have 1: "int (length d) - 1 = int (length d - 1)" using True by (cases "length d") simp_all
    have "part_quotient (int (length d) - 1) + 1 = int ?n"
      unfolding 1 part_quotient_def part_count_def by (simp add: zdiv_int)
    then show ?thesis by (metis nat_int)
  qed
  have "lpackresponse s ok d (length d) = Some (Inr [V_table ((write_size 9 @ ?b) # ps)])"
    using True ps(1) n fill_header_Some [of 9] d data_word(2) [OF d] by (simp add: lpackresponse_def int_range_def Let_def)
  moreover have "split_packs (concat ((write_size 9 @ ?b) # ps)) = (?b # response_bodies ?n (of_int s) d, [])"
    by (rule split_framed) (use f ps(2) in simp)
  moreover have "lunpackresponse ?b = Some (Inr [V_int s, V_bool True, V_int (int (length d)), V_bool True])"
    using read_response(5) [OF s, of "of_nat (length d)"] data_word(3) [OF d] by simp
  moreover have "join_responses s (response_bodies ?n (of_int s) d) = Some (map V_string (part_chunks ?n d))" by (rule join_responses_spec [OF s refl])
  moreover have "lconcat (V_int (int (length d)) # map V_string (part_chunks ?n d)) = Some (Inr [V_data d, V_int (int (length d))])"
    using concat_loop_spec [of "[]" "part_chunks ?n d" "int (length d)"] concat_part_chunks [OF part_count_room] d data_word(2) [OF d] by (simp add: lconcat_def)
  ultimately show ?thesis using True
    by (intro exI [of _ "(write_size 9 @ ?b) # ps"] exI [of _ "?b # response_bodies ?n (of_int s) d"]) simp
next
  case False
  let ?k = "if \<not> ok \<and> length d > MULTI_PART then MULTI_PART else length d"
  let ?d = "take ?k d" let ?b = "fill_uint32 (of_int s) @ (if ok then 1 else 0) # ?d"
  have k: "?k + 5 < 0x10000" "?k + 7 \<le> TEMP_LENGTH" "?k \<le> length d" using False by (auto simp: MULTI_PART_def TEMP_LENGTH_def)
  have "lpackresponse s ok d (length d) = Some (Inr [V_string (write_size (?k + 5) @ ?b)])"
    unfolding lpackresponse_def Let_def if_not_P [OF False] fill_header_Some [OF k(1)] using k by (simp add: temp_packet_def split del: if_split)
  moreover have fr: "framed (write_size (?k + 5) @ ?b) ?b" by (rule framed_intro) (use k in simp_all)
  have "split_packs (concat [write_size (?k + 5) @ ?b]) = ([?b], [])" by (rule split_framed) (use fr in simp)
  moreover have "?d = (if ok then d else take MULTI_PART d)" using False by auto
  then have "lunpackresponse ?b = Some (Inr [V_int s, V_bool ok, V_string (if ok then d else take MULTI_PART d)])"
    using read_response(1,2) [OF s] by (cases ok) simp_all
  ultimately show ?thesis unfolding if_not_P [OF False]
    by (intro exI [of _ "[write_size (?k + 5) @ ?b]"] exI [of _ "[?b]"] conjI) simp_all
qed

theorem cluster_response_roundtrip_witness:
  "let s = 7; ok = True; d = replicate 70000 1 in
   \<exists>ps bs. lpackresponse s ok d (length d) = Some (Inr (if ok \<and> MULTI_PART < length d then [V_table ps] else map V_string ps)) \<and>
    split_packs (concat ps) = (bs, []) \<and>
    (if ok \<and> MULTI_PART < length d then
       \<exists>t. lunpackresponse (hd bs) = Some (Inr [V_int s, V_bool True, V_int (int (length d)), V_bool True]) \<and>
         join_responses s (tl bs) = Some t \<and> lconcat (V_int (int (length d)) # t) = Some (Inr [V_data d, V_int (int (length d))])
     else \<exists>b. bs = [b] \<and> lunpackresponse b = Some (Inr [V_int s, V_bool ok, V_string (if ok then d else take MULTI_PART d)]))"
  unfolding Let_def by (rule cluster_response_roundtrip) simp_all

text \<open>The size of a response is read as an \<open>int\<close>, so from \<open>2 ^ 31\<close> bytes on it is announced without a single part.\<close>

lemma oversized_response_has_no_parts:
  assumes "2 ^ 31 < n" "n < 2 ^ 32 - MULTI_PART"
  shows "lpackresponse s True msg n = Some (Inr [V_table [write_size 9 @ fill_uint32 (of_int s) @ [2] @ fill_uint32 (of_nat n)]])"
proof -
  have n: "int n - 2 ^ 32 \<le> - int MULTI_PART" "- (2 ^ 31) < int n - 2 ^ 32" "MULTI_PART < n"
    using assms by (simp_all add: MULTI_PART_def)
  have i: "sint (of_nat n :: u32) = int n - 2 ^ 32"
  proof -
    have "(int n + 2 ^ 31) mod 2 ^ 32 = int n + 2 ^ 31 - 2 ^ 32"
      using assms mod_pos_geq [of "2 ^ 32" "int n + 2 ^ 31"] by (simp add: MULTI_PART_def)
    then show ?thesis by (simp add: signed_of_nat signed_take_bit_eq_take_bit_shift take_bit_eq_mod)
  qed
  have r: "int_range (sint (of_nat n :: u32) - 1) = Some (int n - 2 ^ 32 - 1)"
    unfolding i int_range_def using n assms by simp
  have q: "nat (part_quotient (int n - 2 ^ 32 - 1) + 1) = 0"
    using n by (simp add: part_quotient_def MULTI_PART_def)
  show ?thesis unfolding lpackresponse_def Let_def using n(3) r q fill_header_Some [of 9] by simp
qed

end
