(* ===== verification/Spec2Isabelle.thy ===== *)
theory Spec2Isabelle
  imports Prelude Fifo MessageQueue Scheduler Timer HandleStorage
    CString Module Server Command Delivery CommandProps
    DataBuffer HashId Gate GateStreams NetPack
    Des Encoding Hmac DhKey SeriProps SocketTheorems SprotoPackProps LSprotoDecode LSprotoQuery HarborOwn ClusterProps
begin

text \<open>
  A verification library for WinSkynet: the core of the skynet node (\<^verbatim>\<open>skynet-src\<close>), its gate
  service (\<^verbatim>\<open>service-src\<close>) and the libraries through which Lua services serialize, frame and
  encrypt (\<^verbatim>\<open>lualib-src\<close>).

  \<^bold>\<open>The program.\<close>  A node runs services.  A service has a handle, a context and a message queue.  Sending
  pushes a message on the queue of the destination; a queue that becomes non-empty enters the global queue,
  from which worker threads take it, dispatch some of its messages to the callback of the service, and put it
  back.  A timer thread turns a wheel of timeouts into messages.  A socket thread serves the connections: workers
  ask it through a control channel, and write directly where they can.  A gate service cuts the byte streams of
  client connections into packets.  Messages between Lua services are Lua values in serialized form.

  \<^bold>\<open>Theories and sources.\<close>
  \<^item> \<^verbatim>\<open>Prelude\<close>: machine integers, arrays with bounds, the option monad and lemmas all theories share.
  \<^item> \<^verbatim>\<open>Fifo\<close>: the interface of a queue whose operations may fail, with what a client may conclude; interpreted
    by the message queue and by the packet queue.
  \<^item> \<^verbatim>\<open>MessageQueue\<close>: \<^verbatim>\<open>skynet_mq.c\<close> (ring buffer that doubles, global queue as a linked list over a heap
    of queues).  \<^verbatim>\<open>Scheduler\<close>: the steps of \<^verbatim>\<open>skynet_context_message_dispatch\<close> of all threads on those queues.
  \<^item> \<^verbatim>\<open>Timer\<close>: \<^verbatim>\<open>skynet_timer.c\<close> (256 near slots and four levels of 64).
  \<^item> \<^verbatim>\<open>HandleStorage\<close>: \<^verbatim>\<open>skynet_handle.c\<close> (table of handles, sorted list of names).
  \<^item> \<^verbatim>\<open>CString\<close>: the C string functions the commands use.  \<^verbatim>\<open>Module\<close>: \<^verbatim>\<open>skynet_module.c\<close>.
  \<^item> \<^verbatim>\<open>Server\<close>: \<^verbatim>\<open>skynet_server.c\<close> with the harbor, monitor, error and environment files: contexts, reference
    counts, sending, dispatching.  \<^verbatim>\<open>Command\<close>: the text commands and \<^verbatim>\<open>skynet_log.c\<close>.  \<^verbatim>\<open>Delivery\<close> and
    \<^verbatim>\<open>CommandProps\<close>: their properties.
  \<^item> \<^verbatim>\<open>DataBuffer\<close>, \<^verbatim>\<open>HashId\<close>: the two headers \<^verbatim>\<open>databuffer.h\<close> and \<^verbatim>\<open>hashid.h\<close>; \<^verbatim>\<open>Gate\<close>: \<^verbatim>\<open>service_gate.c\<close>
    over both; \<^verbatim>\<open>GateStreams\<close>: what the gate does to byte streams, with
    lengths of two bytes or four, for connections that forward and those that do not.
  \<^item> \<^verbatim>\<open>NetPack\<close>: \<^verbatim>\<open>lua-netpack.c\<close>.
  \<^item> \<^verbatim>\<open>Des\<close>, \<^verbatim>\<open>Encoding\<close>, \<^verbatim>\<open>Hmac\<close>, \<^verbatim>\<open>DhKey\<close>: \<^verbatim>\<open>lua-crypt.c\<close>.
  \<^item> \<^verbatim>\<open>Seri\<close>, \<^verbatim>\<open>SeriProps\<close>: \<^verbatim>\<open>lua-seri.c\<close>.
  \<^item> \<^verbatim>\<open>SocketServer\<close>: \<^verbatim>\<open>socket_server.c\<close> as built for Windows, with its headers: the slots, the write buffers, the
    requests of the control channel, the events of the poller, the calls of workers.  \<^verbatim>\<open>SocketBuffers\<close>: what sending
    the buffers of one socket does.  \<^verbatim>\<open>SocketInv\<close>: the invariant of the server and that every request keeps it.
    \<^verbatim>\<open>SocketProps\<close>: events, calls of workers, all runs.  \<^verbatim>\<open>SocketStream\<close>: what each step does to the bytes of one
    stream.  \<^verbatim>\<open>SocketTheorems\<close>: the properties.
  \<^item> \<^verbatim>\<open>SprotoPack\<close>, \<^verbatim>\<open>SprotoPackProps\<close>: the zero packing of \<^verbatim>\<open>sproto.c\<close> and its callers in \<^verbatim>\<open>lsproto.c\<close>.
  \<^item> \<^verbatim>\<open>SprotoTypes\<close>: the schema of \<^verbatim>\<open>sproto.c\<close>, its import from a bundle and its queries; \<^verbatim>\<open>SprotoTypesProps\<close>: the
    schemas that the import accepts.  \<^verbatim>\<open>SprotoCodec\<close>: \<open>sproto_encode\<close> and \<open>sproto_decode\<close> over a callback.
    \<^verbatim>\<open>SprotoMemory\<close>: regions of bytes.  \<^verbatim>\<open>SprotoEncode\<close>: the message as a function of the values of the fields, the
    interface of a callback (locale \<open>encode_source\<close>) and what the encoder writes for it.  \<^verbatim>\<open>SprotoDecode\<close>: the calls
    the decoder makes for a message.
  \<^item> \<^verbatim>\<open>LSproto\<close>: the callbacks of \<^verbatim>\<open>lsproto.c\<close> over Lua tables, \<open>lencode\<close>, \<open>ldecode\<close>, queries, global schemas.
    \<^verbatim>\<open>LSprotoEncode\<close>: its encoder is an interpretation of the interface, at each of the 64 levels.  \<^verbatim>\<open>LSprotoDecode\<close>: the
    tables that are decoded, and the round trip.  \<^verbatim>\<open>LSprotoQuery\<close>: the queries.
  \<^item> \<^verbatim>\<open>Harbor\<close>: the harbor service of \<^verbatim>\<open>service-src/service_harbor.c\<close>, which connects the nodes: the queues of messages
    for nodes and names, the table of names, the state machine that cuts a connection into messages, the commands and the main
    loop; writes, sends and frees are recorded in \<open>hb_outs\<close>.  \<^verbatim>\<open>HarborQueue\<close>: its rings are an interpretation of the locale of
    queues.  \<^verbatim>\<open>HarborStream\<close>: what the state machine does is cutting the stream (fuel: one round for each byte and two more are
    enough, as every round but the first takes a byte).  \<^verbatim>\<open>HarborRemote\<close>: messages from node to node.  \<^verbatim>\<open>HarborConnect\<close>: the commands and the
    handshake, and two errors.  \<^verbatim>\<open>HarborInv\<close>: the invariant, and that no step fails.  \<^verbatim>\<open>HarborOwn\<close>: the buffers of messages.
  \<^item> \<^verbatim>\<open>Cluster\<close>: the packets of requests and responses between clusters, \<^verbatim>\<open>lualib-src/lua-cluster.c\<close>; \<^verbatim>\<open>ClusterProps\<close>:
    that they are read back.

  \<^bold>\<open>Conventions.\<close>  A C struct is a record, a pointer an address into an explicit store where sharing matters,
  an integer a word of its width (or an \<open>int\<close> with \<open>int_range\<close> where signed overflow would be undefined).  A
  function returns an \<open>option\<close>: \<open>None\<close> is a failed assertion, an access outside an array, a NULL pointer that is
  followed, signed overflow, or a loop that never ends; the error codes and errors the code itself returns are
  values.  In \<^verbatim>\<open>Seri\<close>, \<^verbatim>\<open>SprotoCodec\<close> and
  \<^verbatim>\<open>LSproto\<close> \<open>None\<close> is also a Lua error the code or a callback raises.  Loops without an evident bound are
  \<open>partial_function (option)\<close>, and a theorem that the operation returns is part of its property; the reader of
  serialized values recurses with the number of bytes left as its bound, and \<open>unpack_bounds\<close> shows that any
  greater bound gives the same result.  Code outside \<^verbatim>\<open>src\<close> (the callbacks of services, dynamic libraries, clocks, float arithmetic of Lua, random
  numbers, the allocator) is a parameter or an input of the operation.  Operations under a lock are atomic
  steps.  Memory does not run out.

  \<^bold>\<open>What the lemmas show.\<close>  For each table and queue: its invariant, that every operation keeps it and returns, and
  that the operations act on the abstract value (a list, a finite map, an agenda of events) as its specification
  does.  For the threads: exclusive dispatch and no lost wake-up, by rule induction over the step relation.  For the
  node: who owns the memory of a message after each branch of a send.  For byte streams: the framing by the gate
  and the packet filter depends on the bytes alone, not on how they arrive.  For the codecs: round trips, the
  errors they raise, the bounds they stay in, and equality with the reference definition (MD5, modular power).
  For the socket server: an invariant over slots, events and the requests on their way (each reserved id is opened by
  exactly one request, the counter of a stream is the number of its sends in the channel, no event is left for a
  closed socket), which excludes every failed assertion; the order of the bytes of a stream; draining at a close; and
  the four ways in which the code itself leaves the conditions of these theorems.
  For sproto: an accepted schema is well-formed; for such a schema the bytes of a message depend on the values of the
  fields alone, whatever buffer the encoder gets, and are written without leaving it; the decoder asks for these
  values again; so a Lua table that conforms to the schema is encoded (the buffer doubles until it fits) and decoded
  to the table of its fields.
  For the harbor: the messages one node sends to another arrive there unchanged and in order, however their bytes are cut
  (one with a negative session is answered with an error as well, as the code takes the session for a failure);
  those that wait for a node are sent when it answers; the service never fails on a well-formed input, and neither loses a
  buffer nor frees one twice; and two situations in which a message is lost.
  For the cluster: requests, pushes and responses of any size below \<open>2 ^ 31\<close> bytes are read back as they were sent, through
  the packet filter that gate and netpack share, in one packet or joined from parts.
  Limits that the code has are conditions of the theorems: what is counted in a C \<open>int\<close> (the text of base 64, the bytes of
  serialized values, the bytes a connection of the gate has buffered) stays below \<open>2 ^ 31\<close>, and the encoder of sproto,
  which leaves each double on the stack of Lua, needs that many slots.  Only the capacity of a message queue is a
  natural number: its \<open>int\<close> overflows with \<open>2 ^ 30\<close> messages waiting.

  \<^bold>\<open>Not modelled.\<close>  The Lua binding of the socket server, the Windows layer below it (descriptors, poller and name resolution
  are inputs of its steps, their calls effects in a log), the start-up of the process, the
  allocator hooks, and the bindings that only move values between Lua and the modelled functions; the
  third-party code in \<^verbatim>\<open>3rd\<close> and \<^verbatim>\<open>wepoll\<close>; the Lua services and libraries, which are another language; spin
  locks and the memory order of atomics: a call of a worker on a socket and a round of the socket thread are
  atomic steps, so the races inside a direct write are not modelled.
  Of sproto: the dump of a schema, the table of defaults, and releasing a schema. Of the cluster: the name of the node.
\<close>

end
